(* ===== verification/Clips_Prelude.thy ===== *)
theory Clips_Prelude
  imports Main "HOL-Library.Monad_Syntax" "HOL-Library.Multiset" "HOL-Library.Word"
begin

text \<open>
  Shared vocabulary of the development: C pointers (\<open>NULL\<close> is \<open>None\<close>), stores of
  nodes addressed by pointers, assignments through a pointer, and doubly linked chains
  of nodes.  A read or a write through a null or dangling pointer is \<open>None\<close>, so that
  every memory error of the C code is a visible outcome of the model.

  The interface \<open>linked_nodes\<close> states what a node type with a previous and a next
  link promises; the splice lemmas for doubly linked chains are proved once inside it and
  are interpreted for rule activations and for salience groups.
\<close>

named_theorems heap_simps \<open>reads and writes of the node stores\<close>
named_theorems frame_simps \<open>what an operation leaves unchanged\<close>

type_synonym addr = nat
type_synonym ptr = "addr option"
type_synonym u64 = "64 word"

section \<open>Reads and writes through pointers\<close>

definition deref :: "(addr \<rightharpoonup> 'n) \<Rightarrow> ptr \<Rightarrow> 'n option" where
  "deref h p = Option.bind p h"

definition upd_at :: "ptr \<Rightarrow> ('n \<Rightarrow> 'n) \<Rightarrow> (addr \<rightharpoonup> 'n) \<Rightarrow> (addr \<rightharpoonup> 'n) option" where
  "upd_at p f h = do { a \<leftarrow> p; r \<leftarrow> h a; Some (h(a \<mapsto> f r)) }"

lemma deref_simps [simp, heap_simps]:
  "deref h None = None"
  "deref h (Some a) = h a"
  by (simp_all add: deref_def)

lemma upd_at_simps [simp, heap_simps]:
  "upd_at None f h = None"
  "h a = Some r \<Longrightarrow> upd_at (Some a) f h = Some (h(a \<mapsto> f r))"
  "h a = None \<Longrightarrow> upd_at (Some a) f h = None"
  by (simp_all add: upd_at_def)

lemma bind_eq_Some [simp]:
  "(Option.bind x f = Some y) = (\<exists>z. x = Some z \<and> f z = Some y)"
  by (cases x) auto

lemma Some_eq_bind [simp]:
  "(Some y = Option.bind x f) = (\<exists>z. x = Some z \<and> f z = Some y)"
  by (cases x) auto

section \<open>First and last node of a segment\<close>

fun hdp :: "addr list \<Rightarrow> ptr \<Rightarrow> ptr" where
  "hdp [] n = n"
| "hdp (x # xs) n = Some x"

fun lastp :: "ptr \<Rightarrow> addr list \<Rightarrow> ptr" where
  "lastp p [] = p"
| "lastp p (x # xs) = lastp (Some x) xs"

lemma hdp_append [simp]: "hdp (xs @ ys) n = hdp xs (hdp ys n)"
  by (cases xs) auto

lemma lastp_append [simp]: "lastp p (xs @ ys) = lastp (lastp p xs) ys"
  by (induction xs arbitrary: p) auto

lemma lastp_last: "xs \<noteq> [] \<Longrightarrow> lastp p xs = Some (last xs)"
  by (induction xs arbitrary: p) auto

lemma hdp_hd: "xs \<noteq> [] \<Longrightarrow> hdp xs n = Some (hd xs)"
  by (cases xs) auto

lemma lastp_None_iff [simp]: "(lastp None xs = None) = (xs = [])" "(None = lastp None xs) = (xs = [])"
  by (cases xs rule: rev_cases; auto)+

lemma hdp_None_iff [simp]: "(hdp xs None = None) = (xs = [])" "(None = hdp xs None) = (xs = [])"
  by (cases xs; auto)+

lemma lastp_None_Some: "lastp None xs = Some x \<Longrightarrow> x \<in> set xs"
  by (cases xs rule: rev_cases) auto

lemma hdp_None_Some: "hdp xs None = Some x \<Longrightarrow> x \<in> set xs"
  by (cases xs) auto

lemma lastp_Some_in: "lastp (Some a) xs = Some x \<Longrightarrow> x = a \<or> x \<in> set xs"
  by (cases xs rule: rev_cases) auto

section \<open>Doubly linked segments\<close>

text \<open>
  \<open>dlseg h p xs n\<close>: the nodes \<open>xs\<close> are linked in this order by the link map \<open>h\<close>
  (each address to its previous and next pointer), the first one has previous pointer
  \<open>p\<close> and the last one has next pointer \<open>n\<close>.
\<close>

type_synonym links = "addr \<rightharpoonup> ptr \<times> ptr"

fun dlseg :: "links \<Rightarrow> ptr \<Rightarrow> addr list \<Rightarrow> ptr \<Rightarrow> bool" where
  "dlseg h p [] n = True"
| "dlseg h p (x # xs) n = (h x = Some (p, hdp xs n) \<and> dlseg h (Some x) xs n)"

lemma dlseg_append [simp]:
  "dlseg h p (xs @ ys) n = (dlseg h p xs (hdp ys n) \<and> dlseg h (lastp p xs) ys n)"
  by (induction xs arbitrary: p) auto

lemma dlseg_cong: "\<lbrakk>\<And>x. x \<in> set xs \<Longrightarrow> h x = h' x\<rbrakk> \<Longrightarrow> dlseg h p xs n = dlseg h' p xs n"
  by (induction xs arbitrary: p) auto

lemma dlseg_upd [simp]: "a \<notin> set xs \<Longrightarrow> dlseg (h(a := v)) p xs n = dlseg h p xs n"
  by (rule dlseg_cong) auto

lemma dlseg_dom: "\<lbrakk>dlseg h p xs n; x \<in> set xs\<rbrakk> \<Longrightarrow> \<exists>l. h x = Some l"
  by (induction xs arbitrary: p) auto

definition nxt_upd :: "links \<Rightarrow> ptr \<Rightarrow> ptr \<Rightarrow> links" where
  "nxt_upd h p q = (case p of None \<Rightarrow> h | Some a \<Rightarrow>
     (case h a of None \<Rightarrow> h | Some l \<Rightarrow> h(a \<mapsto> (fst l, q))))"

definition prv_upd :: "links \<Rightarrow> ptr \<Rightarrow> ptr \<Rightarrow> links" where
  "prv_upd h p q = (case p of None \<Rightarrow> h | Some a \<Rightarrow>
     (case h a of None \<Rightarrow> h | Some l \<Rightarrow> h(a \<mapsto> (q, snd l))))"

lemma nxt_upd_None [simp]: "nxt_upd h None q = h"
  and prv_upd_None [simp]: "prv_upd h None q = h"
  by (simp_all add: nxt_upd_def prv_upd_def)

lemma nxt_upd_other: "Some x \<noteq> p \<Longrightarrow> nxt_upd h p q x = h x"
  and prv_upd_other: "Some x \<noteq> p \<Longrightarrow> prv_upd h p q x = h x"
  by (auto simp: nxt_upd_def prv_upd_def split: option.splits)

lemma nxt_upd_dom: "(nxt_upd h p q x = None) = (h x = None)"
  and prv_upd_dom: "(prv_upd h p q x = None) = (h x = None)"
  by (auto simp: nxt_upd_def prv_upd_def split: option.splits)

lemma dlseg_nxt_upd_other: "lastp None ys = p \<Longrightarrow> set ys \<inter> set xs = {} \<Longrightarrow>
    dlseg (nxt_upd h p q) r xs n = dlseg h r xs n"
  by (rule dlseg_cong, rule nxt_upd_other) (metis disjoint_iff lastp_None_Some)

lemma dlseg_prv_upd_other: "hdp ys None = p \<Longrightarrow> set ys \<inter> set xs = {} \<Longrightarrow>
    dlseg (prv_upd h p q) r xs n = dlseg h r xs n"
  by (rule dlseg_cong, rule prv_upd_other) (metis disjoint_iff hdp_None_Some)

lemma dlseg_nxt_upd_last:
  assumes "dlseg h p xs n" and "distinct xs"
  shows "dlseg (nxt_upd h (lastp None xs) q) p xs q"
proof (cases xs rule: rev_cases)
  case (snoc ys y)
  with assms show ?thesis
    by (auto simp: nxt_upd_def dlseg_cong [of ys "h(y \<mapsto> (lastp p ys, q))" h])
qed simp

lemma dlseg_prv_upd_hd:
  assumes "dlseg h p xs n" and "distinct xs"
  shows "dlseg (prv_upd h (hdp xs None) q) q xs n"
  using assms by (cases xs) (auto simp: prv_upd_def)

text \<open>Linking a node in, and unlinking one, as updates of the link map.\<close>

definition link_in :: "links \<Rightarrow> addr list \<Rightarrow> addr \<Rightarrow> addr list \<Rightarrow> links" where
  "link_in h P x S = prv_upd (nxt_upd (h(x \<mapsto> (lastp None P, hdp S None))) (lastp None P) (Some x))
     (hdp S None) (Some x)"

definition link_out :: "links \<Rightarrow> addr list \<Rightarrow> addr list \<Rightarrow> links" where
  "link_out h P S = prv_upd (nxt_upd h (lastp None P) (hdp S None)) (hdp S None) (lastp None P)"

lemma dlseg_link_in:
  assumes seg: "dlseg h None (P @ S) None" and dist: "distinct (P @ x # S)"
  shows "dlseg (link_in h P x S) None (P @ x # S) None"
proof -
  let ?h1 = "h(x \<mapsto> (lastp None P, hdp S None))"
  let ?h2 = "nxt_upd ?h1 (lastp None P) (Some x)"
  let ?h3 = "prv_upd ?h2 (hdp S None) (Some x)"
  have P1: "dlseg ?h1 None P (hdp S None)" and S1: "dlseg ?h1 (lastp None P) S None"
    using seg dist by auto
  have P2: "dlseg ?h2 None P (Some x)"
    using dlseg_nxt_upd_last [OF P1] dist by simp
  have S2: "dlseg ?h2 (lastp None P) S None"
    using S1 dist by (subst dlseg_nxt_upd_other [of P]) auto
  have P3: "dlseg ?h3 None P (Some x)"
    using P2 dist by (subst dlseg_prv_upd_other [of S]) auto
  have S3: "dlseg ?h3 (Some x) S None"
    using dlseg_prv_upd_hd [OF S2] dist by simp
  have nP: "Some x \<noteq> lastp None P" and nS: "Some x \<noteq> hdp S None"
    using dist by (auto dest!: lastp_None_Some hdp_None_Some dest: sym)
  have "?h3 x = Some (lastp None P, hdp S None)"
    using nP nS by (simp add: nxt_upd_other prv_upd_other)
  with P3 S3 show ?thesis by (simp add: link_in_def)
qed

lemma dlseg_link_out:
  assumes seg: "dlseg h None (P @ x # S) None" and dist: "distinct (P @ x # S)"
  shows "dlseg (link_out h P S) None (P @ S) None"
proof -
  let ?h2 = "nxt_upd h (lastp None P) (hdp S None)"
  let ?h3 = "prv_upd ?h2 (hdp S None) (lastp None P)"
  have P1: "dlseg h None P (Some x)" and S1: "dlseg h (Some x) S None"
    using seg by auto
  have P2: "dlseg ?h2 None P (hdp S None)"
    using dlseg_nxt_upd_last [OF P1] dist by simp
  have S2: "dlseg ?h2 (Some x) S None"
    using S1 dist by (subst dlseg_nxt_upd_other [of P]) auto
  have P3: "dlseg ?h3 None P (hdp S None)"
    using P2 dist by (subst dlseg_prv_upd_other [of S]) auto
  have S3: "dlseg ?h3 (lastp None P) S None"
    using dlseg_prv_upd_hd [OF S2] dist by simp
  from P3 S3 show ?thesis by (simp add: link_out_def)
qed


section \<open>Stores of linked nodes\<close>

definition upd_if :: "ptr \<Rightarrow> ('n \<Rightarrow> 'n) \<Rightarrow> (addr \<rightharpoonup> 'n) \<Rightarrow> (addr \<rightharpoonup> 'n) option" where
  "upd_if p f h = (if p = None then Some h else upd_at p f h)"

definition links_of :: "('n \<Rightarrow> ptr) \<Rightarrow> ('n \<Rightarrow> ptr) \<Rightarrow> (addr \<rightharpoonup> 'n) \<Rightarrow> links" where
  "links_of prv nxt h = (\<lambda>x. map_option (\<lambda>n. (prv n, nxt n)) (h x))"

definition pays_of :: "('n \<Rightarrow> 'p) \<Rightarrow> (addr \<rightharpoonup> 'n) \<Rightarrow> (addr \<rightharpoonup> 'p)" where
  "pays_of pay h = (\<lambda>x. map_option pay (h x))"

lemma upd_if_None [simp]: "upd_if None f h = Some h"
  by (simp add: upd_if_def)

lemma upd_if_Some [simp]: "upd_if (Some a) f h = upd_at (Some a) f h"
  by (simp add: upd_if_def)

lemma upd_if_other: "\<lbrakk>upd_if p f h = Some h'; Some a \<noteq> p\<rbrakk> \<Longrightarrow> h' a = h a"
  by (cases p) (auto simp: upd_at_def)

lemma links_of_Some: "links_of prv nxt h x = Some l \<Longrightarrow> \<exists>n. h x = Some n \<and> l = (prv n, nxt n)"
  by (auto simp: links_of_def)

lemma links_of_upd [simp]:
  "links_of prv nxt (h(x \<mapsto> n)) = (links_of prv nxt h)(x \<mapsto> (prv n, nxt n))"
  by (auto simp: links_of_def)

lemma links_of_del [simp]: "links_of prv nxt (h(x := None)) = (links_of prv nxt h)(x := None)"
  by (auto simp: links_of_def)

lemma pays_of_upd [simp]: "pays_of pay (h(x \<mapsto> n)) = (pays_of pay h)(x \<mapsto> pay n)"
  by (auto simp: pays_of_def)

lemma pays_of_del [simp]: "pays_of pay (h(x := None)) = (pays_of pay h)(x := None)"
  by (auto simp: pays_of_def)

lemma pays_of_dom: "pays_of pay h = pays_of pay h' \<Longrightarrow> (h x = None) = (h' x = None)"
  by (metis option.map_disc_iff pays_of_def)

lemma pays_of_dom_eq: "pays_of pay h = pays_of pay h' \<Longrightarrow> dom h = dom h'"
  using pays_of_dom [of pay h h'] by (simp add: set_eq_iff domIff del: not_None_eq)

lemma dlseg_node:
  "\<lbrakk>dlseg (links_of prv nxt h) p (P @ x # S) q\<rbrakk> \<Longrightarrow>
     \<exists>n. h x = Some n \<and> prv n = lastp p P \<and> nxt n = hdp S q"
  by (auto dest!: links_of_Some)

lemma dlseg_in_dom: "\<lbrakk>dlseg (links_of prv nxt h) p xs q; x \<in> set xs\<rbrakk> \<Longrightarrow> h x \<noteq> None"
  using dlseg_dom [of "links_of prv nxt h" p xs q x] by (auto simp: links_of_def)

lemma ends_frame:
  assumes "upd_if (lastp None P) f h = Some h1" "upd_if (hdp S None) f' h1 = Some h2"
    and "a \<notin> set (P @ S)"
  shows "h2 a = h a"
proof -
  have "Some a \<noteq> lastp None P" "Some a \<noteq> hdp S None"
    using assms(3) lastp_None_Some [of P a] hdp_None_Some [of S a] by auto
  then show ?thesis
    using upd_if_other [OF assms(1)] upd_if_other [OF assms(2)] by metis
qed

locale linked_nodes =
  fixes prv :: "'n \<Rightarrow> ptr" and nxt :: "'n \<Rightarrow> ptr"
    and set_prv :: "ptr \<Rightarrow> 'n \<Rightarrow> 'n" and set_nxt :: "ptr \<Rightarrow> 'n \<Rightarrow> 'n"
    and pay :: "'n \<Rightarrow> 'p"
  assumes prv_set_prv [simp]: "prv (set_prv q n) = q"
    and nxt_set_prv [simp]: "nxt (set_prv q n) = nxt n"
    and prv_set_nxt [simp]: "prv (set_nxt q n) = prv n"
    and nxt_set_nxt [simp]: "nxt (set_nxt q n) = q"
    and pay_set_prv [simp]: "pay (set_prv q n) = pay n"
    and pay_set_nxt [simp]: "pay (set_nxt q n) = pay n"
begin

lemma upd_at_set_nxt:
  assumes "h a \<noteq> None"
  shows "\<exists>h'. upd_at (Some a) (set_nxt q) h = Some h' \<and>
    links_of prv nxt h' = nxt_upd (links_of prv nxt h) (Some a) q \<and> pays_of pay h' = pays_of pay h"
proof -
  from assms obtain n where n: "h a = Some n" by auto
  then have "pays_of pay (h(a \<mapsto> set_nxt q n)) = pays_of pay h"
    by (auto simp: pays_of_def)
  with n show ?thesis by (auto simp: nxt_upd_def links_of_def)
qed

lemma upd_at_set_prv:
  assumes "h a \<noteq> None"
  shows "\<exists>h'. upd_at (Some a) (set_prv q) h = Some h' \<and>
    links_of prv nxt h' = prv_upd (links_of prv nxt h) (Some a) q \<and> pays_of pay h' = pays_of pay h"
proof -
  from assms obtain n where n: "h a = Some n" by auto
  then have "pays_of pay (h(a \<mapsto> set_prv q n)) = pays_of pay h"
    by (auto simp: pays_of_def)
  with n show ?thesis by (auto simp: prv_upd_def links_of_def)
qed

lemma upd_if_set_nxt:
  assumes "\<And>a. p = Some a \<Longrightarrow> h a \<noteq> None"
  shows "\<exists>h'. upd_if p (set_nxt q) h = Some h' \<and>
    links_of prv nxt h' = nxt_upd (links_of prv nxt h) p q \<and> pays_of pay h' = pays_of pay h"
  using assms upd_at_set_nxt by (cases p) auto

lemma upd_if_set_prv:
  assumes "\<And>a. p = Some a \<Longrightarrow> h a \<noteq> None"
  shows "\<exists>h'. upd_if p (set_prv q) h = Some h' \<and>
    links_of prv nxt h' = prv_upd (links_of prv nxt h) p q \<and> pays_of pay h' = pays_of pay h"
  using assms upd_at_set_prv by (cases p) auto

text \<open>
  The two guarded writes that unlink a node: its neighbours, when there are any, are made
  to point at each other.
\<close>

lemma unlink_node:
  assumes seg: "dlseg (links_of prv nxt h) None (P @ x # S) None" and dist: "distinct (P @ x # S)"
  shows "\<exists>h1 h2. upd_if (lastp None P) (set_nxt (hdp S None)) h = Some h1 \<and>
    upd_if (hdp S None) (set_prv (lastp None P)) h1 = Some h2 \<and>
    dlseg (links_of prv nxt h2) None (P @ S) None \<and>
    pays_of pay h1 = pays_of pay h \<and> pays_of pay h2 = pays_of pay h \<and>
    (\<forall>a. a \<notin> set (P @ S) \<longrightarrow> h2 a = h a)"
proof -
  have dP: "\<And>a. lastp None P = Some a \<Longrightarrow> h a \<noteq> None"
    using dlseg_in_dom [OF seg] by (auto dest: lastp_None_Some)
  have dS: "\<And>a. hdp S None = Some a \<Longrightarrow> h a \<noteq> None"
    using dlseg_in_dom [OF seg] by (auto dest: hdp_None_Some)
  obtain h1 where h1: "upd_if (lastp None P) (set_nxt (hdp S None)) h = Some h1"
    "links_of prv nxt h1 = nxt_upd (links_of prv nxt h) (lastp None P) (hdp S None)"
    "pays_of pay h1 = pays_of pay h"
    using upd_if_set_nxt [of "lastp None P" h "hdp S None"] dP by blast
  have dS1: "\<And>a. hdp S None = Some a \<Longrightarrow> h1 a \<noteq> None"
    using dS pays_of_dom [OF h1(3)] by blast
  obtain h2 where h2: "upd_if (hdp S None) (set_prv (lastp None P)) h1 = Some h2"
    "links_of prv nxt h2 = prv_upd (links_of prv nxt h1) (hdp S None) (lastp None P)"
    "pays_of pay h2 = pays_of pay h1"
    using upd_if_set_prv [of "hdp S None" h1 "lastp None P"] dS1 by blast
  have "links_of prv nxt h2 = link_out (links_of prv nxt h) P S"
    by (simp only: h1 h2 link_out_def)
  then have "dlseg (links_of prv nxt h2) None (P @ S) None"
    using dlseg_link_out [OF seg dist] by (simp only:)
  moreover have "pays_of pay h2 = pays_of pay h" by (simp only: h1 h2)
  moreover have "h2 a = h a" if "a \<notin> set (P @ S)" for a
    using that ends_frame [OF h1(1) h2(1)] by simp
  ultimately show ?thesis using h1(1,3) h2(1) by blast
qed

text \<open>The two guarded writes that link a prepared node \<open>x\<close> in.\<close>

lemma link_node:
  assumes seg: "dlseg (links_of prv nxt h) None (P @ S) None" and dist: "distinct (P @ x # S)"
    and x: "h x = Some n" "prv n = lastp None P" "nxt n = hdp S None"
  shows "\<exists>h1 h2. upd_if (lastp None P) (set_nxt (Some x)) h = Some h1 \<and>
    upd_if (hdp S None) (set_prv (Some x)) h1 = Some h2 \<and>
    dlseg (links_of prv nxt h2) None (P @ x # S) None \<and>
    pays_of pay h1 = pays_of pay h \<and> pays_of pay h2 = pays_of pay h \<and>
    (\<forall>a. a \<notin> set (P @ S) \<longrightarrow> h2 a = h a)"
proof -
  have dP: "\<And>a. lastp None P = Some a \<Longrightarrow> h a \<noteq> None"
    using dlseg_in_dom [OF seg] by (auto dest: lastp_None_Some)
  have dS: "\<And>a. hdp S None = Some a \<Longrightarrow> h a \<noteq> None"
    using dlseg_in_dom [OF seg] by (auto dest: hdp_None_Some)
  obtain h1 where h1: "upd_if (lastp None P) (set_nxt (Some x)) h = Some h1"
    "links_of prv nxt h1 = nxt_upd (links_of prv nxt h) (lastp None P) (Some x)"
    "pays_of pay h1 = pays_of pay h"
    using upd_if_set_nxt [of "lastp None P" h "Some x"] dP by blast
  have dS1: "\<And>a. hdp S None = Some a \<Longrightarrow> h1 a \<noteq> None"
    using dS pays_of_dom [OF h1(3)] by blast
  obtain h2 where h2: "upd_if (hdp S None) (set_prv (Some x)) h1 = Some h2"
    "links_of prv nxt h2 = prv_upd (links_of prv nxt h1) (hdp S None) (Some x)"
    "pays_of pay h2 = pays_of pay h1"
    using upd_if_set_prv [of "hdp S None" h1 "Some x"] dS1 by blast
  have "(links_of prv nxt h)(x \<mapsto> (lastp None P, hdp S None)) = links_of prv nxt h"
    using x by (auto simp: links_of_def)
  then have "links_of prv nxt h2 = link_in (links_of prv nxt h) P x S"
    by (simp only: h1 h2 link_in_def)
  then have "dlseg (links_of prv nxt h2) None (P @ x # S) None"
    using dlseg_link_in [OF seg dist] by (simp only:)
  moreover have "pays_of pay h2 = pays_of pay h" by (simp only: h1 h2)
  moreover have "h2 a = h a" if "a \<notin> set (P @ S)" for a
    using that ends_frame [OF h1(1) h2(1)] by simp
  ultimately show ?thesis using h1(1,3) h2(1) by blast
qed

end

end
