(* ===== verification/Atom_Table.thy ===== *)
theory Atom_Table
  imports Clips_Prelude
begin

text \<open>
  The tables of atomic values of \<^verbatim>\<open>symbol.c\<close>.  The code has one hash table per kind of atom
  (symbols, floats, integers, bitmaps, external addresses); the five differ in the contents of a
  node, in the hash function and in the test that finds a value, and share everything else.
  The operations are defined here with these as arguments and instantiated in theory
  \<open>Symbol_Data\<close>.

  A bucket is the list of the nodes chained in it.  The list of ephemeral values is the one of
  the current garbage frame, the newest first.  \<open>None\<close> is an access to a freed node or a call of
  \<^verbatim>\<open>ExitRouter\<close>.
\<close>

record 'k hash_node =
  contents :: 'k
  node_count :: int
  permanent :: bool
  markedEphemeral :: bool
  bucket :: nat

record 'k atom_table =
  buckets :: "nat \<Rightarrow> addr list"
  nodes :: "addr \<rightharpoonup> 'k hash_node"
  ephemeralList :: "addr list"
  dirty :: bool
  next_node :: addr

section \<open>Operations\<close>

fun search_bucket :: "(addr \<rightharpoonup> 'k hash_node) \<Rightarrow> ('k \<Rightarrow> bool) \<Rightarrow> addr list \<Rightarrow> ptr option" where
  "search_bucket h found [] = Some None"
| "search_bucket h found (peek # chain) = do {
     N \<leftarrow> h peek;
     if found (contents N) then Some (Some peek) else search_bucket h found chain }"

definition AddEphemeralHashNode :: "addr \<Rightarrow> bool \<Rightarrow> 'k atom_table \<Rightarrow> 'k atom_table option" where
  "AddEphemeralHashNode theHashNode checkCount t = do {
     N \<leftarrow> nodes t theHashNode;
     if checkCount \<and> node_count N \<noteq> 0 then None
     else Some (t\<lparr>nodes := (nodes t)(theHashNode \<mapsto> N\<lparr>markedEphemeral := True\<rparr>),
                  ephemeralList := theHashNode # ephemeralList t\<rparr>) }"

text \<open>The common body of the functions that intern a value.\<close>

definition add_atom :: "nat \<Rightarrow> ('k \<Rightarrow> bool) \<Rightarrow> 'k \<Rightarrow> 'k atom_table \<Rightarrow> (addr \<times> 'k atom_table) option" where
  "add_atom tally found value t = do {
     r \<leftarrow> search_bucket (nodes t) found (buckets t tally);
     (case r of
        Some peek \<Rightarrow> Some (peek, t)
      | None \<Rightarrow> do {
          let peek = next_node t;
          let t1 = t\<lparr>buckets := (buckets t)(tally := buckets t tally @ [peek]),
                     nodes := (nodes t)(peek \<mapsto> \<lparr>contents = value, node_count = 0, permanent = False,
                       markedEphemeral = False, bucket = tally\<rparr>), next_node := peek + 1\<rparr>;
          t2 \<leftarrow> AddEphemeralHashNode peek True t1;
          Some (peek, t2\<lparr>dirty := True\<rparr>) }) }"

definition retain_atom :: "addr \<Rightarrow> 'k atom_table \<Rightarrow> 'k atom_table option" where
  "retain_atom theValue t = do {
     N \<leftarrow> nodes t theValue;
     Some (t\<lparr>nodes := (nodes t)(theValue \<mapsto> N\<lparr>node_count := node_count N + 1\<rparr>)\<rparr>) }"

definition release_atom :: "addr \<Rightarrow> 'k atom_table \<Rightarrow> 'k atom_table option" where
  "release_atom theValue t = do {
     N \<leftarrow> nodes t theValue;
     if node_count N \<le> 0 then None
     else do {
       let N1 = N\<lparr>node_count := node_count N - 1\<rparr>;
       let t1 = t\<lparr>nodes := (nodes t)(theValue \<mapsto> N1)\<rparr>;
       if node_count N1 \<noteq> 0 then Some t1
       else if \<not> markedEphemeral N1
       then do { t2 \<leftarrow> AddEphemeralHashNode theValue True t1; Some (t2\<lparr>dirty := True\<rparr>) }
       else Some t1 } }"

definition ephemerate_atom :: "addr \<Rightarrow> 'k atom_table \<Rightarrow> 'k atom_table option" where
  "ephemerate_atom theValue t = do {
     N \<leftarrow> nodes t theValue;
     if markedEphemeral N then Some t
     else do { t1 \<leftarrow> AddEphemeralHashNode theValue False t; Some (t1\<lparr>dirty := True\<rparr>) } }"

text \<open>The walk along the bucket ends with an error when the node is not in it.\<close>

definition RemoveHashNode :: "addr \<Rightarrow> 'k atom_table \<Rightarrow> 'k atom_table option" where
  "RemoveHashNode theValue t = do {
     N \<leftarrow> nodes t theValue;
     if theValue \<in> set (buckets t (bucket N))
     then Some (t\<lparr>buckets := (buckets t)(bucket N := remove1 theValue (buckets t (bucket N))),
                  nodes := (nodes t)(theValue := None)\<rparr>)
     else None }"

fun remove_ephemerals :: "addr list \<Rightarrow> 'k atom_table \<Rightarrow> (addr list \<times> 'k atom_table) option" where
  "remove_ephemerals [] t = Some ([], t)"
| "remove_ephemerals (edPtr # rest) t = do {
     N \<leftarrow> nodes t edPtr;
     (if node_count N = 0
      then do { t1 \<leftarrow> RemoveHashNode edPtr t; remove_ephemerals rest t1 }
      else if node_count N > 0
      then remove_ephemerals rest (t\<lparr>nodes := (nodes t)(edPtr \<mapsto> N\<lparr>markedEphemeral := False\<rparr>)\<rparr>)
      else do { (kept, t1) \<leftarrow> remove_ephemerals rest t; Some (edPtr # kept, t1) }) }"

definition RemoveEphemeralHashNodes :: "'k atom_table \<Rightarrow> 'k atom_table option" where
  "RemoveEphemeralHashNodes t = do {
     (kept, t1) \<leftarrow> remove_ephemerals (ephemeralList t) t;
     Some (t1\<lparr>ephemeralList := kept\<rparr>) }"

definition empty_table :: "'k atom_table" where
  "empty_table = \<lparr>buckets = (\<lambda>_. []), nodes = Map.empty, ephemeralList = [], dirty = False, next_node = 0\<rparr>"

section \<open>The invariant\<close>

text \<open>
  Every node is in the bucket of its hash value and in no other place, no two nodes of a bucket
  hold values that the test \<open>eq\<close> of the table identifies, a node with count zero waits on the
  ephemeral list, and the list holds the marked nodes.
\<close>

definition table_ok :: "('k \<Rightarrow> nat) \<Rightarrow> ('k \<Rightarrow> 'k \<Rightarrow> bool) \<Rightarrow> 'k atom_table \<Rightarrow> bool" where
  "table_ok hash eq t \<longleftrightarrow>
     (\<forall>i x. x \<in> set (buckets t i) \<longleftrightarrow> (\<exists>N. nodes t x = Some N \<and> bucket N = i)) \<and>
     (\<forall>i. distinct (buckets t i)) \<and>
     (\<forall>x N. nodes t x = Some N \<longrightarrow> bucket N = hash (contents N) \<and> 0 \<le> node_count N \<and>
        (node_count N = 0 \<longrightarrow> markedEphemeral N) \<and> (markedEphemeral N \<longleftrightarrow> x \<in> set (ephemeralList t)) \<and> x < next_node t) \<and>
     (\<forall>x y N M. nodes t x = Some N \<longrightarrow> nodes t y = Some M \<longrightarrow> bucket N = bucket M \<longrightarrow> eq (contents N) (contents M) \<longrightarrow> x = y) \<and>
     distinct (ephemeralList t) \<and> (\<forall>x\<in>set (ephemeralList t). nodes t x \<noteq> None)"

lemma table_okD:
  assumes "table_ok hash eq t"
  shows "x \<in> set (buckets t i) \<longleftrightarrow> (\<exists>N. nodes t x = Some N \<and> bucket N = i)" and "distinct (buckets t i)"
    and "nodes t x = Some N \<Longrightarrow> bucket N = hash (contents N)" and "nodes t x = Some N \<Longrightarrow> 0 \<le> node_count N"
    and "\<lbrakk>nodes t x = Some N; node_count N = 0\<rbrakk> \<Longrightarrow> markedEphemeral N"
    and "nodes t x = Some N \<Longrightarrow> markedEphemeral N \<longleftrightarrow> x \<in> set (ephemeralList t)"
    and "nodes t x = Some N \<Longrightarrow> x < next_node t"
    and "\<lbrakk>nodes t x = Some N; nodes t y = Some M; bucket N = bucket M; eq (contents N) (contents M)\<rbrakk> \<Longrightarrow> x = y"
    and "distinct (ephemeralList t)" and "x \<in> set (ephemeralList t) \<Longrightarrow> nodes t x \<noteq> None"
  using assms unfolding table_ok_def by blast+

lemma table_okI:
  assumes "\<And>i x. x \<in> set (buckets t i) \<longleftrightarrow> (\<exists>N. nodes t x = Some N \<and> bucket N = i)" and "\<And>i. distinct (buckets t i)"
    and "\<And>x N. nodes t x = Some N \<Longrightarrow> bucket N = hash (contents N)" and "\<And>x N. nodes t x = Some N \<Longrightarrow> 0 \<le> node_count N"
    and "\<And>x N. \<lbrakk>nodes t x = Some N; node_count N = 0\<rbrakk> \<Longrightarrow> markedEphemeral N"
    and "\<And>x N. nodes t x = Some N \<Longrightarrow> markedEphemeral N \<longleftrightarrow> x \<in> set (ephemeralList t)"
    and "\<And>x N. nodes t x = Some N \<Longrightarrow> x < next_node t"
    and "\<And>x y N M. \<lbrakk>nodes t x = Some N; nodes t y = Some M; bucket N = bucket M; eq (contents N) (contents M)\<rbrakk> \<Longrightarrow> x = y"
    and "distinct (ephemeralList t)" and "\<And>x. x \<in> set (ephemeralList t) \<Longrightarrow> nodes t x \<noteq> None"
  shows "table_ok hash eq t"
proof -
  have "bucket N = hash (contents N) \<and> 0 \<le> node_count N \<and> (node_count N = 0 \<longrightarrow> markedEphemeral N) \<and>
    (markedEphemeral N \<longleftrightarrow> x \<in> set (ephemeralList t)) \<and> x < next_node t" if "nodes t x = Some N" for x N
    using assms(3-7) [OF that] by blast
  then show ?thesis unfolding table_ok_def using assms(1,2,8-10) by simp
qed

lemma empty_table_ok: "table_ok hash eq empty_table"
  by (rule table_okI) (simp_all add: empty_table_def)

text \<open>The abstract table: the values that are interned, with their reference counts.\<close>

definition interned :: "'k atom_table \<Rightarrow> 'k \<Rightarrow> int \<Rightarrow> bool" where
  "interned t k c \<longleftrightarrow> (\<exists>x N. nodes t x = Some N \<and> contents N = k \<and> node_count N = c)"

text \<open>The value behind an address.\<close>

definition atom_at :: "'k atom_table \<Rightarrow> addr \<Rightarrow> 'k option" where
  "atom_at t x = map_option contents (nodes t x)"

section \<open>Searching a bucket\<close>

lemma search_bucket_eq:
  assumes "\<And>x. x \<in> set chain \<Longrightarrow> h x \<noteq> None"
  shows "search_bucket h found chain = Some (List.find (\<lambda>x. found (contents (the (h x)))) chain)"
  using assms
proof (induction chain)
  case (Cons x chain)
  then obtain N where "h x = Some N" by fastforce
  with Cons show ?case by simp
qed simp

lemma search_table:
  assumes ok: "table_ok hash eq t"
  shows "search_bucket (nodes t) (eq k) (buckets t (hash k)) = Some None \<and>
      (\<forall>x c. atom_at t x = Some c \<longrightarrow> hash c = hash k \<longrightarrow> \<not> eq k c) \<or>
    (\<exists>x c. search_bucket (nodes t) (eq k) (buckets t (hash k)) = Some (Some x) \<and>
      atom_at t x = Some c \<and> hash c = hash k \<and> eq k c)"
proof -
  let ?P = "\<lambda>x. eq k (contents (the (nodes t x)))" and ?chain = "buckets t (hash k)"
  have run: "search_bucket (nodes t) (eq k) ?chain = Some (List.find ?P ?chain)"
    by (rule search_bucket_eq) (use table_okD(1) [OF ok] in auto)
  show ?thesis
  proof (cases "List.find ?P ?chain")
    case None
    have "\<not> eq k c" if c: "atom_at t x = Some c" "hash c = hash k" for x c
    proof -
      obtain N where N: "nodes t x = Some N" "contents N = c" using c(1) by (auto simp: atom_at_def)
      then have "x \<in> set ?chain" using table_okD(1) [OF ok, of x] table_okD(3) [OF ok N(1)] c(2) by auto
      then show ?thesis using None N by (auto simp: find_None_iff)
    qed
    then show ?thesis using run None by simp
  next
    case (Some x)
    then have x: "x \<in> set ?chain" "?P x" by (auto simp: find_Some_iff)
    obtain N where N: "nodes t x = Some N" "bucket N = hash k" using table_okD(1) [OF ok] x(1) by blast
    then show ?thesis using run Some x(2) table_okD(3) [OF ok N(1)] by (auto simp: atom_at_def)
  qed
qed

section \<open>The operations keep the invariant\<close>

lemma add_new_ok:
  assumes ok: "table_ok hash eq t" and sym: "symp eq"
    and new: "\<forall>x c. atom_at t x = Some c \<longrightarrow> hash c = hash k \<longrightarrow> \<not> eq k c"
    and N: "N' = \<lparr>contents = k, node_count = 0, permanent = False, markedEphemeral = True, bucket = hash k\<rparr>"
    and t': "buckets t' = (buckets t)(hash k := buckets t (hash k) @ [next_node t])"
      "nodes t' = (nodes t)(next_node t \<mapsto> N')" "ephemeralList t' = next_node t # ephemeralList t" "next_node t' = next_node t + 1"
  shows "table_ok hash eq t'"
proof (rule table_okI)
  let ?x = "next_node t"
  have fresh: "nodes t ?x = None" using table_okD(7) [OF ok, of ?x] by (cases "nodes t ?x") auto
  have notin: "?x \<notin> set (buckets t i)" "?x \<notin> set (ephemeralList t)" for i
    using fresh table_okD(1) [OF ok, of ?x i] table_okD(10) [OF ok, of ?x] by auto
  have nk: "\<not> eq k (contents N) \<and> \<not> eq (contents N) k" if "nodes t y = Some N" "bucket N = hash k" for y N
    using new that(2) table_okD(3) [OF ok that(1)] sympD [OF sym] that(1) by (auto simp: atom_at_def)
  have old: "y = ?x \<and> N = N' \<or> y \<noteq> ?x \<and> nodes t y = Some N" if "nodes t' y = Some N" for y N
    using that t'(2) by (auto split: if_splits)
  show "y \<in> set (buckets t' i) \<longleftrightarrow> (\<exists>N. nodes t' y = Some N \<and> bucket N = i)" for i y
    using table_okD(1) [OF ok, of y i] fresh N t'(1,2) by (cases "y = ?x") auto
  show "y = z" if "nodes t' y = Some K" "nodes t' z = Some M" "bucket K = bucket M" "eq (contents K) (contents M)" for y z K M
  proof (cases "y = ?x"; cases "z = ?x")
    have N': "contents N' = k" "bucket N' = hash k" using N by simp_all
    show "y = z" if "y = ?x" "z \<noteq> ?x"
      using \<open>nodes t' z = Some M\<close> \<open>nodes t' y = Some K\<close> \<open>bucket K = bucket M\<close> \<open>eq (contents K) (contents M)\<close> nk [of z M] that N' t'(2) by auto
    show "y = z" if "y \<noteq> ?x" "z = ?x"
      using \<open>nodes t' z = Some M\<close> \<open>nodes t' y = Some K\<close> \<open>bucket K = bucket M\<close> \<open>eq (contents K) (contents M)\<close> nk [of y K] that N' t'(2) by auto
    show "y = z" if "y \<noteq> ?x" "z \<noteq> ?x"
      by (rule table_okD(8) [OF ok, of y K z M]) (use that \<open>nodes t' z = Some M\<close> \<open>nodes t' y = Some K\<close> \<open>bucket K = bucket M\<close> \<open>eq (contents K) (contents M)\<close> t'(2) in simp_all)
  qed simp
  show "bucket K = hash (contents K)" "0 \<le> node_count K" "y < next_node t'" if "nodes t' y = Some K" for y K
    using old [OF that] table_okD(3,4,7) [OF ok, of y K] N t'(4) by auto
  show "markedEphemeral K" if "nodes t' y = Some K" "node_count K = 0" for y K
    using old [OF that(1)] that(2) table_okD(5) [OF ok, of y K] N by auto
  show "markedEphemeral K \<longleftrightarrow> y \<in> set (ephemeralList t')" if "nodes t' y = Some K" for y K
    using old [OF that] table_okD(6) [OF ok, of y K] N t'(3) by auto
  show "nodes t' y \<noteq> None" if "y \<in> set (ephemeralList t')" for y
    using that table_okD(10) [OF ok, of y] t'(2,3) by auto
  show "distinct (buckets t' i)" "distinct (ephemeralList t')" for i
    using table_okD(2,9) [OF ok] notin t'(1,3) by auto
qed

lemma add_atom_ok:
  assumes ok: "table_ok hash eq t" and sym: "symp eq"
  shows "(\<exists>x c. add_atom (hash k) (eq k) k t = Some (x, t) \<and> atom_at t x = Some c \<and> hash c = hash k \<and> eq k c) \<or>
    (\<forall>x c. atom_at t x = Some c \<longrightarrow> hash c = hash k \<longrightarrow> \<not> eq k c) \<and> atom_at t (next_node t) = None \<and>
    (\<exists>t'. add_atom (hash k) (eq k) k t = Some (next_node t, t') \<and> table_ok hash eq t' \<and>
       next_node t' = next_node t + 1 \<and> dirty t' \<and>
       nodes t' = (nodes t)(next_node t \<mapsto> \<lparr>contents = k, node_count = 0, permanent = False, markedEphemeral = True, bucket = hash k\<rparr>))"
  using search_table [OF ok, of k]
proof (elim disjE conjE exE)
  fix x c assume "search_bucket (nodes t) (eq k) (buckets t (hash k)) = Some (Some x)" "atom_at t x = Some c" "hash c = hash k" "eq k c"
  then show ?thesis by (auto simp: add_atom_def)
next
  assume s: "search_bucket (nodes t) (eq k) (buckets t (hash k)) = Some None"
    and new: "\<forall>x c. atom_at t x = Some c \<longrightarrow> hash c = hash k \<longrightarrow> \<not> eq k c"
  let ?x = "next_node t" and ?N = "\<lparr>contents = k, node_count = 0, permanent = False, markedEphemeral = True, bucket = hash k\<rparr>"
  let ?t' = "t\<lparr>buckets := (buckets t)(hash k := buckets t (hash k) @ [?x]), nodes := (nodes t)(?x \<mapsto> ?N),
    ephemeralList := ?x # ephemeralList t, dirty := True, next_node := ?x + 1\<rparr>"
  have run: "add_atom (hash k) (eq k) k t = Some (?x, ?t')"
    using s by (simp add: add_atom_def Let_def AddEphemeralHashNode_def)
  have fresh: "atom_at t ?x = None" using table_okD(7) [OF ok, of ?x] by (cases "nodes t ?x") (auto simp: atom_at_def)
  have "table_ok hash eq ?t'" by (rule add_new_ok [OF ok sym new, of ?N]) simp_all
  with run new fresh show ?thesis by auto
qed

text \<open>Changing the count and the mark of a node, with the ephemeral list to match.\<close>

lemma update_node_ok:
  assumes ok: "table_ok hash eq t" and x: "nodes t x = Some N"
    and N': "contents N' = contents N" "bucket N' = bucket N" "0 \<le> node_count N'" "node_count N' = 0 \<Longrightarrow> markedEphemeral N'"
    and t': "buckets t' = buckets t" "nodes t' = (nodes t)(x \<mapsto> N')" "next_node t' = next_node t"
    and L: "distinct (ephemeralList t')" "set (ephemeralList t') = (if markedEphemeral N' then insert x (set (ephemeralList t)) else set (ephemeralList t) - {x})"
  shows "table_ok hash eq t'"
proof (rule table_okI)
  show "y \<in> set (buckets t' i) \<longleftrightarrow> (\<exists>M. nodes t' y = Some M \<and> bucket M = i)" for i y
    using table_okD(1) [OF ok, of y i] x N'(2) t' by (cases "y = x") auto
  have c: "\<exists>M'. nodes t y = Some M' \<and> contents M' = contents M \<and> bucket M' = bucket M" if "nodes t' y = Some M" for y M
    using that x N'(1,2) t'(2) by (auto split: if_splits)
  show "y = z" if "nodes t' y = Some M" "nodes t' z = Some K" "bucket M = bucket K" "eq (contents M) (contents K)" for y z M K
    using c [OF that(1)] c [OF that(2)] that(3,4) table_okD(8) [OF ok] by metis
  show "markedEphemeral M \<longleftrightarrow> y \<in> set (ephemeralList t')" if "nodes t' y = Some M" for y M
    using that table_okD(6) [OF ok, of y M] t'(2) by (auto simp: L(2) split: if_splits)
  show "nodes t' y \<noteq> None" if "y \<in> set (ephemeralList t')" for y
    using that table_okD(10) [OF ok, of y] x t'(2) by (auto simp: L(2) split: if_splits)
  show "bucket M = hash (contents M)" "0 \<le> node_count M" "y < next_node t'" if "nodes t' y = Some M" for y M
    using that t'(2,3) x N' table_okD(3,4,7) [OF ok] by (auto split: if_splits)
  show "markedEphemeral M" if "nodes t' y = Some M" "node_count M = 0" for y M
    using that t'(2) N'(4) table_okD(5) [OF ok] by (auto split: if_splits)
  show "distinct (buckets t' i)" for i using table_okD(2) [OF ok] t'(1) by simp
qed (rule L(1))

lemma retain_atom_ok:
  assumes ok: "table_ok hash eq t" and x: "nodes t x = Some N"
  shows "\<exists>t'. retain_atom x t = Some t' \<and> table_ok hash eq t' \<and>
    nodes t' = (nodes t)(x \<mapsto> N\<lparr>node_count := node_count N + 1\<rparr>)"
proof -
  have "table_ok hash eq (t\<lparr>nodes := (nodes t)(x \<mapsto> N\<lparr>node_count := node_count N + 1\<rparr>)\<rparr>)"
    by (rule update_node_ok [OF ok x, of "N\<lparr>node_count := node_count N + 1\<rparr>"])
      (use table_okD(4,6) [OF ok x] table_okD(9) [OF ok] in auto)
  then show ?thesis using x by (simp add: retain_atom_def)
qed

lemma release_atom_ok:
  assumes ok: "table_ok hash eq t" and x: "nodes t x = Some N"
  shows "release_atom x t = None \<longleftrightarrow> node_count N = 0"
    and "node_count N > 0 \<Longrightarrow> \<exists>t'. release_atom x t = Some t' \<and> table_ok hash eq t' \<and>
      (\<exists>m. nodes t' = (nodes t)(x \<mapsto> N\<lparr>node_count := node_count N - 1, markedEphemeral := m\<rparr>))"
proof -
  let ?N = "N\<lparr>node_count := node_count N - 1\<rparr>"
  note E = table_okD(6) [OF ok x] table_okD(9) [OF ok]
  show "release_atom x t = None \<longleftrightarrow> node_count N = 0"
    using table_okD(4) [OF ok x] x by (auto simp: release_atom_def Let_def AddEphemeralHashNode_def)
  assume pos: "node_count N > 0"
  show "\<exists>t'. release_atom x t = Some t' \<and> table_ok hash eq t' \<and>
      (\<exists>m. nodes t' = (nodes t)(x \<mapsto> N\<lparr>node_count := node_count N - 1, markedEphemeral := m\<rparr>))"
  proof (cases "node_count N = 1 \<and> \<not> markedEphemeral N")
    case True
    let ?M = "?N\<lparr>markedEphemeral := True\<rparr>"
    let ?t' = "t\<lparr>nodes := (nodes t)(x \<mapsto> ?M), ephemeralList := x # ephemeralList t, dirty := True\<rparr>"
    have "table_ok hash eq ?t'" by (rule update_node_ok [OF ok x, of ?M]) (use True E in auto)
    moreover have "release_atom x t = Some ?t'"
      using x True by (simp add: release_atom_def Let_def AddEphemeralHashNode_def)
    moreover have "nodes ?t' = (nodes t)(x \<mapsto> N\<lparr>node_count := node_count N - 1, markedEphemeral := True\<rparr>)" by simp
    ultimately show ?thesis by blast
  next
    case False
    let ?t' = "t\<lparr>nodes := (nodes t)(x \<mapsto> ?N)\<rparr>"
    have "table_ok hash eq ?t'" by (rule update_node_ok [OF ok x, of ?N]) (use False pos E in auto)
    moreover have "release_atom x t = Some ?t'"
      using x False pos by (auto simp: release_atom_def Let_def)
    moreover have "nodes ?t' = (nodes t)(x \<mapsto> N\<lparr>node_count := node_count N - 1, markedEphemeral := markedEphemeral N\<rparr>)" by simp
    ultimately show ?thesis by blast
  qed
qed

lemma ephemerate_atom_ok:
  assumes ok: "table_ok hash eq t" and x: "nodes t x = Some N"
  shows "\<exists>t'. ephemerate_atom x t = Some t' \<and> table_ok hash eq t' \<and> nodes t' = (nodes t)(x \<mapsto> N\<lparr>markedEphemeral := True\<rparr>)"
proof (cases "markedEphemeral N")
  case True
  then have "(nodes t)(x \<mapsto> N\<lparr>markedEphemeral := True\<rparr>) = nodes t" using x by auto
  then show ?thesis using True ok x by (simp add: ephemerate_atom_def)
next
  case False
  let ?N = "N\<lparr>markedEphemeral := True\<rparr>"
  let ?t' = "t\<lparr>nodes := (nodes t)(x \<mapsto> ?N), ephemeralList := x # ephemeralList t, dirty := True\<rparr>"
  have "table_ok hash eq ?t'"
    by (rule update_node_ok [OF ok x, of ?N]) (use False table_okD(4,6) [OF ok x] table_okD(9) [OF ok] in auto)
  then show ?thesis using False x by (auto simp: ephemerate_atom_def AddEphemeralHashNode_def)
qed

section \<open>Collecting the ephemeral values\<close>

lemma RemoveHashNode_ok:
  assumes ok: "table_ok hash eq t" and x: "nodes t x = Some N" and E: "ephemeralList t = P @ x # S"
  shows "\<exists>t'. RemoveHashNode x t = Some t' \<and> table_ok hash eq (t'\<lparr>ephemeralList := P @ S\<rparr>) \<and>
    nodes t' = (nodes t)(x := None) \<and> ephemeralList t' = ephemeralList t"
proof -
  let ?b = "bucket N"
  let ?t' = "t\<lparr>buckets := (buckets t)(?b := remove1 x (buckets t ?b)), nodes := (nodes t)(x := None)\<rparr>"
  have in_b: "x \<in> set (buckets t ?b)" using table_okD(1) [OF ok] x by auto
  have d: "x \<notin> set P" "x \<notin> set S" "distinct (P @ S)" using table_okD(9) [OF ok] E by auto
  have "table_ok hash eq (?t'\<lparr>ephemeralList := P @ S\<rparr>)"
  proof (rule table_okI)
    show "y \<in> set (buckets (?t'\<lparr>ephemeralList := P @ S\<rparr>) i) \<longleftrightarrow> (\<exists>M. nodes (?t'\<lparr>ephemeralList := P @ S\<rparr>) y = Some M \<and> bucket M = i)" for i y
      using table_okD(1) [OF ok, of y i] table_okD(2) [OF ok] x by (cases "y = x") auto
    have old: "nodes t y = Some M \<and> y \<noteq> x" if "nodes (?t'\<lparr>ephemeralList := P @ S\<rparr>) y = Some M" for y M
      using that by (simp split: if_splits)
    show "distinct (buckets (?t'\<lparr>ephemeralList := P @ S\<rparr>) i)" for i
      using table_okD(2) [OF ok] by (simp add: distinct_remove1)
    show "bucket M = hash (contents M)" "0 \<le> node_count M" "y < next_node (?t'\<lparr>ephemeralList := P @ S\<rparr>)"
      if "nodes (?t'\<lparr>ephemeralList := P @ S\<rparr>) y = Some M" for y M
      using old [OF that] table_okD(3,4,7) [OF ok, of y M] by simp_all
    show "markedEphemeral M" if "nodes (?t'\<lparr>ephemeralList := P @ S\<rparr>) y = Some M" "node_count M = 0" for y M
      using old [OF that(1)] that(2) table_okD(5) [OF ok, of y M] by simp
    show "markedEphemeral M \<longleftrightarrow> y \<in> set (ephemeralList (?t'\<lparr>ephemeralList := P @ S\<rparr>))"
      if "nodes (?t'\<lparr>ephemeralList := P @ S\<rparr>) y = Some M" for y M
      using old [OF that] table_okD(6) [OF ok, of y M] E by simp
    show "y = z" if "nodes (?t'\<lparr>ephemeralList := P @ S\<rparr>) y = Some M" "nodes (?t'\<lparr>ephemeralList := P @ S\<rparr>) z = Some K"
      "bucket M = bucket K" "eq (contents M) (contents K)" for y z M K
      using old [OF that(1)] old [OF that(2)] that(3,4) table_okD(8) [OF ok, of y M z K] by simp
    show "nodes (?t'\<lparr>ephemeralList := P @ S\<rparr>) y \<noteq> None" if "y \<in> set (ephemeralList (?t'\<lparr>ephemeralList := P @ S\<rparr>))" for y
      using that d table_okD(10) [OF ok, of y] E by auto
  qed (use d in simp)
  then show ?thesis using x in_b by (simp add: RemoveHashNode_def)
qed

text \<open>
  The walk over the ephemeral list, with the entries already handled taken off it: it frees the
  nodes with count zero, unmarks the others and keeps no entry.
\<close>

lemma remove_ephemerals_ok:
  assumes "table_ok hash eq (t\<lparr>ephemeralList := es\<rparr>)"
  shows "\<exists>t'. remove_ephemerals es t = Some ([], t') \<and> table_ok hash eq (t'\<lparr>ephemeralList := []\<rparr>) \<and>
    (\<forall>x. nodes t' x = (case nodes t x of None \<Rightarrow> None
       | Some N \<Rightarrow> if x \<in> set es then if node_count N = 0 then None else Some (N\<lparr>markedEphemeral := False\<rparr>) else Some N))"
  using assms
proof (induction es arbitrary: t)
  case Nil
  then show ?case by (auto split: option.split)
next
  case (Cons x es)
  let ?te = "t\<lparr>ephemeralList := x # es\<rparr>"
  obtain N where N: "nodes t x = Some N" using table_okD(10) [OF Cons.prems, of x] by auto
  have nx: "x \<notin> set es" "distinct es" using table_okD(9) [OF Cons.prems] by simp_all
  have "0 \<le> node_count N" using table_okD(4) [OF Cons.prems, of x N] N by simp
  then consider (zero) "node_count N = 0" | (pos) "node_count N > 0" by linarith
  then show ?case
  proof cases
    case zero
    obtain t1 where t1: "RemoveHashNode x ?te = Some t1" "table_ok hash eq (t1\<lparr>ephemeralList := es\<rparr>)" "nodes t1 = (nodes t)(x := None)"
      using RemoveHashNode_ok [OF Cons.prems, of x N "[]" es] N by auto
    obtain t2 where t2: "RemoveHashNode x t = Some t2" "nodes t2 = nodes t1" "t2\<lparr>ephemeralList := es\<rparr> = t1\<lparr>ephemeralList := es\<rparr>"
      using t1(1) N by (auto simp: RemoveHashNode_def split: if_splits)
    have "table_ok hash eq (t2\<lparr>ephemeralList := es\<rparr>)" using t1(2) t2(3) by simp
    then obtain t' where t': "remove_ephemerals es t2 = Some ([], t')" "table_ok hash eq (t'\<lparr>ephemeralList := []\<rparr>)"
      "\<forall>y. nodes t' y = (case nodes t2 y of None \<Rightarrow> None
       | Some N \<Rightarrow> if y \<in> set es then if node_count N = 0 then None else Some (N\<lparr>markedEphemeral := False\<rparr>) else Some N)"
      using Cons.IH by blast
    have "remove_ephemerals (x # es) t = Some ([], t')" using N zero t2(1) t'(1) by simp
    with t'(2,3) t1(3) t2(2) N zero show ?thesis by (auto split: option.split)
  next
    case pos
    let ?t1 = "t\<lparr>nodes := (nodes t)(x \<mapsto> N\<lparr>markedEphemeral := False\<rparr>)\<rparr>"
    have "table_ok hash eq (?t1\<lparr>ephemeralList := es\<rparr>)"
      by (rule update_node_ok [OF Cons.prems, of x N "N\<lparr>markedEphemeral := False\<rparr>"]) (use N pos nx in auto)
    then obtain t' where t': "remove_ephemerals es ?t1 = Some ([], t')" "table_ok hash eq (t'\<lparr>ephemeralList := []\<rparr>)"
      "\<forall>y. nodes t' y = (case nodes ?t1 y of None \<Rightarrow> None
       | Some N \<Rightarrow> if y \<in> set es then if node_count N = 0 then None else Some (N\<lparr>markedEphemeral := False\<rparr>) else Some N)"
      using Cons.IH by blast
    have "remove_ephemerals (x # es) t = Some ([], t')" using N pos t'(1) by simp
    with t'(2,3) N pos nx show ?thesis by (auto split: option.split)
  qed
qed

lemma RemoveEphemeralHashNodes_ok:
  assumes ok: "table_ok hash eq t"
  shows "\<exists>t'. RemoveEphemeralHashNodes t = Some t' \<and> table_ok hash eq t' \<and> ephemeralList t' = [] \<and>
    (\<forall>k c. interned t' k c \<longleftrightarrow> interned t k c \<and> 0 < c) \<and>
    (\<forall>x N. nodes t x = Some N \<longrightarrow> 0 < node_count N \<longrightarrow> map_option contents (nodes t' x) = Some (contents N))"
proof -
  have "t\<lparr>ephemeralList := ephemeralList t\<rparr> = t" by simp
  then obtain t1 where t1: "remove_ephemerals (ephemeralList t) t = Some ([], t1)" "table_ok hash eq (t1\<lparr>ephemeralList := []\<rparr>)"
    "\<forall>x. nodes t1 x = (case nodes t x of None \<Rightarrow> None
       | Some N \<Rightarrow> if x \<in> set (ephemeralList t) then if node_count N = 0 then None else Some (N\<lparr>markedEphemeral := False\<rparr>) else Some N)"
    using remove_ephemerals_ok [where hash = hash and eq = eq and t = t and es = "ephemeralList t"] ok by auto
  let ?t' = "t1\<lparr>ephemeralList := []\<rparr>"
  have n: "map_option (\<lambda>N. (contents N, node_count N)) (nodes ?t' x) =
      (case nodes t x of None \<Rightarrow> None | Some N \<Rightarrow> if node_count N = 0 then None else Some (contents N, node_count N))" for x
  proof (cases "nodes t x")
    case (Some N)
    then show ?thesis using t1(3) table_okD(5,6) [OF ok Some] by simp
  qed (use t1(3) in simp)
  have iff: "interned ?t' k c \<longleftrightarrow> interned t k c \<and> 0 < c" for k c
  proof -
    have i: "interned s k c \<longleftrightarrow> (\<exists>x. map_option (\<lambda>N. (contents N, node_count N)) (nodes s x) = Some (k, c))" for s :: "'a atom_table"
      by (auto simp: interned_def)
    have "(case nodes t x of None \<Rightarrow> None | Some N \<Rightarrow> if node_count N = 0 then None else Some (contents N, node_count N)) = Some (k, c) \<longleftrightarrow>
      map_option (\<lambda>N. (contents N, node_count N)) (nodes t x) = Some (k, c) \<and> 0 < c" for x
      using table_okD(4) [OF ok, of x] by (cases "nodes t x") auto
    then show ?thesis unfolding i n by blast
  qed
  have "map_option contents (nodes ?t' x) = Some (contents N)" if "nodes t x = Some N" "0 < node_count N" for x N
    using n [of x] that by auto
  with t1 iff show ?thesis by (auto simp: RemoveEphemeralHashNodes_def)
qed

text \<open>The flag \<^verbatim>\<open>dirty\<close> is set whenever an atom waits to be collected.\<close>

definition flagged :: "'k atom_table \<Rightarrow> bool" where
  "flagged t \<longleftrightarrow> ephemeralList t = [] \<or> dirty t"

lemma flagged_ops:
  "flagged empty_table"
  "\<lbrakk>add_atom i found k t = Some (x, t'); flagged t\<rbrakk> \<Longrightarrow> flagged t'"
  "\<lbrakk>retain_atom x t = Some t'; flagged t\<rbrakk> \<Longrightarrow> flagged t'"
  "\<lbrakk>release_atom x t = Some t'; flagged t\<rbrakk> \<Longrightarrow> flagged t'"
  "\<lbrakk>ephemerate_atom x t = Some t'; flagged t\<rbrakk> \<Longrightarrow> flagged t'"
  by (auto simp: flagged_def empty_table_def add_atom_def retain_atom_def release_atom_def ephemerate_atom_def AddEphemeralHashNode_def
    Let_def bind_eq_Some_conv split: option.splits if_splits)

lemma retain_release:
  assumes ok: "table_ok hash eq t" and x: "nodes t x = Some N"
  shows "\<exists>t1 t2. retain_atom x t = Some t1 \<and> release_atom x t1 = Some t2 \<and> table_ok hash eq t2 \<and>
    (\<exists>m. nodes t2 = (nodes t)(x \<mapsto> N\<lparr>markedEphemeral := m\<rparr>))"
proof -
  obtain t1 where t1: "retain_atom x t = Some t1" "table_ok hash eq t1"
    "nodes t1 = (nodes t)(x \<mapsto> N\<lparr>node_count := node_count N + 1\<rparr>)"
    using retain_atom_ok [OF ok x] by blast
  moreover have "0 \<le> node_count N" by (rule table_okD(4) [OF ok x])
  ultimately show ?thesis
    using release_atom_ok(2) [OF t1(2), of x "N\<lparr>node_count := node_count N + 1\<rparr>"] by fastforce
qed

section \<open>What a kind of atom promises\<close>

text \<open>
  The interface of a kind of atom: a hash function and a test that is symmetric and transitive.
  The test need not be reflexive (a float that is not a number differs from itself) and values
  that it identifies may lie in different buckets (the two zeros).
\<close>

locale atom_kind =
  fixes hash :: "'k \<Rightarrow> nat" and eq :: "'k \<Rightarrow> 'k \<Rightarrow> bool"
  assumes eq_sym: "eq a b \<Longrightarrow> eq b a" and eq_trans: "\<lbrakk>eq a b; eq b c\<rbrakk> \<Longrightarrow> eq a c"
begin

lemma eq_symp: "symp eq"
  using eq_sym by (rule sympI)

lemma add_ok:
  assumes "table_ok hash eq t"
  shows "\<exists>x t' c. add_atom (hash k) (eq k) k t = Some (x, t') \<and> table_ok hash eq t' \<and>
    atom_at t' x = Some c \<and> hash c = hash k \<and> (c = k \<or> eq k c) \<and> (\<forall>y. nodes t y \<noteq> None \<longrightarrow> nodes t' y = nodes t y)"
  using add_atom_ok [OF assms eq_symp, of k] assms
  by (elim disjE exE conjE) (auto simp: atom_at_def)

lemma intern_new:
  assumes ok: "table_ok hash eq t" and new: "\<And>x c. \<lbrakk>atom_at t x = Some c; hash c = hash k\<rbrakk> \<Longrightarrow> \<not> eq k c"
  shows "\<exists>t'. add_atom (hash k) (eq k) k t = Some (next_node t, t') \<and> table_ok hash eq t' \<and>
    atom_at t (next_node t) = None \<and> atom_at t' (next_node t) = Some k"
  using add_atom_ok [OF ok eq_symp, of k] new by (elim disjE exE conjE) (auto simp: atom_at_def)

lemma never_found: "\<lbrakk>table_ok hash eq t; \<not> eq k k\<rbrakk> \<Longrightarrow> \<exists>t'. add_atom (hash k) (eq k) k t = Some (next_node t, t') \<and>
    table_ok hash eq t' \<and> atom_at t (next_node t) = None \<and> atom_at t' (next_node t) = Some k"
  using eq_sym eq_trans by (intro intern_new) blast+

lemma present:
  assumes ok: "table_ok hash eq t" and x: "atom_at t x = Some c" "hash c = hash k" "eq k c"
  shows "add_atom (hash k) (eq k) k t = Some (x, t)"
    and "search_bucket (nodes t) (eq k) (buckets t (hash k)) = Some (Some x)"
proof -
  have "y = x" if y: "atom_at t y = Some d" "hash d = hash k" "eq k d" for y d
  proof -
    obtain N M where NM: "nodes t x = Some N" "contents N = c" "nodes t y = Some M" "contents M = d"
      using x(1) y(1) by (auto simp: atom_at_def)
    have "bucket M = bucket N" using table_okD(3) [OF ok NM(1)] table_okD(3) [OF ok NM(3)] NM x(2) y(2) by simp
    then show ?thesis using table_okD(8) [OF ok NM(3,1)] NM x(3) y(3) eq_sym eq_trans by blast
  qed
  then show s: "search_bucket (nodes t) (eq k) (buckets t (hash k)) = Some (Some x)"
    using search_table [OF ok, of k] x by blast
  show "add_atom (hash k) (eq k) k t = Some (x, t)" using s by (simp add: add_atom_def)
qed

lemma intern_same:
  assumes ok: "table_ok hash eq t" and run: "add_atom (hash k) (eq k) k t = Some (x, t')"
    and l: "eq k l" "hash l = hash k"
  shows "add_atom (hash l) (eq l) l t' = Some (x, t')"
proof -
  obtain c where c: "table_ok hash eq t'" "atom_at t' x = Some c" "hash c = hash k" "c = k \<or> eq k c"
    using add_ok [OF ok, of k] run by auto
  have "eq l c" using c(4) l(1) eq_sym eq_trans by blast
  with c l(2) show ?thesis by (intro present(1)) auto
qed

lemma intern_distinct:
  assumes ok: "table_ok hash eq t" and run: "add_atom (hash k) (eq k) k t = Some (x, t')"
    and run': "add_atom (hash l) (eq l) l t' = Some (y, t'')" and l: "\<not> eq l k \<or> hash l \<noteq> hash k"
  shows "x \<noteq> y"
proof -
  obtain c where c: "table_ok hash eq t'" "atom_at t' x = Some c" "hash c = hash k" "c = k \<or> eq k c"
    using add_ok [OF ok, of k] run by auto
  consider d where "atom_at t' y = Some d" "hash d = hash l" "eq l d" | "atom_at t' y = None"
    using add_atom_ok [OF c(1) eq_symp, of l] run' by auto
  then show ?thesis
  proof cases
    case 1
    then show ?thesis using c l eq_sym eq_trans by (metis option.inject)
  qed (use c(2) in auto)
qed

lemma retained_survives:
  assumes ok: "table_ok hash eq t" and run: "add_atom (hash k) (eq k) k t = Some (x, t1)" and refl: "eq k k"
  shows "\<exists>t2 t3. retain_atom x t1 = Some t2 \<and> RemoveEphemeralHashNodes t2 = Some t3 \<and>
    table_ok hash eq t3 \<and> add_atom (hash k) (eq k) k t3 = Some (x, t3)"
proof -
  obtain c where c: "table_ok hash eq t1" "atom_at t1 x = Some c" "hash c = hash k" "c = k \<or> eq k c"
    using add_ok [OF ok, of k] run by auto
  obtain N where N: "nodes t1 x = Some N" "contents N = c" using c(2) by (auto simp: atom_at_def)
  obtain t2 where t2: "retain_atom x t1 = Some t2" "table_ok hash eq t2" "nodes t2 x = Some (N\<lparr>node_count := node_count N + 1\<rparr>)"
    using retain_atom_ok [OF c(1) N(1)] by auto
  obtain t3 where t3: "RemoveEphemeralHashNodes t2 = Some t3" "table_ok hash eq t3" "map_option contents (nodes t3 x) = Some c"
    using RemoveEphemeralHashNodes_ok [OF t2(2)] t2(3) table_okD(4) [OF c(1) N(1)] N(2) by fastforce
  have "add_atom (hash k) (eq k) k t3 = Some (x, t3)"
    by (rule present(1) [OF t3(2), of x c]) (use t3(3) c(3,4) refl in \<open>auto simp: atom_at_def\<close>)
  with t2 t3 show ?thesis by blast
qed

end

end
