(* ===== verification/Symbol_Data.thy ===== *)
theory Symbol_Data
  imports Atom_Table
begin

unbundle bit_operations_syntax

text \<open>
  The atom tables of an environment (\<^verbatim>\<open>symbol.c\<close>): the five tables with their hash functions
  and tests, the functions that intern, find, retain, release and collect atoms, and the values
  predefined when an environment is created.

  A C string is the list of its bytes without the terminating zero.  A double is its 64-bit
  pattern, a long long a 64-bit word, a pointer of the embedding program a 64-bit word.
  \<^verbatim>\<open>char\<close> is signed, so a byte is sign-extended when it is converted to \<^verbatim>\<open>size_t\<close>.  The flag
  \<^verbatim>\<open>dirty\<close> of the garbage frame is the disjunction of the flags of the five tables.  Reference
  counts are unbounded.
\<close>

type_synonym cstring = "8 word list"

record lexeme =
  lex_type :: nat
  lex_string :: cstring

record external_address =
  ea_type :: nat
  ea_contents :: u64

datatype atom_value = LexemeAtom addr | FloatAtom addr | IntegerAtom addr
  | ExternalAddressAtom addr | FactAddressAtom addr | InstanceAddressAtom addr
  | MultifieldAtom "atom_value list" | VoidAtom

record symbolData =
  SymbolTable :: "lexeme atom_table"
  FloatTable :: "u64 atom_table"
  IntegerTable :: "u64 atom_table"
  BitMapTable :: "8 word list atom_table"
  ExternalAddressTable :: "external_address atom_table"
  TrueSymbol :: ptr
  FalseSymbol :: ptr
  PositiveInfinity :: ptr
  NegativeInfinity :: ptr
  Zero :: ptr

definition SYMBOL_HASH_SIZE :: u64 where "SYMBOL_HASH_SIZE = 63559"
definition FLOAT_HASH_SIZE :: u64 where "FLOAT_HASH_SIZE = 8191"
definition INTEGER_HASH_SIZE :: u64 where "INTEGER_HASH_SIZE = 8191"
definition BITMAP_HASH_SIZE :: u64 where "BITMAP_HASH_SIZE = 8191"
definition EXTERNAL_ADDRESS_HASH_SIZE :: u64 where "EXTERNAL_ADDRESS_HASH_SIZE = 8191"

definition SYMBOL_TYPE :: nat where "SYMBOL_TYPE = 2"
definition STRING_TYPE :: nat where "STRING_TYPE = 3"
definition INSTANCE_NAME_TYPE :: nat where "INSTANCE_NAME_TYPE = 8"
definition SYMBOL_BIT :: "16 word" where "SYMBOL_BIT = 4"

section \<open>Hash functions\<close>

definition in_range :: "u64 \<Rightarrow> u64 \<Rightarrow> u64" where
  "in_range rng tally = (if rng = 0 then tally else tally mod rng)"

definition HashSymbol :: "cstring \<Rightarrow> u64 \<Rightarrow> u64" where
  "HashSymbol word rng = in_range rng (foldl (\<lambda>tally c. tally * 127 + scast c) 0 word)"

text \<open>The bytes of a 64-bit value in memory, the lowest first.\<close>

definition bytes_of :: "u64 \<Rightarrow> 8 word list" where
  "bytes_of number = map (\<lambda>i. ucast (drop_bit (8 * i) number)) [0..<8]"

definition HashFloat :: "u64 \<Rightarrow> u64 \<Rightarrow> u64" where
  "HashFloat number rng = in_range rng (foldl (\<lambda>tally c. tally * 127 + scast c) 0 (bytes_of number))"

definition llabs :: "u64 \<Rightarrow> u64" where
  "llabs number = (if number <s 0 then - number else number)"

text \<open>The remainder is taken before the test of the range: an empty range is a division by zero.\<close>

definition HashInteger :: "u64 \<Rightarrow> u64 \<Rightarrow> u64 option" where
  "HashInteger number rng = (if rng = 0 then None else Some (llabs number mod rng))"

definition HashExternalAddress :: "u64 \<Rightarrow> u64 \<Rightarrow> u64" where
  "HashExternalAddress theExternalAddress rng = in_range rng (ucast ((ucast theExternalAddress :: 32 word) div 256))"

fun long_of :: "8 word list \<Rightarrow> u64" where
  "long_of [] = 0"
| "long_of (b # bs) = ucast b + 256 * long_of bs"

fun add_bytes :: "u64 \<Rightarrow> 8 word list \<Rightarrow> u64" where
  "add_bytes cnt (a # b # c # d # e # f # g # h # word) = add_bytes (cnt + long_of [a, b, c, d, e, f, g, h]) word"
| "add_bytes cnt word = foldl (\<lambda>cnt c. cnt + scast c) cnt word"

definition HashBitMap :: "8 word list \<Rightarrow> u64 \<Rightarrow> u64" where
  "HashBitMap word rng = in_range rng (add_bytes 0 word)"

section \<open>Equality of doubles\<close>

definition is_nan :: "u64 \<Rightarrow> bool" where
  "is_nan x \<longleftrightarrow> x AND 0x7FF0000000000000 = 0x7FF0000000000000 \<and> x AND 0x000FFFFFFFFFFFFF \<noteq> 0"

definition is_zero :: "u64 \<Rightarrow> bool" where
  "is_zero x \<longleftrightarrow> x AND 0x7FFFFFFFFFFFFFFF = 0"

definition float_eq :: "u64 \<Rightarrow> u64 \<Rightarrow> bool" where
  "float_eq x y \<longleftrightarrow> \<not> is_nan x \<and> \<not> is_nan y \<and> (x = y \<or> is_zero x \<and> is_zero y)"

section \<open>Interning and finding\<close>

definition lexeme_eq :: "lexeme \<Rightarrow> lexeme \<Rightarrow> bool" where
  "lexeme_eq k peek \<longleftrightarrow> lex_type peek = lex_type k \<and> lex_string k = lex_string peek"

definition AddSymbol :: "cstring option \<Rightarrow> nat \<Rightarrow> symbolData \<Rightarrow> (addr \<times> symbolData) option" where
  "AddSymbol str theType s = do {
     str \<leftarrow> str;
     let tally = HashSymbol str SYMBOL_HASH_SIZE;
     let k = \<lparr>lex_type = theType, lex_string = str\<rparr>;
     (peek, t) \<leftarrow> add_atom (unat tally) (lexeme_eq k) k (SymbolTable s);
     Some (peek, s\<lparr>SymbolTable := t\<rparr>) }"

definition CreateSymbol :: "cstring option \<Rightarrow> symbolData \<Rightarrow> (addr \<times> symbolData) option" where
  "CreateSymbol str = AddSymbol str SYMBOL_TYPE"

definition CreateString :: "cstring option \<Rightarrow> symbolData \<Rightarrow> (addr \<times> symbolData) option" where
  "CreateString str = AddSymbol str STRING_TYPE"

definition CreateInstanceName :: "cstring option \<Rightarrow> symbolData \<Rightarrow> (addr \<times> symbolData) option" where
  "CreateInstanceName str = AddSymbol str INSTANCE_NAME_TYPE"

definition CreateBoolean :: "bool \<Rightarrow> symbolData \<Rightarrow> ptr" where
  "CreateBoolean theValue s = (if theValue then TrueSymbol s else FalseSymbol s)"

definition FindSymbolHN :: "cstring \<Rightarrow> 16 word \<Rightarrow> symbolData \<Rightarrow> ptr option" where
  "FindSymbolHN str expectedType s =
     search_bucket (nodes (SymbolTable s)) (\<lambda>peek. bit expectedType (lex_type peek) \<and> str = lex_string peek)
       (buckets (SymbolTable s) (unat (HashSymbol str SYMBOL_HASH_SIZE)))"

definition CreateFloat :: "u64 \<Rightarrow> symbolData \<Rightarrow> (addr \<times> symbolData) option" where
  "CreateFloat number s = do {
     let tally = HashFloat number FLOAT_HASH_SIZE;
     (peek, t) \<leftarrow> add_atom (unat tally) (float_eq number) number (FloatTable s);
     Some (peek, s\<lparr>FloatTable := t\<rparr>) }"

definition CreateInteger :: "u64 \<Rightarrow> symbolData \<Rightarrow> (addr \<times> symbolData) option" where
  "CreateInteger number s = do {
     tally \<leftarrow> HashInteger number INTEGER_HASH_SIZE;
     (peek, t) \<leftarrow> add_atom (unat tally) ((=) number) number (IntegerTable s);
     Some (peek, s\<lparr>IntegerTable := t\<rparr>) }"

definition FindLongHN :: "u64 \<Rightarrow> symbolData \<Rightarrow> ptr option" where
  "FindLongHN theLong s = do {
     tally \<leftarrow> HashInteger theLong INTEGER_HASH_SIZE;
     search_bucket (nodes (IntegerTable s)) ((=) theLong) (buckets (IntegerTable s) (unat tally)) }"

definition bitmap_eq :: "8 word list \<Rightarrow> 8 word list \<Rightarrow> bool" where
  "bitmap_eq theBitMap peek \<longleftrightarrow> length peek = length theBitMap \<and> list_all2 (=) peek theBitMap"

definition AddBitMap :: "8 word list option \<Rightarrow> symbolData \<Rightarrow> (addr \<times> symbolData) option" where
  "AddBitMap vTheBitMap s = do {
     theBitMap \<leftarrow> vTheBitMap;
     let tally = HashBitMap theBitMap BITMAP_HASH_SIZE;
     (peek, t) \<leftarrow> add_atom (unat tally) (bitmap_eq theBitMap) theBitMap (BitMapTable s);
     Some (peek, s\<lparr>BitMapTable := t\<rparr>) }"

definition address_eq :: "external_address \<Rightarrow> external_address \<Rightarrow> bool" where
  "address_eq k peek \<longleftrightarrow> ea_type peek = ea_type k \<and> ea_contents peek = ea_contents k"

definition CreateExternalAddress :: "u64 \<Rightarrow> nat \<Rightarrow> symbolData \<Rightarrow> (addr \<times> symbolData) option" where
  "CreateExternalAddress theExternalAddress theType s = do {
     let tally = HashExternalAddress theExternalAddress EXTERNAL_ADDRESS_HASH_SIZE;
     let k = \<lparr>ea_type = theType, ea_contents = theExternalAddress\<rparr>;
     (peek, t) \<leftarrow> add_atom (unat tally) (address_eq k) k (ExternalAddressTable s);
     Some (peek, s\<lparr>ExternalAddressTable := t\<rparr>) }"

definition CreateCExternalAddress :: "u64 \<Rightarrow> symbolData \<Rightarrow> (addr \<times> symbolData) option" where
  "CreateCExternalAddress theExternalAddress = CreateExternalAddress theExternalAddress 0"

section \<open>Reference counts\<close>

definition RetainLexeme :: "addr \<Rightarrow> symbolData \<Rightarrow> symbolData option" where
  "RetainLexeme x s = do { t \<leftarrow> retain_atom x (SymbolTable s); Some (s\<lparr>SymbolTable := t\<rparr>) }"

definition ReleaseLexeme :: "addr \<Rightarrow> symbolData \<Rightarrow> symbolData option" where
  "ReleaseLexeme x s = do { t \<leftarrow> release_atom x (SymbolTable s); Some (s\<lparr>SymbolTable := t\<rparr>) }"

definition RetainFloat :: "addr \<Rightarrow> symbolData \<Rightarrow> symbolData option" where
  "RetainFloat x s = do { t \<leftarrow> retain_atom x (FloatTable s); Some (s\<lparr>FloatTable := t\<rparr>) }"

definition ReleaseFloat :: "addr \<Rightarrow> symbolData \<Rightarrow> symbolData option" where
  "ReleaseFloat x s = do { t \<leftarrow> release_atom x (FloatTable s); Some (s\<lparr>FloatTable := t\<rparr>) }"

definition RetainInteger :: "addr \<Rightarrow> symbolData \<Rightarrow> symbolData option" where
  "RetainInteger x s = do { t \<leftarrow> retain_atom x (IntegerTable s); Some (s\<lparr>IntegerTable := t\<rparr>) }"

definition ReleaseInteger :: "addr \<Rightarrow> symbolData \<Rightarrow> symbolData option" where
  "ReleaseInteger x s = do { t \<leftarrow> release_atom x (IntegerTable s); Some (s\<lparr>IntegerTable := t\<rparr>) }"

definition IncrementBitMapReferenceCount :: "addr \<Rightarrow> symbolData \<Rightarrow> symbolData option" where
  "IncrementBitMapReferenceCount x s = do { t \<leftarrow> retain_atom x (BitMapTable s); Some (s\<lparr>BitMapTable := t\<rparr>) }"

definition DecrementBitMapReferenceCount :: "addr \<Rightarrow> symbolData \<Rightarrow> symbolData option" where
  "DecrementBitMapReferenceCount x s = do { t \<leftarrow> release_atom x (BitMapTable s); Some (s\<lparr>BitMapTable := t\<rparr>) }"

definition RetainExternalAddress :: "addr \<Rightarrow> symbolData \<Rightarrow> symbolData option" where
  "RetainExternalAddress x s = do { t \<leftarrow> retain_atom x (ExternalAddressTable s); Some (s\<lparr>ExternalAddressTable := t\<rparr>) }"

definition ReleaseExternalAddress :: "addr \<Rightarrow> symbolData \<Rightarrow> symbolData option" where
  "ReleaseExternalAddress x s = do { t \<leftarrow> release_atom x (ExternalAddressTable s); Some (s\<lparr>ExternalAddressTable := t\<rparr>) }"

fun EphemerateValue :: "atom_value \<Rightarrow> symbolData \<Rightarrow> symbolData option"
  and EphemerateMultifield :: "atom_value list \<Rightarrow> symbolData \<Rightarrow> symbolData option" where
  "EphemerateValue (LexemeAtom x) s = do { t \<leftarrow> ephemerate_atom x (SymbolTable s); Some (s\<lparr>SymbolTable := t\<rparr>) }"
| "EphemerateValue (FloatAtom x) s = do { t \<leftarrow> ephemerate_atom x (FloatTable s); Some (s\<lparr>FloatTable := t\<rparr>) }"
| "EphemerateValue (IntegerAtom x) s = do { t \<leftarrow> ephemerate_atom x (IntegerTable s); Some (s\<lparr>IntegerTable := t\<rparr>) }"
| "EphemerateValue (ExternalAddressAtom x) s =
     do { t \<leftarrow> ephemerate_atom x (ExternalAddressTable s); Some (s\<lparr>ExternalAddressTable := t\<rparr>) }"
| "EphemerateValue (MultifieldAtom vs) s = EphemerateMultifield vs s"
| "EphemerateValue (FactAddressAtom x) s = Some s"
| "EphemerateValue (InstanceAddressAtom x) s = Some s"
| "EphemerateValue VoidAtom s = Some s"
| "EphemerateMultifield [] s = Some s"
| "EphemerateMultifield (v # vs) s = do { s1 \<leftarrow> EphemerateValue v s; EphemerateMultifield vs s1 }"

section \<open>Garbage collection and initialization\<close>

definition frame_dirty :: "symbolData \<Rightarrow> bool" where
  "frame_dirty s \<longleftrightarrow> dirty (SymbolTable s) \<or> dirty (FloatTable s) \<or> dirty (IntegerTable s) \<or>
     dirty (BitMapTable s) \<or> dirty (ExternalAddressTable s)"

definition RemoveEphemeralAtoms :: "symbolData \<Rightarrow> symbolData option" where
  "RemoveEphemeralAtoms s = (if \<not> frame_dirty s then Some s else do {
     t1 \<leftarrow> RemoveEphemeralHashNodes (SymbolTable s);
     t2 \<leftarrow> RemoveEphemeralHashNodes (FloatTable s);
     t3 \<leftarrow> RemoveEphemeralHashNodes (IntegerTable s);
     t4 \<leftarrow> RemoveEphemeralHashNodes (BitMapTable s);
     t5 \<leftarrow> RemoveEphemeralHashNodes (ExternalAddressTable s);
     Some (s\<lparr>SymbolTable := t1, FloatTable := t2, IntegerTable := t3, BitMapTable := t4, ExternalAddressTable := t5\<rparr>) })"

definition TRUE_STRING :: cstring where "TRUE_STRING = [84, 82, 85, 69]"
definition FALSE_STRING :: cstring where "FALSE_STRING = [70, 65, 76, 83, 69]"
definition POSITIVE_INFINITY_STRING :: cstring where "POSITIVE_INFINITY_STRING = [43, 111, 111]"
definition NEGATIVE_INFINITY_STRING :: cstring where "NEGATIVE_INFINITY_STRING = [45, 111, 111]"

definition predefine :: "cstring \<Rightarrow> symbolData \<Rightarrow> (addr \<times> symbolData) option" where
  "predefine str s = do { (x, s1) \<leftarrow> AddSymbol (Some str) SYMBOL_TYPE s; s2 \<leftarrow> RetainLexeme x s1; Some (x, s2) }"

definition InitializeAtomTables :: "symbolData option" where
  "InitializeAtomTables = do {
     let s = \<lparr>SymbolTable = empty_table, FloatTable = empty_table, IntegerTable = empty_table,
       BitMapTable = empty_table, ExternalAddressTable = empty_table, TrueSymbol = None, FalseSymbol = None,
       PositiveInfinity = None, NegativeInfinity = None, Zero = None\<rparr>;
     (t, s) \<leftarrow> predefine TRUE_STRING s;
     (f, s) \<leftarrow> predefine FALSE_STRING (s\<lparr>TrueSymbol := Some t\<rparr>);
     (p, s) \<leftarrow> predefine POSITIVE_INFINITY_STRING (s\<lparr>FalseSymbol := Some f\<rparr>);
     (n, s) \<leftarrow> predefine NEGATIVE_INFINITY_STRING (s\<lparr>PositiveInfinity := Some p\<rparr>);
     (z, s) \<leftarrow> CreateInteger 0 (s\<lparr>NegativeInfinity := Some n\<rparr>);
     s \<leftarrow> RetainInteger z s;
     Some (s\<lparr>Zero := Some z\<rparr>) }"

definition RefreshSpecialSymbols :: "symbolData \<Rightarrow> symbolData option" where
  "RefreshSpecialSymbols s = do {
     p \<leftarrow> FindSymbolHN POSITIVE_INFINITY_STRING SYMBOL_BIT s;
     n \<leftarrow> FindSymbolHN NEGATIVE_INFINITY_STRING SYMBOL_BIT s;
     z \<leftarrow> FindLongHN 0 s;
     Some (s\<lparr>PositiveInfinity := p, NegativeInfinity := n, Zero := z\<rparr>) }"

section \<open>The five kinds of atoms\<close>

definition hash_lexeme :: "lexeme \<Rightarrow> nat" where
  "hash_lexeme k = unat (HashSymbol (lex_string k) SYMBOL_HASH_SIZE)"

definition hash_float :: "u64 \<Rightarrow> nat" where
  "hash_float number = unat (HashFloat number FLOAT_HASH_SIZE)"

definition hash_integer :: "u64 \<Rightarrow> nat" where
  "hash_integer number = unat (llabs number mod INTEGER_HASH_SIZE)"

definition hash_bitmap :: "8 word list \<Rightarrow> nat" where
  "hash_bitmap theBitMap = unat (HashBitMap theBitMap BITMAP_HASH_SIZE)"

definition hash_address :: "external_address \<Rightarrow> nat" where
  "hash_address k = unat (HashExternalAddress (ea_contents k) EXTERNAL_ADDRESS_HASH_SIZE)"

lemma atom_eq_iff [simp]:
  "lexeme_eq k c \<longleftrightarrow> k = c" "bitmap_eq b d \<longleftrightarrow> b = d" "address_eq a e \<longleftrightarrow> a = e"
  by (auto simp: lexeme_eq_def bitmap_eq_def address_eq_def list.rel_eq)

interpretation lexeme: atom_kind hash_lexeme lexeme_eq by unfold_locales auto
interpretation float: atom_kind hash_float float_eq by unfold_locales (auto simp: float_eq_def)
interpretation integer: atom_kind hash_integer "(=)" by unfold_locales auto
interpretation bitmap: atom_kind hash_bitmap bitmap_eq by unfold_locales auto
interpretation address: atom_kind hash_address address_eq by unfold_locales auto

definition symbols_ok :: "symbolData \<Rightarrow> bool" where
  "symbols_ok s \<longleftrightarrow> table_ok hash_lexeme lexeme_eq (SymbolTable s) \<and> table_ok hash_float float_eq (FloatTable s) \<and>
     table_ok hash_integer (=) (IntegerTable s) \<and> table_ok hash_bitmap bitmap_eq (BitMapTable s) \<and>
     table_ok hash_address address_eq (ExternalAddressTable s) \<and>
     flagged (SymbolTable s) \<and> flagged (FloatTable s) \<and> flagged (IntegerTable s) \<and> flagged (BitMapTable s) \<and>
     flagged (ExternalAddressTable s)"

text \<open>Every bucket index is within its table.\<close>

lemma in_range_less: "0 < rng \<Longrightarrow> in_range rng tally < rng"
  unfolding in_range_def by (simp add: word_mod_less_divisor)

lemma hash_bounds:
  "hash_lexeme k < 63559" "hash_float f < 8191" "hash_integer i < 8191" "hash_bitmap b < 8191" "hash_address a < 8191"
proof -
  have less: "unat x < unat (n :: u64)" if "x < n" for x n using that by (simp add: word_less_nat_alt)
  show "hash_lexeme k < 63559" "hash_float f < 8191" "hash_bitmap b < 8191" "hash_address a < 8191"
    using less [OF in_range_less, of 63559] less [OF in_range_less, of 8191]
    by (simp_all add: hash_lexeme_def hash_float_def hash_bitmap_def hash_address_def HashSymbol_def HashFloat_def
      HashBitMap_def HashExternalAddress_def SYMBOL_HASH_SIZE_def FLOAT_HASH_SIZE_def BITMAP_HASH_SIZE_def EXTERNAL_ADDRESS_HASH_SIZE_def)
  show "hash_integer i < 8191"
    using less [of "llabs i mod 8191" 8191] by (simp add: hash_integer_def INTEGER_HASH_SIZE_def word_mod_less_divisor)
qed

section \<open>The operations on the environment's tables\<close>

lemma bind_pair: "(do { (x, t) \<leftarrow> m; Some (x, f t) }) = map_option (\<lambda>(x, t). (x, f t)) m"
  by (cases m) auto

lemma create_eqs:
  "AddSymbol (Some str) ty s = map_option (\<lambda>(x, t). (x, s\<lparr>SymbolTable := t\<rparr>))
     (add_atom (hash_lexeme \<lparr>lex_type = ty, lex_string = str\<rparr>) (lexeme_eq \<lparr>lex_type = ty, lex_string = str\<rparr>)
       \<lparr>lex_type = ty, lex_string = str\<rparr> (SymbolTable s))"
  "CreateFloat f s = map_option (\<lambda>(x, t). (x, s\<lparr>FloatTable := t\<rparr>)) (add_atom (hash_float f) (float_eq f) f (FloatTable s))"
  "CreateInteger n s = map_option (\<lambda>(x, t). (x, s\<lparr>IntegerTable := t\<rparr>)) (add_atom (hash_integer n) ((=) n) n (IntegerTable s))"
  "AddBitMap (Some b) s = map_option (\<lambda>(x, t). (x, s\<lparr>BitMapTable := t\<rparr>)) (add_atom (hash_bitmap b) (bitmap_eq b) b (BitMapTable s))"
  "CreateExternalAddress a k s = map_option (\<lambda>(x, t). (x, s\<lparr>ExternalAddressTable := t\<rparr>))
     (add_atom (hash_address \<lparr>ea_type = k, ea_contents = a\<rparr>) (address_eq \<lparr>ea_type = k, ea_contents = a\<rparr>)
       \<lparr>ea_type = k, ea_contents = a\<rparr> (ExternalAddressTable s))"
  by (simp_all add: AddSymbol_def CreateFloat_def CreateInteger_def AddBitMap_def CreateExternalAddress_def bind_pair
    hash_lexeme_def hash_float_def hash_integer_def hash_bitmap_def hash_address_def HashInteger_def INTEGER_HASH_SIZE_def Let_def)

lemma FindSymbolHN_eq:
  assumes "\<And>n. bit expectedType n \<longleftrightarrow> n = ty"
  shows "FindSymbolHN str expectedType s =
    search_bucket (nodes (SymbolTable s)) (lexeme_eq \<lparr>lex_type = ty, lex_string = str\<rparr>)
      (buckets (SymbolTable s) (hash_lexeme \<lparr>lex_type = ty, lex_string = str\<rparr>))"
proof -
  have "(\<lambda>peek. bit expectedType (lex_type peek) \<and> str = lex_string peek) = lexeme_eq \<lparr>lex_type = ty, lex_string = str\<rparr>"
    unfolding lexeme_eq_def by (simp add: assms)
  then show ?thesis by (simp add: FindSymbolHN_def hash_lexeme_def)
qed

lemma FindLongHN_eq:
  "FindLongHN n s = search_bucket (nodes (IntegerTable s)) ((=) n) (buckets (IntegerTable s) (hash_integer n))"
  by (simp add: FindLongHN_def HashInteger_def INTEGER_HASH_SIZE_def hash_integer_def)

lemma AddSymbol_ok:
  assumes "symbols_ok s"
  shows "\<exists>x s'. AddSymbol (Some str) ty s = Some (x, s') \<and> symbols_ok s' \<and>
    atom_at (SymbolTable s') x = Some \<lparr>lex_type = ty, lex_string = str\<rparr> \<and>
    (\<forall>y. nodes (SymbolTable s) y \<noteq> None \<longrightarrow> nodes (SymbolTable s') y = nodes (SymbolTable s) y) \<and>
    s' = s\<lparr>SymbolTable := SymbolTable s'\<rparr>"
  using lexeme.add_ok [of "SymbolTable s" "\<lparr>lex_type = ty, lex_string = str\<rparr>"] assms
  by (auto simp: create_eqs symbols_ok_def dest: flagged_ops(2-5))

lemma CreateInteger_ok:
  assumes "symbols_ok s"
  shows "\<exists>x s'. CreateInteger n s = Some (x, s') \<and> symbols_ok s' \<and> atom_at (IntegerTable s') x = Some n \<and>
    s' = s\<lparr>IntegerTable := IntegerTable s'\<rparr>"
  using integer.add_ok [of "IntegerTable s" n] assms by (auto simp: create_eqs symbols_ok_def dest: flagged_ops(2-5))

lemma is_zeroD:
  assumes "is_zero x"
  shows "x = 0 \<or> x = 0x8000000000000000"
proof -
  have m: "(0x7FFFFFFFFFFFFFFF :: u64) = mask 63" and p: "(0x8000000000000000 :: u64) = 2 ^ 63"
    by (simp_all add: mask_eq_exp_minus_1)
  have low: "\<not> bit x i" if "i < 63" for i
  proof
    assume "bit x i"
    then have "bit (x AND mask 63) i" using that by (simp add: bit_and_iff bit_mask_iff)
    then show False using assms unfolding is_zero_def m by simp
  qed
  have high: "\<not> bit x i" if "i > 63" for i using that bit_imp_le_length [of x i] by auto
  show ?thesis
  proof (cases "bit x 63")
    case True
    have "bit x i \<longleftrightarrow> i = 63" for i using True low [of i] high [of i] by (cases i "63 :: nat" rule: linorder_cases) auto
    then have "x = 2 ^ 63" by (intro bit_word_eqI) (simp add: bit_exp_iff del: power_numeral)
    then show ?thesis unfolding p by blast
  next
    case False
    have "\<not> bit x i" for i using False low [of i] high [of i] by (cases i "63 :: nat" rule: linorder_cases) auto
    then have "x = 0" by (intro bit_word_eqI) simp
    then show ?thesis by simp
  qed
qed

lemma zeros_apart:
  assumes "is_zero x" "is_zero y" "hash_float x = hash_float y"
  shows "x = y"
proof -
  have "HashFloat 0 8191 \<noteq> HashFloat 0x8000000000000000 8191" by code_simp
  then have "hash_float 0 \<noteq> hash_float 0x8000000000000000"
    by (metis FLOAT_HASH_SIZE_def hash_float_def word_unat_eq_iff)
  then show ?thesis using is_zeroD [OF assms(1)] is_zeroD [OF assms(2)] assms(3) by metis
qed

lemma CreateFloat_ok:
  assumes "symbols_ok s"
  shows "\<exists>x s'. CreateFloat f s = Some (x, s') \<and> symbols_ok s' \<and> atom_at (FloatTable s') x = Some f \<and>
    s' = s\<lparr>FloatTable := FloatTable s'\<rparr>"
proof -
  obtain x t' c where t': "add_atom (hash_float f) (float_eq f) f (FloatTable s) = Some (x, t')"
    "table_ok hash_float float_eq t'" "atom_at t' x = Some c" "hash_float c = hash_float f" "c = f \<or> float_eq f c"
    using float.add_ok [of "FloatTable s" f] assms by (auto simp: symbols_ok_def)
  have "c = f" using t'(4,5) zeros_apart by (auto simp: float_eq_def)
  with t' assms show ?thesis by (auto simp: create_eqs symbols_ok_def dest: flagged_ops(2-5))
qed

lemma CreateFloat_nan:
  assumes "symbols_ok s" and "is_nan f"
  shows "\<exists>s'. CreateFloat f s = Some (next_node (FloatTable s), s') \<and> symbols_ok s' \<and>
    atom_at (FloatTable s) (next_node (FloatTable s)) = None"
  using float.never_found [of "FloatTable s" f] assms
  by (auto simp: create_eqs symbols_ok_def float_eq_def dest: flagged_ops(2-5))

section \<open>Garbage collection\<close>

text \<open>A collection keeps exactly the atoms that are in use.\<close>

definition collected :: "'k atom_table \<Rightarrow> 'k atom_table \<Rightarrow> bool" where
  "collected t t' \<longleftrightarrow> (\<forall>k c. interned t' k c \<longleftrightarrow> interned t k c \<and> 0 < c) \<and>
     (\<forall>x N. nodes t x = Some N \<longrightarrow> 0 < node_count N \<longrightarrow> atom_at t' x = Some (contents N))"

lemma collect:
  assumes "table_ok hash eq t"
  shows "\<exists>t'. RemoveEphemeralHashNodes t = Some t' \<and> table_ok hash eq t' \<and> flagged t' \<and> collected t t'"
  using RemoveEphemeralHashNodes_ok [OF assms] by (auto simp: flagged_def atom_at_def collected_def)

lemma clean_interned:
  assumes "table_ok hash eq t" "flagged t" "\<not> dirty t" "interned t k c"
  shows "0 < c"
proof -
  obtain x N where N: "nodes t x = Some N" "node_count N = c" using assms(4) by (auto simp: interned_def)
  have "\<not> markedEphemeral N" using table_okD(6) [OF assms(1) N(1)] assms(2,3) by (simp add: flagged_def)
  then have "c \<noteq> 0" using table_okD(5) [OF assms(1) N(1)] N(2) by auto
  then show ?thesis using table_okD(4) [OF assms(1) N(1)] N(2) by simp
qed

lemma clean_collected: "\<lbrakk>table_ok hash eq t; flagged t; \<not> dirty t\<rbrakk> \<Longrightarrow> collected t t"
  using clean_interned by (fastforce simp: collected_def atom_at_def)

lemma RemoveEphemeralAtoms_ok:
  assumes ok: "symbols_ok s"
  shows "\<exists>s'. RemoveEphemeralAtoms s = Some s' \<and> symbols_ok s' \<and>
    collected (SymbolTable s) (SymbolTable s') \<and> collected (FloatTable s) (FloatTable s') \<and>
    collected (IntegerTable s) (IntegerTable s') \<and> collected (BitMapTable s) (BitMapTable s') \<and>
    collected (ExternalAddressTable s) (ExternalAddressTable s')"
proof (cases "frame_dirty s")
  case False
  then show ?thesis using ok by (auto simp: RemoveEphemeralAtoms_def frame_dirty_def symbols_ok_def intro: clean_collected)
next
  case True
  note T = ok [unfolded symbols_ok_def]
  obtain t1 where t1: "RemoveEphemeralHashNodes (SymbolTable s) = Some t1" "table_ok hash_lexeme lexeme_eq t1" "flagged t1" "collected (SymbolTable s) t1"
    using T collect [of hash_lexeme lexeme_eq "SymbolTable s"] by blast
  obtain t2 where t2: "RemoveEphemeralHashNodes (FloatTable s) = Some t2" "table_ok hash_float float_eq t2" "flagged t2" "collected (FloatTable s) t2"
    using T collect [of hash_float float_eq "FloatTable s"] by blast
  obtain t3 where t3: "RemoveEphemeralHashNodes (IntegerTable s) = Some t3" "table_ok hash_integer (=) t3" "flagged t3" "collected (IntegerTable s) t3"
    using T collect [of hash_integer "(=)" "IntegerTable s"] by blast
  obtain t4 where t4: "RemoveEphemeralHashNodes (BitMapTable s) = Some t4" "table_ok hash_bitmap bitmap_eq t4" "flagged t4" "collected (BitMapTable s) t4"
    using T collect [of hash_bitmap bitmap_eq "BitMapTable s"] by blast
  obtain t5 where t5: "RemoveEphemeralHashNodes (ExternalAddressTable s) = Some t5" "table_ok hash_address address_eq t5" "flagged t5" "collected (ExternalAddressTable s) t5"
    using T collect [of hash_address address_eq "ExternalAddressTable s"] by blast
  show ?thesis using True t1 t2 t3 t4 t5 by (simp add: RemoveEphemeralAtoms_def symbols_ok_def)
qed

section \<open>The predefined values\<close>

definition in_use :: "'k atom_table \<Rightarrow> 'k \<Rightarrow> bool" where
  "in_use t k \<longleftrightarrow> (\<exists>x N. nodes t x = Some N \<and> contents N = k \<and> 0 < node_count N)"

lemma retain_in_use:
  assumes ok: "table_ok hash eq t" and x: "atom_at t x = Some k"
  shows "\<exists>t'. retain_atom x t = Some t' \<and> table_ok hash eq t' \<and> atom_at t' = atom_at t \<and> in_use t' k \<and> (\<forall>l. in_use t l \<longrightarrow> in_use t' l)"
proof -
  obtain N where N: "nodes t x = Some N" "contents N = k" using x by (auto simp: atom_at_def)
  let ?N = "N\<lparr>node_count := node_count N + 1\<rparr>"
  obtain t' where t': "retain_atom x t = Some t'" "table_ok hash eq t'" "nodes t' = (nodes t)(x \<mapsto> ?N)"
    using retain_atom_ok [OF ok N(1)] by blast
  have pos: "0 < node_count ?N" using table_okD(4) [OF ok N(1)] by simp
  then have k: "in_use t' k" unfolding in_use_def using N(2) t'(3) by (intro exI [of _ x] exI [of _ ?N]) simp
  have "in_use t' l" if "in_use t l" for l
  proof -
    obtain y M where M: "nodes t y = Some M" "contents M = l" "0 < node_count M" using \<open>in_use t l\<close> by (auto simp: in_use_def)
    show ?thesis
    proof (cases "y = x")
      case False
      then have "nodes t' y = Some M" using t'(3) M(1) by simp
      then show ?thesis using M by (auto simp: in_use_def)
    qed (use M N k in auto)
  qed
  moreover have "atom_at t' = atom_at t" using t'(3) N by (auto simp: atom_at_def fun_eq_iff)
  ultimately show ?thesis using t'(1,2) k by blast
qed

lemma add_in_use:
  assumes "\<forall>y. nodes t y \<noteq> None \<longrightarrow> nodes t' y = nodes t y"
  shows "atom_at t y = Some k \<Longrightarrow> atom_at t' y = Some k" and "in_use t k \<Longrightarrow> in_use t' k"
proof -
  show "atom_at t' y = Some k" if "atom_at t y = Some k"
    using that assms [rule_format, of y] by (auto simp: atom_at_def)
  assume "in_use t k"
  then obtain x N where "nodes t x = Some N" "contents N = k" "0 < node_count N" by (auto simp: in_use_def)
  then show "in_use t' k" using assms [rule_format, of x] by (auto simp: in_use_def)
qed

lemma predefine_ok:
  assumes ok: "symbols_ok s"
  shows "\<exists>x s'. predefine str s = Some (x, s') \<and> symbols_ok s' \<and> s' = s\<lparr>SymbolTable := SymbolTable s'\<rparr> \<and>
    atom_at (SymbolTable s') x = Some \<lparr>lex_type = SYMBOL_TYPE, lex_string = str\<rparr> \<and>
    in_use (SymbolTable s') \<lparr>lex_type = SYMBOL_TYPE, lex_string = str\<rparr> \<and>
    (\<forall>y k. atom_at (SymbolTable s) y = Some k \<longrightarrow> atom_at (SymbolTable s') y = Some k) \<and>
    (\<forall>k. in_use (SymbolTable s) k \<longrightarrow> in_use (SymbolTable s') k)"
proof -
  let ?k = "\<lparr>lex_type = SYMBOL_TYPE, lex_string = str\<rparr>"
  obtain x s1 where s1: "AddSymbol (Some str) SYMBOL_TYPE s = Some (x, s1)" "symbols_ok s1" "atom_at (SymbolTable s1) x = Some ?k"
    "\<forall>y. nodes (SymbolTable s) y \<noteq> None \<longrightarrow> nodes (SymbolTable s1) y = nodes (SymbolTable s) y" "s1 = s\<lparr>SymbolTable := SymbolTable s1\<rparr>"
    using AddSymbol_ok [OF ok] by blast
  have T: "table_ok hash_lexeme lexeme_eq (SymbolTable s1)" using s1(2) by (simp add: symbols_ok_def)
  obtain t where t: "retain_atom x (SymbolTable s1) = Some t" "table_ok hash_lexeme lexeme_eq t" "atom_at t = atom_at (SymbolTable s1)"
    "in_use t ?k" "\<forall>l. in_use (SymbolTable s1) l \<longrightarrow> in_use t l"
    using retain_in_use [OF T s1(3)] by blast
  let ?s = "s1\<lparr>SymbolTable := t\<rparr>"
  have "symbols_ok ?s" using s1(2) t(2) flagged_ops(3) [OF t(1)] by (auto simp: symbols_ok_def)
  moreover have "predefine str s = Some (x, ?s)" using s1(1) t(1) by (simp add: predefine_def RetainLexeme_def)
  moreover have "?s = s\<lparr>SymbolTable := t\<rparr>" using s1(5) by (metis symbolData.surjective symbolData.update_convs(1))
  ultimately show ?thesis using t(3-5) s1(3) add_in_use [OF s1(4)] by (intro exI [of _ x] exI [of _ ?s]) simp
qed

lemma find_symbol:
  assumes ok: "symbols_ok s" and x: "atom_at (SymbolTable s) x = Some \<lparr>lex_type = ty, lex_string = str\<rparr>"
    and bits: "\<And>n. bit expectedType n \<longleftrightarrow> n = ty"
  shows "FindSymbolHN str expectedType s = Some (Some x)" and "AddSymbol (Some str) ty s = Some (x, s)"
  using lexeme.present [of "SymbolTable s" x _ "\<lparr>lex_type = ty, lex_string = str\<rparr>"] ok x
  by (auto simp: FindSymbolHN_eq [OF bits] create_eqs symbols_ok_def)

lemma find_long:
  assumes "symbols_ok s" "atom_at (IntegerTable s) x = Some n"
  shows "FindLongHN n s = Some (Some x)" and "CreateInteger n s = Some (x, s)"
  using integer.present [of "IntegerTable s" x n n] assms by (auto simp: FindLongHN_eq create_eqs symbols_ok_def)

lemma SYMBOL_BIT_iff: "bit SYMBOL_BIT n \<longleftrightarrow> n = SYMBOL_TYPE"
proof -
  have "SYMBOL_BIT = 2 ^ SYMBOL_TYPE" by (simp add: SYMBOL_BIT_def SYMBOL_TYPE_def)
  moreover have "bit (2 ^ SYMBOL_TYPE :: 16 word) n \<longleftrightarrow> n = SYMBOL_TYPE"
    by (auto simp: bit_exp_iff possible_bit_word SYMBOL_TYPE_def simp del: power_numeral)
  ultimately show ?thesis by (simp only:)
qed

text \<open>The state after the environment is created: the predefined values are in the tables and in use.\<close>

definition predefined :: "symbolData \<Rightarrow> bool" where
  "predefined s \<longleftrightarrow> (\<exists>t f p n z. TrueSymbol s = Some t \<and> FalseSymbol s = Some f \<and> PositiveInfinity s = Some p \<and>
     NegativeInfinity s = Some n \<and> Zero s = Some z \<and> in_use (IntegerTable s) 0 \<and> atom_at (IntegerTable s) z = Some 0 \<and>
     (\<forall>(x, str) \<in> {(t, TRUE_STRING), (f, FALSE_STRING), (p, POSITIVE_INFINITY_STRING), (n, NEGATIVE_INFINITY_STRING)}.
        in_use (SymbolTable s) \<lparr>lex_type = SYMBOL_TYPE, lex_string = str\<rparr> \<and>
        atom_at (SymbolTable s) x = Some \<lparr>lex_type = SYMBOL_TYPE, lex_string = str\<rparr>))"

lemma zero_ok:
  assumes ok: "symbols_ok s"
  shows "\<exists>z s1 s2. CreateInteger 0 s = Some (z, s1) \<and> RetainInteger z s1 = Some s2 \<and> symbols_ok s2 \<and>
    s2 = s\<lparr>IntegerTable := IntegerTable s2\<rparr> \<and> atom_at (IntegerTable s2) z = Some 0 \<and> in_use (IntegerTable s2) 0"
proof -
  obtain z s1 where s1: "CreateInteger 0 s = Some (z, s1)" "symbols_ok s1" "atom_at (IntegerTable s1) z = Some 0"
    "s1 = s\<lparr>IntegerTable := IntegerTable s1\<rparr>" using CreateInteger_ok [OF ok] by blast
  have T: "table_ok hash_integer (=) (IntegerTable s1)" using s1(2) by (simp add: symbols_ok_def)
  obtain t where t: "retain_atom z (IntegerTable s1) = Some t" "table_ok hash_integer (=) t" "atom_at t = atom_at (IntegerTable s1)" "in_use t 0"
    using retain_in_use [OF T s1(3)] by blast
  have "symbols_ok (s1\<lparr>IntegerTable := t\<rparr>)" using s1(2) t(2) flagged_ops(3) [OF t(1)] by (auto simp: symbols_ok_def)
  moreover have "s1\<lparr>IntegerTable := t\<rparr> = s\<lparr>IntegerTable := t\<rparr>" by (subst s1(4)) simp
  ultimately show ?thesis using s1(1,3) t by (auto simp: RetainInteger_def)
qed

lemma InitializeAtomTables_ok: "\<exists>s. InitializeAtomTables = Some s \<and> symbols_ok s \<and> predefined s"
proof -
  let ?lex = "\<lambda>str. \<lparr>lex_type = SYMBOL_TYPE, lex_string = str\<rparr>"
  let ?s0 = "\<lparr>SymbolTable = empty_table, FloatTable = empty_table, IntegerTable = empty_table,
       BitMapTable = empty_table, ExternalAddressTable = empty_table, TrueSymbol = None, FalseSymbol = None,
       PositiveInfinity = None, NegativeInfinity = None, Zero = None\<rparr>"
  have ok0: "symbols_ok ?s0" by (simp add: symbols_ok_def empty_table_ok flagged_ops(1))
  have ptrs: "symbols_ok (s\<lparr>TrueSymbol := p\<rparr>) = symbols_ok s" "symbols_ok (s\<lparr>FalseSymbol := p\<rparr>) = symbols_ok s"
    "symbols_ok (s\<lparr>PositiveInfinity := p\<rparr>) = symbols_ok s" "symbols_ok (s\<lparr>NegativeInfinity := p\<rparr>) = symbols_ok s"
    "symbols_ok (s\<lparr>Zero := p\<rparr>) = symbols_ok s" for s p by (simp_all add: symbols_ok_def)
  obtain t s1 where s1: "predefine TRUE_STRING ?s0 = Some (t, s1)" "symbols_ok s1" "s1 = ?s0\<lparr>SymbolTable := SymbolTable s1\<rparr>"
    "atom_at (SymbolTable s1) t = Some (?lex TRUE_STRING)" "in_use (SymbolTable s1) (?lex TRUE_STRING)"
    using predefine_ok [OF ok0, of TRUE_STRING] by blast
  have ok1: "symbols_ok (s1\<lparr>TrueSymbol := Some t\<rparr>)" using s1(2) ptrs by simp
  obtain f s2 where s2: "predefine FALSE_STRING (s1\<lparr>TrueSymbol := Some t\<rparr>) = Some (f, s2)" "symbols_ok s2"
    "s2 = s1\<lparr>TrueSymbol := Some t\<rparr>\<lparr>SymbolTable := SymbolTable s2\<rparr>"
    "atom_at (SymbolTable s2) f = Some (?lex FALSE_STRING)" "in_use (SymbolTable s2) (?lex FALSE_STRING)"
    "\<And>y k. atom_at (SymbolTable s1) y = Some k \<Longrightarrow> atom_at (SymbolTable s2) y = Some k" "\<And>k. in_use (SymbolTable s1) k \<Longrightarrow> in_use (SymbolTable s2) k"
    using predefine_ok [OF ok1, of FALSE_STRING] by auto
  have ok2: "symbols_ok (s2\<lparr>FalseSymbol := Some f\<rparr>)" using s2(2) ptrs by simp
  obtain p s3 where s3: "predefine POSITIVE_INFINITY_STRING (s2\<lparr>FalseSymbol := Some f\<rparr>) = Some (p, s3)" "symbols_ok s3"
    "s3 = s2\<lparr>FalseSymbol := Some f\<rparr>\<lparr>SymbolTable := SymbolTable s3\<rparr>"
    "atom_at (SymbolTable s3) p = Some (?lex POSITIVE_INFINITY_STRING)" "in_use (SymbolTable s3) (?lex POSITIVE_INFINITY_STRING)"
    "\<And>y k. atom_at (SymbolTable s2) y = Some k \<Longrightarrow> atom_at (SymbolTable s3) y = Some k" "\<And>k. in_use (SymbolTable s2) k \<Longrightarrow> in_use (SymbolTable s3) k"
    using predefine_ok [OF ok2, of POSITIVE_INFINITY_STRING] by auto
  have ok3: "symbols_ok (s3\<lparr>PositiveInfinity := Some p\<rparr>)" using s3(2) ptrs by simp
  obtain n s4 where s4: "predefine NEGATIVE_INFINITY_STRING (s3\<lparr>PositiveInfinity := Some p\<rparr>) = Some (n, s4)" "symbols_ok s4"
    "s4 = s3\<lparr>PositiveInfinity := Some p\<rparr>\<lparr>SymbolTable := SymbolTable s4\<rparr>"
    "atom_at (SymbolTable s4) n = Some (?lex NEGATIVE_INFINITY_STRING)" "in_use (SymbolTable s4) (?lex NEGATIVE_INFINITY_STRING)"
    "\<And>y k. atom_at (SymbolTable s3) y = Some k \<Longrightarrow> atom_at (SymbolTable s4) y = Some k" "\<And>k. in_use (SymbolTable s3) k \<Longrightarrow> in_use (SymbolTable s4) k"
    using predefine_ok [OF ok3, of NEGATIVE_INFINITY_STRING] by auto
  have ok4: "symbols_ok (s4\<lparr>NegativeInfinity := Some n\<rparr>)" using s4(2) ptrs by simp
  obtain z s5 s6 where s6: "CreateInteger 0 (s4\<lparr>NegativeInfinity := Some n\<rparr>) = Some (z, s5)" "RetainInteger z s5 = Some s6" "symbols_ok s6"
    "s6 = s4\<lparr>NegativeInfinity := Some n\<rparr>\<lparr>IntegerTable := IntegerTable s6\<rparr>" "atom_at (IntegerTable s6) z = Some 0" "in_use (IntegerTable s6) 0"
    using zero_ok [OF ok4] by blast
  have run: "InitializeAtomTables = Some (s6\<lparr>Zero := Some z\<rparr>)"
    unfolding InitializeAtomTables_def using s1(1) s2(1) s3(1) s4(1) s6(1,2) by simp
  have S: "SymbolTable s6 = SymbolTable s4" by (subst s6(4)) simp
  have ptr: "TrueSymbol s6 = Some t" "FalseSymbol s6 = Some f" "PositiveInfinity s6 = Some p" "NegativeInfinity s6 = Some n"
    by (subst s6(4), simp, (subst s4(3), simp)?, (subst s3(3), simp)?, (subst s2(3), simp)?)+
  have "predefined (s6\<lparr>Zero := Some z\<rparr>)"
    unfolding predefined_def by (simp add: ptr S s6(5,6) s4(4-7) s3(4-7) s2(4-7) s1(4,5))
  moreover have "symbols_ok (s6\<lparr>Zero := Some z\<rparr>)" using s6(3) ptrs by simp
  ultimately show ?thesis using run by blast
qed

lemma predefinedE:
  assumes "predefined s"
  obtains t f p n z where "TrueSymbol s = Some t" "FalseSymbol s = Some f" "PositiveInfinity s = Some p"
    "NegativeInfinity s = Some n" "Zero s = Some z" "in_use (IntegerTable s) 0" "atom_at (IntegerTable s) z = Some 0"
    "\<forall>(x, str) \<in> {(t, TRUE_STRING), (f, FALSE_STRING), (p, POSITIVE_INFINITY_STRING), (n, NEGATIVE_INFINITY_STRING)}.
       in_use (SymbolTable s) \<lparr>lex_type = SYMBOL_TYPE, lex_string = str\<rparr> \<and>
       atom_at (SymbolTable s) x = Some \<lparr>lex_type = SYMBOL_TYPE, lex_string = str\<rparr>"
  using assms unfolding predefined_def by blast

lemma RefreshSpecialSymbols_ok:
  assumes ok: "symbols_ok s" and p: "predefined s"
  shows "RefreshSpecialSymbols s = Some s"
proof -
  obtain t f p n z where P: "PositiveInfinity s = Some p" "NegativeInfinity s = Some n" "Zero s = Some z"
    "atom_at (IntegerTable s) z = Some 0"
    "atom_at (SymbolTable s) p = Some \<lparr>lex_type = SYMBOL_TYPE, lex_string = POSITIVE_INFINITY_STRING\<rparr>"
    "atom_at (SymbolTable s) n = Some \<lparr>lex_type = SYMBOL_TYPE, lex_string = NEGATIVE_INFINITY_STRING\<rparr>"
    using p by (elim predefinedE) auto
  have "s\<lparr>PositiveInfinity := Some p, NegativeInfinity := Some n, Zero := Some z\<rparr> = s"
    using P(1-3) by (cases s) simp
  then show ?thesis
    using find_symbol(1) [OF ok P(5) SYMBOL_BIT_iff] find_symbol(1) [OF ok P(6) SYMBOL_BIT_iff] find_long(1) [OF ok P(4)]
    by (simp add: RefreshSpecialSymbols_def)
qed

lemma collected_in_use: "\<lbrakk>collected t t'; in_use t k; atom_at t x = Some k; table_ok hash eq t; eq k k\<rbrakk> \<Longrightarrow> in_use t' k \<and> atom_at t' x = Some k"
proof -
  assume c: "collected t t'" and u: "in_use t k" and x: "atom_at t x = Some k" and ok: "table_ok hash eq t" and r: "eq k k"
  obtain y N where N: "nodes t y = Some N" "contents N = k" "0 < node_count N" using u by (auto simp: in_use_def)
  obtain M where M: "nodes t x = Some M" "contents M = k" using x by (auto simp: atom_at_def)
  have "y = x" by (rule table_okD(8) [OF ok N(1) M(1)]) (use N M r table_okD(3) [OF ok N(1)] table_okD(3) [OF ok M(1)] in simp_all)
  moreover have "interned t k (node_count N)" using N by (auto simp: interned_def)
  then have "interned t' k (node_count N)" using c N(3) by (simp add: collected_def)
  then have "in_use t' k" using N(3) unfolding interned_def in_use_def by metis
  ultimately show ?thesis using c N by (simp add: collected_def)
qed

lemma predefined_survive:
  assumes ok: "symbols_ok s" and p: "predefined s" and run: "RemoveEphemeralAtoms s = Some s'"
  shows "predefined s'"
proof -
  let ?lex = "\<lambda>str. \<lparr>lex_type = SYMBOL_TYPE, lex_string = str\<rparr>"
  have c: "collected (SymbolTable s) (SymbolTable s')" "collected (IntegerTable s) (IntegerTable s')"
    using RemoveEphemeralAtoms_ok [OF ok] run by auto
  have T: "table_ok hash_lexeme lexeme_eq (SymbolTable s)" "table_ok hash_integer (=) (IntegerTable s)"
    using ok by (simp_all add: symbols_ok_def)
  have ptr: "TrueSymbol s' = TrueSymbol s" "FalseSymbol s' = FalseSymbol s" "PositiveInfinity s' = PositiveInfinity s"
    "NegativeInfinity s' = NegativeInfinity s" "Zero s' = Zero s"
    using run by (auto simp: RemoveEphemeralAtoms_def bind_eq_Some_conv split: if_splits)
  have sym: "in_use (SymbolTable s') k \<and> atom_at (SymbolTable s') x = Some k"
    if "in_use (SymbolTable s) k \<and> atom_at (SymbolTable s) x = Some k" for k x
    using that collected_in_use [OF c(1) _ _ T(1), of k x] by simp
  have int: "in_use (IntegerTable s') k \<and> atom_at (IntegerTable s') x = Some k"
    if "in_use (IntegerTable s) k" "atom_at (IntegerTable s) x = Some k" for k x
    using that collected_in_use [OF c(2) _ _ T(2), of k x] by simp
  show ?thesis using p
  proof (rule predefinedE)
    fix t f q n z
    assume P: "TrueSymbol s = Some t" "FalseSymbol s = Some f" "PositiveInfinity s = Some q" "NegativeInfinity s = Some n"
      "Zero s = Some z" "in_use (IntegerTable s) 0" "atom_at (IntegerTable s) z = Some 0"
      and S: "\<forall>(x, str) \<in> {(t, TRUE_STRING), (f, FALSE_STRING), (q, POSITIVE_INFINITY_STRING), (n, NEGATIVE_INFINITY_STRING)}.
        in_use (SymbolTable s) \<lparr>lex_type = SYMBOL_TYPE, lex_string = str\<rparr> \<and>
        atom_at (SymbolTable s) x = Some \<lparr>lex_type = SYMBOL_TYPE, lex_string = str\<rparr>"
    have "\<forall>(x, str) \<in> {(t, TRUE_STRING), (f, FALSE_STRING), (q, POSITIVE_INFINITY_STRING), (n, NEGATIVE_INFINITY_STRING)}.
        in_use (SymbolTable s') \<lparr>lex_type = SYMBOL_TYPE, lex_string = str\<rparr> \<and>
        atom_at (SymbolTable s') x = Some \<lparr>lex_type = SYMBOL_TYPE, lex_string = str\<rparr>"
      using S sym [of "?lex TRUE_STRING" t] sym [of "?lex FALSE_STRING" f] sym [of "?lex POSITIVE_INFINITY_STRING" q]
        sym [of "?lex NEGATIVE_INFINITY_STRING" n] by simp
    with int [OF P(6,7)] show "predefined s'" unfolding predefined_def ptr P(1-5) by blast
  qed
qed

end
