(* ===== verification/Clips_Env.thy ===== *)
theory Clips_Env
  imports Symbol_Data
begin

text \<open>
  The data model of the rule engine: the structures of \<^verbatim>\<open>agenda.h\<close>,
  \<^verbatim>\<open>ruledef.h\<close>, \<^verbatim>\<open>match.h\<close>, \<^verbatim>\<open>network.h\<close>, \<^verbatim>\<open>engine.h\<close> and
  \<^verbatim>\<open>moduldef.h\<close>, and the environment that holds them.  Activations, salience groups and
  partial matches live in stores addressed by pointers, because the code links, shares and
  frees them through pointers.  Rules, joins, entities and modules are named by numbers
  that stand for their C addresses.  Singly linked lists with one owner (the focus stack,
  the module stack, the lists of registered functions) are HOL lists.

  Text the code writes to a router is recorded as a list of messages, the newest first.
\<close>

type_synonym rule_id = nat
type_synonym module_id = nat
type_synonym join_id = nat
type_synonym entity_id = nat
type_synonym expr_id = nat

section \<open>Enumerations\<close>

datatype SalienceEvaluationType = WHEN_DEFINED | WHEN_ACTIVATED | EVERY_CYCLE

datatype StrategyType =
    DEPTH_STRATEGY | BREADTH_STRATEGY | LEX_STRATEGY | MEA_STRATEGY
  | COMPLEXITY_STRATEGY | SIMPLICITY_STRATEGY | RANDOM_STRATEGY

datatype RetractError =
    RE_NO_ERROR | RE_NULL_POINTER_ERROR | RE_COULD_NOT_RETRACT_ERROR | RE_RULE_NETWORK_ERROR

datatype AssertError =
    AE_NO_ERROR | AE_NULL_POINTER_ERROR | AE_RETRACTED_ERROR | AE_COULD_NOT_ASSERT_ERROR
  | AE_RULE_NETWORK_ERROR

datatype comparison = LESS_THAN | GREATER_THAN | EQUAL

text \<open>What evaluating a salience expression can yield.\<close>

datatype eval_result = EvalError | NonInteger | IntegerValue int

datatype message =
    ActivationOn addr
  | ActivationOff addr
  | FocusOn module_id "module_id option"
  | FocusOff module_id "module_id option"
  | FireRule int string
  | HaltedIn string bool
  | LimitReached
  | BreakingOn string
  | StatisticsOf int "(int \<times> u64) list"
  | SalienceInformationError string
  | SalienceNonIntegerError
  | SalienceRangeError int int
  | CantFindItem string string
  | InvalidArgument string
  | NoBreakpoint string
  | ModuleChangeCall string
  | RuleFiresCall string ptr
  | ListedFocus string
  | FactOn addr
  | FactOff addr
  | AssertFunctionCall string addr
  | RetractFunctionCall string addr
  | ModifyFunctionCall string ptr ptr
  | RetractedDuringMatching
  | AssertedDuringMatching
  | PrintedMatch addr
  | PrintedNone

section \<open>Structures\<close>

record activation =
  theRule :: rule_id
  basis :: ptr
  act_salience :: int
  act_timetag :: u64
  randomID :: int
  act_prev :: ptr
  act_next :: ptr

record salienceGroup =
  grp_salience :: int
  grp_first :: ptr
  grp_last :: ptr
  grp_next :: ptr
  grp_prev :: ptr

record defruleModule =
  groupings :: ptr
  agenda :: ptr
  ruleList :: "rule_id list"

record defrule =
  rule_name :: string
  whichModule :: module_id
  rule_salience :: int
  complexity :: "11 word"
  afterBreakpoint :: bool
  watchActivation :: bool
  watchFiring :: bool
  autoFocus :: bool
  executing :: bool
  dynamicSalience :: "expr_id option"
  logicalJoin :: "join_id option"
  lastJoin :: join_id
  disjunct :: "rule_id option"

text \<open>
  A binding of a partial match is the pointer to an alpha match; the alpha match holds the
  pointer to the matching fact or instance.  \<open>None\<close> is a null alpha match,
  \<open>Some None\<close> an alpha match with a null item.  A dependency list
  (\<^verbatim>\<open>struct dependency\<close> of \<^verbatim>\<open>lgcldpnd.h\<close>) is the list of its \<^verbatim>\<open>dPtr\<close> fields: the list of
  a partial match names entities, the list of an entity names partial matches, and every cell
  is on one list only.
\<close>

record partialMatch =
  binds :: "entity_id option option list"
  marker :: ptr
  leftParent :: ptr
  rightParent :: ptr
  busy :: bool
  match_owner :: join_id
  pm_dependents :: "entity_id list"

record joinNode =
  ruleToActivate :: "rule_id option"
  leftMemory :: "addr list list"

record patternEntity =
  timeTag :: u64
  busyCount :: int
  dependents :: "addr list"

record ruleFiredFunctionItem =
  fun_name :: string
  fun_id :: nat
  fun_priority :: int

text \<open>
  Facts and deftemplates.  The header of a fact is the pattern entity of the same address.  A
  multifield in a slot belongs to its fact and is held by value.  Of the slots of a template the
  model keeps, in order, whether each is a multislot.
\<close>

record fact =
  whichDeftemplate :: nat
  fact_matches :: "addr list"
  factIndex :: int
  hashValue :: u64
  fact_garbage :: bool
  previousFact :: ptr
  nextFact :: ptr
  previousTemplateFact :: ptr
  nextTemplateFact :: ptr
  theProposition :: "atom_value list"

record deftemplate =
  template_name :: addr
  implied :: bool
  slotList :: "bool list"
  template_watch :: bool
  inScope :: bool
  template_busyCount :: int
  template_factList :: ptr
  template_lastFact :: ptr

section \<open>Environment data\<close>

record agendaData =
  NumberOfActivations :: u64
  CurrentTimetag :: u64
  AgendaChanged :: bool
  SalienceEvaluation :: SalienceEvaluationType
  Strategy :: StrategyType

record engineData =
  ExecutingRule :: "rule_id option"
  HaltRules :: bool
  TheLogicalJoin :: "join_id option"
  TheLogicalBind :: ptr
  ListOfAfterRuleFiresFunctions :: "ruleFiredFunctionItem list"
  ListOfBeforeRuleFiresFunctions :: "ruleFiredFunctionItem list"
  CurrentFocus :: "module_id list"
  FocusChanged :: bool
  WatchStatistics :: bool
  WatchFocus :: bool
  GlobalLHSBinds :: ptr
  GlobalRHSBinds :: ptr
  AlreadyRunning :: bool
  UnsupportedDataEntities :: "entity_id list"
  alreadyEntered :: bool
  JoinOperationInProgress :: bool

record defmoduleData =
  ListOfDefmodules :: "(module_id \<times> string) list"
  CurrentModule :: "module_id option"
  CallModuleChangeFunctions :: bool
  ModuleChangeIndex :: int
  ModuleStack :: "(module_id option \<times> bool) list"
  AfterModuleChangeFunctions :: "string list"

record evaluationData =
  EvaluationError :: bool
  HaltExecution :: bool
  CurrentEvaluationDepth :: int
  CurrentExpression :: "expr_id option"
  ReturnFlag :: bool
  DanglingConstructs :: int

text \<open>
  The hash table of facts is the function from an index below \<open>FactHashTableSize\<close> to the chain
  of its entries, an entry being the fact that it holds.
\<close>

record factsData =
  ChangeToFactList :: bool
  LastFact :: ptr
  FactList :: ptr
  NextFactIndex :: int
  ListOfAssertFunctions :: "ruleFiredFunctionItem list"
  ListOfRetractFunctions :: "ruleFiredFunctionItem list"
  ListOfModifyFunctions :: "ruleFiredFunctionItem list"
  FactHashTable :: "nat \<Rightarrow> addr list"
  FactHashTableSize :: u64
  FactDuplication :: bool
  LastModuleIndex :: int
  retractError :: RetractError
  assertError :: AssertError

text \<open>The part of the current garbage frame that holds facts.\<close>

record garbageFrame =
  GarbageFacts :: ptr
  LastGarbageFact :: ptr
  frame_changed :: bool

text \<open>
  The environment.  \<open>fresh\<close> is the next address the memory manager hands out.
  \<open>dynValue\<close> is what the evaluator yields for a salience expression in the present state
  of the global variables, \<open>genrand\<close> the values that the C library's random number
  generator returns next, and \<open>toUnsignedLong\<close> the platform's conversion of a double to
  \<^verbatim>\<open>unsigned long\<close>.
\<close>

record env =
  acts :: "addr \<rightharpoonup> activation"
  grps :: "addr \<rightharpoonup> salienceGroup"
  fresh :: addr
  items :: "module_id \<rightharpoonup> defruleModule"
  rules :: "rule_id \<rightharpoonup> defrule"
  matches :: "addr \<rightharpoonup> partialMatch"
  joins :: "join_id \<rightharpoonup> joinNode"
  entities :: "entity_id \<rightharpoonup> patternEntity"
  agendaD :: agendaData
  engineD :: engineData
  moduleD :: defmoduleData
  evalD :: evaluationData
  clearFlags :: "bool \<times> bool"
  numberOfFacts :: u64
  numberOfInstances :: u64
  dynValue :: "expr_id \<Rightarrow> eval_result"
  genrand :: "nat \<Rightarrow> int"
  genrandPos :: nat
  messages :: "message list"
  symbolD :: symbolData
  facts :: "addr \<rightharpoonup> fact"
  deftemplates :: "nat \<rightharpoonup> deftemplate"
  factD :: factsData
  garbageF :: garbageFrame
  CurrentEntityTimeTag :: u64
  toUnsignedLong :: "u64 \<Rightarrow> u64"

section \<open>Assignments in the environment\<close>

definition say :: "message \<Rightarrow> env \<Rightarrow> env" where
  "say m e = e\<lparr>messages := m # messages e\<rparr>"

definition set_agendaD :: "(agendaData \<Rightarrow> agendaData) \<Rightarrow> env \<Rightarrow> env" where
  "set_agendaD f e = e\<lparr>agendaD := f (agendaD e)\<rparr>"

definition set_engineD :: "(engineData \<Rightarrow> engineData) \<Rightarrow> env \<Rightarrow> env" where
  "set_engineD f e = e\<lparr>engineD := f (engineD e)\<rparr>"

definition set_moduleD :: "(defmoduleData \<Rightarrow> defmoduleData) \<Rightarrow> env \<Rightarrow> env" where
  "set_moduleD f e = e\<lparr>moduleD := f (moduleD e)\<rparr>"

definition set_evalD :: "(evaluationData \<Rightarrow> evaluationData) \<Rightarrow> env \<Rightarrow> env" where
  "set_evalD f e = e\<lparr>evalD := f (evalD e)\<rparr>"

definition upd_act :: "ptr \<Rightarrow> (activation \<Rightarrow> activation) \<Rightarrow> env \<Rightarrow> env option" where
  "upd_act p f e = map_option (\<lambda>h. e\<lparr>acts := h\<rparr>) (upd_at p f (acts e))"

definition upd_act_if :: "ptr \<Rightarrow> (activation \<Rightarrow> activation) \<Rightarrow> env \<Rightarrow> env option" where
  "upd_act_if p f e = map_option (\<lambda>h. e\<lparr>acts := h\<rparr>) (upd_if p f (acts e))"

definition upd_grp :: "ptr \<Rightarrow> (salienceGroup \<Rightarrow> salienceGroup) \<Rightarrow> env \<Rightarrow> env option" where
  "upd_grp p f e = map_option (\<lambda>h. e\<lparr>grps := h\<rparr>) (upd_at p f (grps e))"

definition upd_grp_if :: "ptr \<Rightarrow> (salienceGroup \<Rightarrow> salienceGroup) \<Rightarrow> env \<Rightarrow> env option" where
  "upd_grp_if p f e = map_option (\<lambda>h. e\<lparr>grps := h\<rparr>) (upd_if p f (grps e))"

definition upd_item :: "module_id \<Rightarrow> (defruleModule \<Rightarrow> defruleModule) \<Rightarrow> env \<Rightarrow> env option" where
  "upd_item m f e = map_option (\<lambda>h. e\<lparr>items := h\<rparr>) (upd_at (Some m) f (items e))"

definition upd_match :: "ptr \<Rightarrow> (partialMatch \<Rightarrow> partialMatch) \<Rightarrow> env \<Rightarrow> env option" where
  "upd_match p f e = map_option (\<lambda>h. e\<lparr>matches := h\<rparr>) (upd_at p f (matches e))"

definition upd_entity :: "entity_id \<Rightarrow> (patternEntity \<Rightarrow> patternEntity) \<Rightarrow> env \<Rightarrow> env option" where
  "upd_entity x f e = map_option (\<lambda>h. e\<lparr>entities := h\<rparr>) (upd_at (Some x) f (entities e))"

definition upd_fact :: "ptr \<Rightarrow> (fact \<Rightarrow> fact) \<Rightarrow> env \<Rightarrow> env option" where
  "upd_fact p f e = map_option (\<lambda>h. e\<lparr>facts := h\<rparr>) (upd_at p f (facts e))"

definition upd_fact_if :: "ptr \<Rightarrow> (fact \<Rightarrow> fact) \<Rightarrow> env \<Rightarrow> env option" where
  "upd_fact_if p f e = map_option (\<lambda>h. e\<lparr>facts := h\<rparr>) (upd_if p f (facts e))"

definition upd_template :: "nat \<Rightarrow> (deftemplate \<Rightarrow> deftemplate) \<Rightarrow> env \<Rightarrow> env option" where
  "upd_template t f e = map_option (\<lambda>h. e\<lparr>deftemplates := h\<rparr>) (upd_at (Some t) f (deftemplates e))"

definition set_factD :: "(factsData \<Rightarrow> factsData) \<Rightarrow> env \<Rightarrow> env" where
  "set_factD f e = e\<lparr>factD := f (factD e)\<rparr>"

definition set_garbageF :: "(garbageFrame \<Rightarrow> garbageFrame) \<Rightarrow> env \<Rightarrow> env" where
  "set_garbageF f e = e\<lparr>garbageF := f (garbageF e)\<rparr>"

definition upd_rule :: "rule_id \<Rightarrow> (defrule \<Rightarrow> defrule) \<Rightarrow> env \<Rightarrow> env option" where
  "upd_rule r f e = map_option (\<lambda>h. e\<lparr>rules := h\<rparr>) (upd_at (Some r) f (rules e))"

lemma upd_env_simps [heap_simps]:
  "acts e a = Some r \<Longrightarrow> upd_act (Some a) f e = Some (e\<lparr>acts := (acts e)(a \<mapsto> f r)\<rparr>)"
  "grps e g = Some r' \<Longrightarrow> upd_grp (Some g) f' e = Some (e\<lparr>grps := (grps e)(g \<mapsto> f' r')\<rparr>)"
  "items e m = Some i \<Longrightarrow> upd_item m k e = Some (e\<lparr>items := (items e)(m \<mapsto> k i)\<rparr>)"
  "matches e b = Some pm \<Longrightarrow> upd_match (Some b) l e = Some (e\<lparr>matches := (matches e)(b \<mapsto> l pm)\<rparr>)"
  "rules e d = Some dr \<Longrightarrow> upd_rule d n e = Some (e\<lparr>rules := (rules e)(d \<mapsto> n dr)\<rparr>)"
  "entities e x = Some T \<Longrightarrow> upd_entity x u e = Some (e\<lparr>entities := (entities e)(x \<mapsto> u T)\<rparr>)"
  "facts e y = Some F \<Longrightarrow> upd_fact (Some y) q e = Some (e\<lparr>facts := (facts e)(y \<mapsto> q F)\<rparr>)"
  "deftemplates e t = Some D \<Longrightarrow> upd_template t s e = Some (e\<lparr>deftemplates := (deftemplates e)(t \<mapsto> s D)\<rparr>)"
  by (simp_all add: upd_act_def upd_grp_def upd_item_def upd_match_def upd_rule_def upd_entity_def
      upd_fact_def upd_template_def)

lemma upd_env_None [simp]:
  "upd_act None f e = None" "upd_grp None f' e = None" "upd_match None l e = None"
  "upd_act_if None f e = Some e" "upd_grp_if None f' e = Some e"
  by (simp_all add: upd_act_def upd_grp_def upd_match_def upd_act_if_def upd_grp_if_def)

section \<open>Activations and salience groups as linked nodes\<close>

definition act_pay :: "activation \<Rightarrow> activation" where
  "act_pay r = r\<lparr>act_prev := None, act_next := None\<rparr>"

definition grp_pay :: "salienceGroup \<Rightarrow> salienceGroup" where
  "grp_pay g = g\<lparr>grp_prev := None, grp_next := None\<rparr>"

abbreviation act_links :: "(addr \<rightharpoonup> activation) \<Rightarrow> links" where
  "act_links \<equiv> links_of act_prev act_next"

abbreviation grp_links :: "(addr \<rightharpoonup> salienceGroup) \<Rightarrow> links" where
  "grp_links \<equiv> links_of grp_prev grp_next"

interpretation act: linked_nodes act_prev act_next
  "\<lambda>q. act_prev_update (\<lambda>_. q)" "\<lambda>q. act_next_update (\<lambda>_. q)" act_pay
  by unfold_locales (simp_all add: act_pay_def)

interpretation grp: linked_nodes grp_prev grp_next
  "\<lambda>q. grp_prev_update (\<lambda>_. q)" "\<lambda>q. grp_next_update (\<lambda>_. q)" grp_pay
  by unfold_locales (simp_all add: grp_pay_def)

end
