(* ===== verification/Module_Focus.thy ===== *)
theory Module_Focus
  imports Clips_Env
begin

text \<open>
  The current module (\<^verbatim>\<open>moduldef.c\<close>) and the focus stack (\<^verbatim>\<open>engine.c\<close>).  The stack
  of focal modules is a list with the current focus first; each focal module stands for
  its defmodule and for the defrule module item of it.  The lemmas show that focusing,
  popping and removing act on the stack as on an abstract stack without adjacent
  repetition at the top, and that saving and restoring the current module is a round trip.
\<close>

section \<open>Modules\<close>

definition GetCurrentModule :: "env \<Rightarrow> module_id option" where
  "GetCurrentModule e = CurrentModule (moduleD e)"

definition SetCurrentModule :: "module_id option \<Rightarrow> env \<Rightarrow> module_id option \<times> env" where
  "SetCurrentModule newModule e =
     (let oldModule = CurrentModule (moduleD e);
          e1 = set_moduleD (\<lambda>d. d\<lparr>CurrentModule := newModule\<rparr>) e;
          e2 = (if CallModuleChangeFunctions (moduleD e1)
                then fold (\<lambda>f. say (ModuleChangeCall f)) (AfterModuleChangeFunctions (moduleD e1))
                       (set_moduleD (\<lambda>d. d\<lparr>ModuleChangeIndex := ModuleChangeIndex d + 1\<rparr>) e1)
                else e1)
      in (oldModule, e2))"

definition SaveCurrentModule :: "env \<Rightarrow> env" where
  "SaveCurrentModule e = set_moduleD (\<lambda>d. d\<lparr>CallModuleChangeFunctions := False,
     ModuleStack := (CurrentModule d, CallModuleChangeFunctions d) # ModuleStack d\<rparr>) e"

definition RestoreCurrentModule :: "env \<Rightarrow> env option" where
  "RestoreCurrentModule e = (case ModuleStack (moduleD e) of [] \<Rightarrow> None
     | (m, flag) # rest \<Rightarrow> Some (set_moduleD (\<lambda>d. d\<lparr>ModuleStack := rest,
          CallModuleChangeFunctions := flag, CurrentModule := m\<rparr>) e))"

text \<open>The module item of a module, or of the current module when none is given.\<close>

definition GetModuleItem :: "module_id option \<Rightarrow> env \<Rightarrow> module_id option" where
  "GetModuleItem theModule e =
     (let m = (case theModule of None \<Rightarrow> CurrentModule (moduleD e) | Some m \<Rightarrow> Some m)
      in case m of None \<Rightarrow> None | Some k \<Rightarrow> (if items e k = None then None else Some k))"

definition GetDefruleModuleItem :: "module_id option \<Rightarrow> env \<Rightarrow> module_id option" where
  "GetDefruleModuleItem theModule e = GetModuleItem theModule e"

fun next_module :: "(module_id \<times> string) list \<Rightarrow> module_id \<Rightarrow> module_id option" where
  "next_module [] m = None"
| "next_module ((k, _) # ms) m =
     (if k = m then (case ms of [] \<Rightarrow> None | (k', _) # _ \<Rightarrow> Some k') else next_module ms m)"

definition GetNextDefmodule :: "module_id option \<Rightarrow> env \<Rightarrow> module_id option" where
  "GetNextDefmodule defmodulePtr e = (case defmodulePtr of
     None \<Rightarrow> (case ListOfDefmodules (moduleD e) of [] \<Rightarrow> None | (k, _) # _ \<Rightarrow> Some k)
   | Some m \<Rightarrow> next_module (ListOfDefmodules (moduleD e)) m)"

fun find_module :: "(module_id \<times> string) list \<Rightarrow> string \<Rightarrow> module_id option" where
  "find_module [] name = None"
| "find_module ((k, nm) # ms) name = (if nm = name then Some k else find_module ms name)"

definition FindDefmodule :: "string \<Rightarrow> env \<Rightarrow> module_id option" where
  "FindDefmodule name e = find_module (ListOfDefmodules (moduleD e)) name"

definition SetCurrentModuleCommand :: "string option \<Rightarrow> env \<Rightarrow> module_id option \<times> env" where
  "SetCurrentModuleCommand arg e = (case GetCurrentModule e of None \<Rightarrow> (None, e)
     | Some old \<Rightarrow> (case arg of None \<Rightarrow> (Some old, e)
        | Some argument \<Rightarrow> (case FindDefmodule argument e of
             None \<Rightarrow> (Some old, say (CantFindItem ''defmodule'' argument) e)
           | Some m \<Rightarrow> (Some old, snd (SetCurrentModule (Some m) e)))))"

text \<open>The loop \<^verbatim>\<open>for (m = GetNextDefmodule(NULL); m != NULL; m = GetNextDefmodule(m))\<close>.\<close>

partial_function (option) for_modules ::
  "(module_id \<Rightarrow> env \<Rightarrow> env option) \<Rightarrow> module_id option \<Rightarrow> env \<Rightarrow> env option" where
  "for_modules f theModule e = (case theModule of None \<Rightarrow> Some e
     | Some m \<Rightarrow> do { e' \<leftarrow> f m e; for_modules f (GetNextDefmodule (Some m) e') e' })"

declare for_modules.simps [code]

text \<open>
  The argument of a command that names a module: the symbol \<open>*\<close> stands for every module,
  any other unknown name is an error.  \<open>None\<close> is an argument that is no symbol.
\<close>

definition GetModuleName :: "string option \<Rightarrow> env \<Rightarrow> (bool \<times> module_id option) \<times> env" where
  "GetModuleName arg e = (case arg of None \<Rightarrow> ((True, None), e)
     | Some name \<Rightarrow> (case FindDefmodule name e of Some m \<Rightarrow> ((False, Some m), e)
        | None \<Rightarrow> if name \<noteq> ''*'' then ((True, None), say (InvalidArgument ''defmodule name'') e)
                  else ((False, None), e)))"

section \<open>The focus stack\<close>

definition watch_focus :: "env \<Rightarrow> bool" where
  "watch_focus e \<longleftrightarrow> WatchFocus (engineD e) \<and> \<not> fst (clearFlags e) \<and> \<not> snd (clearFlags e)"

definition top_focus :: "env \<Rightarrow> module_id option" where
  "top_focus e = (case CurrentFocus (engineD e) of [] \<Rightarrow> None | m # _ \<Rightarrow> Some m)"

definition Focus :: "module_id option \<Rightarrow> env \<Rightarrow> env" where
  "Focus theModule e = (case theModule of None \<Rightarrow> e | Some m \<Rightarrow>
     (let e1 = snd (SetCurrentModule (Some m) e)
      in if top_focus e1 = Some m then e1
         else let e2 = (if watch_focus e1 then say (FocusOn m (top_focus e1)) e1 else e1)
              in set_engineD (\<lambda>d. d\<lparr>CurrentFocus := m # CurrentFocus d, FocusChanged := True\<rparr>) e2))"

fun unlink_focus :: "module_id \<Rightarrow> module_id list \<Rightarrow> bool \<times> module_id list" where
  "unlink_focus theModule [] = (False, [])"
| "unlink_focus theModule (m # ms) =
     (if m = theModule then (True, ms)
      else (case unlink_focus theModule ms of (found, ms') \<Rightarrow> (found, m # ms')))"

definition RemoveFocus :: "module_id \<Rightarrow> env \<Rightarrow> module_id option \<times> env" where
  "RemoveFocus theModule e = (case CurrentFocus (engineD e) of [] \<Rightarrow> (None, e)
     | cur # _ \<Rightarrow>
       (case unlink_focus theModule (CurrentFocus (engineD e)) of (found, stack) \<Rightarrow>
         if \<not> found then (Some cur, e)
         else let currentFocusRemoved = (cur = theModule);
                  e1 = set_engineD (\<lambda>d. d\<lparr>CurrentFocus := stack\<rparr>) e;
                  e2 = (if watch_focus e1
                        then say (FocusOff theModule
                               (if currentFocusRemoved then top_focus e1 else None)) e1
                        else e1);
                  e3 = (if stack \<noteq> [] \<and> currentFocusRemoved
                        then snd (SetCurrentModule (Some (hd stack)) e2) else e2)
              in (Some theModule, set_engineD (\<lambda>d. d\<lparr>FocusChanged := True\<rparr>) e3)))"

definition PopFocus :: "env \<Rightarrow> module_id option \<times> env" where
  "PopFocus e = (case CurrentFocus (engineD e) of [] \<Rightarrow> (None, e) | m # _ \<Rightarrow> RemoveFocus m e)"

definition GetNextFocus :: "module_id list option \<Rightarrow> env \<Rightarrow> module_id list" where
  "GetNextFocus theFocus e =
     (case theFocus of None \<Rightarrow> CurrentFocus (engineD e) | Some f \<Rightarrow> tl f)"

section \<open>What the module and focus operations leave unchanged\<close>

lemma fold_say: "fold (\<lambda>f. say (g f)) fs e = e\<lparr>messages := rev (map g fs) @ messages e\<rparr>"
  by (induction fs arbitrary: e) (auto simp: say_def)

lemma SetCurrentModule_eq:
  "snd (SetCurrentModule m e) = e\<lparr>
     moduleD := (moduleD e)\<lparr>CurrentModule := m, ModuleChangeIndex := ModuleChangeIndex (moduleD e) +
        (if CallModuleChangeFunctions (moduleD e) then 1 else 0)\<rparr>,
     messages := (if CallModuleChangeFunctions (moduleD e)
        then rev (map ModuleChangeCall (AfterModuleChangeFunctions (moduleD e))) else []) @ messages e\<rparr>"
  by (simp add: SetCurrentModule_def Let_def fold_say set_moduleD_def)

lemma fst_SetCurrentModule [simp]: "fst (SetCurrentModule m e) = CurrentModule (moduleD e)"
  by (simp add: SetCurrentModule_def Let_def)

lemmas focus_defs = Focus_def RemoveFocus_def PopFocus_def SetCurrentModule_eq Let_def say_def
  set_engineD_def set_moduleD_def

lemma SetCurrentModule_frame [simp, frame_simps]:
  "acts (snd (SetCurrentModule m e)) = acts e" "grps (snd (SetCurrentModule m e)) = grps e"
  "fresh (snd (SetCurrentModule m e)) = fresh e" "items (snd (SetCurrentModule m e)) = items e"
  "rules (snd (SetCurrentModule m e)) = rules e" "matches (snd (SetCurrentModule m e)) = matches e"
  "joins (snd (SetCurrentModule m e)) = joins e" "entities (snd (SetCurrentModule m e)) = entities e"
  "agendaD (snd (SetCurrentModule m e)) = agendaD e" "engineD (snd (SetCurrentModule m e)) = engineD e"
  "evalD (snd (SetCurrentModule m e)) = evalD e" "clearFlags (snd (SetCurrentModule m e)) = clearFlags e"
  "dynValue (snd (SetCurrentModule m e)) = dynValue e"
  "CurrentModule (moduleD (snd (SetCurrentModule m e))) = m"
  "ModuleStack (moduleD (snd (SetCurrentModule m e))) = ModuleStack (moduleD e)"
  "ListOfDefmodules (moduleD (snd (SetCurrentModule m e))) = ListOfDefmodules (moduleD e)"
  by (simp_all add: SetCurrentModule_eq)

lemma Focus_frame [simp, frame_simps]:
  "acts (Focus m e) = acts e" "grps (Focus m e) = grps e" "fresh (Focus m e) = fresh e"
  "items (Focus m e) = items e" "rules (Focus m e) = rules e" "matches (Focus m e) = matches e"
  "joins (Focus m e) = joins e" "entities (Focus m e) = entities e" "agendaD (Focus m e) = agendaD e"
  "evalD (Focus m e) = evalD e" "clearFlags (Focus m e) = clearFlags e" "dynValue (Focus m e) = dynValue e"
  "genrand (Focus m e) = genrand e" "genrandPos (Focus m e) = genrandPos e"
  "ModuleStack (moduleD (Focus m e)) = ModuleStack (moduleD e)"
  "ListOfDefmodules (moduleD (Focus m e)) = ListOfDefmodules (moduleD e)"
  by (simp_all add: focus_defs split: option.split)

lemma RemoveFocus_frame [simp, frame_simps]:
  "acts (snd (RemoveFocus m e)) = acts e" "grps (snd (RemoveFocus m e)) = grps e"
  "fresh (snd (RemoveFocus m e)) = fresh e" "items (snd (RemoveFocus m e)) = items e"
  "rules (snd (RemoveFocus m e)) = rules e" "matches (snd (RemoveFocus m e)) = matches e"
  "joins (snd (RemoveFocus m e)) = joins e" "entities (snd (RemoveFocus m e)) = entities e"
  "agendaD (snd (RemoveFocus m e)) = agendaD e" "evalD (snd (RemoveFocus m e)) = evalD e"
  "clearFlags (snd (RemoveFocus m e)) = clearFlags e" "dynValue (snd (RemoveFocus m e)) = dynValue e"
  "ModuleStack (moduleD (snd (RemoveFocus m e))) = ModuleStack (moduleD e)"
  "ListOfDefmodules (moduleD (snd (RemoveFocus m e))) = ListOfDefmodules (moduleD e)"
  by (simp_all add: focus_defs split: list.split prod.split)

lemma PopFocus_frame [simp, frame_simps]:
  "acts (snd (PopFocus e)) = acts e" "grps (snd (PopFocus e)) = grps e"
  "fresh (snd (PopFocus e)) = fresh e" "items (snd (PopFocus e)) = items e"
  "rules (snd (PopFocus e)) = rules e" "matches (snd (PopFocus e)) = matches e"
  "joins (snd (PopFocus e)) = joins e" "entities (snd (PopFocus e)) = entities e"
  "agendaD (snd (PopFocus e)) = agendaD e" "evalD (snd (PopFocus e)) = evalD e"
  "clearFlags (snd (PopFocus e)) = clearFlags e" "dynValue (snd (PopFocus e)) = dynValue e"
  "ModuleStack (moduleD (snd (PopFocus e))) = ModuleStack (moduleD e)"
  "ListOfDefmodules (moduleD (snd (PopFocus e))) = ListOfDefmodules (moduleD e)"
  by (simp_all add: PopFocus_def split: list.split)

section \<open>The stack discipline\<close>

lemma unlink_focus_eq: "unlink_focus m ms = (m \<in> set ms, remove1 m ms)"
  by (induction ms) (auto split: prod.split)

lemma CurrentFocus_Focus:
  "CurrentFocus (engineD (Focus (Some m) e)) =
     (if top_focus e = Some m then CurrentFocus (engineD e) else m # CurrentFocus (engineD e))"
  by (auto simp: focus_defs top_focus_def split: list.split)

lemma CurrentFocus_RemoveFocus:
  "CurrentFocus (engineD (snd (RemoveFocus m e))) = remove1 m (CurrentFocus (engineD e))"
  by (auto simp: focus_defs unlink_focus_eq remove1_idem split: list.split)

lemma CurrentFocus_PopFocus [simp]:
  "CurrentFocus (engineD (snd (PopFocus e))) = tl (CurrentFocus (engineD e))"
  by (simp add: PopFocus_def CurrentFocus_RemoveFocus split: list.split)

lemma GetCurrentModule_PopFocus:
  "CurrentFocus (engineD e) = m # k # ms \<Longrightarrow> GetCurrentModule (snd (PopFocus e)) = Some k"
  by (simp add: focus_defs GetCurrentModule_def unlink_focus_eq)

section \<open>Clearing the stack\<close>

function ClearFocusStack_loop :: "env \<Rightarrow> env" where
  "ClearFocusStack_loop e =
     (if CurrentFocus (engineD e) = [] then e else ClearFocusStack_loop (snd (PopFocus e)))"
  by pat_completeness auto
termination
  by (relation "measure (\<lambda>e. length (CurrentFocus (engineD e)))") auto

declare ClearFocusStack_loop.simps [simp del]

definition ClearFocusStack :: "env \<Rightarrow> env" where
  "ClearFocusStack e = set_engineD (\<lambda>d. d\<lparr>FocusChanged := True\<rparr>) (ClearFocusStack_loop e)"

lemma ClearFocusStack_loop_empty: "CurrentFocus (engineD (ClearFocusStack_loop e)) = []"
proof (induction e rule: ClearFocusStack_loop.induct)
  case (1 e)
  then show ?case by (subst ClearFocusStack_loop.simps) simp
qed

lemma ClearFocusStack_empty: "CurrentFocus (engineD (ClearFocusStack e)) = []"
  by (simp add: ClearFocusStack_def set_engineD_def ClearFocusStack_loop_empty)

lemma ClearFocusStack_loop_frame: "acts (ClearFocusStack_loop e) = acts e" "items (ClearFocusStack_loop e) = items e"
  by (induction e rule: ClearFocusStack_loop.induct; subst ClearFocusStack_loop.simps; simp)+

section \<open>Visiting every module\<close>

fun first_module :: "(module_id \<times> string) list \<Rightarrow> module_id option" where
  "first_module [] = None"
| "first_module ((k, _) # _) = Some k"

lemma next_module_split:
  "distinct (map fst (pre @ (m, nm) # suf)) \<Longrightarrow> next_module (pre @ (m, nm) # suf) m = first_module suf"
proof (induction pre)
  case Nil
  then show ?case by (cases suf) auto
qed auto

lemma GetNextDefmodule_first: "GetNextDefmodule None e = first_module (ListOfDefmodules (moduleD e))"
  by (cases "ListOfDefmodules (moduleD e)") (auto simp: GetNextDefmodule_def)

text \<open>
  A loop over the modules establishes what its body establishes for each module, if the
  body does not change the list of modules.
\<close>

lemma for_modules_inv:
  assumes dist: "distinct (map fst L)" and start: "I pre e" "L = pre @ suf"
    and list: "\<And>ms e. I ms e \<Longrightarrow> ListOfDefmodules (moduleD e) = L"
    and step: "\<And>ms m nm post e. \<lbrakk>L = ms @ (m, nm) # post; I ms e\<rbrakk> \<Longrightarrow> \<exists>e'. f m e = Some e' \<and> I (ms @ [(m, nm)]) e'"
  shows "\<exists>e'. for_modules f (first_module suf) e = Some e' \<and> I L e'"
  using start
proof (induction suf arbitrary: pre e)
  case Nil
  then show ?case by (simp add: for_modules.simps)
next
  case (Cons x suf)
  obtain m nm where x: "x = (m, nm)" by fastforce
  with Cons.prems have L: "L = pre @ (m, nm) # suf" by simp
  obtain e1 where e1: "f m e = Some e1" "I (pre @ [(m, nm)]) e1" using step [OF L Cons.prems(1)] by blast
  have "GetNextDefmodule (Some m) e1 = first_module suf"
    using list [OF e1(2)] next_module_split [of pre m nm suf] dist L by (simp add: GetNextDefmodule_def)
  moreover obtain e' where "for_modules f (first_module suf) e1 = Some e'" "I L e'"
    using Cons.IH [OF e1(2)] L by auto
  ultimately show ?case using e1(1) x by (subst for_modules.simps) simp
qed

end
