(* ===== verification/Conflict_Strategy.thy ===== *)
theory Conflict_Strategy
  imports Module_Focus "HOL-Library.List_Lexorder" "HOL-Library.Product_Lexorder"
begin

text \<open>
  The conflict resolution strategies of \<^verbatim>\<open>crstrtgy.c\<close>: the time tags of a partial match
  and their bubble sort, the lexicographic comparison, the search of each strategy for the
  place of a new activation inside its salience group, and the insertion of the activation
  in the doubly linked agenda.
\<close>

section \<open>Time tags of a partial match\<close>

fun copy_tags :: "env \<Rightarrow> entity_id option option list \<Rightarrow> u64 list option" where
  "copy_tags e [] = Some []"
| "copy_tags e (b # bs) = do {
     t \<leftarrow> (case b of Some (Some i) \<Rightarrow> map_option timeTag (entities e i) | _ \<Rightarrow> Some 0);
     ts \<leftarrow> copy_tags e bs;
     Some (t # ts) }"

text \<open>
  One pass over the array up to index \<open>k\<close>; a read or write past the end of the array is
  \<open>None\<close>.
\<close>

function bubble_pass :: "nat \<Rightarrow> nat \<Rightarrow> bool \<Rightarrow> u64 list \<Rightarrow> (bool \<times> u64 list) option" where
  "bubble_pass j k flag nbinds =
     (if j < k
      then if j + 1 < length nbinds
           then if nbinds ! j < nbinds ! (j + 1)
                then bubble_pass (j + 1) k True (nbinds[j := nbinds ! (j + 1), j + 1 := nbinds ! j])
                else bubble_pass (j + 1) k flag nbinds
           else None
      else Some (flag, nbinds))"
  by pat_completeness auto
termination
  by (relation "measure (\<lambda>(j, k, _, _). k - j)") auto

declare bubble_pass.simps [simp del]

text \<open>
  The passes are repeated with a smaller bound until one of them makes no exchange.  A pass
  with bound \<open>0\<close> makes none, so the bound never wraps around below zero.
\<close>

fun bubble_passes :: "nat \<Rightarrow> u64 list \<Rightarrow> u64 list option" where
  "bubble_passes 0 nbinds = map_option snd (bubble_pass 0 0 False nbinds)"
| "bubble_passes (Suc k) nbinds = do {
     (flag, nbinds') \<leftarrow> bubble_pass 0 (Suc k) False nbinds;
     if flag then bubble_passes k nbinds' else Some nbinds' }"

text \<open>The bound starts at \<^verbatim>\<open>bcount - 1\<close>, computed on an unsigned 16-bit integer.\<close>

definition SortPartialMatch :: "env \<Rightarrow> partialMatch \<Rightarrow> u64 list option" where
  "SortPartialMatch e pm = do {
     nbinds \<leftarrow> copy_tags e (binds pm);
     bubble_passes (if binds pm = [] then 2 ^ 16 - 1 else length (binds pm) - 1) nbinds }"

fun compare_tags :: "u64 list \<Rightarrow> u64 list \<Rightarrow> comparison" where
  "compare_tags (x # basis1) (y # basis2) =
     (if x < y then LESS_THAN else if x > y then GREATER_THAN else compare_tags basis1 basis2)"
| "compare_tags basis1 basis2 = EQUAL"

definition ComparePartialMatches :: "env \<Rightarrow> activation \<Rightarrow> activation \<Rightarrow> comparison option" where
  "ComparePartialMatches e actPtr newActivation = do {
     newBasis \<leftarrow> deref (matches e) (basis newActivation);
     oldBasis \<leftarrow> deref (matches e) (basis actPtr);
     basis1 \<leftarrow> SortPartialMatch e newBasis;
     basis2 \<leftarrow> SortPartialMatch e oldBasis;
     newRule \<leftarrow> rules e (theRule newActivation);
     oldRule \<leftarrow> rules e (theRule actPtr);
     let cCount = length (binds newBasis);
         oCount = length (binds oldBasis);
         mCount = (if oCount > cCount then cCount else oCount)
     in Some (case compare_tags (take mCount basis1) (take mCount basis2) of
          LESS_THAN \<Rightarrow> LESS_THAN
        | GREATER_THAN \<Rightarrow> GREATER_THAN
        | EQUAL \<Rightarrow>
            if cCount < oCount then LESS_THAN
            else if cCount > oCount then GREATER_THAN
            else if complexity newRule < complexity oldRule then LESS_THAN
            else if complexity newRule > complexity oldRule then GREATER_THAN
            else EQUAL) }"

definition GetMatchingItem :: "env \<Rightarrow> activation \<Rightarrow> nat \<Rightarrow> entity_id option option" where
  "GetMatchingItem e x i = do {
     pm \<leftarrow> deref (matches e) (basis x);
     if i < length (binds pm)
     then Some (case binds pm ! i of None \<Rightarrow> None | Some item \<Rightarrow> item)
     else None }"

section \<open>Searching the place of an activation\<close>

definition group_prev_last :: "addr \<Rightarrow> env \<Rightarrow> ptr option" where
  "group_prev_last theGroup e = do {
     G \<leftarrow> grps e theGroup;
     (case grp_prev G of None \<Rightarrow> Some None
      | Some p \<Rightarrow> do { P \<leftarrow> grps e p; Some (grp_last P) }) }"

text \<open>
  The forward search shared by six of the strategies: walk the group from its first
  activation while the new activation belongs after the one looked at, and remember the
  last one passed.
\<close>

partial_function (option) scan_fwd ::
  "env \<Rightarrow> (activation \<Rightarrow> bool option) \<Rightarrow> ptr \<Rightarrow> ptr \<Rightarrow> ptr \<Rightarrow> ptr option" where
  "scan_fwd e after groupLast actPtr lastAct =
     (case actPtr of None \<Rightarrow> Some lastAct
      | Some a \<Rightarrow> do {
          A \<leftarrow> acts e a;
          b \<leftarrow> after A;
          if b then (if actPtr = groupLast then Some actPtr
                     else scan_fwd e after groupLast (act_next A) actPtr)
          else Some lastAct })"

declare scan_fwd.simps [code]

text \<open>The backward search of the breadth strategy.\<close>

partial_function (option) scan_back ::
  "env \<Rightarrow> (activation \<Rightarrow> bool) \<Rightarrow> ptr \<Rightarrow> ptr \<Rightarrow> ptr \<Rightarrow> ptr \<Rightarrow> ptr option" where
  "scan_back e prior groupFirst prevLast actPtr lastAct =
     (case actPtr of None \<Rightarrow> Some lastAct
      | Some a \<Rightarrow> do {
          A \<leftarrow> acts e a;
          if prior A then (if actPtr = groupFirst then Some prevLast
                            else scan_back e prior groupFirst prevLast (act_prev A) lastAct)
          else Some actPtr })"

declare scan_back.simps [code]

definition update_group_ends :: "addr \<Rightarrow> addr \<Rightarrow> ptr \<Rightarrow> env \<Rightarrow> env option" where
  "update_group_ends newActivation theGroup lastAct e = do {
     G \<leftarrow> grps e theGroup;
     isFirst \<leftarrow> (if lastAct = None then Some True
        else (case grp_prev G of None \<Rightarrow> Some False
              | Some p \<Rightarrow> do { P \<leftarrow> grps e p; Some (grp_last P = lastAct) }));
     e1 \<leftarrow> (if isFirst then upd_grp (Some theGroup) (grp_first_update (\<lambda>_. Some newActivation)) e
            else Some e);
     G1 \<leftarrow> grps e1 theGroup;
     (if grp_last G1 = None \<or> grp_last G1 = lastAct
      then upd_grp (Some theGroup) (grp_last_update (\<lambda>_. Some newActivation)) e1
      else Some e1) }"

definition place_fwd ::
  "(activation \<Rightarrow> activation \<Rightarrow> bool option) \<Rightarrow> addr \<Rightarrow> addr \<Rightarrow> env \<Rightarrow> (ptr \<times> env) option" where
  "place_fwd after newActivation theGroup e = do {
     N \<leftarrow> acts e newActivation;
     G \<leftarrow> grps e theGroup;
     lastAct0 \<leftarrow> group_prev_last theGroup e;
     lastAct \<leftarrow> scan_fwd e (after N) (grp_last G) (grp_first G) lastAct0;
     e' \<leftarrow> update_group_ends newActivation theGroup lastAct e;
     Some (lastAct, e') }"

definition PlaceDepthActivation :: "addr \<Rightarrow> addr \<Rightarrow> env \<Rightarrow> (ptr \<times> env) option" where
  "PlaceDepthActivation = place_fwd (\<lambda>N A. Some (act_timetag N < act_timetag A))"

definition PlaceBreadthActivation :: "addr \<Rightarrow> addr \<Rightarrow> env \<Rightarrow> (ptr \<times> env) option" where
  "PlaceBreadthActivation newActivation theGroup e = do {
     N \<leftarrow> acts e newActivation;
     G \<leftarrow> grps e theGroup;
     prevLast \<leftarrow> group_prev_last theGroup e;
     let lastAct0 = (if grp_last G = None then prevLast else grp_last G);
     lastAct \<leftarrow> scan_back e (\<lambda>A. act_timetag N < act_timetag A) (grp_first G) prevLast
                  (grp_last G) lastAct0;
     e' \<leftarrow> update_group_ends newActivation theGroup lastAct e;
     Some (lastAct, e') }"

text \<open>
  The lex and mea strategies first look at the end of the group, with a comparison of
  their own, and search the group only when the new activation does not belong there.
\<close>

definition after_flag :: "comparison \<Rightarrow> activation \<Rightarrow> activation \<Rightarrow> bool" where
  "after_flag flag N A \<longleftrightarrow>
     flag = LESS_THAN \<or> flag = EQUAL \<and> act_timetag N > act_timetag A"

definition place_from_end ::
  "(activation \<Rightarrow> activation \<Rightarrow> comparison option) \<Rightarrow>
   (activation \<Rightarrow> activation \<Rightarrow> comparison option) \<Rightarrow> addr \<Rightarrow> addr \<Rightarrow> env \<Rightarrow> (ptr \<times> env) option" where
  "place_from_end endFlag loopFlag newActivation theGroup e = do {
     N \<leftarrow> acts e newActivation;
     G \<leftarrow> grps e theGroup;
     atEnd \<leftarrow> (case grp_last G of None \<Rightarrow> Some False
        | Some l \<Rightarrow> do { L \<leftarrow> acts e l; flag \<leftarrow> endFlag L N; Some (after_flag flag N L) });
     if atEnd
     then do {
       e' \<leftarrow> upd_grp (Some theGroup) (grp_last_update (\<lambda>_. Some newActivation)) e;
       Some (grp_last G, e') }
     else place_fwd (\<lambda>N A. map_option (\<lambda>flag. after_flag flag N A) (loopFlag A N))
            newActivation theGroup e }"

definition PlaceLEXActivation :: "addr \<Rightarrow> addr \<Rightarrow> env \<Rightarrow> (ptr \<times> env) option" where
  "PlaceLEXActivation newActivation theGroup e =
     place_from_end (ComparePartialMatches e) (ComparePartialMatches e) newActivation theGroup e"

text \<open>The comparison of \<^verbatim>\<open>PlaceMEAActivation\<close> at the end of the group, and in its loop.\<close>

definition mea_end_flag :: "env \<Rightarrow> activation \<Rightarrow> activation \<Rightarrow> comparison option" where
  "mea_end_flag e actPtr newActivation = do {
     c \<leftarrow> GetMatchingItem e newActivation 0;
     p \<leftarrow> GetMatchingItem e actPtr 0;
     (case (c, p) of
        (None, None) \<Rightarrow> ComparePartialMatches e actPtr newActivation
      | (Some _, None) \<Rightarrow> Some GREATER_THAN
      | (None, Some _) \<Rightarrow> Some LESS_THAN
      | (Some ci, Some oi) \<Rightarrow> do {
          C \<leftarrow> entities e ci;
          P \<leftarrow> entities e oi;
          if timeTag P < timeTag C then Some GREATER_THAN
          else if timeTag P > timeTag C then Some LESS_THAN
          else ComparePartialMatches e actPtr newActivation }) }"

definition mea_whoset :: "env \<Rightarrow> activation \<Rightarrow> u64 option" where
  "mea_whoset e x = do {
     item \<leftarrow> GetMatchingItem e x 0;
     (case item of None \<Rightarrow> Some 0 | Some i \<Rightarrow> map_option timeTag (entities e i)) }"

definition mea_loop_flag :: "env \<Rightarrow> activation \<Rightarrow> activation \<Rightarrow> comparison option" where
  "mea_loop_flag e actPtr newActivation = do {
     cWhoset \<leftarrow> mea_whoset e newActivation;
     oWhoset \<leftarrow> mea_whoset e actPtr;
     if oWhoset < cWhoset then Some (if cWhoset > 0 then GREATER_THAN else LESS_THAN)
     else if oWhoset > cWhoset then Some (if oWhoset > 0 then LESS_THAN else GREATER_THAN)
     else ComparePartialMatches e actPtr newActivation }"

definition PlaceMEAActivation :: "addr \<Rightarrow> addr \<Rightarrow> env \<Rightarrow> (ptr \<times> env) option" where
  "PlaceMEAActivation newActivation theGroup e =
     place_from_end (mea_end_flag e) (mea_loop_flag e) newActivation theGroup e"

definition PlaceComplexityActivation :: "addr \<Rightarrow> addr \<Rightarrow> env \<Rightarrow> (ptr \<times> env) option" where
  "PlaceComplexityActivation newActivation theGroup e =
     place_fwd (\<lambda>N A. do {
        NR \<leftarrow> rules e (theRule N);
        AR \<leftarrow> rules e (theRule A);
        Some (if complexity NR < complexity AR then True
              else if complexity NR > complexity AR then False
              else act_timetag N > act_timetag A) }) newActivation theGroup e"

definition PlaceSimplicityActivation :: "addr \<Rightarrow> addr \<Rightarrow> env \<Rightarrow> (ptr \<times> env) option" where
  "PlaceSimplicityActivation newActivation theGroup e =
     place_fwd (\<lambda>N A. do {
        NR \<leftarrow> rules e (theRule N);
        AR \<leftarrow> rules e (theRule A);
        Some (if complexity NR > complexity AR then True
              else if complexity NR < complexity AR then False
              else act_timetag N > act_timetag A) }) newActivation theGroup e"

definition PlaceRandomActivation :: "addr \<Rightarrow> addr \<Rightarrow> env \<Rightarrow> (ptr \<times> env) option" where
  "PlaceRandomActivation = place_fwd (\<lambda>N A. Some (
     if randomID N > randomID A then True
     else if randomID N < randomID A then False
     else act_timetag N > act_timetag A))"

section \<open>Placing the activation\<close>

definition SetAgendaChanged :: "bool \<Rightarrow> env \<Rightarrow> env" where
  "SetAgendaChanged b e = set_agendaD (\<lambda>d. d\<lparr>AgendaChanged := b\<rparr>) e"

definition place_by_strategy :: "StrategyType \<Rightarrow> addr \<Rightarrow> addr \<Rightarrow> env \<Rightarrow> (ptr \<times> env) option" where
  "place_by_strategy s = (case s of
     DEPTH_STRATEGY \<Rightarrow> PlaceDepthActivation
   | BREADTH_STRATEGY \<Rightarrow> PlaceBreadthActivation
   | LEX_STRATEGY \<Rightarrow> PlaceLEXActivation
   | MEA_STRATEGY \<Rightarrow> PlaceMEAActivation
   | COMPLEXITY_STRATEGY \<Rightarrow> PlaceComplexityActivation
   | SIMPLICITY_STRATEGY \<Rightarrow> PlaceSimplicityActivation
   | RANDOM_STRATEGY \<Rightarrow> PlaceRandomActivation)"

text \<open>
  \<open>whichAgenda\<close> is the agenda pointer of the module item of module \<open>m\<close>.  The second half
  of \<^verbatim>\<open>PlaceActivation\<close> links the activation in behind \<open>placeAfter\<close>, or at the top of the
  agenda.
\<close>

definition link_after :: "module_id \<Rightarrow> addr \<Rightarrow> ptr \<Rightarrow> env \<Rightarrow> env option" where
  "link_after m newActivation placeAfter e1 = (case placeAfter of
        None \<Rightarrow> do {
          item \<leftarrow> items e1 m;
          e2 \<leftarrow> upd_act (Some newActivation) (act_next_update (\<lambda>_. agenda item)) e1;
          e3 \<leftarrow> upd_item m (agenda_update (\<lambda>_. Some newActivation)) e2;
          upd_act_if (agenda item) (act_prev_update (\<lambda>_. Some newActivation)) e3 }
      | Some a \<Rightarrow> do {
          A \<leftarrow> acts e1 a;
          e2 \<leftarrow> upd_act (Some newActivation) (\<lambda>r. r\<lparr>act_next := act_next A, act_prev := placeAfter\<rparr>) e1;
          e3 \<leftarrow> upd_act placeAfter (act_next_update (\<lambda>_. Some newActivation)) e2;
          upd_act_if (act_next A) (act_prev_update (\<lambda>_. Some newActivation)) e3 })"

definition PlaceActivation :: "module_id \<Rightarrow> addr \<Rightarrow> addr \<Rightarrow> env \<Rightarrow> env option" where
  "PlaceActivation m newActivation theGroup e = do {
     let e0 = SetAgendaChanged True e;
     item \<leftarrow> items e0 m;
     (placeAfter, e1) \<leftarrow> (if agenda item \<noteq> None
        then place_by_strategy (Strategy (agendaD e0)) newActivation theGroup e0
        else do {
          e1 \<leftarrow> upd_grp (Some theGroup) (\<lambda>G. G\<lparr>grp_first := Some newActivation,
                                                grp_last := Some newActivation\<rparr>) e0;
          Some (None, e1) });
     link_after m newActivation placeAfter e1 }"

fun GetStrategyName :: "StrategyType \<Rightarrow> string" where
  "GetStrategyName DEPTH_STRATEGY = ''depth''"
| "GetStrategyName BREADTH_STRATEGY = ''breadth''"
| "GetStrategyName LEX_STRATEGY = ''lex''"
| "GetStrategyName MEA_STRATEGY = ''mea''"
| "GetStrategyName COMPLEXITY_STRATEGY = ''complexity''"
| "GetStrategyName SIMPLICITY_STRATEGY = ''simplicity''"
| "GetStrategyName RANDOM_STRATEGY = ''random''"

end
