(* ===== verification/Strategy_Order.thy ===== *)
theory Strategy_Order
  imports Conflict_Strategy
begin

text \<open>
  The order that each conflict resolution strategy gives to the activations of one salience
  group.  The bubble sort of \<^verbatim>\<open>SortPartialMatch\<close> is shown to sort the time tags in
  descending order, the comparison of partial matches is shown to be the lexicographic
  order of (sorted time tags, complexity), and every strategy is shown to be a total
  preorder that its placement test respects.
\<close>

section \<open>The bubble sort\<close>

lemma bubble_pass_flag: "bubble_pass j k True xs = Some (f, ys) \<Longrightarrow> f"
proof (induction j k True xs arbitrary: f ys rule: bubble_pass.induct)
  case (1 j k xs)
  then show ?case
    by (subst (asm) bubble_pass.simps) (auto split: if_splits)
qed

lemma bubble_pass_no_swap:
  "bubble_pass j k flag xs = Some (False, ys) \<Longrightarrow>
     ys = xs \<and> (\<forall>i. j \<le> i \<and> i < k \<longrightarrow> xs ! (i + 1) \<le> xs ! i)"
proof (induction j k flag xs arbitrary: ys rule: bubble_pass.induct)
  case (1 j k flag xs)
  show ?case
  proof (cases "j < k \<and> j + 1 < length xs \<and> \<not> xs ! j < xs ! (j + 1)")
    case True
    with 1 have IH: "ys = xs \<and> (\<forall>i. j + 1 \<le> i \<and> i < k \<longrightarrow> xs ! (i + 1) \<le> xs ! i)"
      by (simp add: bubble_pass.simps [of j k flag xs])
    with True show ?thesis
      by (metis Suc_eq_plus1 le_eq_less_or_eq not_less not_less_eq_eq)
  next
    case False
    with "1.prems" bubble_pass_flag [of "j + 1" k _ False ys] show ?thesis
      by (auto simp: bubble_pass.simps [of j k flag xs] split: if_splits)
  qed
qed

lemma mset_swap_adjacent:
  "Suc j < length xs \<Longrightarrow> mset (xs[j := xs ! Suc j, Suc j := xs ! j]) = mset xs"
  by (rule mset_swap) auto

lemma take_swap_adjacent:
  "\<lbrakk>Suc j < length xs; j < k\<rbrakk> \<Longrightarrow>
     mset (take (Suc k) (xs[j := xs ! Suc j, Suc j := xs ! j])) = mset (take (Suc k) xs)"
proof -
  assume a: "Suc j < length xs" "j < k"
  let ?t = "take (Suc k) xs"
  have "take (Suc k) (xs[j := xs ! Suc j, Suc j := xs ! j]) = ?t[j := ?t ! Suc j, Suc j := ?t ! j]"
    using a by (simp add: take_update_swap)
  moreover have "mset (?t[j := ?t ! Suc j, Suc j := ?t ! j]) = mset ?t"
    using a by (intro mset_swap_adjacent) simp
  ultimately show ?thesis by (simp only:)
qed

lemma bubble_pass_correct:
  assumes "j \<le> k" "k < length xs" "\<forall>i\<le>j. xs ! j \<le> xs ! i"
  shows "\<exists>f ys. bubble_pass j k flag xs = Some (f, ys) \<and> length ys = length xs \<and>
    mset (take (Suc k) ys) = mset (take (Suc k) xs) \<and> drop (Suc k) ys = drop (Suc k) xs \<and>
    (\<forall>i\<le>k. ys ! k \<le> ys ! i)"
  using assms
proof (induction j k flag xs rule: bubble_pass.induct)
  case (1 j k flag xs)
  show ?case
  proof (cases "j < k")
    case False
    with "1.prems" show ?thesis by (simp add: bubble_pass.simps [of k k flag xs])
  next
    case True
    with "1.prems" have len: "j + 1 < length xs" by simp
    let ?xs = "xs[j := xs ! (j + 1), j + 1 := xs ! j]"
    show ?thesis
    proof (cases "xs ! j < xs ! (j + 1)")
      case swap: True
      have min: "\<forall>i\<le>j + 1. ?xs ! (j + 1) \<le> ?xs ! i"
        using "1.prems" len swap by (auto simp: nth_list_update less_imp_le le_Suc_eq)
      have drop: "drop (Suc k) ?xs = drop (Suc k) xs"
        using True by simp
      from "1.IH"(1) [OF True len swap _ _ min] True "1.prems" len swap drop
      show ?thesis
        by (simp add: bubble_pass.simps [of j k flag xs] take_swap_adjacent)
    next
      case noswap: False
      have min: "\<forall>i\<le>j + 1. xs ! (j + 1) \<le> xs ! i"
        using "1.prems" noswap by (auto simp: not_less le_Suc_eq)
      from "1.IH"(2) [OF True len noswap _ _ min] True "1.prems" len noswap
      show ?thesis
        by (simp add: bubble_pass.simps [of j k flag xs])
    qed
  qed
qed

definition desc :: "u64 list \<Rightarrow> bool" where
  "desc xs \<longleftrightarrow> sorted_wrt (\<ge>) xs"

lemma desc_adjacent: "(\<And>i. Suc i < length xs \<Longrightarrow> xs ! Suc i \<le> xs ! i) \<Longrightarrow> desc xs"
  unfolding desc_def by (rule sorted_wrt_iff_nth_Suc_transp [THEN iffD2]) (auto intro: transpI)

lemma bubble_passes_correct:
  assumes "k < length xs" "\<forall>x\<in>set (take (Suc k) xs). \<forall>y\<in>set (drop (Suc k) xs). y \<le> x"
    "desc (drop (Suc k) xs)"
  shows "\<exists>ys. bubble_passes k xs = Some ys \<and> mset ys = mset xs \<and> desc ys"
  using assms
proof (induction k arbitrary: xs)
  case 0
  then show ?case
    by (cases xs) (auto simp: bubble_pass.simps [of 0 0] desc_def)
next
  case (Suc k)
  obtain f ys where ys: "bubble_pass 0 (Suc k) False xs = Some (f, ys)" "length ys = length xs"
    "mset (take (Suc (Suc k)) ys) = mset (take (Suc (Suc k)) xs)"
    "drop (Suc (Suc k)) ys = drop (Suc (Suc k)) xs" "\<forall>i\<le>Suc k. ys ! Suc k \<le> ys ! i"
    using bubble_pass_correct [of 0 "Suc k" xs False] Suc.prems(1) by auto
  have mset: "mset ys = mset xs"
    by (metis append_take_drop_id mset_append ys(3,4))
  have set: "set (take (Suc (Suc k)) ys) = set (take (Suc (Suc k)) xs)"
    using ys(3) by (rule mset_eq_setD)
  have dropk: "drop (Suc k) ys = ys ! Suc k # drop (Suc (Suc k)) xs"
    using Suc.prems(1) ys(2,4) by (metis Cons_nth_drop_Suc)
  have takek: "take (Suc (Suc k)) ys = take (Suc k) ys @ [ys ! Suc k]"
    using Suc.prems(1) ys(2) by (simp add: take_Suc_conv_app_nth)
  show ?case
  proof (cases f)
    case True
    have sub: "set (take (Suc k) ys) \<subseteq> set (take (Suc (Suc k)) xs)"
      "ys ! Suc k \<in> set (take (Suc (Suc k)) xs)"
      using set takek by auto
    have ge: "\<forall>x\<in>set (take (Suc k) ys). ys ! Suc k \<le> x"
      using ys(5) Suc.prems(1) ys(2) by (auto simp: in_set_conv_nth)
    have "\<forall>x\<in>set (take (Suc k) ys). \<forall>y\<in>set (drop (Suc k) ys). y \<le> x"
      using sub ge Suc.prems(2) by (auto simp: dropk)
    moreover have "desc (drop (Suc k) ys)"
      using sub Suc.prems(2,3) by (auto simp: dropk desc_def)
    ultimately obtain zs where "bubble_passes k ys = Some zs" "mset zs = mset ys" "desc zs"
      using Suc.IH [of ys] Suc.prems(1) ys(2) by auto
    with True ys(1) mset show ?thesis by auto
  next
    case False
    with ys(1) bubble_pass_no_swap [of 0 "Suc k" False xs ys]
    have same: "ys = xs" "\<And>i. i < Suc k \<Longrightarrow> xs ! Suc i \<le> xs ! i" by auto
    have "desc (take (Suc (Suc k)) xs)"
      using same(2) Suc.prems(1) by (intro desc_adjacent) simp
    with Suc.prems have "desc (take (Suc (Suc k)) xs @ drop (Suc (Suc k)) xs)"
      by (simp only: desc_def sorted_wrt_append)
    with same ys(1) False show ?thesis by simp
  qed
qed


lemma desc_unique: "\<lbrakk>desc ys; mset ys = mset xs\<rbrakk> \<Longrightarrow> ys = rev (sort xs)"
  by (metis desc_def mset_rev properties_for_sort rev_rev_ident sorted_wrt_rev)

section \<open>Time tags as sorted lists\<close>

definition bind_tag :: "env \<Rightarrow> entity_id option option \<Rightarrow> u64" where
  "bind_tag e b = (case b of Some (Some i) \<Rightarrow> (case entities e i of Some t \<Rightarrow> timeTag t | None \<Rightarrow> 0)
     | _ \<Rightarrow> 0)"

text \<open>
  A partial match is in order when it binds at least one pattern and every fact or instance
  it binds exists and has a positive time tag.
\<close>

definition match_ok :: "env \<Rightarrow> partialMatch \<Rightarrow> bool" where
  "match_ok e pm \<longleftrightarrow> binds pm \<noteq> [] \<and>
     list_all (\<lambda>b. case b of Some (Some i) \<Rightarrow> (case entities e i of Some t \<Rightarrow> 0 < timeTag t | None \<Rightarrow> False)
        | _ \<Rightarrow> True) (binds pm)"

definition match_tags :: "env \<Rightarrow> partialMatch \<Rightarrow> u64 list" where
  "match_tags e pm = map (bind_tag e) (binds pm)"

lemma copy_tags_eq:
  "list_all (\<lambda>b. case b of Some (Some i) \<Rightarrow> (case entities e i of Some t \<Rightarrow> 0 < timeTag t | None \<Rightarrow> False)
        | _ \<Rightarrow> True) bs \<Longrightarrow> copy_tags e bs = Some (map (bind_tag e) bs)"
  by (induction bs) (auto simp: bind_tag_def split: option.splits)

lemma SortPartialMatch_eq:
  assumes "match_ok e pm"
  shows "SortPartialMatch e pm = Some (rev (sort (match_tags e pm)))"
proof -
  let ?ts = "match_tags e pm"
  have ne: "binds pm \<noteq> []" and copy: "copy_tags e (binds pm) = Some ?ts"
    using assms by (auto simp: match_ok_def match_tags_def copy_tags_eq)
  have len: "length ?ts = length (binds pm)" by (simp add: match_tags_def)
  obtain ys where "bubble_passes (length (binds pm) - 1) ?ts = Some ys" "mset ys = mset ?ts" "desc ys"
    using bubble_passes_correct [of "length (binds pm) - 1" ?ts] ne len by (auto simp: desc_def)
  then show ?thesis
    using ne copy desc_unique by (auto simp: SortPartialMatch_def)
qed

section \<open>Views of activations and the order of a strategy\<close>

record act_view =
  v_tags :: "u64 list"
  v_first :: u64
  v_complexity :: "11 word"
  v_timetag :: u64
  v_random :: int

definition act_match :: "env \<Rightarrow> activation \<Rightarrow> partialMatch option" where
  "act_match e A = deref (matches e) (basis A)"

definition act_ok :: "env \<Rightarrow> activation \<Rightarrow> bool" where
  "act_ok e A \<longleftrightarrow> rules e (theRule A) \<noteq> None \<and>
     (case act_match e A of None \<Rightarrow> False | Some pm \<Rightarrow> match_ok e pm)"

definition view :: "env \<Rightarrow> activation \<Rightarrow> act_view" where
  "view e A = (let ts = (case act_match e A of None \<Rightarrow> [] | Some pm \<Rightarrow> match_tags e pm) in
     \<lparr>v_tags = rev (sort ts),
      v_first = (case ts of [] \<Rightarrow> 0 | t # _ \<Rightarrow> t),
      v_complexity = (case rules e (theRule A) of None \<Rightarrow> 0 | Some r \<Rightarrow> complexity r),
      v_timetag = act_timetag A,
      v_random = randomID A\<rparr>)"

definition lex_key :: "act_view \<Rightarrow> u64 list \<times> 11 word" where
  "lex_key v = (v_tags v, v_complexity v)"

definition mea_key :: "act_view \<Rightarrow> u64 \<times> u64 list \<times> 11 word" where
  "mea_key v = (v_first v, lex_key v)"

text \<open>
  \<open>strategy_le s v w\<close>: under strategy \<open>s\<close> an activation that looks like \<open>v\<close> may stand
  before one that looks like \<open>w\<close>.
\<close>

fun strategy_le :: "StrategyType \<Rightarrow> act_view \<Rightarrow> act_view \<Rightarrow> bool" where
  "strategy_le DEPTH_STRATEGY v w = (v_timetag w \<le> v_timetag v)"
| "strategy_le BREADTH_STRATEGY v w = (v_timetag v \<le> v_timetag w)"
| "strategy_le LEX_STRATEGY v w =
     (lex_key w < lex_key v \<or> lex_key v = lex_key w \<and> v_timetag v \<le> v_timetag w)"
| "strategy_le MEA_STRATEGY v w =
     (mea_key w < mea_key v \<or> mea_key v = mea_key w \<and> v_timetag v \<le> v_timetag w)"
| "strategy_le COMPLEXITY_STRATEGY v w =
     (v_complexity w < v_complexity v \<or> v_complexity v = v_complexity w \<and> v_timetag v \<le> v_timetag w)"
| "strategy_le SIMPLICITY_STRATEGY v w =
     (v_complexity v < v_complexity w \<or> v_complexity v = v_complexity w \<and> v_timetag v \<le> v_timetag w)"
| "strategy_le RANDOM_STRATEGY v w =
     (v_random v < v_random w \<or> v_random v = v_random w \<and> v_timetag v \<le> v_timetag w)"

text \<open>The test by which a new activation moves past one that is already placed.\<close>

definition goes_after :: "StrategyType \<Rightarrow> act_view \<Rightarrow> act_view \<Rightarrow> bool" where
  "goes_after s n a = (case s of
     DEPTH_STRATEGY \<Rightarrow> v_timetag n < v_timetag a
   | BREADTH_STRATEGY \<Rightarrow> \<not> v_timetag n < v_timetag a
   | LEX_STRATEGY \<Rightarrow> lex_key n < lex_key a \<or> lex_key n = lex_key a \<and> v_timetag n > v_timetag a
   | MEA_STRATEGY \<Rightarrow> mea_key n < mea_key a \<or> mea_key n = mea_key a \<and> v_timetag n > v_timetag a
   | COMPLEXITY_STRATEGY \<Rightarrow> v_complexity n < v_complexity a \<or>
       v_complexity n = v_complexity a \<and> v_timetag n > v_timetag a
   | SIMPLICITY_STRATEGY \<Rightarrow> v_complexity n > v_complexity a \<or>
       v_complexity n = v_complexity a \<and> v_timetag n > v_timetag a
   | RANDOM_STRATEGY \<Rightarrow> v_random n > v_random a \<or>
       v_random n = v_random a \<and> v_timetag n > v_timetag a)"

locale placement_order =
  fixes after :: "'a \<Rightarrow> 'a \<Rightarrow> bool" and le :: "'a \<Rightarrow> 'a \<Rightarrow> bool"
  assumes after_le: "after n a \<Longrightarrow> le a n"
    and not_after_le: "\<not> after n a \<Longrightarrow> le n a"
    and le_trans: "\<lbrakk>le a b; le b c\<rbrakk> \<Longrightarrow> le a c"
begin

lemma le_total: "le a b \<or> le b a"
  using after_le not_after_le by blast

lemma le_refl: "le a a"
  using le_total by blast

text \<open>Any place whose left neighbour lets the new item pass and whose right one does not.\<close>

lemma sorted_place:
  assumes "sorted_wrt le (ys @ zs)"
    and "ys \<noteq> [] \<Longrightarrow> le (last ys) n" and "zs \<noteq> [] \<Longrightarrow> le n (hd zs)"
  shows "sorted_wrt le (ys @ n # zs)"
proof -
  have "\<forall>y\<in>set ys. le y n"
  proof (cases ys rule: rev_cases)
    case (snoc us u)
    then have "\<forall>y\<in>set us. le y u" and "le u n"
      using assms(1,2) by (auto simp: sorted_wrt_append)
    with snoc show ?thesis using le_trans by auto
  qed simp
  moreover have "\<forall>z\<in>set zs. le n z"
  proof (cases zs)
    case (Cons u us)
    then have "\<forall>z\<in>set us. le u z" and "le n u"
      using assms(1,3) by (auto simp: sorted_wrt_append)
    with Cons show ?thesis using le_trans by auto
  qed simp
  ultimately show ?thesis
    using assms(1) by (auto simp: sorted_wrt_append)
qed

lemma sorted_place_forward:
  assumes "sorted_wrt le xs"
  shows "sorted_wrt le (takeWhile (after n) xs @ n # dropWhile (after n) xs)"
proof (rule sorted_place)
  show "sorted_wrt le (takeWhile (after n) xs @ dropWhile (after n) xs)"
    using assms by simp
next
  assume ne: "takeWhile (after n) xs \<noteq> []"
  then have "last (takeWhile (after n) xs) \<in> set (takeWhile (after n) xs)" by (rule last_in_set)
  then have "after n (last (takeWhile (after n) xs))" by (rule set_takeWhileD [THEN conjunct2])
  then show "le (last (takeWhile (after n) xs)) n" by (rule after_le)
next
  assume "dropWhile (after n) xs \<noteq> []"
  then have "\<not> after n (hd (dropWhile (after n) xs))" by (rule hd_dropWhile)
  then show "le n (hd (dropWhile (after n) xs))" by (rule not_after_le)
qed

lemma sorted_after_last:
  assumes "sorted_wrt le xs" and "xs \<noteq> []" and "after n (last xs)"
  shows "sorted_wrt le (xs @ [n])"
  using sorted_place [of xs "[]" n] assms after_le by simp

end

interpretation strat: placement_order "goes_after s" "strategy_le s" for s
proof
  show "goes_after s n a \<Longrightarrow> strategy_le s a n" for n a
    by (cases s) (auto simp: goes_after_def)
  show "\<not> goes_after s n a \<Longrightarrow> strategy_le s n a" for n a
    by (cases s) (auto simp: goes_after_def not_less)
  show "\<lbrakk>strategy_le s a b; strategy_le s b c\<rbrakk> \<Longrightarrow> strategy_le s a c" for a b c
    by (cases s) auto
qed


section \<open>The comparisons of the code are comparisons of keys\<close>

definition cmp_key :: "'k::linorder \<Rightarrow> 'k \<Rightarrow> comparison" where
  "cmp_key x y = (if x < y then LESS_THAN else if y < x then GREATER_THAN else EQUAL)"

lemma cmp_key_swap:
  "cmp_key y x = (case cmp_key x y of LESS_THAN \<Rightarrow> GREATER_THAN | GREATER_THAN \<Rightarrow> LESS_THAN | EQUAL \<Rightarrow> EQUAL)"
  by (auto simp: cmp_key_def)

lemma cmp_key_Cons:
  "cmp_key (x # xs) (y # ys) =
     (if x < y then LESS_THAN else if y < x then GREATER_THAN else cmp_key xs ys)"
  "cmp_key [] [] = EQUAL" "cmp_key [] (y # ys) = LESS_THAN" "cmp_key (x # xs) [] = GREATER_THAN"
  for x y :: u64
  by (auto simp: cmp_key_def)

lemma compare_tags_lex:
  "(case compare_tags (take (min (length xs) (length ys)) xs) (take (min (length xs) (length ys)) ys) of
      LESS_THAN \<Rightarrow> LESS_THAN | GREATER_THAN \<Rightarrow> GREATER_THAN
    | EQUAL \<Rightarrow> if length xs < length ys then LESS_THAN
              else if length xs > length ys then GREATER_THAN else z)
   = (case cmp_key xs ys of LESS_THAN \<Rightarrow> LESS_THAN | GREATER_THAN \<Rightarrow> GREATER_THAN | EQUAL \<Rightarrow> z)"
proof (induction xs arbitrary: ys)
  case Nil
  then show ?case by (cases ys) (simp_all add: cmp_key_Cons)
next
  case (Cons x xs)
  show ?case
  proof (cases ys)
    case Nil
    then show ?thesis by (simp add: cmp_key_Cons)
  next
    case ys: (Cons y zs)
    from Cons [of zs] less_not_sym [of y x] show ?thesis
      by (cases x y rule: linorder_cases)
        (simp_all add: ys cmp_key_Cons split del: if_split cong: comparison.case_cong if_cong)
  qed
qed

lemma act_okE:
  assumes "act_ok e A"
  obtains b pm r where "basis A = Some b" "matches e b = Some pm" "match_ok e pm"
    "rules e (theRule A) = Some r"
  using assms by (cases "basis A") (auto simp: act_ok_def act_match_def split: option.splits)

lemma ComparePartialMatches_eq:
  assumes "act_ok e A" and "act_ok e N"
  shows "ComparePartialMatches e A N = Some (cmp_key (lex_key (view e N)) (lex_key (view e A)))"
proof -
  obtain b pm r where A: "basis A = Some b" "matches e b = Some pm" "match_ok e pm"
    "rules e (theRule A) = Some r" using assms(1) by (rule act_okE)
  obtain b' pm' r' where N: "basis N = Some b'" "matches e b' = Some pm'" "match_ok e pm'"
    "rules e (theRule N) = Some r'" using assms(2) by (rule act_okE)
  let ?x = "rev (sort (match_tags e pm'))" and ?y = "rev (sort (match_tags e pm))"
  let ?m = "min (length (binds pm')) (length (binds pm))"
  have m: "(if length (binds pm') < length (binds pm) then length (binds pm') else length (binds pm)) = ?m"
    by simp
  have len: "length ?x = length (binds pm')" "length ?y = length (binds pm)"
    by (simp_all add: match_tags_def)
  have key: "lex_key (view e N) = (?x, complexity r')" "lex_key (view e A) = (?y, complexity r)"
    using A N by (simp_all add: lex_key_def view_def act_match_def Let_def)
  have "ComparePartialMatches e A N = Some (case compare_tags (take ?m ?x) (take ?m ?y) of
      LESS_THAN \<Rightarrow> LESS_THAN | GREATER_THAN \<Rightarrow> GREATER_THAN
    | EQUAL \<Rightarrow> if length (binds pm') < length (binds pm) then LESS_THAN
              else if length (binds pm') > length (binds pm) then GREATER_THAN
              else cmp_key (complexity r') (complexity r))"
    using A N by (simp add: ComparePartialMatches_def SortPartialMatch_eq Let_def min_def cmp_key_def
        split: comparison.split)
  also have "\<dots> = Some (case cmp_key ?x ?y of LESS_THAN \<Rightarrow> LESS_THAN | GREATER_THAN \<Rightarrow> GREATER_THAN
      | EQUAL \<Rightarrow> cmp_key (complexity r') (complexity r))"
    using compare_tags_lex [of ?x ?y "cmp_key (complexity r') (complexity r)"] by (simp only: len)
  finally show ?thesis by (auto simp: key cmp_key_def)
qed

lemma GetMatchingItem_eq:
  assumes "act_ok e A"
  shows "(GetMatchingItem e A 0 = Some None \<and> v_first (view e A) = 0) \<or>
    (\<exists>i t. GetMatchingItem e A 0 = Some (Some i) \<and> entities e i = Some t \<and>
       v_first (view e A) = timeTag t \<and> 0 < timeTag t)"
proof -
  obtain b pm r where A: "basis A = Some b" "matches e b = Some pm" "match_ok e pm"
    "rules e (theRule A) = Some r" using assms by (rule act_okE)
  obtain x xs where bs: "binds pm = x # xs"
    using A(3) by (cases "binds pm") (auto simp: match_ok_def)
  have item: "GetMatchingItem e A 0 = Some (case x of None \<Rightarrow> None | Some i \<Rightarrow> i)"
    using A bs by (simp add: GetMatchingItem_def)
  have first: "v_first (view e A) = bind_tag e x"
    using A bs by (simp add: view_def act_match_def match_tags_def Let_def)
  have ok: "case x of Some (Some i) \<Rightarrow> (case entities e i of Some t \<Rightarrow> 0 < timeTag t | None \<Rightarrow> False)
    | _ \<Rightarrow> True"
    using A(3) bs by (simp add: match_ok_def)
  show ?thesis
    using item first ok by (auto simp: bind_tag_def split: option.splits)
qed

lemma mea_whoset_eq:
  assumes "act_ok e A"
  shows "mea_whoset e A = Some (v_first (view e A))"
  using GetMatchingItem_eq [OF assms] by (auto simp: mea_whoset_def)

lemma mea_key_cmp:
  "cmp_key (mea_key n) (mea_key a) =
     (if v_first a < v_first n then GREATER_THAN else if v_first n < v_first a then LESS_THAN
      else cmp_key (lex_key n) (lex_key a))"
  by (auto simp: cmp_key_def mea_key_def)

lemma mea_loop_flag_eq:
  assumes "act_ok e A" and "act_ok e N"
  shows "mea_loop_flag e A N = Some (cmp_key (mea_key (view e N)) (mea_key (view e A)))"
proof -
  have pos: "0 < y" if "x < y" for x y :: u64
    using that by (meson le_less_trans word_zero_le)
  show ?thesis
    using mea_whoset_eq [OF assms(1)] mea_whoset_eq [OF assms(2)] ComparePartialMatches_eq [OF assms]
    by (cases "v_first (view e A)" "v_first (view e N)" rule: linorder_cases)
      (simp_all add: mea_loop_flag_def mea_key_cmp pos)
qed

lemma mea_end_flag_eq:
  assumes "act_ok e A" and "act_ok e N"
  shows "mea_end_flag e A N = Some (cmp_key (mea_key (view e N)) (mea_key (view e A)))"
  using GetMatchingItem_eq [OF assms(1)] GetMatchingItem_eq [OF assms(2)]
    ComparePartialMatches_eq [OF assms]
  by (auto simp: mea_end_flag_def mea_key_cmp)

lemma after_flag_LEX:
  "after_flag (cmp_key (lex_key (view e N)) (lex_key (view e A))) N A =
     goes_after LEX_STRATEGY (view e N) (view e A)"
  by (auto simp: after_flag_def cmp_key_def goes_after_def view_def Let_def)

lemma after_flag_MEA:
  "after_flag (cmp_key (mea_key (view e N)) (mea_key (view e A))) N A =
     goes_after MEA_STRATEGY (view e N) (view e A)"
  by (auto simp: after_flag_def cmp_key_def goes_after_def view_def Let_def)

end
