(* ===== verification/Agenda_Rep.thy ===== *)
theory Agenda_Rep
  imports Strategy_Order
begin

text \<open>
  What it means for the linked structures of one module to represent an agenda: a list of
  salience groups, each with its activations.  The search and the linking of
  \<^verbatim>\<open>crstrtgy.c\<close> are shown to insert the new activation in the list of its group, at a
  place that the order of the strategy allows.
\<close>

section \<open>Abstract agendas\<close>

text \<open>A group is its address, its salience and the addresses of its activations in order.\<close>

type_synonym agroup = "addr \<times> int \<times> addr list"

abbreviation g_addr :: "agroup \<Rightarrow> addr" where "g_addr \<equiv> fst"
abbreviation g_sal :: "agroup \<Rightarrow> int" where "g_sal g \<equiv> fst (snd g)"
abbreviation g_acts :: "agroup \<Rightarrow> addr list" where "g_acts g \<equiv> snd (snd g)"

definition flat :: "agroup list \<Rightarrow> addr list" where
  "flat gs = concat (map g_acts gs)"

definition gaddrs :: "agroup list \<Rightarrow> addr list" where
  "gaddrs gs = map g_addr gs"

lemma flat_simps [simp]:
  "flat [] = []" "flat (g # gs) = g_acts g @ flat gs" "flat (gs @ hs) = flat gs @ flat hs"
  by (simp_all add: flat_def)

lemma gaddrs_simps [simp]:
  "gaddrs [] = []" "gaddrs (g # gs) = g_addr g # gaddrs gs" "gaddrs (gs @ hs) = gaddrs gs @ gaddrs hs"
  by (simp_all add: gaddrs_def)

lemma gaddrs_Nil [simp]: "gaddrs gs = [] \<longleftrightarrow> gs = []" "[] = gaddrs gs \<longleftrightarrow> gs = []"
  by (auto simp: gaddrs_def)

lemma set_flat: "set (flat gs) = (\<Union>g\<in>set gs. set (g_acts g))"
  by (simp add: flat_def)

definition no_empty :: "agroup list \<Rightarrow> bool" where
  "no_empty gs \<longleftrightarrow> (\<forall>g\<in>set gs. g_acts g \<noteq> [])"

lemma no_empty_simps [simp]:
  "no_empty []" "no_empty (g # gs) \<longleftrightarrow> g_acts g \<noteq> [] \<and> no_empty gs"
  "no_empty (gs @ hs) \<longleftrightarrow> no_empty gs \<and> no_empty hs"
  by (auto simp: no_empty_def)

lemma no_empty_flat: "no_empty gs \<Longrightarrow> flat gs = [] \<longleftrightarrow> gs = []"
  by (cases gs) auto

definition falling :: "agroup list \<Rightarrow> bool" where
  "falling gs \<longleftrightarrow> sorted_wrt (\<lambda>g h. g_sal g > g_sal h) gs"

section \<open>Representation\<close>

definition rule_module :: "env \<Rightarrow> rule_id \<Rightarrow> module_id option" where
  "rule_module e r = map_option whichModule (rules e r)"

text \<open>Activation \<open>x\<close> has salience \<open>s\<close> and belongs to a rule of module \<open>m\<close>.\<close>

definition act_in :: "env \<Rightarrow> module_id \<Rightarrow> int \<Rightarrow> addr \<Rightarrow> bool" where
  "act_in e m s x \<longleftrightarrow> (case acts e x of None \<Rightarrow> False
     | Some A \<Rightarrow> act_salience A = s \<and> rule_module e (theRule A) = Some m)"

definition group_ends :: "env \<Rightarrow> agroup \<Rightarrow> bool" where
  "group_ends e g \<longleftrightarrow> (case grps e (g_addr g) of None \<Rightarrow> False
     | Some G \<Rightarrow> grp_salience G = g_sal g \<and> grp_first G = hdp (g_acts g) None \<and>
                grp_last G = lastp None (g_acts g))"

definition agenda_rep :: "env \<Rightarrow> module_id \<Rightarrow> agroup list \<Rightarrow> bool" where
  "agenda_rep e m gs \<longleftrightarrow>
     (case items e m of None \<Rightarrow> False
      | Some it \<Rightarrow> agenda it = hdp (flat gs) None \<and> groupings it = hdp (gaddrs gs) None) \<and>
     dlseg (act_links (acts e)) None (flat gs) None \<and>
     dlseg (grp_links (grps e)) None (gaddrs gs) None \<and>
     distinct (flat gs) \<and> distinct (gaddrs gs) \<and> falling gs \<and>
     (\<forall>g\<in>set gs. group_ends e g \<and> (\<forall>x\<in>set (g_acts g). act_in e m (g_sal g) x))"

lemma agenda_repD:
  assumes "agenda_rep e m gs"
  shows "\<exists>it. items e m = Some it \<and> agenda it = hdp (flat gs) None \<and> groupings it = hdp (gaddrs gs) None"
    and "dlseg (act_links (acts e)) None (flat gs) None"
    and "dlseg (grp_links (grps e)) None (gaddrs gs) None"
    and "distinct (flat gs)" and "distinct (gaddrs gs)" and "falling gs"
    and "g \<in> set gs \<Longrightarrow> group_ends e g"
    and "\<lbrakk>g \<in> set gs; x \<in> set (g_acts g)\<rbrakk> \<Longrightarrow> act_in e m (g_sal g) x"
  using assms by (auto simp: agenda_rep_def split: option.splits)

lemma agenda_repI:
  assumes "items e m = Some it" "agenda it = hdp (flat gs) None" "groupings it = hdp (gaddrs gs) None"
    and "dlseg (act_links (acts e)) None (flat gs) None"
    and "dlseg (grp_links (grps e)) None (gaddrs gs) None"
    and "distinct (flat gs)" and "distinct (gaddrs gs)" and "falling gs"
    and "\<And>g. g \<in> set gs \<Longrightarrow> group_ends e g"
    and "\<And>g x. \<lbrakk>g \<in> set gs; x \<in> set (g_acts g)\<rbrakk> \<Longrightarrow> act_in e m (g_sal g) x"
  shows "agenda_rep e m gs"
  using assms by (auto simp: agenda_rep_def)

text \<open>Payloads decide membership and group ends; the links are free to change.\<close>

lemma act_pay_eqD:
  "act_pay A = act_pay B \<Longrightarrow> act_salience A = act_salience B \<and> theRule A = theRule B \<and>
     basis A = basis B \<and> act_timetag A = act_timetag B \<and> randomID A = randomID B"
  by (cases A; cases B) (simp add: act_pay_def)

lemma grp_pay_eqD:
  "grp_pay A = grp_pay B \<Longrightarrow> grp_salience A = grp_salience B \<and> grp_first A = grp_first B \<and>
     grp_last A = grp_last B"
  by (cases A; cases B) (simp add: grp_pay_def)

lemma act_in_cong:
  assumes "pays_of act_pay (acts e') x = pays_of act_pay (acts e) x"
    and "\<And>r. rule_module e' r = rule_module e r"
  shows "act_in e' m s x = act_in e m s x"
  using assms
  by (cases "acts e x"; cases "acts e' x") (auto simp: act_in_def pays_of_def dest!: act_pay_eqD)

lemma group_ends_cong:
  assumes "pays_of grp_pay (grps e') (g_addr g) = pays_of grp_pay (grps e) (g_addr g)"
  shows "group_ends e' g = group_ends e g"
  using assms
  by (cases "grps e (g_addr g)"; cases "grps e' (g_addr g)") (auto simp: group_ends_def pays_of_def dest!: grp_pay_eqD)

lemma agenda_rep_cong:
  assumes rep: "agenda_rep e m gs"
    and item: "items e' m = items e m"
    and acts: "\<And>x. x \<in> set (flat gs) \<Longrightarrow> acts e' x = acts e x"
    and grps: "\<And>g. g \<in> set (gaddrs gs) \<Longrightarrow> grps e' g = grps e g"
    and rules: "\<And>r. rule_module e' r = rule_module e r"
  shows "agenda_rep e' m gs"
proof -
  obtain it where it: "items e m = Some it" "agenda it = hdp (flat gs) None"
    "groupings it = hdp (gaddrs gs) None" using agenda_repD(1) [OF rep] by blast
  have "dlseg (act_links (acts e')) None (flat gs) None"
    using agenda_repD(2) [OF rep] by (subst dlseg_cong [of _ _ "act_links (acts e)"]) (auto simp: links_of_def acts)
  moreover have "dlseg (grp_links (grps e')) None (gaddrs gs) None"
    using agenda_repD(3) [OF rep] by (subst dlseg_cong [of _ _ "grp_links (grps e)"]) (auto simp: links_of_def grps)
  moreover have "group_ends e' g" if "g \<in> set gs" for g
    using agenda_repD(7) [OF rep that] that grps by (auto simp: group_ends_def gaddrs_def)
  moreover have "act_in e' m (g_sal g) x" if "g \<in> set gs" "x \<in> set (g_acts g)" for g x
  proof -
    have "acts e' x = acts e x" using that acts by (auto simp: set_flat)
    then show ?thesis
      using agenda_repD(8) [OF rep that] act_in_cong [of e' x e] rules by (simp add: pays_of_def)
  qed
  ultimately show ?thesis
    using it item agenda_repD(4-6) [OF rep] by (intro agenda_repI [of e' m it]) auto
qed

lemma agenda_rep_act_in:
  "\<lbrakk>agenda_rep e m gs; x \<in> set (flat gs)\<rbrakk> \<Longrightarrow> \<exists>s. act_in e m s x"
  using agenda_repD(8) by (fastforce simp: set_flat)

lemma act_in_module: "\<lbrakk>act_in e m s x; act_in e m' s' x\<rbrakk> \<Longrightarrow> m = m'"
  by (auto simp: act_in_def split: option.splits)

lemma agenda_rep_disjoint:
  "\<lbrakk>agenda_rep e m gs; agenda_rep e m' gs'; m \<noteq> m'\<rbrakk> \<Longrightarrow> set (flat gs) \<inter> set (flat gs') = {}"
  by (meson agenda_rep_act_in act_in_module disjoint_iff)

section \<open>The searches\<close>

lemma scan_fwd_eq:
  assumes "dlseg (act_links (acts e)) p xs q" "distinct xs" "xs \<noteq> []"
    and "\<And>x. x \<in> set xs \<Longrightarrow> \<exists>A. acts e x = Some A \<and> after A = Some (af x)"
  shows "scan_fwd e after (Some (last xs)) (Some (hd xs)) p0 = Some (lastp p0 (takeWhile af xs))"
  using assms
proof (induction xs arbitrary: p p0)
  case (Cons x xs)
  obtain A where A: "acts e x = Some A" "after A = Some (af x)"
    using Cons.prems(4) by auto
  have nxt: "act_next A = hdp xs q"
    using Cons.prems(1) A(1) by (simp add: links_of_def)
  show ?case
  proof (cases "xs = []")
    case True
    with A show ?thesis by (simp add: scan_fwd.simps)
  next
    case False
    with Cons.prems(2) have "x \<noteq> last xs" by auto
    moreover have "hdp xs q = Some (hd xs)" using False by (rule hdp_hd)
    moreover have "scan_fwd e after (Some (last xs)) (Some (hd xs)) (Some x) =
        Some (lastp (Some x) (takeWhile af xs))"
      using Cons.prems False by (intro Cons.IH) auto
    ultimately show ?thesis
      using A nxt False by (subst scan_fwd.simps) simp
  qed
qed simp

lemma scan_back_eq:
  assumes "dlseg (act_links (acts e)) p xs q" "distinct xs" "xs \<noteq> []"
    and "\<And>x. x \<in> set xs \<Longrightarrow> \<exists>A. acts e x = Some A \<and> prior A = bf x"
  shows "scan_back e prior (Some (hd xs)) prevLast (Some (last xs)) l0 =
    Some (lastp prevLast (rev (dropWhile bf (rev xs))))"
  using assms
proof (induction xs arbitrary: q rule: rev_induct)
  case (snoc x xs)
  obtain A where A: "acts e x = Some A" "prior A = bf x"
    using snoc.prems(4) by auto
  have prv: "act_prev A = lastp p xs"
    using snoc.prems(1) A(1) by (simp add: links_of_def)
  show ?case
  proof (cases "xs = []")
    case True
    with A show ?thesis by (simp add: scan_back.simps)
  next
    case False
    then have "x \<noteq> hd xs" using snoc.prems(2) hd_in_set [OF False] by auto
    moreover have "lastp p xs = Some (last xs)" using False by (rule lastp_last)
    moreover have "scan_back e prior (Some (hd xs)) prevLast (Some (last xs)) l0 =
        Some (lastp prevLast (rev (dropWhile bf (rev xs))))"
      using snoc.prems False by (intro snoc.IH [of "Some x"]) auto
    ultimately show ?thesis
      using A prv False by (subst scan_back.simps) simp
  qed
qed simp

section \<open>The ends of the group\<close>

text \<open>
  The setting of an insertion: module \<open>m\<close> has the groups \<open>hs\<close>, then group \<open>g\<close> with
  activations \<open>xs\<close> (possibly none), then the groups \<open>ks\<close>.
\<close>

lemma group_prev_last_eq:
  assumes rep: "agenda_rep e m (hs @ (g, s, xs) # ks)" and ne: "no_empty hs"
  shows "\<exists>G. grps e g = Some G \<and> group_prev_last g e = Some (lastp None (flat hs)) \<and>
    grp_first G = hdp xs None \<and> grp_last G = lastp None xs \<and> grp_prev G = lastp None (gaddrs hs)"
proof -
  obtain G where G: "grps e g = Some G" "grp_first G = hdp xs None" "grp_last G = lastp None xs"
    using agenda_repD(7) [OF rep, of "(g, s, xs)"] by (auto simp: group_ends_def split: option.splits)
  have "dlseg (grp_links (grps e)) None (gaddrs hs @ g # gaddrs ks) None"
    using agenda_repD(3) [OF rep] by simp
  from dlseg_node [OF this] G(1) have prv: "grp_prev G = lastp None (gaddrs hs)" by simp
  have "group_prev_last g e = Some (lastp None (flat hs))"
  proof (cases hs rule: rev_cases)
    case Nil
    with G prv show ?thesis by (simp add: group_prev_last_def)
  next
    case (snoc hs' h)
    with ne have "lastp (lastp None (flat hs')) (g_acts h) = lastp None (g_acts h)"
      by (simp add: lastp_last)
    with snoc G prv show ?thesis
      using agenda_repD(7) [OF rep, of h]
      by (auto simp: group_prev_last_def group_ends_def split: option.splits)
  qed
  with G prv show ?thesis by blast
qed

lemma update_group_ends_eq:
  assumes G: "grps e g = Some G" "group_prev_last g e = Some (lastp None P)"
      "grp_last G = lastp None (ys @ zs)" "grp_first G = hdp (ys @ zs) None"
      "grp_prev G = None \<Longrightarrow> P = []"
    and dist: "distinct (P @ ys @ zs)"
  shows "update_group_ends n g (lastp (lastp None P) ys) e =
    Some (e\<lparr>grps := (grps e)(g \<mapsto> G\<lparr>grp_first := hdp (ys @ n # zs) None, grp_last := lastp None (ys @ n # zs)\<rparr>)\<rparr>)"
proof -
  let ?l = "lastp (lastp None P) ys"
  have l: "?l = lastp None (P @ ys)" by simp
  have first: "(if ?l = None then Some True
      else case grp_prev G of None \<Rightarrow> Some False
           | Some p \<Rightarrow> do { P \<leftarrow> grps e p; Some (grp_last P = ?l) }) = Some (ys = [])"
  proof (cases "grp_prev G")
    case None
    with G(5) show ?thesis by auto
  next
    case (Some p)
    then obtain PG where PG: "grps e p = Some PG" "grp_last PG = lastp None P"
      using G(1,2) by (auto simp: group_prev_last_def)
    have "lastp None P \<noteq> ?l" if "ys \<noteq> []"
      using dist that by (auto simp: lastp_last dest!: lastp_None_Some)
    with Some PG show ?thesis by (cases "ys = []") (auto simp: lastp_last)
  qed
  have last: "(grp_last G = None \<or> grp_last G = ?l) = (zs = [])"
  proof (cases zs rule: rev_cases)
    case Nil
    with G(3) show ?thesis by (cases ys rule: rev_cases) auto
  next
    case (snoc zs' z)
    then have "z \<notin> set (P @ ys)" using dist by auto
    then have "?l \<noteq> Some z" unfolding l by (metis lastp_None_Some)
    with snoc G(3) show ?thesis by auto
  qed
  let ?G1 = "G\<lparr>grp_first := hdp (ys @ n # zs) None\<rparr>"
  let ?e1 = "e\<lparr>grps := (grps e)(g \<mapsto> ?G1)\<rparr>"
  have e1: "(if ys = [] then upd_grp (Some g) (grp_first_update (\<lambda>_. Some n)) e else Some e) = Some ?e1"
    using G(1,4) by (cases ys) (simp_all add: heap_simps map_upd_triv)
  have e2: "(if zs = [] then upd_grp (Some g) (grp_last_update (\<lambda>_. Some n)) ?e1 else Some ?e1) =
      Some (?e1\<lparr>grps := (grps e)(g \<mapsto> ?G1\<lparr>grp_last := lastp None (ys @ n # zs)\<rparr>)\<rparr>)"
  proof (cases zs rule: rev_cases)
    case (snoc zs' z)
    then have "?G1\<lparr>grp_last := lastp None (ys @ n # zs)\<rparr> = ?G1" using G(3) by simp
    then show ?thesis using snoc by simp
  qed (simp add: upd_grp_def)
  have "update_group_ends n g ?l e =
      (if zs = [] then upd_grp (Some g) (grp_last_update (\<lambda>_. Some n)) ?e1 else Some ?e1)"
    unfolding update_group_ends_def using last
    by (simp only: G(1) bind.bind_lunit first e1) simp
  then show ?thesis by (simp add: e2)
qed

section \<open>The place found by each strategy\<close>

definition null_view :: act_view where
  "null_view = \<lparr>v_tags = [], v_first = 0, v_complexity = 0, v_timetag = 0, v_random = 0\<rparr>"

definition view_at :: "env \<Rightarrow> addr \<Rightarrow> act_view" where
  "view_at e x = (case acts e x of None \<Rightarrow> null_view | Some A \<Rightarrow> view e A)"

definition act_ok_at :: "env \<Rightarrow> addr \<Rightarrow> bool" where
  "act_ok_at e x \<longleftrightarrow> (case acts e x of None \<Rightarrow> False | Some A \<Rightarrow> act_ok e A)"

definition in_order :: "env \<Rightarrow> StrategyType \<Rightarrow> addr list \<Rightarrow> bool" where
  "in_order e st xs \<longleftrightarrow> sorted_wrt (strategy_le st) (map (view_at e) xs)"

definition set_ends :: "addr \<Rightarrow> addr list \<Rightarrow> env \<Rightarrow> env" where
  "set_ends g xs e = e\<lparr>grps := (grps e)(g := map_option
     (\<lambda>G. G\<lparr>grp_first := hdp xs None, grp_last := lastp None xs\<rparr>) (grps e g))\<rparr>"

lemma in_order_forward:
  assumes "in_order e st xs"
  shows "in_order e st (takeWhile (\<lambda>x. goes_after st (view_at e n) (view_at e x)) xs @ n #
    dropWhile (\<lambda>x. goes_after st (view_at e n) (view_at e x)) xs)"
  using strat.sorted_place_forward [of st "map (view_at e) xs" "view_at e n"] assms
  by (simp add: in_order_def takeWhile_map dropWhile_map comp_def)

lemma place_fwd_eq:
  assumes rep: "agenda_rep e m (hs @ (g, s, xs) # ks)" and ne: "no_empty hs"
    and N: "acts e n = Some N"
    and after: "\<And>x A. \<lbrakk>x \<in> set xs; acts e x = Some A\<rbrakk> \<Longrightarrow> after N A = Some (af x)"
  shows "place_fwd after n g e = Some (lastp (lastp None (flat hs)) (takeWhile af xs),
    set_ends g (takeWhile af xs @ n # dropWhile af xs) e)"
proof -
  obtain G where G: "grps e g = Some G" "group_prev_last g e = Some (lastp None (flat hs))"
    "grp_first G = hdp xs None" "grp_last G = lastp None xs" "grp_prev G = lastp None (gaddrs hs)"
    using group_prev_last_eq [OF rep ne] by blast
  have seg: "dlseg (act_links (acts e)) (lastp None (flat hs)) xs (hdp (flat ks) None)"
    and dist: "distinct (flat hs @ xs)"
    using agenda_repD(2,4) [OF rep] by auto
  have "scan_fwd e (after N) (grp_last G) (grp_first G) (lastp None (flat hs)) =
      Some (lastp (lastp None (flat hs)) (takeWhile af xs))"
  proof (cases "xs = []")
    case True
    with G show ?thesis by (simp add: scan_fwd.simps)
  next
    case False
    have "\<exists>A. acts e x = Some A \<and> after N A = Some (af x)" if "x \<in> set xs" for x
      using dlseg_in_dom [OF seg that] after that by auto
    then show ?thesis
      using scan_fwd_eq [OF seg, of "after N" af] dist False G by (simp add: hdp_hd lastp_last)
  qed
  moreover have "update_group_ends n g (lastp (lastp None (flat hs)) (takeWhile af xs)) e =
      Some (set_ends g (takeWhile af xs @ n # dropWhile af xs) e)"
    using G dist
    by (subst update_group_ends_eq [where G = G and zs = "dropWhile af xs"])
      (auto simp: set_ends_def)
  ultimately show ?thesis
    using N G by (simp add: place_fwd_def)
qed

text \<open>A place for \<open>n\<close> in group \<open>g\<close>: what the search returns and how it sets the group ends.\<close>

definition places ::
  "(ptr \<times> env) option \<Rightarrow> env \<Rightarrow> StrategyType \<Rightarrow> addr list \<Rightarrow> addr \<Rightarrow> addr \<Rightarrow> addr list \<Rightarrow> bool" where
  "places res e st P g n xs \<longleftrightarrow> (\<exists>ys zs. xs = ys @ zs \<and>
     res = Some (lastp (lastp None P) ys, set_ends g (ys @ n # zs) e) \<and>
     (in_order e st xs \<longrightarrow> in_order e st (ys @ n # zs)))"

lemma place_fwd_places:
  assumes rep: "agenda_rep e m (hs @ (g, s, xs) # ks)" and ne: "no_empty hs"
    and N: "acts e n = Some N"
    and after: "\<And>x A. \<lbrakk>x \<in> set xs; acts e x = Some A\<rbrakk> \<Longrightarrow>
      after N A = Some (goes_after st (view e N) (view e A))"
  shows "places (place_fwd after n g e) e st (flat hs) g n xs"
proof -
  let ?af = "\<lambda>x. goes_after st (view_at e n) (view_at e x)"
  have "place_fwd after n g e = Some (lastp (lastp None (flat hs)) (takeWhile ?af xs),
      set_ends g (takeWhile ?af xs @ n # dropWhile ?af xs) e)"
    using after N by (intro place_fwd_eq [OF rep ne N]) (simp add: view_at_def)
  with in_order_forward show ?thesis
    unfolding places_def by (metis takeWhile_dropWhile_id)
qed

lemma place_from_end_places:
  assumes rep: "agenda_rep e m (hs @ (g, s, xs) # ks)" and ne: "no_empty hs"
    and N: "acts e n = Some N"
    and flags: "\<And>x A. \<lbrakk>x \<in> set xs; acts e x = Some A\<rbrakk> \<Longrightarrow>
      \<exists>f f'. endFlag A N = Some f \<and> after_flag f N A = goes_after st (view e N) (view e A) \<and>
        loopFlag A N = Some f' \<and> after_flag f' N A = goes_after st (view e N) (view e A)"
  shows "places (place_from_end endFlag loopFlag n g e) e st (flat hs) g n xs"
proof -
  obtain G where G: "grps e g = Some G" "grp_first G = hdp xs None" "grp_last G = lastp None xs"
    using group_prev_last_eq [OF rep ne] by blast
  have seg: "dlseg (act_links (acts e)) (lastp None (flat hs)) xs (hdp (flat ks) None)"
    using agenda_repD(2) [OF rep] by auto
  have fwd: "places (place_fwd (\<lambda>N A. map_option (\<lambda>flag. after_flag flag N A) (loopFlag A N)) n g e)
      e st (flat hs) g n xs"
    using flags by (intro place_fwd_places [OF rep ne N]) fastforce
  show ?thesis
  proof (cases xs rule: rev_cases)
    case Nil
    with G N fwd show ?thesis by (simp add: place_from_end_def)
  next
    case (snoc us u)
    then obtain U where U: "acts e u = Some U" using dlseg_in_dom [OF seg, of u] by auto
    then obtain f where f: "endFlag U N = Some f"
      "after_flag f N U = goes_after st (view e N) (view e U)" using flags [of u U] snoc by auto
    show ?thesis
    proof (cases "after_flag f N U")
      case False
      with snoc G N U f fwd show ?thesis by (simp add: place_from_end_def)
    next
      case True
      have first: "hdp us (Some u) = grp_first G" using G(2) snoc by simp
      have "place_from_end endFlag loopFlag n g e =
          Some (lastp (lastp None (flat hs)) xs, set_ends g (xs @ n # []) e)"
        using True snoc G(1,3) N U f
        by (simp add: place_from_end_def set_ends_def heap_simps first)
      moreover have "in_order e st (xs @ [n])" if "in_order e st xs"
        using strat.sorted_after_last [of st "map (view_at e) xs" "view_at e n"] that True snoc U N f
        by (simp add: in_order_def view_at_def)
      ultimately show ?thesis unfolding places_def by (metis append_Nil2)
    qed
  qed
qed

lemma PlaceBreadthActivation_places:
  assumes rep: "agenda_rep e m (hs @ (g, s, xs) # ks)" and ne: "no_empty hs"
    and N: "acts e n = Some N"
  shows "places (PlaceBreadthActivation n g e) e BREADTH_STRATEGY (flat hs) g n xs"
proof -
  obtain G where G: "grps e g = Some G" "group_prev_last g e = Some (lastp None (flat hs))"
    "grp_first G = hdp xs None" "grp_last G = lastp None xs" "grp_prev G = lastp None (gaddrs hs)"
    using group_prev_last_eq [OF rep ne] by blast
  have seg: "dlseg (act_links (acts e)) (lastp None (flat hs)) xs (hdp (flat ks) None)"
    and dist: "distinct (flat hs @ xs)"
    using agenda_repD(2,4) [OF rep] by auto
  let ?bf = "\<lambda>x. v_timetag (view_at e n) < v_timetag (view_at e x)"
  let ?ys = "rev (dropWhile ?bf (rev xs))" and ?zs = "rev (takeWhile ?bf (rev xs))"
  let ?l0 = "if grp_last G = None then lastp None (flat hs) else grp_last G"
  have split: "xs = ?ys @ ?zs"
    by (metis rev_append rev_rev_ident takeWhile_dropWhile_id)
  have "scan_back e (\<lambda>A. act_timetag N < act_timetag A) (grp_first G) (lastp None (flat hs))
      (grp_last G) ?l0 = Some (lastp (lastp None (flat hs)) ?ys)"
  proof (cases "xs = []")
    case True
    with G show ?thesis by (simp add: scan_back.simps)
  next
    case False
    have "\<exists>A. acts e x = Some A \<and> (act_timetag N < act_timetag A) = ?bf x" if "x \<in> set xs" for x
      using dlseg_in_dom [OF seg that] N by (auto simp: view_at_def view_def Let_def)
    then show ?thesis
      using scan_back_eq [OF seg, of "\<lambda>A. act_timetag N < act_timetag A" ?bf] dist False G
      by (simp add: hdp_hd lastp_last)
  qed
  moreover have "update_group_ends n g (lastp (lastp None (flat hs)) ?ys) e = Some (set_ends g (?ys @ n # ?zs) e)"
    using G dist split
    by (subst update_group_ends_eq [where G = G and zs = ?zs]) (auto simp: set_ends_def)
  ultimately have "PlaceBreadthActivation n g e =
      Some (lastp (lastp None (flat hs)) ?ys, set_ends g (?ys @ n # ?zs) e)"
    using N G by (simp add: PlaceBreadthActivation_def Let_def)
  moreover have "in_order e BREADTH_STRATEGY (?ys @ n # ?zs)" if "in_order e BREADTH_STRATEGY xs"
  proof -
    have "sorted_wrt (strategy_le BREADTH_STRATEGY) (map (view_at e) ?ys @ map (view_at e) ?zs)"
      using that split unfolding in_order_def by (metis map_append)
    moreover have "\<not> ?bf (last ?ys)" if "?ys \<noteq> []"
      using that hd_dropWhile [of ?bf "rev xs"] by (simp add: last_rev)
    moreover have "?bf (hd ?zs)" if "?zs \<noteq> []"
      using that set_takeWhileD [of "hd ?zs" ?bf "rev xs"] hd_in_set [of ?zs] by simp
    ultimately show ?thesis
      using strat.sorted_place [of BREADTH_STRATEGY "map (view_at e) ?ys" "map (view_at e) ?zs" "view_at e n"]
      by (simp add: in_order_def last_map hd_map not_less less_imp_le)
  qed
  ultimately show ?thesis unfolding places_def using split by blast
qed

lemma place_by_strategy_places:
  assumes rep: "agenda_rep e m (hs @ (g, s, xs) # ks)" and ne: "no_empty hs"
    and N: "acts e n = Some N" and okn: "act_ok_at e n" and ok: "\<forall>x\<in>set xs. act_ok_at e x"
  shows "places (place_by_strategy st n g e) e st (flat hs) g n xs"
proof -
  have N_ok: "act_ok e N" using okn N by (simp add: act_ok_at_def)
  have A_ok: "act_ok e A" if "x \<in> set xs" "acts e x = Some A" for x A
    using ok that by (auto simp: act_ok_at_def)
  note fwd = place_fwd_places [OF rep ne N]
  note fin = place_from_end_places [OF rep ne N]
  have view_simps: "v_timetag (view e A) = act_timetag A" "v_random (view e A) = randomID A" for A
    by (simp_all add: view_def Let_def)
  have cplx: "\<exists>r. rules e (theRule A) = Some r \<and> v_complexity (view e A) = complexity r" if "act_ok e A" for A
    using that by (auto simp: act_ok_def view_def Let_def)
  show ?thesis
  proof (cases st)
    case DEPTH_STRATEGY
    then show ?thesis
      by (simp add: place_by_strategy_def PlaceDepthActivation_def) (rule fwd, simp add: goes_after_def view_simps)
  next
    case BREADTH_STRATEGY
    then show ?thesis
      using PlaceBreadthActivation_places [OF rep ne N] by (simp add: place_by_strategy_def)
  next
    case LEX_STRATEGY
    then show ?thesis
      using A_ok N_ok
      by (simp add: place_by_strategy_def PlaceLEXActivation_def)
        (rule fin, simp add: ComparePartialMatches_eq after_flag_LEX)
  next
    case MEA_STRATEGY
    then show ?thesis
      using A_ok N_ok
      by (simp add: place_by_strategy_def PlaceMEAActivation_def)
        (rule fin, simp add: mea_end_flag_eq mea_loop_flag_eq after_flag_MEA)
  next
    case COMPLEXITY_STRATEGY
    have "places (PlaceComplexityActivation n g e) e COMPLEXITY_STRATEGY (flat hs) g n xs"
      unfolding PlaceComplexityActivation_def
      using cplx [OF N_ok] cplx A_ok by (intro fwd) (fastforce simp: goes_after_def view_simps)
    with COMPLEXITY_STRATEGY show ?thesis by (simp add: place_by_strategy_def)
  next
    case SIMPLICITY_STRATEGY
    have "places (PlaceSimplicityActivation n g e) e SIMPLICITY_STRATEGY (flat hs) g n xs"
      unfolding PlaceSimplicityActivation_def
      using cplx [OF N_ok] cplx A_ok by (intro fwd) (fastforce simp: goes_after_def view_simps)
    with SIMPLICITY_STRATEGY show ?thesis by (simp add: place_by_strategy_def)
  next
    case RANDOM_STRATEGY
    then show ?thesis
      by (simp add: place_by_strategy_def PlaceRandomActivation_def) (rule fwd, auto simp: goes_after_def view_simps)
  qed
qed

section \<open>What the order of an agenda depends on\<close>

text \<open>
  The views of activations depend on the time tags their partial matches bind and on the
  complexity of their rules, not on links, markers or the saliences of rules.
\<close>

definition same_network :: "env \<Rightarrow> env \<Rightarrow> bool" where
  "same_network e e' \<longleftrightarrow> (\<forall>b. map_option binds (matches e' b) = map_option binds (matches e b)) \<and>
     (\<forall>i. map_option timeTag (entities e' i) = map_option timeTag (entities e i)) \<and>
     (\<forall>r. map_option (\<lambda>d. (complexity d, whichModule d)) (rules e' r) =
          map_option (\<lambda>d. (complexity d, whichModule d)) (rules e r))"

lemma same_network_refl [simp]: "same_network e e"
  by (simp add: same_network_def)

lemma same_network_trans: "\<lbrakk>same_network e e'; same_network e' e''\<rbrakk> \<Longrightarrow> same_network e e''"
  by (simp add: same_network_def)

lemma same_network_tag: "same_network e e' \<Longrightarrow> map_option timeTag (entities e' i) = map_option timeTag (entities e i)"
  by (simp add: same_network_def)

lemma same_network_entity:
  assumes "same_network e e'"
  shows "(case entities e' i of Some t \<Rightarrow> f (timeTag t) | None \<Rightarrow> d) = (case entities e i of Some t \<Rightarrow> f (timeTag t) | None \<Rightarrow> d)"
  using same_network_tag [OF assms, of i] by (cases "entities e' i"; cases "entities e i") auto

lemma same_network_bind_tag:
  assumes "same_network e e'" shows "bind_tag e' = bind_tag e"
proof
  show "bind_tag e' b = bind_tag e b" for b
    by (simp only: bind_tag_def same_network_entity [OF assms, where f = "\<lambda>t. t"])
qed

lemma same_network_match_ok:
  assumes net: "same_network e e'" and b: "binds pm = binds pm'"
  shows "match_ok e' pm = match_ok e pm'"
proof -
  have "(case x of Some (Some i) \<Rightarrow> (case entities e' i of Some t \<Rightarrow> 0 < timeTag t | None \<Rightarrow> False) | _ \<Rightarrow> True) =
    (case x of Some (Some i) \<Rightarrow> (case entities e i of Some t \<Rightarrow> 0 < timeTag t | None \<Rightarrow> False) | _ \<Rightarrow> True)" for x
    by (simp only: same_network_entity [OF net, where f = "\<lambda>t. 0 < t"])
  then show ?thesis by (simp only: match_ok_def b)
qed

lemma same_network_rules:
  assumes "same_network e e'"
  shows "rule_module e' r = rule_module e r"
    and "map_option complexity (rules e' r) = map_option complexity (rules e r)"
proof -
  have eq: "map_option (\<lambda>d. (complexity d, whichModule d)) (rules e' r) =
      map_option (\<lambda>d. (complexity d, whichModule d)) (rules e r)"
    using assms by (simp add: same_network_def)
  from arg_cong [OF eq, of "map_option snd"] show "rule_module e' r = rule_module e r"
    by (simp add: rule_module_def option.map_comp comp_def)
  from arg_cong [OF eq, of "map_option fst"]
  show "map_option complexity (rules e' r) = map_option complexity (rules e r)"
    by (simp add: option.map_comp comp_def)
qed

lemma same_network_match:
  assumes "same_network e e'" and "basis A = basis B"
  shows "map_option binds (act_match e' A) = map_option binds (act_match e B)"
  using assms by (cases "basis B") (simp_all add: same_network_def act_match_def)

text \<open>What a view depends on.\<close>

definition act_key :: "activation \<Rightarrow> rule_id \<times> ptr \<times> u64 \<times> int" where
  "act_key A = (theRule A, basis A, act_timetag A, randomID A)"

lemma view_key_cong:
  assumes net: "same_network e e'" and key: "act_key A = act_key B"
  shows "view e' A = view e B"
proof -
  have k: "theRule A = theRule B" "basis A = basis B" "act_timetag A = act_timetag B" "randomID A = randomID B"
    using key by (simp_all add: act_key_def)
  have m: "map_option binds (act_match e' A) = map_option binds (act_match e B)"
    using same_network_match [OF net] k by simp
  have tags: "(case act_match e' A of None \<Rightarrow> [] | Some pm \<Rightarrow> match_tags e' pm) =
      (case act_match e B of None \<Rightarrow> [] | Some pm \<Rightarrow> match_tags e pm)"
    using m by (cases "act_match e' A"; cases "act_match e B")
      (simp_all add: match_tags_def same_network_bind_tag [OF net])
  have "(case rules e' (theRule A) of None \<Rightarrow> 0 | Some r \<Rightarrow> complexity r) =
      (case rules e (theRule B) of None \<Rightarrow> 0 | Some r \<Rightarrow> complexity r)"
    using same_network_rules(2) [OF net, of "theRule B"] k
    by (cases "rules e' (theRule B)"; cases "rules e (theRule B)") simp_all
  with tags show ?thesis using k unfolding view_def by (simp only: Let_def)
qed

lemma view_cong: "same_network e e' \<Longrightarrow> act_pay A = act_pay B \<Longrightarrow> view e' A = view e B"
  by (rule view_key_cong) (auto simp: act_key_def dest: act_pay_eqD)

lemma act_ok_cong:
  assumes net: "same_network e e'" and pay: "act_pay A = act_pay B"
  shows "act_ok e' A = act_ok e B"
proof -
  have m: "map_option binds (act_match e' A) = map_option binds (act_match e B)"
    using same_network_match [OF net] act_pay_eqD [OF pay] by simp
  have "(case act_match e' A of None \<Rightarrow> False | Some pm \<Rightarrow> match_ok e' pm) =
      (case act_match e B of None \<Rightarrow> False | Some pm \<Rightarrow> match_ok e pm)"
    using m by (cases "act_match e' A"; cases "act_match e B") (simp_all add: same_network_match_ok [OF net])
  moreover have "(rules e' (theRule A) = None) = (rules e (theRule B) = None)"
    using same_network_rules(2) [OF net, of "theRule B"] act_pay_eqD [OF pay]
    by (metis option.map_disc_iff)
  ultimately show ?thesis unfolding act_ok_def by simp
qed

lemma view_at_cong:
  "\<lbrakk>same_network e e'; pays_of act_pay (acts e') x = pays_of act_pay (acts e) x\<rbrakk> \<Longrightarrow> view_at e' x = view_at e x"
  by (cases "acts e' x"; cases "acts e x") (simp_all add: pays_of_def view_at_def view_cong)

lemma act_ok_at_cong:
  "\<lbrakk>same_network e e'; pays_of act_pay (acts e') x = pays_of act_pay (acts e) x\<rbrakk> \<Longrightarrow> act_ok_at e' x = act_ok_at e x"
  by (cases "acts e' x"; cases "acts e x") (simp_all add: pays_of_def act_ok_at_def act_ok_cong)

lemma in_order_cong:
  assumes "same_network e e'" "\<And>x. x \<in> set xs \<Longrightarrow> pays_of act_pay (acts e') x = pays_of act_pay (acts e) x"
  shows "in_order e' st xs = in_order e st xs"
proof -
  have "map (view_at e') xs = map (view_at e) xs" using assms view_at_cong by auto
  then show ?thesis by (simp only: in_order_def)
qed

section \<open>Steps that stay inside one agenda\<close>

text \<open>
  A step of module \<open>m\<close> that may write the activations \<open>X\<close>, the groups \<open>K\<close>, the module
  item of \<open>m\<close> and the flag that says that an agenda has changed, and nothing else.
\<close>

definition local_step :: "module_id \<Rightarrow> addr set \<Rightarrow> addr set \<Rightarrow> env \<Rightarrow> env \<Rightarrow> bool" where
  "local_step m X K e e' \<longleftrightarrow>
     (\<forall>a. a \<notin> X \<longrightarrow> acts e' a = acts e a) \<and> (\<forall>g. g \<notin> K \<longrightarrow> grps e' g = grps e g) \<and>
     (\<forall>k. k \<noteq> m \<longrightarrow> items e' k = items e k) \<and>
     map_option ruleList (items e' m) = map_option ruleList (items e m) \<and>
     (\<exists>b. agendaD e' = (agendaD e)\<lparr>AgendaChanged := b\<rparr>) \<and> fresh e \<le> fresh e' \<and>
     e'\<lparr>acts := acts e, grps := grps e, items := items e, agendaD := agendaD e, fresh := fresh e\<rparr> = e"

lemma local_step_fields:
  assumes "local_step m X K e e'"
  shows "rules e' = rules e" "matches e' = matches e" "joins e' = joins e" "entities e' = entities e"
    "engineD e' = engineD e" "moduleD e' = moduleD e" "evalD e' = evalD e" "clearFlags e' = clearFlags e"
    "dynValue e' = dynValue e" "genrand e' = genrand e" "genrandPos e' = genrandPos e"
    "messages e' = messages e" "fresh e \<le> fresh e'"
    "Strategy (agendaD e') = Strategy (agendaD e)"
    "NumberOfActivations (agendaD e') = NumberOfActivations (agendaD e)"
    "CurrentTimetag (agendaD e') = CurrentTimetag (agendaD e)"
    "SalienceEvaluation (agendaD e') = SalienceEvaluation (agendaD e)"
proof -
  let ?u = "e'\<lparr>acts := acts e, grps := grps e, items := items e, agendaD := agendaD e, fresh := fresh e\<rparr>"
  have u: "?u = e" using assms by (simp add: local_step_def)
  from arg_cong [OF u, of rules] show "rules e' = rules e" by simp
  from arg_cong [OF u, of matches] show "matches e' = matches e" by simp
  from arg_cong [OF u, of joins] show "joins e' = joins e" by simp
  from arg_cong [OF u, of entities] show "entities e' = entities e" by simp
  from arg_cong [OF u, of engineD] show "engineD e' = engineD e" by simp
  from arg_cong [OF u, of moduleD] show "moduleD e' = moduleD e" by simp
  from arg_cong [OF u, of evalD] show "evalD e' = evalD e" by simp
  from arg_cong [OF u, of clearFlags] show "clearFlags e' = clearFlags e" by simp
  from arg_cong [OF u, of dynValue] show "dynValue e' = dynValue e" by simp
  from arg_cong [OF u, of genrand] show "genrand e' = genrand e" by simp
  from arg_cong [OF u, of genrandPos] show "genrandPos e' = genrandPos e" by simp
  from arg_cong [OF u, of messages] show "messages e' = messages e" by simp
qed (use assms in \<open>auto simp: local_step_def\<close>)

lemma local_step_trans:
  assumes "local_step m X K e e'" and "local_step m X' K' e' e''"
  shows "local_step m (X \<union> X') (K \<union> K') e e''"
proof -
  have "e''\<lparr>acts := acts e, grps := grps e, items := items e, agendaD := agendaD e, fresh := fresh e\<rparr> =
      (e''\<lparr>acts := acts e', grps := grps e', items := items e', agendaD := agendaD e', fresh := fresh e'\<rparr>)
        \<lparr>acts := acts e, grps := grps e, items := items e, agendaD := agendaD e, fresh := fresh e\<rparr>" by simp
  also have "\<dots> = e" using assms by (simp only: local_step_def)
  finally show ?thesis using assms by (auto simp: local_step_def)
qed

lemma local_step_mono: "\<lbrakk>local_step m X K e e'; X \<subseteq> X'; K \<subseteq> K'\<rbrakk> \<Longrightarrow> local_step m X' K' e e'"
  by (auto simp: local_step_def)

lemma local_step_other:
  assumes "local_step m X K e e'" and "agenda_rep e k gs" and "k \<noteq> m"
    and "set (flat gs) \<inter> X = {}" and "set (gaddrs gs) \<inter> K = {}"
  shows "agenda_rep e' k gs"
  using assms
  by (intro agenda_rep_cong [OF assms(2)])
    (auto simp: local_step_def rule_module_def local_step_fields [OF assms(1)] disjoint_iff)

section \<open>Linking the activation in\<close>

lemma link_after_eq:
  assumes seg: "dlseg (act_links (acts e)) None (P @ S) None" and dist: "distinct (P @ n # S)"
    and item: "items e m = Some it" "agenda it = hdp (P @ S) None"
    and N: "acts e n = Some N" "act_prev N = None"
  shows "\<exists>h. link_after m n (lastp None P) e =
      Some (e\<lparr>acts := h, items := (items e)(m \<mapsto> it\<lparr>agenda := hdp (P @ n # S) None\<rparr>)\<rparr>) \<and>
    dlseg (act_links h) None (P @ n # S) None \<and> pays_of act_pay h = pays_of act_pay (acts e) \<and>
    (\<forall>a. a \<notin> set (P @ n # S) \<longrightarrow> h a = acts e a)"
proof -
  let ?N = "N\<lparr>act_next := hdp S None, act_prev := lastp None P\<rparr>"
  let ?h0 = "(acts e)(n \<mapsto> ?N)"
  have seg0: "dlseg (act_links ?h0) None (P @ S) None"
    using seg dist by (simp del: dlseg_append)
  have pay0: "pays_of act_pay ?h0 = pays_of act_pay (acts e)"
    using N(1) by (auto simp: pays_of_def act_pay_def)
  have n0: "?h0 n = Some ?N" "act_prev ?N = lastp None P" "act_next ?N = hdp S None" by simp_all
  obtain h1 h2 where h: "upd_if (lastp None P) (act_next_update (\<lambda>_. Some n)) ?h0 = Some h1"
    "upd_if (hdp S None) (act_prev_update (\<lambda>_. Some n)) h1 = Some h2"
    "dlseg (act_links h2) None (P @ n # S) None" "pays_of act_pay h2 = pays_of act_pay ?h0"
    "\<forall>a. a \<notin> set (P @ S) \<longrightarrow> h2 a = ?h0 a"
    using act.link_node [OF seg0 dist n0] by blast
  have "link_after m n (lastp None P) e =
      Some (e\<lparr>acts := h2, items := (items e)(m \<mapsto> it\<lparr>agenda := hdp (P @ n # S) None\<rparr>)\<rparr>)"
  proof (cases P rule: rev_cases)
    case Nil
    then have "N\<lparr>act_next := hdp S None\<rparr> = ?N" using N(2) by (cases N) simp
    then show ?thesis
      using Nil h(1,2) N(1) item by (simp add: link_after_def heap_simps upd_act_if_def)
  next
    case (snoc P' a)
    obtain A where A: "acts e a = Some A" "act_next A = hdp S None"
      using dlseg_node [of act_prev act_next "acts e" None P' a S None] seg snoc by auto
    have "it\<lparr>agenda := hdp (P @ n # S) None\<rparr> = it" using item(2) snoc by (cases P) simp_all
    moreover have "upd_act (Some n) (\<lambda>r. r\<lparr>act_next := act_next A, act_prev := Some a\<rparr>) e = Some (e\<lparr>acts := ?h0\<rparr>)"
      using N(1) A(2) snoc by (simp add: heap_simps)
    moreover have "upd_act (Some a) (act_next_update (\<lambda>_. Some n)) (e\<lparr>acts := ?h0\<rparr>) = Some (e\<lparr>acts := h1\<rparr>)"
      using h(1) snoc by (simp add: upd_act_def)
    moreover have "upd_act_if (hdp S None) (act_prev_update (\<lambda>_. Some n)) (e\<lparr>acts := h1\<rparr>) = Some (e\<lparr>acts := h2\<rparr>)"
      using h(2) by (simp add: upd_act_if_def)
    ultimately show ?thesis
      using snoc A item(1) by (simp add: link_after_def map_upd_triv)
  qed
  moreover have "h2 a = acts e a" if "a \<notin> set (P @ n # S)" for a using that h(5) by simp
  ultimately show ?thesis using h(3,4) pay0 by (simp only:) blast
qed

text \<open>
  Placing an activation: under the current strategy it is inserted in the list of its group,
  at a place that keeps a group in order if it was in order.
\<close>

lemma PlaceActivation_insert:
  assumes rep: "agenda_rep e m (hs @ (g, s, xs) # ks)" and ne: "no_empty hs" "no_empty ks"
    and N: "acts e n = Some N" "act_prev N = None" "n \<notin> set (flat (hs @ (g, s, xs) # ks))"
    and mem: "act_in e m s n" and okn: "act_ok_at e n" and ok: "\<forall>x\<in>set xs. act_ok_at e x"
  shows "\<exists>e' ys zs. xs = ys @ zs \<and> PlaceActivation m n g e = Some e' \<and>
    agenda_rep e' m (hs @ (g, s, ys @ n # zs) # ks) \<and>
    (in_order e (Strategy (agendaD e)) xs \<longrightarrow> in_order e (Strategy (agendaD e)) (ys @ n # zs)) \<and>
    local_step m (set (flat (hs @ (g, s, n # xs) # ks))) {g} e e' \<and> fresh e' = fresh e \<and>
    AgendaChanged (agendaD e') \<and> pays_of act_pay (acts e') = pays_of act_pay (acts e)"
proof -
  let ?st = "Strategy (agendaD e)" and ?e0 = "SetAgendaChanged True e"
  have e0: "acts ?e0 = acts e" "grps ?e0 = grps e" "items ?e0 = items e" "rules ?e0 = rules e"
    "matches ?e0 = matches e" "entities ?e0 = entities e" "Strategy (agendaD ?e0) = ?st"
    by (simp_all add: SetAgendaChanged_def set_agendaD_def)
  have rep0: "agenda_rep ?e0 m (hs @ (g, s, xs) # ks)"
    using rep by (rule agenda_rep_cong) (simp_all add: e0 rule_module_def)
  have same: "act_ok_at ?e0 = act_ok_at e" "view_at ?e0 = view_at e"
    by (auto simp: fun_eq_iff e0 same_network_def intro!: view_at_cong act_ok_at_cong)
  obtain it where it: "items e m = Some it" "agenda it = hdp (flat hs @ xs @ flat ks) None"
    "groupings it = hdp (gaddrs hs @ g # gaddrs ks) None" using agenda_repD(1) [OF rep] by auto
  obtain G where G: "grps e g = Some G" "grp_salience G = s"
    using agenda_repD(7) [OF rep, of "(g, s, xs)"] by (auto simp: group_ends_def split: option.splits)
  obtain ys zs where yz: "xs = ys @ zs"
    "in_order e ?st xs \<longrightarrow> in_order e ?st (ys @ n # zs)"
    "(if agenda it \<noteq> None then place_by_strategy ?st n g ?e0
      else do { e1 \<leftarrow> upd_grp (Some g) (\<lambda>G. G\<lparr>grp_first := Some n, grp_last := Some n\<rparr>) ?e0; Some (None, e1) })
     = Some (lastp None (flat hs @ ys), set_ends g (ys @ n # zs) ?e0)"
  proof (cases "agenda it = None")
    case True
    then have "flat hs @ xs @ flat ks = []" using it(2) hdp_None_iff(1) by metis
    then have "flat hs = []" "xs = []" by simp_all
    with True G e0 that [of "[]" "[]"] show ?thesis
      by (simp add: set_ends_def upd_grp_def in_order_def)
  next
    case False
    have "places (place_by_strategy ?st n g ?e0) ?e0 ?st (flat hs) g n xs"
      using place_by_strategy_places [OF rep0 ne(1), of n N ?st] N(1) okn ok by (simp add: e0 same)
    with False that show ?thesis by (auto simp: places_def in_order_def same)
  qed
  let ?e1 = "set_ends g (ys @ n # zs) ?e0" and ?P = "flat hs @ ys" and ?S = "zs @ flat ks"
  have e1: "acts ?e1 = acts e" "items ?e1 = items e" "grps ?e1 = (grps e)(g \<mapsto> G\<lparr>grp_first :=
      hdp (ys @ n # zs) None, grp_last := lastp None (ys @ n # zs)\<rparr>)"
    using G by (simp_all add: set_ends_def e0)
  have "dlseg (act_links (acts ?e1)) None (?P @ ?S) None" "distinct (?P @ n # ?S)"
    using agenda_repD(2,4) [OF rep] N(3) yz(1) by (auto simp: e1)
  then obtain h where h: "link_after m n (lastp None ?P) ?e1 =
      Some (?e1\<lparr>acts := h, items := (items e)(m \<mapsto> it\<lparr>agenda := hdp (?P @ n # ?S) None\<rparr>)\<rparr>)"
    "dlseg (act_links h) None (?P @ n # ?S) None" "pays_of act_pay h = pays_of act_pay (acts e)"
    "\<forall>a. a \<notin> set (?P @ n # ?S) \<longrightarrow> h a = acts e a"
    using link_after_eq [of ?e1 ?P ?S n m it N] it(1,2) yz(1) N(1,2) by (auto simp: e1)
  let ?e' = "?e1\<lparr>acts := h, items := (items e)(m \<mapsto> it\<lparr>agenda := hdp (?P @ n # ?S) None\<rparr>)\<rparr>"
  have "PlaceActivation m n g e = Some ?e'"
    by (simp only: PlaceActivation_def Let_def e0 it(1) bind.bind_lunit yz(3) prod.case h(1))
  moreover have "agenda_rep ?e' m (hs @ (g, s, ys @ n # zs) # ks)"
  proof (rule agenda_repI)
    show "items ?e' m = Some (it\<lparr>agenda := hdp (?P @ n # ?S) None\<rparr>)" by simp
    show "dlseg (grp_links (grps ?e')) None (gaddrs (hs @ (g, s, ys @ n # zs) # ks)) None"
    proof (subst dlseg_cong [of _ _ "grp_links (grps e)"])
      show "grp_links (grps ?e') x = grp_links (grps e) x" for x
        using G by (simp add: e1 links_of_def)
    qed (use agenda_repD(3) [OF rep] in simp)
    show "falling (hs @ (g, s, ys @ n # zs) # ks)"
      using agenda_repD(6) [OF rep] by (simp add: falling_def sorted_wrt_append)
    show "group_ends ?e' k" if "k \<in> set (hs @ (g, s, ys @ n # zs) # ks)" for k
    proof (cases "k = (g, s, ys @ n # zs)")
      case False
      then have "k \<in> set (hs @ (g, s, xs) # ks)" "g_addr k \<noteq> g"
        using that agenda_repD(5) [OF rep] by (auto simp: gaddrs_def)
      then show ?thesis
        using agenda_repD(7) [OF rep, of k] by (simp add: group_ends_def e1)
    qed (simp add: group_ends_def e1 G)
    show "act_in ?e' m (g_sal k) x" if "k \<in> set (hs @ (g, s, ys @ n # zs) # ks)" "x \<in> set (g_acts k)" for k x
    proof -
      have "act_in e m (g_sal k) x"
        using that agenda_repD(8) [OF rep, of k x] agenda_repD(8) [OF rep, of "(g, s, xs)" x] mem yz(1) by auto
      then show ?thesis
        by (subst act_in_cong [of _ _ e]) (simp_all add: h(3) rule_module_def set_ends_def e0)
    qed
  qed (use agenda_repD(4,5) [OF rep] N(3) yz(1) it h(2) in auto)
  moreover have "local_step m (set (flat (hs @ (g, s, n # xs) # ks))) {g} e ?e'"
    using h(4) yz(1) it(1)
    by (auto simp: local_step_def set_ends_def SetAgendaChanged_def set_agendaD_def)
  moreover have "AgendaChanged (agendaD ?e')" "fresh ?e' = fresh e"
    by (simp_all add: set_ends_def SetAgendaChanged_def set_agendaD_def)
  moreover have "pays_of act_pay (acts ?e') = pays_of act_pay (acts e)" using h(3) by simp
  ultimately show ?thesis using yz(1,2) by blast
qed

end
