(* ===== verification/Agenda_Ops.thy ===== *)
theory Agenda_Ops
  imports Agenda_Rep
begin

text \<open>
  The operations of \<^verbatim>\<open>agenda.c\<close>, and the setting of the strategy of \<^verbatim>\<open>crstrtgy.c\<close>, as
  functions on the environment.  \<open>None\<close> is an access through a null or freed pointer, a
  call of \<^verbatim>\<open>ExitRouter\<close> or a list walk that does not end.
\<close>

section \<open>Salience groups\<close>

text \<open>
  The walk over the groups: \<open>Inl g\<close> is the group with the salience looked for, \<open>Inr (l, t)\<close>
  the last group passed and the one the walk stopped at.
\<close>

partial_function (option) search_group ::
  "env \<Rightarrow> int \<Rightarrow> ptr \<Rightarrow> ptr \<Rightarrow> (addr + ptr \<times> ptr) option" where
  "search_group e salience lastGroup theGroup = (case theGroup of
     None \<Rightarrow> Some (Inr (lastGroup, None))
   | Some g \<Rightarrow> do {
       G \<leftarrow> grps e g;
       if grp_salience G = salience then Some (Inl g)
       else if grp_salience G < salience then Some (Inr (lastGroup, theGroup))
       else search_group e salience theGroup (grp_next G) })"

declare search_group.simps [code]

definition ReuseOrCreateSalienceGroup :: "module_id \<Rightarrow> int \<Rightarrow> env \<Rightarrow> (addr \<times> env) option" where
  "ReuseOrCreateSalienceGroup theRuleModule salience e = do {
     item \<leftarrow> items e theRuleModule;
     r \<leftarrow> search_group e salience None (groupings item);
     (case r of Inl g \<Rightarrow> Some (g, e)
      | Inr (lastGroup, theGroup) \<Rightarrow> do {
          let newGroup = fresh e;
          let e1 = e\<lparr>grps := (grps e)(newGroup \<mapsto> \<lparr>grp_salience = salience, grp_first = None,
                     grp_last = None, grp_next = theGroup, grp_prev = lastGroup\<rparr>), fresh := newGroup + 1\<rparr>;
          e2 \<leftarrow> upd_grp_if theGroup (grp_prev_update (\<lambda>_. Some newGroup)) e1;
          e3 \<leftarrow> upd_grp_if lastGroup (grp_next_update (\<lambda>_. Some newGroup)) e2;
          e4 \<leftarrow> (if lastGroup = None
                 then upd_item theRuleModule (groupings_update (\<lambda>_. Some newGroup)) e3 else Some e3);
          Some (newGroup, e4) }) }"

definition FindSalienceGroup :: "module_id \<Rightarrow> int \<Rightarrow> env \<Rightarrow> ptr option" where
  "FindSalienceGroup theRuleModule salience e = do {
     item \<leftarrow> items e theRuleModule;
     r \<leftarrow> search_group e salience None (groupings item);
     Some (case r of Inl g \<Rightarrow> Some g | Inr _ \<Rightarrow> None) }"

section \<open>Salience evaluation\<close>

definition SetEvaluationError :: "bool \<Rightarrow> env \<Rightarrow> env" where
  "SetEvaluationError v e = set_evalD (\<lambda>d. d\<lparr>EvaluationError := v,
     HaltExecution := (if v then True else HaltExecution d)\<rparr>) e"

definition ResetErrorFlags :: "env \<Rightarrow> env" where
  "ResetErrorFlags e = set_evalD (\<lambda>d. d\<lparr>EvaluationError := False, HaltExecution := False\<rparr>) e"

definition GetSalienceEvaluation :: "env \<Rightarrow> SalienceEvaluationType" where
  "GetSalienceEvaluation e = SalienceEvaluation (agendaD e)"

definition SetSalienceEvaluation :: "SalienceEvaluationType \<Rightarrow> env \<Rightarrow> SalienceEvaluationType \<times> env" where
  "SetSalienceEvaluation v e =
     (SalienceEvaluation (agendaD e), set_agendaD (\<lambda>d. d\<lparr>SalienceEvaluation := v\<rparr>) e)"

abbreviation MAX_DEFRULE_SALIENCE :: int where "MAX_DEFRULE_SALIENCE \<equiv> 10000"
abbreviation MIN_DEFRULE_SALIENCE :: int where "MIN_DEFRULE_SALIENCE \<equiv> - 10000"

definition EvaluateSalience :: "rule_id \<Rightarrow> env \<Rightarrow> (int \<times> env) option" where
  "EvaluateSalience theDefrule e = do {
     R \<leftarrow> rules e theDefrule;
     if GetSalienceEvaluation e = WHEN_DEFINED then Some (rule_salience R, e)
     else (case dynamicSalience R of None \<Rightarrow> Some (rule_salience R, e)
       | Some x \<Rightarrow>
         (let e1 = SetEvaluationError False e in
          case dynValue e1 x of
            EvalError \<Rightarrow> Some (rule_salience R,
              say (SalienceInformationError (rule_name R)) (SetEvaluationError True e1))
          | NonInteger \<Rightarrow> Some (rule_salience R,
              SetEvaluationError True (say (SalienceInformationError (rule_name R))
                (say SalienceNonIntegerError e1)))
          | IntegerValue salience \<Rightarrow>
              if salience > MAX_DEFRULE_SALIENCE \<or> salience < MIN_DEFRULE_SALIENCE
              then Some (rule_salience R, say (SalienceInformationError (rule_name R))
                (SetEvaluationError True
                  (say (SalienceRangeError MIN_DEFRULE_SALIENCE MAX_DEFRULE_SALIENCE) e1)))
              else do {
                e2 \<leftarrow> upd_rule theDefrule (rule_salience_update (\<lambda>_. salience)) e1;
                Some (salience, e2) })) }"

fun SalienceEvaluationName :: "SalienceEvaluationType \<Rightarrow> string" where
  "SalienceEvaluationName WHEN_DEFINED = ''when-defined''"
| "SalienceEvaluationName WHEN_ACTIVATED = ''when-activated''"
| "SalienceEvaluationName EVERY_CYCLE = ''every-cycle''"

text \<open>The argument is \<open>None\<close> when it is no symbol.\<close>

definition SetSalienceEvaluationCommand :: "string option \<Rightarrow> env \<Rightarrow> string option \<times> env" where
  "SetSalienceEvaluationCommand arg e =
     (let oldValue = SalienceEvaluationName (GetSalienceEvaluation e) in
      case arg of None \<Rightarrow> (None, e)
      | Some argument \<Rightarrow>
          if argument = ''when-defined'' then (Some oldValue, snd (SetSalienceEvaluation WHEN_DEFINED e))
          else if argument = ''when-activated'' then (Some oldValue, snd (SetSalienceEvaluation WHEN_ACTIVATED e))
          else if argument = ''every-cycle'' then (Some oldValue, snd (SetSalienceEvaluation EVERY_CYCLE e))
          else (Some oldValue,
            say (InvalidArgument ''symbol with value when-defined, when-activated, or every-cycle'') e))"

definition GetSalienceEvaluationCommand :: "env \<Rightarrow> string" where
  "GetSalienceEvaluationCommand e = SalienceEvaluationName (GetSalienceEvaluation e)"

section \<open>Adding and removing activations\<close>

definition watch_act :: "defrule \<Rightarrow> env \<Rightarrow> bool" where
  "watch_act R e \<longleftrightarrow> watchActivation R \<and> \<not> fst (clearFlags e) \<and> \<not> snd (clearFlags e)"

definition gen_rand :: "env \<Rightarrow> int \<times> env" where
  "gen_rand e = (genrand e (genrandPos e), e\<lparr>genrandPos := genrandPos e + 1\<rparr>)"

definition CreateActivation :: "rule_id \<Rightarrow> addr \<Rightarrow> env \<Rightarrow> (addr \<times> int \<times> env) option" where
  "CreateActivation aRule pm e = do {
     let newActivation = fresh e;
     let timetag = CurrentTimetag (agendaD e);
     let e1 = set_agendaD (\<lambda>d. d\<lparr>CurrentTimetag := CurrentTimetag d + 1\<rparr>) (e\<lparr>fresh := newActivation + 1\<rparr>);
     (salience, e2) \<leftarrow> EvaluateSalience aRule e1;
     let (rnd, e3) = gen_rand e2;
     let e4 = e3\<lparr>acts := (acts e3)(newActivation \<mapsto> \<lparr>theRule = aRule, basis = Some pm,
                act_salience = salience, act_timetag = timetag, randomID = rnd,
                act_prev = None, act_next = None\<rparr>)\<rparr>;
     let e5 = set_agendaD (\<lambda>d. d\<lparr>NumberOfActivations := NumberOfActivations d + 1\<rparr>) e4;
     e6 \<leftarrow> upd_match (Some pm) (marker_update (\<lambda>_. Some newActivation)) e5;
     Some (newActivation, salience, e6) }"

definition AddActivation :: "rule_id \<Rightarrow> addr \<Rightarrow> env \<Rightarrow> env option" where
  "AddActivation aRule pm e = do {
     R \<leftarrow> rules e aRule;
     let e1 = (if autoFocus R then Focus (Some (whichModule R)) e else e);
     (newActivation, salience, e2) \<leftarrow> CreateActivation aRule pm e1;
     let e3 = (if watch_act R e2 then say (ActivationOn newActivation) e2 else e2);
     (theGroup, e4) \<leftarrow> ReuseOrCreateSalienceGroup (whichModule R) salience e3;
     PlaceActivation (whichModule R) newActivation theGroup e4 }"

definition RemoveActivationFromGroup :: "addr \<Rightarrow> module_id \<Rightarrow> env \<Rightarrow> env option" where
  "RemoveActivationFromGroup theActivation theRuleModule e = do {
     A \<leftarrow> acts e theActivation;
     p \<leftarrow> FindSalienceGroup theRuleModule (act_salience A) e;
     (case p of None \<Rightarrow> Some e
      | Some theGroup \<Rightarrow> do {
          G \<leftarrow> grps e theGroup;
          if Some theActivation = grp_first G
          then if Some theActivation = grp_last G
               then do {
                 e1 \<leftarrow> (if grp_prev G = None
                        then upd_item theRuleModule (groupings_update (\<lambda>_. grp_next G)) e
                        else upd_grp (grp_prev G) (grp_next_update (\<lambda>_. grp_next G)) e);
                 e2 \<leftarrow> upd_grp_if (grp_next G) (grp_prev_update (\<lambda>_. grp_prev G)) e1;
                 Some (e2\<lparr>grps := (grps e2)(theGroup := None)\<rparr>) }
               else upd_grp (Some theGroup) (grp_first_update (\<lambda>_. act_next A)) e
          else if Some theActivation = grp_last G
               then upd_grp (Some theGroup) (grp_last_update (\<lambda>_. act_prev A)) e
               else Some e }) }"

definition unlink_activation :: "addr \<Rightarrow> module_id \<Rightarrow> env \<Rightarrow> env option" where
  "unlink_activation theActivation theModuleItem e = do {
     A \<leftarrow> acts e theActivation;
     (if act_prev A = None
      then do {
        item \<leftarrow> items e theModuleItem;
        T \<leftarrow> deref (acts e) (agenda item);
        e1 \<leftarrow> upd_item theModuleItem (agenda_update (\<lambda>_. act_next T)) e;
        upd_act_if (act_next T) (act_prev_update (\<lambda>_. None)) e1 }
      else do {
        e1 \<leftarrow> upd_act (act_prev A) (act_next_update (\<lambda>_. act_next A)) e;
        upd_act_if (act_next A) (act_prev_update (\<lambda>_. act_prev A)) e1 }) }"

definition RemoveActivation :: "addr \<Rightarrow> bool \<Rightarrow> bool \<Rightarrow> env \<Rightarrow> env option" where
  "RemoveActivation theActivation updateAgenda updateLinks e = do {
     A \<leftarrow> acts e theActivation;
     R \<leftarrow> rules e (theRule A);
     e3 \<leftarrow> (if updateAgenda
       then do {
         e1 \<leftarrow> RemoveActivationFromGroup theActivation (whichModule R) e;
         e2 \<leftarrow> unlink_activation theActivation (whichModule R) e1;
         Some (SetAgendaChanged True
           (if watch_act R e2 then say (ActivationOff theActivation) e2 else e2)) }
       else Some e);
     e4 \<leftarrow> (if updateLinks \<and> basis A \<noteq> None
            then upd_match (basis A) (marker_update (\<lambda>_. None)) e3 else Some e3);
     let e5 = set_agendaD (\<lambda>d. d\<lparr>NumberOfActivations := NumberOfActivations d - 1\<rparr>) e4;
     Some (e5\<lparr>acts := (acts e5)(theActivation := None)\<rparr>) }"

definition DeleteActivation :: "addr \<Rightarrow> env \<Rightarrow> env option" where
  "DeleteActivation theActivation e = RemoveActivation theActivation True True e"

text \<open>The writes by which \<^verbatim>\<open>DetachActivation\<close> takes the activation out of the chain.\<close>

definition detach_links :: "addr \<Rightarrow> module_id \<Rightarrow> activation \<Rightarrow> env \<Rightarrow> env option" where
  "detach_links x m A e = do {
     item \<leftarrow> items e m;
     e2 \<leftarrow> (if Some x = agenda item then upd_item m (agenda_update (\<lambda>_. act_next A)) e else Some e);
     e3 \<leftarrow> upd_act_if (act_prev A) (act_next_update (\<lambda>_. act_next A)) e2;
     upd_act_if (act_next A) (act_prev_update (\<lambda>_. act_prev A)) e3 }"

definition DetachActivation :: "ptr \<Rightarrow> env \<Rightarrow> env option" where
  "DetachActivation p e = do {
     theActivation \<leftarrow> p;
     A \<leftarrow> acts e theActivation;
     R \<leftarrow> rules e (theRule A);
     e1 \<leftarrow> RemoveActivationFromGroup theActivation (whichModule R) e;
     e2 \<leftarrow> detach_links theActivation (whichModule R) A e1;
     e3 \<leftarrow> upd_act (Some theActivation) (\<lambda>r. r\<lparr>act_prev := None, act_next := None\<rparr>) e2;
     Some (SetAgendaChanged True e3) }"

definition MoveActivationToTop :: "addr \<Rightarrow> env \<Rightarrow> (bool \<times> env) option" where
  "MoveActivationToTop theActivation e = do {
     A \<leftarrow> acts e theActivation;
     R \<leftarrow> rules e (theRule A);
     let theModuleItem = whichModule R;
     item \<leftarrow> items e theModuleItem;
     if Some theActivation = agenda item then Some (False, e)
     else do {
       e1 \<leftarrow> upd_act (act_prev A) (act_next_update (\<lambda>_. act_next A)) e;
       e2 \<leftarrow> upd_act_if (act_next A) (act_prev_update (\<lambda>_. act_prev A)) e1;
       e3 \<leftarrow> upd_act (Some theActivation) (act_next_update (\<lambda>_. agenda item)) e2;
       e4 \<leftarrow> upd_act (agenda item) (act_prev_update (\<lambda>_. Some theActivation)) e3;
       e5 \<leftarrow> upd_act (Some theActivation) (act_prev_update (\<lambda>_. None)) e4;
       e6 \<leftarrow> upd_item theModuleItem (agenda_update (\<lambda>_. Some theActivation)) e5;
       Some (True, SetAgendaChanged True e6) } }"

section \<open>Walking the agenda\<close>

definition GetNextActivation :: "ptr \<Rightarrow> env \<Rightarrow> ptr option" where
  "GetNextActivation actPtr e = (case actPtr of
     None \<Rightarrow> (case GetModuleItem None e of None \<Rightarrow> Some None
              | Some m \<Rightarrow> map_option agenda (items e m))
   | Some a \<Rightarrow> map_option act_next (acts e a))"

definition GetActivationBasis :: "addr \<Rightarrow> env \<Rightarrow> ptr option" where
  "GetActivationBasis actPtr e = map_option basis (acts e actPtr)"

definition GetActivationRule :: "addr \<Rightarrow> env \<Rightarrow> rule_id option" where
  "GetActivationRule actPtr e = map_option theRule (acts e actPtr)"

definition ActivationRuleName :: "addr \<Rightarrow> env \<Rightarrow> string option" where
  "ActivationRuleName actPtr e = do {
     A \<leftarrow> acts e actPtr; R \<leftarrow> rules e (theRule A); Some (rule_name R) }"

definition ActivationGetSalience :: "addr \<Rightarrow> env \<Rightarrow> int option" where
  "ActivationGetSalience actPtr e = map_option act_salience (acts e actPtr)"

definition ActivationSetSalience :: "addr \<Rightarrow> int \<Rightarrow> env \<Rightarrow> (int \<times> env) option" where
  "ActivationSetSalience actPtr value e = do {
     let v = (if value > MAX_DEFRULE_SALIENCE then MAX_DEFRULE_SALIENCE
              else if value < MIN_DEFRULE_SALIENCE then MIN_DEFRULE_SALIENCE else value);
     A \<leftarrow> acts e actPtr;
     e' \<leftarrow> upd_act (Some actPtr) (act_salience_update (\<lambda>_. v)) e;
     Some (act_salience A, e') }"

definition GetAgendaChanged :: "env \<Rightarrow> bool" where
  "GetAgendaChanged e = AgendaChanged (agendaD e)"

definition GetNumberOfActivations :: "env \<Rightarrow> u64" where
  "GetNumberOfActivations e = NumberOfActivations (agendaD e)"

definition AgendaClearFunction :: "env \<Rightarrow> env" where
  "AgendaClearFunction e = set_agendaD (\<lambda>d. d\<lparr>CurrentTimetag := 1\<rparr>) e"

section \<open>Removing many activations\<close>

partial_function (option) is_disjunct :: "env \<Rightarrow> rule_id \<Rightarrow> rule_id option \<Rightarrow> bool option" where
  "is_disjunct e r tempRule = (case tempRule of None \<Rightarrow> Some False
     | Some d \<Rightarrow> if r = d then Some True
                 else do { D \<leftarrow> rules e d; is_disjunct e r (disjunct D) })"

declare is_disjunct.simps [code]

partial_function (option) clear_rule_loop :: "rule_id \<Rightarrow> ptr \<Rightarrow> env \<Rightarrow> env option" where
  "clear_rule_loop rulePtr agendaPtr e = (case agendaPtr of None \<Rightarrow> Some e
     | Some a \<Rightarrow> do {
         A \<leftarrow> acts e a;
         b \<leftarrow> is_disjunct e (theRule A) (Some rulePtr);
         e' \<leftarrow> (if b then RemoveActivation a True True e else Some e);
         clear_rule_loop rulePtr (act_next A) e' })"

declare clear_rule_loop.simps [code]

definition ClearRuleFromAgenda :: "rule_id \<Rightarrow> env \<Rightarrow> env option" where
  "ClearRuleFromAgenda rulePtr e = do {
     R \<leftarrow> rules e rulePtr;
     item \<leftarrow> items e (whichModule R);
     clear_rule_loop rulePtr (agenda item) e }"

partial_function (option) remove_acts :: "ptr \<Rightarrow> env \<Rightarrow> env option" where
  "remove_acts theActivation e = (case theActivation of None \<Rightarrow> Some e
     | Some a \<Rightarrow> do {
         A \<leftarrow> acts e a;
         e' \<leftarrow> RemoveActivation a True True e;
         remove_acts (act_next A) e' })"

declare remove_acts.simps [code]

partial_function (option) free_groups :: "ptr \<Rightarrow> env \<Rightarrow> env option" where
  "free_groups theGroup e = (case theGroup of None \<Rightarrow> Some e
     | Some g \<Rightarrow> do {
         G \<leftarrow> grps e g;
         free_groups (grp_next G) (e\<lparr>grps := (grps e)(g := None)\<rparr>) })"

declare free_groups.simps [code]

definition RemoveAllActivations :: "env \<Rightarrow> env option" where
  "RemoveAllActivations e = do {
     m \<leftarrow> GetDefruleModuleItem None e;
     item \<leftarrow> items e m;
     e1 \<leftarrow> remove_acts (agenda item) e;
     m1 \<leftarrow> GetDefruleModuleItem None e1;
     item1 \<leftarrow> items e1 m1;
     free_groups (groupings item1) e1 }"

text \<open>The module given only names the environment; both lookups are of the current module.\<close>

definition DeleteAllActivations :: "module_id \<Rightarrow> env \<Rightarrow> env option" where
  "DeleteAllActivations theModule e = do {
     m \<leftarrow> GetDefruleModuleItem None e;
     item \<leftarrow> items e m;
     e1 \<leftarrow> remove_acts (agenda item) e;
     m1 \<leftarrow> GetDefruleModuleItem None e1;
     item1 \<leftarrow> items e1 m1;
     free_groups (groupings item1) e1 }"

section \<open>Reordering\<close>

partial_function (option) reorder_loop :: "module_id \<Rightarrow> ptr \<Rightarrow> env \<Rightarrow> env option" where
  "reorder_loop theModuleItem theActivation e = (case theActivation of None \<Rightarrow> Some e
     | Some a \<Rightarrow> do {
         A \<leftarrow> acts e a;
         e1 \<leftarrow> upd_act (Some a) (\<lambda>r. r\<lparr>act_next := None, act_prev := None\<rparr>) e;
         (theGroup, e2) \<leftarrow> ReuseOrCreateSalienceGroup theModuleItem (act_salience A) e1;
         e3 \<leftarrow> PlaceActivation theModuleItem a theGroup e2;
         reorder_loop theModuleItem (act_next A) e3 })"

declare reorder_loop.simps [code]

definition ReorderAgenda :: "module_id option \<Rightarrow> env \<Rightarrow> env option" where
  "ReorderAgenda theModule e = (case theModule of None \<Rightarrow> Some e
     | Some m \<Rightarrow> do {
         k \<leftarrow> GetDefruleModuleItem (Some m) e;
         item \<leftarrow> items e k;
         e1 \<leftarrow> upd_item k (agenda_update (\<lambda>_. None)) e;
         e2 \<leftarrow> free_groups (groupings item) e1;
         e3 \<leftarrow> upd_item k (groupings_update (\<lambda>_. None)) e2;
         reorder_loop k (agenda item) e3 })"

definition ReorderAllAgendas :: "env \<Rightarrow> env option" where
  "ReorderAllAgendas e = for_modules (\<lambda>m. ReorderAgenda (Some m)) (GetNextDefmodule None e) e"

definition GetStrategy :: "env \<Rightarrow> StrategyType" where
  "GetStrategy e = Strategy (agendaD e)"

definition SetStrategy :: "StrategyType \<Rightarrow> env \<Rightarrow> (StrategyType \<times> env) option" where
  "SetStrategy value e = do {
     let oldStrategy = Strategy (agendaD e);
     let e1 = set_agendaD (\<lambda>d. d\<lparr>Strategy := value\<rparr>) e;
     e2 \<leftarrow> (if oldStrategy \<noteq> Strategy (agendaD e1) then ReorderAllAgendas e1 else Some e1);
     Some (oldStrategy, e2) }"

definition strategy_named :: "string \<Rightarrow> StrategyType option" where
  "strategy_named argument =
     (if argument = ''depth'' then Some DEPTH_STRATEGY
      else if argument = ''breadth'' then Some BREADTH_STRATEGY
      else if argument = ''lex'' then Some LEX_STRATEGY
      else if argument = ''mea'' then Some MEA_STRATEGY
      else if argument = ''complexity'' then Some COMPLEXITY_STRATEGY
      else if argument = ''simplicity'' then Some SIMPLICITY_STRATEGY
      else if argument = ''random'' then Some RANDOM_STRATEGY
      else None)"

definition SetStrategyCommand :: "string option \<Rightarrow> env \<Rightarrow> (string \<times> env) option" where
  "SetStrategyCommand arg e = do {
     let old = GetStrategyName (GetStrategy e);
     (case arg of None \<Rightarrow> Some (old, e)
      | Some argument \<Rightarrow> (case strategy_named argument of
          Some s \<Rightarrow> do { (_, e') \<leftarrow> SetStrategy s e; Some (old, e') }
        | None \<Rightarrow> Some (old, say (InvalidArgument
            ''symbol with value depth, breadth, lex, mea, complexity, simplicity, or random'') e))) }"

section \<open>Refreshing\<close>

fun refresh_matches :: "rule_id \<Rightarrow> addr list \<Rightarrow> env \<Rightarrow> env option" where
  "refresh_matches rulePtr [] e = Some e"
| "refresh_matches rulePtr (b # bs) e = do {
     pm \<leftarrow> matches e b;
     j \<leftarrow> joins e (match_owner pm);
     e' \<leftarrow> (if ruleToActivate j \<noteq> None \<and> marker pm = None then AddActivation rulePtr b e else Some e);
     refresh_matches rulePtr bs e' }"

text \<open>The buckets of the beta memory of the last join, from the first to the last.\<close>

definition refresh_rule :: "rule_id \<Rightarrow> env \<Rightarrow> env option" where
  "refresh_rule rulePtr e = do {
     R \<leftarrow> rules e rulePtr;
     j \<leftarrow> joins e (lastJoin R);
     refresh_matches rulePtr (concat (leftMemory j)) e }"

partial_function (option) refresh_disjuncts :: "rule_id option \<Rightarrow> env \<Rightarrow> env option" where
  "refresh_disjuncts rulePtr e = (case rulePtr of None \<Rightarrow> Some e
     | Some r \<Rightarrow> do {
         e' \<leftarrow> refresh_rule r e;
         R \<leftarrow> rules e' r;
         refresh_disjuncts (disjunct R) e' })"

declare refresh_disjuncts.simps [code]

definition Refresh :: "rule_id \<Rightarrow> env \<Rightarrow> env option" where
  "Refresh rulePtr e = refresh_disjuncts (Some rulePtr) e"

partial_function (option) refresh_saliences :: "ptr \<Rightarrow> env \<Rightarrow> env option" where
  "refresh_saliences theActivation e = (case theActivation of None \<Rightarrow> Some e
     | Some a \<Rightarrow> do {
         A \<leftarrow> acts e a;
         (s, e1) \<leftarrow> EvaluateSalience (theRule A) e;
         e2 \<leftarrow> upd_act (Some a) (act_salience_update (\<lambda>_. s)) e1;
         n \<leftarrow> GetNextActivation (Some a) e2;
         refresh_saliences n e2 })"

declare refresh_saliences.simps [code]

definition RefreshAgenda :: "module_id option \<Rightarrow> env \<Rightarrow> env option" where
  "RefreshAgenda theModule e = (case theModule of None \<Rightarrow> Some e
     | Some m \<Rightarrow> do {
         let e1 = (if CurrentExpression (evalD e) = None then ResetErrorFlags e else e);
         let e2 = SaveCurrentModule e1;
         let oldValue = GetSalienceEvaluation e2;
         let e3 = snd (SetSalienceEvaluation WHEN_ACTIVATED e2);
         let e4 = snd (SetCurrentModule (Some m) e3);
         p \<leftarrow> GetNextActivation None e4;
         e5 \<leftarrow> refresh_saliences p e4;
         e6 \<leftarrow> ReorderAgenda (Some m) e5;
         RestoreCurrentModule (snd (SetSalienceEvaluation oldValue e6)) })"

definition RefreshAllAgendas :: "env \<Rightarrow> env option" where
  "RefreshAllAgendas e = for_modules (\<lambda>m. RefreshAgenda (Some m)) (GetNextDefmodule None e) e"

text \<open>The outer option is the presence of the argument.\<close>

definition RefreshAgendaCommand :: "string option option \<Rightarrow> env \<Rightarrow> env option" where
  "RefreshAgendaCommand arg e =
     (case arg of
        Some a \<Rightarrow> (case GetModuleName a e of ((error, theModule), e1) \<Rightarrow>
          if error then Some e1
          else if theModule = None then RefreshAllAgendas e1 else RefreshAgenda theModule e1)
      | None \<Rightarrow> if GetCurrentModule e = None then RefreshAllAgendas e
                else RefreshAgenda (GetCurrentModule e) e)"

end
