(* ===== verification/Agenda_Correct.thy ===== *)
theory Agenda_Correct
  imports Agenda_Ops
begin

text \<open>
  The operations of \<^verbatim>\<open>agenda.c\<close> refine operations on abstract agendas.  The representation
  is split in the chain of activations and the chain of groups, because the code updates
  them one after the other.
\<close>

section \<open>The two chains of an agenda\<close>

definition chain_rep :: "env \<Rightarrow> module_id \<Rightarrow> addr list \<Rightarrow> bool" where
  "chain_rep e m xs \<longleftrightarrow> (case items e m of None \<Rightarrow> False | Some it \<Rightarrow> agenda it = hdp xs None) \<and>
     dlseg (act_links (acts e)) None xs None \<and> distinct xs"

definition group_rep :: "env \<Rightarrow> module_id \<Rightarrow> agroup list \<Rightarrow> bool" where
  "group_rep e m gs \<longleftrightarrow> (case items e m of None \<Rightarrow> False | Some it \<Rightarrow> groupings it = hdp (gaddrs gs) None) \<and>
     dlseg (grp_links (grps e)) None (gaddrs gs) None \<and> distinct (gaddrs gs) \<and> falling gs \<and>
     (\<forall>g\<in>set gs. group_ends e g)"

definition members :: "env \<Rightarrow> module_id \<Rightarrow> agroup list \<Rightarrow> bool" where
  "members e m gs \<longleftrightarrow> (\<forall>g\<in>set gs. \<forall>x\<in>set (g_acts g). act_in e m (g_sal g) x)"

lemma agenda_rep_split:
  "agenda_rep e m gs \<longleftrightarrow> chain_rep e m (flat gs) \<and> group_rep e m gs \<and> members e m gs"
  by (auto simp: agenda_rep_def chain_rep_def group_rep_def members_def split: option.splits)

lemma group_rep_cong:
  assumes "group_rep e m gs" and "grps e' = grps e"
    and "map_option groupings (items e' m) = map_option groupings (items e m)"
  shows "group_rep e' m gs"
  using assms by (auto simp: group_rep_def group_ends_def split: option.splits)

lemma chain_rep_cong:
  assumes "chain_rep e m xs" and "acts e' = acts e"
    and "map_option agenda (items e' m) = map_option agenda (items e m)"
  shows "chain_rep e' m xs"
  using assms by (auto simp: chain_rep_def split: option.splits)

lemma members_cong:
  assumes "members e m gs" and "\<And>x. x \<in> set (flat gs) \<Longrightarrow> pays_of act_pay (acts e') x = pays_of act_pay (acts e) x"
    and "\<And>r. rule_module e' r = rule_module e r"
  shows "members e' m gs"
  using assms act_in_cong [of e' _ e] by (fastforce simp: members_def set_flat)

section \<open>Finding and creating salience groups\<close>

definition higher :: "int \<Rightarrow> agroup list \<Rightarrow> agroup list" where
  "higher s gs = takeWhile (\<lambda>g. g_sal g > s) gs"

definition lower :: "int \<Rightarrow> agroup list \<Rightarrow> agroup list" where
  "lower s gs = dropWhile (\<lambda>g. g_sal g > s) gs"

lemma higher_Cons: "higher s (g # gs) = (if g_sal g > s then g # higher s gs else [])"
  and lower_Cons: "lower s (g # gs) = (if g_sal g > s then lower s gs else g # gs)"
  by (simp_all add: higher_def lower_def)

lemma higher_lower: "higher s gs @ lower s gs = gs"
  by (simp add: higher_def lower_def)

lemma search_group_eq:
  assumes "dlseg (grp_links (grps e)) p (gaddrs gs) None" and "\<forall>g\<in>set gs. group_ends e g"
  shows "search_group e s l (hdp (gaddrs gs) None) = Some (case lower s gs of
       [] \<Rightarrow> Inr (lastp l (gaddrs (higher s gs)), None)
     | g # _ \<Rightarrow> if g_sal g = s then Inl (g_addr g)
               else Inr (lastp l (gaddrs (higher s gs)), Some (g_addr g)))"
  using assms
proof (induction gs arbitrary: p l)
  case Nil
  then show ?case by (simp add: search_group.simps higher_def lower_def)
next
  case (Cons g gs)
  obtain G where G: "grps e (g_addr g) = Some G" "grp_salience G = g_sal g"
    using Cons.prems(2) by (auto simp: group_ends_def split: option.splits)
  have nxt: "grp_next G = hdp (gaddrs gs) None"
    using Cons.prems(1) G(1) by (simp add: links_of_def)
  have IH: "search_group e s (Some (g_addr g)) (hdp (gaddrs gs) None) = Some (case lower s gs of
       [] \<Rightarrow> Inr (lastp (Some (g_addr g)) (gaddrs (higher s gs)), None)
     | g' # _ \<Rightarrow> if g_sal g' = s then Inl (g_addr g')
               else Inr (lastp (Some (g_addr g)) (gaddrs (higher s gs)), Some (g_addr g')))"
    using Cons.prems by (intro Cons.IH [of "Some (g_addr g)"]) auto
  show ?case
    by (subst search_group.simps; cases "g_sal g" s rule: linorder_cases)
      (simp_all add: G nxt IH higher_Cons lower_Cons cong: list.case_cong if_cong)
qed

lemma upd_if_swap:
  assumes "p = None \<or> p \<noteq> q" and "upd_if p f h = Some h1" and "upd_if q k h1 = Some h2"
  shows "\<exists>h3. upd_if q k h = Some h3 \<and> upd_if p f h3 = Some h2"
  using assms
  by (cases p; cases q) (auto simp: upd_at_def fun_upd_twist split: if_splits)

lemma falling_insert:
  assumes "falling gs" and "\<forall>g\<in>set gs. g_sal g \<noteq> s"
  shows "falling (higher s gs @ (a, s, xs) # lower s gs)"
proof -
  have hi: "\<forall>g\<in>set (higher s gs). g_sal g > s"
    by (auto simp: higher_def dest: set_takeWhileD)
  have lo: "\<forall>g\<in>set (lower s gs). g_sal g < s"
  proof (cases "lower s gs")
    case (Cons g ks)
    then have "\<not> g_sal g > s" using hd_dropWhile [of "\<lambda>g. g_sal g > s" gs] by (simp add: lower_def)
    moreover have "g \<in> set gs" using Cons higher_lower [of s gs] by (metis in_set_conv_decomp)
    ultimately have "g_sal g < s" using assms(2) by fastforce
    moreover have "falling (higher s gs @ g # ks)" using assms(1) Cons higher_lower [of s gs] by simp
    ultimately show ?thesis using Cons by (fastforce simp: falling_def sorted_wrt_append)
  qed simp
  have "falling (higher s gs @ lower s gs)" using assms(1) by (simp add: higher_lower)
  with hi lo show ?thesis by (fastforce simp: falling_def sorted_wrt_append)
qed

lemma falling_found:
  assumes "falling gs" and "g \<in> set gs" and "g_sal g = s"
  shows "\<exists>ks. lower s gs = g # ks"
proof -
  obtain hs ks where gs: "gs = hs @ g # ks" using assms(2) by (meson split_list)
  then have "\<forall>h\<in>set hs. g_sal h > s" using assms(1,3) by (auto simp: falling_def sorted_wrt_append)
  then show ?thesis using gs assms(3) by (simp add: lower_def)
qed

lemma group_ends_upd:
  "group_ends (e\<lparr>grps := k\<rparr>) g \<longleftrightarrow> (case pays_of grp_pay k (g_addr g) of None \<Rightarrow> False
     | Some G \<Rightarrow> grp_salience G = g_sal g \<and> grp_first G = hdp (g_acts g) None \<and> grp_last G = lastp None (g_acts g))"
  by (cases "k (g_addr g)") (simp_all add: group_ends_def pays_of_def grp_pay_def)

lemma group_ends_pays:
  "group_ends e g \<longleftrightarrow> (case pays_of grp_pay (grps e) (g_addr g) of None \<Rightarrow> False
     | Some G \<Rightarrow> grp_salience G = g_sal g \<and> grp_first G = hdp (g_acts g) None \<and> grp_last G = lastp None (g_acts g))"
  by (cases "grps e (g_addr g)") (simp_all add: group_ends_def pays_of_def grp_pay_def)

text \<open>Linking a new, empty group in between two parts of the list of groups.\<close>

lemma new_group_rep:
  assumes rep: "group_rep e m (hs @ ks)" and a: "grps e a = None"
    and fall: "falling (hs @ (a, s, []) # ks)" and item: "items e m = Some it"
  defines "N \<equiv> \<lparr>grp_salience = s, grp_first = None, grp_last = None,
     grp_next = hdp (gaddrs ks) None, grp_prev = lastp None (gaddrs hs)\<rparr>"
  shows "\<exists>k3 k2. upd_if (hdp (gaddrs ks) None) (grp_prev_update (\<lambda>_. Some a)) ((grps e)(a \<mapsto> N)) = Some k3 \<and>
    upd_if (lastp None (gaddrs hs)) (grp_next_update (\<lambda>_. Some a)) k3 = Some k2 \<and>
    (\<forall>g. g \<notin> set (gaddrs (hs @ (a, s, []) # ks)) \<longrightarrow> k2 g = grps e g) \<and>
    (\<forall>e'. grps e' = k2 \<longrightarrow> items e' m = Some (it\<lparr>groupings := hdp (gaddrs hs) (Some a)\<rparr>) \<longrightarrow>
       group_rep e' m (hs @ (a, s, []) # ks))"
proof -
  let ?P = "gaddrs hs" and ?S = "gaddrs ks" and ?k0 = "(grps e)(a \<mapsto> N)"
  have seg: "dlseg (grp_links (grps e)) None (?P @ ?S) None" and dist: "distinct (?P @ ?S)"
    using rep by (auto simp: group_rep_def)
  have notin: "a \<notin> set (?P @ ?S)" using dlseg_in_dom [OF seg] a by blast
  have seg0: "dlseg (grp_links ?k0) None (?P @ ?S) None"
    using seg notin by (simp del: dlseg_append)
  have dist0: "distinct (?P @ a # ?S)" using dist notin by auto
  obtain h1 h2 where h: "upd_if (lastp None ?P) (grp_next_update (\<lambda>_. Some a)) ?k0 = Some h1"
    "upd_if (hdp ?S None) (grp_prev_update (\<lambda>_. Some a)) h1 = Some h2"
    "dlseg (grp_links h2) None (?P @ a # ?S) None" "pays_of grp_pay h2 = pays_of grp_pay ?k0"
    "\<forall>g. g \<notin> set (?P @ ?S) \<longrightarrow> h2 g = ?k0 g"
    using grp.link_node [OF seg0 dist0, of N] by (auto simp: N_def)
  have neq: "lastp None ?P = None \<or> lastp None ?P \<noteq> hdp ?S None"
    using dist by (metis disjoint_iff distinct_append hdp_None_Some lastp_None_Some not_None_eq)
  obtain h3 where h3: "upd_if (hdp ?S None) (grp_prev_update (\<lambda>_. Some a)) ?k0 = Some h3"
    "upd_if (lastp None ?P) (grp_next_update (\<lambda>_. Some a)) h3 = Some h2"
    using upd_if_swap [OF neq h(1,2)] by blast
  have "group_rep e' m (hs @ (a, s, []) # ks)"
    if "grps e' = h2" "items e' m = Some (it\<lparr>groupings := hdp ?P (Some a)\<rparr>)" for e'
  proof -
    have "group_ends e' g" if g: "g \<in> set (hs @ (a, s, []) # ks)" for g
    proof (cases "g_addr g = a")
      case True
      then have "g = (a, s, [])" using g notin by (auto simp: gaddrs_def)
      then show ?thesis using \<open>grps e' = h2\<close> h(4) by (simp add: group_ends_pays N_def grp_pay_def)
    next
      case False
      then have "group_ends e g" using g rep by (auto simp: group_rep_def)
      then show ?thesis using \<open>grps e' = h2\<close> h(4) False by (simp add: group_ends_pays)
    qed
    then show ?thesis using that h(3) dist0 fall by (simp add: group_rep_def)
  qed
  moreover have "h2 g = grps e g" if "g \<notin> set (gaddrs (hs @ (a, s, []) # ks))" for g
    using that h(5) by simp
  ultimately show ?thesis using h3 by blast
qed

lemma members_new_group: "members e m (hs @ ks) \<Longrightarrow> members e m (hs @ (a, s, []) # ks)"
  by (auto simp: members_def)

text \<open>
  The group for salience \<open>s\<close>: the one that exists already, or a new empty one linked in
  where the saliences of the groups keep falling.
\<close>

lemma ReuseOrCreateSalienceGroup_eq:
  assumes rep: "agenda_rep e m gs" and fr: "grps e (fresh e) = None"
  shows "\<exists>g xs hs ks e'. ReuseOrCreateSalienceGroup m s e = Some (g, e') \<and>
    agenda_rep e' m (hs @ (g, s, xs) # ks) \<and> acts e' = acts e \<and> agendaD e' = agendaD e \<and>
    (gs = hs @ (g, s, xs) # ks \<and> e' = e \<or>
     gs = hs @ ks \<and> xs = [] \<and> g = fresh e \<and> fresh e' = fresh e + 1 \<and>
     local_step m {} (set (gaddrs (hs @ (g, s, xs) # ks))) e e')"
proof -
  have grp: "group_rep e m gs" and mem: "members e m gs" and chain: "chain_rep e m (flat gs)"
    using rep by (auto simp: agenda_rep_split)
  obtain it where it: "items e m = Some it" "groupings it = hdp (gaddrs gs) None" "agenda it = hdp (flat gs) None"
    using agenda_repD(1) [OF rep] by blast
  have search: "search_group e s None (groupings it) = Some (case lower s gs of
       [] \<Rightarrow> Inr (lastp None (gaddrs (higher s gs)), None)
     | g # _ \<Rightarrow> if g_sal g = s then Inl (g_addr g)
               else Inr (lastp None (gaddrs (higher s gs)), Some (g_addr g)))"
    unfolding it(2) using grp by (intro search_group_eq) (auto simp: group_rep_def)
  show ?thesis
  proof (cases "\<exists>g\<in>set gs. g_sal g = s")
    case True
    then obtain g ks where g: "lower s gs = g # ks" "g_sal g = s"
      using falling_found [OF agenda_repD(6) [OF rep]] by blast
    then have gs: "gs = higher s gs @ (g_addr g, s, g_acts g) # ks"
      using higher_lower [of s gs] by (metis prod.collapse)
    have "ReuseOrCreateSalienceGroup m s e = Some (g_addr g, e)"
      using g it(1) search by (simp add: ReuseOrCreateSalienceGroup_def)
    moreover have "agenda_rep e m (higher s gs @ (g_addr g, s, g_acts g) # ks)"
      using rep gs by (simp only:)
    ultimately show ?thesis using gs by blast
  next
    case False
    let ?hs = "higher s gs" and ?ks = "lower s gs" and ?a = "fresh e"
    let ?N = "\<lparr>grp_salience = s, grp_first = None, grp_last = None,
       grp_next = hdp (gaddrs ?ks) None, grp_prev = lastp None (gaddrs ?hs)\<rparr>"
    have fall: "falling (?hs @ (?a, s, []) # ?ks)"
      using falling_insert [OF agenda_repD(6) [OF rep]] False by blast
    have "group_rep e m (?hs @ ?ks)" using grp by (simp add: higher_lower)
    from new_group_rep [OF this fr fall it(1)] obtain k3 k2 where
      k: "upd_if (hdp (gaddrs ?ks) None) (grp_prev_update (\<lambda>_. Some ?a)) ((grps e)(?a \<mapsto> ?N)) = Some k3"
        "upd_if (lastp None (gaddrs ?hs)) (grp_next_update (\<lambda>_. Some ?a)) k3 = Some k2"
        "\<forall>g. g \<notin> set (gaddrs (?hs @ (?a, s, []) # ?ks)) \<longrightarrow> k2 g = grps e g"
      and rep': "\<And>e'. \<lbrakk>grps e' = k2; items e' m = Some (it\<lparr>groupings := hdp (gaddrs ?hs) (Some ?a)\<rparr>)\<rbrakk>
        \<Longrightarrow> group_rep e' m (?hs @ (?a, s, []) # ?ks)" by blast
    let ?e' = "e\<lparr>fresh := ?a + 1, grps := k2, items := (items e)(m \<mapsto> it\<lparr>groupings := hdp (gaddrs ?hs) (Some ?a)\<rparr>)\<rparr>"
    have found: "search_group e s None (groupings it) = Some (Inr (lastp None (gaddrs ?hs), hdp (gaddrs ?ks) None))"
    proof (cases "lower s gs")
      case (Cons g ks)
      then have "g \<in> set gs" using higher_lower [of s gs] by (metis in_set_conv_decomp)
      with Cons False search show ?thesis by auto
    qed (use search in simp)
    have grp_first: "it\<lparr>groupings := hdp (gaddrs ?hs) (Some ?a)\<rparr> = it" if "?hs \<noteq> []"
    proof -
      have "gaddrs gs = gaddrs ?hs @ gaddrs ?ks" using higher_lower [of s gs] by (metis gaddrs_simps(3))
      then have "groupings it = hdp (gaddrs ?hs) (Some ?a)" using it(2) that by (cases ?hs) auto
      then show ?thesis by simp
    qed
    have "ReuseOrCreateSalienceGroup m s e = Some (?a, ?e')"
    proof (cases "?hs = []")
      case True
      with it(1) found k(1,2) show ?thesis
        by (simp add: ReuseOrCreateSalienceGroup_def upd_grp_if_def heap_simps Let_def)
    next
      case neh: False
      with it(1) found k(1,2) show ?thesis
        by (simp add: ReuseOrCreateSalienceGroup_def upd_grp_if_def map_upd_triv grp_first Let_def)
    qed
    moreover have "agenda_rep ?e' m (?hs @ (?a, s, []) # ?ks)"
    proof -
      have fl: "flat (?hs @ (?a, s, []) # ?ks) = flat gs"
        using arg_cong [OF higher_lower [of s gs], of flat] by simp
      have "chain_rep ?e' m (flat (?hs @ (?a, s, []) # ?ks))"
        unfolding fl by (rule chain_rep_cong [OF chain]) (simp_all add: it(1))
      moreover have "members ?e' m (?hs @ (?a, s, []) # ?ks)"
        using mem
        by (intro members_cong [OF members_new_group [of e m ?hs ?ks]])
          (simp_all add: rule_module_def higher_lower)
      ultimately show ?thesis using rep' [of ?e'] by (simp add: agenda_rep_split)
    qed
    moreover have "local_step m {} (set (gaddrs (?hs @ (?a, s, []) # ?ks))) e ?e'"
      using k(3) it(1) by (auto simp: local_step_def intro: exI [of _ "AgendaChanged (agendaD e)"])
    moreover have "gs = ?hs @ ?ks" by (simp add: higher_lower)
    ultimately show ?thesis
      by (intro exI [of _ ?a] exI [of _ "[]"] exI [of _ ?hs] exI [of _ ?ks] exI [of _ ?e']) simp
  qed
qed

section \<open>Inserting an activation in an agenda\<close>

definition inserted :: "addr \<Rightarrow> int \<Rightarrow> agroup list \<Rightarrow> agroup list \<Rightarrow> bool" where
  "inserted n s gs gs' \<longleftrightarrow> (\<exists>hs g ys zs ks. gs' = hs @ (g, s, ys @ n # zs) # ks \<and>
     (gs = hs @ (g, s, ys @ zs) # ks \<or> gs = hs @ ks \<and> ys = [] \<and> zs = []))"

lemma inserted_mset: "inserted n s gs gs' \<Longrightarrow> mset (flat gs') = add_mset n (mset (flat gs))"
  by (auto simp: inserted_def)

lemma inserted_set: "inserted n s gs gs' \<Longrightarrow> set (flat gs') = insert n (set (flat gs))"
  by (auto simp: inserted_def)

definition agenda_ordered :: "env \<Rightarrow> StrategyType \<Rightarrow> agroup list \<Rightarrow> bool" where
  "agenda_ordered e st gs \<longleftrightarrow> (\<forall>g\<in>set gs. in_order e st (g_acts g))"

lemma agenda_ordered_simps [simp]:
  "agenda_ordered e st []"
  "agenda_ordered e st (g # gs) \<longleftrightarrow> in_order e st (g_acts g) \<and> agenda_ordered e st gs"
  "agenda_ordered e st (gs @ hs) \<longleftrightarrow> agenda_ordered e st gs \<and> agenda_ordered e st hs"
  by (auto simp: agenda_ordered_def)

lemma in_order_Nil [simp]: "in_order e st []"
  by (simp add: in_order_def)

lemma agenda_ordered_cong:
  assumes "same_network e e'" "\<And>x. x \<in> set (flat gs) \<Longrightarrow> pays_of act_pay (acts e') x = pays_of act_pay (acts e) x"
  shows "agenda_ordered e' st gs = agenda_ordered e st gs"
proof -
  have "in_order e' st (g_acts g) = in_order e st (g_acts g)" if "g \<in> set gs" for g
    using that assms(2) by (intro in_order_cong [OF assms(1)]) (auto simp: set_flat)
  then show ?thesis by (simp add: agenda_ordered_def)
qed

lemma local_step_network: "local_step m X K e e' \<Longrightarrow> same_network e e'"
  by (simp add: same_network_def local_step_fields)

text \<open>
  The two calls by which \<^verbatim>\<open>AddActivation\<close> and \<^verbatim>\<open>ReorderAgenda\<close> put an activation on an
  agenda.
\<close>

lemma insert_activation:
  assumes rep: "agenda_rep e m gs" and ne: "no_empty gs" and fr: "grps e (fresh e) = None"
    and N: "acts e n = Some N" "act_prev N = None" "n \<notin> set (flat gs)"
    and mem: "act_in e m s n" and okn: "act_ok_at e n" and ok: "\<forall>x\<in>set (flat gs). act_ok_at e x"
  shows "\<exists>g e1 e' gs'. ReuseOrCreateSalienceGroup m s e = Some (g, e1) \<and> PlaceActivation m n g e1 = Some e' \<and>
    agenda_rep e' m gs' \<and> no_empty gs' \<and> inserted n s gs gs' \<and>
    (\<forall>st. st = Strategy (agendaD e) \<longrightarrow> agenda_ordered e st gs \<longrightarrow> agenda_ordered e' st gs') \<and>
    local_step m (insert n (set (flat gs))) (set (gaddrs gs')) e e' \<and>
    pays_of act_pay (acts e') = pays_of act_pay (acts e) \<and> AgendaChanged (agendaD e') \<and>
    (gaddrs gs' = gaddrs gs \<and> fresh e' = fresh e \<or>
     set (gaddrs gs') = insert (fresh e) (set (gaddrs gs)) \<and> fresh e' = fresh e + 1)"
proof -
  obtain g xs hs ks e1 where e1: "ReuseOrCreateSalienceGroup m s e = Some (g, e1)"
    "agenda_rep e1 m (hs @ (g, s, xs) # ks)" "acts e1 = acts e" "agendaD e1 = agendaD e"
    "gs = hs @ (g, s, xs) # ks \<and> e1 = e \<or>
     gs = hs @ ks \<and> xs = [] \<and> g = fresh e \<and> fresh e1 = fresh e + 1 \<and>
     local_step m {} (set (gaddrs (hs @ (g, s, xs) # ks))) e e1"
    using ReuseOrCreateSalienceGroup_eq [OF rep fr, of s] by blast
  have fl: "set (flat (hs @ (g, s, xs) # ks)) = set (flat gs)" using e1(5) by auto
  have refl: "local_step m {} (set (gaddrs (hs @ (g, s, xs) # ks))) e e"
    by (auto simp: local_step_def intro: exI [of _ "AgendaChanged (agendaD e)"])
  have ls1: "local_step m {} (set (gaddrs (hs @ (g, s, xs) # ks))) e e1"
    using e1(5) refl by auto
  note net1 = local_step_network [OF ls1]
  have ne1: "no_empty hs" "no_empty ks" using e1(5) ne by auto
  have ok1: "act_ok_at e1 x = act_ok_at e x" for x
    using act_ok_at_cong [OF net1, of x] by (simp add: e1(3) pays_of_def)
  have mem1: "act_in e1 m s n"
    using mem act_in_cong [of e1 n e] same_network_rules(1) [OF net1] by (simp add: e1(3))
  have N1: "acts e1 n = Some N" "n \<notin> set (flat (hs @ (g, s, xs) # ks))" "act_ok_at e1 n"
    "\<forall>x\<in>set xs. act_ok_at e1 x"
    using N okn ok e1(3) fl by (auto simp: ok1)
  obtain e' ys zs where e': "xs = ys @ zs" "PlaceActivation m n g e1 = Some e'"
    "agenda_rep e' m (hs @ (g, s, ys @ n # zs) # ks)"
    "in_order e1 (Strategy (agendaD e1)) xs \<longrightarrow> in_order e1 (Strategy (agendaD e1)) (ys @ n # zs)"
    "local_step m (set (flat (hs @ (g, s, n # xs) # ks))) {g} e1 e'" "fresh e' = fresh e1"
    "AgendaChanged (agendaD e')" "pays_of act_pay (acts e') = pays_of act_pay (acts e1)"
    using PlaceActivation_insert [OF e1(2) ne1 N1(1) N(2) N1(2) mem1 N1(3,4)] by blast
  let ?gs' = "hs @ (g, s, ys @ n # zs) # ks"
  have ls: "local_step m (insert n (set (flat gs))) (set (gaddrs ?gs')) e e'"
    using local_step_trans [OF ls1 e'(5)] fl by (rule_tac local_step_mono) auto
  have pays: "pays_of act_pay (acts e') = pays_of act_pay (acts e)" using e'(8) e1(3) by simp
  have "agenda_ordered e' (Strategy (agendaD e)) ?gs'" if "agenda_ordered e (Strategy (agendaD e)) gs"
  proof -
    have "agenda_ordered e (Strategy (agendaD e)) (hs @ (g, s, xs) # ks)" using that e1(5) by auto
    then have "agenda_ordered e1 (Strategy (agendaD e)) (hs @ (g, s, xs) # ks)"
      by (subst agenda_ordered_cong [OF net1]) (simp_all add: e1(3))
    then have "agenda_ordered e1 (Strategy (agendaD e)) ?gs'"
      using e'(4) by (simp add: e1(4))
    then show ?thesis
      by (subst agenda_ordered_cong [OF local_step_network [OF e'(5)]]) (simp_all add: e'(8))
  qed
  moreover have "inserted n s gs ?gs'" unfolding inserted_def using e1(5) e'(1) by blast
  moreover have "no_empty ?gs'" using ne1 by simp
  moreover have "gaddrs ?gs' = gaddrs gs \<and> fresh e' = fresh e \<or>
     set (gaddrs ?gs') = insert (fresh e) (set (gaddrs gs)) \<and> fresh e' = fresh e + 1"
    using e1(5) e'(6) by auto
  ultimately show ?thesis using e1(1) e'(2,3,7) ls pays by blast
qed

end
