(* ===== verification/Agenda_Remove.thy ===== *)
theory Agenda_Remove
  imports Agenda_Correct
begin

text \<open>
  Removal of an activation from its group and from the chain of its agenda: the common part
  of \<^verbatim>\<open>RemoveActivation\<close> and \<^verbatim>\<open>DetachActivation\<close>.
\<close>

section \<open>Abstract removal\<close>

definition remove_act :: "addr \<Rightarrow> agroup list \<Rightarrow> agroup list" where
  "remove_act x gs = filter (\<lambda>g. g_acts g \<noteq> [])
     (map (\<lambda>g. (g_addr g, g_sal g, filter (\<lambda>y. y \<noteq> x) (g_acts g))) gs)"

lemma flat_remove_act: "flat (remove_act x gs) = filter (\<lambda>y. y \<noteq> x) (flat gs)"
  by (induction gs) (auto simp: remove_act_def filter_empty_conv)

lemma no_empty_remove_act: "no_empty (remove_act x gs)"
  by (simp add: no_empty_def remove_act_def)

lemma agenda_ordered_remove_act: "agenda_ordered e st gs \<Longrightarrow> agenda_ordered e st (remove_act x gs)"
  by (auto simp: agenda_ordered_def remove_act_def in_order_def sorted_wrt_map intro: sorted_wrt_filter)

lemma remove_act_idem: "\<lbrakk>x \<notin> set (flat gs); no_empty gs\<rbrakk> \<Longrightarrow> remove_act x gs = gs"
proof (induction gs)
  case (Cons g gs)
  then have "filter (\<lambda>y. y \<noteq> x) (g_acts g) = g_acts g" by (auto simp: filter_id_conv)
  with Cons show ?case by (simp add: remove_act_def)
qed (simp add: remove_act_def)

lemma remove_act_append: "remove_act x (gs @ hs) = remove_act x gs @ remove_act x hs"
  by (simp add: remove_act_def)

lemma remove_act_split:
  assumes "distinct (flat (hs @ (g, s, ys @ x # zs) # ks))" and "no_empty hs" "no_empty ks"
  shows "remove_act x (hs @ (g, s, ys @ x # zs) # ks) =
    hs @ (if ys @ zs = [] then [] else [(g, s, ys @ zs)]) @ ks"
proof -
  have "remove_act x [(g, s, ys @ x # zs)] = (if ys @ zs = [] then [] else [(g, s, ys @ zs)])"
  proof -
    have "x \<notin> set ys" "x \<notin> set zs" using assms(1) by auto
    then have "filter (\<lambda>y. y \<noteq> x) ys = ys" "filter (\<lambda>y. y \<noteq> x) zs = zs"
      by (metis (mono_tags, lifting) filter_True)+
    then show ?thesis by (simp add: remove_act_def)
  qed
  moreover have "remove_act x hs = hs" "remove_act x ks = ks"
    using assms by (auto intro: remove_act_idem)
  ultimately show ?thesis
    using remove_act_append [of x hs "(g, s, ys @ x # zs) # ks"] remove_act_append [of x "[(g, s, ys @ x # zs)]" ks]
    by simp
qed

lemma in_flatE:
  assumes "x \<in> set (flat gs)"
  obtains hs g s ys zs ks where "gs = hs @ (g, s, ys @ x # zs) # ks"
proof -
  obtain a where "a \<in> set gs" "x \<in> set (g_acts a)" using assms by (auto simp: set_flat)
  then show ?thesis using that by (metis prod.collapse split_list)
qed

section \<open>The group of the removed activation\<close>

lemma FindSalienceGroup_eq:
  assumes "agenda_rep e m gs" and "g \<in> set gs"
  shows "FindSalienceGroup m (g_sal g) e = Some (Some (g_addr g))"
proof -
  obtain it where it: "items e m = Some it" "groupings it = hdp (gaddrs gs) None"
    using agenda_repD(1) [OF assms(1)] by blast
  obtain ks where ks: "lower (g_sal g) gs = g # ks"
    using falling_found [OF agenda_repD(6) [OF assms(1)] assms(2)] by blast
  have "search_group e (g_sal g) None (hdp (gaddrs gs) None) = Some (Inl (g_addr g))"
    using search_group_eq [of e None gs "g_sal g" None] agenda_repD(3,7) [OF assms(1)] ks by auto
  with it show ?thesis by (simp add: FindSalienceGroup_def)
qed

lemma group_rep_drop:
  assumes rep: "group_rep e m (hs @ (g, s, xs) # ks)" and it: "items e m = Some it"
    and G: "grps e g = Some G"
  shows "\<exists>k1 k2. upd_if (lastp None (gaddrs hs)) (grp_next_update (\<lambda>_. hdp (gaddrs ks) None)) (grps e) = Some k1 \<and>
    upd_if (hdp (gaddrs ks) None) (grp_prev_update (\<lambda>_. lastp None (gaddrs hs))) k1 = Some k2 \<and>
    (\<forall>a. a \<notin> set (gaddrs (hs @ ks)) \<longrightarrow> k2 a = grps e a) \<and>
    (\<forall>e'. grps e' = k2(g := None) \<longrightarrow> items e' m = Some (it\<lparr>groupings := hdp (gaddrs (hs @ ks)) None\<rparr>) \<longrightarrow>
       group_rep e' m (hs @ ks))"
proof -
  let ?P = "gaddrs hs" and ?S = "gaddrs ks"
  have seg: "dlseg (grp_links (grps e)) None (?P @ g # ?S) None" and dist: "distinct (?P @ g # ?S)"
    and fall: "falling (hs @ (g, s, xs) # ks)"
    using rep by (auto simp: group_rep_def)
  obtain k1 k2 where k: "upd_if (lastp None ?P) (grp_next_update (\<lambda>_. hdp ?S None)) (grps e) = Some k1"
    "upd_if (hdp ?S None) (grp_prev_update (\<lambda>_. lastp None ?P)) k1 = Some k2"
    "dlseg (grp_links k2) None (?P @ ?S) None" "pays_of grp_pay k2 = pays_of grp_pay (grps e)"
    "\<forall>a. a \<notin> set (?P @ ?S) \<longrightarrow> k2 a = grps e a"
    using grp.unlink_node [OF seg dist] by blast
  have "group_rep e' m (hs @ ks)"
    if e': "grps e' = k2(g := None)" "items e' m = Some (it\<lparr>groupings := hdp (gaddrs (hs @ ks)) None\<rparr>)" for e'
  proof -
    have "group_ends e' h" if h: "h \<in> set (hs @ ks)" for h
    proof -
      have "g_addr h \<noteq> g" using h dist by (auto simp: gaddrs_def)
      moreover have "group_ends e h" using h rep by (auto simp: group_rep_def)
      ultimately show ?thesis using e'(1) k(4) by (simp add: group_ends_pays)
    qed
    moreover have "dlseg (grp_links (grps e')) None (gaddrs (hs @ ks)) None"
      using k(3) dist e'(1) by simp
    moreover have "falling (hs @ ks)" using fall by (simp add: falling_def sorted_wrt_append)
    ultimately show ?thesis using e' dist by (simp add: group_rep_def)
  qed
  with k show ?thesis by auto
qed

lemma group_rep_replace:
  assumes rep: "group_rep e m (hs @ (g, s, xs) # ks)" and it: "items e m = Some it"
    and G: "grps e g = Some G"
    and e': "grps e' = (grps e)(g \<mapsto> G\<lparr>grp_first := hdp ys None, grp_last := lastp None ys\<rparr>)" "items e' m = Some it"
  shows "group_rep e' m (hs @ (g, s, ys) # ks)"
proof -
  have "grp_links (grps e') = grp_links (grps e)"
    using G e'(1) by (auto simp: links_of_def)
  moreover have "group_ends e' h" if h: "h \<in> set (hs @ (g, s, ys) # ks)" for h
  proof (cases "h = (g, s, ys)")
    case True
    have "group_ends e (g, s, xs)" using rep by (auto simp: group_rep_def)
    with True show ?thesis using G e'(1) by (simp add: group_ends_def)
  next
    case False
    then have "g_addr h \<noteq> g" "group_ends e h" using h rep by (auto simp: group_rep_def gaddrs_def)
    then show ?thesis using e'(1) by (simp add: group_ends_def)
  qed
  moreover have "falling (hs @ (g, s, ys) # ks)"
    using rep by (simp add: group_rep_def falling_def sorted_wrt_append)
  ultimately show ?thesis using rep it e'(2) by (simp add: group_rep_def)
qed

lemma RemoveActivationFromGroup_eq:
  assumes rep: "agenda_rep e m (hs @ (g, s, ys @ x # zs) # ks)" and ne: "no_empty hs" "no_empty ks"
    and it: "items e m = Some it"
  defines "gs' \<equiv> hs @ (if ys @ zs = [] then [] else [(g, s, ys @ zs)]) @ ks"
  shows "\<exists>k. RemoveActivationFromGroup x m e =
      Some (e\<lparr>grps := k, items := (items e)(m \<mapsto> it\<lparr>groupings := hdp (gaddrs gs') None\<rparr>)\<rparr>) \<and>
    group_rep (e\<lparr>grps := k, items := (items e)(m \<mapsto> it\<lparr>groupings := hdp (gaddrs gs') None\<rparr>)\<rparr>) m gs' \<and>
    (\<forall>a. a \<notin> set (gaddrs (hs @ (g, s, ys @ x # zs) # ks)) \<longrightarrow> k a = grps e a) \<and>
    (g \<notin> set (gaddrs gs') \<longrightarrow> k g = None)"
proof -
  let ?gs = "hs @ (g, s, ys @ x # zs) # ks"
  have grp: "group_rep e m ?gs" and mem: "members e m ?gs" using rep by (auto simp: agenda_rep_split)
  have groupings: "groupings it = hdp (gaddrs ?gs) None" using it agenda_repD(1) [OF rep] by auto
  obtain A where A: "acts e x = Some A" "act_salience A = s"
    using mem by (auto simp: members_def act_in_def split: option.splits)
  have "dlseg (act_links (acts e)) None ((flat hs @ ys) @ x # (zs @ flat ks)) None"
    using agenda_repD(2) [OF rep] by simp
  from dlseg_node [OF this] A(1) have lnk: "act_prev A = lastp None (flat hs @ ys)" "act_next A = hdp (zs @ flat ks) None"
    by auto
  obtain G where G: "grps e g = Some G" "grp_first G = hdp (ys @ x # zs) None" "grp_last G = lastp None (ys @ x # zs)"
    using agenda_repD(7) [OF rep, of "(g, s, ys @ x # zs)"] by (auto simp: group_ends_def split: option.splits)
  have "dlseg (grp_links (grps e)) None (gaddrs hs @ g # gaddrs ks) None" using agenda_repD(3) [OF rep] by simp
  from dlseg_node [OF this] G(1) have glnk: "grp_prev G = lastp None (gaddrs hs)" "grp_next G = hdp (gaddrs ks) None"
    by auto
  have find: "FindSalienceGroup m s e = Some (Some g)"
    using FindSalienceGroup_eq [OF rep, of "(g, s, ys @ x # zs)"] by simp
  have dist: "distinct (ys @ x # zs)" using agenda_repD(4) [OF rep] by auto
  have first: "(Some x = grp_first G) = (ys = [])" using G(2) dist by (cases ys) auto
  have last: "(Some x = grp_last G) = (zs = [])" using G(3) dist by (cases zs rule: rev_cases) auto
  have code: "RemoveActivationFromGroup x m e =
    (if ys = [] then if zs = []
       then do {
         e1 \<leftarrow> (if hs = [] then upd_item m (groupings_update (\<lambda>_. hdp (gaddrs ks) None)) e
                else upd_grp (lastp None (gaddrs hs)) (grp_next_update (\<lambda>_. hdp (gaddrs ks) None)) e);
         e2 \<leftarrow> upd_grp_if (hdp (gaddrs ks) None) (grp_prev_update (\<lambda>_. lastp None (gaddrs hs))) e1;
         Some (e2\<lparr>grps := (grps e2)(g := None)\<rparr>) }
       else upd_grp (Some g) (grp_first_update (\<lambda>_. act_next A)) e
     else if zs = [] then upd_grp (Some g) (grp_last_update (\<lambda>_. act_prev A)) e else Some e)"
    by (simp add: RemoveActivationFromGroup_def A find G(1) first last glnk)
  show ?thesis
  proof (cases "ys @ zs = []")
    case True
    then have gs': "gs' = hs @ ks" by (simp add: gs'_def)
    obtain k1 k2 where k: "upd_if (lastp None (gaddrs hs)) (grp_next_update (\<lambda>_. hdp (gaddrs ks) None)) (grps e) = Some k1"
      "upd_if (hdp (gaddrs ks) None) (grp_prev_update (\<lambda>_. lastp None (gaddrs hs))) k1 = Some k2"
      "\<forall>a. a \<notin> set (gaddrs (hs @ ks)) \<longrightarrow> k2 a = grps e a"
      "\<And>e'. \<lbrakk>grps e' = k2(g := None); items e' m = Some (it\<lparr>groupings := hdp (gaddrs (hs @ ks)) None\<rparr>)\<rbrakk> \<Longrightarrow>
         group_rep e' m (hs @ ks)"
      using group_rep_drop [OF grp it G(1)] by blast
    let ?e' = "e\<lparr>grps := k2(g := None), items := (items e)(m \<mapsto> it\<lparr>groupings := hdp (gaddrs (hs @ ks)) None\<rparr>)\<rparr>"
    have "RemoveActivationFromGroup x m e = Some ?e'"
    proof (cases hs rule: rev_cases)
      case Nil
      with True k(1,2) it show ?thesis by (simp add: code upd_grp_if_def heap_simps)
    next
      case (snoc hs' h)
      have "it\<lparr>groupings := hdp (gaddrs (hs @ ks)) None\<rparr> = it" using groupings snoc by (cases hs') auto
      with True k(1,2) it snoc show ?thesis
        by (simp add: code upd_grp_if_def upd_grp_def map_upd_triv)
    qed
    moreover have "group_rep ?e' m (hs @ ks)" by (rule k(4)) simp_all
    ultimately show ?thesis using k(3) unfolding gs' by (intro exI [of _ "k2(g := None)"]) auto
  next
    case False
    then have gs': "gs' = hs @ (g, s, ys @ zs) # ks" by (simp add: gs'_def)
    have same: "it\<lparr>groupings := hdp (gaddrs gs') None\<rparr> = it" using groupings gs' by simp
    let ?k = "(grps e)(g \<mapsto> G\<lparr>grp_first := hdp (ys @ zs) None, grp_last := lastp None (ys @ zs)\<rparr>)"
    have "RemoveActivationFromGroup x m e = Some (e\<lparr>grps := ?k\<rparr>)"
    proof (cases "ys = []")
      case True
      have "hdp (zs @ flat ks) None = hdp zs None" using False True by (cases zs) auto
      moreover have "G\<lparr>grp_first := hdp zs None\<rparr> = G\<lparr>grp_first := hdp zs None, grp_last := lastp None zs\<rparr>"
        using True False G(3) by (cases zs rule: rev_cases) (auto intro: salienceGroup.equality)
      ultimately show ?thesis using True False G(1) lnk by (simp add: code heap_simps)
    next
      case ys: False
      show ?thesis
      proof (cases "zs = []")
        case True
        have "lastp None (flat hs @ ys) = lastp None ys" using ys by (simp add: lastp_last)
        moreover have "G\<lparr>grp_last := lastp None ys\<rparr> = G\<lparr>grp_first := hdp ys None, grp_last := lastp None ys\<rparr>"
          using ys G(2) by (cases ys) (auto intro: salienceGroup.equality)
        ultimately show ?thesis using True ys G(1) lnk by (simp add: code heap_simps)
      next
        case zs: False
        have "G\<lparr>grp_first := hdp (ys @ zs) None, grp_last := lastp None (ys @ zs)\<rparr> = G"
          using ys zs G(2,3) by (intro salienceGroup.equality) (auto simp: hdp_hd lastp_last)
        then show ?thesis using ys zs G(1) by (simp add: code map_upd_triv)
      qed
    qed
    moreover have "group_rep (e\<lparr>grps := ?k\<rparr>) m gs'"
      unfolding gs' by (rule group_rep_replace [OF grp it G(1)]) (simp_all add: it)
    moreover have "(items e)(m \<mapsto> it\<lparr>groupings := hdp (gaddrs gs') None\<rparr>) = items e"
      using it same by (simp add: map_upd_triv)
    ultimately show ?thesis by (intro exI [of _ ?k]) (simp add: gs')
  qed
qed

section \<open>The chain of activations\<close>

lemma unlink_eq:
  assumes chain: "chain_rep e m (P @ x # S)" and it: "items e m = Some it" and A: "acts e x = Some A"
  shows "\<exists>h. unlink_activation x m e =
      Some (e\<lparr>items := (items e)(m \<mapsto> it\<lparr>agenda := hdp (P @ S) None\<rparr>), acts := h\<rparr>) \<and>
    detach_links x m A e =
      Some (e\<lparr>items := (items e)(m \<mapsto> it\<lparr>agenda := hdp (P @ S) None\<rparr>), acts := h\<rparr>) \<and>
    dlseg (act_links h) None (P @ S) None \<and> pays_of act_pay h = pays_of act_pay (acts e) \<and>
    (\<forall>a. a \<notin> set (P @ S) \<longrightarrow> h a = acts e a)"
proof -
  have seg: "dlseg (act_links (acts e)) None (P @ x # S) None" and dist: "distinct (P @ x # S)"
    and ag: "agenda it = hdp (P @ x # S) None"
    using chain it by (auto simp: chain_rep_def)
  have lnk: "act_prev A = lastp None P" "act_next A = hdp S None"
    using dlseg_node [OF seg] A by auto
  obtain h1 h2 where h: "upd_if (lastp None P) (act_next_update (\<lambda>_. hdp S None)) (acts e) = Some h1"
    "upd_if (hdp S None) (act_prev_update (\<lambda>_. lastp None P)) h1 = Some h2"
    "dlseg (act_links h2) None (P @ S) None" "pays_of act_pay h2 = pays_of act_pay (acts e)"
    "\<forall>a. a \<notin> set (P @ S) \<longrightarrow> h2 a = acts e a"
    using act.unlink_node [OF seg dist] by blast
  let ?e' = "e\<lparr>items := (items e)(m \<mapsto> it\<lparr>agenda := hdp (P @ S) None\<rparr>), acts := h2\<rparr>"
  have "unlink_activation x m e = Some ?e' \<and> detach_links x m A e = Some ?e'"
  proof (cases P rule: rev_cases)
    case Nil
    with h(1,2) A lnk ag it show ?thesis
      by (simp add: unlink_activation_def detach_links_def heap_simps upd_act_if_def)
  next
    case (snoc P' a)
    have same: "it\<lparr>agenda := hdp (P @ S) None\<rparr> = it" and notop: "Some x \<noteq> agenda it"
      using ag snoc dist by (cases P'; auto)+
    have "(items e)(m \<mapsto> it) = items e" using it by (simp add: map_upd_triv)
    with snoc h(1,2) A lnk it same notop show ?thesis
      by (simp add: unlink_activation_def detach_links_def upd_act_def upd_act_if_def)
  qed
  with h show ?thesis by blast
qed

section \<open>Taking an activation off its agenda\<close>

lemma take_off:
  assumes rep: "agenda_rep e m gs" and ne: "no_empty gs" and x: "x \<in> set (flat gs)" and A: "acts e x = Some A"
  shows "\<exists>e1 e2. RemoveActivationFromGroup x m e = Some e1 \<and> unlink_activation x m e1 = Some e2 \<and>
    detach_links x m A e1 = Some e2 \<and> agenda_rep e2 m (remove_act x gs) \<and>
    local_step m (set (flat gs) - {x}) (set (gaddrs gs)) e e2 \<and> agendaD e2 = agendaD e \<and> fresh e2 = fresh e \<and>
    pays_of act_pay (acts e2) = pays_of act_pay (acts e) \<and>
    (\<forall>g\<in>set (gaddrs gs) - set (gaddrs (remove_act x gs)). grps e2 g = None)"
proof -
  obtain hs g s ys zs ks where gs: "gs = hs @ (g, s, ys @ x # zs) # ks" using in_flatE [OF x] .
  have ne': "no_empty hs" "no_empty ks" using ne gs by auto
  let ?P = "flat hs @ ys" and ?S = "zs @ flat ks"
  have fl: "flat gs = ?P @ x # ?S" using gs by simp
  obtain it where it: "items e m = Some it" using agenda_repD(1) [OF rep] by blast
  have dist: "distinct (flat gs)" using agenda_repD(4) [OF rep] .
  define gs' where "gs' = hs @ (if ys @ zs = [] then [] else [(g, s, ys @ zs)]) @ ks"
  have rm: "remove_act x gs = gs'"
    using remove_act_split [of hs g s ys x zs ks] dist ne' gs by (simp add: gs'_def)
  have sub: "set (gaddrs gs') \<subseteq> set (gaddrs gs)" "set (gaddrs gs) \<subseteq> insert g (set (gaddrs gs'))"
    by (auto simp: gs gs'_def)
  let ?it1 = "it\<lparr>groupings := hdp (gaddrs gs') None\<rparr>"
  obtain k where k: "RemoveActivationFromGroup x m e = Some (e\<lparr>grps := k, items := (items e)(m \<mapsto> ?it1)\<rparr>)"
    "group_rep (e\<lparr>grps := k, items := (items e)(m \<mapsto> ?it1)\<rparr>) m gs'"
    "\<forall>a. a \<notin> set (gaddrs gs) \<longrightarrow> k a = grps e a" "g \<notin> set (gaddrs gs') \<longrightarrow> k g = None"
    using RemoveActivationFromGroup_eq [OF rep [unfolded gs] ne' it] unfolding gs gs'_def by blast
  let ?e1 = "e\<lparr>grps := k, items := (items e)(m \<mapsto> ?it1)\<rparr>"
  have chain1: "chain_rep ?e1 m (?P @ x # ?S)"
    using rep unfolding agenda_rep_split fl by (auto intro: chain_rep_cong simp: it)
  obtain h where h: "unlink_activation x m ?e1 = Some (?e1\<lparr>items := (items ?e1)(m \<mapsto> ?it1\<lparr>agenda := hdp (?P @ ?S) None\<rparr>), acts := h\<rparr>)"
    "detach_links x m A ?e1 = Some (?e1\<lparr>items := (items ?e1)(m \<mapsto> ?it1\<lparr>agenda := hdp (?P @ ?S) None\<rparr>), acts := h\<rparr>)"
    "dlseg (act_links h) None (?P @ ?S) None" "pays_of act_pay h = pays_of act_pay (acts e)"
    "\<forall>a. a \<notin> set (?P @ ?S) \<longrightarrow> h a = acts e a"
    using unlink_eq [OF chain1, of ?it1 A] A by auto
  let ?e2 = "?e1\<lparr>items := (items ?e1)(m \<mapsto> ?it1\<lparr>agenda := hdp (?P @ ?S) None\<rparr>), acts := h\<rparr>"
  have fl': "flat gs' = ?P @ ?S" by (simp add: gs'_def)
  have "agenda_rep ?e2 m gs'"
    unfolding agenda_rep_split
  proof (intro conjI)
    show "chain_rep ?e2 m (flat gs')"
      unfolding fl' using h(3) dist fl by (simp add: chain_rep_def)
    show "group_rep ?e2 m gs'" by (rule group_rep_cong [OF k(2)]) simp_all
    have "members e m gs'" using rep by (auto simp: agenda_rep_split members_def gs gs'_def split: if_splits)
    then show "members ?e2 m gs'" by (rule members_cong) (simp_all add: h(4) rule_module_def)
  qed
  moreover have "local_step m (set (flat gs) - {x}) (set (gaddrs gs)) e ?e2"
    using h(5) k(3) it dist unfolding fl
    by (auto simp: local_step_def intro: exI [of _ "AgendaChanged (agendaD e)"])
  moreover have "\<forall>a\<in>set (gaddrs gs) - set (gaddrs gs'). grps ?e2 a = None"
    using k(4) sub by auto
  ultimately show ?thesis using k(1) h unfolding rm by (intro exI [of _ ?e1] exI [of _ ?e2]) simp
qed

end
