(* ===== verification/Agenda_Invariant.thy ===== *)
theory Agenda_Invariant
  imports Agenda_Remove
begin

text \<open>
  The invariant that ties the agendas of all modules, the partial matches of the join
  network and the counters of the agenda data together, and the proof that creating,
  adding, removing and detaching activations preserve it.
\<close>

section \<open>Salience evaluation\<close>

text \<open>What the salience of a rule is, without the error reporting of the code.\<close>

definition salience_of :: "env \<Rightarrow> defrule \<Rightarrow> int" where
  "salience_of e R = (case dynamicSalience R of None \<Rightarrow> rule_salience R
     | Some x \<Rightarrow> if GetSalienceEvaluation e = WHEN_DEFINED then rule_salience R
        else (case dynValue e x of IntegerValue v \<Rightarrow>
                if MIN_DEFRULE_SALIENCE \<le> v \<and> v \<le> MAX_DEFRULE_SALIENCE then v else rule_salience R
              | _ \<Rightarrow> rule_salience R))"

lemma salience_of_cong:
  "\<lbrakk>GetSalienceEvaluation e' = GetSalienceEvaluation e; dynValue e' = dynValue e\<rbrakk> \<Longrightarrow>
     salience_of e' R = salience_of e R"
  by (simp only: salience_of_def)

definition eval_frame :: "env \<Rightarrow> env \<Rightarrow> bool" where
  "eval_frame e e' \<longleftrightarrow> e'\<lparr>rules := rules e, evalD := evalD e, messages := messages e\<rparr> = e"

lemma EvaluateSalience_eq:
  assumes "rules e r = Some R"
  shows "\<exists>e'. EvaluateSalience r e = Some (salience_of e R, e') \<and> eval_frame e e' \<and>
    rules e' = (rules e)(r \<mapsto> R\<lparr>rule_salience := salience_of e R\<rparr>)"
proof -
  have triv: "(rules e)(r \<mapsto> R) = rules e" using assms by (simp add: map_upd_triv)
  note defs = EvaluateSalience_def salience_of_def eval_frame_def SetEvaluationError_def set_evalD_def
    say_def GetSalienceEvaluation_def Let_def triv assms
  show ?thesis
  proof (cases "dynamicSalience R")
    case (Some x)
    show ?thesis
    proof (cases "dynValue e x")
      case (IntegerValue v)
      with Some assms show ?thesis
        by (cases "GetSalienceEvaluation e = WHEN_DEFINED"; cases "v > MAX_DEFRULE_SALIENCE \<or> v < MIN_DEFRULE_SALIENCE")
          (auto simp: defs heap_simps)
    qed (use Some in \<open>auto simp: defs\<close>)
  qed (auto simp: defs)
qed

lemma eval_frame_fields:
  assumes "eval_frame e e'"
  shows "acts e' = acts e" "grps e' = grps e" "fresh e' = fresh e" "items e' = items e"
    "matches e' = matches e" "joins e' = joins e" "entities e' = entities e" "agendaD e' = agendaD e"
    "engineD e' = engineD e" "moduleD e' = moduleD e" "clearFlags e' = clearFlags e"
    "dynValue e' = dynValue e" "genrand e' = genrand e" "genrandPos e' = genrandPos e"
proof -
  have u: "e'\<lparr>rules := rules e, evalD := evalD e, messages := messages e\<rparr> = e"
    using assms by (simp add: eval_frame_def)
  from arg_cong [OF u, of acts] show "acts e' = acts e" by simp
  from arg_cong [OF u, of grps] show "grps e' = grps e" by simp
  from arg_cong [OF u, of fresh] show "fresh e' = fresh e" by simp
  from arg_cong [OF u, of items] show "items e' = items e" by simp
  from arg_cong [OF u, of matches] show "matches e' = matches e" by simp
  from arg_cong [OF u, of joins] show "joins e' = joins e" by simp
  from arg_cong [OF u, of entities] show "entities e' = entities e" by simp
  from arg_cong [OF u, of agendaD] show "agendaD e' = agendaD e" by simp
  from arg_cong [OF u, of engineD] show "engineD e' = engineD e" by simp
  from arg_cong [OF u, of moduleD] show "moduleD e' = moduleD e" by simp
  from arg_cong [OF u, of clearFlags] show "clearFlags e' = clearFlags e" by simp
  from arg_cong [OF u, of dynValue] show "dynValue e' = dynValue e" by simp
  from arg_cong [OF u, of genrand] show "genrand e' = genrand e" by simp
  from arg_cong [OF u, of genrandPos] show "genrandPos e' = genrandPos e" by simp
qed

lemma salience_of_bounds:
  assumes "MIN_DEFRULE_SALIENCE \<le> rule_salience R" "rule_salience R \<le> MAX_DEFRULE_SALIENCE"
  shows "MIN_DEFRULE_SALIENCE \<le> salience_of e R \<and> salience_of e R \<le> MAX_DEFRULE_SALIENCE"
  using assms by (auto simp: salience_of_def split: option.splits eval_result.splits)

section \<open>The invariant\<close>

text \<open>
  The partial match of activation \<open>x\<close> points back at it.
\<close>

definition marked :: "env \<Rightarrow> addr \<Rightarrow> bool" where
  "marked e x \<longleftrightarrow> (case acts e x of None \<Rightarrow> False | Some A \<Rightarrow>
     (case deref (matches e) (basis A) of None \<Rightarrow> False | Some pm \<Rightarrow> marker pm = Some x))"

lemma marked_cong: "\<lbrakk>acts e' x = acts e x; matches e' = matches e\<rbrakk> \<Longrightarrow> marked e' x = marked e x"
  by (simp only: marked_def)

text \<open>
  \<open>agendas_ok e F\<close>: every module item represents the abstract agenda \<open>F m\<close> without empty
  groups, no two modules share a group, every allocated group is on an agenda, addresses
  from \<open>fresh\<close> on are free, every activation on an agenda has a sound partial match that
  points back at it, and the counter counts the allocated activations.
\<close>

definition agendas_ok :: "env \<Rightarrow> (module_id \<Rightarrow> agroup list) \<Rightarrow> bool" where
  "agendas_ok e F \<longleftrightarrow>
     (\<forall>m. (case items e m of None \<Rightarrow> F m = [] | Some _ \<Rightarrow> agenda_rep e m (F m) \<and> no_empty (F m))) \<and>
     (\<forall>m k. m \<noteq> k \<longrightarrow> set (gaddrs (F m)) \<inter> set (gaddrs (F k)) = {}) \<and>
     (\<forall>a\<ge>fresh e. acts e a = None \<and> grps e a = None) \<and>
     (\<forall>g. grps e g \<noteq> None \<longrightarrow> (\<exists>m. g \<in> set (gaddrs (F m)))) \<and>
     (\<forall>m. \<forall>x\<in>set (flat (F m)). act_ok_at e x \<and> marked e x) \<and>
     (\<forall>r R. rules e r = Some R \<longrightarrow> items e (whichModule R) \<noteq> None) \<and>
     NumberOfActivations (agendaD e) = of_nat (card (dom (acts e)))"

definition ordered :: "env \<Rightarrow> (module_id \<Rightarrow> agroup list) \<Rightarrow> bool" where
  "ordered e F \<longleftrightarrow> (\<forall>m. agenda_ordered e (Strategy (agendaD e)) (F m))"

lemma agendas_okD:
  assumes "agendas_ok e F"
  shows "items e m \<noteq> None \<Longrightarrow> agenda_rep e m (F m)" and "no_empty (F m)"
    and "items e m = None \<Longrightarrow> F m = []"
    and "m \<noteq> k \<Longrightarrow> set (gaddrs (F m)) \<inter> set (gaddrs (F k)) = {}"
    and "a \<ge> fresh e \<Longrightarrow> acts e a = None" and "a \<ge> fresh e \<Longrightarrow> grps e a = None"
    and "grps e g \<noteq> None \<Longrightarrow> \<exists>m. g \<in> set (gaddrs (F m))"
    and "x \<in> set (flat (F m)) \<Longrightarrow> act_ok_at e x" and "x \<in> set (flat (F m)) \<Longrightarrow> marked e x"
    and "rules e r = Some R \<Longrightarrow> items e (whichModule R) \<noteq> None"
    and "NumberOfActivations (agendaD e) = of_nat (card (dom (acts e)))"
proof -
  have "case items e m of None \<Rightarrow> F m = [] | Some _ \<Rightarrow> agenda_rep e m (F m) \<and> no_empty (F m)"
    using assms by (simp add: agendas_ok_def)
  then show "items e m \<noteq> None \<Longrightarrow> agenda_rep e m (F m)" and "no_empty (F m)"
    and "items e m = None \<Longrightarrow> F m = []"
    by (auto split: option.splits)
qed (use assms in \<open>simp_all add: agendas_ok_def\<close>)

lemma agendas_okI:
  assumes "\<And>m. items e m \<noteq> None \<Longrightarrow> agenda_rep e m (F m) \<and> no_empty (F m)"
    and "\<And>m. items e m = None \<Longrightarrow> F m = []"
    and "\<And>m k. m \<noteq> k \<Longrightarrow> set (gaddrs (F m)) \<inter> set (gaddrs (F k)) = {}"
    and "\<And>a. a \<ge> fresh e \<Longrightarrow> acts e a = None \<and> grps e a = None"
    and "\<And>g. grps e g \<noteq> None \<Longrightarrow> \<exists>m. g \<in> set (gaddrs (F m))"
    and "\<And>m x. x \<in> set (flat (F m)) \<Longrightarrow> act_ok_at e x \<and> marked e x"
    and "\<And>r R. rules e r = Some R \<Longrightarrow> items e (whichModule R) \<noteq> None"
    and "NumberOfActivations (agendaD e) = of_nat (card (dom (acts e)))"
  shows "agendas_ok e F"
  using assms unfolding agendas_ok_def by (auto split: option.splits)

lemma on_agenda:
  assumes "agendas_ok e F" and "x \<in> set (flat (F m))"
  shows "agenda_rep e m (F m)" "\<exists>A R. acts e x = Some A \<and> rules e (theRule A) = Some R \<and> whichModule R = m"
proof -
  have "items e m \<noteq> None"
    using assms agendas_okD(3) [OF assms(1), of m] by (cases "items e m = None") simp_all
  then show rep: "agenda_rep e m (F m)" by (rule agendas_okD(1) [OF assms(1)])
  then show "\<exists>A R. acts e x = Some A \<and> rules e (theRule A) = Some R \<and> whichModule R = m"
    using agenda_rep_act_in [OF rep assms(2)] by (auto simp: act_in_def rule_module_def split: option.splits)
qed

lemma agendas_disjoint:
  assumes "agendas_ok e F" and "m \<noteq> k"
  shows "set (flat (F m)) \<inter> set (flat (F k)) = {}"
proof (cases "items e m = None \<or> items e k = None")
  case True
  then show ?thesis using agendas_okD(3) [OF assms(1)] by auto
next
  case False
  then show ?thesis using agendas_okD(1) [OF assms(1)] agenda_rep_disjoint assms(2) by metis
qed

lemma gaddrs_allocated:
  assumes "agendas_ok e F" and "g \<in> set (gaddrs (F m))"
  shows "grps e g \<noteq> None"
proof -
  have "items e m \<noteq> None"
    using assms agendas_okD(3) [OF assms(1), of m] by (cases "items e m = None") simp_all
  then have "agenda_rep e m (F m)" by (rule agendas_okD(1) [OF assms(1)])
  then show ?thesis using dlseg_in_dom [OF agenda_repD(3) assms(2)] by blast
qed

lemma finite_acts: "agendas_ok e F \<Longrightarrow> finite (dom (acts e))"
proof -
  assume ok: "agendas_ok e F"
  have "dom (acts e) \<subseteq> {..<fresh e}"
    using agendas_okD(5) [OF ok] by (metis domIff lessThan_iff not_le subsetI)
  then show ?thesis by (rule finite_subset) simp
qed

section \<open>Steps on one agenda\<close>

text \<open>
  A step on the agenda of module \<open>m\<close> that leaves the other agendas alone keeps the parts of
  the invariant that speak of all modules.
\<close>

lemma agendas_ok_step:
  assumes ok: "agendas_ok e F" and m: "items e m \<noteq> None"
    and ls: "local_step m X K e e'" and rep: "agenda_rep e' m gs'" and ne: "no_empty gs'"
    and X: "\<And>k. k \<noteq> m \<Longrightarrow> set (flat (F k)) \<inter> X = {}" and K: "K \<subseteq> set (gaddrs (F m)) \<union> set (gaddrs gs')"
    and new: "\<And>g. g \<in> set (gaddrs gs') - set (gaddrs (F m)) \<Longrightarrow> fresh e \<le> g \<and> g < fresh e'"
    and freed: "\<And>g. g \<in> set (gaddrs (F m)) - set (gaddrs gs') \<Longrightarrow> grps e' g = None"
    and acts: "\<And>a. acts e' a = None \<longleftrightarrow> acts e a = None"
    and pays: "\<And>a. pays_of act_pay (acts e') a = pays_of act_pay (acts e) a"
    and mem: "\<And>x. x \<in> set (flat gs') \<Longrightarrow> act_ok_at e x \<and> marked e x"
  shows "agendas_ok e' (F(m := gs'))"
proof (rule agendas_okI)
  note f = local_step_fields [OF ls]
  note net = local_step_network [OF ls]
  have it: "items e' k = items e k" if "k \<noteq> m" for k using ls that by (simp add: local_step_def)
  have m': "items e' m \<noteq> None" using agenda_repD(1) [OF rep] by auto
  have Kk: "set (gaddrs (F k)) \<inter> (set (gaddrs (F m)) \<union> set (gaddrs gs')) = {}" if "k \<noteq> m" for k
  proof -
    have "g < fresh e" if "g \<in> set (gaddrs (F k))" for g
      using gaddrs_allocated [OF ok that] agendas_okD(6) [OF ok, of g] by (metis not_le)
    then show ?thesis using agendas_okD(4) [OF ok that] new by fastforce
  qed
  show "agenda_rep e' k ((F(m := gs')) k) \<and> no_empty ((F(m := gs')) k)" if "items e' k \<noteq> None" for k
  proof (cases "k = m")
    case False
    have "agenda_rep e' k (F k)"
      using agendas_okD(1) [OF ok, of k] it [OF False] that X [OF False] Kk [OF False] K False
      by (intro local_step_other [OF ls]) auto
    with False show ?thesis using agendas_okD(2) [OF ok] by simp
  qed (simp add: rep ne)
  show "(F(m := gs')) k = []" if "items e' k = None" for k
    using that m' it agendas_okD(3) [OF ok] by (cases "k = m") auto
  show "set (gaddrs ((F(m := gs')) k)) \<inter> set (gaddrs ((F(m := gs')) l)) = {}" if "k \<noteq> l" for k l
    using that agendas_okD(4) [OF ok that] Kk by (cases "k = m"; cases "l = m") auto
  have K': "grps e' g = grps e g" if "g \<notin> K" for g using ls that by (simp add: local_step_def)
  show "acts e' a = None \<and> grps e' a = None" if "a \<ge> fresh e'" for a
  proof -
    have le: "fresh e \<le> a" using f(13) that by simp
    have "a \<notin> set (gaddrs (F m))" using gaddrs_allocated [OF ok, of a m] agendas_okD(6) [OF ok le] by blast
    then have "a \<notin> K" using new [of a] that K by auto
    then show ?thesis using K' agendas_okD(5,6) [OF ok le] acts by simp
  qed
  show "\<exists>k. g \<in> set (gaddrs ((F(m := gs')) k))" if "grps e' g \<noteq> None" for g
  proof (cases "g \<in> set (gaddrs gs')")
    case False
    then have "g \<notin> set (gaddrs (F m))" using freed [of g] that by auto
    then have "g \<notin> K" using K False by auto
    then have "grps e g \<noteq> None" using K' that by metis
    then obtain k where "g \<in> set (gaddrs (F k))" using agendas_okD(7) [OF ok] by blast
    with \<open>g \<notin> set (gaddrs (F m))\<close> show ?thesis by (intro exI [of _ k]) auto
  qed (auto intro: exI [of _ m])
  have marked: "marked e' x = marked e x" for x
    using pays [of x] unfolding marked_def pays_of_def f(2)
    by (cases "acts e' x"; cases "acts e x") (auto dest!: act_pay_eqD)
  show "act_ok_at e' x \<and> marked e' x" if "x \<in> set (flat ((F(m := gs')) k))" for k x
    using that mem [of x] agendas_okD(8,9) [OF ok, of x k] act_ok_at_cong [OF net pays] marked
    by (cases "k = m") auto
  show "items e' (whichModule R) \<noteq> None" if "rules e' r = Some R" for r R
    using that m' it [of "whichModule R"] agendas_okD(10) [OF ok, of r R] f(1) by (cases "whichModule R = m") auto
  have "dom (acts e') = dom (acts e)" using acts by (simp add: set_eq_iff domIff del: not_None_eq)
  then show "NumberOfActivations (agendaD e') = of_nat (card (dom (acts e')))"
    using agendas_okD(11) [OF ok] f(15) by simp
qed

section \<open>Creating an activation\<close>

lemma CreateActivation_eq:
  assumes R: "rules e r = Some R" and pm: "matches e b = Some pm"
  defines "s \<equiv> salience_of e R"
  shows "\<exists>e'. CreateActivation r b e = Some (fresh e, s, e') \<and>
    acts e' = (acts e)(fresh e \<mapsto> \<lparr>theRule = r, basis = Some b, act_salience = s,
      act_timetag = CurrentTimetag (agendaD e), randomID = genrand e (genrandPos e),
      act_prev = None, act_next = None\<rparr>) \<and>
    matches e' = (matches e)(b \<mapsto> pm\<lparr>marker := Some (fresh e)\<rparr>) \<and>
    rules e' = (rules e)(r \<mapsto> R\<lparr>rule_salience := s\<rparr>) \<and> fresh e' = fresh e + 1 \<and>
    grps e' = grps e \<and> items e' = items e \<and> joins e' = joins e \<and> entities e' = entities e \<and>
    engineD e' = engineD e \<and> moduleD e' = moduleD e \<and>
    agendaD e' = (agendaD e)\<lparr>CurrentTimetag := CurrentTimetag (agendaD e) + 1,
      NumberOfActivations := NumberOfActivations (agendaD e) + 1\<rparr>"
proof -
  let ?e1 = "set_agendaD (\<lambda>d. d\<lparr>CurrentTimetag := CurrentTimetag d + 1\<rparr>) (e\<lparr>fresh := fresh e + 1\<rparr>)"
  have "salience_of ?e1 R = s"
    unfolding s_def by (rule salience_of_cong) (simp_all add: set_agendaD_def GetSalienceEvaluation_def)
  then obtain e2 where e2: "EvaluateSalience r ?e1 = Some (s, e2)" "eval_frame ?e1 e2"
    "rules e2 = (rules e)(r \<mapsto> R\<lparr>rule_salience := s\<rparr>)"
    using EvaluateSalience_eq [of ?e1 r R] R by (auto simp: set_agendaD_def)
  note f = eval_frame_fields [OF e2(2)]
  have ev: "EvaluateSalience r (e\<lparr>fresh := Suc (fresh e),
      agendaD := (agendaD e)\<lparr>CurrentTimetag := CurrentTimetag (agendaD e) + 1\<rparr>\<rparr>) = Some (s, e2)"
    using e2(1) by (simp add: set_agendaD_def)
  have "matches e2 b = Some pm" using f(5) pm by (simp add: set_agendaD_def)
  then show ?thesis
    using f by (simp add: CreateActivation_def e2(3) ev Let_def gen_rand_def heap_simps set_agendaD_def)
qed

lemma match_ok_marker: "match_ok e (pm\<lparr>marker := q\<rparr>) = match_ok e pm"
  by (simp add: match_ok_def)

lemma fresh_not_on_agenda: "agendas_ok e F \<Longrightarrow> fresh e \<notin> set (flat (F k))"
  using on_agenda(2) [of e F "fresh e" k] agendas_okD(5) [of e F "fresh e"] by auto

text \<open>
  After the creation the agendas still have the same contents, in an environment that only
  lacks the placement of the new activation.
\<close>

definition created :: "env \<Rightarrow> env \<Rightarrow> rule_id \<Rightarrow> addr \<Rightarrow> int \<Rightarrow> bool" where
  "created e e' r b s \<longleftrightarrow> (\<exists>R pm N. rules e r = Some R \<and> matches e b = Some pm \<and>
     acts e' = (acts e)(fresh e \<mapsto> N) \<and> theRule N = r \<and> basis N = Some b \<and> act_salience N = s \<and>
     act_prev N = None \<and> act_timetag N = CurrentTimetag (agendaD e) \<and>
     matches e' = (matches e)(b \<mapsto> pm\<lparr>marker := Some (fresh e)\<rparr>) \<and>
     rules e' = (rules e)(r \<mapsto> R\<lparr>rule_salience := s\<rparr>) \<and> fresh e' = fresh e + 1 \<and>
     grps e' = grps e \<and> items e' = items e \<and> joins e' = joins e \<and> entities e' = entities e \<and>
     engineD e' = engineD e \<and> moduleD e' = moduleD e \<and>
     agendaD e' = (agendaD e)\<lparr>CurrentTimetag := CurrentTimetag (agendaD e) + 1,
      NumberOfActivations := NumberOfActivations (agendaD e) + 1\<rparr>)"

lemma created_network: "created e e' r b s \<Longrightarrow> same_network e e'"
  by (auto simp: created_def same_network_def)

lemma created_ok:
  assumes ok: "agendas_ok e F" and c: "created e e' r b s"
    and pm: "matches e b = Some pm" "marker pm = None" "match_ok e pm"
  shows "agendas_ok e' F" and "act_ok_at e' (fresh e)" and "marked e' (fresh e)"
proof -
  obtain R N where N: "rules e r = Some R" "acts e' = (acts e)(fresh e \<mapsto> N)" "theRule N = r" "basis N = Some b"
    "matches e' = (matches e)(b \<mapsto> pm\<lparr>marker := Some (fresh e)\<rparr>)"
    "rules e' = (rules e)(r \<mapsto> R\<lparr>rule_salience := s\<rparr>)" "fresh e' = fresh e + 1"
    "grps e' = grps e" "items e' = items e" "entities e' = entities e"
    "NumberOfActivations (agendaD e') = NumberOfActivations (agendaD e) + 1"
    using c pm(1) by (auto simp: created_def)
  note net = created_network [OF c]
  have free: "acts e (fresh e) = None" using agendas_okD(5) [OF ok] by simp
  have old: "acts e' x = acts e x" if "x \<in> set (flat (F k))" for x k
    using that fresh_not_on_agenda [OF ok, of k] N(2) by auto
  have match: "match_ok e' (pm\<lparr>marker := q\<rparr>)" for q
    using pm(3) unfolding match_ok_def N(10) by simp
  show "act_ok_at e' (fresh e)"
    using N match by (simp add: act_ok_at_def act_ok_def act_match_def)
  show "marked e' (fresh e)" using N by (simp add: marked_def)
  have marked: "marked e' x" if "x \<in> set (flat (F k))" for x k
  proof -
    have mx: "marked e x" using agendas_okD(9) [OF ok that] .
    then obtain A c pm' where A: "acts e x = Some A" "basis A = Some c" "matches e c = Some pm'" "marker pm' = Some x"
      by (cases "acts e x"; cases "basis (the (acts e x))") (auto simp: marked_def split: option.splits)
    then have "c \<noteq> b" using pm by auto
    with A old [OF that] N(5) show ?thesis by (simp add: marked_def)
  qed
  show "agendas_ok e' F"
  proof (rule agendas_okI)
    show "agenda_rep e' m (F m) \<and> no_empty (F m)" if "items e' m \<noteq> None" for m
    proof -
      have "agenda_rep e m (F m)" using that agendas_okD(1) [OF ok, of m] N(9) by simp
      then have "agenda_rep e' m (F m)"
        by (rule agenda_rep_cong) (use old N(8,9) same_network_rules(1) [OF net] in auto)
      then show ?thesis using agendas_okD(2) [OF ok] by simp
    qed
    show "act_ok_at e' x \<and> marked e' x" if "x \<in> set (flat (F m))" for m x
      using marked [OF that] agendas_okD(8) [OF ok that] act_ok_at_cong [OF net, of x] old [OF that]
      by (simp add: pays_of_def)
    show "items e' (whichModule Q) \<noteq> None" if "rules e' q = Some Q" for q Q
      using that N(1,6,9) agendas_okD(10) [OF ok] by (auto split: if_splits)
    have "card (dom (acts e')) = Suc (card (dom (acts e)))"
      using N(2) free finite_acts [OF ok] by (simp add: card_insert_if domIff)
    then show "NumberOfActivations (agendaD e') = of_nat (card (dom (acts e')))"
      using agendas_okD(11) [OF ok] N(11) by simp
  qed (use agendas_okD [OF ok] N in auto)
qed

section \<open>The head of an agenda\<close>

lemma in_order_hd:
  assumes "in_order e st (a # xs)" and "x \<in> set (a # xs)"
  shows "strategy_le st (view_at e a) (view_at e x)"
  using assms strat.le_refl by (auto simp: in_order_def)

text \<open>The first activation of an agenda against another one, in its group or in a later one.\<close>

lemma agenda_head_cases:
  assumes ok: "agendas_ok e F" and m: "items e m \<noteq> None"
    and hd: "hdp (flat (F m)) None = Some a" and x: "x \<in> set (flat (F m))"
  shows "\<exists>A X. acts e a = Some A \<and> acts e x = Some X \<and> (act_salience X < act_salience A \<or>
    act_salience X = act_salience A \<and> (\<exists>g ys. g \<in> set (F m) \<and> g_acts g = a # ys \<and> x \<in> set (a # ys)))"
proof -
  have rep: "agenda_rep e m (F m)" by (rule agendas_okD(1) [OF ok m])
  obtain g gs where gs: "F m = g # gs" using x by (cases "F m") auto
  obtain ys where ys: "g_acts g = a # ys"
    using hd agendas_okD(2) [OF ok, of m] gs by (cases "g_acts g") (auto simp: no_empty_def)
  have ain: "act_in e m (g_sal h) z" if "h \<in> set (F m)" "z \<in> set (g_acts h)" for h z
    using rep that by (simp add: agenda_rep_def)
  have A: "act_in e m (g_sal g) a" using ain [of g a] gs ys by simp
  obtain h where h: "h \<in> set (F m)" "x \<in> set (g_acts h)" using x by (auto simp: flat_def)
  show ?thesis
  proof (cases "h = g")
    case True
    then have "g \<in> set (F m) \<and> g_acts g = a # ys \<and> x \<in> set (a # ys)" using h ys by simp
    then have "\<exists>g ys. g \<in> set (F m) \<and> g_acts g = a # ys \<and> x \<in> set (a # ys)" by blast
    moreover obtain A X where "acts e a = Some A" "acts e x = Some X" "act_salience X = act_salience A"
      using A ain [OF h] True by (auto simp: act_in_def split: option.splits)
    ultimately show ?thesis by blast
  next
    case False
    have "g_sal h < g_sal g" using rep gs h(1) False by (simp add: agenda_rep_def falling_def)
    then show ?thesis using A ain [OF h] by (auto simp: act_in_def split: option.splits)
  qed
qed

lemma agenda_head_first:
  assumes ok: "agendas_ok e F" and ord: "ordered e F" and m: "items e m \<noteq> None"
    and hd: "hdp (flat (F m)) None = Some a" and x: "x \<in> set (flat (F m))"
  shows "\<exists>A X. acts e a = Some A \<and> acts e x = Some X \<and> (act_salience X < act_salience A \<or>
    act_salience X = act_salience A \<and> strategy_le (Strategy (agendaD e)) (view e A) (view e X))"
proof -
  have "strategy_le (Strategy (agendaD e)) (view_at e a) (view_at e x)"
    if "g \<in> set (F m)" "g_acts g = a # ys" "x \<in> set (a # ys)" for g ys
  proof -
    have "in_order e (Strategy (agendaD e)) (a # ys)"
      using ord [unfolded ordered_def, rule_format, of m] that(1,2) by (auto simp: agenda_ordered_def)
    then show ?thesis using that(3) by (rule in_order_hd)
  qed
  with agenda_head_cases [OF ok m hd x] show ?thesis by (fastforce simp: view_at_def)
qed

end
