(* ===== verification/Agenda_Props.thy ===== *)
theory Agenda_Props
  imports Agenda_Invariant
begin

text \<open>
  The operations on single activations preserve the invariant of the agendas and do to the
  abstract agendas what they promise.
\<close>

section \<open>Environments with the same agendas\<close>

definition same_core :: "env \<Rightarrow> env \<Rightarrow> bool" where
  "same_core e e' \<longleftrightarrow> acts e' = acts e \<and> grps e' = grps e \<and> fresh e' = fresh e \<and> items e' = items e \<and>
     rules e' = rules e \<and> matches e' = matches e \<and> entities e' = entities e \<and>
     NumberOfActivations (agendaD e') = NumberOfActivations (agendaD e) \<and>
     CurrentTimetag (agendaD e') = CurrentTimetag (agendaD e) \<and>
     SalienceEvaluation (agendaD e') = SalienceEvaluation (agendaD e) \<and>
     Strategy (agendaD e') = Strategy (agendaD e)"

lemma same_core_network: "same_core e e' \<Longrightarrow> same_network e e'"
  by (simp add: same_core_def same_network_def)

lemma same_core_rep: "\<lbrakk>same_core e e'; agenda_rep e m gs\<rbrakk> \<Longrightarrow> agenda_rep e' m gs"
  by (rule agenda_rep_cong [of e]) (simp_all add: same_core_def rule_module_def)

lemma same_core_act_ok: "same_core e e' \<Longrightarrow> act_ok_at e' x = act_ok_at e x"
  by (rule act_ok_at_cong [OF same_core_network]) (simp_all add: same_core_def)

lemma same_core_marked: "same_core e e' \<Longrightarrow> marked e' x = marked e x"
  by (simp only: same_core_def marked_def)

lemma same_core_ok:
  assumes c: "same_core e e'" and ok: "agendas_ok e F"
  shows "agendas_ok e' F"
proof -
  note marked = same_core_marked [OF c]
  have "agenda_rep e' m (F m)" if "items e' m \<noteq> None" for m
    using that c agendas_okD(1) [OF ok, of m] same_core_rep [OF c] by (simp add: same_core_def)
  then show ?thesis
    using c agendas_okD [OF ok] same_core_act_ok [OF c] marked
    by (intro agendas_okI) (simp_all add: same_core_def)
qed

lemma same_core_ordered:
  assumes "same_core e e'" shows "ordered e' F = ordered e F"
  using assms agenda_ordered_cong [OF same_core_network [OF assms]]
  by (simp add: ordered_def same_core_def)

lemma same_core_say [simp]: "same_core e (say x e)"
  by (simp add: same_core_def say_def)

lemma same_core_SetAgendaChanged [simp]: "same_core e (SetAgendaChanged b e)"
  by (simp add: same_core_def SetAgendaChanged_def set_agendaD_def)

lemma same_core_trans: "\<lbrakk>same_core e e'; same_core e' e''\<rbrakk> \<Longrightarrow> same_core e e''"
  by (simp add: same_core_def)

lemma same_core_refl [simp]: "same_core e e"
  by (simp add: same_core_def)

lemma same_core_Focus [simp]: "same_core e (Focus m e)"
  by (simp add: same_core_def)

section \<open>Adding\<close>

lemma created_ordered:
  assumes ok: "agendas_ok e F" and c: "created e e' r b s"
  shows "ordered e' F = ordered e F"
proof -
  have "pays_of act_pay (acts e') x = pays_of act_pay (acts e) x" if "x \<in> set (flat (F m))" for x m
    using that c fresh_not_on_agenda [OF ok, of m] by (auto simp: created_def pays_of_def)
  then have "agenda_ordered e' st (F m) = agenda_ordered e st (F m)" for m st
    by (intro agenda_ordered_cong [OF created_network [OF c]]) auto
  moreover have "Strategy (agendaD e') = Strategy (agendaD e)" using c by (auto simp: created_def)
  ultimately show ?thesis by (simp add: ordered_def)
qed

lemma place_new:
  assumes ok: "agendas_ok e F" and N: "acts e n = Some N" "act_prev N = None" "\<And>k. n \<notin> set (flat (F k))"
    and mem: "act_in e m s n" and n: "act_ok_at e n" "marked e n" and m: "items e m \<noteq> None"
  shows "\<exists>g e1 e' gs'. ReuseOrCreateSalienceGroup m s e = Some (g, e1) \<and> PlaceActivation m n g e1 = Some e' \<and>
    inserted n s (F m) gs' \<and> agendas_ok e' (F(m := gs')) \<and> (ordered e F \<longrightarrow> ordered e' (F(m := gs'))) \<and>
    (agenda_ordered e (Strategy (agendaD e)) (F m) \<longrightarrow> agenda_ordered e' (Strategy (agendaD e)) gs') \<and>
    local_step m (insert n (set (flat (F m)))) (set (gaddrs gs')) e e' \<and>
    pays_of act_pay (acts e') = pays_of act_pay (acts e) \<and> AgendaChanged (agendaD e')"
proof -
  have rep: "agenda_rep e m (F m)" using agendas_okD(1) [OF ok m] .
  have fr: "grps e (fresh e) = None" using agendas_okD(6) [OF ok] by simp
  have "\<forall>x\<in>set (flat (F m)). act_ok_at e x" using agendas_okD(8) [OF ok] by blast
  then obtain g e1 e' gs' where e': "ReuseOrCreateSalienceGroup m s e = Some (g, e1)" "PlaceActivation m n g e1 = Some e'"
    "agenda_rep e' m gs'" "no_empty gs'" "inserted n s (F m) gs'"
    "agenda_ordered e (Strategy (agendaD e)) (F m) \<longrightarrow> agenda_ordered e' (Strategy (agendaD e)) gs'"
    "local_step m (insert n (set (flat (F m)))) (set (gaddrs gs')) e e'"
    "pays_of act_pay (acts e') = pays_of act_pay (acts e)" "AgendaChanged (agendaD e')"
    "gaddrs gs' = gaddrs (F m) \<and> fresh e' = fresh e \<or>
     set (gaddrs gs') = insert (fresh e) (set (gaddrs (F m))) \<and> fresh e' = fresh e + 1"
    using insert_activation [OF rep agendas_okD(2) [OF ok] fr N(1,2) N(3) mem n(1)] by blast
  note ls = e'(7) and pays = e'(8)
  have "agendas_ok e' (F(m := gs'))"
  proof (rule agendas_ok_step [OF ok m ls e'(3,4)])
    show "set (flat (F k)) \<inter> insert n (set (flat (F m))) = {}" if "k \<noteq> m" for k
      using agendas_disjoint [OF ok that] N(3) by auto
    show "act_ok_at e x \<and> marked e x" if "x \<in> set (flat gs')" for x
      using that inserted_set [OF e'(5)] n agendas_okD(8,9) [OF ok, of x m] by auto
    show "(acts e' a = None) = (acts e a = None)" for a by (rule pays_of_dom [OF pays])
  qed (use e'(10) pays in auto)
  moreover have "ordered e' (F(m := gs'))" if o: "ordered e F"
  proof -
    have "agenda_ordered e' (Strategy (agendaD e)) (F k)" for k
      using o agenda_ordered_cong [OF local_step_network [OF ls]] pays by (simp add: ordered_def)
    moreover have "agenda_ordered e (Strategy (agendaD e)) (F m)" using o by (simp add: ordered_def)
    ultimately show ?thesis using e'(6) local_step_fields(14) [OF ls] by (simp add: ordered_def)
  qed
  ultimately show ?thesis using e' by blast
qed

lemma AddActivation_ok:
  assumes ok: "agendas_ok e F" and R: "rules e r = Some R"
    and pm: "matches e b = Some pm" "marker pm = None" "match_ok e pm"
  defines "m \<equiv> whichModule R" and "s \<equiv> salience_of e R" and "n \<equiv> fresh e"
  shows "\<exists>e' gs' A. AddActivation r b e = Some e' \<and> inserted n s (F m) gs' \<and>
    agendas_ok e' (F(m := gs')) \<and> (ordered e F \<longrightarrow> ordered e' (F(m := gs'))) \<and>
    acts e' n = Some A \<and> theRule A = r \<and> basis A = Some b \<and> act_salience A = s \<and>
    act_timetag A = CurrentTimetag (agendaD e) \<and> matches e' = (matches e)(b \<mapsto> pm\<lparr>marker := Some n\<rparr>) \<and>
    rules e' = (rules e)(r \<mapsto> R\<lparr>rule_salience := s\<rparr>) \<and> joins e' = joins e \<and> entities e' = entities e \<and>
    CurrentTimetag (agendaD e') = CurrentTimetag (agendaD e) + 1 \<and> AgendaChanged (agendaD e') \<and>
    engineD e' = engineD (if autoFocus R then Focus (Some m) e else e) \<and>
    moduleD e' = moduleD (if autoFocus R then Focus (Some m) e else e) \<and>
    (\<forall>k. map_option ruleList (items e' k) = map_option ruleList (items e k)) \<and>
    (\<forall>x. x \<noteq> n \<longrightarrow> pays_of act_pay (acts e') x = pays_of act_pay (acts e) x)"
proof -
  let ?e1 = "if autoFocus R then Focus (Some (whichModule R)) e else e"
  have c1: "same_core e ?e1" by simp
  have dyn: "dynValue ?e1 = dynValue e" by simp
  have s1: "salience_of ?e1 R = s"
    unfolding s_def using c1 dyn by (intro salience_of_cong) (simp_all add: same_core_def GetSalienceEvaluation_def)
  have "rules ?e1 r = Some R" "matches ?e1 b = Some pm" using c1 R pm by (simp_all add: same_core_def)
  from CreateActivation_eq [OF this] obtain e2 where e2: "CreateActivation r b ?e1 = Some (n, s, e2)"
    "created ?e1 e2 r b s"
    using c1 R pm(1) unfolding s1 created_def n_def same_core_def by fastforce
  have net2: "matches e2 = (matches e)(b \<mapsto> pm\<lparr>marker := Some n\<rparr>)" "rules e2 = (rules e)(r \<mapsto> R\<lparr>rule_salience := s\<rparr>)"
    "joins e2 = joins e" "entities e2 = entities e"
    using e2(2) c1 R pm(1) by (auto simp: created_def same_core_def n_def)
  let ?e3 = "if watch_act R e2 then say (ActivationOn n) e2 else e2"
  have c3: "same_core e2 ?e3" by simp
  have ok1: "agendas_ok ?e1 F" by (rule same_core_ok [OF c1 ok])
  have m_ok: "match_ok ?e1 pm" using pm(3) c1 unfolding match_ok_def same_core_def by simp
  have pm1: "matches ?e1 b = Some pm" using pm(1) c1 by (simp add: same_core_def)
  have n1: "fresh ?e1 = n" using c1 by (simp add: same_core_def n_def)
  note created = created_ok [OF ok1 e2(2) pm1 pm(2) m_ok, unfolded n1]
  have ok3: "agendas_ok ?e3 F" by (rule same_core_ok [OF c3 created(1)])
  obtain N where N: "acts e2 n = Some N" "theRule N = r" "basis N = Some b" "act_salience N = s" "act_prev N = None"
    "act_timetag N = CurrentTimetag (agendaD e)" "rules e2 r = Some (R\<lparr>rule_salience := s\<rparr>)"
    "CurrentTimetag (agendaD e2) = CurrentTimetag (agendaD e) + 1"
    using e2(2) c1 R by (auto simp: created_def n1 same_core_def)
  have items: "items ?e3 m \<noteq> None"
    using agendas_okD(10) [OF created(1) N(7)] c3 by (simp add: m_def same_core_def)
  have mem: "act_in ?e3 m s n" using N c3 by (simp add: act_in_def rule_module_def same_core_def m_def)
  have "marked ?e3 n" using created(3) same_core_marked [OF c3] by blast
  moreover have "act_ok_at ?e3 n" using created(2) same_core_act_ok [OF c3] by blast
  moreover have "acts ?e3 n = Some N" using N(1) c3 by (simp add: same_core_def)
  moreover have "n \<notin> set (flat (F k))" for k using fresh_not_on_agenda [OF ok] by (simp add: n_def)
  ultimately obtain g e4 e' gs' where e': "ReuseOrCreateSalienceGroup m s ?e3 = Some (g, e4)"
    "PlaceActivation m n g e4 = Some e'" "inserted n s (F m) gs'" "agendas_ok e' (F(m := gs'))"
    "ordered ?e3 F \<longrightarrow> ordered e' (F(m := gs'))"
    "local_step m (insert n (set (flat (F m)))) (set (gaddrs gs')) ?e3 e'"
    "pays_of act_pay (acts e') = pays_of act_pay (acts ?e3)" "AgendaChanged (agendaD e')"
    using place_new [OF ok3, of n N m s] N(5) mem items by blast
  have "AddActivation r b e = Some e'"
    using e2(1) e'(1,2) R by (simp add: AddActivation_def Let_def m_def cong: if_cong)
  moreover have "ordered ?e3 F = ordered e F"
    using same_core_ordered [OF c1] same_core_ordered [OF c3] created_ordered [OF ok1 e2(2)] by simp
  moreover have "\<exists>A. acts e' n = Some A \<and> act_pay A = act_pay N"
    using fun_cong [OF e'(7), of n] \<open>acts ?e3 n = Some N\<close> by (cases "acts e' n") (simp_all add: pays_of_def)
  moreover have "matches e' = (matches e)(b \<mapsto> pm\<lparr>marker := Some n\<rparr>)" "rules e' = (rules e)(r \<mapsto> R\<lparr>rule_salience := s\<rparr>)"
    "joins e' = joins e" "entities e' = entities e"
    using local_step_fields [OF e'(6)] net2 by (simp_all add: say_def)
  moreover have "CurrentTimetag (agendaD e') = CurrentTimetag (agendaD e) + 1"
    using local_step_fields [OF e'(6)] N(8) c3 by (simp add: same_core_def)
  moreover have "engineD e' = engineD ?e1" "moduleD e' = moduleD ?e1"
    using local_step_fields [OF e'(6)] e2(2) by (auto simp: created_def say_def split: if_splits)
  moreover have "map_option ruleList (items e' k) = map_option ruleList (items e k)" for k
  proof -
    have "items ?e3 = items e" using e2(2) c1 c3 by (auto simp: created_def same_core_def)
    then show ?thesis using e'(6) by (cases "k = m") (auto simp: local_step_def)
  qed
  moreover have "pays_of act_pay (acts e') x = pays_of act_pay (acts e) x" if "x \<noteq> n" for x
  proof -
    have "acts ?e3 x = acts e x" using e2(2) c1 c3 that n1 by (auto simp: created_def same_core_def)
    then show ?thesis using fun_cong [OF e'(7), of x] by (simp add: pays_of_def)
  qed
  ultimately show ?thesis using e'(3-5,8) N(2-6) by (simp add: m_def) (fastforce dest!: act_pay_eqD)
qed

section \<open>Settings that do not matter to the invariant\<close>

text \<open>Environments with the same stores and the same counter of activations.\<close>

definition same_store :: "env \<Rightarrow> env \<Rightarrow> bool" where
  "same_store e e' \<longleftrightarrow> acts e' = acts e \<and> grps e' = grps e \<and> fresh e' = fresh e \<and> items e' = items e \<and>
     rules e' = rules e \<and> matches e' = matches e \<and> entities e' = entities e \<and>
     NumberOfActivations (agendaD e') = NumberOfActivations (agendaD e)"

lemma same_store_network: "same_store e e' \<Longrightarrow> same_network e e'"
  by (simp add: same_store_def same_network_def)

lemma same_store_refl [simp]: "same_store e e"
  by (simp add: same_store_def)

lemma same_store_trans: "\<lbrakk>same_store e e'; same_store e' e''\<rbrakk> \<Longrightarrow> same_store e e''"
  by (simp add: same_store_def)

lemma same_store_agenda_ordered: "same_store e e' \<Longrightarrow> agenda_ordered e' st gs = agenda_ordered e st gs"
  by (rule agenda_ordered_cong [OF same_store_network]) (simp_all add: same_store_def)

section \<open>Removing\<close>

text \<open>
  The invariant speaks of an activation that is on no agenda only through the counter.
\<close>

lemma agendas_ok_frame:
  assumes ok: "agendas_ok e F" and net: "same_network e e'"
    and acts: "\<And>k x. x \<in> set (flat (F k)) \<Longrightarrow> acts e' x = acts e x"
    and dom: "\<And>a. a \<ge> fresh e \<Longrightarrow> acts e' a = None"
    and same: "grps e' = grps e" "fresh e' = fresh e" "items e' = items e"
    and marks: "\<And>k x. x \<in> set (flat (F k)) \<Longrightarrow> marked e' x"
    and num: "NumberOfActivations (agendaD e') = of_nat (card (dom (acts e')))"
  shows "agendas_ok e' F"
proof (rule agendas_okI)
  show "agenda_rep e' m (F m) \<and> no_empty (F m)" if "items e' m \<noteq> None" for m
  proof -
    have "agenda_rep e m (F m)" using that agendas_okD(1) [OF ok, of m] same(3) by simp
    then have "agenda_rep e' m (F m)"
      by (rule agenda_rep_cong) (use acts same same_network_rules(1) [OF net] in auto)
    then show ?thesis using agendas_okD(2) [OF ok] by simp
  qed
  show "act_ok_at e' y \<and> marked e' y" if "y \<in> set (flat (F m))" for m y
    using marks [OF that] agendas_okD(8) [OF ok that] act_ok_at_cong [OF net, of y] acts [OF that] by (simp add: pays_of_def)
  show "items e' (whichModule R) \<noteq> None" if "rules e' r = Some R" for r R
  proof -
    have "rule_module e r = Some (whichModule R)"
      using same_network_rules(1) [OF net, of r] that by (simp add: rule_module_def)
    then show ?thesis using agendas_okD(10) [OF ok, of r] same(3) by (auto simp: rule_module_def)
  qed
qed (use agendas_okD [OF ok] same dom num in auto)

lemma same_store_ok:
  assumes s: "same_store e e'" and ok: "agendas_ok e F" shows "agendas_ok e' F"
proof (rule agendas_ok_frame [OF ok same_store_network [OF s]])
  show "marked e' x" if "x \<in> set (flat (F k))" for k x
    using agendas_okD(9) [OF ok that] marked_cong [of e' x e] s by (simp add: same_store_def)
qed (use agendas_okD(5,11) [OF ok] s in \<open>auto simp: same_store_def\<close>)

text \<open>Returning to the memory manager an activation that is on no agenda.\<close>

lemma free_activation_ok:
  assumes ok: "agendas_ok e F" and x: "acts e x = Some A" "\<And>k. x \<notin> set (flat (F k))"
    and acts: "acts e' = (acts e)(x := None)"
    and same: "grps e' = grps e" "fresh e' = fresh e" "items e' = items e" "rules e' = rules e" "entities e' = entities e"
    and binds: "\<And>b. map_option binds (matches e' b) = map_option binds (matches e b)"
    and marks: "\<And>y k. y \<in> set (flat (F k)) \<Longrightarrow> marked e' y"
    and num: "NumberOfActivations (agendaD e') = NumberOfActivations (agendaD e) - 1"
  shows "agendas_ok e' F"
proof (rule agendas_ok_frame [OF ok])
  show "same_network e e'" using same binds by (simp add: same_network_def)
  have "dom (acts e') = dom (acts e) - {x}" using acts by simp
  moreover have "x \<in> dom (acts e)" using x(1) by blast
  ultimately have "card (dom (acts e)) = Suc (card (dom (acts e')))"
    using card.remove [OF finite_acts [OF ok]] by (simp only:)
  then show "NumberOfActivations (agendaD e') = of_nat (card (dom (acts e')))"
    using agendas_okD(11) [OF ok] num by simp
qed (use agendas_okD(5) [OF ok] same x(2) acts marks in auto)

lemma take_off_ok:
  assumes ok: "agendas_ok e F" and x: "x \<in> set (flat (F m))" and A: "acts e x = Some A"
  shows "\<exists>e1 e2. RemoveActivationFromGroup x m e = Some e1 \<and> unlink_activation x m e1 = Some e2 \<and>
    detach_links x m A e1 = Some e2 \<and> agendas_ok e2 (F(m := remove_act x (F m))) \<and>
    local_step m (set (flat (F m)) - {x}) (set (gaddrs (F m))) e e2 \<and>
    (ordered e F \<longrightarrow> ordered e2 (F(m := remove_act x (F m)))) \<and>
    pays_of act_pay (acts e2) = pays_of act_pay (acts e)"
proof -
  note rep = on_agenda(1) [OF ok x]
  have m: "items e m \<noteq> None" using agenda_repD(1) [OF rep] by auto
  obtain e1 e2 where e2: "RemoveActivationFromGroup x m e = Some e1" "unlink_activation x m e1 = Some e2"
    "detach_links x m A e1 = Some e2" "agenda_rep e2 m (remove_act x (F m))"
    "local_step m (set (flat (F m)) - {x}) (set (gaddrs (F m))) e e2"
    "pays_of act_pay (acts e2) = pays_of act_pay (acts e)"
    "\<forall>g\<in>set (gaddrs (F m)) - set (gaddrs (remove_act x (F m))). grps e2 g = None"
    using take_off [OF rep agendas_okD(2) [OF ok] x A] by blast
  note ls = e2(5) and pays = e2(6)
  have sub: "set (gaddrs (remove_act x (F m))) \<subseteq> set (gaddrs (F m))"
    by (force simp: remove_act_def gaddrs_def)
  have "agendas_ok e2 (F(m := remove_act x (F m)))"
  proof (rule agendas_ok_step [OF ok m ls e2(4) no_empty_remove_act])
    show "set (flat (F k)) \<inter> (set (flat (F m)) - {x}) = {}" if "k \<noteq> m" for k
      using agendas_disjoint [OF ok that] by auto
    show "act_ok_at e y \<and> marked e y" if "y \<in> set (flat (remove_act x (F m)))" for y
      using that agendas_okD(8,9) [OF ok, of y m] by (simp add: flat_remove_act)
    show "(acts e2 a = None) = (acts e a = None)" for a by (rule pays_of_dom [OF pays])
  qed (use e2(7) pays sub in auto)
  moreover have "ordered e2 (F(m := remove_act x (F m)))" if o: "ordered e F"
  proof -
    have "agenda_ordered e2 (Strategy (agendaD e)) (F k)" for k
      using o agenda_ordered_cong [OF local_step_network [OF ls]] pays by (simp add: ordered_def)
    then show ?thesis
      using agenda_ordered_remove_act local_step_fields(14) [OF ls] by (simp add: ordered_def)
  qed
  ultimately show ?thesis using e2(1-3) ls pays by blast
qed

lemma not_on_removed:
  assumes ok: "agendas_ok e F" and x: "x \<in> set (flat (F m))"
  shows "x \<notin> set (flat ((F(m := remove_act x (F m))) k))"
  using agendas_disjoint [OF ok, of m k] x by (cases "k = m") (auto simp: flat_remove_act)

lemma RemoveActivation_ok:
  assumes ok: "agendas_ok e F" and x: "x \<in> set (flat (F m))"
  shows "\<exists>e' A b pm. RemoveActivation x True True e = Some e' \<and>
    agendas_ok e' (F(m := remove_act x (F m))) \<and>
    (ordered e F \<longrightarrow> ordered e' (F(m := remove_act x (F m)))) \<and> acts e' x = None \<and>
    acts e x = Some A \<and> basis A = Some b \<and> matches e b = Some pm \<and>
    matches e' = (matches e)(b \<mapsto> pm\<lparr>marker := None\<rparr>) \<and>
    AgendaChanged (agendaD e') \<and> rules e' = rules e \<and> moduleD e' = moduleD e \<and> engineD e' = engineD e \<and>
    joins e' = joins e \<and> Strategy (agendaD e') = Strategy (agendaD e) \<and>
    (\<forall>k. k \<noteq> m \<longrightarrow> items e' k = items e k) \<and> dom (acts e') = dom (acts e) - {x} \<and>
    map_option ruleList (items e' m) = map_option ruleList (items e m) \<and>
    (\<forall>y. y \<noteq> x \<longrightarrow> pays_of act_pay (acts e') y = pays_of act_pay (acts e) y)"
proof -
  let ?F = "F(m := remove_act x (F m))"
  obtain A R where A: "acts e x = Some A" "rules e (theRule A) = Some R" "whichModule R = m"
    using on_agenda(2) [OF ok x] by blast
  obtain b pm where b: "basis A = Some b" "matches e b = Some pm" "marker pm = Some x"
    using agendas_okD(9) [OF ok x] A(1) by (cases "basis A") (auto simp: marked_def split: option.splits)
  obtain e1 e2 where e2: "RemoveActivationFromGroup x m e = Some e1" "unlink_activation x m e1 = Some e2"
    "agendas_ok e2 ?F" "local_step m (set (flat (F m)) - {x}) (set (gaddrs (F m))) e e2" "ordered e F \<longrightarrow> ordered e2 ?F"
    "pays_of act_pay (acts e2) = pays_of act_pay (acts e)"
    using take_off_ok [OF ok x A(1)] by blast
  note f = local_step_fields [OF e2(4)]
  let ?e3 = "SetAgendaChanged True (if watch_act R e2 then say (ActivationOff x) e2 else e2)"
  have c3: "same_core e2 ?e3" by (rule same_core_trans [of _ "if watch_act R e2 then say (ActivationOff x) e2 else e2"]) simp_all
  let ?e5 = "set_agendaD (\<lambda>d. d\<lparr>NumberOfActivations := NumberOfActivations d - 1\<rparr>)
    (?e3\<lparr>matches := (matches e)(b \<mapsto> pm\<lparr>marker := None\<rparr>)\<rparr>)"
  let ?e' = "?e5\<lparr>acts := (acts ?e5)(x := None)\<rparr>"
  have m3: "matches ?e3 = matches e" using c3 f(2) by (simp add: same_core_def)
  have run: "RemoveActivation x True True e = Some ?e'"
    using A e2(1,2) b m3 by (simp add: RemoveActivation_def Let_def upd_match_def)
  have fields: "acts ?e' = (acts ?e3)(x := None)" "grps ?e' = grps ?e3" "fresh ?e' = fresh ?e3" "items ?e' = items ?e3"
    "rules ?e' = rules ?e3" "entities ?e' = entities ?e3" "matches ?e' = (matches e)(b \<mapsto> pm\<lparr>marker := None\<rparr>)"
    "NumberOfActivations (agendaD ?e') = NumberOfActivations (agendaD ?e3) - 1"
    "Strategy (agendaD ?e') = Strategy (agendaD ?e3)"
    by (simp_all add: set_agendaD_def)
  have ok3: "agendas_ok ?e3 ?F" by (rule same_core_ok [OF c3 e2(3)])
  have "acts e2 x = acts e x" using e2(4) by (simp add: local_step_def)
  then have x3: "acts ?e3 x = Some A" using A(1) c3 by (simp add: same_core_def)
  have off: "x \<notin> set (flat (?F k))" for k by (rule not_on_removed [OF ok x])
  have binds: "map_option binds (matches ?e' c) = map_option binds (matches ?e3 c)" for c
    unfolding fields(7) m3 using b(2) by simp
  have marks: "marked ?e' y" if y: "y \<in> set (flat (?F k))" for y k
  proof -
    obtain B c pmc where c: "acts ?e3 y = Some B" "basis B = Some c" "matches ?e3 c = Some pmc" "marker pmc = Some y"
      using agendas_okD(9) [OF ok3 y] by (cases "acts ?e3 y"; cases "basis (the (acts ?e3 y))")
        (auto simp: marked_def split: option.splits)
    have "y \<noteq> x" using y off by auto
    then have "c \<noteq> b" using c b m3 by auto
    then show ?thesis unfolding marked_def fields(1,7) using c \<open>y \<noteq> x\<close> m3 by simp
  qed
  have "agendas_ok ?e' ?F"
    by (rule free_activation_ok [OF ok3 x3 off fields(1-6) binds marks fields(8)])
  moreover have "ordered ?e' ?F" if "ordered e F"
  proof -
    have o3: "ordered ?e3 ?F" using that e2(5) same_core_ordered [OF c3] by simp
    have net: "same_network ?e3 ?e'" using fields binds by (simp add: same_network_def)
    have "agenda_ordered ?e' st (?F k) = agenda_ordered ?e3 st (?F k)" for st k
      by (rule agenda_ordered_cong [OF net]) (use off fields(1) in \<open>auto simp: pays_of_def\<close>)
    with o3 show ?thesis by (simp only: ordered_def fields(9)) simp
  qed
  moreover have "rules ?e' = rules e" "Strategy (agendaD ?e') = Strategy (agendaD e)"
    using fields(5,9) c3 f by (simp_all add: same_core_def)
  moreover have "items ?e' k = items e k" if "k \<noteq> m" for k
    using that e2(4) c3 fields(4) by (simp add: same_core_def local_step_def)
  moreover have "AgendaChanged (agendaD ?e')" "moduleD ?e' = moduleD e" "engineD ?e' = engineD e" "joins ?e' = joins e"
    using f by (simp_all add: set_agendaD_def SetAgendaChanged_def say_def)
  moreover have "pays_of act_pay (acts ?e') y = pays_of act_pay (acts e) y" if "y \<noteq> x" for y
  proof -
    have "acts ?e' y = acts e2 y" using fields(1) c3 that by (simp add: same_core_def)
    then show ?thesis using fun_cong [OF e2(6), of y] by (simp add: pays_of_def)
  qed
  moreover have "map_option ruleList (items ?e' m) = map_option ruleList (items e m)"
    using e2(4) c3 fields(4) by (simp only: same_core_def local_step_def)
  moreover have "dom (acts ?e') = dom (acts e) - {x}"
  proof -
    have "acts ?e' = (acts e2)(x := None)" using fields(1) c3 by (simp only: same_core_def)
    then have "dom (acts ?e') = dom (acts e2) - {x}" by (simp only: dom_fun_upd) simp
    then show ?thesis by (simp only: pays_of_dom_eq [OF e2(6)])
  qed
  ultimately show ?thesis using run A(1) b(1,2) fields(1,7)
    by (intro exI [of _ ?e'] exI [of _ A] exI [of _ b] exI [of _ pm]) auto
qed

section \<open>Detaching\<close>

lemma DetachActivation_ok:
  assumes ok: "agendas_ok e F" and x: "x \<in> set (flat (F m))"
  shows "\<exists>e' A. DetachActivation (Some x) e = Some e' \<and>
    agendas_ok e' (F(m := remove_act x (F m))) \<and>
    (ordered e F \<longrightarrow> ordered e' (F(m := remove_act x (F m)))) \<and>
    acts e x = Some A \<and> acts e' x = Some (A\<lparr>act_prev := None, act_next := None\<rparr>) \<and>
    AgendaChanged (agendaD e') \<and> rules e' = rules e \<and> matches e' = matches e \<and> moduleD e' = moduleD e \<and>
    engineD e' = engineD e \<and> evalD e' = evalD e \<and> joins e' = joins e \<and> entities e' = entities e \<and>
    messages e' = messages e \<and> dom (acts e') = dom (acts e) \<and>
    pays_of act_pay (acts e') = pays_of act_pay (acts e) \<and>
    (\<forall>k. map_option ruleList (items e' k) = map_option ruleList (items e k)) \<and>
    Strategy (agendaD e') = Strategy (agendaD e) \<and> SalienceEvaluation (agendaD e') = SalienceEvaluation (agendaD e)"
proof -
  let ?F = "F(m := remove_act x (F m))"
  obtain A R where A: "acts e x = Some A" "rules e (theRule A) = Some R" "whichModule R = m"
    using on_agenda(2) [OF ok x] by blast
  obtain e1 e2 where e2: "RemoveActivationFromGroup x m e = Some e1" "detach_links x m A e1 = Some e2"
    "agendas_ok e2 ?F" "local_step m (set (flat (F m)) - {x}) (set (gaddrs (F m))) e e2" "ordered e F \<longrightarrow> ordered e2 ?F"
    "pays_of act_pay (acts e2) = pays_of act_pay (acts e)"
    using take_off_ok [OF ok x A(1)] by blast
  note f = local_step_fields [OF e2(4)]
  have x2: "acts e2 x = Some A" using e2(4) A(1) by (simp add: local_step_def)
  let ?A = "A\<lparr>act_prev := None, act_next := None\<rparr>"
  let ?e3 = "e2\<lparr>acts := (acts e2)(x \<mapsto> ?A)\<rparr>" and ?e' = "SetAgendaChanged True (e2\<lparr>acts := (acts e2)(x \<mapsto> ?A)\<rparr>)"
  have run: "DetachActivation (Some x) e = Some ?e'"
    using A e2(1,2) x2 by (simp add: DetachActivation_def heap_simps)
  have off: "x \<notin> set (flat (?F k))" for k by (rule not_on_removed [OF ok x])
  have "agendas_ok ?e3 ?F"
  proof (rule agendas_ok_frame [OF e2(3)])
    show "marked ?e3 y" if "y \<in> set (flat (?F k))" for k y
    proof -
      have "y \<noteq> x" using that off by blast
      then show ?thesis using agendas_okD(9) [OF e2(3) that] marked_cong [of ?e3 y e2] by simp
    qed
    have "dom (acts ?e3) = dom (acts e2)" using x2 by auto
    then show "NumberOfActivations (agendaD ?e3) = of_nat (card (dom (acts ?e3)))"
      using agendas_okD(11) [OF e2(3)] by (simp only:) simp
    show "acts ?e3 a = None" if "fresh e2 \<le> a" for a using agendas_okD(5) [OF e2(3) that] x2 by auto
  qed (use off in \<open>auto simp: same_network_def\<close>)
  then have "agendas_ok ?e' ?F" by (rule same_core_ok [rotated]) simp
  moreover have "ordered ?e' ?F" if "ordered e F"
  proof -
    have "agenda_ordered ?e3 st (?F k) = agenda_ordered e2 st (?F k)" for st k
      by (rule agenda_ordered_cong) (use off in \<open>auto simp: pays_of_def same_network_def\<close>)
    then have "ordered ?e3 ?F" using that e2(5) by (simp add: ordered_def)
    then show ?thesis using same_core_ordered [OF same_core_SetAgendaChanged] by blast
  qed
  moreover have "dom (acts ?e') = dom (acts e)"
    using x2 pays_of_dom_eq [OF e2(6)] by (auto simp: SetAgendaChanged_def set_agendaD_def)
  moreover have "pays_of act_pay (acts ?e') = pays_of act_pay (acts e)"
  proof -
    have "pays_of act_pay ((acts e2)(x \<mapsto> ?A)) = pays_of act_pay (acts e2)" using x2 by (auto simp: pays_of_def act_pay_def)
    then show ?thesis using e2(6) by (simp add: SetAgendaChanged_def set_agendaD_def)
  qed
  moreover have "map_option ruleList (items ?e' k) = map_option ruleList (items e k)" for k
    using e2(4) by (cases "k = m") (auto simp: local_step_def SetAgendaChanged_def set_agendaD_def)
  ultimately show ?thesis
    using run A(1) f by (intro exI [of _ ?e'] exI [of _ A]) (simp add: SetAgendaChanged_def set_agendaD_def)
qed

end
