(* ===== verification/Sample_Env.thy ===== *)
theory Sample_Env
  imports Agenda_Props
begin

text \<open>
  A small environment on which the properties are instantiated: module \<open>MAIN\<close> with two
  rules, module \<open>AUX\<close> with one auto-focus rule, three facts and three partial matches, and
  empty agendas.
\<close>

definition sample_rule :: "string \<Rightarrow> module_id \<Rightarrow> int \<Rightarrow> 11 word \<Rightarrow> join_id \<Rightarrow> defrule" where
  "sample_rule nm m s c j = \<lparr>rule_name = nm, whichModule = m, rule_salience = s, complexity = c,
     afterBreakpoint = False, watchActivation = False, watchFiring = False, autoFocus = (m = 1),
     executing = False, dynamicSalience = None, logicalJoin = None, lastJoin = j, disjunct = None\<rparr>"

definition sample_match :: "entity_id \<Rightarrow> join_id \<Rightarrow> partialMatch" where
  "sample_match i j = \<lparr>binds = [Some (Some i)], marker = None, leftParent = None, rightParent = None, busy = False, match_owner = j, pm_dependents = []\<rparr>"

definition sample_symbols :: symbolData where
  "sample_symbols = \<lparr>SymbolTable = empty_table, FloatTable = empty_table, IntegerTable = empty_table,
     BitMapTable = empty_table, ExternalAddressTable = empty_table, TrueSymbol = None, FalseSymbol = None,
     PositiveInfinity = None, NegativeInfinity = None, Zero = None\<rparr>"

definition sample_env :: env where
  "sample_env = \<lparr>
     acts = Map.empty, grps = Map.empty, fresh = 0,
     items = [0 \<mapsto> \<lparr>groupings = None, agenda = None, ruleList = [0, 1]\<rparr>,
              1 \<mapsto> \<lparr>groupings = None, agenda = None, ruleList = [2]\<rparr>],
     rules = [0 \<mapsto> sample_rule ''r0'' 0 0 1 0, 1 \<mapsto> sample_rule ''r1'' 0 5 2 1, 2 \<mapsto> sample_rule ''r2'' 1 0 1 2],
     matches = [0 \<mapsto> sample_match 0 0, 1 \<mapsto> sample_match 1 1, 2 \<mapsto> sample_match 2 2],
     joins = [0 \<mapsto> \<lparr>ruleToActivate = Some 0, leftMemory = [[0]]\<rparr>,
              1 \<mapsto> \<lparr>ruleToActivate = Some 1, leftMemory = [[1]]\<rparr>,
              2 \<mapsto> \<lparr>ruleToActivate = Some 2, leftMemory = [[2]]\<rparr>],
     entities = [0 \<mapsto> \<lparr>timeTag = 1, busyCount = 0, dependents = []\<rparr>, 1 \<mapsto> \<lparr>timeTag = 2, busyCount = 0, dependents = []\<rparr>,
                 2 \<mapsto> \<lparr>timeTag = 3, busyCount = 0, dependents = []\<rparr>],
     agendaD = \<lparr>NumberOfActivations = 0, CurrentTimetag = 1, AgendaChanged = False,
                SalienceEvaluation = WHEN_DEFINED, Strategy = DEPTH_STRATEGY\<rparr>,
     engineD = \<lparr>ExecutingRule = None, HaltRules = False, TheLogicalJoin = None, TheLogicalBind = None,
                ListOfAfterRuleFiresFunctions = [], ListOfBeforeRuleFiresFunctions = [],
                CurrentFocus = [0], FocusChanged = False, WatchStatistics = False, WatchFocus = False,
                GlobalLHSBinds = None, GlobalRHSBinds = None, AlreadyRunning = False,
                UnsupportedDataEntities = [], alreadyEntered = False, JoinOperationInProgress = False\<rparr>,
     moduleD = \<lparr>ListOfDefmodules = [(0, ''MAIN''), (1, ''AUX'')], CurrentModule = Some 0,
                CallModuleChangeFunctions = True, ModuleChangeIndex = 0, ModuleStack = [],
                AfterModuleChangeFunctions = []\<rparr>,
     evalD = \<lparr>EvaluationError = False, HaltExecution = False, CurrentEvaluationDepth = 0,
              CurrentExpression = None, ReturnFlag = False, DanglingConstructs = 0\<rparr>,
     clearFlags = (False, False), numberOfFacts = 3, numberOfInstances = 0, dynValue = (\<lambda>_. EvalError), genrand = (\<lambda>n. int n), genrandPos = 0,
     messages = [], symbolD = sample_symbols, facts = Map.empty, deftemplates = Map.empty,
     factD = \<lparr>ChangeToFactList = False, LastFact = None, FactList = None, NextFactIndex = 1,
              ListOfAssertFunctions = [], ListOfRetractFunctions = [], ListOfModifyFunctions = [],
              FactHashTable = (\<lambda>_. []), FactHashTableSize = 16231, FactDuplication = False,
              LastModuleIndex = -1, retractError = RE_NO_ERROR, assertError = AE_NO_ERROR\<rparr>,
     garbageF = \<lparr>GarbageFacts = None, LastGarbageFact = None, frame_changed = False\<rparr>,
     CurrentEntityTimeTag = 4, toUnsignedLong = (\<lambda>d. d)\<rparr>"

lemma sample_env_ok: "agendas_ok sample_env (\<lambda>_. [])"
  by (rule agendas_okI)
    (auto simp: sample_env_def sample_rule_def agenda_rep_def falling_def split: if_splits)

lemma sample_env_ordered: "ordered sample_env (\<lambda>_. [])"
  by (simp add: ordered_def)

lemma sample_matches:
  "rules sample_env 0 = Some (sample_rule ''r0'' 0 0 1 0)"
  "matches sample_env 0 = Some (sample_match 0 0)" "marker (sample_match 0 0) = None"
  "match_ok sample_env (sample_match 0 0)"
  by (simp_all add: sample_env_def sample_match_def match_ok_def)

text \<open>The environment after rule \<open>r0\<close> has been activated.\<close>

definition sample_env1 :: env where
  "sample_env1 = (case AddActivation 0 0 sample_env of Some e \<Rightarrow> e | None \<Rightarrow> sample_env)"

lemma sample_env1_ok:
  "\<exists>F. agendas_ok sample_env1 F \<and> ordered sample_env1 F \<and> 0 \<in> set (flat (F 0)) \<and> (\<forall>k. k \<noteq> 0 \<longrightarrow> F k = [])"
proof -
  obtain e' gs' where e': "AddActivation 0 0 sample_env = Some e'" "inserted 0 0 [] gs'"
    "agendas_ok e' ((\<lambda>_. [])(0 := gs'))" "ordered e' ((\<lambda>_. [])(0 := gs'))"
    using AddActivation_ok [OF sample_env_ok sample_matches] sample_env_ordered
    by (auto simp: sample_rule_def salience_of_def sample_env_def)
  then have "sample_env1 = e'" by (simp add: sample_env1_def)
  with e' inserted_set [OF e'(2)] show ?thesis
    by (intro exI [of _ "(\<lambda>_. [])(0 := gs')"]) simp
qed

end
