(* ===== verification/Agenda_Loops.thy ===== *)
theory Agenda_Loops
  imports Agenda_Props
begin

text \<open>
  The operations of \<^verbatim>\<open>agenda.c\<close> that walk a whole agenda while they remove, replace or
  re-place its activations.  Each walk is shown to end and to have the intended effect on
  the abstract agenda.
\<close>

section \<open>Removing the activations of an agenda\<close>

definition keep_acts :: "(addr \<Rightarrow> bool) \<Rightarrow> agroup list \<Rightarrow> agroup list" where
  "keep_acts p gs = filter (\<lambda>g. g_acts g \<noteq> []) (map (\<lambda>g. (g_addr g, g_sal g, filter p (g_acts g))) gs)"

lemma remove_act_keep: "remove_act x gs = keep_acts (\<lambda>y. y \<noteq> x) gs"
  by (simp add: remove_act_def keep_acts_def)

lemma flat_keep_acts: "flat (keep_acts p gs) = filter p (flat gs)"
  by (induction gs) (auto simp: keep_acts_def filter_empty_conv)

lemma keep_acts_comp: "keep_acts p (keep_acts q gs) = keep_acts (\<lambda>x. q x \<and> p x) gs"
  by (induction gs) (auto simp: keep_acts_def filter_empty_conv)

lemma keep_acts_cong: "(\<And>x. x \<in> set (flat gs) \<Longrightarrow> p x = q x) \<Longrightarrow> keep_acts p gs = keep_acts q gs"
proof (induction gs)
  case (Cons g gs)
  have "filter p (g_acts g) = filter q (g_acts g)" by (rule filter_cong) (use Cons.prems in auto)
  with Cons show ?case by (simp add: keep_acts_def)
qed (simp add: keep_acts_def)

lemma keep_acts_all: "\<lbrakk>no_empty gs; \<And>x. x \<in> set (flat gs) \<Longrightarrow> p x\<rbrakk> \<Longrightarrow> keep_acts p gs = gs"
proof (induction gs)
  case (Cons g gs)
  have "filter p (g_acts g) = g_acts g" by (rule filter_True) (use Cons.prems in auto)
  with Cons show ?case by (simp add: keep_acts_def)
qed (simp add: keep_acts_def)

lemma remove_acts_ok:
  assumes "agendas_ok e F" and "flat (F m) = xs"
  shows "\<exists>e'. remove_acts (hdp xs None) e = Some e' \<and> agendas_ok e' (F(m := [])) \<and>
    (ordered e F \<longrightarrow> ordered e' (F(m := []))) \<and> moduleD e' = moduleD e \<and> rules e' = rules e \<and>
    dom (acts e') = dom (acts e) - set xs \<and> (items e m \<noteq> None \<longrightarrow> items e' m \<noteq> None)"
  using assms
proof (induction xs arbitrary: e F)
  case Nil
  then have "F(m := []) = F" using agendas_okD(2) [of e F m] no_empty_flat by fastforce
  with Nil show ?case by (simp add: remove_acts.simps)
next
  case (Cons x xs)
  have x: "x \<in> set (flat (F m))" using Cons.prems(2) by simp
  note ok = Cons.prems(1)
  obtain e1 where e1: "RemoveActivation x True True e = Some e1" "agendas_ok e1 (F(m := remove_act x (F m)))"
    "ordered e F \<longrightarrow> ordered e1 (F(m := remove_act x (F m)))" "rules e1 = rules e" "moduleD e1 = moduleD e"
    "dom (acts e1) = dom (acts e) - {x}" "map_option ruleList (items e1 m) = map_option ruleList (items e m)"
    using RemoveActivation_ok [OF ok x] by blast
  have seg: "dlseg (act_links (acts e)) None ([] @ x # xs) None" and dist: "distinct (x # xs)"
    using agenda_repD(2,4) [OF on_agenda(1) [OF ok x]] Cons.prems(2) by auto
  obtain A where A: "acts e x = Some A" "act_next A = hdp xs None" using dlseg_node [OF seg] by auto
  have "filter (\<lambda>y. y \<noteq> x) xs = xs" using dist by (auto simp: filter_id_conv)
  then have "flat ((F(m := remove_act x (F m))) m) = xs"
    using Cons.prems(2) by (simp add: flat_remove_act)
  from Cons.IH [OF e1(2) this, unfolded fun_upd_upd] obtain e' where e': "remove_acts (hdp xs None) e1 = Some e'"
    "agendas_ok e' (F(m := []))" "ordered e1 (F(m := remove_act x (F m))) \<longrightarrow> ordered e' (F(m := []))"
    "moduleD e' = moduleD e1" "rules e' = rules e1" "dom (acts e') = dom (acts e1) - set xs"
    "items e1 m \<noteq> None \<longrightarrow> items e' m \<noteq> None" by blast
  have "remove_acts (hdp (x # xs) None) e = Some e'"
    using A e1(1) e'(1) by (subst remove_acts.simps) simp
  moreover have "items e m \<noteq> None \<longrightarrow> items e1 m \<noteq> None"
    using e1(7) by (metis option.map_disc_iff)
  moreover have "dom (acts e') = dom (acts e) - set (x # xs)" using e'(6) e1(6) by auto
  ultimately show ?case using e'(2-5,7) e1(3-5) by (metis (no_types, lifting))
qed

lemma RemoveAllActivations_ok:
  assumes ok: "agendas_ok e F" and m: "CurrentModule (moduleD e) = Some m" "items e m \<noteq> None"
  shows "\<exists>e'. RemoveAllActivations e = Some e' \<and> agendas_ok e' (F(m := [])) \<and>
    (ordered e F \<longrightarrow> ordered e' (F(m := []))) \<and> moduleD e' = moduleD e \<and>
    dom (acts e') = dom (acts e) - set (flat (F m))"
proof -
  obtain it where it: "items e m = Some it" "agenda it = hdp (flat (F m)) None"
    using agenda_repD(1) [OF agendas_okD(1) [OF ok m(2)]] by auto
  obtain e' where e': "remove_acts (hdp (flat (F m)) None) e = Some e'" "agendas_ok e' (F(m := []))"
    "ordered e F \<longrightarrow> ordered e' (F(m := []))" "moduleD e' = moduleD e" "dom (acts e') = dom (acts e) - set (flat (F m))"
    "items e m \<noteq> None \<longrightarrow> items e' m \<noteq> None"
    using remove_acts_ok [OF ok refl] by blast
  have "items e' m \<noteq> None" using e'(6) m(2) by simp
  then obtain it' where it': "items e' m = Some it'" "groupings it' = None"
    using agenda_repD(1) [OF agendas_okD(1) [OF e'(2), of m]] by auto
  have "RemoveAllActivations e = Some e'"
    using m it it' e'(1,4)
    by (simp add: RemoveAllActivations_def GetDefruleModuleItem_def GetModuleItem_def free_groups.simps)
  with e' show ?thesis by blast
qed

section \<open>Clearing the activations of one rule\<close>

text \<open>The disjuncts of a rule, as the chain of its \<open>disjunct\<close> pointers.\<close>

fun disjunct_chain :: "env \<Rightarrow> rule_id option \<Rightarrow> rule_id list \<Rightarrow> bool" where
  "disjunct_chain e p [] = (p = None)"
| "disjunct_chain e p (d # ds) = (p = Some d \<and>
     (case rules e d of None \<Rightarrow> False | Some D \<Rightarrow> disjunct_chain e (disjunct D) ds))"

lemma disjunct_chain_cong:
  "(\<And>d. map_option disjunct (rules e' d) = map_option disjunct (rules e d)) \<Longrightarrow>
     disjunct_chain e' p ds = disjunct_chain e p ds"
proof (induction ds arbitrary: p)
  case (Cons d ds)
  from Cons.prems [of d] Cons.IH [OF Cons.prems] show ?case
    by (cases "rules e' d"; cases "rules e d") auto
qed simp

lemma is_disjunct_eq: "disjunct_chain e p ds \<Longrightarrow> is_disjunct e r p = Some (r \<in> set ds)"
proof (induction ds arbitrary: p)
  case Nil
  then show ?case by (simp add: is_disjunct.simps)
next
  case (Cons d ds)
  then obtain D where D: "p = Some d" "rules e d = Some D" "disjunct_chain e (disjunct D) ds"
    by (auto split: option.splits)
  with Cons.IH [OF D(3)] show ?case by (subst is_disjunct.simps) simp
qed

definition rule_at :: "env \<Rightarrow> addr \<Rightarrow> rule_id option" where
  "rule_at e x = map_option theRule (acts e x)"

lemma RemoveActivation_rule_at:
  assumes ok: "agendas_ok e F" and x: "x \<in> set (flat (F m))" and e': "RemoveActivation x True True e = Some e'"
    and y: "y \<noteq> x"
  shows "rule_at e' y = rule_at e y"
proof -
  have "map_option act_pay (acts e' y) = map_option act_pay (acts e y)"
    using RemoveActivation_ok [OF ok x] e' y by (auto simp: pays_of_def)
  then show ?thesis
    by (cases "acts e' y"; cases "acts e y") (auto simp: rule_at_def dest!: act_pay_eqD)
qed

lemma clear_rule_loop_ok:
  assumes "agendas_ok e F" and "flat (F m) = P @ S" and "disjunct_chain e (Some r) ds"
  shows "\<exists>e'. clear_rule_loop r (hdp S None) e = Some e' \<and>
    agendas_ok e' (F(m := keep_acts (\<lambda>x. x \<in> set S \<longrightarrow> rule_at e x \<notin> Some ` set ds) (F m))) \<and>
    (ordered e F \<longrightarrow> ordered e' (F(m := keep_acts (\<lambda>x. x \<in> set S \<longrightarrow> rule_at e x \<notin> Some ` set ds) (F m))))"
  using assms
proof (induction S arbitrary: e F P)
  case Nil
  then have "F(m := keep_acts (\<lambda>x. True) (F m)) = F"
    using agendas_okD(2) [OF Nil.prems(1)] by (simp add: keep_acts_all)
  with Nil show ?case by (simp add: clear_rule_loop.simps)
next
  case (Cons x S)
  note ok = Cons.prems(1)
  have x: "x \<in> set (flat (F m))" using Cons.prems(2) by simp
  have seg: "dlseg (act_links (acts e)) None (P @ x # S) None" and dist: "distinct (P @ x # S)"
    using agenda_repD(2,4) [OF on_agenda(1) [OF ok x]] Cons.prems(2) by auto
  obtain A where A: "acts e x = Some A" "act_next A = hdp S None" using dlseg_node [OF seg] by auto
  let ?keep = "\<lambda>x. rule_at e x \<notin> Some ` set ds"
  have dis: "is_disjunct e (theRule A) (Some r) = Some (theRule A \<in> set ds)"
    by (rule is_disjunct_eq [OF Cons.prems(3)])
  have kx: "?keep x = (theRule A \<notin> set ds)" using A by (auto simp: rule_at_def)
  show ?case
  proof (cases "theRule A \<in> set ds")
    case False
    have fl: "flat (F m) = (P @ [x]) @ S" using Cons.prems(2) by simp
    obtain e' where e': "clear_rule_loop r (hdp S None) e = Some e'"
      "agendas_ok e' (F(m := keep_acts (\<lambda>y. y \<in> set S \<longrightarrow> ?keep y) (F m)))"
      "ordered e F \<longrightarrow> ordered e' (F(m := keep_acts (\<lambda>y. y \<in> set S \<longrightarrow> ?keep y) (F m)))"
      using Cons.IH [OF ok fl Cons.prems(3)] by blast
    have "keep_acts (\<lambda>y. y \<in> set S \<longrightarrow> ?keep y) (F m) = keep_acts (\<lambda>y. y \<in> set (x # S) \<longrightarrow> ?keep y) (F m)"
      by (rule keep_acts_cong) (use kx False in auto)
    with e' A dis False show ?thesis by (subst clear_rule_loop.simps) simp
  next
    case True
    obtain e1 where e1: "RemoveActivation x True True e = Some e1" "agendas_ok e1 (F(m := remove_act x (F m)))"
      "ordered e F \<longrightarrow> ordered e1 (F(m := remove_act x (F m)))" "rules e1 = rules e"
      using RemoveActivation_ok [OF ok x] by blast
    have same: "rule_at e1 y = rule_at e y" if "y \<in> set S" for y
      using RemoveActivation_rule_at [OF ok x e1(1), of y] that dist by auto
    have fl: "flat ((F(m := remove_act x (F m))) m) = P @ S"
    proof -
      have "filter (\<lambda>y. y \<noteq> x) P = P" "filter (\<lambda>y. y \<noteq> x) S = S" using dist by (auto simp: filter_id_conv)
      then show ?thesis using Cons.prems(2) by (simp add: flat_remove_act)
    qed
    have dc: "disjunct_chain e1 (Some r) ds"
      using Cons.prems(3) disjunct_chain_cong [of e1 e] e1(4) by simp
    have keep: "keep_acts (\<lambda>y. y \<in> set S \<longrightarrow> rule_at e1 y \<notin> Some ` set ds) (remove_act x (F m)) =
        keep_acts (\<lambda>y. y \<in> set (x # S) \<longrightarrow> ?keep y) (F m)"
      unfolding remove_act_keep keep_acts_comp by (rule keep_acts_cong) (use kx True same dist in auto)
    from Cons.IH [OF e1(2) fl dc, unfolded fun_upd_upd fun_upd_same keep] obtain e' where
      e': "clear_rule_loop r (hdp S None) e1 = Some e'"
        "agendas_ok e' (F(m := keep_acts (\<lambda>y. y \<in> set (x # S) \<longrightarrow> ?keep y) (F m)))"
        "ordered e1 (F(m := remove_act x (F m))) \<longrightarrow> ordered e' (F(m := keep_acts (\<lambda>y. y \<in> set (x # S) \<longrightarrow> ?keep y) (F m)))"
      by blast
    have "clear_rule_loop r (hdp (x # S) None) e = Some e'"
      using A dis True e1(1) e'(1) by (subst clear_rule_loop.simps) simp
    with e' e1(3) show ?thesis by blast
  qed
qed

lemma ClearRuleFromAgenda_ok:
  assumes ok: "agendas_ok e F" and R: "rules e r = Some R" and ds: "disjunct_chain e (Some r) ds"
  defines "gs' \<equiv> keep_acts (\<lambda>x. rule_at e x \<notin> Some ` set ds) (F (whichModule R))"
  shows "\<exists>e'. ClearRuleFromAgenda r e = Some e' \<and> agendas_ok e' (F(whichModule R := gs')) \<and>
    (ordered e F \<longrightarrow> ordered e' (F(whichModule R := gs')))"
proof -
  let ?m = "whichModule R"
  have m: "items e ?m \<noteq> None" using agendas_okD(10) [OF ok R] .
  obtain it where it: "items e ?m = Some it" "agenda it = hdp (flat (F ?m)) None"
    using agenda_repD(1) [OF agendas_okD(1) [OF ok m]] by auto
  have keep: "keep_acts (\<lambda>x. x \<in> set (flat (F ?m)) \<longrightarrow> rule_at e x \<notin> Some ` set ds) (F ?m) = gs'"
    unfolding gs'_def by (rule keep_acts_cong) simp
  have "flat (F ?m) = [] @ flat (F ?m)" by simp
  from clear_rule_loop_ok [OF ok this ds, unfolded keep] R it show ?thesis
    by (simp add: ClearRuleFromAgenda_def)
qed

section \<open>Placing floating activations\<close>

text \<open>
  An activation of module \<open>m\<close> that is allocated and sound but on no agenda.
\<close>

definition floating :: "env \<Rightarrow> (module_id \<Rightarrow> agroup list) \<Rightarrow> module_id \<Rightarrow> addr \<Rightarrow> bool" where
  "floating e F m x \<longleftrightarrow> (case acts e x of None \<Rightarrow> False | Some A \<Rightarrow> rule_module e (theRule A) = Some m) \<and>
     act_ok_at e x \<and> marked e x \<and> (\<forall>k. x \<notin> set (flat (F k)))"

lemma floating_cong:
  assumes f: "floating e F m x" and acts: "acts e' x = acts e x" and net: "same_network e e'"
    and match: "matches e' = matches e" and off: "\<And>k. x \<notin> set (flat (F' k))"
  shows "floating e' F' m x"
proof -
  have "act_ok_at e' x" using f act_ok_at_cong [OF net, of x] acts by (simp add: floating_def pays_of_def)
  moreover have "marked e' x" using f marked_cong [OF acts match] by (simp add: floating_def)
  ultimately show ?thesis
    using f off acts same_network_rules(1) [OF net] by (cases "acts e x") (simp_all add: floating_def)
qed

text \<open>What the re-placing of activations leaves unchanged.\<close>

definition replace_frame :: "env \<Rightarrow> env \<Rightarrow> bool" where
  "replace_frame e e' \<longleftrightarrow> rules e' = rules e \<and> matches e' = matches e \<and> joins e' = joins e \<and>
     entities e' = entities e \<and> moduleD e' = moduleD e \<and> engineD e' = engineD e \<and> evalD e' = evalD e \<and>
     dynValue e' = dynValue e \<and> messages e' = messages e \<and> clearFlags e' = clearFlags e \<and>
     pays_of act_pay (acts e') = pays_of act_pay (acts e) \<and>
     Strategy (agendaD e') = Strategy (agendaD e) \<and> SalienceEvaluation (agendaD e') = SalienceEvaluation (agendaD e) \<and>
     (\<forall>k. map_option ruleList (items e' k) = map_option ruleList (items e k))"

lemma replace_frame_refl [simp]: "replace_frame e e"
  by (simp add: replace_frame_def)

lemma replace_frame_trans: "\<lbrakk>replace_frame e e'; replace_frame e' e''\<rbrakk> \<Longrightarrow> replace_frame e e''"
  by (simp add: replace_frame_def)

lemma replace_frame_network: "replace_frame e e' \<Longrightarrow> same_network e e'"
  by (simp add: replace_frame_def same_network_def)

lemma replace_frame_ordered:
  "replace_frame e e' \<Longrightarrow> agenda_ordered e' st gs = agenda_ordered e st gs"
  by (rule agenda_ordered_cong [OF replace_frame_network]) (simp_all add: replace_frame_def)

lemma local_step_replace:
  assumes "local_step m X K e e'" and "pays_of act_pay (acts e') = pays_of act_pay (acts e)"
  shows "replace_frame e e'"
proof -
  have "map_option ruleList (items e' k) = map_option ruleList (items e k)" for k
    using assms(1) by (cases "k = m") (simp_all add: local_step_def)
  then show ?thesis using assms local_step_fields [OF assms(1)] by (simp add: replace_frame_def)
qed

lemma clear_links_ok:
  assumes ok: "agendas_ok e F" and fl: "floating e F m x" and A: "acts e x = Some A"
  defines "e' \<equiv> e\<lparr>acts := (acts e)(x \<mapsto> A\<lparr>act_next := None, act_prev := None\<rparr>)\<rparr>"
  shows "agendas_ok e' F" and "replace_frame e e'"
proof -
  have pays: "pays_of act_pay (acts e') = pays_of act_pay (acts e)"
    using A by (auto simp: e'_def pays_of_def act_pay_def)
  then show rf: "replace_frame e e'" by (simp add: replace_frame_def) (simp add: e'_def)
  have off: "x \<notin> set (flat (F k))" for k using fl by (simp add: floating_def)
  show "agendas_ok e' F"
  proof (rule agendas_ok_frame [OF ok replace_frame_network [OF rf]])
    show "marked e' y" if "y \<in> set (flat (F k))" for k y
    proof -
      have "y \<noteq> x" using that off by blast
      then show ?thesis using agendas_okD(9) [OF ok that] marked_cong [of e' y e] by (simp add: e'_def)
    qed
    show "NumberOfActivations (agendaD e') = of_nat (card (dom (acts e')))"
      using agendas_okD(11) [OF ok] pays_of_dom_eq [OF pays] by (simp add: e'_def)
    show "acts e' a = None" if "fresh e \<le> a" for a
      using agendas_okD(5) [OF ok that] pays_of_dom [OF pays] by blast
  qed (use off in \<open>auto simp: e'_def\<close>)
qed

lemma reorder_loop_ok:
  assumes "agendas_ok e F" and "items e m \<noteq> None" and "dlseg (act_links (acts e)) p S None" and "distinct S"
    and "\<And>x. x \<in> set S \<Longrightarrow> floating e F m x"
  shows "\<exists>e' gs'. reorder_loop m (hdp S None) e = Some e' \<and> agendas_ok e' (F(m := gs')) \<and>
    mset (flat gs') = mset (flat (F m)) + mset S \<and> replace_frame e e' \<and>
    (agenda_ordered e (Strategy (agendaD e)) (F m) \<longrightarrow> agenda_ordered e' (Strategy (agendaD e)) gs')"
  using assms
proof (induction S arbitrary: e F p)
  case Nil
  then show ?case
    by (intro exI [of _ e] exI [of _ "F m"]) (simp add: reorder_loop.simps)
next
  case (Cons x S)
  note ok = Cons.prems(1)
  have fx: "floating e F m x" using Cons.prems(5) by simp
  obtain A where A: "acts e x = Some A" "act_next A = hdp S None"
    using dlseg_node [of act_prev act_next "acts e" p "[]" x S None] Cons.prems(3) by auto
  let ?e1 = "e\<lparr>acts := (acts e)(x \<mapsto> A\<lparr>act_next := None, act_prev := None\<rparr>)\<rparr>" and ?s = "act_salience A"
  note c = clear_links_ok [OF ok fx A(1)]
  have off: "x \<notin> set (flat (F k))" for k using fx by (simp add: floating_def)
  have mem: "act_in ?e1 m ?s x" using fx A by (simp add: act_in_def floating_def rule_module_def)
  have okx: "act_ok_at ?e1 x" "marked ?e1 x"
  proof -
    have "pays_of act_pay (acts ?e1) x = pays_of act_pay (acts e) x" using c(2) by (simp add: replace_frame_def)
    then show "act_ok_at ?e1 x" using fx act_ok_at_cong [OF replace_frame_network [OF c(2)], of x] by (simp add: floating_def)
    show "marked ?e1 x" using fx A by (simp add: floating_def marked_def)
  qed
  obtain g e2 e3 gs where e3: "ReuseOrCreateSalienceGroup m ?s ?e1 = Some (g, e2)" "PlaceActivation m x g e2 = Some e3"
    "inserted x ?s (F m) gs" "agendas_ok e3 (F(m := gs))"
    "agenda_ordered ?e1 (Strategy (agendaD ?e1)) (F m) \<longrightarrow> agenda_ordered e3 (Strategy (agendaD ?e1)) gs"
    "local_step m (insert x (set (flat (F m)))) (set (gaddrs gs)) ?e1 e3"
    "pays_of act_pay (acts e3) = pays_of act_pay (acts ?e1)"
    using place_new [OF c(1) _ _ off mem okx] Cons.prems(2) by auto
  have rf1: "replace_frame ?e1 e3" by (rule local_step_replace [OF e3(6,7)])
  have rf: "replace_frame e e3" by (rule replace_frame_trans [OF c(2) rf1])
  have it3: "items e3 m \<noteq> None" using rf Cons.prems(2) by (metis option.map_disc_iff replace_frame_def)
  have S3: "acts e3 y = acts e y" if "y \<in> set S" for y
  proof -
    have "y \<notin> insert x (set (flat (F m)))" using that Cons.prems(4,5) by (auto simp: floating_def)
    then show ?thesis using e3(6) by (auto simp: local_step_def)
  qed
  have "dlseg (act_links (acts e3)) (Some x) S None"
    using Cons.prems(3) S3 by (subst dlseg_cong [of _ _ "act_links (acts e)"]) (auto simp: links_of_def)
  moreover have "floating e3 (F(m := gs)) m y" if "y \<in> set S" for y
  proof (rule floating_cong [of e F])
    show "floating e F m y" using that Cons.prems(5) by simp
    then show "y \<notin> set (flat ((F(m := gs)) k))" for k
      using that Cons.prems(4) inserted_set [OF e3(3)] by (auto simp: floating_def)
    show "matches e3 = matches e" using rf by (simp add: replace_frame_def)
  qed (use S3 that replace_frame_network [OF rf] in auto)
  ultimately obtain e' gs' where e': "reorder_loop m (hdp S None) e3 = Some e'" "agendas_ok e' (F(m := gs'))"
    "mset (flat gs') = mset (flat gs) + mset S" "replace_frame e3 e'"
    "agenda_ordered e3 (Strategy (agendaD e3)) gs \<longrightarrow> agenda_ordered e' (Strategy (agendaD e3)) gs'"
    using Cons.IH [OF e3(4) it3, of "Some x"] Cons.prems(4) by (fastforce simp: fun_upd_upd)
  have code: "reorder_loop m (hdp (x # S) None) e = Some e'"
    using A e3(1,2) e'(1) by (subst reorder_loop.simps) (simp add: heap_simps)
  have ms: "mset (flat gs') = mset (flat (F m)) + mset (x # S)"
    using e'(3) inserted_mset [OF e3(3)] by simp
  have "Strategy (agendaD e3) = Strategy (agendaD e)" using rf by (simp add: replace_frame_def)
  moreover have "agenda_ordered ?e1 st (F m) = agenda_ordered e st (F m)" for st
    by (rule replace_frame_ordered [OF c(2)])
  ultimately have "agenda_ordered e (Strategy (agendaD e)) (F m) \<longrightarrow> agenda_ordered e' (Strategy (agendaD e)) gs'"
    using e'(5) e3(5) by simp
  with code ms show ?case using e'(2) replace_frame_trans [OF rf e'(4)] by blast
qed

section \<open>Reordering an agenda\<close>

lemma free_groups_eq:
  assumes "dlseg (grp_links (grps e)) p K None" and "distinct K"
  shows "free_groups (hdp K None) e = Some (e\<lparr>grps := (\<lambda>g. if g \<in> set K then None else grps e g)\<rparr>)"
  using assms
proof (induction K arbitrary: e p)
  case Nil
  then show ?case by (simp add: free_groups.simps)
next
  case (Cons k K)
  obtain G where G: "grps e k = Some G" "grp_next G = hdp K None"
    using dlseg_node [of grp_prev grp_next "grps e" p "[]" k K None] Cons.prems(1) by auto
  let ?e = "e\<lparr>grps := (grps e)(k := None)\<rparr>"
  have seg: "dlseg (grp_links (grps ?e)) (Some k) K None" using Cons.prems by simp
  have eq: "(\<lambda>g. if g \<in> set K then None else grps ?e g) = (\<lambda>g. if g \<in> set (k # K) then None else grps e g)"
    by auto
  have "free_groups (hdp (k # K) None) e = free_groups (hdp K None) ?e"
    using G by (subst free_groups.simps) simp
  also have "\<dots> = Some (?e\<lparr>grps := (\<lambda>g. if g \<in> set (k # K) then None else grps e g)\<rparr>)"
    using Cons.IH [OF seg] Cons.prems(2) unfolding eq by simp
  finally show ?case by simp
qed

text \<open>
  The state in which \<^verbatim>\<open>ReorderAgenda\<close> may start: the chain of activations of module \<open>m\<close> is
  intact, its groups are allocated and chained, but saliences may have changed since the
  activations were grouped.  \<open>strip\<close> is what the first half of the function leaves.
\<close>

definition strip :: "module_id \<Rightarrow> addr list \<Rightarrow> env \<Rightarrow> env" where
  "strip m K e = e\<lparr>grps := (\<lambda>g. if g \<in> set K then None else grps e g),
     items := (items e)(m := map_option (\<lambda>it. it\<lparr>agenda := None, groupings := None\<rparr>) (items e m))\<rparr>"

definition loose :: "env \<Rightarrow> (module_id \<Rightarrow> agroup list) \<Rightarrow> module_id \<Rightarrow> addr list \<Rightarrow> addr list \<Rightarrow> bool" where
  "loose e F m xs K \<longleftrightarrow> F m = [] \<and>
     (case items e m of None \<Rightarrow> False | Some it \<Rightarrow> agenda it = hdp xs None \<and> groupings it = hdp K None) \<and>
     dlseg (act_links (acts e)) None xs None \<and> distinct xs \<and>
     dlseg (grp_links (grps e)) None K None \<and> distinct K \<and>
     agendas_ok (strip m K e) F \<and> (\<forall>x\<in>set xs. floating e F m x)"

lemma strip_frame: "replace_frame e (strip m K e)"
  by (auto simp: replace_frame_def strip_def option.map_comp comp_def)

lemma agendas_ok_loose:
  assumes ok: "agendas_ok e F" and m: "items e m \<noteq> None"
  shows "loose e (F(m := [])) m (flat (F m)) (gaddrs (F m))"
proof -
  have rep: "agenda_rep e m (F m)" by (rule agendas_okD(1) [OF ok m])
  obtain it where it: "items e m = Some it" "agenda it = hdp (flat (F m)) None" "groupings it = hdp (gaddrs (F m)) None"
    using agenda_repD(1) [OF rep] by blast
  let ?e = "strip m (gaddrs (F m)) e"
  have ls: "local_step m {} (set (gaddrs (F m))) e ?e"
    using it(1) by (auto simp: local_step_def strip_def intro: exI [of _ "AgendaChanged (agendaD e)"])
  have "agenda_rep ?e m []" using it(1) by (simp add: agenda_rep_def strip_def falling_def)
  then have "agendas_ok ?e (F(m := []))"
    by (rule agendas_ok_step [OF ok m ls]) (auto simp: strip_def)
  moreover have "floating e (F(m := [])) m x" if xin: "x \<in> set (flat (F m))" for x
  proof -
    obtain A R where "acts e x = Some A" "rules e (theRule A) = Some R" "whichModule R = m"
      using on_agenda(2) [OF ok xin] by blast
    moreover have "x \<notin> set (flat ((F(m := [])) k))" for k
      using agendas_disjoint [OF ok, of m k] xin by (cases "k = m") auto
    ultimately show ?thesis
      using agendas_okD(8,9) [OF ok xin] by (simp add: floating_def rule_module_def)
  qed
  ultimately show ?thesis using it agenda_repD(2-5) [OF rep] by (simp add: loose_def)
qed

lemma ReorderAgenda_loose:
  assumes l: "loose e F m xs K"
  shows "\<exists>e' gs'. ReorderAgenda (Some m) e = Some e' \<and> agendas_ok e' (F(m := gs')) \<and>
    mset (flat gs') = mset xs \<and> agenda_ordered e' (Strategy (agendaD e)) gs' \<and> replace_frame e e'"
proof -
  obtain it where it: "items e m = Some it" "agenda it = hdp xs None" "groupings it = hdp K None"
    using l by (auto simp: loose_def split: option.splits)
  let ?e = "strip m K e"
  have seg: "dlseg (grp_links (grps e)) None K None" "distinct K" using l by (simp_all add: loose_def)
  have free: "free_groups (hdp K None) (e\<lparr>items := (items e)(m \<mapsto> it\<lparr>agenda := None\<rparr>)\<rparr>) =
      Some (e\<lparr>items := (items e)(m \<mapsto> it\<lparr>agenda := None\<rparr>), grps := (\<lambda>g. if g \<in> set K then None else grps e g)\<rparr>)"
    using free_groups_eq [of "e\<lparr>items := (items e)(m \<mapsto> it\<lparr>agenda := None\<rparr>)\<rparr>" None K] seg by (simp cong: if_cong)
  have code: "ReorderAgenda (Some m) e = reorder_loop m (hdp xs None) ?e"
    using it free
    by (simp add: ReorderAgenda_def GetDefruleModuleItem_def GetModuleItem_def heap_simps strip_def)
  have rf: "replace_frame e ?e" by (rule strip_frame)
  have "floating ?e F m x" if "x \<in> set xs" for x
  proof (rule floating_cong)
    show fl: "floating e F m x" using l that by (simp add: loose_def)
    then show "x \<notin> set (flat (F k))" for k by (simp add: floating_def)
    show "acts ?e x = acts e x" "matches ?e = matches e" by (simp_all add: strip_def)
  qed (rule replace_frame_network [OF rf])
  moreover have "agendas_ok ?e F" "items ?e m \<noteq> None" "dlseg (act_links (acts ?e)) None xs None" "distinct xs" "F m = []"
    using l it(1) by (simp_all add: loose_def) (simp_all add: strip_def)
  ultimately obtain e' gs' where e': "reorder_loop m (hdp xs None) ?e = Some e'" "agendas_ok e' (F(m := gs'))"
    "mset (flat gs') = mset xs" "replace_frame ?e e'" "agenda_ordered e' (Strategy (agendaD ?e)) gs'"
    using reorder_loop_ok [of ?e F m None xs] by auto
  have "Strategy (agendaD ?e) = Strategy (agendaD e)" by (simp add: strip_def)
  then show ?thesis using code e' replace_frame_trans [OF rf e'(4)] by auto
qed

lemma ReorderAgenda_ok:
  assumes ok: "agendas_ok e F" and m: "items e m \<noteq> None"
  shows "\<exists>e' gs'. ReorderAgenda (Some m) e = Some e' \<and> agendas_ok e' (F(m := gs')) \<and>
    mset (flat gs') = mset (flat (F m)) \<and> agenda_ordered e' (Strategy (agendaD e)) gs' \<and> replace_frame e e'"
  using ReorderAgenda_loose [OF agendas_ok_loose [OF ok m]] by (simp only: fun_upd_upd)

section \<open>Inserting and removing\<close>

lemma remove_inserted:
  assumes ins: "inserted n s gs gs'" and ne: "no_empty gs" and n: "n \<notin> set (flat gs)"
  shows "remove_act n gs' = gs"
proof -
  obtain hs g ys zs ks where gs': "gs' = hs @ (g, s, ys @ n # zs) # ks"
    and old: "gs = hs @ (g, s, ys @ zs) # ks \<or> gs = hs @ ks \<and> ys = [] \<and> zs = []"
    using ins unfolding inserted_def by blast
  have app: "keep_acts p (us @ vs) = keep_acts p us @ keep_acts p vs" for p us vs by (simp add: keep_acts_def)
  have "keep_acts (\<lambda>y. y \<noteq> n) hs = hs" "keep_acts (\<lambda>y. y \<noteq> n) ks = ks"
    by (rule keep_acts_all; use old ne n in auto)+
  moreover have "filter (\<lambda>y. y \<noteq> n) us = us" if "n \<notin> set us" for us using that by (induction us) auto
  then have "filter (\<lambda>y. y \<noteq> n) (ys @ n # zs) = ys @ zs" using old n by auto
  ultimately show ?thesis using old ne unfolding remove_act_keep gs' by (auto simp: app keep_acts_def)
qed

lemma disjunct_chain_rules: "\<lbrakk>disjunct_chain e p ds; d \<in> set ds\<rbrakk> \<Longrightarrow> rules e d \<noteq> None"
  by (induction ds arbitrary: p) (auto split: option.splits)

end
