(* ===== verification/Agenda_Refresh.thy ===== *)
theory Agenda_Refresh
  imports Agenda_Loops
begin

text \<open>
  Changing the strategy and refreshing saliences: both re-place the activations of whole
  agendas.
\<close>

section \<open>All agendas\<close>

definition modules_ok :: "env \<Rightarrow> bool" where
  "modules_ok e \<longleftrightarrow> distinct (map fst (ListOfDefmodules (moduleD e))) \<and>
     (\<forall>m. items e m \<noteq> None \<longleftrightarrow> m \<in> set (map fst (ListOfDefmodules (moduleD e))))"

lemma replace_frame_items: "replace_frame e e' \<Longrightarrow> (items e' m = None) = (items e m = None)"
  by (metis option.map_disc_iff replace_frame_def)

lemma ReorderAllAgendas_ok:
  assumes ok: "agendas_ok e F" and mo: "modules_ok e"
  shows "\<exists>e' F'. ReorderAllAgendas e = Some e' \<and> agendas_ok e' F' \<and> ordered e' F' \<and>
    (\<forall>m. mset (flat (F' m)) = mset (flat (F m))) \<and> replace_frame e e'"
proof -
  let ?L = "ListOfDefmodules (moduleD e)" and ?st = "Strategy (agendaD e)"
  define I where "I = (\<lambda>(ms :: (module_id \<times> string) list) e'. \<exists>F'. agendas_ok e' F' \<and> (\<forall>k. mset (flat (F' k)) = mset (flat (F k))) \<and>
    replace_frame e e' \<and> (\<forall>k\<in>set (map fst ms). agenda_ordered e' ?st (F' k)))"
  have list: "ListOfDefmodules (moduleD e') = ?L" if "I ms e'" for ms e'
    using that by (auto simp: I_def replace_frame_def)
  have step: "\<exists>e'. ReorderAgenda (Some m) e1 = Some e' \<and> I (ms @ [(m, nm)]) e'"
    if L: "?L = ms @ (m, nm) # post" and i: "I ms e1" for ms m nm post e1
  proof -
    obtain F1 where F1: "agendas_ok e1 F1" "\<forall>k. mset (flat (F1 k)) = mset (flat (F k))" "replace_frame e e1"
      "\<forall>k\<in>set (map fst ms). agenda_ordered e1 ?st (F1 k)" using i by (auto simp: I_def)
    have "items e1 m \<noteq> None" using L mo replace_frame_items [OF F1(3)] by (auto simp: modules_ok_def)
    then obtain e' gs' where e': "ReorderAgenda (Some m) e1 = Some e'" "agendas_ok e' (F1(m := gs'))"
      "mset (flat gs') = mset (flat (F1 m))" "agenda_ordered e' (Strategy (agendaD e1)) gs'" "replace_frame e1 e'"
      using ReorderAgenda_ok [OF F1(1)] by blast
    have "Strategy (agendaD e1) = ?st" using F1(3) by (simp add: replace_frame_def)
    then have "I (ms @ [(m, nm)]) e'"
      unfolding I_def using e' F1 replace_frame_trans [OF F1(3) e'(5)] replace_frame_ordered [OF e'(5)]
      by (intro exI [of _ "F1(m := gs')"]) auto
    with e'(1) show ?thesis by blast
  qed
  have "I [] e" using ok by (auto simp: I_def)
  moreover have "distinct (map fst ?L)" using mo by (simp add: modules_ok_def)
  ultimately have "\<exists>e'. for_modules (\<lambda>m. ReorderAgenda (Some m)) (first_module ?L) e = Some e' \<and> I ?L e'"
    by (intro for_modules_inv [of ?L I "[]"] list step) simp_all
  then obtain e' where e': "ReorderAllAgendas e = Some e'" "I ?L e'"
    unfolding ReorderAllAgendas_def GetNextDefmodule_first by blast
  then obtain F' where F': "agendas_ok e' F'" "\<forall>k. mset (flat (F' k)) = mset (flat (F k))" "replace_frame e e'"
    "\<forall>k\<in>set (map fst ?L). agenda_ordered e' ?st (F' k)" by (auto simp: I_def)
  have "agenda_ordered e' ?st (F' k)" for k
  proof (cases "k \<in> set (map fst ?L)")
    case False
    then have "items e' k = None" using mo replace_frame_items [OF F'(3)] by (auto simp: modules_ok_def)
    then show ?thesis using agendas_okD(3) [OF F'(1)] by simp
  qed (use F'(4) in blast)
  moreover have "Strategy (agendaD e') = ?st" using F'(3) by (simp add: replace_frame_def)
  ultimately have "ordered e' F'" by (simp add: ordered_def)
  with e'(1) F' show ?thesis by blast
qed

lemma strategy_ok: "agendas_ok e F \<Longrightarrow> agendas_ok (set_agendaD (\<lambda>d. d\<lparr>Strategy := v\<rparr>) e) F"
  by (rule same_store_ok [rotated]) (simp_all add: same_store_def set_agendaD_def)

lemma SetStrategy_ok:
  assumes ok: "agendas_ok e F" and mo: "modules_ok e" and o: "ordered e F"
  shows "\<exists>e' F'. SetStrategy v e = Some (Strategy (agendaD e), e') \<and> Strategy (agendaD e') = v \<and>
    agendas_ok e' F' \<and> ordered e' F' \<and> (\<forall>m. mset (flat (F' m)) = mset (flat (F m)))"
proof -
  let ?e = "set_agendaD (\<lambda>d. d\<lparr>Strategy := v\<rparr>) e"
  have sv: "Strategy (agendaD ?e) = v" by (simp add: set_agendaD_def)
  show ?thesis
  proof (cases "v = Strategy (agendaD e)")
    case True
    then have c: "same_core e ?e" by (simp add: same_core_def set_agendaD_def)
    then have "agendas_ok ?e F" "ordered ?e F" using same_core_ok [OF c ok] same_core_ordered [OF c] o by auto
    moreover have "SetStrategy v e = Some (Strategy (agendaD e), ?e)"
      using True by (simp add: SetStrategy_def Let_def set_agendaD_def)
    ultimately show ?thesis using sv by blast
  next
    case False
    have "modules_ok ?e" using mo by (simp add: modules_ok_def set_agendaD_def)
    then obtain e' F' where e': "ReorderAllAgendas ?e = Some e'" "agendas_ok e' F'" "ordered e' F'"
      "\<forall>m. mset (flat (F' m)) = mset (flat (F m))" "replace_frame ?e e'"
      using ReorderAllAgendas_ok [OF strategy_ok [OF ok]] by blast
    have "SetStrategy v e = Some (Strategy (agendaD e), e')"
      using False e'(1) sv by (simp add: SetStrategy_def Let_def)
    moreover have "Strategy (agendaD e') = v" using e'(5) sv by (simp add: replace_frame_def)
    ultimately show ?thesis using e'(2-4) by blast
  qed
qed

section \<open>Recomputing saliences\<close>

definition sal_at :: "env \<Rightarrow> rule_id \<Rightarrow> int option" where
  "sal_at e r = map_option (salience_of e) (rules e r)"

lemma salience_of_idem: "salience_of e (R\<lparr>rule_salience := salience_of e R\<rparr>) = salience_of e R"
  by (auto simp: salience_of_def split: option.splits eval_result.splits)

text \<open>What the recomputation of saliences leaves unchanged.\<close>

definition refresh_frame :: "env \<Rightarrow> env \<Rightarrow> bool" where
  "refresh_frame e e' \<longleftrightarrow> grps e' = grps e \<and> fresh e' = fresh e \<and> items e' = items e \<and> matches e' = matches e \<and>
     joins e' = joins e \<and> entities e' = entities e \<and> agendaD e' = agendaD e \<and> engineD e' = engineD e \<and>
     moduleD e' = moduleD e \<and> clearFlags e' = clearFlags e \<and> dynValue e' = dynValue e \<and>
     (\<forall>r. map_option (rule_salience_update (\<lambda>_. 0)) (rules e' r) = map_option (rule_salience_update (\<lambda>_. 0)) (rules e r)) \<and>
     (\<forall>x. map_option (act_salience_update (\<lambda>_. 0)) (acts e' x) = map_option (act_salience_update (\<lambda>_. 0)) (acts e x)) \<and>
     (\<forall>r. sal_at e' r = sal_at e r)"

lemma refresh_frame_refl [simp]: "refresh_frame e e"
  by (simp add: refresh_frame_def)

lemma refresh_frame_trans: "\<lbrakk>refresh_frame e e'; refresh_frame e' e''\<rbrakk> \<Longrightarrow> refresh_frame e e''"
  by (simp add: refresh_frame_def)

lemma salience_erased_act:
  "(A :: activation)\<lparr>act_salience := 0\<rparr> = B\<lparr>act_salience := 0\<rparr> \<Longrightarrow> theRule A = theRule B \<and> basis A = basis B \<and>
     act_prev A = act_prev B \<and> act_next A = act_next B \<and> act_timetag A = act_timetag B \<and> randomID A = randomID B"
  by (cases A; cases B) simp

lemma salience_erased_rule:
  "(A :: defrule)\<lparr>rule_salience := 0\<rparr> = B\<lparr>rule_salience := 0\<rparr> \<Longrightarrow> complexity A = complexity B \<and>
     whichModule A = whichModule B \<and> disjunct A = disjunct B"
  by (cases A; cases B) simp

lemma refresh_frame_network:
  assumes "refresh_frame e e'" shows "same_network e e'"
proof -
  have "map_option (\<lambda>d. (complexity d, whichModule d)) (rules e' r) =
      map_option (\<lambda>d. (complexity d, whichModule d)) (rules e r)" for r
  proof -
    have "map_option (rule_salience_update (\<lambda>_. 0)) (rules e' r) = map_option (rule_salience_update (\<lambda>_. 0)) (rules e r)"
      using assms by (simp add: refresh_frame_def)
    then show ?thesis by (cases "rules e' r"; cases "rules e r") (auto dest!: salience_erased_rule)
  qed
  then show ?thesis using assms by (simp add: same_network_def refresh_frame_def)
qed

lemma refresh_frame_acts:
  assumes f: "refresh_frame e e'" and A: "acts e x = Some A"
  shows "\<exists>A'. acts e' x = Some A' \<and> theRule A' = theRule A \<and> basis A' = basis A \<and>
    act_prev A' = act_prev A \<and> act_next A' = act_next A"
proof -
  have "map_option (act_salience_update (\<lambda>_. 0)) (acts e' x) = Some (A\<lparr>act_salience := 0\<rparr>)"
    using f A by (simp add: refresh_frame_def)
  then obtain A' where "acts e' x = Some A'" "A'\<lparr>act_salience := 0\<rparr> = A\<lparr>act_salience := 0\<rparr>" by auto
  then show ?thesis using salience_erased_act by blast
qed

lemma refresh_frame_None:
  assumes "refresh_frame e e'" shows "(acts e' x = None) = (acts e x = None)"
proof -
  have "map_option (act_salience_update (\<lambda>_. 0)) (acts e' x) = map_option (act_salience_update (\<lambda>_. 0)) (acts e x)"
    using assms by (simp add: refresh_frame_def)
  then show ?thesis by (metis option.map_disc_iff)
qed

lemma refresh_frame_links:
  assumes f: "refresh_frame e e'" shows "act_links (acts e') = act_links (acts e)"
proof
  fix x
  show "act_links (acts e') x = act_links (acts e) x"
    using refresh_frame_acts [OF f, of x] refresh_frame_None [OF f, of x]
    by (cases "acts e x") (auto simp: links_of_def)
qed

lemma refresh_frame_floating:
  assumes f: "refresh_frame e e'" and fl: "floating e F m x"
  shows "floating e' F m x"
proof -
  obtain A where A: "acts e x = Some A" using fl by (cases "acts e x") (auto simp: floating_def)
  then obtain A' where A': "acts e' x = Some A'" "theRule A' = theRule A" "basis A' = basis A"
    using refresh_frame_acts [OF f] by blast
  note net = refresh_frame_network [OF f]
  have "act_ok e' A' = act_ok e' A" using A' by (simp add: act_ok_def act_match_def)
  then have "act_ok e' A'" using fl A act_ok_cong [OF net, of A A] by (simp add: floating_def act_ok_at_def)
  moreover have "marked e' x" using fl A A' f by (simp add: floating_def marked_def refresh_frame_def)
  ultimately show ?thesis
    using fl A A' same_network_rules(1) [OF net] by (simp add: floating_def act_ok_at_def)
qed

lemma refresh_frame_loose:
  assumes f: "refresh_frame e e'" and l: "loose e F m xs K"
    and other: "\<And>x. x \<notin> set xs \<Longrightarrow> acts e' x = acts e x"
  shows "loose e' F m xs K"
proof -
  have off: "x \<notin> set xs" if "x \<in> set (flat (F k))" for x k
    using that l by (auto simp: loose_def floating_def)
  have old: "agendas_ok (strip m K e) F" using l by (simp add: loose_def)
  have "agendas_ok (strip m K e') F"
  proof (rule agendas_ok_frame [OF old])
    show "same_network (strip m K e) (strip m K e')"
      using refresh_frame_network [OF f] by (simp add: same_network_def strip_def)
    show "marked (strip m K e') x" if x: "x \<in> set (flat (F k))" for k x
      using agendas_okD(9) [OF old x] marked_cong [of "strip m K e'" x "strip m K e"] other [OF off [OF x]] f
      by (simp add: strip_def refresh_frame_def)
    show "acts (strip m K e') a = None" if "fresh (strip m K e) \<le> a" for a
      using agendas_okD(5) [OF old that] refresh_frame_None [OF f] by (simp add: strip_def)
    have "dom (acts e') = dom (acts e)"
      using refresh_frame_None [OF f] by (simp add: set_eq_iff domIff del: not_None_eq)
    then show "NumberOfActivations (agendaD (strip m K e')) = of_nat (card (dom (acts (strip m K e'))))"
      using agendas_okD(11) [OF old] f by (simp add: strip_def refresh_frame_def)
  qed (use f other off in \<open>auto simp: strip_def refresh_frame_def\<close>)
  then show ?thesis
    using l f refresh_frame_links [OF f] refresh_frame_floating [OF f]
    by (simp add: loose_def refresh_frame_def)
qed

lemma refresh_one:
  assumes A: "acts e x = Some A" and R: "rules e (theRule A) = Some R"
  shows "\<exists>e1 e2. EvaluateSalience (theRule A) e = Some (salience_of e R, e1) \<and>
    upd_act (Some x) (act_salience_update (\<lambda>_. salience_of e R)) e1 = Some e2 \<and>
    refresh_frame e e2 \<and> acts e2 = (acts e)(x \<mapsto> A\<lparr>act_salience := salience_of e R\<rparr>)"
proof -
  obtain e1 where e1: "EvaluateSalience (theRule A) e = Some (salience_of e R, e1)" "eval_frame e e1"
    "rules e1 = (rules e)(theRule A \<mapsto> R\<lparr>rule_salience := salience_of e R\<rparr>)"
    using EvaluateSalience_eq [OF R] by blast
  note f = eval_frame_fields [OF e1(2)]
  let ?e2 = "e1\<lparr>acts := (acts e)(x \<mapsto> A\<lparr>act_salience := salience_of e R\<rparr>)\<rparr>"
  have sal: "salience_of ?e2 = salience_of e"
    by (rule ext, rule salience_of_cong) (simp_all add: GetSalienceEvaluation_def f)
  have "refresh_frame e ?e2"
    using f A R by (auto simp: refresh_frame_def e1(3) sal_at_def sal salience_of_idem)
  then show ?thesis using e1(1) A f by (auto simp: upd_act_def)
qed

lemma refresh_saliences_ok:
  assumes "dlseg (act_links (acts e)) p S None" and "distinct S" and "\<And>x. x \<in> set S \<Longrightarrow> floating e F m x"
  shows "\<exists>e'. refresh_saliences (hdp S None) e = Some e' \<and> refresh_frame e e' \<and>
    (\<forall>x. x \<notin> set S \<longrightarrow> acts e' x = acts e x) \<and>
    (\<forall>x\<in>set S. \<exists>A. acts e' x = Some A \<and> Some (act_salience A) = sal_at e (theRule A))"
  using assms
proof (induction S arbitrary: e p)
  case Nil
  then show ?case by (simp add: refresh_saliences.simps)
next
  case (Cons x S)
  obtain A where A: "acts e x = Some A" "act_next A = hdp S None"
    using dlseg_node [of act_prev act_next "acts e" p "[]" x S None] Cons.prems(1) by auto
  obtain R where R: "rules e (theRule A) = Some R"
    using Cons.prems(3) [of x] A by (auto simp: floating_def rule_module_def)
  obtain e1 e2 where e2: "EvaluateSalience (theRule A) e = Some (salience_of e R, e1)"
    "upd_act (Some x) (act_salience_update (\<lambda>_. salience_of e R)) e1 = Some e2"
    "refresh_frame e e2" "acts e2 = (acts e)(x \<mapsto> A\<lparr>act_salience := salience_of e R\<rparr>)"
    using refresh_one [OF A(1) R] by blast
  have "dlseg (act_links (acts e2)) (Some x) S None"
    using Cons.prems(1) refresh_frame_links [OF e2(3)] by simp
  then obtain e' where e': "refresh_saliences (hdp S None) e2 = Some e'" "refresh_frame e2 e'"
    "\<forall>y. y \<notin> set S \<longrightarrow> acts e' y = acts e2 y"
    "\<forall>y\<in>set S. \<exists>A. acts e' y = Some A \<and> Some (act_salience A) = sal_at e2 (theRule A)"
    using Cons.IH [of e2 "Some x"] Cons.prems(2,3) refresh_frame_floating [OF e2(3)] by auto
  have "refresh_saliences (hdp (x # S) None) e = Some e'"
    using A e2(1,2,4) e'(1) by (subst refresh_saliences.simps) (simp add: GetNextActivation_def)
  moreover have "sal_at e2 r = sal_at e r" for r using e2(3) by (simp add: refresh_frame_def)
  moreover have "acts e' x = Some (A\<lparr>act_salience := salience_of e R\<rparr>)"
    using e'(3) e2(4) Cons.prems(2) by simp
  moreover have "acts e' y = acts e y" if "y \<notin> set (x # S)" for y
    using that e'(3) e2(4) by simp
  ultimately show ?case
    using e'(4) refresh_frame_trans [OF e2(3) e'(2)] R by (auto simp: sal_at_def)
qed

section \<open>Refreshing an agenda\<close>

definition when_activated :: "env \<Rightarrow> env" where
  "when_activated e = snd (SetSalienceEvaluation WHEN_ACTIVATED e)"

definition refresh_setup :: "module_id \<Rightarrow> env \<Rightarrow> env" where
  "refresh_setup m e = snd (SetCurrentModule (Some m) (when_activated (SaveCurrentModule
     (if CurrentExpression (evalD e) = None then ResetErrorFlags e else e))))"

lemma refresh_setup_store: "same_store e (refresh_setup m e)"
  by (simp add: same_store_def refresh_setup_def when_activated_def SetSalienceEvaluation_def SaveCurrentModule_def
      ResetErrorFlags_def set_agendaD_def set_moduleD_def set_evalD_def)

lemma refresh_setup_module:
  "moduleD (refresh_setup m e) = (moduleD e)\<lparr>CurrentModule := Some m, CallModuleChangeFunctions := False,
     ModuleStack := (CurrentModule (moduleD e), CallModuleChangeFunctions (moduleD e)) # ModuleStack (moduleD e)\<rparr>"
  by (simp add: refresh_setup_def when_activated_def SetSalienceEvaluation_def SaveCurrentModule_def
      ResetErrorFlags_def set_agendaD_def set_moduleD_def set_evalD_def SetCurrentModule_eq)

lemma refresh_setup_agenda:
  "agendaD (refresh_setup m e) = (agendaD e)\<lparr>SalienceEvaluation := WHEN_ACTIVATED\<rparr>" "dynValue (refresh_setup m e) = dynValue e"
  by (simp_all add: refresh_setup_def when_activated_def SetSalienceEvaluation_def SaveCurrentModule_def
      ResetErrorFlags_def set_agendaD_def set_moduleD_def set_evalD_def)

text \<open>What a refresh leaves unchanged of the environment.\<close>

definition cycle_frame :: "env \<Rightarrow> env \<Rightarrow> bool" where
  "cycle_frame e e' \<longleftrightarrow> matches e' = matches e \<and> joins e' = joins e \<and> entities e' = entities e \<and>
     engineD e' = engineD e \<and> moduleD e' = moduleD e \<and> dynValue e' = dynValue e \<and>
     Strategy (agendaD e') = Strategy (agendaD e) \<and> SalienceEvaluation (agendaD e') = SalienceEvaluation (agendaD e) \<and>
     (\<forall>k. map_option ruleList (items e' k) = map_option ruleList (items e k)) \<and>
     (\<forall>r. map_option (rule_salience_update (\<lambda>_. 0)) (rules e' r) = map_option (rule_salience_update (\<lambda>_. 0)) (rules e r)) \<and>
     (\<forall>x. map_option act_key (acts e' x) = map_option act_key (acts e x))"

lemma cycle_frame_refl [simp]: "cycle_frame e e"
  by (simp add: cycle_frame_def)

lemma cycle_frame_trans: "\<lbrakk>cycle_frame e e'; cycle_frame e' e''\<rbrakk> \<Longrightarrow> cycle_frame e e''"
  by (simp add: cycle_frame_def)

lemma refresh_frame_basis:
  assumes "refresh_frame e e'"
  shows "map_option act_key (acts e' x) = map_option act_key (acts e x)"
  proof -
  have "map_option (act_salience_update (\<lambda>_. 0)) (acts e' x) = map_option (act_salience_update (\<lambda>_. 0)) (acts e x)"
    using assms by (simp add: refresh_frame_def)
  then show ?thesis by (cases "acts e' x"; cases "acts e x") (auto simp: act_key_def dest!: salience_erased_act)
qed

lemma replace_frame_basis:
  assumes "replace_frame e e'"
  shows "map_option act_key (acts e' x) = map_option act_key (acts e x)"
proof -
  have "map_option act_pay (acts e' x) = map_option act_pay (acts e x)"
    using assms by (auto simp: replace_frame_def pays_of_def dest: fun_cong [of _ _ x])
  then show ?thesis by (cases "acts e' x"; cases "acts e x") (auto simp: act_key_def dest: act_pay_eqD)
qed

lemma cycle_frame_network:
  assumes "cycle_frame e e'" shows "same_network e e'"
proof -
  have "map_option (\<lambda>d. (complexity d, whichModule d)) (rules e' r) =
      map_option (\<lambda>d. (complexity d, whichModule d)) (rules e r)" for r
  proof -
    have "map_option (rule_salience_update (\<lambda>_. 0)) (rules e' r) = map_option (rule_salience_update (\<lambda>_. 0)) (rules e r)"
      using assms by (simp add: cycle_frame_def)
    then show ?thesis by (cases "rules e' r"; cases "rules e r") (auto dest!: salience_erased_rule)
  qed
  then show ?thesis using assms by (simp add: same_network_def cycle_frame_def)
qed

lemma cycle_frame_ordered:
  assumes f: "cycle_frame e e'" shows "agenda_ordered e' st gs = agenda_ordered e st gs"
proof -
  have key: "map_option act_key (acts e' x) = map_option act_key (acts e x)" for x using f by (simp add: cycle_frame_def)
  have "view_at e' x = view_at e x" for x
    using key [of x] view_key_cong [OF cycle_frame_network [OF f]]
    by (cases "acts e' x"; cases "acts e x") (auto simp: view_at_def)
  then have "view_at e' = view_at e" by (rule ext)
  then show ?thesis by (simp only: agenda_ordered_def in_order_def)
qed

lemma RefreshAgenda_ok:
  assumes ok: "agendas_ok e F" and m: "items e m \<noteq> None"
  shows "\<exists>e' gs'. RefreshAgenda (Some m) e = Some e' \<and> agendas_ok e' (F(m := gs')) \<and>
    mset (flat gs') = mset (flat (F m)) \<and> agenda_ordered e' (Strategy (agendaD e)) gs' \<and>
    (\<forall>x\<in>set (flat gs'). \<exists>A. acts e' x = Some A \<and> Some (act_salience A) = sal_at (when_activated e) (theRule A)) \<and>
    cycle_frame e e'"
proof -
  let ?e4 = "refresh_setup m e" and ?xs = "flat (F m)" and ?K = "gaddrs (F m)"
  note st = refresh_setup_store [of e m] and md = refresh_setup_module [of m e]
  have ok4: "agendas_ok ?e4 F" by (rule same_store_ok [OF st ok])
  have m4: "items ?e4 m \<noteq> None" using m st by (simp add: same_store_def)
  have l4: "loose ?e4 (F(m := [])) m ?xs ?K" by (rule agendas_ok_loose [OF ok4 m4])
  then have seg: "dlseg (act_links (acts ?e4)) None ?xs None" "distinct ?xs"
    "\<And>x. x \<in> set ?xs \<Longrightarrow> floating ?e4 (F(m := [])) m x"
    by (simp_all add: loose_def)
  obtain it where it: "items ?e4 m = Some it" "agenda it = hdp ?xs None"
    using agenda_repD(1) [OF agendas_okD(1) [OF ok4 m4]] by blast
  have first: "GetNextActivation None ?e4 = Some (hdp ?xs None)"
    using it by (simp add: GetNextActivation_def GetModuleItem_def md)
  obtain e5 where e5: "refresh_saliences (hdp ?xs None) ?e4 = Some e5" "refresh_frame ?e4 e5"
    "\<forall>x. x \<notin> set ?xs \<longrightarrow> acts e5 x = acts ?e4 x"
    "\<forall>x\<in>set ?xs. \<exists>A. acts e5 x = Some A \<and> Some (act_salience A) = sal_at ?e4 (theRule A)"
    using refresh_saliences_ok [OF seg] by blast
  have l5: "loose e5 (F(m := [])) m ?xs ?K"
    by (rule refresh_frame_loose [OF e5(2) l4]) (use e5(3) in blast)
  obtain e6 gs' where e6: "ReorderAgenda (Some m) e5 = Some e6" "agendas_ok e6 (F(m := gs'))"
    "mset (flat gs') = mset ?xs" "agenda_ordered e6 (Strategy (agendaD e5)) gs'" "replace_frame e5 e6"
    using ReorderAgenda_loose [OF l5] unfolding fun_upd_upd by blast
  let ?e7 = "snd (SetSalienceEvaluation (SalienceEvaluation (agendaD e)) e6)"
  have md7: "moduleD ?e7 = moduleD ?e4"
    using e5(2) e6(5) by (simp add: SetSalienceEvaluation_def set_agendaD_def refresh_frame_def replace_frame_def)
  let ?e' = "set_moduleD (\<lambda>_. moduleD e) ?e7"
  have "RestoreCurrentModule ?e7 = Some ?e'"
    using md7 by (simp add: RestoreCurrentModule_def md set_moduleD_def)
  moreover have eval: "SalienceEvaluation (agendaD (SaveCurrentModule
      (if CurrentExpression (evalD e) = None then ResetErrorFlags e else e))) = SalienceEvaluation (agendaD e)"
    by (simp add: SaveCurrentModule_def ResetErrorFlags_def set_moduleD_def set_evalD_def)
  ultimately have "RefreshAgenda (Some m) e = Some ?e'"
    using first e5(1) e6(1)
    by (simp add: RefreshAgenda_def Let_def refresh_setup_def when_activated_def GetSalienceEvaluation_def)
  moreover have s6: "same_store e6 ?e'"
    by (simp add: same_store_def SetSalienceEvaluation_def set_agendaD_def set_moduleD_def)
  moreover have "Strategy (agendaD e5) = Strategy (agendaD e)"
    using e5(2) refresh_setup_agenda(1) [of m e] by (simp add: refresh_frame_def)
  moreover have "\<exists>A. acts ?e' x = Some A \<and> Some (act_salience A) = sal_at (when_activated e) (theRule A)"
    if x: "x \<in> set (flat gs')" for x
  proof -
    have "x \<in> set ?xs" using x e6(3) by (metis mset_eq_setD)
    then obtain A where A: "acts e5 x = Some A" "Some (act_salience A) = sal_at ?e4 (theRule A)" using e5(4) by blast
    have "map_option act_pay (acts e6 x) = Some (act_pay A)"
      using e6(5) A(1) by (auto simp: replace_frame_def pays_of_def dest: fun_cong [of _ _ x])
    then obtain A' where A': "acts e6 x = Some A'" "act_pay A' = act_pay A" by auto
    have sal: "salience_of ?e4 = salience_of (when_activated e)"
      by (rule ext, rule salience_of_cong)
        (simp_all add: GetSalienceEvaluation_def refresh_setup_agenda when_activated_def SetSalienceEvaluation_def set_agendaD_def)
    have "sal_at ?e4 r = sal_at (when_activated e) r" for r
      using st by (simp add: sal_at_def sal same_store_def when_activated_def SetSalienceEvaluation_def set_agendaD_def)
    then show ?thesis using A A' act_pay_eqD [OF A'(2)] s6 by (simp add: same_store_def)
  qed
  moreover have "cycle_frame e ?e'"
  proof -
    have 4: "joins ?e4 = joins e" "engineD ?e4 = engineD e"
      by (simp_all add: refresh_setup_def when_activated_def SetSalienceEvaluation_def SaveCurrentModule_def
          ResetErrorFlags_def set_agendaD_def set_moduleD_def set_evalD_def)
    have 7: "acts ?e' = acts e6" "rules ?e' = rules e6" "matches ?e' = matches e6" "joins ?e' = joins e6" "items ?e' = items e6"
      "entities ?e' = entities e6" "engineD ?e' = engineD e6" "dynValue ?e' = dynValue e6" "moduleD ?e' = moduleD e"
      "Strategy (agendaD ?e') = Strategy (agendaD e6)" "SalienceEvaluation (agendaD ?e') = SalienceEvaluation (agendaD e)"
      by (simp_all add: SetSalienceEvaluation_def set_agendaD_def set_moduleD_def)
    show ?thesis
      using st e5(2) e6(5) refresh_setup_agenda [of m e] refresh_frame_basis [OF e5(2)] replace_frame_basis [OF e6(5)]
      unfolding cycle_frame_def 7 by (simp add: 4 same_store_def refresh_frame_def replace_frame_def)
  qed
  ultimately show ?thesis
    using e6(3,4) same_store_ok [OF s6 e6(2)] same_store_agenda_ordered [OF s6]
    by (intro exI [of _ ?e'] exI [of _ gs'] conjI) auto
qed

lemma cycle_frame_items: "cycle_frame e e' \<Longrightarrow> (items e' k = None) = (items e k = None)"
  by (metis cycle_frame_def option.map_disc_iff)

text \<open>Refreshing every agenda permutes the activations of each.\<close>

lemma RefreshAllAgendas_ok:
  assumes ok: "agendas_ok e F" and mo: "modules_ok e"
  shows "\<exists>e' F'. RefreshAllAgendas e = Some e' \<and> agendas_ok e' F' \<and> (ordered e F \<longrightarrow> ordered e' F') \<and>
    (\<forall>m. mset (flat (F' m)) = mset (flat (F m))) \<and> cycle_frame e e'"
proof -
  let ?L = "ListOfDefmodules (moduleD e)"
  define I where "I = (\<lambda>(ms :: (module_id \<times> string) list) e'. \<exists>F'. agendas_ok e' F' \<and>
    (ordered e F \<longrightarrow> ordered e' F') \<and> (\<forall>k. mset (flat (F' k)) = mset (flat (F k))) \<and> cycle_frame e e')"
  have list: "ListOfDefmodules (moduleD e') = ?L" if "I ms e'" for ms e'
    using that by (auto simp: I_def cycle_frame_def)
  have step: "\<exists>e'. RefreshAgenda (Some m) e1 = Some e' \<and> I (ms @ [(m, nm)]) e'"
    if L: "?L = ms @ (m, nm) # post" and i: "I ms e1" for ms m nm post e1
  proof -
    obtain F1 where F1: "agendas_ok e1 F1" "\<forall>k. mset (flat (F1 k)) = mset (flat (F k))" "cycle_frame e e1"
      "ordered e F \<longrightarrow> ordered e1 F1" using i by (auto simp: I_def)
    have "items e1 m \<noteq> None" using L mo cycle_frame_items [OF F1(3)] by (auto simp: modules_ok_def)
    then obtain e' gs' where e': "RefreshAgenda (Some m) e1 = Some e'" "agendas_ok e' (F1(m := gs'))"
      "mset (flat gs') = mset (flat (F1 m))" "cycle_frame e1 e'"
      "agenda_ordered e' (Strategy (agendaD e1)) gs'" using RefreshAgenda_ok [OF F1(1)] by blast
    moreover have "ordered e' (F1(m := gs'))" if "ordered e F"
      using F1(4) that e'(4,5) cycle_frame_ordered [OF e'(4)] by (auto simp: ordered_def cycle_frame_def)
    ultimately have "I (ms @ [(m, nm)]) e'"
      unfolding I_def using F1 cycle_frame_trans [OF F1(3) e'(4)] by (intro exI [of _ "F1(m := gs')"]) auto
    with e'(1) show ?thesis by blast
  qed
  have "I [] e" using ok by (auto simp: I_def)
  moreover have "distinct (map fst ?L)" using mo by (simp add: modules_ok_def)
  ultimately have "\<exists>e'. for_modules (\<lambda>m. RefreshAgenda (Some m)) (first_module ?L) e = Some e' \<and> I ?L e'"
    by (intro for_modules_inv [of ?L I "[]"] list step) simp_all
  then show ?thesis unfolding RefreshAllAgendas_def GetNextDefmodule_first I_def by blast
qed

section \<open>Refreshing a rule\<close>

text \<open>A complete match of a rule: it is sound and its owner join exists.\<close>

definition complete_match :: "env \<Rightarrow> addr \<Rightarrow> bool" where
  "complete_match e b \<longleftrightarrow> (case matches e b of None \<Rightarrow> False
     | Some pm \<Rightarrow> match_ok e pm \<and> joins e (match_owner pm) \<noteq> None)"

text \<open>The match has an activation, if its join activates a rule at all.\<close>

definition has_activation :: "env \<Rightarrow> addr \<Rightarrow> bool" where
  "has_activation e b \<longleftrightarrow> (case matches e b of None \<Rightarrow> False
     | Some pm \<Rightarrow> (case joins e (match_owner pm) of None \<Rightarrow> False
        | Some j \<Rightarrow> ruleToActivate j \<noteq> None \<longrightarrow> marker pm \<noteq> None))"

text \<open>What refreshing leaves unchanged of the network.\<close>

definition net_frame :: "env \<Rightarrow> env \<Rightarrow> bool" where
  "net_frame e e' \<longleftrightarrow> joins e' = joins e \<and> (\<forall>b. complete_match e b \<longrightarrow> complete_match e' b) \<and>
     (\<forall>b. has_activation e b \<longrightarrow> has_activation e' b) \<and>
     (\<forall>d. map_option (\<lambda>D. (disjunct D, lastJoin D)) (rules e' d) = map_option (\<lambda>D. (disjunct D, lastJoin D)) (rules e d))"

lemma net_frame_refl [simp]: "net_frame e e"
  by (simp add: net_frame_def)

lemma net_frame_trans: "\<lbrakk>net_frame e e'; net_frame e' e''\<rbrakk> \<Longrightarrow> net_frame e e''"
  by (simp add: net_frame_def)

lemma refresh_matches_ok:
  assumes "agendas_ok e F" and "rules e r = Some R" and "\<And>b. b \<in> set bs \<Longrightarrow> complete_match e b"
  shows "\<exists>e' F'. refresh_matches r bs e = Some e' \<and> agendas_ok e' F' \<and> (ordered e F \<longrightarrow> ordered e' F') \<and>
    (\<forall>b\<in>set bs. has_activation e' b) \<and> net_frame e e' \<and> (\<forall>m. set (flat (F m)) \<subseteq> set (flat (F' m)))"
  using assms
proof (induction bs arbitrary: e F R)
  case Nil
  then show ?case by (auto intro!: exI [of _ F])
next
  case (Cons b bs)
  note ok = Cons.prems(1)
  obtain pm j where pm: "matches e b = Some pm" "match_ok e pm" "joins e (match_owner pm) = Some j"
    using Cons.prems(3) [of b] by (auto simp: complete_match_def split: option.splits)
  show ?case
  proof (cases "ruleToActivate j \<noteq> None \<and> marker pm = None")
    case False
    then have "has_activation e b" using pm by (auto simp: has_activation_def)
    moreover have "refresh_matches r (b # bs) e = refresh_matches r bs e" using pm False by auto
    moreover obtain e' F' where "refresh_matches r bs e = Some e'" "agendas_ok e' F'" "ordered e F \<longrightarrow> ordered e' F'"
      "\<forall>b\<in>set bs. has_activation e' b" "net_frame e e'" "\<forall>m. set (flat (F m)) \<subseteq> set (flat (F' m))"
      using Cons.IH [OF ok Cons.prems(2)] Cons.prems(3) by fastforce
    ultimately show ?thesis by (intro exI [of _ e'] exI [of _ F']) (auto simp: net_frame_def)
  next
    case True
    let ?m = "whichModule R" and ?n = "fresh e"
    have mk: "marker pm = None" using True by simp
    obtain e1 gs where e1: "AddActivation r b e = Some e1" "inserted ?n (salience_of e R) (F ?m) gs"
      "agendas_ok e1 (F(?m := gs))" "ordered e F \<longrightarrow> ordered e1 (F(?m := gs))"
      "matches e1 = (matches e)(b \<mapsto> pm\<lparr>marker := Some ?n\<rparr>)"
      "rules e1 = (rules e)(r \<mapsto> R\<lparr>rule_salience := salience_of e R\<rparr>)" "joins e1 = joins e" "entities e1 = entities e"
      using AddActivation_ok [OF ok Cons.prems(2) pm(1) mk pm(2)] by blast
    have mo: "match_ok e1 p = match_ok e p" for p by (simp only: match_ok_def e1(8))
    have complete: "complete_match e1 c" if "complete_match e c" for c
      using that pm e1(5,7) by (auto simp: complete_match_def mo match_ok_marker split: option.splits)
    have has: "has_activation e1 c" if "has_activation e c \<or> c = b" for c
      using that pm e1(5,7) by (auto simp: has_activation_def split: option.splits)
    have frame: "net_frame e e1"
      using complete has e1(6,7) Cons.prems(2) by (auto simp: net_frame_def)
    have "rules e1 r = Some (R\<lparr>rule_salience := salience_of e R\<rparr>)" using e1(6) by simp
    then obtain e' F' where e': "refresh_matches r bs e1 = Some e'" "agendas_ok e' F'" "ordered e1 (F(?m := gs)) \<longrightarrow> ordered e' F'"
      "\<forall>b\<in>set bs. has_activation e' b" "net_frame e1 e'" "\<forall>m. set (flat ((F(?m := gs)) m)) \<subseteq> set (flat (F' m))"
      using Cons.IH [OF e1(3)] complete Cons.prems(3) by (metis list.set_intros(2))
    have "set (flat (F k)) \<subseteq> set (flat (F' k))" for k
      using e'(6) [rule_format, of k] inserted_set [OF e1(2)] by (cases "k = ?m") auto
    moreover have "refresh_matches r (b # bs) e = Some e'" using pm True e1(1) e'(1) by simp
    moreover have "has_activation e' b" using has e'(5) by (simp add: net_frame_def)
    ultimately show ?thesis
      using e'(2-5) e1(4) net_frame_trans [OF frame e'(5)] by (intro exI [of _ e'] exI [of _ F']) auto
  qed
qed

text \<open>The complete matches of a rule: the beta memory of its last join.\<close>

definition rule_matches :: "env \<Rightarrow> rule_id \<Rightarrow> addr list" where
  "rule_matches e r = (case rules e r of None \<Rightarrow> [] | Some R \<Rightarrow>
     (case joins e (lastJoin R) of None \<Rightarrow> [] | Some j \<Rightarrow> concat (leftMemory j)))"

definition rule_joins :: "env \<Rightarrow> rule_id \<Rightarrow> bool" where
  "rule_joins e r \<longleftrightarrow> (case rules e r of None \<Rightarrow> False | Some R \<Rightarrow> joins e (lastJoin R) \<noteq> None)"

lemma net_frame_rule:
  assumes "net_frame e e'"
  shows "rule_matches e' r = rule_matches e r" "rule_joins e' r = rule_joins e r"
    "disjunct_chain e' p ds = disjunct_chain e p ds"
    "map_option disjunct (rules e' r) = map_option disjunct (rules e r)"
proof -
  have eq: "map_option (\<lambda>D. (disjunct D, lastJoin D)) (rules e' d) = map_option (\<lambda>D. (disjunct D, lastJoin D)) (rules e d)" for d
    using assms by (simp add: net_frame_def)
  have j: "joins e' = joins e" using assms by (simp add: net_frame_def)
  show "rule_matches e' r = rule_matches e r" "rule_joins e' r = rule_joins e r"
    using eq [of r] j
    by (cases "rules e' r"; cases "rules e r"; simp add: rule_matches_def rule_joins_def)+
  have dis: "map_option disjunct (rules e' d) = map_option disjunct (rules e d)" for d
    using arg_cong [OF eq [of d], of "map_option fst"] by (simp add: option.map_comp comp_def)
  show "map_option disjunct (rules e' r) = map_option disjunct (rules e r)" by (rule dis)
  show "disjunct_chain e' p ds = disjunct_chain e p ds" by (rule disjunct_chain_cong [OF dis])
qed

lemma refresh_disjuncts_ok:
  assumes "agendas_ok e F" and "disjunct_chain e p ds" and "\<And>d. d \<in> set ds \<Longrightarrow> rule_joins e d"
    and "\<And>d b. \<lbrakk>d \<in> set ds; b \<in> set (rule_matches e d)\<rbrakk> \<Longrightarrow> complete_match e b"
  shows "\<exists>e' F'. refresh_disjuncts p e = Some e' \<and> agendas_ok e' F' \<and> (ordered e F \<longrightarrow> ordered e' F') \<and>
    (\<forall>d\<in>set ds. \<forall>b\<in>set (rule_matches e d). has_activation e' b) \<and> net_frame e e' \<and>
    (\<forall>m. set (flat (F m)) \<subseteq> set (flat (F' m)))"
  using assms
proof (induction ds arbitrary: e F p)
  case Nil
  then show ?case by (auto simp: refresh_disjuncts.simps intro!: exI [of _ F])
next
  case (Cons d ds)
  obtain D where D: "p = Some d" "rules e d = Some D" "disjunct_chain e (disjunct D) ds"
    using Cons.prems(2) by (auto split: option.splits)
  obtain j where j: "joins e (lastJoin D) = Some j" using Cons.prems(3) [of d] D(2) by (auto simp: rule_joins_def)
  have bs: "rule_matches e d = concat (leftMemory j)" using D(2) j by (simp add: rule_matches_def)
  obtain e1 F1 where e1: "refresh_matches d (concat (leftMemory j)) e = Some e1" "agendas_ok e1 F1"
    "ordered e F \<longrightarrow> ordered e1 F1" "\<forall>b\<in>set (concat (leftMemory j)). has_activation e1 b" "net_frame e e1"
    "\<forall>m. set (flat (F m)) \<subseteq> set (flat (F1 m))"
    using refresh_matches_ok [OF Cons.prems(1) D(2), of "concat (leftMemory j)"] Cons.prems(4) [of d] bs by auto
  note fr = net_frame_rule [OF e1(5)]
  obtain D1 where D1: "rules e1 d = Some D1" "disjunct D1 = disjunct D"
    using fr(4) [of d] D(2) by (cases "rules e1 d") auto
  have "disjunct_chain e1 (disjunct D1) ds" using fr(3) D(3) D1(2) by simp
  moreover have "rule_joins e1 q" if "q \<in> set ds" for q using that fr(2) Cons.prems(3) by simp
  moreover have "complete_match e1 b" if "q \<in> set ds" "b \<in> set (rule_matches e1 q)" for q b
    using that fr(1) Cons.prems(4) [of q b] e1(5) by (auto simp: net_frame_def)
  ultimately obtain e' F' where e': "refresh_disjuncts (disjunct D1) e1 = Some e'" "agendas_ok e' F'"
    "ordered e1 F1 \<longrightarrow> ordered e' F'" "\<forall>d\<in>set ds. \<forall>b\<in>set (rule_matches e1 d). has_activation e' b" "net_frame e1 e'"
    "\<forall>m. set (flat (F1 m)) \<subseteq> set (flat (F' m))"
    using Cons.IH [OF e1(2), of "disjunct D1"] by blast
  have "refresh_disjuncts p e = Some e'"
    using D(1,2) j e1(1) D1 e'(1) by (subst refresh_disjuncts.simps) (simp add: refresh_rule_def)
  moreover have "\<forall>b\<in>set (rule_matches e d). has_activation e' b"
    using e1(4) e'(5) bs by (simp add: net_frame_def)
  moreover have "\<forall>q\<in>set ds. \<forall>b\<in>set (rule_matches e q). has_activation e' b" using e'(4) fr(1) by simp
  moreover have "\<forall>m. set (flat (F m)) \<subseteq> set (flat (F' m))" using e1(6) e'(6) by (meson subset_trans)
  ultimately show ?case
    using e'(2,3) e1(3) net_frame_trans [OF e1(5) e'(5)] by (intro exI [of _ e'] exI [of _ F']) auto
qed

end
