(* ===== verification/Engine.thy ===== *)
theory Engine
  imports Agenda_Refresh
begin

text \<open>
  The execution cycle of \<^verbatim>\<open>engine.c\<close>: choosing the next activation by the focus stack, the
  loop of \<^verbatim>\<open>Run\<close>, the functions called before and after a rule fires, breakpoints and the
  commands on the focus stack.

  The right hand side of a rule is evaluated by the expression evaluator, which is not part
  of this model: it is the parameter \<open>actions\<close>.  The parameter \<open>garbage\<close> stands for the
  collection of garbage and the periodic tasks between two firings.
\<close>

section \<open>The next activation\<close>

function next_act_loop :: "env \<Rightarrow> (ptr \<times> env) option" where
  "next_act_loop e = (case CurrentFocus (engineD e) of [] \<Rightarrow> Some (None, e)
     | m # _ \<Rightarrow> do {
         item \<leftarrow> items e m;
         (case agenda item of Some a \<Rightarrow> Some (Some a, e)
          | None \<Rightarrow> next_act_loop (snd (PopFocus e))) })"
  by pat_completeness auto
termination
  by (relation "measure (\<lambda>e. length (CurrentFocus (engineD e)))") auto

declare next_act_loop.simps [simp del]

definition NextActivationToFire :: "env \<Rightarrow> (ptr \<times> env) option" where
  "NextActivationToFire e = do {
     let e1 = (if CurrentFocus (engineD e) = [] then Focus (FindDefmodule ''MAIN'' e) e else e);
     if CurrentFocus (engineD e1) = [] then None else next_act_loop e1 }"

section \<open>Functions called when a rule fires\<close>

definition call_rule_functions :: "ruleFiredFunctionItem list \<Rightarrow> ptr \<Rightarrow> env \<Rightarrow> env" where
  "call_rule_functions fs theActivation e = fold (\<lambda>f. say (RuleFiresCall (fun_name f) theActivation)) fs e"

fun AddRuleFiredFunctionToCallList ::
  "string \<Rightarrow> int \<Rightarrow> nat \<Rightarrow> ruleFiredFunctionItem list \<Rightarrow> ruleFiredFunctionItem list" where
  "AddRuleFiredFunctionToCallList name priority func [] =
     [\<lparr>fun_name = name, fun_id = func, fun_priority = priority\<rparr>]"
| "AddRuleFiredFunctionToCallList name priority func (currentPtr # rest) =
     (if priority < fun_priority currentPtr
      then currentPtr # AddRuleFiredFunctionToCallList name priority func rest
      else \<lparr>fun_name = name, fun_id = func, fun_priority = priority\<rparr> # currentPtr # rest)"

fun RemoveRuleFiredFunctionFromCallList ::
  "string \<Rightarrow> ruleFiredFunctionItem list \<Rightarrow> bool \<times> ruleFiredFunctionItem list" where
  "RemoveRuleFiredFunctionFromCallList name [] = (False, [])"
| "RemoveRuleFiredFunctionFromCallList name (currentPtr # rest) =
     (if name = fun_name currentPtr then (True, rest)
      else (case RemoveRuleFiredFunctionFromCallList name rest of (found, rest') \<Rightarrow> (found, currentPtr # rest')))"

definition AddAfterRuleFiresFunction :: "string \<Rightarrow> nat \<Rightarrow> int \<Rightarrow> env \<Rightarrow> bool \<times> env" where
  "AddAfterRuleFiresFunction name func priority e = (True, set_engineD (\<lambda>d. d\<lparr>ListOfAfterRuleFiresFunctions :=
     AddRuleFiredFunctionToCallList name priority func (ListOfAfterRuleFiresFunctions d)\<rparr>) e)"

definition AddBeforeRuleFiresFunction :: "string \<Rightarrow> nat \<Rightarrow> int \<Rightarrow> env \<Rightarrow> bool \<times> env" where
  "AddBeforeRuleFiresFunction name func priority e = (True, set_engineD (\<lambda>d. d\<lparr>ListOfBeforeRuleFiresFunctions :=
     AddRuleFiredFunctionToCallList name priority func (ListOfBeforeRuleFiresFunctions d)\<rparr>) e)"

definition RemoveAfterRuleFiresFunction :: "string \<Rightarrow> env \<Rightarrow> bool \<times> env" where
  "RemoveAfterRuleFiresFunction name e =
     (case RemoveRuleFiredFunctionFromCallList name (ListOfAfterRuleFiresFunctions (engineD e)) of (found, fs) \<Rightarrow>
       (found, set_engineD (\<lambda>d. d\<lparr>ListOfAfterRuleFiresFunctions := fs\<rparr>) e))"

definition RemoveBeforeRuleFiresFunction :: "string \<Rightarrow> env \<Rightarrow> bool \<times> env" where
  "RemoveBeforeRuleFiresFunction name e =
     (case RemoveRuleFiredFunctionFromCallList name (ListOfBeforeRuleFiresFunctions (engineD e)) of (found, fs) \<Rightarrow>
       (found, set_engineD (\<lambda>d. d\<lparr>ListOfBeforeRuleFiresFunctions := fs\<rparr>) e))"

section \<open>Firing one rule\<close>

definition count_basis :: "int \<Rightarrow> partialMatch \<Rightarrow> env \<Rightarrow> env option" where
  "count_basis k pm e = fold (\<lambda>b st. do {
       e \<leftarrow> st;
       (case b of Some (Some i) \<Rightarrow> do {
            T \<leftarrow> entities e i;
            Some (e\<lparr>entities := (entities e)(i \<mapsto> T\<lparr>busyCount := busyCount T + k\<rparr>)\<rparr>) }
        | _ \<Rightarrow> Some e) }) (binds pm) (Some e)"

text \<open>The walk along the left parents of a partial match to the one that the join owns.\<close>

partial_function (option) FindLogicalBind :: "env \<Rightarrow> join_id \<Rightarrow> ptr \<Rightarrow> ptr option" where
  "FindLogicalBind e theJoin compPtr = (case compPtr of None \<Rightarrow> Some None
     | Some b \<Rightarrow> do {
         pm \<leftarrow> matches e b;
         if match_owner pm = theJoin then Some compPtr else FindLogicalBind e theJoin (leftParent pm) })"

declare FindLogicalBind.simps [code]

record run_locals =
  rulesFired :: int
  runLimit :: int
  maxFacts :: u64
  sumFacts :: u64
  maxInstances :: u64
  sumInstances :: u64
  maxActivations :: u64
  sumActivations :: u64

text \<open>From the loop head to the registration of the firing in the environment.\<close>

definition fire_begin :: "addr \<Rightarrow> run_locals \<Rightarrow> env \<Rightarrow> (run_locals \<times> env) option" where
  "fire_begin theActivation l e = do {
     let e1 = call_rule_functions (ListOfBeforeRuleFiresFunctions (engineD e)) (Some theActivation) e;
     e2 \<leftarrow> DetachActivation (Some theActivation) e1;
     ruleFiring \<leftarrow> ActivationRuleName theActivation e2;
     theBasis \<leftarrow> GetActivationBasis theActivation e2;
     r \<leftarrow> GetActivationRule theActivation e2;
     let e3 = set_engineD (\<lambda>d. d\<lparr>ExecutingRule := Some r\<rparr>) e2;
     let l' = l\<lparr>rulesFired := rulesFired l + 1, runLimit := (if runLimit l > 0 then runLimit l - 1 else runLimit l)\<rparr>;
     R \<leftarrow> rules e3 r;
     let e4 = (if watchFiring R then say (FireRule (rulesFired l') ruleFiring) e3 else e3);
     e5 \<leftarrow> upd_match theBasis (\<lambda>pm. pm\<lparr>marker := None, busy := True\<rparr>) e4;
     Some (l', set_engineD (\<lambda>d. d\<lparr>GlobalLHSBinds := theBasis, GlobalRHSBinds := None\<rparr>) e5) }"

text \<open>The counts of the matched entities and the logical support of the rule.\<close>

definition fire_support :: "ptr \<Rightarrow> env \<Rightarrow> env option" where
  "fire_support theBasis e = do {
     pm \<leftarrow> deref (matches e) theBasis;
     e1 \<leftarrow> count_basis 1 pm e;
     r \<leftarrow> ExecutingRule (engineD e1);
     R \<leftarrow> rules e1 r;
     let e2 = set_engineD (\<lambda>d. d\<lparr>TheLogicalJoin := logicalJoin R\<rparr>) e1;
     (case logicalJoin R of
        Some j \<Rightarrow> do {
          lb \<leftarrow> FindLogicalBind e2 j (GlobalLHSBinds (engineD e2));
          upd_match lb (busy_update (\<lambda>_. True)) (set_engineD (\<lambda>d. d\<lparr>TheLogicalBind := lb\<rparr>) e2) }
      | None \<Rightarrow> Some (set_engineD (\<lambda>d. d\<lparr>TheLogicalBind := None\<rparr>) e2)) }"

text \<open>The evaluation of the right hand side; the result says whether it raised an error.\<close>

definition fire_actions :: "(rule_id \<Rightarrow> env \<Rightarrow> env option) \<Rightarrow> env \<Rightarrow> (bool \<times> env) option" where
  "fire_actions actions e = do {
     let e1 = SetEvaluationError False (set_evalD (\<lambda>d. d\<lparr>CurrentEvaluationDepth := CurrentEvaluationDepth d + 1\<rparr>) e);
     r \<leftarrow> ExecutingRule (engineD e1);
     e2 \<leftarrow> upd_rule r (executing_update (\<lambda>_. True)) e1;
     let danglingConstructs = DanglingConstructs (evalD e2);
     e3 \<leftarrow> actions r e2;
     let error = EvaluationError (evalD e3);
     r' \<leftarrow> ExecutingRule (engineD e3);
     e4 \<leftarrow> upd_rule r' (executing_update (\<lambda>_. False)) e3;
     let e5 = set_evalD (\<lambda>d. d\<lparr>CurrentEvaluationDepth := CurrentEvaluationDepth d - 1\<rparr>) (SetEvaluationError False e4);
     Some (error, if CurrentExpression (evalD e5) = None
                  then set_evalD (\<lambda>d. d\<lparr>DanglingConstructs := danglingConstructs\<rparr>) e5 else e5) }"

text \<open>The functions after the firing, the logical support and the message of a halt.\<close>

definition fire_after :: "addr \<Rightarrow> string \<Rightarrow> bool \<Rightarrow> env \<Rightarrow> env option" where
  "fire_after theActivation ruleFiring error e = do {
     let e1 = call_rule_functions (ListOfAfterRuleFiresFunctions (engineD e)) (Some theActivation) e;
     let e2 = set_engineD (\<lambda>d. d\<lparr>TheLogicalJoin := None\<rparr>) e1;
     e3 \<leftarrow> (case TheLogicalBind (engineD e2) of None \<Rightarrow> Some e2
       | Some b \<Rightarrow> do {
           e' \<leftarrow> upd_match (Some b) (busy_update (\<lambda>_. False)) e2;
           Some (set_engineD (\<lambda>d. d\<lparr>TheLogicalBind := None\<rparr>) e') });
     r \<leftarrow> ExecutingRule (engineD e3);
     R \<leftarrow> rules e3 r;
     Some (if HaltExecution (evalD e3) \<or> HaltRules (engineD e3) \<and> watchFiring R
           then say (HaltedIn ruleFiring error) e3 else e3) }"

definition fire_release :: "addr \<Rightarrow> ptr \<Rightarrow> (env \<Rightarrow> env) \<Rightarrow> env \<Rightarrow> env option" where
  "fire_release theActivation theBasis garbage e = do {
     e1 \<leftarrow> upd_match theBasis (busy_update (\<lambda>_. False)) e;
     pm \<leftarrow> deref (matches e1) theBasis;
     e2 \<leftarrow> count_basis (- 1) pm e1;
     e3 \<leftarrow> RemoveActivation theActivation False False e2;
     Some (garbage e3) }"

definition keep_statistics :: "run_locals \<Rightarrow> env \<Rightarrow> run_locals" where
  "keep_statistics l e = (if WatchStatistics (engineD e)
     then l\<lparr>maxFacts := max (numberOfFacts e) (maxFacts l), sumFacts := sumFacts l + numberOfFacts e,
            maxInstances := max (numberOfInstances e) (maxInstances l), sumInstances := sumInstances l + numberOfInstances e,
            maxActivations := max (GetNumberOfActivations e) (maxActivations l),
            sumActivations := sumActivations l + GetNumberOfActivations e\<rparr>
     else l)"

text \<open>Salience refresh, return from the right hand side, next activation and breakpoint.\<close>

definition fire_next :: "env \<Rightarrow> (ptr \<times> env) option" where
  "fire_next e = do {
     e1 \<leftarrow> (if GetSalienceEvaluation e = EVERY_CYCLE then RefreshAllAgendas e else Some e);
     e2 \<leftarrow> (if ReturnFlag (evalD e1)
            then do { r \<leftarrow> ExecutingRule (engineD e1); R \<leftarrow> rules e1 r;
                      Some (snd (RemoveFocus (whichModule R) e1)) }
            else Some e1);
     (p, e4) \<leftarrow> NextActivationToFire (set_evalD (\<lambda>d. d\<lparr>ReturnFlag := False\<rparr>) e2);
     e5 \<leftarrow> (case p of None \<Rightarrow> Some e4
       | Some a \<Rightarrow> do {
           A \<leftarrow> acts e4 a;
           R \<leftarrow> rules e4 (theRule A);
           Some (if afterBreakpoint R
                 then say (BreakingOn (rule_name R)) (set_engineD (\<lambda>d. d\<lparr>HaltRules := True\<rparr>) e4) else e4) });
     Some (p, e5) }"

definition fire_rule ::
  "(rule_id \<Rightarrow> env \<Rightarrow> env option) \<Rightarrow> (env \<Rightarrow> env) \<Rightarrow> addr \<Rightarrow> run_locals \<Rightarrow> env \<Rightarrow> (run_locals \<times> ptr \<times> env) option" where
  "fire_rule actions garbage theActivation l e = do {
     (l1, e1) \<leftarrow> fire_begin theActivation l e;
     ruleFiring \<leftarrow> ActivationRuleName theActivation e1;
     theBasis \<leftarrow> GetActivationBasis theActivation e1;
     e2 \<leftarrow> fire_support theBasis e1;
     (error, e3) \<leftarrow> fire_actions actions e2;
     e4 \<leftarrow> fire_after theActivation ruleFiring error e3;
     e5 \<leftarrow> fire_release theActivation theBasis garbage e4;
     (p, e6) \<leftarrow> fire_next e5;
     Some (keep_statistics l1 e5, p, e6) }"

section \<open>Run\<close>

partial_function (option) run_loop ::
  "(rule_id \<Rightarrow> env \<Rightarrow> env option) \<Rightarrow> (env \<Rightarrow> env) \<Rightarrow> ptr \<Rightarrow> run_locals \<Rightarrow> env \<Rightarrow> (run_locals \<times> env) option" where
  "run_loop actions garbage theActivation l e = (case theActivation of None \<Rightarrow> Some (l, e)
     | Some a \<Rightarrow>
       if runLimit l \<noteq> 0 \<and> \<not> HaltExecution (evalD e) \<and> \<not> HaltRules (engineD e)
       then do {
         (l', p, e') \<leftarrow> fire_rule actions garbage a l e;
         run_loop actions garbage p l' e' }
       else Some (l, e))"

declare run_loop.simps [code]

definition run_begin :: "int \<Rightarrow> env \<Rightarrow> run_locals \<times> env" where
  "run_begin limit e =
     (let e1 = set_engineD (\<lambda>d. d\<lparr>AlreadyRunning := True\<rparr>) e;
          w = WatchStatistics (engineD e1);
          l = \<lparr>rulesFired = 0, runLimit = limit,
               maxFacts = (if w then numberOfFacts e1 else 0), sumFacts = (if w then numberOfFacts e1 else 0),
               maxInstances = (if w then numberOfInstances e1 else 0), sumInstances = (if w then numberOfInstances e1 else 0),
               maxActivations = (if w then GetNumberOfActivations e1 else 0),
               sumActivations = (if w then GetNumberOfActivations e1 else 0)\<rparr>;
          e2 = (if CurrentExpression (evalD e1) = None then ResetErrorFlags e1 else e1)
      in (l, set_engineD (\<lambda>d. d\<lparr>HaltRules := False\<rparr>) e2))"

text \<open>The mean of the statistics, rounded to the nearest integer.\<close>

definition mean_of :: "u64 \<Rightarrow> int \<Rightarrow> int" where
  "mean_of total_count fired = (2 * uint total_count + (fired + 1)) div (2 * (fired + 1))"

definition run_end :: "run_locals \<Rightarrow> env \<Rightarrow> env" where
  "run_end l e =
     (let e1 = (if rulesFired l = 0 then call_rule_functions (ListOfAfterRuleFiresFunctions (engineD e)) None e else e);
          e2 = (if runLimit l = rulesFired l then say LimitReached e1 else e1);
          e3 = set_engineD (\<lambda>d. d\<lparr>ExecutingRule := None, HaltRules := False\<rparr>) e2;
          e4 = (if WatchStatistics (engineD e3)
                then say (StatisticsOf (rulesFired l)
                  [(mean_of (sumFacts l) (rulesFired l), maxFacts l),
                   (mean_of (sumInstances l) (rulesFired l), maxInstances l),
                   (mean_of (sumActivations l) (rulesFired l), maxActivations l)]) e3
                else e3)
      in (case CurrentFocus (engineD e4) of [] \<Rightarrow> e4
          | m # _ \<Rightarrow> if Some m \<noteq> GetCurrentModule e4 then snd (SetCurrentModule (Some m) e4) else e4))"

definition Run :: "(rule_id \<Rightarrow> env \<Rightarrow> env option) \<Rightarrow> (env \<Rightarrow> env) \<Rightarrow> int \<Rightarrow> env \<Rightarrow> (int \<times> env) option" where
  "Run actions garbage limit e =
     (if AlreadyRunning (engineD e) then Some (0, e)
      else do {
        let (l, e1) = run_begin limit e;
        (p, e2) \<leftarrow> NextActivationToFire e1;
        (l', e3) \<leftarrow> run_loop actions garbage p l e2;
        Some (rulesFired l', set_engineD (\<lambda>d. d\<lparr>AlreadyRunning := False\<rparr>) (garbage (run_end l' e3))) })"

text \<open>The argument of the command: absent, no integer (\<open>Some None\<close>), or an integer.\<close>

definition RunCommand ::
  "(rule_id \<Rightarrow> env \<Rightarrow> env option) \<Rightarrow> (env \<Rightarrow> env) \<Rightarrow> int option option \<Rightarrow> env \<Rightarrow> env option" where
  "RunCommand actions garbage arg e = (case arg of
     None \<Rightarrow> map_option snd (Run actions garbage (- 1) e)
   | Some None \<Rightarrow> Some e
   | Some (Some n) \<Rightarrow> map_option snd (Run actions garbage n e))"

definition Halt :: "env \<Rightarrow> env" where
  "Halt e = set_engineD (\<lambda>d. d\<lparr>HaltRules := True\<rparr>) e"

definition SetHaltRules :: "bool \<Rightarrow> env \<Rightarrow> env" where
  "SetHaltRules v e = set_engineD (\<lambda>d. d\<lparr>HaltRules := v\<rparr>) e"

definition GetHaltRules :: "env \<Rightarrow> bool" where
  "GetHaltRules e = HaltRules (engineD e)"

definition GetFocusChanged :: "env \<Rightarrow> bool" where
  "GetFocusChanged e = FocusChanged (engineD e)"

definition SetFocusChanged :: "bool \<Rightarrow> env \<Rightarrow> env" where
  "SetFocusChanged v e = set_engineD (\<lambda>d. d\<lparr>FocusChanged := v\<rparr>) e"

section \<open>Breakpoints\<close>

partial_function (option) SetBreak_loop :: "rule_id option \<Rightarrow> env \<Rightarrow> env option" where
  "SetBreak_loop thePtr e = (case thePtr of None \<Rightarrow> Some e
     | Some r \<Rightarrow> do {
         e' \<leftarrow> upd_rule r (afterBreakpoint_update (\<lambda>_. True)) e;
         R \<leftarrow> rules e' r;
         SetBreak_loop (disjunct R) e' })"

declare SetBreak_loop.simps [code]

definition SetBreak :: "rule_id \<Rightarrow> env \<Rightarrow> env option" where
  "SetBreak r e = SetBreak_loop (Some r) e"

partial_function (option) RemoveBreak_loop :: "rule_id option \<Rightarrow> bool \<Rightarrow> env \<Rightarrow> (bool \<times> env) option" where
  "RemoveBreak_loop thePtr rv e = (case thePtr of None \<Rightarrow> Some (rv, e)
     | Some r \<Rightarrow> do {
         R \<leftarrow> rules e r;
         e' \<leftarrow> (if afterBreakpoint R then upd_rule r (afterBreakpoint_update (\<lambda>_. False)) e else Some e);
         RemoveBreak_loop (disjunct R) (rv \<or> afterBreakpoint R) e' })"

declare RemoveBreak_loop.simps [code]

definition RemoveBreak :: "rule_id \<Rightarrow> env \<Rightarrow> (bool \<times> env) option" where
  "RemoveBreak r e = RemoveBreak_loop (Some r) False e"

fun next_in :: "rule_id list \<Rightarrow> rule_id \<Rightarrow> rule_id option" where
  "next_in [] r = None"
| "next_in (q # qs) r = (if q = r then (case qs of [] \<Rightarrow> None | p # _ \<Rightarrow> Some p) else next_in qs r)"

text \<open>The first rule of the current module, or the one after a rule in the list of its module.\<close>

definition GetNextDefrule :: "rule_id option \<Rightarrow> env \<Rightarrow> rule_id option option" where
  "GetNextDefrule p e = (case p of
     None \<Rightarrow> (case GetModuleItem None e of None \<Rightarrow> Some None
       | Some m \<Rightarrow> do { item \<leftarrow> items e m; Some (case ruleList item of [] \<Rightarrow> None | r # _ \<Rightarrow> Some r) })
   | Some r \<Rightarrow> do { R \<leftarrow> rules e r; item \<leftarrow> items e (whichModule R); Some (next_in (ruleList item) r) })"

partial_function (option) remove_breaks :: "rule_id option \<Rightarrow> env \<Rightarrow> env option" where
  "remove_breaks p e = do {
     n \<leftarrow> GetNextDefrule p e;
     (case n of None \<Rightarrow> Some e
      | Some r \<Rightarrow> do { (_, e') \<leftarrow> RemoveBreak r e; remove_breaks (Some r) e' }) }"

declare remove_breaks.simps [code]

definition RemoveAllBreakpoints :: "env \<Rightarrow> env option" where
  "RemoveAllBreakpoints e = for_modules (\<lambda>m. remove_breaks None) (GetNextDefmodule None e) e"

definition DefruleHasBreakpoint :: "rule_id \<Rightarrow> env \<Rightarrow> bool option" where
  "DefruleHasBreakpoint r e = map_option afterBreakpoint (rules e r)"

section \<open>Commands on the focus stack\<close>

fun defmodule_name :: "(module_id \<times> string) list \<Rightarrow> module_id \<Rightarrow> string" where
  "defmodule_name [] m = []"
| "defmodule_name ((k, nm) # ms) m = (if k = m then nm else defmodule_name ms m)"

definition GetFocusStack :: "env \<Rightarrow> string list" where
  "GetFocusStack e = map (defmodule_name (ListOfDefmodules (moduleD e))) (CurrentFocus (engineD e))"

definition ListFocusStack :: "env \<Rightarrow> env" where
  "ListFocusStack e = fold (\<lambda>m. say (ListedFocus (defmodule_name (ListOfDefmodules (moduleD e)) m))) (CurrentFocus (engineD e)) e"

text \<open>The name of the module popped, or \<open>None\<close> for the symbol \<open>FALSE\<close>.\<close>

definition PopFocusFunction :: "env \<Rightarrow> string option \<times> env" where
  "PopFocusFunction e = (case PopFocus e of (None, e') \<Rightarrow> (None, e')
     | (Some m, e') \<Rightarrow> (Some (defmodule_name (ListOfDefmodules (moduleD e')) m), e'))"

text \<open>
  The arguments from the last to the first; the loop stops at one that is no symbol
  (\<open>None\<close>) or names no module.
\<close>

fun focus_args :: "string option list \<Rightarrow> env \<Rightarrow> bool option \<times> env" where
  "focus_args [] e = (Some True, e)"
| "focus_args (a # as) e = (case a of None \<Rightarrow> (None, e)
     | Some argument \<Rightarrow> (case FindDefmodule argument e of
          None \<Rightarrow> (Some False, say (CantFindItem ''defmodule'' argument) e)
        | Some m \<Rightarrow> focus_args as (Focus (Some m) e)))"

definition FocusCommand :: "string option list \<Rightarrow> env \<Rightarrow> bool option \<times> env" where
  "FocusCommand args e = focus_args (rev args) e"

end
