(* ===== verification/Engine_Props.thy ===== *)
theory Engine_Props
  imports Engine
begin

text \<open>
  What the engine promises apart from the firing loop: the choice of the next activation, the
  call lists ordered by priority, breakpoints along the disjuncts of a rule, the focus stack
  as seen by the commands, and the count of rules fired by a run.
\<close>

section \<open>The next activation\<close>

text \<open>The first module of the focus stack with an activation on its agenda.\<close>

definition agenda_of :: "env \<Rightarrow> module_id \<Rightarrow> ptr" where
  "agenda_of e m = (case items e m of None \<Rightarrow> None | Some it \<Rightarrow> agenda it)"

definition busy_focus :: "env \<Rightarrow> module_id list \<Rightarrow> module_id list" where
  "busy_focus e ms = dropWhile (\<lambda>m. agenda_of e m = None) ms"

lemma busy_focus_simps [simp]:
  "busy_focus e [] = []"
  "busy_focus e (m # ms) = (if agenda_of e m = None then busy_focus e ms else m # ms)"
  by (simp_all add: busy_focus_def)

lemma busy_focus_cong: "items e' = items e \<Longrightarrow> busy_focus e' ms = busy_focus e ms"
  by (induction ms) (simp_all add: agenda_of_def)

lemma busy_focus_set: "set (busy_focus e ms) \<subseteq> set ms"
  by (auto simp: busy_focus_def dest: set_dropWhileD)

lemma busy_focus_hd: "busy_focus e ms = m # ks \<Longrightarrow> \<exists>a. agenda_of e m = Some a"
  by (induction ms) (auto split: if_splits)

definition next_act :: "env \<Rightarrow> module_id list \<Rightarrow> ptr" where
  "next_act e ms = (case busy_focus e ms of [] \<Rightarrow> None | m # _ \<Rightarrow> agenda_of e m)"

lemma next_act_cong: "items e' = items e \<Longrightarrow> next_act e' ms = next_act e ms"
  using busy_focus_cong [of e' e ms] by (simp add: next_act_def agenda_of_def split: list.split)

text \<open>What choosing the next activation leaves unchanged.\<close>

definition focus_frame :: "env \<Rightarrow> env \<Rightarrow> bool" where
  "focus_frame e e' \<longleftrightarrow> acts e' = acts e \<and> grps e' = grps e \<and> fresh e' = fresh e \<and> items e' = items e \<and> rules e' = rules e \<and>
     matches e' = matches e \<and> joins e' = joins e \<and> entities e' = entities e \<and> agendaD e' = agendaD e \<and>
     evalD e' = evalD e \<and> dynValue e' = dynValue e \<and> clearFlags e' = clearFlags e \<and>
     ListOfDefmodules (moduleD e') = ListOfDefmodules (moduleD e) \<and> ModuleStack (moduleD e') = ModuleStack (moduleD e) \<and>
     (engineD e')\<lparr>CurrentFocus := [], FocusChanged := False\<rparr> = (engineD e)\<lparr>CurrentFocus := [], FocusChanged := False\<rparr>"

lemma focus_frame_refl [simp]: "focus_frame e e"
  by (simp add: focus_frame_def)

lemma focus_frame_trans: "\<lbrakk>focus_frame e e'; focus_frame e' e''\<rbrakk> \<Longrightarrow> focus_frame e e''"
  by (simp add: focus_frame_def)

lemma focus_frame_Focus: "focus_frame e (Focus m e)"
  by (simp add: focus_frame_def) (simp add: focus_defs split: option.split)

lemma focus_frame_RemoveFocus: "focus_frame e (snd (RemoveFocus m e))"
  by (simp add: focus_frame_def) (simp add: focus_defs split: list.split prod.split)

lemma focus_frame_PopFocus: "focus_frame e (snd (PopFocus e))"
  by (simp add: PopFocus_def focus_frame_RemoveFocus split: list.split)

lemma next_act_loop_eq:
  assumes "\<And>m. m \<in> set (CurrentFocus (engineD e)) \<Longrightarrow> items e m \<noteq> None"
  shows "\<exists>e'. next_act_loop e = Some (next_act e (CurrentFocus (engineD e)), e') \<and>
    CurrentFocus (engineD e') = busy_focus e (CurrentFocus (engineD e)) \<and> focus_frame e e'"
  using assms
proof (induction e rule: next_act_loop.induct)
  case (1 e)
  show ?case
  proof (cases "CurrentFocus (engineD e)")
    case Nil
    then show ?thesis by (subst next_act_loop.simps) (simp add: next_act_def)
  next
    case (Cons m ms)
    then obtain it where it: "items e m = Some it" using "1.prems" [of m] by auto
    show ?thesis
    proof (cases "agenda it")
      case (Some a)
      then show ?thesis using Cons it by (subst next_act_loop.simps) (simp add: next_act_def agenda_of_def)
    next
      case None
      let ?e = "snd (PopFocus e)"
      have eq: "next_act_loop e = next_act_loop ?e" using Cons it None by (subst next_act_loop.simps) simp
      have st: "CurrentFocus (engineD ?e) = ms" "busy_focus ?e ms = busy_focus e ms" "next_act ?e ms = next_act e ms"
        using Cons busy_focus_cong [of ?e e ms] next_act_cong [of ?e e ms] by simp_all
      have "\<exists>e'. next_act_loop ?e = Some (next_act ?e (CurrentFocus (engineD ?e)), e') \<and>
        CurrentFocus (engineD e') = busy_focus ?e (CurrentFocus (engineD ?e)) \<and> focus_frame ?e e'"
        using "1.IH" [OF Cons it None] "1.prems" Cons by simp
      then obtain e' where e': "next_act_loop ?e = Some (next_act e ms, e')" "CurrentFocus (engineD e') = busy_focus e ms"
        "focus_frame ?e e'" unfolding st by blast
      have "busy_focus e (m # ms) = busy_focus e ms" "next_act e (m # ms) = next_act e ms"
        using it None by (simp_all add: next_act_def agenda_of_def)
      then show ?thesis using eq e' focus_frame_trans [OF focus_frame_PopFocus e'(3)] Cons by simp
    qed
  qed
qed

definition focus_ok :: "env \<Rightarrow> bool" where
  "focus_ok e \<longleftrightarrow> (\<forall>m\<in>set (CurrentFocus (engineD e)). items e m \<noteq> None) \<and>
     (\<exists>m. FindDefmodule ''MAIN'' e = Some m \<and> items e m \<noteq> None)"

text \<open>The stack from which the choice is made.\<close>

definition start_focus :: "env \<Rightarrow> module_id list" where
  "start_focus e = (if CurrentFocus (engineD e) = []
     then (case FindDefmodule ''MAIN'' e of None \<Rightarrow> [] | Some m \<Rightarrow> [m]) else CurrentFocus (engineD e))"

lemma NextActivationToFire_ok:
  assumes "focus_ok e"
  shows "\<exists>e'. NextActivationToFire e = Some (next_act e (start_focus e), e') \<and>
    CurrentFocus (engineD e') = busy_focus e (start_focus e) \<and> focus_frame e e'"
proof -
  obtain k where k: "FindDefmodule ''MAIN'' e = Some k" "items e k \<noteq> None" using assms by (auto simp: focus_ok_def)
  let ?e = "if CurrentFocus (engineD e) = [] then Focus (FindDefmodule ''MAIN'' e) e else e"
  have st: "CurrentFocus (engineD ?e) = start_focus e" "start_focus e \<noteq> []"
    using k CurrentFocus_Focus [of k e] by (simp_all add: start_focus_def top_focus_def)
  have fr: "focus_frame e ?e" by (simp add: focus_frame_Focus)
  then have it: "items ?e = items e" by (simp add: focus_frame_def)
  have "\<And>m. m \<in> set (CurrentFocus (engineD ?e)) \<Longrightarrow> items ?e m \<noteq> None"
    using assms k it unfolding st(1) by (auto simp: start_focus_def focus_ok_def split: if_splits)
  from next_act_loop_eq [OF this] obtain e' where e':
    "next_act_loop ?e = Some (next_act ?e (start_focus e), e')"
    "CurrentFocus (engineD e') = busy_focus ?e (start_focus e)" "focus_frame ?e e'"
    unfolding st(1) by blast
  have "NextActivationToFire e = next_act_loop ?e" using st by (simp add: NextActivationToFire_def Let_def)
  then show ?thesis
    using e' busy_focus_cong [OF it, of "start_focus e"] next_act_cong [OF it, of "start_focus e"]
      focus_frame_trans [OF fr e'(3)] by simp
qed

section \<open>Call lists ordered by priority\<close>

definition by_priority :: "ruleFiredFunctionItem list \<Rightarrow> bool" where
  "by_priority fs \<longleftrightarrow> sorted_wrt (\<lambda>f g. fun_priority g \<le> fun_priority f) fs"

text \<open>The new entry goes behind the entries of higher priority and before those of the same one.\<close>

lemma AddRuleFiredFunctionToCallList_eq:
  "AddRuleFiredFunctionToCallList name priority func fs =
     takeWhile (\<lambda>f. priority < fun_priority f) fs @
     \<lparr>fun_name = name, fun_id = func, fun_priority = priority\<rparr> # dropWhile (\<lambda>f. priority < fun_priority f) fs"
  by (induction fs) simp_all

lemma by_priority_Add:
  assumes "by_priority fs"
  shows "by_priority (AddRuleFiredFunctionToCallList name priority func fs)"
  using assms
proof (induction fs)
  case (Cons f fs)
  then show ?case by (auto simp: by_priority_def AddRuleFiredFunctionToCallList_eq dest!: set_takeWhileD set_dropWhileD)
qed (simp add: by_priority_def)

lemma RemoveRuleFiredFunctionFromCallList_absent:
  "name \<notin> fun_name ` set fs \<Longrightarrow> RemoveRuleFiredFunctionFromCallList name fs = (False, fs)"
  by (induction fs) auto

lemma by_priority_Remove:
  "by_priority fs \<Longrightarrow> by_priority (snd (RemoveRuleFiredFunctionFromCallList name fs))"
proof -
  have sub: "set (snd (RemoveRuleFiredFunctionFromCallList name fs)) \<subseteq> set fs" for fs
    by (induction fs) (auto split: prod.splits)
  show "by_priority fs \<Longrightarrow> by_priority (snd (RemoveRuleFiredFunctionFromCallList name fs))"
  proof (induction fs)
    case (Cons f fs)
    then show ?case using sub [of fs] by (auto simp: by_priority_def split: prod.splits)
  qed simp
qed

lemma Remove_Add:
  assumes "name \<notin> fun_name ` set fs"
  shows "RemoveRuleFiredFunctionFromCallList name (AddRuleFiredFunctionToCallList name priority func fs) = (True, fs)"
  using assms by (induction fs) auto

text \<open>
  The two call lists of the engine share one contract: an operation that adds and one that
  removes an entry, on one field of the environment.
\<close>

locale call_list =
  fixes calls :: "env \<Rightarrow> ruleFiredFunctionItem list" and put :: "ruleFiredFunctionItem list \<Rightarrow> env \<Rightarrow> env"
    and add_function :: "string \<Rightarrow> nat \<Rightarrow> int \<Rightarrow> env \<Rightarrow> bool \<times> env"
    and remove_function :: "string \<Rightarrow> env \<Rightarrow> bool \<times> env"
  assumes calls_put: "calls (put fs e) = fs" and put_put: "put fs (put gs e) = put fs e" and put_calls: "put (calls e) e = e"
    and add_law: "add_function name func priority e = (True, put (AddRuleFiredFunctionToCallList name priority func (calls e)) e)"
    and remove_law: "remove_function name e = (case RemoveRuleFiredFunctionFromCallList name (calls e) of (found, fs) \<Rightarrow> (found, put fs e))"
begin

lemma add_keeps_order: "by_priority (calls e) \<Longrightarrow> by_priority (calls (snd (add_function name func priority e)))"
  by (simp add: add_law calls_put by_priority_Add)

lemma remove_keeps_order: "by_priority (calls e) \<Longrightarrow> by_priority (calls (snd (remove_function name e)))"
  using by_priority_Remove [of "calls e" name] by (auto simp: remove_law calls_put split: prod.split)

lemma remove_after_add:
  "name \<notin> fun_name ` set (calls e) \<Longrightarrow> remove_function name (snd (add_function name func priority e)) = (True, e)"
  by (simp add: add_law remove_law calls_put Remove_Add put_put put_calls)

lemma add_called: "\<exists>pre post. calls e = pre @ post \<and>
    calls (snd (add_function name func priority e)) = pre @ \<lparr>fun_name = name, fun_id = func, fun_priority = priority\<rparr> # post \<and>
    (\<forall>f\<in>set pre. priority < fun_priority f)"
  by (intro exI [of _ "takeWhile (\<lambda>f. priority < fun_priority f) (calls e)"]
      exI [of _ "dropWhile (\<lambda>f. priority < fun_priority f) (calls e)"])
    (auto simp: add_law calls_put AddRuleFiredFunctionToCallList_eq dest: set_takeWhileD)

end

interpretation after: call_list "\<lambda>e. ListOfAfterRuleFiresFunctions (engineD e)"
  "\<lambda>fs. set_engineD (\<lambda>d. d\<lparr>ListOfAfterRuleFiresFunctions := fs\<rparr>)" AddAfterRuleFiresFunction RemoveAfterRuleFiresFunction
  by unfold_locales (simp_all add: set_engineD_def AddAfterRuleFiresFunction_def RemoveAfterRuleFiresFunction_def)

interpretation before: call_list "\<lambda>e. ListOfBeforeRuleFiresFunctions (engineD e)"
  "\<lambda>fs. set_engineD (\<lambda>d. d\<lparr>ListOfBeforeRuleFiresFunctions := fs\<rparr>)" AddBeforeRuleFiresFunction RemoveBeforeRuleFiresFunction
  by unfold_locales (simp_all add: set_engineD_def AddBeforeRuleFiresFunction_def RemoveBeforeRuleFiresFunction_def)

section \<open>Breakpoints\<close>

definition break_rules :: "bool \<Rightarrow> rule_id set \<Rightarrow> (rule_id \<rightharpoonup> defrule) \<Rightarrow> (rule_id \<rightharpoonup> defrule)" where
  "break_rules v S f = (\<lambda>d. if d \<in> S then map_option (afterBreakpoint_update (\<lambda>_. v)) (f d) else f d)"

definition set_breaks :: "bool \<Rightarrow> rule_id set \<Rightarrow> env \<Rightarrow> env" where
  "set_breaks v S e = e\<lparr>rules := break_rules v S (rules e)\<rparr>"

lemma break_rules_simps:
  "break_rules v {} f = f" "break_rules v S (break_rules v T f) = break_rules v (S \<union> T) f"
  "f d = Some D \<Longrightarrow> break_rules v {d} f = f(d \<mapsto> D\<lparr>afterBreakpoint := v\<rparr>)"
  "f d = Some D \<Longrightarrow> afterBreakpoint D = v \<Longrightarrow> break_rules v {d} f = f"
  by (auto simp: break_rules_def fun_eq_iff option.map_comp comp_def)

lemma set_breaks_empty [simp]: "set_breaks v {} e = e"
  by (simp add: set_breaks_def break_rules_simps)

lemma set_breaks_Un: "set_breaks v S (set_breaks v T e) = set_breaks v (S \<union> T) e"
  by (simp add: set_breaks_def break_rules_simps)

lemma set_breaks_rules: "rules (set_breaks v S e) d =
    (if d \<in> S then map_option (afterBreakpoint_update (\<lambda>_. v)) (rules e d) else rules e d)"
  by (simp add: set_breaks_def break_rules_def)

lemma set_breaks_fields [simp]:
  "items (set_breaks v S e) = items e" "moduleD (set_breaks v S e) = moduleD e"
  "map_option disjunct (rules (set_breaks v S e) d) = map_option disjunct (rules e d)"
  "map_option whichModule (rules (set_breaks v S e) d) = map_option whichModule (rules e d)"
  by (auto simp: set_breaks_rules option.map_comp comp_def) (simp_all add: set_breaks_def)

lemma set_breaks_one: "rules e d = Some D \<Longrightarrow> e\<lparr>rules := (rules e)(d \<mapsto> D\<lparr>afterBreakpoint := v\<rparr>)\<rparr> = set_breaks v {d} e"
  by (simp add: set_breaks_def break_rules_simps)

lemma disjunct_chain_set_breaks [simp]: "disjunct_chain (set_breaks v S e) p ds = disjunct_chain e p ds"
  by (rule disjunct_chain_cong) simp

lemma SetBreak_loop_eq: "disjunct_chain e p ds \<Longrightarrow> SetBreak_loop p e = Some (set_breaks True (set ds) e)"
proof (induction ds arbitrary: p e)
  case Nil
  then show ?case by (simp add: SetBreak_loop.simps)
next
  case (Cons d ds)
  then obtain D where D: "p = Some d" "rules e d = Some D" "disjunct_chain e (disjunct D) ds" by (auto split: option.splits)
  with Cons.IH [of "set_breaks True {d} e" "disjunct D"] show ?case
    by (subst SetBreak_loop.simps) (simp add: heap_simps set_breaks_one set_breaks_Un set_breaks_rules)
qed

lemma RemoveBreak_loop_eq:
  "disjunct_chain e p ds \<Longrightarrow> distinct ds \<Longrightarrow>
     RemoveBreak_loop p rv e = Some (rv \<or> (\<exists>d\<in>set ds. DefruleHasBreakpoint d e = Some True), set_breaks False (set ds) e)"
proof (induction ds arbitrary: p e rv)
  case Nil
  then show ?case by (simp add: RemoveBreak_loop.simps)
next
  case (Cons d ds)
  then obtain D where D: "p = Some d" "rules e d = Some D" "disjunct_chain e (disjunct D) ds" by (auto split: option.splits)
  let ?e = "set_breaks False {d} e"
  have same: "e = ?e" if "\<not> afterBreakpoint D" using that D(2) by (simp add: set_breaks_def break_rules_simps(4))
  have "(if afterBreakpoint D then upd_rule d (afterBreakpoint_update (\<lambda>_. False)) e else Some e) = Some ?e"
    using D(2) same by (auto simp: heap_simps set_breaks_one)
  moreover have "(\<exists>x\<in>set ds. DefruleHasBreakpoint x ?e = Some True) = (\<exists>x\<in>set ds. DefruleHasBreakpoint x e = Some True)"
    using Cons.prems(2) by (auto simp: DefruleHasBreakpoint_def set_breaks_rules)
  ultimately show ?case
    using Cons.IH [of ?e "disjunct D" "rv \<or> afterBreakpoint D"] D Cons.prems(2)
    by (subst RemoveBreak_loop.simps) (auto simp: set_breaks_Un DefruleHasBreakpoint_def)
qed

text \<open>
  The rules of a module and the disjuncts of each: \<open>D r\<close> is the chain of rule \<open>r\<close>.
\<close>

definition module_rules :: "env \<Rightarrow> module_id \<Rightarrow> (rule_id \<Rightarrow> rule_id list) \<Rightarrow> rule_id list \<Rightarrow> bool" where
  "module_rules e m D rs \<longleftrightarrow> map_option ruleList (items e m) = Some rs \<and> distinct rs \<and>
     (\<forall>r\<in>set rs. map_option whichModule (rules e r) = Some m \<and> disjunct_chain e (Some r) (D r) \<and> distinct (D r))"

lemma module_rules_set_breaks [simp]: "module_rules (set_breaks v S e) m D rs = module_rules e m D rs"
  by (simp add: module_rules_def)

lemma next_in_split: "distinct (pre @ r # post) \<Longrightarrow>
    next_in (pre @ r # post) r = (case post of [] \<Rightarrow> None | p # _ \<Rightarrow> Some p)"
  by (induction pre) auto

lemma remove_breaks_eq:
  assumes "module_rules e m D (pre @ post)"
    and "GetNextDefrule p e = Some (case post of [] \<Rightarrow> None | r # _ \<Rightarrow> Some r)"
  shows "remove_breaks p e = Some (set_breaks False (\<Union>r\<in>set post. set (D r)) e)"
  using assms
proof (induction post arbitrary: pre p e)
  case Nil
  then show ?case by (subst remove_breaks.simps) simp
next
  case (Cons r post)
  note mr = Cons.prems(1)
  have r: "disjunct_chain e (Some r) (D r)" "distinct (D r)" using mr by (auto simp: module_rules_def)
  let ?e = "set_breaks False (set (D r)) e"
  have rem: "RemoveBreak r e = Some (\<exists>d\<in>set (D r). DefruleHasBreakpoint d e = Some True, ?e)"
    using RemoveBreak_loop_eq [OF r] by (simp add: RemoveBreak_def)
  have mr': "module_rules ?e m D ((pre @ [r]) @ post)" using mr by simp
  moreover have "GetNextDefrule (Some r) ?e = Some (case post of [] \<Rightarrow> None | p # _ \<Rightarrow> Some p)"
    using mr' next_in_split [of pre r post] by (auto simp: GetNextDefrule_def module_rules_def set_breaks_rules)
  ultimately have "remove_breaks (Some r) ?e = Some (set_breaks False (\<Union>r\<in>set post. set (D r)) ?e)"
    by (rule Cons.IH)
  then show ?case using Cons.prems(2) rem by (subst remove_breaks.simps) (simp add: set_breaks_Un Un_commute)
qed

lemma RemoveAllBreakpoints_eq:
  assumes mods: "modules_ok e" "ListOfDefmodules (moduleD e) \<noteq> []"
    and cur: "CurrentModule (moduleD e) = Some m" and mr: "module_rules e m D rs"
  shows "RemoveAllBreakpoints e = Some (set_breaks False (\<Union>r\<in>set rs. set (D r)) e)"
proof -
  let ?S = "\<Union>r\<in>set rs. set (D r)" and ?L = "ListOfDefmodules (moduleD e)"
  define I where "I = (\<lambda>(ms :: (module_id \<times> string) list) e'. e' = set_breaks False (if ms = [] then {} else ?S) e)"
  have step: "\<exists>e'. remove_breaks None e1 = Some e' \<and> I (ms @ [x]) e'" if i: "I ms e1" for ms x e1
  proof -
    have "module_rules e1 m D ([] @ rs)" "CurrentModule (moduleD e1) = Some m" using i mr cur by (simp_all add: I_def)
    moreover from this have "GetNextDefrule None e1 = Some (case rs of [] \<Rightarrow> None | r # _ \<Rightarrow> Some r)"
      by (auto simp: GetNextDefrule_def module_rules_def GetModuleItem_def)
    ultimately have "remove_breaks None e1 = Some (set_breaks False ?S e1)" by (intro remove_breaks_eq)
    then show ?thesis using i by (simp add: I_def set_breaks_Un)
  qed
  have "distinct (map fst ?L)" using mods by (simp add: modules_ok_def)
  then obtain e' where "for_modules (\<lambda>m. remove_breaks None) (first_module ?L) e = Some e'" "I ?L e'"
    using for_modules_inv [of ?L I "[]" e ?L "\<lambda>m. remove_breaks None"] step by (auto simp: I_def)
  then show ?thesis using mods(2) by (simp add: RemoveAllBreakpoints_def GetNextDefmodule_first I_def)
qed

section \<open>Counting the rules fired\<close>

lemma fire_begin_counts:
  assumes "fire_begin a l e = Some (l', e')"
  shows "rulesFired l' = rulesFired l + 1" "runLimit l' = (if runLimit l > 0 then runLimit l - 1 else runLimit l)"
  using assms by (auto simp: fire_begin_def Let_def)

lemma keep_statistics_counts [simp]:
  "rulesFired (keep_statistics l e) = rulesFired l" "runLimit (keep_statistics l e) = runLimit l"
  by (simp_all add: keep_statistics_def)

lemma fire_rule_counts:
  assumes "fire_rule actions garbage a l e = Some (l', p, e')"
  shows "rulesFired l' = rulesFired l + 1" "runLimit l' = (if runLimit l > 0 then runLimit l - 1 else runLimit l)"
  using assms fire_begin_counts by (auto simp: fire_rule_def split: prod.splits)

text \<open>Whenever the loop returns, the limit has been counted down once for every rule fired.\<close>

lemma run_loop_counts:
  assumes "run_loop actions garbage p l e = Some (l', e')"
  shows "rulesFired l \<le> rulesFired l' \<and>
    (if runLimit l \<ge> 0 then runLimit l' \<ge> 0 \<and> runLimit l' + rulesFired l' = runLimit l + rulesFired l
     else runLimit l' = runLimit l)"
proof -
  define P where "P = (\<lambda>(p :: ptr, l :: run_locals, e :: env) (l' :: run_locals, e' :: env). rulesFired l \<le> rulesFired l' \<and>
    (if runLimit l \<ge> 0 then runLimit l' \<ge> 0 \<and> runLimit l' + rulesFired l' = runLimit l + rulesFired l
     else runLimit l' = runLimit l))"
  have "P (p, l, e) (l', e')"
  proof (rule run_loop.raw_induct [of "\<lambda>_ _ p l e r. P (p, l, e) r", OF _ assms])
    fix F :: "(nat \<Rightarrow> env \<Rightarrow> env option) \<Rightarrow> (env \<Rightarrow> env) \<Rightarrow> ptr \<Rightarrow> run_locals \<Rightarrow> env \<Rightarrow> (run_locals \<times> env) option"
      and actions :: "nat \<Rightarrow> env \<Rightarrow> env option" and garbage p l e r
    assume IH: "\<And>actions garbage p l e r. F actions garbage p l e = Some r \<Longrightarrow> P (p, l, e) r"
      and r: "(case p of None \<Rightarrow> Some (l, e) | Some a \<Rightarrow>
        if runLimit l \<noteq> 0 \<and> \<not> HaltExecution (evalD e) \<and> \<not> HaltRules (engineD e)
        then do { (l', p, e') \<leftarrow> fire_rule actions garbage a l e; F actions garbage p l' e' } else Some (l, e)) = Some r"
    show "P (p, l, e) r"
    proof (cases "p \<noteq> None \<and> runLimit l \<noteq> 0 \<and> \<not> HaltExecution (evalD e) \<and> \<not> HaltRules (engineD e)")
      case True
      then obtain l1 p1 e1 where f: "fire_rule actions garbage (the p) l e = Some (l1, p1, e1)" "F actions garbage p1 l1 e1 = Some r"
        using r by (auto split: option.splits prod.splits)
      from fire_rule_counts [OF f(1)] IH [OF f(2)] True show ?thesis
        by (cases r) (auto simp: P_def split: if_splits)
    qed (use r in \<open>auto simp: P_def split: option.splits if_splits\<close>)
  qed
  then show ?thesis by (simp add: P_def)
qed

section \<open>The message at the end of a run\<close>

lemma messages_SetCurrentModule:
  "LimitReached \<in> set (messages (snd (SetCurrentModule m e))) \<longleftrightarrow> LimitReached \<in> set (messages e)"
  by (auto simp: SetCurrentModule_eq)

lemma messages_calls:
  "LimitReached \<in> set (messages (call_rule_functions fs p e)) \<longleftrightarrow> LimitReached \<in> set (messages e)"
  by (auto simp: call_rule_functions_def fold_say)

lemma run_end_limit:
  "LimitReached \<in> set (messages (run_end l e)) \<longleftrightarrow> runLimit l = rulesFired l \<or> LimitReached \<in> set (messages e)"
proof -
  define e1 where "e1 = (if rulesFired l = 0 then call_rule_functions (ListOfAfterRuleFiresFunctions (engineD e)) None e else e)"
  define e2 where "e2 = (if runLimit l = rulesFired l then say LimitReached e1 else e1)"
  define e3 where "e3 = set_engineD (\<lambda>d. d\<lparr>ExecutingRule := None, HaltRules := False\<rparr>) e2"
  define e4 where "e4 = (if WatchStatistics (engineD e3)
                then say (StatisticsOf (rulesFired l)
                  [(mean_of (sumFacts l) (rulesFired l), maxFacts l),
                   (mean_of (sumInstances l) (rulesFired l), maxInstances l),
                   (mean_of (sumActivations l) (rulesFired l), maxActivations l)]) e3
                else e3)"
  have "run_end l e = (case CurrentFocus (engineD e4) of [] \<Rightarrow> e4
      | m # _ \<Rightarrow> if Some m \<noteq> GetCurrentModule e4 then snd (SetCurrentModule (Some m) e4) else e4)"
    by (simp only: run_end_def Let_def e1_def e2_def e3_def e4_def)
  then have "LimitReached \<in> set (messages (run_end l e)) \<longleftrightarrow> LimitReached \<in> set (messages e4)"
    using messages_SetCurrentModule [of _ e4] by (simp split: list.split)
  also have "\<dots> \<longleftrightarrow> LimitReached \<in> set (messages e2)"
    unfolding e4_def e3_def by (simp add: say_def set_engineD_def)
  also have "\<dots> \<longleftrightarrow> runLimit l = rulesFired l \<or> LimitReached \<in> set (messages e)"
    unfolding e2_def e1_def using messages_calls by (simp add: say_def)
  finally show ?thesis .
qed

section \<open>Pushing modules on the focus stack\<close>

definition push_focus :: "module_id \<Rightarrow> module_id list \<Rightarrow> module_id list" where
  "push_focus m ms = (if ms \<noteq> [] \<and> hd ms = m then ms else m # ms)"

lemma Focus_push: "CurrentFocus (engineD (Focus (Some m) e)) = push_focus m (CurrentFocus (engineD e))"
  by (auto simp: CurrentFocus_Focus push_focus_def top_focus_def split: list.splits)

lemma focus_args_ok:
  assumes "map (\<lambda>name. FindDefmodule name e) names = map Some ms"
  shows "\<exists>e'. focus_args (map Some names) e = (Some True, e') \<and>
    CurrentFocus (engineD e') = fold push_focus ms (CurrentFocus (engineD e)) \<and> acts e' = acts e \<and> items e' = items e"
  using assms
proof (induction names arbitrary: ms e)
  case (Cons name names)
  then obtain m ks where ms: "ms = m # ks" "FindDefmodule name e = Some m" "map (\<lambda>name. FindDefmodule name e) names = map Some ks"
    by (cases ms) auto
  have "FindDefmodule n (Focus (Some m) e) = FindDefmodule n e" for n
    by (simp add: FindDefmodule_def Focus_def SetCurrentModule_eq Let_def say_def set_engineD_def)
  with ms(3) Cons.IH [of "Focus (Some m) e" ks] show ?case using ms(1,2) by (simp add: Focus_push)
qed simp

end
