(* ===== verification/Engine_Run.thy ===== *)
theory Engine_Run
  imports Engine_Props
begin

text \<open>
  The firing loop keeps the invariant of the engine and returns.  The right hand sides and the
  garbage collector are behind the interface \<open>right_hand_sides\<close>: while a rule fires they may
  change the agendas, the focus stack and the strategy, but they keep the invariant and the
  activation that fires.
\<close>

section \<open>The invariant of the engine\<close>

text \<open>
  The join that carries the logical support of a rule owns an ancestor of the match that
  activates the rule.
\<close>

definition supported :: "env \<Rightarrow> rule_id \<Rightarrow> addr \<Rightarrow> bool" where
  "supported e r b \<longleftrightarrow> (case rules e r of None \<Rightarrow> True | Some R \<Rightarrow>
     (case logicalJoin R of None \<Rightarrow> True | Some j \<Rightarrow>
        (case FindLogicalBind e j (Some b) of Some (Some lb) \<Rightarrow> matches e lb \<noteq> None | _ \<Rightarrow> False)))"

definition act_supported :: "env \<Rightarrow> addr \<Rightarrow> bool" where
  "act_supported e x \<longleftrightarrow> (case acts e x of None \<Rightarrow> False | Some A \<Rightarrow>
     (case basis A of None \<Rightarrow> False | Some b \<Rightarrow> supported e (theRule A) b))"

definition engine_ok :: "env \<Rightarrow> (module_id \<Rightarrow> agroup list) \<Rightarrow> bool" where
  "engine_ok e F \<longleftrightarrow> agendas_ok e F \<and> ordered e F \<and> modules_ok e \<and> focus_ok e \<and>
     (\<forall>m. \<forall>x\<in>set (flat (F m)). act_supported e x)"

text \<open>The part of a partial match and of a rule that the logical support depends on.\<close>

definition same_support :: "env \<Rightarrow> env \<Rightarrow> bool" where
  "same_support e e' \<longleftrightarrow>
     (\<forall>b. map_option (\<lambda>pm. (match_owner pm, leftParent pm)) (matches e' b) = map_option (\<lambda>pm. (match_owner pm, leftParent pm)) (matches e b)) \<and>
     (\<forall>r. map_option logicalJoin (rules e' r) = map_option logicalJoin (rules e r))"

lemma FindLogicalBind_mono:
  assumes s: "same_support e e'" and r: "FindLogicalBind e j p = Some q"
  shows "FindLogicalBind e' j p = Some q"
proof -
  have "e = e0 \<longrightarrow> FindLogicalBind e' j p = Some q" if "FindLogicalBind e0 j p = Some q" for e0 j p q
  proof (rule FindLogicalBind.raw_induct [of "\<lambda>e0 j p q. e = e0 \<longrightarrow> FindLogicalBind e' j p = Some q", OF _ that], intro impI)
    fix G :: "env \<Rightarrow> nat \<Rightarrow> nat option \<Rightarrow> nat option option" and e0 j p q
    assume IH: "\<And>e0 j p q. G e0 j p = Some q \<Longrightarrow> e = e0 \<longrightarrow> FindLogicalBind e' j p = Some q" and e0: "e = e0"
      and r: "(case p of None \<Rightarrow> Some None | Some b \<Rightarrow> do { pm \<leftarrow> matches e0 b;
        if match_owner pm = j then Some p else G e0 j (leftParent pm) }) = Some q"
    show "FindLogicalBind e' j p = Some q"
    proof (cases p)
      case None
      then show ?thesis using r by (simp add: FindLogicalBind.simps)
    next
      case (Some b)
      then obtain pm where pm: "matches e b = Some pm" "(if match_owner pm = j then Some p else G e0 j (leftParent pm)) = Some q"
        using r e0 by auto
      have "map_option (\<lambda>pm. (match_owner pm, leftParent pm)) (matches e' b) = Some (match_owner pm, leftParent pm)"
        using s pm(1) by (simp add: same_support_def)
      then obtain pm' where "matches e' b = Some pm'" "match_owner pm' = match_owner pm" "leftParent pm' = leftParent pm" by auto
      then show ?thesis using pm(2) Some IH [of e0 j "leftParent pm" q] e0 by (subst FindLogicalBind.simps) (auto split: if_splits)
    qed
  qed
  with r show ?thesis by blast
qed

lemma supported_mono:
  assumes s: "same_support e e'" and r: "supported e r b"
  shows "supported e' r b"
proof (cases "rules e' r")
  case (Some R')
  have "map_option logicalJoin (rules e' r) = map_option logicalJoin (rules e r)" using s by (simp add: same_support_def)
  then obtain R where R: "rules e r = Some R" "logicalJoin R' = logicalJoin R" using Some by (cases "rules e r") auto
  show ?thesis
  proof (cases "logicalJoin R")
    case (Some j)
    then obtain lb where lb: "FindLogicalBind e j (Some b) = Some (Some lb)" "matches e lb \<noteq> None"
      using r R by (auto simp: supported_def split: option.splits)
    have "map_option (\<lambda>pm. (match_owner pm, leftParent pm)) (matches e' lb) = map_option (\<lambda>pm. (match_owner pm, leftParent pm)) (matches e lb)"
      using s by (simp add: same_support_def)
    with lb(2) have "matches e' lb \<noteq> None" by (metis option.map_disc_iff)
    with FindLogicalBind_mono [OF s lb(1)] show ?thesis using R \<open>rules e' r = Some R'\<close> Some by (simp add: supported_def)
  qed (use R Some in \<open>simp add: supported_def\<close>)
qed (simp add: supported_def)

lemma act_supported_mono:
  assumes "same_support e e'" "map_option act_key (acts e' x) = map_option act_key (acts e x)" "act_supported e x"
  shows "act_supported e' x"
  using assms supported_mono [OF assms(1)]
  by (cases "acts e' x"; cases "acts e x") (auto simp: act_supported_def act_key_def split: option.splits)

section \<open>Quiet steps\<close>

text \<open>
  Most of what happens while a rule fires touches flags, counters, messages and the busy and
  executing marks only.
\<close>

definition quiet :: "env \<Rightarrow> env \<Rightarrow> bool" where
  "quiet e e' \<longleftrightarrow> acts e' = acts e \<and> grps e' = grps e \<and> fresh e' = fresh e \<and> items e' = items e \<and> agendaD e' = agendaD e \<and>
     (\<forall>b. map_option (busy_update (\<lambda>_. False)) (matches e' b) = map_option (busy_update (\<lambda>_. False)) (matches e b)) \<and>
     (\<forall>i. map_option timeTag (entities e' i) = map_option timeTag (entities e i)) \<and>
     (\<forall>r. map_option (executing_update (\<lambda>_. False)) (rules e' r) = map_option (executing_update (\<lambda>_. False)) (rules e r)) \<and>
     ListOfDefmodules (moduleD e') = ListOfDefmodules (moduleD e) \<and> CurrentFocus (engineD e') = CurrentFocus (engineD e)"

lemma quiet_refl [simp]: "quiet e e"
  by (simp add: quiet_def)

lemma quiet_trans: "\<lbrakk>quiet e e'; quiet e' e''\<rbrakk> \<Longrightarrow> quiet e e''"
  by (simp add: quiet_def)

lemma busy_erased:
  "(A :: partialMatch)\<lparr>busy := False\<rparr> = B\<lparr>busy := False\<rparr> \<Longrightarrow> binds A = binds B \<and> marker A = marker B \<and>
     match_owner A = match_owner B \<and> leftParent A = leftParent B"
  by (cases A; cases B) simp

lemma executing_erased:
  "(A :: defrule)\<lparr>executing := False\<rparr> = B\<lparr>executing := False\<rparr> \<Longrightarrow> complexity A = complexity B \<and>
     whichModule A = whichModule B \<and> logicalJoin A = logicalJoin B"
  by (cases A; cases B) simp

lemma quiet_match:
  assumes "quiet e e'" "matches e b = Some pm"
  shows "\<exists>pm'. matches e' b = Some pm' \<and> binds pm' = binds pm \<and> marker pm' = marker pm \<and>
    match_owner pm' = match_owner pm \<and> leftParent pm' = leftParent pm"
proof -
  have "map_option (busy_update (\<lambda>_. False)) (matches e' b) = Some (pm\<lparr>busy := False\<rparr>)" using assms by (simp add: quiet_def)
  then show ?thesis by (cases "matches e' b") (auto dest: busy_erased)
qed

lemma quiet_rule:
  assumes "quiet e e'" "rules e r = Some R"
  shows "\<exists>R'. rules e' r = Some R' \<and> complexity R' = complexity R \<and> whichModule R' = whichModule R \<and> logicalJoin R' = logicalJoin R"
proof -
  have "map_option (executing_update (\<lambda>_. False)) (rules e' r) = Some (R\<lparr>executing := False\<rparr>)" using assms by (simp add: quiet_def)
  then show ?thesis by (cases "rules e' r") (auto dest: executing_erased)
qed

lemma quiet_None:
  assumes "quiet e e'"
  shows "(matches e' b = None) = (matches e b = None)" "(rules e' r = None) = (rules e r = None)"
  using assms by (metis quiet_def option.map_disc_iff)+

lemma quiet_network: "quiet e e' \<Longrightarrow> same_network e e'"
proof -
  assume q: "quiet e e'"
  have "map_option binds (matches e' b) = map_option binds (matches e b)" for b
    using quiet_match [OF q, of b] quiet_None(1) [OF q, of b] by (cases "matches e b") auto
  moreover have "map_option (\<lambda>d. (complexity d, whichModule d)) (rules e' r) = map_option (\<lambda>d. (complexity d, whichModule d)) (rules e r)" for r
    using quiet_rule [OF q, of r] quiet_None(2) [OF q, of r] by (cases "rules e r") auto
  ultimately show ?thesis using q by (simp add: same_network_def quiet_def)
qed

lemma quiet_support: "quiet e e' \<Longrightarrow> same_support e e'"
proof -
  assume q: "quiet e e'"
  have "map_option (\<lambda>pm. (match_owner pm, leftParent pm)) (matches e' b) = map_option (\<lambda>pm. (match_owner pm, leftParent pm)) (matches e b)" for b
    using quiet_match [OF q, of b] quiet_None(1) [OF q, of b] by (cases "matches e b") auto
  moreover have "map_option logicalJoin (rules e' r) = map_option logicalJoin (rules e r)" for r
    using quiet_rule [OF q, of r] quiet_None(2) [OF q, of r] by (cases "rules e r") auto
  ultimately show ?thesis by (simp add: same_support_def)
qed

lemma modules_ok_cong:
  "\<lbrakk>modules_ok e; ListOfDefmodules (moduleD e') = ListOfDefmodules (moduleD e); \<And>k. (items e' k = None) = (items e k = None)\<rbrakk> \<Longrightarrow> modules_ok e'"
  by (simp add: modules_ok_def)

lemma focus_ok_cong:
  "\<lbrakk>focus_ok e; ListOfDefmodules (moduleD e') = ListOfDefmodules (moduleD e); set (CurrentFocus (engineD e')) \<subseteq> set (CurrentFocus (engineD e));
    \<And>k. (items e' k = None) = (items e k = None)\<rbrakk> \<Longrightarrow> focus_ok e'"
  by (auto simp: focus_ok_def FindDefmodule_def)

text \<open>A step that changes neither activations nor modules and keeps the markers of the agendas.\<close>

lemma engine_ok_step:
  assumes ok: "engine_ok e F" and net: "same_network e e'" and sup: "same_support e e'"
    and same: "acts e' = acts e" "grps e' = grps e" "fresh e' = fresh e" "items e' = items e"
      "NumberOfActivations (agendaD e') = NumberOfActivations (agendaD e)" "Strategy (agendaD e') = Strategy (agendaD e)"
      "ListOfDefmodules (moduleD e') = ListOfDefmodules (moduleD e)" "focus_ok e'"
    and marks: "\<And>k x. x \<in> set (flat (F k)) \<Longrightarrow> marked e' x"
  shows "engine_ok e' F"
proof -
  have a: "agendas_ok e F" "ordered e F" "modules_ok e" "\<forall>m. \<forall>x\<in>set (flat (F m)). act_supported e x"
    using ok by (simp_all add: engine_ok_def)
  have "agendas_ok e' F"
    by (rule agendas_ok_frame [OF a(1) net]) (use same agendas_okD(5,11) [OF a(1)] marks in simp_all)
  moreover have "ordered e' F" using a(2) agenda_ordered_cong [OF net] same by (simp add: ordered_def)
  moreover have "modules_ok e'" by (rule modules_ok_cong [OF a(3)]) (simp_all add: same)
  moreover have "act_supported e' x" if "x \<in> set (flat (F m))" for m x
    using act_supported_mono [OF sup] a(4) that same(1) by auto
  ultimately show ?thesis using same(8) by (simp add: engine_ok_def)
qed

lemma quiet_marked: "quiet e e' \<Longrightarrow> marked e x \<Longrightarrow> marked e' x"
proof -
  assume q: "quiet e e'" and m: "marked e x"
  then obtain A b pm where "acts e x = Some A" "basis A = Some b" "matches e b = Some pm" "marker pm = Some x"
    by (cases "acts e x"; cases "basis (the (acts e x))") (auto simp: marked_def split: option.splits)
  then show ?thesis using quiet_match [OF q, of b pm] q by (auto simp: marked_def quiet_def)
qed

lemma quiet_ok:
  assumes q: "quiet e e'" and ok: "engine_ok e F"
  shows "engine_ok e' F"
proof (rule engine_ok_step [OF ok quiet_network [OF q] quiet_support [OF q]])
  have a: "agendas_ok e F" "focus_ok e" using ok by (simp_all add: engine_ok_def)
  show "marked e' x" if "x \<in> set (flat (F k))" for k x
    using quiet_marked [OF q] agendas_okD(9) [OF a(1) that] by simp
  show "focus_ok e'" by (rule focus_ok_cong [OF a(2)]) (use q in \<open>simp_all add: quiet_def\<close>)
qed (use q in \<open>simp_all add: quiet_def\<close>)

lemma quiet_set_evalD: "quiet e (set_evalD f e)"
  by (simp add: quiet_def set_evalD_def)

lemma quiet_set_engineD: "CurrentFocus (f (engineD e)) = CurrentFocus (engineD e) \<Longrightarrow> quiet e (set_engineD f e)"
  by (simp add: quiet_def set_engineD_def)

lemma quiet_say: "quiet e (say x e)"
  by (simp add: quiet_def say_def)

lemma quiet_call: "quiet e (call_rule_functions fs p e)"
  by (simp add: quiet_def call_rule_functions_def fold_say)

lemma quiet_SetEvaluationError: "quiet e (SetEvaluationError v e)"
  by (simp add: SetEvaluationError_def quiet_set_evalD)

lemma quiet_busy: "matches e b = Some pm \<Longrightarrow> \<exists>e'. upd_match (Some b) (busy_update (\<lambda>_. v)) e = Some e' \<and> quiet e e' \<and> engineD e' = engineD e \<and> evalD e' = evalD e"
  by (auto simp: heap_simps quiet_def)

lemma quiet_executing: "rules e r = Some R \<Longrightarrow> \<exists>e'. upd_rule r (executing_update (\<lambda>_. v)) e = Some e' \<and> quiet e e' \<and> engineD e' = engineD e \<and> evalD e' = evalD e"
  by (auto simp: heap_simps quiet_def)

definition binds_ok :: "env \<Rightarrow> entity_id option option list \<Rightarrow> bool" where
  "binds_ok e bs \<longleftrightarrow> (\<forall>i. Some (Some i) \<in> set bs \<longrightarrow> entities e i \<noteq> None)"

lemma match_ok_binds: "match_ok e pm \<Longrightarrow> binds_ok e (binds pm)"
  by (auto simp: match_ok_def binds_ok_def list_all_iff split: option.splits)

lemma quiet_binds:
  assumes q: "quiet e e'" and b: "binds_ok e bs" shows "binds_ok e' bs"
proof -
  have "(entities e' i = None) = (entities e i = None)" for i
    using q by (metis quiet_def option.map_disc_iff)
  then show ?thesis using b by (simp add: binds_ok_def del: not_None_eq)
qed

lemma count_basis_ok:
  assumes "binds_ok e (binds pm)"
  shows "\<exists>e'. count_basis k pm e = Some e' \<and> quiet e e' \<and> engineD e' = engineD e \<and> evalD e' = evalD e"
proof -
  define f where "f = (\<lambda>b (st :: env option). do { e \<leftarrow> st; (case b of Some (Some i) \<Rightarrow> do {
            T \<leftarrow> entities e i;
            Some (e\<lparr>entities := (entities e)(i \<mapsto> T\<lparr>busyCount := busyCount T + k\<rparr>)\<rparr>) } | _ \<Rightarrow> Some e) })"
  have "\<exists>e'. fold f bs (Some e) = Some e' \<and> quiet e e' \<and> engineD e' = engineD e \<and> evalD e' = evalD e" if "binds_ok e bs" for bs
    using that
  proof (induction bs arbitrary: e)
    case (Cons b bs)
    obtain e1 where e1: "f b (Some e) = Some e1" "quiet e e1" "engineD e1 = engineD e" "evalD e1 = evalD e"
    proof (cases "\<exists>i. b = Some (Some i)")
      case True
      then obtain i T where i: "b = Some (Some i)" "entities e i = Some T" using Cons.prems by (auto simp: binds_ok_def)
      then show ?thesis
        by (intro that [of "e\<lparr>entities := (entities e)(i \<mapsto> T\<lparr>busyCount := busyCount T + k\<rparr>)\<rparr>"]) (auto simp: f_def quiet_def)
    next
      case False
      then show ?thesis by (intro that [of e]) (auto simp: f_def split: option.split)
    qed
    have "binds_ok e1 bs" using quiet_binds [OF e1(2), of bs] Cons.prems by (simp add: binds_ok_def)
    from Cons.IH [OF this] show ?case using e1 quiet_trans by auto
  qed simp
  then show ?thesis using assms by (simp add: count_basis_def f_def)
qed

section \<open>While a rule fires\<close>

text \<open>The activation that fires is off the agendas, its rule is the executing rule and its match exists.\<close>

definition firing :: "env \<Rightarrow> (module_id \<Rightarrow> agroup list) \<Rightarrow> addr \<Rightarrow> rule_id \<Rightarrow> addr \<Rightarrow> bool" where
  "firing e F a r b \<longleftrightarrow> engine_ok e F \<and> (\<forall>k. a \<notin> set (flat (F k))) \<and>
     (\<exists>A. acts e a = Some A \<and> basis A = Some b \<and> theRule A = r) \<and>
     (\<exists>pm. matches e b = Some pm \<and> binds_ok e (binds pm)) \<and>
     ExecutingRule (engineD e) = Some r \<and> rules e r \<noteq> None \<and>
     (\<forall>lb. TheLogicalBind (engineD e) = Some lb \<longrightarrow> matches e lb \<noteq> None)"

lemma firing_quiet:
  assumes q: "quiet e e'" and f: "firing e F a r b"
    and x: "ExecutingRule (engineD e') = ExecutingRule (engineD e)"
    and l: "\<And>lb. TheLogicalBind (engineD e') = Some lb \<Longrightarrow> TheLogicalBind (engineD e) = Some lb \<or> matches e lb \<noteq> None"
  shows "firing e' F a r b"
proof -
  obtain pm where pm: "matches e b = Some pm" "binds_ok e (binds pm)" using f by (auto simp: firing_def)
  then obtain pm' where "matches e' b = Some pm'" "binds pm' = binds pm" using quiet_match [OF q] by blast
  then have "\<exists>pm. matches e' b = Some pm \<and> binds_ok e' (binds pm)" using quiet_binds [OF q pm(2)] by simp
  moreover have "engine_ok e' F" using f quiet_ok [OF q] by (simp add: firing_def)
  moreover have "acts e' = acts e" using q by (simp add: quiet_def)
  moreover have "matches e' lb \<noteq> None" if "TheLogicalBind (engineD e') = Some lb" for lb
    using l [OF that] f quiet_None(1) [OF q, of lb] by (auto simp: firing_def)
  ultimately show ?thesis using f x quiet_None(2) [OF q, of r] by (simp add: firing_def)
qed

lemma focus_frame_support: "focus_frame e e' \<Longrightarrow> same_support e e'"
  by (simp add: focus_frame_def same_support_def)

lemma focus_frame_ok:
  assumes f: "focus_frame e e'" and ok: "engine_ok e F" and fo: "focus_ok e'"
  shows "engine_ok e' F"
proof (rule engine_ok_step [OF ok _ focus_frame_support [OF f]])
  show "same_network e e'" using f by (simp add: same_network_def focus_frame_def)
  show "marked e' x" if "x \<in> set (flat (F k))" for k x
  proof -
    have "agendas_ok e F" using ok by (simp add: engine_ok_def)
    from agendas_okD(9) [OF this that] show ?thesis using marked_cong [of e' x e] f by (simp add: focus_frame_def)
  qed
qed (use f fo in \<open>simp_all add: focus_frame_def\<close>)

lemma focus_frame_engine:
  assumes "focus_frame e e'"
  shows "ExecutingRule (engineD e') = ExecutingRule (engineD e)" "TheLogicalBind (engineD e') = TheLogicalBind (engineD e)"
    "HaltRules (engineD e') = HaltRules (engineD e)" "AlreadyRunning (engineD e') = AlreadyRunning (engineD e)"
proof -
  have "(engineD e')\<lparr>CurrentFocus := [], FocusChanged := False\<rparr> = (engineD e)\<lparr>CurrentFocus := [], FocusChanged := False\<rparr>"
    using assms by (simp add: focus_frame_def)
  then show "ExecutingRule (engineD e') = ExecutingRule (engineD e)" "TheLogicalBind (engineD e') = TheLogicalBind (engineD e)"
    "HaltRules (engineD e') = HaltRules (engineD e)" "AlreadyRunning (engineD e') = AlreadyRunning (engineD e)"
    by (cases "engineD e"; cases "engineD e'"; simp)+
qed

lemma focus_ok_focus_frame:
  assumes "focus_frame e e'" "focus_ok e" "\<And>m. m \<in> set (CurrentFocus (engineD e')) \<Longrightarrow> items e m \<noteq> None"
  shows "focus_ok e'"
  using assms by (auto simp: focus_ok_def focus_frame_def FindDefmodule_def)

lemma NextActivationToFire_engine:
  assumes ok: "engine_ok e F"
  shows "\<exists>p e'. NextActivationToFire e = Some (p, e') \<and> engine_ok e' F \<and> focus_frame e e' \<and>
    p = next_act e (start_focus e) \<and> CurrentFocus (engineD e') = busy_focus e (start_focus e) \<and>
    (\<forall>a. p = Some a \<longrightarrow> (\<exists>m ms. CurrentFocus (engineD e') = m # ms \<and> hdp (flat (F m)) None = Some a))"
proof -
  have fo: "focus_ok e" and a: "agendas_ok e F" using ok by (simp_all add: engine_ok_def)
  let ?p = "next_act e (start_focus e)"
  obtain e' where e': "NextActivationToFire e = Some (?p, e')" "CurrentFocus (engineD e') = busy_focus e (start_focus e)" "focus_frame e e'"
    using NextActivationToFire_ok [OF fo] by blast
  have st: "items e m \<noteq> None" if "m \<in> set (start_focus e)" for m
    using that fo by (auto simp: start_focus_def focus_ok_def split: if_splits option.splits)
  then have "focus_ok e'"
    by (intro focus_ok_focus_frame [OF e'(3) fo]) (use e'(2) busy_focus_set [of e "start_focus e"] in auto)
  then have ok': "engine_ok e' F" by (rule focus_frame_ok [OF e'(3) ok])
  have "\<exists>m ms. CurrentFocus (engineD e') = m # ms \<and> hdp (flat (F m)) None = Some x" if p: "?p = Some x" for x
  proof -
    obtain m ms where m: "busy_focus e (start_focus e) = m # ms" "agenda_of e m = Some x"
      using p by (auto simp: next_act_def split: list.splits)
    then have "m \<in> set (start_focus e)" using busy_focus_set [of e "start_focus e"] by auto
    then have "agenda_rep e m (F m)" using agendas_okD(1) [OF a] st by blast
    then have "agenda_of e m = hdp (flat (F m)) None" using agenda_repD(1) by (fastforce simp: agenda_of_def)
    with m e'(2) show ?thesis by simp
  qed
  with e' ok' show ?thesis by blast
qed

section \<open>The steps of a firing\<close>

lemma detached_engine:
  assumes ok: "engine_ok e F" and x: "x \<in> set (flat (F m))"
  shows "\<exists>e' A b pm. DetachActivation (Some x) e = Some e' \<and> engine_ok e' (F(m := remove_act x (F m))) \<and>
    acts e' x = Some A \<and> basis A = Some b \<and> matches e b = Some pm \<and> match_ok e' pm \<and> marker pm = Some x \<and>
    rules e' (theRule A) \<noteq> None \<and> supported e' (theRule A) b \<and> matches e' = matches e \<and>
    (\<forall>k. x \<notin> set (flat ((F(m := remove_act x (F m))) k))) \<and> engineD e' = engineD e \<and> evalD e' = evalD e"
proof -
  have a: "agendas_ok e F" "ordered e F" "modules_ok e" "focus_ok e" "\<And>m x. x \<in> set (flat (F m)) \<Longrightarrow> act_supported e x"
    using ok by (simp_all add: engine_ok_def)
  let ?F = "F(m := remove_act x (F m))"
  obtain e' A where e': "DetachActivation (Some x) e = Some e'" "agendas_ok e' ?F" "ordered e' ?F" "acts e x = Some A"
    "acts e' x = Some (A\<lparr>act_prev := None, act_next := None\<rparr>)" "rules e' = rules e" "matches e' = matches e"
    "moduleD e' = moduleD e" "engineD e' = engineD e" "evalD e' = evalD e" "entities e' = entities e"
    "pays_of act_pay (acts e') = pays_of act_pay (acts e)"
    "\<And>k. map_option ruleList (items e' k) = map_option ruleList (items e k)"
    using DetachActivation_ok [OF a(1) x] a(2) by blast
  have it: "(items e' k = None) = (items e k = None)" for k using e'(13) [of k] by (metis option.map_disc_iff)
  have sup: "same_support e e'" using e'(6,7) by (simp add: same_support_def)
  have key: "map_option act_key (acts e' y) = map_option act_key (acts e y)" for y
  proof -
    have "map_option act_pay (acts e' y) = map_option act_pay (acts e y)" using fun_cong [OF e'(12), of y] by (simp add: pays_of_def)
    then show ?thesis by (cases "acts e' y"; cases "acts e y") (auto simp: act_key_def dest: act_pay_eqD)
  qed
  have sub: "\<exists>k. y \<in> set (flat (F k))" if "y \<in> set (flat (?F k))" for y k
    using that by (cases "k = m") (auto simp: flat_remove_act)
  have "engine_ok e' ?F"
    unfolding engine_ok_def
    using e'(2,3) modules_ok_cong [OF a(3), of e'] focus_ok_cong [OF a(4), of e'] it e'(8,9) act_supported_mono [OF sup key] a(5) sub
    by (metis order_refl)
  moreover obtain b pm where b: "basis A = Some b" "matches e b = Some pm" "marker pm = Some x"
    using agendas_okD(9) [OF a(1) x] e'(4) by (cases "basis A") (auto simp: marked_def split: option.splits)
  moreover have "match_ok e pm" "rules e (theRule A) \<noteq> None"
    using agendas_okD(8) [OF a(1) x] e'(4) b by (auto simp: act_ok_at_def act_ok_def act_match_def)
  moreover have "match_ok e' pm" using \<open>match_ok e pm\<close> unfolding match_ok_def e'(11) .
  moreover have "supported e' (theRule A) b"
    using supported_mono [OF sup] a(5) [OF x] e'(4) b(1) by (simp add: act_supported_def)
  ultimately show ?thesis
    using e' not_on_removed [OF a(1) x] by (intro exI [of _ e'] exI [of _ "A\<lparr>act_prev := None, act_next := None\<rparr>"]) auto
qed

text \<open>Clearing the marker of the match that fires leaves the marks of the agendas alone.\<close>

lemma clear_marker_ok:
  assumes ok: "engine_ok e F" and pm: "matches e b = Some pm" "marker pm = Some x" and off: "\<And>k. x \<notin> set (flat (F k))"
    and e': "e' = e\<lparr>matches := (matches e)(b \<mapsto> pm\<lparr>marker := None, busy := True\<rparr>)\<rparr>"
  shows "engine_ok e' F"
proof (rule engine_ok_step [OF ok])
  show "same_network e e'" "same_support e e'" using pm(1) by (auto simp: e' same_network_def same_support_def)
  show "focus_ok e'" using ok by (simp add: engine_ok_def e' focus_ok_def FindDefmodule_def)
  show "marked e' y" if y: "y \<in> set (flat (F k))" for k y
  proof -
    have "agendas_ok e F" using ok by (simp add: engine_ok_def)
    from agendas_okD(9) [OF this y] obtain A c pm' where c: "acts e y = Some A" "basis A = Some c" "matches e c = Some pm'" "marker pm' = Some y"
      by (cases "acts e y"; cases "basis (the (acts e y))") (auto simp: marked_def split: option.splits)
    have "c \<noteq> b" using c(3,4) pm y off by auto
    then show ?thesis using c by (simp add: marked_def e')
  qed
qed (simp_all add: e')

lemma fire_begin_ok:
  assumes ok: "engine_ok e F" and x: "x \<in> set (flat (F m))" and lb: "TheLogicalBind (engineD e) = None"
  shows "\<exists>l' e' r b nm. fire_begin x l e = Some (l', e') \<and> firing e' (F(m := remove_act x (F m))) x r b \<and> supported e' r b \<and>
    GlobalLHSBinds (engineD e') = Some b \<and> ActivationRuleName x e' = Some nm \<and> GetActivationBasis x e' = Some (Some b)"
proof -
  let ?e1 = "call_rule_functions (ListOfBeforeRuleFiresFunctions (engineD e)) (Some x) e" and ?F = "F(m := remove_act x (F m))"
  have q1: "quiet e ?e1" by (rule quiet_call)
  have eng1: "engineD ?e1 = engineD e" by (simp add: call_rule_functions_def fold_say)
  obtain e2 A b pm where e2: "DetachActivation (Some x) ?e1 = Some e2" "engine_ok e2 ?F"
    "acts e2 x = Some A" "basis A = Some b" "matches ?e1 b = Some pm" "match_ok e2 pm" "marker pm = Some x"
    "rules e2 (theRule A) \<noteq> None" "supported e2 (theRule A) b" "matches e2 = matches ?e1"
    "\<And>k. x \<notin> set (flat (?F k))" "engineD e2 = engineD ?e1"
    using detached_engine [OF quiet_ok [OF q1 ok] x] by blast
  let ?r = "theRule A"
  obtain R where R: "rules e2 ?r = Some R" using e2(8) by auto
  let ?e3 = "set_engineD (\<lambda>d. d\<lparr>ExecutingRule := Some ?r\<rparr>) e2"
  let ?l' = "l\<lparr>rulesFired := rulesFired l + 1, runLimit := (if runLimit l > 0 then runLimit l - 1 else runLimit l)\<rparr>"
  let ?e4 = "if watchFiring R then say (FireRule (rulesFired ?l') (rule_name R)) ?e3 else ?e3"
  let ?e5 = "?e4\<lparr>matches := (matches ?e4)(b \<mapsto> pm\<lparr>marker := None, busy := True\<rparr>)\<rparr>"
  let ?e' = "set_engineD (\<lambda>d. d\<lparr>GlobalLHSBinds := Some b, GlobalRHSBinds := None\<rparr>) ?e5"
  have q4: "quiet e2 ?e4" by (auto intro: quiet_trans [OF quiet_set_engineD quiet_say] quiet_set_engineD)
  have m4: "matches ?e4 b = Some pm" "rules ?e4 = rules e2" "acts ?e4 = acts e2" "entities ?e4 = entities e2"
    "matches ?e4 = matches e2" "engineD ?e4 = (engineD e2)\<lparr>ExecutingRule := Some ?r\<rparr>"
    using e2(5,10) by (simp_all add: say_def set_engineD_def)
  have ok5: "engine_ok ?e5 ?F"
    by (rule clear_marker_ok [OF quiet_ok [OF q4 e2(2)] m4(1) e2(7) e2(11) refl])
  have q': "quiet ?e5 ?e'" by (rule quiet_set_engineD) simp
  have f': "acts ?e' = acts e2" "rules ?e' = rules e2" "entities ?e' = entities e2"
    "matches ?e' = (matches e2)(b \<mapsto> pm\<lparr>marker := None, busy := True\<rparr>)"
    "engineD ?e' = (engineD e2)\<lparr>ExecutingRule := Some ?r, GlobalLHSBinds := Some b, GlobalRHSBinds := None\<rparr>"
    using m4 by (simp_all add: set_engineD_def)
  have "binds_ok e2 (binds pm)" by (rule match_ok_binds [OF e2(6)])
  then have "binds_ok ?e' (binds pm)" by (simp only: binds_ok_def f'(3))
  then have "firing ?e' ?F x ?r b"
    using quiet_ok [OF q' ok5] e2(3,4,11,12) R lb eng1 unfolding firing_def f' by simp
  moreover have "same_support e2 ?e'" using e2(5,10) unfolding same_support_def f' by auto
  then have "supported ?e' ?r b" using supported_mono e2(9) by blast
  moreover have "fire_begin x l e = Some (?l', ?e')"
  proof -
    have "rules ?e3 ?r = Some R" using R by (simp add: set_engineD_def)
    then show ?thesis using e2(1,3,4) R m4(1)
      by (simp add: fire_begin_def Let_def ActivationRuleName_def GetActivationBasis_def GetActivationRule_def upd_env_simps(4))
  qed
  moreover have "ActivationRuleName x ?e' = Some (rule_name R)" "GetActivationBasis x ?e' = Some (Some b)"
    unfolding ActivationRuleName_def GetActivationBasis_def f' using e2(3,4) R by simp_all
  ultimately show ?thesis using f'(5) by (intro exI [of _ ?l'] exI [of _ ?e']) auto
qed

lemma fire_support_ok:
  assumes f: "firing e F a r b" and sup: "supported e r b" and g: "GlobalLHSBinds (engineD e) = Some b"
  shows "\<exists>e'. fire_support (Some b) e = Some e' \<and> firing e' F a r b"
proof -
  obtain pm where pm: "matches e b = Some pm" "binds_ok e (binds pm)" using f by (auto simp: firing_def)
  obtain e1 where e1: "count_basis 1 pm e = Some e1" "quiet e e1" "engineD e1 = engineD e" using count_basis_ok [OF pm(2)] by blast
  have f1: "firing e1 F a r b" by (rule firing_quiet [OF e1(2) f]) (use e1(3) in simp_all)
  then have x1: "ExecutingRule (engineD e1) = Some r" by (simp add: firing_def)
  obtain R where R: "rules e1 r = Some R" using f1 by (auto simp: firing_def)
  let ?e2 = "set_engineD (\<lambda>d. d\<lparr>TheLogicalJoin := logicalJoin R\<rparr>) e1"
  have q2: "quiet e1 ?e2" by (rule quiet_set_engineD) simp
  have s2: "supported ?e2 r b"
    using supported_mono [OF quiet_support [OF quiet_trans [OF e1(2) q2]] sup] .
  have r2: "rules ?e2 r = Some R" "engineD ?e2 = (engineD e1)\<lparr>TheLogicalJoin := logicalJoin R\<rparr>" using R by (simp_all add: set_engineD_def)
  have f2: "firing ?e2 F a r b" by (rule firing_quiet [OF q2 f1]) (simp_all add: set_engineD_def)
  show ?thesis
  proof (cases "logicalJoin R")
    case None
    let ?e' = "set_engineD (\<lambda>d. d\<lparr>TheLogicalBind := None\<rparr>) ?e2"
    have "firing ?e' F a r b" by (rule firing_quiet [OF quiet_set_engineD f2]) (simp_all add: set_engineD_def)
    moreover have "fire_support (Some b) e = Some ?e'"
      using pm(1) e1(1) x1 R None by (simp add: fire_support_def Let_def)
    ultimately show ?thesis by blast
  next
    case (Some j)
    obtain lb pl where lb: "FindLogicalBind ?e2 j (Some b) = Some (Some lb)" "matches ?e2 lb = Some pl"
      using s2 r2(1) Some by (auto simp: supported_def split: option.splits)
    let ?e3 = "set_engineD (\<lambda>d. d\<lparr>TheLogicalBind := Some lb\<rparr>) ?e2"
    have m3: "matches ?e3 lb = Some pl" using lb(2) by (simp add: set_engineD_def)
    have f3: "firing ?e3 F a r b"
      by (rule firing_quiet [OF quiet_set_engineD f2]) (use lb(2) in \<open>simp_all add: set_engineD_def\<close>)
    obtain e' where e': "upd_match (Some lb) (busy_update (\<lambda>_. True)) ?e3 = Some e'" "quiet ?e3 e'" "engineD e' = engineD ?e3"
      using quiet_busy [OF m3] by blast
    have "firing e' F a r b" by (rule firing_quiet [OF e'(2) f3]) (use e'(3) in simp_all)
    moreover have "fire_support (Some b) e = Some e'"
      using pm(1) e1(1,3) x1 R Some lb(1) e'(1) g r2(2) by (simp add: fire_support_def Let_def)
    ultimately show ?thesis by blast
  qed
qed

lemma fire_after_ok:
  assumes f: "firing e F a r b"
  shows "\<exists>e'. fire_after a nm error e = Some e' \<and> firing e' F a r b \<and> TheLogicalBind (engineD e') = None"
proof -
  let ?e1 = "call_rule_functions (ListOfAfterRuleFiresFunctions (engineD e)) (Some a) e"
  let ?e2 = "set_engineD (\<lambda>d. d\<lparr>TheLogicalJoin := None\<rparr>) ?e1"
  have q2: "quiet e ?e2" by (rule quiet_trans [OF quiet_call quiet_set_engineD]) simp
  have eng2: "engineD ?e2 = (engineD e)\<lparr>TheLogicalJoin := None\<rparr>" by (simp add: set_engineD_def call_rule_functions_def fold_say)
  have f2: "firing ?e2 F a r b" by (rule firing_quiet [OF q2 f]) (simp_all add: eng2)
  obtain e3 where e3: "(case TheLogicalBind (engineD ?e2) of None \<Rightarrow> Some ?e2
       | Some b \<Rightarrow> do {
           e' \<leftarrow> upd_match (Some b) (busy_update (\<lambda>_. False)) ?e2;
           Some (set_engineD (\<lambda>d. d\<lparr>TheLogicalBind := None\<rparr>) e') }) = Some e3"
    "firing e3 F a r b" "TheLogicalBind (engineD e3) = None"
  proof (cases "TheLogicalBind (engineD ?e2)")
    case None
    then show ?thesis using f2 by (intro that [of ?e2]) simp_all
  next
    case (Some lb)
    then obtain pl where "matches ?e2 lb = Some pl" using f2 by (auto simp: firing_def)
    then obtain e' where e': "upd_match (Some lb) (busy_update (\<lambda>_. False)) ?e2 = Some e'" "quiet ?e2 e'" "engineD e' = engineD ?e2"
      using quiet_busy by blast
    have "quiet ?e2 (set_engineD (\<lambda>d. d\<lparr>TheLogicalBind := None\<rparr>) e')"
      by (rule quiet_trans [OF e'(2) quiet_set_engineD]) simp
    then have "firing (set_engineD (\<lambda>d. d\<lparr>TheLogicalBind := None\<rparr>) e') F a r b"
      by (rule firing_quiet [OF _ f2]) (use e'(3) in \<open>simp_all add: set_engineD_def\<close>)
    then show ?thesis using Some e'(1) by (intro that [of "set_engineD (\<lambda>d. d\<lparr>TheLogicalBind := None\<rparr>) e'"]) (simp_all add: set_engineD_def)
  qed
  obtain R where R: "ExecutingRule (engineD e3) = Some r" "rules e3 r = Some R" using e3(2) by (auto simp: firing_def)
  let ?e' = "if HaltExecution (evalD e3) \<or> HaltRules (engineD e3) \<and> watchFiring R then say (HaltedIn nm error) e3 else e3"
  have eng: "engineD ?e' = engineD e3" by (simp add: say_def)
  have "quiet e3 ?e'" by (simp add: quiet_say)
  then have "firing ?e' F a r b" by (rule firing_quiet [OF _ e3(2)]) (simp_all only: eng, simp)
  moreover have "fire_after a nm error e = Some ?e'" using e3(1) R by (simp add: fire_after_def Let_def)
  moreover have "TheLogicalBind (engineD ?e') = None" using e3(3) by (simp only: eng)
  ultimately show ?thesis by blast
qed

text \<open>Freeing the activation that has fired.\<close>

lemma free_fired_ok:
  assumes f: "firing e F a r b"
  shows "\<exists>e'. RemoveActivation a False False e = Some e' \<and> engine_ok e' F \<and> engineD e' = engineD e \<and> rules e' = rules e"
proof -
  obtain A where A: "acts e a = Some A" "theRule A = r" using f by (auto simp: firing_def)
  obtain R where R: "rules e r = Some R" using f by (auto simp: firing_def)
  have ok: "agendas_ok e F" "ordered e F" "modules_ok e" "focus_ok e" "\<And>m x. x \<in> set (flat (F m)) \<Longrightarrow> act_supported e x"
    and off: "\<And>k. a \<notin> set (flat (F k))" using f by (simp_all add: firing_def engine_ok_def)
  let ?e5 = "set_agendaD (\<lambda>d. d\<lparr>NumberOfActivations := NumberOfActivations d - 1\<rparr>) e"
  let ?e' = "?e5\<lparr>acts := (acts e)(a := None)\<rparr>"
  have run: "RemoveActivation a False False e = Some ?e'" using A R by (simp add: RemoveActivation_def set_agendaD_def)
  have f': "grps ?e' = grps e" "fresh ?e' = fresh e" "items ?e' = items e" "rules ?e' = rules e" "entities ?e' = entities e"
    "matches ?e' = matches e" "moduleD ?e' = moduleD e" "engineD ?e' = engineD e" "acts ?e' = (acts e)(a := None)"
    "NumberOfActivations (agendaD ?e') = NumberOfActivations (agendaD e) - 1" "Strategy (agendaD ?e') = Strategy (agendaD e)"
    by (simp_all add: set_agendaD_def)
  have acts: "acts ?e' x = acts e x" if "x \<in> set (flat (F k))" for x k using that off by (auto simp: f')
  have net: "same_network e ?e'" "same_support e ?e'" by (simp_all add: same_network_def same_support_def f')
  have "marked ?e' x" if x: "x \<in> set (flat (F k))" for k x
    using agendas_okD(9) [OF ok(1) x] marked_cong [of ?e' x e] acts [OF x] f'(6) by simp
  then have "agendas_ok ?e' F"
    by (intro free_activation_ok [OF ok(1) A(1) off]) (use f' in simp_all)
  moreover have "agenda_ordered ?e' st (F k) = agenda_ordered e st (F k)" for st k
    by (rule agenda_ordered_cong [OF net(1)]) (simp only: pays_of_def acts)
  then have "ordered ?e' F" using ok(2) unfolding ordered_def f'(11) by simp
  moreover have "modules_ok ?e'" "focus_ok ?e'"
    using modules_ok_cong [OF ok(3), of ?e'] focus_ok_cong [OF ok(4), of ?e'] by (simp_all add: f')
  moreover have "act_supported ?e' x" if "x \<in> set (flat (F k))" for x k
    using act_supported_mono [OF net(2)] acts [OF that] ok(5) [OF that] by simp
  ultimately have "engine_ok ?e' F" by (simp add: engine_ok_def)
  with run f' show ?thesis by blast
qed

text \<open>A step that permutes the agendas and keeps the rest of the engine.\<close>

definition permuting :: "env \<Rightarrow> env \<Rightarrow> bool" where
  "permuting e e' \<longleftrightarrow> matches e' = matches e \<and> entities e' = entities e \<and> engineD e' = engineD e \<and> moduleD e' = moduleD e \<and>
     (\<forall>k. (items e' k = None) = (items e k = None)) \<and>
     (\<forall>r. map_option logicalJoin (rules e' r) = map_option logicalJoin (rules e r)) \<and>
     (\<forall>x. map_option act_key (acts e' x) = map_option act_key (acts e x))"

lemma cycle_frame_permuting:
  assumes f: "cycle_frame e e'" shows "permuting e e'"
proof -
  have "map_option logicalJoin (rules e' r) = map_option logicalJoin (rules e r)" for r
  proof -
    have "map_option (rule_salience_update (\<lambda>_. 0)) (rules e' r) = map_option (rule_salience_update (\<lambda>_. 0)) (rules e r)"
      using f by (simp add: cycle_frame_def)
    from arg_cong [OF this, of "map_option logicalJoin"] show ?thesis by (simp add: option.map_comp comp_def)
  qed
  then show ?thesis using f cycle_frame_items [OF f] by (simp add: permuting_def cycle_frame_def)
qed

lemma replace_frame_permuting: "replace_frame e e' \<Longrightarrow> permuting e e'"
  using replace_frame_basis [of e e'] replace_frame_items [of e e'] by (simp add: permuting_def replace_frame_def)

lemma permuting_trans: "\<lbrakk>permuting e e'; permuting e' e''\<rbrakk> \<Longrightarrow> permuting e e''"
  by (simp add: permuting_def)

lemma permuting_ok:
  assumes f: "permuting e e'" and ok: "engine_ok e F" and F': "agendas_ok e' F'" "ordered e' F'"
    and perm: "\<And>m. mset (flat (F' m)) = mset (flat (F m))"
  shows "engine_ok e' F'"
proof -
  have a: "modules_ok e" "focus_ok e" "\<And>m x. x \<in> set (flat (F m)) \<Longrightarrow> act_supported e x" using ok by (simp_all add: engine_ok_def)
  have sup: "same_support e e'" using f by (simp add: same_support_def permuting_def)
  have key: "map_option act_key (acts e' x) = map_option act_key (acts e x)" for x using f by (simp add: permuting_def)
  have "set (flat (F' m)) = set (flat (F m))" for m using perm [of m] by (metis set_mset_mset)
  then have "act_supported e' x" if "x \<in> set (flat (F' m))" for m x
    using act_supported_mono [OF sup key] a(3) that by blast
  moreover have "modules_ok e'" by (rule modules_ok_cong [OF a(1)]) (use f in \<open>simp_all add: permuting_def\<close>)
  moreover have "focus_ok e'" by (rule focus_ok_cong [OF a(2)]) (use f in \<open>simp_all add: permuting_def\<close>)
  ultimately show ?thesis using F' by (simp add: engine_ok_def)
qed

lemma permuting_firing:
  assumes f: "permuting e e'" and fi: "firing e F a r b" and ok: "engine_ok e' F'"
    and perm: "\<And>m. mset (flat (F' m)) = mset (flat (F m))"
  shows "firing e' F' a r b"
proof -
  have "set (flat (F' m)) = set (flat (F m))" for m using perm [of m] by (metis set_mset_mset)
  moreover obtain A where A: "acts e a = Some A" "basis A = Some b" "theRule A = r" using fi by (auto simp: firing_def)
  then have "map_option act_key (acts e' a) = Some (act_key A)" using f by (simp add: permuting_def)
  then have "\<exists>A. acts e' a = Some A \<and> basis A = Some b \<and> theRule A = r" using A by (auto simp: act_key_def)
  moreover have "rules e' r \<noteq> None" using f fi by (metis firing_def permuting_def option.map_disc_iff)
  ultimately show ?thesis using fi ok f by (simp add: firing_def permuting_def binds_ok_def)
qed

lemma RefreshAllAgendas_engine:
  assumes ok: "engine_ok e F"
  shows "\<exists>e' F'. RefreshAllAgendas e = Some e' \<and> engine_ok e' F' \<and> engineD e' = engineD e \<and>
    (\<forall>r. (rules e' r = None) = (rules e r = None)) \<and> (\<forall>m. mset (flat (F' m)) = mset (flat (F m)))"
proof -
  obtain e' F' where e': "RefreshAllAgendas e = Some e'" "agendas_ok e' F'" "ordered e' F'"
    "\<And>m. mset (flat (F' m)) = mset (flat (F m))" "cycle_frame e e'"
    using RefreshAllAgendas_ok [of e F] ok unfolding engine_ok_def by blast
  have "(rules e' r = None) = (rules e r = None)" for r
    using e'(5) by (metis cycle_frame_def option.map_disc_iff)
  moreover have "engineD e' = engineD e" using e'(5) by (simp add: cycle_frame_def)
  ultimately show ?thesis using e'(1,4) permuting_ok [OF cycle_frame_permuting [OF e'(5)] ok e'(2,3,4)] by blast
qed

lemma RemoveFocus_engine:
  assumes ok: "engine_ok e F" shows "engine_ok (snd (RemoveFocus m e)) F"
proof (rule focus_frame_ok [OF focus_frame_RemoveFocus ok], rule focus_ok_focus_frame [OF focus_frame_RemoveFocus])
  show fo: "focus_ok e" using ok by (simp add: engine_ok_def)
  show "items e k \<noteq> None" if "k \<in> set (CurrentFocus (engineD (snd (RemoveFocus m e))))" for k
    using that fo set_remove1_subset [of m "CurrentFocus (engineD e)"] by (auto simp: CurrentFocus_RemoveFocus focus_ok_def)
qed

text \<open>Between two firings: the invariant, the rule that fired last, and no logical support set up.\<close>

definition between :: "env \<Rightarrow> (module_id \<Rightarrow> agroup list) \<Rightarrow> bool" where
  "between e F \<longleftrightarrow> engine_ok e F \<and> TheLogicalBind (engineD e) = None"

lemma fire_next_ok:
  assumes ok: "between e F" and r: "ExecutingRule (engineD e) = Some r" "rules e r \<noteq> None"
  shows "\<exists>p e' F'. fire_next e = Some (p, e') \<and> between e' F' \<and> (\<forall>a. p = Some a \<longrightarrow> (\<exists>m. a \<in> set (flat (F' m))))"
proof -
  obtain e1 F1 where e1: "(if GetSalienceEvaluation e = EVERY_CYCLE then RefreshAllAgendas e else Some e) = Some e1"
    "engine_ok e1 F1" "engineD e1 = engineD e" "rules e1 r \<noteq> None"
  proof (cases "GetSalienceEvaluation e = EVERY_CYCLE")
    case True
    then show ?thesis using RefreshAllAgendas_engine [of e F] ok r(2) that by (auto simp: between_def simp del: not_None_eq)
  qed (use ok r(2) that in \<open>auto simp: between_def\<close>)
  obtain R where R: "rules e1 r = Some R" using e1(4) by auto
  let ?e2 = "if ReturnFlag (evalD e1) then snd (RemoveFocus (whichModule R) e1) else e1"
  have e2: "engine_ok ?e2 F1" using RemoveFocus_engine [OF e1(2)] e1(2) by simp
  have l2: "TheLogicalBind (engineD ?e2) = None"
    using ok e1(3) focus_frame_engine(2) [OF focus_frame_RemoveFocus, of "whichModule R" e1] by (simp add: between_def)
  let ?e3 = "set_evalD (\<lambda>d. d\<lparr>ReturnFlag := False\<rparr>) ?e2"
  have e3: "engine_ok ?e3 F1" by (rule quiet_ok [OF quiet_set_evalD e2])
  obtain p e4 where e4: "NextActivationToFire ?e3 = Some (p, e4)" "engine_ok e4 F1" "focus_frame ?e3 e4"
    "\<forall>a. p = Some a \<longrightarrow> (\<exists>m ms. CurrentFocus (engineD e4) = m # ms \<and> hdp (flat (F1 m)) None = Some a)"
    using NextActivationToFire_engine [OF e3] by blast
  have eng3: "engineD ?e3 = engineD ?e2" by (simp add: set_evalD_def)
  have l4: "TheLogicalBind (engineD e4) = None" using focus_frame_engine(2) [OF e4(3)] l2 eng3 by simp
  have on: "\<exists>m. a \<in> set (flat (F1 m))" if "p = Some a" for a using e4(4) that by (auto dest!: hdp_None_Some)
  have "\<exists>e5. (case p of None \<Rightarrow> Some e4 | Some a \<Rightarrow> do { A \<leftarrow> acts e4 a; R \<leftarrow> rules e4 (theRule A);
           Some (if afterBreakpoint R then say (BreakingOn (rule_name R)) (set_engineD (\<lambda>d. d\<lparr>HaltRules := True\<rparr>) e4) else e4) })
      = Some e5 \<and> between e5 F1"
  proof (cases p)
    case (Some a)
    then obtain m where "a \<in> set (flat (F1 m))" using on by blast
    moreover have "agendas_ok e4 F1" using e4(2) by (simp add: engine_ok_def)
    ultimately have "act_ok_at e4 a" using agendas_okD(8) by blast
    then obtain A R4 where A: "acts e4 a = Some A" "rules e4 (theRule A) = Some R4"
      by (auto simp: act_ok_at_def act_ok_def split: option.splits)
    let ?e5 = "if afterBreakpoint R4 then say (BreakingOn (rule_name R4)) (set_engineD (\<lambda>d. d\<lparr>HaltRules := True\<rparr>) e4) else e4"
    have "quiet e4 ?e5" by (auto intro: quiet_trans [OF quiet_set_engineD quiet_say])
    then have "between ?e5 F1" using quiet_ok e4(2) l4 by (simp add: between_def say_def set_engineD_def)
    with Some A show ?thesis by auto
  qed (use e4(2) l4 in \<open>simp add: between_def\<close>)
  then obtain e5 where e5: "(case p of None \<Rightarrow> Some e4 | Some a \<Rightarrow> do { A \<leftarrow> acts e4 a; R \<leftarrow> rules e4 (theRule A);
           Some (if afterBreakpoint R then say (BreakingOn (rule_name R)) (set_engineD (\<lambda>d. d\<lparr>HaltRules := True\<rparr>) e4) else e4) })
      = Some e5" "between e5 F1" by blast
  have "(if ReturnFlag (evalD e1) then do { r \<leftarrow> ExecutingRule (engineD e1); R \<leftarrow> rules e1 r;
      Some (snd (RemoveFocus (whichModule R) e1)) } else Some e1) = Some ?e2"
    using R r(1) e1(3) by simp
  then have "fire_next e = Some (p, e5)" using e1(1) e4(1) e5(1) unfolding fire_next_def by simp
  with on e5(2) show ?thesis by blast
qed

lemma run_end_ok:
  assumes "between e F"
  shows "between (run_end l e) F \<and> \<not> HaltRules (engineD (run_end l e)) \<and> ExecutingRule (engineD (run_end l e)) = None"
proof -
  let ?e1 = "if rulesFired l = 0 then call_rule_functions (ListOfAfterRuleFiresFunctions (engineD e)) None e else e"
  let ?e2 = "if runLimit l = rulesFired l then say LimitReached ?e1 else ?e1"
  let ?e3 = "set_engineD (\<lambda>d. d\<lparr>ExecutingRule := None, HaltRules := False\<rparr>) ?e2"
  define e4 where "e4 = (if WatchStatistics (engineD ?e3) then say (StatisticsOf (rulesFired l)
    [(mean_of (sumFacts l) (rulesFired l), maxFacts l), (mean_of (sumInstances l) (rulesFired l), maxInstances l),
     (mean_of (sumActivations l) (rulesFired l), maxActivations l)]) ?e3 else ?e3)"
  have "quiet e ?e1" "quiet ?e1 ?e2" by (simp_all add: quiet_call quiet_say)
  moreover have "quiet ?e2 ?e3" by (rule quiet_set_engineD) simp
  moreover have "quiet ?e3 e4" unfolding e4_def by (simp add: quiet_say)
  ultimately have "quiet e e4" by (blast intro: quiet_trans)
  then have ok4: "engine_ok e4 F" using assms quiet_ok by (auto simp: between_def)
  have "engineD ?e2 = engineD e" by (simp add: say_def call_rule_functions_def fold_say)
  then have eng4: "engineD e4 = (engineD e)\<lparr>ExecutingRule := None, HaltRules := False\<rparr>"
    by (simp add: e4_def say_def set_engineD_def)
  have end_eq: "run_end l e = (case CurrentFocus (engineD e4) of [] \<Rightarrow> e4
      | m # _ \<Rightarrow> if Some m \<noteq> GetCurrentModule e4 then snd (SetCurrentModule (Some m) e4) else e4)"
    unfolding run_end_def Let_def e4_def by (rule refl)
  have "quiet e4 (snd (SetCurrentModule m e4))" for m by (simp add: quiet_def)
  then have "quiet e4 (run_end l e)" "engineD (run_end l e) = engineD e4"
    unfolding end_eq by (simp_all split: list.split)
  then show ?thesis using quiet_ok [OF _ ok4] eng4 assms by (simp add: between_def)
qed

section \<open>The interface to the right hand sides\<close>

locale right_hand_sides =
  fixes actions :: "rule_id \<Rightarrow> env \<Rightarrow> env option" and garbage :: "env \<Rightarrow> env"
  assumes actions_law: "firing e F a r b \<Longrightarrow> \<exists>e' F'. actions r e = Some e' \<and> firing e' F' a r b"
    and garbage_law: "engine_ok e F \<Longrightarrow> \<exists>F'. engine_ok (garbage e) F'"
    and garbage_engine: "engineD (garbage e) = engineD e"
    and garbage_rules: "rules e r \<noteq> None \<Longrightarrow> rules (garbage e) r \<noteq> None"
begin

lemma fire_actions_ok:
  assumes f: "firing e F a r b"
  shows "\<exists>err e' F'. fire_actions actions e = Some (err, e') \<and> firing e' F' a r b"
proof -
  let ?e0 = "set_evalD (\<lambda>d. d\<lparr>CurrentEvaluationDepth := CurrentEvaluationDepth d + 1\<rparr>) e"
  let ?e1 = "SetEvaluationError False ?e0"
  have q1: "quiet e ?e1" by (rule quiet_trans [OF quiet_set_evalD quiet_SetEvaluationError])
  have eng1: "engineD ?e1 = engineD e" by (simp add: SetEvaluationError_def set_evalD_def)
  have f1: "firing ?e1 F a r b" by (rule firing_quiet [OF q1 f]) (simp_all add: eng1)
  then obtain R where R: "rules ?e1 r = Some R" by (auto simp: firing_def)
  obtain e2 where e2: "upd_rule r (executing_update (\<lambda>_. True)) ?e1 = Some e2" "quiet ?e1 e2" "engineD e2 = engineD ?e1"
    using quiet_executing [OF R] by blast
  have f2: "firing e2 F a r b" by (rule firing_quiet [OF e2(2) f1]) (simp_all add: e2(3))
  then obtain e3 F3 where e3: "actions r e2 = Some e3" "firing e3 F3 a r b" using actions_law by blast
  then obtain R3 where R3: "rules e3 r = Some R3" by (auto simp: firing_def)
  obtain e4 where e4: "upd_rule r (executing_update (\<lambda>_. False)) e3 = Some e4" "quiet e3 e4" "engineD e4 = engineD e3"
    using quiet_executing [OF R3] by blast
  have f4: "firing e4 F3 a r b" by (rule firing_quiet [OF e4(2) e3(2)]) (simp_all add: e4(3))
  let ?e5 = "set_evalD (\<lambda>d. d\<lparr>CurrentEvaluationDepth := CurrentEvaluationDepth d - 1\<rparr>) (SetEvaluationError False e4)"
  let ?e' = "if CurrentExpression (evalD ?e5) = None then set_evalD (\<lambda>d. d\<lparr>DanglingConstructs := DanglingConstructs (evalD e2)\<rparr>) ?e5 else ?e5"
  have q5: "quiet e4 ?e5" by (rule quiet_trans [OF quiet_SetEvaluationError quiet_set_evalD])
  then have "quiet e4 ?e'" using quiet_trans [OF q5 quiet_set_evalD] by simp
  moreover have "engineD ?e' = engineD e4" by (simp add: SetEvaluationError_def set_evalD_def)
  ultimately have "firing ?e' F3 a r b" by (intro firing_quiet [OF _ f4]) simp_all
  moreover have "ExecutingRule (engineD ?e1) = Some r" "ExecutingRule (engineD e3) = Some r"
    using f1 e3(2) by (simp_all add: firing_def)
  then have "fire_actions actions e = Some (EvaluationError (evalD e3), ?e')"
    using e2(1) e3(1) e4(1) by (simp add: fire_actions_def Let_def)
  ultimately show ?thesis by blast
qed

lemma fire_release_ok:
  assumes f: "firing e F a r b" and lb: "TheLogicalBind (engineD e) = None"
  shows "\<exists>e' F'. fire_release a (Some b) garbage e = Some e' \<and> between e' F' \<and>
    ExecutingRule (engineD e') = Some r \<and> rules e' r \<noteq> None"
proof -
  obtain pm where pm: "matches e b = Some pm" "binds_ok e (binds pm)" using f by (auto simp: firing_def)
  obtain e1 where e1: "upd_match (Some b) (busy_update (\<lambda>_. False)) e = Some e1" "quiet e e1" "engineD e1 = engineD e"
    using quiet_busy [OF pm(1)] by blast
  obtain pm1 where pm1: "matches e1 b = Some pm1" "binds pm1 = binds pm" using quiet_match [OF e1(2) pm(1)] by blast
  have "binds_ok e1 (binds pm1)" using quiet_binds [OF e1(2) pm(2)] pm1(2) by simp
  then obtain e2 where e2: "count_basis (- 1) pm1 e1 = Some e2" "quiet e1 e2" "engineD e2 = engineD e1"
    using count_basis_ok by blast
  have "firing e2 F a r b" by (rule firing_quiet [OF quiet_trans [OF e1(2) e2(2)] f]) (simp_all add: e1(3) e2(3))
  then obtain e3 where e3: "RemoveActivation a False False e2 = Some e3" "engine_ok e3 F" "engineD e3 = engineD e2" "rules e3 = rules e2"
    using free_fired_ok by blast
  have r: "ExecutingRule (engineD e3) = Some r" "rules e3 r \<noteq> None"
    using \<open>firing e2 F a r b\<close> e3(3,4) by (simp_all add: firing_def)
  have "fire_release a (Some b) garbage e = Some (garbage e3)"
    using e1(1) pm1(1) e2(1) e3(1) by (simp add: fire_release_def)
  moreover obtain F' where "between (garbage e3) F'"
    using garbage_law [OF e3(2)] garbage_engine [of e3] lb e3(3) e2(3) e1(3) by (auto simp: between_def)
  ultimately show ?thesis using r garbage_engine [of e3] garbage_rules [of e3 r] by auto
qed

lemma fire_rule_ok:
  assumes ok: "between e F" and a: "a \<in> set (flat (F m))"
  shows "\<exists>l' p e' F'. fire_rule actions garbage a l e = Some (l', p, e') \<and> between e' F' \<and>
    (\<forall>x. p = Some x \<longrightarrow> (\<exists>k. x \<in> set (flat (F' k))))"
proof -
  have e: "engine_ok e F" "TheLogicalBind (engineD e) = None" using ok by (simp_all add: between_def)
  obtain l1 e1 r b nm where e1: "fire_begin a l e = Some (l1, e1)" "firing e1 (F(m := remove_act a (F m))) a r b" "supported e1 r b"
    "GlobalLHSBinds (engineD e1) = Some b" "ActivationRuleName a e1 = Some nm" "GetActivationBasis a e1 = Some (Some b)"
    using fire_begin_ok [OF e(1) a e(2), of l] by blast
  obtain e2 where e2: "fire_support (Some b) e1 = Some e2" "firing e2 (F(m := remove_act a (F m))) a r b"
    using fire_support_ok [OF e1(2-4)] by blast
  obtain err e3 F3 where e3: "fire_actions actions e2 = Some (err, e3)" "firing e3 F3 a r b" using fire_actions_ok [OF e2(2)] by blast
  obtain e4 where e4: "fire_after a nm err e3 = Some e4" "firing e4 F3 a r b" "TheLogicalBind (engineD e4) = None"
    using fire_after_ok [OF e3(2)] by blast
  obtain e5 F5 where e5: "fire_release a (Some b) garbage e4 = Some e5" "between e5 F5"
    "ExecutingRule (engineD e5) = Some r" "rules e5 r \<noteq> None" using fire_release_ok [OF e4(2,3)] by blast
  obtain p e6 F6 where e6: "fire_next e5 = Some (p, e6)" "between e6 F6" "\<forall>a. p = Some a \<longrightarrow> (\<exists>m. a \<in> set (flat (F6 m)))"
    using fire_next_ok [OF e5(2-4)] by blast
  have "fire_rule actions garbage a l e = Some (keep_statistics l1 e5, p, e6)"
    using e1(1,5,6) e2(1) e3(1) e4(1) e5(1) e6(1) by (simp add: fire_rule_def)
  with e6(2,3) show ?thesis by blast
qed

text \<open>With a limit the loop returns, whatever the right hand sides add to the agendas.\<close>

lemma run_loop_ok:
  assumes "between e F" and "\<forall>a. p = Some a \<longrightarrow> (\<exists>m. a \<in> set (flat (F m)))" and "0 \<le> runLimit l"
  shows "\<exists>l' e' F'. run_loop actions garbage p l e = Some (l', e') \<and> between e' F'"
  using assms
proof (induction "nat (runLimit l)" arbitrary: p l e F rule: less_induct)
  case less
  show ?case
  proof (cases "p \<noteq> None \<and> runLimit l \<noteq> 0 \<and> \<not> HaltExecution (evalD e) \<and> \<not> HaltRules (engineD e)")
    case True
    then obtain a m where a: "p = Some a" "a \<in> set (flat (F m))" using less.prems(2) by blast
    obtain l1 p1 e1 F1 where e1: "fire_rule actions garbage a l e = Some (l1, p1, e1)" "between e1 F1"
      "\<forall>x. p1 = Some x \<longrightarrow> (\<exists>k. x \<in> set (flat (F1 k)))" using fire_rule_ok [OF less.prems(1) a(2), of l] by blast
    have "runLimit l1 = runLimit l - 1" using fire_rule_counts(2) [OF e1(1)] True less.prems(3) by simp
    then obtain l' e' F' where "run_loop actions garbage p1 l1 e1 = Some (l', e')" "between e' F'"
      using less.hyps [of l1 e1 F1 p1] e1(2,3) True less.prems(3) by auto
    then show ?thesis using True a(1) e1(1) by (subst run_loop.simps) auto
  next
    case False
    then show ?thesis using less.prems(1) by (subst run_loop.simps) (cases p, auto)
  qed
qed

text \<open>\<^verbatim>\<open>Run\<close> with a limit returns, fires at most that many rules and leaves the engine idle.\<close>

lemma Run_ok:
  assumes ok: "between e F" and idle: "\<not> AlreadyRunning (engineD e)" and n: "0 \<le> n"
  shows "\<exists>k e' F'. Run actions garbage n e = Some (k, e') \<and> 0 \<le> k \<and> k \<le> n \<and> between e' F' \<and>
    \<not> AlreadyRunning (engineD e') \<and> \<not> HaltRules (engineD e') \<and> ExecutingRule (engineD e') = None"
proof -
  obtain l e1 where b: "run_begin n e = (l, e1)" by fastforce
  have l: "rulesFired l = 0" "runLimit l = n" using b by (auto simp: run_begin_def Let_def)
  have q1: "quiet e e1" "engineD e1 = (engineD e)\<lparr>AlreadyRunning := True, HaltRules := False\<rparr>" using b
    by (auto simp: run_begin_def Let_def quiet_def ResetErrorFlags_def set_engineD_def set_evalD_def)
  have ok1: "between e1 F" using ok q1 quiet_ok by (simp add: between_def)
  obtain p e2 where e2: "NextActivationToFire e1 = Some (p, e2)" "engine_ok e2 F" "focus_frame e1 e2"
    "\<forall>a. p = Some a \<longrightarrow> (\<exists>m ms. CurrentFocus (engineD e2) = m # ms \<and> hdp (flat (F m)) None = Some a)"
    using NextActivationToFire_engine [of e1 F] ok1 unfolding between_def by blast
  have ok2: "between e2 F" using e2(2) ok1 focus_frame_engine(2) [OF e2(3)] by (simp add: between_def)
  have on: "\<forall>a. p = Some a \<longrightarrow> (\<exists>m. a \<in> set (flat (F m)))" using e2(4) by (auto dest!: hdp_None_Some)
  obtain l' e3 F3 where e3: "run_loop actions garbage p l e2 = Some (l', e3)" "between e3 F3"
    using run_loop_ok [OF ok2 on] l(2) n by blast
  note c = run_loop_counts [OF e3(1)]
  define e4 where "e4 = run_end l' e3"
  have r: "between e4 F3 \<and> \<not> HaltRules (engineD e4) \<and> ExecutingRule (engineD e4) = None"
    unfolding e4_def by (rule run_end_ok [OF e3(2)])
  then obtain F5 where F5: "engine_ok (garbage e4) F5" using garbage_law [of e4 F3] by (auto simp: between_def)
  let ?e' = "set_engineD (\<lambda>d. d\<lparr>AlreadyRunning := False\<rparr>) (garbage e4)"
  have "engine_ok ?e' F5" by (rule quiet_ok [OF quiet_set_engineD F5]) simp
  moreover have "engineD ?e' = (engineD e4)\<lparr>AlreadyRunning := False\<rparr>" by (simp add: set_engineD_def garbage_engine)
  moreover have "Run actions garbage n e = Some (rulesFired l', ?e')"
    using idle b e2(1) e3(1) by (simp add: Run_def e4_def)
  ultimately show ?thesis using r c l n by (auto simp: between_def)
qed

end

end
