(* ===== verification/Rhs_Actions.thy ===== *)
theory Rhs_Actions
  imports Engine_Run
begin

text \<open>
  Right hand sides made of calls to the functions of this engine, evaluated as
  \<^verbatim>\<open>EvaluateProcActions\<close> (\<^verbatim>\<open>prccode.c\<close>) and \<^verbatim>\<open>progn\<close> (\<^verbatim>\<open>prcdrfun.c\<close>) do: in the module of the
  rule, one call after the other, until execution halts or a call returns.  They meet the
  interface of the firing loop.
\<close>

section \<open>Calls\<close>

datatype rhs_call =
    FocusCall "string option list"
  | PopFocusCall
  | HaltCall
  | ReturnCall
  | SetStrategyCall "string option"
  | SetSalienceEvaluationCall "string option"
  | RefreshAgendaCall "string option"

definition ReturnFunction :: "env \<Rightarrow> env" where
  "ReturnFunction e = set_evalD (\<lambda>d. d\<lparr>ReturnFlag := True\<rparr>) e"

fun eval_call :: "rhs_call \<Rightarrow> env \<Rightarrow> env option" where
  "eval_call (FocusCall args) e = Some (snd (FocusCommand args e))"
| "eval_call PopFocusCall e = Some (snd (PopFocusFunction e))"
| "eval_call HaltCall e = Some (Halt e)"
| "eval_call ReturnCall e = Some (ReturnFunction e)"
| "eval_call (SetStrategyCall arg) e = map_option snd (SetStrategyCommand arg e)"
| "eval_call (SetSalienceEvaluationCall arg) e = Some (snd (SetSalienceEvaluationCommand arg e))"
| "eval_call (RefreshAgendaCall arg) e = RefreshAgendaCommand (Some arg) e"

fun PrognFunction :: "rhs_call list \<Rightarrow> env \<Rightarrow> env option" where
  "PrognFunction [] e = Some e"
| "PrognFunction (c # cs) e =
     (if HaltExecution (evalD e) then Some e
      else do {
        e' \<leftarrow> eval_call c e;
        if ReturnFlag (evalD e') then Some e' else PrognFunction cs e' })"

definition EvaluateProcActions :: "module_id \<Rightarrow> rhs_call list \<Rightarrow> env \<Rightarrow> env option" where
  "EvaluateProcActions theModule calls e = do {
     let oldModule = GetCurrentModule e;
     let e1 = (if oldModule \<noteq> Some theModule then snd (SetCurrentModule (Some theModule) e) else e);
     e2 \<leftarrow> PrognFunction calls e1;
     Some (if oldModule \<noteq> GetCurrentModule e2 then snd (SetCurrentModule oldModule e2) else e2) }"

definition rhs_program :: "(rule_id \<Rightarrow> rhs_call list) \<Rightarrow> rule_id \<Rightarrow> env \<Rightarrow> env option" where
  "rhs_program P r e = do { R \<leftarrow> rules e r; EvaluateProcActions (whichModule R) (P r) e }"

section \<open>Every call keeps the firing\<close>

lemma firing_SetCurrentModule:
  assumes "firing e F a r b" shows "firing (snd (SetCurrentModule m e)) F a r b"
  by (rule firing_quiet [OF _ assms]) (simp_all add: quiet_def)

lemma firing_focus_frame:
  assumes f: "focus_frame e e'" and fi: "firing e F a r b" and m: "\<And>m. m \<in> set (CurrentFocus (engineD e')) \<Longrightarrow> items e m \<noteq> None"
  shows "firing e' F a r b"
proof -
  have ok: "engine_ok e F" using fi by (simp add: firing_def)
  have "focus_ok e'" using focus_ok_focus_frame [OF f _ m] ok by (simp add: engine_ok_def)
  then have "engine_ok e' F" by (rule focus_frame_ok [OF f ok])
  then show ?thesis using fi f focus_frame_engine [OF f] by (simp add: firing_def focus_frame_def binds_ok_def)
qed

lemma find_module_mem: "find_module ms name = Some m \<Longrightarrow> m \<in> set (map fst ms)"
  by (induction ms) (auto split: if_splits)

lemma found_module_item:
  assumes "firing e F a r b" "FindDefmodule name e = Some m"
  shows "items e m \<noteq> None"
  using assms find_module_mem [of "ListOfDefmodules (moduleD e)" name m]
  by (auto simp: firing_def engine_ok_def modules_ok_def FindDefmodule_def)

lemma firing_Focus:
  assumes fi: "firing e F a r b" and m: "items e m \<noteq> None"
  shows "firing (Focus (Some m) e) F a r b"
proof (rule firing_focus_frame [OF focus_frame_Focus fi])
  fix k assume "k \<in> set (CurrentFocus (engineD (Focus (Some m) e)))"
  then have "k = m \<or> k \<in> set (CurrentFocus (engineD e))" by (auto simp: CurrentFocus_Focus split: if_splits)
  then show "items e k \<noteq> None" using m fi by (auto simp: firing_def engine_ok_def focus_ok_def)
qed

lemma firing_focus_args: "firing e F a r b \<Longrightarrow> firing (snd (focus_args args e)) F a r b"
proof (induction args arbitrary: e)
  case (Cons x args)
  show ?case
  proof (cases x)
    case (Some name)
    show ?thesis
    proof (cases "FindDefmodule name e")
      case None
      then show ?thesis using Some firing_quiet [OF quiet_say Cons.prems] by (simp add: say_def)
    next
      case (Some m)
      then have "firing (Focus (Some m) e) F a r b" using firing_Focus [OF Cons.prems found_module_item [OF Cons.prems Some]] by simp
      then show ?thesis using Cons.IH Some \<open>x = Some name\<close> by simp
    qed
  qed (use Cons.prems in simp)
qed simp

lemma firing_PopFocus: "firing e F a r b \<Longrightarrow> firing (snd (PopFocus e)) F a r b"
proof (rule firing_focus_frame [OF focus_frame_PopFocus])
  assume fi: "firing e F a r b"
  show "items e k \<noteq> None" if "k \<in> set (CurrentFocus (engineD (snd (PopFocus e))))" for k
  proof -
    have "k \<in> set (CurrentFocus (engineD e))" using that by (cases "CurrentFocus (engineD e)") auto
    then show ?thesis using fi by (simp add: firing_def engine_ok_def focus_ok_def)
  qed
qed

lemma firing_SetStrategy:
  assumes fi: "firing e F a r b"
  shows "\<exists>e' F'. SetStrategy v e = Some (Strategy (agendaD e), e') \<and> firing e' F' a r b"
proof -
  have ok: "engine_ok e F" "agendas_ok e F" "modules_ok e" "ordered e F" using fi by (simp_all add: firing_def engine_ok_def)
  let ?e = "set_agendaD (\<lambda>d. d\<lparr>Strategy := v\<rparr>) e"
  have sv: "Strategy (agendaD ?e) = v" by (simp add: set_agendaD_def)
  have p1: "permuting e ?e" by (simp add: permuting_def set_agendaD_def)
  show ?thesis
  proof (cases "v = Strategy (agendaD e)")
    case True
    then have c: "same_core e ?e" by (simp add: same_core_def set_agendaD_def)
    have "engine_ok ?e F"
      by (rule permuting_ok [OF p1 ok(1)]) (use same_core_ok [OF c ok(2)] same_core_ordered [OF c] ok(4) in simp_all)
    then have "firing ?e F a r b" by (rule permuting_firing [OF p1 fi]) simp
    moreover have "SetStrategy v e = Some (Strategy (agendaD e), ?e)"
      using True by (simp add: SetStrategy_def Let_def set_agendaD_def)
    ultimately show ?thesis by blast
  next
    case False
    have "modules_ok ?e" using ok(3) by (simp add: modules_ok_def set_agendaD_def)
    then obtain e' F' where e': "ReorderAllAgendas ?e = Some e'" "agendas_ok e' F'" "ordered e' F'"
      "\<And>m. mset (flat (F' m)) = mset (flat (F m))" "replace_frame ?e e'"
      using ReorderAllAgendas_ok [OF strategy_ok [OF ok(2)]] by blast
    have p: "permuting e e'" by (rule permuting_trans [OF p1 replace_frame_permuting [OF e'(5)]])
    have "firing e' F' a r b" by (rule permuting_firing [OF p fi permuting_ok [OF p ok(1) e'(2-4)] e'(4)])
    moreover have "SetStrategy v e = Some (Strategy (agendaD e), e')"
      using False e'(1) sv by (simp add: SetStrategy_def Let_def)
    ultimately show ?thesis by blast
  qed
qed

lemma firing_SetSalienceEvaluation:
  assumes fi: "firing e F a r b" shows "firing (snd (SetSalienceEvaluation v e)) F a r b"
proof -
  let ?e = "snd (SetSalienceEvaluation v e)"
  have ok: "engine_ok e F" "agendas_ok e F" using fi by (simp_all add: firing_def engine_ok_def)
  have p: "permuting e ?e" by (simp add: permuting_def SetSalienceEvaluation_def set_agendaD_def)
  have s: "same_store e ?e" "Strategy (agendaD ?e) = Strategy (agendaD e)"
    by (simp_all add: same_store_def SetSalienceEvaluation_def set_agendaD_def)
  have "ordered ?e F" using ok(1) same_store_agenda_ordered [OF s(1)] s(2) by (simp add: engine_ok_def ordered_def)
  then have "engine_ok ?e F" using permuting_ok [OF p ok(1) same_store_ok [OF s(1) ok(2)]] by simp
  then show ?thesis by (rule permuting_firing [OF p fi]) simp
qed

lemma firing_RefreshAgenda:
  assumes fi: "firing e F a r b" and m: "items e m \<noteq> None"
  shows "\<exists>e' F'. RefreshAgenda (Some m) e = Some e' \<and> firing e' F' a r b"
proof -
  have ok: "engine_ok e F" "agendas_ok e F" "ordered e F" using fi by (simp_all add: firing_def engine_ok_def)
  obtain e' gs' where e': "RefreshAgenda (Some m) e = Some e'" "agendas_ok e' (F(m := gs'))"
    "mset (flat gs') = mset (flat (F m))" "agenda_ordered e' (Strategy (agendaD e)) gs'" "cycle_frame e e'"
    using RefreshAgenda_ok [OF ok(2) m] by blast
  have o: "ordered e' (F(m := gs'))"
    using ok(3) e'(4,5) cycle_frame_ordered [OF e'(5)] by (auto simp: ordered_def cycle_frame_def)
  have perm: "mset (flat ((F(m := gs')) k)) = mset (flat (F k))" for k using e'(3) by simp
  note p = cycle_frame_permuting [OF e'(5)]
  from permuting_firing [OF p fi permuting_ok [OF p ok(1) e'(2) o perm] perm] e'(1) show ?thesis by blast
qed

lemma firing_RefreshAllAgendas:
  assumes fi: "firing e F a r b"
  shows "\<exists>e' F'. RefreshAllAgendas e = Some e' \<and> firing e' F' a r b"
proof -
  have ok: "engine_ok e F" "agendas_ok e F" "ordered e F" "modules_ok e" using fi by (simp_all add: firing_def engine_ok_def)
  obtain e' F' where e': "RefreshAllAgendas e = Some e'" "agendas_ok e' F'" "ordered e' F'"
    "\<And>m. mset (flat (F' m)) = mset (flat (F m))" "cycle_frame e e'"
    using RefreshAllAgendas_ok [OF ok(2,4)] ok(3) by blast
  note p = cycle_frame_permuting [OF e'(5)]
  from permuting_firing [OF p fi permuting_ok [OF p ok(1) e'(2-4)] e'(4)] e'(1) show ?thesis by blast
qed

lemma firing_eval_call:
  assumes fi: "firing e F a r b"
  shows "\<exists>e' F'. eval_call c e = Some e' \<and> firing e' F' a r b"
proof (cases c)
  case (FocusCall args)
  then show ?thesis using firing_focus_args [OF fi] by (auto simp: FocusCommand_def)
next
  case PopFocusCall
  moreover have "snd (PopFocusFunction e) = snd (PopFocus e)" by (auto simp: PopFocusFunction_def split: prod.split option.split)
  ultimately show ?thesis using firing_PopFocus [OF fi] by auto
next
  case HaltCall
  have "firing (Halt e) F a r b" unfolding Halt_def
    by (rule firing_quiet [OF quiet_set_engineD fi]) (simp_all add: set_engineD_def)
  then show ?thesis using HaltCall by auto
next
  case ReturnCall
  have "firing (ReturnFunction e) F a r b" unfolding ReturnFunction_def
    by (rule firing_quiet [OF quiet_set_evalD fi]) (simp_all add: set_evalD_def)
  then show ?thesis using ReturnCall by auto
next
  case (SetStrategyCall arg)
  have "firing (say x e) F a r b" for x by (rule firing_quiet [OF quiet_say fi]) (simp_all add: say_def)
  then show ?thesis using SetStrategyCall fi firing_SetStrategy [OF fi]
    by (cases arg; cases "strategy_named (the arg)") (fastforce simp: SetStrategyCommand_def)+
next
  case (SetSalienceEvaluationCall arg)
  have "firing (say x e) F a r b" for x by (rule firing_quiet [OF quiet_say fi]) (simp_all add: say_def)
  then show ?thesis using SetSalienceEvaluationCall fi firing_SetSalienceEvaluation [OF fi]
    by (auto simp: SetSalienceEvaluationCommand_def Let_def split: option.split)
next
  case (RefreshAgendaCall arg)
  have "firing (say x e) F a r b" for x by (rule firing_quiet [OF quiet_say fi]) (simp_all add: say_def)
  then show ?thesis using RefreshAgendaCall fi firing_RefreshAllAgendas [OF fi] firing_RefreshAgenda [OF fi] found_module_item [OF fi]
    by (cases arg; cases "FindDefmodule (the arg) e") (auto simp: RefreshAgendaCommand_def GetModuleName_def)
qed

lemma firing_PrognFunction:
  "firing e F a r b \<Longrightarrow> \<exists>e' F'. PrognFunction cs e = Some e' \<and> firing e' F' a r b"
proof (induction cs arbitrary: e F)
  case (Cons c cs)
  obtain e1 F1 where e1: "eval_call c e = Some e1" "firing e1 F1 a r b" using firing_eval_call [OF Cons.prems] by blast
  with Cons.IH [OF e1(2)] Cons.prems show ?case by (cases "HaltExecution (evalD e)"; cases "ReturnFlag (evalD e1)") auto
qed auto

lemma firing_rhs_program:
  assumes fi: "firing e F a r b"
  shows "\<exists>e' F'. rhs_program P r e = Some e' \<and> firing e' F' a r b"
proof -
  obtain R where R: "rules e r = Some R" using fi by (auto simp: firing_def)
  let ?m = "whichModule R" and ?old = "GetCurrentModule e"
  let ?e1 = "if ?old \<noteq> Some ?m then snd (SetCurrentModule (Some ?m) e) else e"
  have "firing ?e1 F a r b" using fi firing_SetCurrentModule [OF fi] by simp
  then obtain e2 F2 where e2: "PrognFunction (P r) ?e1 = Some e2" "firing e2 F2 a r b" using firing_PrognFunction by blast
  have "rhs_program P r e = Some (if ?old \<noteq> GetCurrentModule e2 then snd (SetCurrentModule ?old e2) else e2)"
    using R e2(1) by (simp add: rhs_program_def EvaluateProcActions_def Let_def)
  then show ?thesis using e2(2) firing_SetCurrentModule [OF e2(2)] by (cases "?old = GetCurrentModule e2") auto
qed

text \<open>
  These right hand sides create no garbage, so that nothing is collected between two firings.
\<close>

interpretation rhs: right_hand_sides "rhs_program P" "\<lambda>e. e" for P
  by unfold_locales (use firing_rhs_program in blast)+

end
