(* ===== verification/Agenda_Machine.thy ===== *)
theory Agenda_Machine
  imports Rhs_Actions
begin

text \<open>
  The agendas as a state machine: the pattern matcher activates and retracts, the user changes
  the strategy, refreshes saliences and moves the focus.  The invariant ties the marker of every
  partial match to the activation on the agenda, so that a retraction always finds a live
  activation.
\<close>

definition markers_ok :: "env \<Rightarrow> (module_id \<Rightarrow> agroup list) \<Rightarrow> bool" where
  "markers_ok e F \<longleftrightarrow> (\<forall>b pm x. matches e b = Some pm \<and> marker pm = Some x \<longrightarrow>
     (\<exists>m. x \<in> set (flat (F m))) \<and> map_option basis (acts e x) = Some (Some b))"

lemma markers_okD:
  assumes "markers_ok e F" "matches e b = Some pm" "marker pm = Some x"
  shows "\<exists>m. x \<in> set (flat (F m))" "map_option basis (acts e x) = Some (Some b)"
  using assms unfolding markers_ok_def by blast+

lemma markers_okI:
  assumes "\<And>b pm x. \<lbrakk>matches e b = Some pm; marker pm = Some x\<rbrakk> \<Longrightarrow>
    (\<exists>m. x \<in> set (flat (F m))) \<and> map_option basis (acts e x) = Some (Some b)"
  shows "markers_ok e F"
  using assms unfolding markers_ok_def by blast

definition machine_ok :: "env \<Rightarrow> (module_id \<Rightarrow> agroup list) \<Rightarrow> bool" where
  "machine_ok e F \<longleftrightarrow> agendas_ok e F \<and> ordered e F \<and> modules_ok e \<and> focus_ok e \<and> markers_ok e F"

inductive agenda_step :: "env \<Rightarrow> env \<Rightarrow> bool" where
  activate: "\<lbrakk>rules e r \<noteq> None; matches e b = Some pm; marker pm = None; match_ok e pm; AddActivation r b e = Some e'\<rbrakk>
     \<Longrightarrow> agenda_step e e'"
| retract: "\<lbrakk>matches e b = Some pm; marker pm = Some x; RemoveActivation x True True e = Some e'\<rbrakk> \<Longrightarrow> agenda_step e e'"
| strategy: "SetStrategy v e = Some (old, e') \<Longrightarrow> agenda_step e e'"
| refresh: "\<lbrakk>items e m \<noteq> None; RefreshAgenda (Some m) e = Some e'\<rbrakk> \<Longrightarrow> agenda_step e e'"
| focus: "items e m \<noteq> None \<Longrightarrow> agenda_step e (Focus (Some m) e)"
| pop_focus: "agenda_step e (snd (PopFocus e))"

inductive_cases agenda_stepE [elim]: "agenda_step e e'"

section \<open>Each step is defined and keeps the invariant\<close>

lemma markers_key:
  assumes mo: "markers_ok e F" and m: "matches e' = matches e"
    and key: "\<And>x. map_option act_key (acts e' x) = map_option act_key (acts e x)"
    and sub: "\<And>m. set (flat (F' m)) = set (flat (F m))"
  shows "markers_ok e' F'"
proof -
  have "map_option basis (acts e' x) = map_option basis (acts e x)" for x
    using key [of x] by (cases "acts e' x"; cases "acts e x") (auto simp: act_key_def)
  then show ?thesis using markers_okD [OF mo] by (intro markers_okI) (simp only: m sub)
qed

lemma activate_ok:
  assumes ok: "machine_ok e F" and r: "rules e r \<noteq> None" and pm: "matches e b = Some pm" "marker pm = None" "match_ok e pm"
  shows "\<exists>e' F'. AddActivation r b e = Some e' \<and> machine_ok e' F' \<and> matches e' = (matches e)(b \<mapsto> pm\<lparr>marker := Some (fresh e)\<rparr>)"
proof -
  have a: "agendas_ok e F" "ordered e F" "modules_ok e" "focus_ok e" "markers_ok e F" using ok by (simp_all add: machine_ok_def)
  obtain R where R: "rules e r = Some R" using r by auto
  let ?m = "whichModule R" and ?n = "fresh e"
  let ?e1 = "if autoFocus R then Focus (Some ?m) e else e"
  obtain e' gs' A where e': "AddActivation r b e = Some e'" "inserted ?n (salience_of e R) (F ?m) gs'"
    "agendas_ok e' (F(?m := gs'))" "ordered e' (F(?m := gs'))" "acts e' ?n = Some A" "basis A = Some b"
    "matches e' = (matches e)(b \<mapsto> pm\<lparr>marker := Some ?n\<rparr>)" "engineD e' = engineD ?e1" "moduleD e' = moduleD ?e1"
    "\<forall>k. map_option ruleList (items e' k) = map_option ruleList (items e k)"
    "\<forall>x. x \<noteq> ?n \<longrightarrow> pays_of act_pay (acts e') x = pays_of act_pay (acts e) x"
    using AddActivation_ok [OF a(1) R pm] a(2) by blast
  have it: "(items e' k = None) = (items e k = None)" for k using e'(10) by (metis option.map_disc_iff)
  have mods: "ListOfDefmodules (moduleD e') = ListOfDefmodules (moduleD e)" unfolding e'(9) by simp
  have m: "items e ?m \<noteq> None" by (rule agendas_okD(10) [OF a(1) R])
  have "set (CurrentFocus (engineD e')) \<subseteq> insert ?m (set (CurrentFocus (engineD e)))"
    unfolding e'(8) by (auto simp: CurrentFocus_Focus)
  then have "focus_ok e'" using a(4) it m mods by (auto simp: focus_ok_def FindDefmodule_def simp del: not_None_eq)
  moreover have "modules_ok e'" by (rule modules_ok_cong [OF a(3) mods it])
  moreover have "markers_ok e' (F(?m := gs'))"
  proof (rule markers_okI)
    fix c q x assume c: "matches e' c = Some q" "marker q = Some x"
    show "(\<exists>k. x \<in> set (flat ((F(?m := gs')) k))) \<and> map_option basis (acts e' x) = Some (Some c)"
    proof (cases "c = b")
      case True
      then have "q = pm\<lparr>marker := Some ?n\<rparr>" using c(1) e'(7) by simp
      then have "x = ?n" using c(2) by simp
      then show ?thesis using True e'(5,6) inserted_set [OF e'(2)] by (auto intro!: exI [of _ ?m])
    next
      case False
      then have "matches e c = Some q" using c(1) e'(7) by simp
      then obtain k where k: "x \<in> set (flat (F k))" "map_option basis (acts e x) = Some (Some c)"
        using markers_okD [OF a(5)] c(2) by blast
      have "x \<noteq> ?n" using k(1) fresh_not_on_agenda [OF a(1)] by blast
      then have "map_option act_pay (acts e' x) = map_option act_pay (acts e x)" using e'(11) by (simp add: pays_of_def)
      then have "map_option basis (acts e' x) = Some (Some c)"
        using k(2) by (cases "acts e' x"; cases "acts e x") (auto dest: act_pay_eqD)
      moreover have "x \<in> set (flat ((F(?m := gs')) k))" using k(1) inserted_set [OF e'(2)] by auto
      ultimately show ?thesis by blast
    qed
  qed
  ultimately show ?thesis using e'(1,3,4,7) by (auto simp: machine_ok_def)
qed

lemma retract_ok:
  assumes ok: "machine_ok e F" and pm: "matches e b = Some pm" "marker pm = Some x"
  shows "\<exists>e' F'. RemoveActivation x True True e = Some e' \<and> machine_ok e' F' \<and> acts e' x = None \<and>
    matches e' = (matches e)(b \<mapsto> pm\<lparr>marker := None\<rparr>)"
proof -
  have a: "agendas_ok e F" "ordered e F" "modules_ok e" "focus_ok e" "markers_ok e F" using ok by (simp_all add: machine_ok_def)
  obtain m where m: "x \<in> set (flat (F m))" "map_option basis (acts e x) = Some (Some b)"
    using markers_okD [OF a(5) pm] by blast
  let ?F = "F(m := remove_act x (F m))"
  obtain e' A b' pm' where e': "RemoveActivation x True True e = Some e'" "agendas_ok e' ?F" "ordered e' ?F" "acts e' x = None"
    "acts e x = Some A" "basis A = Some b'" "matches e b' = Some pm'" "matches e' = (matches e)(b' \<mapsto> pm'\<lparr>marker := None\<rparr>)"
    "moduleD e' = moduleD e" "engineD e' = engineD e" "\<forall>k. k \<noteq> m \<longrightarrow> items e' k = items e k"
    "map_option ruleList (items e' m) = map_option ruleList (items e m)"
    "\<forall>y. y \<noteq> x \<longrightarrow> pays_of act_pay (acts e') y = pays_of act_pay (acts e) y"
    using RemoveActivation_ok [OF a(1) m(1)] a(2) by blast
  have b: "b' = b" "pm' = pm" using m(2) e'(5-7) pm by auto
  have it: "(items e' k = None) = (items e k = None)" for k
    using e'(11,12) by (cases "k = m") (metis option.map_disc_iff, simp)
  have "modules_ok e'" by (rule modules_ok_cong [OF a(3)]) (simp_all add: it e'(9))
  moreover have "focus_ok e'" by (rule focus_ok_cong [OF a(4)]) (simp_all add: it e'(9,10))
  moreover have "markers_ok e' ?F"
  proof (rule markers_okI)
    fix c q y assume c: "matches e' c = Some q" "marker q = Some y"
    then have cb: "c \<noteq> b" "matches e c = Some q" using e'(8) b by (auto split: if_splits)
    then obtain k where k: "y \<in> set (flat (F k))" "map_option basis (acts e y) = Some (Some c)"
      using markers_okD [OF a(5) cb(2) c(2)] by blast
    have yx: "y \<noteq> x" using k(2) m(2) cb(1) by auto
    then have "map_option act_pay (acts e' y) = map_option act_pay (acts e y)" using e'(13) by (simp add: pays_of_def)
    then have "map_option basis (acts e' y) = Some (Some c)"
      using k(2) by (cases "acts e' y"; cases "acts e y") (auto dest: act_pay_eqD)
    moreover have "y \<in> set (flat (?F k))" using k(1) yx by (auto simp: flat_remove_act)
    ultimately show "(\<exists>k. y \<in> set (flat (?F k))) \<and> map_option basis (acts e' y) = Some (Some c)" by blast
  qed
  ultimately show ?thesis using e'(1-4,8) b by (auto simp: machine_ok_def)
qed

lemma permuting_machine:
  assumes p: "permuting e e'" and ok: "machine_ok e F" and F': "agendas_ok e' F'" "ordered e' F'"
    and perm: "\<And>m. mset (flat (F' m)) = mset (flat (F m))"
  shows "machine_ok e' F'"
proof -
  have a: "modules_ok e" "focus_ok e" "markers_ok e F" using ok by (simp_all add: machine_ok_def)
  have "set (flat (F' m)) = set (flat (F m))" for m using perm [of m] by (metis set_mset_mset)
  then have "markers_ok e' F'" by (intro markers_key [OF a(3)]) (use p in \<open>simp_all add: permuting_def\<close>)
  moreover have "modules_ok e'" by (rule modules_ok_cong [OF a(1)]) (use p in \<open>simp_all add: permuting_def\<close>)
  moreover have "focus_ok e'" by (rule focus_ok_cong [OF a(2)]) (use p in \<open>simp_all add: permuting_def\<close>)
  ultimately show ?thesis using F' by (simp add: machine_ok_def)
qed

lemma strategy_step_ok:
  assumes ok: "machine_ok e F"
  shows "\<exists>e' F'. SetStrategy v e = Some (Strategy (agendaD e), e') \<and> machine_ok e' F'"
proof -
  have a: "agendas_ok e F" "ordered e F" "modules_ok e" using ok by (simp_all add: machine_ok_def)
  let ?e = "set_agendaD (\<lambda>d. d\<lparr>Strategy := v\<rparr>) e"
  have p1: "permuting e ?e" by (simp add: permuting_def set_agendaD_def)
  have sv: "Strategy (agendaD ?e) = v" by (simp add: set_agendaD_def)
  show ?thesis
  proof (cases "v = Strategy (agendaD e)")
    case True
    then have c: "same_core e ?e" by (simp add: same_core_def set_agendaD_def)
    have "machine_ok ?e F" by (rule permuting_machine [OF p1 ok]) (use same_core_ok [OF c a(1)] same_core_ordered [OF c] a(2) in simp_all)
    moreover have "SetStrategy v e = Some (Strategy (agendaD e), ?e)" using True by (simp add: SetStrategy_def Let_def set_agendaD_def)
    ultimately show ?thesis by blast
  next
    case False
    have "modules_ok ?e" using a(3) by (simp add: modules_ok_def set_agendaD_def)
    then obtain e' F' where e': "ReorderAllAgendas ?e = Some e'" "agendas_ok e' F'" "ordered e' F'"
      "\<And>m. mset (flat (F' m)) = mset (flat (F m))" "replace_frame ?e e'"
      using ReorderAllAgendas_ok [OF strategy_ok [OF a(1)]] by blast
    have "machine_ok e' F'" by (rule permuting_machine [OF permuting_trans [OF p1 replace_frame_permuting [OF e'(5)]] ok e'(2-4)])
    moreover have "SetStrategy v e = Some (Strategy (agendaD e), e')" using False e'(1) sv by (simp add: SetStrategy_def Let_def)
    ultimately show ?thesis by blast
  qed
qed

lemma refresh_step_ok:
  assumes ok: "machine_ok e F" and m: "items e m \<noteq> None"
  shows "\<exists>e' F'. RefreshAgenda (Some m) e = Some e' \<and> machine_ok e' F'"
proof -
  have a: "agendas_ok e F" "ordered e F" using ok by (simp_all add: machine_ok_def)
  obtain e' gs' where e': "RefreshAgenda (Some m) e = Some e'" "agendas_ok e' (F(m := gs'))"
    "mset (flat gs') = mset (flat (F m))" "agenda_ordered e' (Strategy (agendaD e)) gs'" "cycle_frame e e'"
    using RefreshAgenda_ok [OF a(1) m] by blast
  have "ordered e' (F(m := gs'))"
    using a(2) e'(4,5) cycle_frame_ordered [OF e'(5)] by (auto simp: ordered_def cycle_frame_def)
  moreover have "mset (flat ((F(m := gs')) k)) = mset (flat (F k))" for k using e'(3) by simp
  ultimately have "machine_ok e' (F(m := gs'))" by (rule permuting_machine [OF cycle_frame_permuting [OF e'(5)] ok e'(2)])
  with e'(1) show ?thesis by blast
qed

lemma focus_step_ok:
  assumes f: "focus_frame e e'" and ok: "machine_ok e F" and m: "\<And>m. m \<in> set (CurrentFocus (engineD e')) \<Longrightarrow> items e m \<noteq> None"
  shows "machine_ok e' F"
proof -
  have a: "agendas_ok e F" "ordered e F" "modules_ok e" "focus_ok e" "markers_ok e F" using ok by (simp_all add: machine_ok_def)
  have c: "same_core e e'" using f by (simp add: same_core_def focus_frame_def)
  have "markers_ok e' F" by (rule markers_key [OF a(5)]) (use f in \<open>simp_all add: focus_frame_def\<close>)
  then show ?thesis
    using same_core_ok [OF c a(1)] same_core_ordered [OF c] a(2) focus_ok_focus_frame [OF f a(4) m] modules_ok_cong [OF a(3), of e'] f
    by (simp add: machine_ok_def focus_frame_def)
qed

section \<open>Reachable states\<close>

lemma agenda_step_ok:
  assumes step: "agenda_step e e'" and ok: "machine_ok e F"
  shows "\<exists>F'. machine_ok e' F'"
  using step
proof (cases rule: agenda_step.cases)
  case (activate r b pm)
  then show ?thesis using activate_ok [OF ok] by fastforce
next
  case (retract b pm x)
  then show ?thesis using retract_ok [OF ok] by fastforce
next
  case (strategy v old)
  then show ?thesis using strategy_step_ok [OF ok, of v] by auto
next
  case (refresh m)
  then show ?thesis using refresh_step_ok [OF ok] by fastforce
next
  case (focus m)
  have "items e k \<noteq> None" if "k \<in> set (CurrentFocus (engineD (Focus (Some m) e)))" for k
    using that focus(2) ok by (auto simp: CurrentFocus_Focus machine_ok_def focus_ok_def split: if_splits)
  then show ?thesis using focus_step_ok [OF focus_frame_Focus ok] focus(1) by blast
next
  case pop_focus
  have "items e k \<noteq> None" if "k \<in> set (CurrentFocus (engineD (snd (PopFocus e))))" for k
    using that ok by (cases "CurrentFocus (engineD e)") (auto simp: machine_ok_def focus_ok_def)
  then show ?thesis using focus_step_ok [OF focus_frame_PopFocus ok] pop_focus by blast
qed

lemma reachable_ok:
  assumes "agenda_step\<^sup>*\<^sup>* e e'" and "machine_ok e F"
  shows "\<exists>F'. machine_ok e' F'"
  using assms by (induction rule: rtranclp_induct) (use agenda_step_ok in blast)+

end
