(* ===== verification/Sample_Engine.thy ===== *)
theory Sample_Engine
  imports Sample_Env Agenda_Machine
begin

text \<open>
  The sample environment satisfies the invariants of the engine and of the agenda machine,
  before and after its first rule is activated.
\<close>

lemma sample_modules: "modules_ok sample_env" "focus_ok sample_env"
  by (auto simp: modules_ok_def focus_ok_def sample_env_def FindDefmodule_def)

lemma sample_machine: "machine_ok sample_env (\<lambda>_. [])"
proof -
  have "markers_ok sample_env (\<lambda>_. [])"
    by (rule markers_okI) (auto simp: sample_env_def sample_match_def split: if_splits)
  then show ?thesis using sample_env_ok sample_env_ordered sample_modules by (simp add: machine_ok_def)
qed

lemma sample_machine1:
  "\<exists>F. machine_ok sample_env1 F \<and> matches sample_env1 0 = Some ((sample_match 0 0)\<lparr>marker := Some 0\<rparr>)"
proof -
  obtain e' F' where "AddActivation 0 0 sample_env = Some e'" "machine_ok e' F'"
    "matches e' = (matches sample_env)(0 \<mapsto> (sample_match 0 0)\<lparr>marker := Some (fresh sample_env)\<rparr>)"
    using activate_ok [OF sample_machine, of 0 0] sample_matches by auto
  then show ?thesis by (intro exI [of _ F']) (simp add: sample_env1_def sample_env_def)
qed

lemma sample_between: "between sample_env (\<lambda>_. [])"
  using sample_env_ok sample_env_ordered sample_modules by (simp add: between_def engine_ok_def sample_env_def)

lemma sample_between1: "\<exists>F. between sample_env1 F \<and> 0 \<in> set (flat (F 0)) \<and> (\<forall>k. k \<noteq> 0 \<longrightarrow> F k = [])"
proof -
  obtain e' gs' A where e': "AddActivation 0 0 sample_env = Some e'" "inserted 0 0 [] gs'"
    "agendas_ok e' ((\<lambda>_. [])(0 := gs'))" "ordered e' ((\<lambda>_. [])(0 := gs'))" "acts e' 0 = Some A" "theRule A = 0" "basis A = Some 0"
    using AddActivation_ok [OF sample_env_ok sample_matches] sample_env_ordered
    by (auto simp: sample_rule_def salience_of_def sample_env_def)
  then have s1: "sample_env1 = e'" by (simp add: sample_env1_def)
  obtain F1 where F1: "machine_ok sample_env1 F1" using sample_machine1 by blast
  have "map_option logicalJoin (rules sample_env1 0) = Some None" "TheLogicalBind (engineD sample_env1) = None"
    by code_simp+
  then have "act_supported sample_env1 0"
    using e'(5-7) s1 by (auto simp: act_supported_def supported_def)
  then have "between sample_env1 ((\<lambda>_. [])(0 := gs'))"
    using e'(3,4) F1 s1 inserted_set [OF e'(2)] \<open>TheLogicalBind (engineD sample_env1) = None\<close>
    by (simp add: between_def engine_ok_def machine_ok_def)
  then show ?thesis using inserted_set [OF e'(2)] by (intro exI [of _ "(\<lambda>_. [])(0 := gs')"]) simp
qed

section \<open>Two activations of different salience\<close>

definition sample_env2 :: env where
  "sample_env2 = (case AddActivation 1 1 sample_env1 of Some e \<Rightarrow> e | None \<Rightarrow> sample_env)"

definition sample_moved :: env where
  "sample_moved = (case MoveActivationToTop 0 sample_env2 of Some (_, e) \<Rightarrow> e | None \<Rightarrow> sample_env)"

definition sample_act :: "rule_id \<Rightarrow> addr \<Rightarrow> activation" where
  "sample_act r b = \<lparr>theRule = r, basis = Some b, act_salience = 0, act_timetag = 1, randomID = 0, act_prev = None, act_next = None\<rparr>"

lemma sample_machine2: "\<exists>F. machine_ok sample_env2 F"
proof -
  obtain F where F: "machine_ok sample_env1 F" using sample_machine1 by blast
  have "rules sample_env1 1 \<noteq> None" "matches sample_env1 1 = Some (sample_match 1 1)" "match_ok sample_env1 (sample_match 1 1)"
    by code_simp+
  with activate_ok [OF F, of 1 1] show ?thesis by (auto simp: sample_env2_def sample_match_def)
qed

end
