(* ===== verification/Merge_Sort.thy ===== *)
theory Merge_Sort
  imports Clips_Prelude
begin

text \<open>
  The sort function of \<^verbatim>\<open>sortfun.c\<close>: a merge sort of an array, in place with a second array as
  temporary storage.  An access outside the arrays is \<open>None\<close>.  The comparison, an expression
  of the user that the evaluator calls, is the parameter \<open>swapFunction\<close>.

  The in-place routine is shown equal to a functional merge sort on lists, which permutes its
  input for every comparison, and which is the stable sort of the library when the comparison is
  the strict order of a key.
\<close>

section \<open>The array routine\<close>

definition elem_at :: "'v list \<Rightarrow> nat \<Rightarrow> 'v option" where
  "elem_at xs i = (if i < length xs then Some (xs ! i) else None)"

definition store_at :: "'v list \<Rightarrow> nat \<Rightarrow> 'v \<Rightarrow> 'v list option" where
  "store_at xs i v = (if i < length xs then Some (xs[i := v]) else None)"

definition swap_pair :: "('v \<Rightarrow> 'v \<Rightarrow> bool) \<Rightarrow> nat \<Rightarrow> nat \<Rightarrow> 'v list \<Rightarrow> 'v list option" where
  "swap_pair swapFunction s e theList = do {
     x \<leftarrow> elem_at theList s;
     y \<leftarrow> elem_at theList e;
     if swapFunction x y
     then do { theList1 \<leftarrow> store_at theList s y; store_at theList1 e x }
     else Some theList }"

function merge_areas ::
  "('v \<Rightarrow> 'v \<Rightarrow> bool) \<Rightarrow> 'v list \<Rightarrow> nat \<Rightarrow> nat \<Rightarrow> nat \<Rightarrow> nat \<Rightarrow> nat \<Rightarrow> 'v list \<Rightarrow> 'v list option" where
  "merge_areas swapFunction theList e1 e2 c1 c2 mergePoint tempList =
     (if mergePoint \<le> e2
      then if c1 > e1
           then do {
             y \<leftarrow> elem_at theList c2;
             tempList1 \<leftarrow> store_at tempList mergePoint y;
             merge_areas swapFunction theList e1 e2 c1 (c2 + 1) (mergePoint + 1) tempList1 }
           else if c2 > e2
           then do {
             x \<leftarrow> elem_at theList c1;
             tempList1 \<leftarrow> store_at tempList mergePoint x;
             merge_areas swapFunction theList e1 e2 (c1 + 1) c2 (mergePoint + 1) tempList1 }
           else do {
             x \<leftarrow> elem_at theList c1;
             y \<leftarrow> elem_at theList c2;
             if swapFunction x y
             then do {
               tempList1 \<leftarrow> store_at tempList mergePoint y;
               merge_areas swapFunction theList e1 e2 c1 (c2 + 1) (mergePoint + 1) tempList1 }
             else do {
               tempList1 \<leftarrow> store_at tempList mergePoint x;
               merge_areas swapFunction theList e1 e2 (c1 + 1) c2 (mergePoint + 1) tempList1 } }
      else Some tempList)"
  by pat_completeness auto
termination
  by (relation "measure (\<lambda>(_, _, _, e2, _, _, mergePoint, _). e2 + 1 - mergePoint)") auto

function copy_back :: "nat \<Rightarrow> nat \<Rightarrow> 'v list \<Rightarrow> 'v list \<Rightarrow> 'v list option" where
  "copy_back c1 e2 tempList theList =
     (if c1 \<le> e2
      then do {
        x \<leftarrow> elem_at tempList c1;
        theList1 \<leftarrow> store_at theList c1 x;
        copy_back (c1 + 1) e2 tempList theList1 }
      else Some theList)"
  by pat_completeness auto
termination
  by (relation "measure (\<lambda>(c1, e2, _, _). e2 + 1 - c1)") auto

declare merge_areas.simps [simp del] copy_back.simps [simp del]

text \<open>
  The areas are \<open>s1 .. e1\<close> and \<open>s2 .. e2\<close>.  An area whose end is before its start would make the
  unsigned size wrap around; the routine is never called on one, and the model faults there.
\<close>

partial_function (option) DoMergeSort ::
  "('v \<Rightarrow> 'v \<Rightarrow> bool) \<Rightarrow> nat \<Rightarrow> nat \<Rightarrow> nat \<Rightarrow> nat \<Rightarrow> 'v list \<times> 'v list \<Rightarrow> ('v list \<times> 'v list) option" where
  "DoMergeSort swapFunction s1 e1 s2 e2 arrays = do {
     (theList1, tempList1) \<leftarrow>
       (if s1 = e1 then Some arrays
        else if s1 + 1 = e1 then do { theList1 \<leftarrow> swap_pair swapFunction s1 e1 (fst arrays); Some (theList1, snd arrays) }
        else if e1 < s1 then None
        else let middle = s1 + (((e1 - s1) + 1) + 1) div 2
             in DoMergeSort swapFunction s1 (middle - 1) middle e1 arrays);
     (theList2, tempList2) \<leftarrow>
       (if s2 = e2 then Some (theList1, tempList1)
        else if s2 + 1 = e2 then do { theList2 \<leftarrow> swap_pair swapFunction s2 e2 theList1; Some (theList2, tempList1) }
        else if e2 < s2 then None
        else let middle = s2 + (((e2 - s2) + 1) + 1) div 2
             in DoMergeSort swapFunction s2 (middle - 1) middle e2 (theList1, tempList1));
     tempList3 \<leftarrow> merge_areas swapFunction theList2 e1 e2 s1 s2 s1 tempList2;
     theList3 \<leftarrow> copy_back s1 e2 tempList3 theList2;
     Some (theList3, tempList3) }"

declare DoMergeSort.simps [code]

text \<open>\<open>tempList\<close> is the storage just allocated, with arbitrary contents.\<close>

definition MergeSort :: "('v \<Rightarrow> 'v \<Rightarrow> bool) \<Rightarrow> nat \<Rightarrow> 'v list \<Rightarrow> 'v list \<Rightarrow> 'v list option" where
  "MergeSort swapFunction listSize tempList theList =
     (if listSize \<le> 1 then Some theList
      else let middle = (listSize + 1) div 2
           in map_option fst (DoMergeSort swapFunction 0 (middle - 1) middle (listSize - 1) (theList, tempList)))"

section \<open>The sort function\<close>

text \<open>
  A reference to a function carries the least and the greatest number of arguments it takes; a
  generic function is not checked.  The arguments to sort are multifields or single values.
\<close>

datatype function_reference = FCALL nat nat | PCALL nat nat | GCALL

datatype 'v sort_argument = MultifieldArg "'v list" | SingleArg 'v

datatype 'v sort_result = SortFalse | SortTypeError string | SortedList "'v list"

fun wrong_arity :: "nat \<Rightarrow> nat \<Rightarrow> bool" where
  "wrong_arity least most \<longleftrightarrow> least > 2 \<or> most = 0 \<or> most = 1"

fun arity_error :: "function_reference \<Rightarrow> string option" where
  "arity_error (FCALL least most) = (if wrong_arity least most then Some ''function name expecting two arguments'' else None)"
| "arity_error (PCALL least most) = (if wrong_arity least most then Some ''deffunction name expecting two arguments'' else None)"
| "arity_error GCALL = None"

fun argument_size :: "'v sort_argument \<Rightarrow> nat" where
  "argument_size (MultifieldArg vs) = length vs"
| "argument_size (SingleArg v) = 1"

fun argument_values :: "'v sort_argument \<Rightarrow> 'v list" where
  "argument_values (MultifieldArg vs) = vs"
| "argument_values (SingleArg v) = [v]"

definition SortFunction ::
  "(string \<Rightarrow> (function_reference \<times> ('v \<Rightarrow> 'v \<Rightarrow> bool)) option) \<Rightarrow> (nat \<Rightarrow> 'v list) \<Rightarrow> string option \<Rightarrow>
     'v sort_argument list \<Rightarrow> 'v sort_result option" where
  "SortFunction FunctionReferenceExpression genalloc functionName arguments = (case functionName of
     None \<Rightarrow> Some SortFalse
   | Some name \<Rightarrow> (case FunctionReferenceExpression name of
       None \<Rightarrow> Some (SortTypeError ''function name, deffunction name, or defgeneric name'')
     | Some (functionReference, comparison) \<Rightarrow> (case arity_error functionReference of
         Some text \<Rightarrow> Some (SortTypeError text)
       | None \<Rightarrow>
           if arguments = [] then Some (SortedList [])
           else let argumentSize = sum_list (map argument_size arguments)
                in if argumentSize = 0 then Some (SortedList [])
                   else do {
                     let theArguments2 = concat (map argument_values arguments);
                     sorted_values \<leftarrow> MergeSort comparison argumentSize (genalloc argumentSize) theArguments2;
                     Some (SortedList sorted_values) })))"

section \<open>Merging lists\<close>

fun merge_by :: "('v \<Rightarrow> 'v \<Rightarrow> bool) \<Rightarrow> 'v list \<Rightarrow> 'v list \<Rightarrow> 'v list" where
  "merge_by swap [] ys = ys"
| "merge_by swap xs [] = xs"
| "merge_by swap (x # xs) (y # ys) =
     (if swap x y then y # merge_by swap (x # xs) ys else x # merge_by swap xs (y # ys))"

lemma merge_by_Nil2 [simp]: "merge_by swap xs [] = xs"
  by (cases xs) auto

lemma mset_merge_by [simp]: "mset (merge_by swap xs ys) = mset xs + mset ys"
  by (induction swap xs ys rule: merge_by.induct) auto

lemma length_merge_by [simp]: "length (merge_by swap xs ys) = length xs + length ys"
  by (induction swap xs ys rule: merge_by.induct) auto

lemma set_merge_by [simp]: "set (merge_by swap xs ys) = set xs \<union> set ys"
  by (induction swap xs ys rule: merge_by.induct) auto

function msort_by :: "('v \<Rightarrow> 'v \<Rightarrow> bool) \<Rightarrow> 'v list \<Rightarrow> 'v list" where
  "msort_by swap xs = (if length xs \<le> 1 then xs
     else merge_by swap (msort_by swap (take ((length xs + 1) div 2) xs)) (msort_by swap (drop ((length xs + 1) div 2) xs)))"
  by pat_completeness auto
termination
  by (relation "measure (\<lambda>(_, xs). length xs)") auto

declare msort_by.simps [simp del]

lemma mset_msort_by [simp]: "mset (msort_by swap xs) = mset xs"
proof (induction swap xs rule: msort_by.induct)
  case (1 swap xs)
  let ?k = "(length xs + 1) div 2"
  have "mset (take ?k xs) + mset (drop ?k xs) = mset xs" by (simp flip: mset_append)
  with 1 show ?case by (subst msort_by.simps) simp
qed

lemma length_msort_by [simp]: "length (msort_by swap xs) = length xs"
  by (metis mset_msort_by size_mset)

lemma msort_by_two: "msort_by swap [x, y] = (if swap x y then [y, x] else [x, y])"
  by (simp add: msort_by.simps)

lemma msort_by_one: "length xs \<le> 1 \<Longrightarrow> msort_by swap xs = xs"
  by (simp add: msort_by.simps)

section \<open>Segments of an array\<close>

definition seg :: "'v list \<Rightarrow> nat \<Rightarrow> nat \<Rightarrow> 'v list" where
  "seg xs c k = drop c (take k xs)"

lemma seg_empty [simp]: "k \<le> c \<Longrightarrow> seg xs c k = []"
  by (simp add: seg_def)

lemma seg_Cons: "\<lbrakk>c < k; k \<le> length xs\<rbrakk> \<Longrightarrow> seg xs c k = xs ! c # seg xs (Suc c) k"
  using Cons_nth_drop_Suc [of c "take k xs"] by (simp add: seg_def)

lemma length_seg [simp]: "k \<le> length xs \<Longrightarrow> length (seg xs c k) = k - c"
  by (simp add: seg_def)

lemma seg_split: "\<lbrakk>s \<le> m; m \<le> k; k \<le> length xs\<rbrakk> \<Longrightarrow> take (m - s) (seg xs s k) = seg xs s m \<and> drop (m - s) (seg xs s k) = seg xs m k"
  by (simp add: seg_def take_drop add.commute min_def)

lemma seg_all: "take s xs @ seg xs s k @ drop k xs = xs" if "s \<le> k" "k \<le> length xs"
proof -
  have "take s (take k xs) @ drop s (take k xs) = take k xs" by (rule append_take_drop_id)
  then have "take s xs @ seg xs s k = take k xs" using that by (simp add: seg_def min_def)
  then show ?thesis by (metis append.assoc append_take_drop_id)
qed

text \<open>Writing one entry at the end of the part already written.\<close>

lemma written_step:
  assumes "m < k" "k \<le> length T"
  shows "take (Suc m) (T[m := v]) @ ys @ drop k (T[m := v]) = take m T @ (v # ys) @ drop k T"
  using assms by (simp add: take_Suc_conv_app_nth)

lemma merge_areas_eq:
  assumes "s2 = Suc e1" and "c1 \<le> s2" and "s2 \<le> c2" and "c2 \<le> Suc e2" and "m + s2 = c1 + c2"
    and "e2 < length L" and "e2 < length T"
  shows "merge_areas swap L e1 e2 c1 c2 m T =
    Some (take m T @ merge_by swap (seg L c1 s2) (seg L c2 (Suc e2)) @ drop (Suc e2) T)"
  using assms
proof (induction swap L e1 e2 c1 c2 m T rule: merge_areas.induct)
  case (1 swap L e1 e2 c1 c2 m T)
  note prems = "1.prems"
  show ?case
  proof (cases "m \<le> e2")
    case False
    then have "c1 = s2" "c2 = Suc e2" using prems by linarith+
    moreover have "m = Suc e2" using False prems calculation by linarith
    ultimately show ?thesis by (subst merge_areas.simps) simp
  next
    case True
    have sT: "store_at T m v = Some (T[m := v])" for v using True prems by (simp add: store_at_def)
    have w: "take (Suc m) (T[m := v]) @ ys @ drop (Suc e2) (T[m := v]) = take m T @ (v # ys) @ drop (Suc e2) T" for v ys
      using True prems by (intro written_step) auto
    consider (right) "c1 > e1" | (left) "c1 \<le> e1" "c2 > e2" | (both) "c1 \<le> e1" "c2 \<le> e2" by linarith
    then show ?thesis
    proof cases
      case right
      then have c: "c1 = s2" "c2 \<le> e2" using prems True by linarith+
      have y: "elem_at L c2 = Some (L ! c2)" using c prems by (simp add: elem_at_def)
      have "merge_areas swap L e1 e2 c1 (c2 + 1) (m + 1) (T[m := L ! c2]) = Some (take (m + 1) (T[m := L ! c2]) @
          merge_by swap (seg L c1 s2) (seg L (c2 + 1) (Suc e2)) @ drop (Suc e2) (T[m := L ! c2]))"
        using right c prems by (intro "1.IH"(1) [OF True right y sT]) auto
      then show ?thesis using True right y sT w c prems by (subst merge_areas.simps) (simp add: seg_Cons)
    next
      case left
      then have c: "c2 = Suc e2" "c1 < s2" using prems by linarith+
      have x: "elem_at L c1 = Some (L ! c1)" using left c prems by (simp add: elem_at_def)
      have n: "\<not> c1 > e1" using left by simp
      have "merge_areas swap L e1 e2 (c1 + 1) c2 (m + 1) (T[m := L ! c1]) = Some (take (m + 1) (T[m := L ! c1]) @
          merge_by swap (seg L (c1 + 1) s2) (seg L c2 (Suc e2)) @ drop (Suc e2) (T[m := L ! c1]))"
        using left c prems by (intro "1.IH"(2) [OF True n left(2) x sT]) auto
      then show ?thesis using True left x sT w c prems by (subst merge_areas.simps) (simp add: seg_Cons)
    next
      case both
      have x: "elem_at L c1 = Some (L ! c1)" and y: "elem_at L c2 = Some (L ! c2)" using both prems by (simp_all add: elem_at_def)
      have n: "\<not> c1 > e1" "\<not> c2 > e2" using both by simp_all
      have cons: "seg L c1 s2 = L ! c1 # seg L (Suc c1) s2" "seg L c2 (Suc e2) = L ! c2 # seg L (Suc c2) (Suc e2)"
        using both prems by (auto intro: seg_Cons)
      show ?thesis
      proof (cases "swap (L ! c1) (L ! c2)")
        case sw: True
        have "merge_areas swap L e1 e2 c1 (c2 + 1) (m + 1) (T[m := L ! c2]) = Some (take (m + 1) (T[m := L ! c2]) @
            merge_by swap (seg L c1 s2) (seg L (c2 + 1) (Suc e2)) @ drop (Suc e2) (T[m := L ! c2]))"
          using both prems by (intro "1.IH"(3) [OF True n x y sw sT]) auto
        then show ?thesis using True both x y sT w cons sw by (subst merge_areas.simps) simp
      next
        case sw: False
        have "merge_areas swap L e1 e2 (c1 + 1) c2 (m + 1) (T[m := L ! c1]) = Some (take (m + 1) (T[m := L ! c1]) @
            merge_by swap (seg L (c1 + 1) s2) (seg L c2 (Suc e2)) @ drop (Suc e2) (T[m := L ! c1]))"
          using both prems by (intro "1.IH"(4) [OF True n x y sw sT]) auto
        then show ?thesis using True both x y sT w cons sw by (subst merge_areas.simps) simp
      qed
    qed
  qed
qed

lemma copy_back_eq:
  assumes "c \<le> Suc e2" and "e2 < length T" and "e2 < length L"
  shows "copy_back c e2 T L = Some (take c L @ seg T c (Suc e2) @ drop (Suc e2) L)"
  using assms
proof (induction c e2 T L rule: copy_back.induct)
  case (1 c e2 T L)
  show ?case
  proof (cases "c \<le> e2")
    case True
    have x: "elem_at T c = Some (T ! c)" and s: "store_at L c (T ! c) = Some (L[c := T ! c])"
      using True "1.prems" by (simp_all add: elem_at_def store_at_def)
    have "copy_back (c + 1) e2 T (L[c := T ! c]) = Some (take (c + 1) (L[c := T ! c]) @ seg T (c + 1) (Suc e2) @ drop (Suc e2) (L[c := T ! c]))"
      using True "1.prems" by (intro "1.IH" [OF True x s]) auto
    moreover have "take (Suc c) (L[c := T ! c]) @ seg T (Suc c) (Suc e2) @ drop (Suc e2) (L[c := T ! c]) =
        take c L @ (T ! c # seg T (Suc c) (Suc e2)) @ drop (Suc e2) L"
      using True "1.prems" by (intro written_step) auto
    ultimately show ?thesis using True x s "1.prems" by (subst copy_back.simps) (simp add: seg_Cons)
  next
    case False
    then have "c = Suc e2" using "1.prems" by simp
    then show ?thesis by (subst copy_back.simps) simp
  qed
qed

section \<open>The array routine is the merge sort of lists\<close>

definition with_seg :: "'v list \<Rightarrow> nat \<Rightarrow> nat \<Rightarrow> 'v list \<Rightarrow> 'v list" where
  "with_seg xs s k ys = take s xs @ ys @ drop k xs"

lemma with_seg_facts:
  assumes "s \<le> k" "k \<le> length xs" "length ys = k - s"
  shows "length (with_seg xs s k ys) = length xs" "seg (with_seg xs s k ys) s k = ys"
    "\<And>i j. j \<le> s \<Longrightarrow> seg (with_seg xs s k ys) i j = seg xs i j"
    "\<And>i j. \<lbrakk>k \<le> i; j \<le> length xs\<rbrakk> \<Longrightarrow> seg (with_seg xs s k ys) i j = seg xs i j"
    "\<And>i. i \<le> s \<Longrightarrow> take i (with_seg xs s k ys) = take i xs" "\<And>i. k \<le> i \<Longrightarrow> drop i (with_seg xs s k ys) = drop i xs"
proof -
  have sl: "s \<le> length xs" using assms by simp
  show "length (with_seg xs s k ys) = length xs" "seg (with_seg xs s k ys) s k = ys"
    using assms sl by (simp_all add: with_seg_def seg_def)
  show tk: "take i (with_seg xs s k ys) = take i xs" if "i \<le> s" for i using that assms sl by (simp add: with_seg_def min_def)
  show dr: "drop i (with_seg xs s k ys) = drop i xs" if "k \<le> i" for i
  proof -
    have "drop i (with_seg xs s k ys) = drop (i - k) (drop k xs)" using that assms sl by (simp add: with_seg_def)
    then show ?thesis using that by simp
  qed
  show "seg (with_seg xs s k ys) i j = seg xs i j" if "j \<le> s" for i j using tk [OF that] by (simp add: seg_def)
  show "seg (with_seg xs s k ys) i j = seg xs i j" if "k \<le> i" "j \<le> length xs" for i j
    using dr [OF that(1)] by (simp add: seg_def drop_take)
qed

lemma swap_pair_eq:
  assumes "Suc s < length L"
  shows "swap_pair swap s (Suc s) L = Some (with_seg L s (Suc (Suc s)) (msort_by swap (seg L s (Suc (Suc s)))))"
proof -
  have sg: "seg L s (Suc (Suc s)) = [L ! s, L ! Suc s]" using assms by (simp add: seg_Cons)
  have L: "L = take s L @ [L ! s, L ! Suc s] @ drop (Suc (Suc s)) L"
    using seg_all [of s "Suc (Suc s)" L] assms sg by simp
  have two: "(A @ [a, b] @ D)[length A := b, Suc (length A) := a] = A @ [b, a] @ D" for A D :: "'a list" and a b
    by (simp add: list_update_append)
  have "length (take s L) = s" using assms by simp
  with two [of "take s L" "L ! s" "L ! Suc s" "drop (Suc (Suc s)) L"] L
  have "L[s := L ! Suc s, Suc s := L ! s] = take s L @ [L ! Suc s, L ! s] @ drop (Suc (Suc s)) L" by simp
  with L show ?thesis
    using assms by (simp add: swap_pair_def elem_at_def store_at_def sg msort_by_two with_seg_def)
qed

text \<open>One call of the routine, given what the recursive calls do.\<close>

definition sorts_areas :: "('v \<Rightarrow> 'v \<Rightarrow> bool) \<Rightarrow> nat \<Rightarrow> nat \<Rightarrow> nat \<Rightarrow> bool" where
  "sorts_areas swap s1 e1 e2 \<longleftrightarrow> (\<forall>L T. e2 < length L \<longrightarrow> length T = length L \<longrightarrow>
     (\<exists>T'. length T' = length L \<and> DoMergeSort swap s1 e1 (Suc e1) e2 (L, T) =
        Some (with_seg L s1 (Suc e2) (merge_by swap (msort_by swap (seg L s1 (Suc e1))) (msort_by swap (seg L (Suc e1) (Suc e2)))), T')))"

lemma sort_area:
  assumes IH: "\<And>m. \<lbrakk>s \<le> m; m < e\<rbrakk> \<Longrightarrow> sorts_areas swap s m e" and se: "s \<le> e" and L: "e < length L" "length T = length L"
  shows "\<exists>T'. length T' = length L \<and>
    (if s = e then Some (L, T)
     else if s + 1 = e then do { L1 \<leftarrow> swap_pair swap s e L; Some (L1, T) }
     else if e < s then None
     else let middle = s + (((e - s) + 1) + 1) div 2 in DoMergeSort swap s (middle - 1) middle e (L, T)) =
    Some (with_seg L s (Suc e) (msort_by swap (seg L s (Suc e))), T')"
proof -
  let ?n = "Suc e - s"
  consider (one) "s = e" | (two) "s + 1 = e" | (more) "s + 1 < e" using se by linarith
  then show ?thesis
  proof cases
    case one
    have "with_seg L s (Suc e) (msort_by swap (seg L s (Suc e))) = L"
      using one L seg_all [of s "Suc e" L] by (simp add: msort_by_one with_seg_def)
    with one L show ?thesis by auto
  next
    case two
    then show ?thesis using L swap_pair_eq [of s L swap] by auto
  next
    case more
    define mid where "mid = s + (((e - s) + 1) + 1) div 2"
    have mid: "s \<le> mid - 1" "mid - 1 < e" "Suc (mid - 1) = mid" "mid - s = (?n + 1) div 2" "mid \<le> Suc e" "s \<le> mid"
      using more by (auto simp: mid_def)
    obtain T' where T': "length T' = length L" "DoMergeSort swap s (mid - 1) mid e (L, T) =
        Some (with_seg L s (Suc e) (merge_by swap (msort_by swap (seg L s mid)) (msort_by swap (seg L mid (Suc e)))), T')"
      using IH [OF mid(1,2)] L unfolding sorts_areas_def mid(3) by blast
    have "msort_by swap (seg L s (Suc e)) = merge_by swap (msort_by swap (seg L s mid)) (msort_by swap (seg L mid (Suc e)))"
    proof -
      have "length (seg L s (Suc e)) = ?n" "\<not> ?n \<le> 1" using more L by simp_all
      then show ?thesis using seg_split [OF mid(6,5), of L] L mid(4) by (subst msort_by.simps) simp
    qed
    moreover have "(if s = e then Some (L, T)
     else if s + 1 = e then do { L1 \<leftarrow> swap_pair swap s e L; Some (L1, T) }
     else if e < s then None
     else let middle = s + (((e - s) + 1) + 1) div 2 in DoMergeSort swap s (middle - 1) middle e (L, T)) =
       DoMergeSort swap s (mid - 1) mid e (L, T)"
      unfolding mid_def using more by (simp add: Let_def)
    ultimately show ?thesis using T' by (intro exI [of _ T']) simp
  qed
qed

lemma DoMergeSort_sorts: "s1 \<le> e1 \<Longrightarrow> e1 < e2 \<Longrightarrow> sorts_areas swap s1 e1 e2"
proof (induction "e2 - s1" arbitrary: s1 e1 e2 rule: less_induct)
  case less
  note pre = less.prems
  show ?case
    unfolding sorts_areas_def
  proof (intro allI impI)
    fix L T :: "'a list" assume L: "e2 < length L" "length T = length L"
    let ?s2 = "Suc e1" and ?x = "msort_by swap (seg L s1 (Suc e1))" and ?y = "msort_by swap (seg L (Suc e1) (Suc e2))"
    have i1: "sorts_areas swap s1 m e1" if "s1 \<le> m" "m < e1" for m using less.hyps [of e1 s1 m] that pre by auto
    have i2: "sorts_areas swap ?s2 m e2" if "?s2 \<le> m" "m < e2" for m using less.hyps [of e2 ?s2 m] that pre by auto
    let ?L1 = "with_seg L s1 (Suc e1) ?x"
    have e1: "e1 < length L" using L pre by simp
    note w1 = with_seg_facts [of s1 "Suc e1" L ?x]
    have len1: "length ?L1 = length L" using w1(1) pre e1 by simp
    have same2: "seg ?L1 ?s2 (Suc e2) = seg L ?s2 (Suc e2)" using w1(4) pre e1 L by simp
    obtain T1 where T1: "length T1 = length L" "(if s1 = e1 then Some (L, T)
     else if s1 + 1 = e1 then do { L1 \<leftarrow> swap_pair swap s1 e1 L; Some (L1, T) }
     else if e1 < s1 then None
     else let middle = s1 + (((e1 - s1) + 1) + 1) div 2 in DoMergeSort swap s1 (middle - 1) middle e1 (L, T)) = Some (?L1, T1)"
      using sort_area [OF i1 pre(1) e1 L(2)] by blast
    let ?L2 = "with_seg ?L1 ?s2 (Suc e2) ?y"
    obtain T2 where T2: "length T2 = length L" "(if ?s2 = e2 then Some (?L1, T1)
     else if ?s2 + 1 = e2 then do { L1 \<leftarrow> swap_pair swap ?s2 e2 ?L1; Some (L1, T1) }
     else if e2 < ?s2 then None
     else let middle = ?s2 + (((e2 - ?s2) + 1) + 1) div 2 in DoMergeSort swap ?s2 (middle - 1) middle e2 (?L1, T1)) = Some (?L2, T2)"
      using sort_area [of ?s2 e2 swap ?L1 T1, OF i2] pre L T1(1) len1 same2 by auto
    note w2 = with_seg_facts [of ?s2 "Suc e2" ?L1 ?y]
    have len2: "length ?L2 = length L" using w2(1) pre L len1 by simp
    have sx: "seg ?L2 s1 ?s2 = ?x" using w2(3) [of "Suc e1" s1] w1(2) pre L len1 e1 by simp
    have sy: "seg ?L2 ?s2 (Suc e2) = ?y" using w2(2) pre L len1 by simp
    let ?T3 = "take s1 T2 @ merge_by swap ?x ?y @ drop (Suc e2) T2"
    have m3: "merge_areas swap ?L2 e1 e2 s1 ?s2 s1 T2 = Some ?T3"
      using merge_areas_eq [of ?s2 e1 s1 ?s2 e2 s1 ?L2 T2 swap] pre L len2 T2(1) by (simp add: sx sy)
    have t3: "seg ?T3 s1 (Suc e2) = merge_by swap ?x ?y" using pre L T2(1) by (simp add: seg_def)
    have len3: "length ?T3 = length L" using pre L T2(1) by simp
    have "copy_back s1 e2 ?T3 ?L2 = Some (take s1 ?L2 @ merge_by swap ?x ?y @ drop (Suc e2) ?L2)"
      using copy_back_eq [of s1 e2 ?T3 ?L2] pre L len2 len3 t3 by simp
    moreover have "take s1 ?L2 = take s1 L" using w2(5) [of s1] w1(5) [of s1] pre L len1 e1 by simp
    moreover have "drop (Suc e2) ?L2 = drop (Suc e2) L" using w2(6) [of "Suc e2"] w1(6) [of "Suc e2"] pre L len1 e1 by simp
    ultimately have c3: "copy_back s1 e2 ?T3 ?L2 = Some (with_seg L s1 (Suc e2) (merge_by swap ?x ?y))"
      by (simp only: with_seg_def [of L s1 "Suc e2"])
    have "DoMergeSort swap s1 e1 ?s2 e2 (L, T) = Some (with_seg L s1 (Suc e2) (merge_by swap ?x ?y), ?T3)"
      using T1(2) T2(2) m3 c3 by (subst DoMergeSort.simps) (simp only: fst_conv snd_conv Option.bind.simps prod.case)
    then show "\<exists>T'. length T' = length L \<and> DoMergeSort swap s1 e1 ?s2 e2 (L, T) =
        Some (with_seg L s1 (Suc e2) (merge_by swap ?x ?y), T')" using len3 by blast
  qed
qed

lemma MergeSort_eq:
  assumes "length tempList = length theList"
  shows "MergeSort swap (length theList) tempList theList = Some (msort_by swap theList)"
proof (cases "length theList \<le> 1")
  case True
  then show ?thesis by (simp add: MergeSort_def msort_by_one)
next
  case False
  let ?n = "length theList" and ?k = "(length theList + 1) div 2"
  have k: "Suc (?k - 1) = ?k" "?k - 1 < ?n - 1" "Suc (?n - 1) = ?n" "?n - 1 < ?n" using False by auto
  have "sorts_areas swap 0 (?k - 1) (?n - 1)" by (rule DoMergeSort_sorts) (use k in auto)
  then obtain T' where "DoMergeSort swap 0 (?k - 1) ?k (?n - 1) (theList, tempList) = Some (with_seg theList 0 ?n
      (merge_by swap (msort_by swap (seg theList 0 ?k)) (msort_by swap (seg theList ?k ?n))), T')"
    unfolding sorts_areas_def k(1,3) using k(4) assms by blast
  moreover have "msort_by swap theList = merge_by swap (msort_by swap (seg theList 0 ?k)) (msort_by swap (seg theList ?k ?n))"
    using False by (subst msort_by.simps) (simp add: seg_def)
  ultimately show ?thesis using False by (simp add: MergeSort_def Let_def with_seg_def)
qed

section \<open>Sortedness and stability\<close>

text \<open>When the comparison asks whether the first key is greater than the second.\<close>

lemma merge_by_sorted:
  fixes f :: "'v \<Rightarrow> 'k::linorder"
  assumes "sorted (map f xs)" "sorted (map f ys)"
  shows "sorted (map f (merge_by (\<lambda>x y. f y < f x) xs ys))"
  using assms
proof (induction "\<lambda>x y. f y < f x" xs ys rule: merge_by.induct)
  case (3 x xs y ys)
  then show ?case by (auto simp: not_less)
qed auto

lemma merge_by_stable:
  fixes f :: "'v \<Rightarrow> 'k::linorder"
  assumes "sorted (map f xs)" "sorted (map f ys)"
  shows "filter (\<lambda>x. k = f x) (merge_by (\<lambda>x y. f y < f x) xs ys) = filter (\<lambda>x. k = f x) xs @ filter (\<lambda>x. k = f x) ys"
  using assms
proof (induction "\<lambda>x y. f y < f x" xs ys rule: merge_by.induct)
  case (3 x xs y ys)
  show ?case
  proof (cases "f y < f x")
    case True
    then have "filter (\<lambda>z. k = f z) (x # xs) = []" if "k = f y"
      using that 3(3) by (auto simp: filter_empty_conv)
    with True 3(1) 3(3,4) show ?thesis by auto
  next
    case False
    with 3(2) 3(3,4) show ?thesis by auto
  qed
qed auto

lemma msort_by_sorted:
  fixes f :: "'v \<Rightarrow> 'k::linorder"
  shows "sorted (map f (msort_by (\<lambda>x y. f y < f x) xs)) \<and>
    filter (\<lambda>x. k = f x) (msort_by (\<lambda>x y. f y < f x) xs) = filter (\<lambda>x. k = f x) xs"
proof (induction "\<lambda>x y. f y < f x" xs rule: msort_by.induct)
  case (1 xs)
  show ?case
  proof (cases "length xs \<le> 1")
    case True
    then show ?thesis by (cases xs) (auto simp: msort_by_one)
  next
    case False
    let ?k = "(length xs + 1) div 2"
    have "filter (\<lambda>x. k = f x) (take ?k xs) @ filter (\<lambda>x. k = f x) (drop ?k xs) = filter (\<lambda>x. k = f x) xs"
      by (simp flip: filter_append)
    moreover have "msort_by (\<lambda>x y. f y < f x) xs = merge_by (\<lambda>x y. f y < f x) (msort_by (\<lambda>x y. f y < f x) (take ?k xs))
        (msort_by (\<lambda>x y. f y < f x) (drop ?k xs))" using False by (subst msort_by.simps) simp
    ultimately show ?thesis
      using 1 [OF False] merge_by_sorted [of f "msort_by (\<lambda>x y. f y < f x) (take ?k xs)" "msort_by (\<lambda>x y. f y < f x) (drop ?k xs)"]
        merge_by_stable [of f "msort_by (\<lambda>x y. f y < f x) (take ?k xs)" "msort_by (\<lambda>x y. f y < f x) (drop ?k xs)" k] by simp
  qed
qed

lemma msort_by_sort_key:
  fixes f :: "'v \<Rightarrow> 'k::linorder"
  shows "msort_by (\<lambda>x y. f y < f x) xs = sort_key f xs"
  using msort_by_sorted [of f xs] by (intro properties_for_sort_key [symmetric]) auto

text \<open>The sort function sorts the values of all its arguments together.\<close>

lemma argument_size_sum: "sum_list (map argument_size arguments) = length (concat (map argument_values arguments))"
proof (induction arguments)
  case (Cons a arguments)
  then show ?case by (cases a) auto
qed simp

lemma SortFunction_eq:
  assumes "\<And>n. length (genalloc n) = n"
  shows "SortFunction FunctionReferenceExpression genalloc functionName arguments = Some (case functionName of
     None \<Rightarrow> SortFalse
   | Some name \<Rightarrow> (case FunctionReferenceExpression name of
       None \<Rightarrow> SortTypeError ''function name, deffunction name, or defgeneric name''
     | Some (functionReference, comparison) \<Rightarrow> (case arity_error functionReference of
         Some text \<Rightarrow> SortTypeError text
       | None \<Rightarrow> SortedList (msort_by comparison (concat (map argument_values arguments))))))"
proof -
  have "(if arguments = [] then Some (SortedList []) else if length vs = 0 then Some (SortedList [])
      else do { r \<leftarrow> MergeSort cmp (length vs) (genalloc (length vs)) vs; Some (SortedList r) })
    = Some (SortedList (msort_by cmp vs))" if "arguments = [] \<Longrightarrow> vs = []" for cmp vs
    using MergeSort_eq [of "genalloc (length vs)" vs cmp] assms that by (cases "vs = []") (auto simp: msort_by_one)
  then have eq: "(if arguments = [] then Some (SortedList []) else if length (concat (map argument_values arguments)) = 0
      then Some (SortedList []) else do { r \<leftarrow> MergeSort cmp (length (concat (map argument_values arguments)))
        (genalloc (length (concat (map argument_values arguments)))) (concat (map argument_values arguments)); Some (SortedList r) })
    = Some (SortedList (msort_by cmp (concat (map argument_values arguments))))" for cmp by simp
  show ?thesis unfolding SortFunction_def argument_size_sum Let_def eq by (auto split: option.split)
qed

end
