(* ===== verification/Atom_Machine.thy ===== *)
theory Atom_Machine
  imports Symbol_Data
begin

text \<open>
  The atom tables as a state machine: every call of an operation of \<^verbatim>\<open>symbol.c\<close> that returns is a
  step.  The invariant of the tables holds in every reachable state, whatever the sequence of calls.
\<close>

inductive atom_step :: "symbolData \<Rightarrow> symbolData \<Rightarrow> bool" where
  add_symbol: "AddSymbol str ty s = Some (x, s') \<Longrightarrow> atom_step s s'"
| create_float: "CreateFloat f s = Some (x, s') \<Longrightarrow> atom_step s s'"
| create_integer: "CreateInteger n s = Some (x, s') \<Longrightarrow> atom_step s s'"
| add_bitmap: "AddBitMap b s = Some (x, s') \<Longrightarrow> atom_step s s'"
| create_address: "CreateExternalAddress a k s = Some (x, s') \<Longrightarrow> atom_step s s'"
| retain: "RetainLexeme x s = Some s' \<or> RetainFloat x s = Some s' \<or> RetainInteger x s = Some s' \<or>
    IncrementBitMapReferenceCount x s = Some s' \<or> RetainExternalAddress x s = Some s' \<Longrightarrow> atom_step s s'"
| release: "ReleaseLexeme x s = Some s' \<or> ReleaseFloat x s = Some s' \<or> ReleaseInteger x s = Some s' \<or>
    DecrementBitMapReferenceCount x s = Some s' \<or> ReleaseExternalAddress x s = Some s' \<Longrightarrow> atom_step s s'"
| ephemerate: "EphemerateValue v s = Some s' \<Longrightarrow> atom_step s s'"
| collect: "RemoveEphemeralAtoms s = Some s' \<Longrightarrow> atom_step s s'"

section \<open>The operations of one table\<close>

definition kept :: "('k \<Rightarrow> nat) \<Rightarrow> ('k \<Rightarrow> 'k \<Rightarrow> bool) \<Rightarrow> 'k atom_table \<Rightarrow> bool" where
  "kept hash eq t \<longleftrightarrow> table_ok hash eq t \<and> flagged t"

lemma symbols_ok_kept:
  "symbols_ok s \<longleftrightarrow> kept hash_lexeme lexeme_eq (SymbolTable s) \<and> kept hash_float float_eq (FloatTable s) \<and>
     kept hash_integer (=) (IntegerTable s) \<and> kept hash_bitmap bitmap_eq (BitMapTable s) \<and>
     kept hash_address address_eq (ExternalAddressTable s)"
  by (auto simp: symbols_ok_def kept_def)

lemma node_of:
  "retain_atom x t = Some t' \<Longrightarrow> \<exists>N. nodes t x = Some N"
  "release_atom x t = Some t' \<Longrightarrow> \<exists>N. nodes t x = Some N"
  "ephemerate_atom x t = Some t' \<Longrightarrow> \<exists>N. nodes t x = Some N"
  by (auto simp: retain_atom_def release_atom_def ephemerate_atom_def bind_eq_Some_conv)

lemma retain_kept: "\<lbrakk>retain_atom x t = Some t'; kept hash eq t\<rbrakk> \<Longrightarrow> kept hash eq t'"
  using node_of(1) [of x t t'] retain_atom_ok [of hash eq t x] flagged_ops(3) [of x t t'] by (fastforce simp: kept_def)

lemma release_kept:
  assumes run: "release_atom x t = Some t'" and k: "kept hash eq t"
  shows "kept hash eq t'"
proof -
  have ok: "table_ok hash eq t" "flagged t" using k by (simp_all add: kept_def)
  obtain N where N: "nodes t x = Some N" using node_of(2) [OF run] by blast
  have "0 < node_count N" using release_atom_ok(1) [OF ok(1) N] run table_okD(4) [OF ok(1) N] by auto
  then have "table_ok hash eq t'" using release_atom_ok(2) [OF ok(1) N] run by auto
  then show ?thesis using flagged_ops(4) [OF run ok(2)] by (simp add: kept_def)
qed

lemma ephemerate_kept: "\<lbrakk>ephemerate_atom x t = Some t'; kept hash eq t\<rbrakk> \<Longrightarrow> kept hash eq t'"
  using node_of(3) [of x t t'] ephemerate_atom_ok [of hash eq t x] flagged_ops(5) [of x t t'] by (fastforce simp: kept_def)

context atom_kind
begin

lemma add_kept: "\<lbrakk>add_atom (hash k) (eq k) k t = Some (x, t'); kept hash eq t\<rbrakk> \<Longrightarrow> kept hash eq t'"
  using add_ok [of t k] flagged_ops(2) [of "hash k" "eq k" k t x t'] by (auto simp: kept_def)

end

lemmas add_kept = lexeme.add_kept float.add_kept integer.add_kept bitmap.add_kept address.add_kept

section \<open>Every step keeps the invariant\<close>

lemma EphemerateValue_kept:
  "EphemerateValue v s = Some s' \<Longrightarrow> symbols_ok s \<Longrightarrow> symbols_ok s'"
  "EphemerateMultifield vs s = Some s' \<Longrightarrow> symbols_ok s \<Longrightarrow> symbols_ok s'"
  by (induction v s and vs s arbitrary: s' and s' rule: EphemerateValue_EphemerateMultifield.induct)
    (auto simp: symbols_ok_kept bind_eq_Some_conv dest: ephemerate_kept)

lemma atom_step_ok:
  assumes "atom_step s s'" and ok: "symbols_ok s"
  shows "symbols_ok s'"
  using assms(1)
proof cases
  case (add_symbol str ty x)
  then obtain w where "str = Some w" by (auto simp: AddSymbol_def bind_eq_Some_conv)
  with add_symbol ok show ?thesis by (auto simp: create_eqs symbols_ok_kept dest: add_kept)
next
  case (add_bitmap b x)
  then obtain w where "b = Some w" by (auto simp: AddBitMap_def bind_eq_Some_conv)
  with add_bitmap ok show ?thesis by (auto simp: create_eqs symbols_ok_kept dest: add_kept)
next
  case (retain x)
  then show ?thesis using ok
    by (auto simp: symbols_ok_kept RetainLexeme_def RetainFloat_def RetainInteger_def IncrementBitMapReferenceCount_def
      RetainExternalAddress_def bind_eq_Some_conv dest: retain_kept)
next
  case (release x)
  then show ?thesis using ok
    by (auto simp: symbols_ok_kept ReleaseLexeme_def ReleaseFloat_def ReleaseInteger_def DecrementBitMapReferenceCount_def
      ReleaseExternalAddress_def bind_eq_Some_conv dest: release_kept)
next
  case (ephemerate v)
  then show ?thesis using EphemerateValue_kept(1) ok by blast
next
  case collect
  then show ?thesis using RemoveEphemeralAtoms_ok [OF ok] by auto
qed (use ok in \<open>auto simp: create_eqs symbols_ok_kept dest: add_kept\<close>)

lemma reachable_atoms_ok:
  assumes "atom_step\<^sup>*\<^sup>* s s'" and "symbols_ok s"
  shows "symbols_ok s'"
  using assms by (induction rule: rtranclp_induct) (auto intro: atom_step_ok)

text \<open>The bucket of every node is an index of the array of its table.\<close>

lemma buckets_in_range:
  assumes "symbols_ok s"
  shows "nodes (SymbolTable s) x = Some N \<Longrightarrow> bucket N < 63559" "nodes (FloatTable s) x = Some M \<Longrightarrow> bucket M < 8191"
    "nodes (IntegerTable s) x = Some K \<Longrightarrow> bucket K < 8191" "nodes (BitMapTable s) x = Some B \<Longrightarrow> bucket B < 8191"
    "nodes (ExternalAddressTable s) x = Some E \<Longrightarrow> bucket E < 8191"
  using assms table_okD(3) hash_bounds unfolding symbols_ok_def by metis+

end
