(* ===== verification/Logical_Support.thy ===== *)
theory Logical_Support
  imports Clips_Env
begin

text \<open>
  Truth maintenance (\<^verbatim>\<open>lgcldpnd.c\<close>): the links between a fact or instance asserted by a rule with
  logical patterns and the partial match that supports it.  A match lists the entities that it
  supports, an entity lists the matches that support it, one cell on each side for each assertion.

  The invariant \<open>mirrored\<close> says that the two sides agree.  Under it each operation has a closed
  form: removing the links of an entity or of a match, adding a link, and withdrawing the support
  of a match, which queues the entities that have no other support.
\<close>

section \<open>Operations\<close>

fun DetachAssociatedDependencies :: "'a list \<Rightarrow> 'a \<Rightarrow> 'a list" where
  "DetachAssociatedDependencies [] theEntity = []"
| "DetachAssociatedDependencies (fdPtr # rest) theEntity =
     (if fdPtr = theEntity then DetachAssociatedDependencies rest theEntity
      else fdPtr # DetachAssociatedDependencies rest theEntity)"

text \<open>The loops over the dependency list of an entity and of a partial match.\<close>

fun detach_from_matches :: "entity_id \<Rightarrow> addr list \<Rightarrow> env \<Rightarrow> env option" where
  "detach_from_matches theEntity [] e = Some e"
| "detach_from_matches theEntity (theBinds # rest) e = do {
     e1 \<leftarrow> upd_match (Some theBinds)
       (\<lambda>pm. pm\<lparr>pm_dependents := DetachAssociatedDependencies (pm_dependents pm) theEntity\<rparr>) e;
     detach_from_matches theEntity rest e1 }"

fun detach_from_entities :: "addr \<Rightarrow> entity_id list \<Rightarrow> env \<Rightarrow> env option" where
  "detach_from_entities theBinds [] e = Some e"
| "detach_from_entities theBinds (theEntity # rest) e = do {
     e1 \<leftarrow> upd_entity theEntity
       (\<lambda>T. T\<lparr>dependents := DetachAssociatedDependencies (dependents T) theBinds\<rparr>) e;
     detach_from_entities theBinds rest e1 }"

definition RemoveEntityDependencies :: "entity_id \<Rightarrow> env \<Rightarrow> env option" where
  "RemoveEntityDependencies theEntity e = do {
     T \<leftarrow> entities e theEntity;
     e1 \<leftarrow> detach_from_matches theEntity (dependents T) e;
     upd_entity theEntity (\<lambda>T. T\<lparr>dependents := []\<rparr>) e1 }"

definition ReturnEntityDependencies :: "entity_id \<Rightarrow> env \<Rightarrow> env option" where
  "ReturnEntityDependencies theEntity = upd_entity theEntity (\<lambda>T. T\<lparr>dependents := []\<rparr>)"

definition RemovePMDependencies :: "addr \<Rightarrow> env \<Rightarrow> env option" where
  "RemovePMDependencies theBinds e = do {
     pm \<leftarrow> matches e theBinds;
     e1 \<leftarrow> detach_from_entities theBinds (pm_dependents pm) e;
     upd_match (Some theBinds) (\<lambda>pm. pm\<lparr>pm_dependents := []\<rparr>) e1 }"

definition DestroyPMDependencies :: "addr \<Rightarrow> env \<Rightarrow> env option" where
  "DestroyPMDependencies theBinds = upd_match (Some theBinds) (\<lambda>pm. pm\<lparr>pm_dependents := []\<rparr>)"

definition AddLogicalDependencies :: "entity_id \<Rightarrow> bool \<Rightarrow> env \<Rightarrow> (bool \<times> env) option" where
  "AddLogicalDependencies theEntity existingEntity e =
     (case TheLogicalJoin (engineD e) of
        None \<Rightarrow>
          if existingEntity then do { e1 \<leftarrow> RemoveEntityDependencies theEntity e; Some (True, e1) }
          else Some (True, e)
      | Some _ \<Rightarrow> do {
          T \<leftarrow> entities e theEntity;
          if existingEntity \<and> dependents T = [] then Some (True, e)
          else (case TheLogicalBind (engineD e) of
                  None \<Rightarrow> Some (False, e)
                | Some theBinds \<Rightarrow> do {
                    pm \<leftarrow> matches e theBinds;
                    if leftParent pm = None \<and> rightParent pm = None then Some (False, e)
                    else do {
                      e1 \<leftarrow> upd_match (Some theBinds) (\<lambda>pm. pm\<lparr>pm_dependents := theEntity # pm_dependents pm\<rparr>) e;
                      e2 \<leftarrow> upd_entity theEntity (\<lambda>T. T\<lparr>dependents := theBinds # dependents T\<rparr>) e1;
                      Some (True, e2) } }) })"

text \<open>The loop of \<^verbatim>\<open>RemoveLogicalSupport\<close>.\<close>

fun withdraw_support :: "addr \<Rightarrow> entity_id list \<Rightarrow> env \<Rightarrow> env option" where
  "withdraw_support theBinds [] e = Some e"
| "withdraw_support theBinds (theEntity # rest) e = do {
     e1 \<leftarrow> upd_entity theEntity
       (\<lambda>T. T\<lparr>dependents := DetachAssociatedDependencies (dependents T) theBinds\<rparr>) e;
     T \<leftarrow> entities e1 theEntity;
     e2 \<leftarrow> (if dependents T = [] then do {
               e' \<leftarrow> upd_entity theEntity (\<lambda>T. T\<lparr>busyCount := busyCount T + 1\<rparr>) e1;
               Some (set_engineD (\<lambda>d. d\<lparr>UnsupportedDataEntities := theEntity # UnsupportedDataEntities d\<rparr>) e') }
             else Some e1);
     withdraw_support theBinds rest e2 }"

definition RemoveLogicalSupport :: "addr \<Rightarrow> env \<Rightarrow> env option" where
  "RemoveLogicalSupport theBinds e = do {
     pm \<leftarrow> matches e theBinds;
     if pm_dependents pm = [] then Some e
     else do {
       e1 \<leftarrow> withdraw_support theBinds (pm_dependents pm) e;
       upd_match (Some theBinds) (\<lambda>pm. pm\<lparr>pm_dependents := []\<rparr>) e1 } }"

text \<open>The \<^verbatim>\<open>dependencies\<close> command: the matches on which an entity depends, until a halt.\<close>

definition Dependencies :: "entity_id \<Rightarrow> env \<Rightarrow> env option" where
  "Dependencies theEntity e = do {
     T \<leftarrow> entities e theEntity;
     if dependents T = [] then Some (say PrintedNone e)
     else if HaltExecution (evalD e) then Some e
     else Some (fold (\<lambda>b. say (PrintedMatch b)) (dependents T) e) }"

section \<open>Links\<close>

definition supported_by :: "env \<Rightarrow> addr \<Rightarrow> entity_id list" where
  "supported_by e b = (case matches e b of None \<Rightarrow> [] | Some pm \<Rightarrow> pm_dependents pm)"

definition support :: "env \<Rightarrow> entity_id \<Rightarrow> addr list" where
  "support e x = (case entities e x of None \<Rightarrow> [] | Some T \<Rightarrow> dependents T)"

definition mirrored :: "env \<Rightarrow> bool" where
  "mirrored e \<longleftrightarrow> (\<forall>b x. count_list (supported_by e b) x = count_list (support e x) b)"

lemma Detach_removeAll [simp]: "DetachAssociatedDependencies xs x = removeAll x xs"
  by (induction xs) auto

lemma count_removeAll: "count_list (removeAll y xs) x = (if x = y then 0 else count_list xs x)"
  by (induction xs) auto

lemma support_simps:
  "entities e x = Some T \<Longrightarrow> support e x = dependents T"
  "matches e b = Some pm \<Longrightarrow> supported_by e b = pm_dependents pm"
  by (simp_all add: support_def supported_by_def)

lemma mirrored_in: "mirrored e \<Longrightarrow> x \<in> set (supported_by e b) \<longleftrightarrow> b \<in> set (support e x)"
  unfolding mirrored_def by (metis count_list_0_iff)

lemma support_live: "b \<in> set (support e x) \<Longrightarrow> mirrored e \<Longrightarrow> matches e b \<noteq> None"
  using mirrored_in [of e x b] by (cases "matches e b") (simp_all add: supported_by_def)

lemma supported_live: "x \<in> set (supported_by e b) \<Longrightarrow> mirrored e \<Longrightarrow> entities e x \<noteq> None"
  using mirrored_in [of e x b] by (cases "entities e x") (simp_all add: support_def)

lemma mirrored_cong:
  "\<lbrakk>\<And>b. supported_by e' b = supported_by e b; \<And>x. support e' x = support e x\<rbrakk> \<Longrightarrow> mirrored e' = mirrored e"
  by (simp add: mirrored_def)

section \<open>Closed forms\<close>

definition without_entity :: "entity_id \<Rightarrow> partialMatch \<Rightarrow> partialMatch" where
  "without_entity x pm = pm\<lparr>pm_dependents := removeAll x (pm_dependents pm)\<rparr>"

definition without_match :: "addr \<Rightarrow> patternEntity \<Rightarrow> patternEntity" where
  "without_match b T = T\<lparr>dependents := removeAll b (dependents T)\<rparr>"

lemma removeAll_absent: "x \<notin> set xs \<Longrightarrow> removeAll x xs = xs"
  by (rule removeAll_id)

lemma without_idle [simp]:
  "x \<notin> set (pm_dependents pm) \<Longrightarrow> without_entity x pm = pm"
  "b \<notin> set (dependents T) \<Longrightarrow> without_match b T = T"
  by (simp_all add: without_entity_def without_match_def)

lemma without_idem [simp]:
  "without_entity x (without_entity x pm) = without_entity x pm"
  "without_match b (without_match b T) = without_match b T"
  by (simp_all add: without_entity_def without_match_def)

lemma detach_from_matches_eq:
  assumes "\<And>b. b \<in> set bs \<Longrightarrow> matches e b \<noteq> None"
  shows "detach_from_matches x bs e = Some (e\<lparr>matches :=
    (\<lambda>b. if b \<in> set bs then map_option (without_entity x) (matches e b) else matches e b)\<rparr>)"
  using assms
proof (induction bs arbitrary: e)
  case (Cons b bs)
  then obtain pm where pm: "matches e b = Some pm" by fastforce
  let ?e = "e\<lparr>matches := (matches e)(b \<mapsto> without_entity x pm)\<rparr>"
  have "detach_from_matches x (b # bs) e = detach_from_matches x bs ?e"
    using pm by (simp add: upd_env_simps without_entity_def)
  also have "\<dots> = Some (?e\<lparr>matches :=
      (\<lambda>c. if c \<in> set bs then map_option (without_entity x) (matches ?e c) else matches ?e c)\<rparr>)"
    using Cons.prems by (intro Cons.IH) auto
  also have "(\<lambda>c. if c \<in> set bs then map_option (without_entity x) (matches ?e c) else matches ?e c) =
      (\<lambda>c. if c \<in> set (b # bs) then map_option (without_entity x) (matches e c) else matches e c)"
    using pm by (auto simp: fun_eq_iff)
  finally show ?case by simp
qed simp

lemma detach_from_entities_eq:
  assumes "\<And>x. x \<in> set xs \<Longrightarrow> entities e x \<noteq> None"
  shows "detach_from_entities b xs e = Some (e\<lparr>entities :=
    (\<lambda>x. if x \<in> set xs then map_option (without_match b) (entities e x) else entities e x)\<rparr>)"
  using assms
proof (induction xs arbitrary: e)
  case (Cons x xs)
  then obtain T where T: "entities e x = Some T" by fastforce
  let ?e = "e\<lparr>entities := (entities e)(x \<mapsto> without_match b T)\<rparr>"
  have "detach_from_entities b (x # xs) e = detach_from_entities b xs ?e"
    using T by (simp add: upd_env_simps without_match_def)
  also have "\<dots> = Some (?e\<lparr>entities :=
      (\<lambda>y. if y \<in> set xs then map_option (without_match b) (entities ?e y) else entities ?e y)\<rparr>)"
    using Cons.prems by (intro Cons.IH) auto
  also have "(\<lambda>y. if y \<in> set xs then map_option (without_match b) (entities ?e y) else entities ?e y) =
      (\<lambda>y. if y \<in> set (x # xs) then map_option (without_match b) (entities e y) else entities e y)"
    using T by (auto simp: fun_eq_iff)
  finally show ?case by simp
qed simp

text \<open>Cutting every link of an entity, and every link of a match.\<close>

definition cut_entity :: "entity_id \<Rightarrow> env \<Rightarrow> env" where
  "cut_entity x e = e\<lparr>matches := (\<lambda>b. map_option (without_entity x) (matches e b)),
     entities := (entities e)(x := map_option (dependents_update (\<lambda>_. [])) (entities e x))\<rparr>"

definition cut_match :: "addr \<Rightarrow> env \<Rightarrow> env" where
  "cut_match b e = e\<lparr>entities := (\<lambda>x. map_option (without_match b) (entities e x)),
     matches := (matches e)(b := map_option (pm_dependents_update (\<lambda>_. [])) (matches e b))\<rparr>"

lemma cut_entity_matches:
  assumes "mirrored e"
  shows "(\<lambda>b. if b \<in> set (support e x) then map_option (without_entity x) (matches e b) else matches e b)
    = (\<lambda>b. map_option (without_entity x) (matches e b))"
proof
  fix b
  show "(if b \<in> set (support e x) then map_option (without_entity x) (matches e b) else matches e b)
      = map_option (without_entity x) (matches e b)"
    using mirrored_in [OF assms, of x b] by (cases "matches e b") (auto simp: supported_by_def)
qed

lemma cut_match_entities:
  assumes "mirrored e"
  shows "(\<lambda>x. if x \<in> set (supported_by e b) then map_option (without_match b) (entities e x) else entities e x)
    = (\<lambda>x. map_option (without_match b) (entities e x))"
proof
  fix x
  show "(if x \<in> set (supported_by e b) then map_option (without_match b) (entities e x) else entities e x)
      = map_option (without_match b) (entities e x)"
    using mirrored_in [OF assms, of x b] by (cases "entities e x") (auto simp: support_def)
qed

lemma RemoveEntityDependencies_eq:
  assumes m: "mirrored e" and x: "entities e x \<noteq> None"
  shows "RemoveEntityDependencies x e = Some (cut_entity x e)"
proof -
  from x obtain T where T: "entities e x = Some T" by blast
  have "detach_from_matches x (support e x) e = Some (e\<lparr>matches := (\<lambda>b. map_option (without_entity x) (matches e b))\<rparr>)"
    using detach_from_matches_eq [of "support e x" e x] support_live [OF _ m] cut_entity_matches [OF m] by simp
  then show ?thesis
    using T by (simp add: RemoveEntityDependencies_def support_simps upd_env_simps cut_entity_def)
qed

lemma RemovePMDependencies_eq:
  assumes m: "mirrored e" and b: "matches e b \<noteq> None"
  shows "RemovePMDependencies b e = Some (cut_match b e)"
proof -
  from b obtain pm where pm: "matches e b = Some pm" by blast
  have "detach_from_entities b (supported_by e b) e = Some (e\<lparr>entities := (\<lambda>x. map_option (without_match b) (entities e x))\<rparr>)"
    using detach_from_entities_eq [of "supported_by e b" e b] supported_live [OF _ m] cut_match_entities [OF m] by simp
  then show ?thesis
    using pm by (simp add: RemovePMDependencies_def support_simps upd_env_simps cut_match_def)
qed

lemma support_cut:
  "support (cut_entity x e) y = (if y = x then [] else support e y)"
  "supported_by (cut_entity x e) b = removeAll x (supported_by e b)"
  "support (cut_match b e) y = removeAll b (support e y)"
  "supported_by (cut_match b e) c = (if c = b then [] else supported_by e c)"
  by (auto simp: support_def supported_by_def cut_entity_def cut_match_def without_entity_def
      without_match_def split: option.splits)

lemma cut_mirrored: "mirrored e \<Longrightarrow> mirrored (cut_entity x e)" "mirrored e \<Longrightarrow> mirrored (cut_match b e)"
  by (auto simp: mirrored_def support_cut count_removeAll)

section \<open>Withdrawing the support of a match\<close>

text \<open>An entity loses its support with the match \<open>b\<close> when it has no other.\<close>

definition only_support :: "addr \<Rightarrow> env \<Rightarrow> entity_id \<Rightarrow> bool" where
  "only_support b e x \<longleftrightarrow> set (support e x) \<subseteq> {b}"

definition withdrawn :: "addr \<Rightarrow> nat \<Rightarrow> patternEntity \<Rightarrow> patternEntity" where
  "withdrawn b n T = (without_match b T)\<lparr>busyCount := busyCount T + (if set (dependents T) \<subseteq> {b} then int n else 0)\<rparr>"

definition enqueue_unsupported :: "entity_id list \<Rightarrow> env \<Rightarrow> env" where
  "enqueue_unsupported xs = set_engineD (\<lambda>d. d\<lparr>UnsupportedDataEntities := rev xs @ UnsupportedDataEntities d\<rparr>)"

lemma removeAll_Nil_iff: "removeAll b xs = [] \<longleftrightarrow> set xs \<subseteq> {b}"
  by (induction xs) auto

lemma withdrawn_0: "b \<notin> set (dependents T) \<Longrightarrow> withdrawn b 0 T = T"
  by (simp add: withdrawn_def)

lemma withdrawn_Suc: "withdrawn b n (withdrawn b (Suc 0) T) = withdrawn b (Suc n) T"
  by (auto simp: withdrawn_def without_match_def)

lemma withdraw_step:
  assumes T: "entities e x = Some T"
  shows "withdraw_support b (x # xs) e = withdraw_support b xs
    (enqueue_unsupported (if only_support b e x then [x] else []) (e\<lparr>entities := (entities e)(x \<mapsto> withdrawn b 1 T)\<rparr>))"
  using T by (auto simp: upd_env_simps withdrawn_def without_match_def only_support_def support_simps
      removeAll_Nil_iff enqueue_unsupported_def set_engineD_def)

lemma withdraw_support_eq:
  assumes "\<And>x. x \<in> set xs \<Longrightarrow> entities e x \<noteq> None"
  shows "withdraw_support b xs e = Some (enqueue_unsupported (filter (only_support b e) xs) (e\<lparr>entities :=
    (\<lambda>x. if x \<in> set xs then map_option (withdrawn b (count_list xs x)) (entities e x) else entities e x)\<rparr>))"
  using assms
proof (induction xs arbitrary: e)
  case (Cons x xs)
  then obtain T where T: "entities e x = Some T" by fastforce
  define e1 where "e1 = enqueue_unsupported (if only_support b e x then [x] else [])
    (e\<lparr>entities := (entities e)(x \<mapsto> withdrawn b 1 T)\<rparr>)"
  have ent: "entities e1 = (entities e)(x \<mapsto> withdrawn b 1 T)"
    by (simp add: e1_def enqueue_unsupported_def set_engineD_def)
  have only: "only_support b e1 = only_support b e"
    using T by (auto simp: fun_eq_iff only_support_def support_def ent withdrawn_def without_match_def)
  have fin: "(\<lambda>y. if y \<in> set xs then map_option (withdrawn b (count_list xs y)) (entities e1 y) else entities e1 y)
      = (\<lambda>y. if y \<in> set (x # xs) then map_option (withdrawn b (count_list (x # xs) y)) (entities e y) else entities e y)"
    using T by (auto simp: fun_eq_iff ent withdrawn_Suc count_list_0_iff [THEN iffD2])
  have "withdraw_support b (x # xs) e = withdraw_support b xs e1"
    by (simp only: withdraw_step [OF T] e1_def)
  also have "\<dots> = Some (enqueue_unsupported (filter (only_support b e1) xs) (e1\<lparr>entities :=
    (\<lambda>x. if x \<in> set xs then map_option (withdrawn b (count_list xs x)) (entities e1 x) else entities e1 x)\<rparr>))"
    using Cons.prems by (intro Cons.IH) (auto simp: ent)
  also have "\<dots> = Some (enqueue_unsupported (filter (only_support b e) (x # xs)) (e\<lparr>entities :=
    (\<lambda>y. if y \<in> set (x # xs) then map_option (withdrawn b (count_list (x # xs) y)) (entities e y) else entities e y)\<rparr>))"
    unfolding fin only by (simp add: e1_def enqueue_unsupported_def set_engineD_def)
  finally show ?case .
qed (simp add: enqueue_unsupported_def set_engineD_def)

definition drop_match :: "addr \<Rightarrow> env \<Rightarrow> env" where
  "drop_match b e = enqueue_unsupported (filter (only_support b e) (supported_by e b)) (e\<lparr>
     entities := (\<lambda>x. map_option (withdrawn b (count_list (supported_by e b) x)) (entities e x)),
     matches := (matches e)(b := map_option (pm_dependents_update (\<lambda>_. [])) (matches e b))\<rparr>)"

lemma drop_match_entities:
  assumes "mirrored e"
  shows "(\<lambda>x. if x \<in> set (supported_by e b) then map_option (withdrawn b (count_list (supported_by e b) x)) (entities e x)
      else entities e x) = (\<lambda>x. map_option (withdrawn b (count_list (supported_by e b) x)) (entities e x))"
proof
  fix x
  show "(if x \<in> set (supported_by e b) then map_option (withdrawn b (count_list (supported_by e b) x)) (entities e x)
      else entities e x) = map_option (withdrawn b (count_list (supported_by e b) x)) (entities e x)"
    using mirrored_in [OF assms, of x b]
    by (cases "entities e x") (auto simp: support_def withdrawn_0)
qed

lemma RemoveLogicalSupport_eq:
  assumes m: "mirrored e" and b: "matches e b \<noteq> None"
  shows "RemoveLogicalSupport b e = Some (drop_match b e)"
proof -
  from b obtain pm where pm: "matches e b = Some pm" by blast
  have "withdraw_support b (supported_by e b) e = Some (enqueue_unsupported (filter (only_support b e) (supported_by e b))
      (e\<lparr>entities := (\<lambda>x. map_option (withdrawn b (count_list (supported_by e b) x)) (entities e x))\<rparr>))"
    using withdraw_support_eq [of "supported_by e b" e b] supported_live [OF _ m] drop_match_entities [OF m] by simp
  moreover have "drop_match b e = e" if "pm_dependents pm = []"
  proof -
    have "pm\<lparr>pm_dependents := []\<rparr> = pm" using that by (cases pm) simp
    then have "(matches e)(b := map_option (pm_dependents_update (\<lambda>_. [])) (matches e b)) = matches e"
      using pm by (simp add: fun_upd_idem)
    moreover have "(\<lambda>x. map_option (withdrawn b (count_list (supported_by e b) x)) (entities e x)) = entities e"
      unfolding drop_match_entities [OF m, of b, symmetric] using that pm by (simp add: support_simps)
    ultimately show ?thesis using that pm
      by (simp add: drop_match_def support_simps enqueue_unsupported_def set_engineD_def)
  qed
  ultimately show ?thesis using pm
    by (simp add: RemoveLogicalSupport_def support_simps upd_env_simps drop_match_def enqueue_unsupported_def set_engineD_def)
qed

lemma support_drop:
  "support (drop_match b e) x = removeAll b (support e x)"
  "supported_by (drop_match b e) c = (if c = b then [] else supported_by e c)"
proof -
  show "support (drop_match b e) x = removeAll b (support e x)"
    by (cases "entities e x")
      (simp_all add: support_def drop_match_def enqueue_unsupported_def set_engineD_def withdrawn_def without_match_def)
  show "supported_by (drop_match b e) c = (if c = b then [] else supported_by e c)"
    by (cases "matches e c") (auto simp: supported_by_def drop_match_def enqueue_unsupported_def set_engineD_def)
qed

lemma drop_mirrored: "mirrored e \<Longrightarrow> mirrored (drop_match b e)"
  by (auto simp: mirrored_def support_drop count_removeAll)

section \<open>Adding a link\<close>

definition add_link :: "addr \<Rightarrow> entity_id \<Rightarrow> env \<Rightarrow> env" where
  "add_link b x e = e\<lparr>
     matches := (matches e)(b := map_option (\<lambda>pm. pm\<lparr>pm_dependents := x # pm_dependents pm\<rparr>) (matches e b)),
     entities := (entities e)(x := map_option (\<lambda>T. T\<lparr>dependents := b # dependents T\<rparr>) (entities e x))\<rparr>"

text \<open>A match with no parents has been deleted by an earlier action of the rule.\<close>

definition deleted_match :: "env \<Rightarrow> addr \<Rightarrow> bool" where
  "deleted_match e b \<longleftrightarrow> (\<forall>pm. matches e b = Some pm \<longrightarrow> leftParent pm = None \<and> rightParent pm = None)"

definition logical_assertion :: "entity_id \<Rightarrow> bool \<Rightarrow> env \<Rightarrow> bool \<times> env" where
  "logical_assertion x existing e = (case TheLogicalJoin (engineD e) of
       None \<Rightarrow> (True, if existing then cut_entity x e else e)
     | Some _ \<Rightarrow>
         if existing \<and> support e x = [] then (True, e)
         else (case TheLogicalBind (engineD e) of None \<Rightarrow> (False, e)
               | Some b \<Rightarrow> if deleted_match e b then (False, e) else (True, add_link b x e)))"

lemma support_add_link:
  "\<lbrakk>matches e b \<noteq> None; entities e x \<noteq> None\<rbrakk> \<Longrightarrow> support (add_link b x e) y = (if y = x then b # support e x else support e y)"
  "\<lbrakk>matches e b \<noteq> None; entities e x \<noteq> None\<rbrakk> \<Longrightarrow> supported_by (add_link b x e) c = (if c = b then x # supported_by e b else supported_by e c)"
  by (auto simp: support_def supported_by_def add_link_def)

lemma add_link_mirrored:
  "\<lbrakk>mirrored e; matches e b \<noteq> None; entities e x \<noteq> None\<rbrakk> \<Longrightarrow> mirrored (add_link b x e)"
  by (auto simp: mirrored_def support_add_link)

lemma AddLogicalDependencies_eq:
  assumes m: "mirrored e" and x: "entities e x \<noteq> None"
    and b: "\<And>b. TheLogicalBind (engineD e) = Some b \<Longrightarrow> matches e b \<noteq> None"
  shows "AddLogicalDependencies x existing e = Some (logical_assertion x existing e)"
proof (cases "TheLogicalJoin (engineD e)")
  case None
  then show ?thesis
    by (simp add: AddLogicalDependencies_def logical_assertion_def RemoveEntityDependencies_eq [OF m x])
next
  case (Some j)
  from x obtain T where T: "entities e x = Some T" by blast
  show ?thesis
  proof (cases "TheLogicalBind (engineD e)")
    case None
    with Some T show ?thesis
      by (simp add: AddLogicalDependencies_def logical_assertion_def support_simps)
  next
    case (Some b')
    with b obtain pm where pm: "matches e b' = Some pm" by blast
    with Some \<open>TheLogicalJoin (engineD e) = Some j\<close> T show ?thesis
      by (simp add: AddLogicalDependencies_def logical_assertion_def support_simps upd_env_simps add_link_def deleted_match_def)
  qed
qed

lemma logical_assertion_mirrored:
  assumes "mirrored e" and "entities e x \<noteq> None"
  shows "mirrored (snd (logical_assertion x existing e))"
  using assms
  by (auto simp: logical_assertion_def cut_mirrored add_link_mirrored deleted_match_def split: option.splits)

section \<open>The links as a graph\<close>

text \<open>The abstract view: how many links join a match and an entity.\<close>

definition graph :: "env \<Rightarrow> addr \<Rightarrow> entity_id \<Rightarrow> nat" where
  "graph e b x = count_list (supported_by e b) x"

lemma graph_support: "mirrored e \<Longrightarrow> graph e b x = count_list (support e x) b"
  by (simp add: graph_def mirrored_def)

lemma graph_cut_entity: "graph (cut_entity x e) = (\<lambda>b y. if y = x then 0 else graph e b y)"
  by (simp add: graph_def fun_eq_iff support_cut count_removeAll)

lemma graph_cut_match: "graph (cut_match b e) = (graph e)(b := \<lambda>_. 0)"
  by (simp add: graph_def fun_eq_iff support_cut)

lemma graph_drop_match: "graph (drop_match b e) = (graph e)(b := \<lambda>_. 0)"
  by (simp add: graph_def fun_eq_iff support_drop)

lemma graph_add_link:
  "\<lbrakk>matches e b \<noteq> None; entities e x \<noteq> None\<rbrakk> \<Longrightarrow> graph (add_link b x e) = (graph e)(b := (graph e b)(x := Suc (graph e b x)))"
  by (auto simp: graph_def fun_eq_iff support_add_link)

lemma only_support_graph:
  "mirrored e \<Longrightarrow> only_support b e x \<longleftrightarrow> (\<forall>c. c \<noteq> b \<longrightarrow> graph e c x = 0)"
  by (auto simp: graph_support only_support_def count_list_0_iff)

text \<open>What withdrawing the support of a match does to the queue and to the reference counts.\<close>

lemma drop_match_queue:
  "UnsupportedDataEntities (engineD (drop_match b e)) =
     rev (filter (only_support b e) (supported_by e b)) @ UnsupportedDataEntities (engineD e)"
  by (simp add: drop_match_def enqueue_unsupported_def set_engineD_def)

lemma drop_match_busy:
  "entities e x = Some T \<Longrightarrow> map_option busyCount (entities (drop_match b e) x) =
     Some (busyCount T + (if only_support b e x then int (graph e b x) else 0))"
  by (simp add: drop_match_def enqueue_unsupported_def set_engineD_def withdrawn_def only_support_def support_simps graph_def)

end
