(* ===== verification/Fact_Hash.thy ===== *)
theory Fact_Hash
  imports Logical_Support
begin

text \<open>
  The hash table of facts (\<^verbatim>\<open>facthsh.c\<close>), with the hash value and the equality of multifields of
  \<^verbatim>\<open>multifld.c\<close>.  The table decides whether a fact to be asserted exists already; it grows when it
  holds more facts than it has chains and is replaced by one of the initial size when the last fact
  leaves it.

  \<open>None\<close> is an access to freed memory, or a multifield expected where there is another value.
\<close>

section \<open>Multifields\<close>

fun hash_value :: "env \<Rightarrow> u64 \<Rightarrow> u64 \<Rightarrow> atom_value \<Rightarrow> u64 option"
  and hash_fields :: "env \<Rightarrow> u64 \<Rightarrow> u64 \<Rightarrow> atom_value list \<Rightarrow> u64 option" where
  "hash_value e theRange i (MultifieldAtom vs) = hash_fields e theRange 0 vs"
| "hash_value e theRange i (FloatAtom a) = do {
     n \<leftarrow> nodes (FloatTable (symbolD e)) a;
     Some (contents n * (i + 29) + toUnsignedLong e (contents n)) }"
| "hash_value e theRange i (IntegerAtom a) = do {
     n \<leftarrow> nodes (IntegerTable (symbolD e)) a;
     Some (contents n * (i + 29) + contents n) }"
| "hash_value e theRange i (FactAddressAtom a) = Some (of_nat a * (i + 29))"
| "hash_value e theRange i (InstanceAddressAtom a) = Some (of_nat a * (i + 29))"
| "hash_value e theRange i (ExternalAddressAtom a) = do {
     n \<leftarrow> nodes (ExternalAddressTable (symbolD e)) a;
     Some (ea_contents (contents n) * (i + 29)) }"
| "hash_value e theRange i (LexemeAtom a) = do {
     n \<leftarrow> nodes (SymbolTable (symbolD e)) a;
     Some (HashSymbol (lex_string (contents n)) theRange * (i + 29)) }"
| "hash_value e theRange i VoidAtom = Some 0"
| "hash_fields e theRange i [] = Some 0"
| "hash_fields e theRange i (v # vs) = do {
     h \<leftarrow> hash_value e theRange i v;
     r \<leftarrow> hash_fields e theRange (i + 1) vs;
     Some (h + r) }"

definition HashMultifield :: "atom_value list \<Rightarrow> u64 \<Rightarrow> env \<Rightarrow> u64 option" where
  "HashMultifield theSegment theRange e = hash_fields e theRange 0 theSegment"

text \<open>The comparison of two segments of the same length, field by field.\<close>

fun fields_equal :: "atom_value list \<Rightarrow> atom_value list \<Rightarrow> bool option" where
  "fields_equal (MultifieldAtom xs # vs) (w # ws) = (case w of
     MultifieldAtom ys \<Rightarrow>
       if length xs \<noteq> length ys then Some False
       else do { r \<leftarrow> fields_equal xs ys; if r then fields_equal vs ws else Some False }
   | _ \<Rightarrow> None)"
| "fields_equal (v # vs) (w # ws) = (if v \<noteq> w then Some False else fields_equal vs ws)"
| "fields_equal _ _ = Some True"

definition MultifieldsEqual :: "atom_value list \<Rightarrow> atom_value list \<Rightarrow> bool option" where
  "MultifieldsEqual segment1 segment2 =
     (if length segment1 \<noteq> length segment2 then Some False else fields_equal segment1 segment2)"

section \<open>The table\<close>

definition SIZE_FACT_HASH :: u64 where "SIZE_FACT_HASH = 16231"

text \<open>
  The bucket of a symbol is a bit field of 29 bits, so it is multiplied as an \<^verbatim>\<open>int\<close>; the product
  is taken modulo 2^32 and sign-extended.
\<close>

definition template_hash :: "nat \<Rightarrow> u64" where
  "template_hash b = scast (of_nat b * 73981 :: 32 word)"

definition fact_hash :: "env \<Rightarrow> fact \<Rightarrow> u64 option" where
  "fact_hash e F = do {
     D \<leftarrow> deftemplates e (whichDeftemplate F);
     n \<leftarrow> nodes (SymbolTable (symbolD e)) (template_name D);
     h \<leftarrow> HashMultifield (theProposition F) 0 e;
     Some (template_hash (bucket n) + h) }"

definition HashFact :: "addr \<Rightarrow> env \<Rightarrow> (u64 \<times> env) option" where
  "HashFact theFact e = do {
     F \<leftarrow> facts e theFact;
     count \<leftarrow> fact_hash e F;
     e1 \<leftarrow> upd_fact (Some theFact) (\<lambda>F. F\<lparr>hashValue := count\<rparr>) e;
     Some (count, e1) }"

fun search_facts :: "env \<Rightarrow> fact \<Rightarrow> addr list \<Rightarrow> ptr option" where
  "search_facts e F [] = Some None"
| "search_facts e F (y # ys) = do {
     G \<leftarrow> facts e y;
     if hashValue F \<noteq> hashValue G then search_facts e F ys
     else do {
       same \<leftarrow> (if whichDeftemplate F = whichDeftemplate G
                then MultifieldsEqual (theProposition F) (theProposition G) else Some False);
       if same then Some (Some y) else search_facts e F ys } }"

definition chain_at :: "env \<Rightarrow> u64 \<Rightarrow> nat" where
  "chain_at e hv = unat (hv mod FactHashTableSize (factD e))"

definition FactExists :: "addr \<Rightarrow> u64 \<Rightarrow> env \<Rightarrow> ptr option" where
  "FactExists theFact hv e = do {
     F \<leftarrow> facts e theFact;
     search_facts e F (FactHashTable (factD e) (chain_at e hv)) }"

definition CreateFactHashTable :: "u64 \<Rightarrow> nat \<Rightarrow> addr list" where
  "CreateFactHashTable tableSize = (\<lambda>_. [])"

fun rehash :: "env \<Rightarrow> u64 \<Rightarrow> addr list \<Rightarrow> (nat \<Rightarrow> addr list) \<Rightarrow> (nat \<Rightarrow> addr list) option" where
  "rehash e newSize [] newTable = Some newTable"
| "rehash e newSize (theEntry # rest) newTable = do {
     G \<leftarrow> facts e theEntry;
     let newLocation = unat (hashValue G mod newSize);
     rehash e newSize rest (newTable(newLocation := theEntry # newTable newLocation)) }"

definition table_entries :: "env \<Rightarrow> addr list" where
  "table_entries e = concat (map (FactHashTable (factD e)) [0..<unat (FactHashTableSize (factD e))])"

definition ResizeFactHashTable :: "env \<Rightarrow> env option" where
  "ResizeFactHashTable e = do {
     let newSize = FactHashTableSize (factD e) * 2 + 1;
     newTable \<leftarrow> rehash e newSize (table_entries e) (CreateFactHashTable newSize);
     Some (set_factD (\<lambda>d. d\<lparr>FactHashTable := newTable, FactHashTableSize := newSize\<rparr>) e) }"

definition ResetFactHashTable :: "env \<Rightarrow> env" where
  "ResetFactHashTable e =
     (if FactHashTableSize (factD e) = SIZE_FACT_HASH then e
      else set_factD (\<lambda>d. d\<lparr>FactHashTable := CreateFactHashTable SIZE_FACT_HASH, FactHashTableSize := SIZE_FACT_HASH\<rparr>) e)"

definition InitializeFactHashTable :: "env \<Rightarrow> env" where
  "InitializeFactHashTable =
     set_factD (\<lambda>d. d\<lparr>FactHashTable := CreateFactHashTable SIZE_FACT_HASH, FactHashTableSize := SIZE_FACT_HASH\<rparr>)"

definition AddHashedFact :: "addr \<Rightarrow> u64 \<Rightarrow> env \<Rightarrow> env option" where
  "AddHashedFact theFact hv e = do {
     e1 \<leftarrow> (if numberOfFacts e > FactHashTableSize (factD e) then ResizeFactHashTable e else Some e);
     let i = chain_at e1 hv;
     Some (set_factD (\<lambda>d. d\<lparr>FactHashTable := (FactHashTable d)(i := theFact # FactHashTable d i)\<rparr>) e1) }"

definition RemoveHashedFact :: "addr \<Rightarrow> env \<Rightarrow> (bool \<times> env) option" where
  "RemoveHashedFact theFact e = do {
     (hv, e1) \<leftarrow> HashFact theFact e;
     let i = chain_at e1 hv;
     let chain = FactHashTable (factD e1) i;
     if theFact \<in> set chain then do {
       let e2 = set_factD (\<lambda>d. d\<lparr>FactHashTable := (FactHashTable d)(i := remove1 theFact chain)\<rparr>) e1;
       Some (True, if numberOfFacts e2 = 1 then ResetFactHashTable e2 else e2) }
     else Some (False, e1) }"

definition FactWillBeAsserted :: "addr \<Rightarrow> env \<Rightarrow> (bool \<times> env) option" where
  "FactWillBeAsserted theFact e =
     (if FactDuplication (factD e) then Some (True, e)
      else do {
        (hv, e1) \<leftarrow> HashFact theFact e;
        tempPtr \<leftarrow> FactExists theFact hv e1;
        Some (tempPtr = None, e1) })"

definition GetFactDuplication :: "env \<Rightarrow> bool" where
  "GetFactDuplication e = FactDuplication (factD e)"

definition SetFactDuplication :: "bool \<Rightarrow> env \<Rightarrow> bool \<times> env" where
  "SetFactDuplication value e = (FactDuplication (factD e), set_factD (\<lambda>d. d\<lparr>FactDuplication := value\<rparr>) e)"

section \<open>Freeing a fact\<close>

definition ReturnFact :: "addr \<Rightarrow> env \<Rightarrow> env option" where
  "ReturnFact theFact e = do {
     F \<leftarrow> facts e theFact;
     Some (e\<lparr>facts := (facts e)(theFact := None), entities := (entities e)(theFact := None)\<rparr>) }"

definition AddToGarbageFactList :: "addr \<Rightarrow> env \<Rightarrow> env option" where
  "AddToGarbageFactList theFact e = do {
     e1 \<leftarrow> upd_fact (Some theFact) (\<lambda>F. F\<lparr>fact_garbage := True, nextFact := GarbageFacts (garbageF e)\<rparr>) e;
     Some (set_garbageF (\<lambda>g. g\<lparr>GarbageFacts := Some theFact, frame_changed := True,
       LastGarbageFact := (if LastGarbageFact g = None then Some theFact else LastGarbageFact g)\<rparr>) e1) }"

definition HandleFactDuplication :: "addr \<Rightarrow> int \<Rightarrow> env \<Rightarrow> (u64 \<times> ptr \<times> env) option" where
  "HandleFactDuplication theFact reuseIndex e = do {
     (hv, e1) \<leftarrow> HashFact theFact e;
     if FactDuplication (factD e1) then Some (hv, None, e1)
     else do {
       duplicate \<leftarrow> FactExists theFact hv e1;
       (case duplicate of
          None \<Rightarrow> Some (hv, None, e1)
        | Some y \<Rightarrow> do {
            e2 \<leftarrow> (if reuseIndex = 0 then ReturnFact theFact e1 else AddToGarbageFactList theFact e1);
            (_, e3) \<leftarrow> AddLogicalDependencies y True e2;
            Some (0, Some y, e3) }) } }"

end
