(* ===== verification/Fact_Base.thy ===== *)
theory Fact_Base
  imports Fact_Hash Engine
begin

text \<open>
  The fact manager (\<^verbatim>\<open>factmngr.c\<close>): asserting, retracting and modifying facts, the list of all
  facts and the list of the facts of a template, and the retraction of the facts that lost their
  logical support (\<^verbatim>\<open>ForceLogicalRetractions\<close> of \<^verbatim>\<open>lgcldpnd.c\<close>, which calls the driver of
  retraction and is called by it).

  The pattern and join networks, constraint checking and the rest of garbage collection are not
  modelled: they are the fields of the parameter \<open>network\<close>.  A function registered for assertions,
  retractions or modifications is recorded as a message when it is called.  \<open>None\<close> is an access to
  freed memory or a call of \<^verbatim>\<open>ExitRouter\<close>.
\<close>

record network =
  net_retract :: "addr \<Rightarrow> env \<Rightarrow> env option"
  net_match :: "addr \<Rightarrow> env \<Rightarrow> env option"
  net_flush :: "env \<Rightarrow> env option"
  net_check :: "addr \<Rightarrow> env \<Rightarrow> env option"
  net_clean :: "env \<Rightarrow> env option"

section \<open>Reference counts\<close>

fun AtomInstall :: "atom_value \<Rightarrow> env \<Rightarrow> env option"
  and RetainMultifield :: "atom_value list \<Rightarrow> env \<Rightarrow> env option" where
  "AtomInstall (LexemeAtom a) e = do { s \<leftarrow> RetainLexeme a (symbolD e); Some (e\<lparr>symbolD := s\<rparr>) }"
| "AtomInstall (FloatAtom a) e = do { s \<leftarrow> RetainFloat a (symbolD e); Some (e\<lparr>symbolD := s\<rparr>) }"
| "AtomInstall (IntegerAtom a) e = do { s \<leftarrow> RetainInteger a (symbolD e); Some (e\<lparr>symbolD := s\<rparr>) }"
| "AtomInstall (ExternalAddressAtom a) e = do { s \<leftarrow> RetainExternalAddress a (symbolD e); Some (e\<lparr>symbolD := s\<rparr>) }"
| "AtomInstall (FactAddressAtom a) e = upd_entity a (\<lambda>T. T\<lparr>busyCount := busyCount T + 1\<rparr>) e"
| "AtomInstall (InstanceAddressAtom a) e = upd_entity a (\<lambda>T. T\<lparr>busyCount := busyCount T + 1\<rparr>) e"
| "AtomInstall (MultifieldAtom vs) e = RetainMultifield vs e"
| "AtomInstall VoidAtom e = Some e"
| "RetainMultifield [] e = Some e"
| "RetainMultifield (v # vs) e = do { e1 \<leftarrow> AtomInstall v e; RetainMultifield vs e1 }"

fun AtomDeinstall :: "atom_value \<Rightarrow> env \<Rightarrow> env option"
  and ReleaseMultifield :: "atom_value list \<Rightarrow> env \<Rightarrow> env option" where
  "AtomDeinstall (LexemeAtom a) e = do { s \<leftarrow> ReleaseLexeme a (symbolD e); Some (e\<lparr>symbolD := s\<rparr>) }"
| "AtomDeinstall (FloatAtom a) e = do { s \<leftarrow> ReleaseFloat a (symbolD e); Some (e\<lparr>symbolD := s\<rparr>) }"
| "AtomDeinstall (IntegerAtom a) e = do { s \<leftarrow> ReleaseInteger a (symbolD e); Some (e\<lparr>symbolD := s\<rparr>) }"
| "AtomDeinstall (ExternalAddressAtom a) e = do { s \<leftarrow> ReleaseExternalAddress a (symbolD e); Some (e\<lparr>symbolD := s\<rparr>) }"
| "AtomDeinstall (FactAddressAtom a) e = upd_entity a (\<lambda>T. T\<lparr>busyCount := busyCount T - 1\<rparr>) e"
| "AtomDeinstall (InstanceAddressAtom a) e = upd_entity a (\<lambda>T. T\<lparr>busyCount := busyCount T - 1\<rparr>) e"
| "AtomDeinstall (MultifieldAtom vs) e = ReleaseMultifield vs e"
| "AtomDeinstall VoidAtom e = Some e"
| "ReleaseMultifield [] e = Some e"
| "ReleaseMultifield (v # vs) e = do { e1 \<leftarrow> AtomDeinstall v e; ReleaseMultifield vs e1 }"

definition FactInstall :: "addr \<Rightarrow> env \<Rightarrow> env option" where
  "FactInstall newFact e = do {
     F \<leftarrow> facts e newFact;
     e1 \<leftarrow> upd_template (whichDeftemplate F) (\<lambda>D. D\<lparr>template_busyCount := template_busyCount D + 1\<rparr>)
       (e\<lparr>numberOfFacts := numberOfFacts e + 1\<rparr>);
     upd_entity newFact (\<lambda>T. T\<lparr>busyCount := busyCount T + 1\<rparr>) e1 }"

definition FactDeinstall :: "addr \<Rightarrow> env \<Rightarrow> env option" where
  "FactDeinstall newFact e = do {
     F \<leftarrow> facts e newFact;
     e1 \<leftarrow> upd_template (whichDeftemplate F) (\<lambda>D. D\<lparr>template_busyCount := template_busyCount D - 1\<rparr>)
       (e\<lparr>numberOfFacts := numberOfFacts e - 1\<rparr>);
     upd_entity newFact (\<lambda>T. T\<lparr>busyCount := busyCount T - 1\<rparr>) e1 }"

definition RetainFact :: "ptr \<Rightarrow> env \<Rightarrow> env option" where
  "RetainFact factPtr e = (case factPtr of None \<Rightarrow> Some e
     | Some a \<Rightarrow> upd_entity a (\<lambda>T. T\<lparr>busyCount := busyCount T + 1\<rparr>) e)"

definition ReleaseFact :: "ptr \<Rightarrow> env \<Rightarrow> env option" where
  "ReleaseFact factPtr e = (case factPtr of None \<Rightarrow> Some e
     | Some a \<Rightarrow> upd_entity a (\<lambda>T. T\<lparr>busyCount := busyCount T - 1\<rparr>) e)"

section \<open>The two lists of facts\<close>

definition unlink_from_template :: "addr \<Rightarrow> env \<Rightarrow> env option" where
  "unlink_from_template theFact e = do {
     F \<leftarrow> facts e theFact;
     let t = whichDeftemplate F;
     D \<leftarrow> deftemplates e t;
     e1 \<leftarrow> (if template_lastFact D = Some theFact
            then upd_template t (\<lambda>D. D\<lparr>template_lastFact := previousTemplateFact F\<rparr>) e else Some e);
     if previousTemplateFact F = None then do {
       H \<leftarrow> deref (facts e1) (template_factList D);
       e2 \<leftarrow> upd_template t (\<lambda>D. D\<lparr>template_factList := nextTemplateFact H\<rparr>) e1;
       upd_fact_if (nextTemplateFact H) (\<lambda>G. G\<lparr>previousTemplateFact := None\<rparr>) e2 }
     else do {
       e2 \<leftarrow> upd_fact (previousTemplateFact F) (\<lambda>G. G\<lparr>nextTemplateFact := nextTemplateFact F\<rparr>) e1;
       F2 \<leftarrow> facts e2 theFact;
       upd_fact_if (nextTemplateFact F2) (\<lambda>G. G\<lparr>previousTemplateFact := previousTemplateFact F2\<rparr>) e2 } }"

definition unlink_from_facts :: "addr \<Rightarrow> env \<Rightarrow> env option" where
  "unlink_from_facts theFact e = do {
     F \<leftarrow> facts e theFact;
     let e1 = (if LastFact (factD e) = Some theFact
               then set_factD (\<lambda>d. d\<lparr>LastFact := previousFact F\<rparr>) e else e);
     if previousFact F = None then do {
       H \<leftarrow> deref (facts e1) (FactList (factD e1));
       let e2 = set_factD (\<lambda>d. d\<lparr>FactList := nextFact H\<rparr>) e1;
       upd_fact_if (nextFact H) (\<lambda>G. G\<lparr>previousFact := None\<rparr>) e2 }
     else do {
       e2 \<leftarrow> upd_fact (previousFact F) (\<lambda>G. G\<lparr>nextFact := nextFact F\<rparr>) e1;
       F2 \<leftarrow> facts e2 theFact;
       upd_fact_if (nextFact F2) (\<lambda>G. G\<lparr>previousFact := previousFact F2\<rparr>) e2 } }"

definition link_into_facts :: "ptr \<Rightarrow> addr \<Rightarrow> env \<Rightarrow> env option" where
  "link_into_facts factListPosition theFact e = do {
     e3 \<leftarrow> (case factListPosition of
        None \<Rightarrow> do {
          let n = FactList (factD e);
          e1 \<leftarrow> upd_fact (Some theFact) (\<lambda>F. F\<lparr>nextFact := n, previousFact := None\<rparr>) e;
          upd_fact_if n (\<lambda>G. G\<lparr>previousFact := Some theFact\<rparr>) (set_factD (\<lambda>d. d\<lparr>FactList := Some theFact\<rparr>) e1) }
      | Some p \<Rightarrow> do {
          P \<leftarrow> facts e p;
          let n = nextFact P;
          e1 \<leftarrow> upd_fact (Some theFact) (\<lambda>F. F\<lparr>nextFact := n, previousFact := Some p\<rparr>) e;
          e2 \<leftarrow> upd_fact (Some p) (\<lambda>G. G\<lparr>nextFact := Some theFact\<rparr>) e1;
          upd_fact_if n (\<lambda>G. G\<lparr>previousFact := Some theFact\<rparr>) e2 });
     F \<leftarrow> facts e3 theFact;
     Some (if LastFact (factD e3) = None \<or> nextFact F = None
           then set_factD (\<lambda>d. d\<lparr>LastFact := Some theFact\<rparr>) e3 else e3) }"

definition link_into_template :: "ptr \<Rightarrow> addr \<Rightarrow> env \<Rightarrow> env option" where
  "link_into_template templatePosition theFact e = do {
     F0 \<leftarrow> facts e theFact;
     let t = whichDeftemplate F0;
     e3 \<leftarrow> (case templatePosition of
        None \<Rightarrow> do {
          D \<leftarrow> deftemplates e t;
          let n = template_factList D;
          e1 \<leftarrow> upd_fact (Some theFact) (\<lambda>F. F\<lparr>nextTemplateFact := n, previousTemplateFact := None\<rparr>) e;
          e2 \<leftarrow> upd_template t (\<lambda>D. D\<lparr>template_factList := Some theFact\<rparr>) e1;
          upd_fact_if n (\<lambda>G. G\<lparr>previousTemplateFact := Some theFact\<rparr>) e2 }
      | Some p \<Rightarrow> do {
          P \<leftarrow> facts e p;
          let n = nextTemplateFact P;
          e1 \<leftarrow> upd_fact (Some theFact) (\<lambda>F. F\<lparr>nextTemplateFact := n, previousTemplateFact := Some p\<rparr>) e;
          e2 \<leftarrow> upd_fact (Some p) (\<lambda>G. G\<lparr>nextTemplateFact := Some theFact\<rparr>) e1;
          upd_fact_if n (\<lambda>G. G\<lparr>previousTemplateFact := Some theFact\<rparr>) e2 });
     F \<leftarrow> facts e3 theFact;
     D \<leftarrow> deftemplates e3 t;
     if template_lastFact D = None \<or> nextTemplateFact F = None
     then upd_template t (\<lambda>D. D\<lparr>template_lastFact := Some theFact\<rparr>) e3 else Some e3 }"

section \<open>Retraction\<close>

definition fact_watched :: "addr \<Rightarrow> env \<Rightarrow> bool" where
  "fact_watched theFact e = (case facts e theFact of None \<Rightarrow> False | Some F \<Rightarrow>
     (case deftemplates e (whichDeftemplate F) of None \<Rightarrow> False | Some D \<Rightarrow>
       template_watch D \<and> \<not> fst (clearFlags e) \<and> \<not> snd (clearFlags e)))"

text \<open>From the call of the registered functions to the call of \<^verbatim>\<open>NetworkRetract\<close>.\<close>

definition retract_links :: "addr \<Rightarrow> bool \<Rightarrow> env \<Rightarrow> env option" where
  "retract_links theFact modifyOperation e = do {
     let e1 = fold (\<lambda>f. say (RetractFunctionCall (fun_name f) theFact)) (ListOfRetractFunctions (factD e)) e;
     let e2 = (if fact_watched theFact e1 then say (FactOff theFact) e1 else e1);
     let e3 = set_factD (\<lambda>d. d\<lparr>ChangeToFactList := True\<rparr>) e2;
     e4 \<leftarrow> RemoveEntityDependencies theFact e3;
     (_, e5) \<leftarrow> RemoveHashedFact theFact e4;
     e6 \<leftarrow> unlink_from_template theFact e5;
     e7 \<leftarrow> unlink_from_facts theFact e6;
     e8 \<leftarrow> (if \<not> modifyOperation then AddToGarbageFactList theFact e7
            else upd_fact (Some theFact) (\<lambda>F. F\<lparr>nextFact := None, fact_garbage := True\<rparr>) e7);
     Some (SetEvaluationError False e8) }"

definition set_join_operation :: "bool \<Rightarrow> env \<Rightarrow> env" where
  "set_join_operation v = set_engineD (\<lambda>d. d\<lparr>JoinOperationInProgress := v\<rparr>)"

definition retract_network :: "network \<Rightarrow> addr \<Rightarrow> env \<Rightarrow> env option" where
  "retract_network N theFact e = do {
     e1 \<leftarrow> net_retract N theFact (set_join_operation True e);
     e2 \<leftarrow> upd_fact (Some theFact) (\<lambda>F. F\<lparr>fact_matches := []\<rparr>) e1;
     let e3 = set_join_operation False e2;
     if ExecutingRule (engineD e3) = None then net_flush N e3 else Some e3 }"

definition retract_finish :: "addr \<Rightarrow> env \<Rightarrow> (RetractError \<times> env) option" where
  "retract_finish theFact e = do {
     e1 \<leftarrow> FactDeinstall theFact e;
     let rv = (if EvaluationError (evalD e1) then RE_RULE_NETWORK_ERROR else RE_NO_ERROR);
     Some (rv, set_factD (\<lambda>d. d\<lparr>retractError := rv\<rparr>) e1) }"

text \<open>
  \<open>retract_force N (Some (x, m))\<close> is \<^verbatim>\<open>RetractDriver\<close> and \<open>retract_force N None\<close> the loop of
  \<^verbatim>\<open>ForceLogicalRetractions\<close>: the two functions call each other.
\<close>

partial_function (option) retract_force ::
  "network \<Rightarrow> (addr \<times> bool) option \<Rightarrow> env \<Rightarrow> (RetractError \<times> env) option" where
  "retract_force N arg e = (case arg of
     Some (theFact, modifyOperation) \<Rightarrow> do {
       let e0 = set_factD (\<lambda>d. d\<lparr>retractError := RE_NO_ERROR\<rparr>) e;
       F \<leftarrow> facts e0 theFact;
       if fact_garbage F then Some (RE_NO_ERROR, e0)
       else if JoinOperationInProgress (engineD e0)
       then Some (RE_COULD_NOT_RETRACT_ERROR, set_factD (\<lambda>d. d\<lparr>retractError := RE_COULD_NOT_RETRACT_ERROR\<rparr>)
         (SetEvaluationError True (say RetractedDuringMatching e0)))
       else if factIndex F = 0 then None
       else do {
         e1 \<leftarrow> retract_links theFact modifyOperation e0;
         e2 \<leftarrow> retract_network N theFact e1;
         (_, e3) \<leftarrow> (if alreadyEntered (engineD e2) then Some (RE_NO_ERROR, e2)
            else retract_force N None (set_engineD (\<lambda>d. d\<lparr>alreadyEntered := True\<rparr>) e2));
         retract_finish theFact e3 } }
   | None \<Rightarrow> (case UnsupportedDataEntities (engineD e) of
       [] \<Rightarrow> Some (RE_NO_ERROR, set_engineD (\<lambda>d. d\<lparr>alreadyEntered := False\<rparr>) e)
     | theEntity # rest \<Rightarrow> do {
         e1 \<leftarrow> upd_entity theEntity (\<lambda>T. T\<lparr>busyCount := busyCount T - 1\<rparr>)
           (set_engineD (\<lambda>d. d\<lparr>UnsupportedDataEntities := rest\<rparr>) e);
         (_, e2) \<leftarrow> retract_force N (Some (theEntity, False)) e1;
         retract_force N None e2 }))"

definition RetractDriver :: "network \<Rightarrow> addr \<Rightarrow> bool \<Rightarrow> env \<Rightarrow> (RetractError \<times> env) option" where
  "RetractDriver N theFact modifyOperation = retract_force N (Some (theFact, modifyOperation))"

definition ForceLogicalRetractions :: "network \<Rightarrow> env \<Rightarrow> env option" where
  "ForceLogicalRetractions N e =
     (if alreadyEntered (engineD e) then Some e
      else map_option snd (retract_force N None (set_engineD (\<lambda>d. d\<lparr>alreadyEntered := True\<rparr>) e)))"

section \<open>Garbage facts\<close>

partial_function (option) remove_garbage :: "ptr \<Rightarrow> ptr \<Rightarrow> env \<Rightarrow> env option" where
  "remove_garbage lastPtr factPtr e = (case factPtr of
     None \<Rightarrow> Some (set_garbageF (\<lambda>g. g\<lparr>LastGarbageFact := lastPtr\<rparr>) e)
   | Some a \<Rightarrow> do {
       F \<leftarrow> facts e a;
       T \<leftarrow> entities e a;
       let nextPtr = nextFact F;
       if busyCount T = 0 then do {
         e1 \<leftarrow> ReleaseMultifield (theProposition F) e;
         e2 \<leftarrow> ReturnFact a e1;
         e3 \<leftarrow> (case lastPtr of
                None \<Rightarrow> Some (set_garbageF (\<lambda>g. g\<lparr>GarbageFacts := nextPtr\<rparr>) e2)
              | Some l \<Rightarrow> upd_fact (Some l) (\<lambda>G. G\<lparr>nextFact := nextPtr\<rparr>) e2);
         remove_garbage lastPtr nextPtr e3 }
       else remove_garbage (Some a) nextPtr e })"

definition RemoveGarbageFacts :: "env \<Rightarrow> env option" where
  "RemoveGarbageFacts e = remove_garbage None (GarbageFacts (garbageF e)) e"

text \<open>
  A block of garbage collection: the facts that become garbage in it are collected at its end, and
  the ones still in use are appended to the list of the enclosing frame.
\<close>

definition GCBlockStart :: "env \<Rightarrow> garbageFrame \<times> env" where
  "GCBlockStart e = (garbageF e,
     e\<lparr>garbageF := \<lparr>GarbageFacts = None, LastGarbageFact = None, frame_changed = False\<rparr>\<rparr>)"

definition GCBlockEnd :: "network \<Rightarrow> garbageFrame \<Rightarrow> env \<Rightarrow> env option" where
  "GCBlockEnd N oldFrame e = do {
     e1 \<leftarrow> (if frame_changed (garbageF e) then RemoveGarbageFacts e else Some e);
     e2 \<leftarrow> net_clean N e1;
     let newFrame = garbageF e2;
     if frame_changed newFrame \<and> GarbageFacts newFrame \<noteq> None then do {
       e3 \<leftarrow> (if GarbageFacts oldFrame = None then Some e2
              else upd_fact (LastGarbageFact oldFrame) (\<lambda>F. F\<lparr>nextFact := GarbageFacts newFrame\<rparr>) e2);
       Some (e3\<lparr>garbageF := \<lparr>
         GarbageFacts = (if GarbageFacts oldFrame = None then GarbageFacts newFrame else GarbageFacts oldFrame),
         LastGarbageFact = LastGarbageFact newFrame, frame_changed = True\<rparr>\<rparr>) }
     else Some (e2\<lparr>garbageF := oldFrame\<rparr>) }"

definition Retract :: "network \<Rightarrow> ptr \<Rightarrow> env \<Rightarrow> (RetractError \<times> env) option" where
  "Retract N theFact e = (case theFact of
     None \<Rightarrow> Some (RE_NULL_POINTER_ERROR, e)
   | Some x \<Rightarrow> do {
       F \<leftarrow> facts e x;
       if fact_garbage F then Some (RE_NO_ERROR, e)
       else do {
         let e1 = (if CurrentExpression (evalD e) = None then ResetErrorFlags e else e);
         let (oldFrame, e2) = GCBlockStart e1;
         (rv, e3) \<leftarrow> RetractDriver N x False e2;
         e4 \<leftarrow> GCBlockEnd N oldFrame e3;
         Some (rv, e4) } })"

partial_function (option) RetractAllFacts :: "network \<Rightarrow> env \<Rightarrow> (RetractError \<times> env) option" where
  "RetractAllFacts N e = (case FactList (factD e) of
     None \<Rightarrow> Some (RE_NO_ERROR, e)
   | Some x \<Rightarrow> do {
       (rv, e1) \<leftarrow> Retract N (Some x) e;
       if rv \<noteq> RE_NO_ERROR then Some (rv, e1) else RetractAllFacts N e1 })"

section \<open>Assertion\<close>

definition NIL_STRING :: cstring where "NIL_STRING = [110, 105, 108]"

text \<open>Values of no type in the fact are replaced by the symbol \<^verbatim>\<open>nil\<close>.\<close>

fun replace_voids :: "atom_value list \<Rightarrow> env \<Rightarrow> (atom_value list \<times> env) option" where
  "replace_voids [] e = Some ([], e)"
| "replace_voids (v # vs) e = do {
     (v', e1) \<leftarrow> (if v = VoidAtom then do {
                    (a, s) \<leftarrow> CreateSymbol (Some NIL_STRING) (symbolD e);
                    Some (LexemeAtom a, e\<lparr>symbolD := s\<rparr>) }
                  else Some (v, e));
     (vs', e2) \<leftarrow> replace_voids vs e1;
     Some (v' # vs', e2) }"

definition assert_error :: "AssertError \<Rightarrow> env \<Rightarrow> env" where
  "assert_error err = set_factD (\<lambda>d. d\<lparr>assertError := err\<rparr>)"

text \<open>The fact is added to the hash table and to the two lists.\<close>

definition assert_links :: "addr \<Rightarrow> u64 \<Rightarrow> int \<Rightarrow> ptr \<Rightarrow> ptr \<Rightarrow> env \<Rightarrow> env option" where
  "assert_links theFact hv reuseIndex factListPosition templatePosition e = do {
     e1 \<leftarrow> AddHashedFact theFact hv e;
     e2 \<leftarrow> link_into_facts (if reuseIndex = 0 then LastFact (factD e1) else factListPosition) theFact e1;
     F \<leftarrow> facts e2 theFact;
     D \<leftarrow> deftemplates e2 (whichDeftemplate F);
     link_into_template (if reuseIndex = 0 then template_lastFact D else templatePosition) theFact e2 }"

definition assert_index :: "addr \<Rightarrow> int \<Rightarrow> env \<Rightarrow> env option" where
  "assert_index theFact reuseIndex e = do {
     e1 \<leftarrow> (if reuseIndex > 0 then upd_fact (Some theFact) (\<lambda>F. F\<lparr>factIndex := reuseIndex\<rparr>) e
            else upd_fact (Some theFact) (\<lambda>F. F\<lparr>factIndex := NextFactIndex (factD e)\<rparr>)
              (set_factD (\<lambda>d. d\<lparr>NextFactIndex := NextFactIndex d + 1\<rparr>) e));
     upd_entity theFact (\<lambda>T. T\<lparr>timeTag := CurrentEntityTimeTag e1\<rparr>)
       (e1\<lparr>CurrentEntityTimeTag := CurrentEntityTimeTag e1 + 1\<rparr>) }"

definition assert_install :: "addr \<Rightarrow> int \<Rightarrow> env \<Rightarrow> env option" where
  "assert_install theFact reuseIndex e = do {
     e1 \<leftarrow> FactInstall theFact e;
     F \<leftarrow> facts e1 theFact;
     if reuseIndex = 0 then RetainMultifield (theProposition F) e1 else Some e1 }"

text \<open>The functions registered for assertions, and the pattern network.\<close>

definition assert_network :: "network \<Rightarrow> addr \<Rightarrow> env \<Rightarrow> env option" where
  "assert_network N theFact e = do {
     let e1 = fold (\<lambda>f. say (AssertFunctionCall (fun_name f) theFact)) (ListOfAssertFunctions (factD e)) e;
     let e2 = (if fact_watched theFact e1 then say (FactOn theFact) e1 else e1);
     let e3 = set_factD (\<lambda>d. d\<lparr>ChangeToFactList := True\<rparr>) e2;
     e4 \<leftarrow> net_check N theFact e3;
     e5 \<leftarrow> net_match N theFact (set_join_operation True (SetEvaluationError False e4));
     e6 \<leftarrow> ForceLogicalRetractions N (set_join_operation False e5);
     e7 \<leftarrow> (if ExecutingRule (engineD e6) = None then net_flush N e6 else Some e6);
     Some (if EvaluationError (evalD e7) then assert_error AE_RULE_NETWORK_ERROR e7 else e7) }"

definition AssertDriver ::
  "network \<Rightarrow> addr \<Rightarrow> int \<Rightarrow> ptr \<Rightarrow> ptr \<Rightarrow> env \<Rightarrow> (ptr \<times> env) option" where
  "AssertDriver N theFact reuseIndex factListPosition templatePosition e = do {
     let e0 = assert_error AE_NO_ERROR e;
     F \<leftarrow> facts e0 theFact;
     if fact_garbage F then Some (None, assert_error AE_RETRACTED_ERROR e0)
     else if reuseIndex \<noteq> factIndex F then None
     else if JoinOperationInProgress (engineD e0) then do {
       e1 \<leftarrow> ReturnFact theFact (assert_error AE_COULD_NOT_ASSERT_ERROR e0);
       Some (None, say AssertedDuringMatching e1) }
     else do {
       (vs, e1) \<leftarrow> replace_voids (theProposition F) e0;
       e2 \<leftarrow> upd_fact (Some theFact) (\<lambda>F. F\<lparr>theProposition := vs\<rparr>) e1;
       (hv, duplicate, e3) \<leftarrow> HandleFactDuplication theFact reuseIndex e2;
       if duplicate \<noteq> None then Some (duplicate, e3)
       else do {
         (supp, e4) \<leftarrow> AddLogicalDependencies theFact False e3;
         if \<not> supp then do {
           e5 \<leftarrow> (if reuseIndex = 0 then ReturnFact theFact e4 else AddToGarbageFactList theFact e4);
           Some (None, assert_error AE_COULD_NOT_ASSERT_ERROR e5) }
         else do {
           e5 \<leftarrow> assert_links theFact hv reuseIndex factListPosition templatePosition e4;
           e6 \<leftarrow> assert_index theFact reuseIndex e5;
           e7 \<leftarrow> assert_install theFact reuseIndex e6;
           e8 \<leftarrow> assert_network N theFact e7;
           Some (Some theFact, e8) } } } }"

definition Assert :: "network \<Rightarrow> addr \<Rightarrow> env \<Rightarrow> (ptr \<times> env) option" where
  "Assert N theFact = AssertDriver N theFact 0 None None"

section \<open>Creation and modification\<close>

text \<open>A new fact of the given size, with the contents that the caller stores in it.\<close>

definition CreateFactBySize :: "atom_value list \<Rightarrow> nat \<Rightarrow> env \<Rightarrow> addr \<times> env" where
  "CreateFactBySize vs t e = (fresh e, e\<lparr>fresh := fresh e + 1,
     entities := (entities e)(fresh e \<mapsto> \<lparr>timeTag = 0, busyCount = 0, dependents = []\<rparr>),
     facts := (facts e)(fresh e \<mapsto> \<lparr>whichDeftemplate = t, fact_matches = [], factIndex = 0, hashValue = 0,
       fact_garbage = False, previousFact = None, nextFact = None, previousTemplateFact = None,
       nextTemplateFact = None, theProposition = vs\<rparr>)\<rparr>)"

definition CreateFact :: "nat \<Rightarrow> env \<Rightarrow> (addr \<times> env) option" where
  "CreateFact t e = do {
     D \<leftarrow> deftemplates e t;
     Some (CreateFactBySize (if implied D then [MultifieldAtom []] else replicate (length (slotList D)) VoidAtom) t e) }"

text \<open>The new values of a modified fact; a value of no type leaves the slot as it is.\<close>

fun replace_values :: "atom_value list \<Rightarrow> atom_value list \<Rightarrow> env \<Rightarrow> (atom_value list \<times> env) option" where
  "replace_values [] ws e = Some ([], e)"
| "replace_values (v # vs) [] e = None"
| "replace_values (v # vs) (w # ws) e = do {
     (v', e1) \<leftarrow> (if w = VoidAtom then Some (v, e)
                  else do { e' \<leftarrow> AtomDeinstall v e; e'' \<leftarrow> AtomInstall w e'; Some (w, e'') });
     (vs', e2) \<leftarrow> replace_values vs ws e1;
     Some (v' # vs', e2) }"

definition modify_calls :: "ptr \<Rightarrow> ptr \<Rightarrow> env \<Rightarrow> env" where
  "modify_calls old new e =
     fold (\<lambda>f. say (ModifyFunctionCall (fun_name f) old new)) (ListOfModifyFunctions (factD e)) e"

definition ReplaceFact :: "network \<Rightarrow> addr \<Rightarrow> atom_value list \<Rightarrow> env \<Rightarrow> (ptr \<times> env) option" where
  "ReplaceFact N oldFact theValueArray e = do {
     let e0 = modify_calls (Some oldFact) None e;
     F \<leftarrow> facts e0 oldFact;
     let factListPosition = previousFact F;
     let templatePosition = previousTemplateFact F;
     (_, e1) \<leftarrow> RetractDriver N oldFact True e0;
     e2 \<leftarrow> upd_fact (Some oldFact) (\<lambda>F. F\<lparr>fact_garbage := False\<rparr>) e1;
     F2 \<leftarrow> facts e2 oldFact;
     (vs, e3) \<leftarrow> replace_values (theProposition F2) theValueArray e2;
     e4 \<leftarrow> upd_fact (Some oldFact) (\<lambda>F. F\<lparr>theProposition := vs\<rparr>) e3;
     (theFact, e5) \<leftarrow> AssertDriver N oldFact (factIndex F2) factListPosition templatePosition e4;
     Some (theFact, modify_calls None theFact e5) }"

section \<open>Access\<close>

definition GetNextFact :: "ptr \<Rightarrow> env \<Rightarrow> ptr option" where
  "GetNextFact factPtr e = (case factPtr of
     None \<Rightarrow> Some (FactList (factD e))
   | Some a \<Rightarrow> do { F \<leftarrow> facts e a; Some (if fact_garbage F then None else nextFact F) })"

partial_function (option) find_indexed :: "int \<Rightarrow> ptr \<Rightarrow> env \<Rightarrow> ptr option" where
  "find_indexed factIndexSought theFact e = (case theFact of
     None \<Rightarrow> Some None
   | Some a \<Rightarrow> do {
       F \<leftarrow> facts e a;
       if factIndex F = factIndexSought then Some (Some a)
       else do { n \<leftarrow> GetNextFact (Some a) e; find_indexed factIndexSought n e } })"

definition FindIndexedFact :: "int \<Rightarrow> env \<Rightarrow> ptr option" where
  "FindIndexedFact factIndexSought e = do {
     n \<leftarrow> GetNextFact None e;
     find_indexed factIndexSought n e }"

definition GetFactListChanged :: "env \<Rightarrow> bool" where
  "GetFactListChanged e = ChangeToFactList (factD e)"

definition SetFactListChanged :: "bool \<Rightarrow> env \<Rightarrow> env" where
  "SetFactListChanged value = set_factD (\<lambda>d. d\<lparr>ChangeToFactList := value\<rparr>)"

definition GetNumberOfFacts :: "env \<Rightarrow> u64" where
  "GetNumberOfFacts e = numberOfFacts e"

definition ResetFacts :: "network \<Rightarrow> env \<Rightarrow> env option" where
  "ResetFacts N e = map_option snd (RetractAllFacts N (set_factD (\<lambda>d. d\<lparr>NextFactIndex := 1\<rparr>) e))"

definition ClearFactsReady :: "network \<Rightarrow> env \<Rightarrow> (bool \<times> env) option" where
  "ClearFactsReady N e =
     (if JoinOperationInProgress (engineD e) then Some (False, e)
      else do {
        (_, e1) \<leftarrow> RetractAllFacts N (set_factD (\<lambda>d. d\<lparr>NextFactIndex := 1\<rparr>) e);
        p \<leftarrow> GetNextFact None e1;
        Some (p = None, e1) })"

end
