(* ===== verification/Fact_Invariant.thy ===== *)
theory Fact_Invariant
  imports Fact_Base
begin

text \<open>
  The invariant of the fact base: the list of facts, the list of the facts of each template, the
  hash table, the counts and the support links all describe the same sequence of facts.  Each
  operation that links or unlinks a fact is shown to keep the part of the invariant that it touches.
\<close>

section \<open>Facts as nodes of two lists\<close>

definition fact_pay :: "fact \<Rightarrow> fact" where
  "fact_pay F = F\<lparr>previousFact := None, nextFact := None\<rparr>"

definition template_pay :: "fact \<Rightarrow> fact" where
  "template_pay F = F\<lparr>previousTemplateFact := None, nextTemplateFact := None\<rparr>"

abbreviation fact_links :: "(addr \<rightharpoonup> fact) \<Rightarrow> links" where
  "fact_links \<equiv> links_of previousFact nextFact"

abbreviation template_links :: "(addr \<rightharpoonup> fact) \<Rightarrow> links" where
  "template_links \<equiv> links_of previousTemplateFact nextTemplateFact"

interpretation fl: linked_nodes previousFact nextFact
  "\<lambda>q. previousFact_update (\<lambda>_. q)" "\<lambda>q. nextFact_update (\<lambda>_. q)" fact_pay
  by unfold_locales (simp_all add: fact_pay_def)

interpretation tl: linked_nodes previousTemplateFact nextTemplateFact
  "\<lambda>q. previousTemplateFact_update (\<lambda>_. q)" "\<lambda>q. nextTemplateFact_update (\<lambda>_. q)" template_pay
  by unfold_locales (simp_all add: template_pay_def)

text \<open>The fields that no list operation changes.\<close>

definition fact_core :: "fact \<Rightarrow> fact" where
  "fact_core F = F\<lparr>previousFact := None, nextFact := None, previousTemplateFact := None,
     nextTemplateFact := None, fact_matches := []\<rparr>"

abbreviation cores :: "(addr \<rightharpoonup> fact) \<Rightarrow> (addr \<rightharpoonup> fact)" where
  "cores \<equiv> pays_of fact_core"

lemma fact_pay_core: "fact_pay F = fact_pay G \<Longrightarrow> fact_core F = fact_core G"
  by (cases F, cases G) (simp add: fact_pay_def fact_core_def)

lemma template_pay_core: "template_pay F = template_pay G \<Longrightarrow> fact_core F = fact_core G"
  by (cases F, cases G) (simp add: template_pay_def fact_core_def)

lemma fact_pay_links: "fact_pay F = fact_pay G \<Longrightarrow>
    previousTemplateFact F = previousTemplateFact G \<and> nextTemplateFact F = nextTemplateFact G"
  by (cases F, cases G) (simp add: fact_pay_def)

lemma template_pay_links: "template_pay F = template_pay G \<Longrightarrow>
    previousFact F = previousFact G \<and> nextFact F = nextFact G"
  by (cases F, cases G) (simp add: template_pay_def)

lemma pays_of_transfer:
  assumes eq: "pays_of p h = pays_of p h'" and imp: "\<And>F G. p F = p G \<Longrightarrow> q F = q G"
  shows "pays_of q h = pays_of q h'"
proof
  fix x
  have "map_option p (h x) = map_option p (h' x)" using fun_cong [OF eq, of x] by (simp add: pays_of_def)
  then show "pays_of q h x = pays_of q h' x"
    by (cases "h x"; cases "h' x") (auto simp: pays_of_def intro: imp)
qed

lemma fact_pay_cores: "pays_of fact_pay h = pays_of fact_pay h' \<Longrightarrow> cores h = cores h'"
  by (erule pays_of_transfer) (rule fact_pay_core)

lemma template_pay_cores: "pays_of template_pay h = pays_of template_pay h' \<Longrightarrow> cores h = cores h'"
  by (erule pays_of_transfer) (rule template_pay_core)

lemma links_as_pays: "links_of p n h = pays_of (\<lambda>F. (p F, n F)) h"
  by (simp add: links_of_def pays_of_def)

lemma fact_pay_template_links: "pays_of fact_pay h = pays_of fact_pay h' \<Longrightarrow> template_links h = template_links h'"
  unfolding links_as_pays by (erule pays_of_transfer) (simp only: prod.inject, rule fact_pay_links)

lemma template_pay_fact_links: "pays_of template_pay h = pays_of template_pay h' \<Longrightarrow> fact_links h = fact_links h'"
  unfolding links_as_pays by (erule pays_of_transfer) (simp only: prod.inject, rule template_pay_links)

text \<open>Reading a field of the core.\<close>

lemma cores_Some: "\<lbrakk>cores h' = cores h; h x = Some F\<rbrakk> \<Longrightarrow> \<exists>G. h' x = Some G \<and> fact_core G = fact_core F"
  by (drule fun_cong [of _ _ x]) (auto simp: pays_of_def)

lemma cores_Some_rev: "\<lbrakk>cores h' = cores h; h' x = Some G\<rbrakk> \<Longrightarrow> \<exists>F. h x = Some F \<and> fact_core G = fact_core F"
  by (drule fun_cong [of _ _ x], cases "h x") (simp_all add: pays_of_def)

lemma core_fields:
  assumes "fact_core G = fact_core F"
  shows "whichDeftemplate G = whichDeftemplate F" "factIndex G = factIndex F" "hashValue G = hashValue F"
    "fact_garbage G = fact_garbage F" "theProposition G = theProposition F"
  using assms by (cases F, cases G, simp add: fact_core_def)+

lemma core_hash: "fact_core G = fact_core F \<Longrightarrow> fact_hash e G = fact_hash e F"
  using core_fields(1,5) [of G F] by (simp add: fact_hash_def)

lemma cores_cases:
  assumes "cores h' = cores h"
  obtains "h x = None" "h' x = None"
  | F G where "h x = Some F" "h' x = Some G" "fact_core G = fact_core F"
  using fun_cong [OF assms, of x] by (cases "h x"; cases "h' x") (auto simp: pays_of_def)

section \<open>The invariant\<close>

definition template_of :: "env \<Rightarrow> addr \<Rightarrow> nat option" where
  "template_of e x = map_option whichDeftemplate (facts e x)"

definition of_template :: "env \<Rightarrow> nat \<Rightarrow> addr list \<Rightarrow> addr list" where
  "of_template e t xs = filter (\<lambda>x. template_of e x = Some t) xs"

definition list_part :: "env \<Rightarrow> addr list \<Rightarrow> bool" where
  "list_part e xs \<longleftrightarrow> dlseg (fact_links (facts e)) None xs None \<and>
     FactList (factD e) = hdp xs None \<and> LastFact (factD e) = lastp None xs"

definition template_part :: "env \<Rightarrow> addr list \<Rightarrow> bool" where
  "template_part e xs \<longleftrightarrow> (\<forall>t D. deftemplates e t = Some D \<longrightarrow>
     dlseg (template_links (facts e)) None (of_template e t xs) None \<and>
     template_factList D = hdp (of_template e t xs) None \<and>
     template_lastFact D = lastp None (of_template e t xs))"

definition in_chain :: "env \<Rightarrow> addr \<Rightarrow> nat \<Rightarrow> bool" where
  "in_chain e x i \<longleftrightarrow> (\<exists>F. facts e x = Some F \<and> chain_at e (hashValue F) = i)"

definition hash_part :: "env \<Rightarrow> addr list \<Rightarrow> bool" where
  "hash_part e xs \<longleftrightarrow> FactHashTableSize (factD e) \<noteq> 0 \<and>
     (\<forall>i. distinct (FactHashTable (factD e) i) \<and>
       set (FactHashTable (factD e) i) = {x \<in> set xs. in_chain e x i})"

text \<open>The parts of a template that do not change while it has facts.\<close>

definition template_sig :: "deftemplate \<Rightarrow> addr \<times> bool \<times> bool list" where
  "template_sig D = (template_name D, implied D, slotList D)"

abbreviation template_sigs :: "env \<Rightarrow> nat \<Rightarrow> (addr \<times> bool \<times> bool list) option" where
  "template_sigs e t \<equiv> map_option template_sig (deftemplates e t)"

text \<open>The values of a fact fit its template: multifields in the multislots and nowhere else.\<close>

fun is_multifield :: "atom_value \<Rightarrow> bool" where
  "is_multifield (MultifieldAtom vs) = True"
| "is_multifield _ = False"

fun plain_multifield :: "atom_value \<Rightarrow> bool" where
  "plain_multifield (MultifieldAtom vs) = (\<forall>v\<in>set vs. \<not> is_multifield v)"
| "plain_multifield _ = True"

definition fits :: "addr \<times> bool \<times> bool list \<Rightarrow> atom_value list \<Rightarrow> bool" where
  "fits sig vs \<longleftrightarrow> map is_multifield vs = (if fst (snd sig) then [True] else snd (snd sig)) \<and>
     (\<forall>v\<in>set vs. plain_multifield v)"

definition well_shaped :: "env \<Rightarrow> fact \<Rightarrow> bool" where
  "well_shaped e F \<longleftrightarrow> (\<exists>sig. template_sigs e (whichDeftemplate F) = Some sig \<and> fits sig (theProposition F))"

text \<open>A fact of the list: asserted, not retracted, hashed under its present contents.\<close>

definition asserted :: "env \<Rightarrow> fact \<Rightarrow> bool" where
  "asserted e F \<longleftrightarrow> \<not> fact_garbage F \<and> factIndex F \<noteq> 0 \<and> well_shaped e F \<and>
     fact_hash e F = Some (hashValue F)"

definition facts_part :: "env \<Rightarrow> addr list \<Rightarrow> bool" where
  "facts_part e xs \<longleftrightarrow> distinct xs \<and> (\<forall>x\<in>set xs. \<exists>F. facts e x = Some F \<and> asserted e F) \<and>
     (\<forall>x F. facts e x = Some F \<and> x \<notin> set xs \<longrightarrow> fact_garbage F \<or> factIndex F = 0) \<and>
     (\<forall>x F. facts e x = Some F \<longrightarrow> deftemplates e (whichDeftemplate F) \<noteq> None)"

text \<open>
  Only facts of the list have logical support, and what waits for retraction is a fact of the list or
  one retracted already.
\<close>

definition retractable :: "env \<Rightarrow> addr list \<Rightarrow> addr \<Rightarrow> bool" where
  "retractable e xs x \<longleftrightarrow> (\<exists>F. facts e x = Some F \<and> (x \<in> set xs \<or> fact_garbage F))"

definition support_part :: "env \<Rightarrow> addr list \<Rightarrow> bool" where
  "support_part e xs \<longleftrightarrow> mirrored e \<and> (\<forall>x. support e x \<noteq> [] \<longrightarrow> x \<in> set xs) \<and>
     (\<forall>x\<in>set (UnsupportedDataEntities (engineD e)). retractable e xs x) \<and>
     (\<forall>x. facts e x \<noteq> None \<longrightarrow> entities e x \<noteq> None)"

text \<open>
  \<open>k\<close> is the number of facts whose retraction has begun and is not finished: they have left the
  lists and are still counted.
\<close>

definition fact_base_ok :: "env \<Rightarrow> addr list \<Rightarrow> nat \<Rightarrow> bool" where
  "fact_base_ok e xs k \<longleftrightarrow> facts_part e xs \<and> list_part e xs \<and> template_part e xs \<and> hash_part e xs \<and>
     support_part e xs \<and> unat (numberOfFacts e) = length xs + k"

lemma fact_base_okD:
  assumes "fact_base_ok e xs k"
  shows "facts_part e xs" "list_part e xs" "template_part e xs" "hash_part e xs" "support_part e xs"
    "unat (numberOfFacts e) = length xs + k"
  using assms by (simp_all add: fact_base_ok_def)

section \<open>Congruence\<close>

lemma template_of_cong: "cores (facts e') = cores (facts e) \<Longrightarrow> template_of e' x = template_of e x"
  by (erule cores_cases [where x = x]) (auto simp: template_of_def intro: core_fields(1))

lemma of_template_cong: "cores (facts e') = cores (facts e) \<Longrightarrow> of_template e' t xs = of_template e t xs"
  using template_of_cong [of e' e] by (simp add: of_template_def)

lemma in_chain_cong:
  assumes "map_option hashValue (facts e' x) = map_option hashValue (facts e x)"
    and "FactHashTableSize (factD e') = FactHashTableSize (factD e)"
  shows "in_chain e' x i = in_chain e x i"
  using assms by (cases "facts e x"; cases "facts e' x") (auto simp: in_chain_def chain_at_def)

lemma hash_part_cong:
  assumes "\<And>x. x \<in> set xs \<Longrightarrow> map_option hashValue (facts e' x) = map_option hashValue (facts e x)"
    "FactHashTableSize (factD e') = FactHashTableSize (factD e)" "FactHashTable (factD e') = FactHashTable (factD e)"
  shows "hash_part e' xs = hash_part e xs"
proof -
  have "{x \<in> set xs. in_chain e' x i} = {x \<in> set xs. in_chain e x i}" for i
    using in_chain_cong [OF assms(1,2)] by blast
  then show ?thesis using assms(2,3) by (simp add: hash_part_def)
qed

text \<open>The hash value of a fact stays the same between two environments.\<close>

definition hash_kept :: "env \<Rightarrow> env \<Rightarrow> bool" where
  "hash_kept e e' \<longleftrightarrow> (\<forall>F. fact_hash e F \<noteq> None \<longrightarrow> fact_hash e' F = fact_hash e F)"

lemma hash_keptI:
  assumes "symbolD e' = symbolD e" "toUnsignedLong e' = toUnsignedLong e"
    "\<And>t. template_sigs e' t = template_sigs e t"
  shows "hash_kept e e'"
proof -
  have "hash_value e' r i v = hash_value e r i v" "hash_fields e' r i vs = hash_fields e r i vs" for r i v vs
    using assms(1,2) by (induction e r i v and e r i vs rule: hash_value_hash_fields.induct)
      (simp_all cong: Option.bind_cong)
  then have "HashMultifield vs r e' = HashMultifield vs r e" for vs r by (simp add: HashMultifield_def)
  then have "fact_hash e' F = fact_hash e F" for F
    using assms(3) [of "whichDeftemplate F"] assms(1)
    by (cases "deftemplates e (whichDeftemplate F)"; cases "deftemplates e' (whichDeftemplate F)")
      (simp_all add: fact_hash_def template_sig_def)
  then show ?thesis by (simp add: hash_kept_def)
qed

lemma asserted_cong:
  assumes "hash_kept e e'" "\<And>t. template_sigs e' t = template_sigs e t" "fact_core G = fact_core F" "asserted e F"
  shows "asserted e' G"
  using assms(1,2,4) core_hash [OF assms(3), of e'] core_fields [OF assms(3)]
  by (auto simp: asserted_def hash_kept_def well_shaped_def)

text \<open>
  The facts of the list are those that they were, except for some that have left it and are retracted
  or not asserted.
\<close>

lemma facts_part_change:
  assumes f: "facts_part e xs" and h: "hash_kept e e'" and d: "\<And>t. template_sigs e' t = template_sigs e t"
    and ys: "set ys \<subseteq> set xs" "distinct ys" "set xs - set ys \<subseteq> Z" "set ys \<inter> Z = {}"
    and same: "\<And>x. x \<notin> Z \<Longrightarrow> map_option fact_core (facts e' x) = map_option fact_core (facts e x)"
    and gone: "\<And>x F. \<lbrakk>x \<in> Z; facts e' x = Some F\<rbrakk> \<Longrightarrow> fact_garbage F \<or> factIndex F = 0"
    and tmpl: "\<And>x F. \<lbrakk>x \<in> Z; facts e' x = Some F\<rbrakk> \<Longrightarrow> deftemplates e (whichDeftemplate F) \<noteq> None"
  shows "facts_part e' ys"
proof -
  have "\<exists>G. facts e' x = Some G \<and> asserted e' G" if x: "x \<in> set ys" for x
  proof -
    have "x \<in> set xs" using x ys(1) by blast
    then obtain F where F: "facts e x = Some F" "asserted e F" using f by (auto simp: facts_part_def)
    then obtain G where "facts e' x = Some G" "fact_core G = fact_core F" using same [of x] ys(4) x by auto
    then show ?thesis using asserted_cong [OF h d] F(2) by blast
  qed
  moreover have "fact_garbage G \<or> factIndex G = 0" if x: "facts e' x = Some G" "x \<notin> set ys" for x G
  proof (cases "x \<in> Z")
    case True
    then show ?thesis using gone x(1) by blast
  next
    case False
    then obtain F where F: "facts e x = Some F" "fact_core G = fact_core F"
      using same [OF False] x(1) by (cases "facts e x") auto
    have "x \<notin> set xs" using False ys(3) x(2) by blast
    with f F(1) have "fact_garbage F \<or> factIndex F = 0" unfolding facts_part_def by blast
    with core_fields(2,4) [OF F(2)] show ?thesis by simp
  qed
  moreover have "deftemplates e' (whichDeftemplate G) \<noteq> None" if x: "facts e' x = Some G" for x G
  proof -
    have "deftemplates e (whichDeftemplate G) \<noteq> None"
    proof (cases "x \<in> Z")
      case False
      then obtain F where F: "facts e x = Some F" "fact_core G = fact_core F"
        using same [OF False] x by (cases "facts e x") auto
      with f core_fields(1) [OF F(2)] show ?thesis by (simp add: facts_part_def del: not_None_eq)
    qed (use tmpl x in blast)
    then show ?thesis using d [of "whichDeftemplate G"] by (cases "deftemplates e' (whichDeftemplate G)") auto
  qed
  ultimately show ?thesis using ys(2) unfolding facts_part_def by blast
qed

lemma facts_part_cong:
  assumes "cores (facts e') = cores (facts e)" "hash_kept e e'" "\<And>t. template_sigs e' t = template_sigs e t"
    and "facts_part e xs"
  shows "facts_part e' xs"
proof (rule facts_part_change [OF assms(4,2,3)])
  show "map_option fact_core (facts e' x) = map_option fact_core (facts e x)" for x
    using fun_cong [OF assms(1), of x] by (simp add: pays_of_def)
qed (use assms(4) in \<open>auto simp: facts_part_def\<close>)

lemma facts_part_template:
  "\<lbrakk>facts_part e xs; facts e x = Some F\<rbrakk> \<Longrightarrow> \<exists>D. deftemplates e (whichDeftemplate F) = Some D"
  unfolding facts_part_def by (metis not_None_eq)

section \<open>Unlinking a fact\<close>

lemma lastp_notin: "x \<notin> set P \<Longrightarrow> Some x \<noteq> lastp None P"
  by (metis lastp_None_Some)

lemma lastp_Some_not_None [simp]: "lastp (Some a) xs \<noteq> None"
  by (induction xs arbitrary: a) auto

lemma last_unlink:
  assumes "distinct (P @ x # S)"
  shows "lastp None (P @ x # S) = Some x \<longleftrightarrow> S = []"
    "S \<noteq> [] \<Longrightarrow> lastp None (P @ S) = lastp None (P @ x # S)"
  using assms by (cases S rule: rev_cases; auto)+

lemma unlink_from_facts_ptrs:
  assumes "facts e x = Some F" "previousFact F = p" "nextFact F = n" "h1 x = Some F"
    and "upd_if p (nextFact_update (\<lambda>_. n)) (facts e) = Some h1"
    and "upd_if n (previousFact_update (\<lambda>_. p)) h1 = Some h"
    and "p = None \<Longrightarrow> FactList (factD e) = Some x"
  shows "unlink_from_facts x e = Some (e\<lparr>facts := h, factD := (factD e)\<lparr>
      FactList := (if p = None then n else FactList (factD e)),
      LastFact := (if LastFact (factD e) = Some x then p else LastFact (factD e))\<rparr>\<rparr>)"
  using assms by (cases p) (simp_all add: unlink_from_facts_def set_factD_def upd_fact_if_def upd_fact_def)

lemma template_ends_swap:
  "D\<lparr>template_lastFact := a, template_factList := b\<rparr> = D\<lparr>template_factList := b, template_lastFact := a\<rparr>"
  by simp

lemma unlink_from_template_ptrs:
  assumes "facts e x = Some F" "previousTemplateFact F = p" "nextTemplateFact F = n" "h1 x = Some F"
    and "upd_if p (nextTemplateFact_update (\<lambda>_. n)) (facts e) = Some h1"
    and "upd_if n (previousTemplateFact_update (\<lambda>_. p)) h1 = Some h"
    and "whichDeftemplate F = t" "deftemplates e t = Some D" "p = None \<Longrightarrow> template_factList D = Some x"
  shows "unlink_from_template x e = Some (e\<lparr>facts := h, deftemplates := (deftemplates e)(t \<mapsto> D\<lparr>
      template_factList := (if p = None then n else template_factList D),
      template_lastFact := (if template_lastFact D = Some x then p else template_lastFact D)\<rparr>)\<rparr>)"
  using assms by (cases p) (simp_all add: unlink_from_template_def upd_template_def upd_fact_if_def upd_fact_def
      fun_upd_idem template_ends_swap)

lemma unlink_from_facts_eq:
  assumes l: "list_part e (P @ x # S)" and d: "distinct (P @ x # S)"
  shows "\<exists>h. unlink_from_facts x e = Some (e\<lparr>facts := h,
      factD := (factD e)\<lparr>FactList := hdp (P @ S) None, LastFact := lastp None (P @ S)\<rparr>\<rparr>) \<and>
    dlseg (fact_links h) None (P @ S) None \<and> pays_of fact_pay h = pays_of fact_pay (facts e) \<and>
    (\<forall>a. a \<notin> set (P @ S) \<longrightarrow> h a = facts e a)"
proof -
  have seg: "dlseg (fact_links (facts e)) None (P @ x # S) None"
    and fl: "FactList (factD e) = hdp (P @ x # S) None" and la: "LastFact (factD e) = lastp None (P @ x # S)"
    using l by (simp_all add: list_part_def)
  obtain F where F: "facts e x = Some F" "previousFact F = lastp None P" "nextFact F = hdp S None"
    using dlseg_node [OF seg] by blast
  obtain h1 h where h: "upd_if (lastp None P) (nextFact_update (\<lambda>_. hdp S None)) (facts e) = Some h1"
    "upd_if (hdp S None) (previousFact_update (\<lambda>_. lastp None P)) h1 = Some h"
    "dlseg (fact_links h) None (P @ S) None" "pays_of fact_pay h = pays_of fact_pay (facts e)"
    "\<forall>a. a \<notin> set (P @ S) \<longrightarrow> h a = facts e a"
    using fl.unlink_node [OF seg d] by blast
  have la': "lastp None (P @ S) = (if S = [] then lastp None P else LastFact (factD e))"
    using last_unlink(2) [OF d] la by simp
  have x1: "h1 x = Some F" using upd_if_other [OF h(1), of x] F(1) d lastp_notin [of x P] by simp
  have "unlink_from_facts x e = Some (e\<lparr>facts := h,
      factD := (factD e)\<lparr>FactList := hdp (P @ S) None, LastFact := lastp None (P @ S)\<rparr>\<rparr>)"
    using unlink_from_facts_ptrs [OF F x1 h(1,2)] fl la la' last_unlink(1) [OF d]
    by (cases P) auto
  with h(3,4,5) show ?thesis by blast
qed

lemma unlink_from_template_eq:
  assumes seg: "dlseg (template_links (facts e)) None (P @ x # S) None" and d: "distinct (P @ x # S)"
    and t: "template_of e x = Some t" and D: "deftemplates e t = Some D"
    and fl: "template_factList D = hdp (P @ x # S) None" and la: "template_lastFact D = lastp None (P @ x # S)"
  shows "\<exists>h. unlink_from_template x e = Some (e\<lparr>facts := h,
      deftemplates := (deftemplates e)(t \<mapsto>
        D\<lparr>template_factList := hdp (P @ S) None, template_lastFact := lastp None (P @ S)\<rparr>)\<rparr>) \<and>
    dlseg (template_links h) None (P @ S) None \<and> pays_of template_pay h = pays_of template_pay (facts e) \<and>
    (\<forall>a. a \<notin> set (P @ S) \<longrightarrow> h a = facts e a)"
proof -
  obtain F where F: "facts e x = Some F" "previousTemplateFact F = lastp None P" "nextTemplateFact F = hdp S None"
    using dlseg_node [OF seg] by blast
  have w: "whichDeftemplate F = t" using t F(1) by (simp add: template_of_def)
  obtain h1 h where h: "upd_if (lastp None P) (nextTemplateFact_update (\<lambda>_. hdp S None)) (facts e) = Some h1"
    "upd_if (hdp S None) (previousTemplateFact_update (\<lambda>_. lastp None P)) h1 = Some h"
    "dlseg (template_links h) None (P @ S) None" "pays_of template_pay h = pays_of template_pay (facts e)"
    "\<forall>a. a \<notin> set (P @ S) \<longrightarrow> h a = facts e a"
    using tl.unlink_node [OF seg d] by blast
  have la': "lastp None (P @ S) = (if S = [] then lastp None P else template_lastFact D)"
    using last_unlink(2) [OF d] la by simp
  have x1: "h1 x = Some F" using upd_if_other [OF h(1), of x] F(1) d lastp_notin [of x P] by simp
  have "unlink_from_template x e = Some (e\<lparr>facts := h,
      deftemplates := (deftemplates e)(t \<mapsto>
        D\<lparr>template_factList := hdp (P @ S) None, template_lastFact := lastp None (P @ S)\<rparr>)\<rparr>)"
    using unlink_from_template_ptrs [OF F x1 h(1,2) w D] fl la la' last_unlink(1) [OF d]
    by (cases P) auto
  with h(3,4,5) show ?thesis by blast
qed

section \<open>Linking a fact\<close>

lemma link_into_facts_ptrs:
  assumes "facts e x = Some F" "p \<noteq> Some x" "h x = Some (F\<lparr>nextFact := n, previousFact := p\<rparr>)"
    and "case p of None \<Rightarrow> FactList (factD e) = n | Some a \<Rightarrow> (\<exists>R. facts e a = Some R \<and> nextFact R = n)"
    and "upd_if p (nextFact_update (\<lambda>_. Some x)) ((facts e)(x \<mapsto> F\<lparr>nextFact := n, previousFact := p\<rparr>)) = Some h1"
    and "upd_if n (previousFact_update (\<lambda>_. Some x)) h1 = Some h"
  shows "link_into_facts p x e = Some (e\<lparr>facts := h, factD := (factD e)\<lparr>
      FactList := (if p = None then Some x else FactList (factD e)),
      LastFact := (if LastFact (factD e) = None \<or> n = None then Some x else LastFact (factD e))\<rparr>\<rparr>)"
  using assms
  by (cases p) (auto simp: link_into_facts_def set_factD_def upd_fact_if_def upd_fact_def simp del: bind_eq_Some)

lemma link_into_template_ptrs:
  assumes "facts e x = Some F" "p \<noteq> Some x" "h x = Some (F\<lparr>nextTemplateFact := n, previousTemplateFact := p\<rparr>)"
    and "case p of None \<Rightarrow> template_factList D = n | Some a \<Rightarrow> (\<exists>R. facts e a = Some R \<and> nextTemplateFact R = n)"
    and "upd_if p (nextTemplateFact_update (\<lambda>_. Some x)) ((facts e)(x \<mapsto> F\<lparr>nextTemplateFact := n, previousTemplateFact := p\<rparr>)) = Some h1"
    and "upd_if n (previousTemplateFact_update (\<lambda>_. Some x)) h1 = Some h"
    and "whichDeftemplate F = t" "deftemplates e t = Some D"
  shows "link_into_template p x e = Some (e\<lparr>facts := h, deftemplates := (deftemplates e)(t \<mapsto> D\<lparr>
      template_factList := (if p = None then Some x else template_factList D),
      template_lastFact := (if template_lastFact D = None \<or> n = None then Some x else template_lastFact D)\<rparr>)\<rparr>)"
  using assms
  by (cases p) (auto simp: link_into_template_def upd_template_def upd_fact_if_def upd_fact_def fun_upd_idem
      simp del: bind_eq_Some)

lemma link_into_facts_eq:
  assumes l: "list_part e (P @ S)" and d: "distinct (P @ x # S)" and x: "facts e x \<noteq> None"
  shows "\<exists>h. link_into_facts (lastp None P) x e = Some (e\<lparr>facts := h,
      factD := (factD e)\<lparr>FactList := hdp (P @ x # S) None, LastFact := lastp None (P @ x # S)\<rparr>\<rparr>) \<and>
    dlseg (fact_links h) None (P @ x # S) None \<and> pays_of fact_pay h = pays_of fact_pay (facts e) \<and>
    (\<forall>a. a \<notin> set (P @ x # S) \<longrightarrow> h a = facts e a)"
proof -
  have seg: "dlseg (fact_links (facts e)) None (P @ S) None"
    and fl: "FactList (factD e) = hdp (P @ S) None" and la: "LastFact (factD e) = lastp None (P @ S)"
    using l by (simp_all add: list_part_def)
  obtain F where F: "facts e x = Some F" using x by blast
  define F0 where "F0 = F\<lparr>nextFact := hdp S None, previousFact := lastp None P\<rparr>"
  let ?h0 = "(facts e)(x \<mapsto> F0)"
  have seg0: "dlseg (fact_links ?h0) None (P @ S) None" using seg d by simp
  have pay0: "pays_of fact_pay ?h0 = pays_of fact_pay (facts e)"
    using F by (auto simp: pays_of_def fact_pay_def F0_def)
  obtain h1 h where h: "upd_if (lastp None P) (nextFact_update (\<lambda>_. Some x)) ?h0 = Some h1"
    "upd_if (hdp S None) (previousFact_update (\<lambda>_. Some x)) h1 = Some h"
    "dlseg (fact_links h) None (P @ x # S) None" "pays_of fact_pay h = pays_of fact_pay ?h0"
    "\<forall>a. a \<notin> set (P @ S) \<longrightarrow> h a = ?h0 a"
    using fl.link_node [OF seg0 d, of F0] by (auto simp: F0_def)
  have hx: "h x = Some F0" using h(5) d by simp
  have la': "lastp None (P @ x # S) = (if S = [] then Some x else LastFact (factD e))"
    using la by (simp add: lastp_last)
  have pos: "case lastp None P of None \<Rightarrow> FactList (factD e) = hdp S None
      | Some a \<Rightarrow> (\<exists>R. facts e a = Some R \<and> nextFact R = hdp S None)"
  proof (cases P rule: rev_cases)
    case (snoc P' p)
    with seg dlseg_node [of previousFact nextFact "facts e" None P' p S None] show ?thesis by auto
  qed (simp add: fl)
  have "link_into_facts (lastp None P) x e = Some (e\<lparr>facts := h,
      factD := (factD e)\<lparr>FactList := hdp (P @ x # S) None, LastFact := lastp None (P @ x # S)\<rparr>\<rparr>)"
    using link_into_facts_ptrs [OF F _ hx [unfolded F0_def] pos h(1,2) [unfolded F0_def]] fl la la' d lastp_notin [of x P]
    by (cases P) auto
  moreover have "\<forall>a. a \<notin> set (P @ x # S) \<longrightarrow> h a = facts e a" using h(5) by simp
  ultimately show ?thesis using h(3,4) pay0 by metis
qed

lemma link_into_template_eq:
  assumes seg: "dlseg (template_links (facts e)) None (P @ S) None" and d: "distinct (P @ x # S)"
    and t: "template_of e x = Some t" and D: "deftemplates e t = Some D"
    and fl: "template_factList D = hdp (P @ S) None" and la: "template_lastFact D = lastp None (P @ S)"
  shows "\<exists>h. link_into_template (lastp None P) x e = Some (e\<lparr>facts := h,
      deftemplates := (deftemplates e)(t \<mapsto>
        D\<lparr>template_factList := hdp (P @ x # S) None, template_lastFact := lastp None (P @ x # S)\<rparr>)\<rparr>) \<and>
    dlseg (template_links h) None (P @ x # S) None \<and> pays_of template_pay h = pays_of template_pay (facts e) \<and>
    (\<forall>a. a \<notin> set (P @ x # S) \<longrightarrow> h a = facts e a)"
proof -
  obtain F where F: "facts e x = Some F" and w: "whichDeftemplate F = t"
    using t by (auto simp: template_of_def)
  define F0 where "F0 = F\<lparr>nextTemplateFact := hdp S None, previousTemplateFact := lastp None P\<rparr>"
  let ?h0 = "(facts e)(x \<mapsto> F0)"
  have seg0: "dlseg (template_links ?h0) None (P @ S) None" using seg d by simp
  have pay0: "pays_of template_pay ?h0 = pays_of template_pay (facts e)"
    using F by (auto simp: pays_of_def template_pay_def F0_def)
  obtain h1 h where h: "upd_if (lastp None P) (nextTemplateFact_update (\<lambda>_. Some x)) ?h0 = Some h1"
    "upd_if (hdp S None) (previousTemplateFact_update (\<lambda>_. Some x)) h1 = Some h"
    "dlseg (template_links h) None (P @ x # S) None" "pays_of template_pay h = pays_of template_pay ?h0"
    "\<forall>a. a \<notin> set (P @ S) \<longrightarrow> h a = ?h0 a"
    using tl.link_node [OF seg0 d, of F0] by (auto simp: F0_def)
  have hx: "h x = Some F0" using h(5) d by simp
  have la': "lastp None (P @ x # S) = (if S = [] then Some x else template_lastFact D)"
    using la by (simp add: lastp_last)
  have pos: "case lastp None P of None \<Rightarrow> template_factList D = hdp S None
      | Some a \<Rightarrow> (\<exists>R. facts e a = Some R \<and> nextTemplateFact R = hdp S None)"
  proof (cases P rule: rev_cases)
    case (snoc P' p)
    with seg dlseg_node [of previousTemplateFact nextTemplateFact "facts e" None P' p S None] show ?thesis by auto
  qed (simp add: fl)
  have "link_into_template (lastp None P) x e = Some (e\<lparr>facts := h,
      deftemplates := (deftemplates e)(t \<mapsto>
        D\<lparr>template_factList := hdp (P @ x # S) None, template_lastFact := lastp None (P @ x # S)\<rparr>)\<rparr>)"
    using link_into_template_ptrs [OF F _ hx [unfolded F0_def] pos h(1,2) [unfolded F0_def] w D] fl la la' d lastp_notin [of x P]
    by (cases P) auto
  moreover have "\<forall>a. a \<notin> set (P @ x # S) \<longrightarrow> h a = facts e a" using h(5) by simp
  ultimately show ?thesis using h(3,4) pay0 by metis
qed

end
