(* ===== verification/Fact_Table.thy ===== *)
theory Fact_Table
  imports Fact_Invariant
begin

text \<open>
  The hash table of facts keeps its invariant: adding and removing a fact changes the set of facts in
  the table by that fact, growing and resetting the table keep it, and the search finds a fact with
  the given template and values exactly when there is one.
\<close>

section \<open>Growing and resetting\<close>

lemma hash_part_set: "set xs = set ys \<Longrightarrow> hash_part e xs = hash_part e ys"
  by (simp add: hash_part_def)

definition location :: "env \<Rightarrow> u64 \<Rightarrow> addr \<Rightarrow> nat" where
  "location e n x = (case facts e x of None \<Rightarrow> 0 | Some F \<Rightarrow> unat (hashValue F mod n))"

lemma rehash_eq:
  assumes "\<And>x. x \<in> set xs \<Longrightarrow> facts e x \<noteq> None"
  shows "rehash e n xs tbl = Some (\<lambda>i. rev (filter (\<lambda>x. location e n x = i) xs) @ tbl i)"
  using assms
proof (induction xs arbitrary: tbl)
  case (Cons x xs)
  then obtain F where "facts e x = Some F" by fastforce
  then have "rehash e n (x # xs) tbl = rehash e n xs (tbl(location e n x := x # tbl (location e n x)))"
    by (simp add: location_def Let_def)
  also have "\<dots> = Some (\<lambda>i. rev (filter (\<lambda>x. location e n x = i) xs) @ (tbl(location e n x := x # tbl (location e n x))) i)"
    using Cons.prems by (intro Cons.IH) auto
  finally show ?case by (auto simp: fun_eq_iff)
qed simp

lemma in_chain_location:
  "facts e x \<noteq> None \<Longrightarrow> in_chain e x i \<longleftrightarrow> location e (FactHashTableSize (factD e)) x = i"
  by (auto simp: in_chain_def location_def chain_at_def)

lemma table_entries_ok:
  assumes h: "hash_part e xs" and f: "\<And>x. x \<in> set xs \<Longrightarrow> facts e x \<noteq> None"
  shows "set (table_entries e) = set xs" "distinct (table_entries e)"
proof -
  let ?t = "FactHashTable (factD e)" and ?n = "FactHashTableSize (factD e)"
  have chains: "distinct (?t i)" "set (?t i) = {x \<in> set xs. location e ?n x = i}" for i
    using h f by (auto simp: hash_part_def in_chain_location)
  have below: "location e ?n x < unat ?n" if "x \<in> set xs" for x
    using h f [OF that] by (auto simp: location_def hash_part_def unat_mod unat_gt_0)
  show "set (table_entries e) = set xs"
    using chains(2) below by (auto simp: table_entries_def)
  have "distinct (concat (map ?t [0..<m])) \<and> set (concat (map ?t [0..<m])) = {x \<in> set xs. location e ?n x < m}" for m
    by (induction m) (use chains in auto)
  then show "distinct (table_entries e)" by (simp add: table_entries_def)
qed

definition set_table :: "(nat \<Rightarrow> addr list) \<Rightarrow> u64 \<Rightarrow> env \<Rightarrow> env" where
  "set_table tbl n = set_factD (\<lambda>d. d\<lparr>FactHashTable := tbl, FactHashTableSize := n\<rparr>)"

lemma hash_part_set_table:
  assumes "\<And>x. x \<in> set xs \<Longrightarrow> facts e x \<noteq> None"
  shows "hash_part (set_table tbl n e) xs \<longleftrightarrow>
    n \<noteq> 0 \<and> (\<forall>i. distinct (tbl i) \<and> set (tbl i) = {x \<in> set xs. location e n x = i})"
proof -
  have "{x \<in> set xs. in_chain (set_table tbl n e) x i} = {x \<in> set xs. location e n x = i}" for i
    using assms in_chain_location [of "set_table tbl n e" _ i]
    by (auto simp: set_table_def set_factD_def location_def)
  then show ?thesis by (simp add: hash_part_def set_table_def set_factD_def)
qed

lemma odd_word_nonzero: "n * 2 + 1 \<noteq> (0 :: u64)"
proof
  assume "n * 2 + 1 = (0 :: u64)"
  then have "bit (n * 2 + 1) 0 = bit (0 :: u64) 0" by simp
  then show False by (simp add: bit_0)
qed

lemma ResizeFactHashTable_ok:
  assumes h: "hash_part e xs" and f: "\<And>x. x \<in> set xs \<Longrightarrow> facts e x \<noteq> None"
  shows "\<exists>tbl. ResizeFactHashTable e = Some (set_table tbl (FactHashTableSize (factD e) * 2 + 1) e) \<and>
    hash_part (set_table tbl (FactHashTableSize (factD e) * 2 + 1) e) xs"
proof -
  let ?n = "FactHashTableSize (factD e) * 2 + 1"
  let ?tbl = "\<lambda>i. rev (filter (\<lambda>x. location e ?n x = i) (table_entries e))"
  note ent = table_entries_ok [OF h f]
  have "rehash e ?n (table_entries e) (CreateFactHashTable ?n) = Some ?tbl"
    using rehash_eq [of "table_entries e" e ?n "CreateFactHashTable ?n"] f ent(1) by (simp add: CreateFactHashTable_def)
  then have "ResizeFactHashTable e = Some (set_table ?tbl ?n e)"
    by (simp add: ResizeFactHashTable_def set_table_def Let_def)
  moreover have "hash_part (set_table ?tbl ?n e) xs"
    using ent odd_word_nonzero by (subst hash_part_set_table [OF f]) auto
  ultimately show ?thesis by blast
qed

lemma ResetFactHashTable_ok:
  "\<exists>tbl n. ResetFactHashTable e = set_table tbl n e \<and>
     (hash_part e [] \<longrightarrow> hash_part (set_table tbl n e) [])"
proof (cases "FactHashTableSize (factD e) = SIZE_FACT_HASH")
  case True
  then have "ResetFactHashTable e = set_table (FactHashTable (factD e)) (FactHashTableSize (factD e)) e"
    by (simp add: ResetFactHashTable_def set_table_def set_factD_def)
  moreover have "set_table (FactHashTable (factD e)) (FactHashTableSize (factD e)) e = e"
    by (simp add: set_table_def set_factD_def)
  ultimately show ?thesis by metis
next
  case False
  then have "ResetFactHashTable e = set_table (\<lambda>_. []) SIZE_FACT_HASH e"
    by (simp add: ResetFactHashTable_def set_table_def set_factD_def CreateFactHashTable_def)
  then show ?thesis using hash_part_set_table [of "[]" e "\<lambda>_. []" SIZE_FACT_HASH]
    by (auto simp: SIZE_FACT_HASH_def)
qed

section \<open>Adding and removing a fact\<close>

lemma set_table_set_table: "set_table t n (set_table t' n' e) = set_table t n e"
  by (simp add: set_table_def set_factD_def)

lemma AddHashedFact_ok:
  assumes h: "hash_part e xs" and f: "\<And>x. x \<in> set xs \<Longrightarrow> facts e x \<noteq> None"
    and x: "facts e x = Some F" "hashValue F = hv" "x \<notin> set xs"
  shows "\<exists>tbl n. AddHashedFact x hv e = Some (set_table tbl n e) \<and> hash_part (set_table tbl n e) (x # xs)"
proof -
  obtain t n where r: "(if numberOfFacts e > FactHashTableSize (factD e) then ResizeFactHashTable e else Some e)
      = Some (set_table t n e)" and h': "hash_part (set_table t n e) xs"
  proof (cases "numberOfFacts e > FactHashTableSize (factD e)")
    case True
    then show ?thesis using ResizeFactHashTable_ok [OF h f] that by auto
  next
    case False
    moreover have "set_table (FactHashTable (factD e)) (FactHashTableSize (factD e)) e = e"
      by (simp add: set_table_def set_factD_def)
    ultimately show ?thesis using h that [of "FactHashTable (factD e)" "FactHashTableSize (factD e)"] by simp
  qed
  let ?i = "location e n x" and ?tbl = "t(location e n x := x # t (location e n x))"
  have "chain_at (set_table t n e) hv = ?i"
    using x by (simp add: chain_at_def set_table_def set_factD_def location_def)
  then have "AddHashedFact x hv e = Some (set_table ?tbl n e)"
    using r by (simp add: AddHashedFact_def set_table_def set_factD_def Let_def)
  moreover have "n \<noteq> 0" "\<And>i. distinct (t i)" "\<And>i. set (t i) = {x \<in> set xs. location e n x = i}"
    using h' hash_part_set_table [OF f] by auto
  then have "hash_part (set_table ?tbl n e) (x # xs)"
    using f x by (subst hash_part_set_table) auto
  ultimately show ?thesis by blast
qed

lemma HashFact_same:
  assumes "facts e x = Some F" "fact_hash e F = Some (hashValue F)"
  shows "HashFact x e = Some (hashValue F, e)"
proof -
  have "(facts e)(x \<mapsto> F\<lparr>hashValue := hashValue F\<rparr>) = facts e" using assms(1) by (simp add: fun_upd_idem)
  then show ?thesis using assms by (simp add: HashFact_def upd_env_simps)
qed

lemma RemoveHashedFact_ok:
  assumes h: "hash_part e xs" and f: "\<And>x. x \<in> set xs \<Longrightarrow> facts e x \<noteq> None"
    and x: "facts e x = Some F" "fact_hash e F = Some (hashValue F)" "x \<in> set xs"
    and d: "distinct xs" and n: "unat (numberOfFacts e) \<ge> length xs"
  shows "\<exists>tbl n. RemoveHashedFact x e = Some (True, set_table tbl n e) \<and> hash_part (set_table tbl n e) (remove1 x xs)"
proof -
  let ?t = "FactHashTable (factD e)" and ?n = "FactHashTableSize (factD e)"
  let ?i = "location e ?n x"
  let ?tbl = "?t(?i := remove1 x (?t ?i))"
  have e: "set_table ?t ?n e = e" by (simp add: set_table_def set_factD_def)
  have chains: "distinct (?t i)" "set (?t i) = {x \<in> set xs. location e ?n x = i}" "?n \<noteq> 0" for i
    using h f by (auto simp: hash_part_def in_chain_location)
  have i: "chain_at e (hashValue F) = ?i" using x(1) by (simp add: chain_at_def location_def)
  have sub: "\<And>y. y \<in> set (remove1 x xs) \<Longrightarrow> facts e y \<noteq> None" using f d by auto
  have "hash_part (set_table ?tbl ?n e) (remove1 x xs)"
    using chains d by (subst hash_part_set_table [OF sub]) auto
  moreover have eq: "RemoveHashedFact x e = Some (True,
      if numberOfFacts e = 1 then ResetFactHashTable (set_table ?tbl ?n e) else set_table ?tbl ?n e)"
    using HashFact_same [OF x(1,2)] x(3) chains(2) [of ?i]
    by (simp add: RemoveHashedFact_def Let_def i set_table_def set_factD_def)
  ultimately show ?thesis
  proof (cases "numberOfFacts e = 1")
    case True
    with n have "length xs \<le> 1" by simp
    with x(3) have "remove1 x xs = []" by (cases xs) auto
    with \<open>hash_part (set_table ?tbl ?n e) (remove1 x xs)\<close> eq True show ?thesis
      using ResetFactHashTable_ok [of "set_table ?tbl ?n e"] by (auto simp: set_table_set_table)
  qed auto
qed

section \<open>Searching\<close>

lemma fields_equal_plain:
  assumes "length vs = length ws" "\<forall>v\<in>set vs. \<not> is_multifield v"
  shows "fields_equal vs ws = Some (vs = ws)"
  using assms
proof (induction vs ws rule: list_induct2)
  case (Cons v vs w ws)
  then show ?case by (cases v) auto
qed simp

lemma fields_equal_same_shape:
  assumes "map is_multifield vs = map is_multifield ws" "\<forall>v\<in>set vs. plain_multifield v"
  shows "fields_equal vs ws = Some (vs = ws)"
proof -
  have "length vs = length ws" using assms(1) map_eq_imp_length_eq by blast
  then show ?thesis using assms
  proof (induction vs ws rule: list_induct2)
    case (Cons v vs w ws)
    then show ?case by (cases v; cases w) (auto simp: fields_equal_plain)
  qed simp
qed

definition same_contents :: "fact \<Rightarrow> fact \<Rightarrow> bool" where
  "same_contents F G \<longleftrightarrow> whichDeftemplate F = whichDeftemplate G \<and> theProposition F = theProposition G"

lemma same_contents_hash: "same_contents F G \<Longrightarrow> fact_hash e F = fact_hash e G"
  by (simp add: same_contents_def fact_hash_def)

lemma MultifieldsEqual_shaped:
  assumes "well_shaped e F" "well_shaped e G" "whichDeftemplate F = whichDeftemplate G"
  shows "MultifieldsEqual (theProposition F) (theProposition G) = Some (theProposition F = theProposition G)"
proof -
  have "map is_multifield (theProposition F) = map is_multifield (theProposition G)"
    "\<forall>v\<in>set (theProposition F). plain_multifield v"
    using assms by (auto simp: well_shaped_def fits_def)
  then show ?thesis using fields_equal_same_shape map_eq_imp_length_eq
    by (metis MultifieldsEqual_def)
qed

lemma search_facts_eq:
  assumes "well_shaped e F" "fact_hash e F = Some (hashValue F)"
    and "\<And>y. y \<in> set ys \<Longrightarrow> \<exists>G. facts e y = Some G \<and> asserted e G"
  shows "search_facts e F ys = Some (List.find (\<lambda>y. \<exists>G. facts e y = Some G \<and> same_contents F G) ys)"
  using assms(3)
proof (induction ys)
  case (Cons y ys)
  then obtain G where G: "facts e y = Some G" "well_shaped e G" "fact_hash e G = Some (hashValue G)"
    by (fastforce simp: asserted_def)
  have ih: "search_facts e F ys = Some (List.find (\<lambda>y. \<exists>G. facts e y = Some G \<and> same_contents F G) ys)"
    using Cons by simp
  show ?case
  proof (cases "same_contents F G")
    case True
    then have "hashValue F = hashValue G" using same_contents_hash [of F G e] assms(2) G(3) by simp
    with True G(1) MultifieldsEqual_shaped [OF assms(1) G(2)] show ?thesis by (simp add: same_contents_def)
  next
    case False
    with ih G(1) MultifieldsEqual_shaped [OF assms(1) G(2)] show ?thesis
      by (cases "hashValue F = hashValue G"; cases "whichDeftemplate F = whichDeftemplate G")
        (simp_all add: same_contents_def del: bind_eq_Some)
  qed
qed simp

text \<open>The result of a search for a fact with the contents of \<open>F\<close>.\<close>

definition found :: "env \<Rightarrow> addr list \<Rightarrow> fact \<Rightarrow> ptr \<Rightarrow> bool" where
  "found e xs F r \<longleftrightarrow> (case r of
     None \<Rightarrow> \<forall>y\<in>set xs. \<forall>G. facts e y = Some G \<longrightarrow> \<not> same_contents F G
   | Some y \<Rightarrow> y \<in> set xs \<and> (\<exists>G. facts e y = Some G \<and> same_contents F G))"

lemma FactExists_found:
  assumes h: "hash_part e xs" and as: "\<And>y. y \<in> set xs \<Longrightarrow> \<exists>G. facts e y = Some G \<and> asserted e G"
    and x: "facts e x = Some F" "well_shaped e F" "fact_hash e F = Some (hashValue F)"
  shows "\<exists>r. FactExists x (hashValue F) e = Some r \<and> found e xs F r"
proof -
  let ?c = "FactHashTable (factD e) (chain_at e (hashValue F))"
  have c: "set ?c = {y \<in> set xs. in_chain e y (chain_at e (hashValue F))}"
    using h by (simp add: hash_part_def)
  define r where "r = List.find (\<lambda>y. \<exists>G. facts e y = Some G \<and> same_contents F G) ?c"
  have "FactExists x (hashValue F) e = Some r"
    using search_facts_eq [OF x(2,3), of ?c] as c x(1) by (auto simp: FactExists_def r_def)
  moreover have "found e xs F r"
  proof (cases r)
    case None
    then have no: "\<not> same_contents F G" if "y \<in> set ?c" "facts e y = Some G" for y G
      using that by (auto simp: r_def find_None_iff)
    have "\<not> same_contents F G" if y: "y \<in> set xs" "facts e y = Some G" for y G
    proof
      assume s: "same_contents F G"
      have "fact_hash e G = Some (hashValue G)" using as [OF y(1)] y(2) by (auto simp: asserted_def)
      with same_contents_hash [OF s, of e] x(3) have "hashValue G = hashValue F" by simp
      with y c have "y \<in> set ?c" by (auto simp: in_chain_def)
      with no y s show False by blast
    qed
    with None show ?thesis by (simp add: found_def)
  next
    case (Some y)
    then have "y \<in> set ?c \<and> (\<exists>G. facts e y = Some G \<and> same_contents F G)"
      unfolding r_def by (auto simp: find_Some_iff)
    with Some c show ?thesis by (simp add: found_def)
  qed
  ultimately show ?thesis by blast
qed

end
