(* ===== verification/Fact_Network.thy ===== *)
theory Fact_Network
  imports Fact_Table
begin

text \<open>
  What the fact base relies on of the pattern and join networks.  They may build, drop and mark
  partial matches, change the agenda and evaluate expressions; of the fact base they change only the
  matches of a fact, and they change the support links only by \<^verbatim>\<open>RemoveLogicalSupport\<close> and
  \<^verbatim>\<open>RemovePMDependencies\<close>.  This is the relation \<open>net_steps\<close>; it keeps the invariant of the fact
  base and only adds to the queue of unsupported facts.
\<close>

definition matchless :: "fact \<Rightarrow> fact" where
  "matchless F = F\<lparr>fact_matches := []\<rparr>"

text \<open>The fact base is the same, up to the matches of the facts.\<close>

definition same_base :: "env \<Rightarrow> env \<Rightarrow> bool" where
  "same_base e e' \<longleftrightarrow> pays_of matchless (facts e') = pays_of matchless (facts e) \<and> factD e' = factD e \<and>
     deftemplates e' = deftemplates e \<and> numberOfFacts e' = numberOfFacts e \<and> garbageF e' = garbageF e \<and>
     alreadyEntered (engineD e') = alreadyEntered (engineD e) \<and>
     JoinOperationInProgress (engineD e') = JoinOperationInProgress (engineD e) \<and> hash_kept e e'"

definition net_frame :: "env \<Rightarrow> env \<Rightarrow> bool" where
  "net_frame e e' \<longleftrightarrow> same_base e e' \<and> entities e' = entities e \<and> supported_by e' = supported_by e \<and>
     UnsupportedDataEntities (engineD e') = UnsupportedDataEntities (engineD e)"

inductive net_steps :: "env \<Rightarrow> env \<Rightarrow> bool" where
  net_refl: "net_steps e e"
| net_other: "\<lbrakk>net_frame e e'; net_steps e' e''\<rbrakk> \<Longrightarrow> net_steps e e''"
| net_drop: "\<lbrakk>matches e b \<noteq> None; RemoveLogicalSupport b e = Some e'; net_steps e' e''\<rbrakk> \<Longrightarrow> net_steps e e''"
| net_cut: "\<lbrakk>matches e b \<noteq> None; RemovePMDependencies b e = Some e'; net_steps e' e''\<rbrakk> \<Longrightarrow> net_steps e e''"

definition network_ok :: "network \<Rightarrow> bool" where
  "network_ok N \<longleftrightarrow> (\<forall>e xs. support_part e xs \<longrightarrow>
     (\<forall>x. \<exists>e'. net_retract N x e = Some e' \<and> net_steps e e') \<and>
     (\<forall>x. \<exists>e'. net_match N x e = Some e' \<and> net_steps e e') \<and>
     (\<exists>e'. net_flush N e = Some e' \<and> net_steps e e') \<and>
     (\<forall>x. \<exists>e'. net_check N x e = Some e' \<and> net_steps e e'))"

section \<open>The same fact base\<close>

lemma hash_kept_refl [simp]: "hash_kept e e"
  by (simp add: hash_kept_def)

lemma hash_kept_trans: "\<lbrakk>hash_kept e e'; hash_kept e' e''\<rbrakk> \<Longrightarrow> hash_kept e e''"
  unfolding hash_kept_def by metis

lemma same_base_refl [simp]: "same_base e e"
  by (simp add: same_base_def)

lemma same_base_trans: "\<lbrakk>same_base e e'; same_base e' e''\<rbrakk> \<Longrightarrow> same_base e e''"
  using hash_kept_trans [of e e' e''] by (auto simp: same_base_def)

lemma matchless_core: "matchless F = matchless G \<Longrightarrow> fact_core F = fact_core G"
  by (cases F, cases G) (simp add: matchless_def fact_core_def)

lemma matchless_links: "matchless F = matchless G \<Longrightarrow> previousFact F = previousFact G \<and> nextFact F = nextFact G \<and>
    previousTemplateFact F = previousTemplateFact G \<and> nextTemplateFact F = nextTemplateFact G"
  by (cases F, cases G) (simp add: matchless_def)

lemma matchless_cores: "pays_of matchless h = pays_of matchless h' \<Longrightarrow> cores h = cores h'"
  by (erule pays_of_transfer) (rule matchless_core)

lemma matchless_fact_links: "pays_of matchless h = pays_of matchless h' \<Longrightarrow> fact_links h = fact_links h'"
  unfolding links_as_pays by (erule pays_of_transfer) (drule matchless_links, simp)

lemma matchless_template_links: "pays_of matchless h = pays_of matchless h' \<Longrightarrow> template_links h = template_links h'"
  unfolding links_as_pays by (erule pays_of_transfer) (drule matchless_links, simp)

lemma cores_hashValue: "cores h' = cores h \<Longrightarrow> map_option hashValue (h' x) = map_option hashValue (h x)"
  by (erule cores_cases [where x = x]) (auto intro: core_fields(3))

lemma retractable_cong: "cores (facts e') = cores (facts e) \<Longrightarrow> retractable e' xs x = retractable e xs x"
  by (erule cores_cases [where x = x]) (auto simp: retractable_def dest: core_fields(4))

lemma same_base_ok:
  assumes b: "same_base e e'" and ok: "fact_base_ok e xs k" and s: "support_part e' xs"
  shows "fact_base_ok e' xs k"
proof -
  have pay: "pays_of matchless (facts e') = pays_of matchless (facts e)" using b by (simp add: same_base_def)
  note cor = matchless_cores [OF pay]
  have eq: "factD e' = factD e" "deftemplates e' = deftemplates e" "numberOfFacts e' = numberOfFacts e" "hash_kept e e'"
    using b by (simp_all add: same_base_def)
  have "facts_part e' xs" using facts_part_cong [OF cor eq(4) _ fact_base_okD(1) [OF ok]] eq(2) by simp
  moreover have "list_part e' xs"
    using fact_base_okD(2) [OF ok] matchless_fact_links [OF pay] eq(1) by (simp add: list_part_def)
  moreover have "template_part e' xs"
    using fact_base_okD(3) [OF ok] matchless_template_links [OF pay] eq(2) of_template_cong [OF cor]
    by (simp add: template_part_def)
  moreover have "hash_part e' xs"
    using fact_base_okD(4) [OF ok] hash_part_cong [of xs e' e] cores_hashValue [OF cor] eq(1) by simp
  ultimately show ?thesis using s fact_base_okD(6) [OF ok] eq(3) by (simp add: fact_base_ok_def)
qed

section \<open>Steps of the network\<close>

lemma same_base_links:
  "same_base e (drop_match b e)" "same_base e (cut_match b e)"
  using hash_keptI [of "drop_match b e" e] hash_keptI [of "cut_match b e" e]
  by (simp_all add: same_base_def drop_match_def cut_match_def enqueue_unsupported_def set_engineD_def)

lemma support_removeAll: "\<lbrakk>support_part e xs; removeAll b (support e x) \<noteq> []\<rbrakk> \<Longrightarrow> x \<in> set xs"
  unfolding support_part_def by (metis removeAll.simps(1))

lemma support_part_drop:
  assumes s: "support_part e xs" and f: "\<And>x. x \<in> set xs \<Longrightarrow> facts e x \<noteq> None"
  shows "support_part (drop_match b e) xs"
proof -
  have m: "mirrored e" using s by (simp add: support_part_def)
  have "retractable e xs x" if "x \<in> set (supported_by e b)" for x
  proof -
    have "support e x \<noteq> []" using that mirrored_in [OF m, of x b] by auto
    then have "x \<in> set xs" using s by (simp add: support_part_def)
    then show ?thesis using f [of x] by (auto simp: retractable_def)
  qed
  moreover have "retractable (drop_match b e) xs x = retractable e xs x" for x
    by (simp add: retractable_def drop_match_def enqueue_unsupported_def set_engineD_def)
  moreover have "entities (drop_match b e) x = None \<longleftrightarrow> entities e x = None" "facts (drop_match b e) = facts e" for x
    by (simp_all add: drop_match_def enqueue_unsupported_def set_engineD_def)
  ultimately show ?thesis
    using s drop_mirrored [OF m, of b] support_removeAll [OF s, of b]
    by (auto simp: support_part_def support_drop drop_match_queue)
qed

lemma support_part_cut:
  assumes "support_part e xs"
  shows "support_part (cut_match b e) xs"
proof -
  have "retractable (cut_match b e) xs x = retractable e xs x" "entities (cut_match b e) x = None \<longleftrightarrow> entities e x = None"
    "facts (cut_match b e) = facts e" "engineD (cut_match b e) = engineD e" for x
    by (simp_all add: retractable_def cut_match_def)
  then show ?thesis using assms cut_mirrored(2) [of e b] support_removeAll [OF assms, of b]
    by (auto simp: support_part_def support_cut)
qed

lemma support_part_frame:
  assumes "net_frame e e'" "support_part e xs"
  shows "support_part e' xs"
proof -
  have eq: "entities e' = entities e" "supported_by e' = supported_by e" 
    "UnsupportedDataEntities (engineD e') = UnsupportedDataEntities (engineD e)"
    and pay: "pays_of matchless (facts e') = pays_of matchless (facts e)"
    using assms(1) by (simp_all add: net_frame_def same_base_def)
  have "support e' = support e" using eq(1) by (simp add: fun_eq_iff support_def)
  moreover have "mirrored e' = mirrored e" using eq(2) calculation by (intro mirrored_cong) simp_all
  moreover have "(facts e' x = None) = (facts e x = None)" for x using pays_of_dom [OF pay] .
  ultimately show ?thesis
    using assms(2) eq retractable_cong [OF matchless_cores [OF pay]] by (simp add: support_part_def del: not_None_eq)
qed

lemma net_steps_ok:
  assumes "net_steps e e'" "support_part e xs" "\<And>x. x \<in> set xs \<Longrightarrow> facts e x \<noteq> None"
  shows "support_part e' xs \<and> same_base e e' \<and>
    (\<exists>qs. UnsupportedDataEntities (engineD e') = qs @ UnsupportedDataEntities (engineD e))"
  using assms
proof (induction rule: net_steps.induct)
  case (net_other e e' e'')
  have "support_part e' xs" using support_part_frame [OF net_other.hyps(1) net_other.prems(1)] .
  moreover have b: "same_base e e'" "UnsupportedDataEntities (engineD e') = UnsupportedDataEntities (engineD e)"
    using net_other.hyps(1) by (simp_all add: net_frame_def)
  moreover have "facts e' x \<noteq> None" if "x \<in> set xs" for x
    using net_other.prems(2) [OF that] pays_of_dom [of matchless "facts e'" "facts e" x] b(1) by (simp add: same_base_def)
  ultimately show ?case using net_other.IH same_base_trans by metis
next
  case (net_drop e b e' e'')
  have m: "mirrored e" using net_drop.prems(1) by (simp add: support_part_def)
  have e': "e' = drop_match b e" using RemoveLogicalSupport_eq [OF m net_drop.hyps(1)] net_drop.hyps(2) by simp
  have "support_part e' xs" using support_part_drop [OF net_drop.prems] e' by simp
  moreover have "facts e' = facts e" by (simp add: e' drop_match_def enqueue_unsupported_def set_engineD_def)
  ultimately have "support_part e'' xs \<and> same_base e' e'' \<and>
      (\<exists>qs. UnsupportedDataEntities (engineD e'') = qs @ UnsupportedDataEntities (engineD e'))"
    using net_drop.IH net_drop.prems(2) by simp
  then show ?case using same_base_trans [of e e' e''] same_base_links(1) [of e b] e' by (auto simp: drop_match_queue)
next
  case (net_cut e b e' e'')
  have m: "mirrored e" using net_cut.prems(1) by (simp add: support_part_def)
  have e': "e' = cut_match b e" using RemovePMDependencies_eq [OF m net_cut.hyps(1)] net_cut.hyps(2) by simp
  have "support_part e' xs" using support_part_cut [OF net_cut.prems(1)] e' by simp
  moreover have "facts e' = facts e" "engineD e' = engineD e" by (simp_all add: e' cut_match_def)
  ultimately show ?case
    using net_cut.IH net_cut.prems(2) same_base_trans [of e e' e''] same_base_links(2) [of e b] e' by simp
qed simp

lemma net_steps_base:
  assumes st: "net_steps e e'" and ok: "fact_base_ok e xs k"
  shows "fact_base_ok e' xs k \<and> same_base e e' \<and>
    (\<exists>qs. UnsupportedDataEntities (engineD e') = qs @ UnsupportedDataEntities (engineD e))"
proof -
  have "\<And>x. x \<in> set xs \<Longrightarrow> facts e x \<noteq> None" using fact_base_okD(1) [OF ok] by (auto simp: facts_part_def)
  with net_steps_ok [OF st fact_base_okD(5) [OF ok]] same_base_ok [of e e' xs k] ok show ?thesis by blast
qed

end
