(* ===== verification/Fact_Retract.thy ===== *)
theory Fact_Retract
  imports Fact_Network
begin

text \<open>
  Retraction.  Unlinking a fact keeps the invariant; the driver of retraction and the loop that
  retracts the facts without support end and keep it.
\<close>

section \<open>Unlinking a fact from the whole base\<close>

text \<open>What identifies a fact: template, index and values.\<close>

definition fact_ids :: "env \<Rightarrow> addr \<rightharpoonup> nat \<times> int \<times> atom_value list" where
  "fact_ids e x = map_option (\<lambda>F. (whichDeftemplate F, factIndex F, theProposition F)) (facts e x)"

lemma fact_ids_cores: "cores (facts e') = cores (facts e) \<Longrightarrow> fact_ids e' = fact_ids e"
proof
  fix x
  assume c: "cores (facts e') = cores (facts e)"
  show "fact_ids e' x = fact_ids e x"
  proof (cases rule: cores_cases [OF c, of x])
    case (2 F G)
    with core_fields(1,2,5) [OF 2(3)] show ?thesis by (simp add: fact_ids_def)
  qed (simp add: fact_ids_def)
qed

lemma same_base_ids: "same_base e e' \<Longrightarrow> fact_ids e' = fact_ids e"
  by (intro fact_ids_cores matchless_cores) (simp add: same_base_def)

lemma of_template_split:
  "template_of e x = Some t \<Longrightarrow> of_template e t (P @ x # S) = of_template e t P @ x # of_template e t S"
  "template_of e x \<noteq> Some t \<Longrightarrow> of_template e t (P @ x # S) = of_template e t (P @ S)"
  "of_template e t (P @ S) = of_template e t P @ of_template e t S"
  by (simp_all add: of_template_def)

lemma set_of_template [simp]: "set (of_template e t xs) = {x \<in> set xs. template_of e x = Some t}"
  by (auto simp: of_template_def)

lemma distinct_of_template: "distinct xs \<Longrightarrow> distinct (of_template e t xs)"
  by (simp add: of_template_def)

lemma template_partD:
  assumes "template_part e xs" "deftemplates e t = Some D"
  shows "dlseg (template_links (facts e)) None (of_template e t xs) None"
    "template_factList D = hdp (of_template e t xs) None" "template_lastFact D = lastp None (of_template e t xs)"
  using assms unfolding template_part_def by blast+

text \<open>The template lists after the fact \<open>x\<close> has been taken out of the list of its template.\<close>

lemma template_part_unlink:
  assumes tp: "template_part e (P @ x # S)" and d: "distinct (P @ x # S)"
    and t: "template_of e x = Some t" and D: "deftemplates e t = Some D"
  shows "\<exists>h D'. unlink_from_template x e = Some (e\<lparr>facts := h, deftemplates := (deftemplates e)(t \<mapsto> D')\<rparr>) \<and>
    pays_of template_pay h = pays_of template_pay (facts e) \<and> template_sig D' = template_sig D \<and>
    template_part (e\<lparr>facts := h, deftemplates := (deftemplates e)(t \<mapsto> D')\<rparr>) (P @ S)"
proof -
  let ?P = "of_template e t P" and ?S = "of_template e t S"
  let ?D = "D\<lparr>template_factList := hdp (?P @ ?S) None, template_lastFact := lastp None (?P @ ?S)\<rparr>"
  have seg: "dlseg (template_links (facts e)) None (?P @ x # ?S) None"
    and ends: "template_factList D = hdp (?P @ x # ?S) None" "template_lastFact D = lastp None (?P @ x # ?S)"
    using template_partD [OF tp D] unfolding of_template_split(1) [OF t] by blast+
  have dt: "distinct (?P @ x # ?S)"
    using distinct_of_template [OF d, of e t] of_template_split(1) [OF t, of P S] by simp
  obtain h where h: "unlink_from_template x e = Some (e\<lparr>facts := h, deftemplates := (deftemplates e)(t \<mapsto> ?D)\<rparr>)"
    "dlseg (template_links h) None (?P @ ?S) None" "pays_of template_pay h = pays_of template_pay (facts e)"
    "\<forall>a. a \<notin> set (?P @ ?S) \<longrightarrow> h a = facts e a"
    using unlink_from_template_eq [OF seg dt t D ends] by blast
  define e' where "e' = e\<lparr>facts := h, deftemplates := (deftemplates e)(t \<mapsto> ?D)\<rparr>"
  have ot: "of_template e' u ys = of_template e u ys" for u ys
    by (rule of_template_cong) (simp add: e'_def template_pay_cores [OF h(3)])
  have "dlseg (template_links h) None (of_template e u (P @ S)) None" if u: "u \<noteq> t" "deftemplates e u = Some E" for u E
  proof -
    have "dlseg (template_links (facts e)) None (of_template e u (P @ S)) None"
      using template_partD(1) [OF tp u(2)] of_template_split(2) [of e x u P S] u t by simp
    moreover have "template_links h y = template_links (facts e) y" if "y \<in> set (of_template e u (P @ S))" for y
      using that u(1) h(4) by (auto simp: links_of_def)
    ultimately show ?thesis using dlseg_cong by metis
  qed
  moreover have "template_factList E = hdp (of_template e u (P @ S)) None \<and> template_lastFact E = lastp None (of_template e u (P @ S))"
    if u: "u \<noteq> t" "deftemplates e u = Some E" for u E
    using template_partD(2,3) [OF tp u(2)] of_template_split(2) [of e x u P S] u t by simp
  ultimately have "template_part e' (P @ S)"
    unfolding template_part_def ot using h(2) of_template_split(3) [of e t P S]
    by (auto simp: e'_def split: if_splits)
  moreover have "template_sig ?D = template_sig D" by (simp add: template_sig_def)
  ultimately show ?thesis using h(1,3) unfolding e'_def by blast
qed

section \<open>The links of a retracted fact\<close>

lemma retract_start:
  "\<exists>ms. (let e1 = fold (\<lambda>f. say (RetractFunctionCall (fun_name f) x)) (ListOfRetractFunctions (factD e)) e;
     e2 = (if fact_watched x e1 then say (FactOff x) e1 else e1)
     in set_factD (\<lambda>d. d\<lparr>ChangeToFactList := True\<rparr>) e2)
   = e\<lparr>messages := ms, factD := (factD e)\<lparr>ChangeToFactList := True\<rparr>\<rparr>"
  by (auto simp: Let_def fold_say set_factD_def say_def)

text \<open>The environment after the fact has left the hash table and the lists, and the fact itself.\<close>

lemma retract_unlinked:
  assumes ok: "fact_base_ok e (P @ x # S) k"
  shows "\<exists>e' G. (do { e4 \<leftarrow> RemoveEntityDependencies x e; (_, e5) \<leftarrow> RemoveHashedFact x e4;
        e6 \<leftarrow> unlink_from_template x e5; unlink_from_facts x e6 }) = Some e' \<and>
      facts e' x = Some G \<and> cores (facts e') = cores (facts e) \<and> hash_kept e e' \<and>
      (\<forall>t. template_sigs e' t = template_sigs e t) \<and> list_part e' (P @ S) \<and> template_part e' (P @ S) \<and>
      hash_part e' (P @ S) \<and> engineD e' = engineD e \<and> numberOfFacts e' = numberOfFacts e \<and>
      entities e' = entities (cut_entity x e) \<and> matches e' = matches (cut_entity x e) \<and>
      garbageF e' = garbageF e \<and> NextFactIndex (factD e') = NextFactIndex (factD e)"
proof -
  note parts = fact_base_okD [OF ok]
  have d: "distinct (P @ x # S)" using parts(1) by (simp add: facts_part_def)
  have live: "\<And>y. y \<in> set (P @ x # S) \<Longrightarrow> facts e y \<noteq> None" using parts(1) by (auto simp: facts_part_def)
  obtain F where F: "facts e x = Some F" "asserted e F" using parts(1) by (auto simp: facts_part_def)
  then obtain D where D: "deftemplates e (whichDeftemplate F) = Some D" by (auto simp: asserted_def well_shaped_def)
  let ?t = "whichDeftemplate F"
  define e4 where "e4 = cut_entity x e"
  have e4: "RemoveEntityDependencies x e = Some e4"
    using RemoveEntityDependencies_eq [of e x] parts(5) F(1) by (auto simp: e4_def support_part_def)
  have f4 [simp]: "facts e4 = facts e" "factD e4 = factD e" "deftemplates e4 = deftemplates e" "symbolD e4 = symbolD e"
    "toUnsignedLong e4 = toUnsignedLong e" "numberOfFacts e4 = numberOfFacts e" "engineD e4 = engineD e" "garbageF e4 = garbageF e"
    by (simp_all add: e4_def cut_entity_def)
  have "hash_part e4 (P @ x # S)" using parts(4) hash_part_cong [of "P @ x # S" e4 e] by simp
  moreover have "fact_hash e4 F = Some (hashValue F)"
    using F(2) hash_keptI [of e4 e] by (simp add: asserted_def hash_kept_def)
  ultimately obtain tbl n where h: "RemoveHashedFact x e4 = Some (True, set_table tbl n e4)"
      "hash_part (set_table tbl n e4) (remove1 x (P @ x # S))"
    using RemoveHashedFact_ok [of e4 "P @ x # S" x F] live F(1) d parts(6) by auto
  define e5 where "e5 = set_table tbl n e4"
  have f5 [simp]: "facts e5 = facts e" "deftemplates e5 = deftemplates e" "FactList (factD e5) = FactList (factD e)"
    "LastFact (factD e5) = LastFact (factD e)" by (simp_all add: e5_def set_table_def set_factD_def)
  have r: "remove1 x (P @ x # S) = P @ S" using d by (simp add: remove1_append)
  have t5: "template_part e5 (P @ x # S)"
    using parts(3) of_template_cong [of e5 e] by (simp add: template_part_def)
  have tx: "template_of e5 x = Some ?t" using F(1) by (simp add: template_of_def)
  obtain h6 D' where u: "unlink_from_template x e5 = Some (e5\<lparr>facts := h6, deftemplates := (deftemplates e5)(?t \<mapsto> D')\<rparr>)"
    "pays_of template_pay h6 = pays_of template_pay (facts e5)" "template_sig D' = template_sig D"
    "template_part (e5\<lparr>facts := h6, deftemplates := (deftemplates e5)(?t \<mapsto> D')\<rparr>) (P @ S)"
    using template_part_unlink [OF t5 d tx, of D] D by auto
  define e6 where "e6 = e5\<lparr>facts := h6, deftemplates := (deftemplates e5)(?t \<mapsto> D')\<rparr>"
  have "list_part e6 (P @ x # S)"
    using parts(2) template_pay_fact_links [OF u(2)] by (simp add: list_part_def e6_def)
  then obtain h7 where v: "unlink_from_facts x e6 = Some (e6\<lparr>facts := h7,
        factD := (factD e6)\<lparr>FactList := hdp (P @ S) None, LastFact := lastp None (P @ S)\<rparr>\<rparr>)"
      "dlseg (fact_links h7) None (P @ S) None" "pays_of fact_pay h7 = pays_of fact_pay (facts e6)"
    using unlink_from_facts_eq [OF _ d] by blast
  define e7 where "e7 = e6\<lparr>facts := h7, factD := (factD e6)\<lparr>FactList := hdp (P @ S) None, LastFact := lastp None (P @ S)\<rparr>\<rparr>"
  have c6: "cores h6 = cores (facts e)" using template_pay_cores [OF u(2)] by simp
  have c7: "cores (facts e7) = cores (facts e)"
    using fact_pay_cores [OF v(3)] c6 by (simp add: e6_def e7_def)
  have c76: "cores (facts e7) = cores (facts e6)" using fact_pay_cores [OF v(3)] by (simp add: e7_def)
  obtain G where G: "facts e7 x = Some G" using cores_Some [OF c7 F(1)] by blast
  have sig: "template_sigs e7 t = template_sigs e t" for t
    using D u(3) by (simp add: e7_def e6_def)
  have "hash_kept e e7" using sig by (intro hash_keptI) (simp_all add: e7_def e6_def e5_def set_table_def set_factD_def)
  moreover have "list_part e7 (P @ S)" using v(2) by (simp add: list_part_def e7_def)
  moreover have "template_part e7 (P @ S)"
    using u(4) fact_pay_template_links [OF v(3)] of_template_cong [OF c76] 
    by (simp add: template_part_def e7_def e6_def)
  moreover have "hash_part e7 (P @ S)"
    using h(2) hash_part_cong [of "P @ S" e7 e5] cores_hashValue [of h7 "facts e"] c7
    by (simp add: e7_def e6_def e5_def [symmetric] r)
  moreover have "(do { e4 \<leftarrow> RemoveEntityDependencies x e; (_, e5) \<leftarrow> RemoveHashedFact x e4;
        e6 \<leftarrow> unlink_from_template x e5; unlink_from_facts x e6 }) = Some e7"
    using e4 h(1) [folded e5_def] u(1) [folded e6_def] v(1) [folded e7_def] by simp
  ultimately show ?thesis using G c7 sig
    by (intro exI [of _ e7] exI [of _ G]) (simp add: e7_def e6_def e5_def e4_def set_table_def set_factD_def cut_entity_def)
qed

text \<open>The fields of the environment that the invariant reads.\<close>

lemma fact_base_ok_change:
  assumes f: "facts e' = facts e"
    and t: "\<And>t. map_option (template_busyCount_update (\<lambda>_. 0)) (deftemplates e' t) = map_option (template_busyCount_update (\<lambda>_. 0)) (deftemplates e t)"
    and n: "\<And>x. map_option dependents (entities e' x) = map_option dependents (entities e x)" "matches e' = matches e"
    and s: "symbolD e' = symbolD e" "toUnsignedLong e' = toUnsignedLong e"
    and d: "FactList (factD e') = FactList (factD e)" "LastFact (factD e') = LastFact (factD e)"
      "FactHashTable (factD e') = FactHashTable (factD e)" "FactHashTableSize (factD e') = FactHashTableSize (factD e)"
    and q: "set (UnsupportedDataEntities (engineD e')) \<subseteq> set (UnsupportedDataEntities (engineD e))"
    and k: "unat (numberOfFacts e') = length xs + k'"
    and ok: "fact_base_ok e xs k"
  shows "fact_base_ok e' xs k'"
proof -
  note parts = fact_base_okD [OF ok]
  have view: "\<exists>E. deftemplates e t = Some E \<and> template_sig D = template_sig E \<and> template_factList D = template_factList E \<and>
      template_lastFact D = template_lastFact E" if D: "deftemplates e' t = Some D" for t D
  proof -
    obtain E where "deftemplates e t = Some E" "D\<lparr>template_busyCount := 0\<rparr> = E\<lparr>template_busyCount := 0\<rparr>"
      using t [of t] D by (cases "deftemplates e t") auto
    then show ?thesis by (cases D, cases E) (simp add: template_sig_def)
  qed
  have sig: "template_sigs e' t = template_sigs e t" for t
  proof (cases "deftemplates e' t")
    case None
    then show ?thesis using t [of t] by simp
  qed (use view [of t] in auto)
  have "hash_kept e e'" using s sig by (intro hash_keptI)
  then have fp: "facts_part e' xs" using facts_part_cong [OF _ _ sig parts(1)] f by simp
  have sup: "support e' = support e" "supported_by e' = supported_by e"
  proof -
    show "support e' = support e"
    proof
      fix x
      show "support e' x = support e x"
        using n(1) [of x] by (cases "entities e x"; cases "entities e' x") (simp_all add: support_def)
    qed
    show "supported_by e' = supported_by e" using n(2) by (simp add: fun_eq_iff supported_by_def)
  qed
  have ent: "(entities e' x = None) = (entities e x = None)" for x using n(1) [of x] by (metis option.map_disc_iff)
  have "mirrored e'" using parts(5) mirrored_cong [of e' e] sup by (simp add: support_part_def)
  moreover have "retractable e' xs x = retractable e xs x" for x using f by (simp add: retractable_def)
  ultimately have "support_part e' xs"
    using parts(5) q by (auto simp: support_part_def f sup ent simp del: not_None_eq)
  moreover have "template_part e' xs"
    using parts(3) f of_template_cong [of e' e] unfolding template_part_def by (metis view)
  moreover have "hash_part e' xs" using parts(4) f d hash_part_cong [of xs e' e] by simp
  ultimately show ?thesis using fp parts(2) f d k by (simp add: fact_base_ok_def list_part_def)
qed

lemma fact_base_ok_cong:
  assumes "facts e' = facts e" "deftemplates e' = deftemplates e" "entities e' = entities e" "matches e' = matches e"
    "numberOfFacts e' = numberOfFacts e" "symbolD e' = symbolD e" "toUnsignedLong e' = toUnsignedLong e"
    "FactList (factD e') = FactList (factD e)" "LastFact (factD e') = LastFact (factD e)"
    "FactHashTable (factD e') = FactHashTable (factD e)" "FactHashTableSize (factD e') = FactHashTableSize (factD e)"
    "UnsupportedDataEntities (engineD e') = UnsupportedDataEntities (engineD e)"
    and ok: "fact_base_ok e xs k"
  shows "fact_base_ok e' xs k"
  using assms fact_base_okD(6) [OF ok] by (intro fact_base_ok_change [OF _ _ _ _ _ _ _ _ _ _ _ _ ok]) simp_all

text \<open>The fact becomes garbage, in the garbage list or, when it is modified, outside it.\<close>

definition garbage_step :: "addr \<Rightarrow> bool \<Rightarrow> env \<Rightarrow> env option" where
  "garbage_step x m e = (if \<not> m then AddToGarbageFactList x e
     else upd_fact (Some x) (\<lambda>F. F\<lparr>nextFact := None, fact_garbage := True\<rparr>) e)"

lemma garbage_step_eq:
  assumes "facts e x = Some G"
  shows "\<exists>q gf. garbage_step x m e = Some (e\<lparr>facts := (facts e)(x \<mapsto> G\<lparr>fact_garbage := True, nextFact := q\<rparr>), garbageF := gf\<rparr>)"
proof (cases m)
  case False
  with assms show ?thesis
    by (intro exI [of _ "GarbageFacts (garbageF e)"] exI)
      (simp add: garbage_step_def AddToGarbageFactList_def upd_env_simps set_garbageF_def)
next
  case True
  have swap: "G\<lparr>nextFact := None, fact_garbage := True\<rparr> = G\<lparr>fact_garbage := True, nextFact := None\<rparr>" by simp
  have "garbage_step x m e = Some (e\<lparr>facts := (facts e)(x \<mapsto> G\<lparr>nextFact := None, fact_garbage := True\<rparr>), garbageF := garbageF e\<rparr>)"
    using True assms by (simp add: garbage_step_def upd_env_simps)
  then show ?thesis unfolding swap by blast
qed

lemma retract_links_eq:
  "\<exists>ms. retract_links x m e = do {
     e7 \<leftarrow> (do { e4 \<leftarrow> RemoveEntityDependencies x (e\<lparr>messages := ms, factD := (factD e)\<lparr>ChangeToFactList := True\<rparr>\<rparr>);
            (_, e5) \<leftarrow> RemoveHashedFact x e4; e6 \<leftarrow> unlink_from_template x e5; unlink_from_facts x e6 });
     e8 \<leftarrow> garbage_step x m e7;
     Some (SetEvaluationError False e8) }"
proof -
  obtain ms where ms: "(let e1 = fold (\<lambda>f. say (RetractFunctionCall (fun_name f) x)) (ListOfRetractFunctions (factD e)) e;
     e2 = (if fact_watched x e1 then say (FactOff x) e1 else e1)
     in set_factD (\<lambda>d. d\<lparr>ChangeToFactList := True\<rparr>) e2) = e\<lparr>messages := ms, factD := (factD e)\<lparr>ChangeToFactList := True\<rparr>\<rparr>"
    using retract_start by blast
  show ?thesis
    by (rule exI [of _ ms]) (simp add: retract_links_def ms [symmetric] garbage_step_def Let_def case_prod_unfold)
qed

lemma SetEvaluationError_frame [simp]:
  "facts (SetEvaluationError v e) = facts e" "deftemplates (SetEvaluationError v e) = deftemplates e"
  "entities (SetEvaluationError v e) = entities e" "matches (SetEvaluationError v e) = matches e"
  "numberOfFacts (SetEvaluationError v e) = numberOfFacts e" "symbolD (SetEvaluationError v e) = symbolD e"
  "toUnsignedLong (SetEvaluationError v e) = toUnsignedLong e" "factD (SetEvaluationError v e) = factD e"
  "engineD (SetEvaluationError v e) = engineD e" "garbageF (SetEvaluationError v e) = garbageF e"
  by (simp_all add: SetEvaluationError_def set_evalD_def)

lemma support_part_retired:
  assumes s: "support_part e (P @ x # S)"
    and m: "matches e' = matches (cut_entity x e)" and n: "entities e' = entities (cut_entity x e)"
    and q: "UnsupportedDataEntities (engineD e') = UnsupportedDataEntities (engineD e)"
    and f: "\<And>y. y \<noteq> x \<Longrightarrow> map_option fact_core (facts e' y) = map_option fact_core (facts e y)"
    and x: "facts e' x = Some G" "fact_garbage G" "facts e x \<noteq> None"
  shows "support_part e' (P @ S)"
proof -
  have sup: "support e' = support (cut_entity x e)" "supported_by e' = supported_by (cut_entity x e)"
    using m n by (simp_all add: fun_eq_iff support_def supported_by_def)
  have "mirrored e'"
    using s cut_mirrored(1) [of e x] mirrored_cong [of e' "cut_entity x e"] by (simp add: support_part_def sup)
  moreover have "y \<in> set (P @ S)" if "support e' y \<noteq> []" for y
    using s that by (auto simp: support_part_def sup support_cut split: if_splits)
  moreover have "retractable e' (P @ S) y" if y: "retractable e (P @ x # S) y" for y
  proof (cases "y = x")
    case False
    obtain F where F: "facts e y = Some F" "y \<in> set (P @ x # S) \<or> fact_garbage F"
      using y by (auto simp: retractable_def)
    then obtain H where H: "facts e' y = Some H" "fact_core H = fact_core F" using f [OF False] by auto
    with False F(2) core_fields(4) [OF H(2)] show ?thesis by (auto simp: retractable_def)
  qed (use x in \<open>simp add: retractable_def\<close>)
  moreover have "entities e' y \<noteq> None" if y: "facts e' y \<noteq> None" for y
  proof -
    have "facts e y \<noteq> None" using f [of y] x(3) y by (cases "y = x"; cases "facts e y") auto
    then show ?thesis using s n by (auto simp: support_part_def cut_entity_def)
  qed
  ultimately show ?thesis using s q unfolding support_part_def by auto
qed

lemma retract_links_ok:
  assumes ok: "fact_base_ok e (P @ x # S) k"
  shows "\<exists>e' G. retract_links x m e = Some e' \<and> fact_base_ok e' (P @ S) (Suc k) \<and> engineD e' = engineD e \<and>
    fact_ids e' = fact_ids e \<and> hash_kept e e' \<and> facts e' x = Some G \<and> fact_garbage G \<and>
    NextFactIndex (factD e') = NextFactIndex (factD e)"
proof -
  obtain ms where ms: "retract_links x m e = do {
     e7 \<leftarrow> (do { e4 \<leftarrow> RemoveEntityDependencies x (e\<lparr>messages := ms, factD := (factD e)\<lparr>ChangeToFactList := True\<rparr>\<rparr>);
            (_, e5) \<leftarrow> RemoveHashedFact x e4; e6 \<leftarrow> unlink_from_template x e5; unlink_from_facts x e6 });
     e8 \<leftarrow> garbage_step x m e7; Some (SetEvaluationError False e8) }"
    using retract_links_eq by blast
  define e3 where "e3 = e\<lparr>messages := ms, factD := (factD e)\<lparr>ChangeToFactList := True\<rparr>\<rparr>"
  have ok3: "fact_base_ok e3 (P @ x # S) k" by (rule fact_base_ok_cong [OF _ _ _ _ _ _ _ _ _ _ _ _ ok]) (simp_all add: e3_def)
  have h3: "hash_kept e e3" by (rule hash_keptI) (simp_all add: e3_def)
  note parts = fact_base_okD [OF ok3]
  obtain e7 G where e7: "(do { e4 \<leftarrow> RemoveEntityDependencies x e3; (_, e5) \<leftarrow> RemoveHashedFact x e4;
        e6 \<leftarrow> unlink_from_template x e5; unlink_from_facts x e6 }) = Some e7"
      "facts e7 x = Some G" "cores (facts e7) = cores (facts e3)" "hash_kept e3 e7"
      "\<forall>t. template_sigs e7 t = template_sigs e3 t" "list_part e7 (P @ S)" "template_part e7 (P @ S)"
      "hash_part e7 (P @ S)" "engineD e7 = engineD e3" "numberOfFacts e7 = numberOfFacts e3"
      "entities e7 = entities (cut_entity x e3)" "matches e7 = matches (cut_entity x e3)"
      "NextFactIndex (factD e7) = NextFactIndex (factD e3)"
    using retract_unlinked [OF ok3] by blast
  obtain q gf where g: "garbage_step x m e7 = Some (e7\<lparr>facts := (facts e7)(x \<mapsto> G\<lparr>fact_garbage := True, nextFact := q\<rparr>), garbageF := gf\<rparr>)"
    using garbage_step_eq [OF e7(2)] by blast
  let ?G = "G\<lparr>fact_garbage := True, nextFact := q\<rparr>"
  define e' where "e' = SetEvaluationError False (e7\<lparr>facts := (facts e7)(x \<mapsto> ?G), garbageF := gf\<rparr>)"
  have eq: "facts e' = (facts e7)(x \<mapsto> ?G)" "factD e' = factD e7" "deftemplates e' = deftemplates e7"
    "engineD e' = engineD e7" "numberOfFacts e' = numberOfFacts e7" "entities e' = entities e7" "matches e' = matches e7"
    by (simp_all add: e'_def)
  have res: "retract_links x m e = Some e'"
    unfolding ms e3_def [symmetric] e7(1) using g by (simp add: e'_def)
  have h7: "hash_kept e7 e'" by (rule hash_keptI) (simp_all add: e'_def)
  have d: "distinct (P @ x # S)" using parts(1) by (simp add: facts_part_def)
  have x: "x \<notin> set (P @ S)" using d by simp
  have ot: "of_template e' t ys = of_template e7 t ys" for t ys
  proof -
    have "template_of e' y = template_of e7 y" for y using eq(1) e7(2) by (simp add: template_of_def)
    then show ?thesis by (simp add: of_template_def)
  qed
  have fp: "facts_part e' (P @ S)"
  proof (rule facts_part_change [OF parts(1) hash_kept_trans [OF e7(4) h7], where Z = "{x}"])
    show "template_sigs e' t = template_sigs e3 t" for t using e7(5) eq(3) by simp
    show "map_option fact_core (facts e' y) = map_option fact_core (facts e3 y)" if "y \<notin> {x}" for y
      using fun_cong [OF e7(3), of y] that eq(1) by (simp add: pays_of_def)
    show "fact_garbage F \<or> factIndex F = 0" if "y \<in> {x}" "facts e' y = Some F" for y F using that eq(1) by auto
    obtain F0 where F0: "facts e3 x = Some F0" "fact_core G = fact_core F0" using cores_Some_rev [OF e7(3,2)] by blast
    show "deftemplates e3 (whichDeftemplate F) \<noteq> None" if "y \<in> {x}" "facts e' y = Some F" for y F
      using that eq(1) facts_part_template [OF parts(1) F0(1)] core_fields(1) [OF F0(2)] by auto
  qed (use d in auto)
  have lp: "list_part e' (P @ S)"
    using e7(6) x eq(1,2) by (simp add: list_part_def del: dlseg_append)
  have tp: "template_part e' (P @ S)"
    using e7(7) x eq(1,3) unfolding template_part_def ot by simp
  have hp: "hash_part e' (P @ S)"
    using e7(2,8) hash_part_cong [of "P @ S" e' e7] eq(1,2) by auto
  have sp: "support_part e' (P @ S)"
  proof (rule support_part_retired [OF parts(5)])
    show "map_option fact_core (facts e' y) = map_option fact_core (facts e3 y)" if "y \<noteq> x" for y
      using fun_cong [OF e7(3), of y] that eq(1) by (simp add: pays_of_def)
  qed (use eq e7(9,11,12) parts(1) in \<open>auto simp: facts_part_def\<close>)
  have "fact_ids e' = fact_ids e7" using eq(1) e7(2) by (auto simp: fact_ids_def fun_eq_iff)
  also have "\<dots> = fact_ids e3" by (rule fact_ids_cores) (rule e7(3))
  also have "\<dots> = fact_ids e" by (simp add: e3_def fact_ids_def fun_eq_iff)
  finally have "fact_ids e' = fact_ids e" .
  moreover have "fact_base_ok e' (P @ S) (Suc k)"
    using fp lp tp hp sp parts(6) eq(5) e7(10) by (simp add: fact_base_ok_def)
  moreover have "hash_kept e e'" using h3 e7(4) h7 hash_kept_trans by metis
  ultimately show ?thesis using res eq e7(9,13) by (auto simp: e3_def)
qed

end
