(* ===== verification/Fact_Cascade.thy ===== *)
theory Fact_Cascade
  imports Fact_Retract "HOL-Library.Sublist"
begin

text \<open>
  The retraction of a fact and of everything that loses its support with it.  The driver of
  retraction and the loop over the unsupported facts call each other; both are shown to return, to
  keep the invariant of the fact base, and to leave the queue empty.
\<close>

text \<open>What a retraction leaves as it was.\<close>

definition kept :: "env \<Rightarrow> env \<Rightarrow> bool" where
  "kept e e' \<longleftrightarrow> fact_ids e' = fact_ids e \<and> hash_kept e e' \<and> NextFactIndex (factD e') = NextFactIndex (factD e)"

lemma subseq_set: "subseq xs ys \<Longrightarrow> set xs \<subseteq> set ys"
  by (induction rule: list_emb.induct) auto

lemma kept_refl [simp]: "kept e e"
  by (simp add: kept_def)

lemma kept_trans: "\<lbrakk>kept e e'; kept e' e''\<rbrakk> \<Longrightarrow> kept e e''"
  using hash_kept_trans by (auto simp: kept_def)

lemma kept_same_base: "same_base e e' \<Longrightarrow> kept e e'"
  using same_base_ids [of e e'] by (simp add: kept_def same_base_def)

lemma keptI:
  assumes "facts e' = facts e" "symbolD e' = symbolD e" "toUnsignedLong e' = toUnsignedLong e"
    "\<And>t. template_sigs e' t = template_sigs e t" "NextFactIndex (factD e') = NextFactIndex (factD e)"
  shows "kept e e'"
  using hash_keptI [OF assms(2-4)] assms(1,5) by (simp add: kept_def fact_ids_def fun_eq_iff)

lemma fact_ids_dom: "fact_ids e' = fact_ids e \<Longrightarrow> (facts e' x = None) = (facts e x = None)"
  by (drule fun_cong [of _ _ x], cases "facts e x"; cases "facts e' x") (auto simp: fact_ids_def)

lemma kept_dom: "kept e e' \<Longrightarrow> (facts e' x = None) = (facts e x = None)"
  by (rule fact_ids_dom) (simp add: kept_def)

section \<open>The stages of the driver\<close>

abbreviation entered :: "env \<Rightarrow> bool" where
  "entered e \<equiv> alreadyEntered (engineD e)"

abbreviation joining :: "env \<Rightarrow> bool" where
  "joining e \<equiv> JoinOperationInProgress (engineD e)"

abbreviation unsupported :: "env \<Rightarrow> entity_id list" where
  "unsupported e \<equiv> UnsupportedDataEntities (engineD e)"

lemma set_join_ok: "fact_base_ok e xs k \<Longrightarrow> fact_base_ok (set_join_operation v e) xs k"
  by (rule fact_base_ok_cong) (simp_all add: set_join_operation_def set_engineD_def)

lemma set_join_fields [simp]:
  "facts (set_join_operation v e) = facts e" "joining (set_join_operation v e) = v"
  "entered (set_join_operation v e) = entered e" "unsupported (set_join_operation v e) = unsupported e"
  "ExecutingRule (engineD (set_join_operation v e)) = ExecutingRule (engineD e)"
  by (simp_all add: set_join_operation_def set_engineD_def)

lemma kept_set_join [simp]: "kept e (set_join_operation v e)"
  by (rule keptI) (simp_all add: set_join_operation_def set_engineD_def)

lemma network_okD:
  assumes "network_ok N" "fact_base_ok e xs k"
  shows "\<exists>e'. net_retract N x e = Some e' \<and> net_steps e e'"
    "\<exists>e'. net_match N x e = Some e' \<and> net_steps e e'" "\<exists>e'. net_flush N e = Some e' \<and> net_steps e e'"
    "\<exists>e'. net_check N x e = Some e' \<and> net_steps e e'"
  using assms(1) fact_base_okD(5) [OF assms(2)] unfolding network_ok_def by blast+

text \<open>What one call of the network gives.\<close>

lemma net_call:
  assumes "net_steps e e'" "fact_base_ok e xs k"
  shows "fact_base_ok e' xs k" "kept e e'" "entered e' = entered e" "joining e' = joining e"
    "set (unsupported e) \<subseteq> set (unsupported e')"
  using net_steps_base [OF assms] kept_same_base [of e e'] by (auto simp: same_base_def)

lemma forget_matches:
  assumes ok: "fact_base_ok e xs k" and x: "facts e x = Some F"
  shows "upd_fact (Some x) (\<lambda>F. F\<lparr>fact_matches := []\<rparr>) e = Some (e\<lparr>facts := (facts e)(x \<mapsto> F\<lparr>fact_matches := []\<rparr>)\<rparr>)"
    "fact_base_ok (e\<lparr>facts := (facts e)(x \<mapsto> F\<lparr>fact_matches := []\<rparr>)\<rparr>) xs k"
    "kept e (e\<lparr>facts := (facts e)(x \<mapsto> F\<lparr>fact_matches := []\<rparr>)\<rparr>)"
proof -
  let ?e = "e\<lparr>facts := (facts e)(x \<mapsto> F\<lparr>fact_matches := []\<rparr>)\<rparr>"
  show "upd_fact (Some x) (\<lambda>F. F\<lparr>fact_matches := []\<rparr>) e = Some ?e" using x by (simp add: upd_env_simps)
  have pay: "pays_of matchless (facts ?e) = pays_of matchless (facts e)"
    using x by (auto simp: pays_of_def matchless_def fun_eq_iff)
  have b: "same_base e ?e" using pay by (simp add: same_base_def hash_keptI)
  have "net_frame e ?e" using b by (simp add: net_frame_def fun_eq_iff supported_by_def)
  then have "support_part ?e xs" using support_part_frame fact_base_okD(5) [OF ok] by blast
  then show "fact_base_ok ?e xs k" by (rule same_base_ok [OF b ok])
  show "kept e ?e" using b by (rule kept_same_base)
qed

lemma retract_network_ok:
  assumes N: "network_ok N" and ok: "fact_base_ok e xs k" and x: "facts e x \<noteq> None"
  shows "\<exists>e'. retract_network N x e = Some e' \<and> fact_base_ok e' xs k \<and> kept e e' \<and>
    entered e' = entered e \<and> \<not> joining e' \<and> set (unsupported e) \<subseteq> set (unsupported e')"
proof -
  let ?e0 = "set_join_operation True e"
  have ok0: "fact_base_ok ?e0 xs k" using ok by (rule set_join_ok)
  obtain e1 where e1: "net_retract N x ?e0 = Some e1" "net_steps ?e0 e1" using network_okD(1) [OF N ok0] by blast
  note c1 = net_call [OF e1(2) ok0]
  have k1: "kept e e1" using kept_trans [OF kept_set_join c1(2)] .
  have "facts e1 x \<noteq> None" using kept_dom [OF k1, of x] x by simp
  then obtain F where F: "facts e1 x = Some F" by blast
  note e2 = forget_matches [OF c1(1) F]
  define e3 where "e3 = set_join_operation False (e1\<lparr>facts := (facts e1)(x \<mapsto> F\<lparr>fact_matches := []\<rparr>)\<rparr>)"
  have ok3: "fact_base_ok e3 xs k" and k3: "kept e e3"
    using set_join_ok [OF e2(2)] kept_trans [OF kept_trans [OF k1 e2(3)] kept_set_join] by (simp_all add: e3_def)
  have fl3: "entered e3 = entered e" "\<not> joining e3" "set (unsupported e) \<subseteq> set (unsupported e3)"
    using c1(3,5) by (simp_all add: e3_def)
  obtain e4 where e4: "net_flush N e3 = Some e4" "net_steps e3 e4" using network_okD(3) [OF N ok3] by blast
  note c4 = net_call [OF e4(2) ok3]
  have "retract_network N x e = (if ExecutingRule (engineD e3) = None then net_flush N e3 else Some e3)"
    using e1(1) e2(1) by (simp add: retract_network_def e3_def Let_def)
  then show ?thesis using ok3 k3 fl3 e4(1) c4(1,3-5) kept_trans [OF k3 c4(2)] by (cases "ExecutingRule (engineD e3)") auto
qed

lemma retract_finish_ok:
  assumes ok: "fact_base_ok e xs (Suc k)" and x: "facts e x \<noteq> None"
  shows "\<exists>rv e'. retract_finish x e = Some (rv, e') \<and> fact_base_ok e' xs k \<and> kept e e' \<and> engineD e' = engineD e"
proof -
  obtain F where F: "facts e x = Some F" using x by blast
  obtain D where D: "deftemplates e (whichDeftemplate F) = Some D"
    using facts_part_template [OF fact_base_okD(1) [OF ok] F] by blast
  obtain T where T: "entities e x = Some T" using fact_base_okD(5) [OF ok] x by (auto simp: support_part_def)
  let ?rv = "if EvaluationError (evalD e) then RE_RULE_NETWORK_ERROR else RE_NO_ERROR"
  define e' where "e' = e\<lparr>numberOfFacts := numberOfFacts e - 1,
    deftemplates := (deftemplates e)(whichDeftemplate F \<mapsto> D\<lparr>template_busyCount := template_busyCount D - 1\<rparr>),
    entities := (entities e)(x \<mapsto> T\<lparr>busyCount := busyCount T - 1\<rparr>),
    factD := (factD e)\<lparr>retractError := ?rv\<rparr>\<rparr>"
  have "retract_finish x e = Some (?rv, e')"
    using F D T by (simp add: retract_finish_def FactDeinstall_def upd_env_simps Let_def set_factD_def e'_def)
  moreover have "unat (numberOfFacts e') = length xs + k"
  proof -
    have "unat (numberOfFacts e) = Suc (length xs + k)" using fact_base_okD(6) [OF ok] by simp
    then have "numberOfFacts e \<noteq> 0" by auto
    then have "unat (numberOfFacts e - 1) = unat (numberOfFacts e) - 1" by (simp add: unat_minus_one)
    then show ?thesis using fact_base_okD(6) [OF ok] by (simp add: e'_def)
  qed
  then have "fact_base_ok e' xs k"
    using D T by (intro fact_base_ok_change [OF _ _ _ _ _ _ _ _ _ _ _ _ ok]) (simp_all add: e'_def)
  moreover have "kept e e'" using D by (intro keptI) (simp_all add: e'_def template_sig_def)
  ultimately show ?thesis by (auto simp: e'_def)
qed

section \<open>The driver and the loop\<close>

lemma retract_force_driver:
  "retract_force N (Some (x, m)) e = do {
     let e0 = set_factD (\<lambda>d. d\<lparr>retractError := RE_NO_ERROR\<rparr>) e;
     F \<leftarrow> facts e0 x;
     if fact_garbage F then Some (RE_NO_ERROR, e0)
     else if joining e0
     then Some (RE_COULD_NOT_RETRACT_ERROR, set_factD (\<lambda>d. d\<lparr>retractError := RE_COULD_NOT_RETRACT_ERROR\<rparr>)
       (SetEvaluationError True (say RetractedDuringMatching e0)))
     else if factIndex F = 0 then None
     else do {
       e1 \<leftarrow> retract_links x m e0;
       e2 \<leftarrow> retract_network N x e1;
       (_, e3) \<leftarrow> (if entered e2 then Some (RE_NO_ERROR, e2)
          else retract_force N None (set_engineD (\<lambda>d. d\<lparr>alreadyEntered := True\<rparr>) e2));
       retract_finish x e3 } }"
  by (subst retract_force.simps) simp

lemma retract_force_loop:
  "retract_force N None e = (case unsupported e of
     [] \<Rightarrow> Some (RE_NO_ERROR, set_engineD (\<lambda>d. d\<lparr>alreadyEntered := False\<rparr>) e)
   | y # rest \<Rightarrow> do {
       e1 \<leftarrow> upd_entity y (\<lambda>T. T\<lparr>busyCount := busyCount T - 1\<rparr>)
         (set_engineD (\<lambda>d. d\<lparr>UnsupportedDataEntities := rest\<rparr>) e);
       (_, e2) \<leftarrow> retract_force N (Some (y, False)) e1;
       retract_force N None e2 })"
  by (subst retract_force.simps) simp

lemma retract_reset:
  assumes "fact_base_ok e xs k"
  shows "fact_base_ok (set_factD (\<lambda>d. d\<lparr>retractError := r\<rparr>) e) xs k"
    "kept e (set_factD (\<lambda>d. d\<lparr>retractError := r\<rparr>) e)"
    "engineD (set_factD (\<lambda>d. d\<lparr>retractError := r\<rparr>) e) = engineD e"
    "facts (set_factD (\<lambda>d. d\<lparr>retractError := r\<rparr>) e) = facts e"
proof -
  show "fact_base_ok (set_factD (\<lambda>d. d\<lparr>retractError := r\<rparr>) e) xs k"
    by (rule fact_base_ok_cong [OF _ _ _ _ _ _ _ _ _ _ _ _ assms]) (simp_all add: set_factD_def)
  show "kept e (set_factD (\<lambda>d. d\<lparr>retractError := r\<rparr>) e)" by (rule keptI) (simp_all add: set_factD_def)
qed (simp_all add: set_factD_def)

text \<open>Up to the retraction of the facts that lost their support.\<close>

lemma retract_stages:
  assumes N: "network_ok N" and ok: "fact_base_ok e (P @ x # S) k" and j: "\<not> joining e"
  shows "\<exists>e1 e2. retract_links x m (set_factD (\<lambda>d. d\<lparr>retractError := RE_NO_ERROR\<rparr>) e) = Some e1 \<and>
    retract_network N x e1 = Some e2 \<and> fact_base_ok e2 (P @ S) (Suc k) \<and> kept e e2 \<and> entered e2 = entered e \<and> \<not> joining e2 \<and>
    set (unsupported e) \<subseteq> set (unsupported e2)"
proof -
  let ?e0 = "set_factD (\<lambda>d. d\<lparr>retractError := RE_NO_ERROR\<rparr>) e"
  note e0 = retract_reset [OF ok, of RE_NO_ERROR]
  obtain e1 G where e1: "retract_links x m ?e0 = Some e1" "fact_base_ok e1 (P @ S) (Suc k)" "engineD e1 = engineD ?e0"
      "fact_ids e1 = fact_ids ?e0" "hash_kept ?e0 e1" "facts e1 x = Some G" "NextFactIndex (factD e1) = NextFactIndex (factD ?e0)"
    using retract_links_ok [OF e0(1)] by blast
  have k1: "kept e e1" using kept_trans [OF e0(2), of e1] e1(4,5,7) by (simp add: kept_def)
  obtain e2 where e2: "retract_network N x e1 = Some e2" "fact_base_ok e2 (P @ S) (Suc k)" "kept e1 e2"
      "entered e2 = entered e1" "\<not> joining e2" "set (unsupported e1) \<subseteq> set (unsupported e2)"
    using retract_network_ok [OF N e1(2)] e1(6) by blast
  show ?thesis using e1(1,3) e2 e0(3) kept_trans [OF k1 e2(3)] by auto
qed

lemma fact_of_list:
  assumes "fact_base_ok e xs k" "x \<in> set xs"
  shows "\<exists>F P S. xs = P @ x # S \<and> facts e x = Some F \<and> \<not> fact_garbage F \<and> factIndex F \<noteq> 0"
proof -
  obtain F where "facts e x = Some F" "\<not> fact_garbage F" "factIndex F \<noteq> 0"
    using fact_base_okD(1) [OF assms(1)] assms(2) by (auto simp: facts_part_def asserted_def)
  then show ?thesis using split_list [OF assms(2)] by blast
qed

text \<open>The driver, called from the loop: the facts that lose their support wait in the queue.\<close>

lemma driver_entered:
  assumes N: "network_ok N" and ok: "fact_base_ok e xs k" and en: "entered e" and j: "\<not> joining e"
    and x: "retractable e xs x"
  shows "\<exists>rv e' xs'. retract_force N (Some (x, m)) e = Some (rv, e') \<and> fact_base_ok e' xs' k \<and> kept e e' \<and>
    entered e' \<and> \<not> joining e' \<and> subseq xs' xs \<and> x \<notin> set xs' \<and> set (unsupported e) \<subseteq> set (unsupported e') \<and>
    (if x \<in> set xs then length xs' < length xs else xs' = xs \<and> unsupported e' = unsupported e)"
proof (cases "x \<in> set xs")
  case True
  obtain F P S where F: "xs = P @ x # S" "facts e x = Some F" "\<not> fact_garbage F" "factIndex F \<noteq> 0"
    using fact_of_list [OF ok True] by blast
  note r = retract_reset [OF ok, of RE_NO_ERROR]
  obtain e1 e2 where st: "retract_links x m (set_factD (\<lambda>d. d\<lparr>retractError := RE_NO_ERROR\<rparr>) e) = Some e1"
      "retract_network N x e1 = Some e2" "fact_base_ok e2 (P @ S) (Suc k)" "kept e e2" "entered e2" "\<not> joining e2"
      "set (unsupported e) \<subseteq> set (unsupported e2)"
    using retract_stages [OF N ok [unfolded F(1)] j] en by blast
  have "facts e2 x \<noteq> None" using kept_dom [OF st(4), of x] F(2) by simp
  then obtain rv e' where e': "retract_finish x e2 = Some (rv, e')" "fact_base_ok e' (P @ S) k" "kept e2 e'"
      "engineD e' = engineD e2"
    using retract_finish_ok [OF st(3)] by blast
  have "retract_force N (Some (x, m)) e = Some (rv, e')"
    unfolding retract_force_driver using F(2-4) j r(3,4) st(1,2,5) e'(1) by (simp add: Let_def)
  moreover have "x \<notin> set (P @ S)" using fact_base_okD(1) [OF ok] F(1) by (auto simp: facts_part_def)
  moreover have "subseq (P @ S) xs" unfolding F(1) by (intro list_emb_append_mono) auto
  ultimately show ?thesis
    using e'(2,4) st(5-7) kept_trans [OF st(4) e'(3)] F(1) True by (intro exI [of _ rv] exI [of _ e'] exI [of _ "P @ S"]) auto
next
  case False
  obtain F where F: "facts e x = Some F" "fact_garbage F" using x False by (auto simp: retractable_def)
  note r = retract_reset [OF ok, of RE_NO_ERROR]
  have "retract_force N (Some (x, m)) e = Some (RE_NO_ERROR, set_factD (\<lambda>d. d\<lparr>retractError := RE_NO_ERROR\<rparr>) e)"
    unfolding retract_force_driver using F r(4) by (simp add: Let_def)
  then show ?thesis using r False en j by auto
qed

lemma pop_ok:
  assumes ok: "fact_base_ok e xs k" and q: "unsupported e = y # rest"
  shows "\<exists>e1. upd_entity y (\<lambda>T. T\<lparr>busyCount := busyCount T - 1\<rparr>)
      (set_engineD (\<lambda>d. d\<lparr>UnsupportedDataEntities := rest\<rparr>) e) = Some e1 \<and> fact_base_ok e1 xs k \<and> kept e e1 \<and>
    retractable e1 xs y \<and> entered e1 = entered e \<and> joining e1 = joining e \<and> unsupported e1 = rest"
proof -
  have y: "retractable e xs y" and "entities e y \<noteq> None"
    using fact_base_okD(5) [OF ok] q by (auto simp: support_part_def retractable_def)
  then obtain T where T: "entities e y = Some T" by blast
  define e1 where "e1 = e\<lparr>engineD := (engineD e)\<lparr>UnsupportedDataEntities := rest\<rparr>,
    entities := (entities e)(y \<mapsto> T\<lparr>busyCount := busyCount T - 1\<rparr>)\<rparr>"
  have "upd_entity y (\<lambda>T. T\<lparr>busyCount := busyCount T - 1\<rparr>) (set_engineD (\<lambda>d. d\<lparr>UnsupportedDataEntities := rest\<rparr>) e) = Some e1"
    using T by (simp add: e1_def set_engineD_def upd_entity_def)
  moreover have "fact_base_ok e1 xs k"
    using T q fact_base_okD(6) [OF ok] by (intro fact_base_ok_change [OF _ _ _ _ _ _ _ _ _ _ _ _ ok]) (auto simp: e1_def)
  moreover have "kept e e1" by (rule keptI) (simp_all add: e1_def)
  ultimately show ?thesis using y by (auto simp: e1_def retractable_def)
qed

lemma force_loop_ok:
  assumes "network_ok N" "fact_base_ok e xs k" "entered e" "\<not> joining e"
  shows "\<exists>rv e' xs'. retract_force N None e = Some (rv, e') \<and> fact_base_ok e' xs' k \<and> kept e e' \<and>
    \<not> entered e' \<and> \<not> joining e' \<and> unsupported e' = [] \<and> subseq xs' xs \<and> set (unsupported e) \<inter> set xs' = {}"
  using assms(2-)
proof (induction "(xs, e)" arbitrary: xs e
    rule: wf_induct_rule [OF wf_measures [of "[\<lambda>p. length (fst p), \<lambda>p. length (unsupported (snd p))]"]])
  case 1
  show ?case
  proof (cases "unsupported e")
    case Nil
    let ?e = "set_engineD (\<lambda>d. d\<lparr>alreadyEntered := False\<rparr>) e"
    have "fact_base_ok ?e xs k" by (rule fact_base_ok_cong [OF _ _ _ _ _ _ _ _ _ _ _ _ 1(2)]) (simp_all add: set_engineD_def)
    moreover have "kept e ?e" by (rule keptI) (simp_all add: set_engineD_def)
    ultimately show ?thesis using Nil 1(4)
      by (intro exI [of _ RE_NO_ERROR] exI [of _ ?e] exI [of _ xs]) (simp add: retract_force_loop set_engineD_def)
  next
    case (Cons y rest)
    obtain e1 where e1: "upd_entity y (\<lambda>T. T\<lparr>busyCount := busyCount T - 1\<rparr>)
          (set_engineD (\<lambda>d. d\<lparr>UnsupportedDataEntities := rest\<rparr>) e) = Some e1" "fact_base_ok e1 xs k" "kept e e1"
        "retractable e1 xs y" "entered e1" "\<not> joining e1" "unsupported e1 = rest"
      using pop_ok [OF 1(2) Cons] 1(3,4) by auto
    obtain rv2 e2 xs2 where e2: "retract_force N (Some (y, False)) e1 = Some (rv2, e2)" "fact_base_ok e2 xs2 k" "kept e1 e2"
        "entered e2" "\<not> joining e2" "subseq xs2 xs" "y \<notin> set xs2" "set rest \<subseteq> set (unsupported e2)"
        "if y \<in> set xs then length xs2 < length xs else xs2 = xs \<and> unsupported e2 = unsupported e1"
      using driver_entered [OF assms(1) e1(2,5,6,4), of False] unfolding e1(7) by blast
    have "((xs2, e2), (xs, e)) \<in> measures [\<lambda>p. length (fst p), \<lambda>p. length (unsupported (snd p))]"
      using e2(9) e1(7) Cons by (cases "y \<in> set xs") simp_all
    then obtain rv e' xs' where e': "retract_force N None e2 = Some (rv, e')" "fact_base_ok e' xs' k" "kept e2 e'"
        "\<not> entered e'" "\<not> joining e'" "unsupported e' = []" "subseq xs' xs2" "set (unsupported e2) \<inter> set xs' = {}"
      using 1(1) e2(2,4,5) by blast
    have "retract_force N None e = Some (rv, e')"
      unfolding retract_force_loop [of N e] using Cons e1(1) e2(1) e'(1) by simp
    moreover have "kept e e'" using kept_trans [OF kept_trans [OF e1(3) e2(3)] e'(3)] .
    moreover have "subseq xs' xs" using e'(7) e2(6) by (rule subseq_order.order_trans)
    moreover have "set (unsupported e) \<inter> set xs' = {}"
      using Cons e2(7,8) e'(8) subseq_set [OF e'(7)] by auto
    ultimately show ?thesis using e'(2,4-6) by blast
  qed
qed

section \<open>Retraction of a fact\<close>

lemma enter_ok:
  assumes "fact_base_ok e xs k"
  shows "fact_base_ok (set_engineD (\<lambda>d. d\<lparr>alreadyEntered := True\<rparr>) e) xs k"
    "kept e (set_engineD (\<lambda>d. d\<lparr>alreadyEntered := True\<rparr>) e)"
    "entered (set_engineD (\<lambda>d. d\<lparr>alreadyEntered := True\<rparr>) e)"
    "joining (set_engineD (\<lambda>d. d\<lparr>alreadyEntered := True\<rparr>) e) = joining e"
    "unsupported (set_engineD (\<lambda>d. d\<lparr>alreadyEntered := True\<rparr>) e) = unsupported e"
proof -
  show "fact_base_ok (set_engineD (\<lambda>d. d\<lparr>alreadyEntered := True\<rparr>) e) xs k"
    by (rule fact_base_ok_cong [OF _ _ _ _ _ _ _ _ _ _ _ _ assms]) (simp_all add: set_engineD_def)
  show "kept e (set_engineD (\<lambda>d. d\<lparr>alreadyEntered := True\<rparr>) e)" by (rule keptI) (simp_all add: set_engineD_def)
qed (simp_all add: set_engineD_def)

lemma enter_loop_ok:
  assumes N: "network_ok N" and ok: "fact_base_ok e xs k" and j: "\<not> joining e"
  shows "\<exists>rv e' xs'. retract_force N None (set_engineD (\<lambda>d. d\<lparr>alreadyEntered := True\<rparr>) e) = Some (rv, e') \<and>
    fact_base_ok e' xs' k \<and> kept e e' \<and> \<not> entered e' \<and> \<not> joining e' \<and> unsupported e' = [] \<and> subseq xs' xs \<and>
    set (unsupported e) \<inter> set xs' = {}"
  using force_loop_ok [OF N enter_ok(1,3) [OF ok]] enter_ok(4,5) [OF ok] j kept_trans [OF enter_ok(2) [OF ok]] by metis

lemma ForceLogicalRetractions_ok:
  assumes "network_ok N" "fact_base_ok e xs k" "\<not> joining e" "\<not> entered e"
  shows "\<exists>e' xs'. ForceLogicalRetractions N e = Some e' \<and> fact_base_ok e' xs' k \<and> kept e e' \<and>
    \<not> entered e' \<and> \<not> joining e' \<and> unsupported e' = [] \<and> subseq xs' xs \<and> set (unsupported e) \<inter> set xs' = {}"
  using enter_loop_ok [OF assms(1-3)] assms(4) by (auto simp: ForceLogicalRetractions_def)

lemma RetractDriver_ok:
  assumes N: "network_ok N" and ok: "fact_base_ok e xs k" and j: "\<not> joining e" and en: "\<not> entered e"
    and x: "x \<in> set xs"
  shows "\<exists>rv e' xs'. RetractDriver N x m e = Some (rv, e') \<and> fact_base_ok e' xs' k \<and> kept e e' \<and>
    \<not> entered e' \<and> \<not> joining e' \<and> unsupported e' = [] \<and> subseq xs' (remove1 x xs)"
proof -
  obtain F P S where F: "xs = P @ x # S" "facts e x = Some F" "\<not> fact_garbage F" "factIndex F \<noteq> 0"
    using fact_of_list [OF ok x] by blast
  note r = retract_reset [OF ok, of RE_NO_ERROR]
  obtain e1 e2 where st: "retract_links x m (set_factD (\<lambda>d. d\<lparr>retractError := RE_NO_ERROR\<rparr>) e) = Some e1"
      "retract_network N x e1 = Some e2" "fact_base_ok e2 (P @ S) (Suc k)" "kept e e2" "\<not> entered e2" "\<not> joining e2"
    using retract_stages [OF N ok [unfolded F(1)] j] en by blast
  obtain rv3 e3 xs' where e3: "retract_force N None (set_engineD (\<lambda>d. d\<lparr>alreadyEntered := True\<rparr>) e2) = Some (rv3, e3)"
      "fact_base_ok e3 xs' (Suc k)" "kept e2 e3" "\<not> entered e3" "\<not> joining e3" "unsupported e3 = []" "subseq xs' (P @ S)"
    using enter_loop_ok [OF N st(3,6)] by blast
  have k3: "kept e e3" using kept_trans [OF st(4) e3(3)] .
  have "facts e3 x \<noteq> None" using kept_dom [OF k3, of x] F(2) by simp
  then obtain rv e' where e': "retract_finish x e3 = Some (rv, e')" "fact_base_ok e' xs' k" "kept e3 e'" "engineD e' = engineD e3"
    using retract_finish_ok [OF e3(2)] by blast
  have "RetractDriver N x m e = Some (rv, e')"
    unfolding RetractDriver_def retract_force_driver using F(2-4) j r(3,4) st(1,2,5) e3(1) e'(1) by (simp add: Let_def)
  moreover have "remove1 x xs = P @ S"
    using fact_base_okD(1) [OF ok] F(1) by (simp add: facts_part_def remove1_append)
  ultimately show ?thesis using e'(2,4) e3(4-7) kept_trans [OF k3 e'(3)]
    by (intro exI [of _ rv] exI [of _ e'] exI [of _ xs']) simp
qed

lemma RetractDriver_garbage:
  assumes "facts e x = Some F" "fact_garbage F"
  shows "RetractDriver N x m e = Some (RE_NO_ERROR, set_factD (\<lambda>d. d\<lparr>retractError := RE_NO_ERROR\<rparr>) e)"
  using assms by (simp add: RetractDriver_def retract_force_driver Let_def set_factD_def)

lemma RetractDriver_joining:
  assumes "facts e x = Some F" "\<not> fact_garbage F" "joining e"
  shows "\<exists>e'. RetractDriver N x m e = Some (RE_COULD_NOT_RETRACT_ERROR, e') \<and>
    facts e' = facts e \<and> engineD e' = engineD e \<and> FactList (factD e') = FactList (factD e) \<and>
    EvaluationError (evalD e') \<and> retractError (factD e') = RE_COULD_NOT_RETRACT_ERROR"
  using assms by (simp add: RetractDriver_def retract_force_driver Let_def set_factD_def say_def SetEvaluationError_def set_evalD_def)

end
