(* ===== verification/Fact_Atoms.thy ===== *)
theory Fact_Atoms
  imports Fact_Network
begin

text \<open>
  The atoms in the slots of facts.  Interning and retaining atoms keep the contents of the atoms that
  exist, so they keep the hash value of every fact; the values of a fact whose atoms exist can be hashed
  and retained.
\<close>

section \<open>Tables that only grow\<close>

definition table_extends :: "'k atom_table \<Rightarrow> 'k atom_table \<Rightarrow> bool" where
  "table_extends t t' \<longleftrightarrow> (\<forall>x n. nodes t x = Some n \<longrightarrow>
     (\<exists>n'. nodes t' x = Some n' \<and> contents n' = contents n \<and> bucket n' = bucket n))"

definition atoms_extend :: "symbolData \<Rightarrow> symbolData \<Rightarrow> bool" where
  "atoms_extend s s' \<longleftrightarrow> table_extends (SymbolTable s) (SymbolTable s') \<and> table_extends (FloatTable s) (FloatTable s') \<and>
     table_extends (IntegerTable s) (IntegerTable s') \<and> table_extends (ExternalAddressTable s) (ExternalAddressTable s')"

lemma table_extends_refl [simp]: "table_extends t t"
  by (simp add: table_extends_def)

lemma table_extends_trans: "\<lbrakk>table_extends t t'; table_extends t' t''\<rbrakk> \<Longrightarrow> table_extends t t''"
  unfolding table_extends_def by fastforce

lemma atoms_extend_refl [simp]: "atoms_extend s s"
  by (simp add: atoms_extend_def)

lemma atoms_extend_trans: "\<lbrakk>atoms_extend s s'; atoms_extend s' s''\<rbrakk> \<Longrightarrow> atoms_extend s s''"
  unfolding atoms_extend_def by (elim conjE, intro conjI) (erule (1) table_extends_trans)+

lemma table_extendsD: "\<lbrakk>table_extends t t'; nodes t x = Some n\<rbrakk> \<Longrightarrow>
    \<exists>n'. nodes t' x = Some n' \<and> contents n' = contents n \<and> bucket n' = bucket n"
  by (simp add: table_extends_def)

lemma retain_extends: "nodes t x \<noteq> None \<Longrightarrow> \<exists>t'. retain_atom x t = Some t' \<and> table_extends t t'"
  by (auto simp: retain_atom_def table_extends_def)

lemma hash_extend:
  assumes "atoms_extend (symbolD e) (symbolD e')" "toUnsignedLong e' = toUnsignedLong e"
  shows "hash_value e r i v = Some h \<Longrightarrow> hash_value e' r i v = Some h"
    and "hash_fields e r i vs = Some h \<Longrightarrow> hash_fields e' r i vs = Some h"
  using assms
proof (induction e r i v and e r i vs arbitrary: h and h rule: hash_value_hash_fields.induct)
qed (fastforce simp: atoms_extend_def table_extends_def)+

lemma hash_kept_atoms:
  assumes a: "atoms_extend (symbolD e) (symbolD e')" and u: "toUnsignedLong e' = toUnsignedLong e"
    and t: "\<And>t. template_sigs e' t = template_sigs e t"
  shows "hash_kept e e'"
proof -
  have "fact_hash e' F = Some h" if F: "fact_hash e F = Some h" for F h
  proof -
    obtain D n g where D: "deftemplates e (whichDeftemplate F) = Some D"
      "nodes (SymbolTable (symbolD e)) (template_name D) = Some n" "hash_fields e 0 0 (theProposition F) = Some g"
      "h = template_hash (bucket n) + g"
      using F by (auto simp: fact_hash_def HashMultifield_def)
    obtain D' where D': "deftemplates e' (whichDeftemplate F) = Some D'" "template_name D' = template_name D"
      using t [of "whichDeftemplate F"] D(1) by (cases "deftemplates e' (whichDeftemplate F)") (auto simp: template_sig_def)
    obtain n' where n': "nodes (SymbolTable (symbolD e')) (template_name D) = Some n'" "bucket n' = bucket n"
      using table_extendsD [OF _ D(2)] a by (auto simp: atoms_extend_def)
    show ?thesis using D D' n' hash_extend(2) [OF a u D(3)] by (simp add: fact_hash_def HashMultifield_def)
  qed
  then show ?thesis by (auto simp: hash_kept_def)
qed

section \<open>Live values\<close>

fun value_live :: "env \<Rightarrow> atom_value \<Rightarrow> bool" where
  "value_live e (LexemeAtom a) = (nodes (SymbolTable (symbolD e)) a \<noteq> None)"
| "value_live e (FloatAtom a) = (nodes (FloatTable (symbolD e)) a \<noteq> None)"
| "value_live e (IntegerAtom a) = (nodes (IntegerTable (symbolD e)) a \<noteq> None)"
| "value_live e (ExternalAddressAtom a) = (nodes (ExternalAddressTable (symbolD e)) a \<noteq> None)"
| "value_live e (FactAddressAtom a) = (entities e a \<noteq> None)"
| "value_live e (InstanceAddressAtom a) = (entities e a \<noteq> None)"
| "value_live e (MultifieldAtom vs) = (\<forall>v\<in>set vs. value_live e v)"
| "value_live e VoidAtom = True"

lemma table_extends_dom: "\<lbrakk>table_extends t t'; nodes t x \<noteq> None\<rbrakk> \<Longrightarrow> nodes t' x \<noteq> None"
  by (auto dest: table_extendsD)

lemma value_live_mono:
  assumes "atoms_extend (symbolD e) (symbolD e')" "\<And>x. entities e x \<noteq> None \<Longrightarrow> entities e' x \<noteq> None"
  shows "value_live e v \<Longrightarrow> value_live e' v"
  using assms by (induction e v rule: value_live.induct) (auto simp: atoms_extend_def dest!: table_extendsD)

lemma hash_live:
  "value_live e v \<Longrightarrow> hash_value e r i v \<noteq> None"
  "\<forall>v\<in>set vs. value_live e v \<Longrightarrow> hash_fields e r i vs \<noteq> None"
  by (induction e r i v and e r i vs rule: hash_value_hash_fields.induct) fastforce+

section \<open>Retaining the values of a fact\<close>

text \<open>The atoms gain references; nothing else changes but the reference counts of entities.\<close>

definition values_retained :: "env \<Rightarrow> env \<Rightarrow> bool" where
  "values_retained e e' \<longleftrightarrow> (\<exists>s E. e' = e\<lparr>symbolD := s, entities := E\<rparr> \<and> atoms_extend (symbolD e) s \<and>
     (\<forall>x. map_option dependents (E x) = map_option dependents (entities e x)))"

lemma values_retained_refl: "values_retained e e"
  unfolding values_retained_def by (intro exI [of _ "symbolD e"] exI [of _ "entities e"]) simp

lemma values_retained_trans: "\<lbrakk>values_retained e e'; values_retained e' e''\<rbrakk> \<Longrightarrow> values_retained e e''"
  unfolding values_retained_def using atoms_extend_trans by fastforce

lemma values_retained_live: "\<lbrakk>values_retained e e'; value_live e v\<rbrakk> \<Longrightarrow> value_live e' v"
proof (rule value_live_mono [of e e'])
  assume r: "values_retained e e'"
  then show "atoms_extend (symbolD e) (symbolD e')" by (auto simp: values_retained_def)
  show "entities e' x \<noteq> None" if x: "entities e x \<noteq> None" for x
  proof -
    have "map_option dependents (entities e' x) = map_option dependents (entities e x)"
      using r by (auto simp: values_retained_def)
    with x show ?thesis by auto
  qed
qed

lemma values_retained_symbols: "atoms_extend (symbolD e) s \<Longrightarrow> values_retained e (e\<lparr>symbolD := s\<rparr>)"
  unfolding values_retained_def by (intro exI [of _ s] exI [of _ "entities e"]) simp

lemma values_retained_entity:
  "entities e a = Some T \<Longrightarrow> values_retained e (e\<lparr>entities := (entities e)(a \<mapsto> T\<lparr>busyCount := n\<rparr>)\<rparr>)"
  unfolding values_retained_def by (intro exI [of _ "symbolD e"] exI) auto

lemma AtomInstall_ok:
  "value_live e v \<Longrightarrow> \<exists>e'. AtomInstall v e = Some e' \<and> values_retained e e'"
  "\<forall>v\<in>set vs. value_live e v \<Longrightarrow> \<exists>e'. RetainMultifield vs e = Some e' \<and> values_retained e e'"
proof (induction v e and vs e rule: AtomInstall_RetainMultifield.induct)
  case (1 a e)
  then show ?case using retain_extends [of "SymbolTable (symbolD e)" a]
    by (auto simp: RetainLexeme_def atoms_extend_def intro!: values_retained_symbols)
next
  case (2 a e)
  then show ?case using retain_extends [of "FloatTable (symbolD e)" a]
    by (auto simp: RetainFloat_def atoms_extend_def intro!: values_retained_symbols)
next
  case (3 a e)
  then show ?case using retain_extends [of "IntegerTable (symbolD e)" a]
    by (auto simp: RetainInteger_def atoms_extend_def intro!: values_retained_symbols)
next
  case (4 a e)
  then show ?case using retain_extends [of "ExternalAddressTable (symbolD e)" a]
    by (auto simp: RetainExternalAddress_def atoms_extend_def intro!: values_retained_symbols)
next
  case (5 a e)
  then show ?case by (auto simp: upd_env_simps intro: values_retained_entity)
next
  case (6 a e)
  then show ?case by (auto simp: upd_env_simps intro: values_retained_entity)
next
  case (10 v vs e)
  then obtain e1 where e1: "AtomInstall v e = Some e1" "values_retained e e1" by auto
  then have "\<forall>v\<in>set vs. value_live e1 v" using 10(3) values_retained_live by simp
  then obtain e2 where "RetainMultifield vs e1 = Some e2" "values_retained e1 e2" using 10(2) e1(1) by blast
  then show ?case using e1 values_retained_trans by auto
qed (simp_all add: values_retained_refl)

section \<open>Replacing values of no type\<close>

definition nil_filled :: "env \<Rightarrow> atom_value \<Rightarrow> atom_value \<Rightarrow> bool" where
  "nil_filled e v v' \<longleftrightarrow> (if v = VoidAtom
     then (\<exists>a. v' = LexemeAtom a \<and> atom_at (SymbolTable (symbolD e)) a = Some \<lparr>lex_type = SYMBOL_TYPE, lex_string = NIL_STRING\<rparr>)
     else v' = v)"

lemma nil_filled_mono: "\<lbrakk>nil_filled e v v'; atoms_extend (symbolD e) (symbolD e')\<rbrakk> \<Longrightarrow> nil_filled e' v v'"
  by (auto simp: nil_filled_def atoms_extend_def atom_at_def split: if_splits dest: table_extendsD)

lemma replace_voids_ok:
  assumes "symbols_ok (symbolD e)"
  shows "\<exists>vs' s. replace_voids vs e = Some (vs', e\<lparr>symbolD := s\<rparr>) \<and> symbols_ok s \<and> atoms_extend (symbolD e) s \<and>
    list_all2 (nil_filled (e\<lparr>symbolD := s\<rparr>)) vs vs'"
  using assms
proof (induction vs arbitrary: e)
  case Nil
  then show ?case by (intro exI [of _ "[]"] exI [of _ "symbolD e"]) simp
next
  case (Cons v vs)
  obtain v' s1 where v': "(if v = VoidAtom then do { (a, s) \<leftarrow> CreateSymbol (Some NIL_STRING) (symbolD e); Some (LexemeAtom a, e\<lparr>symbolD := s\<rparr>) }
      else Some (v, e)) = Some (v', e\<lparr>symbolD := s1\<rparr>)" "symbols_ok s1" "atoms_extend (symbolD e) s1"
      "nil_filled (e\<lparr>symbolD := s1\<rparr>) v v'"
  proof (cases "v = VoidAtom")
    case True
    obtain a s where s: "AddSymbol (Some NIL_STRING) SYMBOL_TYPE (symbolD e) = Some (a, s)" "symbols_ok s"
        "atom_at (SymbolTable s) a = Some \<lparr>lex_type = SYMBOL_TYPE, lex_string = NIL_STRING\<rparr>"
        "\<forall>y. nodes (SymbolTable (symbolD e)) y \<noteq> None \<longrightarrow> nodes (SymbolTable s) y = nodes (SymbolTable (symbolD e)) y"
        "s = (symbolD e)\<lparr>SymbolTable := SymbolTable s\<rparr>"
      using AddSymbol_ok [OF Cons.prems] by blast
    have "table_extends (SymbolTable (symbolD e)) (SymbolTable s)" using s(4) by (auto simp: table_extends_def)
    then have "atoms_extend (symbolD e) s" by (subst s(5)) (simp add: atoms_extend_def)
    then show ?thesis using that [of "LexemeAtom a" s] s(1-3) True by (simp add: CreateSymbol_def nil_filled_def)
  next
    case False
    then show ?thesis using that [of v "symbolD e"] Cons.prems by (simp add: nil_filled_def)
  qed
  obtain vs' s where vs': "replace_voids vs (e\<lparr>symbolD := s1\<rparr>) = Some (vs', e\<lparr>symbolD := s\<rparr>)" "symbols_ok s"
      "atoms_extend s1 s" "list_all2 (nil_filled (e\<lparr>symbolD := s\<rparr>)) vs vs'"
    using Cons.IH [of "e\<lparr>symbolD := s1\<rparr>"] v'(2) by auto
  have "nil_filled (e\<lparr>symbolD := s\<rparr>) v v'" using nil_filled_mono [OF v'(4)] vs'(3) by simp
  then show ?case using v' vs' atoms_extend_trans [OF v'(3) vs'(3)]
    by (intro exI [of _ "v' # vs'"] exI [of _ s]) simp
qed

end
