(* ===== verification/Fact_Assert.thy ===== *)
theory Fact_Assert
  imports Fact_Cascade Fact_Atoms
begin

text \<open>
  Assertion.  A fact being asserted is outside the lists until it is linked into them; \<open>pending\<close> is
  the invariant of the fact base while one fact is in that state.  Every way through the driver of
  assertion, with a duplicate, without support, or with a new fact, restores the invariant.
\<close>

section \<open>A fact outside the lists\<close>

definition pending :: "env \<Rightarrow> addr list \<Rightarrow> addr \<Rightarrow> nat \<Rightarrow> bool" where
  "pending e xs x k \<longleftrightarrow> x \<notin> set xs \<and> distinct xs \<and> facts e x \<noteq> None \<and>
     (\<forall>y\<in>set xs. \<exists>F. facts e y = Some F \<and> asserted e F) \<and>
     (\<forall>y F. facts e y = Some F \<and> y \<notin> set xs \<and> y \<noteq> x \<longrightarrow> fact_garbage F \<or> factIndex F = 0) \<and>
     (\<forall>y F. facts e y = Some F \<longrightarrow> deftemplates e (whichDeftemplate F) \<noteq> None) \<and>
     list_part e xs \<and> template_part e xs \<and> hash_part e xs \<and> support_part e (x # xs) \<and>
     unat (numberOfFacts e) = length xs + k"

lemma pendingD:
  assumes "pending e xs x k"
  shows "x \<notin> set xs" "distinct xs" "facts e x \<noteq> None" "\<And>y. y \<in> set xs \<Longrightarrow> \<exists>F. facts e y = Some F \<and> asserted e F"
    "\<And>y F. \<lbrakk>facts e y = Some F; y \<notin> set xs; y \<noteq> x\<rbrakk> \<Longrightarrow> fact_garbage F \<or> factIndex F = 0"
    "\<And>y F. facts e y = Some F \<Longrightarrow> \<exists>D. deftemplates e (whichDeftemplate F) = Some D"
    "list_part e xs" "template_part e xs" "hash_part e xs" "support_part e (x # xs)" "unat (numberOfFacts e) = length xs + k"
  using assms unfolding pending_def by auto

lemma retractable_mono: "\<lbrakk>retractable e xs x; set xs \<subseteq> set ys\<rbrakk> \<Longrightarrow> retractable e ys x"
  by (auto simp: retractable_def)

lemma support_part_mono: "\<lbrakk>support_part e xs; set xs \<subseteq> set ys\<rbrakk> \<Longrightarrow> support_part e ys"
  using retractable_mono unfolding support_part_def by blast

lemma pendingI:
  assumes ok: "fact_base_ok e xs k" and x: "facts e x \<noteq> None" "x \<notin> set xs"
  shows "pending e xs x k"
  using fact_base_okD [OF ok] x support_part_mono [of e xs "x # xs"]
  by (auto simp: pending_def facts_part_def)

text \<open>A fact that is in no list may change or be freed.\<close>

lemma unlisted_parts:
  assumes x: "x \<notin> set xs" and f: "facts e' = (facts e)(x := v)" and t: "deftemplates e' = deftemplates e"
    and h: "hash_kept e e'"
    and d: "FactList (factD e') = FactList (factD e)" "LastFact (factD e') = LastFact (factD e)"
      "FactHashTable (factD e') = FactHashTable (factD e)" "FactHashTableSize (factD e') = FactHashTableSize (factD e)"
  shows "list_part e' xs = list_part e xs" "template_part e' xs = template_part e xs" "hash_part e' xs = hash_part e xs"
    "\<And>y. \<lbrakk>y \<in> set xs; \<exists>F. facts e y = Some F \<and> asserted e F\<rbrakk> \<Longrightarrow> \<exists>F. facts e' y = Some F \<and> asserted e' F"
proof -
  have other: "facts e' y = facts e y" if "y \<in> set xs" for y using f x that by auto
  show "list_part e' xs = list_part e xs" using x f d(1,2) by (cases v) (simp_all add: list_part_def)
  have "of_template e' u xs = of_template e u xs" for u
    using other by (simp add: of_template_def template_of_def cong: filter_cong)
  then show "template_part e' xs = template_part e xs" using x f t by (cases v) (simp_all add: template_part_def)
  show "hash_part e' xs = hash_part e xs" using other d(3,4) by (intro hash_part_cong) simp_all
  show "\<exists>F. facts e' y = Some F \<and> asserted e' F" if "y \<in> set xs" "\<exists>F. facts e y = Some F \<and> asserted e F" for y
    using that other [of y] asserted_cong [OF h] t by auto
qed

text \<open>The pending fact may change; the rest of the base is kept.\<close>

lemma pending_change:
  assumes p: "pending e xs x k" and f: "facts e' = (facts e)(x \<mapsto> F)"
    and t: "deftemplates e' = deftemplates e" "deftemplates e (whichDeftemplate F) \<noteq> None"
    and h: "hash_kept e e'" and n: "numberOfFacts e' = numberOfFacts e"
    and d: "FactList (factD e') = FactList (factD e)" "LastFact (factD e') = LastFact (factD e)"
      "FactHashTable (factD e') = FactHashTable (factD e)" "FactHashTableSize (factD e') = FactHashTableSize (factD e)"
    and s: "support_part e' (x # xs)"
  shows "pending e' xs x k"
proof -
  note P = pendingD [OF p]
  note U = unlisted_parts [OF P(1) f t(1) h d]
  show ?thesis
    using P(1-3,5-11) U(1-3) U(4) [OF _ P(4)] f t n s unfolding pending_def by auto
qed

lemma pending_same:
  assumes p: "pending e xs x k" and f: "facts e' = facts e" "deftemplates e' = deftemplates e"
    and h: "hash_kept e e'" and n: "numberOfFacts e' = numberOfFacts e"
    and d: "FactList (factD e') = FactList (factD e)" "LastFact (factD e') = LastFact (factD e)"
      "FactHashTable (factD e') = FactHashTable (factD e)" "FactHashTableSize (factD e') = FactHashTableSize (factD e)"
    and s: "support_part e' (x # xs)"
  shows "pending e' xs x k"
proof -
  obtain F where F: "facts e x = Some F" using pendingD(3) [OF p] by blast
  have "facts e' = (facts e)(x \<mapsto> F)" using F f(1) by (simp add: fun_upd_idem)
  with pending_change [OF p this f(2) _ h n d s] pendingD(6) [OF p F] show ?thesis by simp
qed

lemma support_part_cong:
  assumes "\<And>y. map_option fact_garbage (facts e' y) = map_option fact_garbage (facts e y)"
    and "entities e' = entities e" "matches e' = matches e"
    and "UnsupportedDataEntities (engineD e') = UnsupportedDataEntities (engineD e)"
  shows "support_part e' ys = support_part e ys"
proof -
  have "support e' = support e" "supported_by e' = supported_by e"
    using assms(2,3) by (simp_all add: fun_eq_iff support_def supported_by_def)
  moreover have "retractable e' ys y = retractable e ys y" for y
    using assms(1) [of y] by (cases "facts e y"; cases "facts e' y") (auto simp: retractable_def)
  moreover have "(facts e' y = None) = (facts e y = None)" for y using assms(1) [of y] by (metis option.map_disc_iff)
  moreover have "mirrored e' = mirrored e" using mirrored_cong [of e' e] calculation by simp
  ultimately show ?thesis using assms(2,4) by (simp add: support_part_def del: not_None_eq)
qed

section \<open>Giving the fact up\<close>

lemma ReturnFact_pending:
  assumes p: "pending e xs x k" and s: "support e x = []" "x \<notin> set (unsupported e)"
  shows "\<exists>e'. ReturnFact x e = Some e' \<and> fact_base_ok e' xs k \<and> facts e' = (facts e)(x := None) \<and>
    engineD e' = engineD e \<and> factD e' = factD e \<and> matches e' = matches e \<and> hash_kept e e' \<and> support e' = support e"
proof -
  note P = pendingD [OF p]
  define e' where "e' = e\<lparr>facts := (facts e)(x := None), entities := (entities e)(x := None)\<rparr>"
  have r: "ReturnFact x e = Some e'" using P(3) by (auto simp: ReturnFact_def e'_def)
  have h: "hash_kept e e'" by (rule hash_keptI) (simp_all add: e'_def)
  have U: "list_part e' xs = list_part e xs" "template_part e' xs = template_part e xs" "hash_part e' xs = hash_part e xs"
    "\<And>y. \<lbrakk>y \<in> set xs; \<exists>F. facts e y = Some F \<and> asserted e F\<rbrakk> \<Longrightarrow> \<exists>F. facts e' y = Some F \<and> asserted e' F"
    by (rule unlisted_parts [OF P(1) _ _ h, of None]; simp add: e'_def)+
  have sup: "support e' = support e" "supported_by e' = supported_by e"
    using s(1) by (auto simp: e'_def fun_eq_iff support_def supported_by_def)
  have "support_part e' xs"
  proof -
    have "mirrored e'" using P(10) mirrored_cong [of e' e] sup by (simp add: support_part_def)
    moreover have "y \<in> set xs" if "support e' y \<noteq> []" for y
      using that P(10) s(1) sup(1) by (auto simp: support_part_def)
    moreover have "retractable e' xs y" if "y \<in> set (unsupported e')" for y
    proof -
      have "y \<noteq> x" "retractable e (x # xs) y" using that P(10) s(2) by (auto simp: e'_def support_part_def)
      then show ?thesis by (auto simp: retractable_def e'_def)
    qed
    ultimately show ?thesis using P(10) by (auto simp: support_part_def e'_def)
  qed
  moreover have "facts_part e' xs"
  proof -
    have "\<exists>F. facts e' y = Some F \<and> asserted e' F" if "y \<in> set xs" for y using U(4) [OF that P(4) [OF that]] .
    moreover have "fact_garbage F \<or> factIndex F = 0" if "facts e' y = Some F" "y \<notin> set xs" for y F
      using that P(5) [of y F] by (auto simp: e'_def split: if_splits)
    moreover have "deftemplates e' (whichDeftemplate F) \<noteq> None" if "facts e' y = Some F" for y F
      using that P(6) [of y F] by (auto simp: e'_def split: if_splits)
    ultimately show ?thesis using P(2) unfolding facts_part_def by blast
  qed
  ultimately have "fact_base_ok e' xs k" using P(7-9,11) U(1-3) by (simp add: fact_base_ok_def e'_def)
  then show ?thesis using r h sup by (auto simp: e'_def)
qed

section \<open>Linking the fact\<close>

lemma template_part_link:
  assumes tp: "template_part e (P @ S)" and d: "distinct (P @ x # S)"
    and t: "template_of e x = Some t" and D: "deftemplates e t = Some D"
  shows "\<exists>h D'. link_into_template (lastp None (of_template e t P)) x e =
      Some (e\<lparr>facts := h, deftemplates := (deftemplates e)(t \<mapsto> D')\<rparr>) \<and>
    pays_of template_pay h = pays_of template_pay (facts e) \<and> template_sig D' = template_sig D \<and>
    template_part (e\<lparr>facts := h, deftemplates := (deftemplates e)(t \<mapsto> D')\<rparr>) (P @ x # S)"
proof -
  let ?P = "of_template e t P" and ?S = "of_template e t S"
  let ?D = "D\<lparr>template_factList := hdp (?P @ x # ?S) None, template_lastFact := lastp None (?P @ x # ?S)\<rparr>"
  have seg: "dlseg (template_links (facts e)) None (?P @ ?S) None"
    and ends: "template_factList D = hdp (?P @ ?S) None" "template_lastFact D = lastp None (?P @ ?S)"
    using template_partD [OF tp D] unfolding of_template_split(3) by blast+
  have dt: "distinct (?P @ x # ?S)"
    using distinct_of_template [OF d, of e t] of_template_split(1) [OF t, of P S] by simp
  obtain h where h: "link_into_template (lastp None ?P) x e = Some (e\<lparr>facts := h, deftemplates := (deftemplates e)(t \<mapsto> ?D)\<rparr>)"
    "dlseg (template_links h) None (?P @ x # ?S) None" "pays_of template_pay h = pays_of template_pay (facts e)"
    "\<forall>a. a \<notin> set (?P @ x # ?S) \<longrightarrow> h a = facts e a"
    using link_into_template_eq [OF seg dt t D ends] by blast
  define e' where "e' = e\<lparr>facts := h, deftemplates := (deftemplates e)(t \<mapsto> ?D)\<rparr>"
  have ot: "of_template e' u ys = of_template e u ys" for u ys
    by (rule of_template_cong) (simp add: e'_def template_pay_cores [OF h(3)])
  have u_list: "of_template e u (P @ x # S) = of_template e u (P @ S)" if "u \<noteq> t" for u
    using of_template_split(2) [of e x u P S] that t by simp
  have "dlseg (template_links h) None (of_template e u (P @ x # S)) None" if u: "u \<noteq> t" "deftemplates e u = Some E" for u E
  proof -
    have "dlseg (template_links (facts e)) None (of_template e u (P @ S)) None"
      using template_partD(1) [OF tp u(2)] .
    moreover have "template_links h y = template_links (facts e) y" if "y \<in> set (of_template e u (P @ S))" for y
    proof -
      have "template_of e y = Some u" using that by auto
      then have "y \<notin> set (?P @ x # ?S)" using u(1) t by (auto simp: of_template_def)
      then have "h y = facts e y" using h(4) by blast
      then show ?thesis by (simp add: links_of_def)
    qed
    ultimately show ?thesis using dlseg_cong u_list [OF u(1)] by metis
  qed
  moreover have "template_factList E = hdp (of_template e u (P @ x # S)) None \<and> template_lastFact E = lastp None (of_template e u (P @ x # S))"
    if u: "u \<noteq> t" "deftemplates e u = Some E" for u E
    using template_partD(2,3) [OF tp u(2)] u_list [OF u(1)] by simp
  ultimately have "template_part e' (P @ x # S)"
    unfolding template_part_def ot using h(2) of_template_split(1) [OF t, of P S]
    by (auto simp: e'_def split: if_splits)
  moreover have "template_sig ?D = template_sig D" by (simp add: template_sig_def)
  ultimately show ?thesis using h(1,3) unfolding e'_def by blast
qed

text \<open>The place of the fact: at the end for a new one, behind its former predecessors for a modified one.\<close>

definition place :: "env \<Rightarrow> int \<Rightarrow> ptr \<Rightarrow> ptr \<Rightarrow> nat \<Rightarrow> addr list \<Rightarrow> addr list \<Rightarrow> bool" where
  "place e r fp tp t P S \<longleftrightarrow> (if r = 0 then S = [] else fp = lastp None P \<and> tp = lastp None (of_template e t P))"

lemma assert_links_ok:
  assumes p: "pending e (P @ S) x k" and F: "facts e x = Some F" "hashValue F = hv"
    and pl: "place e r fp tp (whichDeftemplate F) P S"
  shows "\<exists>e'. assert_links x hv r fp tp e = Some e' \<and> cores (facts e') = cores (facts e) \<and>
    (\<forall>t. template_sigs e' t = template_sigs e t) \<and> list_part e' (P @ x # S) \<and> template_part e' (P @ x # S) \<and>
    hash_part e' (P @ x # S) \<and> e' = e\<lparr>facts := facts e', deftemplates := deftemplates e', factD := factD e'\<rparr> \<and>
    NextFactIndex (factD e') = NextFactIndex (factD e)"
proof -
  note Q = pendingD [OF p]
  let ?t = "whichDeftemplate F"
  have d: "distinct (P @ x # S)" using Q(1,2) by auto
  have live: "\<And>y. y \<in> set (P @ S) \<Longrightarrow> facts e y \<noteq> None" using Q(4) by fastforce
  obtain D where D: "deftemplates e ?t = Some D" using Q(6) [OF F(1)] by blast
  obtain tbl n where a: "AddHashedFact x hv e = Some (set_table tbl n e)" "hash_part (set_table tbl n e) (x # P @ S)"
    using AddHashedFact_ok [OF Q(9) live F Q(1)] by blast
  define e1 where "e1 = set_table tbl n e"
  have f1: "facts e1 = facts e" "deftemplates e1 = deftemplates e" "FactList (factD e1) = FactList (factD e)"
    "LastFact (factD e1) = LastFact (factD e)" "NextFactIndex (factD e1) = NextFactIndex (factD e)"
    "e1 = e\<lparr>factD := factD e1\<rparr>"
    by (simp_all add: e1_def set_table_def set_factD_def)
  have l1: "list_part e1 (P @ S)" using Q(7) f1 by (simp add: list_part_def)
  have pos: "(if r = 0 then LastFact (factD e1) else fp) = lastp None P"
    using pl l1 by (simp add: place_def list_part_def)
  obtain h2 where l: "link_into_facts (lastp None P) x e1 = Some (e1\<lparr>facts := h2,
        factD := (factD e1)\<lparr>FactList := hdp (P @ x # S) None, LastFact := lastp None (P @ x # S)\<rparr>\<rparr>)"
      "dlseg (fact_links h2) None (P @ x # S) None" "pays_of fact_pay h2 = pays_of fact_pay (facts e1)"
    using link_into_facts_eq [OF l1 d] F(1) f1(1) by auto
  define e2 where "e2 = e1\<lparr>facts := h2,
        factD := (factD e1)\<lparr>FactList := hdp (P @ x # S) None, LastFact := lastp None (P @ x # S)\<rparr>\<rparr>"
  have c2: "cores (facts e2) = cores (facts e)" using fact_pay_cores [OF l(3)] f1(1) by (simp add: e2_def)
  have t2: "template_part e2 (P @ S)"
    using Q(8) fact_pay_template_links [OF l(3)] of_template_cong [OF c2] f1 by (simp add: template_part_def e2_def)
  have tx: "template_of e2 x = Some ?t" using template_of_cong [OF c2] F(1) by (simp add: template_of_def)
  have D2: "deftemplates e2 ?t = Some D" using D f1(2) by (simp add: e2_def)
  obtain h3 D' where k: "link_into_template (lastp None (of_template e2 ?t P)) x e2 =
        Some (e2\<lparr>facts := h3, deftemplates := (deftemplates e2)(?t \<mapsto> D')\<rparr>)"
      "pays_of template_pay h3 = pays_of template_pay (facts e2)" "template_sig D' = template_sig D"
      "template_part (e2\<lparr>facts := h3, deftemplates := (deftemplates e2)(?t \<mapsto> D')\<rparr>) (P @ x # S)"
    using template_part_link [OF t2 d tx D2] by blast
  define e3 where "e3 = e2\<lparr>facts := h3, deftemplates := (deftemplates e2)(?t \<mapsto> D')\<rparr>"
  have c3: "cores (facts e3) = cores (facts e)" using template_pay_cores [OF k(2)] c2 by (simp add: e3_def)
  obtain F2 where F2: "facts e2 x = Some F2" "whichDeftemplate F2 = ?t"
    using tx by (auto simp: template_of_def)
  have tpos: "(if r = 0 then template_lastFact D else tp) = lastp None (of_template e2 ?t P)"
    using pl of_template_cong [OF c2] template_partD(3) [OF t2 D2] by (simp add: place_def)
  have "assert_links x hv r fp tp e = Some e3"
    using a(1) [folded e1_def] pos l(1) [folded e2_def] F2 D2 tpos k(1) [folded e3_def] by (simp add: assert_links_def)
  moreover have "list_part e3 (P @ x # S)"
    using l(2) template_pay_fact_links [OF k(2)] by (simp add: list_part_def e3_def e2_def)
  moreover have "hash_part e3 (P @ x # S)"
  proof -
    have "hash_part e3 (x # P @ S) = hash_part e1 (x # P @ S)"
      using cores_hashValue [OF c3] f1(1) by (intro hash_part_cong) (simp_all add: e3_def e2_def)
    then show ?thesis using a(2) [folded e1_def] hash_part_set [of "x # P @ S" "P @ x # S"] by simp
  qed
  moreover have "e3 = e\<lparr>facts := facts e3, deftemplates := deftemplates e3, factD := factD e3\<rparr>"
    by (simp add: e3_def e2_def e1_def set_table_def set_factD_def)
  moreover have "template_sigs e3 t = template_sigs e t" for t using D2 k(3) f1(2) by (simp add: e3_def e2_def)
  ultimately show ?thesis using c3 k(4) [folded e3_def] f1(5)
    by (intro exI [of _ e3]) (simp add: e3_def e2_def)
qed

end
