(* ===== verification/Assert_Driver.thy ===== *)
theory Assert_Driver
  imports Fact_Assert
begin

text \<open>
  The driver of assertion.  A fact with a duplicate, a fact whose logical support is already gone and a
  new fact are the three ways through it; each returns and restores the invariant of the fact base.
\<close>

section \<open>The fact to assert\<close>

text \<open>A fact outside the lists, with values that fit its template and whose atoms exist.\<close>

definition arrival :: "env \<Rightarrow> addr \<Rightarrow> fact \<Rightarrow> bool" where
  "arrival e x F \<longleftrightarrow> facts e x = Some F \<and> \<not> fact_garbage F \<and> well_shaped e F \<and>
     (\<forall>v\<in>set (theProposition F). value_live e v) \<and> support e x = [] \<and> x \<notin> set (unsupported e) \<and>
     (\<forall>D. deftemplates e (whichDeftemplate F) = Some D \<longrightarrow> nodes (SymbolTable (symbolD e)) (template_name D) \<noteq> None)"

definition hashed :: "env \<Rightarrow> addr \<Rightarrow> fact \<Rightarrow> bool" where
  "hashed e x F \<longleftrightarrow> arrival e x F \<and> fact_hash e F = Some (hashValue F)"

lemma arrivalD:
  assumes "arrival e x F"
  shows "facts e x = Some F" "\<not> fact_garbage F" "well_shaped e F" "\<And>v. v \<in> set (theProposition F) \<Longrightarrow> value_live e v"
    "support e x = []" "x \<notin> set (unsupported e)"
    "\<And>D. deftemplates e (whichDeftemplate F) = Some D \<Longrightarrow> nodes (SymbolTable (symbolD e)) (template_name D) \<noteq> None"
  using assms by (simp_all add: arrival_def)

lemma nil_filled_shape:
  "nil_filled e v v' \<Longrightarrow> is_multifield v' = is_multifield v" "\<lbrakk>nil_filled e v v'; plain_multifield v\<rbrakk> \<Longrightarrow> plain_multifield v'"
  "\<lbrakk>nil_filled e v v'; value_live e v\<rbrakk> \<Longrightarrow> value_live e v'"
  by (cases "v = VoidAtom"; auto simp: nil_filled_def atom_at_def split: option.splits)+

lemma nil_filled_fits:
  assumes "list_all2 (nil_filled e) vs ws" "fits sig vs"
  shows "fits sig ws"
proof -
  have "map is_multifield ws = map is_multifield vs \<and> ((\<forall>v\<in>set vs. plain_multifield v) \<longrightarrow> (\<forall>v\<in>set ws. plain_multifield v))"
    using assms(1) by (induction rule: list_all2_induct) (auto dest: nil_filled_shape)
  then show ?thesis using assms(2) by (simp add: fits_def)
qed

lemma nil_filled_live:
  assumes "list_all2 (nil_filled e) vs ws" "\<forall>v\<in>set vs. value_live e v"
  shows "\<forall>v\<in>set ws. value_live e v"
  using assms by (induction rule: list_all2_induct) (auto dest: nil_filled_shape(3))

lemma fact_hash_live:
  assumes "deftemplates e (whichDeftemplate F) = Some D" "nodes (SymbolTable (symbolD e)) (template_name D) \<noteq> None"
    and "\<forall>v\<in>set (theProposition F). value_live e v"
  shows "fact_hash e F \<noteq> None"
  using assms(1,2) hash_live(2) [OF assms(3), of 0 0] by (auto simp: fact_hash_def HashMultifield_def)

text \<open>Filling the values of no type and hashing the fact.\<close>

lemma prepare_ok:
  assumes p: "pending e xs x k" and sy: "symbols_ok (symbolD e)" and a: "arrival e x F"
  shows "\<exists>vs s h. replace_voids (theProposition F) e = Some (vs, e\<lparr>symbolD := s\<rparr>) \<and>
    HashFact x (e\<lparr>symbolD := s, facts := (facts e)(x \<mapsto> F\<lparr>theProposition := vs\<rparr>)\<rparr>) =
      Some (h, e\<lparr>symbolD := s, facts := (facts e)(x \<mapsto> F\<lparr>theProposition := vs, hashValue := h\<rparr>)\<rparr>) \<and>
    pending (e\<lparr>symbolD := s, facts := (facts e)(x \<mapsto> F\<lparr>theProposition := vs, hashValue := h\<rparr>)\<rparr>) xs x k \<and>
    hashed (e\<lparr>symbolD := s, facts := (facts e)(x \<mapsto> F\<lparr>theProposition := vs, hashValue := h\<rparr>)\<rparr>) x (F\<lparr>theProposition := vs, hashValue := h\<rparr>) \<and>
    atoms_extend (symbolD e) s \<and> list_all2 (nil_filled (e\<lparr>symbolD := s\<rparr>)) (theProposition F) vs"
proof -
  note A = arrivalD [OF a]
  obtain vs s where v: "replace_voids (theProposition F) e = Some (vs, e\<lparr>symbolD := s\<rparr>)" "atoms_extend (symbolD e) s"
      "list_all2 (nil_filled (e\<lparr>symbolD := s\<rparr>)) (theProposition F) vs"
    using replace_voids_ok [OF sy] by blast
  let ?F = "F\<lparr>theProposition := vs\<rparr>"
  define e2 where "e2 = e\<lparr>symbolD := s, facts := (facts e)(x \<mapsto> ?F)\<rparr>"
  obtain D where D: "deftemplates e (whichDeftemplate F) = Some D" using A(3) by (auto simp: well_shaped_def)
  have mono: "value_live (e\<lparr>symbolD := s\<rparr>) w" if "value_live e w" for w
    using value_live_mono [of e "e\<lparr>symbolD := s\<rparr>"] v(2) that by simp
  then have "\<forall>w\<in>set vs. value_live (e\<lparr>symbolD := s\<rparr>) w" using nil_filled_live [OF v(3)] A(4) by blast
  moreover have view: "value_live (e\<lparr>symbolD := s, facts := h\<rparr>) w = value_live (e\<lparr>symbolD := s\<rparr>) w" for w h
    using value_live_mono [of "e\<lparr>symbolD := s, facts := h\<rparr>" "e\<lparr>symbolD := s\<rparr>" w]
      value_live_mono [of "e\<lparr>symbolD := s\<rparr>" "e\<lparr>symbolD := s, facts := h\<rparr>" w] by auto
  ultimately have live: "\<forall>w\<in>set vs. value_live (e\<lparr>symbolD := s, facts := h\<rparr>) w" for h by simp
  have node: "nodes (SymbolTable s) (template_name D) \<noteq> None"
    using table_extends_dom [of "SymbolTable (symbolD e)"] v(2) A(7) [OF D] by (simp add: atoms_extend_def)
  obtain h where h: "fact_hash e2 ?F = Some h"
    using fact_hash_live [of e2 ?F D] D node live by (auto simp: e2_def)
  let ?G = "F\<lparr>theProposition := vs, hashValue := h\<rparr>"
  define e3 where "e3 = e\<lparr>symbolD := s, facts := (facts e)(x \<mapsto> ?G)\<rparr>"
  have hk: "hash_kept e e3" using v(2) by (intro hash_kept_atoms) (simp_all add: e3_def)
  have "hash_kept e2 e3" by (rule hash_keptI) (simp_all add: e2_def e3_def)
  then have "fact_hash e3 ?F = Some h" using h by (simp add: hash_kept_def)
  then have g: "fact_hash e3 ?G = Some h" using same_contents_hash [of ?G ?F e3] by (simp add: same_contents_def)
  have "HashFact x e2 = Some (h, e3)" using h by (simp add: HashFact_def upd_env_simps e2_def e3_def)
  moreover have "support e3 = support e" by (simp add: support_def e3_def fun_eq_iff)
  moreover have "support_part e3 (x # xs)"
    using pendingD(10) [OF p] support_part_cong [of e3 e] A(1) by (simp add: e3_def)
  then have "pending e3 xs x k" using D hk by (intro pending_change [OF p, where F = ?G]) (simp_all add: e3_def)
  moreover have "well_shaped e3 ?G"
    using A(3) nil_filled_fits [OF v(3)] by (auto simp: well_shaped_def e3_def)
  ultimately have "hashed e3 x ?G" using A(2,5,6) g live node D by (simp add: hashed_def arrival_def e3_def)
  then show ?thesis using v h \<open>pending e3 xs x k\<close> \<open>HashFact x e2 = Some (h, e3)\<close>
    unfolding e2_def e3_def by blast
qed

lemma nil_filled_view: "nil_filled (assert_error v e\<lparr>symbolD := s\<rparr>) = nil_filled (e\<lparr>symbolD := s\<rparr>)"
  by (simp add: nil_filled_def fun_eq_iff)

section \<open>Giving the fact up\<close>

definition give_up :: "addr \<Rightarrow> int \<Rightarrow> env \<Rightarrow> env option" where
  "give_up x r e = (if r = 0 then ReturnFact x e else AddToGarbageFactList x e)"

text \<open>What an assertion that adds no fact leaves as it was.\<close>

definition others_kept :: "addr \<Rightarrow> env \<Rightarrow> env \<Rightarrow> bool" where
  "others_kept x e e' \<longleftrightarrow> (\<forall>y. y \<noteq> x \<longrightarrow> fact_ids e' y = fact_ids e y) \<and> hash_kept e e' \<and>
     NextFactIndex (factD e') = NextFactIndex (factD e) \<and> engineD e' = engineD e"

text \<open>A fact outside the lists that is retracted, or not asserted and not waiting, does not matter.\<close>

lemma pending_idle:
  assumes p: "pending e xs x k" and x: "facts e x = Some F" "fact_garbage F \<or> factIndex F = 0 \<and> x \<notin> set (unsupported e)"
    and s: "support e x = []"
  shows "fact_base_ok e xs k"
proof -
  note P = pendingD [OF p]
  have "retractable e xs y" if "y \<in> set (unsupported e)" "retractable e (x # xs) y" for y
    using that x by (cases "y = x") (auto simp: retractable_def)
  then have "support_part e xs" using P(10) s by (auto simp: support_part_def)
  moreover have "facts_part e xs"
    unfolding facts_part_def using P(2,4-6) x by (metis option.inject not_None_eq)
  ultimately show ?thesis using P(7-9,11) by (simp add: fact_base_ok_def)
qed

lemma give_up_ok:
  assumes p: "pending e xs x k" and a: "arrival e x F"
  shows "\<exists>e'. give_up x r e = Some e' \<and> fact_base_ok e' xs k \<and> others_kept x e e' \<and> matches e' = matches e"
proof (cases "r = 0")
  case True
  obtain e' where e': "ReturnFact x e = Some e'" "fact_base_ok e' xs k" "facts e' = (facts e)(x := None)"
      "engineD e' = engineD e" "factD e' = factD e" "matches e' = matches e" "hash_kept e e'"
    using ReturnFact_pending [OF p arrivalD(5,6) [OF a]] by blast
  then show ?thesis using True by (auto simp: give_up_def others_kept_def fact_ids_def)
next
  case False
  note A = arrivalD [OF a]
  let ?F = "F\<lparr>fact_garbage := True, nextFact := GarbageFacts (garbageF e)\<rparr>"
  obtain gf where gf: "AddToGarbageFactList x e = Some (e\<lparr>facts := (facts e)(x \<mapsto> ?F), garbageF := gf\<rparr>)"
    using A(1) by (auto simp: AddToGarbageFactList_def upd_env_simps set_garbageF_def)
  define e' where "e' = e\<lparr>facts := (facts e)(x \<mapsto> ?F), garbageF := gf\<rparr>"
  have hk: "hash_kept e e'" by (rule hash_keptI) (simp_all add: e'_def)
  have sup: "support e' = support e" "supported_by e' = supported_by e"
    by (simp_all add: support_def supported_by_def e'_def fun_eq_iff)
  have "support_part e' (x # xs)"
  proof -
    have "retractable e' (x # xs) y" if "retractable e (x # xs) y" for y
      using that by (auto simp: retractable_def e'_def)
    then show ?thesis using pendingD(10) [OF p] mirrored_cong [of e' e] sup A(1)
      by (auto simp: support_part_def e'_def)
  qed
  moreover have "deftemplates e (whichDeftemplate ?F) \<noteq> None" using A(3) by (auto simp: well_shaped_def)
  ultimately have "pending e' xs x k"
    using hk by (intro pending_change [OF p, where F = ?F]) (simp_all add: e'_def del: not_None_eq)
  then have "fact_base_ok e' xs k" using A(5) sup by (intro pending_idle [of e' xs x k ?F]) (simp_all add: e'_def)
  then show ?thesis using False gf hk by (auto simp: give_up_def others_kept_def e'_def fact_ids_def)
qed


section \<open>Duplicates and logical support\<close>

abbreviation bind_live :: "env \<Rightarrow> bool" where
  "bind_live e \<equiv> (\<forall>b. TheLogicalBind (engineD e) = Some b \<longrightarrow> matches e b \<noteq> None)"

text \<open>The base is the same; the support links may have changed.\<close>

lemma same_links_ok:
  assumes "facts e' = facts e" "deftemplates e' = deftemplates e" "symbolD e' = symbolD e" "toUnsignedLong e' = toUnsignedLong e"
    "numberOfFacts e' = numberOfFacts e" "factD e' = factD e" "garbageF e' = garbageF e"
    "alreadyEntered (engineD e') = alreadyEntered (engineD e)" "joining e' = joining e"
  shows "same_base e e'"
  using assms hash_keptI [of e' e] by (simp add: same_base_def)

lemma logical_assertion_frame:
  "facts (snd (logical_assertion x ex e)) = facts e" "deftemplates (snd (logical_assertion x ex e)) = deftemplates e"
  "symbolD (snd (logical_assertion x ex e)) = symbolD e" "toUnsignedLong (snd (logical_assertion x ex e)) = toUnsignedLong e"
  "numberOfFacts (snd (logical_assertion x ex e)) = numberOfFacts e" "factD (snd (logical_assertion x ex e)) = factD e"
  "garbageF (snd (logical_assertion x ex e)) = garbageF e" "engineD (snd (logical_assertion x ex e)) = engineD e"
  by (simp_all add: logical_assertion_def cut_entity_def add_link_def split: option.splits)

lemma logical_assertion_entities:
  "(entities (snd (logical_assertion x ex e)) y = None) = (entities e y = None)"
  by (simp add: logical_assertion_def cut_entity_def add_link_def split: option.splits)

lemma logical_assertion_support:
  "\<lbrakk>y \<noteq> x; entities e x \<noteq> None\<rbrakk> \<Longrightarrow> support (snd (logical_assertion x ex e)) y = support e y"
  by (auto simp: logical_assertion_def support_cut support_add_link deleted_match_def split: option.splits)

lemma logical_assertion_part:
  assumes s: "support_part e ys" and x: "x \<in> set ys" "entities e x \<noteq> None"
  shows "support_part (snd (logical_assertion x ex e)) ys"
proof -
  let ?e = "snd (logical_assertion x ex e)"
  have "mirrored ?e" using s x(2) logical_assertion_mirrored by (simp add: support_part_def)
  moreover have "y \<in> set ys" if "support ?e y \<noteq> []" for y
    using that s x logical_assertion_support [of y x e ex] by (cases "y = x") (auto simp: support_part_def)
  moreover have "retractable ?e ys y = retractable e ys y" for y
    by (simp add: retractable_def logical_assertion_frame)
  ultimately show ?thesis using s logical_assertion_entities
    by (auto simp: support_part_def logical_assertion_frame simp del: not_None_eq)
qed

lemma duplicate_support_ok:
  assumes ok: "fact_base_ok e xs k" and y: "y \<in> set xs" and b: "bind_live e"
  shows "\<exists>r e'. AddLogicalDependencies y True e = Some (r, e') \<and> fact_base_ok e' xs k \<and> kept e e' \<and> engineD e' = engineD e"
proof -
  let ?e = "snd (logical_assertion y True e)"
  have s: "support_part e xs" using fact_base_okD(5) [OF ok] .
  obtain F where F: "facts e y = Some F" using fact_of_list [OF ok y] by blast
  have n: "entities e y \<noteq> None" using s F by (simp add: support_part_def)
  have "AddLogicalDependencies y True e = Some (fst (logical_assertion y True e), ?e)"
    using AddLogicalDependencies_eq [OF _ n] s b by (simp add: support_part_def)
  moreover have "same_base e ?e" by (rule same_links_ok) (simp_all add: logical_assertion_frame)
  ultimately show ?thesis
    using same_base_ok [OF _ ok logical_assertion_part [OF s y n]] kept_same_base logical_assertion_frame(8) by blast
qed

text \<open>The fact gets its support, or there is none to give.\<close>

definition supportable :: "env \<Rightarrow> bool" where
  "supportable e \<longleftrightarrow> TheLogicalJoin (engineD e) = None \<or> (\<exists>b. TheLogicalBind (engineD e) = Some b \<and> \<not> deleted_match e b)"

lemma logical_assertion_supportable: "fst (logical_assertion x False e) = supportable e"
  by (auto simp: logical_assertion_def supportable_def split: option.splits)

lemma newcomer_support_ok:
  assumes p: "pending e xs x k" and h: "hashed e x F" and b: "bind_live e"
  shows "\<exists>e'. AddLogicalDependencies x False e = Some (supportable e, e') \<and> pending e' xs x k \<and> facts e' = facts e \<and>
    deftemplates e' = deftemplates e \<and> symbolD e' = symbolD e \<and> toUnsignedLong e' = toUnsignedLong e \<and>
    factD e' = factD e \<and> engineD e' = engineD e \<and> (\<forall>y. (entities e' y = None) = (entities e y = None)) \<and> (\<not> supportable e \<longrightarrow> e' = e)"
proof -
  let ?e = "snd (logical_assertion x False e)"
  note P = pendingD [OF p]
  have F: "facts e x = Some F" using h by (simp add: hashed_def arrival_def)
  have n: "entities e x \<noteq> None" using P(10) F by (simp add: support_part_def)
  have "AddLogicalDependencies x False e = Some (supportable e, ?e)"
    using AddLogicalDependencies_eq [OF _ n] P(10) b logical_assertion_supportable [of x e]
    by (metis prod.collapse support_part_def)
  moreover have "support_part ?e (x # xs)" using logical_assertion_part [OF P(10) _ n] by simp
  moreover have "hash_kept e ?e" by (rule hash_keptI) (simp_all add: logical_assertion_frame)
  ultimately have "pending ?e xs x k" by (intro pending_same [OF p]) (simp_all add: logical_assertion_frame)
  moreover have "\<not> supportable e \<Longrightarrow> ?e = e"
    unfolding logical_assertion_supportable [of x e, symmetric]
    by (auto simp: logical_assertion_def split: option.splits if_splits)
  ultimately show ?thesis using \<open>AddLogicalDependencies x False e = _\<close> logical_assertion_entities
    by (intro exI [of _ ?e]) (auto simp: logical_assertion_frame)
qed


section \<open>A new fact\<close>

lemma place_cong:
  assumes "\<And>y. y \<in> set P \<Longrightarrow> template_of e' y = template_of e y"
  shows "place e' r fp tp t P S = place e r fp tp t P S"
proof -
  have "of_template e' t P = of_template e t P" using assms by (simp add: of_template_def cong: filter_cong)
  then show ?thesis by (simp add: place_def)
qed

text \<open>The index given to the fact.\<close>

definition new_index :: "int \<Rightarrow> env \<Rightarrow> int" where
  "new_index r e = (if r > 0 then r else NextFactIndex (factD e))"

text \<open>The fact, in the lists and with an index, is counted and its values are retained.\<close>

lemma index_eq:
  assumes "facts e x = Some F" "entities e x = Some T"
  shows "assert_index x r e = Some (e\<lparr>facts := (facts e)(x \<mapsto> F\<lparr>factIndex := new_index r e\<rparr>),
      factD := (factD e)\<lparr>NextFactIndex := (if r > 0 then NextFactIndex (factD e) else NextFactIndex (factD e) + 1)\<rparr>,
      CurrentEntityTimeTag := CurrentEntityTimeTag e + 1,
      entities := (entities e)(x \<mapsto> T\<lparr>timeTag := CurrentEntityTimeTag e\<rparr>)\<rparr>)"
  using assms by (simp add: assert_index_def new_index_def upd_env_simps set_factD_def)

lemma install_eq:
  assumes F: "facts e x = Some F" and T: "entities e x = Some T" and D: "deftemplates e (whichDeftemplate F) = Some D"
    and live: "\<forall>v\<in>set (theProposition F). value_live e v"
  shows "\<exists>s E. assert_install x r e = Some (e\<lparr>numberOfFacts := numberOfFacts e + 1,
      deftemplates := (deftemplates e)(whichDeftemplate F \<mapsto> D\<lparr>template_busyCount := template_busyCount D + 1\<rparr>),
      entities := E, symbolD := s\<rparr>) \<and> atoms_extend (symbolD e) s \<and>
    (\<forall>y. map_option dependents (E y) = map_option dependents (entities e y))"
proof -
  define e1 where "e1 = e\<lparr>numberOfFacts := numberOfFacts e + 1,
      deftemplates := (deftemplates e)(whichDeftemplate F \<mapsto> D\<lparr>template_busyCount := template_busyCount D + 1\<rparr>),
      entities := (entities e)(x \<mapsto> T\<lparr>busyCount := busyCount T + 1\<rparr>)\<rparr>"
  have e1: "FactInstall x e = Some e1" using assms by (simp add: FactInstall_def upd_env_simps e1_def)
  have "value_live e1 v" if "v \<in> set (theProposition F)" for v
    using value_live_mono [of e e1 v] live that by (simp add: e1_def)
  then obtain e2 where e2: "RetainMultifield (theProposition F) e1 = Some e2" "values_retained e1 e2"
    using AtomInstall_ok(2) [of "theProposition F" e1] by blast
  obtain s E where sE: "e2 = e1\<lparr>symbolD := s, entities := E\<rparr>" "atoms_extend (symbolD e1) s"
      "\<forall>y. map_option dependents (E y) = map_option dependents (entities e1 y)"
    using e2(2) by (auto simp: values_retained_def)
  have dep: "map_option dependents (entities e1 y) = map_option dependents (entities e y)" for y
    using T by (simp add: e1_def)
  show ?thesis
  proof (cases "r = 0")
    case True
    then show ?thesis using e1 e2(1) sE F dep
      by (intro exI [of _ s] exI [of _ E]) (simp add: assert_install_def e1_def)
  next
    case False
    then show ?thesis using e1 F dep
      by (intro exI [of _ "symbolD e"] exI [of _ "entities e1"]) (simp add: assert_install_def e1_def)
  qed
qed


lemma unat_plus_one: "unat (w :: u64) + 1 < 2 ^ 64 \<Longrightarrow> unat (w + 1) = unat w + 1"
  by (simp add: unat_word_ariths)

text \<open>The fact in the lists, once it has its index and is counted.\<close>

lemma indexed_facts:
  assumes p: "pending e (P @ S) x k" and F: "facts e x = Some F" "\<not> fact_garbage F" "well_shaped e F" "fact_hash e F = Some (hashValue F)"
    and c: "cores h = cores (facts e)" and f: "facts e' = h(x \<mapsto> G\<lparr>factIndex := i\<rparr>)" "h x = Some G" "i \<noteq> 0"
    and hk: "hash_kept e e'" and t: "\<And>t. template_sigs e' t = template_sigs e t"
  shows "facts_part e' (P @ x # S)"
proof -
  note Q = pendingD [OF p]
  let ?G = "G\<lparr>factIndex := i\<rparr>"
  obtain F' where "facts e x = Some F'" "fact_core G = fact_core F'" using cores_Some_rev [OF c f(2)] by blast
  then have core: "fact_core G = fact_core F" using F(1) by simp
  have same: "map_option fact_core (facts e' y) = map_option fact_core (facts e y)" if "y \<noteq> x" for y
    using fun_cong [OF c, of y] that f(1) by (simp add: pays_of_def)
  have "fact_hash e' ?G = fact_hash e' F"
    using same_contents_hash [of ?G F e'] core_fields(1,5) [OF core] by (simp add: same_contents_def)
  moreover have "fact_hash e' F = Some (hashValue F)" using F(4) hk by (simp add: hash_kept_def)
  ultimately have x: "asserted e' ?G"
    using F(2,3) core_fields [OF core] f(3) t by (simp add: asserted_def well_shaped_def)
  have "\<exists>H. facts e' y = Some H \<and> asserted e' H" if y: "y \<in> set (P @ x # S)" for y
  proof (cases "y = x")
    case False
    then obtain Y where Y: "facts e y = Some Y" "asserted e Y" using Q(4) [of y] y by auto
    then obtain H where "facts e' y = Some H" "fact_core H = fact_core Y" using same [OF False] by auto
    then show ?thesis using asserted_cong [OF hk t _ Y(2)] by blast
  qed (use x f(1) in simp)
  moreover have "fact_garbage H \<or> factIndex H = 0" if y: "facts e' y = Some H" "y \<notin> set (P @ x # S)" for y H
  proof -
    have "y \<noteq> x" using y(2) by auto
    then obtain Y where Y: "facts e y = Some Y" "fact_core H = fact_core Y"
      using same [of y] y(1) by (cases "facts e y") auto
    then show ?thesis using Q(5) [OF Y(1)] y(2) \<open>y \<noteq> x\<close> core_fields(2,4) [OF Y(2)] by simp
  qed
  moreover have "deftemplates e' (whichDeftemplate H) \<noteq> None" if y: "facts e' y = Some H" for y H
  proof -
    obtain Y where "facts e y = Some Y" "whichDeftemplate H = whichDeftemplate Y"
    proof (cases "y = x")
      case True
      then show ?thesis using that [of F] F(1) y f(1) core_fields(1) [OF core] by auto
    next
      case False
      then obtain Y where "facts e y = Some Y" "fact_core H = fact_core Y"
        using same [of y] y by (cases "facts e y") auto
      then show ?thesis using that core_fields(1) by blast
    qed
    then show ?thesis using Q(6) t [of "whichDeftemplate Y"] by (metis map_option_is_None option.distinct(1))
  qed
  ultimately show ?thesis using Q(1,2) unfolding facts_part_def by auto
qed

lemma indexed_ok:
  assumes p: "pending e (P @ S) x k" and F: "facts e x = Some F" "\<not> fact_garbage F" "well_shaped e F" "fact_hash e F = Some (hashValue F)"
    and c: "cores (facts e5) = cores (facts e)" and t: "\<forall>t. template_sigs e5 t = template_sigs e t"
    and parts: "list_part e5 (P @ x # S)" "template_part e5 (P @ x # S)" "hash_part e5 (P @ x # S)"
    and e5: "e5 = e\<lparr>facts := facts e5, deftemplates := deftemplates e5, factD := factD e5\<rparr>"
    and G: "facts e5 x = Some G" and i: "i \<noteq> 0" and n: "length (P @ S) + k + 1 < 2 ^ 64"
  shows "fact_base_ok (e5\<lparr>facts := (facts e5)(x \<mapsto> G\<lparr>factIndex := i\<rparr>), factD := (factD e5)\<lparr>NextFactIndex := j\<rparr>,
    CurrentEntityTimeTag := tag, numberOfFacts := numberOfFacts e5 + 1\<rparr>) (P @ x # S) k" (is "fact_base_ok ?e _ _")
proof -
  note Q = pendingD [OF p]
  obtain F' where "facts e x = Some F'" "fact_core G = fact_core F'" using cores_Some_rev [OF c G] by blast
  then have core: "fact_core G = fact_core F" using F(1) by simp
  have fields: "symbolD e5 = symbolD e" "toUnsignedLong e5 = toUnsignedLong e" "entities e5 = entities e" "matches e5 = matches e"
    "engineD e5 = engineD e" "numberOfFacts e5 = numberOfFacts e"
    by (subst e5, simp)+
  have hk: "hash_kept e ?e" using fields t by (intro hash_keptI) simp_all
  have "facts_part ?e (P @ x # S)"
    by (rule indexed_facts [OF p F c _ G i hk]) (simp_all add: t)
  moreover have "fact_links (facts ?e) = fact_links (facts e5)" "template_links (facts ?e) = template_links (facts e5)"
    using G by (auto simp: links_of_def fun_eq_iff)
  then have "list_part ?e (P @ x # S)" and tl: "template_links (facts ?e) = template_links (facts e5)"
    using parts(1) by (simp_all add: list_part_def)
  moreover have "template_of ?e y = template_of e5 y" for y using G by (simp add: template_of_def)
  then have "of_template ?e u ys = of_template e5 u ys" for u ys by (simp add: of_template_def)
  then have "template_part ?e (P @ x # S)" using parts(2) tl unfolding template_part_def by simp
  moreover have "hash_part ?e (P @ x # S)"
    using parts(3) G hash_part_cong [of "P @ x # S" ?e e5] by auto
  moreover have "support_part ?e (P @ x # S)"
  proof -
    have "map_option fact_garbage (facts ?e y) = map_option fact_garbage (facts e y)" for y
    proof (cases "y = x")
      case False
      then show ?thesis by (cases rule: cores_cases [OF c, of y]) (auto dest: core_fields(4))
    qed (use F(1) core_fields(4) [OF core] in simp)
    then have "support_part ?e (P @ x # S) = support_part e (P @ x # S)"
      using fields by (intro support_part_cong) simp_all
    moreover have "support_part e (P @ x # S)" using support_part_mono [OF Q(10), of "P @ x # S"] by auto
    ultimately show ?thesis by simp
  qed
  moreover have "unat (numberOfFacts e + 1) = unat (numberOfFacts e) + 1"
    by (rule unat_plus_one) (use n Q(11) in simp)
  then have "unat (numberOfFacts ?e) = length (P @ x # S) + k" using Q(11) fields(6) by simp
  ultimately show ?thesis by (simp add: fact_base_ok_def)
qed


text \<open>The index of the next fact after an assertion.\<close>

definition next_index :: "int \<Rightarrow> env \<Rightarrow> int" where
  "next_index r e = (if r > 0 then NextFactIndex (factD e) else NextFactIndex (factD e) + 1)"

definition insert_fact :: "addr \<Rightarrow> u64 \<Rightarrow> int \<Rightarrow> ptr \<Rightarrow> ptr \<Rightarrow> env \<Rightarrow> env option" where
  "insert_fact x hv r fp tp e = do {
     e5 \<leftarrow> assert_links x hv r fp tp e;
     e6 \<leftarrow> assert_index x r e5;
     assert_install x r e6 }"

lemma insert_fact_ok:
  assumes p: "pending e (P @ S) x k" and F: "facts e x = Some F" "\<not> fact_garbage F" "well_shaped e F" "fact_hash e F = Some (hashValue F)"
    and live: "\<forall>v\<in>set (theProposition F). value_live e v"
    and pl: "place e r fp tp (whichDeftemplate F) P S" and i: "new_index r e \<noteq> 0" and n: "length (P @ S) + k + 1 < 2 ^ 64"
  shows "\<exists>e'. insert_fact x (hashValue F) r fp tp e = Some e' \<and> fact_base_ok e' (P @ x # S) k \<and> hash_kept e e' \<and> engineD e' = engineD e \<and>
    fact_ids e' = (fact_ids e)(x \<mapsto> (whichDeftemplate F, new_index r e, theProposition F)) \<and>
    NextFactIndex (factD e') = next_index r e"
proof -
  obtain e5 where e5: "assert_links x (hashValue F) r fp tp e = Some e5" "cores (facts e5) = cores (facts e)"
      "\<forall>t. template_sigs e5 t = template_sigs e t" "list_part e5 (P @ x # S)" "template_part e5 (P @ x # S)" "hash_part e5 (P @ x # S)"
      "e5 = e\<lparr>facts := facts e5, deftemplates := deftemplates e5, factD := factD e5\<rparr>"
      "NextFactIndex (factD e5) = NextFactIndex (factD e)"
    using assert_links_ok [OF p F(1) refl pl] by blast
  obtain G where G: "facts e5 x = Some G" "fact_core G = fact_core F" using cores_Some [OF e5(2) F(1)] by blast
  obtain D where D: "deftemplates e5 (whichDeftemplate F) = Some D"
    using F(3) e5(3) [rule_format, of "whichDeftemplate F"] by (cases "deftemplates e5 (whichDeftemplate F)") (auto simp: well_shaped_def)
  obtain T where T: "entities e x = Some T" using pendingD(10) [OF p] F(1) by (auto simp: support_part_def)
  have fields: "symbolD e5 = symbolD e" "toUnsignedLong e5 = toUnsignedLong e" "entities e5 = entities e" "engineD e5 = engineD e"
    by (subst e5(7), simp)+
  have ni: "new_index r e5 = new_index r e" "next_index r e5 = next_index r e" using e5(8) by (simp_all add: new_index_def next_index_def)
  let ?G = "G\<lparr>factIndex := new_index r e\<rparr>"
  define a where "a = e5\<lparr>facts := (facts e5)(x \<mapsto> ?G), factD := (factD e5)\<lparr>NextFactIndex := next_index r e\<rparr>,
    CurrentEntityTimeTag := CurrentEntityTimeTag e5 + 1, numberOfFacts := numberOfFacts e5 + 1\<rparr>"
  have oka: "fact_base_ok a (P @ x # S) k" unfolding a_def by (rule indexed_ok [OF p F e5(2-7) G(1) i n])
  define e6 where "e6 = e5\<lparr>facts := (facts e5)(x \<mapsto> ?G), factD := (factD e5)\<lparr>NextFactIndex := next_index r e\<rparr>,
    CurrentEntityTimeTag := CurrentEntityTimeTag e5 + 1, entities := (entities e5)(x \<mapsto> T\<lparr>timeTag := CurrentEntityTimeTag e5\<rparr>)\<rparr>"
  have s6: "assert_index x r e5 = Some e6" using index_eq [OF G(1), of T r] T fields(3) ni e5(8) by (simp add: e6_def next_index_def)
  have "\<forall>v\<in>set (theProposition ?G). value_live e6 v"
    using value_live_mono [of e e6] live core_fields(5) [OF G(2)] fields by (auto simp: e6_def)
  then obtain s E where s7: "assert_install x r e6 = Some (e6\<lparr>numberOfFacts := numberOfFacts e6 + 1,
      deftemplates := (deftemplates e6)(whichDeftemplate ?G \<mapsto> D\<lparr>template_busyCount := template_busyCount D + 1\<rparr>),
      entities := E, symbolD := s\<rparr>)" "atoms_extend (symbolD e6) s"
      "\<forall>y. map_option dependents (E y) = map_option dependents (entities e6 y)"
    using install_eq [of e6 x ?G "T\<lparr>timeTag := CurrentEntityTimeTag e5\<rparr>" D r] D core_fields(1) [OF G(2)] by (auto simp: e6_def)
  define e7 where "e7 = e6\<lparr>numberOfFacts := numberOfFacts e6 + 1,
      deftemplates := (deftemplates e6)(whichDeftemplate ?G \<mapsto> D\<lparr>template_busyCount := template_busyCount D + 1\<rparr>),
      entities := E, symbolD := s\<rparr>"
  let ?b = "a\<lparr>symbolD := s\<rparr>"
  have hk: "hash_kept a ?b" using s7(2) by (intro hash_kept_atoms) (simp_all add: a_def e6_def)
  have "same_base a ?b" using hk by (simp add: same_base_def)
  moreover have "support_part ?b (P @ x # S)" using fact_base_okD(5) [OF oka] support_part_cong [of ?b a] by simp
  ultimately have okb: "fact_base_ok ?b (P @ x # S) k" using same_base_ok [OF _ oka] by blast
  have dep: "map_option dependents (E y) = map_option dependents (entities e5 y)" for y
    using s7(3) T fields(3) by (simp add: e6_def)
  have "fact_base_ok e7 (P @ x # S) k"
    using D core_fields(1) [OF G(2)] dep fact_base_okD(6) [OF okb]
    by (intro fact_base_ok_change [OF _ _ _ _ _ _ _ _ _ _ _ _ okb]) (simp_all add: e7_def e6_def a_def)
  moreover have "insert_fact x (hashValue F) r fp tp e = Some e7"
    using e5(1) s6 s7(1) by (simp add: insert_fact_def e7_def)
  moreover have "template_sigs e7 t = template_sigs e t" for t
    using e5(3) [rule_format, of t] D core_fields(1) [OF G(2)] by (auto simp: e7_def e6_def template_sig_def)
  then have "hash_kept e e7" using s7(2) fields by (intro hash_kept_atoms) (simp_all add: e7_def e6_def)
  moreover have "fact_ids e7 = (fact_ids e5)(x \<mapsto> (whichDeftemplate F, new_index r e, theProposition F))"
    using core_fields(1,5) [OF G(2)] by (auto simp: fact_ids_def e7_def e6_def fun_eq_iff)
  ultimately show ?thesis using fact_ids_cores [OF e5(2)] fields(4)
    by (intro exI [of _ e7]) (simp add: e7_def e6_def)
qed

section \<open>The network\<close>

text \<open>Freeing partial matches takes no support away: it only cuts links.\<close>

definition flush_keeps :: "network \<Rightarrow> bool" where
  "flush_keeps N \<longleftrightarrow> (\<forall>e e'. net_flush N e = Some e' \<longrightarrow> unsupported e' = unsupported e)"

lemma assert_start:
  "\<exists>ms. (let e1 = fold (\<lambda>f. say (AssertFunctionCall (fun_name f) x)) (ListOfAssertFunctions (factD e)) e;
     e2 = (if fact_watched x e1 then say (FactOn x) e1 else e1)
     in set_factD (\<lambda>d. d\<lparr>ChangeToFactList := True\<rparr>) e2)
   = e\<lparr>messages := ms, factD := (factD e)\<lparr>ChangeToFactList := True\<rparr>\<rparr>"
  by (auto simp: Let_def fold_say set_factD_def say_def)

lemma SetEvaluationError_ok:
  assumes "fact_base_ok e xs k"
  shows "fact_base_ok (SetEvaluationError v e) xs k" "kept e (SetEvaluationError v e)"
  using assms by (auto intro: fact_base_ok_cong [of "SetEvaluationError v e" e] keptI)

lemma assert_error_ok:
  assumes "fact_base_ok e xs k"
  shows "fact_base_ok (assert_error v e) xs k" "kept e (assert_error v e)" "engineD (assert_error v e) = engineD e"
proof -
  show "fact_base_ok (assert_error v e) xs k"
    by (rule fact_base_ok_cong [OF _ _ _ _ _ _ _ _ _ _ _ _ assms]) (simp_all add: assert_error_def set_factD_def)
  show "kept e (assert_error v e)" by (rule keptI) (simp_all add: assert_error_def set_factD_def)
qed (simp add: assert_error_def set_factD_def)

lemma assert_network_ok:
  assumes N: "network_ok N" "flush_keeps N" and ok: "fact_base_ok e xs k" and j: "\<not> joining e" "\<not> entered e"
  shows "\<exists>e' xs'. assert_network N x e = Some e' \<and> fact_base_ok e' xs' k \<and> kept e e' \<and> subseq xs' xs \<and>
    \<not> joining e' \<and> \<not> entered e' \<and> unsupported e' = []"
proof -
  obtain ms where ms: "(let e1 = fold (\<lambda>f. say (AssertFunctionCall (fun_name f) x)) (ListOfAssertFunctions (factD e)) e;
     e2 = (if fact_watched x e1 then say (FactOn x) e1 else e1)
     in set_factD (\<lambda>d. d\<lparr>ChangeToFactList := True\<rparr>) e2) = e\<lparr>messages := ms, factD := (factD e)\<lparr>ChangeToFactList := True\<rparr>\<rparr>"
    using assert_start by blast
  define e3 where "e3 = e\<lparr>messages := ms, factD := (factD e)\<lparr>ChangeToFactList := True\<rparr>\<rparr>"
  have ok3: "fact_base_ok e3 xs k" by (rule fact_base_ok_cong [OF _ _ _ _ _ _ _ _ _ _ _ _ ok]) (simp_all add: e3_def)
  have k3: "kept e e3" by (rule keptI) (simp_all add: e3_def)
  have j3: "\<not> entered e3" using j by (simp add: e3_def)
  obtain e4 where e4: "net_check N x e3 = Some e4" "net_steps e3 e4" using network_okD(4) [OF N(1) ok3] by blast
  note c4 = net_call [OF e4(2) ok3]
  define m where "m = set_join_operation True (SetEvaluationError False e4)"
  have okm: "fact_base_ok m xs k" "kept e m" "\<not> entered m"
    using set_join_ok [OF SetEvaluationError_ok(1) [OF c4(1)]] c4(3) j3
      kept_trans [OF kept_trans [OF kept_trans [OF k3 c4(2)] SetEvaluationError_ok(2) [OF c4(1)]] kept_set_join]
    by (simp_all add: m_def)
  obtain e5 where e5: "net_match N x m = Some e5" "net_steps m e5" using network_okD(2) [OF N(1) okm(1)] by blast
  note c5 = net_call [OF e5(2) okm(1)]
  let ?f = "set_join_operation False e5"
  obtain e6 xs' where e6: "ForceLogicalRetractions N ?f = Some e6" "fact_base_ok e6 xs' k" "kept ?f e6" "\<not> entered e6"
      "\<not> joining e6" "unsupported e6 = []" "subseq xs' xs"
    using ForceLogicalRetractions_ok [OF N(1) set_join_ok [OF c5(1), of False]] okm(3) c5(3) by auto
  have k6: "kept e e6" using kept_trans [OF kept_trans [OF kept_trans [OF okm(2) c5(2)] kept_set_join] e6(3)] .
  obtain e7 where e7: "(if ExecutingRule (engineD e6) = None then net_flush N e6 else Some e6) = Some e7"
      "fact_base_ok e7 xs' k" "kept e6 e7" "\<not> entered e7" "\<not> joining e7" "unsupported e7 = []"
  proof (cases "ExecutingRule (engineD e6) = None")
    case True
    obtain f where f: "net_flush N e6 = Some f" "net_steps e6 f" using network_okD(3) [OF N(1) e6(2)] by blast
    note cf = net_call [OF f(2) e6(2)]
    show ?thesis using that [of f] True f(1) cf(1-4) e6(4-6) N(2) by (simp add: flush_keeps_def)
  qed (use that [of e6] e6 in auto)
  define e8 where "e8 = (if EvaluationError (evalD e7) then assert_error AE_RULE_NETWORK_ERROR e7 else e7)"
  have "assert_network N x e = Some e8"
    unfolding assert_network_def ms [unfolded Let_def, folded e3_def] Let_def
    using ms [folded e3_def] e4(1) e5(1) [unfolded m_def] e6(1) e7(1) by (simp add: e8_def Let_def del: bind_eq_Some)
  moreover have "fact_base_ok e8 xs' k" "kept e7 e8" "engineD e8 = engineD e7"
    using assert_error_ok [OF e7(2)] e7(2) by (simp_all add: e8_def)
  ultimately show ?thesis using e7(4-6) e6(7) kept_trans [OF kept_trans [OF k6 e7(3)]] by auto
qed


section \<open>The driver\<close>

text \<open>A fact with the template and the values given, whatever its index.\<close>

definition holds :: "env \<Rightarrow> addr \<Rightarrow> nat \<Rightarrow> atom_value list \<Rightarrow> bool" where
  "holds e y t vs \<longleftrightarrow> (\<exists>i. fact_ids e y = Some (t, i, vs))"

lemma found_holds:
  assumes "found e xs F r" "whichDeftemplate F = t" "theProposition F = vs"
  shows "case r of None \<Rightarrow> \<forall>y\<in>set xs. \<not> holds e y t vs | Some y \<Rightarrow> y \<in> set xs \<and> holds e y t vs"
  using assms by (auto simp: found_def holds_def fact_ids_def same_contents_def split: option.splits)

text \<open>The outcomes: a duplicate, no support, or a new fact of the base.\<close>

definition is_duplicate :: "env \<Rightarrow> addr list \<Rightarrow> addr \<Rightarrow> nat \<Rightarrow> atom_value list \<Rightarrow> nat \<Rightarrow> ptr \<Rightarrow> env \<Rightarrow> bool" where
  "is_duplicate e xs x t vs k res e' \<longleftrightarrow> (\<exists>y\<in>set xs. res = Some y \<and> holds e y t vs) \<and> \<not> FactDuplication (factD e) \<and>
     fact_base_ok e' xs k \<and> others_kept x e e'"

definition is_refused :: "env \<Rightarrow> addr list \<Rightarrow> addr \<Rightarrow> nat \<Rightarrow> ptr \<Rightarrow> env \<Rightarrow> bool" where
  "is_refused e xs x k res e' \<longleftrightarrow> res = None \<and> \<not> supportable e \<and> assertError (factD e') = AE_COULD_NOT_ASSERT_ERROR \<and>
     fact_base_ok e' xs k \<and> others_kept x e e'"

definition is_asserted :: "env \<Rightarrow> addr list \<Rightarrow> addr list \<Rightarrow> addr \<Rightarrow> int \<Rightarrow> nat \<Rightarrow> atom_value list \<Rightarrow> nat \<Rightarrow> ptr \<Rightarrow> env \<Rightarrow> bool" where
  "is_asserted e P S x r t vs k res e' \<longleftrightarrow> res = Some x \<and> supportable e \<and>
     (FactDuplication (factD e) \<or> (\<forall>y\<in>set (P @ S). \<not> holds e y t vs)) \<and>
     (\<exists>xs'. subseq xs' (P @ x # S) \<and> fact_base_ok e' xs' k) \<and>
     fact_ids e' = (fact_ids e)(x \<mapsto> (t, new_index r e, vs)) \<and> hash_kept e e' \<and>
     NextFactIndex (factD e') = next_index r e \<and> unsupported e' = [] \<and> \<not> joining e' \<and> \<not> entered e'"

lemma others_kept_trans: "\<lbrakk>others_kept x e e'; others_kept x e' e''\<rbrakk> \<Longrightarrow> others_kept x e e''"
  using hash_kept_trans [of e e' e''] by (simp add: others_kept_def)

lemma kept_others: "\<lbrakk>kept e e'; engineD e' = engineD e\<rbrakk> \<Longrightarrow> others_kept x e e'"
  by (simp add: kept_def others_kept_def)

lemma holds_cong: "\<lbrakk>\<And>y. y \<in> set xs \<Longrightarrow> fact_ids e' y = fact_ids e y; y \<in> set xs\<rbrakk> \<Longrightarrow> holds e' y t vs = holds e y t vs"
  by (simp add: holds_def)

text \<open>The part of the driver behind the filling of the values, from the hashed fact on.\<close>

definition assert_rest :: "network \<Rightarrow> addr \<Rightarrow> int \<Rightarrow> ptr \<Rightarrow> ptr \<Rightarrow> u64 \<Rightarrow> env \<Rightarrow> (ptr \<times> env) option" where
  "assert_rest N x r fp tp hv e = do {
     (supp, e4) \<leftarrow> AddLogicalDependencies x False e;
     if \<not> supp then do { e5 \<leftarrow> give_up x r e4; Some (None, assert_error AE_COULD_NOT_ASSERT_ERROR e5) }
     else do {
       e7 \<leftarrow> insert_fact x hv r fp tp e4;
       e8 \<leftarrow> assert_network N x e7;
       Some (Some x, e8) } }"

lemma assert_rest_ok:
  assumes N: "network_ok N" "flush_keeps N" and p: "pending e (P @ S) x k" and h: "hashed e x F" and b: "bind_live e"
    and j: "\<not> joining e" "\<not> entered e" and pl: "place e r fp tp (whichDeftemplate F) P S"
    and i: "new_index r e \<noteq> 0" and n: "length (P @ S) + k + 1 < 2 ^ 64"
    and dup: "FactDuplication (factD e) \<or> (\<forall>y\<in>set (P @ S). \<not> holds e y (whichDeftemplate F) (theProposition F))"
  shows "\<exists>res e'. assert_rest N x r fp tp (hashValue F) e = Some (res, e') \<and>
    (is_refused e (P @ S) x k res e' \<or> is_asserted e P S x r (whichDeftemplate F) (theProposition F) k res e')"
proof -
  have a: "arrival e x F" "fact_hash e F = Some (hashValue F)" using h by (simp_all add: hashed_def)
  note A = arrivalD [OF a(1)]
  obtain e4 where e4: "AddLogicalDependencies x False e = Some (supportable e, e4)" "pending e4 (P @ S) x k" "facts e4 = facts e"
      "deftemplates e4 = deftemplates e" "symbolD e4 = symbolD e" "toUnsignedLong e4 = toUnsignedLong e" "factD e4 = factD e"
      "engineD e4 = engineD e" "\<forall>y. (entities e4 y = None) = (entities e y = None)" "\<not> supportable e \<longrightarrow> e4 = e"
    using newcomer_support_ok [OF p h b] by blast
  show ?thesis
  proof (cases "supportable e")
    case False
    obtain e5 where e5: "give_up x r e = Some e5" "fact_base_ok e5 (P @ S) k" "others_kept x e e5"
      using give_up_ok [OF p a(1)] by blast
    let ?e = "assert_error AE_COULD_NOT_ASSERT_ERROR e5"
    note E = assert_error_ok [OF e5(2), of AE_COULD_NOT_ASSERT_ERROR]
    have "assert_rest N x r fp tp (hashValue F) e = Some (None, ?e)"
      using e4(1,10) e5(1) False by (simp add: assert_rest_def)
    moreover have "is_refused e (P @ S) x k None ?e"
      using False E(1) others_kept_trans [OF e5(3) kept_others [OF E(2,3)]]
      by (simp add: is_refused_def assert_error_def set_factD_def)
    ultimately show ?thesis by blast
  next
    case True
    have hk: "hash_kept e e4" using e4(4-6) by (intro hash_keptI) simp_all
    have live: "\<forall>v\<in>set (theProposition F). value_live e4 v"
      using value_live_mono [of e e4] A(4) e4(5,9) by (auto simp del: not_None_eq)
    have ws: "well_shaped e4 F" using A(3) e4(4) by (simp add: well_shaped_def)
    have fh: "fact_hash e4 F = Some (hashValue F)" using a(2) hk by (simp add: hash_kept_def)
    have pl4: "place e4 r fp tp (whichDeftemplate F) P S" using pl place_cong [of P e4 e] e4(3) by (simp add: template_of_def)
    have ni: "new_index r e4 = new_index r e" "next_index r e4 = next_index r e" "fact_ids e4 = fact_ids e"
      using e4(3,7) by (simp_all add: new_index_def next_index_def fact_ids_def fun_eq_iff)
    obtain e7 where e7: "insert_fact x (hashValue F) r fp tp e4 = Some e7" "fact_base_ok e7 (P @ x # S) k" "hash_kept e4 e7"
        "engineD e7 = engineD e4" "fact_ids e7 = (fact_ids e4)(x \<mapsto> (whichDeftemplate F, new_index r e4, theProposition F))"
        "NextFactIndex (factD e7) = next_index r e4"
      using insert_fact_ok [OF e4(2) _ A(2) ws fh live pl4 _ n] A(1) e4(3) i ni(1) by auto
    obtain e8 xs' where e8: "assert_network N x e7 = Some e8" "fact_base_ok e8 xs' k" "kept e7 e8" "subseq xs' (P @ x # S)"
        "\<not> joining e8" "\<not> entered e8" "unsupported e8 = []"
      using assert_network_ok [OF N e7(2), of x] j e7(4) e4(8) by auto
    have "assert_rest N x r fp tp (hashValue F) e = Some (Some x, e8)"
      using e4(1) e7(1) e8(1) True by (simp add: assert_rest_def)
    moreover have "is_asserted e P S x r (whichDeftemplate F) (theProposition F) k (Some x) e8"
      using True dup e8(2-7) e7(5,6) ni hash_kept_trans [OF hk hash_kept_trans [OF e7(3)]]
      unfolding is_asserted_def kept_def by auto
    ultimately show ?thesis by blast
  qed
qed


lemma AssertDriver_eq:
  assumes F: "facts e x = Some F" "\<not> fact_garbage F" "factIndex F = r" "\<not> joining e"
    and v: "replace_voids (theProposition F) (assert_error AE_NO_ERROR e) = Some (vs, e1)" "facts e1 x = Some F"
    and h: "HashFact x (e1\<lparr>facts := (facts e1)(x \<mapsto> F\<lparr>theProposition := vs\<rparr>)\<rparr>) = Some (hv, e3)"
  shows "AssertDriver N x r fp tp e =
    (if FactDuplication (factD e3) then assert_rest N x r fp tp hv e3
     else do { d \<leftarrow> FactExists x hv e3;
       (case d of None \<Rightarrow> assert_rest N x r fp tp hv e3
        | Some y \<Rightarrow> do { e4 \<leftarrow> give_up x r e3; (_, e5) \<leftarrow> AddLogicalDependencies y True e4; Some (Some y, e5) }) })"
proof -
  let ?e2 = "e1\<lparr>facts := (facts e1)(x \<mapsto> F\<lparr>theProposition := vs\<rparr>)\<rparr>"
  have fields: "facts (assert_error a e) = facts e" "joining (assert_error a e) = joining e" for a
    by (simp_all add: assert_error_def set_factD_def)
  have u: "upd_fact (Some x) (\<lambda>F. F\<lparr>theProposition := vs\<rparr>) e1 = Some ?e2" using v(2) by (simp add: upd_env_simps)
  have d: "HandleFactDuplication x r ?e2 = (if FactDuplication (factD e3) then Some (hv, None, e3)
      else do { d \<leftarrow> FactExists x hv e3; (case d of None \<Rightarrow> Some (hv, None, e3)
        | Some y \<Rightarrow> do { e4 \<leftarrow> give_up x r e3; (_, e5) \<leftarrow> AddLogicalDependencies y True e4; Some (0, Some y, e5) }) })"
    using h by (simp add: HandleFactDuplication_def give_up_def)
  have "AssertDriver N x r fp tp e = do { (hv, duplicate, e3) \<leftarrow> HandleFactDuplication x r ?e2;
      if duplicate \<noteq> None then Some (duplicate, e3) else assert_rest N x r fp tp hv e3 }"
    using F u unfolding AssertDriver_def Let_def fields
    by (simp add: v(1) assert_rest_def insert_fact_def give_up_def case_prod_unfold cong: if_cong del: bind_eq_Some)
  then show ?thesis unfolding d
    by (cases "FactExists x hv e3") (simp_all add: bind_map_option case_prod_unfold split: option.split)
qed


text \<open>The fact has been prepared: the outcomes can be stated for the environment before.\<close>

definition prepared :: "addr \<Rightarrow> env \<Rightarrow> env \<Rightarrow> bool" where
  "prepared x e e' \<longleftrightarrow> others_kept x e e' \<and> matches e' = matches e \<and> FactDuplication (factD e') = FactDuplication (factD e)"

lemma prepared_outcome:
  assumes q: "prepared x e e0" and x: "x \<notin> set (P @ S)"
  shows "is_duplicate e0 (P @ S) x t vs k res e' \<Longrightarrow> is_duplicate e (P @ S) x t vs k res e'"
    "is_refused e0 (P @ S) x k res e' \<Longrightarrow> is_refused e (P @ S) x k res e'"
    "is_asserted e0 P S x r t vs k res e' \<Longrightarrow> is_asserted e P S x r t vs k res e'"
proof -
  have o: "others_kept x e e0" "FactDuplication (factD e0) = FactDuplication (factD e)" using q by (simp_all add: prepared_def)
  have eq: "holds e0 y t vs = holds e y t vs" if "y \<in> set (P @ S)" for y
    using that x o(1) by (auto simp: holds_def others_kept_def)
  have sup: "supportable e0 = supportable e"
    using q by (simp add: supportable_def deleted_match_def others_kept_def prepared_def)
  have ix: "new_index r e0 = new_index r e" "next_index r e0 = next_index r e"
    using o(1) by (simp_all add: new_index_def next_index_def others_kept_def)
  have ids: "(fact_ids e0)(x \<mapsto> v) = (fact_ids e)(x \<mapsto> v)" for v using o(1) by (auto simp: others_kept_def)
  show "is_duplicate e (P @ S) x t vs k res e'" if "is_duplicate e0 (P @ S) x t vs k res e'"
    using that eq others_kept_trans [OF o(1)] o(2) unfolding is_duplicate_def by blast
  show "is_refused e (P @ S) x k res e'" if "is_refused e0 (P @ S) x k res e'"
    using that sup others_kept_trans [OF o(1)] unfolding is_refused_def by blast
  have "hash_kept e e0" using o(1) by (simp add: others_kept_def)
  then show "is_asserted e P S x r t vs k res e'" if "is_asserted e0 P S x r t vs k res e'"
    using that sup ix ids eq o(2) hash_kept_trans unfolding is_asserted_def by auto
qed

lemma reset_pending:
  assumes p: "pending e xs x k" and a: "arrival e x F"
  shows "pending (assert_error v e) xs x k" "arrival (assert_error v e) x F"
proof -
  let ?e = "assert_error v e"
  have eq: "facts ?e = facts e" "deftemplates ?e = deftemplates e" "symbolD ?e = symbolD e" "entities ?e = entities e" "engineD ?e = engineD e"
    "matches ?e = matches e" "toUnsignedLong ?e = toUnsignedLong e" "numberOfFacts ?e = numberOfFacts e"
    "FactList (factD ?e) = FactList (factD e)" "LastFact (factD ?e) = LastFact (factD e)"
    "FactHashTable (factD ?e) = FactHashTable (factD e)" "FactHashTableSize (factD ?e) = FactHashTableSize (factD e)"
    by (simp_all add: assert_error_def set_factD_def)
  have "hash_kept e ?e" using eq by (intro hash_keptI) simp_all
  moreover have "support_part ?e (x # xs)" using pendingD(10) [OF p] support_part_cong [of ?e e] eq by simp
  ultimately show "pending ?e xs x k" using eq by (intro pending_same [OF p]) simp_all
  have "value_live ?e w" if "value_live e w" for w using value_live_mono [of e ?e] that eq by simp
  then show "arrival ?e x F" using a eq by (auto simp: arrival_def well_shaped_def support_def)
qed

theorem AssertDriver_ok:
  assumes N: "network_ok N" "flush_keeps N" and sy: "symbols_ok (symbolD e)" and p: "pending e (P @ S) x k" and a: "arrival e x F"
    and r: "factIndex F = r" and b: "bind_live e" and j: "\<not> joining e" "\<not> entered e"
    and pl: "place e r fp tp (whichDeftemplate F) P S" and i: "new_index r e \<noteq> 0" and n: "length (P @ S) + k + 1 < 2 ^ 64"
  shows "\<exists>vs s res e'. AssertDriver N x r fp tp e = Some (res, e') \<and> atoms_extend (symbolD e) s \<and>
    list_all2 (nil_filled (e\<lparr>symbolD := s\<rparr>)) (theProposition F) vs \<and>
    (is_duplicate e (P @ S) x (whichDeftemplate F) vs k res e' \<or> is_refused e (P @ S) x k res e' \<or>
     is_asserted e P S x r (whichDeftemplate F) vs k res e')"
proof -
  let ?e0 = "assert_error AE_NO_ERROR e" and ?t = "whichDeftemplate F"
  have s0: "symbolD ?e0 = symbolD e" "facts ?e0 = facts e" by (simp_all add: assert_error_def set_factD_def)
  obtain vs s h where v: "replace_voids (theProposition F) ?e0 = Some (vs, ?e0\<lparr>symbolD := s\<rparr>)"
      "HashFact x (?e0\<lparr>symbolD := s, facts := (facts ?e0)(x \<mapsto> F\<lparr>theProposition := vs\<rparr>)\<rparr>) =
        Some (h, ?e0\<lparr>symbolD := s, facts := (facts ?e0)(x \<mapsto> F\<lparr>theProposition := vs, hashValue := h\<rparr>)\<rparr>)"
      "pending (?e0\<lparr>symbolD := s, facts := (facts ?e0)(x \<mapsto> F\<lparr>theProposition := vs, hashValue := h\<rparr>)\<rparr>) (P @ S) x k"
      "hashed (?e0\<lparr>symbolD := s, facts := (facts ?e0)(x \<mapsto> F\<lparr>theProposition := vs, hashValue := h\<rparr>)\<rparr>) x (F\<lparr>theProposition := vs, hashValue := h\<rparr>)"
      "atoms_extend (symbolD e) s" "list_all2 (nil_filled (?e0\<lparr>symbolD := s\<rparr>)) (theProposition F) vs"
    using prepare_ok [OF reset_pending(1) [OF p a] _ reset_pending(2) [OF p a], of AE_NO_ERROR] sy unfolding s0(1) by blast
  let ?G = "F\<lparr>theProposition := vs, hashValue := h\<rparr>"
  define e3 where "e3 = ?e0\<lparr>symbolD := s, facts := (facts ?e0)(x \<mapsto> ?G)\<rparr>"
  note p3 = v(3) [folded e3_def] and h3 = v(4) [folded e3_def]
  have hk: "hash_kept e e3" using v(5) by (intro hash_kept_atoms) (simp_all add: e3_def assert_error_def set_factD_def)
  have pr: "prepared x e e3" using hk
    by (simp add: prepared_def others_kept_def e3_def assert_error_def set_factD_def fact_ids_def)
  have fields: "engineD e3 = engineD e" "matches e3 = matches e" using pr by (simp_all add: prepared_def others_kept_def)
  have x: "x \<notin> set (P @ S)" using pendingD(1) [OF p] .
  note A = arrivalD [OF a]
  have eq: "AssertDriver N x r fp tp e = (if FactDuplication (factD e3) then assert_rest N x r fp tp h e3
     else do { d \<leftarrow> FactExists x h e3; (case d of None \<Rightarrow> assert_rest N x r fp tp h e3
        | Some y \<Rightarrow> do { e4 \<leftarrow> give_up x r e3; (_, e5) \<leftarrow> AddLogicalDependencies y True e4; Some (Some y, e5) }) })"
    by (rule AssertDriver_eq [OF A(1,2) r j(1) v(1)]) (use A(1) s0(2) v(2) in \<open>simp_all add: e3_def\<close>)
  have b3: "bind_live e3" using b fields by simp
  have rest: "\<exists>res e'. assert_rest N x r fp tp h e3 = Some (res, e') \<and>
      (is_refused e3 (P @ S) x k res e' \<or> is_asserted e3 P S x r ?t vs k res e')"
    if "FactDuplication (factD e3) \<or> (\<forall>y\<in>set (P @ S). \<not> holds e3 y ?t vs)"
  proof -
    have "template_of e3 y = template_of e y" for y using A(1) by (simp add: template_of_def e3_def s0(2))
    then have "place e3 r fp tp ?t P S" using pl place_cong [of P e3 e] by simp
    moreover have "new_index r e3 \<noteq> 0" using i pr by (auto simp: new_index_def prepared_def others_kept_def split: if_splits)
    ultimately show ?thesis using assert_rest_ok [OF N p3 h3 b3] that j fields(1) n by simp
  qed
  have dup: "is_duplicate e3 (P @ S) x ?t vs k (Some y) e5 \<or> FactDuplication (factD e3)"
    if "fact_base_ok e5 (P @ S) k" "others_kept x e3 e5" "y \<in> set (P @ S)" "holds e3 y ?t vs" for y e5
    using that by (auto simp: is_duplicate_def)
  have ar: "arrival e3 x ?G" "fact_hash e3 ?G = Some (hashValue ?G)" using h3 by (simp_all add: hashed_def)
  obtain d where d: "FactExists x h e3 = Some d" "found e3 (P @ S) ?G d"
    using FactExists_found [OF pendingD(9,4) [OF p3] arrivalD(1,3) [OF ar(1)] ar(2)] by auto
  note fd = found_holds [OF d(2), of ?t vs, simplified]
  have "\<exists>res e'. AssertDriver N x r fp tp e = Some (res, e') \<and>
      (is_duplicate e3 (P @ S) x ?t vs k res e' \<or> is_refused e3 (P @ S) x k res e' \<or> is_asserted e3 P S x r ?t vs k res e')"
  proof (cases "FactDuplication (factD e3) \<or> d = None")
    case True
    then show ?thesis using rest fd d(1) by (fastforce simp: eq)
  next
    case False
    then obtain y where y: "d = Some y" "y \<in> set (P @ S)" "holds e3 y ?t vs" using fd by (auto split: option.splits)
    obtain e4 where e4: "give_up x r e3 = Some e4" "fact_base_ok e4 (P @ S) k" "others_kept x e3 e4" "matches e4 = matches e3"
      using give_up_ok [OF p3 ar(1)] by blast
    have "bind_live e4" using b3 e4(3,4) by (simp add: others_kept_def)
    then obtain q e5 where e5: "AddLogicalDependencies y True e4 = Some (q, e5)" "fact_base_ok e5 (P @ S) k" "kept e4 e5" "engineD e5 = engineD e4"
      using duplicate_support_ok [OF e4(2) y(2)] by blast
    have "AssertDriver N x r fp tp e = Some (Some y, e5)" using False d(1) y(1) e4(1) e5(1) by (simp add: eq)
    moreover have "others_kept x e3 e5" using others_kept_trans [OF e4(3) kept_others [OF e5(3,4)]] .
    ultimately show ?thesis using dup [OF e5(2) _ y(2,3)] False by blast
  qed
  then show ?thesis using prepared_outcome [OF pr x] v(5,6)
    by (metis nil_filled_view)
qed

end
