(* ===== verification/Fact_Theorems.thy ===== *)
theory Fact_Theorems
  imports Assert_Driver
begin

text \<open>
  The fact base seen from its interface: assertion of a new fact, the absence of duplicates, and the
  search for a fact by its index.
\<close>

section \<open>Assertion of a new fact\<close>

text \<open>A fact that has been created and filled, and is not asserted yet.\<close>

definition created :: "env \<Rightarrow> addr \<Rightarrow> fact \<Rightarrow> bool" where
  "created e x F \<longleftrightarrow> facts e x = Some F \<and> \<not> fact_garbage F \<and> factIndex F = 0 \<and> well_shaped e F \<and>
     (\<forall>v\<in>set (theProposition F). value_live e v) \<and>
     (\<forall>D. deftemplates e (whichDeftemplate F) = Some D \<longrightarrow> nodes (SymbolTable (symbolD e)) (template_name D) \<noteq> None)"

lemma created_outside:
  assumes ok: "fact_base_ok e xs k" and c: "created e x F"
  shows "x \<notin> set xs" "arrival e x F"
proof -
  note s = fact_base_okD(5) [OF ok]
  show x: "x \<notin> set xs" using fact_of_list [OF ok, of x] c by (auto simp: created_def)
  have "support e x = []" using s x by (auto simp: support_part_def)
  moreover have "x \<notin> set (unsupported e)" using s x c by (auto simp: support_part_def retractable_def created_def)
  ultimately show "arrival e x F" using c by (simp add: arrival_def created_def)
qed

lemma Assert_cases:
  assumes N: "network_ok N" "flush_keeps N" and sy: "symbols_ok (symbolD e)" and ok: "fact_base_ok e xs k" and c: "created e x F"
    and b: "bind_live e" and j: "\<not> joining e" "\<not> entered e"
    and i: "NextFactIndex (factD e) \<noteq> 0" and n: "length xs + k + 1 < 2 ^ 64"
  shows "\<exists>vs s res e'. Assert N x e = Some (res, e') \<and> atoms_extend (symbolD e) s \<and>
    list_all2 (nil_filled (e\<lparr>symbolD := s\<rparr>)) (theProposition F) vs \<and>
    (is_duplicate e xs x (whichDeftemplate F) vs k res e' \<or> is_refused e xs x k res e' \<or>
     is_asserted e xs [] x 0 (whichDeftemplate F) vs k res e')"
proof -
  note x = created_outside [OF ok c]
  have F: "facts e x = Some F" "factIndex F = 0" using c by (simp_all add: created_def)
  have p: "pending e (xs @ []) x k" using pendingI [OF ok _ x(1)] F(1) by simp
  have "place e 0 None None (whichDeftemplate F) xs []" by (simp add: place_def)
  from AssertDriver_ok [OF N sy p x(2) F(2) b j this] i n show ?thesis by (simp add: Assert_def new_index_def)
qed

section \<open>No duplicates\<close>

text \<open>No two facts of the list have the same template and the same values.\<close>

definition no_duplicates :: "env \<Rightarrow> addr list \<Rightarrow> bool" where
  "no_duplicates e xs \<longleftrightarrow> (\<forall>x\<in>set xs. \<forall>y\<in>set xs. \<forall>t vs. holds e x t vs \<and> holds e y t vs \<longrightarrow> x = y)"

lemma no_duplicates_sub:
  assumes "no_duplicates e xs" "set xs' \<subseteq> set xs" "\<And>x. x \<in> set xs' \<Longrightarrow> fact_ids e' x = fact_ids e x"
  shows "no_duplicates e' xs'"
  using assms unfolding no_duplicates_def holds_def by (metis subsetD)

lemma idle_no_duplicates: "\<lbrakk>no_duplicates e xs; x \<notin> set xs; others_kept x e e'\<rbrakk> \<Longrightarrow> no_duplicates e' xs"
  by (rule no_duplicates_sub [of e xs xs e']) (auto simp: others_kept_def)

lemma asserted_no_duplicates:
  assumes d: "no_duplicates e (P @ S)" "\<not> FactDuplication (factD e)" and x: "x \<notin> set (P @ S)"
    and a: "is_asserted e P S x r t vs k res e'"
  shows "\<exists>xs'. fact_base_ok e' xs' k \<and> no_duplicates e' xs'"
proof -
  obtain xs' where xs': "subseq xs' (P @ x # S)" "fact_base_ok e' xs' k" using a by (auto simp: is_asserted_def)
  have ids: "fact_ids e' = (fact_ids e)(x \<mapsto> (t, new_index r e, vs))" and new: "\<forall>y\<in>set (P @ S). \<not> holds e y t vs"
    using a d(2) by (simp_all add: is_asserted_def)
  have sub: "set xs' \<subseteq> insert x (set (P @ S))" using subseq_set [OF xs'(1)] by auto
  have old: "holds e' y u ws = holds e y u ws" if "y \<noteq> x" for y u ws using that ids by (simp add: holds_def)
  have "y = z" if "y \<in> set xs'" "z \<in> set xs'" "holds e' y u ws" "holds e' z u ws" for y z u ws
  proof -
    have "(u, ws) = (t, vs)" if "holds e' x u ws" using that ids by (simp add: holds_def)
    then show ?thesis using that sub new old d(1) unfolding no_duplicates_def
      by (cases "y = x"; cases "z = x") (use that sub in blast)+
  qed
  then show ?thesis using xs'(2) unfolding no_duplicates_def by blast
qed

section \<open>Access\<close>

lemma GetNextFact_list:
  assumes ok: "fact_base_ok e (P @ x # S) k"
  shows "GetNextFact (Some x) e = Some (hdp S None)"
proof -
  obtain F where F: "facts e x = Some F" "\<not> fact_garbage F" using fact_of_list [OF ok, of x] by auto
  have "dlseg (fact_links (facts e)) None (P @ x # S) None" using fact_base_okD(2) [OF ok] by (simp add: list_part_def)
  then have "nextFact F = hdp S None" using F(1) by (auto simp: links_of_def)
  then show ?thesis using F by (simp add: GetNextFact_def)
qed

lemma find_indexed_list:
  assumes "fact_base_ok e (P @ S) k"
  shows "find_indexed i (hdp S None) e = Some (List.find (\<lambda>x. map_option factIndex (facts e x) = Some i) S)"
  using assms
proof (induction S arbitrary: P)
  case Nil
  then show ?case by (subst find_indexed.simps) simp
next
  case (Cons x S)
  obtain F where F: "facts e x = Some F" using fact_of_list [OF Cons.prems, of x] by auto
  have "find_indexed i (hdp S None) e = Some (List.find (\<lambda>x. map_option factIndex (facts e x) = Some i) S)"
    using Cons.IH [of "P @ [x]"] Cons.prems by simp
  then show ?case using F GetNextFact_list [OF Cons.prems] by (subst find_indexed.simps) simp
qed

lemma FindIndexedFact_list:
  assumes "fact_base_ok e xs k"
  shows "FindIndexedFact i e = Some (List.find (\<lambda>x. map_option factIndex (facts e x) = Some i) xs)"
  using find_indexed_list [of e "[]" xs k i] assms fact_base_okD(2) [OF assms]
  by (simp add: FindIndexedFact_def GetNextFact_def list_part_def)


section \<open>Duplicates by search\<close>

lemma FactWillBeAsserted_list:
  assumes ok: "fact_base_ok e xs k" and c: "created e x F"
  shows "\<exists>r e'. FactWillBeAsserted x e = Some (r, e') \<and>
    (r \<longleftrightarrow> FactDuplication (factD e) \<or> (\<forall>y\<in>set xs. \<not> holds e y (whichDeftemplate F) (theProposition F))) \<and>
    fact_base_ok e' xs k \<and> fact_ids e' = fact_ids e"
proof (cases "FactDuplication (factD e)")
  case False
  note x = created_outside [OF ok c]
  have F: "facts e x = Some F" "factIndex F = 0" "well_shaped e F" using c by (simp_all add: created_def)
  obtain D where D: "deftemplates e (whichDeftemplate F) = Some D" using F(3) by (auto simp: well_shaped_def)
  obtain h where h: "fact_hash e F = Some h" using fact_hash_live [OF D] c D by (auto simp: created_def)
  let ?F = "F\<lparr>hashValue := h\<rparr>"
  define e1 where "e1 = e\<lparr>facts := (facts e)(x \<mapsto> ?F)\<rparr>"
  have e1: "HashFact x e = Some (h, e1)" using F(1) h by (simp add: HashFact_def upd_env_simps e1_def)
  have hk: "hash_kept e e1" by (rule hash_keptI) (simp_all add: e1_def)
  have "support_part e1 (x # xs)"
    using pendingD(10) [OF pendingI [OF ok _ x(1)]] support_part_cong [of e1 e] F(1) by (simp add: e1_def)
  then have p: "pending e1 xs x k"
    using pending_change [OF pendingI [OF ok _ x(1)], of e1 ?F] F(1) D hk by (simp add: e1_def)
  have "fact_hash e1 ?F = Some (hashValue ?F)"
    using h hk same_contents_hash [of ?F F e1] by (simp add: hash_kept_def same_contents_def)
  moreover have "well_shaped e1 ?F" using F(3) by (simp add: well_shaped_def e1_def)
  moreover have "facts e1 x = Some ?F" by (simp add: e1_def)
  ultimately obtain r where r: "FactExists x h e1 = Some r" "found e1 xs ?F r"
    using FactExists_found [OF pendingD(9,4) [OF p], of x ?F] by auto
  have ids: "fact_ids e1 = fact_ids e" using F(1) by (auto simp: fact_ids_def e1_def fun_eq_iff)
  then have "holds e1 = holds e" by (simp add: holds_def fun_eq_iff)
  then have "r = None \<longleftrightarrow> (\<forall>y\<in>set xs. \<not> holds e y (whichDeftemplate F) (theProposition F))"
    using found_holds [OF r(2), of "whichDeftemplate F" "theProposition F"] by (auto split: option.splits)
  moreover have "fact_base_ok e1 xs k" using pending_idle [OF p, of ?F] created_outside(2) [OF ok c] F(2)
    by (simp add: e1_def arrival_def support_def)
  ultimately show ?thesis using False e1 r(1) ids by (simp add: FactWillBeAsserted_def)
next
  case True
  then show ?thesis using ok by (intro exI [of _ True] exI [of _ e]) (simp add: FactWillBeAsserted_def)
qed

section \<open>The specification of the support links\<close>

text \<open>
  Abstractly the support links are a multigraph between matches and entities, and each operation of
  truth maintenance is a simple change of it.
\<close>

type_synonym support_graph = "addr \<Rightarrow> entity_id \<Rightarrow> nat"

definition spec_forget_entity :: "entity_id \<Rightarrow> support_graph \<Rightarrow> support_graph" where
  "spec_forget_entity x g = (\<lambda>b y. if y = x then 0 else g b y)"

definition spec_forget_match :: "addr \<Rightarrow> support_graph \<Rightarrow> support_graph" where
  "spec_forget_match b g = g(b := \<lambda>_. 0)"

definition spec_link :: "addr \<Rightarrow> entity_id \<Rightarrow> support_graph \<Rightarrow> support_graph" where
  "spec_link b x g = g(b := (g b)(x := Suc (g b x)))"

text \<open>The entities that have no support but that of the match.\<close>

definition spec_orphans :: "addr \<Rightarrow> support_graph \<Rightarrow> entity_id set" where
  "spec_orphans b g = {x. g b x > 0 \<and> (\<forall>c. c \<noteq> b \<longrightarrow> g c x = 0)}"

text \<open>
  An assertion outside a rule with logical conditions makes the support of an existing entity
  unconditional; one inside it adds a link, unless the entity has unconditional support already.
\<close>

definition spec_assert :: "bool \<Rightarrow> ptr \<Rightarrow> entity_id \<Rightarrow> bool \<Rightarrow> support_graph \<Rightarrow> support_graph" where
  "spec_assert logical supporter x existing g =
     (if \<not> logical then if existing then spec_forget_entity x g else g
      else if existing \<and> (\<forall>b. g b x = 0) then g
      else case supporter of None \<Rightarrow> g | Some b \<Rightarrow> spec_link b x g)"

text \<open>The match that the rule in execution gives as support.\<close>

definition supporter :: "env \<Rightarrow> ptr" where
  "supporter e = (case TheLogicalBind (engineD e) of None \<Rightarrow> None | Some b \<Rightarrow> if deleted_match e b then None else Some b)"

lemma support_graph_empty: "mirrored e \<Longrightarrow> (\<forall>b. graph e b x = 0) \<longleftrightarrow> support e x = []"
  by (auto simp: graph_support count_list_0_iff)

lemma orphans_queue:
  assumes "mirrored e"
  shows "set (unsupported (drop_match b e)) = spec_orphans b (graph e) \<union> set (unsupported e)"
  using only_support_graph [OF assms, of b]
  by (auto simp: drop_match_queue spec_orphans_def graph_def count_list_0_iff intro: ccontr)

lemma logical_assertion_graph:
  assumes m: "mirrored e" and x: "entities e x \<noteq> None"
  shows "graph (snd (logical_assertion x existing e)) =
    spec_assert (TheLogicalJoin (engineD e) \<noteq> None) (supporter e) x existing (graph e)"
  using support_graph_empty [OF m, of x] graph_cut_entity [of x e] graph_add_link [OF _ x]
  by (auto simp: logical_assertion_def spec_assert_def supporter_def spec_forget_entity_def spec_link_def deleted_match_def
      split: option.splits)

end
