(* ===== verification/Sample_Facts.thy ===== *)
theory Sample_Facts
  imports Sample_Env Fact_Theorems
begin

text \<open>
  A fact base on which the properties of facts are instantiated: one template with one slot, two facts
  in the list, of which the second is logically supported by a match of the first, and a third fact
  that has been created and not asserted.
\<close>

definition sample_symbols1 :: symbolData where
  "sample_symbols1 = (case AddSymbol (Some [108, 105]) SYMBOL_TYPE sample_symbols of Some (a, s) \<Rightarrow> s | None \<Rightarrow> sample_symbols)"

definition sample_fact :: "addr list \<Rightarrow> int \<Rightarrow> u64 \<Rightarrow> ptr \<Rightarrow> ptr \<Rightarrow> atom_value \<Rightarrow> fact" where
  "sample_fact ms i h p n v = \<lparr>whichDeftemplate = 0, fact_matches = ms, factIndex = i, hashValue = h, fact_garbage = False,
     previousFact = p, nextFact = n, previousTemplateFact = p, nextTemplateFact = n, theProposition = [v]\<rparr>"

definition sample_facts :: env where
  "sample_facts = sample_env\<lparr>
     symbolD := sample_symbols1,
     deftemplates := [0 \<mapsto> \<lparr>template_name = 0, implied = False, slotList = [False], template_watch = True, inScope = True,
       template_busyCount = 2, template_factList = Some 10, template_lastFact = Some 11\<rparr>],
     facts := [10 \<mapsto> sample_fact [0] 1 1022491401 None (Some 11) (InstanceAddressAtom 0),
               11 \<mapsto> sample_fact [] 2 1022491430 (Some 10) None (InstanceAddressAtom 1),
               12 \<mapsto> sample_fact [] 0 0 None None VoidAtom],
     entities := (entities sample_env)(
       10 \<mapsto> \<lparr>timeTag = 4, busyCount = 1, dependents = []\<rparr>,
       11 \<mapsto> \<lparr>timeTag = 5, busyCount = 1, dependents = [0]\<rparr>,
       12 \<mapsto> \<lparr>timeTag = 0, busyCount = 0, dependents = []\<rparr>),
     matches := (matches sample_env)(0 \<mapsto> (sample_match 10 0)\<lparr>rightParent := Some 1, pm_dependents := [11]\<rparr>),
     numberOfFacts := 2,
     CurrentEntityTimeTag := 6,
     factD := (factD sample_env)\<lparr>FactList := Some 10, LastFact := Some 11, NextFactIndex := 3,
       FactHashTable := (\<lambda>i. if i = 1022491401 mod 16231 then [10] else if i = 1022491430 mod 16231 then [11] else [])\<rparr>\<rparr>"

text \<open>A network that withdraws the support of the matches of a retracted fact and does nothing else.\<close>

fun drop_matches :: "addr list \<Rightarrow> env \<Rightarrow> env option" where
  "drop_matches [] e = Some e"
| "drop_matches (b # bs) e = (if matches e b = None then drop_matches bs e
     else do { e1 \<leftarrow> RemoveLogicalSupport b e; drop_matches bs e1 })"

definition sample_net :: network where
  "sample_net = \<lparr>net_retract = (\<lambda>x e. case facts e x of None \<Rightarrow> Some e | Some F \<Rightarrow> drop_matches (fact_matches F) e),
     net_match = (\<lambda>x e. Some e), net_flush = Some, net_check = (\<lambda>x e. Some e), net_clean = Some\<rparr>"

lemma drop_matches_steps:
  assumes "mirrored e"
  shows "\<exists>e'. drop_matches bs e = Some e' \<and> net_steps e e'"
  using assms
proof (induction bs arbitrary: e)
  case Nil
  then show ?case by (simp add: net_refl)
next
  case (Cons b bs)
  show ?case
  proof (cases "matches e b = None")
    case True
    then show ?thesis using Cons by simp
  next
    case False
    have r: "RemoveLogicalSupport b e = Some (drop_match b e)" using RemoveLogicalSupport_eq [OF Cons.prems False] .
    obtain e' where "drop_matches bs (drop_match b e) = Some e'" "net_steps (drop_match b e) e'"
      using Cons.IH drop_mirrored [OF Cons.prems] by blast
    then show ?thesis using r False net_drop [OF False r] by auto
  qed
qed

lemma sample_net_ok: "network_ok sample_net" "flush_keeps sample_net"
proof -
  show "network_ok sample_net"
    unfolding network_ok_def
  proof (intro allI impI)
    fix e xs
    assume "support_part e xs"
    then have "mirrored e" by (simp add: support_part_def)
    then show "(\<forall>x. \<exists>e'. net_retract sample_net x e = Some e' \<and> net_steps e e') \<and>
      (\<forall>x. \<exists>e'. net_match sample_net x e = Some e' \<and> net_steps e e') \<and>
      (\<exists>e'. net_flush sample_net e = Some e' \<and> net_steps e e') \<and>
      (\<forall>x. \<exists>e'. net_check sample_net x e = Some e' \<and> net_steps e e')"
      using drop_matches_steps net_refl by (auto simp: sample_net_def split: option.split)
  qed
  show "flush_keeps sample_net" by (simp add: flush_keeps_def sample_net_def)
qed

lemma sample_symbols1_ok: "symbols_ok sample_symbols1"
proof -
  have "symbols_ok sample_symbols" by (simp add: symbols_ok_def sample_symbols_def empty_table_ok flagged_ops(1))
  then show ?thesis using AddSymbol_ok [of sample_symbols "[108, 105]" SYMBOL_TYPE] by (auto simp: sample_symbols1_def)
qed

lemma sample_name: "map_option bucket (nodes (SymbolTable sample_symbols1) 0) = Some 13821"
  by code_simp


lemma sample_facts_fields [simp]:
  "facts sample_facts = [10 \<mapsto> sample_fact [0] 1 1022491401 None (Some 11) (InstanceAddressAtom 0),
     11 \<mapsto> sample_fact [] 2 1022491430 (Some 10) None (InstanceAddressAtom 1), 12 \<mapsto> sample_fact [] 0 0 None None VoidAtom]"
  "deftemplates sample_facts = [0 \<mapsto> \<lparr>template_name = 0, implied = False, slotList = [False], template_watch = True, inScope = True,
     template_busyCount = 2, template_factList = Some 10, template_lastFact = Some 11\<rparr>]"
  "symbolD sample_facts = sample_symbols1" "numberOfFacts sample_facts = 2"
  "engineD sample_facts = engineD sample_env" "toUnsignedLong sample_facts = toUnsignedLong sample_env"
  "FactList (factD sample_facts) = Some 10" "LastFact (factD sample_facts) = Some 11" "NextFactIndex (factD sample_facts) = 3"
  "FactHashTableSize (factD sample_facts) = 16231" "FactDuplication (factD sample_facts) = False"
  "FactHashTable (factD sample_facts) i = (if i = 3325 then [10] else if i = 3354 then [11] else [])"
  by (simp_all add: sample_facts_def sample_env_def)

lemma sample_fact_fields [simp]:
  "whichDeftemplate (sample_fact ms i h p n v) = 0" "fact_matches (sample_fact ms i h p n v) = ms"
  "factIndex (sample_fact ms i h p n v) = i" "hashValue (sample_fact ms i h p n v) = h"
  "\<not> fact_garbage (sample_fact ms i h p n v)" "theProposition (sample_fact ms i h p n v) = [v]"
  "previousFact (sample_fact ms i h p n v) = p" "nextFact (sample_fact ms i h p n v) = n"
  "previousTemplateFact (sample_fact ms i h p n v) = p" "nextTemplateFact (sample_fact ms i h p n v) = n"
  by (simp_all add: sample_fact_def)

lemma sample_fact_hash:
  "fact_hash sample_facts (sample_fact ms i h p n (InstanceAddressAtom x)) = Some (1022491401 + of_nat x * 29)"
proof -
  obtain n where "nodes (SymbolTable sample_symbols1) 0 = Some n" "bucket n = 13821"
    using sample_name by (cases "nodes (SymbolTable sample_symbols1) 0") auto
  then show ?thesis by (simp add: fact_hash_def HashMultifield_def template_hash_def)
qed

lemma sample_support:
  "support sample_facts x = (if x = 11 then [0] else [])" "supported_by sample_facts b = (if b = 0 then [11] else [])"
  by (simp_all add: support_def supported_by_def sample_facts_def sample_env_def sample_match_def)

lemma sample_facts_ok: "fact_base_ok sample_facts [10, 11] 0"
proof -
  have shape: "well_shaped sample_facts (sample_fact ms i h p n v)" if "\<not> is_multifield v" for ms i h p n v
    using that by (cases v) (auto simp: well_shaped_def fits_def template_sig_def)
  have "asserted sample_facts (sample_fact ms i (1022491401 + of_nat x * 29) p n (InstanceAddressAtom x))" if "i \<noteq> 0" for ms i p n x
    using that sample_fact_hash shape by (simp add: asserted_def)
  from this [of 1 _ 0] this [of 2 _ 1] have "facts_part sample_facts [10, 11]"
    by (auto simp: facts_part_def split: if_splits)
  moreover have "list_part sample_facts [10, 11]" by (simp add: list_part_def links_of_def)
  moreover have "template_part sample_facts [10, 11]"
    by (simp add: template_part_def links_of_def of_template_def template_of_def)
  moreover have "hash_part sample_facts [10, 11]"
    by (auto simp: hash_part_def in_chain_def chain_at_def)
  moreover have "support_part sample_facts [10, 11]"
    by (auto simp: support_part_def mirrored_def sample_support sample_env_def) (auto simp: sample_facts_def sample_env_def split: if_splits)
  ultimately show ?thesis by (simp add: fact_base_ok_def)
qed

lemma sample_created: "created sample_facts 12 (sample_fact [] 0 0 None None VoidAtom)"
  using sample_name by (auto simp: created_def well_shaped_def fits_def template_sig_def)

lemma sample_flags [simp]: "TheLogicalBind (engineD sample_env) = None" "\<not> joining sample_env" "\<not> entered sample_env"
  by (simp_all add: sample_env_def)

lemma sample_match0: "matches sample_facts 0 = Some ((sample_match 10 0)\<lparr>rightParent := Some 1, pm_dependents := [11]\<rparr>)"
  by (simp add: sample_facts_def)

lemma sample_no_duplicates: "no_duplicates sample_facts [10, 11]"
  by (auto simp: no_duplicates_def holds_def fact_ids_def)

text \<open>The third fact, with an index, as it is when a fact of the list has been modified.\<close>

definition sample_modified :: env where
  "sample_modified = sample_facts\<lparr>facts := (facts sample_facts)(12 \<mapsto> sample_fact [] 7 0 None None VoidAtom)\<rparr>"

lemma sample_modified_ok:
  "pending sample_modified ([10] @ [11]) 12 0" "arrival sample_modified 12 (sample_fact [] 7 0 None None VoidAtom)"
  "of_template sample_modified 0 [10] = [10]" "symbolD sample_modified = sample_symbols1" "engineD sample_modified = engineD sample_env"
proof -
  let ?F = "sample_fact [] 7 0 None None VoidAtom"
  note x = created_outside [OF sample_facts_ok sample_created]
  have p: "pending sample_facts [10, 11] 12 0" by (rule pendingI [OF sample_facts_ok]) simp_all
  have h: "hash_kept sample_facts sample_modified" by (rule hash_keptI) (simp_all add: sample_modified_def)
  have "support_part sample_modified [12, 10, 11] = support_part sample_facts [12, 10, 11]"
    by (rule support_part_cong) (simp_all add: sample_modified_def)
  then have "pending sample_modified [10, 11] 12 0"
    using pendingD(10) [OF p] h by (intro pending_change [OF p, where F = ?F]) (simp_all add: sample_modified_def)
  then show "pending sample_modified ([10] @ [11]) 12 0" by simp
  show "arrival sample_modified 12 ?F"
    using x(2) by (simp add: arrival_def sample_modified_def well_shaped_def support_def)
qed (simp_all add: sample_modified_def of_template_def template_of_def)

text \<open>The second fact waits for retraction.\<close>

definition sample_waiting :: env where
  "sample_waiting = drop_match 0 sample_facts"

lemma sample_waiting_ok:
  "fact_base_ok sample_waiting [10, 11] 0" "\<not> joining sample_waiting" "\<not> entered sample_waiting" "unsupported sample_waiting = [11]"
proof -
  have s: "support_part sample_facts [10, 11]" using fact_base_okD(5) [OF sample_facts_ok] .
  have "support_part (drop_match 0 sample_facts) [10, 11]" by (rule support_part_drop [OF s]) auto
  then show "fact_base_ok sample_waiting [10, 11] 0"
    unfolding sample_waiting_def by (rule same_base_ok [OF same_base_links(1) sample_facts_ok])
  show "unsupported sample_waiting = [11]"
    by (simp add: sample_waiting_def drop_match_queue sample_support only_support_def sample_env_def)
qed (simp_all add: sample_waiting_def drop_match_def enqueue_unsupported_def set_engineD_def)

end
