(* ===== verification/Fact_Garbage.thy ===== *)
theory Fact_Garbage
  imports Fact_Theorems
begin

text \<open>
  The collection of garbage facts (\<^verbatim>\<open>RemoveGarbageFacts\<close>).  A retracted fact stays in the garbage list
  until nothing refers to it; then its values are released and its memory is returned.
\<close>

section \<open>References\<close>

text \<open>What a value refers to: an atom of one of the tables, or a fact or instance.\<close>

datatype reference = LexRef addr | FloatRef addr | IntRef addr | ExtRef addr | EntRef entity_id

fun value_refs :: "atom_value \<Rightarrow> reference list"
  and values_refs :: "atom_value list \<Rightarrow> reference list" where
  "value_refs (LexemeAtom a) = [LexRef a]"
| "value_refs (FloatAtom a) = [FloatRef a]"
| "value_refs (IntegerAtom a) = [IntRef a]"
| "value_refs (ExternalAddressAtom a) = [ExtRef a]"
| "value_refs (FactAddressAtom a) = [EntRef a]"
| "value_refs (InstanceAddressAtom a) = [EntRef a]"
| "value_refs (MultifieldAtom vs) = values_refs vs"
| "value_refs VoidAtom = []"
| "values_refs [] = []"
| "values_refs (v # vs) = value_refs v @ values_refs vs"

text \<open>The reference count of what is referred to; nothing refers to what does not exist.\<close>

definition count_of :: "'k atom_table \<Rightarrow> addr \<Rightarrow> int" where
  "count_of t a = (case nodes t a of None \<Rightarrow> 0 | Some N \<Rightarrow> node_count N)"

fun ref_count :: "env \<Rightarrow> reference \<Rightarrow> int" where
  "ref_count e (LexRef a) = count_of (SymbolTable (symbolD e)) a"
| "ref_count e (FloatRef a) = count_of (FloatTable (symbolD e)) a"
| "ref_count e (IntRef a) = count_of (IntegerTable (symbolD e)) a"
| "ref_count e (ExtRef a) = count_of (ExternalAddressTable (symbolD e)) a"
| "ref_count e (EntRef a) = (case entities e a of None \<Rightarrow> 0 | Some T \<Rightarrow> busyCount T)"

text \<open>Every reference in the list is counted.\<close>

definition covered :: "env \<Rightarrow> reference list \<Rightarrow> bool" where
  "covered e R \<longleftrightarrow> (\<forall>r. int (count_list R r) \<le> ref_count e r)"

lemma covered_positive: "covered e (r # R) \<Longrightarrow> ref_count e r > 0"
  unfolding covered_def by (drule spec [of _ r]) simp

section \<open>Releasing values\<close>

lemma release_table:
  assumes "table_ok hash eq t" "flagged t" "count_of t a > 0"
  shows "\<exists>t'. release_atom a t = Some t' \<and> table_ok hash eq t' \<and> flagged t' \<and> table_extends t t' \<and>
    (\<forall>b. count_of t' b = count_of t b - (if b = a then 1 else 0))"
proof -
  obtain N where N: "nodes t a = Some N" "node_count N > 0"
    using assms(3) by (auto simp: count_of_def split: option.splits)
  obtain t' m where t': "release_atom a t = Some t'" "table_ok hash eq t'"
      "nodes t' = (nodes t)(a \<mapsto> N\<lparr>node_count := node_count N - 1, markedEphemeral := m\<rparr>)"
    using release_atom_ok(2) [OF assms(1) N(1,2)] by blast
  then show ?thesis using N flagged_ops(4) [OF t'(1) assms(2)] by (auto simp: count_of_def table_extends_def)
qed

text \<open>The references in the list are gone, and nothing else has changed but marks for the collector.\<close>

definition released :: "reference list \<Rightarrow> env \<Rightarrow> env \<Rightarrow> bool" where
  "released L e e' \<longleftrightarrow> values_retained e e' \<and> symbols_ok (symbolD e') \<and>
     (\<forall>q. ref_count e' q = ref_count e q - int (count_list L q))"

lemma released_covered:
  assumes "released L e e'" "covered e (L @ R)"
  shows "covered e' R"
  unfolding covered_def
proof
  fix r
  have "int (count_list (L @ R) r) \<le> ref_count e r" using assms(2) unfolding covered_def by blast
  then show "int (count_list R r) \<le> ref_count e' r" using assms(1) by (simp add: released_def)
qed

lemma released_refl: "symbols_ok (symbolD e) \<Longrightarrow> released [] e e"
  by (simp add: released_def values_retained_refl)

lemma released_trans: "\<lbrakk>released L e e'; released L' e' e''\<rbrakk> \<Longrightarrow> released (L @ L') e e''"
  using values_retained_trans [of e e' e''] by (auto simp: released_def)

text \<open>A release in one of the tables.\<close>

lemma released_in_table:
  assumes "symbols_ok s" "atoms_extend (symbolD e) s" "\<forall>b. r \<noteq> EntRef b"
    and "\<And>b. count_of (SymbolTable s) b = count_of (SymbolTable (symbolD e)) b - (if r = LexRef b then 1 else 0)"
    "\<And>b. count_of (FloatTable s) b = count_of (FloatTable (symbolD e)) b - (if r = FloatRef b then 1 else 0)"
    "\<And>b. count_of (IntegerTable s) b = count_of (IntegerTable (symbolD e)) b - (if r = IntRef b then 1 else 0)"
    "\<And>b. count_of (ExternalAddressTable s) b = count_of (ExternalAddressTable (symbolD e)) b - (if r = ExtRef b then 1 else 0)"
  shows "released [r] e (e\<lparr>symbolD := s\<rparr>)"
proof -
  have "ref_count (e\<lparr>symbolD := s\<rparr>) q = ref_count e q - int (count_list [r] q)" for q
    using assms(3-) by (cases q) auto
  then show ?thesis using assms(1) values_retained_symbols [OF assms(2)] by (simp add: released_def)
qed

lemma release_lexeme:
  assumes s: "symbols_ok (symbolD e)" and c: "ref_count e (LexRef a) > 0"
  shows "\<exists>e'. (do { s \<leftarrow> ReleaseLexeme a (symbolD e); Some (e\<lparr>symbolD := s\<rparr>) }) = Some e' \<and> released [LexRef a] e e'"
proof -
  obtain t where t: "release_atom a (SymbolTable (symbolD e)) = Some t" "table_ok hash_lexeme lexeme_eq t" "flagged t" "table_extends (SymbolTable (symbolD e)) t"
      "\<forall>b. count_of t b = count_of (SymbolTable (symbolD e)) b - (if b = a then 1 else 0)"
    using release_table [of hash_lexeme lexeme_eq "SymbolTable (symbolD e)" a] s c by (auto simp: symbols_ok_def)
  then have "released [LexRef a] e (e\<lparr>symbolD := (symbolD e)\<lparr>SymbolTable := t\<rparr>\<rparr>)"
    using s by (intro released_in_table) (auto simp: symbols_ok_def atoms_extend_def)
  then show ?thesis using t(1) by (simp add: ReleaseLexeme_def)
qed

lemma release_float:
  assumes s: "symbols_ok (symbolD e)" and c: "ref_count e (FloatRef a) > 0"
  shows "\<exists>e'. (do { s \<leftarrow> ReleaseFloat a (symbolD e); Some (e\<lparr>symbolD := s\<rparr>) }) = Some e' \<and> released [FloatRef a] e e'"
proof -
  obtain t where t: "release_atom a (FloatTable (symbolD e)) = Some t" "table_ok hash_float float_eq t" "flagged t" "table_extends (FloatTable (symbolD e)) t"
      "\<forall>b. count_of t b = count_of (FloatTable (symbolD e)) b - (if b = a then 1 else 0)"
    using release_table [of hash_float float_eq "FloatTable (symbolD e)" a] s c by (auto simp: symbols_ok_def)
  then have "released [FloatRef a] e (e\<lparr>symbolD := (symbolD e)\<lparr>FloatTable := t\<rparr>\<rparr>)"
    using s by (intro released_in_table) (auto simp: symbols_ok_def atoms_extend_def)
  then show ?thesis using t(1) by (simp add: ReleaseFloat_def)
qed

lemma release_integer:
  assumes s: "symbols_ok (symbolD e)" and c: "ref_count e (IntRef a) > 0"
  shows "\<exists>e'. (do { s \<leftarrow> ReleaseInteger a (symbolD e); Some (e\<lparr>symbolD := s\<rparr>) }) = Some e' \<and> released [IntRef a] e e'"
proof -
  obtain t where t: "release_atom a (IntegerTable (symbolD e)) = Some t" "table_ok hash_integer (=) t" "flagged t" "table_extends (IntegerTable (symbolD e)) t"
      "\<forall>b. count_of t b = count_of (IntegerTable (symbolD e)) b - (if b = a then 1 else 0)"
    using release_table [of hash_integer "(=)" "IntegerTable (symbolD e)" a] s c by (auto simp: symbols_ok_def)
  then have "released [IntRef a] e (e\<lparr>symbolD := (symbolD e)\<lparr>IntegerTable := t\<rparr>\<rparr>)"
    using s by (intro released_in_table) (auto simp: symbols_ok_def atoms_extend_def)
  then show ?thesis using t(1) by (simp add: ReleaseInteger_def)
qed

lemma release_address:
  assumes s: "symbols_ok (symbolD e)" and c: "ref_count e (ExtRef a) > 0"
  shows "\<exists>e'. (do { s \<leftarrow> ReleaseExternalAddress a (symbolD e); Some (e\<lparr>symbolD := s\<rparr>) }) = Some e' \<and> released [ExtRef a] e e'"
proof -
  obtain t where t: "release_atom a (ExternalAddressTable (symbolD e)) = Some t" "table_ok hash_address address_eq t" "flagged t" "table_extends (ExternalAddressTable (symbolD e)) t"
      "\<forall>b. count_of t b = count_of (ExternalAddressTable (symbolD e)) b - (if b = a then 1 else 0)"
    using release_table [of hash_address address_eq "ExternalAddressTable (symbolD e)" a] s c by (auto simp: symbols_ok_def)
  then have "released [ExtRef a] e (e\<lparr>symbolD := (symbolD e)\<lparr>ExternalAddressTable := t\<rparr>\<rparr>)"
    using s by (intro released_in_table) (auto simp: symbols_ok_def atoms_extend_def)
  then show ?thesis using t(1) by (simp add: ReleaseExternalAddress_def)
qed

lemma release_entity:
  assumes "symbols_ok (symbolD e)" "ref_count e (EntRef a) > 0"
  shows "\<exists>e'. upd_entity a (\<lambda>T. T\<lparr>busyCount := busyCount T - 1\<rparr>) e = Some e' \<and> released [EntRef a] e e'"
proof -
  obtain T where T: "entities e a = Some T" using assms(2) by (auto split: option.splits)
  let ?e = "e\<lparr>entities := (entities e)(a \<mapsto> T\<lparr>busyCount := busyCount T - 1\<rparr>)\<rparr>"
  have "ref_count ?e q = ref_count e q - int (count_list [EntRef a] q)" for q using T by (cases q) auto
  then have "released [EntRef a] e ?e" using values_retained_entity [OF T] assms(1) by (simp add: released_def)
  then show ?thesis using T by (simp add: upd_env_simps)
qed

lemma AtomDeinstall_ok:
  "\<lbrakk>symbols_ok (symbolD e); covered e (value_refs v @ R)\<rbrakk> \<Longrightarrow> \<exists>e'. AtomDeinstall v e = Some e' \<and> released (value_refs v) e e'"
  "\<lbrakk>symbols_ok (symbolD e); covered e (values_refs vs @ R)\<rbrakk> \<Longrightarrow> \<exists>e'. ReleaseMultifield vs e = Some e' \<and> released (values_refs vs) e e'"
proof (induction v e and vs e arbitrary: R and R rule: AtomDeinstall_ReleaseMultifield.induct)
  case (10 v vs e)
  obtain e1 where e1: "AtomDeinstall v e = Some e1" "released (value_refs v) e e1"
    using 10(1) [OF 10(3), of "values_refs vs @ R"] 10(4) by auto
  have "symbols_ok (symbolD e1)" using e1(2) by (simp add: released_def)
  then obtain e2 where "ReleaseMultifield vs e1 = Some e2" "released (values_refs vs) e1 e2"
    using 10(2) [OF e1(1), of R] released_covered [OF e1(2), of "values_refs vs @ R"] 10(4) by auto
  then show ?case using e1 released_trans by auto
qed (auto dest!: covered_positive intro!: released_refl simp: release_lexeme [simplified] release_float [simplified]
    release_integer [simplified] release_address [simplified] release_entity [simplified])


section \<open>The garbage list\<close>

fun garbage_chain :: "(addr \<rightharpoonup> fact) \<Rightarrow> addr list \<Rightarrow> ptr \<Rightarrow> bool" where
  "garbage_chain h [] n = True"
| "garbage_chain h (x # xs) n = ((\<exists>F. h x = Some F \<and> fact_garbage F \<and> nextFact F = hdp xs n) \<and> garbage_chain h xs n)"

definition garbage_list :: "env \<Rightarrow> addr list \<Rightarrow> bool" where
  "garbage_list e gs \<longleftrightarrow> distinct gs \<and> garbage_chain (facts e) gs None \<and> GarbageFacts (garbageF e) = hdp gs None"

text \<open>All references that the values of the facts make.\<close>

definition fact_refs :: "env \<Rightarrow> addr list \<Rightarrow> reference list" where
  "fact_refs e gs = concat (map (\<lambda>x. case facts e x of None \<Rightarrow> [] | Some F \<Rightarrow> values_refs (theProposition F)) gs)"

lemma fact_refs_cong: "(\<And>x. x \<in> set gs \<Longrightarrow> map_option theProposition (facts e' x) = map_option theProposition (facts e x)) \<Longrightarrow>
    fact_refs e' gs = fact_refs e gs"
  unfolding fact_refs_def
  by (rule arg_cong [where f = concat], rule map_cong [OF refl]) (force split: option.splits)

lemma fact_refs_Cons: "facts e x = Some F \<Longrightarrow> fact_refs e (x # gs) = values_refs (theProposition F) @ fact_refs e gs"
  by (simp add: fact_refs_def)

lemma garbage_chain_append [simp]: "garbage_chain h (xs @ ys) n = (garbage_chain h xs (hdp ys n) \<and> garbage_chain h ys n)"
  by (induction xs) auto

lemma garbage_chain_cong: "(\<And>x. x \<in> set gs \<Longrightarrow> h' x = h x) \<Longrightarrow> garbage_chain h' gs n = garbage_chain h gs n"
  by (induction gs) auto

lemma garbage_chain_upd [simp]: "a \<notin> set gs \<Longrightarrow> garbage_chain (h(a := v)) gs n = garbage_chain h gs n"
  by (rule garbage_chain_cong) auto

lemma garbage_chain_mem: "\<lbrakk>garbage_chain h gs n; x \<in> set gs\<rbrakk> \<Longrightarrow> \<exists>F. h x = Some F \<and> fact_garbage F"
  by (induction gs) auto

text \<open>Taking a fact out of the list behind the ones that stay.\<close>

definition relink :: "ptr \<Rightarrow> ptr \<Rightarrow> (addr \<rightharpoonup> fact) \<Rightarrow> (addr \<rightharpoonup> fact)" where
  "relink p n h = (case p of None \<Rightarrow> h | Some l \<Rightarrow> h(l := map_option (nextFact_update (\<lambda>_. n)) (h l)))"

lemma relink_fields:
  "map_option theProposition (relink p n h y) = map_option theProposition (h y)"
  "map_option (\<lambda>F. (whichDeftemplate F, factIndex F, theProposition F)) (relink p n h y) =
    map_option (\<lambda>F. (whichDeftemplate F, factIndex F, theProposition F)) (h y)"
  "(relink p n h y = None) = (h y = None)"
  by (cases "h y"; auto simp: relink_def split: option.split)+

lemma garbage_chain_out:
  assumes "garbage_chain h (ks @ x # gs) None" "distinct (ks @ x # gs)"
  shows "garbage_chain (relink (lastp None ks) (hdp gs None) (h(x := None))) (ks @ gs) None"
  using assms by (cases ks rule: rev_cases) (auto simp: relink_def)

section \<open>The loop\<close>

lemma values_retained_ok:
  assumes "values_retained e e'" "fact_base_ok e xs k"
  shows "fact_base_ok e' xs k" "hash_kept e e'"
proof -
  obtain s E where e': "e' = e\<lparr>symbolD := s, entities := E\<rparr>" "atoms_extend (symbolD e) s"
      "\<forall>x. map_option dependents (E x) = map_option dependents (entities e x)"
    using assms(1) by (auto simp: values_retained_def)
  let ?b = "e\<lparr>symbolD := s\<rparr>"
  have hk: "hash_kept e ?b" using e'(2) by (intro hash_kept_atoms) simp_all
  have "same_base e ?b" using hk by (simp add: same_base_def)
  moreover have "support_part ?b xs" using fact_base_okD(5) [OF assms(2)] support_part_cong [of ?b e] by simp
  ultimately have ok: "fact_base_ok ?b xs k" using same_base_ok assms(2) by blast
  show "fact_base_ok e' xs k"
    using e' fact_base_okD(6) [OF ok] by (intro fact_base_ok_change [OF _ _ _ _ _ _ _ _ _ _ _ _ ok]) simp_all
  have "hash_kept ?b e'" by (rule hash_keptI) (simp_all add: e'(1))
  then show "hash_kept e e'" using hk hash_kept_trans by blast
qed

lemma garbage_outside: "\<lbrakk>fact_base_ok e xs k; facts e x = Some F; fact_garbage F\<rbrakk> \<Longrightarrow> x \<notin> set xs \<and> support e x = []"
  using fact_of_list [of e xs k x] fact_base_okD(5) [of e xs k] by (auto simp: support_part_def)

lemma relink_ok:
  assumes ok: "fact_base_ok e xs k" and l: "facts e l = Some L" "fact_garbage L"
  shows "fact_base_ok (e\<lparr>facts := (facts e)(l \<mapsto> L\<lparr>nextFact := n\<rparr>)\<rparr>) xs k"
proof -
  let ?e = "e\<lparr>facts := (facts e)(l \<mapsto> L\<lparr>nextFact := n\<rparr>)\<rparr>"
  note x = garbage_outside [OF ok l]
  have p: "pending e xs l k" using pendingI [OF ok _] x l(1) by simp
  have hk: "hash_kept e ?e" by (rule hash_keptI) simp_all
  have "support_part ?e (l # xs) = support_part e (l # xs)" using l(1) by (intro support_part_cong) simp_all
  then have "pending ?e xs l k"
    using pending_change [OF p, of ?e "L\<lparr>nextFact := n\<rparr>"] hk pendingD(10) [OF p] pendingD(6) [OF p l(1)] by simp
  then show ?thesis using l(2) x by (intro pending_idle [of ?e xs l k "L\<lparr>nextFact := n\<rparr>"]) (simp_all add: support_def)
qed


text \<open>The state of the loop: the facts \<open>ks\<close> stay, the facts \<open>gs\<close> have not been visited.\<close>

definition collecting :: "env \<Rightarrow> addr list \<Rightarrow> nat \<Rightarrow> addr list \<Rightarrow> addr list \<Rightarrow> bool" where
  "collecting e xs k ks gs \<longleftrightarrow> fact_base_ok e xs k \<and> unsupported e = [] \<and> symbols_ok (symbolD e) \<and>
     garbage_list e (ks @ gs) \<and> covered e (fact_refs e (ks @ gs))"

definition idle :: "env \<Rightarrow> addr \<Rightarrow> bool" where
  "idle e x \<longleftrightarrow> (\<exists>T. entities e x = Some T \<and> busyCount T = 0)"

lemma fact_refs_append [simp]: "fact_refs e (xs @ ys) = fact_refs e xs @ fact_refs e ys"
  by (simp add: fact_refs_def)

lemma idle_refs: "\<lbrakk>idle e x; covered e R\<rbrakk> \<Longrightarrow> count_list R (EntRef x) = 0"
  by (auto simp: idle_def covered_def dest: spec [of _ "EntRef x"])

lemma released_idle:
  assumes r: "released L e e'" and i: "idle e x" and c: "covered e (L @ R)"
  shows "idle e' x"
proof -
  obtain T where T: "entities e x = Some T" "busyCount T = 0" using i by (auto simp: idle_def)
  have "map_option dependents (entities e' x) = map_option dependents (entities e x)"
    using r by (auto simp: released_def values_retained_def)
  then obtain T' where T': "entities e' x = Some T'" using T(1) by (cases "entities e' x") auto
  have "ref_count e' (EntRef x) = ref_count e (EntRef x) - int (count_list L (EntRef x))"
    using r unfolding released_def by blast
  moreover have "count_list L (EntRef x) = 0" using idle_refs [OF i c] by simp
  ultimately have "ref_count e' (EntRef x) = ref_count e (EntRef x)" by (simp del: ref_count.simps)
  then show ?thesis using T T' by (simp add: idle_def)
qed

lemma ReturnFact_refs:
  assumes "ReturnFact x e = Some e'" "covered e R" "count_list R (EntRef x) = 0"
  shows "covered e' R" "\<And>y. \<lbrakk>y \<noteq> x; idle e y\<rbrakk> \<Longrightarrow> idle e' y"
proof -
  obtain F where e': "facts e x = Some F" "e' = e\<lparr>facts := (facts e)(x := None), entities := (entities e)(x := None)\<rparr>"
    using assms(1) by (auto simp: ReturnFact_def)
  have "ref_count e' q = (if q = EntRef x then 0 else ref_count e q)" for q by (cases q) (auto simp: e'(2))
  then show "covered e' R" using assms(2,3) by (simp add: covered_def)
  show "\<And>y. \<lbrakk>y \<noteq> x; idle e y\<rbrakk> \<Longrightarrow> idle e' y" by (simp add: idle_def e'(2))
qed

text \<open>One fact is returned.\<close>

lemma collect_one:
  assumes c: "collecting e xs k ks (x # gs)" and i: "idle e x" and F: "facts e x = Some F"
  shows "\<exists>e1 e2 e3. ReleaseMultifield (theProposition F) e = Some e1 \<and> ReturnFact x e1 = Some e2 \<and>
    (case lastp None ks of None \<Rightarrow> Some (set_garbageF (\<lambda>g. g\<lparr>GarbageFacts := hdp gs None\<rparr>) e2)
      | Some l \<Rightarrow> upd_fact (Some l) (\<lambda>G. G\<lparr>nextFact := hdp gs None\<rparr>) e2) = Some e3 \<and>
    collecting e3 xs k ks gs \<and> facts e3 x = None \<and> (\<forall>y. y \<noteq> x \<longrightarrow> fact_ids e3 y = fact_ids e y \<and> (idle e y \<longrightarrow> idle e3 y)) \<and>
    engineD e3 = engineD e"
proof -
  have C: "fact_base_ok e xs k" "unsupported e = []" "symbols_ok (symbolD e)" "distinct (ks @ x # gs)"
      "garbage_chain (facts e) (ks @ x # gs) None" "GarbageFacts (garbageF e) = hdp (ks @ x # gs) None"
      "covered e (fact_refs e (ks @ x # gs))"
    using c by (simp_all add: collecting_def garbage_list_def)
  have garb: "fact_garbage F" using C(5) F by auto
  have cov: "covered e (values_refs (theProposition F) @ fact_refs e (ks @ gs))"
    using C(7) F by (simp add: covered_def fact_refs_Cons ac_simps)
  obtain e1 where e1: "ReleaseMultifield (theProposition F) e = Some e1" "released (values_refs (theProposition F)) e e1"
    using AtomDeinstall_ok(2) [OF C(3) cov] by blast
  have vr: "values_retained e e1" "symbols_ok (symbolD e1)" using e1(2) by (simp_all add: released_def)
  have f1: "facts e1 = facts e" "garbageF e1 = garbageF e" "engineD e1 = engineD e"
    using vr(1) by (auto simp: values_retained_def)
  have ok1: "fact_base_ok e1 xs k" using values_retained_ok(1) [OF vr(1) C(1)] .
  note out = garbage_outside [OF ok1, of x F]
  have "pending e1 xs x k" using pendingI [OF ok1] out F garb f1(1) by simp
  then obtain e2 where e2: "ReturnFact x e1 = Some e2" "fact_base_ok e2 xs k" "facts e2 = (facts e1)(x := None)"
      "engineD e2 = engineD e1"
    using ReturnFact_pending [of e1 xs x k] out F garb f1 C(2) by auto
  have fr2: "symbolD e2 = symbolD e1" "garbageF e2 = garbageF e1" using e2(1) by (auto simp: ReturnFact_def)
  have none: "count_list (fact_refs e (ks @ gs)) (EntRef x) = 0" using idle_refs [OF i cov] by simp
  note r2 = ReturnFact_refs [OF e2(1) released_covered [OF e1(2) cov] none]
  have idle2: "idle e2 y" if "y \<noteq> x" "idle e y" for y
    using that r2(2) released_idle [OF e1(2) _ cov] by blast
  obtain e3 where e3: "(case lastp None ks of None \<Rightarrow> Some (set_garbageF (\<lambda>g. g\<lparr>GarbageFacts := hdp gs None\<rparr>) e2)
        | Some l \<Rightarrow> upd_fact (Some l) (\<lambda>G. G\<lparr>nextFact := hdp gs None\<rparr>) e2) = Some e3"
      "facts e3 = relink (lastp None ks) (hdp gs None) (facts e2)" "fact_base_ok e3 xs k" "engineD e3 = engineD e2"
      "symbolD e3 = symbolD e2" "entities e3 = entities e2"
      "GarbageFacts (garbageF e3) = (if ks = [] then hdp gs None else GarbageFacts (garbageF e2))"
  proof (cases "lastp None ks")
    case None
    let ?e = "set_garbageF (\<lambda>g. g\<lparr>GarbageFacts := hdp gs None\<rparr>) e2"
    have "fact_base_ok ?e xs k" by (rule fact_base_ok_cong [OF _ _ _ _ _ _ _ _ _ _ _ _ e2(2)]) (simp_all add: set_garbageF_def)
    then show ?thesis using that [of ?e] None by (simp add: relink_def set_garbageF_def)
  next
    case (Some l)
    then have l: "l \<in> set ks" by (metis lastp_None_Some)
    then obtain L where L: "facts e l = Some L" "fact_garbage L" using garbage_chain_mem [OF C(5), of l] by auto
    have l2: "facts e2 l = Some L" using L(1) e2(3) f1(1) l C(4) by auto
    have "ks \<noteq> []" using l by auto
    then show ?thesis using that [of "e2\<lparr>facts := (facts e2)(l \<mapsto> L\<lparr>nextFact := hdp gs None\<rparr>)\<rparr>"]
        relink_ok [OF e2(2) l2 L(2)] Some l2 by (simp add: relink_def upd_env_simps)
  qed
  have chain: "garbage_chain (facts e3) (ks @ gs) None" using garbage_chain_out [OF C(5,4)] e3(2) e2(3) f1(1) by simp
  have head: "GarbageFacts (garbageF e3) = hdp (ks @ gs) None" using e3(7) C(6) fr2(2) f1(2) by (cases ks) auto
  have props: "map_option theProposition (facts e3 y) = map_option theProposition (facts e y)" "fact_ids e3 y = fact_ids e y" if "y \<noteq> x" for y
    using that relink_fields e3(2) e2(3) f1(1) by (simp_all add: fact_ids_def)
  have "fact_refs e3 (ks @ gs) = fact_refs e (ks @ gs)"
    by (rule fact_refs_cong, rule props(1)) (use C(4) in auto)
  moreover have "ref_count e3 q = ref_count e2 q" for q using e3(5,6) by (cases q) simp_all
  ultimately have "covered e3 (fact_refs e3 (ks @ gs))" using r2(1) by (simp add: covered_def)
  then have "collecting e3 xs k ks gs"
    using e3(3-5) C(2,4) chain head vr(2) fr2(1) e2(4) f1(3) by (simp add: collecting_def garbage_list_def)
  moreover have "facts e3 x = None" using e3(2) e2(3) relink_fields(3) by simp
  moreover have "idle e3 y" if "y \<noteq> x" "idle e y" for y using idle2 [OF that] e3(6) by (simp add: idle_def)
  ultimately show ?thesis using e1(1) e2(1) e3(1) props(2) e3(4) e2(4) f1(3)
    by (intro exI [of _ e1] exI [of _ e2] exI [of _ e3]) simp
qed


lemma remove_garbage_visit:
  assumes "facts e x = Some F" "entities e x = Some T"
  shows "remove_garbage l (Some x) e = (if busyCount T = 0 then do {
       e1 \<leftarrow> ReleaseMultifield (theProposition F) e;
       e2 \<leftarrow> ReturnFact x e1;
       e3 \<leftarrow> (case l of None \<Rightarrow> Some (set_garbageF (\<lambda>g. g\<lparr>GarbageFacts := nextFact F\<rparr>) e2)
              | Some p \<Rightarrow> upd_fact (Some p) (\<lambda>G. G\<lparr>nextFact := nextFact F\<rparr>) e2);
       remove_garbage l (nextFact F) e3 }
     else remove_garbage (Some x) (nextFact F) e)"
  using assms by (subst remove_garbage.simps) (simp add: Let_def)

lemma remove_garbage_ok:
  assumes "collecting e xs k ks gs"
  shows "\<exists>e' gs'. remove_garbage (lastp None ks) (hdp gs None) e = Some e' \<and> collecting e' xs k (ks @ gs') [] \<and>
    LastGarbageFact (garbageF e') = lastp None (ks @ gs') \<and> subseq gs' gs \<and> engineD e' = engineD e \<and>
    (\<forall>x\<in>set gs. idle e x \<longrightarrow> x \<notin> set gs') \<and> (\<forall>x\<in>set gs. x \<notin> set gs' \<longrightarrow> facts e' x = None) \<and>
    (\<forall>x. x \<notin> set gs \<or> x \<in> set gs' \<longrightarrow> fact_ids e' x = fact_ids e x)"
  using assms
proof (induction gs arbitrary: e ks)
  case Nil
  let ?e = "set_garbageF (\<lambda>g. g\<lparr>LastGarbageFact := lastp None ks\<rparr>) e"
  have "remove_garbage (lastp None ks) None e = Some ?e" by (subst remove_garbage.simps) simp
  moreover have "fact_base_ok ?e xs k" if "fact_base_ok e xs k"
    by (rule fact_base_ok_cong [OF _ _ _ _ _ _ _ _ _ _ _ _ that]) (simp_all add: set_garbageF_def)
  moreover have "ref_count ?e q = ref_count e q" "fact_refs ?e ks = fact_refs e ks" for q
    by (cases q; simp add: set_garbageF_def) (simp add: fact_refs_def set_garbageF_def)
  ultimately show ?case using Nil
    by (intro exI [of _ ?e] exI [of _ "[]"])
      (simp add: collecting_def garbage_list_def covered_def set_garbageF_def fact_ids_def)
next
  case (Cons x gs)
  have chain: "garbage_chain (facts e) (x # gs) None" "distinct (ks @ x # gs)" "fact_base_ok e xs k"
    using Cons.prems by (simp_all add: collecting_def garbage_list_def)
  obtain F where F: "facts e x = Some F" "nextFact F = hdp gs None" using chain(1) by auto
  obtain T where T: "entities e x = Some T" using fact_base_okD(5) [OF chain(3)] F(1) by (auto simp: support_part_def)
  show ?case
  proof (cases "busyCount T = 0")
    case True
    then have i: "idle e x" using T by (simp add: idle_def)
    obtain e1 e2 e3 where s: "ReleaseMultifield (theProposition F) e = Some e1" "ReturnFact x e1 = Some e2"
        "(case lastp None ks of None \<Rightarrow> Some (set_garbageF (\<lambda>g. g\<lparr>GarbageFacts := hdp gs None\<rparr>) e2)
          | Some l \<Rightarrow> upd_fact (Some l) (\<lambda>G. G\<lparr>nextFact := hdp gs None\<rparr>) e2) = Some e3"
        "collecting e3 xs k ks gs" "facts e3 x = None" "engineD e3 = engineD e"
        "\<forall>y. y \<noteq> x \<longrightarrow> fact_ids e3 y = fact_ids e y \<and> (idle e y \<longrightarrow> idle e3 y)"
      using collect_one [OF Cons.prems i F(1)] by blast
    obtain e' gs' where r: "remove_garbage (lastp None ks) (hdp gs None) e3 = Some e'" "collecting e' xs k (ks @ gs') []"
        "LastGarbageFact (garbageF e') = lastp None (ks @ gs')" "subseq gs' gs" "engineD e' = engineD e3"
        "\<forall>y\<in>set gs. idle e3 y \<longrightarrow> y \<notin> set gs'" "\<forall>y\<in>set gs. y \<notin> set gs' \<longrightarrow> facts e' y = None"
        "\<forall>y. y \<notin> set gs \<or> y \<in> set gs' \<longrightarrow> fact_ids e' y = fact_ids e3 y"
      using Cons.IH [OF s(4)] by blast
    have x: "x \<notin> set gs" "x \<notin> set gs'" using chain(2) subseq_set [OF r(4)] by auto
    have "fact_ids e' x = None" using r(8) x(1) s(5) by (simp add: fact_ids_def)
    then have gone: "facts e' x = None" by (simp add: fact_ids_def)
    have "remove_garbage (lastp None ks) (hdp (x # gs) None) e = Some e'"
      using remove_garbage_visit [OF F(1) T, of "lastp None ks", unfolded F(2)] True s(1-3) r(1) by simp
    moreover have "\<forall>y\<in>set (x # gs). idle e y \<longrightarrow> y \<notin> set gs'" using x s(7) r(6) by auto
    moreover have "\<forall>y. y \<notin> set (x # gs) \<or> y \<in> set gs' \<longrightarrow> fact_ids e' y = fact_ids e y"
      using r(8) s(7) x(2) by (metis list.set_intros(1,2))
    moreover have "subseq gs' (x # gs)" using r(4) by (rule list_emb_Cons)
    ultimately show ?thesis using r(2,3,5,7) s(6) gone by auto
  next
    case False
    have "collecting e xs k (ks @ [x]) gs" using Cons.prems by (simp add: collecting_def)
    then obtain e' gs' where r: "remove_garbage (lastp None (ks @ [x])) (hdp gs None) e = Some e'" "collecting e' xs k ((ks @ [x]) @ gs') []"
        "LastGarbageFact (garbageF e') = lastp None ((ks @ [x]) @ gs')" "subseq gs' gs" "engineD e' = engineD e"
        "\<forall>y\<in>set gs. idle e y \<longrightarrow> y \<notin> set gs'" "\<forall>y\<in>set gs. y \<notin> set gs' \<longrightarrow> facts e' y = None"
        "\<forall>y. y \<notin> set gs \<or> y \<in> set gs' \<longrightarrow> fact_ids e' y = fact_ids e y"
      using Cons.IH by blast
    have x: "x \<notin> set gs" using chain(2) by auto
    have "remove_garbage (lastp None ks) (hdp (x # gs) None) e = Some e'"
      using remove_garbage_visit [OF F(1) T] False F(2) r(1) by simp
    moreover have "subseq (x # gs') (x # gs)" using r(4) by simp
    moreover have "\<not> idle e x" using T False by (simp add: idle_def)
    then have "\<forall>y\<in>set (x # gs). idle e y \<longrightarrow> y \<notin> set (x # gs')" using x r(6) by auto
    moreover have "\<forall>y\<in>set (x # gs). y \<notin> set (x # gs') \<longrightarrow> facts e' y = None" using r(7) by auto
    moreover have "\<forall>y. y \<notin> set (x # gs) \<or> y \<in> set (x # gs') \<longrightarrow> fact_ids e' y = fact_ids e y" using r(8) x by auto
    ultimately show ?thesis using r(2,3,5) by (intro exI [of _ e'] exI [of _ "x # gs'"]) simp
  qed
qed

lemma RemoveGarbageFacts_ok:
  assumes "collecting e xs k [] gs"
  shows "\<exists>e' gs'. RemoveGarbageFacts e = Some e' \<and> collecting e' xs k [] gs' \<and>
    LastGarbageFact (garbageF e') = lastp None gs' \<and> subseq gs' gs \<and> engineD e' = engineD e \<and>
    (\<forall>x\<in>set gs. idle e x \<longrightarrow> x \<notin> set gs') \<and> (\<forall>x\<in>set gs. x \<notin> set gs' \<longrightarrow> facts e' x = None) \<and>
    (\<forall>x. x \<notin> set gs \<or> x \<in> set gs' \<longrightarrow> fact_ids e' x = fact_ids e x)"
proof -
  have "GarbageFacts (garbageF e) = hdp gs None" using assms by (simp add: collecting_def garbage_list_def)
  then show ?thesis using remove_garbage_ok [OF assms] by (simp add: RemoveGarbageFacts_def collecting_def)
qed

end
