(* ===== verification/Sample_Garbage.thy ===== *)
theory Sample_Garbage
  imports Sample_Facts Fact_Garbage
begin

text \<open>
  The sample fact base with its third fact retracted: it waits in the garbage list, nothing refers to
  it, and its value refers to an instance.
\<close>

definition sample_dead :: fact where
  "sample_dead = (sample_fact [] 3 0 None None (InstanceAddressAtom 1))\<lparr>fact_garbage := True\<rparr>"

definition sample_garbage :: env where
  "sample_garbage = sample_facts\<lparr>facts := (facts sample_facts)(12 \<mapsto> sample_dead),
     entities := (entities sample_facts)(1 \<mapsto> \<lparr>timeTag = 2, busyCount = 1, dependents = []\<rparr>),
     garbageF := \<lparr>GarbageFacts = Some 12, LastGarbageFact = Some 12, frame_changed = True\<rparr>\<rparr>"

lemma sample_garbage_ok: "fact_base_ok sample_garbage [10, 11] 0"
proof -
  let ?m = "sample_facts\<lparr>facts := (facts sample_facts)(12 \<mapsto> sample_dead)\<rparr>"
  have p: "pending sample_facts [10, 11] 12 0" by (rule pendingI [OF sample_facts_ok]) simp_all
  have h: "hash_kept sample_facts ?m" by (rule hash_keptI) simp_all
  have l: "support (sample_facts\<lparr>facts := f\<rparr>) x = support sample_facts x"
    "supported_by (sample_facts\<lparr>facts := f\<rparr>) b = supported_by sample_facts b" for x b f
    by (simp_all add: support_def supported_by_def)
  have "support_part ?m [12, 10, 11]"
    using pendingD(10) [OF p] by (auto simp: support_part_def mirrored_def l sample_support retractable_def sample_env_def)
  then have "pending ?m [10, 11] 12 0"
    using h by (intro pending_change [OF p, where F = sample_dead]) (simp_all add: sample_dead_def)
  then have ok: "fact_base_ok ?m [10, 11] 0"
    by (rule pending_idle [where F = sample_dead]) (simp_all add: sample_dead_def support_def sample_facts_def)
  show ?thesis
    unfolding sample_garbage_def
    by (rule fact_base_ok_change [OF _ _ _ _ _ _ _ _ _ _ _ _ ok]) (simp_all add: sample_facts_def sample_env_def)
qed

lemma count_of_nonneg: "table_ok hash eq t \<Longrightarrow> count_of t a \<ge> 0"
  by (auto simp: count_of_def dest: table_okD split: option.split)

lemma sample_garbage_collecting: "collecting sample_garbage [10, 11] 0 [] [12]"
proof -
  have s: "symbols_ok (symbolD sample_garbage)" using sample_symbols1_ok by (simp add: sample_garbage_def)
  have "0 \<le> busyCount T" if "entities sample_garbage x = Some T" for x T
    using that by (auto simp: sample_garbage_def sample_facts_def sample_env_def split: if_splits)
  then have nonneg: "ref_count sample_garbage r \<ge> 0" for r
    using s by (cases r) (auto simp: symbols_ok_def count_of_nonneg split: option.split)
  have "int (count_list [EntRef 1] r) \<le> ref_count sample_garbage r" for r
    using nonneg [of r] by (cases "r = EntRef 1") (auto simp: sample_garbage_def)
  then have "covered sample_garbage (fact_refs sample_garbage [12])"
    by (simp add: covered_def fact_refs_def sample_garbage_def sample_dead_def)
  then show ?thesis using sample_garbage_ok s
    by (simp add: collecting_def garbage_list_def sample_garbage_def sample_dead_def sample_env_def)
qed

lemma sample_garbage_idle: "idle sample_garbage 12"
  by (simp add: idle_def sample_garbage_def sample_facts_def)

end
