(* ===== verification/Rete_Memory.thy ===== *)
theory Rete_Memory
  imports Logical_Support
begin

text \<open>
  The memories of the join network (\<^verbatim>\<open>reteutil.c\<close>, \<^verbatim>\<open>retract.c\<close>, \<^verbatim>\<open>match.h\<close>, \<^verbatim>\<open>network.h\<close>).

  A partial match is a node of four kinds of doubly linked lists: the bucket of a beta memory, the
  children of the match it extends on the right, the children of the match it extends on the left,
  and the matches that one match of a right memory blocks.  The structure \<^verbatim>\<open>partialMatch\<close> is kept in two
  stores with the same addresses: the fields that the rule engine reads are in \<open>matches\<close> of the
  environment, the links and flags that only the network uses are in \<open>pms\<close>.
\<close>

section \<open>Structures\<close>

datatype side = LHS | RHS

record multifieldMarker =
  whichField :: "16 word"
  whereSlot :: nat
  startPosition :: u64
  markerRange :: u64

text \<open>
  \<open>alphaBucket\<close> and \<open>alphaMarkers\<close> are fields of the \<^verbatim>\<open>alphaMatch\<close> that an alpha memory match owns through its only
  binding.
\<close>

record pmNode =
  betaMemory :: bool
  rhsMemory :: bool
  deleting :: bool
  pm_hashValue :: u64
  nextInMemory :: ptr
  prevInMemory :: ptr
  children :: ptr
  nextRightChild :: ptr
  prevRightChild :: ptr
  nextLeftChild :: ptr
  prevLeftChild :: ptr
  blockList :: ptr
  nextBlocked :: ptr
  prevBlocked :: ptr
  alphaBucket :: nat
  alphaMarkers :: "multifieldMarker list"

text \<open>A memory belongs to one join and is held by value; the array \<open>beta_last\<close> exists for right memories only.\<close>

record betaMemory =
  beta_size :: u64
  beta_count :: u64
  beta :: "ptr list"
  beta_last :: "ptr list option"

record joinMemories =
  leftBeta :: "betaMemory option"
  rightBeta :: "betaMemory option"
  memoryLeftAdds :: int
  memoryRightAdds :: int
  memoryLeftDeletes :: int
  memoryRightDeletes :: int

record rete =
  rete_env :: env
  pms :: "addr \<rightharpoonup> pmNode"
  memories :: "join_id \<rightharpoonup> joinMemories"
  BetaMemoryResizingFlag :: bool
  GarbagePartialMatches :: ptr

abbreviation rows :: "rete \<Rightarrow> addr \<rightharpoonup> partialMatch" where
  "rows s \<equiv> matches (rete_env s)"

section \<open>Reads and writes\<close>

definition upd_pm :: "ptr \<Rightarrow> (pmNode \<Rightarrow> pmNode) \<Rightarrow> rete \<Rightarrow> rete option" where
  "upd_pm p f s = map_option (\<lambda>h. s\<lparr>pms := h\<rparr>) (upd_at p f (pms s))"

definition upd_pm_if :: "ptr \<Rightarrow> (pmNode \<Rightarrow> pmNode) \<Rightarrow> rete \<Rightarrow> rete option" where
  "upd_pm_if p f s = map_option (\<lambda>h. s\<lparr>pms := h\<rparr>) (upd_if p f (pms s))"

definition upd_row :: "ptr \<Rightarrow> (partialMatch \<Rightarrow> partialMatch) \<Rightarrow> rete \<Rightarrow> rete option" where
  "upd_row p f s = map_option (\<lambda>e. s\<lparr>rete_env := e\<rparr>) (upd_match p f (rete_env s))"

definition nth_opt :: "'a list \<Rightarrow> nat \<Rightarrow> 'a option" where
  "nth_opt xs i = (if i < length xs then Some (xs ! i) else None)"

fun memory_of :: "side \<Rightarrow> joinMemories \<Rightarrow> betaMemory option" where
  "memory_of LHS J = leftBeta J"
| "memory_of RHS J = rightBeta J"

fun put_memory :: "side \<Rightarrow> betaMemory \<Rightarrow> joinMemories \<Rightarrow> joinMemories" where
  "put_memory LHS m J = J\<lparr>leftBeta := Some m\<rparr>"
| "put_memory RHS m J = J\<lparr>rightBeta := Some m\<rparr>"

fun note_add :: "side \<Rightarrow> joinMemories \<Rightarrow> joinMemories" where
  "note_add LHS J = J\<lparr>memoryLeftAdds := memoryLeftAdds J + 1\<rparr>"
| "note_add RHS J = J\<lparr>memoryRightAdds := memoryRightAdds J + 1\<rparr>"

fun note_delete :: "side \<Rightarrow> joinMemories \<Rightarrow> joinMemories" where
  "note_delete LHS J = J\<lparr>memoryLeftDeletes := memoryLeftDeletes J + 1\<rparr>"
| "note_delete RHS J = J\<lparr>memoryRightDeletes := memoryRightDeletes J + 1\<rparr>"

definition memory_at :: "join_id \<Rightarrow> side \<Rightarrow> rete \<Rightarrow> betaMemory option" where
  "memory_at join sd s = do { J \<leftarrow> memories s join; memory_of sd J }"

definition upd_memories :: "join_id \<Rightarrow> (joinMemories \<Rightarrow> joinMemories) \<Rightarrow> rete \<Rightarrow> rete option" where
  "upd_memories join f s = do { J \<leftarrow> memories s join; Some (s\<lparr>memories := (memories s)(join \<mapsto> f J)\<rparr>) }"

text \<open>The index of the bucket for a hash value; a memory of size zero would be a division by zero.\<close>

definition betaLocation :: "betaMemory \<Rightarrow> u64 \<Rightarrow> nat option" where
  "betaLocation m hv = (if beta_size m = 0 then None else Some (unat (hv mod beta_size m)))"

section \<open>Creation\<close>

text \<open>
  \<open>InitializePMLinks\<close> for both halves of the structure.  \<open>own\<close> is what the field \<^verbatim>\<open>owner\<close> holds before
  \<^verbatim>\<open>UpdateBetaPMLinks\<close> sets it.
\<close>

definition InitializePMLinks :: "pmNode \<Rightarrow> pmNode" where
  "InitializePMLinks n = n\<lparr>nextInMemory := None, prevInMemory := None, nextRightChild := None, prevRightChild := None,
     nextLeftChild := None, prevLeftChild := None, children := None, blockList := None, nextBlocked := None,
     prevBlocked := None\<rparr>"

definition new_row :: "join_id \<Rightarrow> entity_id option option list \<Rightarrow> partialMatch" where
  "new_row own bs = \<lparr>binds = bs, marker = None, leftParent = None, rightParent = None, busy = False, match_owner = own, pm_dependents = []\<rparr>"

definition blank_node :: pmNode where
  "blank_node = \<lparr>betaMemory = True, rhsMemory = False, deleting = False, pm_hashValue = 0, nextInMemory = None, prevInMemory = None,
     children = None, nextRightChild = None, prevRightChild = None, nextLeftChild = None, prevLeftChild = None,
     blockList = None, nextBlocked = None, prevBlocked = None, alphaBucket = 0, alphaMarkers = []\<rparr>"

definition new_match :: "pmNode \<Rightarrow> partialMatch \<Rightarrow> rete \<Rightarrow> addr \<times> rete" where
  "new_match n r s = (let e = rete_env s; a = fresh e in
     (a, s\<lparr>pms := (pms s)(a \<mapsto> n), rete_env := e\<lparr>matches := (matches e)(a \<mapsto> r), fresh := a + 1\<rparr>\<rparr>))"

definition CopyPartialMatch :: "join_id \<Rightarrow> addr \<Rightarrow> rete \<Rightarrow> (addr \<times> rete) option" where
  "CopyPartialMatch own list s = do {
     r \<leftarrow> rows s list;
     Some (new_match blank_node (new_row own (binds r)) s) }"

definition CreateEmptyPartialMatch :: "join_id \<Rightarrow> rete \<Rightarrow> addr \<times> rete" where
  "CreateEmptyPartialMatch own s = new_match blank_node (new_row own [None]) s"

definition MergePartialMatches :: "join_id \<Rightarrow> addr \<Rightarrow> ptr \<Rightarrow> rete \<Rightarrow> (addr \<times> rete) option" where
  "MergePartialMatches own lhsBind rhsBind s = do {
     l \<leftarrow> rows s lhsBind;
     v \<leftarrow> (case rhsBind of None \<Rightarrow> Some None | Some b \<Rightarrow> do { r \<leftarrow> rows s b; nth_opt (binds r) 0 });
     Some (new_match blank_node (new_row own (binds l @ [v])) s) }"

fun CopyMultifieldMarkers :: "multifieldMarker list \<Rightarrow> multifieldMarker list" where
  "CopyMultifieldMarkers [] = []"
| "CopyMultifieldMarkers (m # ms) =
     \<lparr>whichField = whichField m, whereSlot = whereSlot m, startPosition = startPosition m, markerRange = markerRange m\<rparr> # CopyMultifieldMarkers ms"

section \<open>Growing and shrinking a memory\<close>

abbreviation INITIAL_BETA_HASH_SIZE :: u64 where "INITIAL_BETA_HASH_SIZE \<equiv> 17"

text \<open>
  The inner loop of \<^verbatim>\<open>ResizeBetaMemory\<close>: the matches of one old bucket are appended to the new buckets.  The
  new array and the array of last matches are passed along.
\<close>

partial_function (option) resize_chain ::
    "u64 \<Rightarrow> ptr \<Rightarrow> (addr \<rightharpoonup> pmNode) \<Rightarrow> ptr list \<Rightarrow> ptr list \<Rightarrow> ((addr \<rightharpoonup> pmNode) \<times> ptr list \<times> ptr list) option" where
  "resize_chain newSize thePM h newBeta lastAdd = (case thePM of
     None \<Rightarrow> Some (h, newBeta, lastAdd)
   | Some a \<Rightarrow> do {
       n \<leftarrow> h a;
       let nextPM = nextInMemory n;
       let i = unat (pm_hashValue n mod newSize);
       l \<leftarrow> nth_opt lastAdd i;
       let h1 = h(a \<mapsto> n\<lparr>nextInMemory := None, prevInMemory := l\<rparr>);
       h2 \<leftarrow> upd_if l (\<lambda>n. n\<lparr>nextInMemory := Some a\<rparr>) h1;
       resize_chain newSize nextPM h2 (if l = None then newBeta[i := Some a] else newBeta) (lastAdd[i := Some a]) })"

fun resize_chains ::
    "u64 \<Rightarrow> ptr list \<Rightarrow> (addr \<rightharpoonup> pmNode) \<Rightarrow> ptr list \<Rightarrow> ptr list \<Rightarrow> ((addr \<rightharpoonup> pmNode) \<times> ptr list \<times> ptr list) option" where
  "resize_chains newSize [] h newBeta lastAdd = Some (h, newBeta, lastAdd)"
| "resize_chains newSize (thePM # oldArray) h newBeta lastAdd = do {
     (h1, newBeta1, lastAdd1) \<leftarrow> resize_chain newSize thePM h newBeta lastAdd;
     resize_chains newSize oldArray h1 newBeta1 lastAdd1 }"

definition ResizeBetaMemory :: "join_id \<Rightarrow> side \<Rightarrow> rete \<Rightarrow> rete option" where
  "ResizeBetaMemory join sd s = do {
     m \<leftarrow> memory_at join sd s;
     let newSize = beta_size m * 11;
     let empty = replicate (unat newSize) None;
     (h, newBeta, lastAdd) \<leftarrow> resize_chains newSize (beta m) (pms s) empty empty;
     upd_memories join (put_memory sd (m\<lparr>beta_size := newSize, beta := newBeta,
       beta_last := map_option (\<lambda>_. lastAdd) (beta_last m)\<rparr>)) (s\<lparr>pms := h\<rparr>) }"

definition ResetBetaMemory :: "join_id \<Rightarrow> side \<Rightarrow> rete \<Rightarrow> rete option" where
  "ResetBetaMemory join sd s = do {
     m \<leftarrow> memory_at join sd s;
     if beta_size m = 1 \<or> beta_size m = INITIAL_BETA_HASH_SIZE then Some s
     else do {
       let empty = replicate (unat INITIAL_BETA_HASH_SIZE) None;
       upd_memories join (put_memory sd (m\<lparr>beta_size := INITIAL_BETA_HASH_SIZE, beta := empty,
         beta_last := map_option (\<lambda>_. empty) (beta_last m)\<rparr>)) s } }"

section \<open>Lists of siblings\<close>

text \<open>
  The three lists that hang off a match have the same shape: a head in the owner, two links in the
  members, and in every member a pointer to the owner.  The code repeats the same assignments for each of
  them; here they are written once, with the fields as arguments.
\<close>

definition link_sibling :: "('n \<Rightarrow> ptr) \<Rightarrow> (ptr \<Rightarrow> 'n \<Rightarrow> 'n) \<Rightarrow> (ptr \<Rightarrow> 'n \<Rightarrow> 'n) \<Rightarrow> (ptr \<Rightarrow> 'n \<Rightarrow> 'n) \<Rightarrow>
    addr \<Rightarrow> addr \<Rightarrow> (addr \<rightharpoonup> 'n) \<Rightarrow> (addr \<rightharpoonup> 'n) option" where
  "link_sibling head set_head set_prv set_nxt owner x h = do {
     N \<leftarrow> h owner;
     h1 \<leftarrow> upd_at (Some x) (set_nxt (head N)) h;
     h2 \<leftarrow> upd_if (head N) (set_prv (Some x)) h1;
     upd_at (Some owner) (set_head (Some x)) h2 }"

definition cut_sibling :: "('n \<Rightarrow> ptr) \<Rightarrow> ('n \<Rightarrow> ptr) \<Rightarrow> (ptr \<Rightarrow> 'n \<Rightarrow> 'n) \<Rightarrow> (ptr \<Rightarrow> 'n \<Rightarrow> 'n) \<Rightarrow> (ptr \<Rightarrow> 'n \<Rightarrow> 'n) \<Rightarrow>
    ptr \<Rightarrow> addr \<Rightarrow> (addr \<rightharpoonup> 'n) \<Rightarrow> (addr \<rightharpoonup> 'n) option" where
  "cut_sibling prv nxt set_head set_prv set_nxt owner x h = do {
     n \<leftarrow> h x;
     h1 \<leftarrow> (if prv n = None then upd_if owner (set_head (nxt n)) h else upd_at (prv n) (set_nxt (nxt n)) h);
     upd_if (nxt n) (set_prv (prv n)) h1 }"

abbreviation set_nextRight :: "ptr \<Rightarrow> pmNode \<Rightarrow> pmNode" where "set_nextRight q \<equiv> nextRightChild_update (\<lambda>_. q)"
abbreviation set_prevRight :: "ptr \<Rightarrow> pmNode \<Rightarrow> pmNode" where "set_prevRight q \<equiv> prevRightChild_update (\<lambda>_. q)"
abbreviation set_nextLeft :: "ptr \<Rightarrow> pmNode \<Rightarrow> pmNode" where "set_nextLeft q \<equiv> nextLeftChild_update (\<lambda>_. q)"
abbreviation set_prevLeft :: "ptr \<Rightarrow> pmNode \<Rightarrow> pmNode" where "set_prevLeft q \<equiv> prevLeftChild_update (\<lambda>_. q)"
abbreviation set_nextBlocked :: "ptr \<Rightarrow> pmNode \<Rightarrow> pmNode" where "set_nextBlocked q \<equiv> nextBlocked_update (\<lambda>_. q)"
abbreviation set_prevBlocked :: "ptr \<Rightarrow> pmNode \<Rightarrow> pmNode" where "set_prevBlocked q \<equiv> prevBlocked_update (\<lambda>_. q)"
abbreviation set_children :: "ptr \<Rightarrow> pmNode \<Rightarrow> pmNode" where "set_children q \<equiv> children_update (\<lambda>_. q)"
abbreviation set_blockList :: "ptr \<Rightarrow> pmNode \<Rightarrow> pmNode" where "set_blockList q \<equiv> blockList_update (\<lambda>_. q)"
abbreviation set_nextIn :: "ptr \<Rightarrow> pmNode \<Rightarrow> pmNode" where "set_nextIn q \<equiv> nextInMemory_update (\<lambda>_. q)"
abbreviation set_prevIn :: "ptr \<Rightarrow> pmNode \<Rightarrow> pmNode" where "set_prevIn q \<equiv> prevInMemory_update (\<lambda>_. q)"

abbreviation link_right :: "addr \<Rightarrow> addr \<Rightarrow> (addr \<rightharpoonup> pmNode) \<Rightarrow> (addr \<rightharpoonup> pmNode) option" where
  "link_right \<equiv> link_sibling children set_children set_prevRight set_nextRight"

abbreviation link_left :: "addr \<Rightarrow> addr \<Rightarrow> (addr \<rightharpoonup> pmNode) \<Rightarrow> (addr \<rightharpoonup> pmNode) option" where
  "link_left \<equiv> link_sibling children set_children set_prevLeft set_nextLeft"

abbreviation link_blocked :: "addr \<Rightarrow> addr \<Rightarrow> (addr \<rightharpoonup> pmNode) \<Rightarrow> (addr \<rightharpoonup> pmNode) option" where
  "link_blocked \<equiv> link_sibling blockList set_blockList set_prevBlocked set_nextBlocked"

abbreviation cut_right :: "ptr \<Rightarrow> addr \<Rightarrow> (addr \<rightharpoonup> pmNode) \<Rightarrow> (addr \<rightharpoonup> pmNode) option" where
  "cut_right \<equiv> cut_sibling prevRightChild nextRightChild set_children set_prevRight set_nextRight"

abbreviation cut_left :: "ptr \<Rightarrow> addr \<Rightarrow> (addr \<rightharpoonup> pmNode) \<Rightarrow> (addr \<rightharpoonup> pmNode) option" where
  "cut_left \<equiv> cut_sibling prevLeftChild nextLeftChild set_children set_prevLeft set_nextLeft"

abbreviation cut_blocked :: "ptr \<Rightarrow> addr \<Rightarrow> (addr \<rightharpoonup> pmNode) \<Rightarrow> (addr \<rightharpoonup> pmNode) option" where
  "cut_blocked \<equiv> cut_sibling prevBlocked nextBlocked set_blockList set_prevBlocked set_nextBlocked"

section \<open>Entering a memory\<close>

definition store_in_memory :: "addr \<Rightarrow> join_id \<Rightarrow> u64 \<Rightarrow> side \<Rightarrow> rete \<Rightarrow> rete option" where
  "store_in_memory thePM join hv sd s = do {
     m \<leftarrow> memory_at join sd s;
     s1 \<leftarrow> upd_pm (Some thePM) (\<lambda>n. n\<lparr>rhsMemory := (sd = RHS), pm_hashValue := hv\<rparr>) s;
     i \<leftarrow> betaLocation m hv;
     first \<leftarrow> nth_opt (beta m) i;
     (s2, m2) \<leftarrow> (case sd of
         LHS \<Rightarrow> do {
           s2 \<leftarrow> upd_pm (Some thePM) (set_nextIn first) s1;
           s3 \<leftarrow> upd_pm_if first (set_prevIn (Some thePM)) s2;
           Some (s3, m\<lparr>beta := (beta m)[i := Some thePM]\<rparr>) }
       | RHS \<Rightarrow> do {
           lasts \<leftarrow> beta_last m;
           l \<leftarrow> nth_opt lasts i;
           let m1 = m\<lparr>beta_last := Some (lasts[i := Some thePM])\<rparr>;
           (case l of
              Some _ \<Rightarrow> do {
                s2 \<leftarrow> upd_pm l (set_nextIn (Some thePM)) s1;
                s3 \<leftarrow> upd_pm (Some thePM) (set_prevIn l) s2;
                Some (s3, m1) }
            | None \<Rightarrow> Some (s1, m1\<lparr>beta := (beta m)[i := Some thePM]\<rparr>)) });
     s4 \<leftarrow> upd_memories join (\<lambda>J. note_add sd (put_memory sd (m2\<lparr>beta_count := beta_count m2 + 1\<rparr>) J)) s2;
     upd_row (Some thePM) (\<lambda>r. r\<lparr>match_owner := join\<rparr>) s4 }"

text \<open>The last lines of \<^verbatim>\<open>UpdateBetaPMLinks\<close> and of the two functions that unlink a match.\<close>

definition grow_memory :: "join_id \<Rightarrow> side \<Rightarrow> rete \<Rightarrow> rete option" where
  "grow_memory join sd s =
     (if \<not> BetaMemoryResizingFlag s then Some s
      else do {
        m \<leftarrow> memory_at join sd s;
        if beta_size m > 1 \<and> beta_count m > beta_size m * 11 then ResizeBetaMemory join sd s else Some s })"

definition shrink_memory :: "join_id \<Rightarrow> side \<Rightarrow> rete \<Rightarrow> rete option" where
  "shrink_memory join sd s =
     (if \<not> BetaMemoryResizingFlag s then Some s
      else do {
        m \<leftarrow> memory_at join sd s;
        if beta_count m = 0 \<and> beta_size m > 1 then ResetBetaMemory join sd s else Some s })"

definition set_rightParent :: "addr \<Rightarrow> ptr \<Rightarrow> rete \<Rightarrow> rete option" where
  "set_rightParent a q = upd_row (Some a) (\<lambda>r. r\<lparr>rightParent := q\<rparr>)"

definition set_leftParent :: "addr \<Rightarrow> ptr \<Rightarrow> rete \<Rightarrow> rete option" where
  "set_leftParent a q = upd_row (Some a) (\<lambda>r. r\<lparr>leftParent := q\<rparr>)"

definition set_marker :: "addr \<Rightarrow> ptr \<Rightarrow> rete \<Rightarrow> rete option" where
  "set_marker a q = upd_row (Some a) (\<lambda>r. r\<lparr>marker := q\<rparr>)"

definition UpdateBetaPMLinks :: "addr \<Rightarrow> ptr \<Rightarrow> ptr \<Rightarrow> join_id \<Rightarrow> u64 \<Rightarrow> side \<Rightarrow> rete \<Rightarrow> rete option" where
  "UpdateBetaPMLinks thePM lhsBinds rhsBinds join hv sd s = do {
     s1 \<leftarrow> store_in_memory thePM join hv sd s;
     s2 \<leftarrow> (case rhsBinds of
         None \<Rightarrow> Some s1
       | Some p \<Rightarrow> do { h \<leftarrow> link_right p thePM (pms s1); set_rightParent thePM rhsBinds (s1\<lparr>pms := h\<rparr>) });
     s3 \<leftarrow> (case lhsBinds of
         None \<Rightarrow> Some s2
       | Some p \<Rightarrow> do { h \<leftarrow> link_left p thePM (pms s2); set_leftParent thePM lhsBinds (s2\<lparr>pms := h\<rparr>) });
     grow_memory join sd s3 }"

definition AddBlockedLink :: "addr \<Rightarrow> addr \<Rightarrow> rete \<Rightarrow> rete option" where
  "AddBlockedLink thePM rhsBinds s = do {
     s1 \<leftarrow> set_marker thePM (Some rhsBinds) s;
     h \<leftarrow> link_blocked rhsBinds thePM (pms s1);
     Some (s1\<lparr>pms := h\<rparr>) }"

definition RemoveBlockedLink :: "addr \<Rightarrow> rete \<Rightarrow> rete option" where
  "RemoveBlockedLink thePM s = do {
     n \<leftarrow> pms s thePM;
     r \<leftarrow> rows s thePM;
     if prevBlocked n = None \<and> marker r = None then None
     else do {
       h \<leftarrow> cut_blocked (marker r) thePM (pms s);
       s1 \<leftarrow> upd_pm (Some thePM) (\<lambda>n. n\<lparr>nextBlocked := None, prevBlocked := None\<rparr>) (s\<lparr>pms := h\<rparr>);
       set_marker thePM None s1 } }"

section \<open>Leaving a memory\<close>

definition remove_from_memory :: "join_id \<Rightarrow> addr \<Rightarrow> side \<Rightarrow> rete \<Rightarrow> rete option" where
  "remove_from_memory join thePM sd s = do {
     m \<leftarrow> memory_at join sd s;
     n \<leftarrow> pms s thePM;
     i \<leftarrow> betaLocation m (pm_hashValue n);
     m1 \<leftarrow> (case sd of
         LHS \<Rightarrow> Some m
       | RHS \<Rightarrow> do {
           lasts \<leftarrow> beta_last m;
           l \<leftarrow> nth_opt lasts i;
           Some (if l = Some thePM then m\<lparr>beta_last := Some (lasts[i := prevInMemory n])\<rparr> else m) });
     (s2, m2) \<leftarrow> (if prevInMemory n = None
        then (if i < length (beta m1) then Some (s, m1\<lparr>beta := (beta m1)[i := nextInMemory n]\<rparr>) else None)
        else do { s2 \<leftarrow> upd_pm (prevInMemory n) (set_nextIn (nextInMemory n)) s; Some (s2, m1) });
     s3 \<leftarrow> upd_pm_if (nextInMemory n) (set_prevIn (prevInMemory n)) s2;
     upd_memories join (\<lambda>J. note_delete sd (put_memory sd (m2\<lparr>beta_count := beta_count m2 - 1\<rparr>) J)) s3 }"

partial_function (option) orphan_right :: "ptr \<Rightarrow> rete \<Rightarrow> rete option" where
  "orphan_right tempPM s = (case tempPM of
     None \<Rightarrow> Some s
   | Some a \<Rightarrow> do {
       s1 \<leftarrow> set_rightParent a None s;
       n \<leftarrow> pms s1 a;
       orphan_right (nextRightChild n) s1 })"

partial_function (option) orphan_left :: "ptr \<Rightarrow> rete \<Rightarrow> rete option" where
  "orphan_left tempPM s = (case tempPM of
     None \<Rightarrow> Some s
   | Some a \<Rightarrow> do {
       s1 \<leftarrow> set_leftParent a None s;
       n \<leftarrow> pms s1 a;
       orphan_left (nextLeftChild n) s1 })"

definition leave_right :: "addr \<Rightarrow> rete \<Rightarrow> rete option" where
  "leave_right thePM s = do {
     r \<leftarrow> rows s thePM;
     h \<leftarrow> cut_right (rightParent r) thePM (pms s);
     s1 \<leftarrow> set_rightParent thePM None (s\<lparr>pms := h\<rparr>);
     upd_pm (Some thePM) (\<lambda>n. n\<lparr>nextRightChild := None, prevRightChild := None\<rparr>) s1 }"

definition leave_left :: "addr \<Rightarrow> rete \<Rightarrow> rete option" where
  "leave_left thePM s = do {
     r \<leftarrow> rows s thePM;
     h \<leftarrow> cut_left (leftParent r) thePM (pms s);
     s1 \<leftarrow> set_leftParent thePM None (s\<lparr>pms := h\<rparr>);
     upd_pm (Some thePM) (\<lambda>n. n\<lparr>nextLeftChild := None, prevLeftChild := None\<rparr>) s1 }"

definition leave_blocked :: "addr \<Rightarrow> rete \<Rightarrow> rete option" where
  "leave_blocked thePM s = do {
     r \<leftarrow> rows s thePM;
     h \<leftarrow> cut_blocked (marker r) thePM (pms s);
     s1 \<leftarrow> set_marker thePM None (s\<lparr>pms := h\<rparr>);
     upd_pm (Some thePM) (\<lambda>n. n\<lparr>nextBlocked := None, prevBlocked := None\<rparr>) s1 }"

definition leave_children :: "addr \<Rightarrow> rete \<Rightarrow> rete option" where
  "leave_children thePM s = do {
     n \<leftarrow> pms s thePM;
     if children n = None then Some s
     else do {
       s1 \<leftarrow> (if rhsMemory n then orphan_right (children n) s else orphan_left (children n) s);
       upd_pm (Some thePM) (set_children None) s1 } }"

definition UnlinkBetaPartialMatchfromAlphaAndBetaLineage :: "addr \<Rightarrow> rete \<Rightarrow> rete option" where
  "UnlinkBetaPartialMatchfromAlphaAndBetaLineage thePM s = do {
     s1 \<leftarrow> leave_right thePM s;
     s2 \<leftarrow> leave_left thePM s1;
     s3 \<leftarrow> leave_blocked thePM s2;
     leave_children thePM s3 }"

definition UnlinkBetaPMFromNodeAndLineage :: "join_id \<Rightarrow> addr \<Rightarrow> side \<Rightarrow> rete \<Rightarrow> rete option" where
  "UnlinkBetaPMFromNodeAndLineage join thePM sd s = do {
     s1 \<leftarrow> remove_from_memory join thePM sd s;
     s2 \<leftarrow> upd_pm (Some thePM) (\<lambda>n. n\<lparr>nextInMemory := None, prevInMemory := None\<rparr>) s1;
     s3 \<leftarrow> UnlinkBetaPartialMatchfromAlphaAndBetaLineage thePM s2;
     shrink_memory join sd s3 }"

definition UnlinkNonLeftLineage :: "join_id \<Rightarrow> addr \<Rightarrow> side \<Rightarrow> rete \<Rightarrow> rete option" where
  "UnlinkNonLeftLineage join thePM sd s = do {
     s1 \<leftarrow> remove_from_memory join thePM sd s;
     n \<leftarrow> pms s1 thePM;
     r \<leftarrow> rows s1 thePM;
     h \<leftarrow> cut_right (rightParent r) thePM (pms s1);
     s2 \<leftarrow> (case nextRightChild n of
         Some b \<Rightarrow> if prevRightChild n = None \<and> rightParent r \<noteq> None then set_rightParent b (rightParent r) (s1\<lparr>pms := h\<rparr>)
                   else Some (s1\<lparr>pms := h\<rparr>)
       | None \<Rightarrow> Some (s1\<lparr>pms := h\<rparr>));
     h3 \<leftarrow> cut_blocked (marker r) thePM (pms s2);
     shrink_memory join sd (s2\<lparr>pms := h3\<rparr>) }"

section \<open>Access\<close>

definition GetLeftBetaMemory :: "join_id \<Rightarrow> u64 \<Rightarrow> rete \<Rightarrow> ptr option" where
  "GetLeftBetaMemory theJoin hv s = do { m \<leftarrow> memory_at theJoin LHS s; i \<leftarrow> betaLocation m hv; nth_opt (beta m) i }"

definition GetRightBetaMemory :: "join_id \<Rightarrow> u64 \<Rightarrow> rete \<Rightarrow> ptr option" where
  "GetRightBetaMemory theJoin hv s = do { m \<leftarrow> memory_at theJoin RHS s; i \<leftarrow> betaLocation m hv; nth_opt (beta m) i }"

definition BetaMemoryNotEmpty :: "join_id \<Rightarrow> rete \<Rightarrow> bool option" where
  "BetaMemoryNotEmpty theJoin s = do {
     J \<leftarrow> memories s theJoin;
     Some ((case leftBeta J of None \<Rightarrow> False | Some m \<Rightarrow> beta_count m > 0) \<or>
           (case rightBeta J of None \<Rightarrow> False | Some m \<Rightarrow> beta_count m > 0)) }"

fun find_entity :: "entity_id \<Rightarrow> entity_id option option list \<Rightarrow> bool" where
  "find_entity theEntity [] = False"
| "find_entity theEntity (b # bs) =
     (case b of None \<Rightarrow> find_entity theEntity bs
      | Some item \<Rightarrow> if item = Some theEntity then True else find_entity theEntity bs)"

definition FindEntityInPartialMatch :: "entity_id \<Rightarrow> addr \<Rightarrow> rete \<Rightarrow> bool option" where
  "FindEntityInPartialMatch theEntity thePartialMatch s = do { r \<leftarrow> rows s thePartialMatch; Some (find_entity theEntity (binds r)) }"

section \<open>Freeing matches\<close>

definition free_match :: "addr \<Rightarrow> rete \<Rightarrow> rete" where
  "free_match a s = s\<lparr>pms := (pms s)(a := None), rete_env := (rete_env s)\<lparr>matches := (rows s)(a := None)\<rparr>\<rparr>"

text \<open>The alpha match of an alpha memory match is freed with it: it has to be there.\<close>

definition owns_alpha :: "pmNode \<Rightarrow> partialMatch \<Rightarrow> bool" where
  "owns_alpha n r \<longleftrightarrow> betaMemory n \<or> (\<exists>item. nth_opt (binds r) 0 = Some (Some item))"

definition ReturnPartialMatch :: "addr \<Rightarrow> rete \<Rightarrow> rete option" where
  "ReturnPartialMatch waste s = do {
     n \<leftarrow> pms s waste;
     r \<leftarrow> rows s waste;
     if busy r then do {
       s1 \<leftarrow> upd_pm (Some waste) (set_nextIn (GarbagePartialMatches s)) s;
       Some (s1\<lparr>GarbagePartialMatches := Some waste\<rparr>) }
     else if \<not> owns_alpha n r then None
     else do {
       e \<leftarrow> (if pm_dependents r = [] then Some (rete_env s) else RemovePMDependencies waste (rete_env s));
       Some (free_match waste (s\<lparr>rete_env := e\<rparr>)) } }"

definition DestroyPartialMatch :: "addr \<Rightarrow> rete \<Rightarrow> rete option" where
  "DestroyPartialMatch waste s = do {
     n \<leftarrow> pms s waste;
     r \<leftarrow> rows s waste;
     if \<not> owns_alpha n r then None
     else do {
       e \<leftarrow> (if pm_dependents r = [] then Some (rete_env s) else DestroyPMDependencies waste (rete_env s));
       Some (free_match waste (s\<lparr>rete_env := e\<rparr>)) } }"

partial_function (option) DeletePartialMatches :: "ptr \<Rightarrow> rete \<Rightarrow> rete option" where
  "DeletePartialMatches listOfPMs s = (case listOfPMs of
     None \<Rightarrow> Some s
   | Some a \<Rightarrow> do {
       n \<leftarrow> pms s a;
       r \<leftarrow> rows s a;
       e \<leftarrow> (if pm_dependents r = [] then Some (rete_env s) else RemoveLogicalSupport a (rete_env s));
       s1 \<leftarrow> ReturnPartialMatch a (s\<lparr>rete_env := e\<rparr>);
       DeletePartialMatches (nextInMemory n) s1 })"

partial_function (option) FlushAlphaBetaMemory :: "ptr \<Rightarrow> rete \<Rightarrow> rete option" where
  "FlushAlphaBetaMemory pfl s = (case pfl of
     None \<Rightarrow> Some s
   | Some a \<Rightarrow> do {
       n \<leftarrow> pms s a;
       s1 \<leftarrow> UnlinkBetaPartialMatchfromAlphaAndBetaLineage a s;
       s2 \<leftarrow> ReturnPartialMatch a s1;
       FlushAlphaBetaMemory (nextInMemory n) s2 })"

partial_function (option) DestroyAlphaBetaMemory :: "ptr \<Rightarrow> rete \<Rightarrow> rete option" where
  "DestroyAlphaBetaMemory pfl s = (case pfl of
     None \<Rightarrow> Some s
   | Some a \<Rightarrow> do {
       n \<leftarrow> pms s a;
       s1 \<leftarrow> DestroyPartialMatch a s;
       DestroyAlphaBetaMemory (nextInMemory n) s1 })"

fun each_bucket :: "(ptr \<Rightarrow> rete \<Rightarrow> rete option) \<Rightarrow> ptr list \<Rightarrow> rete \<Rightarrow> rete option" where
  "each_bucket f [] s = Some s"
| "each_bucket f (p # ps) s = do { s1 \<leftarrow> f p s; each_bucket f ps s1 }"

definition FlushBetaMemory :: "join_id \<Rightarrow> side \<Rightarrow> rete \<Rightarrow> rete option" where
  "FlushBetaMemory theJoin sd s = do {
     J \<leftarrow> memories s theJoin;
     (case memory_of sd J of None \<Rightarrow> Some s | Some m \<Rightarrow> each_bucket FlushAlphaBetaMemory (beta m) s) }"

definition DestroyBetaMemory :: "join_id \<Rightarrow> side \<Rightarrow> rete \<Rightarrow> rete option" where
  "DestroyBetaMemory theJoin sd s = do {
     J \<leftarrow> memories s theJoin;
     (case memory_of sd J of None \<Rightarrow> Some s | Some m \<Rightarrow> each_bucket DestroyAlphaBetaMemory (beta m) s) }"

definition ReturnLeftMemory :: "join_id \<Rightarrow> rete \<Rightarrow> rete option" where
  "ReturnLeftMemory theJoin = upd_memories theJoin (\<lambda>J. J\<lparr>leftBeta := None\<rparr>)"

definition ReturnRightMemory :: "join_id \<Rightarrow> rete \<Rightarrow> rete option" where
  "ReturnRightMemory theJoin = upd_memories theJoin (\<lambda>J. J\<lparr>rightBeta := None\<rparr>)"

text \<open>The list of garbage alpha matches of \<^verbatim>\<open>FlushGarbagePartialMatches\<close> is never filled.\<close>

partial_function (option) FlushGarbagePartialMatches :: "rete \<Rightarrow> rete option" where
  "FlushGarbagePartialMatches s = (case GarbagePartialMatches s of
     None \<Rightarrow> Some s
   | Some a \<Rightarrow> do {
       n \<leftarrow> pms s a;
       s1 \<leftarrow> upd_row (Some a) (\<lambda>r. r\<lparr>busy := False\<rparr>) s;
       s2 \<leftarrow> ReturnPartialMatch a s1;
       FlushGarbagePartialMatches (s2\<lparr>GarbagePartialMatches := nextInMemory n\<rparr>) })"

fun has_entity :: "(entity_id \<Rightarrow> bool) \<Rightarrow> entity_id option option list \<Rightarrow> bool" where
  "has_entity P [] = False"
| "has_entity P (b # bs) = (case b of Some (Some x) \<Rightarrow> if P x then True else has_entity P bs | _ \<Rightarrow> has_entity P bs)"

text \<open>
  The functions \<^verbatim>\<open>synchronized\<close> and \<^verbatim>\<open>isDeleted\<close> of an entity's type are arguments; a type without such a
  function counts as synchronized and not deleted.
\<close>

definition PartialMatchDefunct :: "(entity_id \<Rightarrow> bool) \<Rightarrow> addr \<Rightarrow> rete \<Rightarrow> bool option" where
  "PartialMatchDefunct synchronized thePM s = do {
     n \<leftarrow> pms s thePM;
     r \<leftarrow> rows s thePM;
     Some (if deleting n then True else has_entity (\<lambda>x. \<not> synchronized x) (binds r)) }"

definition PartialMatchWillBeDeleted :: "(entity_id \<Rightarrow> bool) \<Rightarrow> ptr \<Rightarrow> rete \<Rightarrow> bool option" where
  "PartialMatchWillBeDeleted isDeleted thePM s = (case thePM of
     None \<Rightarrow> Some False
   | Some a \<Rightarrow> do {
       n \<leftarrow> pms s a;
       r \<leftarrow> rows s a;
       Some (if deleting n then True else has_entity isDeleted (binds r)) })"

end
