(* ===== verification/Alpha_Memory.thy ===== *)
theory Alpha_Memory
  imports Rete_Memory
begin

text \<open>
  The alpha memories of the pattern network (\<^verbatim>\<open>reteutil.c\<close>, \<^verbatim>\<open>network.h\<close>).  The matches of a pattern are kept in queues, one for
  every hash value that occurs; a queue hangs off an \<^verbatim>\<open>alphaMemoryHash\<close> entry, which is in two doubly linked lists: the
  bucket of the table of all alpha memories, and the list of the entries of its pattern.
\<close>

record alphaMemoryHash =
  amh_bucket :: nat
  amh_owner :: addr
  alphaMemory :: ptr
  endOfQueue :: ptr
  nextHash :: ptr
  prevHash :: ptr
  amh_next :: ptr
  amh_prev :: ptr

record patternNodeHeader =
  firstHash :: ptr
  lastHash :: ptr

record alphaNet =
  alpha_rete :: rete
  amems :: "addr \<rightharpoonup> alphaMemoryHash"
  AlphaMemoryTable :: "nat \<Rightarrow> ptr"
  patternHeaders :: "addr \<rightharpoonup> patternNodeHeader"

abbreviation match_nodes :: "alphaNet \<Rightarrow> addr \<rightharpoonup> pmNode" where
  "match_nodes a \<equiv> pms (alpha_rete a)"

definition upd_node :: "ptr \<Rightarrow> (pmNode \<Rightarrow> pmNode) \<Rightarrow> alphaNet \<Rightarrow> alphaNet option" where
  "upd_node p f a = map_option (\<lambda>s. a\<lparr>alpha_rete := s\<rparr>) (upd_pm p f (alpha_rete a))"

definition upd_amem :: "ptr \<Rightarrow> (alphaMemoryHash \<Rightarrow> alphaMemoryHash) \<Rightarrow> alphaNet \<Rightarrow> alphaNet option" where
  "upd_amem p f a = map_option (\<lambda>M. a\<lparr>amems := M\<rparr>) (upd_at p f (amems a))"

definition upd_amem_if :: "ptr \<Rightarrow> (alphaMemoryHash \<Rightarrow> alphaMemoryHash) \<Rightarrow> alphaNet \<Rightarrow> alphaNet option" where
  "upd_amem_if p f a = map_option (\<lambda>M. a\<lparr>amems := M\<rparr>) (upd_if p f (amems a))"

definition upd_header :: "addr \<Rightarrow> (patternNodeHeader \<Rightarrow> patternNodeHeader) \<Rightarrow> alphaNet \<Rightarrow> alphaNet option" where
  "upd_header p f a = map_option (\<lambda>H. a\<lparr>patternHeaders := H\<rparr>) (upd_at (Some p) f (patternHeaders a))"

abbreviation set_next :: "ptr \<Rightarrow> alphaMemoryHash \<Rightarrow> alphaMemoryHash" where "set_next q \<equiv> amh_next_update (\<lambda>_. q)"
abbreviation set_prev :: "ptr \<Rightarrow> alphaMemoryHash \<Rightarrow> alphaMemoryHash" where "set_prev q \<equiv> amh_prev_update (\<lambda>_. q)"
abbreviation set_nextHash :: "ptr \<Rightarrow> alphaMemoryHash \<Rightarrow> alphaMemoryHash" where "set_nextHash q \<equiv> nextHash_update (\<lambda>_. q)"
abbreviation set_prevHash :: "ptr \<Rightarrow> alphaMemoryHash \<Rightarrow> alphaMemoryHash" where "set_prevHash q \<equiv> prevHash_update (\<lambda>_. q)"

section \<open>Search\<close>

abbreviation ALPHA_MEMORY_HASH_SIZE :: u64 where "ALPHA_MEMORY_HASH_SIZE \<equiv> 63559"

text \<open>The low 32 bits of the address of the pattern are added to the hash value of the entity.\<close>

definition AlphaMemoryHashValue :: "addr \<Rightarrow> u64 \<Rightarrow> nat" where
  "AlphaMemoryHashValue theHeader hashOffset = unat ((of_nat (theHeader mod 2 ^ 32) + hashOffset) mod ALPHA_MEMORY_HASH_SIZE)"

partial_function (option) find_memory :: "addr \<Rightarrow> ptr \<Rightarrow> (addr \<rightharpoonup> alphaMemoryHash) \<Rightarrow> ptr option" where
  "find_memory theHeader theAlphaMemory M = (case theAlphaMemory of
     None \<Rightarrow> Some None
   | Some k \<Rightarrow> do {
       m \<leftarrow> M k;
       if amh_owner m \<noteq> theHeader then find_memory theHeader (amh_next m) M else Some (Some k) })"

definition FindAlphaMemory :: "addr \<Rightarrow> nat \<Rightarrow> alphaNet \<Rightarrow> ptr option" where
  "FindAlphaMemory theHeader hv a = find_memory theHeader (AlphaMemoryTable a hv) (amems a)"

definition GetAlphaMemory :: "addr \<Rightarrow> u64 \<Rightarrow> alphaNet \<Rightarrow> ptr option" where
  "GetAlphaMemory theHeader hashOffset a = do {
     theAlphaMemory \<leftarrow> FindAlphaMemory theHeader (AlphaMemoryHashValue theHeader hashOffset) a;
     (case theAlphaMemory of
        None \<Rightarrow> Some None
      | Some k \<Rightarrow> do { m \<leftarrow> amems a k; Some (alphaMemory m) }) }"

section \<open>Creating a match\<close>

text \<open>
  \<open>own\<close> and \<open>rhs\<close> are what the fields \<^verbatim>\<open>owner\<close> and \<^verbatim>\<open>rhsMemory\<close> of the allocated structure happen to hold: \<^verbatim>\<open>CreateAlphaMatch\<close> does not
  set them.
\<close>

definition new_alpha_match :: "join_id \<Rightarrow> bool \<Rightarrow> entity_id \<Rightarrow> multifieldMarker list \<Rightarrow> u64 \<Rightarrow> nat \<Rightarrow> alphaNet \<Rightarrow> addr \<times> alphaNet" where
  "new_alpha_match own rhs theEntity markers hashOffset hv a =
     (let (x, s) = new_match (InitializePMLinks (blank_node\<lparr>betaMemory := False, rhsMemory := rhs, pm_hashValue := hashOffset,
            alphaBucket := hv, alphaMarkers := CopyMultifieldMarkers markers\<rparr>)) (new_row own [Some (Some theEntity)]) (alpha_rete a)
      in (x, a\<lparr>alpha_rete := s\<rparr>))"

definition new_alpha_memory :: "addr \<Rightarrow> nat \<Rightarrow> alphaNet \<Rightarrow> (addr \<times> alphaNet) option" where
  "new_alpha_memory theHeader hv a = do {
     let e = rete_env (alpha_rete a);
     let k = fresh e;
     let first = AlphaMemoryTable a hv;
     let m = \<lparr>amh_bucket = hv, amh_owner = theHeader, alphaMemory = None, endOfQueue = None, nextHash = None, prevHash = None,
       amh_next = first, amh_prev = None\<rparr>;
     let a1 = a\<lparr>alpha_rete := (alpha_rete a)\<lparr>rete_env := e\<lparr>fresh := k + 1\<rparr>\<rparr>, amems := (amems a)(k \<mapsto> m)\<rparr>;
     a2 \<leftarrow> upd_amem_if first (set_prev (Some k)) a1;
     let a3 = a2\<lparr>AlphaMemoryTable := (AlphaMemoryTable a2)(hv := Some k)\<rparr>;
     H \<leftarrow> patternHeaders a3 theHeader;
     a4 \<leftarrow> (if firstHash H = None
         then upd_header theHeader (\<lambda>H. H\<lparr>firstHash := Some k, lastHash := Some k\<rparr>) a3
         else do {
           b \<leftarrow> upd_amem (lastHash H) (set_nextHash (Some k)) a3;
           b1 \<leftarrow> upd_amem (Some k) (set_prevHash (lastHash H)) b;
           upd_header theHeader (\<lambda>H. H\<lparr>lastHash := Some k\<rparr>) b1 });
     Some (k, a4) }"

definition enqueue_match :: "addr \<Rightarrow> addr \<Rightarrow> alphaNet \<Rightarrow> alphaNet option" where
  "enqueue_match theMatch k a = do {
     m \<leftarrow> amems a k;
     a1 \<leftarrow> upd_node (Some theMatch) (set_prevIn (endOfQueue m)) a;
     (case endOfQueue m of
        None \<Rightarrow> upd_amem (Some k) (\<lambda>m. m\<lparr>alphaMemory := Some theMatch, endOfQueue := Some theMatch\<rparr>) a1
      | Some l \<Rightarrow> do {
          a2 \<leftarrow> upd_node (Some l) (set_nextIn (Some theMatch)) a1;
          upd_amem (Some k) (\<lambda>m. m\<lparr>endOfQueue := Some theMatch\<rparr>) a2 }) }"

definition CreateAlphaMatch :: "join_id \<Rightarrow> bool \<Rightarrow> entity_id \<Rightarrow> multifieldMarker list \<Rightarrow> addr \<Rightarrow> u64 \<Rightarrow> alphaNet \<Rightarrow> (addr \<times> alphaNet) option" where
  "CreateAlphaMatch own rhs theEntity markers theHeader hashOffset a = do {
     let hv = AlphaMemoryHashValue theHeader hashOffset;
     let (theMatch, a1) = new_alpha_match own rhs theEntity markers hashOffset hv a;
     theAlphaMemory \<leftarrow> FindAlphaMemory theHeader hv a1;
     (k, a2) \<leftarrow> (case theAlphaMemory of
         None \<Rightarrow> new_alpha_memory theHeader hv a1
       | Some k \<Rightarrow> Some (k, a1));
     a3 \<leftarrow> enqueue_match theMatch k a2;
     Some (theMatch, a3) }"

section \<open>Removing matches\<close>

definition UnlinkAlphaMemoryBucketSiblings :: "addr \<Rightarrow> alphaNet \<Rightarrow> alphaNet option" where
  "UnlinkAlphaMemoryBucketSiblings k a = do {
     m \<leftarrow> amems a k;
     a1 \<leftarrow> (if amh_prev m = None then Some (a\<lparr>AlphaMemoryTable := (AlphaMemoryTable a)(amh_bucket m := amh_next m)\<rparr>)
           else upd_amem (amh_prev m) (set_next (amh_next m)) a);
     upd_amem_if (amh_next m) (set_prev (amh_prev m)) a1 }"

definition free_memory :: "addr \<Rightarrow> alphaNet \<Rightarrow> alphaNet" where
  "free_memory k a = a\<lparr>amems := (amems a)(k := None)\<rparr>"

definition UnlinkAlphaMemory :: "addr \<Rightarrow> addr \<Rightarrow> alphaNet \<Rightarrow> alphaNet option" where
  "UnlinkAlphaMemory theHeader k a = do {
     a1 \<leftarrow> UnlinkAlphaMemoryBucketSiblings k a;
     m \<leftarrow> amems a1 k;
     a2 \<leftarrow> upd_header theHeader (\<lambda>H. H\<lparr>firstHash := (if firstHash H = Some k then nextHash m else firstHash H),
       lastHash := (if lastHash H = Some k then prevHash m else lastHash H)\<rparr>) a1;
     a3 \<leftarrow> upd_amem_if (prevHash m) (set_nextHash (nextHash m)) a2;
     a4 \<leftarrow> upd_amem_if (nextHash m) (set_prevHash (prevHash m)) a3;
     Some (free_memory k a4) }"

text \<open>A match that is at an end of its queue is taken off it at that end of the memory; between two matches the memory is not needed.\<close>

definition dequeue_match :: "ptr \<Rightarrow> pmNode \<Rightarrow> alphaNet \<Rightarrow> alphaNet option" where
  "dequeue_match theAlphaMemory n a = do {
     a1 \<leftarrow> (if prevInMemory n \<noteq> None then upd_node (prevInMemory n) (set_nextIn (nextInMemory n)) a
           else upd_amem theAlphaMemory (\<lambda>m. m\<lparr>alphaMemory := nextInMemory n\<rparr>) a);
     if nextInMemory n \<noteq> None then upd_node (nextInMemory n) (set_prevIn (prevInMemory n)) a1
     else upd_amem theAlphaMemory (\<lambda>m. m\<lparr>endOfQueue := prevInMemory n\<rparr>) a1 }"

definition RemoveAlphaMemoryMatches :: "addr \<Rightarrow> addr \<Rightarrow> alphaNet \<Rightarrow> alphaNet option" where
  "RemoveAlphaMemoryMatches theHeader theMatch a = do {
     n \<leftarrow> match_nodes a theMatch;
     theAlphaMemory \<leftarrow> (if prevInMemory n = None \<or> nextInMemory n = None then FindAlphaMemory theHeader (alphaBucket n) a else Some None);
     a2 \<leftarrow> dequeue_match theAlphaMemory n a;
     a3 \<leftarrow> upd_node (Some theMatch) (set_nextIn (GarbagePartialMatches (alpha_rete a2))) a2;
     let a4 = a3\<lparr>alpha_rete := (alpha_rete a3)\<lparr>GarbagePartialMatches := Some theMatch\<rparr>\<rparr>;
     (case theAlphaMemory of
        None \<Rightarrow> Some a4
      | Some k \<Rightarrow> do {
          m \<leftarrow> amems a4 k;
          if alphaMemory m = None then UnlinkAlphaMemory theHeader k a4 else Some a4 }) }"

partial_function (option) flush_memories :: "ptr \<Rightarrow> alphaNet \<Rightarrow> alphaNet option" where
  "flush_memories theAlphaMemory a = (case theAlphaMemory of
     None \<Rightarrow> Some a
   | Some k \<Rightarrow> do {
       m \<leftarrow> amems a k;
       s \<leftarrow> FlushAlphaBetaMemory (alphaMemory m) (alpha_rete a);
       a1 \<leftarrow> UnlinkAlphaMemoryBucketSiblings k (a\<lparr>alpha_rete := s\<rparr>);
       flush_memories (nextHash m) (free_memory k a1) })"

definition FlushAlphaMemory :: "addr \<Rightarrow> alphaNet \<Rightarrow> alphaNet option" where
  "FlushAlphaMemory theHeader a = do {
     H \<leftarrow> patternHeaders a theHeader;
     a1 \<leftarrow> flush_memories (firstHash H) a;
     upd_header theHeader (\<lambda>H. H\<lparr>firstHash := None, lastHash := None\<rparr>) a1 }"

partial_function (option) destroy_memories :: "bool \<Rightarrow> ptr \<Rightarrow> alphaNet \<Rightarrow> alphaNet option" where
  "destroy_memories unlnk theAlphaMemory a = (case theAlphaMemory of
     None \<Rightarrow> Some a
   | Some k \<Rightarrow> do {
       m \<leftarrow> amems a k;
       s \<leftarrow> DestroyAlphaBetaMemory (alphaMemory m) (alpha_rete a);
       a1 \<leftarrow> (if unlnk then UnlinkAlphaMemoryBucketSiblings k (a\<lparr>alpha_rete := s\<rparr>) else Some (a\<lparr>alpha_rete := s\<rparr>));
       destroy_memories unlnk (nextHash m) (free_memory k a1) })"

definition DestroyAlphaMemory :: "addr \<Rightarrow> bool \<Rightarrow> alphaNet \<Rightarrow> alphaNet option" where
  "DestroyAlphaMemory theHeader unlnk a = do {
     H \<leftarrow> patternHeaders a theHeader;
     a1 \<leftarrow> destroy_memories unlnk (firstHash H) a;
     upd_header theHeader (\<lambda>H. H\<lparr>firstHash := None, lastHash := None\<rparr>) a1 }"

end
