(* ===== verification/Owned_Lists.thy ===== *)
theory Owned_Lists
  imports Rete_Memory
begin

text \<open>
  Families of doubly linked lists with owners.  Every node is in exactly one list, possibly alone; all
  nodes of a list point to the same owner or to none, and the owner points to the first node.  A list
  without an owner is left behind when its owner is freed: its nodes stay linked to each other.

  \<open>sib x\<close> is the list that \<open>x\<close> is in.  The locale \<open>owned_nodes\<close> shows once for all three kinds of lists of the
  join network that the assignments of the code link a node to an owner and take it out again.
\<close>

section \<open>Families\<close>

definition owned :: "('k \<Rightarrow> ptr) \<Rightarrow> (addr \<Rightarrow> addr list) \<Rightarrow> 'k \<Rightarrow> addr list" where
  "owned first sib k = (case first k of None \<Rightarrow> [] | Some x \<Rightarrow> sib x)"

definition family :: "addr set \<Rightarrow> links \<Rightarrow> ('k \<Rightarrow> ptr) \<Rightarrow> (addr \<Rightarrow> 'k option) \<Rightarrow> (addr \<Rightarrow> addr list) \<Rightarrow> bool" where
  "family D L first par sib \<longleftrightarrow>
     (\<forall>x\<in>D. x \<in> set (sib x) \<and> set (sib x) \<subseteq> D \<and> distinct (sib x) \<and> dlseg L None (sib x) None \<and>
        (\<forall>y\<in>set (sib x). sib y = sib x \<and> par y = par x) \<and>
        (\<forall>k. par x = Some k \<longrightarrow> first k = hdp (sib x) None)) \<and>
     (\<forall>k x. first k = Some x \<longrightarrow> x \<in> D \<and> par x = Some k)"

lemma familyD:
  assumes "family D L first par sib" "x \<in> D"
  shows "x \<in> set (sib x)" "set (sib x) \<subseteq> D" "distinct (sib x)" "dlseg L None (sib x) None"
    "y \<in> set (sib x) \<Longrightarrow> sib y = sib x" "y \<in> set (sib x) \<Longrightarrow> par y = par x" "par x = Some k \<Longrightarrow> first k = hdp (sib x) None"
  using assms unfolding family_def by blast+

lemma family_head: "\<lbrakk>family D L first par sib; first k = Some x\<rbrakk> \<Longrightarrow> x \<in> D \<and> par x = Some k"
  unfolding family_def by blast

lemma familyI:
  assumes "\<And>x. x \<in> D \<Longrightarrow> x \<in> set (sib x)" "\<And>x. x \<in> D \<Longrightarrow> set (sib x) \<subseteq> D" "\<And>x. x \<in> D \<Longrightarrow> distinct (sib x)"
    "\<And>x. x \<in> D \<Longrightarrow> dlseg L None (sib x) None" "\<And>x y. \<lbrakk>x \<in> D; y \<in> set (sib x)\<rbrakk> \<Longrightarrow> sib y = sib x \<and> par y = par x"
    "\<And>x k. \<lbrakk>x \<in> D; par x = Some k\<rbrakk> \<Longrightarrow> first k = hdp (sib x) None" "\<And>k x. first k = Some x \<Longrightarrow> x \<in> D \<and> par x = Some k"
  shows "family D L first par sib"
  using assms unfolding family_def by blast

lemma members_owner:
  fixes first :: "'k \<Rightarrow> ptr"
  assumes f: "family D L first par sib" and x: "x \<in> D" "par x = Some k"
  shows "owned first sib k = sib x"
proof -
  have "first k = hdp (sib x) None" "x \<in> set (sib x)" using familyD(1,7) [OF f x(1)] x(2) by simp_all
  then obtain y where "first k = Some y" "y \<in> set (sib x)" by (cases "sib x") auto
  then show ?thesis using familyD(5) [OF f x(1)] by (simp add: owned_def)
qed

lemma member_iff:
  assumes f: "family D L first par sib" and x: "x \<in> D"
  shows "x \<in> set (owned first sib k) \<longleftrightarrow> par x = Some k"
proof
  assume m: "x \<in> set (owned first sib k)"
  then obtain y where y: "first k = Some y" "x \<in> set (sib y)" by (cases "first k") (simp_all add: owned_def)
  then show "par x = Some k" using family_head [OF f y(1)] familyD(6) [OF f, of y x] by auto
qed (use members_owner [OF f x] familyD(1) [OF f x] in simp)

lemma members_list:
  fixes first :: "'k \<Rightarrow> ptr"
  assumes f: "family D L first par sib"
  shows "distinct (owned first sib k)" "dlseg L None (owned first sib k) None" "set (owned first sib k) \<subseteq> D"
    "first k = hdp (owned first sib k) None" "y \<in> set (owned first sib k) \<Longrightarrow> sib y = owned first sib k"
proof -
  have "set (owned first sib k) \<subseteq> D \<and> distinct (owned first sib k) \<and> dlseg L None (owned first sib k) None \<and>
    first k = hdp (owned first sib k) None \<and> (y \<in> set (owned first sib k) \<longrightarrow> sib y = owned first sib k)"
  proof (cases "first k")
    case (Some x)
    then have x: "x \<in> D" "par x = Some k" using family_head [OF f] by blast+
    have "owned first sib k = sib x" using Some by (simp add: owned_def)
    then show ?thesis using familyD(2-5) [OF f x(1)] familyD(7) [OF f x] by simp
  qed (simp add: owned_def)
  then show "distinct (owned first sib k)" "dlseg L None (owned first sib k) None" "set (owned first sib k) \<subseteq> D"
    "first k = hdp (owned first sib k) None" "y \<in> set (owned first sib k) \<Longrightarrow> sib y = owned first sib k" by blast+
qed

text \<open>A node alone in its list has no neighbours.\<close>

lemma family_alone: "\<lbrakk>family D L first par sib; x \<in> D; sib x = [x]\<rbrakk> \<Longrightarrow> L x = Some (None, None)"
  using familyD(4) [of D L first par sib x] by simp

lemma sib_disjoint:
  assumes f: "family D L first par sib" and "x \<in> D" "y \<in> D" "z \<in> set (sib x)" "z \<in> set (sib y)"
  shows "sib x = sib y"
  using familyD(5) [OF f] assms by metis

definition sib_insert :: "addr \<Rightarrow> addr list \<Rightarrow> (addr \<Rightarrow> addr list) \<Rightarrow> (addr \<Rightarrow> addr list)" where
  "sib_insert x xs sib = (\<lambda>y. if y \<in> set xs then xs else sib y)"

definition sib_remove :: "addr \<Rightarrow> (addr \<Rightarrow> addr list) \<Rightarrow> (addr \<Rightarrow> addr list)" where
  "sib_remove x sib = (\<lambda>y. if y = x then [x] else remove1 x (sib y))"

lemma family_insert:
  assumes f: "family D L first par sib" and x: "x \<in> D" "sib x = [x]" "par x = None"
    and k: "owned first sib k = P @ S"
    and L: "dlseg L' None (P @ x # S) None" "\<And>y. y \<notin> set (P @ x # S) \<Longrightarrow> L' y = L y"
  shows "family D L' (first(k := hdp (P @ x # S) None)) (par(x := Some k)) (sib_insert x (P @ x # S) sib)"
proof -
  let ?xs = "P @ x # S" and ?sib = "sib_insert x (P @ x # S) sib"
  note m = members_list [OF f, where k = k, unfolded k]
  have nx: "x \<notin> set (P @ S)" using member_iff [OF f x(1), of k] x(3) k by simp
  have par: "par y = Some k" if "y \<in> set (P @ S)" for y using that member_iff [OF f, of y k] m(3) k by auto
  have out: "set (sib y) \<inter> set ?xs = {}" if y: "y \<in> D" "y \<notin> set ?xs" for y
  proof -
    have "z \<notin> set (sib y)" if z: "z \<in> set (P @ S)" for z
    proof
      assume "z \<in> set (sib y)"
      then have "sib y = P @ S" using m(5) [OF z] familyD(5) [OF f y(1)] by simp
      then have "y \<in> set (P @ S)" using familyD(1) [OF f y(1)] by simp
      then show False using y(2) by simp
    qed
    moreover have "x \<notin> set (sib y)"
    proof
      assume "x \<in> set (sib y)"
      then have "sib y = [x]" using familyD(5) [OF f y(1)] x(2) by simp
      then show False using familyD(1) [OF f y(1)] y(2) by simp
    qed
    ultimately show ?thesis by auto
  qed
  show ?thesis
  proof (rule familyI)
    fix y assume y: "y \<in> D"
    show "y \<in> set (?sib y)" "set (?sib y) \<subseteq> D" "distinct (?sib y)"
      using familyD(1-3) [OF f y] m(1,3) nx x(1) by (auto simp: sib_insert_def)
    show "dlseg L' None (?sib y) None"
    proof (cases "y \<in> set ?xs")
      case False
      then have "?sib y = sib y" by (simp add: sib_insert_def)
      moreover have "dlseg L' None (sib y) None = dlseg L None (sib y) None"
        using L(2) out [OF y False] by (intro dlseg_cong) blast
      ultimately show ?thesis using familyD(4) [OF f y] by simp
    qed (use L(1) in \<open>simp add: sib_insert_def\<close>)
    show "?sib z = ?sib y \<and> (par(x := Some k)) z = (par(x := Some k)) y" if z: "z \<in> set (?sib y)" for z
    proof (cases "y \<in> set ?xs")
      case True
      then have "z \<in> set ?xs" using z by (simp add: sib_insert_def)
      then show ?thesis using True par by (auto simp: sib_insert_def)
    next
      case False
      then have "z \<in> set (sib y)" "z \<notin> set ?xs" using z out [OF y False] by (auto simp: sib_insert_def)
      then show ?thesis using familyD(5,6) [OF f y, of z] False by (auto simp: sib_insert_def)
    qed
    show "(first(k := hdp ?xs None)) j = hdp (?sib y) None" if j: "(par(x := Some k)) y = Some j" for j
    proof (cases "y \<in> set ?xs")
      case True
      then have "j = k" using j par by (auto split: if_splits)
      then show ?thesis using True by (simp add: sib_insert_def)
    next
      case False
      then have "par y = Some j" "j \<noteq> k" using j member_iff [OF f y, of k] k by auto
      then show ?thesis using familyD(7) [OF f y] False by (simp add: sib_insert_def)
    qed
  next
    fix j y assume h: "(first(k := hdp ?xs None)) j = Some y"
    have "Some y = hdp ?xs None \<Longrightarrow> y \<in> set ?xs" by (rule hdp_None_Some) simp
    moreover have "par y = Some j \<and> y \<in> D \<and> y \<noteq> x" if "j \<noteq> k" using h that family_head [OF f, of j y] x(3) by auto
    ultimately show "y \<in> D \<and> (par(x := Some k)) y = Some j" using h par m(3) x(1) by (cases "j = k") auto
  qed
qed

lemma family_remove:
  assumes f: "family D L first par sib" and x: "x \<in> D" "sib x = P @ x # S"
    and L: "dlseg L' None (P @ S) None" "L' x = Some (None, None)" "\<And>y. y \<notin> set (P @ x # S) \<Longrightarrow> L' y = L y"
  shows "family D L' (case par x of None \<Rightarrow> first | Some k \<Rightarrow> first(k := hdp (P @ S) None)) (par(x := None)) (sib_remove x sib)"
    (is "family D L' ?first ?par ?sib")
proof -
  note X = familyD [OF f x(1), unfolded x(2)]
  have d: "remove1 x (P @ x # S) = P @ S" using X(3) by (simp add: remove1_append)
  have alone: "?sib x = [x]" by (simp add: sib_remove_def)
  have own: "?sib y = P @ S" if "y \<in> set (P @ S)" for y using that X(3) X(5) [of y] d by (auto simp: sib_remove_def)
  have out: "set (sib y) \<inter> set (P @ x # S) = {}" "?sib y = sib y" if y: "y \<in> D" "y \<notin> set (P @ x # S)" for y
  proof -
    have "z \<notin> set (sib y)" if z: "z \<in> set (P @ x # S)" for z
      using familyD(5) [OF f y(1), of z] X(5) [OF z] familyD(1) [OF f y(1)] y(2) by metis
    then show "set (sib y) \<inter> set (P @ x # S) = {}" by blast
    then show "?sib y = sib y" using y(2) by (auto simp: sib_remove_def remove1_idem)
  qed
  show ?thesis
  proof (rule familyI)
    fix y assume y: "y \<in> D"
    consider "y = x" | "y \<in> set (P @ S)" "y \<noteq> x" | "y \<notin> set (P @ x # S)" by auto
    note cs = this
    have "y \<in> set (?sib y) \<and> set (?sib y) \<subseteq> D \<and> distinct (?sib y) \<and> dlseg L' None (?sib y) None" using cs
    proof cases
      case 1 then show ?thesis using alone x(1) L(2) by simp
    next
      case 2 then show ?thesis using own [OF 2(1)] X(2,3) L(1) by simp
    next
      case 3
      have "dlseg L' None (sib y) None = dlseg L None (sib y) None"
        using L(3) out(1) [OF y 3] by (intro dlseg_cong) blast
      then show ?thesis using out(2) [OF y 3] familyD(1-4) [OF f y] by simp
    qed
    then show "y \<in> set (?sib y)" "set (?sib y) \<subseteq> D" "distinct (?sib y)" "dlseg L' None (?sib y) None" by blast+
    show "?sib z = ?sib y \<and> ?par z = ?par y" if z: "z \<in> set (?sib y)" for z using cs
    proof cases
      case 1 then show ?thesis using z alone by simp
    next
      case 2
      then have zs: "z \<in> set (P @ S)" using z own [OF 2(1)] by simp
      then have "z \<noteq> x" using X(3) by auto
      moreover have "par z = par y" using zs 2 X(6) [of z] X(6) [of y] by simp
      ultimately show ?thesis using own [OF 2(1)] own [OF zs] 2(2) by simp
    next
      case 3
      then have zs: "z \<in> set (sib y)" "z \<notin> set (P @ x # S)" using z out [OF y 3] by auto
      then have "z \<in> D" using familyD(2) [OF f y] by blast
      then show ?thesis using familyD(5,6) [OF f y zs(1)] out(2) [OF y 3] out(2) [of z] zs(2) 3 by simp
    qed
    show "?first j = hdp (?sib y) None" if j: "?par y = Some j" for j using cs
    proof cases
      case 2
      then have "par x = Some j" using j X(6) [of y] by simp
      then show ?thesis using own [OF 2(1)] by simp
    next
      case 3
      then have "par y = Some j" "?sib y = sib y" using j out(2) [OF y 3] by auto
      moreover have "par x \<noteq> Some j"
      proof
        assume "par x = Some j"
        then have "sib y = sib x" using members_owner [OF f y \<open>par y = Some j\<close>] members_owner [OF f x(1)] by simp
        then show False using 3 familyD(1) [OF f y] x(2) by simp
      qed
      ultimately show ?thesis using familyD(7) [OF f y] by (simp split: option.split)
    qed (use j in simp)
  next
    fix j y assume h: "?first j = Some y"
    show "y \<in> D \<and> ?par y = Some j"
    proof (cases "par x = Some j")
      case True
      then have "hdp (P @ S) None = Some y" using h by simp
      then have "y \<in> set (P @ S)" by (rule hdp_None_Some)
      then show ?thesis using X(2,3) X(6) [of y] True by auto
    next
      case False
      then have "first j = Some y" using h by (simp split: option.splits if_splits)
      then show ?thesis using family_head [OF f] False by auto
    qed
  qed
qed

lemma family_orphan:
  assumes f: "family D L first par sib"
  shows "family D L (first(k := None)) (\<lambda>y. if y \<in> set (owned first sib k) then None else par y) sib"
    (is "family D L ?first ?par sib")
proof (rule familyI)
  fix x assume x: "x \<in> D"
  note X = familyD [OF f x]
  show "x \<in> set (sib x)" "set (sib x) \<subseteq> D" "distinct (sib x)" "dlseg L None (sib x) None" by (rule X)+
  have in_D: "y \<in> D" if "y \<in> set (sib x)" for y using that X(2) by blast
  show "sib y = sib x \<and> ?par y = ?par x" if y: "y \<in> set (sib x)" for y
    using X(5,6) [OF y] member_iff [OF f x] member_iff [OF f in_D [OF y]] by simp
  show "?first j = hdp (sib x) None" if "?par x = Some j" for j
    using that X(7) member_iff [OF f x, of k] by (auto split: if_splits)
next
  fix j x assume h: "?first j = Some x"
  then have "first j = Some x" "j \<noteq> k" by (auto split: if_splits)
  then show "x \<in> D \<and> ?par x = Some j" using family_head [OF f, of j x] member_iff [OF f, of x k] by auto
qed

lemma family_add:
  assumes f: "family D L first par sib" and x: "x \<notin> D" "par' x = None" "L' x = Some (None, None)"
    and "\<And>y. y \<in> D \<Longrightarrow> L' y = L y" "\<And>y. y \<in> D \<Longrightarrow> par' y = par y" "first' = first"
  shows "family (insert x D) L' first' par' (sib(x := [x]))"
proof (rule familyI)
  fix y assume y: "y \<in> insert x D"
  have s: "dlseg L' None (sib y) None = dlseg L None (sib y) None" "x \<notin> set (sib y)" if "y \<in> D"
  proof -
    have "set (sib y) \<subseteq> D" by (rule familyD(2) [OF f that])
    then show "dlseg L' None (sib y) None = dlseg L None (sib y) None" using assms(5) by (intro dlseg_cong) blast
    show "x \<notin> set (sib y)" using \<open>set (sib y) \<subseteq> D\<close> assms(2) by blast
  qed
  show "y \<in> set ((sib(x := [x])) y)" "set ((sib(x := [x])) y) \<subseteq> insert x D" "distinct ((sib(x := [x])) y)"
    using y familyD(1-3) [OF f, of y] by auto
  show "dlseg L' None ((sib(x := [x])) y) None" using y x(3) s(1) familyD(4) [OF f, of y] by auto
  show "(sib(x := [x])) z = (sib(x := [x])) y \<and> par' z = par' y" if "z \<in> set ((sib(x := [x])) y)" for z
  proof (cases "y = x")
    case False
    then have "y \<in> D" "z \<in> set (sib y)" using that y by auto
    then have "z \<in> D" "sib z = sib y" "par z = par y" "z \<noteq> x"
      using familyD(2) [OF f, of y] familyD(5) [OF f, of y z] familyD(6) [OF f, of y z] s(2) by blast+
    then show ?thesis using False \<open>y \<in> D\<close> assms(6) by simp
  qed (use that in simp)
  show "first' k = hdp ((sib(x := [x])) y) None" if "par' y = Some k" for k
    using that y x(1,2) familyD(7) [OF f, of y] assms(6,7) by (cases "y = x") auto
next
  fix k y assume "first' k = Some y"
  then show "y \<in> insert x D \<and> par' y = Some k" using family_head [OF f, of k y] assms(6,7) by auto
qed

lemma family_free:
  assumes f: "family D L first par sib" and x: "x \<in> D" "sib x = [x]" "par x = None"
    and "\<And>y. y \<noteq> x \<Longrightarrow> L' y = L y" "\<And>y. y \<noteq> x \<Longrightarrow> par' y = par y" "first' = first"
  shows "family (D - {x}) L' first' par' sib"
proof (rule familyI)
  fix y assume y: "y \<in> D - {x}"
  have nx: "x \<notin> set (sib y)"
  proof
    assume "x \<in> set (sib y)"
    then have "sib y = [x]" using familyD(5) [OF f, of y x] y x(2) by simp
    then show False using familyD(1) [OF f, of y] y by simp
  qed
  have "dlseg L' None (sib y) None = dlseg L None (sib y) None" using nx assms(5) by (intro dlseg_cong) metis
  then show "y \<in> set (sib y)" "set (sib y) \<subseteq> D - {x}" "distinct (sib y)" "dlseg L' None (sib y) None"
    using y nx familyD(1) [OF f, of y] familyD(2) [OF f, of y] familyD(3) [OF f, of y] familyD(4) [OF f, of y] by auto
  show "sib z = sib y \<and> par' z = par' y" if "z \<in> set (sib y)" for z
    using that y nx familyD(5,6) [OF f, of y z] assms(6) by (metis DiffD1 DiffD2 singletonI)
  show "first' k = hdp (sib y) None" if "par' y = Some k" for k
    using that y familyD(7) [OF f, of y] assms(6,7) by auto
next
  fix k y assume "first' k = Some y"
  then have "first k = Some y" using assms(7) by simp
  then show "y \<in> D - {x} \<and> par' y = Some k" using family_head [OF f, of k y] x(3) assms(6) by (cases "y = x") simp_all
qed

lemma family_cong:
  assumes "family D L first par sib" "\<And>y. y \<in> D \<Longrightarrow> L' y = L y" "first' = first" "\<And>y. y \<in> D \<Longrightarrow> par' y = par y"
  shows "family D L' first' par' sib"
proof (rule familyI)
  fix x assume x: "x \<in> D"
  note X = familyD [OF assms(1) x]
  have "dlseg L' None (sib x) None = dlseg L None (sib x) None" using X(2) assms(2) by (intro dlseg_cong) blast
  then show "x \<in> set (sib x)" "set (sib x) \<subseteq> D" "distinct (sib x)" "dlseg L' None (sib x) None" using X(1-4) by blast+
  show "sib y = sib x \<and> par' y = par' x" if "y \<in> set (sib x)" for y
    using X(5,6) [OF that] X(2) that assms(4) [OF x] assms(4) [of y] by (simp add: subset_iff)
  show "first' k = hdp (sib x) None" if "par' x = Some k" for k using that X(7) assms(3,4) x by simp
next
  fix k x assume "first' k = Some x"
  then show "x \<in> D \<and> par' x = Some k" using family_head [OF assms(1), of k x] assms(3,4) by auto
qed

text \<open>The lists of the owners, from the pointers of the members.\<close>

lemma members_same:
  assumes f: "family D L first par sib" and f': "family D L' first' par' sib'"
    and k: "\<And>y. y \<in> D \<Longrightarrow> par' y = Some k \<longleftrightarrow> par y = Some k" and s: "\<And>y. \<lbrakk>y \<in> D; par y = Some k\<rbrakk> \<Longrightarrow> sib' y = sib y"
  shows "owned first' sib' k = owned first sib k"
proof (cases "owned first sib k")
  case Nil
  have "first' k \<noteq> Some y" for y using family_head [OF f', of k y] k member_iff [OF f, of y k] Nil by auto
  then show ?thesis using Nil by (cases "first' k") (auto simp: owned_def)
next
  case (Cons y ys)
  have y: "y \<in> D" "par y = Some k" using Cons members_list(3) [OF f, where k = k] member_iff [OF f, of y k] by auto
  then show ?thesis using members_owner [OF f y] members_owner [OF f' y(1)] k s by simp
qed

lemma members_inserted:
  assumes f: "family D L first par sib" and x: "x \<in> D" "par x = None"
    and f': "family D L' first' (par(x := Some k)) (sib_insert x (x # owned first sib k) sib)"
  shows "owned first' (sib_insert x (x # owned first sib k) sib) = (owned first sib)(k := x # owned first sib k)"
proof
  fix j
  show "owned first' (sib_insert x (x # owned first sib k) sib) j = ((owned first sib)(k := x # owned first sib k)) j"
  proof (cases "j = k")
    case True
    then show ?thesis using members_owner [OF f' x(1)] by (simp add: sib_insert_def)
  next
    case False
    have "owned first' (sib_insert x (x # owned first sib k) sib) j = owned first sib j"
      by (rule members_same [OF f f']) (use False x member_iff [OF f] in \<open>auto simp: sib_insert_def\<close>)
    then show ?thesis using False by simp
  qed
qed

lemma members_removed:
  assumes f: "family D L first par sib" and x: "x \<in> D" and f': "family D L' first' par' (sib_remove x sib)"
    and p: "\<And>y. y \<in> D \<Longrightarrow> par' y = Some k \<longleftrightarrow> y \<noteq> x \<and> par y = Some k"
  shows "owned first' (sib_remove x sib) k = remove1 x (owned first sib k)"
proof (cases "par x = Some k")
  case True
  have m: "owned first sib k = sib x" by (rule members_owner [OF f x True])
  show ?thesis
  proof (cases "\<exists>y\<in>set (sib x). y \<noteq> x")
    case True
    then obtain y where y: "y \<in> set (sib x)" "y \<noteq> x" by blast
    then have "y \<in> D" "par y = Some k" "sib y = sib x" using familyD(2,5,6) [OF f x] \<open>par x = Some k\<close> by auto
    then show ?thesis using members_owner [OF f', of y k] p y(2) m by (simp add: sib_remove_def)
  next
    case False
    then have "sib x = [x]" using familyD(1,3) [OF f x] by (cases "sib x"; cases "tl (sib x)") auto
    moreover have "first' k \<noteq> Some y" for y
    proof
      assume "first' k = Some y"
      then have y: "y \<in> D" "par y = Some k" "y \<noteq> x" using family_head [OF f', of k y] p by auto
      then have "sib y = sib x" using members_owner [OF f y(1,2)] m by simp
      then show False using familyD(1) [OF f y(1)] \<open>sib x = [x]\<close> y(3) by simp
    qed
    then have "first' k = None" by auto
    ultimately show ?thesis using m by (simp add: owned_def)
  qed
next
  case False
  have nx: "x \<notin> set (owned first sib k)" using member_iff [OF f x] False by simp
  have "owned first' (sib_remove x sib) k = owned first sib k"
  proof (rule members_same [OF f f'])
    fix y assume y: "y \<in> D" "par y = Some k"
    then have "sib y = owned first sib k" "y \<noteq> x" using members_owner [OF f y] False by auto
    then show "sib_remove x sib y = sib y" using nx by (simp add: sib_remove_def remove1_idem)
  qed (use False p in auto)
  then show ?thesis using nx by (simp add: remove1_idem)
qed

lemma members_detached:
  assumes f: "family D L first par sib" and x: "x \<in> D"
    and f': "family D L' first' (\<lambda>y. if y = x \<or> par y = Some x then None else par y) (sib_remove x sib)"
  shows "owned first' (sib_remove x sib) = (\<lambda>k. if k = x then [] else remove1 x (owned first sib k))"
proof
  fix k
  show "owned first' (sib_remove x sib) k = (if k = x then [] else remove1 x (owned first sib k))"
  proof (cases "k = x")
    case True
    have "first' x \<noteq> Some y" for y using family_head [OF f', of x y] by (auto split: if_splits)
    then show ?thesis using True by (cases "first' x") (auto simp: owned_def)
  next
    case False
    then show ?thesis using members_removed [OF f x f', of k] by auto
  qed
qed

section \<open>Linking and cutting\<close>

definition heads :: "('n \<Rightarrow> ptr) \<Rightarrow> ('n \<Rightarrow> bool) \<Rightarrow> (addr \<rightharpoonup> 'n) \<Rightarrow> addr \<Rightarrow> ptr" where
  "heads head ok h a = (case h a of None \<Rightarrow> None | Some n \<Rightarrow> if ok n then head n else None)"

lemma heads_upd: "heads head ok (h(a \<mapsto> n)) = (heads head ok h)(a := if ok n then head n else None)"
  by (auto simp: heads_def)

text \<open>
  \<open>ok\<close> tells whether the head of a node is the head of a list of this kind; \<open>rest\<close> is what the assignments
  leave alone.
\<close>

locale owned_nodes = linked_nodes prv nxt set_prv set_nxt "\<lambda>n. (rest n, head n)"
  for prv :: "'n \<Rightarrow> ptr" and nxt :: "'n \<Rightarrow> ptr" and set_prv :: "ptr \<Rightarrow> 'n \<Rightarrow> 'n" and set_nxt :: "ptr \<Rightarrow> 'n \<Rightarrow> 'n"
    and rest :: "'n \<Rightarrow> 'p" and head :: "'n \<Rightarrow> ptr" +
  fixes set_head :: "ptr \<Rightarrow> 'n \<Rightarrow> 'n" and ok :: "'n \<Rightarrow> bool"
  assumes head_set_head [simp]: "head (set_head q n) = q"
    and prv_set_head [simp]: "prv (set_head q n) = prv n" and nxt_set_head [simp]: "nxt (set_head q n) = nxt n"
    and rest_set_head: "ok n \<Longrightarrow> rest (set_head q n) = rest n"
    and ok_rest: "rest n = rest m \<Longrightarrow> ok n = ok m"
begin

lemma rest_links [simp]: "rest (set_prv q n) = rest n" "rest (set_nxt q n) = rest n" "head (set_prv q n) = head n" "head (set_nxt q n) = head n"
  using pay_set_prv [of q n, unfolded prod.inject] pay_set_nxt [of q n, unfolded prod.inject] by blast+

lemma heads_pays:
  assumes "pays_of (\<lambda>n. (rest n, head n)) h' = pays_of (\<lambda>n. (rest n, head n)) h"
  shows "heads head ok h' = heads head ok h" "pays_of rest h' = pays_of rest h"
proof -
  have p: "map_option (\<lambda>n. (rest n, head n)) (h' a) = map_option (\<lambda>n. (rest n, head n)) (h a)" for a
    using fun_cong [OF assms, of a] by (simp add: pays_of_def)
  show "heads head ok h' = heads head ok h"
  proof
    fix a
    show "heads head ok h' a = heads head ok h a" using p [of a]
      by (cases "h a"; cases "h' a") (auto simp: heads_def dest: ok_rest)
  qed
  show "pays_of rest h' = pays_of rest h"
  proof
    fix a
    show "pays_of rest h' a = pays_of rest h a" using p [of a] by (cases "h a"; cases "h' a") (auto simp: pays_of_def)
  qed
qed

lemma head_upd:
  assumes "h k = Some K" "ok K"
  shows "links_of prv nxt (h(k \<mapsto> set_head q K)) = links_of prv nxt h"
    "heads head ok (h(k \<mapsto> set_head q K)) = (heads head ok h)(k := q)"
    "pays_of rest (h(k \<mapsto> set_head q K)) = pays_of rest h"
proof -
  have "ok (set_head q K)" using ok_rest [OF rest_set_head [OF assms(2)]] assms(2) by simp
  then show "heads head ok (h(k \<mapsto> set_head q K)) = (heads head ok h)(k := q)" by (simp add: heads_upd)
  show "links_of prv nxt (h(k \<mapsto> set_head q K)) = links_of prv nxt h" using assms(1) by (auto simp: links_of_def)
  show "pays_of rest (h(k \<mapsto> set_head q K)) = pays_of rest h" using assms rest_set_head by (auto simp: pays_of_def)
qed

lemma link_ok:
  assumes f: "family (dom h) (links_of prv nxt h) (heads head ok h) par sib"
    and x: "x \<in> dom h" "sib x = [x]" "par x = None" and k: "h k = Some K" "ok K"
  shows "\<exists>h'. link_sibling head set_head set_prv set_nxt k x h = Some h' \<and>
    family (dom h) (links_of prv nxt h') (heads head ok h') (par(x := Some k)) (sib_insert x (x # owned (heads head ok h) sib k) sib) \<and>
    pays_of rest h' = pays_of rest h"
proof -
  define S where "S = owned (heads head ok h) sib k"
  note m = members_list [OF f, where k = k, folded S_def]
  have hk: "head K = hdp S None" using m(4) k by (simp add: heads_def)
  have nx: "x \<notin> set S" using member_iff [OF f x(1), of k] x(3) by (simp add: S_def)
  obtain n where n: "h x = Some n" "prv n = None"
    using x(1) family_alone [OF f x(1,2)] by (auto simp: links_of_def)
  define h1 where "h1 = h(x \<mapsto> set_nxt (hdp S None) n)"
  have r1: "upd_at (Some x) (set_nxt (head K)) h = Some h1" using n(1) hk by (simp add: h1_def)
  have p1: "pays_of (\<lambda>n. (rest n, head n)) h1 = pays_of (\<lambda>n. (rest n, head n)) h" using n(1) by (auto simp: h1_def pays_of_def)
  have s1: "dlseg (links_of prv nxt h1) None ([] @ S) None" using m(2) nx by (simp add: h1_def)
  obtain h2 where h2: "upd_if (hdp S None) (set_prv (Some x)) h1 = Some h2" "dlseg (links_of prv nxt h2) None ([] @ x # S) None"
      "pays_of (\<lambda>n. (rest n, head n)) h2 = pays_of (\<lambda>n. (rest n, head n)) h1" "\<forall>a. a \<notin> set ([] @ S) \<longrightarrow> h2 a = h1 a"
    using link_node [OF s1, of x "set_nxt (hdp S None) n"] nx m(1) n by (auto simp: h1_def)
  have p2: "pays_of (\<lambda>n. (rest n, head n)) h2 = pays_of (\<lambda>n. (rest n, head n)) h" using h2(3) p1 by simp
  obtain K2 where K2: "h2 k = Some K2" "rest K2 = rest K"
    using fun_cong [OF p2, of k] k(1) by (auto simp: pays_of_def)
  then have okK: "ok K2" using ok_rest k(2) by blast
  define h3 where "h3 = h2(k \<mapsto> set_head (Some x) K2)"
  have run: "link_sibling head set_head set_prv set_nxt k x h = Some h3"
    unfolding link_sibling_def using k(1) r1 h2(1) K2(1) hk by (simp add: h3_def)
  note H = head_upd [of h2 k K2 "Some x", OF K2(1) okK, folded h3_def]
  have out: "links_of prv nxt h3 y = links_of prv nxt h y" if "y \<notin> set ([] @ x # S)" for y
  proof -
    have "h2 y = h y" using that h2(4) by (simp add: h1_def)
    then show ?thesis using H(1) by (simp add: links_of_def)
  qed
  have "dlseg (links_of prv nxt h3) None ([] @ x # S) None" unfolding H(1) by (rule h2(2))
  from family_insert [OF f x _ this out, where k = k]
  have "family (dom h) (links_of prv nxt h3) (heads head ok h3) (par(x := Some k)) (sib_insert x (x # S) sib)"
    by (simp add: S_def H(2) heads_pays(1) [OF p2])
  then show ?thesis using run H(3) heads_pays(2) [OF p2] unfolding S_def by auto
qed

lemma cut_ok:
  assumes f: "family (dom h) (links_of prv nxt h) (heads head ok h) par sib" and x: "x \<in> dom h"
  shows "\<exists>h1 h'. cut_sibling prv nxt set_head set_prv set_nxt (par x) x h = Some h1 \<and>
    upd_at (Some x) (\<lambda>n. set_prv None (set_nxt None n)) h1 = Some h' \<and>
    family (dom h) (links_of prv nxt h') (heads head ok h') (par(x := None)) (sib_remove x sib) \<and>
    pays_of rest h' = pays_of rest h \<and> (\<forall>y. map_option head (h y) = Some None \<longrightarrow> map_option head (h' y) = Some None)"
proof -
  obtain P S where PS: "sib x = P @ x # S" using familyD(1) [OF f x] by (auto simp: in_set_conv_decomp)
  note X = familyD [OF f x, unfolded PS]
  obtain n where n: "h x = Some n" "prv n = lastp None P" "nxt n = hdp S None" using dlseg_node [OF X(4)] by auto
  have owner: "\<exists>K. h k = Some K \<and> ok K \<and> heads head ok h k = hdp (P @ [x]) None" if "par x = Some k" for k
    using X(7) [OF that] by (auto simp: heads_def split: option.splits if_splits) (cases P; simp)+
  obtain g where g: "(if P = [] then upd_if (par x) (set_head (hdp S None)) h else Some h) = Some g"
      "links_of prv nxt g = links_of prv nxt h" "pays_of rest g = pays_of rest h"
      "heads head ok g = (case par x of None \<Rightarrow> heads head ok h | Some k \<Rightarrow> (heads head ok h)(k := hdp (P @ S) None))"
      "\<forall>y. map_option head (h y) = Some None \<longrightarrow> map_option head (g y) = Some None"
  proof (cases "par x")
    case (Some k)
    then obtain K where K: "h k = Some K" "ok K" "heads head ok h k = hdp (P @ [x]) None" using owner by blast
    show ?thesis
    proof (cases "P = []")
      case True
      then show ?thesis using that [of "h(k \<mapsto> set_head (hdp S None) K)"] head_upd [of h k K "hdp S None", OF K(1,2)] K Some by (auto simp: heads_def)
    next
      case False
      then have "(heads head ok h)(k := hdp (P @ S) None) = heads head ok h" using K(3) by (cases P) (auto simp: fun_eq_iff)
      then show ?thesis using that [of h] False Some by simp
    qed
  qed (use that [of h] in simp)
  have sg: "dlseg (links_of prv nxt g) None (P @ x # S) None" unfolding g(2) by (rule X(4))
  obtain h1 h2 where u: "upd_if (lastp None P) (set_nxt (hdp S None)) g = Some h1" "upd_if (hdp S None) (set_prv (lastp None P)) h1 = Some h2"
      "dlseg (links_of prv nxt h2) None (P @ S) None" "pays_of (\<lambda>n. (rest n, head n)) h2 = pays_of (\<lambda>n. (rest n, head n)) g"
      "\<forall>a. a \<notin> set (P @ S) \<longrightarrow> h2 a = g a"
    using unlink_node [OF sg X(3)] by blast
  have cut: "cut_sibling prv nxt set_head set_prv set_nxt (par x) x h = Some h2"
  proof (cases "P = []")
    case True
    then have "h1 = g" using u(1) by simp
    then show ?thesis using True n g(1) u(2) by (simp add: cut_sibling_def del: upd_if_Some)
  next
    case False
    then have "h = g" "upd_at (lastp None P) (set_nxt (hdp S None)) h = Some h1" using g(1) u(1) by (auto simp: upd_if_def)
    then show ?thesis using False n u(2) by (simp add: cut_sibling_def)
  qed
  have xo: "x \<notin> set (P @ S)" using X(3) by auto
  obtain n2 where n2: "h2 x = Some n2"
    using u(5) xo fun_cong [OF g(3), of x] n(1) by (auto simp: pays_of_def)
  define h3 where "h3 = h2(x \<mapsto> set_prv None (set_nxt None n2))"
  have r3: "upd_at (Some x) (\<lambda>n. set_prv None (set_nxt None n)) h2 = Some h3" using n2 by (simp add: h3_def)
  have "pays_of (\<lambda>n. (rest n, head n)) h3 = pays_of (\<lambda>n. (rest n, head n)) h2"
    using n2 by (auto simp: h3_def pays_of_def)
  then have p3: "pays_of (\<lambda>n. (rest n, head n)) h3 = pays_of (\<lambda>n. (rest n, head n)) g" using u(4) by simp
  have "dlseg (links_of prv nxt h3) None (P @ S) None" "links_of prv nxt h3 x = Some (None, None)"
    using u(3) xo by (simp_all add: h3_def)
  moreover have "links_of prv nxt h3 y = links_of prv nxt h y" if "y \<notin> set (P @ x # S)" for y
    using that u(5) fun_cong [OF g(2), of y] by (simp add: h3_def links_of_def)
  ultimately have "family (dom h) (links_of prv nxt h3) (case par x of None \<Rightarrow> heads head ok h | Some k \<Rightarrow> (heads head ok h)(k := hdp (P @ S) None))
      (par(x := None)) (sib_remove x sib)"
    by (rule family_remove [OF f x PS])
  then have "family (dom h) (links_of prv nxt h3) (heads head ok h3) (par(x := None)) (sib_remove x sib)"
    using heads_pays(1) [OF p3] g(4) by simp
  moreover have "map_option head (h3 y) = Some None" if "map_option head (h y) = Some None" for y
  proof -
    have "map_option head (h3 y) = map_option head (g y)"
      using fun_cong [OF p3, of y] by (cases "h3 y"; cases "g y") (auto simp: pays_of_def)
    then show ?thesis using g(5) that by simp
  qed
  moreover have "pays_of rest h3 = pays_of rest h" using heads_pays(2) [OF p3] g(3) by simp
  ultimately show ?thesis using cut r3 by blast
qed

end

end
