(* ===== verification/Rete_Invariant.thy ===== *)
theory Rete_Invariant
  imports Owned_Lists
begin

text \<open>
  The invariant \<open>rete_ok s A\<close> of the memories of the join network: \<open>A\<close> lists the matches of every bucket, and for
  every match the siblings in the three lists it belongs to.
\<close>

record net_lists =
  in_bucket :: "join_id \<Rightarrow> side \<Rightarrow> nat \<Rightarrow> addr list"
  right_sibs :: "addr \<Rightarrow> addr list"
  left_sibs :: "addr \<Rightarrow> addr list"
  blocked_sibs :: "addr \<Rightarrow> addr list"

section \<open>Children and blocked matches\<close>

text \<open>
  The one field \<^verbatim>\<open>children\<close> heads the list of right children of a match that enters joins from the right, which is
  an alpha match or a match of a right memory, and the list of left children of any other match.
\<close>

definition right_side :: "pmNode \<Rightarrow> bool" where
  "right_side n \<longleftrightarrow> \<not> betaMemory n \<or> rhsMemory n"

abbreviation left_side :: "pmNode \<Rightarrow> bool" where
  "left_side n \<equiv> \<not> right_side n"

text \<open>What the assignments to the fields of one kind of list leave alone.\<close>

definition right_rest :: "pmNode \<Rightarrow> pmNode" where
  "right_rest n = n\<lparr>nextRightChild := None, prevRightChild := None, children := (if right_side n then None else children n)\<rparr>"

definition left_rest :: "pmNode \<Rightarrow> pmNode" where
  "left_rest n = n\<lparr>nextLeftChild := None, prevLeftChild := None, children := (if right_side n then children n else None)\<rparr>"

definition blocked_rest :: "pmNode \<Rightarrow> pmNode" where
  "blocked_rest n = n\<lparr>nextBlocked := None, prevBlocked := None, blockList := None\<rparr>"

definition memory_rest :: "pmNode \<Rightarrow> pmNode" where
  "memory_rest n = n\<lparr>nextInMemory := None, prevInMemory := None\<rparr>"

lemma right_side_rests:
  "right_side (right_rest n) = right_side n" "right_side (left_rest n) = right_side n"
  "right_side (blocked_rest n) = right_side n" "right_side (memory_rest n) = right_side n"
  by (simp_all add: right_side_def right_rest_def left_rest_def blocked_rest_def memory_rest_def)

lemma right_side_updates [simp]:
  "right_side (set_nextRight q n) = right_side n" "right_side (set_prevRight q n) = right_side n"
  "right_side (set_nextLeft q n) = right_side n" "right_side (set_prevLeft q n) = right_side n"
  "right_side (set_children q n) = right_side n"
  by (simp_all add: right_side_def)

interpretation rch: owned_nodes prevRightChild nextRightChild set_prevRight set_nextRight right_rest children set_children right_side
proof unfold_locales
  show "right_side n = right_side m" if "right_rest n = right_rest m" for n m
    using right_side_rests(1) [of n] right_side_rests(1) [of m] that by simp
qed (simp_all add: right_rest_def right_side_def)

interpretation lch: owned_nodes prevLeftChild nextLeftChild set_prevLeft set_nextLeft left_rest children set_children left_side
proof unfold_locales
  show "left_side n = left_side m" if "left_rest n = left_rest m" for n m
    using right_side_rests(2) [of n] right_side_rests(2) [of m] that by simp
qed (simp_all add: left_rest_def right_side_def)

interpretation blk: owned_nodes prevBlocked nextBlocked set_prevBlocked set_nextBlocked blocked_rest blockList set_blockList "\<lambda>_. True"
  by unfold_locales (simp_all add: blocked_rest_def)

interpretation mem: linked_nodes prevInMemory nextInMemory set_prevIn set_nextIn memory_rest
  by unfold_locales (simp_all add: memory_rest_def)

abbreviation right_links :: "(addr \<rightharpoonup> pmNode) \<Rightarrow> links" where "right_links \<equiv> links_of prevRightChild nextRightChild"
abbreviation left_links :: "(addr \<rightharpoonup> pmNode) \<Rightarrow> links" where "left_links \<equiv> links_of prevLeftChild nextLeftChild"
abbreviation blocked_links :: "(addr \<rightharpoonup> pmNode) \<Rightarrow> links" where "blocked_links \<equiv> links_of prevBlocked nextBlocked"
abbreviation memory_links :: "(addr \<rightharpoonup> pmNode) \<Rightarrow> links" where "memory_links \<equiv> links_of prevInMemory nextInMemory"
abbreviation right_heads :: "(addr \<rightharpoonup> pmNode) \<Rightarrow> addr \<Rightarrow> ptr" where "right_heads \<equiv> heads children right_side"
abbreviation left_heads :: "(addr \<rightharpoonup> pmNode) \<Rightarrow> addr \<Rightarrow> ptr" where "left_heads \<equiv> heads children left_side"
abbreviation blocked_heads :: "(addr \<rightharpoonup> pmNode) \<Rightarrow> addr \<Rightarrow> ptr" where "blocked_heads \<equiv> heads blockList (\<lambda>_. True)"

text \<open>
  The field \<^verbatim>\<open>marker\<close> points to the blocking match, except in matches of a join that activates a rule, where
  it points to the activation.
\<close>

definition activates :: "env \<Rightarrow> join_id \<Rightarrow> bool" where
  "activates e j = (case joins e j of None \<Rightarrow> False | Some J \<Rightarrow> ruleToActivate J \<noteq> None)"

definition right_of :: "env \<Rightarrow> addr \<Rightarrow> ptr" where
  "right_of e x = (case matches e x of None \<Rightarrow> None | Some r \<Rightarrow> rightParent r)"

definition left_of :: "env \<Rightarrow> addr \<Rightarrow> ptr" where
  "left_of e x = (case matches e x of None \<Rightarrow> None | Some r \<Rightarrow> leftParent r)"

definition blocker_of :: "env \<Rightarrow> addr \<Rightarrow> ptr" where
  "blocker_of e x = (case matches e x of None \<Rightarrow> None | Some r \<Rightarrow> if activates e (match_owner r) then None else marker r)"

definition tree_ok :: "rete \<Rightarrow> net_lists \<Rightarrow> bool" where
  "tree_ok s A \<longleftrightarrow> dom (rows s) = dom (pms s) \<and>
     family (dom (pms s)) (right_links (pms s)) (right_heads (pms s)) (right_of (rete_env s)) (right_sibs A) \<and>
     family (dom (pms s)) (left_links (pms s)) (left_heads (pms s)) (left_of (rete_env s)) (left_sibs A) \<and>
     family (dom (pms s)) (blocked_links (pms s)) (blocked_heads (pms s)) (blocker_of (rete_env s)) (blocked_sibs A)"

lemma tree_okD:
  assumes "tree_ok s A"
  shows "dom (rows s) = dom (pms s)"
    "family (dom (pms s)) (right_links (pms s)) (right_heads (pms s)) (right_of (rete_env s)) (right_sibs A)"
    "family (dom (pms s)) (left_links (pms s)) (left_heads (pms s)) (left_of (rete_env s)) (left_sibs A)"
    "family (dom (pms s)) (blocked_links (pms s)) (blocked_heads (pms s)) (blocker_of (rete_env s)) (blocked_sibs A)"
  using assms by (simp_all add: tree_ok_def)

section \<open>Memories\<close>

text \<open>What decides in which bucket of which memory a match is kept.\<close>

definition node_key :: "rete \<Rightarrow> addr \<Rightarrow> (bool \<times> bool \<times> join_id \<times> u64) option" where
  "node_key s x = (case pms s x of None \<Rightarrow> None | Some n \<Rightarrow>
     (case rows s x of None \<Rightarrow> None | Some r \<Rightarrow> Some (betaMemory n, rhsMemory n, match_owner r, pm_hashValue n)))"

definition stored :: "rete \<Rightarrow> join_id \<Rightarrow> side \<Rightarrow> u64 \<Rightarrow> nat \<Rightarrow> addr \<Rightarrow> bool" where
  "stored s j sd k i x \<longleftrightarrow> (\<exists>hv. node_key s x = Some (True, sd = RHS, j, hv) \<and> unat (hv mod k) = i)"

definition bucket_ok :: "rete \<Rightarrow> join_id \<Rightarrow> side \<Rightarrow> betaMemory \<Rightarrow> nat \<Rightarrow> addr list \<Rightarrow> bool" where
  "bucket_ok s j sd m i xs \<longleftrightarrow> beta m ! i = hdp xs None \<and> (\<forall>ls. beta_last m = Some ls \<longrightarrow> ls ! i = lastp None xs) \<and>
     distinct xs \<and> dlseg (memory_links (pms s)) None xs None \<and> (\<forall>x\<in>set xs. stored s j sd (beta_size m) i x)"

definition matches_in :: "nat \<Rightarrow> (nat \<Rightarrow> addr list) \<Rightarrow> addr list" where
  "matches_in k B = concat (map B [0..<k])"

definition shape_ok :: "side \<Rightarrow> betaMemory \<Rightarrow> bool" where
  "shape_ok sd m \<longleftrightarrow> beta_size m \<noteq> 0 \<and> length (beta m) = unat (beta_size m) \<and> unat (beta_size m) * 11 < 2 ^ 64 \<and>
     (case beta_last m of None \<Rightarrow> sd = LHS | Some ls \<Rightarrow> sd = RHS \<and> length ls = length (beta m))"

definition memory_ok :: "rete \<Rightarrow> join_id \<Rightarrow> side \<Rightarrow> betaMemory \<Rightarrow> (nat \<Rightarrow> addr list) \<Rightarrow> bool" where
  "memory_ok s j sd m B \<longleftrightarrow> shape_ok sd m \<and> (\<forall>i. if i < length (beta m) then bucket_ok s j sd m i (B i) else B i = []) \<and>
     beta_count m = of_nat (length (matches_in (length (beta m)) B))"

definition memories_ok :: "rete \<Rightarrow> net_lists \<Rightarrow> bool" where
  "memories_ok s A \<longleftrightarrow> (\<forall>j sd. case memory_at j sd s of
     None \<Rightarrow> (\<forall>i. in_bucket A j sd i = [])
   | Some m \<Rightarrow> memory_ok s j sd m (in_bucket A j sd))"

text \<open>
  A match takes more than eleven bytes, so that eleven times the number of matches is below the size of the address
  space; this is what keeps the size of a memory from overflowing.
\<close>

definition rete_ok :: "rete \<Rightarrow> net_lists \<Rightarrow> bool" where
  "rete_ok s A \<longleftrightarrow> tree_ok s A \<and> memories_ok s A \<and> finite (dom (pms s)) \<and> card (dom (pms s)) * 11 < 2 ^ 64"

lemma rete_okD:
  assumes "rete_ok s A"
  shows "tree_ok s A" "memories_ok s A" "finite (dom (pms s))" "card (dom (pms s)) * 11 < 2 ^ 64"
  using assms by (simp_all add: rete_ok_def)

section \<open>Frames\<close>

lemma pays_field:
  assumes "pays_of p h' = pays_of p h" "\<And>n. f (p n) = f n"
  shows "map_option f (h' x) = map_option f (h x)"
proof -
  have e: "map_option f v = map_option f (map_option p v)" for v using assms(2) by (simp add: option.map_comp comp_def)
  show ?thesis using fun_cong [OF assms(1), of x] by (subst (1 2) e) (simp add: pays_of_def)
qed

lemma pays_links: "\<lbrakk>pays_of p h' = pays_of p h; \<And>n. prv (p n) = prv n; \<And>n. nxt (p n) = nxt n\<rbrakk> \<Longrightarrow> links_of prv nxt h' = links_of prv nxt h"
  using pays_field [of p h' h "\<lambda>n. (prv n, nxt n)"] by (simp add: links_of_def fun_eq_iff)

lemma heads_field: "heads head ok h a = (case map_option (\<lambda>n. if ok n then head n else None) (h a) of None \<Rightarrow> None | Some p \<Rightarrow> p)"
  by (simp add: heads_def split: option.split)

lemma pays_heads: "\<lbrakk>pays_of p h' = pays_of p h; \<And>n. (if ok (p n) then head (p n) else None) = (if ok n then head n else None)\<rbrakk> \<Longrightarrow>
    heads head ok h' = heads head ok h"
  using pays_field [of p h' h "\<lambda>n. if ok n then head n else None"] by (simp add: heads_field fun_eq_iff)

text \<open>The part of a match that linking and unlinking do not change.\<close>

definition core_node :: "pmNode \<Rightarrow> bool \<times> bool \<times> bool \<times> u64 \<times> ptr \<times> ptr \<times> nat \<times> multifieldMarker list" where
  "core_node n = (betaMemory n, rhsMemory n, deleting n, pm_hashValue n, nextInMemory n, prevInMemory n, alphaBucket n, alphaMarkers n)"

definition core_row :: "partialMatch \<Rightarrow> entity_id option option list \<times> bool \<times> join_id \<times> entity_id list" where
  "core_row r = (binds r, busy r, match_owner r, pm_dependents r)"

definition links_only :: "rete \<Rightarrow> rete \<Rightarrow> bool" where
  "links_only s s' \<longleftrightarrow> (\<exists>M h. s' = s\<lparr>rete_env := (rete_env s)\<lparr>matches := M\<rparr>, pms := h\<rparr> \<and>
     pays_of core_row M = pays_of core_row (rows s) \<and> pays_of core_node h = pays_of core_node (pms s))"

lemma links_only_refl [simp]: "links_only s s"
  unfolding links_only_def by (intro exI [of _ "rows s"] exI [of _ "pms s"]) simp

lemma links_only_trans: "\<lbrakk>links_only s s'; links_only s' s''\<rbrakk> \<Longrightarrow> links_only s s''"
  unfolding links_only_def by fastforce

lemma links_onlyI:
  assumes "s' = s\<lparr>rete_env := (rete_env s)\<lparr>matches := M\<rparr>, pms := h\<rparr>"
    "pays_of core_row M = pays_of core_row (rows s)" "pays_of core_node h = pays_of core_node (pms s)"
  shows "links_only s s'"
  using assms unfolding links_only_def by blast

lemma links_only_kept:
  assumes "links_only s s'"
  shows "memories s' = memories s" "memory_links (pms s') = memory_links (pms s)" "node_key s' = node_key s"
    "dom (pms s') = dom (pms s)" "dom (rows s') = dom (rows s)" "BetaMemoryResizingFlag s' = BetaMemoryResizingFlag s"
    "GarbagePartialMatches s' = GarbagePartialMatches s" "joins (rete_env s') = joins (rete_env s)"
    "pays_of core_node (pms s') = pays_of core_node (pms s)" "pays_of core_row (rows s') = pays_of core_row (rows s)"
    "entities (rete_env s') = entities (rete_env s)" "engineD (rete_env s') = engineD (rete_env s)"
proof -
  obtain M h where s': "s' = s\<lparr>rete_env := (rete_env s)\<lparr>matches := M\<rparr>, pms := h\<rparr>"
      "pays_of core_row M = pays_of core_row (rows s)" "pays_of core_node h = pays_of core_node (pms s)"
    using assms by (auto simp: links_only_def)
  show "memories s' = memories s" "BetaMemoryResizingFlag s' = BetaMemoryResizingFlag s"
    "GarbagePartialMatches s' = GarbagePartialMatches s" "joins (rete_env s') = joins (rete_env s)"
    "pays_of core_node (pms s') = pays_of core_node (pms s)" "pays_of core_row (rows s') = pays_of core_row (rows s)"
    "entities (rete_env s') = entities (rete_env s)" "engineD (rete_env s') = engineD (rete_env s)"
    using s' by simp_all
  show "dom (pms s') = dom (pms s)" "dom (rows s') = dom (rows s)"
    using s' pays_of_dom_eq [OF s'(3)] pays_of_dom_eq [OF s'(2)] by simp_all
  have n: "map_option core_node (pms s' x) = map_option core_node (pms s x)" "map_option core_row (rows s' x) = map_option core_row (rows s x)" for x
    using fun_cong [OF s'(2), of x] fun_cong [OF s'(3), of x] s'(1) by (simp_all add: pays_of_def)
  show "memory_links (pms s') = memory_links (pms s)"
  proof
    fix x
    show "memory_links (pms s') x = memory_links (pms s) x" using n(1) [of x]
      by (cases "pms s x"; cases "pms s' x") (auto simp: links_of_def core_node_def)
  qed
  show "node_key s' = node_key s"
  proof
    fix x
    show "node_key s' x = node_key s x" using n(1) [of x] n(2) [of x]
      by (cases "pms s x"; cases "pms s' x"; cases "rows s x"; cases "rows s' x") (auto simp: node_key_def core_node_def core_row_def)
  qed
qed

lemma memories_ok_cong:
  assumes "memories s' = memories s" "memory_links (pms s') = memory_links (pms s)" "node_key s' = node_key s" "in_bucket A' = in_bucket A"
  shows "memories_ok s' A' = memories_ok s A"
proof -
  have st: "stored s' = stored s" using assms(3) by (simp add: stored_def fun_eq_iff)
  have "bucket_ok s' = bucket_ok s" by (intro ext) (simp add: bucket_ok_def st assms(2))
  then have "memory_ok s' = memory_ok s" by (intro ext) (simp add: memory_ok_def)
  then show ?thesis by (simp only: memories_ok_def memory_at_def assms(1,4))
qed

end
