(* ===== verification/Rete_Links.thy ===== *)
theory Rete_Links
  imports Rete_Invariant
begin

text \<open>
  Linking a match to the matches it extends and to the match that blocks it, and unlinking it from all of them.
\<close>

section \<open>Frames of the three kinds of links\<close>

lemma core_field: "\<lbrakk>pays_of p h' = pays_of p h; \<And>n. core_node (p n) = core_node n\<rbrakk> \<Longrightarrow> pays_of core_node h' = pays_of core_node h"
  using pays_field [of p h' h core_node] by (simp add: pays_of_def fun_eq_iff)

lemma right_frame:
  assumes "pays_of right_rest h' = pays_of right_rest h"
  shows "left_links h' = left_links h" "left_heads h' = left_heads h" "blocked_links h' = blocked_links h"
    "blocked_heads h' = blocked_heads h" "pays_of core_node h' = pays_of core_node h" "dom h' = dom h"
  by (rule pays_links [OF assms] pays_heads [OF assms] core_field [OF assms]; simp add: right_rest_def right_side_def core_node_def)+
     (rule pays_of_dom_eq [OF assms])

lemma left_frame:
  assumes "pays_of left_rest h' = pays_of left_rest h"
  shows "right_links h' = right_links h" "right_heads h' = right_heads h" "blocked_links h' = blocked_links h"
    "blocked_heads h' = blocked_heads h" "pays_of core_node h' = pays_of core_node h" "dom h' = dom h"
  by (rule pays_links [OF assms] pays_heads [OF assms] core_field [OF assms]; simp add: left_rest_def right_side_def core_node_def)+
     (rule pays_of_dom_eq [OF assms])

lemma blocked_frame:
  assumes "pays_of blocked_rest h' = pays_of blocked_rest h"
  shows "right_links h' = right_links h" "right_heads h' = right_heads h" "left_links h' = left_links h"
    "left_heads h' = left_heads h" "pays_of core_node h' = pays_of core_node h" "dom h' = dom h"
  by (rule pays_links [OF assms] pays_heads [OF assms] core_field [OF assms]; simp add: blocked_rest_def right_side_def core_node_def)+
     (rule pays_of_dom_eq [OF assms])

text \<open>Assignments to the pointers to the owners.\<close>

lemma activates_matches [simp]: "activates (e\<lparr>matches := M\<rparr>) = activates e"
  by (simp add: activates_def fun_eq_iff)

lemma row_right:
  assumes "rows s a = Some r"
  shows "set_rightParent a q s = Some (s\<lparr>rete_env := (rete_env s)\<lparr>matches := (rows s)(a \<mapsto> r\<lparr>rightParent := q\<rparr>)\<rparr>\<rparr>)"
    "right_of ((rete_env s)\<lparr>matches := (rows s)(a \<mapsto> r\<lparr>rightParent := q\<rparr>)\<rparr>) = (right_of (rete_env s))(a := q)"
    "left_of ((rete_env s)\<lparr>matches := (rows s)(a \<mapsto> r\<lparr>rightParent := q\<rparr>)\<rparr>) = left_of (rete_env s)"
    "blocker_of ((rete_env s)\<lparr>matches := (rows s)(a \<mapsto> r\<lparr>rightParent := q\<rparr>)\<rparr>) = blocker_of (rete_env s)"
    "pays_of core_row ((rows s)(a \<mapsto> r\<lparr>rightParent := q\<rparr>)) = pays_of core_row (rows s)"
    "dom ((rows s)(a \<mapsto> r\<lparr>rightParent := q\<rparr>)) = dom (rows s)"
  using assms by (auto simp: set_rightParent_def upd_row_def upd_match_def right_of_def left_of_def blocker_of_def
      pays_of_def core_row_def fun_eq_iff split: option.split)

lemma row_left:
  assumes "rows s a = Some r"
  shows "set_leftParent a q s = Some (s\<lparr>rete_env := (rete_env s)\<lparr>matches := (rows s)(a \<mapsto> r\<lparr>leftParent := q\<rparr>)\<rparr>\<rparr>)"
    "right_of ((rete_env s)\<lparr>matches := (rows s)(a \<mapsto> r\<lparr>leftParent := q\<rparr>)\<rparr>) = right_of (rete_env s)"
    "left_of ((rete_env s)\<lparr>matches := (rows s)(a \<mapsto> r\<lparr>leftParent := q\<rparr>)\<rparr>) = (left_of (rete_env s))(a := q)"
    "blocker_of ((rete_env s)\<lparr>matches := (rows s)(a \<mapsto> r\<lparr>leftParent := q\<rparr>)\<rparr>) = blocker_of (rete_env s)"
    "pays_of core_row ((rows s)(a \<mapsto> r\<lparr>leftParent := q\<rparr>)) = pays_of core_row (rows s)"
    "dom ((rows s)(a \<mapsto> r\<lparr>leftParent := q\<rparr>)) = dom (rows s)"
  using assms by (auto simp: set_leftParent_def upd_row_def upd_match_def right_of_def left_of_def blocker_of_def
      pays_of_def core_row_def fun_eq_iff split: option.split)

lemma row_marker:
  assumes "rows s a = Some r"
  shows "set_marker a q s = Some (s\<lparr>rete_env := (rete_env s)\<lparr>matches := (rows s)(a \<mapsto> r\<lparr>marker := q\<rparr>)\<rparr>\<rparr>)"
    "right_of ((rete_env s)\<lparr>matches := (rows s)(a \<mapsto> r\<lparr>marker := q\<rparr>)\<rparr>) = right_of (rete_env s)"
    "left_of ((rete_env s)\<lparr>matches := (rows s)(a \<mapsto> r\<lparr>marker := q\<rparr>)\<rparr>) = left_of (rete_env s)"
    "\<not> activates (rete_env s) (match_owner r) \<or> q = None \<Longrightarrow>
      blocker_of ((rete_env s)\<lparr>matches := (rows s)(a \<mapsto> r\<lparr>marker := q\<rparr>)\<rparr>) = (blocker_of (rete_env s))(a := q)"
    "pays_of core_row ((rows s)(a \<mapsto> r\<lparr>marker := q\<rparr>)) = pays_of core_row (rows s)"
    "dom ((rows s)(a \<mapsto> r\<lparr>marker := q\<rparr>)) = dom (rows s)"
  using assms by (auto simp: set_marker_def upd_row_def upd_match_def right_of_def left_of_def blocker_of_def
      pays_of_def core_row_def fun_eq_iff split: option.split)

text \<open>Who owns each match in each of the three lists.\<close>

definition owners :: "rete \<Rightarrow> (addr \<Rightarrow> ptr) \<times> (addr \<Rightarrow> ptr) \<times> (addr \<Rightarrow> ptr)" where
  "owners s = (right_of (rete_env s), left_of (rete_env s), blocker_of (rete_env s))"

lemma match_row: "\<lbrakk>tree_ok s A; x \<in> dom (pms s)\<rbrakk> \<Longrightarrow> \<exists>r. rows s x = Some r"
  using tree_okD(1) [of s A] by auto

section \<open>Leaving the lists\<close>

lemma leave_right_ok:
  assumes t: "tree_ok s A" and x: "x \<in> dom (pms s)"
  shows "\<exists>s'. leave_right x s = Some s' \<and> tree_ok s' (A\<lparr>right_sibs := sib_remove x (right_sibs A)\<rparr>) \<and> links_only s s' \<and>
    (\<forall>y. map_option children (pms s y) = Some None \<longrightarrow> map_option children (pms s' y) = Some None) \<and>
    owners s' = ((right_of (rete_env s))(x := None), left_of (rete_env s), blocker_of (rete_env s))"
proof -
  note T = tree_okD [OF t]
  obtain r where r: "rows s x = Some r" using match_row [OF t x] by blast
  note R = row_right [OF r, of None]
  have p: "right_of (rete_env s) x = rightParent r" using r by (simp add: right_of_def)
  obtain h1 h' where h: "cut_right (rightParent r) x (pms s) = Some h1"
      "upd_at (Some x) (\<lambda>n. set_prevRight None (set_nextRight None n)) h1 = Some h'"
      "family (dom (pms s)) (right_links h') (right_heads h') ((right_of (rete_env s))(x := None)) (sib_remove x (right_sibs A))"
      "pays_of right_rest h' = pays_of right_rest (pms s)"
      "\<forall>y. map_option children (pms s y) = Some None \<longrightarrow> map_option children (h' y) = Some None"
    using rch.cut_ok [OF T(2) x] p by auto
  note F = right_frame [OF h(4)]
  let ?M = "(rows s)(x \<mapsto> r\<lparr>rightParent := None\<rparr>)"
  let ?s = "s\<lparr>rete_env := (rete_env s)\<lparr>matches := ?M\<rparr>, pms := h'\<rparr>"
  have "leave_right x s = Some ?s" using r h(1,2) by (simp add: leave_right_def set_rightParent_def upd_row_def upd_match_def upd_pm_def)
  moreover have "tree_ok ?s (A\<lparr>right_sibs := sib_remove x (right_sibs A)\<rparr>)"
    using T h(3) by (simp add: tree_ok_def F R(2-4) insert_absorb [OF x])
  moreover have "links_only s ?s" by (rule links_onlyI [OF refl R(5) F(5)])
  ultimately show ?thesis using h(5) R(2-4) by (intro exI [of _ ?s]) (simp add: owners_def)
qed

lemma leave_left_ok:
  assumes t: "tree_ok s A" and x: "x \<in> dom (pms s)"
  shows "\<exists>s'. leave_left x s = Some s' \<and> tree_ok s' (A\<lparr>left_sibs := sib_remove x (left_sibs A)\<rparr>) \<and> links_only s s' \<and>
    (\<forall>y. map_option children (pms s y) = Some None \<longrightarrow> map_option children (pms s' y) = Some None) \<and>
    owners s' = (right_of (rete_env s), (left_of (rete_env s))(x := None), blocker_of (rete_env s))"
proof -
  note T = tree_okD [OF t]
  obtain r where r: "rows s x = Some r" using match_row [OF t x] by blast
  note R = row_left [OF r, of None]
  have p: "left_of (rete_env s) x = leftParent r" using r by (simp add: left_of_def)
  obtain h1 h' where h: "cut_left (leftParent r) x (pms s) = Some h1"
      "upd_at (Some x) (\<lambda>n. set_prevLeft None (set_nextLeft None n)) h1 = Some h'"
      "family (dom (pms s)) (left_links h') (left_heads h') ((left_of (rete_env s))(x := None)) (sib_remove x (left_sibs A))"
      "pays_of left_rest h' = pays_of left_rest (pms s)"
      "\<forall>y. map_option children (pms s y) = Some None \<longrightarrow> map_option children (h' y) = Some None"
    using lch.cut_ok [OF T(3) x] p by auto
  note F = left_frame [OF h(4)]
  let ?M = "(rows s)(x \<mapsto> r\<lparr>leftParent := None\<rparr>)"
  let ?s = "s\<lparr>rete_env := (rete_env s)\<lparr>matches := ?M\<rparr>, pms := h'\<rparr>"
  have "leave_left x s = Some ?s" using r h(1,2) by (simp add: leave_left_def set_leftParent_def upd_row_def upd_match_def upd_pm_def)
  moreover have "tree_ok ?s (A\<lparr>left_sibs := sib_remove x (left_sibs A)\<rparr>)"
    using T h(3) by (simp add: tree_ok_def F R(2-4) insert_absorb [OF x])
  moreover have "links_only s ?s" by (rule links_onlyI [OF refl R(5) F(5)])
  ultimately show ?thesis using h(5) R(2-4) by (intro exI [of _ ?s]) (simp add: owners_def)
qed

text \<open>A match that is activated must have lost its activation before its marker is followed.\<close>

definition no_activation :: "rete \<Rightarrow> addr \<Rightarrow> bool" where
  "no_activation s x \<longleftrightarrow> (\<forall>r. rows s x = Some r \<and> activates (rete_env s) (match_owner r) \<longrightarrow> marker r = None)"

lemma blocker_marker: "\<lbrakk>rows s x = Some r; no_activation s x\<rbrakk> \<Longrightarrow> blocker_of (rete_env s) x = marker r"
  by (simp add: blocker_of_def no_activation_def)

lemma leave_blocked_ok:
  assumes t: "tree_ok s A" and x: "x \<in> dom (pms s)" and na: "no_activation s x"
  shows "\<exists>s'. leave_blocked x s = Some s' \<and> tree_ok s' (A\<lparr>blocked_sibs := sib_remove x (blocked_sibs A)\<rparr>) \<and> links_only s s' \<and>
    (\<forall>y. map_option children (pms s y) = Some None \<longrightarrow> map_option children (pms s' y) = Some None) \<and>
    owners s' = (right_of (rete_env s), left_of (rete_env s), (blocker_of (rete_env s))(x := None)) \<and>
    map_option marker (rows s' x) = Some None"
proof -
  note T = tree_okD [OF t]
  obtain r where r: "rows s x = Some r" using match_row [OF t x] by blast
  note R = row_marker [OF r, of None]
  have p: "blocker_of (rete_env s) x = marker r" by (rule blocker_marker [OF r na])
  obtain h1 h' where h: "cut_blocked (marker r) x (pms s) = Some h1"
      "upd_at (Some x) (\<lambda>n. set_prevBlocked None (set_nextBlocked None n)) h1 = Some h'"
      "family (dom (pms s)) (blocked_links h') (blocked_heads h') ((blocker_of (rete_env s))(x := None)) (sib_remove x (blocked_sibs A))"
      "pays_of blocked_rest h' = pays_of blocked_rest (pms s)"
    using blk.cut_ok [OF T(4) x] p by auto
  note F = blocked_frame [OF h(4)]
  have h5: "map_option children (h' y) = map_option children (pms s y)" for y
    by (rule pays_field [OF h(4)]) (simp add: blocked_rest_def)
  let ?M = "(rows s)(x \<mapsto> r\<lparr>marker := None\<rparr>)"
  let ?s = "s\<lparr>rete_env := (rete_env s)\<lparr>matches := ?M\<rparr>, pms := h'\<rparr>"
  have "leave_blocked x s = Some ?s" using r h(1,2) by (simp add: leave_blocked_def set_marker_def upd_row_def upd_match_def upd_pm_def)
  moreover have "tree_ok ?s (A\<lparr>blocked_sibs := sib_remove x (blocked_sibs A)\<rparr>)"
    using T h(3) by (simp add: tree_ok_def F R(2-4) insert_absorb [OF x])
  moreover have "links_only s ?s" by (rule links_onlyI [OF refl R(5) F(5)])
  ultimately show ?thesis using h5 R(2-4) by (intro exI [of _ ?s]) (simp add: owners_def)
qed

text \<open>The children of a match that is being unlinked lose their pointer to it and stay linked to each other.\<close>

lemma orphan_right_chain:
  assumes "dlseg (right_links (pms s)) p xs None" "\<forall>x\<in>set xs. rows s x \<noteq> None" "distinct xs"
  shows "orphan_right (hdp xs None) s = Some (s\<lparr>rete_env := (rete_env s)\<lparr>matches :=
    (\<lambda>y. if y \<in> set xs then map_option (\<lambda>r. r\<lparr>rightParent := None\<rparr>) (rows s y) else rows s y)\<rparr>\<rparr>)"
  using assms
proof (induction xs arbitrary: s p)
  case Nil
  then show ?case by (simp add: orphan_right.simps)
next
  case (Cons x xs)
  obtain r where r: "rows s x = Some r" using Cons.prems(2) by auto
  obtain n where n: "pms s x = Some n" "nextRightChild n = hdp xs None" using Cons.prems(1) by (auto dest!: links_of_Some)
  let ?s = "s\<lparr>rete_env := (rete_env s)\<lparr>matches := (rows s)(x \<mapsto> r\<lparr>rightParent := None\<rparr>)\<rparr>\<rparr>"
  have IH: "orphan_right (hdp xs None) ?s = Some (?s\<lparr>rete_env := (rete_env ?s)\<lparr>matches :=
      (\<lambda>y. if y \<in> set xs then map_option (\<lambda>r. r\<lparr>rightParent := None\<rparr>) (rows ?s y) else rows ?s y)\<rparr>\<rparr>)"
    by (rule Cons.IH) (use Cons.prems in auto)
  have eq: "(\<lambda>y. if y \<in> set xs then map_option (\<lambda>r. r\<lparr>rightParent := None\<rparr>) (rows ?s y) else rows ?s y) =
      (\<lambda>y. if y \<in> set (x # xs) then map_option (\<lambda>r. r\<lparr>rightParent := None\<rparr>) (rows s y) else rows s y)"
    using r Cons.prems(3) by (auto simp: fun_eq_iff)
  have "orphan_right (hdp (x # xs) None) s = orphan_right (hdp xs None) ?s"
    using n row_right(1) [OF r] by (subst orphan_right.simps) simp
  then show ?case using IH unfolding eq by simp
qed

lemma orphan_left_chain:
  assumes "dlseg (left_links (pms s)) p xs None" "\<forall>x\<in>set xs. rows s x \<noteq> None" "distinct xs"
  shows "orphan_left (hdp xs None) s = Some (s\<lparr>rete_env := (rete_env s)\<lparr>matches :=
    (\<lambda>y. if y \<in> set xs then map_option (\<lambda>r. r\<lparr>leftParent := None\<rparr>) (rows s y) else rows s y)\<rparr>\<rparr>)"
  using assms
proof (induction xs arbitrary: s p)
  case Nil
  then show ?case by (simp add: orphan_left.simps)
next
  case (Cons x xs)
  obtain r where r: "rows s x = Some r" using Cons.prems(2) by auto
  obtain n where n: "pms s x = Some n" "nextLeftChild n = hdp xs None" using Cons.prems(1) by (auto dest!: links_of_Some)
  let ?s = "s\<lparr>rete_env := (rete_env s)\<lparr>matches := (rows s)(x \<mapsto> r\<lparr>leftParent := None\<rparr>)\<rparr>\<rparr>"
  have IH: "orphan_left (hdp xs None) ?s = Some (?s\<lparr>rete_env := (rete_env ?s)\<lparr>matches :=
      (\<lambda>y. if y \<in> set xs then map_option (\<lambda>r. r\<lparr>leftParent := None\<rparr>) (rows ?s y) else rows ?s y)\<rparr>\<rparr>)"
    by (rule Cons.IH) (use Cons.prems in auto)
  have eq: "(\<lambda>y. if y \<in> set xs then map_option (\<lambda>r. r\<lparr>leftParent := None\<rparr>) (rows ?s y) else rows ?s y) =
      (\<lambda>y. if y \<in> set (x # xs) then map_option (\<lambda>r. r\<lparr>leftParent := None\<rparr>) (rows s y) else rows s y)"
    using r Cons.prems(3) by (auto simp: fun_eq_iff)
  have "orphan_left (hdp (x # xs) None) s = orphan_left (hdp xs None) ?s"
    using n row_left(1) [OF r] by (subst orphan_left.simps) simp
  then show ?case using IH unfolding eq by simp
qed

definition right_children :: "rete \<Rightarrow> net_lists \<Rightarrow> addr \<Rightarrow> addr list" where
  "right_children s A = owned (right_heads (pms s)) (right_sibs A)"

definition left_children :: "rete \<Rightarrow> net_lists \<Rightarrow> addr \<Rightarrow> addr list" where
  "left_children s A = owned (left_heads (pms s)) (left_sibs A)"

definition blocked_by :: "rete \<Rightarrow> net_lists \<Rightarrow> addr \<Rightarrow> addr list" where
  "blocked_by s A = owned (blocked_heads (pms s)) (blocked_sibs A)"

lemma child_lists:
  assumes "tree_ok s A"
  shows "right_heads (pms s) x = hdp (right_children s A x) None" "left_heads (pms s) x = hdp (left_children s A x) None"
    "blocked_heads (pms s) x = hdp (blocked_by s A x) None" "\<forall>y\<in>set (right_children s A x). rows s y \<noteq> None" "\<forall>y\<in>set (left_children s A x). rows s y \<noteq> None"
  using members_list(3,4) [OF tree_okD(2) [OF assms], of x] members_list(3,4) [OF tree_okD(3) [OF assms], of x]
    members_list(4) [OF tree_okD(4) [OF assms], of x] tree_okD(1) [OF assms]
  by (auto simp: right_children_def left_children_def blocked_by_def)

lemma leave_children_right:
  assumes t: "tree_ok s A" and n: "pms s x = Some n" "right_side n" "rhsMemory n" "children n \<noteq> None"
  shows "\<exists>s'. leave_children x s = Some s' \<and> tree_ok s' A \<and> links_only s s' \<and> map_option children (pms s' x) = Some None \<and>
    owners s' = ((\<lambda>y. if right_of (rete_env s) y = Some x then None else right_of (rete_env s) y),
      (\<lambda>y. if left_of (rete_env s) y = Some x then None else left_of (rete_env s) y), blocker_of (rete_env s)) \<and>
    (\<forall>y. map_option marker (rows s' y) = map_option marker (rows s y))"
proof -
  note T = tree_okD [OF t]
  define xs where "xs = right_children s A x"
  define M where "M = (\<lambda>y. if y \<in> set xs then map_option (\<lambda>r. r\<lparr>rightParent := None\<rparr>) (rows s y) else rows s y)"
  have h: "children n = hdp xs None" using child_lists(1) [OF t, of x] n(1,2) by (simp add: heads_def xs_def)
  note m = members_list [OF T(2), where k = x, folded right_children_def, folded xs_def]
  let ?h = "(pms s)(x \<mapsto> set_children None n)"
  let ?s = "s\<lparr>rete_env := (rete_env s)\<lparr>matches := M\<rparr>, pms := ?h\<rparr>"
  have "orphan_right (children n) s = Some (s\<lparr>rete_env := (rete_env s)\<lparr>matches := M\<rparr>\<rparr>)"
    unfolding h M_def by (rule orphan_right_chain [OF m(2) _ m(1)]) (use child_lists(4) [OF t, of x] in \<open>simp add: xs_def\<close>)
  then have run: "leave_children x s = Some ?s" using n by (auto simp: leave_children_def upd_pm_def)
  note H = rch.head_upd [of "pms s" x n None, OF n(1,2)]
  note F = right_frame [OF H(3)]
  have "right_of ((rete_env s)\<lparr>matches := M\<rparr>) = (\<lambda>y. if y \<in> set xs then None else right_of (rete_env s) y)"
    by (auto simp: fun_eq_iff right_of_def M_def split: option.split)
  moreover have "left_of ((rete_env s)\<lparr>matches := M\<rparr>) = left_of (rete_env s)"
    by (auto simp: fun_eq_iff left_of_def M_def split: option.split)
  moreover have "blocker_of ((rete_env s)\<lparr>matches := M\<rparr>) = blocker_of (rete_env s)"
    by (auto simp: fun_eq_iff blocker_of_def M_def split: option.split)
  moreover note own = calculation
  moreover have "dom M = dom (rows s)" by (auto simp: M_def split: if_splits)
  ultimately have "tree_ok ?s A"
    using T family_orphan [OF T(2), of x] n(1) unfolding tree_ok_def
    by (simp add: H(1,2) [simplified] F [simplified] insert_absorb domI xs_def right_children_def)
  moreover have "pays_of core_row M = pays_of core_row (rows s)" by (auto simp: pays_of_def M_def core_row_def [abs_def] fun_eq_iff option.map_comp comp_def)
  then have "links_only s ?s" by (rule links_onlyI [OF refl _ F(5)])
  moreover have "y \<in> set xs \<longleftrightarrow> right_of (rete_env s) y = Some x" for y
  proof (cases "y \<in> dom (pms s)")
    case False
    then have "y \<notin> set xs" "rows s y = None" using m(3) T(1) by auto
    then show ?thesis by (simp add: right_of_def)
  qed (use member_iff [OF T(2)] in \<open>simp add: xs_def right_children_def\<close>)
  moreover have "left_of (rete_env s) y \<noteq> Some x" for y
  proof
    assume y: "left_of (rete_env s) y = Some x"
    then have "y \<in> dom (pms s)" using T(1) by (auto simp: left_of_def split: option.splits)
    then have "y \<in> set (owned (left_heads (pms s)) (left_sibs A) x)" using member_iff [OF T(3)] y by blast
    then show False using n(1,2) by (simp add: owned_def heads_def)
  qed
  moreover have "map_option marker (M y) = map_option marker (rows s y)" for y by (auto simp: M_def option.map_comp comp_def)
  ultimately show ?thesis using run own by (intro exI [of _ ?s]) (auto simp: owners_def fun_eq_iff)
qed

lemma leave_children_left:
  assumes t: "tree_ok s A" and n: "pms s x = Some n" "left_side n" "\<not> rhsMemory n" "children n \<noteq> None"
  shows "\<exists>s'. leave_children x s = Some s' \<and> tree_ok s' A \<and> links_only s s' \<and> map_option children (pms s' x) = Some None \<and>
    owners s' = ((\<lambda>y. if right_of (rete_env s) y = Some x then None else right_of (rete_env s) y),
      (\<lambda>y. if left_of (rete_env s) y = Some x then None else left_of (rete_env s) y), blocker_of (rete_env s)) \<and>
    (\<forall>y. map_option marker (rows s' y) = map_option marker (rows s y))"
proof -
  note T = tree_okD [OF t]
  define xs where "xs = left_children s A x"
  define M where "M = (\<lambda>y. if y \<in> set xs then map_option (\<lambda>r. r\<lparr>leftParent := None\<rparr>) (rows s y) else rows s y)"
  have h: "children n = hdp xs None" using child_lists(2) [OF t, of x] n(1,2) by (simp add: heads_def xs_def)
  note m = members_list [OF T(3), where k = x, folded left_children_def, folded xs_def]
  let ?h = "(pms s)(x \<mapsto> set_children None n)"
  let ?s = "s\<lparr>rete_env := (rete_env s)\<lparr>matches := M\<rparr>, pms := ?h\<rparr>"
  have "orphan_left (children n) s = Some (s\<lparr>rete_env := (rete_env s)\<lparr>matches := M\<rparr>\<rparr>)"
    unfolding h M_def by (rule orphan_left_chain [OF m(2) _ m(1)]) (use child_lists(5) [OF t, of x] in \<open>simp add: xs_def\<close>)
  then have run: "leave_children x s = Some ?s" using n by (auto simp: leave_children_def upd_pm_def)
  note H = lch.head_upd [of "pms s" x n None, OF n(1,2)]
  note F = left_frame [OF H(3)]
  have "left_of ((rete_env s)\<lparr>matches := M\<rparr>) = (\<lambda>y. if y \<in> set xs then None else left_of (rete_env s) y)"
    by (auto simp: fun_eq_iff left_of_def M_def split: option.split)
  moreover have "right_of ((rete_env s)\<lparr>matches := M\<rparr>) = right_of (rete_env s)"
    by (auto simp: fun_eq_iff right_of_def M_def split: option.split)
  moreover have "blocker_of ((rete_env s)\<lparr>matches := M\<rparr>) = blocker_of (rete_env s)"
    by (auto simp: fun_eq_iff blocker_of_def M_def split: option.split)
  moreover note own = calculation
  moreover have "dom M = dom (rows s)" by (auto simp: M_def split: if_splits)
  ultimately have "tree_ok ?s A"
    using T family_orphan [OF T(3), of x] n(1) unfolding tree_ok_def
    by (simp add: H(1,2) [simplified] F [simplified] insert_absorb domI xs_def left_children_def)
  moreover have "pays_of core_row M = pays_of core_row (rows s)" by (auto simp: pays_of_def M_def core_row_def [abs_def] fun_eq_iff option.map_comp comp_def)
  then have "links_only s ?s" by (rule links_onlyI [OF refl _ F(5)])
  moreover have "y \<in> set xs \<longleftrightarrow> left_of (rete_env s) y = Some x" for y
  proof (cases "y \<in> dom (pms s)")
    case False
    then have "y \<notin> set xs" "rows s y = None" using m(3) T(1) by auto
    then show ?thesis by (simp add: left_of_def)
  qed (use member_iff [OF T(3)] in \<open>simp add: xs_def left_children_def\<close>)
  moreover have "right_of (rete_env s) y \<noteq> Some x" for y
  proof
    assume y: "right_of (rete_env s) y = Some x"
    then have "y \<in> dom (pms s)" using T(1) by (auto simp: right_of_def split: option.splits)
    then have "y \<in> set (owned (right_heads (pms s)) (right_sibs A) x)" using member_iff [OF T(2)] y by blast
    then show False using n(1,2) by (simp add: owned_def heads_def)
  qed
  moreover have "map_option marker (M y) = map_option marker (rows s y)" for y by (auto simp: M_def option.map_comp comp_def)
  ultimately show ?thesis using run own by (intro exI [of _ ?s]) (auto simp: owners_def fun_eq_iff)
qed

lemma leave_children_ok:
  assumes t: "tree_ok s A" and n: "pms s x = Some n" "betaMemory n \<or> children n = None"
  shows "\<exists>s'. leave_children x s = Some s' \<and> tree_ok s' A \<and> links_only s s' \<and> map_option children (pms s' x) = Some None \<and>
    owners s' = ((\<lambda>y. if right_of (rete_env s) y = Some x then None else right_of (rete_env s) y),
      (\<lambda>y. if left_of (rete_env s) y = Some x then None else left_of (rete_env s) y), blocker_of (rete_env s)) \<and>
    (\<forall>y. map_option marker (rows s' y) = map_option marker (rows s y))"
proof (cases "children n = None")
  case True
  have m: "owned (right_heads (pms s)) (right_sibs A) x = []" "owned (left_heads (pms s)) (left_sibs A) x = []"
    using n(1) True by (simp_all add: owned_def heads_def)
  have "right_of (rete_env s) y \<noteq> Some x \<and> left_of (rete_env s) y \<noteq> Some x" for y
  proof (cases "y \<in> dom (pms s)")
    case True
    then show ?thesis using member_iff [OF tree_okD(2) [OF t] True, of x] member_iff [OF tree_okD(3) [OF t] True, of x] m by auto
  next
    case False
    then have "rows s y = None" using tree_okD(1) [OF t] by auto
    then show ?thesis by (simp add: right_of_def left_of_def)
  qed
  then show ?thesis using t n(1) True by (auto simp: leave_children_def owners_def fun_eq_iff)
next
  case False
  then show ?thesis
    using leave_children_right [OF t n(1)] leave_children_left [OF t n(1)] n(2) by (cases "rhsMemory n") (auto simp: right_side_def)
qed

section \<open>The whole lineage\<close>

definition detached :: "addr \<Rightarrow> net_lists \<Rightarrow> net_lists" where
  "detached x A = A\<lparr>right_sibs := sib_remove x (right_sibs A), left_sibs := sib_remove x (left_sibs A),
     blocked_sibs := sib_remove x (blocked_sibs A)\<rparr>"

lemma detached_simps [simp]:
  "in_bucket (detached x A) = in_bucket A" "right_sibs (detached x A) = sib_remove x (right_sibs A)"
  "left_sibs (detached x A) = sib_remove x (left_sibs A)" "blocked_sibs (detached x A) = sib_remove x (blocked_sibs A)"
  by (simp_all add: detached_def)

lemma core_of:
  assumes "links_only s s'" "pms s x = Some n"
  shows "\<exists>n'. pms s' x = Some n' \<and> core_node n' = core_node n"
  using fun_cong [OF links_only_kept(9) [OF assms(1)], of x] assms(2) by (auto simp: pays_of_def)

lemma core_row_of:
  assumes "links_only s s'" "rows s x = Some r"
  shows "\<exists>r'. rows s' x = Some r' \<and> core_row r' = core_row r"
  using fun_cong [OF links_only_kept(10) [OF assms(1)], of x] assms(2) by (auto simp: pays_of_def)

lemma core_row_of':
  assumes "links_only s s'" "rows s' x = Some r'"
  shows "\<exists>r. rows s x = Some r \<and> core_row r' = core_row r"
  using fun_cong [OF links_only_kept(10) [OF assms(1)], of x] assms(2) by (cases "rows s x") (auto simp: pays_of_def)

lemma activates_kept: "links_only s s' \<Longrightarrow> activates (rete_env s') = activates (rete_env s)"
  using links_only_kept(8) [of s s'] by (simp add: activates_def fun_eq_iff)

lemma leave_right_rows:
  assumes "leave_right x s = Some s'"
  shows "map_option marker (rows s' y) = map_option marker (rows s y)"
  using assms by (auto simp: leave_right_def set_rightParent_def upd_row_def upd_match_def upd_pm_def upd_at_def)

lemma leave_left_rows: "leave_left x s = Some s' \<Longrightarrow> map_option marker (rows s' y) = map_option marker (rows s y)"
  by (auto simp: leave_left_def set_leftParent_def upd_row_def upd_match_def upd_pm_def upd_at_def)

lemma no_activation_kept:
  assumes l: "links_only s s'" and m: "map_option marker (rows s' x) = map_option marker (rows s x)" and n: "no_activation s x"
  shows "no_activation s' x"
  unfolding no_activation_def
proof (intro allI impI)
  fix r' assume r': "rows s' x = Some r' \<and> activates (rete_env s') (match_owner r')"
  obtain r where r: "rows s x = Some r" "core_row r' = core_row r" using core_row_of' [OF l] r' by blast
  then have "activates (rete_env s) (match_owner r)" using r' activates_kept [OF l] by (simp add: core_row_def)
  then show "marker r' = None" using n r(1) m r' by (simp add: no_activation_def)
qed

lemma lineage_ok:
  assumes t: "tree_ok s A" and n: "pms s x = Some n" "betaMemory n \<or> children n = None" and na: "no_activation s x"
  shows "\<exists>s'. UnlinkBetaPartialMatchfromAlphaAndBetaLineage x s = Some s' \<and> tree_ok s' (detached x A) \<and> links_only s s' \<and>
    map_option children (pms s' x) = Some None \<and>
    owners s' = ((\<lambda>y. if y = x \<or> right_of (rete_env s) y = Some x then None else right_of (rete_env s) y),
      (\<lambda>y. if y = x \<or> left_of (rete_env s) y = Some x then None else left_of (rete_env s) y), (blocker_of (rete_env s))(x := None)) \<and>
    map_option marker (rows s' x) = Some None"
proof -
  have x: "x \<in> dom (pms s)" using n(1) by blast
  let ?none = "\<lambda>s. map_option children (pms s x) = Some None"
  obtain s1 where s1: "leave_right x s = Some s1" "tree_ok s1 (A\<lparr>right_sibs := sib_remove x (right_sibs A)\<rparr>)" "links_only s s1"
      "?none s \<longrightarrow> ?none s1" "owners s1 = ((right_of (rete_env s))(x := None), left_of (rete_env s), blocker_of (rete_env s))"
    using leave_right_ok [OF t x] by blast
  have x1: "x \<in> dom (pms s1)" using x links_only_kept(4) [OF s1(3)] by simp
  obtain s2 where s2: "leave_left x s1 = Some s2" "links_only s1 s2" "?none s1 \<longrightarrow> ?none s2"
      "owners s2 = (right_of (rete_env s1), (left_of (rete_env s1))(x := None), blocker_of (rete_env s1))"
      "tree_ok s2 (A\<lparr>right_sibs := sib_remove x (right_sibs A), left_sibs := sib_remove x (left_sibs A)\<rparr>)"
    using leave_left_ok [OF s1(2) x1] by auto
  have x2: "x \<in> dom (pms s2)" using x1 links_only_kept(4) [OF s2(2)] by simp
  have "no_activation s2 x"
    using no_activation_kept [OF s2(2) leave_left_rows [OF s2(1)] no_activation_kept [OF s1(3) leave_right_rows [OF s1(1)] na]] .
  then obtain s3 where s3: "leave_blocked x s2 = Some s3" "links_only s2 s3" "tree_ok s3 (detached x A)" "?none s2 \<longrightarrow> ?none s3"
      "map_option marker (rows s3 x) = Some None" "owners s3 = (right_of (rete_env s2), left_of (rete_env s2), (blocker_of (rete_env s2))(x := None))"
    using leave_blocked_ok [OF s2(5) x2] by (auto simp: detached_def)
  have l: "links_only s s3" using s1(3) s2(2) s3(2) links_only_trans by blast
  obtain n3 where n3: "pms s3 x = Some n3" "core_node n3 = core_node n" using core_of [OF l n(1)] by blast
  have "betaMemory n3 \<or> children n3 = None" using n3 n s1(4) s2(3) s3(4) by (auto simp: core_node_def)
  then obtain s4 where s4: "leave_children x s3 = Some s4" "tree_ok s4 (detached x A)" "links_only s3 s4" "?none s4"
      "owners s4 = ((\<lambda>y. if right_of (rete_env s3) y = Some x then None else right_of (rete_env s3) y),
        (\<lambda>y. if left_of (rete_env s3) y = Some x then None else left_of (rete_env s3) y), blocker_of (rete_env s3))"
      "\<forall>y. map_option marker (rows s4 y) = map_option marker (rows s3 y)"
    using leave_children_ok [OF s3(3) n3(1)] by blast
  have o: "right_of (rete_env s3) = (right_of (rete_env s))(x := None)" "left_of (rete_env s3) = (left_of (rete_env s))(x := None)"
      "blocker_of (rete_env s3) = (blocker_of (rete_env s))(x := None)"
    using s1(5) s2(4) s3(6) by (simp_all add: owners_def)
  have "owners s4 = ((\<lambda>y. if y = x \<or> right_of (rete_env s) y = Some x then None else right_of (rete_env s) y),
      (\<lambda>y. if y = x \<or> left_of (rete_env s) y = Some x then None else left_of (rete_env s) y), (blocker_of (rete_env s))(x := None))"
    unfolding s4(5) o by (auto simp: fun_eq_iff)
  moreover have "UnlinkBetaPartialMatchfromAlphaAndBetaLineage x s = Some s4"
    using s1(1) s2(1) s3(1) s4(1) by (simp add: UnlinkBetaPartialMatchfromAlphaAndBetaLineage_def)
  moreover have "map_option marker (rows s4 x) = Some None" using s4(6) s3(5) by simp
  ultimately show ?thesis using s4(2-4) links_only_trans [OF l s4(3)] by blast
qed

section \<open>Entering the lists\<close>

lemma enter_right_ok:
  assumes t: "tree_ok s A" and x: "x \<in> dom (pms s)" "right_sibs A x = [x]" "right_of (rete_env s) x = None"
    and p: "pms s p = Some N" "right_side N"
  shows "\<exists>s'. (do { h \<leftarrow> link_right p x (pms s); set_rightParent x (Some p) (s\<lparr>pms := h\<rparr>) }) = Some s' \<and>
    tree_ok s' (A\<lparr>right_sibs := sib_insert x (x # right_children s A p) (right_sibs A)\<rparr>) \<and> links_only s s' \<and>
    left_of (rete_env s') = left_of (rete_env s) \<and> left_heads (pms s') = left_heads (pms s) \<and>
    owners s' = ((right_of (rete_env s))(x := Some p), left_of (rete_env s), blocker_of (rete_env s))"
proof -
  note T = tree_okD [OF t]
  obtain r where r: "rows s x = Some r" using match_row [OF t x(1)] by blast
  note R = row_right [OF r, of "Some p"]
  obtain h' where h: "link_right p x (pms s) = Some h'" "pays_of right_rest h' = pays_of right_rest (pms s)"
      "family (dom (pms s)) (right_links h') (right_heads h') ((right_of (rete_env s))(x := Some p))
         (sib_insert x (x # right_children s A p) (right_sibs A))"
    using rch.link_ok [OF T(2) x p] by (auto simp: right_children_def)
  note F = right_frame [OF h(2)]
  let ?s = "s\<lparr>rete_env := (rete_env s)\<lparr>matches := (rows s)(x \<mapsto> r\<lparr>rightParent := Some p\<rparr>)\<rparr>, pms := h'\<rparr>"
  have "set_rightParent x (Some p) (s\<lparr>pms := h'\<rparr>) = Some ?s" using r by (simp add: set_rightParent_def upd_row_def upd_match_def)
  moreover have "tree_ok ?s (A\<lparr>right_sibs := sib_insert x (x # right_children s A p) (right_sibs A)\<rparr>)"
    using T h(3) by (simp add: tree_ok_def F R(2-4) insert_absorb [OF x(1)])
  moreover have "links_only s ?s" by (rule links_onlyI [OF refl R(5) F(5)])
  ultimately show ?thesis using h(1) F(2) R(2-4) by (intro exI [of _ ?s]) (simp add: owners_def)
qed

lemma enter_left_ok:
  assumes t: "tree_ok s A" and x: "x \<in> dom (pms s)" "left_sibs A x = [x]" "left_of (rete_env s) x = None"
    and p: "pms s p = Some N" "left_side N"
  shows "\<exists>s'. (do { h \<leftarrow> link_left p x (pms s); set_leftParent x (Some p) (s\<lparr>pms := h\<rparr>) }) = Some s' \<and>
    tree_ok s' (A\<lparr>left_sibs := sib_insert x (x # left_children s A p) (left_sibs A)\<rparr>) \<and> links_only s s' \<and>
    owners s' = (right_of (rete_env s), (left_of (rete_env s))(x := Some p), blocker_of (rete_env s))"
proof -
  note T = tree_okD [OF t]
  obtain r where r: "rows s x = Some r" using match_row [OF t x(1)] by blast
  note R = row_left [OF r, of "Some p"]
  obtain h' where h: "link_left p x (pms s) = Some h'" "pays_of left_rest h' = pays_of left_rest (pms s)"
      "family (dom (pms s)) (left_links h') (left_heads h') ((left_of (rete_env s))(x := Some p))
         (sib_insert x (x # left_children s A p) (left_sibs A))"
    using lch.link_ok [OF T(3) x p] by (auto simp: left_children_def)
  note F = left_frame [OF h(2)]
  let ?s = "s\<lparr>rete_env := (rete_env s)\<lparr>matches := (rows s)(x \<mapsto> r\<lparr>leftParent := Some p\<rparr>)\<rparr>, pms := h'\<rparr>"
  have "set_leftParent x (Some p) (s\<lparr>pms := h'\<rparr>) = Some ?s" using r by (simp add: set_leftParent_def upd_row_def upd_match_def)
  moreover have "tree_ok ?s (A\<lparr>left_sibs := sib_insert x (x # left_children s A p) (left_sibs A)\<rparr>)"
    using T h(3) by (simp add: tree_ok_def F R(2-4) insert_absorb [OF x(1)])
  moreover have "links_only s ?s" by (rule links_onlyI [OF refl R(5) F(5)])
  ultimately show ?thesis using h(1) R(2-4) by (intro exI [of _ ?s]) (simp add: owners_def)
qed

lemma AddBlockedLink_ok:
  assumes t: "tree_ok s A" and r: "rows s x = Some r" "marker r = None" "\<not> activates (rete_env s) (match_owner r)"
    and x: "blocked_sibs A x = [x]" and b: "pms s b = Some B"
  shows "\<exists>s'. AddBlockedLink x b s = Some s' \<and> links_only s s' \<and>
    tree_ok s' (A\<lparr>blocked_sibs := sib_insert x (x # blocked_by s A b) (blocked_sibs A)\<rparr>) \<and> blocker_of (rete_env s') x = Some b \<and>
    owners s' = (right_of (rete_env s), left_of (rete_env s), (blocker_of (rete_env s))(x := Some b))"
proof -
  note T = tree_okD [OF t]
  have xd: "x \<in> dom (pms s)" using T(1) r(1) by blast
  note R = row_marker [OF r(1), of "Some b"]
  have none: "blocker_of (rete_env s) x = None" using r by (simp add: blocker_of_def)
  obtain h' where h: "link_blocked b x (pms s) = Some h'" "pays_of blocked_rest h' = pays_of blocked_rest (pms s)"
      "family (dom (pms s)) (blocked_links h') (blocked_heads h') ((blocker_of (rete_env s))(x := Some b))
         (sib_insert x (x # blocked_by s A b) (blocked_sibs A))"
    using blk.link_ok [OF T(4) xd x none b] by (auto simp: blocked_by_def)
  note F = blocked_frame [OF h(2)]
  let ?s = "s\<lparr>rete_env := (rete_env s)\<lparr>matches := (rows s)(x \<mapsto> r\<lparr>marker := Some b\<rparr>)\<rparr>, pms := h'\<rparr>"
  have "AddBlockedLink x b s = Some ?s" using R(1) h(1) by (simp add: AddBlockedLink_def)
  moreover have "tree_ok ?s (A\<lparr>blocked_sibs := sib_insert x (x # blocked_by s A b) (blocked_sibs A)\<rparr>)"
    using T h(3) r(3) by (simp add: tree_ok_def F R(2-4) insert_absorb [OF xd])
  moreover have "links_only s ?s" by (rule links_onlyI [OF refl R(5) F(5)])
  moreover have "blocker_of (rete_env ?s) x = Some b" using R(4) r(3) by simp
  moreover have "owners ?s = (right_of (rete_env s), left_of (rete_env s), (blocker_of (rete_env s))(x := Some b))"
    using R(2-4) r(3) by (simp add: owners_def)
  ultimately show ?thesis by blast
qed

lemma RemoveBlockedLink_ok:
  assumes t: "tree_ok s A" and b: "blocker_of (rete_env s) x = Some b"
  shows "\<exists>s'. RemoveBlockedLink x s = Some s' \<and> links_only s s' \<and> tree_ok s' (A\<lparr>blocked_sibs := sib_remove x (blocked_sibs A)\<rparr>) \<and>
    map_option marker (rows s' x) = Some None \<and>
    owners s' = (right_of (rete_env s), left_of (rete_env s), (blocker_of (rete_env s))(x := None))"
proof -
  note T = tree_okD [OF t]
  obtain r where r: "rows s x = Some r" "marker r = Some b" "\<not> activates (rete_env s) (match_owner r)"
    using b by (auto simp: blocker_of_def split: option.splits if_splits)
  have xd: "x \<in> dom (pms s)" using T(1) r(1) by blast
  note R = row_marker [OF r(1), of None]
  obtain n where n: "pms s x = Some n" using xd by blast
  obtain h1 h' where h: "cut_blocked (Some b) x (pms s) = Some h1"
      "upd_at (Some x) (\<lambda>n. set_prevBlocked None (set_nextBlocked None n)) h1 = Some h'"
      "family (dom (pms s)) (blocked_links h') (blocked_heads h') ((blocker_of (rete_env s))(x := None)) (sib_remove x (blocked_sibs A))"
      "pays_of blocked_rest h' = pays_of blocked_rest (pms s)"
    using blk.cut_ok [OF T(4) xd] unfolding b by blast
  note F = blocked_frame [OF h(4)]
  let ?s = "s\<lparr>rete_env := (rete_env s)\<lparr>matches := (rows s)(x \<mapsto> r\<lparr>marker := None\<rparr>)\<rparr>, pms := h'\<rparr>"
  have "RemoveBlockedLink x s = Some ?s"
    using r n h(1,2) by (simp add: RemoveBlockedLink_def set_marker_def upd_row_def upd_match_def upd_pm_def)
  moreover have "tree_ok ?s (A\<lparr>blocked_sibs := sib_remove x (blocked_sibs A)\<rparr>)"
    using T h(3) by (simp add: tree_ok_def F R(2-4) insert_absorb [OF xd])
  moreover have "links_only s ?s" by (rule links_onlyI [OF refl R(5) F(5)])
  ultimately show ?thesis using R(2-4) by (intro exI [of _ ?s]) (simp add: owners_def)
qed

lemma insert_then_remove:
  assumes f: "family D L first par sib" and x: "x \<in> D" "sib x = [x]" "par x = None" and y: "y \<in> D"
  shows "sib_remove x (sib_insert x (x # owned first sib k) sib) y = sib y"
proof -
  have "sib y = owned first sib k" if "y \<in> set (owned first sib k)" using members_list(5) [OF f that] .
  moreover have "x \<notin> set (sib y)" if "y \<noteq> x"
  proof
    assume "x \<in> set (sib y)"
    then have "sib y = [x]" using familyD(5) [OF f y] x(2) by simp
    then show False using familyD(1) [OF f y] that by simp
  qed
  moreover have "x \<notin> set (owned first sib k)" using member_iff [OF f x(1)] x(3) by simp
  ultimately show ?thesis using x(2) by (auto simp: sib_remove_def sib_insert_def remove1_idem)
qed

end
