(* ===== verification/Rete_Buckets.thy ===== *)
theory Rete_Buckets
  imports Rete_Links
begin

text \<open>Putting a match into a bucket of a memory and taking it out.\<close>

section \<open>One bucket changes\<close>

definition put_bucket :: "join_id \<Rightarrow> side \<Rightarrow> nat \<Rightarrow> addr list \<Rightarrow> net_lists \<Rightarrow> net_lists" where
  "put_bucket j sd i xs A = A\<lparr>in_bucket := (\<lambda>j' sd' i'. if j' = j \<and> sd' = sd \<and> i' = i then xs else in_bucket A j' sd' i')\<rparr>"

lemma put_bucket_simps [simp]:
  "right_sibs (put_bucket j sd i xs A) = right_sibs A" "left_sibs (put_bucket j sd i xs A) = left_sibs A"
  "blocked_sibs (put_bucket j sd i xs A) = blocked_sibs A" "in_bucket (put_bucket j sd i xs A) j sd i = xs"
  by (simp_all add: put_bucket_def)

lemma in_bucket_put: "in_bucket (put_bucket j sd i xs A) j' sd' =
    (if j' = j \<and> sd' = sd then (in_bucket A j' sd')(i := xs) else in_bucket A j' sd')"
  by (auto simp: put_bucket_def)

definition in_memory :: "net_lists \<Rightarrow> addr \<Rightarrow> bool" where
  "in_memory A x \<longleftrightarrow> (\<exists>j sd i. x \<in> set (in_bucket A j sd i))"

lemma in_bucketD:
  assumes "memories_ok s A" "x \<in> set (in_bucket A j sd i)"
  shows "\<exists>m. memory_at j sd s = Some m \<and> i < length (beta m) \<and> stored s j sd (beta_size m) i x"
proof -
  have m: "case memory_at j sd s of None \<Rightarrow> \<forall>i. in_bucket A j sd i = [] | Some m \<Rightarrow> memory_ok s j sd m (in_bucket A j sd)"
    using assms(1) unfolding memories_ok_def by blast
  show ?thesis
  proof (cases "memory_at j sd s")
    case None
    then show ?thesis using m assms(2) by simp
  next
    case (Some a)
    then have "if i < length (beta a) then bucket_ok s j sd a i (in_bucket A j sd i) else in_bucket A j sd i = []"
      using m by (simp add: memory_ok_def)
    then show ?thesis using Some assms(2) by (auto simp: bucket_ok_def split: if_splits)
  qed
qed

lemma bucket_unique:
  assumes "memories_ok s A" "x \<in> set (in_bucket A j sd i)" "x \<in> set (in_bucket A j' sd' i')"
  shows "j' = j \<and> sd' = sd \<and> i' = i"
proof -
  obtain m m' where m: "memory_at j sd s = Some m" "stored s j sd (beta_size m) i x"
      "memory_at j' sd' s = Some m'" "stored s j' sd' (beta_size m') i' x"
    using in_bucketD [OF assms(1,2)] in_bucketD [OF assms(1,3)] by blast
  then have "j' = j" "sd' = sd" by (cases sd; cases sd'; auto simp: stored_def)+
  then show ?thesis using m by (auto simp: stored_def)
qed

lemma memories_okI:
  assumes "memory_at j sd s = Some m" "memory_ok s j sd m (in_bucket A j sd)"
    "\<And>j' sd'. j' \<noteq> j \<or> sd' \<noteq> sd \<Longrightarrow> in_bucket A j' sd' = in_bucket C j' sd'"
    "\<And>j' sd'. j' \<noteq> j \<or> sd' \<noteq> sd \<Longrightarrow> (case memory_at j' sd' s of None \<Rightarrow> \<forall>i. in_bucket C j' sd' i = [] | Some m \<Rightarrow> memory_ok s j' sd' m (in_bucket C j' sd'))"
  shows "memories_ok s A"
  unfolding memories_ok_def
proof (intro allI)
  fix j' sd'
  show "case memory_at j' sd' s of None \<Rightarrow> \<forall>i. in_bucket A j' sd' i = [] | Some m \<Rightarrow> memory_ok s j' sd' m (in_bucket A j' sd')"
  proof (cases "j' = j \<and> sd' = sd")
    case False
    then have d: "j' \<noteq> j \<or> sd' \<noteq> sd" by simp
    show ?thesis unfolding assms(3) [OF d] by (rule assms(4) [OF d])
  qed (use assms(1,2) in auto)
qed

lemma memory_okD:
  assumes "memories_ok s A" "memory_at j sd s = Some m"
  shows "shape_ok sd m" "i < length (beta m) \<Longrightarrow> bucket_ok s j sd m i (in_bucket A j sd i)"
    "i \<ge> length (beta m) \<Longrightarrow> in_bucket A j sd i = []" "beta_count m = of_nat (length (matches_in (length (beta m)) (in_bucket A j sd)))"
proof -
  have "memory_ok s j sd m (in_bucket A j sd)" using assms by (auto simp: memories_ok_def dest: spec [of _ j] split: option.splits)
  then have *: "shape_ok sd m" "if i < length (beta m) then bucket_ok s j sd m i (in_bucket A j sd i) else in_bucket A j sd i = []"
      "beta_count m = of_nat (length (matches_in (length (beta m)) (in_bucket A j sd)))"
    by (auto simp: memory_ok_def)
  then show "shape_ok sd m" "i < length (beta m) \<Longrightarrow> bucket_ok s j sd m i (in_bucket A j sd i)"
    "i \<ge> length (beta m) \<Longrightarrow> in_bucket A j sd i = []" "beta_count m = of_nat (length (matches_in (length (beta m)) (in_bucket A j sd)))"
    by simp_all
qed

lemma bucket_okD:
  assumes "bucket_ok s j sd m i xs"
  shows "beta m ! i = hdp xs None" "beta_last m = Some ls \<Longrightarrow> ls ! i = lastp None xs" "distinct xs"
    "dlseg (memory_links (pms s)) None xs None" "x \<in> set xs \<Longrightarrow> stored s j sd (beta_size m) i x"
  using assms by (simp_all add: bucket_ok_def)

lemma bucket_ok_cong:
  assumes "bucket_ok s j sd m i xs" "beta m' ! i = beta m ! i" "\<And>ls'. beta_last m' = Some ls' \<Longrightarrow> \<exists>ls. beta_last m = Some ls \<and> ls' ! i = ls ! i"
    "beta_size m' = beta_size m" "\<And>y. y \<in> set xs \<Longrightarrow> memory_links (pms s') y = memory_links (pms s) y" "\<And>y. y \<in> set xs \<Longrightarrow> node_key s' y = node_key s y"
  shows "bucket_ok s' j sd m' i xs"
proof -
  note B = bucket_okD [OF assms(1)]
  have "dlseg (memory_links (pms s')) None xs None = dlseg (memory_links (pms s)) None xs None"
    by (rule dlseg_cong) (rule assms(5))
  then show ?thesis using B assms(2-4,6) by (auto simp: bucket_ok_def stored_def)
qed

text \<open>Only matches that are in a memory count.\<close>

lemma memories_ok_frame:
  assumes ok: "memories_ok s A" and "memories s' = memories s" "in_bucket A' = in_bucket A"
    and same: "\<And>y. in_memory A y \<Longrightarrow> memory_links (pms s') y = memory_links (pms s) y \<and> node_key s' y = node_key s y"
  shows "memories_ok s' A'"
  unfolding memories_ok_def assms(3)
proof (intro allI)
  fix j sd
  have at: "memory_at j sd s' = memory_at j sd s" using assms(2) by (simp add: memory_at_def)
  have c: "case memory_at j sd s of None \<Rightarrow> \<forall>i. in_bucket A j sd i = [] | Some m \<Rightarrow> memory_ok s j sd m (in_bucket A j sd)"
    using ok unfolding memories_ok_def by blast
  show "case memory_at j sd s' of None \<Rightarrow> \<forall>i. in_bucket A j sd i = [] | Some m \<Rightarrow> memory_ok s' j sd m (in_bucket A j sd)"
  proof (cases "memory_at j sd s")
    case None
    then show ?thesis using c at by simp
  next
    case (Some m)
    note M = memory_okD [OF ok Some]
    have "bucket_ok s' j sd m i (in_bucket A j sd i)" if "i < length (beta m)" for i
      by (rule bucket_ok_cong [OF M(2) [OF that]]) (use same in \<open>auto simp: in_memory_def\<close>)
    then show ?thesis using Some at M by (simp add: memory_ok_def)
  qed
qed

lemma length_matches_in: "i < k \<Longrightarrow> length (matches_in k (B(i := ys))) + length (B i) = length (matches_in k B) + length ys"
proof (induction k)
  case (Suc k)
  have "matches_in (Suc k) B = matches_in k B @ B k" for B by (simp add: matches_in_def)
  moreover have "matches_in k (B(k := ys)) = matches_in k B" by (simp add: matches_in_def)
  ultimately show ?case using Suc by (cases "i = k") (auto simp del: fun_upd_apply simp: fun_upd_same fun_upd_other)
qed simp

lemma memories_ok_change:
  assumes ok: "memories_ok s A" and m: "memory_at j sd s = Some m" and i: "i < length (beta m)"
    and mem: "memory_at j sd s' = Some m'" "\<And>j' sd'. j' \<noteq> j \<or> sd' \<noteq> sd \<Longrightarrow> memory_at j' sd' s' = memory_at j' sd' s"
    and shape: "beta_size m' = beta_size m" "length (beta m') = length (beta m)" "\<And>i'. i' \<noteq> i \<Longrightarrow> beta m' ! i' = beta m ! i'"
      "rel_option (\<lambda>ls' ls. length ls' = length ls \<and> (\<forall>i'. i' \<noteq> i \<longrightarrow> ls' ! i' = ls ! i')) (beta_last m') (beta_last m)"
    and new: "bucket_ok s' j sd m' i ys" "beta_count m' + of_nat (length (in_bucket A j sd i)) = beta_count m + of_nat (length ys)"
    and links: "\<And>y. y \<notin> set (in_bucket A j sd i) \<union> set ys \<Longrightarrow> memory_links (pms s') y = memory_links (pms s) y"
    and fresh: "\<And>y. \<lbrakk>y \<in> set ys; y \<notin> set (in_bucket A j sd i)\<rbrakk> \<Longrightarrow> \<not> in_memory A y"
    and keys: "\<And>y. in_memory A y \<Longrightarrow> node_key s' y = node_key s y"
  shows "memories_ok s' (put_bucket j sd i ys A)"
proof -
  have other: "memory_links (pms s') y = memory_links (pms s) y \<and> node_key s' y = node_key s y"
    if y: "y \<in> set (in_bucket A j' sd' i')" and d: "j' \<noteq> j \<or> sd' \<noteq> sd \<or> i' \<noteq> i" for y j' sd' i'
  proof -
    have y1: "in_memory A y" using y by (auto simp: in_memory_def)
    have "y \<notin> set (in_bucket A j sd i)" using bucket_unique [OF ok _ y, of j sd i] d by auto
    moreover from this have "y \<notin> set ys" using fresh y1 by blast
    ultimately show ?thesis using links keys [OF y1] by auto
  qed
  have "memory_ok s' j sd m' ((in_bucket A j sd)(i := ys))"
  proof -
    note M = memory_okD [OF ok m]
    have "shape_ok sd m'" using M(1) shape(1,2,4) by (auto simp: shape_ok_def option_rel_Some1 option_rel_Some2 split: option.splits)
    moreover have "bucket_ok s' j sd m' i' (((in_bucket A j sd)(i := ys)) i')" if "i' < length (beta m')" for i'
    proof (cases "i' = i")
      case False
      have "bucket_ok s' j sd m' i' (in_bucket A j sd i')"
      proof (rule bucket_ok_cong [OF M(2) [of i']])
        show "\<exists>ls. beta_last m = Some ls \<and> ls' ! i' = ls ! i'" if "beta_last m' = Some ls'" for ls'
          using that shape(4) False by (auto simp: option_rel_Some1)
      qed (use that shape(1-3) other [of _ j sd i'] False in auto)
      then show ?thesis using False by simp
    qed (use new(1) in simp)
    moreover have "((in_bucket A j sd)(i := ys)) i' = []" if "\<not> i' < length (beta m')" for i' using that M(3) [of i'] shape(2) i by auto
    moreover have "beta_count m' = of_nat (length (matches_in (length (beta m')) ((in_bucket A j sd)(i := ys))))"
    proof -
      have "of_nat (length (matches_in (length (beta m)) ((in_bucket A j sd)(i := ys)))) + of_nat (length (in_bucket A j sd i)) =
          (beta_count m + of_nat (length ys) :: u64)"
        using arg_cong [OF length_matches_in [OF i, of "in_bucket A j sd" ys], of "of_nat :: nat \<Rightarrow> u64"] M(4) by simp
      then show ?thesis using new(2) shape(2) by (metis add_right_cancel)
    qed
    ultimately show ?thesis by (simp add: memory_ok_def)
  qed
  moreover have "case memory_at j' sd' s' of None \<Rightarrow> \<forall>i. in_bucket A j' sd' i = [] | Some m \<Rightarrow> memory_ok s' j' sd' m (in_bucket A j' sd')"
    if d: "j' \<noteq> j \<or> sd' \<noteq> sd" for j' sd'
  proof (cases "memory_at j' sd' s")
    case None
    have "case memory_at j' sd' s of None \<Rightarrow> \<forall>i. in_bucket A j' sd' i = [] | Some m \<Rightarrow> memory_ok s j' sd' m (in_bucket A j' sd')"
      using ok unfolding memories_ok_def by blast
    then show ?thesis using None mem(2) [OF d] by simp
  next
    case (Some a)
    note M = memory_okD [OF ok Some]
    have "bucket_ok s' j' sd' a i' (in_bucket A j' sd' i')" if "i' < length (beta a)" for i'
      by (rule bucket_ok_cong [OF M(2) [OF that]]) (use other [of _ j' sd' i'] d in auto)
    then show ?thesis using Some mem(2) [OF d] M by (simp add: memory_ok_def)
  qed
  ultimately show ?thesis by (intro memories_okI [OF mem(1), where C = A]) (auto simp: in_bucket_put)
qed

section \<open>Entering a bucket\<close>

text \<open>A left memory takes new matches at the front of a bucket, a right memory at the end.\<close>

fun placed :: "side \<Rightarrow> addr \<Rightarrow> addr list \<Rightarrow> addr list" where
  "placed LHS x xs = x # xs"
| "placed RHS x xs = xs @ [x]"

lemma placed_simps [simp]: "set (placed sd x xs) = insert x (set xs)" "length (placed sd x xs) = length xs + 1"
  "distinct (placed sd x xs) = (x \<notin> set xs \<and> distinct xs)"
  by (cases sd; auto)+

definition unplaced :: "rete \<Rightarrow> net_lists \<Rightarrow> addr \<Rightarrow> bool" where
  "unplaced s A x \<longleftrightarrow> \<not> in_memory A x \<and> (\<exists>n r. pms s x = Some n \<and> rows s x = Some r \<and> betaMemory n \<and>
     nextInMemory n = None \<and> prevInMemory n = None \<and> children n = None \<and> marker r = None)"

lemma put_memory_simps [simp]:
  "memory_of sd (put_memory sd m J) = Some m" "sd' \<noteq> sd \<Longrightarrow> memory_of sd' (put_memory sd m J) = memory_of sd' J"
  "memory_of sd' (note_add sd J) = memory_of sd' J" "memory_of sd' (note_delete sd J) = memory_of sd' J"
  by (cases sd; cases sd'; simp)+

lemma link_left_end:
  assumes x: "h0 x = Some n0" "prevInMemory n0 = None" "x \<notin> set xs" and seg: "dlseg (memory_links h0) None xs None" "distinct xs"
  shows "\<exists>h2. upd_if (hdp xs None) (set_prevIn (Some x)) (h0(x \<mapsto> set_nextIn (hdp xs None) n0)) = Some h2 \<and>
    dlseg (memory_links h2) None (x # xs) None \<and> pays_of memory_rest h2 = pays_of memory_rest h0 \<and> (\<forall>y. y \<notin> set (x # xs) \<longrightarrow> h2 y = h0 y)"
proof -
  let ?h1 = "h0(x \<mapsto> set_nextIn (hdp xs None) n0)"
  have s1: "dlseg (memory_links ?h1) None ([] @ xs) None" using seg(1) x(3) by simp
  have p1: "pays_of memory_rest ?h1 = pays_of memory_rest h0" using x(1) by (auto simp: pays_of_def memory_rest_def fun_eq_iff)
  obtain h2 where "upd_if (hdp xs None) (set_prevIn (Some x)) ?h1 = Some h2" "dlseg (memory_links h2) None ([] @ x # xs) None"
      "pays_of memory_rest h2 = pays_of memory_rest ?h1" "\<forall>a. a \<notin> set ([] @ xs) \<longrightarrow> h2 a = ?h1 a"
    using mem.link_node [OF s1, of x "set_nextIn (hdp xs None) n0"] x seg(2) by auto
  then show ?thesis using p1 by (intro exI [of _ h2]) simp
qed

lemma link_right_end:
  assumes x: "h0 x = Some n0" "nextInMemory n0 = None" "x \<notin> set xs" and seg: "dlseg (memory_links h0) None xs None" "distinct xs"
    and l: "lastp None xs = Some l"
  shows "\<exists>h1 h2. upd_at (Some l) (set_nextIn (Some x)) h0 = Some h1 \<and> upd_at (Some x) (set_prevIn (Some l)) h1 = Some h2 \<and>
    dlseg (memory_links h2) None (xs @ [x]) None \<and> pays_of memory_rest h2 = pays_of memory_rest h0 \<and> (\<forall>y. y \<notin> set (x # xs) \<longrightarrow> h2 y = h0 y)"
proof -
  have lx: "l \<in> set xs" "l \<noteq> x" using lastp_None_Some [OF l] x(3) by auto
  obtain L where L: "h0 l = Some L" using dlseg_in_dom [OF seg(1) lx(1)] by auto
  let ?h1 = "h0(x \<mapsto> set_prevIn (Some l) n0)"
  have s1: "dlseg (memory_links ?h1) None (xs @ []) None" using seg(1) x(3) by simp
  have p1: "pays_of memory_rest ?h1 = pays_of memory_rest h0" using x(1) by (auto simp: pays_of_def memory_rest_def fun_eq_iff)
  obtain h2 where h2: "upd_if (lastp None xs) (set_nextIn (Some x)) ?h1 = Some h2" "dlseg (memory_links h2) None (xs @ x # []) None"
      "pays_of memory_rest h2 = pays_of memory_rest ?h1" "\<forall>a. a \<notin> set (xs @ []) \<longrightarrow> h2 a = ?h1 a"
    using mem.link_node [OF s1, of x "set_prevIn (Some l) n0"] x seg(2) l by auto
  have "h2 = h0(l \<mapsto> set_nextIn (Some x) L, x \<mapsto> set_prevIn (Some l) n0)"
    using h2(1) l L lx(2) by (auto simp: fun_upd_twist)
  then have "upd_at (Some x) (set_prevIn (Some l)) (h0(l \<mapsto> set_nextIn (Some x) L)) = Some h2" using x(1) lx(2) by simp
  moreover have "upd_at (Some l) (set_nextIn (Some x)) h0 = Some (h0(l \<mapsto> set_nextIn (Some x) L))" using L by simp
  moreover have "pays_of memory_rest h2 = pays_of memory_rest h0" using h2(3) p1 by simp
  moreover have "\<forall>y. y \<notin> set (x # xs) \<longrightarrow> h2 y = h0 y" using h2(4) by simp
  ultimately show ?thesis using h2(2) by blast
qed

lemma same_array:
  "beta_last m = None \<Longrightarrow> m\<lparr>beta := b, beta_last := None, beta_count := c\<rparr> = m\<lparr>beta := b, beta_count := c\<rparr>"
  "beta m = b \<Longrightarrow> m\<lparr>beta := b, beta_last := l, beta_count := c\<rparr> = m\<lparr>beta_last := l, beta_count := c\<rparr>"
  "m\<lparr>beta_last := l, beta := b, beta_count := c\<rparr> = m\<lparr>beta := b, beta_last := l, beta_count := c\<rparr>"
  by (cases m; simp)+

lemma store_run:
  assumes m: "memory_at j sd s = Some m" "memories s j = Some J" "shape_ok sd m" and i: "i = unat (hv mod beta_size m)"
    and b: "bucket_ok s j sd m i xs" and n: "pms s x = Some n" "nextInMemory n = None" "prevInMemory n = None" "x \<notin> set xs" and r: "rows s x = Some r"
  shows "\<exists>h. store_in_memory x j hv sd s = Some (s\<lparr>pms := h, rete_env := (rete_env s)\<lparr>matches := (rows s)(x \<mapsto> r\<lparr>match_owner := j\<rparr>)\<rparr>,
      memories := (memories s)(j \<mapsto> note_add sd (put_memory sd (m\<lparr>beta := (beta m)[i := hdp (placed sd x xs) None],
        beta_last := map_option (\<lambda>ls. ls[i := Some x]) (beta_last m), beta_count := beta_count m + 1\<rparr>) J))\<rparr>) \<and>
    dlseg (memory_links h) None (placed sd x xs) None \<and>
    pays_of memory_rest h = pays_of memory_rest ((pms s)(x \<mapsto> n\<lparr>rhsMemory := (sd = RHS), pm_hashValue := hv\<rparr>)) \<and>
    (\<forall>y. y \<notin> set (x # xs) \<longrightarrow> h y = pms s y)"
proof -
  note B = bucket_okD [OF b]
  have len: "beta_size m \<noteq> 0" "i < length (beta m)"
    using m(3) unat_mono [OF word_mod_less_divisor [of "beta_size m" hv]] by (auto simp: shape_ok_def i word_gt_0)
  let ?n0 = "n\<lparr>rhsMemory := (sd = RHS), pm_hashValue := hv\<rparr>"
  let ?h0 = "(pms s)(x \<mapsto> ?n0)"
  have s0: "dlseg (memory_links ?h0) None xs None" using B(4) n(4) by simp
  show ?thesis
  proof (cases sd)
    case LHS
    obtain h2 where h2: "upd_if (hdp xs None) (set_prevIn (Some x)) (?h0(x \<mapsto> set_nextIn (hdp xs None) ?n0)) = Some h2"
        "dlseg (memory_links h2) None (x # xs) None" "pays_of memory_rest h2 = pays_of memory_rest ?h0" "\<forall>y. y \<notin> set (x # xs) \<longrightarrow> h2 y = ?h0 y"
      using link_left_end [OF _ _ n(4) s0 B(3), of ?n0] n(3) by auto
    have "beta_last m = None" using m(3) LHS by (auto simp: shape_ok_def split: option.splits)
    then show ?thesis using LHS m n(1) r len h2 B(1)
      by (intro exI [of _ h2]) (simp add: store_in_memory_def upd_pm_def upd_pm_if_def betaLocation_def nth_opt_def i [symmetric]
          upd_memories_def upd_row_def upd_match_def same_array)
  next
    case RHS
    obtain ls where ls: "beta_last m = Some ls" "length ls = length (beta m)" using m(3) RHS by (auto simp: shape_ok_def split: option.splits)
    have li: "ls ! i = lastp None xs" using B(2) ls(1) by simp
    show ?thesis
    proof (cases "lastp None xs")
      case None
      then have "xs = []" by simp
      then show ?thesis using RHS m n r len ls li
        by (intro exI [of _ ?h0]) (simp add: store_in_memory_def upd_pm_def betaLocation_def nth_opt_def i [symmetric] Let_def
          upd_memories_def upd_row_def upd_match_def links_of_def same_array)
    next
      case (Some l)
      obtain h1 h2 where h2: "upd_at (Some l) (set_nextIn (Some x)) ?h0 = Some h1" "upd_at (Some x) (set_prevIn (Some l)) h1 = Some h2"
          "dlseg (memory_links h2) None (xs @ [x]) None" "pays_of memory_rest h2 = pays_of memory_rest ?h0" "\<forall>y. y \<notin> set (x # xs) \<longrightarrow> h2 y = ?h0 y"
        using link_right_end [OF _ _ n(4) s0 B(3) Some, of ?n0] n(2) by auto
      have "hdp (xs @ [x]) None = beta m ! i" using B(1) Some by (cases xs) auto
      then have "(beta m)[i := hdp (xs @ [x]) None] = beta m" by simp
      then show ?thesis using RHS m n(1) r len ls li h2 Some
        by (intro exI [of _ h2]) (simp add: store_in_memory_def upd_pm_def betaLocation_def nth_opt_def i [symmetric] Let_def
          upd_memories_def upd_row_def upd_match_def same_array)
    qed
  qed
qed

text \<open>What the memory operations do to the lists of children and of blocked matches: nothing.\<close>

lemma memory_frame:
  assumes "pays_of memory_rest h' = pays_of memory_rest h"
  shows "right_links h' = right_links h" "right_heads h' = right_heads h" "left_links h' = left_links h" "left_heads h' = left_heads h"
    "blocked_links h' = blocked_links h" "blocked_heads h' = blocked_heads h" "dom h' = dom h"
  by (rule pays_links [OF assms] pays_heads [OF assms]; simp add: memory_rest_def right_side_def)+ (rule pays_of_dom_eq [OF assms])

lemma place_frame:
  assumes "h x = Some n" "children n = None"
  shows "right_links (h(x \<mapsto> n\<lparr>rhsMemory := b, pm_hashValue := v\<rparr>)) = right_links h" "right_heads (h(x \<mapsto> n\<lparr>rhsMemory := b, pm_hashValue := v\<rparr>)) = right_heads h"
    "left_links (h(x \<mapsto> n\<lparr>rhsMemory := b, pm_hashValue := v\<rparr>)) = left_links h" "left_heads (h(x \<mapsto> n\<lparr>rhsMemory := b, pm_hashValue := v\<rparr>)) = left_heads h"
    "blocked_links (h(x \<mapsto> n\<lparr>rhsMemory := b, pm_hashValue := v\<rparr>)) = blocked_links h" "blocked_heads (h(x \<mapsto> n\<lparr>rhsMemory := b, pm_hashValue := v\<rparr>)) = blocked_heads h"
    "dom (h(x \<mapsto> n\<lparr>rhsMemory := b, pm_hashValue := v\<rparr>)) = dom h"
  using assms by (auto simp: links_of_def heads_def fun_eq_iff)

lemma row_owner:
  assumes "rows s x = Some r" "marker r = None"
  shows "right_of ((rete_env s)\<lparr>matches := (rows s)(x \<mapsto> r\<lparr>match_owner := j\<rparr>)\<rparr>) = right_of (rete_env s)"
    "left_of ((rete_env s)\<lparr>matches := (rows s)(x \<mapsto> r\<lparr>match_owner := j\<rparr>)\<rparr>) = left_of (rete_env s)"
    "blocker_of ((rete_env s)\<lparr>matches := (rows s)(x \<mapsto> r\<lparr>match_owner := j\<rparr>)\<rparr>) = blocker_of (rete_env s)"
    "dom ((rows s)(x \<mapsto> r\<lparr>match_owner := j\<rparr>)) = dom (rows s)"
  using assms by (auto simp: right_of_def left_of_def blocker_of_def fun_eq_iff split: option.split)

lemma pays_other:
  assumes "pays_of memory_rest h' = pays_of memory_rest (h(x \<mapsto> n0))" "y \<noteq> x"
  shows "map_option memory_rest (h' y) = map_option memory_rest (h y)"
  using fun_cong [OF assms(1), of y] assms(2) by (simp add: pays_of_def)

lemma memory_rest_eq:
  "memory_rest n = memory_rest n' \<Longrightarrow> betaMemory n = betaMemory n' \<and> rhsMemory n = rhsMemory n' \<and> pm_hashValue n = pm_hashValue n' \<and>
    children n = children n' \<and> blockList n = blockList n'"
  by (cases n; cases n') (simp add: memory_rest_def)

lemma store_ok:
  fixes hv :: u64
  assumes t: "tree_ok s A" and ok: "memories_ok s A" and m: "memory_at j sd s = Some m" and u: "unplaced s A x"
  defines "i \<equiv> unat (hv mod beta_size m)"
  shows "\<exists>s' m'. store_in_memory x j hv sd s = Some s' \<and> tree_ok s' A \<and>
    memories_ok s' (put_bucket j sd i (placed sd x (in_bucket A j sd i)) A) \<and> dom (pms s') = dom (pms s) \<and>
    right_of (rete_env s') = right_of (rete_env s) \<and> left_of (rete_env s') = left_of (rete_env s) \<and>
    right_heads (pms s') = right_heads (pms s) \<and> left_heads (pms s') = left_heads (pms s) \<and>
    (\<forall>y. y \<noteq> x \<longrightarrow> map_option memory_rest (pms s' y) = map_option memory_rest (pms s y)) \<and>
    BetaMemoryResizingFlag s' = BetaMemoryResizingFlag s \<and> memory_at j sd s' = Some m' \<and> beta_size m' = beta_size m \<and>
    beta_count m' = beta_count m + 1 \<and> length (beta m') = length (beta m) \<and> blocker_of (rete_env s') = blocker_of (rete_env s)"
proof -
  define xs where "xs = in_bucket A j sd i"
  obtain n r where x: "pms s x = Some n" "rows s x = Some r" "betaMemory n" "nextInMemory n = None" "prevInMemory n = None"
      "children n = None" "marker r = None" and nx: "\<not> in_memory A x"
    using u by (auto simp: unplaced_def)
  have xs: "x \<notin> set xs" using nx by (auto simp: in_memory_def xs_def)
  obtain J where J: "memories s j = Some J" "memory_of sd J = Some m" using m by (auto simp: memory_at_def)
  note M = memory_okD [OF ok m]
  have i: "i < length (beta m)"
    using M(1) unat_mono [OF word_mod_less_divisor [of "beta_size m" hv]] by (auto simp: shape_ok_def i_def word_gt_0)
  have b: "bucket_ok s j sd m i xs" using M(2) [OF i] by (simp add: xs_def)
  let ?m = "m\<lparr>beta := (beta m)[i := hdp (placed sd x xs) None], beta_last := map_option (\<lambda>ls. ls[i := Some x]) (beta_last m), beta_count := beta_count m + 1\<rparr>"
  let ?n0 = "n\<lparr>rhsMemory := (sd = RHS), pm_hashValue := hv\<rparr>"
  let ?M = "(rows s)(x \<mapsto> r\<lparr>match_owner := j\<rparr>)"
  obtain h where h: "store_in_memory x j hv sd s = Some (s\<lparr>pms := h, rete_env := (rete_env s)\<lparr>matches := ?M\<rparr>,
        memories := (memories s)(j \<mapsto> note_add sd (put_memory sd ?m J))\<rparr>)"
      "dlseg (memory_links h) None (placed sd x xs) None" "pays_of memory_rest h = pays_of memory_rest ((pms s)(x \<mapsto> ?n0))"
      "\<forall>y. y \<notin> set (x # xs) \<longrightarrow> h y = pms s y"
    using store_run [OF m J(1) M(1) meta_eq_to_obj_eq [OF i_def] b x(1,4,5) xs x(2)] by blast
  define s' where "s' = s\<lparr>pms := h, rete_env := (rete_env s)\<lparr>matches := ?M\<rparr>, memories := (memories s)(j \<mapsto> note_add sd (put_memory sd ?m J))\<rparr>"
  note F = memory_frame [OF h(3)] place_frame [of "pms s" x n, where b = "sd = RHS" and v = hv, OF x(1,6)] row_owner [OF x(2,7), of j]
  have tree: "tree_ok s' A" using t F by (simp add: tree_ok_def s'_def)
  have m': "memory_at j sd s' = Some ?m" "\<And>j' sd'. j' \<noteq> j \<or> sd' \<noteq> sd \<Longrightarrow> memory_at j' sd' s' = memory_at j' sd' s"
    using J by (auto simp: memory_at_def s'_def)
  have key: "node_key s' y = node_key s y" if "y \<noteq> x" for y
    using pays_other [OF h(3) that] that
    by (cases "h y"; cases "pms s y") (auto simp: node_key_def s'_def dest!: memory_rest_eq split: option.split)
  have keyx: "node_key s' x = Some (True, sd = RHS, j, hv)"
  proof -
    obtain n' where n': "h x = Some n'" "memory_rest n' = memory_rest ?n0" using fun_cong [OF h(3), of x] by (auto simp: pays_of_def)
    then have "(betaMemory n', rhsMemory n', pm_hashValue n') = (True, sd = RHS, hv)"
      using x(3) memory_rest_eq [OF n'(2)] by simp
    then show ?thesis using n'(1) by (simp add: node_key_def s'_def)
  qed
  have st: "stored s' j sd (beta_size m) i y" if "y \<in> set (placed sd x xs)" for y
    using that bucket_okD(5) [OF b, of y] key keyx xs by (cases "y = x") (auto simp: stored_def i_def)
  have lst: "lastp None (placed sd x xs) = Some x" if "beta_last m \<noteq> None"
    using M(1) that by (cases sd) (auto simp: shape_ok_def)
  have nb: "bucket_ok s' j sd ?m i (placed sd x xs)"
    using i lst M(1) h(2) st xs bucket_okD(3) [OF b] by (auto simp: bucket_ok_def s'_def shape_ok_def split: option.splits)
  have "memories_ok s' (put_bucket j sd i (placed sd x xs) A)"
  proof (rule memories_ok_change [OF ok m i m' _ _ _ _ nb])
    show "rel_option (\<lambda>ls' ls. length ls' = length ls \<and> (\<forall>i'. i' \<noteq> i \<longrightarrow> ls' ! i' = ls ! i')) (beta_last ?m) (beta_last m)"
      by (cases "beta_last m") simp_all
    show "memory_links (pms s') y = memory_links (pms s) y" if "y \<notin> set (in_bucket A j sd i) \<union> set (placed sd x xs)" for y
      using that h(4) by (simp add: s'_def links_of_def xs_def)
    show "\<not> in_memory A y" if "y \<in> set (placed sd x xs)" "y \<notin> set (in_bucket A j sd i)" for y using that nx by (auto simp: xs_def)
    show "node_key s' y = node_key s y" if "in_memory A y" for y using that nx key [of y] by (cases "y = x") simp_all
  qed (simp_all add: xs_def)
  moreover have "\<forall>y. y \<noteq> x \<longrightarrow> map_option memory_rest (pms s' y) = map_option memory_rest (pms s y)"
    using pays_other [OF h(3)] by (simp add: s'_def)
  ultimately show ?thesis using h(1) tree m'(1) F
    by (intro exI [of _ s'] exI [of _ ?m]) (simp add: s'_def xs_def)
qed

section \<open>Leaving a bucket\<close>

lemma remove_run:
  assumes m: "memory_at j sd s = Some m" "memories s j = Some J" "shape_ok sd m" and i: "i < length (beta m)"
    and b: "bucket_ok s j sd m i (P @ x # S)"
  shows "\<exists>h. remove_from_memory j x sd s = Some (s\<lparr>pms := h, memories := (memories s)(j \<mapsto> note_delete sd (put_memory sd
      (m\<lparr>beta := (beta m)[i := hdp (P @ S) None], beta_last := map_option (\<lambda>ls. ls[i := lastp None (P @ S)]) (beta_last m),
        beta_count := beta_count m - 1\<rparr>) J))\<rparr>) \<and>
    dlseg (memory_links h) None (P @ S) None \<and> pays_of memory_rest h = pays_of memory_rest (pms s) \<and> (\<forall>y. y \<notin> set (P @ S) \<longrightarrow> h y = pms s y)"
proof -
  note B = bucket_okD [OF b]
  obtain n where n: "pms s x = Some n" "prevInMemory n = lastp None P" "nextInMemory n = hdp S None" using dlseg_node [OF B(4)] by auto
  obtain hv where hv: "node_key s x = Some (True, sd = RHS, j, hv)" "unat (hv mod beta_size m) = i" using B(5) [of x] by (auto simp: stored_def)
  then have loc: "betaLocation m (pm_hashValue n) = Some i"
    using n(1) m(3) by (auto simp: betaLocation_def node_key_def shape_ok_def split: option.splits)
  obtain h1 h2 where u: "upd_if (lastp None P) (set_nextIn (hdp S None)) (pms s) = Some h1" "upd_if (hdp S None) (set_prevIn (lastp None P)) h1 = Some h2"
      "dlseg (memory_links h2) None (P @ S) None" "pays_of memory_rest h2 = pays_of memory_rest (pms s)" "\<forall>a. a \<notin> set (P @ S) \<longrightarrow> h2 a = pms s a"
    using mem.unlink_node [OF B(4,3)] by blast
  define m1 where "m1 = m\<lparr>beta_last := map_option (\<lambda>ls. ls[i := lastp None (P @ S)]) (beta_last m)\<rparr>"
  have l1: "(case sd of LHS \<Rightarrow> Some m | RHS \<Rightarrow> do { lasts \<leftarrow> beta_last m; l \<leftarrow> nth_opt lasts i;
        Some (if l = Some x then m\<lparr>beta_last := Some (lasts[i := prevInMemory n])\<rparr> else m) }) = Some m1"
  proof (cases "beta_last m")
    case None
    then show ?thesis using m(3) by (cases m) (auto simp: shape_ok_def m1_def split: side.split)
  next
    case (Some ls)
    then have ls: "sd = RHS" "length ls = length (beta m)" "ls ! i = lastp None (P @ x # S)" using m(3) B(2) by (auto simp: shape_ok_def)
    show ?thesis
    proof (cases "S = []")
      case True
      then show ?thesis using Some ls n(2) i by (simp add: nth_opt_def m1_def)
    next
      case False
      then have "lastp None (P @ x # S) = lastp None (P @ S)" "lastp None (P @ S) \<noteq> Some x"
        using B(3) by (simp_all add: lastp_last) (metis last_in_set)
      moreover have "ls[i := lastp None (P @ S)] = ls" using ls(3) calculation(1) by (metis list_update_id)
      then have "m1 = m" using Some by (cases m) (simp add: m1_def)
      ultimately show ?thesis using Some ls i by (simp add: nth_opt_def)
    qed
  qed
  have m1: "beta m1 = beta m" "beta_count m1 = beta_count m" by (simp_all add: m1_def)
  let ?m2 = "m1\<lparr>beta := (beta m)[i := hdp (P @ S) None]\<rparr>"
  have step: "(if prevInMemory n = None
        then (if i < length (beta m1) then Some (s, m1\<lparr>beta := (beta m1)[i := nextInMemory n]\<rparr>) else None)
        else do { s2 \<leftarrow> upd_pm (prevInMemory n) (set_nextIn (nextInMemory n)) s; Some (s2, m1) }) = Some (s\<lparr>pms := h1\<rparr>, ?m2)"
  proof (cases "P = []")
    case True
    then show ?thesis using u(1) n i m1 by simp
  next
    case False
    then have "(beta m)[i := hdp (P @ S) None] = beta m" using B(1) i by (cases P) (auto simp: list_update_same_conv)
    then have "?m2 = m1" using m1(1) by simp
    then show ?thesis using False u(1) n by (auto simp: upd_pm_def upd_if_def)
  qed
  have eq: "?m2\<lparr>beta_count := beta_count ?m2 - 1\<rparr> = m\<lparr>beta := (beta m)[i := hdp (P @ S) None],
      beta_last := map_option (\<lambda>ls. ls[i := lastp None (P @ S)]) (beta_last m), beta_count := beta_count m - 1\<rparr>"
    by (cases m) (simp add: m1_def)
  have "remove_from_memory j x sd s = Some (s\<lparr>pms := h2, memories := (memories s)(j \<mapsto> note_delete sd (put_memory sd (?m2\<lparr>beta_count := beta_count ?m2 - 1\<rparr>) J))\<rparr>)"
    unfolding remove_from_memory_def using m(1,2) n(1) loc l1 step n(2,3) u(2) by (simp add: upd_pm_if_def upd_memories_def)
  then show ?thesis using u(3-5) unfolding eq by blast
qed

lemma remove_ok:
  assumes t: "tree_ok s A" and ok: "memories_ok s A" and x: "x \<in> set (in_bucket A j sd i)" and m: "memory_at j sd s = Some m"
  shows "\<exists>h M m'. remove_from_memory j x sd s = Some (s\<lparr>pms := h, memories := M\<rparr>) \<and> tree_ok (s\<lparr>pms := h, memories := M\<rparr>) A \<and>
    memories_ok (s\<lparr>pms := h, memories := M\<rparr>) (put_bucket j sd i (remove1 x (in_bucket A j sd i)) A) \<and>
    pays_of memory_rest h = pays_of memory_rest (pms s) \<and> (\<forall>y. y \<notin> set (remove1 x (in_bucket A j sd i)) \<longrightarrow> h y = pms s y) \<and>
    memory_at j sd (s\<lparr>pms := h, memories := M\<rparr>) = Some m' \<and> beta_size m' = beta_size m \<and>
    beta_count m' = beta_count m - 1 \<and> length (beta m') = length (beta m)"
proof -
  obtain P S where PS: "in_bucket A j sd i = P @ x # S" using x by (auto simp: in_set_conv_decomp)
  have i: "i < length (beta m)" using in_bucketD [OF ok x] m by auto
  obtain J where J: "memories s j = Some J" "memory_of sd J = Some m" using m by (auto simp: memory_at_def)
  note M = memory_okD [OF ok m]
  have b: "bucket_ok s j sd m i (P @ x # S)" using M(2) [OF i] PS by simp
  let ?m = "m\<lparr>beta := (beta m)[i := hdp (P @ S) None], beta_last := map_option (\<lambda>ls. ls[i := lastp None (P @ S)]) (beta_last m), beta_count := beta_count m - 1\<rparr>"
  let ?M = "(memories s)(j \<mapsto> note_delete sd (put_memory sd ?m J))"
  obtain h where h: "remove_from_memory j x sd s = Some (s\<lparr>pms := h, memories := ?M\<rparr>)" "dlseg (memory_links h) None (P @ S) None"
      "pays_of memory_rest h = pays_of memory_rest (pms s)" "\<forall>y. y \<notin> set (P @ S) \<longrightarrow> h y = pms s y"
    using remove_run [OF m J(1) M(1) i b] by blast
  define s' where "s' = s\<lparr>pms := h, memories := ?M\<rparr>"
  have xo: "x \<notin> set (P @ S)" "distinct (P @ S)" using bucket_okD(3) [OF b] by auto
  have rm: "remove1 x (in_bucket A j sd i) = P @ S" using xo(1) PS by (simp add: remove1_append)
  note F = memory_frame [OF h(3)]
  have tree: "tree_ok s' A" using t F by (simp add: tree_ok_def s'_def)
  have m': "memory_at j sd s' = Some ?m" "\<And>j' sd'. j' \<noteq> j \<or> sd' \<noteq> sd \<Longrightarrow> memory_at j' sd' s' = memory_at j' sd' s"
    using J by (auto simp: memory_at_def s'_def)
  have key: "node_key s' = node_key s"
  proof
    fix y
    have "map_option memory_rest (h y) = map_option memory_rest (pms s y)" using fun_cong [OF h(3), of y] by (simp add: pays_of_def)
    then show "node_key s' y = node_key s y" by (cases "h y"; cases "pms s y") (auto simp: node_key_def s'_def dest!: memory_rest_eq split: option.split)
  qed
  then have st: "stored s' = stored s" by (simp add: stored_def fun_eq_iff)
  have nb: "bucket_ok s' j sd ?m i (P @ S)"
    using i h(2) xo(2) M(1) bucket_okD(5) [OF b] by (auto simp: bucket_ok_def st shape_ok_def s'_def [THEN arg_cong, of pms] split: option.splits)
  have "memories_ok s' (put_bucket j sd i (P @ S) A)"
  proof (rule memories_ok_change [OF ok m i m' _ _ _ _ nb])
    show "rel_option (\<lambda>ls' ls. length ls' = length ls \<and> (\<forall>i'. i' \<noteq> i \<longrightarrow> ls' ! i' = ls ! i')) (beta_last ?m) (beta_last m)"
      by (cases "beta_last m") simp_all
    show "memory_links (pms s') y = memory_links (pms s) y" if "y \<notin> set (in_bucket A j sd i) \<union> set (P @ S)" for y
      using that h(4) by (simp add: links_of_def s'_def)
    show "node_key s' y = node_key s y" for y by (rule fun_cong [OF key])
  qed (simp_all add: PS)
  moreover have "beta_size ?m = beta_size m" "beta_count ?m = beta_count m - 1" "length (beta ?m) = length (beta m)" by simp_all
  ultimately show ?thesis unfolding rm using h(1,3,4) tree m'(1) unfolding s'_def by blast
qed

end
