(* ===== verification/Rete_Resize.thy ===== *)
theory Rete_Resize
  imports Rete_Buckets
begin

text \<open>
  Growing a memory: every match moves to the bucket of its hash value in the larger array, and the matches of
  a bucket keep their order.
\<close>

section \<open>The loop\<close>

definition bucket_for :: "(addr \<rightharpoonup> pmNode) \<Rightarrow> u64 \<Rightarrow> addr \<Rightarrow> nat" where
  "bucket_for h k x = (case h x of None \<Rightarrow> 0 | Some n \<Rightarrow> unat (pm_hashValue n mod k))"

definition share :: "(addr \<rightharpoonup> pmNode) \<Rightarrow> u64 \<Rightarrow> addr list \<Rightarrow> nat \<Rightarrow> addr list" where
  "share h k xs i = filter (\<lambda>x. bucket_for h k x = i) xs"

lemma share_simps [simp]: "share h k [] i = []" "share h k (xs @ ys) i = share h k xs i @ share h k ys i"
  "set (share h k xs i) = {x \<in> set xs. bucket_for h k x = i}" "distinct xs \<Longrightarrow> distinct (share h k xs i)"
  "share h k [x] i = (if bucket_for h k x = i then [x] else [])"
  by (auto simp: share_def)

text \<open>The matches \<open>xs\<close> have been moved; all others are as they were in the store \<open>h0\<close>.\<close>

definition moved :: "(addr \<rightharpoonup> pmNode) \<Rightarrow> u64 \<Rightarrow> addr list \<Rightarrow> (addr \<rightharpoonup> pmNode) \<Rightarrow> ptr list \<Rightarrow> ptr list \<Rightarrow> bool" where
  "moved h0 k xs h nb la \<longleftrightarrow> length nb = unat k \<and> length la = unat k \<and> pays_of memory_rest h = pays_of memory_rest h0 \<and>
     (\<forall>y. y \<notin> set xs \<longrightarrow> h y = h0 y) \<and>
     (\<forall>i < unat k. nb ! i = hdp (share h0 k xs i) None \<and> la ! i = lastp None (share h0 k xs i) \<and>
        dlseg (memory_links h) None (share h0 k xs i) None)"

lemma movedD:
  assumes "moved h0 k xs h nb la"
  shows "length nb = unat k" "length la = unat k" "pays_of memory_rest h = pays_of memory_rest h0" "y \<notin> set xs \<Longrightarrow> h y = h0 y"
    "i < unat k \<Longrightarrow> nb ! i = hdp (share h0 k xs i) None" "i < unat k \<Longrightarrow> la ! i = lastp None (share h0 k xs i)"
    "i < unat k \<Longrightarrow> dlseg (memory_links h) None (share h0 k xs i) None"
  using assms unfolding moved_def by auto

lemma mod_less_size: "(k :: u64) \<noteq> 0 \<Longrightarrow> unat (hv mod k) < unat k"
  using unat_mono [OF word_mod_less_divisor [of k hv]] by (simp add: word_gt_0)

lemma resize_step:
  assumes mv: "moved h0 k xs h nb la" and k: "k \<noteq> 0" and x: "x \<notin> set xs" "distinct xs" "h0 x = Some n"
  defines "i \<equiv> unat (pm_hashValue n mod k)"
  shows "\<exists>h2. upd_if (la ! i) (set_nextIn (Some x)) (h(x \<mapsto> n\<lparr>nextInMemory := None, prevInMemory := la ! i\<rparr>)) = Some h2 \<and>
    moved h0 k (xs @ [x]) h2 (if la ! i = None then nb[i := Some x] else nb) (la[i := Some x])"
proof -
  note M = movedD [OF mv]
  have i: "i < unat k" using mod_less_size [OF k] by (simp add: i_def)
  have bx: "bucket_for h0 k x = i" using x(3) by (simp add: bucket_for_def i_def)
  define P where "P = share h0 k xs i"
  have P: "x \<notin> set P" "distinct P" "la ! i = lastp None P" "nb ! i = hdp P None" "dlseg (memory_links h) None P None"
    using x M(5-7) [OF i] by (simp_all add: P_def)
  let ?n = "n\<lparr>nextInMemory := None, prevInMemory := lastp None P\<rparr>"
  let ?h1 = "h(x \<mapsto> ?n)"
  have hx: "h x = Some n" using M(4) x by simp
  have s1: "dlseg (memory_links ?h1) None (P @ []) None" using P(1,5) by simp
  have p1: "pays_of memory_rest ?h1 = pays_of memory_rest h" using hx by (auto simp: pays_of_def memory_rest_def fun_eq_iff)
  obtain h2 where h2: "upd_if (lastp None P) (set_nextIn (Some x)) ?h1 = Some h2" "dlseg (memory_links h2) None (P @ x # []) None"
      "pays_of memory_rest h2 = pays_of memory_rest ?h1" "\<forall>a. a \<notin> set (P @ []) \<longrightarrow> h2 a = ?h1 a"
    using mem.link_node [OF s1, of x ?n] P(1,2) by auto
  let ?nb = "if la ! i = None then nb[i := Some x] else nb" and ?la = "la[i := Some x]"
  have "?nb ! i' = hdp (share h0 k (xs @ [x]) i') None \<and> ?la ! i' = lastp None (share h0 k (xs @ [x]) i') \<and>
      dlseg (memory_links h2) None (share h0 k (xs @ [x]) i') None" if i': "i' < unat k" for i'
  proof (cases "i' = i")
    case True
    have "hdp P (Some x) = hdp P None" if "P \<noteq> []" using that by (cases P) simp_all
    then show ?thesis using True h2(2) P(3,4) bx M(1,2) i by (cases "P = []") (simp_all add: P_def [symmetric])
  next
    case False
    have "dlseg (memory_links h2) None (share h0 k xs i') None = dlseg (memory_links h) None (share h0 k xs i') None"
    proof (rule dlseg_cong)
      fix y assume "y \<in> set (share h0 k xs i')"
      then have "y \<notin> set P" "y \<noteq> x" using False x(1) by (auto simp: P_def)
      then show "memory_links h2 y = memory_links h y" using h2(4) by (simp add: links_of_def)
    qed
    then show ?thesis using False M(5-7) [OF i'] bx by simp
  qed
  moreover have "h2 y = h0 y" if "y \<notin> set (xs @ [x])" for y
  proof -
    have "y \<notin> set P" using that by (auto simp: P_def)
    then show ?thesis using that h2(4) M(4) [of y] by simp
  qed
  ultimately have "moved h0 k (xs @ [x]) h2 ?nb ?la" using M(1-3) h2(3) p1 by (simp add: moved_def)
  then show ?thesis using h2(1) P(3) by auto
qed

lemma resize_chain_ok:
  assumes "moved h0 k xs h nb la" "k \<noteq> 0" "distinct (xs @ ys)" "dlseg (memory_links h0) p ys None"
  shows "\<exists>h' nb' la'. resize_chain k (hdp ys None) h nb la = Some (h', nb', la') \<and> moved h0 k (xs @ ys) h' nb' la'"
  using assms
proof (induction ys arbitrary: xs h nb la p)
  case Nil
  then show ?case by (simp add: resize_chain.simps)
next
  case (Cons y ys)
  obtain n where n: "h0 y = Some n" "nextInMemory n = hdp ys None" using Cons.prems(4) by (auto dest!: links_of_Some)
  have hy: "h y = Some n" using movedD(4) [OF Cons.prems(1), of y] Cons.prems(3) n(1) by simp
  let ?i = "unat (pm_hashValue n mod k)"
  have i: "?i < length la" using mod_less_size [OF Cons.prems(2)] movedD(2) [OF Cons.prems(1)] by simp
  obtain h2 where h2: "upd_if (la ! ?i) (set_nextIn (Some y)) (h(y \<mapsto> n\<lparr>nextInMemory := None, prevInMemory := la ! ?i\<rparr>)) = Some h2"
      "moved h0 k (xs @ [y]) h2 (if la ! ?i = None then nb[?i := Some y] else nb) (la[?i := Some y])"
    using resize_step [OF Cons.prems(1,2) _ _ n(1)] Cons.prems(3) by auto
  obtain h' nb' la' where r: "resize_chain k (hdp ys None) h2 (if la ! ?i = None then nb[?i := Some y] else nb) (la[?i := Some y]) = Some (h', nb', la')"
      "moved h0 k ((xs @ [y]) @ ys) h' nb' la'"
    using Cons.IH [OF h2(2) Cons.prems(2), of "Some y"] Cons.prems(3,4) by auto
  have "resize_chain k (hdp (y # ys) None) h nb la = Some (h', nb', la')"
    using hy i n(2) h2(1) r(1) by (subst resize_chain.simps) (simp add: nth_opt_def Let_def)
  then show ?case using r(2) by auto
qed

lemma resize_chains_ok:
  assumes "moved h0 k xs h nb la" "k \<noteq> 0" "distinct (xs @ concat Ys)" "\<And>ys. ys \<in> set Ys \<Longrightarrow> dlseg (memory_links h0) None ys None"
  shows "\<exists>h' nb' la'. resize_chains k (map (\<lambda>ys. hdp ys None) Ys) h nb la = Some (h', nb', la') \<and> moved h0 k (xs @ concat Ys) h' nb' la'"
  using assms
proof (induction Ys arbitrary: xs h nb la)
  case (Cons ys Ys)
  have d: "distinct (xs @ ys)" "distinct ((xs @ ys) @ concat Ys)" using Cons.prems(3) by auto
  obtain h1 nb1 la1 where r: "resize_chain k (hdp ys None) h nb la = Some (h1, nb1, la1)" "moved h0 k (xs @ ys) h1 nb1 la1"
    using resize_chain_ok [OF Cons.prems(1,2) d(1) Cons.prems(4) [of ys]] by auto
  then show ?case using Cons.IH [OF r(2) Cons.prems(2) d(2)] Cons.prems(4) by auto
qed simp

lemma moved_empty: "moved h k [] h (replicate (unat k) None) (replicate (unat k) None)"
  by (simp add: moved_def)

lemma length_shares:
  assumes "\<And>x. x \<in> set xs \<Longrightarrow> bucket_for h k x < N"
  shows "length (matches_in N (share h k xs)) = length xs"
  using assms
proof (induction xs)
  case Nil
  show ?case by (simp add: matches_in_def)
next
  case (Cons x xs)
  have "share h k (x # xs) = (share h k xs)(bucket_for h k x := x # share h k xs (bucket_for h k x))"
    by (auto simp: share_def fun_eq_iff)
  then show ?case
    using length_matches_in [of "bucket_for h k x" N "share h k xs" "x # share h k xs (bucket_for h k x)"] Cons by (simp del: fun_upd_apply)
qed

section \<open>The whole memory\<close>

definition regrouped :: "rete \<Rightarrow> join_id \<Rightarrow> side \<Rightarrow> betaMemory \<Rightarrow> net_lists \<Rightarrow> net_lists" where
  "regrouped s j sd m A = A\<lparr>in_bucket := (\<lambda>j' sd'. if j' = j \<and> sd' = sd
     then share (pms s) (beta_size m * 11) (matches_in (length (beta m)) (in_bucket A j sd)) else in_bucket A j' sd')\<rparr>"

lemma matches_in_distinct:
  assumes ok: "memories_ok s A" and m: "memory_at j sd s = Some m"
  shows "distinct (matches_in (length (beta m)) (in_bucket A j sd))"
proof -
  have "distinct (matches_in k (in_bucket A j sd))" if "k \<le> length (beta m)" for k
    using that
  proof (induction k)
    case (Suc k)
    have "distinct (in_bucket A j sd k)" using bucket_okD(3) [OF memory_okD(2) [OF ok m, of k]] Suc.prems by simp
    moreover have "x \<notin> set (in_bucket A j sd k)" if x: "x \<in> set (matches_in k (in_bucket A j sd))" for x
    proof -
      obtain i where i: "i < k" "x \<in> set (in_bucket A j sd i)" using x by (auto simp: matches_in_def)
      show ?thesis using bucket_unique [OF ok i(2), of j sd k] i(1) by auto
    qed
    ultimately show ?case using Suc by (auto simp: matches_in_def)
  qed (simp add: matches_in_def)
  then show ?thesis by simp
qed

lemma matches_in_stored:
  assumes ok: "memories_ok s A" and x: "x \<in> set (matches_in N (in_bucket A j sd))"
  shows "\<exists>hv. node_key s x = Some (True, sd = RHS, j, hv)" "in_memory A x" "pms s x \<noteq> None"
proof -
  obtain i where i: "x \<in> set (in_bucket A j sd i)" using x by (auto simp: matches_in_def)
  then show "in_memory A x" by (auto simp: in_memory_def)
  obtain m :: betaMemory where "stored s j sd (beta_size m) i x" using in_bucketD [OF ok i] by blast
  then show "\<exists>hv. node_key s x = Some (True, sd = RHS, j, hv)" by (auto simp: stored_def)
  then show "pms s x \<noteq> None" by (auto simp: node_key_def split: option.splits)
qed

lemma node_key_rest:
  assumes "pays_of memory_rest (pms s') = pays_of memory_rest (pms s)" "rows s' = rows s"
  shows "node_key s' = node_key s"
proof
  fix y
  have "map_option memory_rest (pms s' y) = map_option memory_rest (pms s y)" using fun_cong [OF assms(1), of y] by (simp add: pays_of_def)
  then show "node_key s' y = node_key s y"
    using assms(2) by (cases "pms s' y"; cases "pms s y") (auto simp: node_key_def dest!: memory_rest_eq split: option.split)
qed

lemma resize_ok:
  assumes t: "tree_ok s A" and ok: "memories_ok s A" and m: "memory_at j sd s = Some m" and big: "unat (beta_size m) * 121 < 2 ^ 64"
  shows "\<exists>s'. ResizeBetaMemory j sd s = Some s' \<and> tree_ok s' A \<and> memories_ok s' (regrouped s j sd m A) \<and>
    rete_env s' = rete_env s \<and> BetaMemoryResizingFlag s' = BetaMemoryResizingFlag s \<and> GarbagePartialMatches s' = GarbagePartialMatches s \<and>
    pays_of memory_rest (pms s') = pays_of memory_rest (pms s) \<and> (\<forall>y. \<not> in_memory A y \<longrightarrow> pms s' y = pms s y)"
proof -
  obtain J where J: "memories s j = Some J" "memory_of sd J = Some m" using m by (auto simp: memory_at_def)
  note M = memory_okD [OF ok m]
  let ?k = "beta_size m * 11" and ?N = "length (beta m)"
  define xs where "xs = matches_in ?N (in_bucket A j sd)"
  have uk: "unat ?k = unat (beta_size m) * 11"
    using M(1) unat_mult_lem [of "beta_size m" "11 :: u64"] by (simp add: shape_ok_def)
  have k0: "?k \<noteq> 0" using uk M(1) by (auto simp: shape_ok_def unat_eq_0 dest: arg_cong [of _ _ unat])
  have arr: "beta m = map (\<lambda>ys. hdp ys None) (map (in_bucket A j sd) [0..<?N])"
    by (rule nth_equalityI) (use bucket_okD(1) [OF M(2)] in auto)
  have segs: "dlseg (memory_links (pms s)) None ys None" if "ys \<in> set (map (in_bucket A j sd) [0..<?N])" for ys
    using that bucket_okD(4) [OF M(2)] by auto
  have "\<exists>h nb la. resize_chains ?k (map (\<lambda>ys. hdp ys None) (map (in_bucket A j sd) [0..<?N])) (pms s)
      (replicate (unat ?k) None) (replicate (unat ?k) None) = Some (h, nb, la) \<and>
      moved (pms s) ?k ([] @ concat (map (in_bucket A j sd) [0..<?N])) h nb la"
    by (rule resize_chains_ok [OF moved_empty k0 _ segs]) (use matches_in_distinct [OF ok m] in \<open>simp_all add: matches_in_def\<close>)
  then obtain h nb la where r: "resize_chains ?k (beta m) (pms s) (replicate (unat ?k) None) (replicate (unat ?k) None) = Some (h, nb, la)"
      "moved (pms s) ?k xs h nb la"
    unfolding arr [symmetric] xs_def matches_in_def append_Nil by blast
  note V = movedD [OF r(2)]
  let ?m = "m\<lparr>beta_size := ?k, beta := nb, beta_last := map_option (\<lambda>_. la) (beta_last m)\<rparr>"
  define s' where "s' = s\<lparr>pms := h, memories := (memories s)(j \<mapsto> put_memory sd ?m J)\<rparr>"
  have run: "ResizeBetaMemory j sd s = Some s'" using m J r(1) by (simp add: ResizeBetaMemory_def Let_def upd_memories_def s'_def)
  note F = memory_frame [OF V(3)]
  have tree: "tree_ok s' A" using t F by (simp add: tree_ok_def s'_def)
  have m': "memory_at j sd s' = Some ?m" "\<And>j' sd'. j' \<noteq> j \<or> sd' \<noteq> sd \<Longrightarrow> memory_at j' sd' s' = memory_at j' sd' s"
    using J by (auto simp: memory_at_def s'_def)
  have key: "node_key s' = node_key s" by (rule node_key_rest) (use V(3) in \<open>simp_all add: s'_def\<close>)
  then have st: "stored s' = stored s" by (simp add: stored_def fun_eq_iff)
  have "memory_ok s' j sd ?m (share (pms s) ?k xs)"
  proof -
    have sto: "stored s' j sd ?k (bucket_for (pms s) ?k x) x \<and> bucket_for (pms s) ?k x < unat ?k" if "x \<in> set xs" for x
      using matches_in_stored [OF ok that [unfolded xs_def]] mod_less_size [OF k0]
      by (auto simp: st stored_def bucket_for_def node_key_def split: option.splits)
    have "shape_ok sd ?m" using M(1) V(1,2) k0 uk big by (auto simp: shape_ok_def split: option.splits)
    moreover have "bucket_ok s' j sd ?m i (share (pms s) ?k xs i)" if "i < unat ?k" for i
      using V(5-7) [OF that] sto matches_in_distinct [OF ok m] by (auto simp: bucket_ok_def s'_def [THEN arg_cong, of pms] xs_def)
    moreover have "share (pms s) ?k xs i = []" if "\<not> i < unat ?k" for i using that sto by (auto simp: share_def filter_empty_conv)
    moreover have "length (matches_in (unat ?k) (share (pms s) ?k xs)) = length xs" using sto by (intro length_shares) auto
    ultimately show ?thesis using V(1) M(4) by (simp add: memory_ok_def xs_def)
  qed
  moreover have "case memory_at j' sd' s' of None \<Rightarrow> \<forall>i. in_bucket A j' sd' i = [] | Some m \<Rightarrow> memory_ok s' j' sd' m (in_bucket A j' sd')"
    if d: "j' \<noteq> j \<or> sd' \<noteq> sd" for j' sd'
  proof (cases "memory_at j' sd' s")
    case None
    have "case memory_at j' sd' s of None \<Rightarrow> \<forall>i. in_bucket A j' sd' i = [] | Some m \<Rightarrow> memory_ok s j' sd' m (in_bucket A j' sd')"
      using ok unfolding memories_ok_def by blast
    then show ?thesis using None m'(2) [OF d] by simp
  next
    case (Some a)
    note MA = memory_okD [OF ok Some]
    have "y \<notin> set xs" if "y \<in> set (in_bucket A j' sd' i)" for y i
      using that bucket_unique [OF ok that, of j sd] d by (auto simp: xs_def matches_in_def)
    then have "bucket_ok s' j' sd' a i (in_bucket A j' sd' i)" if "i < length (beta a)" for i
      by (intro bucket_ok_cong [OF MA(2) [OF that]]) (use V(4) key in \<open>auto simp: s'_def links_of_def\<close>)
    then show ?thesis using Some m'(2) [OF d] MA by (simp add: memory_ok_def)
  qed
  ultimately have "memories_ok s' (regrouped s j sd m A)"
    by (intro memories_okI [OF m'(1), where C = A]) (auto simp: regrouped_def xs_def)
  moreover have "pms s' y = pms s y" if "\<not> in_memory A y" for y
    using that V(4) [of y] by (auto simp: s'_def in_memory_def xs_def matches_in_def)
  ultimately show ?thesis using run tree V(3) by (intro exI [of _ s']) (simp add: s'_def)
qed

end
