(* ===== verification/Rete_Network.thy ===== *)
theory Rete_Network
  imports Rete_Resize
begin

text \<open>
  The operations of the join network on its memories as a whole: \<^verbatim>\<open>UpdateBetaPMLinks\<close> and
  \<^verbatim>\<open>UnlinkBetaPMFromNodeAndLineage\<close> keep the invariant and change exactly the lists they should.
\<close>

section \<open>Growing and shrinking\<close>

lemma matches_in_empty [simp]: "matches_in k (\<lambda>_. []) = []"
  by (simp add: matches_in_def)

lemma matches_bound:
  assumes ok: "rete_ok s A" and m: "memory_at j sd s = Some m"
  shows "length (matches_in (length (beta m)) (in_bucket A j sd)) * 11 < 2 ^ 64"
    "unat (beta_count m) = length (matches_in (length (beta m)) (in_bucket A j sd))"
proof -
  note O = rete_okD [OF ok]
  let ?xs = "matches_in (length (beta m)) (in_bucket A j sd)"
  have "set ?xs \<subseteq> dom (pms s)" using matches_in_stored(3) [OF O(2)] by blast
  then have "card (set ?xs) \<le> card (dom (pms s))" by (rule card_mono [OF O(3)])
  then have "length ?xs \<le> card (dom (pms s))" using distinct_card [OF matches_in_distinct [OF O(2) m]] by simp
  then show b: "length ?xs * 11 < 2 ^ 64" using O(4) by linarith
  then have "length ?xs < 2 ^ 64" by linarith
  then show "unat (beta_count m) = length ?xs" unfolding memory_okD(4) [OF O(2) m] by (simp add: unat_of_nat take_bit_nat_eq_self)
qed

definition resizes :: "rete \<Rightarrow> betaMemory \<Rightarrow> bool" where
  "resizes s m \<longleftrightarrow> BetaMemoryResizingFlag s \<and> beta_size m > 1 \<and> beta_count m > beta_size m * 11"

lemma grow_ok:
  assumes ok: "rete_ok s A" and m: "memory_at j sd s = Some m"
  shows "\<exists>s'. grow_memory j sd s = Some s' \<and> rete_ok s' (if resizes s m then regrouped s j sd m A else A) \<and> rete_env s' = rete_env s \<and>
    pays_of memory_rest (pms s') = pays_of memory_rest (pms s)"
proof (cases "resizes s m")
  case True
  note O = rete_okD [OF ok] and B = matches_bound [OF ok m] and S = memory_okD(1) [OF rete_okD(2) [OF ok] m]
  have "unat (beta_size m * 11) = unat (beta_size m) * 11" using S unat_mult_lem [of "beta_size m" "11 :: u64"] by (simp add: shape_ok_def)
  then have "unat (beta_size m) * 11 < unat (beta_count m)" using True unat_mono [of "beta_size m * 11" "beta_count m"] by (simp add: resizes_def)
  then have "unat (beta_size m) * 121 < 2 ^ 64" using B by linarith
  from resize_ok [OF O(1,2) m this] obtain s' where s': "ResizeBetaMemory j sd s = Some s'" "tree_ok s' A" "memories_ok s' (regrouped s j sd m A)"
      "rete_env s' = rete_env s" "pays_of memory_rest (pms s') = pays_of memory_rest (pms s)" by blast
  have "tree_ok s' (regrouped s j sd m A)" using s'(2) by (simp add: tree_ok_def regrouped_def)
  moreover have "dom (pms s') = dom (pms s)" by (rule pays_of_dom_eq [OF s'(5)])
  ultimately show ?thesis using s' O(3,4) m True by (auto simp: grow_memory_def resizes_def rete_ok_def)
next
  case False
  then show ?thesis using ok m by (auto simp: grow_memory_def resizes_def)
qed

lemma shrink_ok:
  assumes ok: "rete_ok s A" and m: "memory_at j sd s = Some m"
  shows "\<exists>M. shrink_memory j sd s = Some (s\<lparr>memories := M\<rparr>) \<and> rete_ok (s\<lparr>memories := M\<rparr>) A"
proof (cases "BetaMemoryResizingFlag s \<and> beta_count m = 0 \<and> beta_size m > 1 \<and> beta_size m \<noteq> 17")
  case True
  note O = rete_okD [OF ok]
  have "matches_in (length (beta m)) (in_bucket A j sd) = []" using matches_bound(2) [OF ok m] True by simp
  then have "in_bucket A j sd i = []" for i
    using memory_okD(3) [OF O(2) m, of i] by (cases "i < length (beta m)") (auto simp: matches_in_def)
  then have empty: "in_bucket A j sd = (\<lambda>_. [])" by blast
  obtain J where J: "memories s j = Some J" "memory_of sd J = Some m" using m by (auto simp: memory_at_def)
  let ?m = "m\<lparr>beta_size := 17, beta := replicate 17 None, beta_last := map_option (\<lambda>_. replicate 17 None) (beta_last m)\<rparr>"
  let ?M = "(memories s)(j \<mapsto> put_memory sd ?m J)"
  have run: "shrink_memory j sd s = Some (s\<lparr>memories := ?M\<rparr>)"
    using True m J by (auto simp: shrink_memory_def ResetBetaMemory_def upd_memories_def Let_def)
  have m': "memory_at j sd (s\<lparr>memories := ?M\<rparr>) = Some ?m" "\<And>j' sd'. j' \<noteq> j \<or> sd' \<noteq> sd \<Longrightarrow> memory_at j' sd' (s\<lparr>memories := ?M\<rparr>) = memory_at j' sd' s"
    using J by (auto simp: memory_at_def)
  have keep: "node_key (s\<lparr>memories := ?M\<rparr>) = node_key s" by (rule node_key_rest) simp_all
  have bk: "bucket_ok (s\<lparr>memories := ?M\<rparr>) = bucket_ok s" by (intro ext) (simp add: bucket_ok_def stored_def keep)
  have mk: "memory_ok (s\<lparr>memories := ?M\<rparr>) = memory_ok s" by (intro ext) (simp add: memory_ok_def bk)
  have "memory_ok s j sd ?m (in_bucket A j sd)"
    using memory_okD(1) [OF O(2) m] True by (auto simp: memory_ok_def empty shape_ok_def bucket_ok_def split: option.splits)
  moreover have "case memory_at j' sd' s of None \<Rightarrow> \<forall>i. in_bucket A j' sd' i = [] | Some m \<Rightarrow> memory_ok s j' sd' m (in_bucket A j' sd')" for j' sd'
    using O(2) unfolding memories_ok_def by blast
  ultimately have "memories_ok (s\<lparr>memories := ?M\<rparr>) A"
    by (intro memories_okI [OF m'(1), where C = A]) (simp_all only: mk m'(2))
  then have "rete_ok (s\<lparr>memories := ?M\<rparr>) A" using O by (simp add: rete_ok_def tree_ok_def)
  then show ?thesis using run by blast
next
  case False
  then have "shrink_memory j sd s = Some s" using m by (auto simp: shrink_memory_def ResetBetaMemory_def)
  then show ?thesis using ok by (intro exI [of _ "memories s"]) simp
qed

section \<open>Lists of children from the pointers to the parents\<close>

lemma children_same:
  assumes "tree_ok s A" "tree_ok s' A'" "dom (pms s') = dom (pms s)"
  shows "right_of (rete_env s') = right_of (rete_env s) \<Longrightarrow> right_sibs A' = right_sibs A \<Longrightarrow> right_children s' A' = right_children s A"
    "left_of (rete_env s') = left_of (rete_env s) \<Longrightarrow> left_sibs A' = left_sibs A \<Longrightarrow> left_children s' A' = left_children s A"
    "blocker_of (rete_env s') = blocker_of (rete_env s) \<Longrightarrow> blocked_sibs A' = blocked_sibs A \<Longrightarrow> blocked_by s' A' = blocked_by s A"
proof -
  note T = tree_okD [OF assms(1)] and T' = tree_okD [OF assms(2), unfolded assms(3)]
  show "right_children s' A' = right_children s A" if "right_of (rete_env s') = right_of (rete_env s)" "right_sibs A' = right_sibs A"
    unfolding right_children_def by (rule ext, rule members_same [OF T(2) T'(2)]) (simp_all add: that)
  show "left_children s' A' = left_children s A" if "left_of (rete_env s') = left_of (rete_env s)" "left_sibs A' = left_sibs A"
    unfolding left_children_def by (rule ext, rule members_same [OF T(3) T'(3)]) (simp_all add: that)
  show "blocked_by s' A' = blocked_by s A" if "blocker_of (rete_env s') = blocker_of (rete_env s)" "blocked_sibs A' = blocked_sibs A"
    unfolding blocked_by_def by (rule ext, rule members_same [OF T(4) T'(4)]) (simp_all add: that)
qed

section \<open>Entering the network\<close>

definition solitary :: "rete \<Rightarrow> net_lists \<Rightarrow> addr \<Rightarrow> bool" where
  "solitary s A x \<longleftrightarrow> right_sibs A x = [x] \<and> left_sibs A x = [x] \<and> right_of (rete_env s) x = None \<and> left_of (rete_env s) x = None"

definition parent_ok :: "(pmNode \<Rightarrow> bool) \<Rightarrow> rete \<Rightarrow> addr \<Rightarrow> ptr \<Rightarrow> bool" where
  "parent_ok P s x p \<longleftrightarrow> (\<forall>a. p = Some a \<longrightarrow> a \<noteq> x \<and> (\<exists>N. pms s a = Some N \<and> P N))"

definition with_child :: "addr \<Rightarrow> ptr \<Rightarrow> (addr \<Rightarrow> addr list) \<Rightarrow> (addr \<Rightarrow> addr list)" where
  "with_child x p K = (case p of None \<Rightarrow> K | Some a \<Rightarrow> K(a := x # K a))"

lemma enter_right_case:
  assumes t: "tree_ok s A" and x: "x \<in> dom (pms s)" "right_sibs A x = [x]" "right_of (rete_env s) x = None" and p: "parent_ok right_side s x p"
  shows "\<exists>s' R. (case p of None \<Rightarrow> Some s | Some a \<Rightarrow> do { h \<leftarrow> link_right a x (pms s); set_rightParent x p (s\<lparr>pms := h\<rparr>) }) = Some s' \<and>
    tree_ok s' (A\<lparr>right_sibs := R\<rparr>) \<and> links_only s s' \<and> owners s' = ((right_of (rete_env s))(x := p), left_of (rete_env s), blocker_of (rete_env s)) \<and>
    right_children s' (A\<lparr>right_sibs := R\<rparr>) = with_child x p (right_children s A)"
proof (cases p)
  case None
  then show ?thesis using t x(3) by (intro exI [of _ s] exI [of _ "right_sibs A"]) (simp add: owners_def with_child_def fun_upd_idem)
next
  case (Some a)
  then obtain N where N: "pms s a = Some N" "right_side N" using p by (auto simp: parent_ok_def)
  let ?R = "sib_insert x (x # right_children s A a) (right_sibs A)"
  obtain s' where s': "(do { h \<leftarrow> link_right a x (pms s); set_rightParent x (Some a) (s\<lparr>pms := h\<rparr>) }) = Some s'"
      "tree_ok s' (A\<lparr>right_sibs := ?R\<rparr>)" "links_only s s'" "owners s' = ((right_of (rete_env s))(x := Some a), left_of (rete_env s), blocker_of (rete_env s))"
    using enter_right_ok [OF t x N] by blast
  note T' = tree_okD [OF s'(2), unfolded links_only_kept(4) [OF s'(3)]]
  have "right_children s' (A\<lparr>right_sibs := ?R\<rparr>) = (right_children s A)(a := x # right_children s A a)"
    using members_inserted [OF tree_okD(2) [OF t] x(1,3)] T'(2) s'(4) by (simp add: right_children_def owners_def)
  then show ?thesis using s' Some by (auto simp: with_child_def)
qed

lemma enter_left_case:
  assumes t: "tree_ok s A" and x: "x \<in> dom (pms s)" "left_sibs A x = [x]" "left_of (rete_env s) x = None" and p: "parent_ok left_side s x p"
  shows "\<exists>s' R. (case p of None \<Rightarrow> Some s | Some a \<Rightarrow> do { h \<leftarrow> link_left a x (pms s); set_leftParent x p (s\<lparr>pms := h\<rparr>) }) = Some s' \<and>
    tree_ok s' (A\<lparr>left_sibs := R\<rparr>) \<and> links_only s s' \<and> owners s' = (right_of (rete_env s), (left_of (rete_env s))(x := p), blocker_of (rete_env s)) \<and>
    left_children s' (A\<lparr>left_sibs := R\<rparr>) = with_child x p (left_children s A)"
proof (cases p)
  case None
  then show ?thesis using t x(3) by (intro exI [of _ s] exI [of _ "left_sibs A"]) (simp add: owners_def with_child_def fun_upd_idem)
next
  case (Some a)
  then obtain N where N: "pms s a = Some N" "left_side N" using p by (auto simp: parent_ok_def)
  let ?R = "sib_insert x (x # left_children s A a) (left_sibs A)"
  obtain s' where s': "(do { h \<leftarrow> link_left a x (pms s); set_leftParent x (Some a) (s\<lparr>pms := h\<rparr>) }) = Some s'"
      "tree_ok s' (A\<lparr>left_sibs := ?R\<rparr>)" "links_only s s'" "owners s' = (right_of (rete_env s), (left_of (rete_env s))(x := Some a), blocker_of (rete_env s))"
    using enter_left_ok [OF t x N] by blast
  note T' = tree_okD [OF s'(2), unfolded links_only_kept(4) [OF s'(3)]]
  have "left_children s' (A\<lparr>left_sibs := ?R\<rparr>) = (left_children s A)(a := x # left_children s A a)"
    using members_inserted [OF tree_okD(3) [OF t] x(1,3)] T'(3) s'(4) by (simp add: left_children_def owners_def)
  then show ?thesis using s' Some by (auto simp: with_child_def)
qed

lemma side_kept:
  assumes "links_only s s'" "\<And>n m. core_node n = core_node m \<Longrightarrow> P n = P m" "parent_ok P s x p"
  shows "parent_ok P s' x p"
  unfolding parent_ok_def
proof (intro allI impI)
  fix a assume "p = Some a"
  then obtain N where N: "a \<noteq> x" "pms s a = Some N" "P N" using assms(3) by (auto simp: parent_ok_def)
  obtain N' where "pms s' a = Some N'" "core_node N' = core_node N" using core_of [OF assms(1) N(2)] by blast
  then show "a \<noteq> x \<and> (\<exists>N. pms s' a = Some N \<and> P N)" using N assms(2) [of N' N] by auto
qed

lemma core_side: "core_node n = core_node m \<Longrightarrow> right_side n = right_side m" "core_node n = core_node m \<Longrightarrow> left_side n = left_side m"
  by (simp_all add: core_node_def right_side_def)

lemma rest_side: "memory_rest n = memory_rest m \<Longrightarrow> right_side n = right_side m"
  using right_side_rests(4) [of n] right_side_rests(4) [of m] by simp

lemma share_cong:
  assumes "pays_of memory_rest h' = pays_of memory_rest h"
  shows "share h' = share h"
proof -
  have "bucket_for h' k x = bucket_for h k x" for k x
  proof -
    have "map_option memory_rest (h' x) = map_option memory_rest (h x)" using fun_cong [OF assms, of x] by (simp add: pays_of_def)
    then show ?thesis by (cases "h x"; cases "h' x") (auto simp: bucket_for_def dest: memory_rest_eq)
  qed
  then show ?thesis by (simp add: share_def fun_eq_iff)
qed

lemma UpdateBetaPMLinks_ok:
  fixes hv :: u64
  assumes ok: "rete_ok s A" and m: "memory_at j sd s = Some m" and u: "unplaced s A x" and a: "solitary s A x"
    and r: "parent_ok right_side s x rhs" and l: "parent_ok left_side s x lhs"
  defines "B \<equiv> (in_bucket A j sd)(unat (hv mod beta_size m) := placed sd x (in_bucket A j sd (unat (hv mod beta_size m))))"
  shows "\<exists>s' A'. UpdateBetaPMLinks x lhs rhs j hv sd s = Some s' \<and> rete_ok s' A' \<and>
    owners s' = ((right_of (rete_env s))(x := rhs), (left_of (rete_env s))(x := lhs), blocker_of (rete_env s)) \<and>
    right_children s' A' = with_child x rhs (right_children s A) \<and> left_children s' A' = with_child x lhs (left_children s A) \<and>
    blocked_by s' A' = blocked_by s A \<and> (\<forall>j' sd'. j' \<noteq> j \<or> sd' \<noteq> sd \<longrightarrow> in_bucket A' j' sd' = in_bucket A j' sd') \<and>
    in_bucket A' j sd = (if BetaMemoryResizingFlag s \<and> beta_size m > 1 \<and> beta_count m + 1 > beta_size m * 11
      then share (pms s') (beta_size m * 11) (matches_in (length (beta m)) B) else B)"
proof -
  note O = rete_okD [OF ok]
  let ?i = "unat (hv mod beta_size m)"
  define A1 where "A1 = put_bucket j sd ?i (placed sd x (in_bucket A j sd ?i)) A"
  obtain s1 m1 where s1: "store_in_memory x j hv sd s = Some s1" "tree_ok s1 A" "memories_ok s1 A1" "dom (pms s1) = dom (pms s)"
      "right_of (rete_env s1) = right_of (rete_env s)" "left_of (rete_env s1) = left_of (rete_env s)"
      "\<forall>y. y \<noteq> x \<longrightarrow> map_option memory_rest (pms s1 y) = map_option memory_rest (pms s y)"
      "BetaMemoryResizingFlag s1 = BetaMemoryResizingFlag s" "memory_at j sd s1 = Some m1" "beta_size m1 = beta_size m"
      "beta_count m1 = beta_count m + 1" "length (beta m1) = length (beta m)" "blocker_of (rete_env s1) = blocker_of (rete_env s)"
    using store_ok [OF O(1,2) m u, of hv] unfolding A1_def by blast
  have x1: "x \<in> dom (pms s1)" "right_sibs A x = [x]" "right_of (rete_env s1) x = None"
    using u a s1(4,5) by (auto simp: unplaced_def solitary_def)
  have side: "\<exists>N'. pms s1 b = Some N' \<and> right_side N' = right_side N" if "b \<noteq> x" "pms s b = Some N" for b N
    using s1(7) that by (cases "pms s1 b") (auto dest!: rest_side)
  have r1: "parent_ok right_side s1 x rhs" and l1: "parent_ok left_side s1 x lhs" using r l side unfolding parent_ok_def by metis+
  obtain s2 R where s2: "(case rhs of None \<Rightarrow> Some s1 | Some a \<Rightarrow> do { h \<leftarrow> link_right a x (pms s1); set_rightParent x rhs (s1\<lparr>pms := h\<rparr>) }) = Some s2"
      "tree_ok s2 (A\<lparr>right_sibs := R\<rparr>)" "links_only s1 s2" "owners s2 = ((right_of (rete_env s1))(x := rhs), left_of (rete_env s1), blocker_of (rete_env s1))"
      "right_children s2 (A\<lparr>right_sibs := R\<rparr>) = with_child x rhs (right_children s1 A)"
    using enter_right_case [OF s1(2) x1 r1] by blast
  have x2: "x \<in> dom (pms s2)" "left_sibs (A\<lparr>right_sibs := R\<rparr>) x = [x]" "left_of (rete_env s2) x = None"
    using x1(1) links_only_kept(4) [OF s2(3)] a s2(4) s1(6) by (auto simp: solitary_def owners_def)
  obtain s3 L where s3: "(case lhs of None \<Rightarrow> Some s2 | Some a \<Rightarrow> do { h \<leftarrow> link_left a x (pms s2); set_leftParent x lhs (s2\<lparr>pms := h\<rparr>) }) = Some s3"
      "tree_ok s3 (A\<lparr>right_sibs := R, left_sibs := L\<rparr>)" "links_only s2 s3"
      "owners s3 = (right_of (rete_env s2), (left_of (rete_env s2))(x := lhs), blocker_of (rete_env s2))"
      "left_children s3 (A\<lparr>right_sibs := R, left_sibs := L\<rparr>) = with_child x lhs (left_children s2 (A\<lparr>right_sibs := R\<rparr>))"
    using enter_left_case [OF s2(2) x2 side_kept [OF s2(3) core_side(2) l1]] by auto
  have l3: "links_only s1 s3" by (rule links_only_trans [OF s2(3) s3(3)])
  note K = links_only_kept [OF l3]
  define A3 where "A3 = A1\<lparr>right_sibs := R, left_sibs := L\<rparr>"
  have t3: "tree_ok s3 A3" using s3(2) by (simp add: tree_ok_def A3_def A1_def)
  moreover have "memories_ok s3 A3" using s1(3) memories_ok_cong [OF K(1-3), of A3 A1] by (simp add: A3_def)
  ultimately have ok3: "rete_ok s3 A3" using O(3,4) K(4) s1(4) by (simp add: rete_ok_def)
  have m3: "memory_at j sd s3 = Some m1" using s1(9) K(1) by (simp add: memory_at_def)
  let ?A' = "if resizes s3 m1 then regrouped s3 j sd m1 A3 else A3"
  obtain s' where s': "grow_memory j sd s3 = Some s'" "rete_ok s' ?A'" "rete_env s' = rete_env s3" "pays_of memory_rest (pms s') = pays_of memory_rest (pms s3)"
    using grow_ok [OF ok3 m3] by blast
  have rz: "resizes s3 m1 \<longleftrightarrow> BetaMemoryResizingFlag s \<and> beta_size m > 1 \<and> beta_count m + 1 > beta_size m * 11"
    using K(6) s1(8,10,11) by (simp add: resizes_def)
  have run: "UpdateBetaPMLinks x lhs rhs j hv sd s = Some s'" unfolding UpdateBetaPMLinks_def using s1(1) s2(1) s3(1) s'(1) by simp
  have own: "owners s' = ((right_of (rete_env s))(x := rhs), (left_of (rete_env s))(x := lhs), blocker_of (rete_env s))"
    using s1(5,6,13) s2(4) s3(4) s'(3) by (simp add: owners_def)
  have d: "dom (pms s3) = dom (pms s')" using pays_of_dom_eq [OF s'(4)] by simp
  have sibs: "right_sibs ?A' = R" "left_sibs ?A' = L" "blocked_sibs ?A' = blocked_sibs A" by (simp_all add: regrouped_def A3_def A1_def)
  have t': "tree_ok s' ?A'" by (rule rete_okD(1) [OF s'(2)])
  have rc: "right_children s' ?A' = with_child x rhs (right_children s A)"
  proof -
    have "right_children s' ?A' = right_children s2 (A\<lparr>right_sibs := R\<rparr>)"
      using s'(3) s3(4) sibs d links_only_kept(4) [OF s3(3)] by (intro children_same(1) [OF s2(2) t']) (simp_all add: owners_def)
    moreover have "right_children s1 A = right_children s A" using s1(4,5) by (intro children_same(1) [OF O(1) s1(2)]) simp_all
    ultimately show ?thesis using s2(5) by simp
  qed
  have lc: "left_children s' ?A' = with_child x lhs (left_children s A)"
  proof -
    have "left_children s' ?A' = left_children s3 (A\<lparr>right_sibs := R, left_sibs := L\<rparr>)"
      using s'(3) sibs d by (intro children_same(2) [OF s3(2) t']) simp_all
    moreover have "left_children s2 (A\<lparr>right_sibs := R\<rparr>) = left_children s A"
      using s1(4,6) s2(4) links_only_kept(4) [OF s2(3)] by (intro children_same(2) [OF O(1) s2(2)]) (simp_all add: owners_def)
    ultimately show ?thesis using s3(5) by simp
  qed
  have bc: "blocked_by s' ?A' = blocked_by s A"
    using own sibs(3) d K(4) s1(4) by (intro children_same(3) [OF O(1) t']) (simp_all add: owners_def)
  have B1: "in_bucket A3 j sd = B" by (simp add: A3_def A1_def in_bucket_put B_def)
  have others: "in_bucket ?A' j' sd' = in_bucket A j' sd'" if "j' \<noteq> j \<or> sd' \<noteq> sd" for j' sd'
    using that by (auto simp: regrouped_def A3_def A1_def in_bucket_put)
  have here: "in_bucket ?A' j sd = (if resizes s3 m1 then share (pms s') (beta_size m * 11) (matches_in (length (beta m)) B) else B)"
    using B1 share_cong [OF s'(4)] s1(10,12) by (simp add: regrouped_def)
  show ?thesis
    by (intro exI [of _ s'] exI [of _ ?A']) (use run s'(2) own rc lc bc others here in \<open>simp add: rz\<close>)
qed

section \<open>Leaving the network\<close>

lemma out_of_memory:
  assumes ok: "memories_ok s A" and x: "x \<in> set (in_bucket A j sd i)"
  shows "\<not> in_memory (put_bucket j sd i (remove1 x (in_bucket A j sd i)) A) x"
proof -
  obtain m where m: "memory_at j sd s = Some m" "i < length (beta m)" using in_bucketD [OF ok x] by blast
  have "distinct (in_bucket A j sd i)" using bucket_okD(3) [OF memory_okD(2) [OF ok m]] .
  then show ?thesis using bucket_unique [OF ok x] by (auto simp: in_memory_def put_bucket_def)
qed

lemma memory_links_cleared:
  assumes t: "tree_ok s A" and ok: "memories_ok s A" and x: "pms s x = Some n" "\<not> in_memory A x"
  shows "tree_ok (s\<lparr>pms := (pms s)(x \<mapsto> n\<lparr>nextInMemory := None, prevInMemory := None\<rparr>)\<rparr>) A"
    "memories_ok (s\<lparr>pms := (pms s)(x \<mapsto> n\<lparr>nextInMemory := None, prevInMemory := None\<rparr>)\<rparr>) A"
proof -
  let ?h = "(pms s)(x \<mapsto> n\<lparr>nextInMemory := None, prevInMemory := None\<rparr>)"
  have p: "pays_of memory_rest ?h = pays_of memory_rest (pms s)" using x(1) by (auto simp: pays_of_def memory_rest_def fun_eq_iff)
  note F = memory_frame [OF p]
  show "tree_ok (s\<lparr>pms := ?h\<rparr>) A" using t F by (simp add: tree_ok_def)
  have "node_key (s\<lparr>pms := ?h\<rparr>) = node_key s" by (rule node_key_rest) (use p in simp_all)
  then show "memories_ok (s\<lparr>pms := ?h\<rparr>) A"
    using x(2) by (intro memories_ok_frame [OF ok]) (auto simp: links_of_def)
qed

lemma take_out_ok:
  assumes ok: "rete_ok s A" and x: "x \<in> set (in_bucket A j sd i)"
  defines "A' \<equiv> put_bucket j sd i (remove1 x (in_bucket A j sd i)) A"
  shows "\<exists>s' m n. (do { s1 \<leftarrow> remove_from_memory j x sd s; upd_pm (Some x) (\<lambda>n. n\<lparr>nextInMemory := None, prevInMemory := None\<rparr>) s1 }) = Some s' \<and>
    rete_ok s' A' \<and> \<not> in_memory A' x \<and> memory_at j sd s' = Some m \<and> rete_env s' = rete_env s \<and> GarbagePartialMatches s' = GarbagePartialMatches s \<and>
    pms s' x = Some n \<and> betaMemory n \<and> nextInMemory n = None \<and> prevInMemory n = None \<and>
    pays_of memory_rest (pms s') = pays_of memory_rest (pms s) \<and> (\<forall>y. \<not> in_memory A y \<longrightarrow> pms s' y = pms s y)"
proof -
  note O = rete_okD [OF ok]
  obtain m where m: "memory_at j sd s = Some m" "stored s j sd (beta_size m) i x" using in_bucketD [OF O(2) x] by blast
  obtain h M m1 where s1: "remove_from_memory j x sd s = Some (s\<lparr>pms := h, memories := M\<rparr>)" "tree_ok (s\<lparr>pms := h, memories := M\<rparr>) A"
      "memories_ok (s\<lparr>pms := h, memories := M\<rparr>) A'" "pays_of memory_rest h = pays_of memory_rest (pms s)"
      "\<forall>y. y \<notin> set (remove1 x (in_bucket A j sd i)) \<longrightarrow> h y = pms s y" "memory_at j sd (s\<lparr>pms := h, memories := M\<rparr>) = Some m1"
    using remove_ok [OF O(1,2) x m(1)] unfolding A'_def by blast
  obtain n where n: "pms s x = Some n" "betaMemory n" using m(2) by (auto simp: stored_def node_key_def split: option.splits)
  let ?s1 = "s\<lparr>pms := h, memories := M\<rparr>"
  have nx: "\<not> in_memory A' x" unfolding A'_def by (rule out_of_memory [OF O(2) x])
  have t1: "tree_ok ?s1 A'" using s1(2) by (simp add: tree_ok_def A'_def)
  have "x \<notin> set (remove1 x (in_bucket A j sd i))" using nx unfolding in_memory_def A'_def by (metis put_bucket_simps(4))
  then have hx: "pms ?s1 x = Some n" using n(1) s1(5) by simp
  let ?n = "n\<lparr>nextInMemory := None, prevInMemory := None\<rparr>"
  define s' where "s' = ?s1\<lparr>pms := h(x \<mapsto> ?n)\<rparr>"
  have c: "tree_ok s' A'" "memories_ok s' A'" using memory_links_cleared [OF t1 s1(3) hx nx] by (simp_all add: s'_def)
  have run: "(do { s1 \<leftarrow> remove_from_memory j x sd s; upd_pm (Some x) (\<lambda>n. n\<lparr>nextInMemory := None, prevInMemory := None\<rparr>) s1 }) = Some s'"
    using s1(1) hx by (simp add: upd_pm_def s'_def)
  have p: "pays_of memory_rest (pms s') = pays_of memory_rest (pms s)"
    using s1(4) n(1) by (auto simp: s'_def pays_of_def memory_rest_def fun_eq_iff)
  have "rete_ok s' A'" using c O(3,4) pays_of_dom_eq [OF p] by (simp add: rete_ok_def)
  moreover have "pms s' y = pms s y" if "\<not> in_memory A y" for y
  proof -
    have "y \<notin> set (in_bucket A j sd i)" using that by (auto simp: in_memory_def)
    then have "y \<noteq> x" "y \<notin> set (remove1 x (in_bucket A j sd i))" using x notin_set_remove1 by auto
    then show ?thesis using s1(5) by (simp add: s'_def)
  qed
  moreover have "memory_at j sd s' = Some m1" "rete_env s' = rete_env s" "GarbagePartialMatches s' = GarbagePartialMatches s" "pms s' x = Some ?n"
    using s1(6) by (simp_all add: s'_def memory_at_def)
  ultimately show ?thesis using run nx p n(2) by (intro exI [of _ s'] exI [of _ m1] exI [of _ ?n]) simp
qed

lemma lineage_children:
  assumes t: "tree_ok s A" "tree_ok s' (detached x A)" and x: "x \<in> dom (pms s)" and d: "dom (pms s') = dom (pms s)"
    and o: "owners s' = ((\<lambda>y. if y = x \<or> right_of (rete_env s) y = Some x then None else right_of (rete_env s) y),
        (\<lambda>y. if y = x \<or> left_of (rete_env s) y = Some x then None else left_of (rete_env s) y), (blocker_of (rete_env s))(x := None))"
  shows "right_children s' (detached x A) = (\<lambda>p. if p = x then [] else remove1 x (right_children s A p))"
    "left_children s' (detached x A) = (\<lambda>p. if p = x then [] else remove1 x (left_children s A p))"
    "blocked_by s' (detached x A) = (\<lambda>b. remove1 x (blocked_by s A b))"
proof -
  note T = tree_okD [OF t(1)] and T' = tree_okD [OF t(2), unfolded d]
  have par: "right_of (rete_env s') = (\<lambda>y. if y = x \<or> right_of (rete_env s) y = Some x then None else right_of (rete_env s) y)"
      "left_of (rete_env s') = (\<lambda>y. if y = x \<or> left_of (rete_env s) y = Some x then None else left_of (rete_env s) y)"
      "blocker_of (rete_env s') = (blocker_of (rete_env s))(x := None)" using o by (simp_all add: owners_def)
  show "right_children s' (detached x A) = (\<lambda>p. if p = x then [] else remove1 x (right_children s A p))"
    unfolding right_children_def using members_detached [OF T(2) x] T'(2) par(1) by simp
  show "left_children s' (detached x A) = (\<lambda>p. if p = x then [] else remove1 x (left_children s A p))"
    unfolding left_children_def using members_detached [OF T(3) x] T'(3) par(2) by simp
  show "blocked_by s' (detached x A) = (\<lambda>b. remove1 x (blocked_by s A b))"
  proof
    fix b
    have f: "family (dom (pms s)) (blocked_links (pms s')) (blocked_heads (pms s')) (blocker_of (rete_env s')) (sib_remove x (blocked_sibs A))"
      using T'(4) by simp
    show "blocked_by s' (detached x A) b = remove1 x (blocked_by s A b)"
      unfolding blocked_by_def using members_removed [OF T(4) x f, of b] par(3) by auto
  qed
qed

lemma children_env:
  assumes "tree_ok s A" "tree_ok s' A'" "dom (pms s') = dom (pms s)" "rete_env s' = rete_env s"
    "right_sibs A' = right_sibs A" "left_sibs A' = left_sibs A" "blocked_sibs A' = blocked_sibs A"
  shows "right_children s' A' = right_children s A" "left_children s' A' = left_children s A" "blocked_by s' A' = blocked_by s A"
  using children_same [OF assms(1-3)] assms(4-7) by simp_all

lemma UnlinkBetaPMFromNodeAndLineage_ok:
  assumes ok: "rete_ok s A" and x: "x \<in> set (in_bucket A j sd i)" and na: "no_activation s x"
  defines "A' \<equiv> detached x (put_bucket j sd i (remove1 x (in_bucket A j sd i)) A)"
  shows "\<exists>s'. UnlinkBetaPMFromNodeAndLineage j x sd s = Some s' \<and> rete_ok s' A' \<and> unplaced s' A' x \<and> solitary s' A' x \<and>
    right_children s' A' = (\<lambda>p. if p = x then [] else remove1 x (right_children s A p)) \<and>
    left_children s' A' = (\<lambda>p. if p = x then [] else remove1 x (left_children s A p)) \<and>
    blocked_by s' A' = (\<lambda>b. remove1 x (blocked_by s A b)) \<and> blocked_sibs A' x = [x] \<and>
    owners s' = ((\<lambda>y. if y = x \<or> right_of (rete_env s) y = Some x then None else right_of (rete_env s) y),
        (\<lambda>y. if y = x \<or> left_of (rete_env s) y = Some x then None else left_of (rete_env s) y), (blocker_of (rete_env s))(x := None)) \<and>
    pays_of core_row (rows s') = pays_of core_row (rows s) \<and> (\<exists>M. rete_env s' = (rete_env s)\<lparr>matches := M\<rparr>) \<and>
    GarbagePartialMatches s' = GarbagePartialMatches s \<and> (\<forall>y. \<not> in_memory A y \<longrightarrow> map_option core_node (pms s' y) = map_option core_node (pms s y))"
proof -
  define A1 where "A1 = put_bucket j sd i (remove1 x (in_bucket A j sd i)) A"
  obtain s2 m1 n where s2: "(do { s1 \<leftarrow> remove_from_memory j x sd s; upd_pm (Some x) (\<lambda>n. n\<lparr>nextInMemory := None, prevInMemory := None\<rparr>) s1 }) = Some s2"
      "rete_ok s2 A1" "\<not> in_memory A1 x" "memory_at j sd s2 = Some m1" "rete_env s2 = rete_env s" "GarbagePartialMatches s2 = GarbagePartialMatches s"
      "pms s2 x = Some n" "betaMemory n" "nextInMemory n = None" "prevInMemory n = None" "pays_of memory_rest (pms s2) = pays_of memory_rest (pms s)"
      "\<forall>y. \<not> in_memory A y \<longrightarrow> pms s2 y = pms s y"
    using take_out_ok [OF ok x] unfolding A1_def by blast
  note O = rete_okD [OF s2(2)] and d2 = pays_of_dom_eq [OF s2(11)]
  have na2: "no_activation s2 x" using na s2(5) by (simp add: no_activation_def)
  have bt: "betaMemory n \<or> children n = None" using s2(8) by simp
  obtain s3 where s3: "UnlinkBetaPartialMatchfromAlphaAndBetaLineage x s2 = Some s3" "tree_ok s3 (detached x A1)" "links_only s2 s3"
      "map_option children (pms s3 x) = Some None" "map_option marker (rows s3 x) = Some None"
      "owners s3 = ((\<lambda>y. if y = x \<or> right_of (rete_env s2) y = Some x then None else right_of (rete_env s2) y),
        (\<lambda>y. if y = x \<or> left_of (rete_env s2) y = Some x then None else left_of (rete_env s2) y), (blocker_of (rete_env s2))(x := None))"
    using lineage_ok [OF O(1) s2(7) bt na2] by blast
  note K = links_only_kept [OF s3(3)]
  have ok3: "rete_ok s3 (detached x A1)"
    using s3(2) O(2) memories_ok_cong [OF K(1-3), of "detached x A1" A1] K(4) O(3,4) by (simp add: rete_ok_def)
  have m3: "memory_at j sd s3 = Some m1" using s2(4) K(1) by (simp add: memory_at_def)
  obtain M' where M': "shrink_memory j sd s3 = Some (s3\<lparr>memories := M'\<rparr>)" "rete_ok (s3\<lparr>memories := M'\<rparr>) (detached x A1)"
    using shrink_ok [OF ok3 m3] by blast
  define s' where "s' = s3\<lparr>memories := M'\<rparr>"
  have e: "rete_env s' = rete_env s3" "pms s' = pms s3" "GarbagePartialMatches s' = GarbagePartialMatches s3" by (simp_all add: s'_def)
  have run: "UnlinkBetaPMFromNodeAndLineage j x sd s = Some s'"
    using s2(1) s3(1) M'(1) by (auto simp: UnlinkBetaPMFromNodeAndLineage_def s'_def Option.bind_eq_Some_conv)
  have xd: "x \<in> dom (pms s2)" using s2(7) by blast
  have o: "owners s' = ((\<lambda>y. if y = x \<or> right_of (rete_env s2) y = Some x then None else right_of (rete_env s2) y),
        (\<lambda>y. if y = x \<or> left_of (rete_env s2) y = Some x then None else left_of (rete_env s2) y), (blocker_of (rete_env s2))(x := None))"
    using s3(6) e(1) by (simp add: owners_def)
  have d': "dom (pms s') = dom (pms s2)" using K(4) e(2) by simp
  note E = children_env [OF rete_okD(1) [OF ok] O(1) d2 s2(5), unfolded A1_def put_bucket_simps, OF refl refl refl, folded A1_def]
  note C = lineage_children [OF O(1) rete_okD(1) [OF M'(2)[folded s'_def]] xd d' o, unfolded E]
  have n3: "map_option core_node (pms s' y) = map_option core_node (pms s2 y)" for y using fun_cong [OF K(9), of y] e(2) by (simp add: pays_of_def)
  obtain n' where n': "pms s' x = Some n'" "core_node n' = core_node n" using n3 [of x] s2(7) by auto
  obtain r' where r': "rows s' x = Some r'" "marker r' = None" using s3(5) e(1) by auto
  have "unplaced s' (detached x A1) x"
    using s2(3,8-10) n' r' s3(4) e(2) by (auto simp: unplaced_def in_memory_def core_node_def)
  moreover have "solitary s' (detached x A1) x" using o by (simp add: solitary_def sib_remove_def owners_def)
  moreover have "pays_of core_row (rows s') = pays_of core_row (rows s)" using K(10) s2(5) e(1) by simp
  moreover have "\<exists>M. rete_env s' = (rete_env s)\<lparr>matches := M\<rparr>" using s3(3) s2(5) e(1) by (auto simp: links_only_def)
  ultimately show ?thesis unfolding A'_def A1_def [symmetric]
    using run M'(2) C o [unfolded s2(5)] K(7) s2(6,12) e(3) n3 by (intro exI [of _ s']) (simp add: sib_remove_def s'_def [symmetric])
qed

end
