(* ===== verification/Rete_Free.thy ===== *)
theory Rete_Free
  imports Rete_Network
begin

text \<open>
  Freeing partial matches: directly, or through the list of garbage matches when a match is in use by a rule that is
  firing.
\<close>

section \<open>Freeing one match\<close>

text \<open>Nothing in the network refers to the match.\<close>

definition removable :: "rete \<Rightarrow> net_lists \<Rightarrow> addr \<Rightarrow> bool" where
  "removable s A x \<longleftrightarrow> \<not> in_memory A x \<and> right_sibs A x = [x] \<and> left_sibs A x = [x] \<and> blocked_sibs A x = [x] \<and>
     right_of (rete_env s) x = None \<and> left_of (rete_env s) x = None \<and> blocker_of (rete_env s) x = None \<and>
     (\<exists>n r. pms s x = Some n \<and> rows s x = Some r \<and> children n = None \<and> blockList n = None \<and> owns_alpha n r)"

lemma free_ok:
  assumes ok: "rete_ok s A" and x: "removable s A x"
  shows "rete_ok (free_match x s) A"
proof -
  note O = rete_okD [OF ok] and T = tree_okD [OF rete_okD(1) [OF ok]]
  obtain n r where n: "pms s x = Some n" "rows s x = Some r" "children n = None" "blockList n = None"
      "\<not> in_memory A x" "right_sibs A x = [x]" "left_sibs A x = [x]" "blocked_sibs A x = [x]" "right_of (rete_env s) x = None" "left_of (rete_env s) x = None" "blocker_of (rete_env s) x = None"
    using x by (auto simp: removable_def)
  let ?s = "free_match x s"
  have xd: "x \<in> dom (pms s)" using n(1) by blast
  have d: "dom (pms ?s) = dom (pms s) - {x}" "dom (rows ?s) = dom (pms s) - {x}" using T(1) by (simp_all add: free_match_def)
  have l: "links_of prv nxt (pms ?s) y = links_of prv nxt (pms s) y" if "y \<noteq> x" for y prv nxt
    using that by (simp add: free_match_def links_of_def)
  have h: "right_heads (pms ?s) = right_heads (pms s)" "left_heads (pms ?s) = left_heads (pms s)" "blocked_heads (pms ?s) = blocked_heads (pms s)"
    using n by (auto simp: free_match_def heads_def fun_eq_iff)
  have p: "right_of (rete_env ?s) y = right_of (rete_env s) y" "left_of (rete_env ?s) y = left_of (rete_env s) y"
      "blocker_of (rete_env ?s) y = blocker_of (rete_env s) y" if "y \<noteq> x" for y
    using that by (auto simp: free_match_def right_of_def left_of_def blocker_of_def split: option.split)
  have "tree_ok ?s A"
    unfolding tree_ok_def d
    using family_free [OF T(2) xd n(6,9) l p(1) h(1)] family_free [OF T(3) xd n(7,10) l p(2) h(2)] family_free [OF T(4) xd n(8,11) l p(3) h(3)] by simp
  moreover have "memories_ok ?s A"
  proof (rule memories_ok_frame [OF O(2)])
    show "memory_links (pms ?s) y = memory_links (pms s) y \<and> node_key ?s y = node_key s y" if "in_memory A y" for y
      using that n(5) by (cases "y = x") (auto simp: free_match_def links_of_def node_key_def split: option.split)
  qed (simp_all add: free_match_def)
  moreover have "card (dom (pms ?s)) \<le> card (dom (pms s))" unfolding d by (rule card_mono [OF O(3)]) blast
  ultimately show ?thesis using O(3,4) d(1) by (simp add: rete_ok_def)
qed

text \<open>The invariant does not depend on the support links.\<close>

lemma env_kept_ok:
  assumes ok: "rete_ok s A" and M: "map_option (pm_dependents_update (\<lambda>_. [])) \<circ> matches e = map_option (pm_dependents_update (\<lambda>_. [])) \<circ> rows s"
    and j: "joins e = joins (rete_env s)"
  shows "rete_ok (s\<lparr>rete_env := e\<rparr>) A" "owners (s\<lparr>rete_env := e\<rparr>) = owners s" "node_key (s\<lparr>rete_env := e\<rparr>) = node_key s"
proof -
  have row: "map_option (pm_dependents_update (\<lambda>_. [])) (matches e y) = map_option (pm_dependents_update (\<lambda>_. [])) (rows s y)" for y
    using fun_cong [OF M, of y] by simp
  have eq: "rightParent r = rightParent r' \<and> leftParent r = leftParent r' \<and> marker r = marker r' \<and> match_owner r = match_owner r'"
    if "r\<lparr>pm_dependents := []\<rparr> = r'\<lparr>pm_dependents := []\<rparr>" for r r' :: partialMatch
    using that by (cases r; cases r') simp
  have a: "activates e = activates (rete_env s)" using j by (simp add: activates_def fun_eq_iff)
  have p: "right_of e y = right_of (rete_env s) y" "left_of e y = left_of (rete_env s) y" "blocker_of e y = blocker_of (rete_env s) y"
      "(matches e y = None) = (rows s y = None)" "node_key (s\<lparr>rete_env := e\<rparr>) y = node_key s y" for y
    using row [of y] a by (cases "matches e y"; cases "rows s y"; auto simp: right_of_def left_of_def blocker_of_def node_key_def dest!: eq split: option.split)+
  have q: "right_of e = right_of (rete_env s)" "left_of e = left_of (rete_env s)" "blocker_of e = blocker_of (rete_env s)"
    by (rule ext, rule p)+
  then show o: "owners (s\<lparr>rete_env := e\<rparr>) = owners s" by (simp add: owners_def)
  show k: "node_key (s\<lparr>rete_env := e\<rparr>) = node_key s" by (rule ext, rule p(5))
  have "dom (matches e) = dom (rows s)" using p(4) by (simp add: set_eq_iff domIff del: not_None_eq)
  then have "tree_ok (s\<lparr>rete_env := e\<rparr>) A" using rete_okD(1) [OF ok] o by (simp add: tree_ok_def owners_def)
  moreover have "memories_ok (s\<lparr>rete_env := e\<rparr>) A" by (rule memories_ok_frame [OF rete_okD(2) [OF ok]]) (simp_all add: k)
  ultimately show "rete_ok (s\<lparr>rete_env := e\<rparr>) A" using rete_okD(3,4) [OF ok] by (simp add: rete_ok_def)
qed

section \<open>Returning matches\<close>

text \<open>Before the support links of the match are removed, and after.\<close>

lemma cut_match_rows: "map_option (pm_dependents_update (\<lambda>_. [])) \<circ> matches (cut_match b e) = map_option (pm_dependents_update (\<lambda>_. [])) \<circ> matches e"
  "joins (cut_match b e) = joins e"
  by (auto simp: cut_match_def fun_eq_iff option.map_comp comp_def)

lemma removable_env:
  assumes "removable s A x" "owners (s\<lparr>rete_env := e\<rparr>) = owners s" "rows s x = Some r" "matches e x = Some r'" "binds r' = binds r"
  shows "removable (s\<lparr>rete_env := e\<rparr>) A x"
  using assms by (auto simp: removable_def owners_def owns_alpha_def)

lemma free_mirrored: "\<lbrakk>mirrored (rete_env s); supported_by (rete_env s) x = []\<rbrakk> \<Longrightarrow> mirrored (rete_env (free_match x s))"
  by (rule mirrored_cong [THEN iffD2, rotated 2])
     (auto simp: free_match_def supported_by_def support_def split: option.splits)

definition return_state :: "addr \<Rightarrow> rete \<Rightarrow> rete" where
  "return_state x s = free_match x (s\<lparr>rete_env := cut_match x (rete_env s)\<rparr>)"

lemma ReturnPartialMatch_free:
  assumes ok: "rete_ok s A" and mr: "mirrored (rete_env s)" and x: "removable s A x" and b: "map_option busy (rows s x) = Some False"
  shows "ReturnPartialMatch x s = Some (return_state x s)" "rete_ok (return_state x s) A" "mirrored (rete_env (return_state x s))"
proof -
  obtain n r where n: "pms s x = Some n" "rows s x = Some r" "owns_alpha n r" using x by (auto simp: removable_def)
  let ?e = "cut_match x (rete_env s)"
  have c: "(if pm_dependents r = [] then Some (rete_env s) else RemovePMDependencies x (rete_env s)) = Some ?e"
  proof (cases "pm_dependents r = []")
    case True
    then have z: "supported_by (rete_env s) x = []" using n(2) by (simp add: support_simps)
    have "map_option (without_match x) (entities (rete_env s) y) = entities (rete_env s) y" for y
      using mirrored_in [OF mr, of y x] z by (cases "entities (rete_env s) y") (simp_all add: support_def)
    then have "entities ?e = entities (rete_env s)" by (simp add: cut_match_def)
    moreover have "matches ?e = rows s" using n(2) True by (auto simp: cut_match_def fun_eq_iff)
    ultimately have "?e = rete_env s" by (simp add: cut_match_def)
    then show ?thesis using True by simp
  qed (use RemovePMDependencies_eq [OF mr, of x] n(2) in simp)
  show run: "ReturnPartialMatch x s = Some (return_state x s)"
    using n c b by (simp add: ReturnPartialMatch_def return_state_def)
  note E = env_kept_ok [OF ok cut_match_rows [of x "rete_env s"]]
  have r': "matches ?e x = Some (r\<lparr>pm_dependents := []\<rparr>)" using n(2) by (simp add: cut_match_def)
  have "removable (s\<lparr>rete_env := ?e\<rparr>) A x" by (rule removable_env [OF x E(2) n(2) r']) simp
  then show "rete_ok (return_state x s) A" unfolding return_state_def by (rule free_ok [OF E(1)])
  have "supported_by ?e x = []" by (simp add: support_cut)
  then show "mirrored (rete_env (return_state x s))"
    unfolding return_state_def using cut_mirrored(2) [OF mr, of x] by (intro free_mirrored) simp_all
qed

text \<open>A match in use goes to the front of the garbage list.\<close>

lemma set_next_ok:
  assumes ok: "rete_ok s A" and x: "pms s x = Some n" "\<not> in_memory A x"
  shows "rete_ok (s\<lparr>pms := (pms s)(x \<mapsto> set_nextIn q n), GarbagePartialMatches := g\<rparr>) A"
proof -
  note O = rete_okD [OF ok]
  let ?h = "(pms s)(x \<mapsto> set_nextIn q n)" and ?s = "s\<lparr>pms := (pms s)(x \<mapsto> set_nextIn q n), GarbagePartialMatches := g\<rparr>"
  have p: "pays_of memory_rest ?h = pays_of memory_rest (pms s)" using x(1) by (auto simp: pays_of_def memory_rest_def fun_eq_iff)
  note F = memory_frame [OF p]
  have "tree_ok ?s A" using O(1) F by (simp add: tree_ok_def)
  moreover have "node_key ?s = node_key s" by (rule node_key_rest) (use p in simp_all)
  then have "memories_ok ?s A" using x(2) by (intro memories_ok_frame [OF O(2)]) (auto simp: links_of_def)
  ultimately show ?thesis using O(3,4) F(7) by (simp add: rete_ok_def)
qed

fun garbage_matches :: "(addr \<rightharpoonup> pmNode) \<Rightarrow> addr list \<Rightarrow> bool" where
  "garbage_matches h [] = True"
| "garbage_matches h (x # xs) = (map_option nextInMemory (h x) = Some (hdp xs None) \<and> garbage_matches h xs)"

lemma garbage_matches_cong: "(\<And>x. x \<in> set xs \<Longrightarrow> h' x = h x) \<Longrightarrow> garbage_matches h' xs = garbage_matches h xs"
  by (induction xs) auto

lemma garbage_matches_next:
  "(\<And>x. x \<in> set xs \<Longrightarrow> map_option nextInMemory (h' x) = map_option nextInMemory (h x)) \<Longrightarrow> garbage_matches h' xs = garbage_matches h xs"
  by (induction xs) auto

definition garbage_ok :: "rete \<Rightarrow> net_lists \<Rightarrow> addr list \<Rightarrow> bool" where
  "garbage_ok s A gs \<longleftrightarrow> distinct gs \<and> GarbagePartialMatches s = hdp gs None \<and> garbage_matches (pms s) gs \<and> (\<forall>x\<in>set gs. removable s A x)"

lemma ReturnPartialMatch_busy:
  assumes ok: "rete_ok s A" and x: "removable s A x" and b: "map_option busy (rows s x) = Some True" and g: "garbage_ok s A gs" "x \<notin> set gs"
  shows "\<exists>s'. ReturnPartialMatch x s = Some s' \<and> rete_ok s' A \<and> garbage_ok s' A (x # gs) \<and> rete_env s' = rete_env s \<and> dom (pms s') = dom (pms s)"
proof -
  obtain n r where n: "pms s x = Some n" "rows s x = Some r" "\<not> in_memory A x" using x by (auto simp: removable_def)
  let ?s = "s\<lparr>pms := (pms s)(x \<mapsto> set_nextIn (GarbagePartialMatches s) n), GarbagePartialMatches := Some x\<rparr>"
  have run: "ReturnPartialMatch x s = Some ?s" using n b by (simp add: ReturnPartialMatch_def upd_pm_def)
  have ok': "rete_ok ?s A" by (rule set_next_ok [OF ok n(1,3)])
  have r: "removable ?s A y" if "removable s A y" for y using that n(1) by (auto simp: removable_def owns_alpha_def)
  have "garbage_matches (pms ?s) gs = garbage_matches (pms s) gs" using g(2) by (intro garbage_matches_cong) auto
  then have "garbage_ok ?s A (x # gs)" using g r x by (auto simp: garbage_ok_def)
  then show ?thesis using run ok' n(1) by (intro exI [of _ ?s]) (auto simp: insert_absorb)
qed

section \<open>Emptying the garbage list\<close>

lemma return_state_simps [simp]:
  "pms (return_state x s) = (pms s)(x := None)" "GarbagePartialMatches (return_state x s) = GarbagePartialMatches s"
  "engineD (rete_env (return_state x s)) = engineD (rete_env s)" "memories (return_state x s) = memories s"
  by (simp_all add: return_state_def free_match_def cut_match_def)

lemma return_state_row: "y \<noteq> x \<Longrightarrow> rows (return_state x s) y = rows s y"
  by (simp add: return_state_def free_match_def cut_match_def)

lemma removable_kept:
  assumes "removable s A y" "y \<noteq> x"
  shows "removable (return_state x s) A y"
  using assms return_state_row [OF assms(2)]
  by (auto simp: removable_def right_of_def left_of_def blocker_of_def activates_def return_state_def free_match_def cut_match_def)

lemma not_busy:
  assumes ok: "rete_ok s A" and mr: "mirrored (rete_env s)" and r: "rows s x = Some r"
  shows "upd_row (Some x) (\<lambda>r. r\<lparr>busy := False\<rparr>) s = Some (s\<lparr>rete_env := (rete_env s)\<lparr>matches := (rows s)(x \<mapsto> r\<lparr>busy := False\<rparr>)\<rparr>\<rparr>)"
    "rete_ok (s\<lparr>rete_env := (rete_env s)\<lparr>matches := (rows s)(x \<mapsto> r\<lparr>busy := False\<rparr>)\<rparr>\<rparr>) A"
    "mirrored ((rete_env s)\<lparr>matches := (rows s)(x \<mapsto> r\<lparr>busy := False\<rparr>)\<rparr>)"
    "\<And>y. removable s A y \<Longrightarrow> removable (s\<lparr>rete_env := (rete_env s)\<lparr>matches := (rows s)(x \<mapsto> r\<lparr>busy := False\<rparr>)\<rparr>\<rparr>) A y"
proof -
  let ?e = "(rete_env s)\<lparr>matches := (rows s)(x \<mapsto> r\<lparr>busy := False\<rparr>)\<rparr>"
  note O = rete_okD [OF ok]
  have q: "right_of ?e = right_of (rete_env s)" "left_of ?e = left_of (rete_env s)" "blocker_of ?e = blocker_of (rete_env s)"
      "dom (matches ?e) = dom (rows s)" "node_key (s\<lparr>rete_env := ?e\<rparr>) = node_key s"
    using r by (auto simp: right_of_def left_of_def blocker_of_def node_key_def fun_eq_iff split: option.split)
  show "upd_row (Some x) (\<lambda>r. r\<lparr>busy := False\<rparr>) s = Some (s\<lparr>rete_env := ?e\<rparr>)" using r by (simp add: upd_row_def upd_match_def)
  have "tree_ok (s\<lparr>rete_env := ?e\<rparr>) A" using O(1) q by (simp add: tree_ok_def)
  moreover have "memories_ok (s\<lparr>rete_env := ?e\<rparr>) A" by (rule memories_ok_frame [OF O(2)]) (simp_all add: q(5))
  ultimately show "rete_ok (s\<lparr>rete_env := ?e\<rparr>) A" using O(3,4) by (simp add: rete_ok_def)
  have "supported_by ?e b = supported_by (rete_env s) b" "support ?e y = support (rete_env s) y" for b y
    using r by (auto simp: supported_by_def support_def)
  then show "mirrored ?e" using mr by (simp add: mirrored_def)
  show "removable (s\<lparr>rete_env := ?e\<rparr>) A y" if "removable s A y" for y
    using that q r by (auto simp: removable_def owns_alpha_def)
qed

lemma rete_ok_garbage:
  assumes "rete_ok s A"
  shows "rete_ok (s\<lparr>GarbagePartialMatches := g\<rparr>) A"
proof -
  have "node_key (s\<lparr>GarbagePartialMatches := g\<rparr>) = node_key s" by (rule node_key_rest) simp_all
  then have "memories_ok (s\<lparr>GarbagePartialMatches := g\<rparr>) A"
    by (intro memories_ok_frame [OF rete_okD(2) [OF assms]]) simp_all
  then show ?thesis using rete_okD [OF assms] by (simp add: rete_ok_def tree_ok_def)
qed

lemma FlushGarbagePartialMatches_ok:
  assumes "rete_ok s A" "mirrored (rete_env s)" "garbage_ok s A gs"
  shows "\<exists>s'. FlushGarbagePartialMatches s = Some s' \<and> rete_ok s' A \<and> mirrored (rete_env s') \<and> GarbagePartialMatches s' = None \<and>
    dom (pms s') = dom (pms s) - set gs \<and> (\<forall>y. y \<notin> set gs \<longrightarrow> pms s' y = pms s y \<and> rows s' y = rows s y) \<and>
    engineD (rete_env s') = engineD (rete_env s) \<and> memories s' = memories s"
  using assms
proof (induction gs arbitrary: s)
  case Nil
  then show ?case by (subst FlushGarbagePartialMatches.simps) (auto simp: garbage_ok_def)
next
  case (Cons x gs)
  obtain n r where n: "pms s x = Some n" "rows s x = Some r" "nextInMemory n = hdp gs None" and x: "removable s A x" "x \<notin> set gs"
    using Cons.prems(3) by (auto simp: garbage_ok_def removable_def)
  let ?s1 = "s\<lparr>rete_env := (rete_env s)\<lparr>matches := (rows s)(x \<mapsto> r\<lparr>busy := False\<rparr>)\<rparr>\<rparr>"
  note B = not_busy [OF Cons.prems(1,2) n(2)]
  have b: "map_option busy (rows ?s1 x) = Some False" by simp
  have m1: "mirrored (rete_env ?s1)" using B(3) by simp
  note R = ReturnPartialMatch_free [OF B(2) m1 B(4) [OF x(1)] b]
  let ?s2 = "(return_state x ?s1)\<lparr>GarbagePartialMatches := hdp gs None\<rparr>"
  have ok2: "rete_ok ?s2 A" using R(2) by (rule rete_ok_garbage)
  have g2: "garbage_ok ?s2 A gs"
  proof -
    have "garbage_matches (pms ?s2) gs = garbage_matches (pms s) gs" using x(2) by (intro garbage_matches_cong) auto
    moreover have "removable ?s2 A y" if "y \<in> set gs" for y
    proof -
      have "removable s A y" "y \<noteq> x" using Cons.prems(3) that x(2) by (auto simp: garbage_ok_def)
      then have "removable (return_state x ?s1) A y" using removable_kept B(4) by blast
      then show ?thesis by (simp add: removable_def)
    qed
    ultimately show ?thesis using Cons.prems(3) by (auto simp: garbage_ok_def)
  qed
  have m2: "mirrored (rete_env ?s2)" using R(3) by simp
  obtain s' where s': "FlushGarbagePartialMatches ?s2 = Some s'" "rete_ok s' A" "mirrored (rete_env s')" "GarbagePartialMatches s' = None"
      "dom (pms s') = dom (pms ?s2) - set gs" "\<forall>y. y \<notin> set gs \<longrightarrow> pms s' y = pms ?s2 y \<and> rows s' y = rows ?s2 y"
      "engineD (rete_env s') = engineD (rete_env ?s2)" "memories s' = memories ?s2"
    using Cons.IH [OF ok2 m2 g2] by blast
  have "GarbagePartialMatches s = Some x" using Cons.prems(3) by (simp add: garbage_ok_def)
  then have run: "FlushGarbagePartialMatches s = Some s'"
    using n B(1) R(1) s'(1) by (subst FlushGarbagePartialMatches.simps) simp
  moreover have "rows ?s2 y = rows s y" if "y \<noteq> x" for y using return_state_row [OF that, of ?s1] that by simp
  ultimately show ?case using s' by (intro exI [of _ s']) auto
qed

section \<open>Deleting a match\<close>

lemma drop_match_rows:
  "map_option (pm_dependents_update (\<lambda>_. [])) \<circ> matches (drop_match b e) = map_option (pm_dependents_update (\<lambda>_. [])) \<circ> matches e"
  "joins (drop_match b e) = joins e" "matches (drop_match b e) = (matches e)(b := map_option (pm_dependents_update (\<lambda>_. [])) (matches e b))"
  by (auto simp: drop_match_def enqueue_unsupported_def set_engineD_def fun_eq_iff option.map_comp comp_def)

text \<open>
  The support of the match is withdrawn, which queues the facts without other support; then the match is freed, or
  kept for later when it is in use.
\<close>

lemma DeletePartialMatches_ok:
  assumes ok: "rete_ok s A" and mr: "mirrored (rete_env s)" and x: "removable s A x" and n: "map_option nextInMemory (pms s x) = Some None"
    and g: "garbage_ok s A gs" "x \<notin> set gs"
  shows "\<exists>s' gs'. DeletePartialMatches (Some x) s = Some s' \<and> rete_ok s' A \<and> mirrored (rete_env s') \<and> garbage_ok s' A gs' \<and>
    engineD (rete_env s') = engineD (drop_match x (rete_env s)) \<and>
    (if map_option busy (rows s x) = Some True then gs' = x # gs \<and> dom (pms s') = dom (pms s) else gs' = gs \<and> dom (pms s') = dom (pms s) - {x})"
proof -
  obtain n' r where r: "pms s x = Some n'" "rows s x = Some r" "nextInMemory n' = None" using x n by (auto simp: removable_def)
  let ?e = "drop_match x (rete_env s)" and ?s1 = "s\<lparr>rete_env := drop_match x (rete_env s)\<rparr>"
  have e: "RemoveLogicalSupport x (rete_env s) = Some ?e" using RemoveLogicalSupport_eq [OF mr] r(2) by simp
  have step: "(if pm_dependents r = [] then Some (rete_env s) else RemoveLogicalSupport x (rete_env s)) = Some ?e"
    using e r(2) by (auto simp: RemoveLogicalSupport_def)
  note E = env_kept_ok [OF ok drop_match_rows(1,2) [of x "rete_env s"]]
  have rm: "removable ?s1 A y" if y0: "removable s A y" for y
  proof -
    obtain ry where ry: "rows s y = Some ry" using y0 by (auto simp: removable_def)
    have "\<exists>r'. matches ?e y = Some r' \<and> binds r' = binds ry" using ry by (auto simp: drop_match_rows(3))
    then show ?thesis using removable_env [OF y0 E(2) ry] by blast
  qed
  have mr1: "mirrored (rete_env ?s1)" using drop_mirrored [OF mr] by simp
  have g1: "garbage_ok ?s1 A gs" using g(1) rm by (simp add: garbage_ok_def)
  have b1: "map_option busy (rows ?s1 x) = map_option busy (rows s x)" using r(2) by (simp add: drop_match_rows(3))
  have nil: "DeletePartialMatches None = Some" by (rule ext) (simp add: DeletePartialMatches.simps)
  have run: "DeletePartialMatches (Some x) s = ReturnPartialMatch x ?s1"
    using r step by (subst DeletePartialMatches.simps) (simp add: nil)
  show ?thesis
  proof (cases "busy r")
    case True
    then have b: "map_option busy (rows ?s1 x) = Some True" using b1 r(2) by simp
    obtain s' where s': "ReturnPartialMatch x ?s1 = Some s'" "rete_ok s' A" "garbage_ok s' A (x # gs)" "rete_env s' = ?e" "dom (pms s') = dom (pms s)"
      using ReturnPartialMatch_busy [OF E(1) rm [OF x] b g1 g(2)] by auto
    then show ?thesis using run True r(2) mr1 by (intro exI [of _ s'] exI [of _ "x # gs"]) simp
  next
    case False
    then have b: "map_option busy (rows ?s1 x) = Some False" using b1 r(2) by simp
    note R = ReturnPartialMatch_free [OF E(1) mr1 rm [OF x] b]
    have "garbage_ok (return_state x ?s1) A gs"
    proof -
      have "garbage_matches (pms (return_state x ?s1)) gs = garbage_matches (pms s) gs" using g(2) by (intro garbage_matches_cong) auto
      moreover have "removable (return_state x ?s1) A y" if "y \<in> set gs" for y
        using that g g1 removable_kept [of ?s1 A y x] by (auto simp: garbage_ok_def)
      ultimately show ?thesis using g1 by (simp add: garbage_ok_def)
    qed
    then show ?thesis using run R False r(2) by (intro exI [of _ "return_state x ?s1"] exI [of _ gs]) auto
  qed
qed

text \<open>Unlinking and deleting, as the retraction of a match does it.\<close>

lemma unlinked_removable:
  assumes ok: "rete_ok s A" and u: "unplaced s A x" "solitary s A x" "blocked_sibs A x = [x]" "blocker_of (rete_env s) x = None"
    and b: "blocked_by s A x = []"
  shows "removable s A x" "map_option nextInMemory (pms s x) = Some None"
proof -
  have "blocked_heads (pms s) x = None" using child_lists(3) [OF rete_okD(1) [OF ok], of x] b by simp
  then show "removable s A x" "map_option nextInMemory (pms s x) = Some None"
    using u by (auto simp: removable_def unplaced_def solitary_def owns_alpha_def heads_def)
qed

lemma childless:
  assumes t: "tree_ok s A" and n: "pms s y = Some n"
  shows "children n = None \<and> blockList n = None \<longleftrightarrow> right_children s A y = [] \<and> left_children s A y = [] \<and> blocked_by s A y = []"
proof -
  have e: "hdp xs None = None \<longleftrightarrow> xs = []" for xs :: "addr list" by (cases xs) simp_all
  show ?thesis using child_lists(1-3) [OF t, of y] n by (auto simp: heads_def e split: if_splits)
qed

lemma removable_detached:
  assumes t: "tree_ok s A" "tree_ok s' (detached x A')" and y: "removable s A y" "y \<noteq> x"
    and b: "\<And>j sd i. set (in_bucket A' j sd i) \<subseteq> set (in_bucket A j sd i)"
      "right_sibs A' = right_sibs A" "left_sibs A' = left_sibs A" "blocked_sibs A' = blocked_sibs A"
    and c: "right_children s' (detached x A') = (\<lambda>p. if p = x then [] else remove1 x (right_children s A p))"
      "left_children s' (detached x A') = (\<lambda>p. if p = x then [] else remove1 x (left_children s A p))"
      "blocked_by s' (detached x A') = (\<lambda>b. remove1 x (blocked_by s A b))"
    and o: "owners s' = ((\<lambda>y. if y = x \<or> right_of (rete_env s) y = Some x then None else right_of (rete_env s) y),
        (\<lambda>y. if y = x \<or> left_of (rete_env s) y = Some x then None else left_of (rete_env s) y), (blocker_of (rete_env s))(x := None))"
    and k: "pays_of core_row (rows s') = pays_of core_row (rows s)" "map_option core_node (pms s' y) = map_option core_node (pms s y)"
  shows "removable s' (detached x A') y"
proof -
  obtain n r where n: "pms s y = Some n" "rows s y = Some r" "children n = None" "blockList n = None" "owns_alpha n r" using y(1) by (auto simp: removable_def)
  obtain n' where n': "pms s' y = Some n'" "core_node n' = core_node n" using k(2) n(1) by auto
  obtain r' where r': "rows s' y = Some r'" "core_row r' = core_row r"
    using fun_cong [OF k(1), of y] n(2) by (auto simp: pays_of_def)
  have "children n' = None \<and> blockList n' = None"
    unfolding childless [OF t(2) n'(1)] c using childless [OF t(1) n(1)] n(3,4) by simp
  moreover have "owns_alpha n' r'" using n(5) n'(2) r'(2) by (simp add: owns_alpha_def core_node_def core_row_def)
  moreover have "\<not> in_memory (detached x A') y" using y(1) b(1) unfolding removable_def in_memory_def detached_simps by blast
  ultimately show ?thesis using y o n'(1) r'(1) b(2-4) by (auto simp: removable_def sib_remove_def owners_def)
qed

text \<open>
  The match leaves the network: its children lose their parent, its support is withdrawn, and it is freed or put at the front of the garbage list.
\<close>

lemma unlink_delete_ok:
  assumes ok: "rete_ok s A" and mr: "mirrored (rete_env s)" and x: "x \<in> set (in_bucket A j sd i)" and na: "no_activation s x"
    and b: "blocked_by s A x = []" and g: "garbage_ok s A gs"
  defines "A' \<equiv> detached x (put_bucket j sd i (remove1 x (in_bucket A j sd i)) A)"
  shows "\<exists>s1 s' gs'. UnlinkBetaPMFromNodeAndLineage j x sd s = Some s1 \<and> DeletePartialMatches (Some x) s1 = Some s' \<and>
    rete_ok s' A' \<and> mirrored (rete_env s') \<and> mirrored (rete_env s1) \<and> garbage_ok s' A' gs' \<and>
    engineD (rete_env s') = engineD (drop_match x (rete_env s1)) \<and> UnsupportedDataEntities (engineD (rete_env s1)) = UnsupportedDataEntities (engineD (rete_env s)) \<and> supported_by (rete_env s1) = supported_by (rete_env s) \<and>
    (if map_option busy (rows s x) = Some True then gs' = x # gs \<and> dom (pms s') = dom (pms s) else gs' = gs \<and> dom (pms s') = dom (pms s) - {x})"
proof -
  obtain s1 where s1: "UnlinkBetaPMFromNodeAndLineage j x sd s = Some s1" "rete_ok s1 A'" "unplaced s1 A' x" "solitary s1 A' x"
      "right_children s1 A' = (\<lambda>p. if p = x then [] else remove1 x (right_children s A p))"
      "left_children s1 A' = (\<lambda>p. if p = x then [] else remove1 x (left_children s A p))"
      "blocked_by s1 A' = (\<lambda>b. remove1 x (blocked_by s A b))" "blocked_sibs A' x = [x]"
      "owners s1 = ((\<lambda>y. if y = x \<or> right_of (rete_env s) y = Some x then None else right_of (rete_env s) y),
        (\<lambda>y. if y = x \<or> left_of (rete_env s) y = Some x then None else left_of (rete_env s) y), (blocker_of (rete_env s))(x := None))"
      "pays_of core_row (rows s1) = pays_of core_row (rows s)" "\<exists>M. rete_env s1 = (rete_env s)\<lparr>matches := M\<rparr>"
      "GarbagePartialMatches s1 = GarbagePartialMatches s" "\<forall>y. \<not> in_memory A y \<longrightarrow> map_option core_node (pms s1 y) = map_option core_node (pms s y)"
    using UnlinkBetaPMFromNodeAndLineage_ok [OF ok x na] unfolding A'_def by blast
  have R: "removable s1 A' x" "map_option nextInMemory (pms s1 x) = Some None"
    using unlinked_removable [OF s1(2-4,8)] s1(7,9) b by (simp_all add: owners_def)
  have xm: "in_memory A x" using x by (auto simp: in_memory_def)
  have gx: "y \<noteq> x" "\<not> in_memory A y" if "y \<in> set gs" for y using g xm that by (auto simp: garbage_ok_def removable_def)
  have sub: "set (in_bucket (put_bucket j sd i (remove1 x (in_bucket A j sd i)) A) j' sd' i') \<subseteq> set (in_bucket A j' sd' i')" for j' sd' i'
    using set_remove1_subset [of x "in_bucket A j sd i"] by (simp add: put_bucket_def)
  have "removable s1 A' y" if "y \<in> set gs" for y
    unfolding A'_def
    by (rule removable_detached [OF rete_okD(1) [OF ok] rete_okD(1) [OF s1(2), unfolded A'_def] _ gx(1) [OF that] sub])
       (use g gx(2) [OF that] that s1(5-7,9,10,13) in \<open>simp_all add: garbage_ok_def A'_def\<close>)
  moreover have "garbage_matches (pms s1) gs = garbage_matches (pms s) gs"
  proof -
    have "map_option nextInMemory (pms s1 y) = map_option nextInMemory (pms s y)" if "y \<in> set gs" for y
      using s1(13) gx(2) [OF that] by (cases "pms s1 y"; cases "pms s y") (auto simp: core_node_def)
    then show ?thesis by (rule garbage_matches_next)
  qed
  ultimately have g1: "garbage_ok s1 A' gs" using g s1(12) by (simp add: garbage_ok_def)
  have row: "map_option core_row (rows s1 y) = map_option core_row (rows s y)" for y
    using fun_cong [OF s1(10), of y] by (simp add: pays_of_def)
  have sup: "supported_by (rete_env s1) y = supported_by (rete_env s) y" for y
    using row [of y] by (cases "rows s1 y"; cases "rows s y") (auto simp: supported_by_def core_row_def)
  have mr1: "mirrored (rete_env s1)" using mr sup s1(11) by (auto simp: mirrored_def support_def)
  have bz: "map_option busy (rows s1 x) = map_option busy (rows s x)"
    using row [of x] by (cases "rows s1 x"; cases "rows s x") (auto simp: core_row_def)
  have d: "dom (pms s1) = dom (pms s)"
    using pays_of_dom_eq [OF s1(10)] tree_okD(1) [OF rete_okD(1) [OF ok]] tree_okD(1) [OF rete_okD(1) [OF s1(2)]] by simp
  have xg: "x \<notin> set gs" using gx(1) by blast
  have sup': "supported_by (rete_env s1) = supported_by (rete_env s)" by (rule ext, rule sup)
  have q: "UnsupportedDataEntities (engineD (rete_env s1)) = UnsupportedDataEntities (engineD (rete_env s))" using s1(11) by auto
  show ?thesis using DeletePartialMatches_ok [OF s1(2) mr1 R g1 xg] s1(1) sup' mr1 q unfolding bz d by blast
qed

end
