(* ===== verification/Rete_Create.thy ===== *)
theory Rete_Create
  imports Rete_Free
begin

text \<open>
  New partial matches: a match that has been created is in no memory and in no list of siblings; merging two matches and
  storing the result is the step by which a join extends a match.
\<close>

definition room :: "rete \<Rightarrow> bool" where
  "room s \<longleftrightarrow> fresh (rete_env s) \<notin> dom (pms s) \<and> (card (dom (pms s)) + 1) * 11 < 2 ^ 64"

definition with_new :: "addr \<Rightarrow> net_lists \<Rightarrow> net_lists" where
  "with_new x A = A\<lparr>right_sibs := (right_sibs A)(x := [x]), left_sibs := (left_sibs A)(x := [x]), blocked_sibs := (blocked_sibs A)(x := [x])\<rparr>"

lemma with_new_bucket [simp]: "in_bucket (with_new x A) = in_bucket A" "in_memory (with_new x A) = in_memory A"
  by (auto simp: with_new_def in_memory_def fun_eq_iff)

lemma in_memory_dom: "\<lbrakk>memories_ok s A; in_memory A y\<rbrakk> \<Longrightarrow> y \<in> dom (pms s)"
  unfolding in_memory_def using in_bucketD by (fastforce simp: stored_def node_key_def split: option.splits)

definition bare :: "pmNode \<Rightarrow> bool" where
  "bare n \<longleftrightarrow> nextRightChild n = None \<and> prevRightChild n = None \<and> nextLeftChild n = None \<and> prevLeftChild n = None \<and>
     nextBlocked n = None \<and> prevBlocked n = None \<and> children n = None \<and> blockList n = None"

lemma new_node_ok:
  assumes ok: "rete_ok s A" and r: "room s" and n: "new_match n0 (new_row own bs) s = (x, s')" and b: "bare n0"
  shows "rete_ok s' (with_new x A)" "\<not> in_memory A x" "solitary s' (with_new x A) x"
    "x = fresh (rete_env s)" "pms s' = (pms s)(x \<mapsto> n0)" "rows s' = (rows s)(x \<mapsto> new_row own bs)" "memories s' = memories s"
    "BetaMemoryResizingFlag s' = BetaMemoryResizingFlag s" "joins (rete_env s') = joins (rete_env s)"
proof -
  note O = rete_okD [OF ok] and T = tree_okD [OF rete_okD(1) [OF ok]]
  have s': "x = fresh (rete_env s)" "s' = s\<lparr>pms := (pms s)(x \<mapsto> n0),
      rete_env := (rete_env s)\<lparr>matches := (rows s)(x \<mapsto> new_row own bs), fresh := x + 1\<rparr>\<rparr>"
    using n by (auto simp: new_match_def Let_def)
  then show "x = fresh (rete_env s)" and P: "pms s' = (pms s)(x \<mapsto> n0)" "rows s' = (rows s)(x \<mapsto> new_row own bs)"
      "memories s' = memories s" "BetaMemoryResizingFlag s' = BetaMemoryResizingFlag s" "joins (rete_env s') = joins (rete_env s)" by simp_all
  have x: "x \<notin> dom (pms s)" "rows s x = None" using r s'(1) T(1) by (auto simp: room_def)
  have d: "dom (pms s') = insert x (dom (pms s))" "dom (rows s') = insert x (dom (pms s))" using P T(1) by simp_all
  have l: "links_of prv nxt (pms s') y = links_of prv nxt (pms s) y" if "y \<in> dom (pms s)" for y prv nxt
    using that x(1) P(1) by (auto simp: links_of_def)
  have h: "right_heads (pms s') = right_heads (pms s)" "left_heads (pms s') = left_heads (pms s)" "blocked_heads (pms s') = blocked_heads (pms s)"
    using x(1) P(1) b by (auto simp: heads_def bare_def fun_eq_iff domIff)
  have p: "right_of (rete_env s') y = right_of (rete_env s) y" "left_of (rete_env s') y = left_of (rete_env s) y"
      "blocker_of (rete_env s') y = blocker_of (rete_env s) y" if "y \<in> dom (pms s)" for y
    using that x(1) P(2,5) by (auto simp: right_of_def left_of_def blocker_of_def activates_def split: option.split)
  have q: "right_of (rete_env s') x = None" "left_of (rete_env s') x = None" "blocker_of (rete_env s') x = None"
    using P(2) by (simp_all add: right_of_def left_of_def blocker_of_def new_row_def)
  have k: "links_of prevRightChild nextRightChild (pms s') x = Some (None, None)" "links_of prevLeftChild nextLeftChild (pms s') x = Some (None, None)"
      "links_of prevBlocked nextBlocked (pms s') x = Some (None, None)"
    using P(1) b by (simp_all add: links_of_def bare_def)
  have "tree_ok s' (with_new x A)"
    unfolding tree_ok_def d with_new_def
    using family_add [OF T(2) x(1) q(1) k(1) l p(1) h(1)] family_add [OF T(3) x(1) q(2) k(2) l p(2) h(2)]
      family_add [OF T(4) x(1) q(3) k(3) l p(3) h(3)] by simp
  moreover have "memories_ok s' (with_new x A)"
  proof (rule memories_ok_frame [OF O(2) P(3)])
    show "memory_links (pms s') y = memory_links (pms s) y \<and> node_key s' y = node_key s y" if "in_memory A y" for y
      using in_memory_dom [OF O(2) that] l x(1) P(1,2) by (auto simp: node_key_def split: option.split)
  qed simp
  moreover have "card (dom (pms s')) = card (dom (pms s)) + 1" unfolding d using O(3) x(1) by simp
  ultimately show "rete_ok s' (with_new x A)" using r d O(3) by (simp add: rete_ok_def room_def)
  show "\<not> in_memory A x" using in_memory_dom [OF O(2), of x] x(1) by blast
  show "solitary s' (with_new x A) x" using q by (simp add: solitary_def with_new_def)
qed

lemma new_match_ok:
  assumes ok: "rete_ok s A" and r: "room s" and n: "new_match blank_node (new_row own bs) s = (x, s')"
  shows "rete_ok s' (with_new x A)" "unplaced s' (with_new x A) x" "solitary s' (with_new x A) x"
    "x = fresh (rete_env s)" "pms s' = (pms s)(x \<mapsto> blank_node)" "rows s' = (rows s)(x \<mapsto> new_row own bs)" "memories s' = memories s"
    "BetaMemoryResizingFlag s' = BetaMemoryResizingFlag s" "joins (rete_env s') = joins (rete_env s)"
proof -
  have b: "bare blank_node" by (simp add: bare_def blank_node_def)
  note N = new_node_ok [OF ok r n b]
  show "rete_ok s' (with_new x A)" "solitary s' (with_new x A) x" "x = fresh (rete_env s)" "pms s' = (pms s)(x \<mapsto> blank_node)"
    "rows s' = (rows s)(x \<mapsto> new_row own bs)" "memories s' = memories s" "BetaMemoryResizingFlag s' = BetaMemoryResizingFlag s" "joins (rete_env s') = joins (rete_env s)"
    by (rule N)+
  show "unplaced s' (with_new x A) x" using N(2,5,6) by (simp add: unplaced_def blank_node_def new_row_def)
qed

lemma members_new:
  assumes "family D L first par sib" "x \<notin> D"
  shows "owned first (sib(x := zs)) = owned first sib"
  using family_head [OF assms(1)] assms(2) by (fastforce simp: owned_def fun_eq_iff split: option.split)

lemma new_match_children:
  assumes ok: "rete_ok s A" and r: "room s" and n: "new_match blank_node (new_row own bs) s = (x, s')"
  shows "right_children s' (with_new x A) = right_children s A" "left_children s' (with_new x A) = left_children s A"
    "blocked_by s' (with_new x A) = blocked_by s A"
proof -
  note T = tree_okD [OF rete_okD(1) [OF ok]] and N = new_match_ok [OF ok r n]
  have x: "x \<notin> dom (pms s)" using r N(4) by (simp add: room_def)
  then have h: "right_heads (pms s') = right_heads (pms s)" "left_heads (pms s') = left_heads (pms s)" "blocked_heads (pms s') = blocked_heads (pms s)"
    using N(5) by (auto simp: heads_def blank_node_def right_side_def fun_eq_iff domIff)
  show "right_children s' (with_new x A) = right_children s A" "left_children s' (with_new x A) = left_children s A"
    "blocked_by s' (with_new x A) = blocked_by s A"
    unfolding right_children_def left_children_def blocked_by_def with_new_def h
    using members_new [OF T(2) x] members_new [OF T(3) x] members_new [OF T(4) x] by simp_all
qed

section \<open>Extending a match\<close>

text \<open>
  A join extends the match \<open>l\<close>, which enters it from the left, by the match \<open>r\<close>, which enters it from the right, and puts the
  result into a memory of the join that follows.
\<close>

lemma extend_ok:
  assumes ok: "rete_ok s A" and rm: "room s" and m: "memory_at j sd s = Some m"
    and l: "pms s l = Some L" "left_side L" "rows s l = Some lr" and r: "pms s r = Some R" "right_side R" "rows s r = Some rr" "binds rr = b # bs"
  defines "x \<equiv> fresh (rete_env s)"
  shows "\<exists>s1 s' A'. MergePartialMatches own l (Some r) s = Some (x, s1) \<and> UpdateBetaPMLinks x (Some l) (Some r) j hv sd s1 = Some s' \<and> rete_ok s' A' \<and>
    right_children s' A' = (right_children s A)(r := x # right_children s A r) \<and> left_children s' A' = (left_children s A)(l := x # left_children s A l) \<and>
    blocked_by s' A' = blocked_by s A \<and> right_of (rete_env s') x = Some r \<and> left_of (rete_env s') x = Some l \<and>
    map_option binds (rows s1 x) = Some (binds lr @ [b]) \<and> (\<exists>i. x \<in> set (in_bucket A' j sd i))"
proof -
  obtain s1 where n: "new_match blank_node (new_row own (binds lr @ [b])) s = (x, s1)" by (simp add: new_match_def Let_def x_def)
  note N = new_match_ok [OF ok rm n] and K = new_match_children [OF ok rm n]
  have run: "MergePartialMatches own l (Some r) s = Some (x, s1)"
    using l(3) r(3,4) n by (simp add: MergePartialMatches_def nth_opt_def)
  have xn: "x \<notin> dom (pms s)" using rm by (simp add: room_def x_def)
  have m1: "memory_at j sd s1 = Some m" using m N(7) by (simp add: memory_at_def)
  have pr: "parent_ok right_side s1 x (Some r)" "parent_ok left_side s1 x (Some l)"
    using l(1,2) r(1,2) xn N(5) by (auto simp: parent_ok_def)
  define B where "B = (in_bucket (with_new x A) j sd)(unat (hv mod beta_size m) := placed sd x (in_bucket (with_new x A) j sd (unat (hv mod beta_size m))))"
  obtain s' A' where u: "UpdateBetaPMLinks x (Some l) (Some r) j hv sd s1 = Some s'" "rete_ok s' A'"
      "owners s' = ((right_of (rete_env s1))(x := Some r), (left_of (rete_env s1))(x := Some l), blocker_of (rete_env s1))"
      "right_children s' A' = with_child x (Some r) (right_children s1 (with_new x A))"
      "left_children s' A' = with_child x (Some l) (left_children s1 (with_new x A))" "blocked_by s' A' = blocked_by s1 (with_new x A)"
      "in_bucket A' j sd = (if BetaMemoryResizingFlag s1 \<and> beta_size m > 1 \<and> beta_count m + 1 > beta_size m * 11
        then share (pms s') (beta_size m * 11) (matches_in (length (beta m)) B) else B)"
    using UpdateBetaPMLinks_ok [OF N(1) m1 N(2,3) pr, of hv] unfolding B_def by blast
  have "unat (hv mod beta_size m) < length (beta m)"
    using memory_okD(1) [OF rete_okD(2) [OF ok] m] mod_less_size [of "beta_size m" hv] by (simp add: shape_ok_def)
  then have B: "x \<in> set (B (unat (hv mod beta_size m)))" "x \<in> set (matches_in (length (beta m)) B)"
    by (auto simp: B_def matches_in_def)
  have "\<exists>i. x \<in> set (in_bucket A' j sd i)" unfolding u(7) using B by auto
  then show ?thesis
    using run u K N(6) by (intro exI [of _ s1] exI [of _ s'] exI [of _ A']) (simp add: with_child_def owners_def new_row_def)
qed

section \<open>Entering and leaving again\<close>

lemma upd_env:
  "upd_pm p f s = Some s' \<Longrightarrow> rete_env s' = rete_env s" "upd_pm_if p f s = Some s' \<Longrightarrow> rete_env s' = rete_env s"
  "upd_memories j g s = Some s' \<Longrightarrow> rete_env s' = rete_env s"
  by (auto simp: upd_pm_def upd_pm_if_def upd_memories_def Option.bind_eq_Some_conv)

lemma upd_row_marker: "\<lbrakk>upd_row (Some a) f s = Some s'; \<And>r. marker (f r) = marker r\<rbrakk> \<Longrightarrow> map_option marker (rows s' y) = map_option marker (rows s y)"
  by (auto simp: upd_row_def upd_match_def upd_at_def split: option.splits)

lemma store_marker:
  assumes "store_in_memory x j hv sd s = Some s'"
  shows "map_option marker (rows s' y) = map_option marker (rows s y)"
  using assms unfolding store_in_memory_def
  by (cases sd) (auto simp: Option.bind_eq_Some_conv Let_def split: option.splits dest!: upd_env upd_row_marker [where y = y])

lemma update_marker:
  assumes "UpdateBetaPMLinks x lhs rhs j hv sd s = Some s'"
  shows "map_option marker (rows s' y) = map_option marker (rows s y)"
proof -
  obtain s1 s2 s3 where s: "store_in_memory x j hv sd s = Some s1"
      "(case rhs of None \<Rightarrow> Some s1 | Some p \<Rightarrow> do { h \<leftarrow> link_right p x (pms s1); set_rightParent x rhs (s1\<lparr>pms := h\<rparr>) }) = Some s2"
      "(case lhs of None \<Rightarrow> Some s2 | Some p \<Rightarrow> do { h \<leftarrow> link_left p x (pms s2); set_leftParent x lhs (s2\<lparr>pms := h\<rparr>) }) = Some s3"
      "grow_memory j sd s3 = Some s'"
    using assms unfolding UpdateBetaPMLinks_def by (auto simp: Option.bind_eq_Some_conv)
  have "rete_env s' = rete_env s3"
    using s(4) by (auto simp: grow_memory_def ResizeBetaMemory_def Option.bind_eq_Some_conv Let_def split: if_splits dest!: upd_env(3))
  moreover have "map_option marker (rows s3 y) = map_option marker (rows s2 y)"
    using s(3) by (auto simp: set_leftParent_def Option.bind_eq_Some_conv split: option.splits dest!: upd_row_marker [where y = y])
  moreover have "map_option marker (rows s2 y) = map_option marker (rows s1 y)"
    using s(2) by (auto simp: set_rightParent_def Option.bind_eq_Some_conv split: option.splits dest!: upd_row_marker [where y = y])
  ultimately show ?thesis using store_marker [OF s(1)] by simp
qed

lemma member_owner:
  assumes f: "family D L first par sib" and m: "x \<in> set (owned first sib k)"
  shows "par x = Some k"
  using member_iff [OF f] members_list(3) [OF f, where k = k] m by blast

lemma not_listed:
  assumes t: "tree_ok s A"
  shows "right_of (rete_env s) x = None \<Longrightarrow> x \<notin> set (right_children s A p)" "left_of (rete_env s) x = None \<Longrightarrow> x \<notin> set (left_children s A p)"
    "blocker_of (rete_env s) x = None \<Longrightarrow> x \<notin> set (blocked_by s A p)"
  unfolding right_children_def left_children_def blocked_by_def
  by (auto dest: member_owner [OF tree_okD(2) [OF t]] member_owner [OF tree_okD(3) [OF t]] member_owner [OF tree_okD(4) [OF t]])

lemma listed:
  assumes t: "tree_ok s A"
  shows "right_of (rete_env s) y = Some x \<Longrightarrow> y \<in> set (right_children s A x)" "left_of (rete_env s) y = Some x \<Longrightarrow> y \<in> set (left_children s A x)"
proof -
  note T = tree_okD [OF t]
  have d: "y \<in> dom (pms s)" if "rows s y = Some r" for r using T(1) that by blast
  show "y \<in> set (right_children s A x)" if "right_of (rete_env s) y = Some x"
    using that d member_iff [OF T(2), of y x] by (auto simp: right_of_def right_children_def split: option.splits)
  show "y \<in> set (left_children s A x)" if "left_of (rete_env s) y = Some x"
    using that d member_iff [OF T(3), of y x] by (auto simp: left_of_def left_children_def split: option.splits)
qed

lemma no_children:
  assumes t: "tree_ok s A" and n: "pms s x = Some n" "children n = None"
  shows "right_children s A x = []" "left_children s A x = []"
  using child_lists(1,2) [OF t, of x] n by (auto simp: heads_def split: if_splits)

lemma with_child_remove:
  assumes "\<And>p. x \<notin> set (K p)" "K x = []" "q \<noteq> Some x"
  shows "(\<lambda>p. if p = x then [] else remove1 x (with_child x q K p)) = K"
  using assms by (auto simp: with_child_def fun_eq_iff remove1_idem split: option.split)

lemma update_unlink_ok:
  assumes ok: "rete_ok s A" and m: "memory_at j sd s = Some m" and u: "unplaced s A x" and a: "solitary s A x"
    and r: "parent_ok right_side s x rhs" and l: "parent_ok left_side s x lhs"
    and fit: "\<not> (BetaMemoryResizingFlag s \<and> beta_size m > 1 \<and> beta_count m + 1 > beta_size m * 11)"
  shows "\<exists>s1 s' A'. UpdateBetaPMLinks x lhs rhs j hv sd s = Some s1 \<and> UnlinkBetaPMFromNodeAndLineage j x sd s1 = Some s' \<and>
    rete_ok s' A' \<and> in_bucket A' = in_bucket A \<and> right_children s' A' = right_children s A \<and> left_children s' A' = left_children s A \<and>
    blocked_by s' A' = blocked_by s A \<and> owners s' = owners s"
proof -
  let ?i = "unat (hv mod beta_size m)"
  let ?xs = "in_bucket A j sd ?i"
  obtain s1 A1 where s1: "UpdateBetaPMLinks x lhs rhs j hv sd s = Some s1" "rete_ok s1 A1"
      "owners s1 = ((right_of (rete_env s))(x := rhs), (left_of (rete_env s))(x := lhs), blocker_of (rete_env s))"
      "right_children s1 A1 = with_child x rhs (right_children s A)" "left_children s1 A1 = with_child x lhs (left_children s A)"
      "blocked_by s1 A1 = blocked_by s A" "\<forall>j' sd'. j' \<noteq> j \<or> sd' \<noteq> sd \<longrightarrow> in_bucket A1 j' sd' = in_bucket A j' sd'"
      "in_bucket A1 j sd = (in_bucket A j sd)(?i := placed sd x ?xs)"
    using UpdateBetaPMLinks_ok [OF ok m u a r l, of hv] fit by auto
  obtain n q where n: "pms s x = Some n" "children n = None" "rows s x = Some q" "marker q = None" "\<not> in_memory A x"
    using u by (auto simp: unplaced_def)
  have nb: "blocker_of (rete_env s) x = None" using n(3,4) by (simp add: blocker_of_def)
  have xs: "x \<notin> set ?xs" using n(5) by (auto simp: in_memory_def)
  have x1: "x \<in> set (in_bucket A1 j sd ?i)" using s1(8) by simp
  have na: "no_activation s1 x" using update_marker [OF s1(1), of x] n(3,4) by (auto simp: no_activation_def)
  let ?A = "detached x (put_bucket j sd ?i (remove1 x (in_bucket A1 j sd ?i)) A1)"
  obtain s' where s': "UnlinkBetaPMFromNodeAndLineage j x sd s1 = Some s'" "rete_ok s' ?A"
      "right_children s' ?A = (\<lambda>p. if p = x then [] else remove1 x (right_children s1 A1 p))"
      "left_children s' ?A = (\<lambda>p. if p = x then [] else remove1 x (left_children s1 A1 p))"
      "blocked_by s' ?A = (\<lambda>b. remove1 x (blocked_by s1 A1 b))"
      "owners s' = ((\<lambda>y. if y = x \<or> right_of (rete_env s1) y = Some x then None else right_of (rete_env s1) y),
        (\<lambda>y. if y = x \<or> left_of (rete_env s1) y = Some x then None else left_of (rete_env s1) y), (blocker_of (rete_env s1))(x := None))"
    using UnlinkBetaPMFromNodeAndLineage_ok [OF s1(2) x1 na] by blast
  note t = rete_okD(1) [OF ok]
  have sol: "right_of (rete_env s) x = None" "left_of (rete_env s) x = None" using a by (simp_all add: solitary_def)
  note L = not_listed(1) [OF t sol(1)] not_listed(2) [OF t sol(2)] not_listed(3) [OF t nb] and E = no_children [OF t n(1,2)]
  have p: "rhs \<noteq> Some x" "lhs \<noteq> Some x" using r l by (auto simp: parent_ok_def)
  have "remove1 x (placed sd x ?xs) = ?xs" using xs by (cases sd) (simp_all add: remove1_append remove1_idem)
  then have "in_bucket ?A j' sd' i' = in_bucket A j' sd' i'" for j' sd' i'
    using s1(7,8) by (cases "j' = j \<and> sd' = sd") (auto simp: put_bucket_def)
  then have "in_bucket ?A = in_bucket A" by (intro ext)
  moreover have "right_children s' ?A = right_children s A" unfolding s'(3) s1(4) by (rule with_child_remove) (use L(1) E(1) p(1) in simp_all)
  moreover have "left_children s' ?A = left_children s A" unfolding s'(4) s1(5) by (rule with_child_remove) (use L(2) E(2) p(2) in simp_all)
  moreover have "blocked_by s' ?A = blocked_by s A" unfolding s'(5) s1(6) using L(3) by (simp add: remove1_idem)
  moreover have "owners s' = owners s"
  proof -
    have "right_of (rete_env s) y \<noteq> Some x" "left_of (rete_env s) y \<noteq> Some x" for y
      using listed [OF t, of y x] E by auto
    then show ?thesis unfolding s'(6) using s1(3) sol nb by (auto simp: owners_def fun_eq_iff)
  qed
  ultimately show ?thesis using s1(1) s'(1,2) by blast
qed

end
