(* ===== verification/Alpha_Invariant.thy ===== *)
theory Alpha_Invariant
  imports Alpha_Memory Rete_Create
begin

text \<open>
  The invariant \<open>alpha_ok a B\<close> of the alpha memories, and the contents of the memories as a function from patterns and buckets
  to lists of matches.
\<close>

section \<open>Groups of lists\<close>

text \<open>Every element of \<open>D\<close> is in the list of the group \<open>par\<close> assigns to it; \<open>first\<close> points to the heads of the lists.\<close>

definition grouped :: "addr set \<Rightarrow> links \<Rightarrow> ('k \<Rightarrow> ptr) \<Rightarrow> (addr \<Rightarrow> 'k option) \<Rightarrow> ('k \<Rightarrow> addr list) \<Rightarrow> bool" where
  "grouped D L first par lst \<longleftrightarrow> (\<forall>k. first k = hdp (lst k) None \<and> distinct (lst k) \<and> dlseg L None (lst k) None \<and>
     set (lst k) = {x \<in> D. par x = Some k})"

lemma groupedD:
  assumes "grouped D L first par lst"
  shows "first k = hdp (lst k) None" "distinct (lst k)" "dlseg L None (lst k) None" "x \<in> set (lst k) \<longleftrightarrow> x \<in> D \<and> par x = Some k"
  using assms by (auto simp: grouped_def)

lemma grouped_disjoint: "\<lbrakk>grouped D L first par lst; j \<noteq> k\<rbrakk> \<Longrightarrow> set (lst j) \<inter> set (lst k) = {}"
  unfolding grouped_def by (metis (mono_tags, lifting) disjoint_iff mem_Collect_eq option.inject)

lemma groupedI:
  assumes "\<And>k. first k = hdp (lst k) None" "\<And>k. distinct (lst k)" "\<And>k. dlseg L None (lst k) None" "\<And>k x. x \<in> set (lst k) \<longleftrightarrow> x \<in> D \<and> par x = Some k"
  shows "grouped D L first par lst"
  unfolding grouped_def using assms by blast

lemma grouped_cong:
  assumes "grouped D L first par lst" "\<And>x. x \<in> D \<Longrightarrow> L' x = L x" "first' = first" "\<And>x. x \<in> D \<Longrightarrow> par' x = par x"
  shows "grouped D L' first' par' lst"
proof (rule groupedI)
  note G = groupedD [OF assms(1)]
  fix k
  show "first' k = hdp (lst k) None" "distinct (lst k)" using G(1,2) assms(3) by blast+
  show "x \<in> set (lst k) \<longleftrightarrow> x \<in> D \<and> par' x = Some k" for x using G(4) [of x k] assms(4) [of x] by auto
  have "L' x = L x" if "x \<in> set (lst k)" for x using assms(2) G(4) [of x k] that by blast
  then show "dlseg L' None (lst k) None" using G(3) [of k] dlseg_cong [of "lst k" L' L None None] by blast
qed

lemma grouped_enter:
  assumes g: "grouped D L first par lst" and x: "x \<notin> D" and k: "lst k = P @ S"
    and L: "dlseg L' None (P @ x # S) None" "\<And>y. y \<notin> set (P @ x # S) \<Longrightarrow> L' y = L y"
    and p: "par' x = Some k" "\<And>y. y \<in> D \<Longrightarrow> par' y = par y" and h: "first' = first(k := hdp (P @ x # S) None)"
  shows "grouped (insert x D) L' first' par' (lst(k := P @ x # S))"
proof (rule groupedI)
  note G = groupedD [OF g]
  fix j
  have out: "set (lst j) \<inter> set (P @ x # S) = {}" if "j \<noteq> k"
    using grouped_disjoint [OF g that] G(4) [of x j] x k by auto
  show "first' j = hdp ((lst(k := P @ x # S)) j) None" using G(1) [of j] h by simp
  show "distinct ((lst(k := P @ x # S)) j)" using G(2) [of j] G(4) [of x k] k x by auto
  show "dlseg L' None ((lst(k := P @ x # S)) j) None"
  proof (cases "j = k")
    case False
    have "L' y = L y" if "y \<in> set (lst j)" for y using out [OF False] that L(2) by blast
    then show ?thesis using False G(3) [of j] dlseg_cong [of "lst j" L' L None None] by simp
  qed (use L(1) in simp)
  show "y \<in> set ((lst(k := P @ x # S)) j) \<longleftrightarrow> y \<in> insert x D \<and> par' y = Some j" for y
    using G(4) [of y j] k x p by (cases "j = k") auto
qed

lemma grouped_leave:
  assumes g: "grouped D L first par lst" and k: "lst k = P @ x # S"
    and L: "dlseg L' None (P @ S) None" "\<And>y. y \<notin> set (P @ x # S) \<Longrightarrow> L' y = L y"
    and p: "\<And>y. y \<in> D \<Longrightarrow> y \<noteq> x \<Longrightarrow> par' y = par y" and h: "first' = first(k := hdp (P @ S) None)"
  shows "grouped (D - {x}) L' first' par' (lst(k := P @ S))"
proof (rule groupedI)
  note G = groupedD [OF g]
  have xk: "x \<in> D" "par x = Some k" "distinct (P @ x # S)" using G(4) [of x k] G(2) [of k] k by auto
  fix j
  have out: "set (lst j) \<inter> set (P @ x # S) = {}" if "j \<noteq> k" using grouped_disjoint [OF g that] k by simp
  show "first' j = hdp ((lst(k := P @ S)) j) None" using G(1) [of j] h by simp
  show "distinct ((lst(k := P @ S)) j)" using G(2) [of j] xk(3) by auto
  show "dlseg L' None ((lst(k := P @ S)) j) None"
  proof (cases "j = k")
    case False
    have "L' y = L y" if "y \<in> set (lst j)" for y using out [OF False] that L(2) by blast
    then show ?thesis using False G(3) [of j] dlseg_cong [of "lst j" L' L None None] by simp
  qed (use L(1) in simp)
  show "y \<in> set ((lst(k := P @ S)) j) \<longleftrightarrow> y \<in> D - {x} \<and> par' y = Some j" for y
  proof (cases "j = k")
    case True
    then show ?thesis using G(4) [of y k] k xk p [of y] by (cases "y = x") auto
  next
    case False
    then show ?thesis using G(4) [of y j] xk(2) p [of y] by (cases "y = x") auto
  qed
qed

section \<open>The invariant\<close>

record alpha_lists =
  chain :: "nat \<Rightarrow> addr list"
  of_header :: "addr \<Rightarrow> addr list"
  queue :: "addr \<Rightarrow> addr list"
  holder :: "addr \<rightharpoonup> addr"

definition chain_rest :: "alphaMemoryHash \<Rightarrow> alphaMemoryHash" where
  "chain_rest m = m\<lparr>amh_next := None, amh_prev := None\<rparr>"

definition hash_rest :: "alphaMemoryHash \<Rightarrow> alphaMemoryHash" where
  "hash_rest m = m\<lparr>nextHash := None, prevHash := None\<rparr>"

interpretation chn: linked_nodes amh_prev amh_next set_prev set_next chain_rest
  by unfold_locales (simp_all add: chain_rest_def)

interpretation hsh: linked_nodes prevHash nextHash set_prevHash set_nextHash hash_rest
  by unfold_locales (simp_all add: hash_rest_def)

abbreviation chain_links :: "(addr \<rightharpoonup> alphaMemoryHash) \<Rightarrow> links" where "chain_links \<equiv> links_of amh_prev amh_next"
abbreviation hash_links :: "(addr \<rightharpoonup> alphaMemoryHash) \<Rightarrow> links" where "hash_links \<equiv> links_of prevHash nextHash"

definition bucket_of :: "(addr \<rightharpoonup> alphaMemoryHash) \<Rightarrow> addr \<Rightarrow> nat option" where
  "bucket_of M k = map_option amh_bucket (M k)"

definition owner_of :: "(addr \<rightharpoonup> alphaMemoryHash) \<Rightarrow> addr \<Rightarrow> addr option" where
  "owner_of M k = map_option amh_owner (M k)"

definition queue_heads :: "(addr \<rightharpoonup> alphaMemoryHash) \<Rightarrow> addr \<Rightarrow> ptr" where
  "queue_heads M k = (case M k of None \<Rightarrow> None | Some m \<Rightarrow> alphaMemory m)"

definition first_hashes :: "(addr \<rightharpoonup> patternNodeHeader) \<Rightarrow> addr \<Rightarrow> ptr" where
  "first_hashes H h = (case H h of None \<Rightarrow> None | Some P \<Rightarrow> firstHash P)"

definition chains_ok :: "(addr \<rightharpoonup> alphaMemoryHash) \<Rightarrow> (nat \<Rightarrow> ptr) \<Rightarrow> (nat \<Rightarrow> addr list) \<Rightarrow> bool" where
  "chains_ok M T C \<longleftrightarrow> grouped (dom M) (chain_links M) T (bucket_of M) C"

definition headers_ok :: "(addr \<rightharpoonup> alphaMemoryHash) \<Rightarrow> (addr \<rightharpoonup> patternNodeHeader) \<Rightarrow> (addr \<Rightarrow> addr list) \<Rightarrow> bool" where
  "headers_ok M H O1 \<longleftrightarrow> grouped (dom M) (hash_links M) (first_hashes H) (owner_of M) O1 \<and>
     (\<forall>h P. H h = Some P \<longrightarrow> lastHash P = lastp None (O1 h))"

definition queues_ok :: "(addr \<rightharpoonup> alphaMemoryHash) \<Rightarrow> (addr \<rightharpoonup> pmNode) \<Rightarrow> alpha_lists \<Rightarrow> bool" where
  "queues_ok M N B \<longleftrightarrow> grouped (dom (holder B)) (memory_links N) (queue_heads M) (holder B) (queue B) \<and>
     (\<forall>k m. M k = Some m \<longrightarrow> endOfQueue m = lastp None (queue B k)) \<and>
     (\<forall>x k. holder B x = Some k \<longrightarrow> (\<exists>m n. M k = Some m \<and> N x = Some n \<and> \<not> betaMemory n \<and> alphaBucket n = amh_bucket m))"

definition one_each :: "(addr \<rightharpoonup> alphaMemoryHash) \<Rightarrow> bool" where
  "one_each M \<longleftrightarrow> (\<forall>k\<in>dom M. \<forall>k'\<in>dom M. bucket_of M k = bucket_of M k' \<and> owner_of M k = owner_of M k' \<longrightarrow> k = k')"

definition alpha_part :: "alphaNet \<Rightarrow> alpha_lists \<Rightarrow> bool" where
  "alpha_part a B \<longleftrightarrow> chains_ok (amems a) (AlphaMemoryTable a) (chain B) \<and> headers_ok (amems a) (patternHeaders a) (of_header B) \<and>
     queues_ok (amems a) (match_nodes a) B \<and> one_each (amems a)"

text \<open>No memory is empty, and every bucket is an index of the table.\<close>

definition alpha_ok :: "alphaNet \<Rightarrow> alpha_lists \<Rightarrow> bool" where
  "alpha_ok a B \<longleftrightarrow> alpha_part a B \<and> (\<forall>k\<in>dom (amems a). queue B k \<noteq> []) \<and> (\<forall>k c. bucket_of (amems a) k = Some c \<longrightarrow> c < 63559)"

text \<open>The matches of a pattern whose hash value leads to a bucket, in the order in which they came.\<close>

definition memory_for :: "alphaNet \<Rightarrow> alpha_lists \<Rightarrow> addr \<Rightarrow> nat \<Rightarrow> ptr" where
  "memory_for a B h b = List.find (\<lambda>k. owner_of (amems a) k = Some h) (chain B b)"

definition content :: "alphaNet \<Rightarrow> alpha_lists \<Rightarrow> addr \<Rightarrow> nat \<Rightarrow> addr list" where
  "content a B h b = (case memory_for a B h b of None \<Rightarrow> [] | Some k \<Rightarrow> queue B k)"

section \<open>Search\<close>

lemma AlphaMemoryHashValue_bound: "AlphaMemoryHashValue h off < 63559"
  using word_mod_less_divisor [of "63559 :: u64" "of_nat (h mod 2 ^ 32) + off"] by (simp add: AlphaMemoryHashValue_def word_less_nat_alt)

lemma find_memory_list:
  assumes "dlseg (chain_links M) p ks None"
  shows "find_memory h (hdp ks None) M = Some (List.find (\<lambda>k. owner_of M k = Some h) ks)"
  using assms
proof (induction ks arbitrary: p)
  case Nil
  show ?case by (simp add: find_memory.simps)
next
  case (Cons k ks)
  obtain m where m: "M k = Some m" "amh_next m = hdp ks None" using dlseg_node [of amh_prev amh_next M p "[]" k ks None] Cons.prems by auto
  have "dlseg (chain_links M) (Some k) ks None" using Cons.prems by simp
  then show ?case using m Cons.IH by (subst find_memory.simps) (auto simp: owner_of_def)
qed

lemma alpha_partD:
  assumes "alpha_part a B"
  shows "grouped (dom (amems a)) (chain_links (amems a)) (AlphaMemoryTable a) (bucket_of (amems a)) (chain B)"
    "grouped (dom (amems a)) (hash_links (amems a)) (first_hashes (patternHeaders a)) (owner_of (amems a)) (of_header B)"
    "\<And>h P. patternHeaders a h = Some P \<Longrightarrow> lastHash P = lastp None (of_header B h)"
    "grouped (dom (holder B)) (memory_links (match_nodes a)) (queue_heads (amems a)) (holder B) (queue B)"
    "\<And>k m. amems a k = Some m \<Longrightarrow> endOfQueue m = lastp None (queue B k)"
    "\<And>x k. holder B x = Some k \<Longrightarrow> \<exists>m n. amems a k = Some m \<and> match_nodes a x = Some n \<and> \<not> betaMemory n \<and> alphaBucket n = amh_bucket m"
    "one_each (amems a)"
  using assms by (simp_all add: alpha_part_def chains_ok_def headers_ok_def queues_ok_def)

lemma FindAlphaMemory_eq:
  assumes "alpha_part a B"
  shows "FindAlphaMemory h b a = Some (memory_for a B h b)"
  using find_memory_list [OF groupedD(3) [OF alpha_partD(1) [OF assms]], of h b] groupedD(1) [OF alpha_partD(1) [OF assms], of b]
  by (simp add: FindAlphaMemory_def memory_for_def)

lemma memory_for_iff:
  assumes ok: "alpha_part a B"
  shows "memory_for a B h b = Some k \<longleftrightarrow> (\<exists>m. amems a k = Some m \<and> amh_owner m = h \<and> amh_bucket m = b)"
proof -
  have G: "k' \<in> set (chain B b) \<longleftrightarrow> bucket_of (amems a) k' = Some b" for k'
    using groupedD(4) [OF alpha_partD(1) [OF ok], of k' b] by (auto simp: bucket_of_def)
  have one: "k = k'" if "amems a k = Some m" "amems a k' = Some m'" "amh_owner m = amh_owner m'" "amh_bucket m = amh_bucket m'" for k k' m m'
    using alpha_partD(7) [OF ok] that unfolding one_each_def by (simp add: bucket_of_def owner_of_def domI)
  show ?thesis
  proof
    assume "memory_for a B h b = Some k"
    then have "owner_of (amems a) k = Some h" "k \<in> set (chain B b)" by (auto simp: memory_for_def find_Some_iff in_set_conv_nth)
    then show "\<exists>m. amems a k = Some m \<and> amh_owner m = h \<and> amh_bucket m = b" using G by (auto simp: owner_of_def bucket_of_def)
  next
    assume "\<exists>m. amems a k = Some m \<and> amh_owner m = h \<and> amh_bucket m = b"
    then obtain m where m: "amems a k = Some m" "amh_owner m = h" "amh_bucket m = b" by blast
    then have k: "k \<in> set (chain B b)" "owner_of (amems a) k = Some h" by (simp_all add: G bucket_of_def owner_of_def)
    then obtain k' where k': "memory_for a B h b = Some k'" by (cases "memory_for a B h b") (auto simp: memory_for_def find_None_iff)
    then have "owner_of (amems a) k' = Some h" "k' \<in> set (chain B b)" by (auto simp: memory_for_def find_Some_iff in_set_conv_nth)
    then obtain m' where "amems a k' = Some m'" "amh_owner m' = h" "amh_bucket m' = b" unfolding G owner_of_def bucket_of_def by auto
    then have "k' = k" using one m by blast
    then show "memory_for a B h b = Some k" using k' by simp
  qed
qed

lemma GetAlphaMemory_eq:
  assumes "alpha_part a B"
  shows "GetAlphaMemory h off a = Some (hdp (content a B h (AlphaMemoryHashValue h off)) None)"
proof (cases "memory_for a B h (AlphaMemoryHashValue h off)")
  case None
  then show ?thesis using FindAlphaMemory_eq [OF assms] by (simp add: GetAlphaMemory_def content_def)
next
  case (Some k)
  then obtain m where m: "amems a k = Some m" using memory_for_iff [OF assms] by blast
  have "queue_heads (amems a) k = hdp (queue B k) None"
    by (rule groupedD(1) [OF alpha_partD(4) [OF assms]])
  then show ?thesis using m Some FindAlphaMemory_eq [OF assms] by (simp add: GetAlphaMemory_def content_def queue_heads_def)
qed

section \<open>Frames\<close>

text \<open>What the two kinds of links do not concern.\<close>

definition amh_key :: "alphaMemoryHash \<Rightarrow> nat \<times> addr \<times> ptr \<times> ptr" where
  "amh_key m = (amh_bucket m, amh_owner m, alphaMemory m, endOfQueue m)"

abbreviation keys :: "(addr \<rightharpoonup> alphaMemoryHash) \<Rightarrow> (addr \<rightharpoonup> nat \<times> addr \<times> ptr \<times> ptr)" where
  "keys \<equiv> pays_of amh_key"

lemma keys_apply: "M k = Some m \<Longrightarrow> keys M k = Some (amh_bucket m, amh_owner m, alphaMemory m, endOfQueue m)" "M k = None \<Longrightarrow> keys M k = None"
  by (simp_all add: pays_of_def amh_key_def)

lemma keys_parts:
  "bucket_of M k = map_option fst (keys M k)" "owner_of M k = map_option (\<lambda>x. fst (snd x)) (keys M k)"
  "queue_heads M k = (case keys M k of None \<Rightarrow> None | Some (b, h, p, q) \<Rightarrow> p)"
  by (simp_all add: bucket_of_def owner_of_def queue_heads_def pays_of_def amh_key_def option.map_comp comp_def split: option.split)

lemma keys_Some: "keys M k = Some (b, h, p, q) \<longleftrightarrow> (\<exists>m. M k = Some m \<and> amh_bucket m = b \<and> amh_owner m = h \<and> alphaMemory m = p \<and> endOfQueue m = q)"
  by (auto simp: pays_of_def amh_key_def)

lemma keys_dom: "dom (keys M) = dom M"
  by (auto simp: pays_of_def)

lemma chain_frame:
  assumes "pays_of chain_rest M' = pays_of chain_rest M"
  shows "hash_links M' = hash_links M" "keys M' = keys M" "dom M' = dom M"
proof -
  show "hash_links M' = hash_links M" by (rule pays_links [OF assms]) (simp_all add: chain_rest_def)
  show "keys M' = keys M" using pays_field [OF assms, of amh_key] by (simp add: pays_of_def fun_eq_iff chain_rest_def amh_key_def)
  then show "dom M' = dom M" using keys_dom by metis
qed

lemma hash_frame:
  assumes "pays_of hash_rest M' = pays_of hash_rest M"
  shows "chain_links M' = chain_links M" "keys M' = keys M" "dom M' = dom M"
proof -
  show "chain_links M' = chain_links M" by (rule pays_links [OF assms]) (simp_all add: hash_rest_def)
  show "keys M' = keys M" using pays_field [OF assms, of amh_key] by (simp add: pays_of_def fun_eq_iff hash_rest_def amh_key_def)
  then show "dom M' = dom M" using keys_dom by metis
qed

end
