(* ===== verification/Alpha_Correct.thy ===== *)
theory Alpha_Correct
  imports Alpha_Invariant
begin

text \<open>Every operation on the alpha memories keeps \<open>alpha_ok\<close> and changes the contents of one memory only.\<close>

section \<open>A new memory\<close>

definition add_memory :: "addr \<Rightarrow> addr \<Rightarrow> nat \<Rightarrow> alpha_lists \<Rightarrow> alpha_lists" where
  "add_memory k h b B = B\<lparr>chain := (chain B)(b := k # chain B b), of_header := (of_header B)(h := of_header B h @ [k])\<rparr>"

text \<open>The writes to the links of the table.\<close>

lemma chain_in:
  assumes ok: "alpha_part a B" and k: "amems a k = None" and m: "amh_next m = hdp (chain B b) None" "amh_prev m = None"
  shows "\<exists>M. upd_if (hdp (chain B b) None) (set_prev (Some k)) ((amems a)(k \<mapsto> m)) = Some M \<and>
    dlseg (chain_links M) None (k # chain B b) None \<and> (\<forall>y. y \<notin> set (k # chain B b) \<longrightarrow> M y = amems a y) \<and>
    pays_of chain_rest M = pays_of chain_rest ((amems a)(k \<mapsto> m)) \<and> M k = Some m"
proof -
  note G = groupedD [OF alpha_partD(1) [OF ok]]
  let ?M = "(amems a)(k \<mapsto> m)" and ?S = "chain B b"
  have ns: "k \<notin> set ?S" using G(4) [of k b] k by auto
  have "dlseg (chain_links ?M) None ?S None = dlseg (chain_links (amems a)) None ?S None"
    by (rule dlseg_cong) (use ns in \<open>auto simp: links_of_def\<close>)
  then have seg: "dlseg (chain_links ?M) None ([] @ ?S) None" using G(3) [of b] by simp
  have d: "distinct ([] @ k # ?S)" using ns G(2) [of b] by simp
  obtain M where M: "upd_if (hdp ?S None) (set_prev (Some k)) ?M = Some M" "dlseg (chain_links M) None ([] @ k # ?S) None"
      "pays_of chain_rest M = pays_of chain_rest ?M" "\<forall>y. y \<notin> set ([] @ ?S) \<longrightarrow> M y = ?M y"
    using chn.link_node [OF seg d, of m] m by auto
  then show ?thesis using ns by (intro exI [of _ M]) auto
qed

text \<open>The writes to the list of the pattern, when it has an entry already.\<close>

lemma hash_in:
  assumes seg: "dlseg (hash_links M) None O1 None" and d: "distinct O1" "k \<notin> set O1" and k: "M k = Some m" "nextHash m = None" "prevHash m = None"
    and ne: "lastp None O1 = Some l"
  shows "\<exists>M1 M2. upd_at (Some l) (set_nextHash (Some k)) M = Some M1 \<and> upd_at (Some k) (set_prevHash (Some l)) M1 = Some M2 \<and>
    dlseg (hash_links M2) None (O1 @ [k]) None \<and> (\<forall>y. y \<notin> set (O1 @ [k]) \<longrightarrow> M2 y = M y) \<and> pays_of hash_rest M2 = pays_of hash_rest M"
proof -
  let ?m = "set_prevHash (Some l) m"
  let ?M = "M(k \<mapsto> ?m)"
  have l: "l \<in> set O1" using ne by (rule lastp_None_Some)
  then have lk: "l \<noteq> k" using d(2) by blast
  obtain ml where ml: "M l = Some ml" using dlseg_in_dom [OF seg l] by blast
  have "dlseg (hash_links ?M) None O1 None = dlseg (hash_links M) None O1 None"
    by (rule dlseg_cong) (use d(2) in \<open>auto simp: links_of_def\<close>)
  then have s: "dlseg (hash_links ?M) None (O1 @ []) None" using seg by simp
  obtain M2 where M2: "upd_if (lastp None O1) (set_nextHash (Some k)) ?M = Some M2" "dlseg (hash_links M2) None (O1 @ k # []) None"
      "pays_of hash_rest M2 = pays_of hash_rest ?M" "\<forall>y. y \<notin> set (O1 @ []) \<longrightarrow> M2 y = ?M y"
    using hsh.link_node [OF s, of k ?m] d ne k by auto
  have "M2 = ?M(l \<mapsto> set_nextHash (Some k) ml)" using M2(1) ne lk ml by simp
  then have eq: "M2 = (M(l \<mapsto> set_nextHash (Some k) ml))(k \<mapsto> ?m)" using lk by (simp add: fun_upd_twist)
  have "pays_of hash_rest ?M = pays_of hash_rest M" using k(1) by (auto simp: pays_of_def hash_rest_def fun_eq_iff)
  then have pay: "pays_of hash_rest M2 = pays_of hash_rest M" using M2(3) by simp
  have u: "upd_at (Some l) (set_nextHash (Some k)) M = Some (M(l \<mapsto> set_nextHash (Some k) ml))"
      "upd_at (Some k) (set_prevHash (Some l)) (M(l \<mapsto> set_nextHash (Some k) ml)) = Some M2"
    using ml lk k(1) by (simp_all add: eq)
  have "M2 y = M y" if "y \<notin> set (O1 @ [k])" for y using M2(4) that by simp
  then show ?thesis using u M2(2) pay by blast
qed

text \<open>What is kept when a memory without matches has been entered in both lists.\<close>

lemma entered_memory:
  assumes ok: "alpha_part a B" and k: "amems a k = None" and none: "memory_for a B h b = None"
    and c: "dlseg (chain_links M) None (k # chain B b) None" "\<And>y. y \<notin> set (k # chain B b) \<Longrightarrow> chain_links M y = chain_links (amems a) y"
    and o: "dlseg (hash_links M) None (of_header B h @ [k]) None" "\<And>y. y \<notin> set (of_header B h @ [k]) \<Longrightarrow> hash_links M y = hash_links (amems a) y"
    and keys: "keys M = (keys (amems a))(k \<mapsto> (b, h, None, None))"
    and H: "patternHeaders a h = Some P" and H': "firstHash P' = hdp (of_header B h @ [k]) None" "lastHash P' = Some k"
  shows "alpha_part (a\<lparr>amems := M, AlphaMemoryTable := (AlphaMemoryTable a)(b := Some k), patternHeaders := (patternHeaders a)(h \<mapsto> P')\<rparr>) (add_memory k h b B)"
proof -
  note A = alpha_partD [OF ok] and G = groupedD [OF alpha_partD(1) [OF ok]]
  have d: "dom M = insert k (dom (amems a))" using keys keys_dom [of M] keys_dom [of "amems a"] by auto
  have kd: "k \<notin> dom (amems a)" using k by auto
  have kp: "bucket_of M k = Some b" "owner_of M k = Some h" "queue_heads M k = None" by (simp_all add: keys_parts keys)
  have ky: "bucket_of M y = bucket_of (amems a) y" "owner_of M y = owner_of (amems a) y" "queue_heads M y = queue_heads (amems a) y" if "y \<noteq> k" for y
    using that by (simp_all add: keys_parts keys)
  have yk: "bucket_of M y = bucket_of (amems a) y" "owner_of M y = owner_of (amems a) y" if "y \<in> dom (amems a)" for y
    using that kd ky(1,2) [of y] by blast+
  have kn: "queue_heads (amems a) k = None" using k by (simp add: queue_heads_def)
  then have qk: "queue B k = []" using groupedD(1) [OF A(4), of k] by simp
  have "chains_ok M ((AlphaMemoryTable a)(b := Some k)) ((chain B)(b := k # chain B b))"
    unfolding chains_ok_def d
    using grouped_enter [OF A(1) kd, of b "[]" "chain B b" "chain_links M" "bucket_of M", OF _ _ _ kp(1) yk(1) refl] c by simp
  moreover have "headers_ok M ((patternHeaders a)(h \<mapsto> P')) ((of_header B)(h := of_header B h @ [k]))"
  proof -
    have "first_hashes ((patternHeaders a)(h \<mapsto> P')) = (first_hashes (patternHeaders a))(h := hdp (of_header B h @ k # []) None)"
      using H'(1) by (simp add: first_hashes_def fun_eq_iff)
    then have "grouped (dom M) (hash_links M) (first_hashes ((patternHeaders a)(h \<mapsto> P'))) (owner_of M) ((of_header B)(h := of_header B h @ [k]))"
      unfolding d using grouped_enter [OF A(2) kd, of h "of_header B h" "[]" "hash_links M" "owner_of M", OF _ _ _ kp(2) yk(2) refl] o by simp
    then show ?thesis using A(3) H'(2) by (auto simp: headers_ok_def)
  qed
  moreover have "queues_ok M (match_nodes a) (add_memory k h b B)"
  proof -
    have qh: "queue_heads M = queue_heads (amems a)" using ky(3) kp(3) kn by (metis ext)
    have "endOfQueue m = lastp None (queue B k')" if "M k' = Some m" for k' m
    proof (cases "k' = k")
      case True
      then show ?thesis using keys_apply(1) [of M k' m, OF that] keys qk by simp
    next
      case False
      then show ?thesis using keys_apply(1) [of M k' m, OF that] keys A(5) [of k'] by (auto simp: keys_Some)
    qed
    moreover have "\<exists>m n. M k' = Some m \<and> match_nodes a x = Some n \<and> \<not> betaMemory n \<and> alphaBucket n = amh_bucket m" if hx: "holder B x = Some k'" for x k'
    proof -
      obtain m n where mn: "amems a k' = Some m" "match_nodes a x = Some n" "\<not> betaMemory n" "alphaBucket n = amh_bucket m" using A(6) [OF hx] by blast
      then have "keys M k' = Some (amh_bucket m, amh_owner m, alphaMemory m, endOfQueue m)" using keys keys_apply(1) [of "amems a" k' m, OF mn(1)] k by auto
      then show ?thesis using mn by (auto simp: keys_Some)
    qed
    ultimately show ?thesis using A(4) unfolding queues_ok_def qh add_memory_def by simp
  qed
  moreover have "one_each M"
  proof -
    have nb: "\<not> (bucket_of (amems a) y = Some b \<and> owner_of (amems a) y = Some h)" for y
      using none memory_for_iff [OF ok, of h b y] by (auto simp: bucket_of_def owner_of_def)
    show ?thesis unfolding one_each_def
    proof (intro ballI impI)
      fix x y assume x: "x \<in> dom M" and y: "y \<in> dom M" and e: "bucket_of M x = bucket_of M y \<and> owner_of M x = owner_of M y"
      show "x = y"
      proof (cases "x = k \<or> y = k")
        case True
        then show ?thesis using e nb [of x] nb [of y] kp ky(1,2) [of x] ky(1,2) [of y] by metis
      next
        case False
        then have "x \<in> dom (amems a)" "y \<in> dom (amems a)" using x y d by auto
        then show ?thesis using A(7) e ky(1,2) False unfolding one_each_def by metis
      qed
    qed
  qed
  ultimately show ?thesis by (simp add: alpha_part_def add_memory_def)
qed

lemma alpha_part_rete: "match_nodes a' = match_nodes a \<Longrightarrow> amems a' = amems a \<Longrightarrow> AlphaMemoryTable a' = AlphaMemoryTable a \<Longrightarrow>
    patternHeaders a' = patternHeaders a \<Longrightarrow> alpha_part a' B = alpha_part a B"
  by (simp add: alpha_part_def)

lemma new_memory_ok:
  assumes ok: "alpha_part a B" and H: "patternHeaders a h = Some P" and none: "memory_for a B h b = None" and k: "k = fresh (rete_env (alpha_rete a))" "amems a k = None"
  shows "\<exists>a'. new_alpha_memory h b a = Some (k, a') \<and> alpha_part a' (add_memory k h b B) \<and> match_nodes a' = match_nodes a \<and>
    alpha_rete a' = (alpha_rete a)\<lparr>rete_env := (rete_env (alpha_rete a))\<lparr>fresh := k + 1\<rparr>\<rparr> \<and>
    keys (amems a') = (keys (amems a))(k \<mapsto> (b, h, None, None)) \<and> dom (patternHeaders a') = dom (patternHeaders a)"
proof -
  note A = alpha_partD [OF ok] and G = groupedD [OF alpha_partD(2) [OF ok]]
  let ?m = "\<lparr>amh_bucket = b, amh_owner = h, alphaMemory = None, endOfQueue = None, nextHash = None, prevHash = None,
       amh_next = hdp (chain B b) None, amh_prev = None\<rparr>"
  have tb: "AlphaMemoryTable a b = hdp (chain B b) None" by (rule groupedD(1) [OF A(1)])
  have fh: "firstHash P = hdp (of_header B h) None" using G(1) [of h] H by (simp add: first_hashes_def)
  have ko: "k \<notin> set (of_header B h)" using G(4) [of k h] k(2) by auto
  obtain M where M: "upd_if (hdp (chain B b) None) (set_prev (Some k)) ((amems a)(k \<mapsto> ?m)) = Some M" "dlseg (chain_links M) None (k # chain B b) None"
      "\<forall>y. y \<notin> set (k # chain B b) \<longrightarrow> M y = amems a y" "pays_of chain_rest M = pays_of chain_rest ((amems a)(k \<mapsto> ?m))" "M k = Some ?m"
    using chain_in [OF ok k(2), of ?m b] by auto
  note F = chain_frame [OF M(4)]
  have ml: "hash_links M = (hash_links (amems a))(k \<mapsto> (None, None))" using F(1) by simp
  have mk: "keys M = (keys (amems a))(k \<mapsto> (b, h, None, None))" using F(2) by (simp add: amh_key_def)
  have seg: "dlseg (hash_links M) None (of_header B h) None"
    using G(3) [of h] ko dlseg_cong [of "of_header B h" "hash_links M" "hash_links (amems a)" None None] ml by auto
  have cy: "chain_links M y = chain_links (amems a) y" if "y \<notin> set (k # chain B b)" for y using M(3) that by (simp add: links_of_def)
  let ?a1 = "a\<lparr>alpha_rete := (alpha_rete a)\<lparr>rete_env := (rete_env (alpha_rete a))\<lparr>fresh := k + 1\<rparr>\<rparr>, amems := M, AlphaMemoryTable := (AlphaMemoryTable a)(b \<mapsto> k)\<rparr>"
  obtain M' P' where r: "(if firstHash P = None
         then upd_header h (\<lambda>H. H\<lparr>firstHash := Some k, lastHash := Some k\<rparr>) ?a1
         else do {
           b \<leftarrow> upd_amem (lastHash P) (set_nextHash (Some k)) ?a1;
           b1 \<leftarrow> upd_amem (Some k) (set_prevHash (lastHash P)) b;
           upd_header h (\<lambda>H. H\<lparr>lastHash := Some k\<rparr>) b1 }) = Some (?a1\<lparr>amems := M', patternHeaders := (patternHeaders a)(h \<mapsto> P')\<rparr>)"
      "dlseg (hash_links M') None (of_header B h @ [k]) None" "\<forall>y. y \<notin> set (of_header B h @ [k]) \<longrightarrow> M' y = M y"
      "pays_of hash_rest M' = pays_of hash_rest M" "firstHash P' = hdp (of_header B h @ [k]) None" "lastHash P' = Some k"
  proof (cases "of_header B h = []")
    case True
    show ?thesis by (rule that [where M' = M and P' = "P\<lparr>firstHash := Some k, lastHash := Some k\<rparr>"]) (use True fh H ml in \<open>simp_all add: upd_header_def\<close>)
  next
    case False
    then obtain l where l: "lastp None (of_header B h) = Some l" by (cases "lastp None (of_header B h)") auto
    obtain M1 M2 where u: "upd_at (Some l) (set_nextHash (Some k)) M = Some M1" "upd_at (Some k) (set_prevHash (Some l)) M1 = Some M2"
        "dlseg (hash_links M2) None (of_header B h @ [k]) None" "\<forall>y. y \<notin> set (of_header B h @ [k]) \<longrightarrow> M2 y = M y" "pays_of hash_rest M2 = pays_of hash_rest M"
      using hash_in [OF seg G(2) ko M(5) _ _ l] by auto
    have lp: "lastHash P = Some l" using A(3) [OF H] l by simp
    show ?thesis by (rule that [where M' = M2 and P' = "P\<lparr>lastHash := Some k\<rparr>"])
      (use False fh H u lp in \<open>simp_all add: upd_header_def upd_amem_def hdp_hd\<close>)
  qed
  note E = hash_frame [OF r(4)]
  let ?a = "?a1\<lparr>amems := M', patternHeaders := (patternHeaders a)(h \<mapsto> P')\<rparr>"
  have hy: "hash_links M' y = hash_links (amems a) y" if "y \<notin> set (of_header B h @ [k])" for y
    using r(3) that ml by (simp add: links_of_def [of _ _ M']) (metis fun_upd_other links_of_def ml)
  have "alpha_part (a\<lparr>amems := M', AlphaMemoryTable := (AlphaMemoryTable a)(b := Some k), patternHeaders := (patternHeaders a)(h \<mapsto> P')\<rparr>) (add_memory k h b B)"
    by (rule entered_memory [OF ok k(2) none _ _ r(2) hy _ H r(5,6)]) (use M(2) cy E mk in simp_all)
  then have part: "alpha_part ?a (add_memory k h b B)" by (simp add: alpha_part_def)
  have run: "new_alpha_memory h b a = Some (k, ?a)"
    using M(1) H r(1)
    by (cases "firstHash P = None") (auto simp: new_alpha_memory_def Let_def k(1) [symmetric] tb upd_amem_if_def Option.bind_eq_Some_conv)
  show ?thesis using run part E(2) mk H by (intro exI [of _ ?a]) (auto simp: insert_absorb domI)
qed

section \<open>Queues\<close>

lemma requeued:
  assumes ok: "alpha_part a B" and k: "amems a k = Some m"
    and g: "grouped (dom (holder B')) (memory_links (pms s')) ((queue_heads (amems a))(k := hdp Q None)) (holder B') (queue B')"
    and B: "chain B' = chain B" "of_header B' = of_header B" "queue B' = (queue B)(k := Q)"
    and h: "\<And>x k'. holder B' x = Some k' \<Longrightarrow> \<exists>m n. amems a k' = Some m \<and> pms s' x = Some n \<and> \<not> betaMemory n \<and> alphaBucket n = amh_bucket m"
  shows "alpha_part (a\<lparr>alpha_rete := s', amems := (amems a)(k \<mapsto> m\<lparr>alphaMemory := hdp Q None, endOfQueue := lastp None Q\<rparr>)\<rparr>) B'"
proof -
  note A = alpha_partD [OF ok]
  let ?M = "(amems a)(k \<mapsto> m\<lparr>alphaMemory := hdp Q None, endOfQueue := lastp None Q\<rparr>)"
  have kd: "k \<in> dom (amems a)" using k by blast
  have l: "chain_links ?M = chain_links (amems a)" "hash_links ?M = hash_links (amems a)" "dom ?M = dom (amems a)"
      "bucket_of ?M = bucket_of (amems a)" "owner_of ?M = owner_of (amems a)" "queue_heads ?M = (queue_heads (amems a))(k := hdp Q None)"
    using k by (auto simp: links_of_def bucket_of_def owner_of_def queue_heads_def fun_eq_iff)
  have "chains_ok ?M (AlphaMemoryTable a) (chain B')" using A(1) by (simp only: chains_ok_def l B)
  moreover have "headers_ok ?M (patternHeaders a) (of_header B')" unfolding headers_ok_def l B using A(2,3) by blast
  moreover have "queues_ok ?M (pms s') B'"
    unfolding queues_ok_def l
  proof (intro conjI allI impI)
    show "endOfQueue m' = lastp None (queue B' k')" if "?M k' = Some m'" for k' m' using that A(5) [of k' m'] B(3) by (auto split: if_splits)
    show "\<exists>m n. ?M k' = Some m \<and> pms s' x = Some n \<and> \<not> betaMemory n \<and> alphaBucket n = amh_bucket m" if "holder B' x = Some k'" for x k'
      using h [OF that] k by (cases "k' = k") auto
  qed (rule g)
  moreover have "one_each ?M" using A(7) by (simp only: one_each_def l)
  ultimately show ?thesis by (simp add: alpha_part_def)
qed

definition put_match :: "addr \<Rightarrow> addr \<Rightarrow> alpha_lists \<Rightarrow> alpha_lists" where
  "put_match k x B = B\<lparr>queue := (queue B)(k := queue B k @ [x]), holder := (holder B)(x \<mapsto> k)\<rparr>"

lemma enqueue_ok:
  assumes ok: "alpha_part a B" and k: "amems a k = Some m"
    and x: "match_nodes a x = Some n" "\<not> betaMemory n" "alphaBucket n = amh_bucket m" "nextInMemory n = None" "holder B x = None"
  shows "\<exists>a' h. enqueue_match x k a = Some a' \<and> alpha_part a' (put_match k x B) \<and> alpha_rete a' = (alpha_rete a)\<lparr>pms := h\<rparr> \<and>
    pays_of memory_rest h = pays_of memory_rest (match_nodes a) \<and> (\<forall>y. y \<notin> set (queue B k @ [x]) \<longrightarrow> h y = match_nodes a y) \<and>
    bucket_of (amems a') = bucket_of (amems a) \<and> owner_of (amems a') = owner_of (amems a) \<and> patternHeaders a' = patternHeaders a"
proof -
  note A = alpha_partD [OF ok] and G = groupedD [OF alpha_partD(4) [OF ok]]
  define Q where "Q = queue B k"
  let ?n = "set_prevIn (lastp None Q) n"
  let ?N = "(match_nodes a)(x \<mapsto> ?n)"
  have hq: "alphaMemory m = hdp Q None" "endOfQueue m = lastp None Q" using G(1) [of k] k A(5) [OF k] by (simp_all add: queue_heads_def Q_def)
  have xq: "x \<notin> set Q" using G(4) [of x k] x(5) by (simp add: Q_def)
  have "dlseg (memory_links ?N) None Q None = dlseg (memory_links (match_nodes a)) None Q None"
    by (rule dlseg_cong) (use xq in \<open>auto simp: links_of_def\<close>)
  then have seg: "dlseg (memory_links ?N) None (Q @ []) None" using G(3) [of k] by (simp add: Q_def)
  have d: "distinct (Q @ x # [])" using xq G(2) [of k] by (simp add: Q_def)
  obtain h where h: "upd_if (lastp None Q) (set_nextIn (Some x)) ?N = Some h" "dlseg (memory_links h) None (Q @ x # []) None"
      "pays_of memory_rest h = pays_of memory_rest ?N" "\<forall>y. y \<notin> set (Q @ []) \<longrightarrow> h y = ?N y"
    using mem.link_node [OF seg d, of ?n] x(4) by auto
  have p: "pays_of memory_rest h = pays_of memory_rest (match_nodes a)" using h(3) x(1) by (auto simp: pays_of_def memory_rest_def fun_eq_iff)
  let ?m = "m\<lparr>alphaMemory := hdp (Q @ [x]) None, endOfQueue := lastp None (Q @ [x])\<rparr>"
  let ?a = "a\<lparr>alpha_rete := (alpha_rete a)\<lparr>pms := h\<rparr>, amems := (amems a)(k \<mapsto> ?m)\<rparr>"
  have run: "enqueue_match x k a = Some ?a"
  proof (cases "lastp None Q")
    case None
    then have "Q = []" "h = ?N" using h(1) by auto
    then show ?thesis using None k x(1) hq by (simp add: enqueue_match_def upd_node_def upd_pm_def upd_amem_def)
  next
    case (Some l)
    then have "Q \<noteq> []" by auto
    then have "m\<lparr>endOfQueue := Some x\<rparr> = ?m" using hq by (cases m) (simp add: hdp_hd)
    then show ?thesis using Some k x(1) hq h(1) by (simp add: enqueue_match_def upd_node_def upd_pm_def upd_amem_def)
  qed
  have "grouped (insert x (dom (holder B))) (memory_links h) ((queue_heads (amems a))(k := hdp (Q @ [x]) None)) ((holder B)(x \<mapsto> k)) ((queue B)(k := Q @ [x]))"
  proof (rule grouped_enter [OF A(4), of x k Q "[]"])
    show "memory_links h y = memory_links (match_nodes a) y" if "y \<notin> set (Q @ x # [])" for y using h(4) that by (simp add: links_of_def)
    show "((holder B)(x \<mapsto> k)) y = holder B y" if "y \<in> dom (holder B)" for y using that x(5) by auto
  qed (use x(5) h(2) in \<open>auto simp: Q_def\<close>)
  then have part: "alpha_part ?a (put_match k x B)"
  proof (intro requeued [OF ok k])
    show "\<exists>m n. amems a k' = Some m \<and> pms ((alpha_rete a)\<lparr>pms := h\<rparr>) y = Some n \<and> \<not> betaMemory n \<and> alphaBucket n = amh_bucket m"
      if y: "holder (put_match k x B) y = Some k'" for y k'
    proof -
      have rest: "map_option (\<lambda>n. (betaMemory n, alphaBucket n)) (h y) = map_option (\<lambda>n. (betaMemory n, alphaBucket n)) (match_nodes a y)"
        by (rule pays_field [OF p]) (simp add: memory_rest_def)
      show ?thesis
      proof (cases "y = x")
        case True
        then show ?thesis using y k x(1-3) rest by (auto simp: put_match_def)
      next
        case False
        then have "holder B y = Some k'" using y by (simp add: put_match_def)
        then show ?thesis using A(6) [of y k'] rest by fastforce
      qed
    qed
  qed (simp_all add: put_match_def Q_def)
  have "h y = match_nodes a y" if "y \<notin> set (queue B k @ [x])" for y using h(4) that by (simp add: Q_def)
  moreover have "bucket_of (amems ?a) = bucket_of (amems a)" "owner_of (amems ?a) = owner_of (amems a)" using k by (auto simp: bucket_of_def owner_of_def)
  ultimately show ?thesis using run part p by (intro exI [of _ ?a] exI [of _ h]) simp
qed

section \<open>Contents\<close>

lemma memory_for_keys:
  assumes "alpha_part a B"
  shows "memory_for a B h b = Some k \<longleftrightarrow> bucket_of (amems a) k = Some b \<and> owner_of (amems a) k = Some h"
  unfolding memory_for_iff [OF assms] by (auto simp: bucket_of_def owner_of_def)

lemma bucket_dom: "dom (bucket_of M) = dom M"
  by (auto simp: bucket_of_def)

lemma memory_for_same:
  assumes "alpha_part a B" "alpha_part a' B'" "bucket_of (amems a') = bucket_of (amems a)" "owner_of (amems a') = owner_of (amems a)"
  shows "memory_for a' B' h b = memory_for a B h b"
proof -
  have "memory_for a' B' h b = Some k \<longleftrightarrow> memory_for a B h b = Some k" for k
    using memory_for_keys [OF assms(1), of h b k] memory_for_keys [OF assms(2), of h b k] assms(3,4) by simp
  then show ?thesis by (metis option.exhaust)
qed

definition set_content :: "addr \<Rightarrow> nat \<Rightarrow> addr list \<Rightarrow> (addr \<Rightarrow> nat \<Rightarrow> addr list) \<Rightarrow> (addr \<Rightarrow> nat \<Rightarrow> addr list)" where
  "set_content h b xs C = C(h := (C h)(b := xs))"

lemma content_requeued:
  assumes ok: "alpha_part a B" "alpha_part a' B'" "bucket_of (amems a') = bucket_of (amems a)" "owner_of (amems a') = owner_of (amems a)"
    and k: "memory_for a B h b = Some k" and q: "queue B' = (queue B)(k := xs)"
  shows "content a' B' = set_content h b xs (content a B)"
proof (intro ext)
  fix h' b'
  have "memory_for a B h' b' = Some k \<longleftrightarrow> h' = h \<and> b' = b"
    using k memory_for_keys [OF ok(1), of h b k] memory_for_keys [OF ok(1), of h' b' k] by auto
  then show "content a' B' h' b' = set_content h b xs (content a B) h' b'"
    using memory_for_same [OF ok, of h' b'] q k by (auto simp: content_def set_content_def split: option.split)
qed

lemma content_new_memory:
  assumes ok: "alpha_part a B" "alpha_part a' (add_memory k h b B)" and k: "amems a k = None" "memory_for a B h b = None"
    and key: "keys (amems a') = (keys (amems a))(k \<mapsto> (b, h, None, None))"
  shows "content a' (add_memory k h b B) = content a B" "memory_for a' (add_memory k h b B) h b = Some k"
proof -
  note M = memory_for_keys [OF ok(1)] memory_for_keys [OF ok(2)]
  have kp: "bucket_of (amems a') k = Some b" "owner_of (amems a') k = Some h" by (simp_all add: keys_parts key)
  have ky: "bucket_of (amems a') y = bucket_of (amems a) y" "owner_of (amems a') y = owner_of (amems a) y" if "y \<noteq> k" for y
    using that by (simp_all add: keys_parts key)
  have kn: "bucket_of (amems a) k = None" using k(1) by (simp add: bucket_of_def)
  show m: "memory_for a' (add_memory k h b B) h b = Some k" using M(2) kp by blast
  have qk: "queue B k = []" using groupedD(1) [OF alpha_partD(4) [OF ok(1)], of k] k(1) by (simp add: queue_heads_def)
  show "content a' (add_memory k h b B) = content a B"
  proof (intro ext)
    fix h' b'
    show "content a' (add_memory k h b B) h' b' = content a B h' b'"
    proof (cases "h' = h \<and> b' = b")
      case True
      then show ?thesis using m k(2) qk by (simp add: content_def add_memory_def)
    next
      case False
      have "memory_for a' (add_memory k h b B) h' b' = Some y \<longleftrightarrow> memory_for a B h' b' = Some y" for y
        using M(1) [of h' b' y] M(2) [of h' b' y] kp ky [of y] False kn by (cases "y = k") auto
      then have "memory_for a' (add_memory k h b B) h' b' = memory_for a B h' b'" by (metis option.exhaust)
      moreover have "queue (add_memory k h b B) = queue B" by (simp add: add_memory_def)
      ultimately show ?thesis by (simp only: content_def)
    qed
  qed
qed

section \<open>Creating a match\<close>

lemma new_node_part:
  assumes ok: "alpha_part a B" and x: "match_nodes a x = None" and s: "pms s = (match_nodes a)(x \<mapsto> n)"
  shows "alpha_part (a\<lparr>alpha_rete := s\<rparr>) B"
proof -
  note A = alpha_partD [OF ok]
  have nx: "y \<noteq> x" if "y \<in> dom (holder B)" for y using A(6) [of y] x that by auto
  have "grouped (dom (holder B)) (memory_links (pms s)) (queue_heads (amems a)) (holder B) (queue B)"
    by (rule grouped_cong [OF A(4)]) (use nx s in \<open>auto simp: links_of_def\<close>)
  moreover have "\<exists>m n. amems a k = Some m \<and> pms s y = Some n \<and> \<not> betaMemory n \<and> alphaBucket n = amh_bucket m" if y: "holder B y = Some k" for y k
    using A(6) [OF y] nx [of y] y s by auto
  ultimately show ?thesis using ok A(5) by (simp add: alpha_part_def queues_ok_def)
qed

definition alpha_node :: "bool \<Rightarrow> multifieldMarker list \<Rightarrow> u64 \<Rightarrow> nat \<Rightarrow> pmNode" where
  "alpha_node rhs ms off b = InitializePMLinks (blank_node\<lparr>betaMemory := False, rhsMemory := rhs, pm_hashValue := off,
     alphaBucket := b, alphaMarkers := CopyMultifieldMarkers ms\<rparr>)"

lemma copy_markers [simp]: "CopyMultifieldMarkers ms = ms"
  by (induction ms) simp_all

lemma alpha_node_simps [simp]:
  "betaMemory (alpha_node rhs ms off b) = False" "alphaBucket (alpha_node rhs ms off b) = b" "nextInMemory (alpha_node rhs ms off b) = None"
  "prevInMemory (alpha_node rhs ms off b) = None" "pm_hashValue (alpha_node rhs ms off b) = off" "alphaMarkers (alpha_node rhs ms off b) = ms"
  "bare (alpha_node rhs ms off b)"
  by (simp_all add: alpha_node_def InitializePMLinks_def bare_def)

lemma CreateAlphaMatch_ok:
  fixes off :: u64
  assumes ok: "alpha_ok a B" and H: "patternHeaders a h \<noteq> None" and x: "x = fresh (rete_env (alpha_rete a))" "match_nodes a x = None" "amems a (x + 1) = None"
  defines "b \<equiv> AlphaMemoryHashValue h off"
  shows "\<exists>a' B' N. CreateAlphaMatch own rhs y ms h off a = Some (x, a') \<and> alpha_ok a' B' \<and>
    content a' B' = set_content h b (content a B h b @ [x]) (content a B) \<and> dom (patternHeaders a') = dom (patternHeaders a) \<and>
    (\<exists>k m. holder B' = (holder B)(x \<mapsto> k) \<and> amems a' k = Some m \<and> amh_owner m = h \<and> amh_bucket m = b) \<and>
    (\<exists>f. alpha_rete a' = (alpha_rete a)\<lparr>rete_env := (rete_env (alpha_rete a))\<lparr>matches := (rows (alpha_rete a))(x \<mapsto> new_row own [Some (Some y)]), fresh := f\<rparr>, pms := N\<rparr>) \<and>
    pays_of memory_rest N = pays_of memory_rest ((match_nodes a)(x \<mapsto> alpha_node rhs ms off b)) \<and> (\<forall>z. z \<notin> insert x (dom (holder B)) \<longrightarrow> N z = match_nodes a z)"
proof -
  have part: "alpha_part a B" and full: "\<And>k. k \<in> dom (amems a) \<Longrightarrow> queue B k \<noteq> []" using ok by (simp_all add: alpha_ok_def)
  obtain P where P: "patternHeaders a h = Some P" using H by blast
  let ?n = "alpha_node rhs ms off b"
  let ?s = "(alpha_rete a)\<lparr>pms := (match_nodes a)(x \<mapsto> ?n), rete_env := (rete_env (alpha_rete a))\<lparr>matches := (rows (alpha_rete a))(x \<mapsto> new_row own [Some (Some y)]), fresh := x + 1\<rparr>\<rparr>"
  define a1 where "a1 = a\<lparr>alpha_rete := ?s\<rparr>"
  have r1: "new_alpha_match own rhs y ms off b a = (x, a1)"
    by (simp add: new_alpha_match_def new_match_def Let_def a1_def alpha_node_def x(1))
  have p1: "alpha_part a1 B" unfolding a1_def by (rule new_node_part [OF part x(2), of _ ?n]) simp
  have e1: "amems a1 = amems a" "patternHeaders a1 h = Some P" "match_nodes a1 = (match_nodes a)(x \<mapsto> ?n)" "dom (patternHeaders a1) = dom (patternHeaders a)"
    using P by (simp_all add: a1_def)
  have c1: "content a1 B = content a B" by (intro ext) (simp add: content_def memory_for_def e1(1))
  have hx: "holder B x = None" using alpha_partD(6) [OF part, of x] x(2) by (cases "holder B x") auto
  obtain k a2 B2 where a2: "(case memory_for a1 B h b of None \<Rightarrow> new_alpha_memory h b a1 | Some k \<Rightarrow> Some (k, a1)) = Some (k, a2)"
      "alpha_part a2 B2" "content a2 B2 = content a B" "memory_for a2 B2 h b = Some k" "match_nodes a2 = match_nodes a1" "holder B2 = holder B"
      "queue B2 = queue B" "\<forall>k'. k' \<in> dom (amems a2) \<longrightarrow> k' = k \<or> k' \<in> dom (amems a)" "dom (patternHeaders a2) = dom (patternHeaders a)"
      "\<exists>f. alpha_rete a2 = (alpha_rete a1)\<lparr>rete_env := (rete_env (alpha_rete a1))\<lparr>fresh := f\<rparr>\<rparr>"
      "\<forall>k'. k' = k \<or> bucket_of (amems a2) k' = bucket_of (amems a) k'"
  proof (cases "memory_for a1 B h b")
    case (Some k)
    show ?thesis by (rule that [where k = k and ?a2.0 = a1 and ?B2.0 = B])
      (use Some p1 c1 e1 in \<open>auto intro: exI [of _ "x + 1"] simp: a1_def\<close>)
  next
    case None
    have f: "x + 1 = fresh (rete_env (alpha_rete a1))" "amems a1 (x + 1) = None" using x(3) by (simp_all add: a1_def)
    obtain a2 where a2: "new_alpha_memory h b a1 = Some (x + 1, a2)" "alpha_part a2 (add_memory (x + 1) h b B)" "match_nodes a2 = match_nodes a1"
        "alpha_rete a2 = (alpha_rete a1)\<lparr>rete_env := (rete_env (alpha_rete a1))\<lparr>fresh := x + 1 + 1\<rparr>\<rparr>"
        "keys (amems a2) = (keys (amems a1))(x + 1 \<mapsto> (b, h, None, None))" "dom (patternHeaders a2) = dom (patternHeaders a1)"
      using new_memory_ok [OF p1 e1(2) None f] by blast
    note C = content_new_memory [OF p1 a2(2) f(2) None a2(5)]
    have "dom (amems a2) = insert (x + 1) (dom (amems a))" using a2(5) keys_dom [of "amems a2"] keys_dom [of "amems a1"] e1(1) by auto
    moreover have "k' = x + 1 \<or> bucket_of (amems a2) k' = bucket_of (amems a) k'" for k' using a2(5) e1(1) by (simp add: keys_parts)
    ultimately show ?thesis by (intro that [where k = "x + 1" and ?a2.0 = a2 and ?B2.0 = "add_memory (x + 1) h b B"])
      (use None a2 C c1 e1 in \<open>auto simp: add_memory_def\<close>)
  qed
  obtain m where m: "amems a2 k = Some m" "amh_owner m = h" "amh_bucket m = b" using memory_for_iff [OF a2(2)] a2(4) by blast
  have n2: "match_nodes a2 x = Some ?n" using a2(5) e1(3) by simp
  obtain a3 N where a3: "enqueue_match x k a2 = Some a3" "alpha_part a3 (put_match k x B2)" "alpha_rete a3 = (alpha_rete a2)\<lparr>pms := N\<rparr>"
      "pays_of memory_rest N = pays_of memory_rest (match_nodes a2)" "\<forall>z. z \<notin> set (queue B2 k @ [x]) \<longrightarrow> N z = match_nodes a2 z"
      "bucket_of (amems a3) = bucket_of (amems a2)" "owner_of (amems a3) = owner_of (amems a2)" "patternHeaders a3 = patternHeaders a2"
    using enqueue_ok [OF a2(2) m(1) n2] m(3) hx a2(6) by auto
  have run: "CreateAlphaMatch own rhs y ms h off a = Some (x, a3)"
    using r1 FindAlphaMemory_eq [OF p1, of h b] a2(1) a3(1) by (simp add: CreateAlphaMatch_def Let_def b_def [symmetric])
  have qk: "content a2 B2 h b = queue B2 k" using a2(4) by (simp add: content_def)
  have "content a3 (put_match k x B2) = set_content h b (queue B2 k @ [x]) (content a2 B2)"
    by (rule content_requeued [OF a2(2) a3(2,6,7) a2(4)]) (simp add: put_match_def)
  then have cont: "content a3 (put_match k x B2) = set_content h b (content a B h b @ [x]) (content a B)" using a2(3) qk by simp
  have d3: "dom (amems a3) = dom (amems a2)" using arg_cong [OF a3(6), of dom] by (simp add: bucket_dom)
  have "queue (put_match k x B2) k' \<noteq> []" if "k' \<in> dom (amems a3)" for k'
    using that d3 a2(7,8) full [of k'] by (cases "k' = k") (auto simp: put_match_def)
  moreover have "c < 63559" if c: "bucket_of (amems a3) k' = Some c" for k' c
  proof (cases "k' = k")
    case True
    then have "c = b" using c a3(6) m by (simp add: bucket_of_def)
    then show ?thesis using AlphaMemoryHashValue_bound by (simp add: b_def)
  next
    case False
    then show ?thesis using c a3(6) a2(11) ok unfolding alpha_ok_def by metis
  qed
  ultimately have "alpha_ok a3 (put_match k x B2)" using a3(2) by (simp add: alpha_ok_def)
  moreover have "\<exists>f. alpha_rete a3 = (alpha_rete a)\<lparr>rete_env := (rete_env (alpha_rete a))\<lparr>matches := (rows (alpha_rete a))(x \<mapsto> new_row own [Some (Some y)]), fresh := f\<rparr>, pms := N\<rparr>"
    using a3(3) a2(10) by (auto simp: a1_def)
  moreover have "N z = match_nodes a z" if z: "z \<notin> insert x (dom (holder B))" for z
  proof -
    have "z \<notin> set (queue B2 k)" using z groupedD(4) [OF alpha_partD(4) [OF a2(2)], of z k] a2(6) by auto
    then show ?thesis using a3(5) z a2(5) e1(3) by simp
  qed
  moreover have "\<exists>k' m. holder (put_match k x B2) = (holder B)(x \<mapsto> k') \<and> amems a3 k' = Some m \<and> amh_owner m = h \<and> amh_bucket m = b"
  proof -
    have "owner_of (amems a3) k = Some h" "bucket_of (amems a3) k = Some b" using m a3(6,7) by (simp_all add: owner_of_def bucket_of_def)
    then obtain m' where "amems a3 k = Some m'" "amh_owner m' = h" "amh_bucket m' = b" by (auto simp: owner_of_def bucket_of_def)
    then show ?thesis using a2(6) by (intro exI [of _ k] exI [of _ m']) (simp add: put_match_def)
  qed
  ultimately show ?thesis using run cont a3(4,8) a2(5,9) e1(3) by (intro exI [of _ a3] exI [of _ "put_match k x B2"] exI [of _ N]) simp
qed

end
