(* ===== verification/Alpha_Remove.thy ===== *)
theory Alpha_Remove
  imports Alpha_Correct
begin

text \<open>Removal of matches from the alpha memories, and of the memories that become empty.\<close>

section \<open>Unlinking a memory\<close>

definition drop_memory :: "addr \<Rightarrow> addr \<Rightarrow> nat \<Rightarrow> alpha_lists \<Rightarrow> alpha_lists" where
  "drop_memory k h b B = B\<lparr>chain := (chain B)(b := remove1 k (chain B b)), of_header := (of_header B)(h := remove1 k (of_header B h))\<rparr>"

lemma siblings_ok:
  assumes ok: "chains_ok (amems a) (AlphaMemoryTable a) C" and k: "amems a k = Some m" "amh_bucket m = b"
  shows "\<exists>M. UnlinkAlphaMemoryBucketSiblings k a = Some (a\<lparr>AlphaMemoryTable := (AlphaMemoryTable a)(b := hdp (remove1 k (C b)) None), amems := M\<rparr>) \<and>
    dlseg (chain_links M) None (remove1 k (C b)) None \<and> pays_of chain_rest M = pays_of chain_rest (amems a) \<and>
    (\<forall>y. y \<notin> set (remove1 k (C b)) \<longrightarrow> M y = amems a y) \<and> k \<in> set (C b)"
proof -
  note G = groupedD [OF ok [unfolded chains_ok_def]]
  have kc: "k \<in> set (C b)" using G(4) [of k b] k by (auto simp: bucket_of_def)
  then obtain P S where PS: "C b = P @ k # S" by (auto simp: in_set_conv_decomp)
  have d: "distinct (P @ k # S)" and seg: "dlseg (chain_links (amems a)) None (P @ k # S) None" using G(2,3) [of b] PS by simp_all
  have rm: "remove1 k (C b) = P @ S" using d PS by (simp add: remove1_append)
  have m: "amh_prev m = lastp None P" "amh_next m = hdp S None" using dlseg_node [OF seg] k(1) by auto
  obtain M1 M where M: "upd_if (lastp None P) (set_next (hdp S None)) (amems a) = Some M1" "upd_if (hdp S None) (set_prev (lastp None P)) M1 = Some M"
      "dlseg (chain_links M) None (P @ S) None" "pays_of chain_rest M = pays_of chain_rest (amems a)" "\<forall>y. y \<notin> set (P @ S) \<longrightarrow> M y = amems a y"
    using chn.unlink_node [OF seg d] by blast
  let ?T = "(AlphaMemoryTable a)(b := hdp (P @ S) None)"
  have "(if amh_prev m = None then Some (a\<lparr>AlphaMemoryTable := (AlphaMemoryTable a)(amh_bucket m := amh_next m)\<rparr>)
           else upd_amem (amh_prev m) (set_next (amh_next m)) a) = Some (a\<lparr>AlphaMemoryTable := ?T, amems := M1\<rparr>)"
  proof (cases "P = []")
    case True
    then show ?thesis using m M(1) k(2) by simp
  next
    case False
    then have "?T = AlphaMemoryTable a" using G(1) [of b] PS by (cases P) (auto simp: fun_upd_idem)
    moreover obtain l where "lastp None P = Some l" using False by (cases "lastp None P") auto
    ultimately show ?thesis using m M(1) by (simp add: upd_amem_def)
  qed
  then have "UnlinkAlphaMemoryBucketSiblings k a = Some (a\<lparr>AlphaMemoryTable := ?T, amems := M\<rparr>)"
    using k(1) m M(2) by (simp add: UnlinkAlphaMemoryBucketSiblings_def upd_amem_if_def)
  then show ?thesis unfolding rm using M(3-5) kc by blast
qed

lemma left_memory:
  assumes ok: "alpha_part a B" and k: "amems a k = Some m" "amh_bucket m = b" "amh_owner m = h" and q: "queue B k = []"
    and c: "dlseg (chain_links M) None (remove1 k (chain B b)) None" "\<And>y. y \<notin> set (chain B b) \<Longrightarrow> chain_links M y = chain_links (amems a) y"
    and o: "dlseg (hash_links M) None (remove1 k (of_header B h)) None" "\<And>y. y \<notin> set (of_header B h) \<Longrightarrow> hash_links M y = hash_links (amems a) y"
    and keys: "keys M = (keys (amems a))(k := None)"
    and H: "patternHeaders a h = Some P" and H': "firstHash P' = hdp (remove1 k (of_header B h)) None" "lastHash P' = lastp None (remove1 k (of_header B h))"
  shows "alpha_part (a\<lparr>amems := M, AlphaMemoryTable := (AlphaMemoryTable a)(b := hdp (remove1 k (chain B b)) None),
    patternHeaders := (patternHeaders a)(h \<mapsto> P')\<rparr>) (drop_memory k h b B)"
proof -
  note A = alpha_partD [OF ok]
  have d: "dom M = dom (amems a) - {k}" using keys keys_dom [of M] keys_dom [of "amems a"] by auto
  have ky: "bucket_of M y = bucket_of (amems a) y" "owner_of M y = owner_of (amems a) y" "queue_heads M y = queue_heads (amems a) y" if "y \<noteq> k" for y
    using that by (simp_all add: keys_parts keys)
  have kc: "k \<in> set (chain B b)" "k \<in> set (of_header B h)"
    using groupedD(4) [OF A(1), of k b] groupedD(4) [OF A(2), of k h] k by (auto simp: bucket_of_def owner_of_def)
  obtain P1 S1 where PS1: "chain B b = P1 @ k # S1" using kc(1) by (auto simp: in_set_conv_decomp)
  obtain P2 S2 where PS2: "of_header B h = P2 @ k # S2" using kc(2) by (auto simp: in_set_conv_decomp)
  have rm: "remove1 k (chain B b) = P1 @ S1" "remove1 k (of_header B h) = P2 @ S2"
    using groupedD(2) [OF A(1), of b] groupedD(2) [OF A(2), of h] PS1 PS2 by (simp_all add: remove1_append)
  have "grouped (dom M) (chain_links M) ((AlphaMemoryTable a)(b := hdp (P1 @ S1) None)) (bucket_of M) ((chain B)(b := P1 @ S1))"
    unfolding d by (rule grouped_leave [OF A(1) PS1 _ _ ky(1) refl]) (use c rm(1) PS1 in simp_all)
  then have "chains_ok M ((AlphaMemoryTable a)(b := hdp (remove1 k (chain B b)) None)) ((chain B)(b := remove1 k (chain B b)))"
    by (simp only: chains_ok_def rm)
  moreover have "headers_ok M ((patternHeaders a)(h \<mapsto> P')) ((of_header B)(h := remove1 k (of_header B h)))"
  proof -
    have f: "first_hashes ((patternHeaders a)(h \<mapsto> P')) = (first_hashes (patternHeaders a))(h := hdp (P2 @ S2) None)"
      using H'(1) rm(2) by (simp add: first_hashes_def fun_eq_iff)
    have "grouped (dom M) (hash_links M) (first_hashes ((patternHeaders a)(h \<mapsto> P'))) (owner_of M) ((of_header B)(h := P2 @ S2))"
      unfolding d by (rule grouped_leave [OF A(2) PS2 _ _ ky(2) f]) (use o rm(2) PS2 in simp_all)
    then show ?thesis unfolding headers_ok_def rm using A(3) H'(2) rm(2) by auto
  qed
  moreover have "queues_ok M (match_nodes a) (drop_memory k h b B)"
  proof -
    have "queue_heads (amems a) k = None" using groupedD(1) [OF A(4), of k] q by simp
    moreover have "queue_heads M k = None" by (simp add: keys_parts keys)
    ultimately have qh: "queue_heads M = queue_heads (amems a)" using ky(3) by (metis ext)
    have "endOfQueue m' = lastp None (queue B k')" if "M k' = Some m'" for k' m'
      using keys_apply(1) [of M k' m', OF that] keys A(5) [of k'] by (auto simp: keys_Some split: if_splits)
    moreover have "\<exists>m n. M k' = Some m \<and> match_nodes a x = Some n \<and> \<not> betaMemory n \<and> alphaBucket n = amh_bucket m" if hx: "holder B x = Some k'" for x k'
    proof -
      obtain m n where mn: "amems a k' = Some m" "match_nodes a x = Some n" "\<not> betaMemory n" "alphaBucket n = amh_bucket m" using A(6) [OF hx] by blast
      have "k' \<noteq> k" using groupedD(4) [OF A(4), of x k'] hx q by auto
      then have "keys M k' = Some (amh_bucket m, amh_owner m, alphaMemory m, endOfQueue m)" using keys keys_apply(1) [of "amems a" k' m, OF mn(1)] by auto
      then show ?thesis using mn by (auto simp: keys_Some)
    qed
    ultimately show ?thesis using A(4) unfolding queues_ok_def qh drop_memory_def by simp
  qed
  moreover have "one_each M" using A(7) ky(1,2) d unfolding one_each_def by (metis Diff_iff insertI1)
  ultimately show ?thesis by (simp add: alpha_part_def drop_memory_def)
qed

lemma alpha_part_chains: "alpha_part a B \<Longrightarrow> chains_ok (amems a) (AlphaMemoryTable a) (chain B)"
  by (simp add: alpha_part_def)

lemma unlink_memory_ok:
  assumes ok: "alpha_part a B" and k: "amems a k = Some m" "amh_bucket m = b" "amh_owner m = h" and q: "queue B k = []"
  shows "\<exists>a'. UnlinkAlphaMemory h k a = Some a' \<and> alpha_part a' (drop_memory k h b B) \<and> alpha_rete a' = alpha_rete a \<and>
    keys (amems a') = (keys (amems a))(k := None) \<and> dom (patternHeaders a') = dom (patternHeaders a)"
proof -
  note A = alpha_partD [OF ok] and G = groupedD [OF alpha_partD(2) [OF ok]]
  obtain M where M: "UnlinkAlphaMemoryBucketSiblings k a = Some (a\<lparr>AlphaMemoryTable := (AlphaMemoryTable a)(b := hdp (remove1 k (chain B b)) None), amems := M\<rparr>)"
      "dlseg (chain_links M) None (remove1 k (chain B b)) None" "pays_of chain_rest M = pays_of chain_rest (amems a)"
      "\<forall>y. y \<notin> set (remove1 k (chain B b)) \<longrightarrow> M y = amems a y" "k \<in> set (chain B b)"
    using siblings_ok [OF alpha_part_chains [OF ok] k(1,2)] by blast
  note F = chain_frame [OF M(3)]
  have kn: "k \<notin> set (remove1 k (chain B b))" using groupedD(2) [OF A(1), of b] by simp
  have mk: "M k = Some m" using M(4) kn k(1) by simp
  have kh: "k \<in> set (of_header B h)" using G(4) [of k h] k by (auto simp: owner_of_def)
  then obtain P S where PS: "of_header B h = P @ k # S" by (auto simp: in_set_conv_decomp)
  have d: "distinct (P @ k # S)" and seg: "dlseg (hash_links M) None (P @ k # S) None" using G(2,3) [of h] PS F(1) by simp_all
  have rm: "remove1 k (of_header B h) = P @ S" using d PS by (simp add: remove1_append)
  have mh: "prevHash m = lastp None P" "nextHash m = hdp S None" using dlseg_node [OF seg] mk by auto
  obtain H where H: "patternHeaders a h = Some H"
    using G(1) [of h] PS by (cases "patternHeaders a h") (auto simp: first_hashes_def, cases P, auto)
  obtain M1 M2 where u: "upd_if (lastp None P) (set_nextHash (hdp S None)) M = Some M1" "upd_if (hdp S None) (set_prevHash (lastp None P)) M1 = Some M2"
      "dlseg (hash_links M2) None (P @ S) None" "pays_of hash_rest M2 = pays_of hash_rest M" "\<forall>y. y \<notin> set (P @ S) \<longrightarrow> M2 y = M y"
    using hsh.unlink_node [OF seg d] by blast
  note E = hash_frame [OF u(4)]
  let ?P = "H\<lparr>firstHash := (if firstHash H = Some k then nextHash m else firstHash H), lastHash := (if lastHash H = Some k then prevHash m else lastHash H)\<rparr>"
  have fh: "firstHash H = hdp (P @ k # S) None" "lastHash H = lastp None (P @ k # S)"
    using G(1) [of h] A(3) [OF H] H PS by (simp_all add: first_hashes_def)
  have H': "firstHash ?P = hdp (remove1 k (of_header B h)) None"
    unfolding rm using fh(1) mh(2) d by (cases P) auto
  have l': "lastHash ?P = lastp None (remove1 k (of_header B h))"
  proof (cases "S = []")
    case False
    then have "lastp None (P @ k # S) = lastp None (P @ S)" "lastp None (P @ S) \<noteq> Some k" using d by (simp_all add: lastp_last) (metis last_in_set)
    then show ?thesis using fh(2) rm by simp
  qed (use fh(2) mh(1) rm in simp)
  let ?M = "M2(k := None)"
  let ?a = "a\<lparr>AlphaMemoryTable := (AlphaMemoryTable a)(b := hdp (remove1 k (chain B b)) None), patternHeaders := (patternHeaders a)(h \<mapsto> ?P), amems := ?M\<rparr>"
  have run: "UnlinkAlphaMemory h k a = Some ?a"
    using M(1) mk H mh u(1,2) by (simp add: UnlinkAlphaMemory_def upd_header_def upd_amem_if_def free_memory_def)
  have c: "dlseg (chain_links ?M) None (remove1 k (chain B b)) None"
    using M(2) kn E(1) dlseg_cong [of "remove1 k (chain B b)" "chain_links ?M" "chain_links M" None None] by auto
  have cy: "chain_links ?M y = chain_links (amems a) y" if "y \<notin> set (chain B b)" for y
  proof -
    have "y \<noteq> k" "y \<notin> set (remove1 k (chain B b))" using that M(5) by (auto dest: notin_set_remove1)
    then show ?thesis using M(4) E(1) by (simp add: links_of_def [of _ _ M] links_of_def [of _ _ "amems a"])
  qed
  have o: "dlseg (hash_links ?M) None (remove1 k (of_header B h)) None"
    unfolding rm using u(3) d dlseg_cong [of "P @ S" "hash_links ?M" "hash_links M2" None None] by auto
  have oy: "hash_links ?M y = hash_links (amems a) y" if "y \<notin> set (of_header B h)" for y
  proof -
    have "y \<noteq> k" "M2 y = M y" using that PS u(5) by auto
    then show ?thesis using fun_cong [OF F(1), of y] by (simp add: links_of_def)
  qed
  have ks: "keys ?M = (keys (amems a))(k := None)" using E(2) F(2) by simp
  have "alpha_part (a\<lparr>amems := ?M, AlphaMemoryTable := (AlphaMemoryTable a)(b := hdp (remove1 k (chain B b)) None),
      patternHeaders := (patternHeaders a)(h \<mapsto> ?P)\<rparr>) (drop_memory k h b B)"
    by (rule left_memory [OF ok k q c cy o oy ks H H' l'])
  then have "alpha_part ?a (drop_memory k h b B)" by (simp add: alpha_part_def)
  then show ?thesis using run ks H by (intro exI [of _ ?a]) (auto simp: insert_absorb domI)
qed

lemma content_dropped:
  assumes ok: "alpha_part a B" "alpha_part a' (drop_memory k h b B)" and k: "amems a k = Some m" "amh_bucket m = b" "amh_owner m = h" and q: "queue B k = []"
    and key: "keys (amems a') = (keys (amems a))(k := None)"
  shows "content a' (drop_memory k h b B) = content a B"
proof (intro ext)
  fix h' b'
  note M = memory_for_keys [OF ok(1)] memory_for_keys [OF ok(2)]
  have kp: "bucket_of (amems a) k = Some b" "owner_of (amems a) k = Some h" using k by (simp_all add: bucket_of_def owner_of_def)
  have kn: "bucket_of (amems a') k = None" by (simp add: keys_parts key)
  have ky: "bucket_of (amems a') y = bucket_of (amems a) y" "owner_of (amems a') y = owner_of (amems a) y" if "y \<noteq> k" for y
    using that by (simp_all add: keys_parts key)
  have qd: "queue (drop_memory k h b B) = queue B" by (simp add: drop_memory_def)
  show "content a' (drop_memory k h b B) h' b' = content a B h' b'"
  proof (cases "h' = h \<and> b' = b")
    case True
    have "memory_for a' (drop_memory k h b B) h b \<noteq> Some y" for y
      using M(2) [of h b y] M(1) [of h b k] M(1) [of h b y] kp kn ky [of y] by (cases "y = k") auto
    then have "memory_for a' (drop_memory k h b B) h b = None" by auto
    moreover have "memory_for a B h b = Some k" using M(1) kp by blast
    ultimately show ?thesis using True q by (simp add: content_def)
  next
    case False
    have "memory_for a' (drop_memory k h b B) h' b' = Some y \<longleftrightarrow> memory_for a B h' b' = Some y" for y
      using M(1) [of h' b' y] M(2) [of h' b' y] kp kn ky [of y] False by (cases "y = k") auto
    then have "memory_for a' (drop_memory k h b B) h' b' = memory_for a B h' b'" by (metis option.exhaust)
    then show ?thesis by (simp only: content_def qd)
  qed
qed

section \<open>Removing a match\<close>

definition take_match :: "addr \<Rightarrow> addr \<Rightarrow> alpha_lists \<Rightarrow> alpha_lists" where
  "take_match k x B = B\<lparr>queue := (queue B)(k := remove1 x (queue B k)), holder := (holder B)(x := None)\<rparr>"

text \<open>The writes before the memory is tested for being empty.\<close>

lemma dequeue_run:
  assumes ok: "alpha_part a B" and k: "amems a k = Some m" and q: "queue B k = P @ x # S"
  shows "\<exists>n N. match_nodes a x = Some n \<and> prevInMemory n = lastp None P \<and> nextInMemory n = hdp S None \<and> alphaBucket n = amh_bucket m \<and>
    dequeue_match (Some k) n a =
      Some (a\<lparr>alpha_rete := (alpha_rete a)\<lparr>pms := N\<rparr>, amems := (amems a)(k \<mapsto> m\<lparr>alphaMemory := hdp (P @ S) None, endOfQueue := lastp None (P @ S)\<rparr>)\<rparr>) \<and>
    dlseg (memory_links N) None (P @ S) None \<and> pays_of memory_rest N = pays_of memory_rest (match_nodes a) \<and> (\<forall>y. y \<notin> set (P @ S) \<longrightarrow> N y = match_nodes a y)"
proof -
  note A = alpha_partD [OF ok] and G = groupedD [OF alpha_partD(4) [OF ok]]
  have d: "distinct (P @ x # S)" and seg: "dlseg (memory_links (match_nodes a)) None (P @ x # S) None" using G(2,3) [of k] q by simp_all
  obtain n where n: "match_nodes a x = Some n" "prevInMemory n = lastp None P" "nextInMemory n = hdp S None" using dlseg_node [OF seg] by auto
  have "holder B x = Some k" using G(4) [of x k] q by simp
  then have bk: "alphaBucket n = amh_bucket m" using A(6) [of x k] n(1) k by auto
  obtain N1 N where N: "upd_if (lastp None P) (set_nextIn (hdp S None)) (match_nodes a) = Some N1" "upd_if (hdp S None) (set_prevIn (lastp None P)) N1 = Some N"
      "dlseg (memory_links N) None (P @ S) None" "pays_of memory_rest N = pays_of memory_rest (match_nodes a)" "\<forall>y. y \<notin> set (P @ S) \<longrightarrow> N y = match_nodes a y"
    using mem.unlink_node [OF seg d] by blast
  have m: "alphaMemory m = hdp (P @ x # S) None" "endOfQueue m = lastp None (P @ x # S)" using G(1) [of k] A(5) [OF k] k q by (simp_all add: queue_heads_def)
  let ?a = "a\<lparr>alpha_rete := (alpha_rete a)\<lparr>pms := N\<rparr>, amems := (amems a)(k \<mapsto> m\<lparr>alphaMemory := hdp (P @ S) None, endOfQueue := lastp None (P @ S)\<rparr>)\<rparr>"
  let ?a1 = "a\<lparr>alpha_rete := (alpha_rete a)\<lparr>pms := N1\<rparr>, amems := (amems a)(k \<mapsto> m\<lparr>alphaMemory := hdp (P @ S) None\<rparr>)\<rparr>"
  have s1: "(if prevInMemory n \<noteq> None then upd_node (prevInMemory n) (set_nextIn (nextInMemory n)) a
            else upd_amem (Some k) (\<lambda>m. m\<lparr>alphaMemory := nextInMemory n\<rparr>) a) = Some ?a1"
  proof (cases "P = []")
    case True
    then show ?thesis using n(2,3) k N(1) by (simp add: upd_amem_def)
  next
    case False
    then obtain l where l: "lastp None P = Some l" by (cases "lastp None P") auto
    have "m\<lparr>alphaMemory := hdp (P @ S) None\<rparr> = m" using m(1) False by (cases P; cases m) simp_all
    then have "(amems a)(k \<mapsto> m\<lparr>alphaMemory := hdp (P @ S) None\<rparr>) = amems a" using k by (simp add: fun_upd_idem)
    then show ?thesis using n(2,3) N(1) l by (simp add: upd_node_def upd_pm_def)
  qed
  have s2: "(if nextInMemory n \<noteq> None then upd_node (nextInMemory n) (set_prevIn (prevInMemory n)) ?a1
            else upd_amem (Some k) (\<lambda>m. m\<lparr>endOfQueue := prevInMemory n\<rparr>) ?a1) = Some ?a"
  proof (cases "S = []")
    case True
    then show ?thesis using n(2,3) k N(2) by (simp add: upd_amem_def)
  next
    case False
    then have "lastp None (P @ S) = endOfQueue m" using m(2) by (simp add: lastp_last)
    then have "m\<lparr>alphaMemory := hdp (P @ S) None, endOfQueue := lastp None (P @ S)\<rparr> = m\<lparr>alphaMemory := hdp (P @ S) None\<rparr>" by (cases m) simp
    then show ?thesis using n(2,3) N(2) False by (cases S) (auto simp: upd_node_def upd_pm_def)
  qed
  have "dequeue_match (Some k) n a = Some ?a"
    unfolding dequeue_match_def using s2 by (simp only: s1 Option.bind.bind_lunit)
  then show ?thesis using n bk N(3-5) by blast
qed

lemma RemoveAlphaMemoryMatches_ok:
  assumes ok: "alpha_ok a B" and hx: "holder B x = Some k" and k: "amems a k = Some m"
  defines "h \<equiv> amh_owner m" and "b \<equiv> amh_bucket m"
  shows "\<exists>a' B' N. RemoveAlphaMemoryMatches h x a = Some a' \<and> alpha_ok a' B' \<and> content a' B' = set_content h b (remove1 x (content a B h b)) (content a B) \<and>
    holder B' = (holder B)(x := None) \<and> dom (patternHeaders a') = dom (patternHeaders a) \<and>
    dom (amems a') = (if content a B h b = [x] then dom (amems a) - {k} else dom (amems a)) \<and>
    alpha_rete a' = (alpha_rete a)\<lparr>pms := N, GarbagePartialMatches := Some x\<rparr> \<and> pays_of memory_rest N = pays_of memory_rest (match_nodes a) \<and>
    map_option nextInMemory (N x) = Some (GarbagePartialMatches (alpha_rete a)) \<and> (\<forall>z. z \<notin> dom (holder B) \<longrightarrow> N z = match_nodes a z)"
proof -
  have part: "alpha_part a B" and full: "\<And>k. k \<in> dom (amems a) \<Longrightarrow> queue B k \<noteq> []" using ok by (simp_all add: alpha_ok_def)
  note A = alpha_partD [OF part] and G = groupedD [OF alpha_partD(4) [OF part]]
  have "x \<in> set (queue B k)" using G(4) [of x k] hx by auto
  then obtain P S where q: "queue B k = P @ x # S" by (auto simp: in_set_conv_decomp)
  have d: "distinct (P @ x # S)" using G(2) [of k] q by simp
  have rm: "remove1 x (queue B k) = P @ S" using d q by (simp add: remove1_append)
  let ?m = "m\<lparr>alphaMemory := hdp (P @ S) None, endOfQueue := lastp None (P @ S)\<rparr>"
  let ?M = "(amems a)(k \<mapsto> ?m)"
  obtain n N where n: "match_nodes a x = Some n" "prevInMemory n = lastp None P" "nextInMemory n = hdp S None" "alphaBucket n = b"
    and run: "dequeue_match (Some k) n a = Some (a\<lparr>alpha_rete := (alpha_rete a)\<lparr>pms := N\<rparr>, amems := ?M\<rparr>)"
    and N: "dlseg (memory_links N) None (P @ S) None" "pays_of memory_rest N = pays_of memory_rest (match_nodes a)" "\<forall>y. y \<notin> set (P @ S) \<longrightarrow> N y = match_nodes a y"
    using dequeue_run [OF part k q] unfolding b_def by blast
  define g where "g = GarbagePartialMatches (alpha_rete a)"
  define s where "s = (alpha_rete a)\<lparr>pms := N(x \<mapsto> set_nextIn g n), GarbagePartialMatches := Some x\<rparr>"
  define a4 where "a4 = a\<lparr>alpha_rete := s, amems := ?M\<rparr>"
  define B1 where "B1 = take_match k x B"
  have xN: "N x = Some n" using N(3) d n(1) by simp
  have p: "pays_of memory_rest (pms s) = pays_of memory_rest (match_nodes a)" using N(2) n(1) by (auto simp: s_def pays_of_def memory_rest_def fun_eq_iff)
  have B1: "chain B1 = chain B" "of_header B1 = of_header B" "queue B1 = (queue B)(k := P @ S)" "holder B1 = (holder B)(x := None)"
    by (simp_all add: B1_def take_match_def rm)
  have "grouped (dom (holder B) - {x}) (memory_links (pms s)) ((queue_heads (amems a))(k := hdp (P @ S) None)) ((holder B)(x := None)) ((queue B)(k := P @ S))"
  proof (rule grouped_leave [OF A(4) q])
    have "memory_links (pms s) y = memory_links N y" if y: "y \<in> set (P @ S)" for y
    proof -
      have "y \<noteq> x" using d y by auto
      then show ?thesis unfolding s_def by (simp add: links_of_def)
    qed
    then show "dlseg (memory_links (pms s)) None (P @ S) None"
      using N(1) dlseg_cong [of "P @ S" "memory_links (pms s)" "memory_links N" None None] by blast
    show "memory_links (pms s) y = memory_links (match_nodes a) y" if "y \<notin> set (P @ x # S)" for y using that N(3) by (simp add: s_def links_of_def)
  qed simp_all
  then have g1: "grouped (dom (holder B1)) (memory_links (pms s)) ((queue_heads (amems a))(k := hdp (P @ S) None)) (holder B1) (queue B1)" by (simp add: B1)
  have p4: "alpha_part a4 B1"
    unfolding a4_def
  proof (rule requeued [OF part k g1 B1(1-3)])
    fix y k' assume y: "holder B1 y = Some k'"
    then have "holder B y = Some k'" by (simp add: B1 split: if_splits)
    moreover have "map_option (\<lambda>n. (betaMemory n, alphaBucket n)) (pms s y) = map_option (\<lambda>n. (betaMemory n, alphaBucket n)) (match_nodes a y)"
      by (rule pays_field [OF p]) (simp add: memory_rest_def)
    ultimately show "\<exists>m n. amems a k' = Some m \<and> pms s y = Some n \<and> \<not> betaMemory n \<and> alphaBucket n = amh_bucket m" using A(6) [of y k'] by fastforce
  qed
  have same: "bucket_of (amems a4) = bucket_of (amems a)" "owner_of (amems a4) = owner_of (amems a)" using k by (auto simp: a4_def bucket_of_def owner_of_def)
  have mf: "memory_for a B h b = Some k" using memory_for_iff [OF part] k by (auto simp: h_def b_def)
  have c4: "content a4 B1 = set_content h b (remove1 x (content a B h b)) (content a B)"
    using content_requeued [OF part p4 same mf B1(3)] mf rm by (simp add: content_def)
  have find: "FindAlphaMemory h b a = Some (Some k)" using FindAlphaMemory_eq [OF part] mf by simp
  have k4: "amems a4 k = Some ?m" by (simp add: a4_def)
  have start: "RemoveAlphaMemoryMatches h x a = (if P = [] \<or> S = [] then (if P @ S = [] then UnlinkAlphaMemory h k a4 else Some a4) else Some a4)"
  proof -
    let ?f = "if prevInMemory n = None \<or> nextInMemory n = None then Some k else None"
    have f: "(if prevInMemory n = None \<or> nextInMemory n = None then FindAlphaMemory h (alphaBucket n) a else Some None) = Some ?f"
      using find n(4) by simp
    have "dequeue_match ?f n a = dequeue_match (Some k) n a" by (simp add: dequeue_match_def)
    then have r: "dequeue_match ?f n a = Some (a\<lparr>alpha_rete := (alpha_rete a)\<lparr>pms := N\<rparr>, amems := ?M\<rparr>)" using run by simp
    have e: "prevInMemory n = None \<longleftrightarrow> P = []" "nextInMemory n = None \<longleftrightarrow> S = []" using n(2) n(3) by (simp, cases S, simp_all)
    have c: "a\<lparr>amems := X, alpha_rete := Y\<rparr> = a\<lparr>alpha_rete := Y, amems := X\<rparr>" for X Y by (cases a) simp
    have g3: "upd_node (Some x) (set_nextIn (GarbagePartialMatches (alpha_rete (a\<lparr>alpha_rete := (alpha_rete a)\<lparr>pms := N\<rparr>, amems := ?M\<rparr>))))
        (a\<lparr>alpha_rete := (alpha_rete a)\<lparr>pms := N\<rparr>, amems := ?M\<rparr>) = Some (a\<lparr>alpha_rete := (alpha_rete a)\<lparr>pms := N(x \<mapsto> set_nextIn g n)\<rparr>, amems := ?M\<rparr>)"
      using xN by (simp add: upd_node_def upd_pm_def g_def)
    show ?thesis
    proof (cases "P = [] \<or> S = []")
      case True
      then have t: "?f = Some k" using e by simp
      have h0: "hdp (P @ S) None = None \<longleftrightarrow> P @ S = []" by (cases "P @ S") simp_all
      show ?thesis unfolding RemoveAlphaMemoryMatches_def n(1) Option.bind.bind_lunit f r g3 unfolding t
        using True h0 by (simp add: a4_def s_def c Let_def)
    next
      case False
      then have t: "?f = None" using e by simp
      show ?thesis unfolding RemoveAlphaMemoryMatches_def n(1) Option.bind.bind_lunit f r g3 unfolding t using False by (simp add: a4_def s_def c)
    qed
  qed
  have sN: "pms s = N(x \<mapsto> set_nextIn g n)" "map_option nextInMemory (pms s x) = Some g" "\<forall>z. z \<notin> dom (holder B) \<longrightarrow> pms s z = match_nodes a z"
    using N(3) G(4) [of _ k] q hx by (auto simp: s_def)
  have cq: "content a B h b = P @ x # S" using mf q by (simp add: content_def)
  show ?thesis
  proof (cases "P @ S = []")
    case True
    have q1: "queue B1 k = []" using B1(3) True by simp
    obtain a' where a': "UnlinkAlphaMemory h k a4 = Some a'" "alpha_part a' (drop_memory k h b B1)" "alpha_rete a' = alpha_rete a4"
        "keys (amems a') = (keys (amems a4))(k := None)" "dom (patternHeaders a') = dom (patternHeaders a4)"
      using unlink_memory_ok [OF p4 k4 _ _ q1, of b h] by (auto simp: h_def b_def)
    have ca: "content a' (drop_memory k h b B1) = content a4 B1"
      by (rule content_dropped [OF p4 a'(2) k4 _ _ q1 a'(4)]) (simp_all add: h_def b_def)
    have da: "dom (amems a') = dom (amems a) - {k}"
    proof -
      have "dom (amems a4) = dom (amems a)" using k by (auto simp: a4_def)
      moreover have "dom (amems a') = dom (amems a4) - {k}" by (simp only: keys_dom [symmetric] a'(4) dom_fun_upd if_True simp_thms)
      ultimately show ?thesis by simp
    qed
    have "bucket_of (amems a') k' = (if k' = k then None else bucket_of (amems a) k')" for k'
      using a'(4) by (simp add: same(1) [symmetric] keys_parts)
    then have "alpha_ok a' (drop_memory k h b B1)" using a'(2) da full B1(3) ok by (auto simp: alpha_ok_def drop_memory_def split: if_splits)
    moreover have "content a B h b = [x]" using cq True by simp
    ultimately show ?thesis
      using start a' True c4 p sN B1(4) da ca
      by (intro exI [of _ a'] exI [of _ "drop_memory k h b B1"] exI [of _ "pms s"]) (simp add: drop_memory_def a4_def s_def g_def)
  next
    case False
    have "queue B1 k' \<noteq> []" if "k' \<in> dom (amems a4)" for k'
      using that full [of k'] False B1(3) k by (cases "k' = k") (auto simp: a4_def)
    then have "alpha_ok a4 B1" using p4 ok by (simp add: alpha_ok_def same)
    moreover have "RemoveAlphaMemoryMatches h x a = Some a4" using start False by auto
    moreover have "content a B h b \<noteq> [x]" using cq False by (cases P) auto
    moreover have "dom (amems a4) = dom (amems a)" using k by (auto simp: a4_def)
    ultimately show ?thesis using c4 p sN B1(4) by (intro exI [of _ a4] exI [of _ B1] exI [of _ "pms s"]) (simp add: a4_def s_def g_def)
  qed
qed

end
