(* ===== verification/Alpha_Network.thy ===== *)
theory Alpha_Network
  imports Alpha_Remove
begin

text \<open>
  The alpha memories and the join network together: matches of patterns live in the same heap as the matches of joins, and a
  match that leaves its alpha memory goes to the list of garbage matches the join network uses too.
\<close>

section \<open>The joint invariant\<close>

definition net_ok :: "alphaNet \<Rightarrow> net_lists \<Rightarrow> alpha_lists \<Rightarrow> addr list \<Rightarrow> bool" where
  "net_ok a A B gs \<longleftrightarrow> rete_ok (alpha_rete a) A \<and> mirrored (rete_env (alpha_rete a)) \<and> alpha_ok a B \<and> garbage_ok (alpha_rete a) A gs \<and> set gs \<inter> dom (holder B) = {}"

lemma net_okD:
  assumes "net_ok a A B gs"
  shows "rete_ok (alpha_rete a) A" "alpha_ok a B" "garbage_ok (alpha_rete a) A gs" "set gs \<inter> dom (holder B) = {}" "alpha_part a B" "mirrored (rete_env (alpha_rete a))"
  using assms by (simp_all add: net_ok_def alpha_ok_def)

text \<open>The matches in alpha memories are in no memory of a join.\<close>

lemma alpha_not_stored:
  assumes "memories_ok s A" "in_memory A x" "pms s x = Some n"
  shows "betaMemory n"
proof -
  obtain j sd i where "x \<in> set (in_bucket A j sd i)" using assms(2) by (auto simp: in_memory_def)
  then obtain m :: betaMemory where "stored s j sd (beta_size m) i x" using in_bucketD [OF assms(1)] by blast
  then show ?thesis using assms(3) by (auto simp: stored_def node_key_def split: option.splits)
qed

lemma holder_not_stored:
  assumes "net_ok a A B gs" "x \<in> dom (holder B)"
  shows "\<not> in_memory A x"
proof -
  obtain k where k: "holder B x = Some k" using assms(2) by blast
  obtain n where "match_nodes a x = Some n" "\<not> betaMemory n" using alpha_partD(6) [OF net_okD(5) [OF assms(1)] k] by blast
  then show ?thesis using alpha_not_stored [OF rete_okD(2) [OF net_okD(1) [OF assms(1)]], of x n] by blast
qed

section \<open>Frames\<close>

lemma queue_links_ok:
  assumes ok: "rete_ok s A" and p: "pays_of memory_rest N = pays_of memory_rest (pms s)" and same: "\<And>y. in_memory A y \<Longrightarrow> N y = pms s y"
  shows "rete_ok (s\<lparr>pms := N\<rparr>) A"
proof -
  note O = rete_okD [OF ok] and F = memory_frame [OF p]
  let ?s = "s\<lparr>pms := N\<rparr>"
  have "tree_ok ?s A" using O(1) F by (simp add: tree_ok_def)
  moreover have "node_key ?s = node_key s" by (rule node_key_rest) (use p in simp_all)
  then have "memories_ok ?s A" using same by (intro memories_ok_frame [OF O(2)]) (auto simp: links_of_def)
  ultimately show ?thesis using O(3,4) F(7) by (simp add: rete_ok_def)
qed

lemma fresh_ok: "rete_ok s A \<Longrightarrow> rete_ok (s\<lparr>rete_env := (rete_env s)\<lparr>fresh := f\<rparr>\<rparr>) A"
  by (rule env_kept_ok) simp_all

lemma removable_links:
  assumes x: "removable s A x" and p: "pays_of memory_rest (pms s') = pays_of memory_rest (pms s)"
    and e: "rows s' = rows s" "joins (rete_env s') = joins (rete_env s)"
  shows "removable s' A x"
proof -
  have o: "right_of (rete_env s') x = right_of (rete_env s) x" "left_of (rete_env s') x = left_of (rete_env s) x"
      "blocker_of (rete_env s') x = blocker_of (rete_env s) x"
    using e by (simp_all add: right_of_def left_of_def blocker_of_def activates_def split: option.split)
  obtain n r where n: "pms s x = Some n" "rows s x = Some r" "children n = None" "blockList n = None" "owns_alpha n r" using x by (auto simp: removable_def)
  have "map_option (\<lambda>n. (children n, blockList n, betaMemory n)) (pms s' x) = map_option (\<lambda>n. (children n, blockList n, betaMemory n)) (pms s x)"
    by (rule pays_field [OF p]) (simp add: memory_rest_def)
  then obtain n' where "pms s' x = Some n'" "children n' = None" "blockList n' = None" "betaMemory n' = betaMemory n" using n by auto
  then show ?thesis using x n e(1) o by (simp add: removable_def owns_alpha_def)
qed

section \<open>The operations keep the joint invariant\<close>

text \<open>A change of the queues of the alpha memories only.\<close>

lemma garbage_kept:
  assumes g: "garbage_ok s A gs" and p: "pays_of memory_rest (pms s') = pays_of memory_rest (pms s)"
    and e: "rows s' = rows s" "joins (rete_env s') = joins (rete_env s)" "GarbagePartialMatches s' = GarbagePartialMatches s"
    and same: "\<And>y. y \<in> set gs \<Longrightarrow> pms s' y = pms s y"
  shows "garbage_ok s' A gs"
  using g e(3) removable_links [OF _ p e(1,2)] garbage_matches_cong [of gs "pms s'" "pms s"] same by (simp add: garbage_ok_def)

lemma with_new_removable:
  assumes "removable s A y" "y \<noteq> x" "pms s' = (pms s)(x \<mapsto> n)" "rows s' = (rows s)(x \<mapsto> r)" "joins (rete_env s') = joins (rete_env s)"
  shows "removable s' (with_new x A) y"
  using assms by (auto simp: removable_def right_of_def left_of_def blocker_of_def activates_def with_new_def in_memory_def split: option.split)

lemma with_new_garbage:
  assumes g: "garbage_ok s A gs" and x: "pms s x = None"
    and s: "pms s' = (pms s)(x \<mapsto> n)" "rows s' = (rows s)(x \<mapsto> r)" "joins (rete_env s') = joins (rete_env s)" "GarbagePartialMatches s' = GarbagePartialMatches s"
  shows "garbage_ok s' (with_new x A) gs"
proof -
  have nx: "y \<noteq> x" if "y \<in> set gs" for y using g x that by (auto simp: garbage_ok_def removable_def)
  have "garbage_matches (pms s') gs = garbage_matches (pms s) gs" by (rule garbage_matches_cong) (use nx s(1) in auto)
  then show ?thesis using g s(4) nx with_new_removable [OF _ _ s(1-3)] by (auto simp: garbage_ok_def)
qed

definition alpha_room :: "alphaNet \<Rightarrow> bool" where
  "alpha_room a \<longleftrightarrow> room (alpha_rete a) \<and> fresh (rete_env (alpha_rete a)) + 1 \<notin> dom (amems a)"

lemma CreateAlphaMatch_net:
  fixes off :: u64
  assumes ok: "net_ok a A B gs" and H: "patternHeaders a h \<noteq> None" and r: "alpha_room a"
  defines "b \<equiv> AlphaMemoryHashValue h off" and "x \<equiv> fresh (rete_env (alpha_rete a))"
  shows "\<exists>a' B'. CreateAlphaMatch own rhs y ms h off a = Some (x, a') \<and> net_ok a' (with_new x A) B' gs \<and>
    content a' B' = set_content h b (content a B h b @ [x]) (content a B) \<and> removable (alpha_rete a') (with_new x A) x \<and>
    map_option binds (rows (alpha_rete a') x) = Some [Some (Some y)] \<and>
    map_option (\<lambda>n. (pm_hashValue n, alphaMarkers n)) (match_nodes a' x) = Some (off, ms) \<and>
    (\<exists>k m. holder B' = (holder B)(x \<mapsto> k) \<and> amems a' k = Some m \<and> amh_owner m = h \<and> amh_bucket m = b) \<and>
    dom (match_nodes a') = insert x (dom (match_nodes a))"
proof -
  let ?s = "alpha_rete a" and ?n = "alpha_node rhs ms off b" and ?r = "new_row own [Some (Some y)]"
  have x: "match_nodes a x = None" "amems a (x + 1) = None" "room ?s" using r by (auto simp: alpha_room_def room_def x_def)
  obtain s1 where s1: "new_match ?n ?r ?s = (x, s1)" "s1 = ?s\<lparr>pms := (pms ?s)(x \<mapsto> ?n), rete_env := (rete_env ?s)\<lparr>matches := (rows ?s)(x \<mapsto> ?r), fresh := x + 1\<rparr>\<rparr>"
    by (simp add: new_match_def Let_def x_def)
  note new = new_node_ok [OF net_okD(1) [OF ok] x(3) s1(1) alpha_node_simps(7)]
  obtain a' B' N f k m where c: "CreateAlphaMatch own rhs y ms h off a = Some (x, a')" "alpha_ok a' B'"
      "content a' B' = set_content h b (content a B h b @ [x]) (content a B)" "holder B' = (holder B)(x \<mapsto> k)" "amems a' k = Some m" "amh_owner m = h" "amh_bucket m = b"
      "alpha_rete a' = ?s\<lparr>rete_env := (rete_env ?s)\<lparr>matches := (rows ?s)(x \<mapsto> ?r), fresh := f\<rparr>, pms := N\<rparr>"
      "pays_of memory_rest N = pays_of memory_rest ((pms ?s)(x \<mapsto> ?n))" "\<forall>z. z \<notin> insert x (dom (holder B)) \<longrightarrow> N z = pms ?s z"
    using CreateAlphaMatch_ok [OF net_okD(2) [OF ok] H meta_eq_to_obj_eq [OF x_def] x(1,2), of own rhs y ms off] unfolding b_def by blast
  let ?s' = "alpha_rete a'"
  have s': "pms ?s' = N" "rows ?s' = rows s1" "joins (rete_env ?s') = joins (rete_env s1)" "GarbagePartialMatches ?s' = GarbagePartialMatches s1"
      "?s' = (s1\<lparr>rete_env := (rete_env s1)\<lparr>fresh := f\<rparr>\<rparr>)\<lparr>pms := N\<rparr>" "pms s1 = (pms ?s)(x \<mapsto> ?n)"
    using s1(2) c(8) by simp_all
  have p: "pays_of memory_rest (pms ?s') = pays_of memory_rest (pms s1)" using c(9) s'(1,6) by simp
  have same: "N z = pms s1 z" if "z \<noteq> x" "z \<notin> dom (holder B)" for z using c(10) that s'(6) by simp
  have ok': "rete_ok ?s' (with_new x A)"
    unfolding s'(5)
  proof (rule queue_links_ok [OF fresh_ok [OF new(1)]])
    show "N z = pms (s1\<lparr>rete_env := (rete_env s1)\<lparr>fresh := f\<rparr>\<rparr>) z" if "in_memory (with_new x A) z" for z
      using that same [of z] holder_not_stored [OF ok, of z] new(2) by auto
  qed (use p s'(1) in simp)
  have g1: "garbage_ok s1 (with_new x A) gs"
    by (rule with_new_garbage [OF net_okD(3) [OF ok] x(1) new(5,6,9)]) (simp add: s1(2))
  have nx: "x \<notin> set gs" using net_okD(3) [OF ok] x(1) by (auto simp: garbage_ok_def removable_def)
  have g': "garbage_ok ?s' (with_new x A) gs"
  proof (rule garbage_kept [OF g1 p s'(2-4)])
    fix z assume "z \<in> set gs"
    then have "z \<noteq> x" "z \<notin> dom (holder B)" using nx net_okD(4) [OF ok] by blast+
    then show "match_nodes a' z = pms s1 z" using same s'(1) by simp
  qed
  have "children ?n = None" "blockList ?n = None" using alpha_node_simps(7) [of rhs ms off b] by (simp_all add: bare_def)
  then have "removable s1 (with_new x A) x"
    using new(2) s1(2) by (simp add: removable_def right_of_def left_of_def blocker_of_def new_row_def with_new_def in_memory_def owns_alpha_def nth_opt_def)
  then have r': "removable ?s' (with_new x A) x" by (rule removable_links [OF _ p s'(2,3)])
  have rx: "rows ?s x = None" using x(1) tree_okD(1) [OF rete_okD(1) [OF net_okD(1) [OF ok]]] by (metis domIff)
  have "mirrored (rete_env ?s') = mirrored (rete_env ?s)"
    by (rule mirrored_cong) (use c(8) rx in \<open>auto simp: supported_by_def support_def new_row_def split: option.split\<close>)
  then have "net_ok a' (with_new x A) B' gs"
    using ok' c(2,4) g' nx net_okD(4,6) [OF ok] by (auto simp: net_ok_def)
  moreover have "map_option (\<lambda>n. (pm_hashValue n, alphaMarkers n)) (pms ?s' x) = Some (off, ms)"
    using pays_field [OF p, of "\<lambda>n. (pm_hashValue n, alphaMarkers n)" x] s'(6) by (simp add: memory_rest_def)
  moreover have "map_option binds (rows ?s' x) = Some [Some (Some y)]" using c(8) by (simp add: new_row_def)
  moreover have "dom (pms ?s') = insert x (dom (pms ?s))" using pays_of_dom_eq [OF p] s'(6) by simp
  ultimately show ?thesis using c(1,3-7) r' by blast
qed

lemma RemoveAlphaMemoryMatches_net:
  assumes ok: "net_ok a A B gs" and x: "holder B x = Some k" "amems a k = Some m" and r: "removable (alpha_rete a) A x"
  defines "h \<equiv> amh_owner m" and "b \<equiv> amh_bucket m"
  shows "\<exists>a' B'. RemoveAlphaMemoryMatches h x a = Some a' \<and> net_ok a' A B' (x # gs) \<and>
    content a' B' = set_content h b (remove1 x (content a B h b)) (content a B) \<and> holder B' = (holder B)(x := None) \<and>
    dom (amems a') = (if content a B h b = [x] then dom (amems a) - {k} else dom (amems a)) \<and>
    rete_env (alpha_rete a') = rete_env (alpha_rete a) \<and> dom (match_nodes a') = dom (match_nodes a)"
proof -
  let ?s = "alpha_rete a"
  obtain a' B' N where c: "RemoveAlphaMemoryMatches h x a = Some a'" "alpha_ok a' B'" "content a' B' = set_content h b (remove1 x (content a B h b)) (content a B)"
      "holder B' = (holder B)(x := None)" "alpha_rete a' = ?s\<lparr>pms := N, GarbagePartialMatches := Some x\<rparr>"
      "pays_of memory_rest N = pays_of memory_rest (pms ?s)" "map_option nextInMemory (N x) = Some (GarbagePartialMatches ?s)" "\<forall>z. z \<notin> dom (holder B) \<longrightarrow> N z = pms ?s z"
      "dom (amems a') = (if content a B h b = [x] then dom (amems a) - {k} else dom (amems a))"
    using RemoveAlphaMemoryMatches_ok [OF net_okD(2) [OF ok] x] unfolding h_def b_def by blast
  have "rete_ok (?s\<lparr>pms := N\<rparr>) A"
    by (rule queue_links_ok [OF net_okD(1) [OF ok] c(6)]) (use c(8) holder_not_stored [OF ok] in blast)
  then have ok': "rete_ok (alpha_rete a') A" using rete_ok_garbage [of "?s\<lparr>pms := N\<rparr>" A "Some x"] c(5) by simp
  have g: "garbage_ok (?s\<lparr>pms := N\<rparr>) A gs"
  proof (rule garbage_kept [OF net_okD(3) [OF ok]])
    show "pms (?s\<lparr>pms := N\<rparr>) z = pms ?s z" if "z \<in> set gs" for z using c(8) that net_okD(4) [OF ok] by auto
  qed (use c(6) in simp_all)
  have re: "removable (alpha_rete a') A z" if "removable ?s A z" for z by (rule removable_links [OF that]) (use c(5,6) in simp_all)
  have nx: "x \<notin> set gs" using net_okD(4) [OF ok] x(1) by blast
  have g0: "GarbagePartialMatches ?s = hdp gs None" using net_okD(3) [OF ok] by (simp add: garbage_ok_def)
  have "garbage_ok (alpha_rete a') A (x # gs)"
    using g g0 c(5,7) nx re [OF r] re net_okD(3) [OF ok] by (auto simp: garbage_ok_def)
  then have "net_ok a' A B' (x # gs)"
    using ok' c(2,4,5) net_okD(4,6) [OF ok] by (auto simp: net_ok_def)
  moreover have "dom (match_nodes a') = dom (match_nodes a)" using pays_of_dom_eq [OF c(6)] c(5) by simp
  ultimately show ?thesis using c(1,3,4,5,9) by auto
qed

section \<open>Collecting the garbage\<close>

lemma alpha_nodes_kept:
  assumes ok: "alpha_ok a B" and same: "\<And>x. x \<in> dom (holder B) \<Longrightarrow> pms s x = match_nodes a x"
  shows "alpha_ok (a\<lparr>alpha_rete := s\<rparr>) B" "content (a\<lparr>alpha_rete := s\<rparr>) B = content a B"
proof -
  have part: "alpha_part a B" using ok by (simp add: alpha_ok_def)
  note A = alpha_partD [OF part]
  have "grouped (dom (holder B)) (memory_links (pms s)) (queue_heads (amems a)) (holder B) (queue B)"
    by (rule grouped_cong [OF A(4)]) (use same in \<open>auto simp: links_of_def\<close>)
  moreover have "\<exists>m n. amems a k = Some m \<and> pms s y = Some n \<and> \<not> betaMemory n \<and> alphaBucket n = amh_bucket m" if y: "holder B y = Some k" for y k
    using A(6) [OF y] same [OF domI, OF y] by auto
  ultimately have "queues_ok (amems a) (pms s) B" using A(5) by (simp add: queues_ok_def)
  then show "alpha_ok (a\<lparr>alpha_rete := s\<rparr>) B" using ok by (simp add: alpha_ok_def alpha_part_def)
  show "content (a\<lparr>alpha_rete := s\<rparr>) B = content a B" by (intro ext) (simp add: content_def memory_for_def)
qed

lemma collect_net:
  assumes ok: "net_ok a A B gs"
  shows "\<exists>s. FlushGarbagePartialMatches (alpha_rete a) = Some s \<and> net_ok (a\<lparr>alpha_rete := s\<rparr>) A B [] \<and>
    content (a\<lparr>alpha_rete := s\<rparr>) B = content a B \<and> dom (pms s) = dom (match_nodes a) - set gs"
proof -
  obtain s where s: "FlushGarbagePartialMatches (alpha_rete a) = Some s" "rete_ok s A" "mirrored (rete_env s)" "GarbagePartialMatches s = None"
      "dom (pms s) = dom (match_nodes a) - set gs" "\<forall>y. y \<notin> set gs \<longrightarrow> pms s y = match_nodes a y \<and> rows s y = rows (alpha_rete a) y"
    using FlushGarbagePartialMatches_ok [OF net_okD(1,6,3) [OF ok]] by blast
  have "pms s y = match_nodes a y" if "y \<in> dom (holder B)" for y using s(6) that net_okD(4) [OF ok] by blast
  note K = alpha_nodes_kept [OF net_okD(2) [OF ok] this]
  have "net_ok (a\<lparr>alpha_rete := s\<rparr>) A B []" using s(2-4) K(1) by (simp add: net_ok_def garbage_ok_def)
  then show ?thesis using s(1,5) K(2) by blast
qed

lemma content_holder:
  assumes "alpha_part a B" "x \<in> set (content a B h b)"
  shows "holder B x \<noteq> None"
proof -
  obtain k where "x \<in> set (queue B k)" using assms(2) by (auto simp: content_def split: option.splits)
  then show ?thesis using groupedD(4) [OF alpha_partD(4) [OF assms(1)], of x k] by auto
qed

lemma create_remove_net:
  fixes off :: u64
  assumes ok: "net_ok a A B gs" and H: "patternHeaders a h \<noteq> None" and r: "alpha_room a"
  defines "x \<equiv> fresh (rete_env (alpha_rete a))"
  shows "\<exists>a1 a2 s A' B'. CreateAlphaMatch own rhs y ms h off a = Some (x, a1) \<and> RemoveAlphaMemoryMatches h x a1 = Some a2 \<and>
    FlushGarbagePartialMatches (alpha_rete a2) = Some s \<and> net_ok (a2\<lparr>alpha_rete := s\<rparr>) A' B' [] \<and>
    content (a2\<lparr>alpha_rete := s\<rparr>) B' = content a B \<and> dom (pms s) = dom (match_nodes a) - set gs"
proof -
  obtain a1 B1 k m where c: "CreateAlphaMatch own rhs y ms h off a = Some (x, a1)" "net_ok a1 (with_new x A) B1 gs"
      "content a1 B1 = set_content h (AlphaMemoryHashValue h off) (content a B h (AlphaMemoryHashValue h off) @ [x]) (content a B)"
      "removable (alpha_rete a1) (with_new x A) x" "holder B1 = (holder B)(x \<mapsto> k)" "amems a1 k = Some m" "amh_owner m = h" "amh_bucket m = AlphaMemoryHashValue h off"
      "dom (match_nodes a1) = insert x (dom (match_nodes a))"
    using CreateAlphaMatch_net [OF ok H r, of own rhs y ms off] unfolding x_def by blast
  obtain a2 B2 where d: "RemoveAlphaMemoryMatches h x a1 = Some a2" "net_ok a2 (with_new x A) B2 (x # gs)"
      "content a2 B2 = set_content h (AlphaMemoryHashValue h off) (remove1 x (content a1 B1 h (AlphaMemoryHashValue h off))) (content a1 B1)"
      "dom (match_nodes a2) = dom (match_nodes a1)"
    using RemoveAlphaMemoryMatches_net [OF c(2) _ c(6,4)] c(5,7,8) by auto
  obtain s where s: "FlushGarbagePartialMatches (alpha_rete a2) = Some s" "net_ok (a2\<lparr>alpha_rete := s\<rparr>) (with_new x A) B2 []"
      "content (a2\<lparr>alpha_rete := s\<rparr>) B2 = content a2 B2" "dom (pms s) = dom (match_nodes a2) - set (x # gs)"
    using collect_net [OF d(2)] by blast
  have x: "match_nodes a x = None" using r by (auto simp: alpha_room_def room_def x_def)
  then have "holder B x = None" using alpha_partD(6) [OF net_okD(5) [OF ok], of x] by (cases "holder B x") auto
  then have "x \<notin> set (content a B h b)" for b using content_holder [OF net_okD(5) [OF ok]] by blast
  then have "content a2 B2 = content a B" unfolding d(3) c(3) by (simp add: set_content_def remove1_append fun_eq_iff)
  then show ?thesis using c(1) d(1) s c(9) d(4) x by (intro exI [of _ a1] exI [of _ a2] exI [of _ s] exI [of _ "with_new x A"] exI [of _ B2]) auto
qed

end
