(* ===== verification/Alpha_Flush.thy ===== *)
theory Alpha_Flush
  imports Alpha_Network
begin

text \<open>
  Flushing the memories of a pattern, as it is done when the pattern is removed from the network: all joins that used the pattern
  are gone, so its matches have no children any more.
\<close>

section \<open>Flushing a queue\<close>

definition loose_match :: "rete \<Rightarrow> net_lists \<Rightarrow> addr \<Rightarrow> bool" where
  "loose_match s A x \<longleftrightarrow> removable s A x \<and> map_option marker (rows s x) = Some None"

text \<open>A match that is in no list of the join network is not changed by the unlinking.\<close>

lemma lone_links:
  assumes "family D (links_of prv nxt h) first par sib" "x \<in> D" "sib x = [x]" "h x = Some n"
  shows "prv n = None" "nxt n = None"
  using familyD(4) [OF assms(1,2)] assms(3,4) by (simp_all add: links_of_def)

lemma loose_unlink:
  assumes ok: "rete_ok s A" and x: "loose_match s A x"
  shows "UnlinkBetaPartialMatchfromAlphaAndBetaLineage x s = Some s"
proof -
  note T = tree_okD [OF rete_okD(1) [OF ok]]
  obtain n r where n: "pms s x = Some n" "rows s x = Some r" "children n = None" and r: "marker r = None"
    and a: "right_sibs A x = [x]" "left_sibs A x = [x]" "blocked_sibs A x = [x]" "right_of (rete_env s) x = None" "left_of (rete_env s) x = None"
    using x by (auto simp: loose_match_def removable_def)
  have d: "x \<in> dom (pms s)" using n(1) by blast
  have p: "rightParent r = None" "leftParent r = None" using a(4,5) n(2) by (simp_all add: right_of_def left_of_def)
  note L = lone_links [OF T(2) d a(1) n(1)] lone_links [OF T(3) d a(2) n(1)] lone_links [OF T(4) d a(3) n(1)]
  have e: "n\<lparr>nextRightChild := None, prevRightChild := None\<rparr> = n" "n\<lparr>nextLeftChild := None, prevLeftChild := None\<rparr> = n"
      "n\<lparr>nextBlocked := None, prevBlocked := None\<rparr> = n" using L by (cases n; simp)+
  have q: "r\<lparr>rightParent := None\<rparr> = r" "r\<lparr>leftParent := None\<rparr> = r" "r\<lparr>marker := None\<rparr> = r" using p r by (cases r; simp)+
  have "leave_right x s = Some s" "leave_left x s = Some s" "leave_blocked x s = Some s"
    using n p r L e q
    by (simp_all add: leave_right_def leave_left_def leave_blocked_def cut_sibling_def set_rightParent_def set_leftParent_def set_marker_def
        upd_row_def upd_match_def upd_pm_def fun_upd_idem)
  then show ?thesis using n by (simp add: UnlinkBetaPartialMatchfromAlphaAndBetaLineage_def leave_children_def)
qed

definition match_busy :: "rete \<Rightarrow> addr \<Rightarrow> bool" where
  "match_busy s x \<longleftrightarrow> map_option busy (rows s x) = Some True"

lemma loose_kept:
  assumes "loose_match s A y" "y \<noteq> x"
  shows "loose_match (return_state x s) A y"
  using assms removable_kept [of s A y x] return_state_row [of y x s] by (simp add: loose_match_def)

text \<open>One match: it is freed, or goes to the garbage list when it is in use.\<close>

lemma return_loose:
  assumes ok: "rete_ok s A" and mr: "mirrored (rete_env s)" and g: "garbage_ok s A gs" "x \<notin> set gs" and x: "loose_match s A x"
  shows "\<exists>s' gs'. ReturnPartialMatch x s = Some s' \<and> rete_ok s' A \<and> mirrored (rete_env s') \<and> garbage_ok s' A gs' \<and>
    (\<forall>y. y \<noteq> x \<longrightarrow> pms s' y = pms s y \<and> rows s' y = rows s y) \<and> (\<forall>y. y \<noteq> x \<and> loose_match s A y \<longrightarrow> loose_match s' A y) \<and>
    (if match_busy s x then gs' = x # gs \<and> dom (pms s') = dom (pms s) else gs' = gs \<and> dom (pms s') = dom (pms s) - {x})"
proof -
  have r: "removable s A x" using x by (simp add: loose_match_def)
  then obtain n r where n: "pms s x = Some n" "rows s x = Some r" by (auto simp: removable_def)
  show ?thesis
  proof (cases "busy r")
    case True
    then have b: "map_option busy (rows s x) = Some True" using n by simp
    obtain s' where s': "ReturnPartialMatch x s = Some s'" "rete_ok s' A" "garbage_ok s' A (x # gs)" "rete_env s' = rete_env s" "dom (pms s') = dom (pms s)"
      using ReturnPartialMatch_busy [OF ok r b g] by blast
    have eq: "s' = s\<lparr>pms := (pms s)(x \<mapsto> set_nextIn (GarbagePartialMatches s) n), GarbagePartialMatches := Some x\<rparr>"
      using s'(1) n True by (simp add: ReturnPartialMatch_def upd_pm_def)
    then show ?thesis using s' mr b n True
      by (intro exI [of _ s'] exI [of _ "x # gs"]) (auto simp: match_busy_def loose_match_def removable_def owns_alpha_def)
  next
    case False
    then have b: "map_option busy (rows s x) = Some False" using n by simp
    note R = ReturnPartialMatch_free [OF ok mr r b]
    have ng: "y \<noteq> x" if "y \<in> set gs" for y using that g(2) by blast
    have "garbage_matches (pms (return_state x s)) gs = garbage_matches (pms s) gs" using g(2) by (intro garbage_matches_cong) auto
    then have "garbage_ok (return_state x s) A gs" using g(1) ng removable_kept [of s A _ x] by (auto simp: garbage_ok_def)
    then show ?thesis using R b loose_kept return_state_row [of _ x s]
      by (intro exI [of _ "return_state x s"] exI [of _ gs]) (auto simp: match_busy_def)
  qed
qed

lemma flush_queue:
  assumes "rete_ok s A" "mirrored (rete_env s)" "garbage_ok s A gs" "set gs \<inter> set xs = {}" "distinct xs" "\<forall>x\<in>set xs. loose_match s A x"
    and "dlseg (memory_links (pms s)) p xs None"
  shows "\<exists>s' gs'. FlushAlphaBetaMemory (hdp xs None) s = Some s' \<and> rete_ok s' A \<and> mirrored (rete_env s') \<and> garbage_ok s' A gs' \<and>
    (\<forall>y. y \<notin> set xs \<longrightarrow> pms s' y = pms s y \<and> rows s' y = rows s y) \<and> (\<forall>y. y \<notin> set xs \<and> loose_match s A y \<longrightarrow> loose_match s' A y) \<and>
    set gs' = set gs \<union> {x \<in> set xs. match_busy s x} \<and> dom (pms s') = dom (pms s) - {x \<in> set xs. \<not> match_busy s x}"
  using assms
proof (induction xs arbitrary: s gs p)
  case Nil
  then show ?case by (intro exI [of _ s] exI [of _ gs]) (simp add: FlushAlphaBetaMemory.simps)
next
  case (Cons x xs)
  have x: "loose_match s A x" "x \<notin> set gs" "x \<notin> set xs" using Cons.prems by auto
  obtain n where n: "pms s x = Some n" "nextInMemory n = hdp xs None"
    using dlseg_node [of prevInMemory nextInMemory "pms s" p "[]" x xs None] Cons.prems(7) by auto
  obtain s1 gs1 where s1: "ReturnPartialMatch x s = Some s1" "rete_ok s1 A" "mirrored (rete_env s1)" "garbage_ok s1 A gs1"
      "\<forall>y. y \<noteq> x \<longrightarrow> pms s1 y = pms s y \<and> rows s1 y = rows s y" "\<forall>y. y \<noteq> x \<and> loose_match s A y \<longrightarrow> loose_match s1 A y"
      "if match_busy s x then gs1 = x # gs \<and> dom (pms s1) = dom (pms s) else gs1 = gs \<and> dom (pms s1) = dom (pms s) - {x}"
    using return_loose [OF Cons.prems(1-3) x(2,1)] by blast
  have nx: "y \<noteq> x" if "y \<in> set xs" for y using that x(3) by blast
  have g1: "set gs1 \<inter> set xs = {}" using s1(7) Cons.prems(4) x(3) by (auto split: if_splits)
  have l1: "\<forall>y\<in>set xs. loose_match s1 A y" using s1(6) Cons.prems(6) nx by auto
  have "memory_links (pms s1) y = memory_links (pms s) y" if "y \<in> set xs" for y using s1(5) nx [OF that] by (simp add: links_of_def)
  then have "dlseg (memory_links (pms s1)) (Some x) xs None"
    using dlseg_cong [of xs "memory_links (pms s1)" "memory_links (pms s)" "Some x" None] Cons.prems(7) by simp
  moreover have "distinct xs" using Cons.prems(5) by simp
  ultimately obtain s' gs' where s': "FlushAlphaBetaMemory (hdp xs None) s1 = Some s'" "rete_ok s' A" "mirrored (rete_env s')" "garbage_ok s' A gs'"
      "\<forall>y. y \<notin> set xs \<longrightarrow> pms s' y = pms s1 y \<and> rows s' y = rows s1 y" "\<forall>y. y \<notin> set xs \<and> loose_match s1 A y \<longrightarrow> loose_match s' A y"
      "set gs' = set gs1 \<union> {x \<in> set xs. match_busy s1 x}" "dom (pms s') = dom (pms s1) - {x \<in> set xs. \<not> match_busy s1 x}"
    using Cons.IH [OF s1(2-4) g1 _ l1] by blast
  have u: "match_busy s1 y = match_busy s y" if "y \<in> set xs" for y using s1(5) nx [OF that] by (simp add: match_busy_def)
  have "FlushAlphaBetaMemory (hdp (x # xs) None) s = Some s'"
    using n loose_unlink [OF Cons.prems(1) x(1)] s1(1) s'(1) by (subst FlushAlphaBetaMemory.simps) simp
  moreover have "set gs' = set gs \<union> {y \<in> set (x # xs). match_busy s y}" using s'(7) s1(7) u by (auto split: if_splits)
  moreover have "dom (pms s') = dom (pms s) - {y \<in> set (x # xs). \<not> match_busy s y}" unfolding s'(8) using s1(7) u x(3) by (auto split: if_splits)
  ultimately show ?case using s'(2-6) s1(5,6) by (intro exI [of _ s'] exI [of _ gs']) auto
qed

section \<open>The memories of a pattern\<close>

text \<open>While the memories of a pattern are freed one after the other, the list of the pattern is only intact from the next one on.\<close>

definition list_of :: "alphaNet \<Rightarrow> alpha_lists \<Rightarrow> addr \<Rightarrow> bool" where
  "list_of a B h \<longleftrightarrow> first_hashes (patternHeaders a) h = hdp (of_header B h) None \<and> distinct (of_header B h) \<and>
     dlseg (hash_links (amems a)) None (of_header B h) None \<and> set (of_header B h) = {k \<in> dom (amems a). owner_of (amems a) k = Some h} \<and>
     (\<forall>P. patternHeaders a h = Some P \<longrightarrow> lastHash P = lastp None (of_header B h))"

definition flushing :: "addr \<Rightarrow> addr list \<Rightarrow> alphaNet \<Rightarrow> alpha_lists \<Rightarrow> bool" where
  "flushing h ks a B \<longleftrightarrow> chains_ok (amems a) (AlphaMemoryTable a) (chain B) \<and> queues_ok (amems a) (match_nodes a) B \<and> one_each (amems a) \<and>
     (\<forall>k\<in>dom (amems a). queue B k \<noteq> []) \<and> (\<forall>k c. bucket_of (amems a) k = Some c \<longrightarrow> c < 63559) \<and> (\<forall>h'. h' \<noteq> h \<longrightarrow> list_of a B h') \<and>
     distinct ks \<and> (\<exists>p. dlseg (hash_links (amems a)) p ks None) \<and> set ks = {k \<in> dom (amems a). owner_of (amems a) k = Some h}"

lemma headers_list_of: "headers_ok (amems a) (patternHeaders a) (of_header B) \<longleftrightarrow> (\<forall>h. list_of a B h)"
  unfolding headers_ok_def grouped_def list_of_def by blast

lemma flushing_start:
  assumes "alpha_ok a B"
  shows "flushing h (of_header B h) a B"
proof -
  have "list_of a B h'" for h' using assms headers_list_of [of a B] by (simp add: alpha_ok_def alpha_part_def)
  then show ?thesis using assms unfolding flushing_def alpha_ok_def alpha_part_def by (auto simp: list_of_def)
qed

text \<open>The last assignments of \<^verbatim>\<open>FlushAlphaMemory\<close>.\<close>

lemma flushing_end:
  assumes f: "flushing h [] a B" and H: "patternHeaders a h = Some P"
  shows "\<exists>a'. upd_header h (\<lambda>H. H\<lparr>firstHash := None, lastHash := None\<rparr>) a = Some a' \<and> alpha_ok a' (B\<lparr>of_header := (of_header B)(h := [])\<rparr>) \<and>
    alpha_rete a' = alpha_rete a \<and> amems a' = amems a \<and> dom (patternHeaders a') = dom (patternHeaders a)"
proof -
  let ?a = "a\<lparr>patternHeaders := (patternHeaders a)(h \<mapsto> P\<lparr>firstHash := None, lastHash := None\<rparr>)\<rparr>" and ?B = "B\<lparr>of_header := (of_header B)(h := [])\<rparr>"
  have e: "{k \<in> dom (amems a). owner_of (amems a) k = Some h} = {}" using f by (simp add: flushing_def)
  have "list_of ?a ?B h'" for h'
  proof (cases "h' = h")
    case True
    then show ?thesis using e by (simp add: list_of_def first_hashes_def)
  next
    case False
    then have "list_of a B h'" using f by (simp add: flushing_def)
    then show ?thesis using False by (simp add: list_of_def first_hashes_def)
  qed
  then have "headers_ok (amems ?a) (patternHeaders ?a) (of_header ?B)" unfolding headers_list_of by blast
  moreover have "queues_ok (amems a) (match_nodes a) ?B" using f by (simp add: flushing_def queues_ok_def)
  ultimately have "alpha_ok ?a ?B" using f by (simp add: flushing_def alpha_ok_def alpha_part_def)
  then show ?thesis using H by (intro exI [of _ ?a]) (auto simp: upd_header_def insert_absorb domI)
qed

text \<open>A whole queue leaves.\<close>

lemma grouped_drop:
  assumes g: "grouped D L first par lst" and L: "\<And>y. y \<in> D \<Longrightarrow> y \<notin> set (lst k) \<Longrightarrow> L' y = L y" and f: "first' = first(k := None)"
    and p: "\<And>y. par' y = (if y \<in> set (lst k) then None else par y)"
  shows "grouped (D - set (lst k)) L' first' par' (lst(k := []))"
proof (rule groupedI)
  note G = groupedD [OF g]
  fix j
  show "first' j = hdp ((lst(k := [])) j) None" using G(1) [of j] f by simp
  show "distinct ((lst(k := [])) j)" using G(2) [of j] by simp
  show "dlseg L' None ((lst(k := [])) j) None"
  proof (cases "j = k")
    case False
    have "L' y = L y" if "y \<in> set (lst j)" for y using grouped_disjoint [OF g False] that L G(4) [of y j] by blast
    then show ?thesis using False G(3) [of j] dlseg_cong [of "lst j" L' L None None] by simp
  qed simp
  show "y \<in> set ((lst(k := [])) j) \<longleftrightarrow> y \<in> D - set (lst k) \<and> par' y = Some j" for y
    using G(4) [of y j] G(4) [of y k] p [of y] by (cases "j = k") auto
qed

definition drop_queue :: "addr \<Rightarrow> nat \<Rightarrow> alpha_lists \<Rightarrow> alpha_lists" where
  "drop_queue k b B = B\<lparr>chain := (chain B)(b := remove1 k (chain B b)), queue := (queue B)(k := []),
     holder := (\<lambda>y. if y \<in> set (queue B k) then None else holder B y)\<rparr>"

lemma drop_queue_ok:
  assumes q: "queues_ok M N B" and key: "keys M' = (keys M)(k := None)" and N': "\<And>y. y \<notin> set (queue B k) \<Longrightarrow> N' y = N y"
  shows "queues_ok M' N' (drop_queue k b B)"
proof -
  have g: "grouped (dom (holder B)) (memory_links N) (queue_heads M) (holder B) (queue B)" and l: "\<And>k m. M k = Some m \<Longrightarrow> endOfQueue m = lastp None (queue B k)"
    and h: "\<And>x k. holder B x = Some k \<Longrightarrow> \<exists>m n. M k = Some m \<and> N x = Some n \<and> \<not> betaMemory n \<and> alphaBucket n = amh_bucket m"
    using q by (simp_all add: queues_ok_def)
  have d: "dom (holder (drop_queue k b B)) = dom (holder B) - set (queue B k)" by (auto simp: drop_queue_def split: if_splits)
  have qh: "queue_heads M' = (queue_heads M)(k := None)" using key by (simp add: fun_eq_iff keys_parts)
  have "grouped (dom (holder B) - set (queue B k)) (memory_links N') (queue_heads M') (holder (drop_queue k b B)) ((queue B)(k := []))"
    by (rule grouped_drop [OF g _ qh]) (use N' in \<open>simp_all add: links_of_def drop_queue_def\<close>)
  then have g': "grouped (dom (holder (drop_queue k b B))) (memory_links N') (queue_heads M') (holder (drop_queue k b B)) (queue (drop_queue k b B))"
    unfolding d by (simp add: drop_queue_def)
  have "endOfQueue m' = lastp None (queue (drop_queue k b B) k')" if "M' k' = Some m'" for k' m'
    using keys_apply(1) [of M' k' m', OF that] key l [of k'] by (auto simp: keys_Some drop_queue_def split: if_splits)
  moreover have "\<exists>m n. M' k' = Some m \<and> N' x = Some n \<and> \<not> betaMemory n \<and> alphaBucket n = amh_bucket m"
    if hx: "holder (drop_queue k b B) x = Some k'" for x k'
  proof -
    have x: "x \<notin> set (queue B k)" "holder B x = Some k'" using hx by (auto simp: drop_queue_def split: if_splits)
    then have "k' \<noteq> k" using groupedD(4) [OF g, of x k] by auto
    obtain m n where mn: "M k' = Some m" "N x = Some n" "\<not> betaMemory n" "alphaBucket n = amh_bucket m" using h [OF x(2)] by blast
    have "keys M' k' = Some (amh_bucket m, amh_owner m, alphaMemory m, endOfQueue m)" using key keys_apply(1) [of M k' m, OF mn(1)] \<open>k' \<noteq> k\<close> by simp
    then show ?thesis using mn N' [OF x(1)] by (auto simp: keys_Some)
  qed
  ultimately show ?thesis using g' by (simp add: queues_ok_def)
qed

lemma flush_step:
  assumes f: "flushing h (k # ks) a B" and k: "amems a k = Some m" and s: "\<And>y. y \<notin> set (queue B k) \<Longrightarrow> pms s y = match_nodes a y"
  defines "b \<equiv> amh_bucket m"
  shows "\<exists>a'. UnlinkAlphaMemoryBucketSiblings k (a\<lparr>alpha_rete := s\<rparr>) = Some a' \<and> flushing h ks (free_memory k a') (drop_queue k b B) \<and>
    alpha_rete (free_memory k a') = s \<and> keys (amems (free_memory k a')) = (keys (amems a))(k := None) \<and> patternHeaders (free_memory k a') = patternHeaders a"
proof -
  let ?a = "a\<lparr>alpha_rete := s\<rparr>"
  have c: "chains_ok (amems ?a) (AlphaMemoryTable ?a) (chain B)" using f by (simp add: flushing_def)
  note G = groupedD [OF c [unfolded chains_ok_def]]
  obtain M where M: "UnlinkAlphaMemoryBucketSiblings k ?a = Some (?a\<lparr>AlphaMemoryTable := (AlphaMemoryTable ?a)(b := hdp (remove1 k (chain B b)) None), amems := M\<rparr>)"
      "dlseg (chain_links M) None (remove1 k (chain B b)) None" "pays_of chain_rest M = pays_of chain_rest (amems ?a)"
      "\<forall>y. y \<notin> set (remove1 k (chain B b)) \<longrightarrow> M y = amems ?a y" "k \<in> set (chain B b)"
    using siblings_ok [OF c, of k m b] k b_def by auto
  note F = chain_frame [OF M(3)]
  let ?M = "M(k := None)"
  define a' where "a' = ?a\<lparr>AlphaMemoryTable := (AlphaMemoryTable ?a)(b := hdp (remove1 k (chain B b)) None), amems := M\<rparr>"
  have key: "keys ?M = (keys (amems a))(k := None)" using F(2) by simp
  have d: "dom ?M = dom (amems a) - {k}" using F(3) by simp
  have ky: "bucket_of ?M y = bucket_of (amems a) y" "owner_of ?M y = owner_of (amems a) y" if "y \<noteq> k" for y using that F(2) by (simp_all add: keys_parts)
  have own: "insert k (set ks) = {k' \<in> dom (amems a). owner_of (amems a) k' = Some h}" using f by (simp add: flushing_def)
  have hl: "hash_links ?M y = hash_links (amems a) y" if "y \<noteq> k" for y using that F(1) by simp
  have "chains_ok ?M ((AlphaMemoryTable a)(b := hdp (remove1 k (chain B b)) None)) ((chain B)(b := remove1 k (chain B b)))"
  proof -
    obtain P S where PS: "chain B b = P @ k # S" using M(5) by (auto simp: in_set_conv_decomp)
    have rm: "remove1 k (chain B b) = P @ S" using G(2) [of b] PS by (simp add: remove1_append)
    have dk: "k \<notin> set (P @ S)" using G(2) [of b] PS by simp
    have cg: "grouped (dom (amems a)) (chain_links (amems a)) (AlphaMemoryTable a) (bucket_of (amems a)) (chain B)" using c by (simp add: chains_ok_def)
    have "grouped (dom ?M) (chain_links ?M) ((AlphaMemoryTable a)(b := hdp (P @ S) None)) (bucket_of ?M) ((chain B)(b := P @ S))"
      unfolding d
    proof (rule grouped_leave [OF cg PS _ _ ky(1) refl])
      have "chain_links ?M y = chain_links M y" if "y \<in> set (P @ S)" for y using that dk by (auto simp: links_of_def)
      then show "dlseg (chain_links ?M) None (P @ S) None"
        using M(2) dlseg_cong [of "P @ S" "chain_links ?M" "chain_links M" None None] unfolding rm by blast
      show "chain_links ?M y = chain_links (amems a) y" if "y \<notin> set (P @ k # S)" for y using that M(4) rm by (simp add: links_of_def)
    qed
    then show ?thesis by (simp only: chains_ok_def rm)
  qed
  moreover have "queues_ok ?M (pms s) (drop_queue k b B)"
    by (rule drop_queue_ok [OF _ key s]) (use f in \<open>simp_all add: flushing_def\<close>)
  moreover have "one_each ?M" using f ky d unfolding flushing_def one_each_def by (metis Diff_iff insertI1)
  moreover have "\<forall>k'\<in>dom ?M. queue (drop_queue k b B) k' \<noteq> []" using f d by (auto simp: flushing_def drop_queue_def)
  moreover have "\<forall>k' c. bucket_of ?M k' = Some c \<longrightarrow> c < 63559"
  proof (intro allI impI)
    fix k' c assume c: "bucket_of ?M k' = Some c"
    then have "k' \<noteq> k" by (auto simp: bucket_of_def)
    then have "bucket_of (amems a) k' = Some c" using c ky(1) by simp
    then show "c < 63559" using f unfolding flushing_def by blast
  qed
  moreover have "list_of (free_memory k a') (drop_queue k b B) h'" if h': "h' \<noteq> h" for h'
  proof -
    have l: "list_of a B h'" using f h' by (simp add: flushing_def)
    have kh: "owner_of (amems a) k = Some h" using own by auto
    have nk: "y \<noteq> k" if "y \<in> set (of_header B h')" for y using l that kh h' by (auto simp: list_of_def)
    have "dlseg (hash_links ?M) None (of_header B h') None"
      using l dlseg_cong [of "of_header B h'" "hash_links ?M" "hash_links (amems a)" None None] hl nk unfolding list_of_def by blast
    moreover have "{x \<in> dom ?M. owner_of ?M x = Some h'} = {x \<in> dom (amems a). owner_of (amems a) x = Some h'}"
    proof (intro Collect_cong)
      show "x \<in> dom ?M \<and> owner_of ?M x = Some h' \<longleftrightarrow> x \<in> dom (amems a) \<and> owner_of (amems a) x = Some h'" for x
        unfolding d using ky(2) [of x] kh h' by (cases "x = k") auto
    qed
    ultimately show ?thesis using l by (simp only: list_of_def) (simp add: free_memory_def a'_def drop_queue_def)
  qed
  moreover have "distinct ks" "\<exists>p. dlseg (hash_links ?M) p ks None" "set ks = {k' \<in> dom ?M. owner_of ?M k' = Some h}"
  proof -
    show "distinct ks" using f by (simp add: flushing_def)
    obtain p where p: "dlseg (hash_links (amems a)) p (k # ks) None" using f by (auto simp: flushing_def)
    have nk: "k \<notin> set ks" using f by (simp add: flushing_def)
    have "hash_links ?M y = hash_links (amems a) y" if "y \<in> set ks" for y by (rule hl) (use that nk in blast)
    moreover have "dlseg (hash_links (amems a)) (Some k) ks None" using p by simp
    ultimately have "dlseg (hash_links ?M) (Some k) ks None"
      using dlseg_cong [of ks "hash_links ?M" "hash_links (amems a)" "Some k" None] by blast
    then show "\<exists>p. dlseg (hash_links ?M) p ks None" by blast
    show "set ks = {k' \<in> dom ?M. owner_of ?M k' = Some h}"
    proof (intro set_eqI)
      show "x \<in> set ks \<longleftrightarrow> x \<in> {k' \<in> dom ?M. owner_of ?M k' = Some h}" for x
        unfolding d using own ky(2) [of x] nk by (cases "x = k") auto
    qed
  qed
  ultimately have "flushing h ks (free_memory k a') (drop_queue k b B)"
    unfolding flushing_def by (simp add: free_memory_def a'_def drop_queue_def)
  then show ?thesis using M(1) key by (intro exI [of _ a']) (simp add: a'_def free_memory_def)
qed

section \<open>The loop\<close>

text \<open>The matches in the memories that are left, and what the loop does to the matches.\<close>

definition queued :: "alpha_lists \<Rightarrow> addr list \<Rightarrow> addr set" where
  "queued B ks = (\<Union>k\<in>set ks. set (queue B k))"

definition rest_ok :: "rete \<Rightarrow> net_lists \<Rightarrow> alpha_lists \<Rightarrow> addr list \<Rightarrow> bool" where
  "rest_ok s A B gs \<longleftrightarrow> rete_ok s A \<and> mirrored (rete_env s) \<and> garbage_ok s A gs \<and> set gs \<inter> dom (holder B) = {}"

lemma queued_drop:
  assumes "k \<notin> set ks"
  shows "queued (drop_queue k b B) ks = queued B ks" "queued B (k # ks) = set (queue B k) \<union> queued B ks"
  using assms by (auto simp: queued_def drop_queue_def split: if_splits)

lemma flush_memories_ok:
  assumes "flushing h ks a B" "rest_ok (alpha_rete a) A B gs" "\<forall>x\<in>queued B ks. loose_match (alpha_rete a) A x"
  shows "\<exists>a' B' gs'. flush_memories (hdp ks None) a = Some a' \<and> flushing h [] a' B' \<and> rest_ok (alpha_rete a') A B' gs' \<and>
    patternHeaders a' = patternHeaders a \<and> (\<forall>k. keys (amems a') k = (if k \<in> set ks then None else keys (amems a) k)) \<and>
    (\<forall>k. queue B' k = (if k \<in> set ks then [] else queue B k)) \<and>
    set gs' = set gs \<union> {x \<in> queued B ks. match_busy (alpha_rete a) x} \<and>
    dom (match_nodes a') = dom (match_nodes a) - {x \<in> queued B ks. \<not> match_busy (alpha_rete a) x}"
  using assms
proof (induction ks arbitrary: a B gs)
  case Nil
  then show ?case by (intro exI [of _ a] exI [of _ B] exI [of _ gs]) (simp add: flush_memories.simps queued_def)
next
  case (Cons k ks)
  let ?s = "alpha_rete a" and ?Q = "queue B k"
  have nk: "k \<notin> set ks" and own: "set (k # ks) = {k' \<in> dom (amems a). owner_of (amems a) k' = Some h}"
    and g: "grouped (dom (holder B)) (memory_links (match_nodes a)) (queue_heads (amems a)) (holder B) (queue B)"
    and lk: "\<exists>p. dlseg (hash_links (amems a)) p (k # ks) None"
    using Cons.prems(1) by (simp_all add: flushing_def queues_ok_def)
  note G = groupedD [OF g]
  obtain m where m: "amems a k = Some m" using own by auto
  have m': "alphaMemory m = hdp ?Q None" using G(1) [of k] m by (simp add: queue_heads_def)
  obtain p where "dlseg (hash_links (amems a)) p (k # ks) None" using lk by blast
  then have m2: "nextHash m = hdp ks None" using dlseg_node [of prevHash nextHash "amems a" p "[]" k ks None] m by auto
  have out: "set ?Q \<inter> queued B ks = {}" using nk G(4) by (auto simp: queued_def)
  have inh: "set ?Q \<subseteq> dom (holder B)" using G(4) by auto
  obtain s gs1 where s: "FlushAlphaBetaMemory (hdp ?Q None) ?s = Some s" "rete_ok s A" "mirrored (rete_env s)" "garbage_ok s A gs1"
      "\<forall>y. y \<notin> set ?Q \<longrightarrow> pms s y = pms ?s y \<and> rows s y = rows ?s y" "\<forall>y. y \<notin> set ?Q \<and> loose_match ?s A y \<longrightarrow> loose_match s A y"
      "set gs1 = set gs \<union> {x \<in> set ?Q. match_busy ?s x}" "dom (pms s) = dom (pms ?s) - {x \<in> set ?Q. \<not> match_busy ?s x}"
    using flush_queue [of ?s A gs ?Q None] Cons.prems(2,3) G(2,3) [of k] inh queued_drop(2) [OF nk, of B] by (fastforce simp: rest_ok_def)
  obtain a1 where a1: "UnlinkAlphaMemoryBucketSiblings k (a\<lparr>alpha_rete := s\<rparr>) = Some a1"
      "flushing h ks (free_memory k a1) (drop_queue k (amh_bucket m) B)" "alpha_rete (free_memory k a1) = s"
      "keys (amems (free_memory k a1)) = (keys (amems a))(k := None)" "patternHeaders (free_memory k a1) = patternHeaders a"
    using flush_step [OF Cons.prems(1) m, of s] s(5) by blast
  let ?a = "free_memory k a1" and ?B = "drop_queue k (amh_bucket m) B"
  note Q = queued_drop [OF nk]
  have r1: "rest_ok (alpha_rete ?a) A ?B gs1"
    using s(2-4,7) a1(3) Cons.prems(2) by (auto simp: rest_ok_def drop_queue_def split: if_splits)
  have l1: "\<forall>x\<in>queued ?B ks. loose_match (alpha_rete ?a) A x" unfolding Q(1) a1(3) using Cons.prems(3) s(6) Q(2) [of B] out by blast
  obtain a' B' gs' where c: "flush_memories (hdp ks None) ?a = Some a'" "flushing h [] a' B'" "rest_ok (alpha_rete a') A B' gs'"
      "patternHeaders a' = patternHeaders ?a" "\<forall>k'. keys (amems a') k' = (if k' \<in> set ks then None else keys (amems ?a) k')"
      "\<forall>k'. queue B' k' = (if k' \<in> set ks then [] else queue ?B k')" "set gs' = set gs1 \<union> {x \<in> queued ?B ks. match_busy (alpha_rete ?a) x}"
      "dom (match_nodes a') = dom (match_nodes ?a) - {x \<in> queued ?B ks. \<not> match_busy (alpha_rete ?a) x}"
    using Cons.IH [OF a1(2) r1 l1] by blast
  have "flush_memories (hdp (k # ks) None) a = Some a'"
    using m m' m2 s(1) a1(1) c(1) by (subst flush_memories.simps) simp
  moreover have u: "match_busy s x = match_busy ?s x" if "x \<in> queued B ks" for x using s(5) out that by (auto simp: match_busy_def)
  have "set gs' = set gs \<union> {x \<in> queued B (k # ks). match_busy ?s x}" unfolding c(7) s(7) Q a1(3) using u by auto
  moreover have "dom (match_nodes a') = dom (match_nodes a) - {x \<in> queued B (k # ks). \<not> match_busy ?s x}"
    unfolding c(8) Q a1(3) s(8) using u by auto
  moreover have "keys (amems a') k' = (if k' \<in> set (k # ks) then None else keys (amems a) k')" for k' using c(5) a1(4) by simp
  moreover have "queue B' k' = (if k' \<in> set (k # ks) then [] else queue B k')" for k' using c(6) by (simp add: drop_queue_def)
  ultimately show ?case using c(2-4) a1(5) by (intro exI [of _ a'] exI [of _ B'] exI [of _ gs']) simp
qed

definition pattern_matches :: "alphaNet \<Rightarrow> alpha_lists \<Rightarrow> addr \<Rightarrow> addr set" where
  "pattern_matches a B h = (\<Union>b. set (content a B h b))"

lemma queued_pattern:
  assumes "alpha_part a B"
  shows "queued B (of_header B h) = pattern_matches a B h"
proof -
  note G = groupedD [OF alpha_partD(2) [OF assms]]
  have "x \<in> queued B (of_header B h) \<longleftrightarrow> x \<in> pattern_matches a B h" for x
  proof
    assume "x \<in> queued B (of_header B h)"
    then obtain k where k: "k \<in> set (of_header B h)" "x \<in> set (queue B k)" by (auto simp: queued_def)
    then obtain m where m: "amems a k = Some m" "amh_owner m = h" using G(4) [of k h] by (auto simp: owner_of_def)
    then have "memory_for a B h (amh_bucket m) = Some k" using memory_for_iff [OF assms] by blast
    then have "x \<in> set (content a B h (amh_bucket m))" using k(2) by (simp add: content_def)
    then show "x \<in> pattern_matches a B h" by (auto simp: pattern_matches_def)
  next
    assume "x \<in> pattern_matches a B h"
    then obtain b where "x \<in> set (content a B h b)" by (auto simp: pattern_matches_def)
    then obtain k where k: "memory_for a B h b = Some k" "x \<in> set (queue B k)" by (cases "memory_for a B h b") (auto simp: content_def)
    then obtain m where "amems a k = Some m" "amh_owner m = h" using memory_for_iff [OF assms] by blast
    then have "k \<in> set (of_header B h)" using G(4) [of k h] by (auto simp: owner_of_def)
    then show "x \<in> queued B (of_header B h)" using k(2) by (auto simp: queued_def)
  qed
  then show ?thesis by blast
qed

lemma content_flushed:
  assumes ok: "alpha_part a B" "alpha_part a' B'"
    and key: "\<And>k. keys (amems a') k = (if k \<in> set (of_header B h) then None else keys (amems a) k)"
    and q: "\<And>k. queue B' k = (if k \<in> set (of_header B h) then [] else queue B k)"
  shows "content a' B' = (content a B)(h := (\<lambda>_. []))"
proof (intro ext)
  fix h' b
  note M = memory_for_keys [OF ok(1)] memory_for_keys [OF ok(2)]
  have own: "k \<in> set (of_header B h) \<longleftrightarrow> owner_of (amems a) k = Some h" for k
    using groupedD(4) [OF alpha_partD(2) [OF ok(1)], of k h] by (auto simp: owner_of_def)
  have e: "bucket_of (amems a') k = (if k \<in> set (of_header B h) then None else bucket_of (amems a) k)"
      "owner_of (amems a') k = (if k \<in> set (of_header B h) then None else owner_of (amems a) k)" for k
    using key by (simp_all add: keys_parts)
  have i: "memory_for a' B' h' b = Some k \<longleftrightarrow> h' \<noteq> h \<and> memory_for a B h' b = Some k" for k
    using M(1) [of h' b k] M(2) [of h' b k] e own [of k] by auto
  show "content a' B' h' b = ((content a B)(h := (\<lambda>_. []))) h' b"
  proof (cases "h' = h")
    case True
    then have "memory_for a' B' h' b = None" using i by (cases "memory_for a' B' h' b") auto
    then show ?thesis using True by (simp add: content_def)
  next
    case False
    have m: "memory_for a' B' h' b = memory_for a B h' b" using i False by (metis option.exhaust)
    have "k \<notin> set (of_header B h)" if "memory_for a B h' b = Some k" for k using that M(1) own False by force
    then show ?thesis using False m q by (auto simp: content_def split: option.split)
  qed
qed

lemma FlushAlphaMemory_net:
  assumes ok: "net_ok a A B gs" and H: "patternHeaders a h = Some P" and l: "\<forall>x\<in>pattern_matches a B h. loose_match (alpha_rete a) A x"
  shows "\<exists>a' B' gs'. FlushAlphaMemory h a = Some a' \<and> net_ok a' A B' gs' \<and> content a' B' = (content a B)(h := (\<lambda>_. [])) \<and>
    dom (amems a') = {k \<in> dom (amems a). owner_of (amems a) k \<noteq> Some h} \<and>
    set gs' = set gs \<union> {x \<in> pattern_matches a B h. match_busy (alpha_rete a) x} \<and>
    dom (match_nodes a') = dom (match_nodes a) - {x \<in> pattern_matches a B h. \<not> match_busy (alpha_rete a) x}"
proof -
  note part = net_okD(5) [OF ok]
  note q = queued_pattern [OF part, of h]
  have "rest_ok (alpha_rete a) A B gs" using ok by (simp add: net_ok_def rest_ok_def)
  then obtain a1 B1 gs' where c: "flush_memories (hdp (of_header B h) None) a = Some a1" "flushing h [] a1 B1" "rest_ok (alpha_rete a1) A B1 gs'"
      "patternHeaders a1 = patternHeaders a" "\<forall>k. keys (amems a1) k = (if k \<in> set (of_header B h) then None else keys (amems a) k)"
      "\<forall>k. queue B1 k = (if k \<in> set (of_header B h) then [] else queue B k)"
      "set gs' = set gs \<union> {x \<in> pattern_matches a B h. match_busy (alpha_rete a) x}"
      "dom (match_nodes a1) = dom (match_nodes a) - {x \<in> pattern_matches a B h. \<not> match_busy (alpha_rete a) x}"
    using flush_memories_ok [OF flushing_start [OF net_okD(2) [OF ok], of h], of A gs] l unfolding q by blast
  let ?B = "B1\<lparr>of_header := (of_header B1)(h := [])\<rparr>"
  obtain a' where a': "upd_header h (\<lambda>H. H\<lparr>firstHash := None, lastHash := None\<rparr>) a1 = Some a'" "alpha_ok a' ?B" "alpha_rete a' = alpha_rete a1" "amems a' = amems a1"
    using flushing_end [OF c(2)] H c(4) by fastforce
  have f: "firstHash P = hdp (of_header B h) None" using groupedD(1) [OF alpha_partD(2) [OF part], of h] H by (simp add: first_hashes_def)
  have run: "FlushAlphaMemory h a = Some a'" using H f c(1) a'(1) by (simp add: FlushAlphaMemory_def)
  have net: "net_ok a' A ?B gs'" using a'(2,3) c(3) by (simp add: net_ok_def rest_ok_def)
  have cont: "content a' ?B = (content a B)(h := (\<lambda>_. []))"
    by (rule content_flushed [OF part net_okD(5) [OF net]]) (use c(5,6) a'(4) in simp_all)
  have "k \<in> set (of_header B h) \<longleftrightarrow> k \<in> dom (amems a) \<and> owner_of (amems a) k = Some h" for k
    using groupedD(4) [OF alpha_partD(2) [OF part], of k h] by simp
  then have "k \<in> dom (amems a') \<longleftrightarrow> k \<in> dom (amems a) \<and> owner_of (amems a) k \<noteq> Some h" for k
    using c(5) a'(4) by (simp add: keys_dom [symmetric] domIff)
  then have "dom (amems a') = {k \<in> dom (amems a). owner_of (amems a) k \<noteq> Some h}" by blast
  then show ?thesis using run net cont c(7,8) a'(3) by (intro exI [of _ a'] exI [of _ ?B] exI [of _ gs']) simp
qed

end
