(* ===== verification/Rete_Support.thy ===== *)
theory Rete_Support
  imports Rete_Create
begin

text \<open>
  The deletion of a match while it supports the rule that is firing.  \<^verbatim>\<open>AddLogicalDependencies\<close> takes a match without parents for a
  deleted one; \<^verbatim>\<open>UnlinkNonLeftLineage\<close> does not clear the pointers to the parents.
\<close>

lemma upd_at_dom: "upd_at p f h = Some h' \<Longrightarrow> dom h' = dom h"
  by (clarsimp simp: upd_at_def Option.bind_eq_Some_conv) (simp add: insert_absorb domI)

lemma upd_if_dom: "upd_if p f h = Some h' \<Longrightarrow> dom h' = dom h"
  by (cases p) (simp_all add: upd_at_dom)

lemma cut_sibling_dom:
  assumes "cut_sibling prv nxt set_head set_prv set_nxt owner x h = Some h'"
  shows "dom h' = dom h"
proof -
  obtain n h1 where "(if prv n = None then upd_if owner (set_head (nxt n)) h else upd_at (prv n) (set_nxt (nxt n)) h) = Some h1"
      "upd_if (nxt n) (set_prv (prv n)) h1 = Some h'"
    using assms unfolding cut_sibling_def by (auto simp: Option.bind_eq_Some_conv)
  then have "dom h1 = dom h" "dom h' = dom h1" using upd_if_dom upd_at_dom by (metis, metis)
  then show ?thesis by simp
qed

lemma shrink_kept:
  assumes "shrink_memory j sd s = Some s'"
  shows "rete_env s' = rete_env s" "pms s' = pms s" "GarbagePartialMatches s' = GarbagePartialMatches s"
  using assms by (auto simp: shrink_memory_def ResetBetaMemory_def upd_memories_def Option.bind_eq_Some_conv Let_def split: if_splits)

lemma take_kept:
  assumes "remove_from_memory j x sd s = Some s'"
  shows "rete_env s' = rete_env s" "dom (pms s') = dom (pms s)" "GarbagePartialMatches s' = GarbagePartialMatches s"
  using assms unfolding remove_from_memory_def
  by (cases sd; auto simp: Option.bind_eq_Some_conv upd_pm_def upd_pm_if_def upd_memories_def split: if_splits dest!: upd_if_dom upd_at_dom)+

lemma row_upd_kept:
  assumes "set_rightParent b q s = Some s'" "map_option rightParent (rows s x) = Some q"
  shows "rows s' x = rows s x" "engineD (rete_env s') = engineD (rete_env s)" "entities (rete_env s') = entities (rete_env s)" "pms s' = pms s"
  using assms by (auto simp: set_rightParent_def upd_row_def upd_match_def upd_at_def split: option.splits)

lemma UnlinkNonLeftLineage_kept:
  assumes u: "UnlinkNonLeftLineage j x sd s = Some s'" and r: "rows s x = Some r"
  shows "rows s' x = Some r" "engineD (rete_env s') = engineD (rete_env s)" "entities (rete_env s') = entities (rete_env s)" "x \<in> dom (pms s')"
proof -
  obtain s1 n h s2 h3 where s: "remove_from_memory j x sd s = Some s1" "pms s1 x = Some n" "rows s1 x = Some r" "cut_right (rightParent r) x (pms s1) = Some h"
      "(case nextRightChild n of
         Some b \<Rightarrow> if prevRightChild n = None \<and> rightParent r \<noteq> None then set_rightParent b (rightParent r) (s1\<lparr>pms := h\<rparr>)
                   else Some (s1\<lparr>pms := h\<rparr>)
       | None \<Rightarrow> Some (s1\<lparr>pms := h\<rparr>)) = Some s2" "cut_blocked (marker r) x (pms s2) = Some h3" "shrink_memory j sd (s2\<lparr>pms := h3\<rparr>) = Some s'"
  proof -
    obtain s1 n r' h s2 h3 where s: "remove_from_memory j x sd s = Some s1" "pms s1 x = Some n" "rows s1 x = Some r'" "cut_right (rightParent r') x (pms s1) = Some h"
      "(case nextRightChild n of
         Some b \<Rightarrow> if prevRightChild n = None \<and> rightParent r' \<noteq> None then set_rightParent b (rightParent r') (s1\<lparr>pms := h\<rparr>)
                   else Some (s1\<lparr>pms := h\<rparr>)
       | None \<Rightarrow> Some (s1\<lparr>pms := h\<rparr>)) = Some s2" "cut_blocked (marker r') x (pms s2) = Some h3" "shrink_memory j sd (s2\<lparr>pms := h3\<rparr>) = Some s'"
      using u unfolding UnlinkNonLeftLineage_def Option.bind_eq_Some_conv by blast
    moreover have "r' = r" using s(3) r take_kept(1) [OF s(1)] by simp
    ultimately show ?thesis using that by blast
  qed
  note T = take_kept [OF s(1)] and S = shrink_kept [OF s(7)]
  have row: "map_option rightParent (rows (s1\<lparr>pms := h\<rparr>) x) = Some (rightParent r)" using s(3) by simp
  have e2: "rows s2 x = Some r \<and> engineD (rete_env s2) = engineD (rete_env s) \<and> entities (rete_env s2) = entities (rete_env s) \<and> pms s2 = h"
    using s(3,5) T(1) row_upd_kept [OF _ row] by (auto split: option.splits if_splits)
  have "x \<in> dom h" using cut_sibling_dom [OF s(4)] s(2) by blast
  then have "x \<in> dom h3" using cut_sibling_dom [OF s(6)] e2 by simp
  then show "rows s' x = Some r" "engineD (rete_env s') = engineD (rete_env s)" "entities (rete_env s') = entities (rete_env s)" "x \<in> dom (pms s')"
    using S e2 by simp_all
qed

lemma deleted_match_supports:
  assumes u: "UnlinkNonLeftLineage j x sd s = Some s1" and r: "rows s x = Some r" "busy r" "leftParent r \<noteq> None \<or> rightParent r \<noteq> None"
    and e: "TheLogicalJoin (engineD (rete_env s)) \<noteq> None" "TheLogicalBind (engineD (rete_env s)) = Some x" "entities (rete_env s) y \<noteq> None"
  shows "\<exists>s2 e'. ReturnPartialMatch x s1 = Some s2 \<and> GarbagePartialMatches s2 = Some x \<and>
    AddLogicalDependencies y False (rete_env s2) = Some (True, e') \<and> y \<in> set (supported_by e' x)"
proof -
  note K = UnlinkNonLeftLineage_kept [OF u r(1)]
  obtain n where n: "pms s1 x = Some n" using K(4) by blast
  obtain T where T: "entities (rete_env s) y = Some T" using e(3) by blast
  let ?s2 = "s1\<lparr>pms := (pms s1)(x \<mapsto> set_nextIn (GarbagePartialMatches s1) n), GarbagePartialMatches := Some x\<rparr>"
  have "ReturnPartialMatch x s1 = Some ?s2" using n K(1) r(2) by (simp add: ReturnPartialMatch_def upd_pm_def)
  moreover have "\<exists>e'. AddLogicalDependencies y False (rete_env ?s2) = Some (True, e') \<and> y \<in> set (supported_by e' x)"
  proof -
    obtain j' where j': "TheLogicalJoin (engineD (rete_env s1)) = Some j'" "TheLogicalBind (engineD (rete_env s1)) = Some x" using e K(2) by auto
    have T1: "entities (rete_env s1) y = Some T" using K(3) T by simp
    have np: "(leftParent r = None \<and> rightParent r = None) = False" using r(3) by blast
    have "AddLogicalDependencies y False (rete_env s1) = Some (True, add_link x y (rete_env s1))"
      unfolding AddLogicalDependencies_def by (simp add: j' K(1) T1 np upd_match_def upd_entity_def add_link_def)
    moreover have "y \<in> set (supported_by (add_link x y (rete_env s1)) x)" using K(1) T1 by (simp add: support_add_link)
    ultimately show ?thesis by simp
  qed
  moreover have "GarbagePartialMatches ?s2 = Some x" by simp
  ultimately show ?thesis by blast
qed

end
