(* ===== verification/Sample_Rete.thy ===== *)
theory Sample_Rete
  imports Rete_Support Sample_Env
begin

text \<open>
  A small join network: an alpha match, a match in the left memory and a match in the right memory of join 5, a match that has
  just been created, and one in the list of garbage matches.
\<close>

definition sample_left :: pmNode where
  "sample_left = blank_node\<lparr>pm_hashValue := 3\<rparr>"

definition sample_right :: pmNode where
  "sample_right = blank_node\<lparr>rhsMemory := True, pm_hashValue := 3\<rparr>"

definition sample_memories :: joinMemories where
  "sample_memories = \<lparr>leftBeta = Some \<lparr>beta_size = 17, beta_count = 1, beta = (replicate 17 None)[3 := Some 21], beta_last = None\<rparr>,
     rightBeta = Some \<lparr>beta_size = 17, beta_count = 1, beta = (replicate 17 None)[3 := Some 23], beta_last = Some ((replicate 17 None)[3 := Some 23])\<rparr>,
     memoryLeftAdds = 1, memoryRightAdds = 1, memoryLeftDeletes = 0, memoryRightDeletes = 0\<rparr>"

definition sample_rete :: rete where
  "sample_rete = \<lparr>rete_env = sample_env\<lparr>fresh := 30, matches := [20 \<mapsto> new_row 5 [Some (Some 0)], 21 \<mapsto> new_row 5 [Some (Some 1)],
       22 \<mapsto> new_row 5 [Some (Some 1)], 23 \<mapsto> new_row 5 [Some (Some 2)], 24 \<mapsto> (new_row 5 [Some (Some 0)])\<lparr>busy := True\<rparr>]\<rparr>,
     pms = [20 \<mapsto> blank_node\<lparr>betaMemory := False\<rparr>, 21 \<mapsto> sample_left, 22 \<mapsto> blank_node, 23 \<mapsto> sample_right, 24 \<mapsto> blank_node],
     memories = [5 \<mapsto> sample_memories], BetaMemoryResizingFlag = True, GarbagePartialMatches = Some 24\<rparr>"

definition sample_lists :: net_lists where
  "sample_lists = \<lparr>in_bucket = (\<lambda>j sd i. if j = 5 \<and> i = 3 then (if sd = LHS then [21] else [23]) else []),
     right_sibs = (\<lambda>x. [x]), left_sibs = (\<lambda>x. [x]), blocked_sibs = (\<lambda>x. [x])\<rparr>"

lemma sample_rete_simps [simp]:
  "pms sample_rete = [20 \<mapsto> blank_node\<lparr>betaMemory := False\<rparr>, 21 \<mapsto> sample_left, 22 \<mapsto> blank_node, 23 \<mapsto> sample_right, 24 \<mapsto> blank_node]"
  "rows sample_rete = [20 \<mapsto> new_row 5 [Some (Some 0)], 21 \<mapsto> new_row 5 [Some (Some 1)],
       22 \<mapsto> new_row 5 [Some (Some 1)], 23 \<mapsto> new_row 5 [Some (Some 2)], 24 \<mapsto> (new_row 5 [Some (Some 0)])\<lparr>busy := True\<rparr>]"
  "memories sample_rete = [5 \<mapsto> sample_memories]" "BetaMemoryResizingFlag sample_rete = True" "GarbagePartialMatches sample_rete = Some 24"
  "in_bucket sample_lists = (\<lambda>j sd i. if j = 5 \<and> i = 3 then (if sd = LHS then [21] else [23]) else [])"
  "right_sibs sample_lists = (\<lambda>x. [x])" "left_sibs sample_lists = (\<lambda>x. [x])" "blocked_sibs sample_lists = (\<lambda>x. [x])"
  "joins (rete_env sample_rete) 5 = None" "fresh (rete_env sample_rete) = 30"
  by (simp_all add: sample_rete_def sample_lists_def sample_env_def)

lemma sample_owners [simp]:
  "right_of (rete_env sample_rete) x = None" "left_of (rete_env sample_rete) x = None" "blocker_of (rete_env sample_rete) x = None"
  by (simp_all add: right_of_def left_of_def blocker_of_def new_row_def split: option.split)

lemma sample_heads [simp]: "right_heads (pms sample_rete) x = None" "left_heads (pms sample_rete) x = None" "blocked_heads (pms sample_rete) x = None"
  by (simp_all add: heads_def blank_node_def sample_left_def sample_right_def)

lemma sample_nodes [simp]:
  "y \<in> dom (pms sample_rete) \<Longrightarrow> links_of prevRightChild nextRightChild (pms sample_rete) y = Some (None, None)"
  "y \<in> dom (pms sample_rete) \<Longrightarrow> links_of prevLeftChild nextLeftChild (pms sample_rete) y = Some (None, None)"
  "y \<in> dom (pms sample_rete) \<Longrightarrow> links_of prevBlocked nextBlocked (pms sample_rete) y = Some (None, None)"
  "y \<in> dom (pms sample_rete) \<Longrightarrow> links_of prevInMemory nextInMemory (pms sample_rete) y = Some (None, None)"
  by (auto simp: links_of_def blank_node_def sample_left_def sample_right_def)

lemma sample_dom: "dom (pms sample_rete) = {20, 21, 22, 23, 24}" "dom (rows sample_rete) = {20, 21, 22, 23, 24}"
  by auto

lemma sample_tree: "tree_ok sample_rete sample_lists"
  unfolding tree_ok_def family_def by (simp add: sample_dom del: sample_rete_simps(1,2))

lemma sample_at: "memory_at j sd sample_rete = (if j = 5 then memory_of sd sample_memories else None)"
  by (simp add: memory_at_def)

lemma sample_bucket:
  assumes "sd = LHS \<and> x = 21 \<or> sd = RHS \<and> x = 23" "memory_of sd sample_memories = Some m"
  shows "memory_ok sample_rete 5 sd m (\<lambda>i. if i = 3 then [x] else [])"
proof -
  have m: "beta_size m = 17" "beta_count m = 1" "beta m = (replicate 17 None)[3 := Some x]"
      "beta_last m = (if sd = LHS then None else Some ((replicate 17 None)[3 := Some x]))"
    using assms by (auto simp: sample_memories_def)
  have key: "node_key sample_rete x = Some (True, sd = RHS, 5, 3)"
    using assms(1) by (auto simp: node_key_def sample_left_def sample_right_def blank_node_def new_row_def)
  then have st: "stored sample_rete 5 sd 17 3 x" by (simp add: stored_def)
  have xd: "x \<in> dom (pms sample_rete)" using assms(1) unfolding sample_dom by auto
  have "bucket_ok sample_rete 5 sd m i (if i = 3 then [x] else [])" if "i < 17" for i
  proof (cases "i = 3")
    case True
    have "links_of prevInMemory nextInMemory (pms sample_rete) x = Some (None, None)" by (rule sample_nodes(4) [OF xd])
    then show ?thesis using True st by (simp add: bucket_ok_def m del: sample_rete_simps(1))
  next
    case False
    then show ?thesis using that by (simp add: bucket_ok_def m)
  qed
  moreover have "shape_ok sd m" using assms(1) by (auto simp: shape_ok_def m)
  moreover have "length (matches_in 17 (\<lambda>i. if i = 3 then [x] else [])) = 1" by (simp add: matches_in_def upt_conv_Cons)
  ultimately show ?thesis by (simp add: memory_ok_def m)
qed

lemma sample_rete_ok: "rete_ok sample_rete sample_lists"
proof -
  have "memories_ok sample_rete sample_lists"
    unfolding memories_ok_def sample_at
  proof (intro allI)
    fix j sd
    show "case if j = 5 then memory_of sd sample_memories else None of None \<Rightarrow> \<forall>i. in_bucket sample_lists j sd i = []
      | Some m \<Rightarrow> memory_ok sample_rete j sd m (in_bucket sample_lists j sd)"
      using sample_bucket [of LHS 21] sample_bucket [of RHS 23] by (cases sd) (auto simp: sample_memories_def)
  qed
  then show ?thesis using sample_tree unfolding rete_ok_def sample_dom by simp
qed

lemma sample_mirrored: "mirrored (rete_env sample_rete)"
proof -
  have "supported_by (rete_env sample_rete) b = []" for b by (auto simp: supported_by_def new_row_def split: option.split)
  moreover have "support (rete_env sample_rete) y = []" for y by (auto simp: support_def sample_rete_def sample_env_def split: option.split)
  ultimately show ?thesis by (simp add: mirrored_def)
qed

lemma sample_lists_memory [simp]: "in_memory sample_lists x = (x = 21 \<or> x = 23)"
  by (auto simp: in_memory_def split: if_splits)

lemma sample_unplaced: "unplaced sample_rete sample_lists 22" "solitary sample_rete sample_lists 22"
  by (simp_all add: unplaced_def solitary_def blank_node_def new_row_def)

lemma sample_parents: "parent_ok right_side sample_rete 22 (Some 20)" "parent_ok left_side sample_rete 22 (Some 21)"
  by (simp_all add: parent_ok_def right_side_def blank_node_def sample_left_def)

lemma sample_removable: "removable sample_rete sample_lists 24"
  by (simp add: removable_def owns_alpha_def blank_node_def)

lemma sample_garbage_list: "garbage_ok sample_rete sample_lists [24]"
  using sample_removable by (simp add: garbage_ok_def blank_node_def)

lemma sample_no_blocked: "blocked_by sample_rete sample_lists x = []"
  using child_lists(3) [OF sample_tree, of x] unfolding sample_heads by simp

lemma sample_room: "room sample_rete"
  unfolding room_def sample_dom by simp

text \<open>The match in the left memory is in use, and it is the logical support of the rule that is firing.\<close>

definition sample_firing :: rete where
  "sample_firing = sample_rete\<lparr>rete_env := (rete_env sample_rete)\<lparr>
     matches := (rows sample_rete)(21 \<mapsto> (new_row 5 [Some (Some 1)])\<lparr>busy := True, leftParent := Some 22\<rparr>),
     engineD := (engineD sample_env)\<lparr>TheLogicalJoin := Some 5, TheLogicalBind := Some 21\<rparr>\<rparr>\<rparr>"

lemma sample_firing_unlinked: "UnlinkNonLeftLineage 5 21 LHS sample_firing \<noteq> None"
  by (simp add: sample_firing_def UnlinkNonLeftLineage_def remove_from_memory_def memory_at_def sample_memories_def betaLocation_def
    sample_left_def blank_node_def new_row_def cut_sibling_def shrink_memory_def ResetBetaMemory_def upd_memories_def upd_pm_if_def)

end
