(* ===== verification/Sample_Alpha.thy ===== *)
theory Sample_Alpha
  imports Alpha_Flush Sample_Rete
begin

text \<open>A pattern with one alpha memory, which holds the alpha match of the small join network.\<close>

definition sample_memory :: alphaMemoryHash where
  "sample_memory = \<lparr>amh_bucket = 0, amh_owner = 7, alphaMemory = Some 20, endOfQueue = Some 20, nextHash = None, prevHash = None,
     amh_next = None, amh_prev = None\<rparr>"

definition sample_alpha :: alphaNet where
  "sample_alpha = \<lparr>alpha_rete = sample_rete, amems = [25 \<mapsto> sample_memory], AlphaMemoryTable = (\<lambda>_. None)(0 := Some 25),
     patternHeaders = [7 \<mapsto> \<lparr>firstHash = Some 25, lastHash = Some 25\<rparr>]\<rparr>"

definition sample_queues :: alpha_lists where
  "sample_queues = \<lparr>chain = (\<lambda>_. [])(0 := [25]), of_header = (\<lambda>_. [])(7 := [25]), queue = (\<lambda>_. [])(25 := [20]), holder = [20 \<mapsto> 25]\<rparr>"

lemma sample_alpha_simps [simp]:
  "alpha_rete sample_alpha = sample_rete" "amems sample_alpha = [25 \<mapsto> sample_memory]" "AlphaMemoryTable sample_alpha = (\<lambda>_. None)(0 := Some 25)"
  "patternHeaders sample_alpha = [7 \<mapsto> \<lparr>firstHash = Some 25, lastHash = Some 25\<rparr>]"
  "chain sample_queues = (\<lambda>_. [])(0 := [25])" "of_header sample_queues = (\<lambda>_. [])(7 := [25])" "queue sample_queues = (\<lambda>_. [])(25 := [20])"
  "holder sample_queues = [20 \<mapsto> 25]"
  by (simp_all add: sample_alpha_def sample_queues_def)

lemma sample_alpha_ok: "alpha_ok sample_alpha sample_queues"
proof -
  have "chains_ok (amems sample_alpha) (AlphaMemoryTable sample_alpha) (chain sample_queues)"
    unfolding chains_ok_def by (rule groupedI) (auto simp: links_of_def sample_memory_def bucket_of_def split: if_splits)
  moreover have "headers_ok (amems sample_alpha) (patternHeaders sample_alpha) (of_header sample_queues)"
    unfolding headers_ok_def by (intro conjI groupedI) (auto simp: links_of_def sample_memory_def owner_of_def first_hashes_def split: if_splits)
  moreover have "queues_ok (amems sample_alpha) (match_nodes sample_alpha) sample_queues"
    unfolding queues_ok_def
    by (intro conjI groupedI) (auto simp: links_of_def sample_memory_def queue_heads_def blank_node_def split: if_splits)
  moreover have "\<forall>k c. bucket_of (amems sample_alpha) k = Some c \<longrightarrow> c < 63559" by (auto simp: bucket_of_def sample_memory_def)
  moreover have "one_each (amems sample_alpha)" by (simp add: one_each_def)
  ultimately show ?thesis by (simp add: alpha_ok_def alpha_part_def)
qed

lemma sample_alpha_net_ok: "net_ok sample_alpha sample_lists sample_queues [24]"
  using sample_rete_ok sample_mirrored sample_alpha_ok sample_garbage_list by (simp add: net_ok_def)

lemma sample_alpha_room: "alpha_room sample_alpha"
  using sample_room by (simp add: alpha_room_def)

lemma sample_alpha_removable: "removable (alpha_rete sample_alpha) sample_lists 20"
  by (simp add: removable_def owns_alpha_def blank_node_def new_row_def nth_opt_def)

lemma sample_loose: "\<forall>x\<in>pattern_matches sample_alpha sample_queues 7. loose_match (alpha_rete sample_alpha) sample_lists x"
proof -
  have "x = 20" if "x \<in> set (content sample_alpha sample_queues 7 b)" for x b
    using that by (auto simp: content_def memory_for_def split: if_splits option.splits)
  then show ?thesis using sample_alpha_removable by (auto simp: pattern_matches_def loose_match_def new_row_def)
qed

lemma sample_content: "content sample_alpha sample_queues 7 0 = [20]"
  by (simp add: content_def memory_for_def owner_of_def sample_memory_def)

lemma sample_hash: "AlphaMemoryHashValue 7 63552 = 0"
  by (simp add: AlphaMemoryHashValue_def)

end
