(* ===== verification/Spec2Isabelle.thy ===== *)
theory Spec2Isabelle
  imports Sample_Engine Merge_Sort Atom_Machine Sample_Garbage Sample_Alpha
begin

text \<open>
  A verification library for the rule engine of CLIPS as it is vendored in
  \<^verbatim>\<open>clara-clips/clips-src/core\<close> and embedded by the Clara services.

  \<^bold>\<open>The program.\<close>  The pattern matcher keeps a network of partial matches.  When a partial match
  satisfies a rule it activates the rule: an activation is put on the agenda of the module of the
  rule, by salience and, among equal saliences, by the current conflict resolution strategy
  (\<^verbatim>\<open>agenda.c\<close>, \<^verbatim>\<open>crstrtgy.c\<close>).  When the match is retracted its activation is removed.  The engine
  (\<^verbatim>\<open>engine.c\<close>) takes the first activation of the first module of the focus stack that has one,
  detaches it, evaluates the right hand side of its rule (\<^verbatim>\<open>prccode.c\<close>, \<^verbatim>\<open>prcdrfun.c\<close>) and goes on
  until the limit is reached, nothing is left or execution is halted.  Right hand sides change the
  focus, the strategy and the agendas while they run.  Facts are asserted, retracted and modified
  (\<^verbatim>\<open>factmngr.c\<close>, \<^verbatim>\<open>tmpltfun.c\<close>): a fact is in the list of all facts, in the list of its template and
  in a hash table that finds duplicates (\<^verbatim>\<open>facthsh.c\<close>).  A fact asserted by a rule with logical
  conditions is linked to the match that supports it (\<^verbatim>\<open>lgcldpnd.c\<close>); when it has lost its last support
  it is retracted too.  A fact that matches a pattern becomes a match in the alpha memory of the pattern.
  The longer matches are kept in the left and right memories of the joins, hash
  tables with chained buckets; every match is linked to the two matches it extends and to the match that
  blocks it, and is unlinked, deleted or kept as garbage when it is retracted (\<^verbatim>\<open>reteutil.c\<close>, \<^verbatim>\<open>retract.c\<close>).
  All parts intern their constants in the
  tables of atoms (\<^verbatim>\<open>symbol.c\<close>) and sort multifields with \<^verbatim>\<open>sortfun.c\<close>.

  \<^bold>\<open>The state.\<close>  \<open>Clips_Env\<close> holds the environment as one record: stores of activations, salience
  groups, partial matches, rules, joins and entities addressed by pointers, the module items, and
  the data records of the agenda, the engine, the modules and the evaluator, with the fields of the
  C structures.  Agendas and group lists are doubly linked lists in these stores.  A read or write
  through a null or dangling pointer is \<open>None\<close>, so every theorem that a call is \<open>Some\<close> says that it
  makes no memory error.  Output and calls of user functions are a list of messages.  Counters,
  time tags and hash values are 64-bit words; saliences and limits are integers.

  \<^bold>\<open>The theories.\<close>
  \<^item> \<open>Clips_Prelude\<close>: pointers, stores, doubly linked segments; locale \<open>linked_nodes\<close>, interpreted for
    activations and for salience groups.
  \<^item> \<open>Clips_Env\<close>: the records and datatypes of the C structures.
  \<^item> \<open>Module_Focus\<close>: \<^verbatim>\<open>moduldef.c\<close> as far as the engine uses it, and the focus stack of \<^verbatim>\<open>engine.c\<close>.
  \<^item> \<open>Conflict_Strategy\<close>: \<^verbatim>\<open>crstrtgy.c\<close>, the seven placement routines, \<^verbatim>\<open>SortPartialMatch\<close> and
    \<^verbatim>\<open>ComparePartialMatches\<close>.  \<open>Strategy_Order\<close>: each strategy as an order on views of activations;
    locale \<open>placement_order\<close>, interpreted for every strategy.
  \<^item> \<open>Agenda_Ops\<close>: \<^verbatim>\<open>agenda.c\<close>.  \<open>Agenda_Rep\<close>: what it means that the linked lists of a module represent
    an abstract agenda, a list of groups with falling saliences.  \<open>Agenda_Correct\<close>, \<open>Agenda_Remove\<close>,
    \<open>Agenda_Invariant\<close>, \<open>Agenda_Props\<close>, \<open>Agenda_Loops\<close>, \<open>Agenda_Refresh\<close>: every operation refines its
    effect on the abstract agenda and keeps the invariant \<open>agendas_ok\<close>; every loop ends.
  \<^item> \<open>Engine\<close>: \<^verbatim>\<open>engine.c\<close>.  \<open>Engine_Props\<close>: choice of the next activation, breakpoints, counts; locale
    \<open>call_list\<close>, interpreted for the functions called before and after a firing.  \<open>Engine_Run\<close>: the run
    loop against the interface \<open>right_hand_sides\<close>.  \<open>Rhs_Actions\<close>: right hand sides made of the commands
    of this model, which interpret that interface.
  \<^item> \<open>Agenda_Machine\<close>: the agendas as a state machine with its reachable states.
  \<^item> \<open>Merge_Sort\<close>: \<^verbatim>\<open>sortfun.c\<close> and its equivalence with a list merge sort.
  \<^item> \<open>Atom_Table\<close>: the operations common to the five tables of \<^verbatim>\<open>symbol.c\<close>; locale \<open>atom_kind\<close>.
    \<open>Symbol_Data\<close>: the five tables, their hash functions, interning, reference counts, collection and
    initialization, with one interpretation of \<open>atom_kind\<close> per table.  \<open>Atom_Machine\<close>: the tables as a state
    machine with its reachable states.
  \<^item> \<open>Logical_Support\<close>: \<^verbatim>\<open>lgcldpnd.c\<close>, with a closed form of each operation and the links seen as a
    multigraph.
  \<^item> \<open>Fact_Hash\<close>: \<^verbatim>\<open>facthsh.c\<close> and the hash value and equality of multifields of \<^verbatim>\<open>multifld.c\<close>.
    \<open>Fact_Base\<close>: \<^verbatim>\<open>factmngr.c\<close> and \<^verbatim>\<open>ReplaceFact\<close> of \<^verbatim>\<open>tmpltfun.c\<close>.
  \<^item> \<open>Fact_Invariant\<close>: \<open>fact_base_ok e xs k\<close>, the invariant that the lists, the hash table, the counts
    and the support links all describe the sequence \<open>xs\<close> of facts, with two interpretations of
    \<open>linked_nodes\<close>; what linking and unlinking do to it.  \<open>Fact_Table\<close>: the hash table keeps it, and its
    search is a search of the list.  \<open>Fact_Network\<close>: what is required of the network.  \<open>Fact_Retract\<close>,
    \<open>Fact_Cascade\<close>: retraction and the retraction of everything that loses its support.
    \<open>Fact_Atoms\<close>: interning and retaining the values of a fact.  \<open>Fact_Assert\<close>, \<open>Assert_Driver\<close>: assertion on
    each of its branches.  \<open>Fact_Garbage\<close>: the collection of retracted facts.  \<open>Fact_Theorems\<close>: the fact base from its interface, and the specification of
    the support links.
  \<^item> \<open>Rete_Memory\<close>: the memories of the join network, \<^verbatim>\<open>reteutil.c\<close> and the deletion of matches of
    \<^verbatim>\<open>retract.c\<close>.  \<open>Owned_Lists\<close>: families of doubly linked lists of which each has an owner; locale
    \<open>owned_nodes\<close>, an extension of \<open>linked_nodes\<close>.  \<open>Rete_Invariant\<close>: \<open>rete_ok s A\<close>, the invariant that
    buckets, children and blocked matches are the lists that \<open>A\<close> names, with an interpretation of
    \<open>owned_nodes\<close> for each of the three kinds of siblings and of \<open>linked_nodes\<close> for buckets.  \<open>Rete_Links\<close>,
    \<open>Rete_Buckets\<close>, \<open>Rete_Resize\<close>: siblings, buckets and the growth of a memory.  \<open>Rete_Network\<close>: storing
    and unlinking a match.  \<open>Rete_Free\<close>: deletion and the list of garbage matches.  \<open>Rete_Create\<close>: new
    matches and the round trip.  \<open>Rete_Support\<close>: deletion of the match that supports the firing rule.
  \<^item> \<open>Alpha_Memory\<close>: the memories of the patterns, \<^verbatim>\<open>reteutil.c\<close>.  \<open>Alpha_Invariant\<close>: \<open>alpha_ok a B\<close>, the invariant
    that the table, the memories of each pattern and the queues of matches are the lists that \<open>B\<close> names, with two
    more interpretations of \<open>linked_nodes\<close>; the contents of the memories as a function.  \<open>Alpha_Correct\<close>,
    \<open>Alpha_Remove\<close>: creating and removing a match change the contents of one memory.  \<open>Alpha_Network\<close>: \<open>net_ok\<close>, the
    joint invariant of alpha memories, join network and garbage list.  \<open>Alpha_Flush\<close>: emptying the memories of
    a pattern.
  \<^item> \<open>Sample_Env\<close>, \<open>Sample_Engine\<close>, \<open>Sample_Facts\<close>, \<open>Sample_Garbage\<close>, \<open>Sample_Rete\<close>, \<open>Sample_Alpha\<close>: a small
    environment and a small network on which the properties are instantiated.

  \<^bold>\<open>The properties.\<close>  C1, C2, C4 and C22 to C29 are about agendas and strategies: preservation of
  the invariant, functional effect, round trips, reachable states, and the operations whose effect is
  not what their callers would expect (C25, C29).  C3, C21 and C30 to C32 are about the engine: the
  run returns, the choice of activations, what a firing consumes, breakpoints.  C5 to C9 and C38 to
  C40 are about facts: assertion and retraction keep the invariant and return on every branch, truth
  maintenance refines its specification, the queue of unsupported facts is emptied, duplicates are
  found, garbage is collected.  C10 to C16 are about the join network: storing, extending, unlinking,
  deleting and collecting matches, the growth of a memory, and a deletion that truth maintenance does
  not notice (C16).  C17 to C20 are about the alpha memories: creating, finding, removing and collecting
  a match, and emptying the memories of a pattern.  C33 is about sorting, C34 to C37 about atoms.  Focus, modules, call lists,
  the other operations on breakpoints and agendas have theorems of their own between these.

  \<^bold>\<open>Loops.\<close>  Loops along linked lists are \<open>partial_function (option)\<close>, so that a cyclic list would be
  \<open>None\<close>; the theorems show that they return.  The run loop is one too: it is shown to return for
  every nonnegative limit.  \<^verbatim>\<open>RetractDriver\<close> and \<^verbatim>\<open>ForceLogicalRetractions\<close> call each other and are one such
  function, \<open>retract_force\<close>; it returns because each call takes a fact from the list or an entry from
  the queue.  With limit \<open>-1\<close> a run may go on forever and nothing is claimed.  No fuel
  is used anywhere.

  \<^bold>\<open>Parameters.\<close>  The right hand sides of rules are a parameter of \<open>Run\<close>, with the hypotheses of
  \<open>right_hand_sides\<close>, instantiated by \<open>rhs_program\<close>; so is the collection of garbage between firings.
  The pattern and join networks, constraint checking and the rest of garbage collection are the
  parameter \<open>network\<close> of the fact base; \<open>network_ok\<close> says that they change of the fact base only the matches of
  facts and touch the support links only through \<^verbatim>\<open>RemoveLogicalSupport\<close> and \<^verbatim>\<open>RemovePMDependencies\<close>, and
  \<open>flush_keeps\<close> that freeing partial matches queues nothing.  Functions registered for assertions,
  retractions and modifications are recorded when they are called and change nothing.
  Dynamic saliences are a function from expressions to results, the random number generator is a
  stream, the comparison function and the lookup of functions are arguments of \<open>SortFunction\<close>.

  \<^bold>\<open>Not modelled.\<close>  Of the files above: printing, profiling and timing, registration of user
  functions, deallocation of environments, symbol completion and the index arrays of binary images,
  access to slots, fact builders and modifiers; reference counts are unbounded, and the discard
  callback of external addresses of registered types is not called.  Logical support of instances
  is not modelled: every entity that waits for deletion is a fact.  The loops of
  \<^verbatim>\<open>RetractAllFacts\<close> and \<^verbatim>\<open>ReplaceFact\<close> are defined and have no theorem yet.  Of the join network: the
  traversal that drives matches from join to join (\<^verbatim>\<open>drive.c\<close> and the traversal functions of \<^verbatim>\<open>retract.c\<close>), the
  evaluation of join expressions and the construction of the network; \<^verbatim>\<open>FlushBetaMemory\<close>, \<^verbatim>\<open>DestroyBetaMemory\<close>,
  \<^verbatim>\<open>DestroyAlphaMemory\<close> and \<^verbatim>\<open>CopyPartialMatch\<close> are defined and have no theorem of their own.  The size of a memory stays below the
  address space because a match takes more bytes than the growth factor eleven; this is part of the
  invariant.  Of CLIPS: objects, generic functions, parsers, routers and binary images.
  SWI-Prolog is third-party code.  The Rust crates are input and output around the two engines.  To
  extend the library, the natural next part is the traversal of the join network, for which \<open>rete_ok\<close> is
  the invariant and \<open>agenda_step\<close> and \<open>net_steps\<close> are the interfaces to the agenda and to the fact base.
\<close>

section \<open>The agenda\<close>

text \<open>
  C1.  \<^verbatim>\<open>AddActivation\<close> preserves the invariant of all agendas, inserts the new activation
  in the group of its salience at the place the strategy asks for, links the partial match to it
  and leaves the other agendas unchanged.
\<close>

theorem AddActivation_correct:
  assumes "agendas_ok e F" and "rules e r = Some R"
    and "matches e b = Some pm" and "marker pm = None" and "match_ok e pm"
  shows "\<exists>e' gs' A. AddActivation r b e = Some e' \<and>
    inserted (fresh e) (salience_of e R) (F (whichModule R)) gs' \<and>
    agendas_ok e' (F(whichModule R := gs')) \<and> (ordered e F \<longrightarrow> ordered e' (F(whichModule R := gs'))) \<and>
    acts e' (fresh e) = Some A \<and> theRule A = r \<and> basis A = Some b \<and>
    act_timetag A = CurrentTimetag (agendaD e) \<and> matches e' = (matches e)(b \<mapsto> pm\<lparr>marker := Some (fresh e)\<rparr>)"
  using AddActivation_ok [OF assms] by fastforce

theorem AddActivation_correct_witness:
  "\<exists>e' gs' A. AddActivation 0 0 sample_env = Some e' \<and>
    inserted 0 0 [] gs' \<and> agendas_ok e' ((\<lambda>_. [])(0 := gs')) \<and> acts e' 0 = Some A \<and> theRule A = 0"
  using AddActivation_correct [OF sample_env_ok sample_matches]
  by (auto simp: sample_rule_def salience_of_def sample_env_def)

text \<open>
  C2.  \<^verbatim>\<open>RemoveActivation\<close> on an activation of an agenda returns, unlinks and frees exactly that
  activation, frees its salience group when it was the last one of it, clears the marker of its
  partial match and preserves the invariant and the order of all agendas.
\<close>

theorem RemoveActivation_correct:
  assumes "agendas_ok e F" and "x \<in> set (flat (F m))"
  shows "\<exists>e' A b pm. RemoveActivation x True True e = Some e' \<and> agendas_ok e' (F(m := remove_act x (F m))) \<and>
    (ordered e F \<longrightarrow> ordered e' (F(m := remove_act x (F m)))) \<and> acts e' x = None \<and>
    acts e x = Some A \<and> basis A = Some b \<and> matches e b = Some pm \<and> matches e' = (matches e)(b \<mapsto> pm\<lparr>marker := None\<rparr>)"
  using RemoveActivation_ok [OF assms] by blast

theorem RemoveActivation_correct_witness:
  "\<exists>e'. RemoveActivation 0 True True sample_env1 = Some e' \<and> acts e' 0 = None"
  using sample_env1_ok RemoveActivation_correct [where e = sample_env1 and x = 0 and m = 0] by blast



text \<open>
  C4.  In every state reachable from a good one by activations, retractions, changes of strategy,
  refreshes and moves of the focus the agendas are well formed and ordered by the current strategy,
  and the marker of every partial match names the activation that stands for it on an agenda.
\<close>

theorem reachable_agendas_ok:
  assumes "agenda_step\<^sup>*\<^sup>* e e'" and "machine_ok e F"
  shows "\<exists>F'. agendas_ok e' F' \<and> ordered e' F' \<and> markers_ok e' F' \<and> focus_ok e'"
  using reachable_ok [OF assms] by (auto simp: machine_ok_def)

theorem reachable_agendas_ok_witness:
  "\<exists>F'. agendas_ok (Focus (Some 1) sample_env1) F' \<and> ordered (Focus (Some 1) sample_env1) F'"
proof -
  have "items sample_env1 1 \<noteq> None" by code_simp
  then have "agenda_step\<^sup>*\<^sup>* sample_env1 (Focus (Some 1) sample_env1)" by (intro r_into_rtranclp agenda_step.focus)
  moreover obtain F where "machine_ok sample_env1 F" using sample_machine1 by blast
  ultimately show ?thesis using reachable_agendas_ok by blast
qed

text \<open>
  A retraction in a good state always finds its activation: \<^verbatim>\<open>RemoveActivation\<close> on the marker of a
  partial match returns, and the marker is cleared.
\<close>

theorem retraction_returns:
  assumes "machine_ok e F" and "matches e b = Some pm" and "marker pm = Some x"
  shows "\<exists>e' F'. RemoveActivation x True True e = Some e' \<and> machine_ok e' F' \<and> acts e' x = None \<and>
    matches e' = (matches e)(b \<mapsto> pm\<lparr>marker := None\<rparr>)"
  using retract_ok [OF assms] .

theorem retraction_returns_witness:
  "\<exists>e' F'. RemoveActivation 0 True True sample_env1 = Some e' \<and> machine_ok e' F' \<and> acts e' 0 = None"
proof -
  obtain F where F: "machine_ok sample_env1 F" "matches sample_env1 0 = Some ((sample_match 0 0)\<lparr>marker := Some 0\<rparr>)"
    using sample_machine1 by blast
  then show ?thesis using retraction_returns [OF F] by auto
qed



text \<open>
  C22.  Adding an activation and removing it again gives back the agendas and the partial matches
  of before.
\<close>

theorem add_remove_roundtrip:
  assumes "agendas_ok e F" and "rules e r = Some R"
    and "matches e b = Some pm" and "marker pm = None" and "match_ok e pm"
  shows "\<exists>e' e''. AddActivation r b e = Some e' \<and> RemoveActivation (fresh e) True True e' = Some e'' \<and>
    agendas_ok e'' F \<and> matches e'' = matches e"
proof -
  let ?n = "fresh e" and ?m = "whichModule R"
  obtain e' gs' A where e': "AddActivation r b e = Some e'" "inserted ?n (salience_of e R) (F ?m) gs'" "agendas_ok e' (F(?m := gs'))"
    "acts e' ?n = Some A" "basis A = Some b" "matches e' = (matches e)(b \<mapsto> pm\<lparr>marker := Some ?n\<rparr>)"
    using AddActivation_ok [OF assms] by blast
  define G where "G = F(?m := gs')"
  have G: "agendas_ok e' G" "?n \<in> set (flat (G ?m))" "G ?m = gs'"
    using e'(3) inserted_set [OF e'(2)] by (simp_all add: G_def)
  obtain e'' b' pm' where e'': "RemoveActivation ?n True True e' = Some e''"
    "agendas_ok e'' (G(?m := remove_act ?n (G ?m)))" "basis A = Some b'" "matches e' b' = Some pm'"
    "matches e'' = (matches e')(b' \<mapsto> pm'\<lparr>marker := None\<rparr>)"
    using RemoveActivation_ok [OF G(1,2)] e'(4) by auto
  have "?n \<notin> set (flat (F ?m))" by (rule fresh_not_on_agenda [OF assms(1)])
  then have "remove_act ?n (G ?m) = F ?m" unfolding G(3) by (rule remove_inserted [OF e'(2) agendas_okD(2) [OF assms(1)]])
  then have "G(?m := remove_act ?n (G ?m)) = F" by (simp add: G_def)
  then have "agendas_ok e'' F" using e''(2) by (simp only:)
  moreover have "(pm\<lparr>marker := Some ?n\<rparr>)\<lparr>marker := None\<rparr> = pm" using assms(4) by simp
  then have "matches e'' = matches e" using e'(5,6) e''(3-5) assms(3) by (auto simp: fun_eq_iff)
  ultimately show ?thesis using e'(1) e''(1) by blast
qed

theorem add_remove_roundtrip_witness:
  "\<exists>e' e''. AddActivation 0 0 sample_env = Some e' \<and> RemoveActivation 0 True True e' = Some e'' \<and>
    agendas_ok e'' (\<lambda>_. []) \<and> matches e'' = matches sample_env"
  using add_remove_roundtrip [OF sample_env_ok sample_matches] by (simp add: sample_env_def)

text \<open>
  \<^verbatim>\<open>DetachActivation\<close> takes an activation off its agenda without freeing it: its links are
  cleared, nothing else of it changes, and the invariant and the order are preserved.
\<close>

theorem DetachActivation_correct:
  assumes "agendas_ok e F" and "x \<in> set (flat (F m))"
  shows "\<exists>e' A. DetachActivation (Some x) e = Some e' \<and> agendas_ok e' (F(m := remove_act x (F m))) \<and>
    (ordered e F \<longrightarrow> ordered e' (F(m := remove_act x (F m)))) \<and>
    acts e x = Some A \<and> acts e' x = Some (A\<lparr>act_prev := None, act_next := None\<rparr>) \<and>
    matches e' = matches e \<and> rules e' = rules e"
  using DetachActivation_ok [OF assms] by blast

theorem DetachActivation_correct_witness:
  "\<exists>e' A. DetachActivation (Some 0) sample_env1 = Some e' \<and> acts e' 0 = Some (A\<lparr>act_prev := None, act_next := None\<rparr>)"
  using sample_env1_ok DetachActivation_correct [where e = sample_env1 and x = 0 and m = 0] by blast

text \<open>
  \<^verbatim>\<open>ReorderAgenda\<close> on a module returns; it permutes the activations of that agenda into the order
  of the current strategy and rebuilds the salience groups.
\<close>

theorem ReorderAgenda_correct:
  assumes "agendas_ok e F" and "items e m \<noteq> None"
  shows "\<exists>e' gs'. ReorderAgenda (Some m) e = Some e' \<and> agendas_ok e' (F(m := gs')) \<and>
    mset (flat gs') = mset (flat (F m)) \<and> agenda_ordered e' (Strategy (agendaD e)) gs'"
  using ReorderAgenda_ok [OF assms] by blast

theorem ReorderAgenda_correct_witness:
  "\<exists>e' gs'. ReorderAgenda (Some 0) sample_env1 = Some e' \<and> 0 \<in> set (flat gs') \<and> agenda_ordered e' DEPTH_STRATEGY gs'"
proof -
  have i: "items sample_env1 0 \<noteq> None" "Strategy (agendaD sample_env1) = DEPTH_STRATEGY" by code_simp+
  obtain F where F: "agendas_ok sample_env1 F" "0 \<in> set (flat (F 0))" using sample_env1_ok by blast
  from ReorderAgenda_correct [OF F(1) i(1)] F(2) i(2) show ?thesis by (metis set_mset_mset)
qed

text \<open>
  C23.  \<^verbatim>\<open>SetStrategy\<close> returns the old strategy, installs the new one and leaves every agenda a
  permutation of itself ordered by the new strategy.
\<close>

theorem SetStrategy_correct:
  assumes "agendas_ok e F" and "modules_ok e" and "ordered e F"
  shows "\<exists>e' F'. SetStrategy v e = Some (Strategy (agendaD e), e') \<and> Strategy (agendaD e') = v \<and>
    agendas_ok e' F' \<and> ordered e' F' \<and> (\<forall>m. mset (flat (F' m)) = mset (flat (F m)))"
  using SetStrategy_ok [OF assms] .

theorem SetStrategy_correct_witness:
  "\<exists>e' F'. SetStrategy MEA_STRATEGY sample_env = Some (DEPTH_STRATEGY, e') \<and> ordered e' F'"
  using SetStrategy_correct [OF sample_env_ok sample_modules(1) sample_env_ordered, of MEA_STRATEGY]
  by (auto simp: sample_env_def)

text \<open>
  \<^verbatim>\<open>RefreshAgenda\<close> on a module returns; every activation of the agenda gets the salience its
  rule has when evaluated at activation, and the agenda is a permutation of itself in order.
\<close>

theorem RefreshAgenda_correct:
  assumes "agendas_ok e F" and "items e m \<noteq> None"
  shows "\<exists>e' gs'. RefreshAgenda (Some m) e = Some e' \<and> agendas_ok e' (F(m := gs')) \<and>
    mset (flat gs') = mset (flat (F m)) \<and> agenda_ordered e' (Strategy (agendaD e)) gs' \<and>
    (\<forall>x\<in>set (flat gs'). \<exists>A. acts e' x = Some A \<and> Some (act_salience A) = sal_at (when_activated e) (theRule A))"
  using RefreshAgenda_ok [OF assms] by blast

theorem RefreshAgenda_correct_witness:
  "\<exists>e' gs'. RefreshAgenda (Some 0) sample_env1 = Some e' \<and> 0 \<in> set (flat gs') \<and>
    (\<forall>x\<in>set (flat gs'). \<exists>A. acts e' x = Some A \<and> Some (act_salience A) = sal_at (when_activated sample_env1) (theRule A))"
proof -
  have i: "items sample_env1 0 \<noteq> None" by code_simp
  obtain F where F: "agendas_ok sample_env1 F" "0 \<in> set (flat (F 0))" using sample_env1_ok by blast
  from RefreshAgenda_correct [OF F(1) i] F(2) show ?thesis by (metis set_mset_mset)
qed

text \<open>
  C24.  \<^verbatim>\<open>Refresh\<close> gives every partial match of the rule and of its disjuncts an activation
  again, and removes none.
\<close>

theorem Refresh_correct:
  assumes "agendas_ok e F" and "disjunct_chain e (Some r) ds" and "\<forall>d\<in>set ds. rule_joins e d"
    and "\<forall>d\<in>set ds. \<forall>b\<in>set (rule_matches e d). complete_match e b"
  shows "\<exists>e' F'. Refresh r e = Some e' \<and> agendas_ok e' F' \<and> (ordered e F \<longrightarrow> ordered e' F') \<and>
    (\<forall>d\<in>set ds. \<forall>b\<in>set (rule_matches e d). has_activation e' b) \<and> (\<forall>m. set (flat (F m)) \<subseteq> set (flat (F' m)))"
proof -
  have j: "rule_joins e d" if "d \<in> set ds" for d using assms(3) that by blast
  have m: "complete_match e b" if "d \<in> set ds" "b \<in> set (rule_matches e d)" for d b using assms(4) that by blast
  show ?thesis using refresh_disjuncts_ok [OF assms(1,2)] j m unfolding Refresh_def by fastforce
qed

theorem Refresh_correct_witness:
  "\<exists>e'. Refresh 1 sample_env = Some e' \<and> has_activation e' 1"
proof -
  have d: "disjunct_chain sample_env (Some 1) [1]" and j: "rule_joins sample_env 1" and m: "rule_matches sample_env 1 = [1]"
    and c: "complete_match sample_env 1" by code_simp+
  show ?thesis using Refresh_correct [OF sample_env_ok d] j m c by auto
qed

text \<open>
  \<^verbatim>\<open>ClearRuleFromAgenda\<close> removes exactly the activations of the rule and of its disjuncts from
  the agenda of the rule's module.
\<close>

theorem ClearRuleFromAgenda_correct:
  assumes "agendas_ok e F" and "rules e r = Some R" and "disjunct_chain e (Some r) ds"
  shows "\<exists>e' gs'. ClearRuleFromAgenda r e = Some e' \<and> agendas_ok e' (F(whichModule R := gs')) \<and>
    flat gs' = filter (\<lambda>x. rule_at e x \<notin> Some ` set ds) (flat (F (whichModule R))) \<and>
    (ordered e F \<longrightarrow> ordered e' (F(whichModule R := gs')))"
  using ClearRuleFromAgenda_ok [OF assms] by (metis flat_keep_acts)

theorem ClearRuleFromAgenda_correct_witness:
  "\<exists>e' F'. ClearRuleFromAgenda 0 sample_env1 = Some e' \<and> agendas_ok e' F' \<and> 0 \<notin> set (flat (F' 0))"
proof -
  have R: "rules sample_env1 0 = Some (sample_rule ''r0'' 0 0 1 0)"
    by code_simp
  have d: "disjunct_chain sample_env1 (Some 0) [0]" and a: "rule_at sample_env1 0 = Some 0" by code_simp+
  obtain F where F: "agendas_ok sample_env1 F" using sample_env1_ok by blast
  show ?thesis using ClearRuleFromAgenda_correct [OF F R d] a by (force simp: sample_rule_def)
qed

text \<open>
  C25.  \<^verbatim>\<open>DeleteAllActivations\<close> takes a module but works on the current one: it empties the agenda
  of the current module and leaves that of every other module, the one given included, as it is.
\<close>

theorem DeleteAllActivations_current:
  assumes "agendas_ok e F" and "CurrentModule (moduleD e) = Some c" and "items e c \<noteq> None"
  shows "\<exists>e'. DeleteAllActivations m e = Some e' \<and> RemoveAllActivations e = Some e' \<and> agendas_ok e' (F(c := [])) \<and>
    dom (acts e') = dom (acts e) - set (flat (F c))"
  using RemoveAllActivations_ok [OF assms] unfolding DeleteAllActivations_def RemoveAllActivations_def by blast

theorem DeleteAllActivations_current_witness:
  "\<exists>e'. DeleteAllActivations 1 sample_env1 = Some e' \<and> acts e' 0 = None"
proof -
  have c: "CurrentModule (moduleD sample_env1) = Some 0" "items sample_env1 0 \<noteq> None" by code_simp+
  obtain F where F: "agendas_ok sample_env1 F" "0 \<in> set (flat (F 0))" using sample_env1_ok by blast
  from DeleteAllActivations_current [OF F(1) c, of 1] F(2) show ?thesis by (metis DiffE domIff)
qed

text \<open>
  C26.  \<^verbatim>\<open>EvaluateSalience\<close> always yields a value: the salience in force for the rule, which is
  stored in the rule and stays within the bounds of a salience when the rule's salience is.
\<close>

theorem EvaluateSalience_bounds:
  assumes "rules e r = Some R" and "MIN_DEFRULE_SALIENCE \<le> rule_salience R" and "rule_salience R \<le> MAX_DEFRULE_SALIENCE"
  shows "\<exists>s e' R'. EvaluateSalience r e = Some (s, e') \<and> MIN_DEFRULE_SALIENCE \<le> s \<and> s \<le> MAX_DEFRULE_SALIENCE \<and>
    rules e' r = Some R' \<and> rule_salience R' = s \<and>
    (GetSalienceEvaluation e = WHEN_DEFINED \<longrightarrow> s = rule_salience R)"
proof -
  obtain e' where e': "EvaluateSalience r e = Some (salience_of e R, e')"
    "rules e' = (rules e)(r \<mapsto> R\<lparr>rule_salience := salience_of e R\<rparr>)"
    using EvaluateSalience_eq [OF assms(1)] by blast
  then show ?thesis using assms(2,3)
    by (auto simp: salience_of_def split: option.splits eval_result.splits)
qed

theorem EvaluateSalience_bounds_witness:
  "\<exists>s e'. EvaluateSalience 1 sample_env = Some (s, e') \<and> s = 5"
  using EvaluateSalience_bounds [of sample_env 1 "sample_rule ''r1'' 0 5 2 1"]
  by (auto simp: sample_env_def sample_rule_def GetSalienceEvaluation_def)

text \<open>
  C27.  \<^verbatim>\<open>SortPartialMatch\<close> (a bubble sort in place) yields the time tags of the matched entities in
  descending order.
\<close>

theorem SortPartialMatch_correct:
  assumes "match_ok e pm"
  shows "SortPartialMatch e pm = Some (rev (sort (match_tags e pm)))"
  using assms by (rule SortPartialMatch_eq)

theorem SortPartialMatch_correct_witness:
  "SortPartialMatch sample_env ((sample_match 0 0)\<lparr>binds := [Some (Some 0), Some (Some 2), None, Some (Some 1)]\<rparr>) = Some [3, 2, 1, 0]"
proof -
  have "match_ok sample_env ((sample_match 0 0)\<lparr>binds := [Some (Some 0), Some (Some 2), None, Some (Some 1)]\<rparr>)"
    by (simp add: match_ok_def sample_env_def)
  from SortPartialMatch_correct [OF this] show ?thesis
    by (simp add: match_tags_def bind_tag_def sample_env_def)
qed

text \<open>
  C28.  \<^verbatim>\<open>ComparePartialMatches\<close> compares two activations by their descending time tags,
  lexicographically, a proper prefix being smaller, and then by the complexity of their rules;
  exchanging the activations exchanges the outcome.
\<close>

theorem ComparePartialMatches_correct:
  assumes "act_ok e A" and "act_ok e N"
  shows "ComparePartialMatches e A N = Some (cmp_key (lex_key (view e N)) (lex_key (view e A))) \<and>
    ComparePartialMatches e N A = map_option
      (\<lambda>c. case c of LESS_THAN \<Rightarrow> GREATER_THAN | GREATER_THAN \<Rightarrow> LESS_THAN | EQUAL \<Rightarrow> EQUAL) (ComparePartialMatches e A N)"
  using ComparePartialMatches_eq [OF assms] ComparePartialMatches_eq [OF assms(2,1)] cmp_key_swap by fastforce

theorem ComparePartialMatches_correct_witness:
  "ComparePartialMatches sample_env (sample_act 0 0) (sample_act 1 1) = Some GREATER_THAN"
proof -
  have a: "act_ok sample_env (sample_act 0 0)" "act_ok sample_env (sample_act 1 1)" by code_simp+
  have "cmp_key (lex_key (view sample_env (sample_act 1 1))) (lex_key (view sample_env (sample_act 0 0))) = GREATER_THAN"
    by (simp add: cmp_key_def lex_key_def view_def act_match_def match_tags_def bind_tag_def sample_act_def sample_env_def
      sample_match_def sample_rule_def less_prod_def)
  with ComparePartialMatches_correct [OF a] show ?thesis by simp
qed


section \<open>The engine\<close>

text \<open>
  Whatever the right hand sides and the garbage collector do, a run with a nonnegative limit that
  returns has fired at most as many rules as the limit allows.
\<close>

theorem Run_within_limit:
  assumes "Run actions garbage n e = Some (k, e')" and "0 \<le> n"
  shows "0 \<le> k \<and> k \<le> n"
proof (cases "AlreadyRunning (engineD e)")
  case False
  obtain l e1 where b: "run_begin n e = (l, e1)" by fastforce
  have l: "rulesFired l = 0" "runLimit l = n" using b by (auto simp: run_begin_def Let_def)
  obtain p e2 l' e3 where "run_loop actions garbage p l e2 = Some (l', e3)" "k = rulesFired l'"
    using assms(1) False b by (auto simp: Run_def Let_def bind_eq_Some_conv split: prod.splits)
  with run_loop_counts [of actions garbage p l e2] l assms(2) show ?thesis by fastforce
qed (use assms in \<open>simp add: Run_def\<close>)

theorem Run_within_limit_witness:
  "\<exists>k e'. Run (\<lambda>r. Some) (\<lambda>e. e) 3 sample_env1 = Some (k, e') \<and> 0 \<le> k \<and> k \<le> 3"
proof -
  have "map_option fst (Run (\<lambda>r. Some) (\<lambda>e. e) 3 sample_env1) = Some 1" by code_simp
  then obtain e' where "Run (\<lambda>r. Some) (\<lambda>e. e) 3 sample_env1 = Some (1, e')" by auto
  with Run_within_limit [OF this] show ?thesis by simp
qed

text \<open>
  C30.  The message that the rule limit was reached depends on the limit that is left: after a loop
  that started with limit \<open>n\<close> and fired \<open>k\<close> rules it is printed exactly when \<open>n = 2 * k\<close>,
  and not when \<open>k\<close> reaches \<open>n\<close>.
\<close>

theorem limit_message:
  assumes "run_loop actions garbage p l e = Some (l', e')" and "rulesFired l = 0" and "0 \<le> runLimit l"
    and "LimitReached \<notin> set (messages e')"
  shows "LimitReached \<in> set (messages (run_end l' e')) \<longleftrightarrow> runLimit l = 2 * rulesFired l'"
proof -
  have "runLimit l' + rulesFired l' = runLimit l" using run_loop_counts [OF assms(1)] assms(2,3) by simp
  then show ?thesis using assms(4) run_end_limit [of l' e'] by auto
qed

theorem limit_message_witness:
  "\<exists>l l' e e'. run_loop (\<lambda>r. Some) (\<lambda>e. e) (Some 0) l e = Some (l', e') \<and> runLimit l = 1 \<and> rulesFired l' = 1 \<and>
    LimitReached \<notin> set (messages (run_end l' e'))"
proof -
  let ?l = "fst (run_begin 1 sample_env1)" and ?e = "snd (run_begin 1 sample_env1)"
  have l: "rulesFired ?l = 0" "runLimit ?l = 1" by (simp_all add: run_begin_def Let_def)
  have "map_option (\<lambda>(l', e'). (rulesFired l', messages e')) (run_loop (\<lambda>r. Some) (\<lambda>e. e) (Some 0) ?l ?e) = Some (1, [])"
    by code_simp
  then obtain l' e' where r: "run_loop (\<lambda>r. Some) (\<lambda>e. e) (Some 0) ?l ?e = Some (l', e')" "rulesFired l' = 1" "messages e' = []" by auto
  then have "\<not> LimitReached \<in> set (messages (run_end l' e'))" using limit_message [OF r(1) l(1)] l(2) by simp
  with r l(2) show ?thesis by blast
qed

text \<open>
  C31.  A rule that fires uses up its activation: the activation is off every agenda, the marker of its
  partial match is cleared, so that the match is not activated twice, and the match is busy.
\<close>

theorem fire_begin_consumes:
  assumes "engine_ok e F" and "x \<in> set (flat (F m))" and "TheLogicalBind (engineD e) = None"
  shows "\<exists>l' e' r b pm. fire_begin x l e = Some (l', e') \<and> engine_ok e' (F(m := remove_act x (F m))) \<and>
    ExecutingRule (engineD e') = Some r \<and> GetActivationBasis x e' = Some (Some b) \<and>
    matches e' b = Some pm \<and> marker pm = None \<and> busy pm"
proof -
  obtain l' e' r b where f: "fire_begin x l e = Some (l', e')" "firing e' (F(m := remove_act x (F m))) x r b"
    "GlobalLHSBinds (engineD e') = Some b" "GetActivationBasis x e' = Some (Some b)"
    using fire_begin_ok [OF assms] by blast
  have "\<exists>pm. matches e' b = Some pm \<and> marker pm = None \<and> busy pm"
    using f(1,3) by (auto simp: fire_begin_def Let_def bind_eq_Some_conv upd_match_def upd_at_def set_engineD_def)
  with f show ?thesis by (auto simp: firing_def)
qed

theorem fire_begin_consumes_witness:
  "\<exists>l' e' b pm. fire_begin 0 (fst (run_begin 1 sample_env1)) sample_env1 = Some (l', e') \<and>
    GetActivationBasis 0 e' = Some (Some b) \<and> matches e' b = Some pm \<and> marker pm = None"
proof -
  obtain F where F: "engine_ok sample_env1 F" "0 \<in> set (flat (F 0))" "TheLogicalBind (engineD sample_env1) = None"
    using sample_between1 by (auto simp: between_def)
  from fire_begin_consumes [OF F, of "fst (run_begin 1 sample_env1)"] show ?thesis by blast
qed

text \<open>
  \<^verbatim>\<open>NextActivationToFire\<close> returns; it pops exactly the modules with an empty agenda from the top
  of the focus stack (of \<open>MAIN\<close> alone if the stack was empty) and leaves the agendas unchanged.
\<close>

theorem NextActivationToFire_pops:
  assumes "focus_ok e"
  shows "\<exists>p e'. NextActivationToFire e = Some (p, e') \<and>
    CurrentFocus (engineD e') = dropWhile (\<lambda>m. agenda_of e m = None) (start_focus e) \<and>
    p = (case CurrentFocus (engineD e') of [] \<Rightarrow> None | m # _ \<Rightarrow> agenda_of e m) \<and> acts e' = acts e \<and> items e' = items e"
  using NextActivationToFire_ok [OF assms] by (auto simp: next_act_def busy_focus_def focus_frame_def)

theorem NextActivationToFire_pops_witness:
  "\<exists>p e'. NextActivationToFire (Focus (Some 1) sample_env1) = Some (p, e') \<and> items e' = items sample_env1"
proof -
  let ?e = "Focus (Some 1) sample_env1"
  have "list_all (\<lambda>m. items ?e m \<noteq> None) (CurrentFocus (engineD ?e))" "FindDefmodule ''MAIN'' ?e = Some 0" "items ?e 0 \<noteq> None"
    by code_simp+
  then have "focus_ok ?e" by (auto simp: focus_ok_def list_all_iff)
  from NextActivationToFire_pops [OF this] show ?thesis by auto
qed

section \<open>Focus stack and modules\<close>

text \<open>
  Popping the focus undoes \<^verbatim>\<open>Focus\<close> on a module that is not the current focus: the module is
  returned, the stack is the one of before and the module below becomes current again.
\<close>

theorem Focus_PopFocus:
  assumes "top_focus e \<noteq> Some m"
  shows "fst (PopFocus (Focus (Some m) e)) = Some m \<and>
    CurrentFocus (engineD (snd (PopFocus (Focus (Some m) e)))) = CurrentFocus (engineD e) \<and>
    (\<forall>k. top_focus e = Some k \<longrightarrow> GetCurrentModule (snd (PopFocus (Focus (Some m) e))) = Some k)"
proof -
  let ?e = "Focus (Some m) e"
  have st: "CurrentFocus (engineD ?e) = m # CurrentFocus (engineD e)" using assms by (simp add: CurrentFocus_Focus)
  have "GetCurrentModule (snd (PopFocus ?e)) = Some k" if "top_focus e = Some k" for k
    using that st by (intro GetCurrentModule_PopFocus [of _ m k "tl (CurrentFocus (engineD e))"])
      (auto simp: top_focus_def split: list.splits)
  moreover have "fst (PopFocus ?e) = Some m" using st by (simp add: PopFocus_def RemoveFocus_def Let_def)
  ultimately show ?thesis using st by simp
qed

theorem Focus_PopFocus_witness:
  "CurrentFocus (engineD (snd (PopFocus (Focus (Some 1) sample_env)))) = [0]"
  using Focus_PopFocus [of sample_env 1] by (simp add: sample_env_def top_focus_def)

text \<open>\<^verbatim>\<open>ClearFocusStack\<close> ends with an empty focus stack and touches no agenda.\<close>

theorem ClearFocusStack_correct:
  "CurrentFocus (engineD (ClearFocusStack e)) = [] \<and> FocusChanged (engineD (ClearFocusStack e)) \<and>
    acts (ClearFocusStack e) = acts e \<and> items (ClearFocusStack e) = items e"
  using ClearFocusStack_empty ClearFocusStack_loop_frame by (simp add: ClearFocusStack_def set_engineD_def)

text \<open>
  The command \<^verbatim>\<open>focus\<close> with names of modules returns true and pushes them from the last to the
  first, so that the first one named ends up on top; a module already on top is not pushed twice.
\<close>

theorem FocusCommand_correct:
  assumes "map (\<lambda>name. FindDefmodule name e) names = map Some ms"
  shows "\<exists>e'. FocusCommand (map Some names) e = (Some True, e') \<and>
    CurrentFocus (engineD e') = foldr push_focus ms (CurrentFocus (engineD e)) \<and> acts e' = acts e \<and> items e' = items e"
proof -
  have "map (\<lambda>name. FindDefmodule name e) (rev names) = map Some (rev ms)" by (simp add: assms flip: rev_map)
  from focus_args_ok [OF this] show ?thesis by (simp add: FocusCommand_def rev_map foldr_conv_fold)
qed

theorem FocusCommand_correct_witness:
  "\<exists>e'. FocusCommand [Some ''AUX'', Some ''MAIN'', Some ''MAIN''] sample_env = (Some True, e') \<and> CurrentFocus (engineD e') = [1, 0]"
  using FocusCommand_correct [of sample_env "[''AUX'', ''MAIN'', ''MAIN'']" "[1, 0, 0]"]
  by (auto simp: FindDefmodule_def sample_env_def push_focus_def)

text \<open>
  A module switch between \<^verbatim>\<open>SaveCurrentModule\<close> and \<^verbatim>\<open>RestoreCurrentModule\<close> leaves no trace in the
  state of the modules, and no module change function is called.
\<close>

theorem Save_Restore_module:
  "RestoreCurrentModule (snd (SetCurrentModule m (SaveCurrentModule e))) = Some e"
  by (cases e; cases "moduleD e")
    (simp add: SaveCurrentModule_def RestoreCurrentModule_def SetCurrentModule_eq set_moduleD_def)

section \<open>Call lists and breakpoints\<close>

text \<open>
  Both lists of functions called around a firing stay ordered by falling priority, and a new
  function comes before those of the same priority.
\<close>

theorem call_lists_ordered:
  assumes "by_priority (ListOfBeforeRuleFiresFunctions (engineD e))" and "by_priority (ListOfAfterRuleFiresFunctions (engineD e))"
  shows "by_priority (ListOfBeforeRuleFiresFunctions (engineD (snd (AddBeforeRuleFiresFunction name func priority e)))) \<and>
    by_priority (ListOfAfterRuleFiresFunctions (engineD (snd (AddAfterRuleFiresFunction name func priority e)))) \<and>
    by_priority (ListOfBeforeRuleFiresFunctions (engineD (snd (RemoveBeforeRuleFiresFunction name e)))) \<and>
    by_priority (ListOfAfterRuleFiresFunctions (engineD (snd (RemoveAfterRuleFiresFunction name e)))) \<and>
    (\<exists>pre post. ListOfBeforeRuleFiresFunctions (engineD e) = pre @ post \<and>
       ListOfBeforeRuleFiresFunctions (engineD (snd (AddBeforeRuleFiresFunction name func priority e))) =
         pre @ \<lparr>fun_name = name, fun_id = func, fun_priority = priority\<rparr> # post \<and> (\<forall>f\<in>set pre. priority < fun_priority f))"
  by (intro conjI before.add_keeps_order [OF assms(1)] after.add_keeps_order [OF assms(2)] before.remove_keeps_order [OF assms(1)]
    after.remove_keeps_order [OF assms(2)] before.add_called)

theorem call_lists_ordered_witness:
  "by_priority (ListOfBeforeRuleFiresFunctions (engineD (snd (AddBeforeRuleFiresFunction ''f'' 1 7
     (snd (AddBeforeRuleFiresFunction ''g'' 2 9 sample_env))))))"
proof -
  have s: "by_priority (ListOfBeforeRuleFiresFunctions (engineD sample_env))" "by_priority (ListOfAfterRuleFiresFunctions (engineD sample_env))"
    by (simp_all add: sample_env_def by_priority_def)
  let ?e = "snd (AddBeforeRuleFiresFunction ''g'' 2 9 sample_env)"
  have "by_priority (ListOfBeforeRuleFiresFunctions (engineD ?e))" by (rule call_lists_ordered [OF s, THEN conjunct1])
  moreover have "by_priority (ListOfAfterRuleFiresFunctions (engineD ?e))"
    using s(2) by (simp add: AddBeforeRuleFiresFunction_def set_engineD_def)
  ultimately show ?thesis by (rule call_lists_ordered [THEN conjunct1])
qed

text \<open>
  Removing a function just added under a new name gives back the environment of before; a name
  that is not in the list is reported as not found and nothing changes.
\<close>

theorem call_list_roundtrip:
  assumes "name \<notin> fun_name ` set (ListOfAfterRuleFiresFunctions (engineD e))"
  shows "RemoveAfterRuleFiresFunction name (snd (AddAfterRuleFiresFunction name func priority e)) = (True, e) \<and>
    RemoveAfterRuleFiresFunction name e = (False, e)"
  using after.remove_after_add [OF assms] RemoveRuleFiredFunctionFromCallList_absent [OF assms] after.put_calls
  by (simp add: RemoveAfterRuleFiresFunction_def)

theorem call_list_roundtrip_witness:
  "RemoveAfterRuleFiresFunction ''f'' (snd (AddAfterRuleFiresFunction ''f'' 1 0 sample_env)) = (True, sample_env)"
  using call_list_roundtrip [of "''f''" sample_env 1 0] by (simp add: sample_env_def)

text \<open>
  \<^verbatim>\<open>SetBreak\<close> sets the breakpoint of every disjunct of a rule and of no other rule;
  \<^verbatim>\<open>RemoveBreak\<close> afterwards reports that there was one and clears them all.
\<close>

theorem SetBreak_RemoveBreak:
  assumes "disjunct_chain e (Some r) ds" and "distinct ds"
  shows "\<exists>e1 e2. SetBreak r e = Some e1 \<and> RemoveBreak r e1 = Some (True, e2) \<and>
    (\<forall>d\<in>set ds. DefruleHasBreakpoint d e1 = Some True \<and> DefruleHasBreakpoint d e2 = Some False) \<and>
    (\<forall>d. d \<notin> set ds \<longrightarrow> rules e1 d = rules e d \<and> rules e2 d = rules e d)"
proof -
  have ds: "rules e d \<noteq> None" if "d \<in> set ds" for d using disjunct_chain_rules [OF assms(1) that] .
  have r: "r \<in> set ds" using assms(1) by (cases ds) auto
  let ?e1 = "set_breaks True (set ds) e" and ?e2 = "set_breaks False (set ds) (set_breaks True (set ds) e)"
  have b: "DefruleHasBreakpoint d ?e1 = Some True" "DefruleHasBreakpoint d ?e2 = Some False" if "d \<in> set ds" for d
    using ds [OF that] that by (auto simp: DefruleHasBreakpoint_def set_breaks_rules)
  have "SetBreak r e = Some ?e1" unfolding SetBreak_def by (rule SetBreak_loop_eq [OF assms(1)])
  moreover have "RemoveBreak r ?e1 = Some (True, ?e2)"
    using RemoveBreak_loop_eq [of ?e1 "Some r" ds False] assms b(1) r by (auto simp: RemoveBreak_def)
  ultimately show ?thesis using b by (auto simp: set_breaks_rules)
qed

theorem SetBreak_RemoveBreak_witness:
  "\<exists>e1 e2. SetBreak 0 sample_env = Some e1 \<and> RemoveBreak 0 e1 = Some (True, e2) \<and> rules e2 1 = rules sample_env 1"
  using SetBreak_RemoveBreak [of sample_env 0 "[0]"] by (auto simp: sample_env_def sample_rule_def)

text \<open>
  C32.  \<^verbatim>\<open>RemoveAllBreakpoints\<close> walks over all modules but clears only the breakpoints of the rules of
  the current module; those of the rules of other modules stay.
\<close>

theorem RemoveAllBreakpoints_current:
  assumes "modules_ok e" and "ListOfDefmodules (moduleD e) \<noteq> []" and "CurrentModule (moduleD e) = Some m"
    and "module_rules e m D rs"
  shows "\<exists>e'. RemoveAllBreakpoints e = Some e' \<and>
    (\<forall>d. (\<exists>r\<in>set rs. d \<in> set (D r)) \<longrightarrow> DefruleHasBreakpoint d e' \<noteq> Some True) \<and>
    (\<forall>d. \<not> (\<exists>r\<in>set rs. d \<in> set (D r)) \<longrightarrow> rules e' d = rules e d)"
  using RemoveAllBreakpoints_eq [OF assms] by (auto simp: DefruleHasBreakpoint_def set_breaks_rules)

theorem RemoveAllBreakpoints_current_witness:
  "\<exists>e e'. SetBreak 2 sample_env = Some e \<and> RemoveAllBreakpoints e = Some e' \<and> DefruleHasBreakpoint 2 e' = Some True"
proof -
  let ?e = "set_breaks True {2} sample_env"
  have "disjunct_chain sample_env (Some 2) [2]" by (simp add: sample_env_def sample_rule_def)
  from SetBreak_loop_eq [OF this] have s: "SetBreak 2 sample_env = Some ?e" by (simp add: SetBreak_def)
  have m: "modules_ok ?e" using sample_modules(1) by (simp add: modules_ok_def)
  have "module_rules sample_env 0 (\<lambda>r. [r]) [0, 1]" by (simp add: module_rules_def sample_env_def sample_rule_def)
  then have r: "module_rules ?e 0 (\<lambda>r. [r]) [0, 1]" by simp
  have c: "ListOfDefmodules (moduleD ?e) \<noteq> []" "CurrentModule (moduleD ?e) = Some 0" by (simp_all add: sample_env_def)
  obtain e' where e': "RemoveAllBreakpoints ?e = Some e'" "rules e' 2 = rules ?e 2"
    using RemoveAllBreakpoints_current [OF m c r] by auto
  have "DefruleHasBreakpoint 2 ?e = Some True" by (simp add: DefruleHasBreakpoint_def set_breaks_rules sample_env_def sample_rule_def)
  with s e' show ?thesis by (auto simp: DefruleHasBreakpoint_def)
qed

section \<open>Sorting\<close>

text \<open>
  C33.  \<^verbatim>\<open>MergeSort\<close> always returns and never leaves its two arrays.  Whatever function is given for the
  comparison, even one that is no order, the result is a permutation of the list; with a
  comparison by a key it is the reference stable sort by that key.
\<close>

theorem MergeSort_sorts:
  fixes f :: "'v \<Rightarrow> 'k::linorder"
  assumes "length tempList = length theList"
  shows "(\<exists>ys. MergeSort swap (length theList) tempList theList = Some ys \<and> mset ys = mset theList) \<and>
    MergeSort (\<lambda>x y. f y < f x) (length theList) tempList theList = Some (sort_key f theList)"
  using MergeSort_eq [OF assms] msort_by_sort_key by simp

theorem MergeSort_sorts_witness:
  "MergeSort (\<lambda>x y. y < x) 5 [0, 0, 0, 0, 0] [3, 1, 2, 5, 4 :: int] = Some [1, 2, 3, 4, 5]"
  using MergeSort_sorts [of "[0, 0, 0, 0, 0]" "[3, 1, 2, 5, 4 :: int]" "\<lambda>_ _. True" "\<lambda>x. x"] by (simp add: eval_nat_numeral)

text \<open>
  \<^verbatim>\<open>sort\<close> checks its first argument before it sorts: without a function it returns false, an
  unknown name or a function that cannot take two arguments is a type error, and otherwise the
  values of all arguments are sorted together.
\<close>

theorem SortFunction_correct:
  assumes "\<forall>n. length (genalloc n) = n"
  shows "SortFunction FunctionReferenceExpression genalloc functionName arguments = Some (case functionName of
     None \<Rightarrow> SortFalse
   | Some name \<Rightarrow> (case FunctionReferenceExpression name of
       None \<Rightarrow> SortTypeError ''function name, deffunction name, or defgeneric name''
     | Some (functionReference, comparison) \<Rightarrow> (case arity_error functionReference of
         Some text \<Rightarrow> SortTypeError text
       | None \<Rightarrow> SortedList (msort_by comparison (concat (map argument_values arguments))))))"
  by (rule SortFunction_eq) (use assms in blast)

theorem SortFunction_correct_witness:
  "SortFunction (\<lambda>name. if name = ''>'' then Some (FCALL 2 3, \<lambda>x y. y < x) else None) (\<lambda>n. replicate n 0) (Some ''>'')
     [SingleArg 3, MultifieldArg [2, 1 :: int]] = Some (SortedList [1, 2, 3])"
  using SortFunction_correct [of "\<lambda>n. replicate n 0"
      "\<lambda>name. if name = ''>'' then Some (FCALL 2 3, \<lambda>x y. y < x) else None" "Some ''>''" "[SingleArg 3, MultifieldArg [2, 1 :: int]]"]
    msort_by_sort_key [of "\<lambda>x. x" "[3, 2, 1 :: int]"] by simp

section \<open>Atoms\<close>

text \<open>
  C34.  \<^verbatim>\<open>AddSymbol\<close> interns: it returns the address of a node with the string and the type, a second
  call finds the same node and changes nothing, and \<^verbatim>\<open>FindSymbolHN\<close> for that type finds it too.
\<close>

theorem AddSymbol_interns:
  assumes "symbols_ok s" and "\<forall>n. bit expectedType n \<longleftrightarrow> n = ty"
  shows "\<exists>x s'. AddSymbol (Some str) ty s = Some (x, s') \<and> symbols_ok s' \<and>
    atom_at (SymbolTable s') x = Some \<lparr>lex_type = ty, lex_string = str\<rparr> \<and>
    AddSymbol (Some str) ty s' = Some (x, s') \<and> FindSymbolHN str expectedType s' = Some (Some x)"
proof -
  obtain x s' where s': "AddSymbol (Some str) ty s = Some (x, s')" "symbols_ok s'"
    "atom_at (SymbolTable s') x = Some \<lparr>lex_type = ty, lex_string = str\<rparr>"
    using AddSymbol_ok [OF assms(1)] by blast
  have b: "bit expectedType n \<longleftrightarrow> n = ty" for n using assms(2) by blast
  from find_symbol [OF s'(2,3) b] s' show ?thesis by blast
qed

theorem AddSymbol_interns_witness:
  "\<exists>s x s'. InitializeAtomTables = Some s \<and> AddSymbol (Some TRUE_STRING) SYMBOL_TYPE s = Some (x, s') \<and>
    FindSymbolHN TRUE_STRING SYMBOL_BIT s' = Some (Some x)"
proof -
  obtain s where s: "InitializeAtomTables = Some s" "symbols_ok s" using InitializeAtomTables_ok by blast
  from AddSymbol_interns [OF s(2), of SYMBOL_BIT SYMBOL_TYPE TRUE_STRING] s(1) show ?thesis by (auto simp: SYMBOL_BIT_iff)
qed

text \<open>
  Different strings, and equal strings of different types, never share a node.
\<close>

theorem AddSymbol_distinct:
  assumes "symbols_ok s" and "AddSymbol (Some str) ty s = Some (x, s')" and "AddSymbol (Some str') ty' s' = Some (y, s'')"
  shows "x = y \<longleftrightarrow> str = str' \<and> ty = ty'"
proof -
  let ?k = "\<lparr>lex_type = ty, lex_string = str\<rparr>" and ?l = "\<lparr>lex_type = ty', lex_string = str'\<rparr>"
  have T: "table_ok hash_lexeme lexeme_eq (SymbolTable s)" using assms(1) by (simp add: symbols_ok_def)
  have k: "add_atom (hash_lexeme ?k) (lexeme_eq ?k) ?k (SymbolTable s) = Some (x, SymbolTable s')"
    using assms(2) by (auto simp: create_eqs)
  obtain t'' where l: "add_atom (hash_lexeme ?l) (lexeme_eq ?l) ?l (SymbolTable s') = Some (y, t'')"
    using assms(3) by (auto simp: create_eqs)
  show ?thesis
  proof
    assume "x = y"
    then show "str = str' \<and> ty = ty'" using lexeme.intern_distinct [OF T k l] by auto
  next
    assume "str = str' \<and> ty = ty'"
    then have "?l = ?k" by simp
    then show "x = y" using lexeme.intern_same [OF T k, of ?k] l by simp
  qed
qed

theorem AddSymbol_distinct_witness:
  "\<exists>s x s' y s''. AddSymbol (Some [97]) SYMBOL_TYPE s = Some (x, s') \<and> AddSymbol (Some [97]) STRING_TYPE s' = Some (y, s'') \<and> x \<noteq> y"
proof -
  obtain s where s: "symbols_ok s" using InitializeAtomTables_ok by blast
  obtain x s' where s': "AddSymbol (Some [97]) SYMBOL_TYPE s = Some (x, s')" "symbols_ok s'" using AddSymbol_ok [OF s] by blast
  obtain y s'' where s'': "AddSymbol (Some [97]) STRING_TYPE s' = Some (y, s'')" using AddSymbol_ok [OF s'(2)] by blast
  have "x \<noteq> y" using AddSymbol_distinct [OF s s'(1) s''] by (simp add: SYMBOL_TYPE_def STRING_TYPE_def)
  with s'(1) s'' show ?thesis by blast
qed

text \<open>
  Integers are interned: \<^verbatim>\<open>FindLongHN\<close> after \<^verbatim>\<open>CreateInteger\<close> finds the node, for every 64-bit value,
  the least one included.
\<close>

theorem CreateInteger_roundtrip:
  assumes "symbols_ok s"
  shows "\<exists>x s'. CreateInteger n s = Some (x, s') \<and> symbols_ok s' \<and> atom_at (IntegerTable s') x = Some n \<and>
    FindLongHN n s' = Some (Some x) \<and> CreateInteger n s' = Some (x, s')"
  using CreateInteger_ok [OF assms, of n] find_long by blast

theorem CreateInteger_roundtrip_witness:
  "\<exists>s x s'. InitializeAtomTables = Some s \<and> CreateInteger 0x8000000000000000 s = Some (x, s') \<and>
    FindLongHN 0x8000000000000000 s' = Some (Some x)"
  using InitializeAtomTables_ok CreateInteger_roundtrip [of _ "0x8000000000000000"] by blast

text \<open>
  C35.  Floats: the node returned by \<^verbatim>\<open>CreateFloat\<close> holds the bit pattern given, so the two zeros stay
  apart; a number is found again, but a value that is not a number gets a new node at every call.
\<close>

theorem CreateFloat_correct:
  assumes "symbols_ok s"
  shows "\<exists>x s' y s''. CreateFloat f s = Some (x, s') \<and> symbols_ok s' \<and> atom_at (FloatTable s') x = Some f \<and>
    CreateFloat f s' = Some (y, s'') \<and> (x = y \<longleftrightarrow> \<not> is_nan f)"
proof -
  obtain x s' where s': "CreateFloat f s = Some (x, s')" "symbols_ok s'" "atom_at (FloatTable s') x = Some f"
    using CreateFloat_ok [OF assms] by blast
  have T: "table_ok hash_float float_eq (FloatTable s')" using s'(2) by (simp add: symbols_ok_def)
  show ?thesis
  proof (cases "is_nan f")
    case True
    then obtain s'' where "CreateFloat f s' = Some (next_node (FloatTable s'), s'')" "atom_at (FloatTable s') (next_node (FloatTable s')) = None"
      using CreateFloat_nan [OF s'(2)] by blast
    with s' True show ?thesis by fastforce
  next
    case False
    then have "CreateFloat f s' = Some (x, s')"
      using float.present(1) [OF T s'(3)] by (simp add: create_eqs float_eq_def)
    with s' False show ?thesis by blast
  qed
qed

theorem CreateFloat_correct_witness:
  "\<exists>s x s' y s''. InitializeAtomTables = Some s \<and> CreateFloat 0x7FF8000000000000 s = Some (x, s') \<and>
    CreateFloat 0x7FF8000000000000 s' = Some (y, s'') \<and> x \<noteq> y"
proof -
  have "is_nan 0x7FF8000000000000" by code_simp
  moreover obtain s where "InitializeAtomTables = Some s" "symbols_ok s" using InitializeAtomTables_ok by blast
  ultimately show ?thesis using CreateFloat_correct [of s "0x7FF8000000000000"] by blast
qed

text \<open>
  A reference count never becomes negative: releasing a lexeme with count zero ends in the
  system error, and a retain followed by a release restores the count.
\<close>

theorem ReleaseLexeme_correct:
  assumes "symbols_ok s" and "nodes (SymbolTable s) x = Some N"
  shows "(ReleaseLexeme x s = None \<longleftrightarrow> node_count N = 0) \<and>
    (\<exists>s1 s2 m. RetainLexeme x s = Some s1 \<and> ReleaseLexeme x s1 = Some s2 \<and>
       nodes (SymbolTable s2) = (nodes (SymbolTable s))(x \<mapsto> N\<lparr>markedEphemeral := m\<rparr>))"
proof -
  have T: "table_ok hash_lexeme lexeme_eq (SymbolTable s)" using assms(1) by (simp add: symbols_ok_def)
  obtain t1 t2 m where t: "retain_atom x (SymbolTable s) = Some t1" "release_atom x t1 = Some t2"
    "nodes t2 = (nodes (SymbolTable s))(x \<mapsto> N\<lparr>markedEphemeral := m\<rparr>)"
    using retain_release [OF T assms(2)] by blast
  have "ReleaseLexeme x s = None \<longleftrightarrow> node_count N = 0"
    using release_atom_ok(1) [OF T assms(2)] by (auto simp: ReleaseLexeme_def)
  then show ?thesis using t by (auto simp: RetainLexeme_def ReleaseLexeme_def)
qed

theorem ReleaseLexeme_correct_witness:
  "\<exists>s x s' N. AddSymbol (Some [97, 98]) SYMBOL_TYPE s = Some (x, s') \<and> nodes (SymbolTable s') x = Some N \<and>
    (ReleaseLexeme x s' = None \<longleftrightarrow> node_count N = 0)"
proof -
  obtain s where s: "symbols_ok s" using InitializeAtomTables_ok by blast
  obtain x s' where s': "AddSymbol (Some [97, 98]) SYMBOL_TYPE s = Some (x, s')" "symbols_ok s'"
    "atom_at (SymbolTable s') x = Some \<lparr>lex_type = SYMBOL_TYPE, lex_string = [97, 98]\<rparr>" using AddSymbol_ok [OF s] by blast
  obtain N where "nodes (SymbolTable s') x = Some N" using s'(3) by (auto simp: atom_at_def)
  with s' ReleaseLexeme_correct [OF s'(2)] show ?thesis by blast
qed



text \<open>
  A new environment has its predefined symbols and the integer zero interned and in use; they
  survive a collection, and \<^verbatim>\<open>RefreshSpecialSymbols\<close> then finds the same nodes again.
\<close>

theorem InitializeAtomTables_correct:
  "\<exists>s s'. InitializeAtomTables = Some s \<and> symbols_ok s \<and> predefined s \<and>
    RemoveEphemeralAtoms s = Some s' \<and> predefined s' \<and> RefreshSpecialSymbols s' = Some s'"
proof -
  obtain s where s: "InitializeAtomTables = Some s" "symbols_ok s" "predefined s" using InitializeAtomTables_ok by blast
  obtain s' where s': "RemoveEphemeralAtoms s = Some s'" "symbols_ok s'" using RemoveEphemeralAtoms_ok [OF s(2)] by blast
  have p: "predefined s'" by (rule predefined_survive [OF s(2,3) s'(1)])
  have "RefreshSpecialSymbols s' = Some s'" by (rule RefreshSpecialSymbols_ok [OF s'(2) p])
  with s s'(1) p show ?thesis by blast
qed

text \<open>
  C37.  In every state that a new environment can reach by creating, retaining, releasing and marking
  atoms and by collections, in any order, the invariant of the five tables holds, so that every atom
  is found in its bucket, and every bucket is an index of the array of its table.
\<close>

theorem reachable_atom_tables_ok:
  assumes "InitializeAtomTables = Some s" and "atom_step\<^sup>*\<^sup>* s s'"
  shows "symbols_ok s' \<and> (\<forall>x N. nodes (SymbolTable s') x = Some N \<longrightarrow> bucket N < 63559) \<and>
    (\<forall>x N. nodes (FloatTable s') x = Some N \<longrightarrow> bucket N < 8191) \<and> (\<forall>x N. nodes (IntegerTable s') x = Some N \<longrightarrow> bucket N < 8191) \<and>
    (\<forall>x N. nodes (BitMapTable s') x = Some N \<longrightarrow> bucket N < 8191) \<and> (\<forall>x N. nodes (ExternalAddressTable s') x = Some N \<longrightarrow> bucket N < 8191)"
proof -
  have "symbols_ok s" using InitializeAtomTables_ok assms(1) by (metis option.inject)
  then have "symbols_ok s'" by (rule reachable_atoms_ok [OF assms(2)])
  then show ?thesis using buckets_in_range by blast
qed

theorem reachable_atom_tables_ok_witness:
  "\<exists>s x s'. InitializeAtomTables = Some s \<and> CreateInteger 7 s = Some (x, s') \<and> symbols_ok s'"
proof -
  obtain s where s: "InitializeAtomTables = Some s" "symbols_ok s" using InitializeAtomTables_ok by blast
  obtain x s' where s': "CreateInteger 7 s = Some (x, s')" using CreateInteger_ok [OF s(2)] by blast
  then have "atom_step\<^sup>*\<^sup>* s s'" by (intro r_into_rtranclp atom_step.create_integer)
  from reachable_atom_tables_ok [OF s(1) this] s(1) s' show ?thesis by blast
qed

section \<open>Facts\<close>

text \<open>
  C5.  \<^verbatim>\<open>Assert\<close> of a created fact returns.  Either the fact base holds a fact with the same template and
  the same values and that fact is returned, or the rule in execution has no support to give any more
  and nothing is asserted, or the fact is added behind the others with the next index.  In every
  case the lists, the hash table, the counts and the support links describe one sequence of facts
  again, and after an addition no fact waits for retraction.
\<close>

theorem Assert_correct:
  assumes "network_ok N" "flush_keeps N" "symbols_ok (symbolD e)" "fact_base_ok e xs k" "created e x F"
    and "\<forall>b. TheLogicalBind (engineD e) = Some b \<longrightarrow> matches e b \<noteq> None"
    and "\<not> joining e" "\<not> entered e" "NextFactIndex (factD e) \<noteq> 0" "length xs + k + 1 < 2 ^ 64"
  shows "\<exists>vs s res e'. Assert N x e = Some (res, e') \<and> atoms_extend (symbolD e) s \<and>
    list_all2 (nil_filled (e\<lparr>symbolD := s\<rparr>)) (theProposition F) vs \<and>
    (is_duplicate e xs x (whichDeftemplate F) vs k res e' \<or> is_refused e xs x k res e' \<or>
     is_asserted e xs [] x 0 (whichDeftemplate F) vs k res e')"
  using Assert_cases [OF assms] .

theorem Assert_correct_witness:
  "\<exists>vs s res e'. Assert sample_net 12 sample_facts = Some (res, e') \<and> atoms_extend sample_symbols1 s \<and>
    list_all2 (nil_filled (sample_facts\<lparr>symbolD := s\<rparr>)) [VoidAtom] vs \<and>
    (is_duplicate sample_facts [10, 11] 12 0 vs 0 res e' \<or> is_refused sample_facts [10, 11] 12 0 res e' \<or>
     is_asserted sample_facts [10, 11] [] 12 0 0 vs 0 res e')"
  using Assert_correct [OF sample_net_ok _ sample_facts_ok sample_created] sample_symbols1_ok by simp





text \<open>
  C8.  \<^verbatim>\<open>ForceLogicalRetractions\<close> ends, however many facts lose their support while it runs: it leaves
  nothing in the queue, and no fact that waited in the queue is still in the list.
\<close>

theorem ForceLogicalRetractions_correct:
  assumes "network_ok N" "fact_base_ok e xs k" "\<not> joining e" "\<not> entered e"
  shows "\<exists>e' xs'. ForceLogicalRetractions N e = Some e' \<and> fact_base_ok e' xs' k \<and> kept e e' \<and>
    \<not> entered e' \<and> \<not> joining e' \<and> unsupported e' = [] \<and> subseq xs' xs \<and> set (unsupported e) \<inter> set xs' = {}"
  using ForceLogicalRetractions_ok [OF assms] .

theorem ForceLogicalRetractions_correct_witness:
  "\<exists>e' xs'. ForceLogicalRetractions sample_net sample_waiting = Some e' \<and> fact_base_ok e' xs' 0 \<and>
    kept sample_waiting e' \<and> \<not> entered e' \<and> \<not> joining e' \<and> unsupported e' = [] \<and> subseq xs' [10, 11] \<and> {11} \<inter> set xs' = {}"
  using ForceLogicalRetractions_correct [OF sample_net_ok(1) sample_waiting_ok(1)] sample_waiting_ok(2-) by simp

text \<open>
  C7.  Truth maintenance refines a multigraph of support links: every operation of \<^verbatim>\<open>lgcldpnd.c\<close> returns,
  keeps the two sides of the links consistent, and changes the graph as specified; the withdrawal of
  the support of a match queues exactly the entities that have no other.
\<close>

theorem support_links_refine:
  assumes m: "mirrored e"
  shows "(entities e x \<noteq> None \<longrightarrow> (\<exists>e'. RemoveEntityDependencies x e = Some e' \<and> mirrored e' \<and>
      graph e' = spec_forget_entity x (graph e))) \<and>
    (matches e b \<noteq> None \<longrightarrow> (\<exists>e'. RemovePMDependencies b e = Some e' \<and> mirrored e' \<and>
      graph e' = spec_forget_match b (graph e) \<and> unsupported e' = unsupported e)) \<and>
    (matches e b \<noteq> None \<longrightarrow> (\<exists>e'. RemoveLogicalSupport b e = Some e' \<and> mirrored e' \<and>
      graph e' = spec_forget_match b (graph e) \<and>
      set (unsupported e') = spec_orphans b (graph e) \<union> set (unsupported e))) \<and>
    (entities e x \<noteq> None \<and> (\<forall>c. TheLogicalBind (engineD e) = Some c \<longrightarrow> matches e c \<noteq> None) \<longrightarrow>
      (\<exists>r e'. AddLogicalDependencies x existing e = Some (r, e') \<and> mirrored e' \<and>
        graph e' = spec_assert (TheLogicalJoin (engineD e) \<noteq> None) (supporter e) x existing (graph e)))"
proof (intro conjI impI; (elim conjE)?)
  show "\<exists>e'. RemoveEntityDependencies x e = Some e' \<and> mirrored e' \<and> graph e' = spec_forget_entity x (graph e)"
    if "entities e x \<noteq> None"
    using RemoveEntityDependencies_eq [OF m that] cut_mirrored(1) [OF m] graph_cut_entity
    by (auto simp: spec_forget_entity_def)
  assume b: "matches e b \<noteq> None"
  show "\<exists>e'. RemovePMDependencies b e = Some e' \<and> mirrored e' \<and> graph e' = spec_forget_match b (graph e) \<and> unsupported e' = unsupported e"
    using RemovePMDependencies_eq [OF m b] cut_mirrored(2) [OF m] graph_cut_match
    by (auto simp: spec_forget_match_def cut_match_def)
  show "\<exists>e'. RemoveLogicalSupport b e = Some e' \<and> mirrored e' \<and> graph e' = spec_forget_match b (graph e) \<and>
      set (unsupported e') = spec_orphans b (graph e) \<union> set (unsupported e)"
    using RemoveLogicalSupport_eq [OF m b] drop_mirrored [OF m] graph_drop_match orphans_queue [OF m]
    by (auto simp: spec_forget_match_def)
next
  assume x: "entities e x \<noteq> None" and b: "\<forall>c. TheLogicalBind (engineD e) = Some c \<longrightarrow> matches e c \<noteq> None"
  show "\<exists>r e'. AddLogicalDependencies x existing e = Some (r, e') \<and> mirrored e' \<and>
      graph e' = spec_assert (TheLogicalJoin (engineD e) \<noteq> None) (supporter e) x existing (graph e)"
    using AddLogicalDependencies_eq [OF m x] b logical_assertion_mirrored [OF m x] logical_assertion_graph [OF m x]
    by (metis prod.collapse)
qed

theorem support_links_refine_witness:
  "\<exists>e'. RemoveLogicalSupport 0 sample_facts = Some e' \<and> mirrored e' \<and>
    graph e' = spec_forget_match 0 (graph sample_facts) \<and>
    set (unsupported e') = spec_orphans 0 (graph sample_facts) \<union> set (unsupported sample_facts)"
  using support_links_refine [of sample_facts 11 0 False] fact_base_okD(5) [OF sample_facts_ok]
  by (simp add: support_part_def sample_match0)

text \<open>
  The search through the hash table decides whether the fact base holds a fact with the same
  template and the same values: \<^verbatim>\<open>FactWillBeAsserted\<close> is true exactly when duplicates are allowed or a
  search through the whole list would find none.
\<close>

theorem FactWillBeAsserted_correct:
  assumes "fact_base_ok e xs k" "created e x F"
  shows "\<exists>r e'. FactWillBeAsserted x e = Some (r, e') \<and>
    (r \<longleftrightarrow> FactDuplication (factD e) \<or> (\<forall>y\<in>set xs. \<not> holds e y (whichDeftemplate F) (theProposition F))) \<and>
    fact_base_ok e' xs k \<and> fact_ids e' = fact_ids e"
  using FactWillBeAsserted_list [OF assms] .

theorem FactWillBeAsserted_correct_witness:
  "\<exists>e'. FactWillBeAsserted 12 sample_facts = Some (True, e') \<and> fact_base_ok e' [10, 11] 0 \<and> fact_ids e' = fact_ids sample_facts"
  using FactWillBeAsserted_correct [OF sample_facts_ok sample_created] by (auto simp: holds_def fact_ids_def)

text \<open>
  C9.  Without fact duplication no two facts of the list ever have the same template and the same values:
  assertion and retraction keep this.
\<close>

theorem no_duplicates_kept:
  assumes "network_ok N" "flush_keeps N" "symbols_ok (symbolD e)" "fact_base_ok e xs k"
    and "\<forall>b. TheLogicalBind (engineD e) = Some b \<longrightarrow> matches e b \<noteq> None"
    and "\<not> joining e" "\<not> entered e" "NextFactIndex (factD e) \<noteq> 0" "length xs + k + 1 < 2 ^ 64"
    and d: "\<not> FactDuplication (factD e)" "no_duplicates e xs"
  shows "(\<forall>F. created e x F \<longrightarrow> (\<exists>res e' xs'. Assert N x e = Some (res, e') \<and> fact_base_ok e' xs' k \<and> no_duplicates e' xs')) \<and>
    (x \<in> set xs \<longrightarrow> (\<exists>rv e' xs'. RetractDriver N x m e = Some (rv, e') \<and> fact_base_ok e' xs' k \<and> no_duplicates e' xs'))"
proof (intro conjI allI impI)
  fix F
  assume c: "created e x F"
  have x: "x \<notin> set xs" using created_outside(1) [OF assms(4) c] .
  obtain vs res e' where a: "Assert N x e = Some (res, e')"
      "is_duplicate e xs x (whichDeftemplate F) vs k res e' \<or> is_refused e xs x k res e' \<or>
       is_asserted e xs [] x 0 (whichDeftemplate F) vs k res e'"
    using Assert_cases [OF assms(1-4) c assms(5-9)] by blast
  have "\<exists>xs'. fact_base_ok e' xs' k \<and> no_duplicates e' xs'"
    using a(2) x idle_no_duplicates [OF d(2) x] asserted_no_duplicates [of e xs "[]" x] d
    by (auto simp: is_duplicate_def is_refused_def)
  then show "\<exists>res e' xs'. Assert N x e = Some (res, e') \<and> fact_base_ok e' xs' k \<and> no_duplicates e' xs'" using a(1) by blast
next
  assume "x \<in> set xs"
  then obtain rv e' xs' where r: "RetractDriver N x m e = Some (rv, e')" "fact_base_ok e' xs' k" "kept e e'" "subseq xs' (remove1 x xs)"
    using RetractDriver_ok [OF assms(1,4,6,7)] by blast
  have "no_duplicates e' xs'"
    using subseq_set [OF r(4)] set_remove1_subset [of x xs] r(3) by (intro no_duplicates_sub [OF d(2)]) (auto simp: kept_def)
  then show "\<exists>rv e' xs'. RetractDriver N x m e = Some (rv, e') \<and> fact_base_ok e' xs' k \<and> no_duplicates e' xs'" using r by blast
qed

theorem no_duplicates_kept_witness:
  "\<exists>res e' xs'. Assert sample_net 12 sample_facts = Some (res, e') \<and> fact_base_ok e' xs' 0 \<and> no_duplicates e' xs'"
  using no_duplicates_kept [OF sample_net_ok _ sample_facts_ok, of 12 False] sample_symbols1_ok sample_created sample_no_duplicates by auto

text \<open>
  \<^verbatim>\<open>FindIndexedFact\<close> visits the facts in the order of the list and returns the one with the index
  sought, or nothing when there is none.
\<close>

theorem FindIndexedFact_correct:
  assumes "fact_base_ok e xs k"
  shows "FindIndexedFact i e = Some (List.find (\<lambda>x. map_option factIndex (facts e x) = Some i) xs)"
  using FindIndexedFact_list [OF assms] .

theorem FindIndexedFact_correct_witness: "FindIndexedFact 2 sample_facts = Some (Some 11)"
  using FindIndexedFact_correct [OF sample_facts_ok, of 2] by simp

text \<open>
  Adding a fact to the hash table puts it into its chain and loses no other, also when the table has
  to grow: every chain holds exactly the facts whose hash value leads to it.
\<close>

theorem AddHashedFact_correct:
  assumes "hash_part e xs" "\<forall>y\<in>set xs. facts e y \<noteq> None" "facts e x = Some F" "x \<notin> set xs"
  shows "\<exists>tbl n. AddHashedFact x (hashValue F) e = Some (set_table tbl n e) \<and> hash_part (set_table tbl n e) (x # xs)"
  using AddHashedFact_ok [OF assms(1) _ assms(3) refl assms(4)] assms(2) by blast

theorem AddHashedFact_correct_witness:
  "\<exists>tbl n. AddHashedFact 12 0 sample_facts = Some (set_table tbl n sample_facts) \<and>
    hash_part (set_table tbl n sample_facts) [12, 10, 11]"
  using AddHashedFact_correct [OF fact_base_okD(4) [OF sample_facts_ok], of 12 "sample_fact [] 0 0 None None VoidAtom"] by simp





section \<open>The join network\<close>

text \<open>
  C10.  \<^verbatim>\<open>UpdateBetaPMLinks\<close> on a new match returns and keeps the invariant of the join network.  The match is
  first in its bucket of a left memory and last in its bucket of a right memory; it becomes the first right child of its
  right parent and the first left child of its left parent; no other list changes.  If the memory has become too full it
  is resized, and then every bucket holds the matches whose hash value leads to it, in the old order.
\<close>

theorem UpdateBetaPMLinks_correct:
  assumes "rete_ok s A" "memory_at j sd s = Some m" "unplaced s A x" "solitary s A x"
    and "parent_ok right_side s x rhs" "parent_ok left_side s x lhs"
  shows "\<exists>s' A'. UpdateBetaPMLinks x lhs rhs j hv sd s = Some s' \<and> rete_ok s' A' \<and>
    owners s' = ((right_of (rete_env s))(x := rhs), (left_of (rete_env s))(x := lhs), blocker_of (rete_env s)) \<and>
    right_children s' A' = with_child x rhs (right_children s A) \<and> left_children s' A' = with_child x lhs (left_children s A) \<and>
    blocked_by s' A' = blocked_by s A \<and> (\<forall>j' sd'. j' \<noteq> j \<or> sd' \<noteq> sd \<longrightarrow> in_bucket A' j' sd' = in_bucket A j' sd') \<and>
    in_bucket A' j sd = (let i = unat (hv mod beta_size m); B = (in_bucket A j sd)(i := placed sd x (in_bucket A j sd i)) in
      if BetaMemoryResizingFlag s \<and> beta_size m > 1 \<and> beta_count m + 1 > beta_size m * 11
      then share (pms s') (beta_size m * 11) (matches_in (length (beta m)) B) else B)"
  unfolding Let_def using UpdateBetaPMLinks_ok [OF assms, of hv] .

theorem UpdateBetaPMLinks_correct_witness:
  "\<exists>s' A'. UpdateBetaPMLinks 22 (Some 21) (Some 20) 5 20 LHS sample_rete = Some s' \<and> rete_ok s' A' \<and>
    right_of (rete_env s') 22 = Some 20 \<and> left_of (rete_env s') 22 = Some 21 \<and> in_bucket A' 5 LHS 3 = [22, 21]"
proof -
  have m: "memory_at 5 LHS sample_rete = leftBeta sample_memories" by (simp add: sample_at)
  obtain m where m': "leftBeta sample_memories = Some m" "beta_size m = 17" "beta_count m = 1" by (simp add: sample_memories_def)
  have i: "unat ((20 :: u64) mod 17) = 3" by simp
  show ?thesis
    using UpdateBetaPMLinks_correct [OF sample_rete_ok m [unfolded m'(1)] sample_unplaced sample_parents, of 20]
    by (fastforce simp: owners_def Let_def m' i)
qed

text \<open>
  C12.  Extending a match: the match merged from \<open>l\<close> and \<open>r\<close> binds what \<open>l\<close> binds and after it what \<open>r\<close> binds, and once it is
  stored it is a child of both, it is in the memory of the next join, and the invariant holds.
\<close>

theorem extend_match_correct:
  assumes "rete_ok s A" "room s" "memory_at j sd s = Some m"
    and "pms s l = Some L" "left_side L" "rows s l = Some lr" "pms s r = Some R" "right_side R" "rows s r = Some rr" "binds rr = b # bs"
  shows "\<exists>s1 s' A'. MergePartialMatches own l (Some r) s = Some (fresh (rete_env s), s1) \<and>
    UpdateBetaPMLinks (fresh (rete_env s)) (Some l) (Some r) j hv sd s1 = Some s' \<and> rete_ok s' A' \<and>
    right_children s' A' = (right_children s A)(r := fresh (rete_env s) # right_children s A r) \<and>
    left_children s' A' = (left_children s A)(l := fresh (rete_env s) # left_children s A l) \<and> blocked_by s' A' = blocked_by s A \<and>
    right_of (rete_env s') (fresh (rete_env s)) = Some r \<and> left_of (rete_env s') (fresh (rete_env s)) = Some l \<and>
    map_option binds (rows s1 (fresh (rete_env s))) = Some (binds lr @ [b]) \<and> (\<exists>i. fresh (rete_env s) \<in> set (in_bucket A' j sd i))"
  using extend_ok [OF assms] .

theorem extend_match_correct_witness:
  "\<exists>s1 s' A'. MergePartialMatches 5 21 (Some 20) sample_rete = Some (30, s1) \<and>
    UpdateBetaPMLinks 30 (Some 21) (Some 20) 5 7 RHS s1 = Some s' \<and> rete_ok s' A' \<and>
    map_option binds (rows s1 30) = Some [Some (Some 1), Some (Some 0)]"
proof -
  obtain m where m: "memory_at 5 RHS sample_rete = Some m" by (simp add: sample_at sample_memories_def)
  show ?thesis
    using extend_match_correct [OF sample_rete_ok sample_room m, of 21 sample_left "new_row 5 [Some (Some 1)]"
        20 "blank_node\<lparr>betaMemory := False\<rparr>" "new_row 5 [Some (Some 0)]" "Some (Some 0)" "[]" 5 7]
    by (simp add: right_side_def sample_left_def blank_node_def new_row_def) blast
qed



text \<open>
  C13.  Storing a match and unlinking it again gives back the buckets, the children, the parents and the blocked matches of
  before, unless storing it made the memory grow.
\<close>

theorem update_unlink_roundtrip:
  assumes "rete_ok s A" "memory_at j sd s = Some m" "unplaced s A x" "solitary s A x"
    and "parent_ok right_side s x rhs" "parent_ok left_side s x lhs"
    and "\<not> (BetaMemoryResizingFlag s \<and> beta_size m > 1 \<and> beta_count m + 1 > beta_size m * 11)"
  shows "\<exists>s1 s' A'. UpdateBetaPMLinks x lhs rhs j hv sd s = Some s1 \<and> UnlinkBetaPMFromNodeAndLineage j x sd s1 = Some s' \<and>
    rete_ok s' A' \<and> in_bucket A' = in_bucket A \<and> right_children s' A' = right_children s A \<and> left_children s' A' = left_children s A \<and>
    blocked_by s' A' = blocked_by s A \<and> owners s' = owners s"
  using update_unlink_ok [OF assms] .

theorem update_unlink_roundtrip_witness:
  "\<exists>s1 s' A'. UpdateBetaPMLinks 22 (Some 21) (Some 20) 5 20 LHS sample_rete = Some s1 \<and>
    UnlinkBetaPMFromNodeAndLineage 5 22 LHS s1 = Some s' \<and> rete_ok s' A' \<and> in_bucket A' 5 LHS 3 = [21] \<and> owners s' = owners sample_rete"
proof -
  obtain m where m: "memory_at 5 LHS sample_rete = Some m" "beta_size m = 17" "beta_count m = 1" by (simp add: sample_at sample_memories_def)
  show ?thesis
    using update_unlink_roundtrip [OF sample_rete_ok m(1) sample_unplaced sample_parents, of 20] m(2,3) by fastforce
qed

text \<open>
  C14.  \<^verbatim>\<open>ResizeBetaMemory\<close> is a stable redistribution: afterwards every one of the eleven times as many buckets holds exactly the
  matches whose hash value leads to it, in the order in which the old buckets listed them, and no match changes otherwise.
\<close>

theorem ResizeBetaMemory_correct:
  assumes "rete_ok s A" "memory_at j sd s = Some m" "unat (beta_size m) * 121 < 2 ^ 64"
  shows "\<exists>s' A'. ResizeBetaMemory j sd s = Some s' \<and> rete_ok s' A' \<and>
    (\<forall>i. in_bucket A' j sd i = filter (\<lambda>x. bucket_for (pms s) (beta_size m * 11) x = i) (matches_in (length (beta m)) (in_bucket A j sd))) \<and>
    (\<forall>j' sd'. j' \<noteq> j \<or> sd' \<noteq> sd \<longrightarrow> in_bucket A' j' sd' = in_bucket A j' sd') \<and>
    rete_env s' = rete_env s \<and> pays_of memory_rest (pms s') = pays_of memory_rest (pms s)"
proof -
  note O = rete_okD [OF assms(1)]
  obtain s' where s': "ResizeBetaMemory j sd s = Some s'" "tree_ok s' A" "memories_ok s' (regrouped s j sd m A)" "rete_env s' = rete_env s"
      "pays_of memory_rest (pms s') = pays_of memory_rest (pms s)"
    using resize_ok [OF O(1,2) assms(2,3)] by blast
  have "tree_ok s' (regrouped s j sd m A)" using s'(2) by (simp add: tree_ok_def regrouped_def)
  then have "rete_ok s' (regrouped s j sd m A)" using s'(3) O(3,4) pays_of_dom_eq [OF s'(5)] by (simp add: rete_ok_def)
  then show ?thesis
    using s' by (intro exI [of _ s'] exI [of _ "regrouped s j sd m A"]) (auto simp: regrouped_def share_def)
qed

theorem ResizeBetaMemory_correct_witness:
  "\<exists>s' A'. ResizeBetaMemory 5 LHS sample_rete = Some s' \<and> rete_ok s' A' \<and> rete_env s' = rete_env sample_rete"
proof -
  obtain m where m: "memory_at 5 LHS sample_rete = Some m" "beta_size m = 17" by (simp add: sample_at sample_memories_def)
  show ?thesis using ResizeBetaMemory_correct [OF sample_rete_ok m(1)] m(2) by auto
qed



text \<open>
  C16.  A match that is deleted by \<^verbatim>\<open>UnlinkNonLeftLineage\<close> while it supports the rule that is firing keeps its pointers to its
  parents.  \<^verbatim>\<open>AddLogicalDependencies\<close> therefore does not notice that it is in the garbage list: an assertion later in the same
  right hand side is accepted and linked to the deleted match.
\<close>

theorem deleted_match_still_supports:
  assumes "UnlinkNonLeftLineage j x sd s = Some s1" "rows s x = Some r" "busy r" "leftParent r \<noteq> None \<or> rightParent r \<noteq> None"
    and "TheLogicalJoin (engineD (rete_env s)) \<noteq> None" "TheLogicalBind (engineD (rete_env s)) = Some x" "entities (rete_env s) y \<noteq> None"
  shows "\<exists>s2 e'. ReturnPartialMatch x s1 = Some s2 \<and> GarbagePartialMatches s2 = Some x \<and>
    AddLogicalDependencies y False (rete_env s2) = Some (True, e') \<and> y \<in> set (supported_by e' x)"
  using deleted_match_supports [OF assms] .

theorem deleted_match_still_supports_witness:
  "\<exists>s1 s2 e'. UnlinkNonLeftLineage 5 21 LHS sample_firing = Some s1 \<and> ReturnPartialMatch 21 s1 = Some s2 \<and>
    AddLogicalDependencies 0 False (rete_env s2) = Some (True, e') \<and> 0 \<in> set (supported_by e' 21)"
proof -
  obtain s1 where s1: "UnlinkNonLeftLineage 5 21 LHS sample_firing = Some s1" using sample_firing_unlinked by auto
  have r: "rows sample_firing 21 = Some ((new_row 5 [Some (Some 1)])\<lparr>busy := True, leftParent := Some 22\<rparr>)" by (simp add: sample_firing_def)
  show ?thesis
    using deleted_match_still_supports [OF s1 r, of 0] s1 by (auto simp: sample_firing_def sample_rete_def sample_env_def)
qed

section \<open>Alpha memories\<close>

text \<open>
  C17.  \<^verbatim>\<open>CreateAlphaMatch\<close> returns the new match, which binds the entity that matched, and puts it at the end of the matches of its
  pattern and its hash value, where \<^verbatim>\<open>GetAlphaMemory\<close> finds it; if there are none, a memory is created for them.  The contents of every
  other memory and the join network stay as they are, and the invariant of both holds.
\<close>

theorem CreateAlphaMatch_correct:
  fixes off :: u64
  assumes "net_ok a A B gs" "patternHeaders a h \<noteq> None" "alpha_room a"
  shows "\<exists>x a' B'. CreateAlphaMatch own rhs y ms h off a = Some (x, a') \<and> net_ok a' (with_new x A) B' gs \<and> match_nodes a x = None \<and>
    content a' B' = set_content h (AlphaMemoryHashValue h off) (content a B h (AlphaMemoryHashValue h off) @ [x]) (content a B) \<and>
    GetAlphaMemory h off a' = Some (Some (hd (content a B h (AlphaMemoryHashValue h off) @ [x]))) \<and>
    map_option binds (rows (alpha_rete a') x) = Some [Some (Some y)] \<and>
    map_option (\<lambda>n. (pm_hashValue n, alphaMarkers n)) (match_nodes a' x) = Some (off, ms)"
proof -
  let ?x = "fresh (rete_env (alpha_rete a))" and ?b = "AlphaMemoryHashValue h off"
  obtain a' B' where c: "CreateAlphaMatch own rhs y ms h off a = Some (?x, a')" "net_ok a' (with_new ?x A) B' gs"
      "content a' B' = set_content h ?b (content a B h ?b @ [?x]) (content a B)" "map_option binds (rows (alpha_rete a') ?x) = Some [Some (Some y)]"
      "map_option (\<lambda>n. (pm_hashValue n, alphaMarkers n)) (match_nodes a' ?x) = Some (off, ms)"
    using CreateAlphaMatch_net [OF assms, of own rhs y ms off] by blast
  have "GetAlphaMemory h off a' = Some (Some (hd (content a B h ?b @ [?x])))"
    using GetAlphaMemory_eq [OF net_okD(5) [OF c(2)], of h off] c(3) by (cases "content a B h ?b") (simp_all add: set_content_def)
  moreover have "match_nodes a ?x = None" using assms(3) by (auto simp: alpha_room_def room_def)
  ultimately show ?thesis using c by blast
qed

theorem CreateAlphaMatch_correct_witness:
  "\<exists>x a' B'. CreateAlphaMatch 5 False 1 [] 7 63552 sample_alpha = Some (x, a') \<and> net_ok a' (with_new x sample_lists) B' [24] \<and>
    content a' B' 7 0 = [20, x] \<and> GetAlphaMemory 7 63552 a' = Some (Some 20)"
  using CreateAlphaMatch_correct [OF sample_alpha_net_ok _ sample_alpha_room, of 7 5 False 1 "[]" 63552]
  by (fastforce simp: sample_hash sample_content set_content_def)

text \<open>
  C18.  \<^verbatim>\<open>RemoveAlphaMemoryMatches\<close> on a match that extends nothing and is extended by nothing returns: the match is taken out of its
  memory and put in front of the list of garbage matches, every other memory keeps its contents, and the invariant holds.  The
  memory itself is freed exactly when this was its last match.
\<close>

theorem RemoveAlphaMemoryMatches_correct:
  assumes "net_ok a A B gs" "holder B x = Some k" "amems a k = Some m" "removable (alpha_rete a) A x"
  shows "\<exists>a' B'. RemoveAlphaMemoryMatches (amh_owner m) x a = Some a' \<and> net_ok a' A B' (x # gs) \<and> holder B' = (holder B)(x := None) \<and>
    content a' B' = set_content (amh_owner m) (amh_bucket m) (remove1 x (content a B (amh_owner m) (amh_bucket m))) (content a B) \<and>
    dom (amems a') = (if content a B (amh_owner m) (amh_bucket m) = [x] then dom (amems a) - {k} else dom (amems a)) \<and>
    rete_env (alpha_rete a') = rete_env (alpha_rete a)"
  using RemoveAlphaMemoryMatches_net [OF assms] by blast

theorem RemoveAlphaMemoryMatches_correct_witness:
  "\<exists>a' B'. RemoveAlphaMemoryMatches 7 20 sample_alpha = Some a' \<and> net_ok a' sample_lists B' [20, 24] \<and> content a' B' 7 0 = [] \<and> amems a' = Map.empty"
  using RemoveAlphaMemoryMatches_correct [OF sample_alpha_net_ok _ _ sample_alpha_removable, of 25 sample_memory]
  by (fastforce simp: sample_memory_def sample_content set_content_def)





end
